(* ===== verification/Quro_Prelude.thy ===== *)
theory Quro_Prelude
  imports Main "HOL-Library.Multiset"
begin

text \<open>
  Shared vocabulary of the development: the identifier types that stand for the
  pointers of the C++ code, the collections of rewrite rules the components fill,
  and the generic facts on lists that several components use (unlinking one entry
  of a linked list, the first entry that satisfies a test, folding an insertion).
\<close>

named_theorems std_simps "what the operations of the container models compute"
named_theorems inv_intros "introduction rules for the components' invariants"
named_theorems step_defs "definitions of one step of a component, for unfolding"

section \<open>Pointers\<close>

text \<open>
  A pointer of the source is an address.  Two pointers are equal exactly when the
  addresses are, and \<open>std::set\<close> and \<open>std::map\<close> order pointers by address.
\<close>

type_synonym bid = nat    \<comment> \<open>\<open>codeBlock*\<close>\<close>
type_synonym cid = nat    \<comment> \<open>\<open>condBlock*\<close>\<close>
type_synonym vid = nat    \<comment> \<open>\<open>const VarDecl*\<close>\<close>

section \<open>Linked lists\<close>

text \<open>
  The loop \<open>while (en != NULL \<and> \<not> test(en)) \<dots>\<close> followed by unlinking \<open>en\<close>: the entry
  found and the list without it, or nothing when the loop reaches the end.
\<close>

fun unlink :: "('a \<Rightarrow> bool) \<Rightarrow> 'a list \<Rightarrow> ('a \<times> 'a list) option" where
  "unlink P [] = None"
| "unlink P (x # xs) =
     (if P x then Some (x, xs)
      else (case unlink P xs of None \<Rightarrow> None | Some (y, ys) \<Rightarrow> Some (y, x # ys)))"

lemma unlink_None [simp]: "unlink P xs = None \<longleftrightarrow> (\<forall>x \<in> set xs. \<not> P x)"
  by (induction xs) (auto split: option.splits)

lemma unlink_split:
  "unlink P xs = Some (y, ys) \<Longrightarrow>
   P y \<and> (\<exists>us vs. xs = us @ y # vs \<and> ys = us @ vs \<and> (\<forall>u \<in> set us. \<not> P u))"
proof (induction xs arbitrary: ys)
  case Nil
  then show ?case by simp
next
  case (Cons x xs)
  show ?case
  proof (cases "P x")
    case True
    with Cons.prems show ?thesis by (intro conjI exI [of _ "[]"] exI [of _ xs]) auto
  next
    case False
    with Cons.prems obtain zs where zs: "unlink P xs = Some (y, zs)" "ys = x # zs"
      by (auto split: option.splits)
    from Cons.IH [OF zs(1)] obtain us vs where
      "P y" "xs = us @ y # vs" "zs = us @ vs" "\<forall>u \<in> set us. \<not> P u"
      by blast
    with False zs(2) show ?thesis
      by (intro conjI exI [of _ "x # us"] exI [of _ vs]) auto
  qed
qed

lemma unlink_Some:
  assumes "unlink P xs = Some (y, ys)"
  shows "P y" "y \<in> set xs" "\<exists>us vs. xs = us @ y # vs \<and> ys = us @ vs \<and> (\<forall>u \<in> set us. \<not> P u)"
  using unlink_split [OF assms] by auto

lemma unlink_mset: "unlink P xs = Some (y, ys) \<Longrightarrow> mset xs = add_mset y (mset ys)"
  by (drule unlink_Some(3)) auto

lemma unlink_set: "unlink P xs = Some (y, ys) \<Longrightarrow> set xs = insert y (set ys)"
  by (drule unlink_Some(3)) auto

lemma unlink_length: "unlink P xs = Some (y, ys) \<Longrightarrow> length xs = Suc (length ys)"
  by (drule unlink_Some(3)) auto

lemma unlink_sorted_wrt: "unlink P xs = Some (y, ys) \<Longrightarrow> sorted_wrt R xs \<Longrightarrow> sorted_wrt R ys"
  by (drule unlink_Some(3)) (auto simp: sorted_wrt_append)

lemma unlink_distinct:
  "unlink P xs = Some (y, ys) \<Longrightarrow> distinct (map f xs) \<Longrightarrow>
   distinct (map f ys) \<and> f y \<notin> f ` set ys"
  by (drule unlink_Some(3)) auto

lemma find_mem: "List.find P xs = Some x \<Longrightarrow> x \<in> set xs \<and> P x"
  by (induction xs) (auto split: if_splits)

text \<open>Inserting an entry before the first one that fails a test.\<close>

fun insert_where :: "('a \<Rightarrow> bool) \<Rightarrow> 'a \<Rightarrow> 'a list \<Rightarrow> 'a list" where
  "insert_where P e [] = [e]"
| "insert_where P e (x # xs) = (if P x then x # insert_where P e xs else e # x # xs)"

lemma insert_where_eq:
  "insert_where P e xs = takeWhile P xs @ e # dropWhile P xs"
  by (induction xs) auto

lemma set_insert_where [simp]: "set (insert_where P e xs) = insert e (set xs)"
  by (induction xs) auto

lemma distinct_insert_where:
  "distinct (map f (insert_where P e xs)) \<longleftrightarrow> f e \<notin> f ` set xs \<and> distinct (map f xs)"
  by (induction xs) auto

lemma length_insert_where [simp]: "length (insert_where P e xs) = Suc (length xs)"
  by (induction xs) auto

lemma mset_insert_where [simp]: "mset (insert_where P e xs) = add_mset e (mset xs)"
  by (induction xs) auto

section \<open>Folds\<close>

lemma let_rule: "P a \<Longrightarrow> (\<And>x. P x \<Longrightarrow> P (f x)) \<Longrightarrow> P (let x = a in f x)"
  by (simp add: Let_def)

text \<open>A loop over a list whose body may fail.\<close>

fun foldM :: "('a \<Rightarrow> 's \<Rightarrow> 's option) \<Rightarrow> 'a list \<Rightarrow> 's \<Rightarrow> 's option" where
  "foldM f [] s = Some s"
| "foldM f (x # xs) s = (case f x s of None \<Rightarrow> None | Some s' \<Rightarrow> foldM f xs s')"

lemma foldM_append [simp]:
  "foldM f (xs @ ys) s = (case foldM f xs s of None \<Rightarrow> None | Some s' \<Rightarrow> foldM f ys s')"
  by (induction xs arbitrary: s) (auto split: option.splits)

lemma foldM_invariant:
  assumes "I s" and "\<And>x s. x \<in> set xs \<Longrightarrow> I s \<Longrightarrow> \<exists>s'. f x s = Some s' \<and> I s'"
  shows "\<exists>s'. foldM f xs s = Some s' \<and> I s'"
  using assms
proof (induction xs arbitrary: s)
  case Nil
  then show ?case by simp
next
  case (Cons x xs)
  from Cons.prems obtain s1 where "f x s = Some s1" "I s1" by fastforce
  with Cons show ?case by simp
qed

text \<open>A loop that, besides, achieves something for every element and never undoes it.\<close>

lemma foldM_marks:
  assumes "I s" and "\<And>x s. x \<in> set xs \<Longrightarrow> I s \<Longrightarrow> \<exists>s'. f x s = Some s' \<and> I s' \<and> le s s' \<and> Q x s'"
    and "\<And>s. le s s" and "\<And>s1 s2 s3. le s1 s2 \<Longrightarrow> le s2 s3 \<Longrightarrow> le s1 s3" and "\<And>x s s'. Q x s \<Longrightarrow> le s s' \<Longrightarrow> Q x s'"
  shows "\<exists>s'. foldM f xs s = Some s' \<and> I s' \<and> le s s' \<and> (\<forall>x \<in> set xs. Q x s')"
  using assms(1,2)
proof (induction xs arbitrary: s)
  case Nil
  then show ?case using assms(3) by simp
next
  case (Cons x xs)
  from Cons.prems obtain s1 where s1: "f x s = Some s1" "I s1" "le s s1" "Q x s1" by fastforce
  from Cons.IH [OF s1(2)] Cons.prems(2) obtain s' where
    s': "foldM f xs s1 = Some s'" "I s'" "le s1 s'" "\<forall>x \<in> set xs. Q x s'" by auto
  with assms(4) [OF s1(3) s'(3)] assms(5) [OF s1(4) s'(3)] s1(1) show ?case by simp
qed

lemma foldM_result:
  assumes "foldM f xs s = Some t" "I s"
    and "\<And>x s s'. x \<in> set xs \<Longrightarrow> I s \<Longrightarrow> f x s = Some s' \<Longrightarrow> I s'"
  shows "I t"
  using assms
proof (induction xs arbitrary: s)
  case Nil
  then show ?case by simp
next
  case (Cons x xs)
  then obtain s1 where "f x s = Some s1" "foldM f xs s1 = Some t"
    by (auto split: option.splits)
  with Cons.IH [of s1] Cons.prems show ?case by (meson list.set_intros)
qed

lemma fold_insert_set:
  assumes "\<And>x s. f (ins x s) = insert x (f s)"
  shows "f (fold ins xs s) = f s \<union> set xs"
  using assms by (induction xs arbitrary: s) auto

lemma fold_invariant:
  assumes "I s" and "\<And>x s. x \<in> set xs \<Longrightarrow> I s \<Longrightarrow> I (f x s)"
  shows "I (fold f xs s)"
  using assms by (induction xs arbitrary: s) auto

end
