(* ===== verification/Ilp_Base.thy ===== *)
theory Ilp_Base
  imports Quro_Prelude
begin

text \<open>
  What the programs under \<open>src/ILPsolvers/code\<close> share: the arrays that hold the ordering problem
  (\<open>nQueries\<close>, \<open>c_index\<close>, \<open>dep_cond\<close>, \<open>rd_cond\<close>), the rows of an integer program and what it
  means that an assignment satisfies them, the orders of the queries that the problem asks for,
  and the contract of a generator of integer programs, with what every generator that meets it
  gets from an optimal solution.
\<close>

section \<open>The ordering problem\<close>

text \<open>\<open>dep_cond\<close> and \<open>rd_cond\<close> are the first \<open>num_dep_cond\<close> and \<open>num_rd_cond\<close> entries of the
  arrays.\<close>

record ilp_info =
  nQueries :: int
  c_index :: "int list"
  dep_cond :: "(int \<times> int) list"
  rd_cond :: "(int \<times> int \<times> int) list"

text \<open>The queries get different positions from 0 to \<open>n\<close>, a dependence \<open>(a, b)\<close> puts \<open>a\<close> first,
  and \<open>(a, b, c)\<close> keeps the writer \<open>c\<close> out of the stretch from \<open>a\<close> to \<open>b\<close>.\<close>

definition orders ::
    "int \<Rightarrow> (int \<times> int) list \<Rightarrow> (int \<times> int \<times> int) list \<Rightarrow> (int \<Rightarrow> int) \<Rightarrow> bool" where
  "orders n deps rds p \<longleftrightarrow>
     (\<forall>i \<in> {0..<n}. 0 \<le> p i \<and> p i \<le> n) \<and> inj_on p {0..<n} \<and>
     (\<forall>(a, b) \<in> set deps. p a < p b) \<and>
     (\<forall>(a, b, c) \<in> set rds. p c < p a \<or> p b < p c)"

definition weight :: "ilp_info \<Rightarrow> (int \<Rightarrow> int) \<Rightarrow> int" where
  "weight I p = (\<Sum>i \<in> {0..<nQueries I}. c_index I ! nat i * p i)"

text \<open>The entries name queries; the bound on their number is the size of \<open>c_index\<close>.\<close>

definition well_formed :: "ilp_info \<Rightarrow> bool" where
  "well_formed I \<longleftrightarrow>
     0 \<le> nQueries I \<and> nQueries I \<le> 200 \<and> length (c_index I) = nat (nQueries I) \<and>
     (\<forall>(a, b) \<in> set (dep_cond I). a \<in> {0..<nQueries I} \<and> b \<in> {0..<nQueries I}) \<and>
     (\<forall>(a, b, c) \<in> set (rd_cond I). a \<in> {0..<nQueries I} \<and> b \<in> {0..<nQueries I} \<and>
        c \<in> {0..<nQueries I} \<and> c \<noteq> a \<and> c \<noteq> b)"

lemma well_formed_dep:
  "well_formed I \<Longrightarrow> (a, b) \<in> set (dep_cond I) \<Longrightarrow> a \<in> {0..<nQueries I} \<and> b \<in> {0..<nQueries I}"
  unfolding well_formed_def by blast

lemma well_formed_rd:
  "well_formed I \<Longrightarrow> (a, b, c) \<in> set (rd_cond I) \<Longrightarrow>
   a \<in> {0..<nQueries I} \<and> b \<in> {0..<nQueries I} \<and> c \<in> {0..<nQueries I} \<and> c \<noteq> a \<and> c \<noteq> b"
  unfolding well_formed_def by blast

lemma well_formed_n: "well_formed I \<Longrightarrow> nQueries I \<le> 200" "well_formed I \<Longrightarrow> 0 \<le> nQueries I"
  by (simp_all add: well_formed_def)

lemma ordersD:
  assumes "orders n deps rds p"
  shows "i \<in> {0..<n} \<Longrightarrow> 0 \<le> p i \<and> p i \<le> n"
    and "inj_on p {0..<n}"
    and "(a, b) \<in> set deps \<Longrightarrow> p a < p b"
    and "(a, b, c) \<in> set rds \<Longrightarrow> p c < p a \<or> p b < p c"
  using assms unfolding orders_def by blast+

section \<open>Rows\<close>

datatype sense = LE | GE

type_synonym 'v lin_row = "(int \<times> 'v) list \<times> sense \<times> int"

definition lin_val :: "('v \<Rightarrow> int) \<Rightarrow> (int \<times> 'v) list \<Rightarrow> int" where
  "lin_val x ts = sum_list (map (\<lambda>(c, v). c * x v) ts)"

fun row_holds :: "('v \<Rightarrow> int) \<Rightarrow> 'v lin_row \<Rightarrow> bool" where
  "row_holds x (ts, LE, r) \<longleftrightarrow> lin_val x ts \<le> r"
| "row_holds x (ts, GE, r) \<longleftrightarrow> r \<le> lin_val x ts"

lemma lin_val_simps [simp]:
  "lin_val x [] = 0"
  "lin_val x ((c, v) # ts) = c * x v + lin_val x ts"
  "lin_val x (us @ vs) = lin_val x us + lin_val x vs"
  by (simp_all add: lin_val_def)

text \<open>The pair of rows that a 0-1 variable switches between.\<close>

lemma either_row:
  assumes "e = 0 \<or> e = (1::int)" "a - b \<le> 9999" "b - a \<le> 9999" "c - d \<le> 9999" "d - c \<le> 9999"
  shows "a - b + 10000 * e \<ge> 1 \<and> c - d - 10000 * e \<ge> 1 - 10000 \<longleftrightarrow>
    (e = 0 \<and> b < a) \<or> (e = 1 \<and> d < c)"
  using assms by auto

text \<open>Each pair of rows with its 0-1 variable.\<close>

definition switched :: "int \<Rightarrow> int \<Rightarrow> int \<Rightarrow> int \<Rightarrow> int \<Rightarrow> bool" where
  "switched e a b c d \<longleftrightarrow>
     (e = 0 \<or> e = 1) \<and> a - b + 10000 * e \<ge> 1 \<and> c - d - 10000 * e \<ge> 1 - 10000"

lemma switched_iff:
  assumes "a - b \<le> 9999" "b - a \<le> 9999" "c - d \<le> 9999" "d - c \<le> 9999"
  shows "switched e a b c d \<longleftrightarrow> (e = 0 \<and> b < a) \<or> (e = 1 \<and> d < c)"
  using either_row [of e a b c d] assms unfolding switched_def by blast

lemma close: "n \<le> 200 \<Longrightarrow> 0 \<le> u \<Longrightarrow> u \<le> n \<Longrightarrow> 0 \<le> v \<Longrightarrow> v \<le> n \<Longrightarrow> u - v \<le> (9999::int)"
  by simp

text \<open>Positions under such pairs of rows are an order, and an order sets the 0-1 variables.\<close>

lemma orders_of_switched:
  assumes n: "n \<le> 200" and rng: "\<And>i. i \<in> {0..<n} \<Longrightarrow> 0 \<le> p i \<and> p i \<le> n"
    and pair: "\<And>i j. i \<in> {0..<n} \<Longrightarrow> j \<in> {0..<i} \<Longrightarrow> \<exists>e. switched e (p i) (p j) (p j) (p i)"
    and dep: "\<And>a b. (a, b) \<in> set deps \<Longrightarrow> p a < p b"
    and rd: "\<And>a b c. (a, b, c) \<in> set rds \<Longrightarrow> a \<in> {0..<n} \<and> b \<in> {0..<n} \<and> c \<in> {0..<n} \<and>
      (\<exists>e. switched e (p a) (p c) (p c) (p b))"
  shows "orders n deps rds p"
proof -
  note close = close [OF n]
  have lt: "p i \<noteq> p j" if ij: "i \<in> {0..<n}" "j \<in> {0..<i}" for i j
  proof -
    have j: "j \<in> {0..<n}" using ij by simp
    from pair [OF ij] obtain e where "switched e (p i) (p j) (p j) (p i)" by blast
    then show ?thesis
      by (subst (asm) switched_iff) (use rng [OF ij(1)] rng [OF j] close in auto)
  qed
  have inj: "inj_on p {0..<n}"
  proof (rule inj_onI)
    fix i j assume ij: "i \<in> {0..<n}" "j \<in> {0..<n}" "p i = p j"
    show "i = j" using lt [of i j] lt [of j i] ij by (cases i j rule: linorder_cases) auto
  qed
  have "p c < p a \<or> p b < p c" if "(a, b, c) \<in> set rds" for a b c
  proof -
    from rd [OF that] obtain e where abc: "a \<in> {0..<n}" "b \<in> {0..<n}" "c \<in> {0..<n}"
      and "switched e (p a) (p c) (p c) (p b)" by blast
    then show ?thesis
      by (subst (asm) switched_iff) (use rng [OF abc(1)] rng [OF abc(2)] rng [OF abc(3)] close in auto)
  qed
  then show ?thesis unfolding orders_def using rng inj dep by blast
qed

lemma switched_of_orders:
  assumes n: "n \<le> 200" and p: "orders n deps rds p"
  shows "i \<in> {0..<n} \<Longrightarrow> j \<in> {0..<n} \<Longrightarrow> i \<noteq> j \<Longrightarrow>
      switched (if p j < p i then 0 else 1) (p i) (p j) (p j) (p i)"
    and "(a, b, c) \<in> set rds \<Longrightarrow> a \<in> {0..<n} \<and> b \<in> {0..<n} \<and> c \<in> {0..<n} \<Longrightarrow>
      switched (if p c < p a then 0 else 1) (p a) (p c) (p c) (p b)"
proof -
  note pD = ordersD [OF p] and close = close [OF n]
  {
    assume ij: "i \<in> {0..<n}" "j \<in> {0..<n}" "i \<noteq> j"
    then have "p i \<noteq> p j" using inj_onD [OF pD(2)] by blast
    then show "switched (if p j < p i then 0 else 1) (p i) (p j) (p j) (p i)"
      by (subst switched_iff) (use pD(1) [OF ij(1)] pD(1) [OF ij(2)] close in auto)
  }
  {
    assume mem: "(a, b, c) \<in> set rds" and abc: "a \<in> {0..<n} \<and> b \<in> {0..<n} \<and> c \<in> {0..<n}"
    show "switched (if p c < p a then 0 else 1) (p a) (p c) (p c) (p b)"
      by (subst switched_iff)
        (use pD(1) [of a] pD(1) [of b] pD(1) [of c] abc pD(4) [OF mem] close in auto)
  }
qed

lemma switched_swap: "switched e a b b a \<Longrightarrow> switched (1 - e) b a a b"
  by (auto simp: switched_def)

text \<open>Loops over nested and numbered lists.\<close>

lemma all_concat: "(\<forall>y \<in> set (concat (map f xs)). P y) \<longleftrightarrow> (\<forall>x \<in> set xs. \<forall>y \<in> set (f x). P y)"
  by auto

lemma all_enumerate:
  "(\<forall>(k, y) \<in> set (enumerate 0 ys). P y) \<longleftrightarrow> (\<forall>y \<in> set ys. P y)"
proof -
  have "set ys = snd ` set (enumerate 0 ys)" by (metis map_snd_enumerate set_map)
  then show ?thesis by (simp add: split_beta)
qed

lemma in_enumerate: "y \<in> set ys \<Longrightarrow> (\<And>k. (k, y) \<in> set (enumerate 0 ys) \<Longrightarrow> P) \<Longrightarrow> P"
  using all_enumerate [of ys "\<lambda>z. z \<noteq> y"] by blast

section \<open>Moving an order\<close>

text \<open>Closing a gap, and exchanging two neighbours.\<close>

lemma orders_transfer:
  assumes p: "orders n deps rds p"
    and d: "\<forall>(a, b) \<in> set deps. a \<in> {0..<n} \<and> b \<in> {0..<n}"
    and r: "\<forall>(a, b, c) \<in> set rds. a \<in> {0..<n} \<and> b \<in> {0..<n} \<and> c \<in> {0..<n}"
    and range: "\<And>i. i \<in> {0..<n} \<Longrightarrow> 0 \<le> p' i \<and> p' i \<le> n"
    and mono: "\<And>i j. \<lbrakk>i \<in> {0..<n}; j \<in> {0..<n}; p i < p j\<rbrakk> \<Longrightarrow> p' i < p' j"
  shows "orders n deps rds p'"
  unfolding orders_def
proof (intro conjI)
  note pD = ordersD [OF p]
  show "\<forall>i \<in> {0..<n}. 0 \<le> p' i \<and> p' i \<le> n" using range by blast
  show "inj_on p' {0..<n}"
  proof (rule inj_onI)
    fix i j assume ij: "i \<in> {0..<n}" "j \<in> {0..<n}" "p' i = p' j"
    then have "\<not> p i < p j" "\<not> p j < p i" using mono [OF ij(1,2)] mono [OF ij(2,1)] by auto
    then show "i = j" using inj_onD [OF pD(2)] ij(1,2) by auto
  qed
  show "\<forall>(a, b) \<in> set deps. p' a < p' b"
    using d by (auto intro!: mono dest: pD(3) simp del: atLeastLessThan_iff)
  show "\<forall>(a, b, c) \<in> set rds. p' c < p' a \<or> p' b < p' c"
    using r pD(4) mono by blast
qed

definition close_gap :: "int \<Rightarrow> (int \<Rightarrow> int) \<Rightarrow> int \<Rightarrow> int" where
  "close_gap u p i = (if p i < u then p i + 1 else p i)"

lemma orders_close_gap:
  assumes p: "orders n deps rds p"
    and d: "\<forall>(a, b) \<in> set deps. a \<in> {0..<n} \<and> b \<in> {0..<n}"
    and r: "\<forall>(a, b, c) \<in> set rds. a \<in> {0..<n} \<and> b \<in> {0..<n} \<and> c \<in> {0..<n}"
    and u: "u \<notin> p ` {0..<n}" "u \<le> n"
  shows "orders n deps rds (close_gap u p)"
proof (rule orders_transfer [OF p d r])
  fix i assume i: "i \<in> {0..<n}"
  then show "0 \<le> close_gap u p i \<and> close_gap u p i \<le> n"
    using ordersD(1) [OF p i] u(2) by (auto simp: close_gap_def)
next
  fix i j assume ij: "i \<in> {0..<n}" "j \<in> {0..<n}" "p i < p j"
  have "p j \<noteq> u" using u(1) ij(2) by blast
  then show "close_gap u p i < close_gap u p j" using ij(3) by (auto simp: close_gap_def)
qed

lemma orders_swap:
  assumes p: "orders n deps rds p" and ij: "i \<in> {0..<n}" "j \<in> {0..<n}" "p j = p i + 1"
    and d: "\<forall>(a, b) \<in> set deps. a \<in> {0..<n} \<and> b \<in> {0..<n}"
    and r: "\<forall>(a, b, c) \<in> set rds. a \<in> {0..<n} \<and> b \<in> {0..<n} \<and> c \<in> {0..<n}"
    and free: "(i, j) \<notin> set deps" "\<forall>(a, b, c) \<in> set rds. \<not> (c = i \<and> a = j) \<and> \<not> (b = i \<and> c = j)"
  shows "orders n deps rds (p(i := p j, j := p i))" (is "orders _ _ _ ?p'")
proof -
  note pD = ordersD [OF p]
  have mono: "?p' a < ?p' b" if "a \<in> {0..<n}" "b \<in> {0..<n}" "p a < p b" "\<not> (a = i \<and> b = j)" for a b
  proof -
    have ne: "p a = p i \<longleftrightarrow> a = i" "p b = p i \<longleftrightarrow> b = i" "p a = p j \<longleftrightarrow> a = j" "p b = p j \<longleftrightarrow> b = j"
      using inj_onD [OF pD(2)] that(1,2) ij(1,2) by blast+
    show ?thesis using ne that(3,4) ij(3) unfolding fun_upd_apply by presburger
  qed
  show ?thesis unfolding orders_def
  proof (intro conjI)
    show "\<forall>k \<in> {0..<n}. 0 \<le> ?p' k \<and> ?p' k \<le> n"
      using pD(1) ij(1,2) by (simp add: fun_upd_apply del: atLeastLessThan_iff)
    show "inj_on ?p' {0..<n}"
    proof (rule inj_onI)
      fix a b assume ab: "a \<in> {0..<n}" "b \<in> {0..<n}" "?p' a = ?p' b"
      have ne: "p a = p i \<longrightarrow> a = i" "p b = p i \<longrightarrow> b = i" "p a = p j \<longrightarrow> a = j"
        "p b = p j \<longrightarrow> b = j" "p a = p b \<longrightarrow> a = b"
        using inj_onD [OF pD(2)] ab(1,2) ij(1,2) by blast+
      show "a = b" using ab(3) ne unfolding fun_upd_apply by presburger
    qed
    show "\<forall>(a, b) \<in> set deps. ?p' a < ?p' b"
      using d pD(3) free(1) mono by blast
    show "\<forall>(a, b, c) \<in> set rds. ?p' c < ?p' a \<or> ?p' b < ?p' c"
    proof (intro ballI, clarify)
      fix a b c assume abc: "(a, b, c) \<in> set rds" "\<not> ?p' b < ?p' c"
      have rng: "a \<in> {0..<n}" "b \<in> {0..<n}" "c \<in> {0..<n}" using r abc(1) by blast+
      have "\<not> (c = i \<and> a = j)" "\<not> (b = i \<and> c = j)" using free(2) abc(1) by blast+
      then show "?p' c < ?p' a" using pD(4) [OF abc(1)] mono [OF rng(3,1)] mono [OF rng(2,3)] abc(2)
        by blast
    qed
  qed
qed

lemma sum_swap:
  fixes g :: "int \<Rightarrow> int"
  assumes "i \<in> A" "j \<in> A" "i \<noteq> j" "finite A"
  shows "(\<Sum>k \<in> A. g k * (p(i := p j, j := p i)) k) - (\<Sum>k \<in> A. g k * p k) = (g i - g j) * (p j - p i)"
proof -
  have A: "A = insert i (insert j (A - {i, j}))" using assms by blast
  have eq: "(\<Sum>k \<in> A. g k * q k) = g i * q i + g j * q j + (\<Sum>k \<in> A - {i, j}. g k * q k)" for q
    by (subst A) (use assms in simp)
  have same: "(\<Sum>k \<in> A - {i, j}. g k * (p(i := p j, j := p i)) k) = (\<Sum>k \<in> A - {i, j}. g k * p k)"
    by (rule sum.cong) auto
  show ?thesis unfolding eq [of p] eq [of "p(i := p j, j := p i)"] same
    using assms(3) by (simp add: algebra_simps)
qed

section \<open>The contract of a generator\<close>

text \<open>A feasible assignment gives an order, every order comes from a feasible assignment, and the
  goal is the weight of the order.\<close>

locale ilp_generator =
  fixes valid :: "ilp_info \<Rightarrow> bool"
    and feas :: "ilp_info \<Rightarrow> ('v \<Rightarrow> int) \<Rightarrow> bool"
    and goal :: "ilp_info \<Rightarrow> ('v \<Rightarrow> int) \<Rightarrow> int"
    and qvar :: "int \<Rightarrow> 'v"
    and deps :: "ilp_info \<Rightarrow> (int \<times> int) list"
    and rds :: "ilp_info \<Rightarrow> (int \<times> int \<times> int) list"
  assumes valid: "valid I \<Longrightarrow> well_formed I"
    and sound: "\<lbrakk>valid I; feas I x\<rbrakk> \<Longrightarrow>
      orders (nQueries I) (deps I) (rds I) (\<lambda>i. x (qvar i))"
    and complete: "\<lbrakk>valid I; orders (nQueries I) (deps I) (rds I) p\<rbrakk> \<Longrightarrow>
      \<exists>x. feas I x \<and> (\<forall>i \<in> {0..<nQueries I}. x (qvar i) = p i)"
    and goal: "valid I \<Longrightarrow> goal I x = weight I (\<lambda>i. x (qvar i))"
    and deps: "valid I \<Longrightarrow> set (deps I) \<subseteq> set (dep_cond I)"
    and rds: "valid I \<Longrightarrow> set (rds I) \<subseteq> set (rd_cond I)"
begin

lemma deps_range:
  "valid I \<Longrightarrow> (a, b) \<in> set (deps I) \<Longrightarrow> a \<in> {0..<nQueries I} \<and> b \<in> {0..<nQueries I}"
  using deps well_formed_dep [OF valid] by blast

lemma rds_range:
  "valid I \<Longrightarrow> (a, b, c) \<in> set (rds I) \<Longrightarrow>
   a \<in> {0..<nQueries I} \<and> b \<in> {0..<nQueries I} \<and> c \<in> {0..<nQueries I}"
  using rds well_formed_rd [OF valid] by blast

lemma orders_cong:
  assumes "valid I" "\<forall>i \<in> {0..<nQueries I}. p i = q i"
  shows "orders (nQueries I) (deps I) (rds I) p = orders (nQueries I) (deps I) (rds I) q"
proof -
  have "inj_on p {0..<nQueries I} = inj_on q {0..<nQueries I}"
    by (rule inj_on_cong) (use assms(2) in auto)
  moreover have "p a = q a \<and> p b = q b" if "(a, b) \<in> set (deps I)" for a b
    using assms deps_range that by blast
  moreover have "p a = q a \<and> p b = q b \<and> p c = q c" if "(a, b, c) \<in> set (rds I)" for a b c
    using assms rds_range that by blast
  ultimately show ?thesis unfolding orders_def using assms(2) by fastforce
qed

text \<open>The solutions, as positions of the queries, are the orders.\<close>

lemma solutions:
  assumes wf: "valid I"
  shows "(\<exists>x. feas I x \<and> (\<forall>i \<in> {0..<nQueries I}. x (qvar i) = p i)) \<longleftrightarrow>
     orders (nQueries I) (deps I) (rds I) p"
  using sound [OF wf] complete [OF wf] orders_cong [OF wf] by metis

text \<open>A solution of largest goal cannot be beaten by an order of the queries.\<close>

lemma optimal_weight:
  assumes wf: "valid I" and opt: "\<forall>y. feas I y \<longrightarrow> goal I y \<le> goal I x"
    and p: "orders (nQueries I) (deps I) (rds I) p"
  shows "weight I p \<le> weight I (\<lambda>i. x (qvar i))"
proof -
  from complete [OF wf p] obtain y where y: "feas I y" "\<forall>i \<in> {0..<nQueries I}. y (qvar i) = p i"
    by blast
  have "weight I p = weight I (\<lambda>i. y (qvar i))"
    unfolding weight_def by (rule sum.cong) (use y(2) in auto)
  also have "\<dots> = goal I y" by (simp add: goal [OF wf])
  also have "\<dots> \<le> goal I x" using opt y(1) by blast
  finally show ?thesis by (simp add: goal [OF wf])
qed

text \<open>With indices above 0 the positions of an optimal solution are exactly 1 to \<open>n\<close>.\<close>

lemma optimal_dense:
  assumes wf: "valid I" and x: "feas I x" "\<forall>y. feas I y \<longrightarrow> goal I y \<le> goal I x"
    and pos: "\<forall>c \<in> set (c_index I). 0 < c"
  shows "(\<lambda>i. x (qvar i)) ` {0..<nQueries I} = {1..nQueries I}" (is "?p ` ?N = _")
proof -
  note p = sound [OF wf x(1)]
  have d: "\<forall>(a, b) \<in> set (deps I). a \<in> ?N \<and> b \<in> ?N" using deps_range [OF wf] by blast
  have r: "\<forall>(a, b, c) \<in> set (rds I). a \<in> ?N \<and> b \<in> ?N \<and> c \<in> ?N"
    using rds_range [OF wf] by blast
  have card: "card (?p ` ?N) = nat (nQueries I)" using card_image [OF ordersD(2) [OF p]] by simp
  have c_pos: "0 < c_index I ! nat i" if "i \<in> ?N" for i
    using pos that valid [OF wf] by (auto simp: well_formed_def)
  have sub: "{1..nQueries I} \<subseteq> ?p ` ?N"
  proof (rule ccontr)
    assume "\<not> ?thesis"
    then obtain u where u: "u \<in> {1..nQueries I}" "u \<notin> ?p ` ?N" by blast
    have "0 \<in> ?p ` ?N"
    proof (rule ccontr)
      assume "0 \<notin> ?p ` ?N"
      have "?p ` ?N \<subseteq> {1..nQueries I} - {u}"
      proof (clarify, simp only: Diff_iff atLeastAtMost_iff singleton_iff)
        fix i assume i: "i \<in> ?N"
        then have "?p i \<noteq> 0" "?p i \<noteq> u" using \<open>0 \<notin> _\<close> u(2) by force+
        then show "(1 \<le> ?p i \<and> ?p i \<le> nQueries I) \<and> ?p i \<noteq> u" using ordersD(1) [OF p i] by simp
      qed
      from card_mono [OF _ this] show False using u(1) by (auto simp: card)
    qed
    then obtain k where k: "k \<in> ?N" "?p k = 0" by auto
    have le: "\<And>i. i \<in> ?N \<Longrightarrow> c_index I ! nat i * ?p i \<le> c_index I ! nat i * close_gap u ?p i"
      using c_pos by (auto simp: close_gap_def)
    have "c_index I ! nat k * ?p k < c_index I ! nat k * close_gap u ?p k"
      using c_pos [OF k(1)] k(2) u(1) by (auto simp: close_gap_def)
    then have "weight I ?p < weight I (close_gap u ?p)"
      unfolding weight_def using le k(1) by (intro sum_strict_mono_ex1) auto
    moreover have "weight I (close_gap u ?p) \<le> weight I ?p"
      by (rule optimal_weight [OF wf x(2)], rule orders_close_gap [OF p d r u(2)]) (use u(1) in simp)
    ultimately show False by simp
  qed
  from card_subset_eq [OF _ sub] show ?thesis by (simp add: card)
qed

text \<open>Two neighbours that nothing keeps apart stand in the order of their indices.\<close>

lemma optimal_neighbours:
  assumes wf: "valid I" and x: "feas I x" "\<forall>y. feas I y \<longrightarrow> goal I y \<le> goal I x"
    and ij: "i \<in> {0..<nQueries I}" "j \<in> {0..<nQueries I}" "x (qvar j) = x (qvar i) + 1"
    and free: "(i, j) \<notin> set (deps I)"
      "\<forall>(a, b, c) \<in> set (rds I). \<not> (c = i \<and> a = j) \<and> \<not> (b = i \<and> c = j)"
  shows "c_index I ! nat i \<le> c_index I ! nat j"
proof -
  let ?p = "\<lambda>i. x (qvar i)" and ?N = "{0..<nQueries I}"
  have d: "\<forall>(a, b) \<in> set (deps I). a \<in> ?N \<and> b \<in> ?N" using deps_range [OF wf] by blast
  have r: "\<forall>(a, b, c) \<in> set (rds I). a \<in> ?N \<and> b \<in> ?N \<and> c \<in> ?N"
    using rds_range [OF wf] by blast
  have "weight I (?p(i := ?p j, j := ?p i)) \<le> weight I ?p"
    by (rule optimal_weight [OF wf x(2)], rule orders_swap [OF sound [OF wf x(1)] ij d r free])
  moreover have "i \<noteq> j" using ij(3) by auto
  ultimately have "(c_index I ! nat i - c_index I ! nat j) * (?p j - ?p i) \<le> 0"
    using sum_swap [OF ij(1,2), of "\<lambda>k. c_index I ! nat k" ?p] by (simp add: weight_def)
  then show ?thesis using ij(3) by simp
qed

end

end
