(* ===== verification/Quro_Text.thy ===== *)
theory Quro_Text
  imports Quro_Prelude "HOL-Library.Signed_Division" "HOL-Library.While_Combinator"
begin

text \<open>
  The text routines of QURO (\<open>QueryBlock.cpp\<close>, \<open>CBlocks.cpp\<close>): labels, the word
  splitter, the table file that gives each table its size, the conflict index of a
  statement, the analysis of a SQL string literal, and the renaming of a variable in
  a piece of code.  A fixed buffer that the code would overrun is the value \<open>None\<close>.
  The texts are C strings: no character of them is NUL.
\<close>

section \<open>Searching\<close>

text \<open>\<open>src.find(word, pos)\<close>, with \<open>None\<close> for \<open>string::npos\<close>.\<close>

fun str_scan :: "string \<Rightarrow> string \<Rightarrow> nat \<Rightarrow> nat option" where
  "str_scan w [] i = (if w = [] then Some i else None)"
| "str_scan w (c # cs) i =
     (if take (length w) (c # cs) = w then Some i else str_scan w cs (Suc i))"

definition str_find :: "string \<Rightarrow> string \<Rightarrow> nat \<Rightarrow> nat option" where
  "str_find src w pos = (if pos \<le> length src then str_scan w (drop pos src) pos else None)"

definition str_has :: "string \<Rightarrow> string \<Rightarrow> bool" where
  "str_has src w \<longleftrightarrow> str_find src w 0 \<noteq> None"

lemma str_scan_bounds: "str_scan w s i = Some j \<Longrightarrow> i \<le> j \<and> j + length w \<le> i + length s"
proof (induction w s i rule: str_scan.induct)
  case (1 w i)
  then show ?case by (auto split: if_splits)
next
  case (2 w c cs i)
  show ?case
  proof (cases "take (length w) (c # cs) = w")
    case True
    then have "length w \<le> length (c # cs)" by (metis length_take min.cobounded1)
    with 2(2) True show ?thesis by auto
  next
    case False
    with 2 show ?thesis by force
  qed
qed

lemma str_find_bounds:
  "str_find src w pos = Some j \<Longrightarrow> pos \<le> j \<and> j + length w \<le> length src"
  by (auto simp: str_find_def dest: str_scan_bounds split: if_splits)

lemma str_scan_at: "str_scan w s i = Some j \<Longrightarrow> take (length w) (drop (j - i) s) = w"
proof (induction w s i rule: str_scan.induct)
  case (1 w i)
  then show ?case by (auto split: if_splits)
next
  case (2 w c cs i)
  show ?case
  proof (cases "take (length w) (c # cs) = w")
    case True
    with 2(2) show ?thesis by auto
  next
    case False
    with 2(2) have rec: "str_scan w cs (Suc i) = Some j" by simp
    then have "j - i = Suc (j - Suc i)" using str_scan_bounds by fastforce
    with 2(1) [OF False rec] show ?thesis by simp
  qed
qed

lemma str_find_at:
  assumes "str_find src w pos = Some j"
  shows "take (length w) (drop j src) = w"
proof -
  have scan: "str_scan w (drop pos src) pos = Some j"
    using assms by (simp add: str_find_def split: if_splits)
  have "pos \<le> j" using str_find_bounds [OF assms] by simp
  with str_scan_at [OF scan] show ?thesis by simp
qed

section \<open>Labels\<close>

text \<open>A label that holds neither mark leaves \<open>label\<close> empty.\<close>

definition parseLabel :: "string \<Rightarrow> string" where
  "parseLabel label_name =
     (if str_has label_name ''QUERY_BEGIN'' then drop 11 label_name
      else if str_has label_name ''QUERY_END'' then drop 9 label_name else [])"

section \<open>Words\<close>

definition is_blank :: "char \<Rightarrow> bool" where
  "is_blank c \<longleftrightarrow> c = CHR '' '' \<or> c = CHR 0x09 \<or> c = CHR 0x0A \<or> c = CHR '',''"

text \<open>\<open>char s[1000]\<close> collects the current word; a word of 1000 characters overruns it.\<close>

fun split_go :: "string \<Rightarrow> string \<Rightarrow> string list option" where
  "split_go s [] = Some [s]"
| "split_go s (c # cs) =
     (if is_blank c then map_option (Cons s) (split_go [] cs)
      else if length s < 999 then split_go (s @ [c]) cs else None)"

definition splitByBlank :: "string \<Rightarrow> string list option" where
  "splitByBlank str = split_go [] str"

lemma split_go_words:
  "split_go s str = Some ws \<Longrightarrow> \<forall>c \<in> set s. \<not> is_blank c \<Longrightarrow>
   concat ws = s @ filter (\<lambda>c. \<not> is_blank c) str \<and>
   length ws = Suc (length (filter is_blank str)) \<and>
   (\<forall>w \<in> set ws. \<forall>c \<in> set w. \<not> is_blank c)"
proof (induction s str arbitrary: ws rule: split_go.induct)
  case (1 s)
  then show ?case by auto
next
  case (2 s c cs)
  show ?case
  proof (cases "is_blank c")
    case True
    with 2(3) obtain vs where vs: "split_go [] cs = Some vs" "ws = s # vs" by auto
    show ?thesis using 2(1) [OF True vs(1)] True vs(2) 2(4) by auto
  next
    case False
    with 2(3) have "length s < 999" "split_go (s @ [c]) cs = Some ws" by (auto split: if_splits)
    then show ?thesis using 2(2) [OF False] False 2(4) by auto
  qed
qed

lemma split_go_fits: "length s + length str < 1000 \<Longrightarrow> split_go s str \<noteq> None"
  by (induction s str rule: split_go.induct) auto

section \<open>Conflict indices\<close>

datatype OPERATION = INSERT | DELETE | UPDATE | SELECT

text \<open>
  \<open>(int)(4000000.0/(double)row_num)\<close> truncates towards zero; the quotient of two integers
  of this size is exact enough in a double for the truncation to be that of the exact
  quotient.  A table of no rows divides by zero and converts an infinity.
\<close>

definition getConflictIndex :: "int \<Rightarrow> OPERATION \<Rightarrow> int option" where
  "getConflictIndex row_num op =
     (if row_num = 0 then None
      else (let pri_index = 4000000 sdiv row_num in
            Some (if op = UPDATE then pri_index + 10000 else pri_index)))"

lemma sdiv_pos: "0 \<le> a \<Longrightarrow> 0 < b \<Longrightarrow> a sdiv b = a div (b::int)"
  by (cases "a = 0") (simp_all add: signed_divide_int_def sgn_if)

section \<open>The table file\<close>

text \<open>\<open>sscanf(s, \"%d\", \<dots>)\<close>: leading white space, a sign, digits; \<open>None\<close> when nothing is stored.
  The number of rows fits an \<open>int\<close>.\<close>

definition is_space :: "char \<Rightarrow> bool" where
  "is_space c \<longleftrightarrow> c = CHR '' '' \<or> (9 \<le> (of_char c :: nat) \<and> (of_char c :: nat) \<le> 13)"

definition is_digit :: "char \<Rightarrow> bool" where
  "is_digit c \<longleftrightarrow> 48 \<le> (of_char c :: nat) \<and> (of_char c :: nat) \<le> 57"

definition digits_val :: "string \<Rightarrow> int" where
  "digits_val ds = foldl (\<lambda>n d. 10 * n + (of_char d - 48)) 0 ds"

definition sscanf_d :: "string \<Rightarrow> int option" where
  "sscanf_d str =
     (let s = dropWhile is_space str;
          neg = (s \<noteq> [] \<and> hd s = CHR ''-'');
          t = (if s \<noteq> [] \<and> (hd s = CHR ''-'' \<or> hd s = CHR ''+'') then tl s else s);
          ds = takeWhile is_digit t
      in if ds = [] then None else Some (if neg then - digits_val ds else digits_val ds))"

type_synonym tables = "string \<Rightarrow> int option"

text \<open>
  \<open>readConflictInfo\<close> on the lines of the file: it stops at the first line that is not two
  words.  A line of 500 characters or more is cut and makes the next read fail, which
  reads as an empty line.  A second word that is no number leaves \<open>num_rows\<close>
  uninitialised, which is \<open>None\<close>.
\<close>

fun readConflictInfo :: "tables \<Rightarrow> string list \<Rightarrow> tables option" where
  "readConflictInfo tbls [] = Some tbls"
| "readConflictInfo tbls (line # lines) =
     (case splitByBlank (take 499 line) of
        None \<Rightarrow> None
      | Some ws \<Rightarrow>
          (if length ws \<noteq> 2 then Some tbls
           else (case sscanf_d (ws ! 1) of
                   None \<Rightarrow> None
                 | Some n \<Rightarrow>
                     (let tbls' = tbls(ws ! 0 \<mapsto> n) in
                      if length line < 500 then readConflictInfo tbls' lines else Some tbls'))))"

section \<open>SQL string literals\<close>

text \<open>\<open>VisitStmt\<close> in the first pass, on a \<open>StringLiteral\<close>.\<close>

datatype lit_error = Word_overflow | Assert_words | Name_overflow | Word_index | Assert_table
  | Zero_rows

type_synonym lit_result = "lit_error + (OPERATION \<times> string list)"

definition after_word :: "string \<Rightarrow> string list \<Rightarrow> string list" where
  "after_word w words = dropWhile (\<lambda>x. x \<noteq> w) words"

definition insert_table :: "string list \<Rightarrow> lit_result" where
  "insert_table words =
     (case after_word ''INTO'' words of
        _ # t # _ \<Rightarrow>
          (let name = takeWhile (\<lambda>c. c \<noteq> CHR ''('') t in
           if length name < 100 then Inr (INSERT, [name]) else Inl Name_overflow)
      | _ \<Rightarrow> Inl Assert_words)"

definition select_tables :: "string list \<Rightarrow> lit_result" where
  "select_tables words =
     (case after_word ''FROM'' words of
        _ # t # ts \<Rightarrow>
          Inr (SELECT, filter (\<lambda>w. 0 < length w) (takeWhile (\<lambda>w. w \<noteq> ''WHERE'') (t # ts)))
      | _ \<Rightarrow> Inl Assert_words)"

definition update_table :: "string list \<Rightarrow> lit_result" where
  "update_table words = (if 1 < length words then Inr (UPDATE, [words ! 1]) else Inl Word_index)"

definition delete_table :: "string list \<Rightarrow> lit_result" where
  "delete_table words =
     (case after_word ''FROM'' words of
        _ # t # _ \<Rightarrow> Inr (DELETE, [t]) | _ \<Rightarrow> Inl Assert_words)"

text \<open>The statement's operation and tables, \<open>None\<close> when the literal is no query.\<close>

definition literal_tables :: "string \<Rightarrow> lit_error + (OPERATION \<times> string list) option" where
  "literal_tables lit =
     (if str_has lit ''fail'' \<or> str_has lit ''FAIL'' then Inr None
      else (case splitByBlank lit of
              None \<Rightarrow> Inl Word_overflow
            | Some words \<Rightarrow>
                (let some = map_sum id Some in
                 if str_has lit ''INSERT'' then some (insert_table words)
                 else if str_has lit ''SELECT'' then some (select_tables words)
                 else if str_has lit ''UPDATE'' then some (update_table words)
                 else if str_has lit ''DELETE'' then some (delete_table words)
                 else Inr None)))"

text \<open>The loop over the tables: each must be known, and the last one's index stays.\<close>

fun tables_index :: "tables \<Rightarrow> OPERATION \<Rightarrow> int option \<Rightarrow> string list \<Rightarrow> lit_error + int option"
  where
  "tables_index tbls op idx [] = Inr idx"
| "tables_index tbls op idx (t # ts) =
     (case tbls t of
        None \<Rightarrow> Inl Assert_table
      | Some n \<Rightarrow> (case getConflictIndex n op of
                     None \<Rightarrow> Inl Zero_rows
                   | Some i \<Rightarrow> tables_index tbls op (Some i) ts))"

definition literal_index :: "tables \<Rightarrow> string \<Rightarrow> lit_error + int option" where
  "literal_index tbls lit =
     (case literal_tables lit of
        Inl e \<Rightarrow> Inl e
      | Inr None \<Rightarrow> Inr None
      | Inr (Some (op, ts)) \<Rightarrow> tables_index tbls op None ts)"

lemma tables_index_last:
  "tables_index tbls op idx ts = Inr r \<Longrightarrow> ts \<noteq> [] \<Longrightarrow>
   \<exists>n i. tbls (last ts) = Some n \<and> getConflictIndex n op = Some i \<and> r = Some i"
  by (induction ts arbitrary: idx) (auto split: option.splits if_splits)

lemma tables_index_known:
  "tables_index tbls op idx ts = Inr r \<Longrightarrow> t \<in> set ts \<Longrightarrow> tbls t \<noteq> None"
  by (induction ts arbitrary: idx) (auto split: option.splits)

section \<open>Renaming a variable in code\<close>

definition isSpecialChar :: "char \<Rightarrow> bool" where
  "isSpecialChar c =
     (let n = (of_char c :: nat) in
      if 97 \<le> n \<and> n \<le> 122 then False
      else if 65 \<le> n \<and> n \<le> 90 then False
      else if c = CHR ''_'' then False else True)"

text \<open>\<open>src[src.length()]\<close> is the terminating NUL, a special character.\<close>

definition char_at :: "string \<Rightarrow> nat \<Rightarrow> char" where
  "char_at s i = (if i < length s then s ! i else CHR 0x00)"

definition isVarStr :: "string \<Rightarrow> nat \<Rightarrow> nat \<Rightarrow> bool" where
  "isVarStr src pos len =
     (if pos = 0 then isSpecialChar (char_at src (pos + len))
      else if pos = length src - len then isSpecialChar (char_at src (pos - 1))
      else isSpecialChar (char_at src (pos - 1)) \<and> isSpecialChar (char_at src (pos + len)))"

text \<open>The inner loop: the next occurrence that is a whole word.\<close>

function next_var :: "string \<Rightarrow> string \<Rightarrow> nat option \<Rightarrow> nat option" where
  "next_var src w None = None"
| "next_var src w (Some p) =
     (if isVarStr src p (length w) then Some p else next_var src w (str_find src w (Suc p)))"
  by pat_completeness auto
termination
  by (relation "measure (\<lambda>(src, w, p). case p of None \<Rightarrow> 0 | Some p \<Rightarrow> Suc (Suc (length src) - p))")
     (auto split: option.splits dest!: str_find_bounds)

text \<open>The outer loop may run forever (when the new name holds the old one as a word).\<close>

definition replace_more :: "string \<Rightarrow> string \<times> nat option \<Rightarrow> bool" where
  "replace_more w st = (case snd st of None \<Rightarrow> False | Some p \<Rightarrow> str_find (fst st) w p \<noteq> None)"

definition replace_step :: "string \<Rightarrow> string \<Rightarrow> string \<times> nat option \<Rightarrow> string \<times> nat option" where
  "replace_step w new_word st =
     (let src = fst st in
      case next_var src w (str_find src w 0) of
        None \<Rightarrow> (src, None)
      | Some q \<Rightarrow> (take q src @ new_word @ drop (q + length w) src, Some q))"

definition replaceString :: "string \<Rightarrow> string \<Rightarrow> string \<Rightarrow> string option" where
  "replaceString src w new_word =
     map_option fst (while_option (replace_more w) (replace_step w new_word) (src, Some 0))"

text \<open>\<open>generateAssignment\<close>: the variable's type decides between a copy and an assignment.\<close>

datatype var_type = Char_array | Other_array | Scalar

definition generateAssignment :: "var_type \<Rightarrow> string \<Rightarrow> string \<Rightarrow> string" where
  "generateAssignment ty before after =
     (case ty of
        Char_array \<Rightarrow> ''strcpy('' @ after @ '', '' @ before @ '');'' @ [CHR 0x0A]
      | Other_array \<Rightarrow> []
      | Scalar \<Rightarrow> after @ '' = '' @ before @ '';'' @ [CHR 0x0A])"

lemma next_var_isVar:
  "next_var src w p = Some q \<Longrightarrow> p = Some p' \<Longrightarrow> p' + length w \<le> length src \<Longrightarrow>
   take (length w) (drop p' src) = w \<Longrightarrow>
   isVarStr src q (length w) \<and> q + length w \<le> length src \<and> take (length w) (drop q src) = w"
proof (induction src w p arbitrary: p' rule: next_var.induct)
  case (1 src w)
  then show ?case by simp
next
  case (2 src w p)
  show ?case
  proof (cases "isVarStr src p (length w)")
    case True
    with 2 show ?thesis by simp
  next
    case False
    with 2(2) have rec: "next_var src w (str_find src w (Suc p)) = Some q" by simp
    then obtain p1 where p1: "str_find src w (Suc p) = Some p1"
      by (cases "str_find src w (Suc p)") auto
    show ?thesis
      using 2(1) [OF False rec p1] str_find_bounds [OF p1] str_find_at [OF p1] by simp
  qed
qed

section \<open>Properties\<close>

text \<open>A text of less than 1000 characters is split into one word more than it has blanks; the words
  hold no blank, and together they are the text without its blanks.\<close>

theorem splitByBlank_splits:
  assumes "length str < 1000"
  shows "\<exists>ws. splitByBlank str = Some ws \<and>
     length ws = Suc (length (filter is_blank str)) \<and>
     (\<forall>w \<in> set ws. \<forall>c \<in> set w. \<not> is_blank c) \<and>
     concat ws = filter (\<lambda>c. \<not> is_blank c) str"
proof -
  from split_go_fits [of "[]" str] assms obtain ws where ws: "splitByBlank str = Some ws"
    by (auto simp: splitByBlank_def)
  with split_go_words [of "[]" str ws] show ?thesis by (auto simp: splitByBlank_def)
qed

lemma splitByBlank_splits_witness:
  "\<exists>ws. splitByBlank ''DELETE FROM t'' = Some ws \<and>
     length ws = Suc (length (filter is_blank ''DELETE FROM t'')) \<and>
     (\<forall>w \<in> set ws. \<forall>c \<in> set w. \<not> is_blank c) \<and>
     concat ws = filter (\<lambda>c. \<not> is_blank c) ''DELETE FROM t''"
  by (rule splitByBlank_splits) simp

text \<open>On tables with rows the conflict index of an operation is not smaller on the smaller table, and
  on one table an update has an index of 10000 more than any other operation.\<close>

theorem getConflictIndex_order:
  assumes "0 < m" and "m \<le> n"
  shows "\<exists>i j. getConflictIndex n op = Some i \<and> getConflictIndex m op = Some j \<and> 0 \<le> i \<and> i \<le> j \<and>
     getConflictIndex m UPDATE = Some (if op = UPDATE then j else j + 10000)"
proof -
  have "4000000 div n \<le> 4000000 div m" using assms by (intro zdiv_mono2) auto
  moreover have "0 \<le> 4000000 div n" using assms by (simp add: pos_imp_zdiv_nonneg_iff)
  ultimately show ?thesis using assms by (simp add: getConflictIndex_def Let_def sdiv_pos)
qed

lemma getConflictIndex_order_witness:
  "\<exists>i j. getConflictIndex 1000 SELECT = Some i \<and> getConflictIndex 10 SELECT = Some j \<and> 0 \<le> i \<and> i \<le> j \<and>
     getConflictIndex 10 UPDATE = Some (if SELECT = UPDATE then j else j + 10000)"
  by (rule getConflictIndex_order) simp_all

text \<open>A string literal that gets a conflict index is a query on known tables only, and the index is
  that of its last table.\<close>

theorem literal_index_last_table:
  assumes "literal_index tbls lit = Inr (Some i)"
  shows "\<exists>op ts n. literal_tables lit = Inr (Some (op, ts)) \<and> ts \<noteq> [] \<and> (\<forall>t \<in> set ts. tbls t \<noteq> None) \<and>
     tbls (last ts) = Some n \<and> getConflictIndex n op = Some i"
proof -
  from assms obtain op ts where ts: "literal_tables lit = Inr (Some (op, ts))"
    "tables_index tbls op None ts = Inr (Some i)"
    by (auto simp: literal_index_def split: sum.splits option.splits)
  then have "ts \<noteq> []" by auto
  with tables_index_last [OF ts(2)] tables_index_known [OF ts(2)] ts(1) show ?thesis by blast
qed

definition example_tables :: tables where
  "example_tables = [''t'' \<mapsto> 100, ''u'' \<mapsto> 40000]"

lemma literal_index_last_table_witness:
  "\<exists>op ts n. literal_tables ''SELECT a FROM t u WHERE b'' = Inr (Some (op, ts)) \<and> ts \<noteq> [] \<and>
     (\<forall>t \<in> set ts. example_tables t \<noteq> None) \<and>
     example_tables (last ts) = Some n \<and> getConflictIndex n op = Some 100"
  by (rule literal_index_last_table) code_simp

end
