(* ===== verification/Ilp_Input.thy ===== *)
theory Ilp_Input
  imports Ilp_Base Quro_Text "HOL-Library.While_Combinator"
begin

text \<open>
  The text of \<open>queryinfo.txt\<close>: how numbers are printed, the input stream that the generators
  under \<open>src/ILPsolvers/code\<close> read it from (\<open>>>\<close>, \<open>getline\<close>, \<open>eof\<close>, \<open>sscanf\<close>), and the reading
  loops of \<open>gurobi/generate_ilp.cpp\<close>, \<open>lp_solve_5.5/quro/ilp_test.cpp\<close> and \<open>ilp_query.cpp\<close>.
\<close>

section \<open>Printed numbers\<close>

definition digit :: "nat \<Rightarrow> char" where
  "digit d = char_of (48 + d)"

fun show_nat :: "nat \<Rightarrow> string" where
  "show_nat n = (if n < 10 then [digit n] else show_nat (n div 10) @ [digit (n mod 10)])"

declare show_nat.simps [simp del]

definition show_int :: "int \<Rightarrow> string" where
  "show_int i = (if i < 0 then CHR ''-'' # show_nat (nat (- i)) else show_nat (nat i))"

lemma of_char_digit: "d < 10 \<Longrightarrow> (of_char (digit d) :: nat) = 48 + d"
  by (simp add: digit_def)

lemma of_char_digit_int: "d < 10 \<Longrightarrow> (of_char (digit d) :: int) = 48 + int d"
  using of_char_digit [of d] by (metis of_nat_add of_nat_numeral of_nat_of_char)

lemma is_digit_digit: "d < 10 \<Longrightarrow> is_digit (digit d)"
  by (simp add: is_digit_def of_char_digit)

lemma show_nat_digits: "set (show_nat n) \<subseteq> Collect is_digit"
  by (induction n rule: show_nat.induct) (subst show_nat.simps, auto simp: is_digit_digit)

lemma show_nat_ne: "show_nat n \<noteq> []"
  by (subst show_nat.simps) simp

lemma digits_val_snoc: "digits_val (ds @ [d]) = 10 * digits_val ds + (of_char d - 48)"
  by (simp add: digits_val_def)

lemma digits_val_show: "digits_val (show_nat n) = int n"
proof (induction n rule: show_nat.induct)
  case (1 n)
  show ?case
  proof (cases "n < 10")
    case True
    then show ?thesis by (subst show_nat.simps) (simp add: digits_val_def of_char_digit_int)
  next
    case False
    with 1 have "digits_val (show_nat (n div 10)) = int (n div 10)" by simp
    with False show ?thesis
      by (subst show_nat.simps) (simp add: digits_val_snoc of_char_digit_int zdiv_int zmod_int)
  qed
qed

lemma length_show_nat: "n < 10 ^ k \<Longrightarrow> 0 < k \<Longrightarrow> length (show_nat n) \<le> k"
proof (induction k arbitrary: n)
  case 0
  then show ?case by simp
next
  case (Suc k)
  show ?case
  proof (cases "n < 10")
    case True
    then show ?thesis by (subst show_nat.simps) simp
  next
    case False
    with Suc.prems have "n div 10 < 10 ^ k" "0 < k" by (auto intro: gr0I simp: less_mult_imp_div_less)
    from Suc.IH [OF this] False show ?thesis by (subst show_nat.simps) simp
  qed
qed

section \<open>The input stream\<close>

text \<open>An \<open>ifstream\<close>: the characters ahead, \<open>eofbit\<close> and \<open>failbit\<close>.\<close>

record istream =
  ahead :: string
  eofbit :: bool
  failbit :: bool

definition good :: "istream \<Rightarrow> bool" where
  "good s \<longleftrightarrow> \<not> eofbit s \<and> \<not> failbit s"

definition open_stream :: "string \<Rightarrow> istream" where
  "open_stream str = \<lparr>ahead = str, eofbit = False, failbit = False\<rparr>"

text \<open>\<open>infile >> n\<close> for an \<open>int\<close>: white space, a sign, digits.  A stream that is not good is left
  alone, and \<open>n\<close> with it; a text that is no number gives 0, and a number outside of \<open>int\<close> the
  nearest one, both with \<open>failbit\<close>.\<close>

definition int_limit :: int where "int_limit = 2147483647"

definition read_int :: "int \<Rightarrow> istream \<Rightarrow> int \<times> istream" where
  "read_int old s =
     (if \<not> good s then (old, s\<lparr>failbit := True\<rparr>)
      else
        let r = dropWhile is_space (ahead s)
        in if r = [] then (old, \<lparr>ahead = [], eofbit = True, failbit = True\<rparr>)
           else
             let neg = (hd r = CHR ''-'');
                 t = (if hd r = CHR ''-'' \<or> hd r = CHR ''+'' then tl r else r);
                 ds = takeWhile is_digit t;
                 rest = dropWhile is_digit t;
                 v = (if neg then - digits_val ds else digits_val ds)
             in if ds = [] then (0, \<lparr>ahead = rest, eofbit = (rest = []), failbit = True\<rparr>)
                else if v < - int_limit - 1
                then (- int_limit - 1, \<lparr>ahead = rest, eofbit = (rest = []), failbit = True\<rparr>)
                else if int_limit < v
                then (int_limit, \<lparr>ahead = rest, eofbit = (rest = []), failbit = True\<rparr>)
                else (v, \<lparr>ahead = rest, eofbit = (rest = []), failbit = False\<rparr>))"

text \<open>\<open>infile.getline(line, 300)\<close>: up to the newline, which is taken; 299 characters fit, and
  a longer line sets \<open>failbit\<close>.  On a stream that is not good the line is empty.\<close>

definition getline :: "istream \<Rightarrow> string \<times> istream" where
  "getline s =
     (if \<not> good s then ([], s\<lparr>failbit := True\<rparr>)
      else
        let l = takeWhile (\<lambda>c. c \<noteq> CHR 0x0A) (ahead s);
            rest = dropWhile (\<lambda>c. c \<noteq> CHR 0x0A) (ahead s)
        in if 299 < length l
           then (take 299 l, \<lparr>ahead = drop 299 l @ rest, eofbit = False, failbit = True\<rparr>)
           else if rest = []
           then (l, \<lparr>ahead = [], eofbit = True, failbit = (l = [])\<rparr>)
           else (l, s\<lparr>ahead := tl rest\<rparr>))"

text \<open>\<open>sscanf(line, "%d %d", \<dots>)\<close>: the numbers that were matched, in order, stopping at the first
  that is missing.\<close>

definition scan_d :: "string \<Rightarrow> (int \<times> string) option" where
  "scan_d str =
     (let s = dropWhile is_space str;
          t = (if s \<noteq> [] \<and> (hd s = CHR ''-'' \<or> hd s = CHR ''+'') then tl s else s)
      in map_option (\<lambda>v. (v, dropWhile is_digit t)) (sscanf_d str))"

primrec sscanf_ds :: "nat \<Rightarrow> string \<Rightarrow> int list" where
  "sscanf_ds 0 str = []"
| "sscanf_ds (Suc k) str =
     (case scan_d str of None \<Rightarrow> [] | Some (v, rest) \<Rightarrow> v # sscanf_ds k rest)"

definition cnt_num_blank :: "string \<Rightarrow> nat" where
  "cnt_num_blank line = length (filter (\<lambda>c. c = CHR '' '') line)"

section \<open>The reading loops\<close>

text \<open>\<open>while (!infile.eof()) { infile.getline(line, 300); \<dots> }\<close>; \<open>None\<close> when it never ends.\<close>

definition line_step :: "(string \<Rightarrow> 'a \<Rightarrow> 'a) \<Rightarrow> istream \<times> 'a \<Rightarrow> istream \<times> 'a" where
  "line_step f st = (let (line, s) = getline (fst st) in (s, f line (snd st)))"

definition read_lines :: "(string \<Rightarrow> 'a \<Rightarrow> 'a) \<Rightarrow> istream \<Rightarrow> 'a \<Rightarrow> 'a option" where
  "read_lines f s a =
     map_option snd (while_option (\<lambda>st. \<not> eofbit (fst st)) (line_step f) (s, a))"

text \<open>\<open>for (i < nQueries) infile >> c_index[i]\<close>.\<close>

primrec read_indices :: "nat \<Rightarrow> istream \<Rightarrow> int list \<times> istream" where
  "read_indices 0 s = ([], s)"
| "read_indices (Suc k) s =
     (let (c, s) = read_int 0 s; (cs, s) = read_indices k s in (c # cs, s))"

text \<open>An entry that \<open>sscanf\<close> leaves alone keeps the 0 of the array.\<close>

definition entry :: "int list \<Rightarrow> nat \<Rightarrow> int" where
  "entry vs k = (if k < length vs then vs ! k else 0)"

definition add_line :: "string \<Rightarrow> (int \<times> int) list \<times> (int \<times> int \<times> int) list \<Rightarrow>
    (int \<times> int) list \<times> (int \<times> int \<times> int) list" where
  "add_line line st =
     (let (dep, rd) = st in
      if cnt_num_blank line = 1
      then (let vs = sscanf_ds 2 line in (dep @ [(entry vs 0, entry vs 1)], rd))
      else if cnt_num_blank line = 2
      then (let vs = sscanf_ds 3 line in (dep, rd @ [(entry vs 0, entry vs 1, entry vs 2)]))
      else (dep, rd))"

text \<open>The arrays of \<open>generate_ilp\<close> and \<open>ilp_test\<close> have room for 200 indices and 1000 entries; more
  is written past their end.  Without the file the stream starts with \<open>failbit\<close>.\<close>

datatype read_error = Endless | Overflow

definition stream_of :: "string option \<Rightarrow> istream" where
  "stream_of file = (case file of
     None \<Rightarrow> \<lparr>ahead = [], eofbit = False, failbit = True\<rparr> | Some str \<Rightarrow> open_stream str)"

definition read_queryinfo :: "string option \<Rightarrow> read_error + ilp_info" where
  "read_queryinfo file =
     (let (n, s) = read_int 5 (stream_of file) in
      if 200 < n then Inl Overflow
      else let (cs, s) = read_indices (nat n) s
      in case read_lines add_line s ([], []) of
           None \<Rightarrow> Inl Endless
         | Some (dep, rd) \<Rightarrow>
             if 1000 < length dep \<or> 1000 < length rd then Inl Overflow
             else Inr \<lparr>nQueries = n, c_index = cs, dep_cond = dep, rd_cond = rd\<rparr>)"

text \<open>\<open>ilp_query\<close> takes every line as a dependence, whatever its blanks, and its arrays have 100
  entries; the rest of \<open>dep_cond\<close> is 0.\<close>

definition add_pair :: "string \<Rightarrow> (int \<times> int) list \<Rightarrow> (int \<times> int) list" where
  "add_pair line dep = (let vs = sscanf_ds 2 line in dep @ [(entry vs 0, entry vs 1)])"

definition read_pairs :: "string option \<Rightarrow> read_error + ilp_info" where
  "read_pairs file =
     (let (n, s) = read_int 5 (stream_of file) in
      if 100 < n then Inl Overflow
      else let (cs, s) = read_indices (nat n) s
      in case read_lines add_pair s [] of
           None \<Rightarrow> Inl Endless
         | Some dep \<Rightarrow>
             if 100 < length dep then Inl Overflow
             else Inr \<lparr>nQueries = n, c_index = cs,
                       dep_cond = dep @ replicate (100 - length dep) (0, 0), rd_cond = []\<rparr>)"

section \<open>When the loops end\<close>

function split_lines :: "string \<Rightarrow> string list" where
  "split_lines str =
     (let l = takeWhile (\<lambda>c. c \<noteq> CHR 0x0A) str; rest = dropWhile (\<lambda>c. c \<noteq> CHR 0x0A) str
      in if rest = [] then [l] else l # split_lines (tl rest))"
  by pat_completeness auto

termination
proof (relation "measure length")
  show "wf (measure length)" by simp
next
  fix str l rest :: string
  assume "l = takeWhile (\<lambda>c. c \<noteq> CHR 0x0A) str" and r: "rest = dropWhile (\<lambda>c. c \<noteq> CHR 0x0A) str"
    and ne: "rest \<noteq> []"
  have "length rest \<le> length str" by (simp add: r length_dropWhile_le)
  with ne show "(tl rest, str) \<in> measure length" by (cases rest) auto
qed

declare split_lines.simps [simp del]

text \<open>A failed stream stays as it is, so a loop that waits for \<open>eof\<close> goes on for ever.\<close>

lemma read_lines_failed:
  assumes "failbit s" "\<not> eofbit s"
  shows "read_lines f s a = None"
proof (rule ccontr)
  assume "read_lines f s a \<noteq> None"
  then obtain t where t: "while_option (\<lambda>st. \<not> eofbit (fst st)) (line_step f) (s, a) = Some t"
    by (auto simp: read_lines_def)
  have "failbit (fst t) \<and> \<not> eofbit (fst t)"
    by (rule while_option_rule [OF _ t, where P = "\<lambda>t. failbit (fst t) \<and> \<not> eofbit (fst t)"])
      (use assms in \<open>auto simp: line_step_def getline_def good_def\<close>)
  with while_option_stop [OF t] show False by simp
qed

lemma read_lines_eof: "eofbit s \<Longrightarrow> read_lines f s a = Some a"
  by (simp add: read_lines_def while_option_unfold)

lemma read_lines_step:
  "\<not> eofbit s \<Longrightarrow> read_lines f s a = read_lines f (snd (getline s)) (f (fst (getline s)) a)"
  by (subst read_lines_def, subst while_option_unfold)
    (simp add: read_lines_def line_step_def split_beta)

lemma read_lines_good:
  "good s \<Longrightarrow> read_lines f s a =
     (if \<forall>l \<in> set (split_lines (ahead s)). length l \<le> 299
      then Some (fold f (split_lines (ahead s)) a) else None)"
proof (induction "ahead s" arbitrary: s a rule: split_lines.induct)
  case 1
  let ?l = "takeWhile (\<lambda>c. c \<noteq> CHR 0x0A) (ahead s)"
  let ?r = "dropWhile (\<lambda>c. c \<noteq> CHR 0x0A) (ahead s)"
  have ne: "\<not> eofbit s" "\<not> failbit s" using 1(2) by (simp_all add: good_def)
  note step = read_lines_step [OF ne(1), of f a]
  show ?case
  proof (cases "299 < length ?l")
    case True
    then have "read_lines f s a = None"
      unfolding step by (intro read_lines_failed) (use 1(2) in \<open>auto simp: getline_def Let_def\<close>)
    moreover have "?l \<in> set (split_lines (ahead s))" by (subst split_lines.simps) (simp add: Let_def)
    then have "\<not> (\<forall>l \<in> set (split_lines (ahead s)). length l \<le> 299)" using True by (meson not_le)
    ultimately show ?thesis by (simp only: if_False)
  next
    case short: False
    show ?thesis
    proof (cases "?r = []")
      case True
      then show ?thesis using short 1(2)
        by (subst (1 2) split_lines.simps, unfold step, subst read_lines_eof)
          (auto simp: getline_def Let_def)
    next
      case False
      let ?s = "s\<lparr>ahead := tl ?r\<rparr>"
      have g: "getline s = (?l, ?s)" using 1(2) short False
        by (simp add: getline_def Let_def del: dropWhile_eq_Nil_conv)
      have sp: "split_lines (ahead s) = ?l # split_lines (tl ?r)"
        using False by (subst split_lines.simps) (simp only: Let_def if_False)
      have "good ?s" using 1(2) by (simp add: good_def)
      from 1(1) [OF refl refl False _ this, of "f ?l a"]
      have "read_lines f ?s (f ?l a) =
        (if \<forall>l \<in> set (split_lines (tl ?r)). length l \<le> 299
         then Some (fold f (split_lines (tl ?r)) (f ?l a)) else None)" by simp
      then show ?thesis unfolding step g sp prod.sel using short by simp
    qed
  qed
qed

section \<open>Reading what QURO writes\<close>

text \<open>The text that \<open>reorderCode\<close> prints: the count, the indices, each followed by a blank, and
  one line per dependence (\<open>src/quro/code/CBlocks.cpp\<close>).\<close>

definition edge_line :: "nat \<times> nat \<Rightarrow> string" where
  "edge_line e = show_nat (fst e) @ '' '' @ show_nat (snd e)"

definition queryinfo_text :: "nat \<Rightarrow> int list \<Rightarrow> (nat \<times> nat) list \<Rightarrow> string" where
  "queryinfo_text n cs es =
     show_nat n @ [CHR 0x0A] @
     concat (map (\<lambda>c. show_int c @ '' '') cs) @ [CHR 0x0A] @
     concat (map (\<lambda>e. edge_line e @ [CHR 0x0A]) es)"

definition fits_int :: "int \<Rightarrow> bool" where
  "fits_int v \<longleftrightarrow> - int_limit - 1 \<le> v \<and> v \<le> int_limit"

lemma not_space_digit: "is_digit c \<Longrightarrow> \<not> is_space c"
  by (auto simp: is_digit_def is_space_def)

lemma sign_not_digit: "\<not> is_digit (CHR ''-'')" "\<not> is_digit (CHR ''+'')"
  by (simp_all add: is_digit_def)

lemma blank_newline [simp]:
  "is_space (CHR '' '')" "is_space (CHR 0x0A)" "\<not> is_digit (CHR '' '')" "\<not> is_digit (CHR 0x0A)"
  "\<not> is_space (CHR ''-'')"
  by (simp_all add: is_space_def is_digit_def)

lemma show_nat_hd: "is_digit (hd (show_nat n))"
  using subsetD [OF show_nat_digits hd_in_set [OF show_nat_ne]] by simp

lemma takeWhile_show:
  assumes "rest = [] \<or> \<not> is_digit (hd rest)"
  shows "takeWhile is_digit (show_nat n @ rest) = show_nat n"
    and "dropWhile is_digit (show_nat n @ rest) = rest"
proof -
  have "\<forall>c \<in> set (show_nat n). is_digit c" using show_nat_digits by blast
  moreover have "takeWhile is_digit rest = [] \<and> dropWhile is_digit rest = rest"
    using assms by (cases rest) auto
  ultimately show "takeWhile is_digit (show_nat n @ rest) = show_nat n"
    "dropWhile is_digit (show_nat n @ rest) = rest" by simp_all
qed

lemma read_int_show:
  assumes ws: "\<forall>c \<in> set ws. is_space c" and rest: "rest \<noteq> []" "\<not> is_digit (hd rest)"
    and v: "fits_int v"
  shows "read_int old (open_stream (ws @ show_int v @ rest)) = (v, open_stream rest)"
proof -
  let ?n = "show_nat (nat \<bar>v\<bar>)"
  have ns: "\<not> is_space (hd ?n)" "hd ?n \<noteq> CHR ''-''" "hd ?n \<noteq> CHR ''+''"
    using show_nat_hd [of "nat \<bar>v\<bar>"] sign_not_digit not_space_digit by auto
  note ne = show_nat_ne [of "nat \<bar>v\<bar>"]
  note tw = takeWhile_show [of rest "nat \<bar>v\<bar>"]
  have sh: "show_int v = (if v < 0 then CHR ''-'' # ?n else ?n)" by (simp add: show_int_def)
  have hd: "\<not> is_space (hd (show_int v))" using ns unfolding sh
    by (cases "v < 0") (simp_all only: if_True if_False list.sel blank_newline not_False_eq_True)
  have dw: "dropWhile is_space (ws @ show_int v @ rest) = show_int v @ rest"
    using ws hd ne by (cases "show_int v") (auto simp: sh split: if_splits)
  show ?thesis
  proof (cases "v < 0")
    case True
    then show ?thesis using rest tw ne v
      by (simp only: read_int_def open_stream_def good_def istream.simps dw Let_def)
        (simp add: sh digits_val_show fits_int_def)
  next
    case False
    then have hd': "hd (?n @ rest) = hd ?n" using ne by simp
    show ?thesis using False rest tw ne v ns
      by (simp only: read_int_def open_stream_def good_def istream.simps dw Let_def)
        (simp add: sh digits_val_show fits_int_def hd')
  qed
qed

lemma read_indices_show:
  assumes "\<forall>c \<in> set cs. fits_int c" "\<forall>c \<in> set ws. is_space c"
  shows "read_indices (length cs) (open_stream (ws @ concat (map (\<lambda>c. show_int c @ '' '') cs) @ rest)) =
     (cs, open_stream (if cs = [] then ws @ rest else CHR '' '' # rest))"
  using assms
proof (induction cs arbitrary: ws)
  case Nil
  then show ?case by simp
next
  case (Cons c cs)
  let ?r = "'' '' @ concat (map (\<lambda>c. show_int c @ '' '') cs) @ rest"
  have "read_int 0 (open_stream (ws @ show_int c @ ?r)) = (c, open_stream ?r)"
    by (rule read_int_show) (use Cons.prems in simp_all)
  moreover have "read_indices (length cs) (open_stream ?r) = (cs, open_stream (if cs = [] then '' '' @ rest else CHR '' '' # rest))"
    by (rule Cons.IH) (use Cons.prems in simp_all)
  ultimately show ?case by (simp add: Let_def)
qed

lemma split_lines_newline:
  "CHR 0x0A \<notin> set l \<Longrightarrow> split_lines (l @ CHR 0x0A # rest) = l # split_lines rest"
  by (subst split_lines.simps) (simp add: Let_def takeWhile_append dropWhile_append
      takeWhile_eq_all_conv [THEN iffD2] dropWhile_eq_Nil_conv [THEN iffD2])

lemma split_lines_all:
  "\<forall>l \<in> set ls. CHR 0x0A \<notin> set l \<Longrightarrow>
   split_lines (concat (map (\<lambda>l. l @ [CHR 0x0A]) ls)) = ls @ [[]]"
proof (induction ls)
  case Nil
  show ?case by (subst list.map, subst concat.simps, subst split_lines.simps) simp
next
  case (Cons l ls)
  then show ?case using split_lines_newline [of l] by simp
qed

lemma cnt_edge_line: "cnt_num_blank (edge_line e) = 1"
proof -
  have "filter (\<lambda>c. c = CHR '' '') (show_nat k) = []" for k
    using show_nat_digits [of k] by (auto simp: filter_empty_conv)
  then show ?thesis by (simp add: cnt_num_blank_def edge_line_def)
qed

lemma scan_d_show:
  assumes "rest = [] \<or> \<not> is_digit (hd rest)" "\<forall>c \<in> set ws. is_space c"
  shows "scan_d (ws @ show_nat n @ rest) = Some (int n, rest)"
proof -
  have hd: "hd (show_nat n @ rest) = hd (show_nat n)" using show_nat_ne by simp
  have ns: "\<not> is_space (hd (show_nat n))" "hd (show_nat n) \<noteq> CHR ''-''" "hd (show_nat n) \<noteq> CHR ''+''"
    using show_nat_hd [of n] sign_not_digit not_space_digit by auto
  have dw: "dropWhile is_space (ws @ show_nat n @ rest) = show_nat n @ rest"
    using assms(2) ns(1) show_nat_ne [of n] by (cases "show_nat n") auto
  show ?thesis unfolding scan_d_def sscanf_d_def dw Let_def hd
    by (simp add: takeWhile_show [OF assms(1)] show_nat_ne ns digits_val_show)
qed

lemma sscanf_edge_line: "sscanf_ds 2 (edge_line (a, b)) = [int a, int b]"
  using scan_d_show [of "'' '' @ show_nat b" "[]" a] scan_d_show [of "[]" "'' ''" b]
  by (simp add: edge_line_def numeral_2_eq_2)

lemma length_edge_line: "a < 1000 \<Longrightarrow> b < 1000 \<Longrightarrow> length (edge_line (a, b)) \<le> 7"
  using length_show_nat [of a 3] length_show_nat [of b 3] by (simp add: edge_line_def)

lemma edge_line_newline: "CHR 0x0A \<notin> set (edge_line e)"
  using show_nat_digits [of "fst e"] show_nat_digits [of "snd e"] by (auto simp: edge_line_def)

lemma sscanf_blank: "sscanf_ds k '' '' = []" "sscanf_ds k [] = []"
  by (cases k; simp add: scan_d_def sscanf_d_def)+

lemma entry_simps [simp]: "entry [] k = 0" "entry [a, b] 0 = a" "entry [a, b] 1 = b"
  "entry [a, b] (Suc 0) = b"
  by (simp_all add: entry_def)

lemma add_line_edge: "add_line (edge_line (a, b)) (d, r) = (d @ [(int a, int b)], r)"
  by (simp add: add_line_def cnt_edge_line sscanf_edge_line)

lemma fold_add_line_edges:
  "fold add_line (map edge_line es) (d, r) = (d @ map (\<lambda>(a, b). (int a, int b)) es, r)"
  by (induction es arbitrary: d) (auto simp: add_line_edge)

lemma fold_add_pair_edges:
  "fold add_pair (map edge_line es) d = d @ map (\<lambda>(a, b). (int a, int b)) es"
  by (induction es arbitrary: d) (auto simp: add_pair_def sscanf_edge_line)

text \<open>The lines that the loops see, after the last index.\<close>

lemma text_lines:
  "split_lines (CHR '' '' # CHR 0x0A # concat (map (\<lambda>e. edge_line e @ [CHR 0x0A]) es)) =
     '' '' # map edge_line es @ [[]]"
  using split_lines_newline [of "'' ''"] split_lines_all [of "map edge_line es"] edge_line_newline
  by (simp add: comp_def)

lemma read_text_lines:
  assumes es: "\<forall>(a, b) \<in> set es. a < 1000 \<and> b < 1000"
  shows "read_lines f (open_stream (CHR '' '' # CHR 0x0A # concat (map (\<lambda>e. edge_line e @ [CHR 0x0A]) es))) x =
     Some (f [] (fold f (map edge_line es) (f '' '' x)))"
proof -
  have "\<forall>e \<in> set es. length (edge_line e) \<le> 299"
    using es length_edge_line by fastforce
  then show ?thesis
    by (subst read_lines_good) (simp_all add: open_stream_def good_def text_lines)
qed

lemma read_text_header:
  assumes "length cs = n" "0 < n" "n \<le> 200" "\<forall>c \<in> set cs. fits_int c"
  shows "read_int 5 (open_stream (queryinfo_text n cs es)) =
     (int n, open_stream (CHR 0x0A # concat (map (\<lambda>c. show_int c @ '' '') cs) @ CHR 0x0A #
        concat (map (\<lambda>e. edge_line e @ [CHR 0x0A]) es)))" (is ?A)
    and "read_indices n (open_stream (CHR 0x0A # concat (map (\<lambda>c. show_int c @ '' '') cs) @ CHR 0x0A #
        concat (map (\<lambda>e. edge_line e @ [CHR 0x0A]) es))) =
     (cs, open_stream (CHR '' '' # CHR 0x0A # concat (map (\<lambda>e. edge_line e @ [CHR 0x0A]) es)))" (is ?B)
proof -
  have "show_nat n = show_int (int n)" by (simp add: show_int_def)
  then show ?A
    using read_int_show [of "[]" "CHR 0x0A # concat (map (\<lambda>c. show_int c @ '' '') cs) @ CHR 0x0A #
        concat (map (\<lambda>e. edge_line e @ [CHR 0x0A]) es)" "int n" 5] assms(3)
    by (simp add: queryinfo_text_def fits_int_def int_limit_def)
  show ?B
    using read_indices_show [of cs "[CHR 0x0A]"] assms by auto
qed

lemma read_back:
  assumes "length cs = n" "0 < n" "n \<le> 200" "\<forall>c \<in> set cs. fits_int c"
    and "\<forall>(a, b) \<in> set es. a < n \<and> b < n" "length es < 1000"
  shows "read_queryinfo (Some (queryinfo_text n cs es)) =
     Inr \<lparr>nQueries = int n, c_index = cs,
          dep_cond = (0, 0) # map (\<lambda>(a, b). (int a, int b)) es, rd_cond = []\<rparr>"
proof -
  have "\<forall>(a, b) \<in> set es. a < 1000 \<and> b < 1000" using assms(3,5) by fastforce
  note lines = read_text_lines [OF this, of add_line "([], [])"]
  have blank: "add_line '' '' ([], []) = ([(0, 0)], [])" "add_line [] st = st" for st
    by (simp_all add: add_line_def cnt_num_blank_def sscanf_blank split_beta)
  show ?thesis using assms(3,6)
    by (simp add: read_queryinfo_def stream_of_def read_text_header [OF assms(1-4)] lines blank
        fold_add_line_edges)
qed

lemma read_pairs_text:
  assumes "length cs = n" "0 < n" "n \<le> 100" "\<forall>c \<in> set cs. fits_int c"
    and "\<forall>(a, b) \<in> set es. a < n \<and> b < n" "length es < 99"
  shows "read_pairs (Some (queryinfo_text n cs es)) =
     Inr \<lparr>nQueries = int n, c_index = cs,
          dep_cond = (0, 0) # map (\<lambda>(a, b). (int a, int b)) es @ replicate (99 - length es) (0, 0),
          rd_cond = []\<rparr>"
proof -
  have "\<forall>(a, b) \<in> set es. a < 1000 \<and> b < 1000" using assms(3,5) by fastforce
  note lines = read_text_lines [OF this, of add_pair "[]"]
  have n: "n \<le> 200" using assms(3) by simp
  have blank: "add_pair '' '' [] = [(0, 0)]" "add_pair [] d = d @ [(0, 0)]" for d
    by (simp_all add: add_pair_def sscanf_blank)
  have "99 - length es = Suc (98 - length es)" using assms(6) by simp
  then show ?thesis using assms(3,6)
    by (simp add: read_pairs_def stream_of_def read_text_header [OF assms(1,2) n assms(4)] lines blank
        fold_add_pair_edges)
qed

text \<open>C30: reading back what QURO wrote.  The blank after the last index makes the rest of its line a
  line with one blank, so the programs find a dependence of query 0 on itself before the
  dependences that were written.\<close>

theorem read_queryinfo_text:
  assumes "length cs = n" "0 < n" "n \<le> 200" "\<forall>c \<in> set cs. fits_int c"
    and "\<forall>(a, b) \<in> set es. a < n \<and> b < n" "length es < 1000"
  shows "read_queryinfo (Some (queryinfo_text n cs es)) =
     Inr \<lparr>nQueries = int n, c_index = cs,
          dep_cond = (0, 0) # map (\<lambda>(a, b). (int a, int b)) es, rd_cond = []\<rparr>"
  by (rule read_back [OF assms])

lemma read_queryinfo_text_witness:
  "read_queryinfo (Some (queryinfo_text 3 [7, 0, -2] [(0, 1), (0, 2)])) =
     Inr \<lparr>nQueries = int 3, c_index = [7, 0, -2],
          dep_cond = (0, 0) # map (\<lambda>(a, b). (int a, int b)) [(0, 1), (0, 2)], rd_cond = []\<rparr>"
  by (rule read_queryinfo_text) (simp_all add: fits_int_def int_limit_def)

section \<open>Reading anything else\<close>

lemma read_indices_failed:
  "failbit s \<Longrightarrow> \<not> eofbit s \<Longrightarrow>
   failbit (snd (read_indices k s)) \<and> \<not> eofbit (snd (read_indices k s))"
  by (induction k arbitrary: s) (simp_all add: read_int_def good_def split_beta)

text \<open>The loops that read to the end of the file wait for \<open>eof\<close> and never look at \<open>failbit\<close>:
  without a file, or when a word where a number belongs makes \<open>>>\<close> fail, they never end.  The
  second line \<open>#statements:\<close> that \<open>CBlocks.cpp\<close> prints for the large problem is such a word.\<close>

theorem read_queryinfo_endless:
  "read_queryinfo None = Inl Endless \<and> read_pairs None = Inl Endless \<and>
   (\<forall>n rest. 0 < n \<and> n \<le> 100 \<longrightarrow>
      (let str = show_nat n @ [CHR 0x0A] @ ''#statements:'' @ rest in
       read_queryinfo (Some str) = Inl Endless \<and> read_pairs (Some str) = Inl Endless))"
proof -
  have none: "read_int 5 (stream_of None) = (5, stream_of None)"
    by (simp add: read_int_def stream_of_def good_def)
  have f: "failbit (stream_of None)" "\<not> eofbit (stream_of None)" by (simp_all add: stream_of_def)
  have no_file: "read_queryinfo None = Inl Endless" "read_pairs None = Inl Endless"
    using read_indices_failed [OF f, of 5]
    by (auto simp: read_queryinfo_def read_pairs_def none read_lines_failed split: prod.splits)
  have "read_queryinfo (Some (show_nat n @ [CHR 0x0A] @ ''#statements:'' @ rest)) = Inl Endless \<and>
        read_pairs (Some (show_nat n @ [CHR 0x0A] @ ''#statements:'' @ rest)) = Inl Endless"
    if n: "0 < n" "n \<le> 100" for n rest
  proof -
    let ?t = "[CHR 0x0A] @ ''#statements:'' @ rest"
    have "show_nat n = show_int (int n)" by (simp add: show_int_def)
    then have head: "read_int 5 (open_stream (show_nat n @ ?t)) = (int n, open_stream ?t)"
      using read_int_show [of "[]" ?t "int n" 5] n by (simp add: fits_int_def int_limit_def)
    obtain k where k: "n = Suc k" using n(1) by (cases n) auto
    define s where "s = snd (read_int 0 (open_stream ?t))"
    have s: "failbit s \<and> \<not> eofbit s"
      by (simp add: s_def read_int_def open_stream_def good_def is_space_def is_digit_def)
    have "snd (read_indices n (open_stream ?t)) = snd (read_indices k s)"
      by (simp add: k s_def Let_def split_beta del: append.simps)
    with read_indices_failed [of s k] s
    have fail: "failbit (snd (read_indices n (open_stream ?t)))"
      "\<not> eofbit (snd (read_indices n (open_stream ?t)))" by simp_all
    have so: "stream_of (Some str) = open_stream str" for str by (simp add: stream_of_def)
    show ?thesis using n
      unfolding read_queryinfo_def read_pairs_def so head Let_def prod.case split_beta snd_conv fst_conv
        nat_int
      by (simp add: read_lines_failed [OF fail] del: append.simps)
  qed
  with no_file show ?thesis unfolding Let_def by blast
qed

lemma read_queryinfo_endless_witness:
  "read_queryinfo (Some (show_nat 2 @ [CHR 0x0A] @ ''#statements:'' @ ''2'')) = Inl Endless \<and>
   read_pairs (Some (show_nat 2 @ [CHR 0x0A] @ ''#statements:'' @ ''2'')) = Inl Endless"
  using read_queryinfo_endless [THEN conjunct2, THEN conjunct2, rule_format, of 2 "''2''"]
  unfolding Let_def by simp

end
