(* ===== verification/Ilp_Gurobi.thy ===== *)
theory Ilp_Gurobi
  imports Ilp_Input
begin

text \<open>
  The integer program that \<open>src/ILPsolvers/code/gurobi/generate_ilp.cpp\<close> prints for the Gurobi
  solver: its rows and its text, and the proof that its solutions are the orders of the queries.
\<close>

section \<open>The rows\<close>

text \<open>The variables \<open>q\<close>, \<open>e\<close> and \<open>c\<close> with their numbers.\<close>

datatype ilp_var = qvar int | evar int | cvar int

text \<open>A row of the section \<open>Subject To\<close>: what is printed before it, its terms, and the number
  after \<open>>=\<close>.\<close>

type_synonym ilp_row = "string \<times> (int \<times> ilp_var) list \<times> int"

definition M :: int where "M = 10000"

definition helper_rows :: "ilp_info \<Rightarrow> ilp_row list" where
  "helper_rows I = concat (map (\<lambda>i. concat (map (\<lambda>j.
     let x = i * nQueries I + j in
     [(''helper'' @ show_int i @ ''_'' @ show_int j @ '': '',
       [(1, qvar i), (-1, qvar j), (M, evar x)], 1),
      (''helper_'' @ show_int i @ ''_'' @ show_int j @ '' :'',
       [(1, qvar j), (-1, qvar i), (- M, evar x)], 1 - M)])
     [0..i - 1])) [0..nQueries I - 1])"

definition defuse_rows :: "ilp_info \<Rightarrow> ilp_row list" where
  "defuse_rows I = map (\<lambda>(k, a, b).
     (''defuse'' @ show_nat k @ '': '', [(1, qvar b), (-1, qvar a)], 1))
     (enumerate 0 (dep_cond I))"

definition rd_rows :: "ilp_info \<Rightarrow> ilp_row list" where
  "rd_rows I = concat (map (\<lambda>(k, a, b, c).
     [(''rd'' @ show_nat k @ '': '', [(1, qvar a), (-1, qvar c), (M, cvar (int k))], 1),
      (''rd_'' @ show_nat k @ '': '', [(1, qvar c), (-1, qvar b), (- M, cvar (int k))], 1 - M)])
     (enumerate 0 (rd_cond I)))"

record lp_file =
  maximize :: "(int \<times> ilp_var) list"
  subject_to :: "ilp_row list"
  bounds :: "(ilp_var \<times> int \<times> int) list"
  generals :: "ilp_var list"
  binary :: "ilp_var list"

definition generate_ilp :: "ilp_info \<Rightarrow> lp_file" where
  "generate_ilp I =
     \<lparr>maximize = map (\<lambda>i. (c_index I ! nat i, qvar i)) [0..nQueries I - 1],
      subject_to = helper_rows I @ defuse_rows I @ rd_rows I,
      bounds = map (\<lambda>i. (qvar i, 0, nQueries I)) [0..nQueries I - 1],
      generals = map qvar [0..nQueries I - 1],
      binary = concat (map (\<lambda>i. map (\<lambda>j. evar (i * nQueries I + j)) [0..i - 1]) [0..nQueries I - 1])
        @ map (\<lambda>k. cvar (int k)) [0..<length (rd_cond I)]\<rparr>"

text \<open>An assignment of integers that the solver may answer with.\<close>

definition row_ok :: "(ilp_var \<Rightarrow> int) \<Rightarrow> ilp_row \<Rightarrow> bool" where
  "row_ok x row = (let (s, ts, r) = row in row_holds x (ts, GE, r))"

definition lp_feasible :: "lp_file \<Rightarrow> (ilp_var \<Rightarrow> int) \<Rightarrow> bool" where
  "lp_feasible F x \<longleftrightarrow>
     (\<forall>row \<in> set (subject_to F). row_ok x row) \<and>
     (\<forall>(v, lo, hi) \<in> set (bounds F). lo \<le> x v \<and> x v \<le> hi) \<and>
     (\<forall>v \<in> set (binary F). x v = 0 \<or> x v = 1)"

section \<open>The text\<close>

fun show_var :: "ilp_var \<Rightarrow> string" where
  "show_var (qvar i) = ''q'' @ show_int i"
| "show_var (evar i) = ''e'' @ show_int i"
| "show_var (cvar i) = ''c'' @ show_int i"

definition show_term :: "int \<times> ilp_var \<Rightarrow> string" where
  "show_term t = (let (c, v) = t in
     (if c < 0 then '' - '' else '' + '') @ (if \<bar>c\<bar> = 1 then [] else show_int \<bar>c\<bar> @ '' '') @ show_var v)"

definition show_row :: "ilp_row \<Rightarrow> string" where
  "show_row row = (let (s, ts, r) = row in
     [CHR 0x09] @ s @ show_var (snd (hd ts)) @ concat (map show_term (tl ts)) @ '' >= '' @ show_int r @ [CHR 0x0A])"

definition show_goal :: "(int \<times> ilp_var) list \<Rightarrow> string" where
  "show_goal ts = concat (map (\<lambda>(k, c, v).
     show_int c @ '' '' @ show_var v @ (if Suc k \<noteq> length ts then '' + '' else [])) (enumerate 0 ts))"

definition query_ilp :: "lp_file \<Rightarrow> string" where
  "query_ilp F =
     ''Maximize'' @ [CHR 0x0A] @ show_goal (maximize F) @ [CHR 0x0A] @
     ''Subject To'' @ [CHR 0x0A] @ concat (map show_row (subject_to F)) @
     ''Bounds'' @ [CHR 0x0A] @
     concat (map (\<lambda>(v, lo, hi). show_int lo @ '' <= '' @ show_var v @ '' <= '' @ show_int hi @ [CHR 0x0A])
       (bounds F)) @
     ''Generals'' @ [CHR 0x0A] @ concat (map (\<lambda>v. show_var v @ '' '') (generals F)) @ [CHR 0x0A] @
     ''Binary'' @ [CHR 0x0A] @ concat (map (\<lambda>v. show_var v @ '' '') (binary F)) @ [CHR 0x0A] @
     ''End'' @ [CHR 0x0A]"

section \<open>Feasible assignments\<close>

lemma row_ok_simp: "row_ok x (s, ts, r) \<longleftrightarrow> r \<le> lin_val x ts"
  by (simp add: row_ok_def)

lemma helper_rows_hold:
  "(\<forall>row \<in> set (helper_rows I). row_ok x row) \<longleftrightarrow>
   (\<forall>i \<in> {0..<nQueries I}. \<forall>j \<in> {0..<i}.
      x (qvar i) - x (qvar j) + 10000 * x (evar (i * nQueries I + j)) \<ge> 1 \<and>
      x (qvar j) - x (qvar i) - 10000 * x (evar (i * nQueries I + j)) \<ge> 1 - 10000)"
proof -
  have ivl: "{0..<n} = {0..n - 1}" for n :: int by auto
  show ?thesis unfolding helper_rows_def all_concat ivl
    by (simp add: Let_def M_def row_ok_simp algebra_simps)
qed

lemma defuse_rows_hold:
  "(\<forall>row \<in> set (defuse_rows I). row_ok x row) \<longleftrightarrow>
   (\<forall>(a, b) \<in> set (dep_cond I). x (qvar a) < x (qvar b))"
proof -
  have "(\<forall>row \<in> set (defuse_rows I). row_ok x row) \<longleftrightarrow>
    (\<forall>(k, e) \<in> set (enumerate 0 (dep_cond I)). x (qvar (fst e)) < x (qvar (snd e)))"
    unfolding defuse_rows_def set_map ball_simps(9) by (rule ball_cong) (auto simp: row_ok_simp)
  then show ?thesis unfolding all_enumerate by (simp add: case_prod_beta)
qed

lemma rd_rows_hold:
  "(\<forall>row \<in> set (rd_rows I). row_ok x row) \<longleftrightarrow>
   (\<forall>(k, a, b, c) \<in> set (enumerate 0 (rd_cond I)).
      x (qvar a) - x (qvar c) + 10000 * x (cvar (int k)) \<ge> 1 \<and>
      x (qvar c) - x (qvar b) - 10000 * x (cvar (int k)) \<ge> 1 - 10000)"
  unfolding rd_rows_def all_concat
  by (rule ball_cong [OF refl]) (simp add: split_beta row_ok_simp M_def algebra_simps)

lemma feasible_iff:
  "lp_feasible (generate_ilp I) x \<longleftrightarrow>
     (\<forall>i \<in> {0..<nQueries I}. 0 \<le> x (qvar i) \<and> x (qvar i) \<le> nQueries I) \<and>
     (\<forall>i \<in> {0..<nQueries I}. \<forall>j \<in> {0..<i}. switched (x (evar (i * nQueries I + j)))
        (x (qvar i)) (x (qvar j)) (x (qvar j)) (x (qvar i))) \<and>
     (\<forall>(a, b) \<in> set (dep_cond I). x (qvar a) < x (qvar b)) \<and>
     (\<forall>(k, a, b, c) \<in> set (enumerate 0 (rd_cond I)). switched (x (cvar (int k)))
        (x (qvar a)) (x (qvar c)) (x (qvar c)) (x (qvar b)))" (is "_ \<longleftrightarrow> ?R")
proof -
  have ivl: "{0..n - 1} = {0..<n}" for n :: int by auto
  have bin: "(\<forall>v \<in> set (binary (generate_ilp I)). P v) \<longleftrightarrow>
    (\<forall>i \<in> {0..<nQueries I}. \<forall>j \<in> {0..<i}. P (evar (i * nQueries I + j))) \<and>
    (\<forall>(k, r) \<in> set (enumerate 0 (rd_cond I)). P (cvar (int k)))" for P
  proof -
    have "(\<forall>(k, r) \<in> set (enumerate 0 (rd_cond I)). P (cvar (int k))) \<longleftrightarrow>
      (\<forall>k < length (rd_cond I). P (cvar (int k)))"
      by (auto simp: in_set_enumerate_eq)
    then show ?thesis
      unfolding generate_ilp_def lp_file.simps set_append ball_Un all_concat
      by (auto simp: ivl)
  qed
  have rows: "(\<forall>row \<in> set (subject_to (generate_ilp I)). row_ok x row) \<longleftrightarrow>
    (\<forall>row \<in> set (helper_rows I). row_ok x row) \<and> (\<forall>row \<in> set (defuse_rows I). row_ok x row) \<and>
    (\<forall>row \<in> set (rd_rows I). row_ok x row)"
    by (auto simp: generate_ilp_def)
  have bnd: "(\<forall>(v, lo, hi) \<in> set (bounds (generate_ilp I)). lo \<le> x v \<and> x v \<le> hi) \<longleftrightarrow>
    (\<forall>i \<in> {0..<nQueries I}. 0 \<le> x (qvar i) \<and> x (qvar i) \<le> nQueries I)"
    by (simp add: generate_ilp_def ivl)
  show ?thesis
    unfolding lp_feasible_def rows bnd bin helper_rows_hold defuse_rows_hold rd_rows_hold switched_def
    by blast
qed

text \<open>The assignment of an order.\<close>

definition order_assignment :: "ilp_info \<Rightarrow> (int \<Rightarrow> int) \<Rightarrow> ilp_var \<Rightarrow> int" where
  "order_assignment I p v =
     (case v of
        qvar i \<Rightarrow> p i
      | evar y \<Rightarrow> if p (y mod nQueries I) < p (y div nQueries I) then 0 else 1
      | cvar k \<Rightarrow> (case rd_cond I ! nat k of (a, b, c) \<Rightarrow> if p c < p a then 0 else 1))"

lemma pair_index:
  assumes "j \<in> {0..<i}" "i \<in> {0..<(n::int)}"
  shows "(i * n + j) div n = i" "(i * n + j) mod n = j" "j mod n = j"
  using assms by (simp_all add: div_add1_eq [of "i * n"] mod_add_left_eq)

lemma generate_ilp_sound:
  assumes wf: "well_formed I" and x: "lp_feasible (generate_ilp I) x"
  shows "orders (nQueries I) (dep_cond I) (rd_cond I) (\<lambda>i. x (qvar i))"
proof (rule orders_of_switched [OF well_formed_n(1) [OF wf]])
  note f = x [unfolded feasible_iff]
  show "\<exists>e. switched e (x (qvar i)) (x (qvar j)) (x (qvar j)) (x (qvar i))"
    if "i \<in> {0..<nQueries I}" "j \<in> {0..<i}" for i j using f that by blast
  fix a b c assume abc: "(a, b, c) \<in> set (rd_cond I)"
  then obtain k where k: "(k, a, b, c) \<in> set (enumerate 0 (rd_cond I))" by (rule in_enumerate)
  have "switched (x (cvar (int k))) (x (qvar a)) (x (qvar c)) (x (qvar c)) (x (qvar b))"
    using f k by blast
  then show "a \<in> {0..<nQueries I} \<and> b \<in> {0..<nQueries I} \<and> c \<in> {0..<nQueries I} \<and>
      (\<exists>e. switched e (x (qvar a)) (x (qvar c)) (x (qvar c)) (x (qvar b)))"
    using well_formed_rd [OF wf abc] by blast
qed (use x [unfolded feasible_iff] in blast)+

lemma generate_ilp_complete:
  assumes wf: "well_formed I" and p: "orders (nQueries I) (dep_cond I) (rd_cond I) p"
  shows "lp_feasible (generate_ilp I) (order_assignment I p)" (is "lp_feasible _ ?x")
proof -
  note sw = switched_of_orders [OF well_formed_n(1) [OF wf] p]
  have q: "?x (qvar i) = p i" for i by (simp add: order_assignment_def)
  have e: "switched (?x (evar (i * nQueries I + j))) (p i) (p j) (p j) (p i)"
    if ij: "i \<in> {0..<nQueries I}" "j \<in> {0..<i}" for i j
    using sw(1) [of i j] ij by (auto simp: order_assignment_def pair_index [OF ij(2,1)])
  have c: "switched (?x (cvar (int k))) (p a) (p c) (p c) (p b)"
    if k: "(k, a, b, c) \<in> set (enumerate 0 (rd_cond I))" for k a b c
  proof -
    have nth: "rd_cond I ! k = (a, b, c)" "k < length (rd_cond I)"
      using k by (auto simp: in_set_enumerate_eq)
    then have mem: "(a, b, c) \<in> set (rd_cond I)" by (metis nth_mem)
    show ?thesis
      using sw(2) [OF mem] well_formed_rd [OF wf mem] by (simp add: order_assignment_def nth(1))
  qed
  show ?thesis unfolding feasible_iff q using ordersD(1,3) [OF p] e c by blast
qed

definition generated_goal :: "ilp_info \<Rightarrow> (ilp_var \<Rightarrow> int) \<Rightarrow> int" where
  "generated_goal I x = lin_val x (maximize (generate_ilp I))"

lemma generated_goal_weight: "generated_goal I x = weight I (\<lambda>i. x (qvar i))"
proof -
  have "generated_goal I x = sum_list (map (\<lambda>i. c_index I ! nat i * x (qvar i)) [0..nQueries I - 1])"
    by (simp add: generated_goal_def generate_ilp_def lin_val_def comp_def)
  also have "\<dots> = (\<Sum>i \<in> set [0..nQueries I - 1]. c_index I ! nat i * x (qvar i))"
    by (rule sum_list_distinct_conv_sum_set) simp
  also have "set [0..nQueries I - 1] = {0..<nQueries I}" by auto
  finally show ?thesis by (simp add: weight_def)
qed

interpretation gilp: ilp_generator well_formed "\<lambda>I. lp_feasible (generate_ilp I)" generated_goal qvar dep_cond rd_cond
proof
  fix I p assume "well_formed I" "orders (nQueries I) (dep_cond I) (rd_cond I) p"
  from generate_ilp_complete [OF this]
  show "\<exists>x. lp_feasible (generate_ilp I) x \<and> (\<forall>i \<in> {0..<nQueries I}. x (qvar i) = p i)"
    by (intro exI [of _ "order_assignment I p"]) (simp add: order_assignment_def)
qed (simp_all add: generate_ilp_sound generated_goal_weight)

text \<open>C7: a problem whose entries name queries has, as the solutions of the program that
  \<open>generate_ilp\<close> prints, exactly the orders asked for: what the solver may give the variables
  \<open>q\<close> are the different positions from 0 to \<open>n\<close> that keep every dependence and keep each
  writer out of the stretch it must not fall in.\<close>

theorem generate_ilp_correct:
  assumes "well_formed I"
  shows "(\<exists>x. lp_feasible (generate_ilp I) x \<and> (\<forall>i \<in> {0..<nQueries I}. x (qvar i) = p i)) \<longleftrightarrow>
     orders (nQueries I) (dep_cond I) (rd_cond I) p"
  by (rule gilp.solutions [OF assms])

definition ex_problem :: ilp_info where
  "ex_problem = \<lparr>nQueries = 3, c_index = [5, 0, 3], dep_cond = [(0, 1)], rd_cond = [(0, 1, 2)]\<rparr>"

lemma ex_problem_wf: "well_formed ex_problem"
  by (simp add: ex_problem_def well_formed_def)

lemma generate_ilp_correct_witness:
  "(\<exists>x. lp_feasible (generate_ilp ex_problem) x \<and> (\<forall>i \<in> {0..<nQueries ex_problem}. x (qvar i) = i + 1)) \<longleftrightarrow>
     orders (nQueries ex_problem) (dep_cond ex_problem) (rd_cond ex_problem) (\<lambda>i. i + 1)"
  by (rule generate_ilp_correct [OF ex_problem_wf])

section \<open>What the solver's answer is worth\<close>

text \<open>A solution that the solver cannot improve numbers the queries 1 to \<open>n\<close> when all conflict
  indices are above 0, and two neighbours that no entry keeps in place stand in the order of their
  indices: the query that conflicts more comes later.\<close>

theorem generate_ilp_optimal:
  assumes "well_formed I" and "lp_feasible (generate_ilp I) x"
    and "\<forall>y. lp_feasible (generate_ilp I) y \<longrightarrow> generated_goal I y \<le> generated_goal I x"
  shows "((\<forall>c \<in> set (c_index I). 0 < c) \<longrightarrow>
            (\<lambda>i. x (qvar i)) ` {0..<nQueries I} = {1..nQueries I}) \<and>
         (\<forall>i \<in> {0..<nQueries I}. \<forall>j \<in> {0..<nQueries I}.
            x (qvar j) = x (qvar i) + 1 \<and> (i, j) \<notin> set (dep_cond I) \<and>
            (\<forall>(a, b, c) \<in> set (rd_cond I). \<not> (c = i \<and> a = j) \<and> \<not> (b = i \<and> c = j)) \<longrightarrow>
            c_index I ! nat i \<le> c_index I ! nat j)"
  using gilp.optimal_dense [OF assms] gilp.optimal_neighbours [OF assms] by blast

definition ex_pair :: ilp_info where
  "ex_pair = \<lparr>nQueries = 2, c_index = [1, 5], dep_cond = [], rd_cond = []\<rparr>"

definition ex_answer :: "ilp_var \<Rightarrow> int" where
  "ex_answer = order_assignment ex_pair (\<lambda>i. i + 1)"

lemma ex_answer_best:
  "well_formed ex_pair" "lp_feasible (generate_ilp ex_pair) ex_answer"
  "\<forall>y. lp_feasible (generate_ilp ex_pair) y \<longrightarrow> generated_goal ex_pair y \<le> generated_goal ex_pair ex_answer"
proof -
  show wf: "well_formed ex_pair" by (simp add: ex_pair_def well_formed_def)
  show "lp_feasible (generate_ilp ex_pair) ex_answer"
    unfolding ex_answer_def
    by (rule generate_ilp_complete [OF wf]) (auto simp: orders_def ex_pair_def inj_on_def)
  have two: "{0..<2} = {0, 1 :: int}" by auto
  show "\<forall>y. lp_feasible (generate_ilp ex_pair) y \<longrightarrow> generated_goal ex_pair y \<le> generated_goal ex_pair ex_answer"
  proof (intro allI impI)
    fix y assume "lp_feasible (generate_ilp ex_pair) y"
    note o = generate_ilp_sound [OF wf this]
    have "y (qvar 0) \<le> 2" "y (qvar 1) \<le> 2" "y (qvar 0) \<noteq> y (qvar 1)"
      using ordersD(1,2) [OF o] by (auto simp: ex_pair_def inj_on_def two)
    then have "y (qvar 0) + 5 * y (qvar 1) \<le> 11" by linarith
    then show "generated_goal ex_pair y \<le> generated_goal ex_pair ex_answer"
      by (simp add: generated_goal_weight weight_def ex_pair_def ex_answer_def order_assignment_def two)
  qed
qed

lemma generate_ilp_optimal_witness:
  "(\<lambda>i. ex_answer (qvar i)) ` {0..<2} = {1..2} \<and> c_index ex_pair ! 0 \<le> c_index ex_pair ! 1"
proof -
  note t = generate_ilp_optimal [OF ex_answer_best]
  have "ex_answer (qvar 1) = ex_answer (qvar 0) + 1" by (simp add: ex_answer_def order_assignment_def)
  then show ?thesis
    using t [THEN conjunct1] t [THEN conjunct2, THEN bspec [of _ _ 0], THEN bspec [of _ _ 1]]
    by (simp add: ex_pair_def)
qed

lemma digit_chars:
  "digit 0 = CHR ''0''" "digit (Suc 0) = CHR ''1''" "digit 2 = CHR ''2''" "digit 4 = CHR ''4''"
  "digit 7 = CHR ''7''" "digit 9 = CHR ''9''"
  by code_simp+

lemma upto_small: "[0..1] = [0, 1 :: int]" "[0..0] = [0 :: int]" "[0..-1] = ([] :: int list)"
  by (simp_all add: upto.simps)

text \<open>The text of a small problem.\<close>

lemma query_ilp_ex:
  "query_ilp (generate_ilp \<lparr>nQueries = 2, c_index = [7, 4], dep_cond = [(0, 1)], rd_cond = []\<rparr>) =
     concat (map (\<lambda>l. l @ [CHR 0x0A])
       [''Maximize'', ''7 q0 + 4 q1'', ''Subject To'',
        [CHR 0x09] @ ''helper1_0: q1 - q0 + 10000 e2 >= 1'',
        [CHR 0x09] @ ''helper_1_0 :q0 - q1 - 10000 e2 >= -9999'',
        [CHR 0x09] @ ''defuse0: q1 - q0 >= 1'',
        ''Bounds'', ''0 <= q0 <= 2'', ''0 <= q1 <= 2'', ''Generals'', ''q0 q1 '', ''Binary'', ''e2 '', ''End''])"
  by (simp add: generate_ilp_def query_ilp_def helper_rows_def defuse_rows_def rd_rows_def
      show_goal_def show_row_def show_term_def show_int_def digit_chars upto_small M_def Let_def
      show_nat.simps [of "numeral k" for k] show_nat.simps [of 0] show_nat.simps [of "Suc 0"])

end
