(* ===== verification/Ilp_Lpsolve.thy ===== *)
theory Ilp_Lpsolve
  imports Ilp_Input "HOL-Library.Signed_Division"
begin

text \<open>
  The two programs for the \<open>lp_solve\<close> library under \<open>src/ILPsolvers/code/lp_solve_5.5/quro\<close>:
  \<open>ilp_test.cpp\<close> and \<open>ilp_query.cpp\<close> build the integer program row by row, each row as an array
  of coefficients beside an array of column numbers.
\<close>

section \<open>Columns\<close>

definition get_indicator_index :: "int \<Rightarrow> int \<Rightarrow> int \<Rightarrow> int" where
  "get_indicator_index n q1 q2 =
     (let (q1, q2) = (if q2 < q1 then (q2, q1) else (q1, q2));
          x = (n + q2) * (n - q2 - 1) sdiv 2 + (q2 - q1) - 1
      in n + x)"

definition pairs_below :: "int \<Rightarrow> (int \<times> int) set" where
  "pairs_below n = (SIGMA j : {0..<n}. {0..<j})"

text \<open>The columns of the pairs with the larger query \<open>j\<close> start at \<open>n + row_start n j\<close>.\<close>

definition row_start :: "int \<Rightarrow> int \<Rightarrow> int" where
  "row_start n j = (n + j) * (n - j - 1) div 2"

lemma row_start_twice: "2 * row_start n j = n * n - n - j * j - j"
proof -
  have "even ((n + j) * (n - j - 1))" by (cases "even n"; cases "even j") simp_all
  then have "2 * row_start n j = (n + j) * (n - j - 1)" by (simp add: row_start_def)
  then show ?thesis by (simp add: algebra_simps)
qed

lemma row_start_next:
  assumes "0 \<le> i" "i < (j :: int)"
  shows "row_start n j + j \<le> row_start n i"
proof -
  have "0 \<le> (j - i - 1) * (j + i)" using assms by (intro mult_nonneg_nonneg) auto
  then have "i * i + i \<le> j * j - j" by (simp add: algebra_simps)
  then show ?thesis using row_start_twice [of n j] row_start_twice [of n i] by linarith
qed

lemma indicator_eq:
  assumes "(j, i) \<in> pairs_below n"
  shows "get_indicator_index n i j = n + row_start n j + (j - i - 1)"
    and "get_indicator_index n j i = get_indicator_index n i j"
proof -
  have ij: "0 \<le> i" "i < j" "j < n" using assms by (auto simp: pairs_below_def)
  then have "(n + j) * (n - j - 1) sdiv 2 = row_start n j"
    by (simp add: row_start_def sdiv_pos)
  then show "get_indicator_index n i j = n + row_start n j + (j - i - 1)"
    "get_indicator_index n j i = get_indicator_index n i j"
    using ij by (simp_all add: get_indicator_index_def Let_def)
qed

lemma indicator_inj: "inj_on (\<lambda>(j, i). get_indicator_index n i j) (pairs_below n)"
proof (rule inj_onI, clarify)
  fix j i j' i'
  assume p: "(j, i) \<in> pairs_below n" "(j', i') \<in> pairs_below n"
    and eq: "get_indicator_index n i j = get_indicator_index n i' j'"
  have ij: "0 \<le> i" "i < j" "0 \<le> i'" "i' < j'" using p by (auto simp: pairs_below_def)
  have eq': "row_start n j + (j - i - 1) = row_start n j' + (j' - i' - 1)"
    using eq by (simp add: indicator_eq(1) [OF p(1)] indicator_eq(1) [OF p(2)])
  show "j = j' \<and> i = i'"
  proof (cases j j' rule: linorder_cases)
    case less
    with row_start_next [of j j' n] ij eq' show ?thesis by linarith
  next
    case equal
    with eq' show ?thesis by simp
  next
    case greater
    with row_start_next [of j' j n] ij eq' show ?thesis by linarith
  qed
qed

lemma indicator_range:
  assumes "(j, i) \<in> pairs_below n"
  shows "get_indicator_index n i j \<in> {n..<n + n * (n - 1) div 2}"
proof -
  have ij: "0 \<le> i" "i < j" "j < n" using assms by (auto simp: pairs_below_def)
  have "row_start n j + j \<le> row_start n 0" using row_start_next [of 0 j n] ij by simp
  moreover have "row_start n 0 = n * (n - 1) div 2" by (simp add: row_start_def)
  moreover have "0 \<le> row_start n j" using ij by (simp add: row_start_def)
  ultimately show ?thesis using ij by (simp add: indicator_eq(1) [OF assms])
qed

lemma card_pairs_below: "0 \<le> n \<Longrightarrow> card (pairs_below n) = nat (n * (n - 1) div 2)"
proof (induction n rule: int_ge_induct)
  case base
  then show ?case by (simp add: pairs_below_def)
next
  case (step n)
  have "pairs_below (n + 1) = pairs_below n \<union> Pair n ` {0..<n}"
    using step.hyps by (auto simp: pairs_below_def)
  moreover have "finite (pairs_below n)" by (simp add: pairs_below_def)
  moreover have "pairs_below n \<inter> Pair n ` {0..<n} = {}" by (auto simp: pairs_below_def)
  ultimately have "card (pairs_below (n + 1)) = nat (n * (n - 1) div 2) + nat n"
    by (simp add: card_Un_disjoint step.IH card_image inj_on_def)
  also have "\<dots> = nat (n * (n - 1) div 2 + n)"
  proof -
    have "0 \<le> n * (n - 1)" using step.hyps by (cases "n = 0") auto
    then show ?thesis using step.hyps by (simp add: nat_add_distrib)
  qed
  also have "n * (n - 1) div 2 + n = (n + 1) * (n + 1 - 1) div 2"
  proof -
    have "(n + 1) * (n + 1 - 1) = n * (n - 1) + n * 2" by (simp add: algebra_simps)
    then show ?thesis by simp
  qed
  finally show ?case .
qed

text \<open>The formula numbers the pairs of different queries by consecutive columns: it does not
  depend on the order of the two, no two pairs share a column, and the columns are exactly the
  first \<open>n(n-1)/2\<close> after those of the queries.\<close>

theorem indicator_index_bij:
  assumes "0 \<le> n"
  shows "bij_betw (\<lambda>(j, i). get_indicator_index n i j) (pairs_below n) {n..<n + n * (n - 1) div 2} \<and>
    (\<forall>(j, i) \<in> pairs_below n. get_indicator_index n j i = get_indicator_index n i j)"
proof
  let ?f = "\<lambda>(j, i). get_indicator_index n i j" and ?B = "{n..<n + n * (n - 1) div 2}"
  have "?f ` pairs_below n \<subseteq> ?B" using indicator_range by fastforce
  moreover have "card (?f ` pairs_below n) = card ?B"
    using card_image [OF indicator_inj] card_pairs_below [OF assms] by simp
  ultimately have "?f ` pairs_below n = ?B" by (intro card_subset_eq) auto
  then show "bij_betw ?f (pairs_below n) ?B" by (simp add: bij_betw_def indicator_inj)
  show "\<forall>(j, i) \<in> pairs_below n. get_indicator_index n j i = get_indicator_index n i j"
    using indicator_eq(2) by blast
qed

lemma indicator_index_bij_witness:
  "bij_betw (\<lambda>(j, i). get_indicator_index 4 i j) (pairs_below 4) {4..<4 + 4 * (4 - 1) div 2} \<and>
   get_indicator_index 4 0 1 = 9"
  using indicator_index_bij [of 4] by (simp add: get_indicator_index_def signed_divide_int_def)

section \<open>The rows\<close>

definition MAXV :: int where "MAXV = 10000"

text \<open>\<open>add_constraintex\<close> takes the first \<open>count\<close> coefficients with their column numbers.\<close>

definition add_constraintex ::
    "nat \<Rightarrow> int list \<Rightarrow> nat list \<Rightarrow> sense \<Rightarrow> int \<Rightarrow> nat lin_row" where
  "add_constraintex cnt row colno s rhs = (zip (take cnt row) (take cnt colno), s, rhs)"

definition columns :: "nat \<Rightarrow> nat list" where
  "columns k = map (\<lambda>k. k + 1) [0..<k]"

definition pair_rows :: "int \<Rightarrow> nat \<Rightarrow> nat \<Rightarrow> nat \<Rightarrow> nat lin_row list" where
  "pair_rows n Ncol i j =
     (let x = nat (get_indicator_index n (int i) (int j));
          row1 = map (\<lambda>k. if k = x then 1 else 0) [0..<Ncol];
          row2 = (map (\<lambda>k. if k = x then MAXV else 0) [0..<Ncol])[i := 1, j := 0 - 1];
          row3 = row2[x := 0 - MAXV, i := 0 - 1, j := 1]
      in [add_constraintex Ncol row1 (columns Ncol) LE 1,
          add_constraintex Ncol row2 (columns Ncol) GE 1,
          add_constraintex Ncol row3 (columns Ncol) GE (1 - MAXV)])"

definition dep_rows :: "nat \<Rightarrow> int \<times> int \<Rightarrow> nat lin_row list" where
  "dep_rows n e =
     (let (q1, q2) = e in
      if q1 \<noteq> q2
      then [add_constraintex n
              (map (\<lambda>j. if int j = q1 then 0 - 1 else if int j = q2 then 1 else 0) [0..<n])
              (columns n) GE 1]
      else [])"

definition bound_row :: "nat \<Rightarrow> nat \<Rightarrow> nat lin_row" where
  "bound_row n i =
     add_constraintex n (map (\<lambda>j. if j = i then 1 else 0) [0..<n]) (columns n) LE (int n)"

definition or_rows :: "nat \<Rightarrow> nat \<Rightarrow> nat \<Rightarrow> int \<times> int \<times> int \<Rightarrow> nat lin_row list" where
  "or_rows n Ncol k r =
     (let (a, b, c) = r;
          y = n * n + k;
          row1 = map (\<lambda>k. if k = y then 1 else 0) [0..<Ncol];
          row2 = (map (\<lambda>k. if k = y then MAXV else 0) [0..<Ncol])[nat a := 1, nat c := 0 - 1];
          row3 = row2[y := 0 - MAXV, nat a := 0, nat b := 0 - 1, nat c := 1]
      in [add_constraintex Ncol row1 (columns Ncol) LE 1,
          add_constraintex Ncol row2 (columns Ncol) GE 1,
          add_constraintex Ncol row3 (columns Ncol) GE (1 - MAXV)])"

text \<open>The model handed to the solver: all columns are integers from 0 on, and the last row is the
  goal to maximize.\<close>

record lp_model =
  Ncol :: nat
  lp_rows :: "nat lin_row list"
  obj_fn :: "(int \<times> nat) list"

definition goal_row :: "ilp_info \<Rightarrow> (int \<times> nat) list" where
  "goal_row I = (let n = nat (nQueries I) in
     zip (map (\<lambda>i. c_index I ! i) [0..<n]) (columns n))"

definition ilp_test :: "ilp_info \<Rightarrow> lp_model" where
  "ilp_test I =
     (let n = nat (nQueries I); m = n * n + length (rd_cond I) in
      \<lparr>Ncol = m,
       lp_rows = concat (map (\<lambda>i. concat (map (pair_rows (nQueries I) m i) [i + 1..<n])) [0..<n]) @
         concat (map (dep_rows n) (dep_cond I)) @
         map (bound_row n) [0..<n] @
         concat (map (\<lambda>(k, r). or_rows n m k r) (enumerate 0 (rd_cond I))),
       obj_fn = goal_row I\<rparr>)"

text \<open>\<open>ilp_query\<close> has no second kind of entry, and its loop over \<open>dep_cond\<close> counts the queries.\<close>

definition ilp_query :: "ilp_info \<Rightarrow> lp_model" where
  "ilp_query I =
     (let n = nat (nQueries I); m = n * n in
      \<lparr>Ncol = m,
       lp_rows = concat (map (\<lambda>i. concat (map (pair_rows (nQueries I) m i) [i + 1..<n])) [0..<n]) @
         concat (map (\<lambda>i. dep_rows n (dep_cond I ! i)) [0..<n]) @
         map (bound_row n) [0..<n],
       obj_fn = goal_row I\<rparr>)"

definition model_feasible :: "lp_model \<Rightarrow> (nat \<Rightarrow> int) \<Rightarrow> bool" where
  "model_feasible P x \<longleftrightarrow>
     (\<forall>k \<in> {1..Ncol P}. 0 \<le> x k) \<and> (\<forall>row \<in> set (lp_rows P). row_holds x row)"

definition qcol :: "int \<Rightarrow> nat" where
  "qcol i = nat i + 1"

section \<open>What a row of coefficients says\<close>

text \<open>A row filled by a loop, then changed at some places.\<close>

lemma row_update: "(map f [0..<m])[i := v] = map (f(i := v)) [0..<m]"
  by (rule nth_equalityI) (auto simp: nth_list_update)

lemma row_single: "(\<lambda>k. if k = x then c else (0::int)) = (\<lambda>_. 0)(x := c)"
  by (rule ext) simp

lemma take_columns: "take m (columns m) = columns m"
  by (simp add: columns_def)

definition row_value :: "(nat \<Rightarrow> int) \<Rightarrow> nat \<Rightarrow> (nat \<Rightarrow> int) \<Rightarrow> int" where
  "row_value y m f = (\<Sum>k < m. f k * y (k + 1))"

lemma row_val: "lin_val y (zip (map f [0..<m]) (columns m)) = row_value y m f"
  by (simp add: row_value_def columns_def lin_val_def zip_map_map zip_same_conv_map comp_def
      sum_list_distinct_conv_sum_set atLeast0LessThan)

lemma row_value_zero: "row_value y m (\<lambda>_. 0) = 0"
  by (simp add: row_value_def)

lemma row_value_upd:
  assumes "i < m"
  shows "row_value y m (f(i := v)) = row_value y m f + (v - f i) * y (i + 1)"
proof -
  have "row_value y m g = g i * y (i + 1) + (\<Sum>k \<in> {..<m} - {i}. g k * y (k + 1))" for g
    unfolding row_value_def by (subst sum.remove [of _ i]) (use assms in auto)
  moreover have "(\<Sum>k \<in> {..<m} - {i}. (f(i := v)) k * y (k + 1)) = (\<Sum>k \<in> {..<m} - {i}. f k * y (k + 1))"
    by (rule sum.cong) auto
  ultimately show ?thesis by (simp only: fun_upd_same) (simp add: left_diff_distrib)
qed

lemmas row_simps = add_constraintex_def row_update row_single take_columns row_val row_value_zero row_value_upd

lemma pair_rows_hold:
  assumes "i < j" "j < n" "x = nat (get_indicator_index (int n) (int i) (int j))" "n \<le> x" "x < m"
    and "0 \<le> y (x + 1)"
  shows "(\<forall>row \<in> set (pair_rows (int n) m i j). row_holds y row) \<longleftrightarrow>
    switched (y (x + 1)) (y (i + 1)) (y (j + 1)) (y (j + 1)) (y (i + 1))"
proof -
  have "i < m" "j < m" "i \<noteq> x" "j \<noteq> x" using assms by simp_all
  then have "(\<forall>row \<in> set (pair_rows (int n) m i j). row_holds y row) \<longleftrightarrow>
    y (x + 1) \<le> 1 \<and> 1 \<le> y (i + 1) - y (j + 1) + 10000 * y (x + 1) \<and>
    1 - 10000 \<le> y (j + 1) - y (i + 1) - 10000 * y (x + 1)"
    using assms(1,5) unfolding pair_rows_def assms(3) [symmetric] Let_def
    by (simp add: row_simps MAXV_def algebra_simps)
  then show ?thesis using assms(6) by (auto simp: switched_def)
qed

lemma dep_rows_hold:
  assumes "q1 \<in> {0..<int n}" "q2 \<in> {0..<int n}"
  shows "(\<forall>row \<in> set (dep_rows n (q1, q2)). row_holds y row) \<longleftrightarrow>
    q1 = q2 \<or> y (qcol q1) < y (qcol q2)"
proof (cases "q1 = q2")
  case False
  have f: "(\<lambda>j. if int j = q1 then 0 - 1 else if int j = q2 then 1 else 0) =
      ((\<lambda>_. 0)(nat q2 := 1))(nat q1 := - 1 :: int)"
    by (rule ext) (use assms in auto)
  have "nat q1 < n" "nat q2 < n" "nat q1 \<noteq> nat q2" using assms False by auto
  then have "row_value y n (\<lambda>j. if int j = q1 then 0 - 1 else if int j = q2 then 1 else 0) =
      y (qcol q2) - y (qcol q1)"
    unfolding f by (simp add: row_value_upd row_value_zero qcol_def)
  then show ?thesis using False unfolding dep_rows_def prod.case
    by (simp add: add_constraintex_def take_columns row_val) linarith
qed (simp add: dep_rows_def)

lemma bound_row_holds: "i < n \<Longrightarrow> row_holds y (bound_row n i) \<longleftrightarrow> y (i + 1) \<le> int n"
  by (simp add: bound_row_def row_simps)

lemma or_rows_hold:
  assumes r: "a \<in> {0..<int n}" "b \<in> {0..<int n}" "c \<in> {0..<int n}" "c \<noteq> a" "c \<noteq> b"
    and m: "n * n + k < m" and y: "0 \<le> y (n * n + k + 1)"
  shows "(\<forall>row \<in> set (or_rows n m k (a, b, c)). row_holds y row) \<longleftrightarrow>
    switched (y (n * n + k + 1)) (y (qcol a)) (y (qcol c)) (y (qcol c)) (y (qcol b))"
proof -
  have "n \<le> n * n + k" by (simp add: trans_le_add1)
  moreover have "nat a < n" "nat b < n" "nat c < n" using r by auto
  ultimately have lt: "nat a < n * n + k" "nat b < n * n + k" "nat c < n * n + k" "nat c \<noteq> nat a" "nat c \<noteq> nat b"
    using r(1-5) by auto
  then have "(\<forall>row \<in> set (or_rows n m k (a, b, c)). row_holds y row) \<longleftrightarrow>
    y (n * n + k + 1) \<le> 1 \<and> 1 \<le> y (qcol a) - y (qcol c) + 10000 * y (n * n + k + 1) \<and>
    1 - 10000 \<le> y (qcol c) - y (qcol b) - 10000 * y (n * n + k + 1)"
    using m unfolding or_rows_def Let_def prod.case
    by (cases "nat a = nat b") (simp_all add: row_simps MAXV_def qcol_def algebra_simps)
  then show ?thesis using y by (auto simp: switched_def)
qed

section \<open>Feasible assignments\<close>

definition pair_col :: "int \<Rightarrow> int \<Rightarrow> int \<Rightarrow> nat" where
  "pair_col n i j = nat (get_indicator_index n i j) + 1"

lemma pair_col_range:
  assumes "j \<in> {0..<int n}" "i \<in> {0..<j}"
  shows "n < pair_col (int n) i j" "pair_col (int n) i j \<le> n * n"
    "n \<le> nat (get_indicator_index (int n) i j)" "nat (get_indicator_index (int n) i j) < n * n"
proof -
  have "(j, i) \<in> pairs_below (int n)" using assms by (simp add: pairs_below_def)
  from indicator_range [OF this]
  have lo: "int n \<le> get_indicator_index (int n) i j"
    and hi: "get_indicator_index (int n) i j < int n + int n * (int n - 1) div 2" by simp_all
  have "0 \<le> int n * (int n - 1)" using assms by simp
  then have "int n * (int n - 1) div 2 \<le> int n * (int n - 1)" by simp
  then have "get_indicator_index (int n) i j < int (n * n)" using hi by (simp add: algebra_simps)
  then have hi: "nat (get_indicator_index (int n) i j) < n * n" using lo by linarith
  with lo show "n \<le> nat (get_indicator_index (int n) i j)" "nat (get_indicator_index (int n) i j) < n * n"
    "n < pair_col (int n) i j" "pair_col (int n) i j \<le> n * n"
    by (simp_all add: pair_col_def)
qed

text \<open>The rows that both programs have: the pairs and the bounds.\<close>

lemma pair_part:
  assumes "n * n \<le> m" "\<forall>k \<in> {1..m}. 0 \<le> x k"
  shows "(\<forall>row \<in> set (concat (map (\<lambda>i. concat (map (pair_rows (int n) m i) [i + 1..<n])) [0..<n])).
      row_holds x row) \<longleftrightarrow>
    (\<forall>j \<in> {0..<int n}. \<forall>i \<in> {0..<j}. switched (x (pair_col (int n) i j))
       (x (qcol i)) (x (qcol j)) (x (qcol j)) (x (qcol i)))" (is "?L \<longleftrightarrow> (\<forall>j \<in> _. \<forall>i \<in> _. ?S i j)")
proof -
  have row: "(\<forall>row \<in> set (pair_rows (int n) m i j). row_holds x row) \<longleftrightarrow> ?S (int i) (int j)"
    if "i < j" "j < n" for i j
  proof -
    note r = pair_col_range [of "int j" n "int i"]
    have "int j \<in> {0..<int n}" "int i \<in> {0..<int j}" using that by simp_all
    note r = r [OF this]
    then have lt: "nat (get_indicator_index (int n) (int i) (int j)) < m" using assms(1) by linarith
    then have "0 \<le> x (nat (get_indicator_index (int n) (int i) (int j)) + 1)" using assms(2) by simp
    from pair_rows_hold [where y = x, OF that refl r(3) lt this] show ?thesis by (simp add: pair_col_def qcol_def)
  qed
  have "?L \<longleftrightarrow> (\<forall>i < n. \<forall>j \<in> {i + 1..<n}. ?S (int i) (int j))"
    unfolding all_concat using row by (simp add: Ball_def)
  also have "\<dots> \<longleftrightarrow> (\<forall>j \<in> {0..<int n}. \<forall>i \<in> {0..<j}. ?S i j)" (is "?A \<longleftrightarrow> ?B")
  proof
    assume A: ?A
    show ?B
    proof (intro ballI)
      fix i j assume ij: "j \<in> {0..<int n}" "i \<in> {0..<j}"
      then have "nat i < n" "nat j \<in> {nat i + 1..<n}" "int (nat i) = i" "int (nat j) = j" by auto
      then show "?S i j" using A by metis
    qed
  next
    assume ?B
    then show ?A by simp
  qed
  finally show ?thesis .
qed

lemma bound_part:
  "(\<forall>row \<in> set (map (bound_row n) [0..<n]). row_holds x row) \<longleftrightarrow>
   (\<forall>i \<in> {0..<int n}. x (qcol i) \<le> int n)" (is "?L \<longleftrightarrow> ?R")
proof -
  have "?L \<longleftrightarrow> (\<forall>i < n. x (i + 1) \<le> int n)" by (auto simp: bound_row_holds)
  also have "\<dots> \<longleftrightarrow> ?R"
    by (metis (mono_tags, lifting) atLeastLessThan_iff nat_int of_nat_0_le_iff of_nat_less_iff
        qcol_def nat_less_iff)
  finally show ?thesis .
qed

lemma dep_part:
  assumes "\<forall>(a, b) \<in> set es. a \<in> {0..<int n} \<and> b \<in> {0..<int n}"
  shows "(\<forall>row \<in> set (concat (map (dep_rows n) es)). row_holds x row) \<longleftrightarrow>
    (\<forall>(a, b) \<in> set (filter (\<lambda>(a, b). a \<noteq> b) es). x (qcol a) < x (qcol b))"
proof -
  have "(\<forall>row \<in> set (dep_rows n e). row_holds x row) \<longleftrightarrow>
      (case e of (a, b) \<Rightarrow> a = b \<or> x (qcol a) < x (qcol b))" if "e \<in> set es" for e
  proof -
    obtain a b where e: "e = (a, b)" by (cases e)
    then have "a \<in> {0..<int n}" "b \<in> {0..<int n}" using assms that by blast+
    from dep_rows_hold [OF this] show ?thesis by (simp add: e)
  qed
  then show ?thesis unfolding all_concat by auto
qed

lemma or_part:
  assumes "\<forall>(a, b, c) \<in> set rds. a \<in> {0..<int n} \<and> b \<in> {0..<int n} \<and> c \<in> {0..<int n} \<and> c \<noteq> a \<and> c \<noteq> b"
    and "\<forall>k \<in> {1..n * n + length rds}. 0 \<le> x k"
  shows "(\<forall>row \<in> set (concat (map (\<lambda>(k, r). or_rows n (n * n + length rds) k r) (enumerate 0 rds))).
      row_holds x row) \<longleftrightarrow>
    (\<forall>(k, a, b, c) \<in> set (enumerate 0 rds). switched (x (n * n + k + 1))
       (x (qcol a)) (x (qcol c)) (x (qcol c)) (x (qcol b)))"
  unfolding all_concat
proof (rule ball_cong [OF refl], clarify)
  fix k a b c assume k: "(k, a, b, c) \<in> set (enumerate 0 rds)"
  then have "k < length rds" "(a, b, c) \<in> set rds"
    by (auto simp: in_set_enumerate_eq) (metis nth_mem)
  moreover have "a \<in> {0..<int n}" "b \<in> {0..<int n}" "c \<in> {0..<int n}" "c \<noteq> a" "c \<noteq> b"
    using assms(1) calculation(2) by blast+
  ultimately show "(\<forall>row \<in> set (or_rows n (n * n + length rds) k (a, b, c)). row_holds x row) \<longleftrightarrow>
      switched (x (n * n + k + 1)) (x (qcol a)) (x (qcol c)) (x (qcol c)) (x (qcol b))"
    using assms(2) by (intro or_rows_hold) auto
qed

lemma ilp_test_feasible:
  assumes wf: "well_formed I" and n: "n = nat (nQueries I)"
  shows "model_feasible (ilp_test I) x \<longleftrightarrow>
    (\<forall>k \<in> {1..n * n + length (rd_cond I)}. 0 \<le> x k) \<and>
    (\<forall>j \<in> {0..<int n}. \<forall>i \<in> {0..<j}. switched (x (pair_col (int n) i j))
       (x (qcol i)) (x (qcol j)) (x (qcol j)) (x (qcol i))) \<and>
    (\<forall>(a, b) \<in> set (filter (\<lambda>(a, b). a \<noteq> b) (dep_cond I)). x (qcol a) < x (qcol b)) \<and>
    (\<forall>i \<in> {0..<int n}. x (qcol i) \<le> int n) \<and>
    (\<forall>(k, a, b, c) \<in> set (enumerate 0 (rd_cond I)). switched (x (n * n + k + 1))
       (x (qcol a)) (x (qcol c)) (x (qcol c)) (x (qcol b)))" (is "_ \<longleftrightarrow> ?N \<and> _")
proof -
  have nq: "nQueries I = int n" using n well_formed_n(2) [OF wf] by simp
  have d: "\<forall>(a, b) \<in> set (dep_cond I). a \<in> {0..<int n} \<and> b \<in> {0..<int n}"
    using well_formed_dep [OF wf] by (simp add: nq) blast
  have r: "\<forall>(a, b, c) \<in> set (rd_cond I). a \<in> {0..<int n} \<and> b \<in> {0..<int n} \<and> c \<in> {0..<int n} \<and>
      c \<noteq> a \<and> c \<noteq> b"
    using well_formed_rd [OF wf] unfolding nq by blast
  show ?thesis
  proof (cases ?N)
    case True
    then show ?thesis
      unfolding model_feasible_def ilp_test_def Let_def nq nat_int lp_model.simps set_append ball_Un
        pair_part [OF le_add1 True] dep_part [OF d] bound_part or_part [OF r True] by blast
  next
    case False
    then show ?thesis
      unfolding model_feasible_def ilp_test_def Let_def nq nat_int lp_model.simps by blast
  qed
qed

text \<open>The assignment of an order: the column of a pair is looked up among the pairs.\<close>

definition pair_list :: "int \<Rightarrow> (int \<times> int) list" where
  "pair_list n = concat (map (\<lambda>j. map (\<lambda>i. (j, i)) [0..j - 1]) [0..n - 1])"

definition column_value ::
    "nat \<Rightarrow> (int \<times> int \<times> int) list \<Rightarrow> (int \<Rightarrow> int) \<Rightarrow> nat \<Rightarrow> int" where
  "column_value n rds p col =
     (let k = col - 1 in
      if k < n then p (int k)
      else if n * n \<le> k then (case rds ! (k - n * n) of (a, b, c) \<Rightarrow> if p c < p a then 0 else 1)
      else (case find (\<lambda>(j, i). pair_col (int n) i j = col) (pair_list (int n)) of
              None \<Rightarrow> 0
            | Some (j, i) \<Rightarrow> if p j < p i then 0 else 1))"

lemma set_pair_list: "set (pair_list n) = pairs_below n"
proof -
  have ivl: "{0..n - 1} = {0..<n}" for n :: int by auto
  show ?thesis by (auto simp: pair_list_def pairs_below_def ivl)
qed

lemma pair_col_inj:
  assumes "(j, i) \<in> pairs_below (int n)" "(j', i') \<in> pairs_below (int n)"
    and "pair_col (int n) i j = pair_col (int n) i' j'"
  shows "j = j' \<and> i = i'"
proof -
  have "get_indicator_index (int n) i j = get_indicator_index (int n) i' j'"
    using assms(3) indicator_range [OF assms(1)] indicator_range [OF assms(2)]
    by (simp add: pair_col_def eq_nat_nat_iff)
  with inj_onD [OF indicator_inj _ assms(1,2)] show ?thesis by simp
qed

lemma column_value_pair:
  assumes "j \<in> {0..<int n}" "i \<in> {0..<j}"
  shows "column_value n rds p (pair_col (int n) i j) = (if p j < p i then 0 else 1)"
proof -
  have mem: "(j, i) \<in> pairs_below (int n)" using assms by (simp add: pairs_below_def)
  have "find (\<lambda>(j', i'). pair_col (int n) i' j' = pair_col (int n) i j) (pair_list (int n)) = Some (j, i)"
  proof (cases "find (\<lambda>(j', i'). pair_col (int n) i' j' = pair_col (int n) i j) (pair_list (int n))")
    case None
    then show ?thesis using mem by (auto simp: find_None_iff set_pair_list)
  next
    case (Some z)
    obtain j' i' where z: "z = (j', i')" by (cases z)
    from Some have "(j', i') \<in> pairs_below (int n)" "pair_col (int n) i' j' = pair_col (int n) i j"
      by (auto simp: find_Some_iff z set_pair_list [symmetric]) (metis nth_mem)
    with pair_col_inj [OF _ mem] show ?thesis by (simp add: Some z)
  qed
  moreover have "\<not> pair_col (int n) i j - 1 < n" "\<not> n * n \<le> pair_col (int n) i j - 1"
    using pair_col_range(1,2) [OF assms] by linarith+
  ultimately show ?thesis unfolding column_value_def Let_def by simp
qed

lemma column_value_q: "i \<in> {0..<int n} \<Longrightarrow> column_value n rds p (qcol i) = p i"
  by (simp add: column_value_def qcol_def Let_def nat_less_iff)

lemma column_value_or:
  "rds ! k = (a, b, c) \<Longrightarrow>
   column_value n rds p (n * n + k + 1) = (if p c < p a then 0 else 1)"
  using le_trans [of n "n * n" "n * n + k"] by (simp add: column_value_def Let_def not_less)

lemma column_value_nonneg:
  assumes "\<forall>i \<in> {0..<int n}. 0 \<le> p i"
  shows "0 \<le> column_value n rds p k"
  using assms by (simp add: column_value_def Let_def split: option.split prod.split)

text \<open>Both programs are sound and complete for what they read.\<close>

lemma ilp_test_sound:
  assumes wf: "well_formed I" and x: "model_feasible (ilp_test I) x"
  shows "orders (nQueries I) (filter (\<lambda>(a, b). a \<noteq> b) (dep_cond I)) (rd_cond I) (\<lambda>i. x (qcol i))"
proof (rule orders_of_switched [OF well_formed_n(1) [OF wf]])
  have nq: "int (nat (nQueries I)) = nQueries I" using well_formed_n(2) [OF wf] by simp
  note f = x [unfolded ilp_test_feasible [OF wf refl] nq]
  show "0 \<le> x (qcol i) \<and> x (qcol i) \<le> nQueries I" if i: "i \<in> {0..<nQueries I}" for i
  proof -
    have "nat i < nat (nQueries I)" using i by simp
    then have "nat i + 1 \<le> nat (nQueries I) * nat (nQueries I)"
      by (metis Suc_eq_plus1 Suc_leI le_square le_trans)
    then have "qcol i \<in> {1..nat (nQueries I) * nat (nQueries I) + length (rd_cond I)}"
      by (simp add: qcol_def)
    then show ?thesis using f i by blast
  qed
  show "\<exists>e. switched e (x (qcol i)) (x (qcol j)) (x (qcol j)) (x (qcol i))"
    if "i \<in> {0..<nQueries I}" "j \<in> {0..<i}" for i j
  proof -
    have "switched (x (pair_col (nQueries I) j i)) (x (qcol j)) (x (qcol i)) (x (qcol i)) (x (qcol j))"
      using f that by blast
    from switched_swap [OF this] show ?thesis by blast
  qed
  show "x (qcol a) < x (qcol b)" if "(a, b) \<in> set (filter (\<lambda>(a, b). a \<noteq> b) (dep_cond I))" for a b
    using f that by blast
  fix a b c assume abc: "(a, b, c) \<in> set (rd_cond I)"
  then obtain k where k: "(k, a, b, c) \<in> set (enumerate 0 (rd_cond I))" by (rule in_enumerate)
  show "a \<in> {0..<nQueries I} \<and> b \<in> {0..<nQueries I} \<and> c \<in> {0..<nQueries I} \<and>
      (\<exists>e. switched e (x (qcol a)) (x (qcol c)) (x (qcol c)) (x (qcol b)))"
    using well_formed_rd [OF wf abc] f k by blast
qed

lemma ilp_test_complete:
  assumes wf: "well_formed I"
    and p: "orders (nQueries I) (filter (\<lambda>(a, b). a \<noteq> b) (dep_cond I)) (rd_cond I) p"
  shows "model_feasible (ilp_test I) (column_value (nat (nQueries I)) (rd_cond I) p)"
    (is "model_feasible _ ?x")
proof -
  define n where "n = nat (nQueries I)"
  have nq: "nQueries I = int n" using well_formed_n(2) [OF wf] by (simp add: n_def)
  note sw = switched_of_orders [OF well_formed_n(1) [OF wf] p, unfolded nq]
  note pD = ordersD [OF p, unfolded nq]
  have q: "column_value n (rd_cond I) p (qcol i) = p i" if "i \<in> {0..<int n}" for i
    by (rule column_value_q [OF that])
  show ?thesis
    unfolding n_def [symmetric] ilp_test_feasible [OF wf n_def]
  proof (intro conjI ballI, goal_cases)
    case 1
    then show ?case using pD(1) by (intro column_value_nonneg) blast
  next
    case (2 j i)
    then have i: "i \<in> {0..<int n}" "i \<noteq> j" by auto
    show ?case using sw(1) [OF i(1) 2(1) i(2)]
      by (simp add: column_value_pair [OF 2] q [OF i(1)] q [OF 2(1)])
  next
    case (3 e)
    obtain a b where ab: "e = (a, b)" by (cases e)
    note e = ab 3 [unfolded ab]
    then have "(a, b) \<in> set (dep_cond I)" by simp
    from well_formed_dep [OF wf this] pD(3) [OF e(2)] show ?case by (simp add: e(1) q nq)
  next
    case (4 i)
    then show ?case using pD(1) q by simp
  next
    case (5 r)
    obtain k a b c where kr: "r = (k, a, b, c)" by (rule prod_cases4)
    have r: "r = (k, a, b, c)" "rd_cond I ! k = (a, b, c)" "(a, b, c) \<in> set (rd_cond I)"
      using kr 5 by (auto simp: in_set_enumerate_eq) (metis nth_mem)
    have abc: "a \<in> {0..<int n} \<and> b \<in> {0..<int n} \<and> c \<in> {0..<int n}"
      using well_formed_rd [OF wf r(3)] by (simp add: nq)
    show ?case
      using sw(2) [OF r(3) abc] abc column_value_or [OF r(2)] by (simp add: r(1) q)
  qed
qed

definition solver_goal :: "lp_model \<Rightarrow> (nat \<Rightarrow> int) \<Rightarrow> int" where
  "solver_goal P x = lin_val x (obj_fn P)"

lemma goal_row_weight:
  assumes "0 \<le> nQueries I"
  shows "lin_val x (goal_row I) = weight I (\<lambda>i. x (qcol i))"
proof -
  define n where "n = nat (nQueries I)"
  have nq: "nQueries I = int n" using assms by (simp add: n_def)
  have "lin_val x (goal_row I) = (\<Sum>k < n. c_index I ! k * x (k + 1))"
    by (simp add: goal_row_def row_val row_value_def n_def Let_def)
  also have "\<dots> = weight I (\<lambda>i. x (qcol i))"
    unfolding weight_def nq
    by (rule sum.reindex_bij_witness [of _ nat int]) (auto simp: qcol_def)
  finally show ?thesis .
qed

interpretation ltest: ilp_generator well_formed "\<lambda>I. model_feasible (ilp_test I)"
  "\<lambda>I. solver_goal (ilp_test I)" qcol "\<lambda>I. filter (\<lambda>(a, b). a \<noteq> b) (dep_cond I)" rd_cond
proof
  fix I p
  assume a: "well_formed I" "orders (nQueries I) (filter (\<lambda>(a, b). a \<noteq> b) (dep_cond I)) (rd_cond I) p"
  show "\<exists>x. model_feasible (ilp_test I) x \<and> (\<forall>i \<in> {0..<nQueries I}. x (qcol i) = p i)"
    using ilp_test_complete [OF a] well_formed_n(2) [OF a(1)]
    by (intro exI [of _ "column_value (nat (nQueries I)) (rd_cond I) p"]) (simp add: column_value_q)
next
  fix I x assume "well_formed I"
  then show "solver_goal (ilp_test I) x = weight I (\<lambda>i. x (qcol i))"
    using well_formed_n(2) goal_row_weight by (simp add: solver_goal_def ilp_test_def Let_def)
qed (auto simp: ilp_test_sound)

section \<open>The three generators\<close>

text \<open>C18: for every problem whose entries name queries, the model that \<open>ilp_test\<close> builds has as its
  solutions, read from the columns of the queries, exactly the orders that keep the dependences
  between different queries and keep each writer out of its stretch; and its goal is the sum of
  the conflict indices weighted by the positions.\<close>

theorem ilp_test_correct:
  assumes "well_formed I"
  shows "(\<exists>x. model_feasible (ilp_test I) x \<and> (\<forall>i \<in> {0..<nQueries I}. x (qcol i) = p i)) \<longleftrightarrow>
       orders (nQueries I) (filter (\<lambda>(a, b). a \<noteq> b) (dep_cond I)) (rd_cond I) p"
  by (rule ltest.solutions [OF assms])

definition ex_test :: ilp_info where
  "ex_test = \<lparr>nQueries = 3, c_index = [5, 0, 3], dep_cond = [(0, 0), (0, 1)], rd_cond = [(0, 1, 2)]\<rparr>"

lemma ilp_test_correct_witness:
  "(\<exists>x. model_feasible (ilp_test ex_test) x \<and> (\<forall>i \<in> {0..<nQueries ex_test}. x (qcol i) = i + 1)) \<longleftrightarrow>
     orders (nQueries ex_test) (filter (\<lambda>(a, b). a \<noteq> b) (dep_cond ex_test)) (rd_cond ex_test) (\<lambda>i. i + 1)"
  by (rule ilp_test_correct) (simp add: ex_test_def well_formed_def)

text \<open>\<open>ilp_query\<close> builds what \<open>ilp_test\<close> builds for the first entries of the array, one per query.\<close>

definition first_entries :: "ilp_info \<Rightarrow> ilp_info" where
  "first_entries I = I\<lparr>dep_cond := map (\<lambda>i. dep_cond I ! i) [0..<nat (nQueries I)], rd_cond := []\<rparr>"

lemma ilp_query_first: "ilp_query I = ilp_test (first_entries I)"
  by (simp add: ilp_query_def ilp_test_def first_entries_def Let_def goal_row_def comp_def)

lemma first_entries_wf:
  assumes "well_formed I" "nQueries I \<le> int (length (dep_cond I))"
  shows "well_formed (first_entries I)"
proof -
  have "set (map (\<lambda>i. dep_cond I ! i) [0..<nat (nQueries I)]) \<subseteq> set (dep_cond I)"
    using assms(2) by auto
  then have "\<forall>(a, b) \<in> set (map (\<lambda>i. dep_cond I ! i) [0..<nat (nQueries I)]).
      a \<in> {0..<nQueries I} \<and> b \<in> {0..<nQueries I}"
    using well_formed_dep [OF assms(1)] by blast
  then show ?thesis using assms(1) unfolding well_formed_def first_entries_def by simp
qed

end
