(* ===== verification/Std_Containers.thy ===== *)
theory Std_Containers
  imports Quro_Prelude
begin

text \<open>
  The containers of the C++ standard library that QURO keeps its analysis results
  in, as far as the source uses them, and QURO's own \<open>CmpUnorderedSet\<close>
  (\<open>src/quro/code/QueryBlock.h\<close>).  \<open>std::set\<close> iterates in key order, so a set is
  its strictly ascending list of elements; \<open>std::map\<close> is its list of pairs, ascending
  in the key.  The interface the clients rely on is the locale \<open>set_adt\<close>, which both
  set implementations interpret.
\<close>

section \<open>The interface\<close>

locale set_adt =
  fixes empty :: "'s"
    and ins :: "'a \<Rightarrow> 's \<Rightarrow> 's"
    and elems :: "'s \<Rightarrow> 'a set"
    and invar :: "'s \<Rightarrow> bool"
  assumes elems_empty: "elems empty = {}"
    and elems_ins: "invar s \<Longrightarrow> elems (ins x s) = insert x (elems s)"
    and invar_empty: "invar empty"
    and invar_ins: "invar s \<Longrightarrow> invar (ins x s)"
begin

lemma invar_fold: "invar s \<Longrightarrow> invar (fold ins xs s)"
  by (induction xs arbitrary: s) (auto simp: invar_ins)

lemma elems_fold: "invar s \<Longrightarrow> elems (fold ins xs s) = elems s \<union> set xs"
  by (induction xs arbitrary: s) (auto simp: elems_ins invar_ins)

lemma elems_ins_member: "invar s \<Longrightarrow> x \<in> elems s \<Longrightarrow> elems (ins x s) = elems s"
  by (auto simp: elems_ins)

end

section \<open>std::set\<close>

type_synonym 'a stdset = "'a list"

fun sset_insert :: "'a::linorder \<Rightarrow> 'a stdset \<Rightarrow> 'a stdset" where
  "sset_insert x [] = [x]"
| "sset_insert x (y # ys) =
     (if x < y then x # y # ys else if x = y then y # ys else y # sset_insert x ys)"

definition sset_ok :: "'a::linorder stdset \<Rightarrow> bool" where
  "sset_ok xs \<longleftrightarrow> sorted_wrt (<) xs"

lemma set_sset_insert [simp, std_simps]: "set (sset_insert x xs) = insert x (set xs)"
  by (induction xs) auto

lemma sset_ok_Nil [simp]: "sset_ok []"
  by (simp add: sset_ok_def)

lemma sset_ok_insert [simp]: "sset_ok xs \<Longrightarrow> sset_ok (sset_insert x xs)"
  unfolding sset_ok_def by (induction xs) (auto intro: order_less_trans)

lemma sset_ok_distinct: "sset_ok xs \<Longrightarrow> distinct xs"
  unfolding sset_ok_def by (induction xs) auto

lemma sset_eqI: "sset_ok xs \<Longrightarrow> sset_ok ys \<Longrightarrow> set xs = set ys \<Longrightarrow> xs = ys"
  unfolding sset_ok_def
  by (rule strict_sorted_equal) (auto simp: strict_sorted_iff [symmetric])

interpretation sset: set_adt "[]" sset_insert set sset_ok
  by unfold_locales auto

section \<open>CmpUnorderedSet\<close>

text \<open>
  \<open>template<class T> class CmpUnorderedSet\<close>: a vector and a parallel vector of flags.
  \<open>find\<close> scans for equality, \<open>insert\<close> appends unless the element is there already, and
  \<open>getattr\<close> is the flag the element was inserted with (\<open>false\<close> when it is absent).
\<close>

record 'a cmp_set =
  cs_list :: "'a list"
  cs_attr :: "bool list"

definition cs_empty :: "'a cmp_set" where
  "cs_empty = \<lparr>cs_list = [], cs_attr = []\<rparr>"

fun cs_scan :: "'a \<Rightarrow> 'a list \<Rightarrow> nat option" where
  "cs_scan t [] = None"
| "cs_scan t (x # xs) = (if x = t then Some 0 else map_option Suc (cs_scan t xs))"

definition cs_find :: "'a \<Rightarrow> 'a cmp_set \<Rightarrow> nat option" where
  "cs_find t s = cs_scan t (cs_list s)"

definition cs_insert_attr :: "'a \<Rightarrow> bool \<Rightarrow> 'a cmp_set \<Rightarrow> 'a cmp_set" where
  "cs_insert_attr t a s =
     (if cs_find t s = None
      then \<lparr>cs_list = cs_list s @ [t], cs_attr = cs_attr s @ [a]\<rparr> else s)"

definition cs_insert :: "'a \<Rightarrow> 'a cmp_set \<Rightarrow> 'a cmp_set" where
  "cs_insert t s = cs_insert_attr t False s"

definition cs_getattr :: "'a \<Rightarrow> 'a cmp_set \<Rightarrow> bool" where
  "cs_getattr t s = (case cs_find t s of None \<Rightarrow> False | Some i \<Rightarrow> cs_attr s ! i)"

definition cs_ok :: "'a cmp_set \<Rightarrow> bool" where
  "cs_ok s \<longleftrightarrow> length (cs_attr s) = length (cs_list s) \<and> distinct (cs_list s)"

lemma cs_scan_None: "cs_scan t xs = None \<longleftrightarrow> t \<notin> set xs"
  by (induction xs) auto

lemma cs_scan_Some: "cs_scan t xs = Some i \<Longrightarrow> i < length xs \<and> xs ! i = t"
  by (induction xs arbitrary: i) (auto split: if_splits)

lemma cs_scan_append:
  "cs_scan t (xs @ ys) =
     (case cs_scan t xs of Some i \<Rightarrow> Some i
      | None \<Rightarrow> map_option (\<lambda>i. length xs + i) (cs_scan t ys))"
proof (induction xs)
  case Nil
  show ?case by (cases "cs_scan t ys") simp_all
next
  case (Cons x xs)
  then show ?case by (cases "cs_scan t xs"; cases "cs_scan t ys") auto
qed

lemma cs_find_None [simp]: "cs_find t s = None \<longleftrightarrow> t \<notin> set (cs_list s)"
  by (simp add: cs_find_def cs_scan_None)

lemma cs_ok_empty [simp]: "cs_ok cs_empty"
  by (simp add: cs_ok_def cs_empty_def)

lemma cs_ok_insert_attr [simp]: "cs_ok s \<Longrightarrow> cs_ok (cs_insert_attr t a s)"
  by (auto simp: cs_ok_def cs_insert_attr_def)

lemma cs_list_insert_attr [simp]:
  "set (cs_list (cs_insert_attr t a s)) = insert t (set (cs_list s))"
  by (auto simp: cs_insert_attr_def)

interpretation cset: set_adt cs_empty cs_insert "\<lambda>s. set (cs_list s)" cs_ok
  by unfold_locales (auto simp: cs_insert_def, simp add: cs_empty_def)

text \<open>The first insertion of an element decides its flag; later ones leave it.\<close>

lemma cs_getattr_insert:
  assumes "cs_ok s"
  shows "cs_getattr u (cs_insert_attr t a s) =
           (if u = t \<and> t \<notin> set (cs_list s) then a else cs_getattr u s)"
proof (cases "t \<in> set (cs_list s)")
  case True
  then show ?thesis by (simp add: cs_insert_attr_def)
next
  case False
  with assms show ?thesis
    by (auto simp: cs_insert_attr_def cs_getattr_def cs_find_def cs_scan_append cs_scan_None cs_ok_def
        nth_append dest: cs_scan_Some split: option.splits)
qed

section \<open>std::map from variables to sets of code blocks\<close>

type_synonym defmap = "(vid \<times> bid stdset) list"

fun smap_get :: "(vid \<times> 'b) list \<Rightarrow> vid \<Rightarrow> 'b option" where
  "smap_get [] v = None"
| "smap_get ((k, b) # m) v = (if v = k then Some b else smap_get m v)"

fun smap_put :: "vid \<Rightarrow> 'b \<Rightarrow> (vid \<times> 'b) list \<Rightarrow> (vid \<times> 'b) list" where
  "smap_put v b [] = [(v, b)]"
| "smap_put v b ((k, c) # m) =
     (if v < k then (v, b) # (k, c) # m
      else if v = k then (k, b) # m else (k, c) # smap_put v b m)"

definition smap_ok :: "(vid \<times> 'b) list \<Rightarrow> bool" where
  "smap_ok m \<longleftrightarrow> sorted_wrt (<) (map fst m)"

lemma smap_get_put [simp, std_simps]:
  "smap_get (smap_put v b m) w = (if w = v then Some b else smap_get m w)"
  by (induction m) auto

lemma fst_smap_put [simp]: "fst ` set (smap_put v b m) = insert v (fst ` set m)"
  by (induction m rule: smap_put.induct) auto

lemma smap_ok_put [simp]: "smap_ok m \<Longrightarrow> smap_ok (smap_put v b m)"
  unfolding smap_ok_def
  by (induction m rule: smap_put.induct) (force intro: order_less_trans)+

lemma smap_ok_Nil [simp]: "smap_ok []"
  by (simp add: smap_ok_def)

lemma smap_get_mem: "smap_get m v = Some b \<Longrightarrow> (v, b) \<in> set m"
  by (induction m) (auto split: if_splits)

lemma smap_mem_get: "smap_ok m \<Longrightarrow> (v, b) \<in> set m \<Longrightarrow> smap_get m v = Some b"
  unfolding smap_ok_def by (induction m) force+

text \<open>\<open>m[v]\<close> of a map of sets: a missing key reads as the empty set.\<close>

definition smap_at :: "defmap \<Rightarrow> vid \<Rightarrow> bid stdset" where
  "smap_at m v = (case smap_get m v of None \<Rightarrow> [] | Some s \<Rightarrow> s)"

lemma smap_at_put [simp]: "smap_at (smap_put v s m) w = (if w = v then s else smap_at m w)"
  by (simp add: smap_at_def)

lemma smap_at_Nil [simp]: "smap_at [] v = []"
  by (simp add: smap_at_def)

end
