(* ===== verification/Src_Range.thy ===== *)
theory Src_Range
  imports Std_Containers
begin

text \<open>
  Source locations and ranges, and the conditional blocks
  (\<open>src/quro/code/QueryBlock.h\<close>, \<open>QueryBlock.cpp\<close>).  A \<open>SourceLocation\<close> of the compiler
  is either invalid or a position of the translation unit; \<open>BeforeThanCompare\<close> compares
  positions.  The second half is the stack of open conditional blocks that the second
  pass of \<open>CBlocks.cpp\<close> keeps: how a block is pushed, and how a statement finds the
  blocks around it.
\<close>

section \<open>Locations\<close>

type_synonym src_loc = "nat option"

definition loc_isValid :: "src_loc \<Rightarrow> bool" where
  "loc_isValid l \<longleftrightarrow> l \<noteq> None"

fun loc_before :: "src_loc \<Rightarrow> src_loc \<Rightarrow> bool" where
  "loc_before (Some a) (Some b) = (a < b)"
| "loc_before _ _ = False"

section \<open>Ranges\<close>

definition rangeIsWithin :: "src_loc \<Rightarrow> src_loc \<Rightarrow> src_loc \<Rightarrow> src_loc \<Rightarrow> bool" where
  "rangeIsWithin inner_begin inner_end outer_begin outer_end =
     (if loc_isValid inner_begin \<and> loc_isValid inner_end \<and>
         loc_isValid outer_begin \<and> loc_isValid outer_end
      then (if loc_before inner_begin outer_begin \<or> loc_before outer_end inner_end
            then False else True)
      else False)"

definition locIsWithin :: "src_loc \<Rightarrow> src_loc \<Rightarrow> src_loc \<Rightarrow> bool" where
  "locIsWithin inner outer_begin outer_end =
     (if loc_isValid inner \<and> loc_isValid outer_begin \<and> loc_isValid outer_end
      then (if loc_before inner outer_begin \<or> loc_before outer_end inner then False else True)
      else False)"

definition rangeCompletelyBefore :: "src_loc \<Rightarrow> src_loc \<Rightarrow> src_loc \<Rightarrow> src_loc \<Rightarrow> bool" where
  "rangeCompletelyBefore before_begin before_end after_begin after_end =
     (if loc_isValid before_begin \<and> loc_isValid before_end \<and>
         loc_isValid after_begin \<and> loc_isValid after_end
      then (if loc_before before_begin after_begin \<and> loc_before before_end after_begin
            then True else False)
      else False)"

lemma rangeIsWithin_iff:
  "rangeIsWithin ib ie ob oe \<longleftrightarrow>
     (\<exists>a b c d. ib = Some a \<and> ie = Some b \<and> ob = Some c \<and> oe = Some d \<and> c \<le> a \<and> b \<le> d)"
  by (cases ib; cases ie; cases ob; cases oe)
     (auto simp: rangeIsWithin_def loc_isValid_def)

lemma locIsWithin_iff:
  "locIsWithin l ob oe \<longleftrightarrow> (\<exists>a c d. l = Some a \<and> ob = Some c \<and> oe = Some d \<and> c \<le> a \<and> a \<le> d)"
  by (cases l; cases ob; cases oe) (auto simp: locIsWithin_def loc_isValid_def)

lemma rangeCompletelyBefore_iff:
  "rangeCompletelyBefore bb be ab ae \<longleftrightarrow>
     (\<exists>a b c d. bb = Some a \<and> be = Some b \<and> ab = Some c \<and> ae = Some d \<and> a < c \<and> b < c)"
  by (cases bb; cases be; cases ab; cases ae)
     (auto simp: rangeCompletelyBefore_def loc_isValid_def)

lemma rangeIsWithin_refl: "loc_isValid b \<Longrightarrow> loc_isValid e \<Longrightarrow> rangeIsWithin b e b e"
  by (auto simp: rangeIsWithin_iff loc_isValid_def)

lemma rangeIsWithin_trans:
  "rangeIsWithin b1 e1 b2 e2 \<Longrightarrow> rangeIsWithin b2 e2 b3 e3 \<Longrightarrow> rangeIsWithin b1 e1 b3 e3"
  by (auto simp: rangeIsWithin_iff)

lemma rangeIsWithin_antisym:
  "rangeIsWithin b1 e1 b2 e2 \<Longrightarrow> rangeIsWithin b2 e2 b1 e1 \<Longrightarrow> b1 = b2 \<and> e1 = e2"
  by (auto simp: rangeIsWithin_iff)

section \<open>Conditional blocks\<close>

datatype CONDTYPE = IF | ELSEIF | ELSE | FOR | WHILE

text \<open>
  \<open>class condBlock\<close> and its subclasses in one record: \<open>cd_matched\<close> is \<open>matched_else\<close> of an
  \<open>ifBlock\<close> and \<open>matched_if\<close> of an \<open>elseBlock\<close>; \<open>cd_inc_str\<close> and \<open>cd_init_str\<close> belong to a
  \<open>forBlock\<close>.
\<close>

record condBlock =
  cd_begin :: src_loc
  cd_end :: src_loc
  cd_cond_begin :: src_loc
  cd_cond_end :: src_loc
  cd_type :: CONDTYPE
  cd_cond_str :: string
  cd_init_str :: string
  cd_inc_str :: string
  cd_uses :: "vid stdset"
  cd_def_stmts :: defmap
  cd_stmt_list :: "bid list"
  cd_matched :: "cid option"

type_synonym cheap = "cid \<Rightarrow> condBlock"

definition inCond :: "condBlock \<Rightarrow> src_loc \<Rightarrow> bool" where
  "inCond c loc =
     (if loc_isValid loc \<and> loc_isValid (cd_cond_begin c) \<and> loc_isValid (cd_cond_end c)
      then (if loc_before loc (cd_cond_begin c) \<or> loc_before (cd_cond_end c) loc
            then False else True)
      else False)"

text \<open>\<open>inAnyCond\<close> scans \<open>cond_blocks\<close> from the last to the first.\<close>

definition inAnyCond :: "cheap \<Rightarrow> cid list \<Rightarrow> src_loc \<Rightarrow> cid option" where
  "inAnyCond C cond_blocks loc = List.find (\<lambda>c. inCond (C c) loc) (rev cond_blocks)"

text \<open>\<open>isWithin(loc)\<close>: strictly inside the block, or for an \<open>if\<close> inside its \<open>else\<close> and back.\<close>

definition strictlyIn :: "condBlock \<Rightarrow> src_loc \<Rightarrow> bool" where
  "strictlyIn c loc \<longleftrightarrow>
     loc_isValid loc \<and> loc_isValid (cd_begin c) \<and> loc_isValid (cd_end c) \<and>
     loc_before (cd_begin c) loc \<and> loc_before loc (cd_end c)"

definition isWithin_loc :: "cheap \<Rightarrow> cid \<Rightarrow> src_loc \<Rightarrow> cid option" where
  "isWithin_loc C c loc =
     (if strictlyIn (C c) loc then Some c
      else if cd_type (C c) = IF \<or> cd_type (C c) = ELSE
      then (case cd_matched (C c) of
              None \<Rightarrow> None
            | Some m \<Rightarrow> (if strictlyIn (C m) loc then Some m else None))
      else None)"

definition isWithin :: "cheap \<Rightarrow> cid \<Rightarrow> src_loc \<Rightarrow> src_loc \<Rightarrow> cid option" where
  "isWithin C c loc_begin loc_end =
     (if rangeIsWithin loc_begin loc_end (cd_begin (C c)) (cd_end (C c)) then Some c
      else if cd_type (C c) = IF
      then (case cd_matched (C c) of
              None \<Rightarrow> None
            | Some m \<Rightarrow>
                (if rangeIsWithin loc_begin loc_end (cd_begin (C m)) (cd_end (C m))
                 then Some m else None))
      else None)"

definition instack_getStart :: "cheap \<Rightarrow> cid \<Rightarrow> src_loc" where
  "instack_getStart C c =
     (if cd_type (C c) = ELSE
      then (case cd_matched (C c) of None \<Rightarrow> None | Some i \<Rightarrow> cd_begin (C i))
      else cd_begin (C c))"

definition instack_getEnd :: "cheap \<Rightarrow> cid \<Rightarrow> src_loc" where
  "instack_getEnd C c =
     (if cd_type (C c) = IF
      then (case cd_matched (C c) of None \<Rightarrow> cd_end (C c) | Some e \<Rightarrow> cd_end (C e))
      else cd_end (C c))"

lemma isWithin_encloses:
  "isWithin C c lb le = Some d \<Longrightarrow>
   rangeIsWithin lb le (cd_begin (C d)) (cd_end (C d)) \<and>
   (d = c \<or> (cd_type (C c) = IF \<and> cd_matched (C c) = Some d))"
  by (auto simp: isWithin_def split: if_splits option.splits)

section \<open>The stack of open conditional blocks\<close>

text \<open>
  \<open>myVisitStmt\<close> pops the blocks that do not enclose the new statement and pushes the new
  block; a code block pops the whole stack, keeps the blocks it lies in (an \<open>if\<close> may be
  answered by its \<open>else\<close>) as its \<open>cond_blocks\<close>, innermost first, and pushes those back.
\<close>

definition push_cond :: "cheap \<Rightarrow> cid list \<Rightarrow> src_loc \<Rightarrow> src_loc \<Rightarrow> cid \<Rightarrow> cid list" where
  "push_cond C stack st_begin st_end c =
     c # dropWhile (\<lambda>t. \<not> rangeIsWithin st_begin st_end
                             (instack_getStart C t) (instack_getEnd C t)) stack"

fun attach_conds :: "cheap \<Rightarrow> cid list \<Rightarrow> src_loc \<Rightarrow> src_loc \<Rightarrow> cid list" where
  "attach_conds C [] b e = []"
| "attach_conds C (t # stack) b e =
     (case isWithin C t b e of
        Some c \<Rightarrow> c # attach_conds C stack b e
      | None \<Rightarrow> attach_conds C stack b e)"

definition instack_within :: "cheap \<Rightarrow> cid \<Rightarrow> cid \<Rightarrow> bool" where
  "instack_within C c d \<longleftrightarrow>
     rangeIsWithin (instack_getStart C c) (instack_getEnd C c)
                   (instack_getStart C d) (instack_getEnd C d)"

text \<open>The stack is a chain: every block lies in all the blocks below it.\<close>

definition nested_stack :: "cheap \<Rightarrow> cid list \<Rightarrow> bool" where
  "nested_stack C stack \<longleftrightarrow> sorted_wrt (instack_within C) stack"

text \<open>An \<open>if\<close> with an \<open>else\<close> and that \<open>else\<close> point to each other.\<close>

definition matched_ok :: "cheap \<Rightarrow> bool" where
  "matched_ok C \<longleftrightarrow>
     (\<forall>c e. cd_type (C c) = IF \<and> cd_matched (C c) = Some e \<longrightarrow>
        cd_type (C e) = ELSE \<and> cd_matched (C e) = Some c)"

lemma instack_of_else:
  assumes "matched_ok C" "cd_type (C c) = IF" "cd_matched (C c) = Some e"
  shows "instack_getStart C e = instack_getStart C c"
    and "instack_getEnd C e = instack_getEnd C c"
proof -
  from assms have e: "cd_type (C e) = ELSE" "cd_matched (C e) = Some c"
    unfolding matched_ok_def by blast+
  show "instack_getStart C e = instack_getStart C c"
    by (simp add: instack_getStart_def e assms(2))
  show "instack_getEnd C e = instack_getEnd C c"
    by (simp add: instack_getEnd_def e assms(2,3))
qed

lemma isWithin_instack:
  assumes "matched_ok C" "isWithin C c b e = Some d"
  shows "instack_getStart C d = instack_getStart C c \<and> instack_getEnd C d = instack_getEnd C c"
proof -
  from isWithin_encloses [OF assms(2)]
  consider "d = c" | "cd_type (C c) = IF" "cd_matched (C c) = Some d" by blast
  then show ?thesis
  proof cases
    case 2
    then show ?thesis using instack_of_else [OF assms(1) 2] by blast
  qed simp
qed

lemma instack_within_trans:
  "instack_within C a b \<Longrightarrow> instack_within C b c \<Longrightarrow> instack_within C a c"
  by (auto simp: instack_within_def intro: rangeIsWithin_trans)

lemma attach_conds_mem:
  "d \<in> set (attach_conds C stack b e) \<Longrightarrow> \<exists>c \<in> set stack. isWithin C c b e = Some d"
  by (induction stack) (auto split: option.splits)

lemma attach_conds_nested:
  assumes "matched_ok C" "nested_stack C stack"
  shows "nested_stack C (attach_conds C stack b e)"
  using assms(2)
proof (induction stack)
  case Nil
  then show ?case by (simp add: nested_stack_def)
next
  case (Cons t stack)
  then have IH: "nested_stack C (attach_conds C stack b e)"
    and below: "\<forall>d \<in> set stack. instack_within C t d"
    by (auto simp: nested_stack_def)
  have "instack_within C c d"
    if c: "isWithin C t b e = Some c" and d: "d \<in> set (attach_conds C stack b e)" for c d
  proof -
    from attach_conds_mem [OF d] obtain d' where "d' \<in> set stack" "isWithin C d' b e = Some d"
      by blast
    with below c show ?thesis
      using isWithin_instack [OF assms(1) c] isWithin_instack [OF assms(1), of d' b e d]
      by (auto simp: instack_within_def)
  qed
  with IH show ?case
    by (auto simp: nested_stack_def split: option.splits)
qed

lemma attach_conds_enclose:
  "d \<in> set (attach_conds C stack b e) \<Longrightarrow> rangeIsWithin b e (cd_begin (C d)) (cd_end (C d))"
  using attach_conds_mem isWithin_encloses by blast

lemma nested_stack_dropWhile: "nested_stack C stack \<Longrightarrow> nested_stack C (dropWhile P stack)"
  unfolding nested_stack_def
  by (metis sorted_wrt_append takeWhile_dropWhile_id)

lemma push_cond_nested:
  assumes nested: "nested_stack C stack"
    and range: "instack_getStart C c = b" "instack_getEnd C c = e"
  shows "nested_stack C (push_cond C stack b e c)"
proof -
  let ?out = "\<lambda>t. \<not> rangeIsWithin b e (instack_getStart C t) (instack_getEnd C t)"
  let ?rest = "dropWhile ?out stack"
  have rest: "nested_stack C ?rest" using nested by (rule nested_stack_dropWhile)
  have "instack_within C c d" if "d \<in> set ?rest" for d
  proof (cases ?rest)
    case Nil
    with that show ?thesis by simp
  next
    case (Cons t ts)
    then have "\<not> ?out t" by (meson dropWhile_eq_Cons_conv)
    then have ct: "instack_within C c t" using range by (simp add: instack_within_def)
    from that Cons consider "d = t" | "d \<in> set ts" by auto
    then show ?thesis
    proof cases
      case 2
      with rest Cons have "instack_within C t d" by (simp add: nested_stack_def)
      with ct show ?thesis by (rule instack_within_trans)
    qed (use ct in simp)
  qed
  with rest show ?thesis by (simp add: push_cond_def nested_stack_def)
qed

end
