(* ===== verification/Quro_Block.thy ===== *)
theory Quro_Block
  imports Src_Range
begin

text \<open>
  Code blocks (\<open>class codeBlock\<close> of \<open>src/quro/code/QueryBlock.h\<close>) and the elementary
  questions asked of them: common variables of two sets, merging of sets, whether a
  block reads what another one defines, whether a range lies in the last query block.
\<close>

section \<open>Code blocks\<close>

datatype CODETYPE = QUERY | NONQUERY

record codeBlock =
  cb_begin :: src_loc
  cb_end :: src_loc
  cb_cond_blocks :: "cid list"
  cb_dep_blocks :: "bid stdset"
  cb_defs :: "vid stdset"
  cb_uses :: "vid stdset"
  cb_def_stmts :: defmap
  cb_finalcBlock :: bid
  cb_pre_label :: string
  cb_source :: string
  cb_type :: CODETYPE
  cb_processed :: bool
  cb_insert_code :: string
  cb_index :: nat
  cb_label :: string
  cb_conflict_index :: int

type_synonym heap = "bid \<Rightarrow> codeBlock"

text \<open>The constructor \<open>codeBlock()\<close>, then \<open>type\<close> as the subclass's constructor sets it.\<close>

definition new_codeBlock :: "CODETYPE \<Rightarrow> bid \<Rightarrow> codeBlock" where
  "new_codeBlock ty this =
     \<lparr>cb_begin = None, cb_end = None, cb_cond_blocks = [], cb_dep_blocks = [],
      cb_defs = [], cb_uses = [], cb_def_stmts = [], cb_finalcBlock = this,
      cb_pre_label = [], cb_source = [], cb_type = ty, cb_processed = False,
      cb_insert_code = [], cb_index = 0, cb_label = [], cb_conflict_index = 0\<rparr>"

section \<open>Sets of variables\<close>

text \<open>\<open>crossCompare\<close>: the first element of \<open>s1\<close> that is in \<open>s2\<close>.\<close>

fun crossCompare :: "vid stdset \<Rightarrow> vid stdset \<Rightarrow> vid option" where
  "crossCompare [] s2 = None"
| "crossCompare (v # s1) s2 = (if List.member s2 v then Some v else crossCompare s1 s2)"

definition addSets :: "vid stdset \<Rightarrow> vid stdset \<Rightarrow> vid stdset" where
  "addSets dest src = fold sset_insert src dest"

fun addMaps :: "defmap \<Rightarrow> defmap \<Rightarrow> defmap" where
  "addMaps dest [] = dest"
| "addMaps dest ((v, s) # src) =
     (case smap_get dest v of
        None \<Rightarrow> addMaps (smap_put v s dest) src
      | Some d \<Rightarrow> addMaps (smap_put v (fold sset_insert s d) dest) src)"

lemma crossCompare_None: "crossCompare s1 s2 = None \<longleftrightarrow> set s1 \<inter> set s2 = {}"
  by (induction s1) auto

lemma crossCompare_Some: "crossCompare s1 s2 = Some v \<Longrightarrow> v \<in> set s1 \<and> v \<in> set s2"
  by (induction s1) (auto split: if_splits)

lemma set_addSets [simp, std_simps]: "set (addSets dest src) = set dest \<union> set src"
  unfolding addSets_def by (rule fold_insert_set [of set]) simp

lemma sset_ok_addSets [simp]: "sset_ok dest \<Longrightarrow> sset_ok (addSets dest src)"
  unfolding addSets_def by (rule sset.invar_fold)

lemma smap_at_addMaps:
  "smap_ok src \<Longrightarrow> set (smap_at (addMaps dest src) v) = set (smap_at dest v) \<union> set (smap_at src v)"
proof (induction dest src rule: addMaps.induct)
  case (1 dest)
  then show ?case by simp
next
  case (2 dest w s src)
  have ok: "smap_ok src" and fresh: "smap_get src w = None"
  proof -
    show "smap_ok src" using 2(3) by (simp add: smap_ok_def)
    show "smap_get src w = None"
      using 2(3) by (cases "smap_get src w") (force simp: smap_ok_def dest: smap_get_mem)+
  qed
  have u: "set (fold sset_insert s d) = set d \<union> set s" for d :: "nat list"
    by (rule fold_insert_set [of set]) simp
  show ?case
  proof (cases "smap_get dest w")
    case None
    then show ?thesis using 2(1) [OF None ok] fresh by (auto simp: smap_at_def)
  next
    case (Some d)
    then show ?thesis using 2(2) [OF Some ok] fresh u by (auto simp: smap_at_def)
  qed
qed

lemma smap_ok_addMaps: "smap_ok dest \<Longrightarrow> smap_ok (addMaps dest src)"
  by (induction dest src rule: addMaps.induct) (auto split: option.splits)

section \<open>Definitions and uses\<close>

text \<open>\<open>codeBlock::isDefinedBy\<close>: the first variable one of whose definitions was merged into
  \<open>cb\<close>; \<open>condBlock::isDefinedBy\<close> asks for \<open>cb\<close> itself.\<close>

fun isDefinedBy_in :: "heap \<Rightarrow> defmap \<Rightarrow> bid \<Rightarrow> vid option" where
  "isDefinedBy_in h [] cb = None"
| "isDefinedBy_in h ((v, s) # m) cb =
     (if list_ex (\<lambda>c. cb_finalcBlock (h c) = cb) s then Some v else isDefinedBy_in h m cb)"

definition isDefinedBy :: "heap \<Rightarrow> bid \<Rightarrow> bid \<Rightarrow> vid option" where
  "isDefinedBy h this cb = isDefinedBy_in h (cb_def_stmts (h this)) cb"

fun cond_isDefinedBy_in :: "defmap \<Rightarrow> bid \<Rightarrow> vid option" where
  "cond_isDefinedBy_in [] cb = None"
| "cond_isDefinedBy_in ((v, s) # m) cb =
     (if List.member s cb then Some v else cond_isDefinedBy_in m cb)"

definition cond_isDefinedBy :: "condBlock \<Rightarrow> bid \<Rightarrow> vid option" where
  "cond_isDefinedBy c cb = cond_isDefinedBy_in (cd_def_stmts c) cb"

lemma isDefinedBy_iff:
  "isDefinedBy h this cb \<noteq> None \<longleftrightarrow>
     (\<exists>(v, s) \<in> set (cb_def_stmts (h this)). \<exists>c \<in> set s. cb_finalcBlock (h c) = cb)"
proof -
  have "isDefinedBy_in h m cb \<noteq> None \<longleftrightarrow>
          (\<exists>(v, s) \<in> set m. \<exists>c \<in> set s. cb_finalcBlock (h c) = cb)" for m
    by (induction m) (auto simp: list_ex_iff)
  then show ?thesis by (simp add: isDefinedBy_def)
qed

lemma cond_isDefinedBy_iff:
  "cond_isDefinedBy c cb \<noteq> None \<longleftrightarrow> (\<exists>(v, s) \<in> set (cd_def_stmts c). cb \<in> set s)"
proof -
  have "cond_isDefinedBy_in m cb \<noteq> None \<longleftrightarrow> (\<exists>(v, s) \<in> set m. cb \<in> set s)" for m
    by (induction m) auto
  then show ?thesis by (simp add: cond_isDefinedBy_def)
qed

text \<open>\<open>crossCompareAllConds\<close>: the position of \<open>most_inner_cond\<close>, when a condition inside it
  reads what the block \<open>c_block\<close> of the list defines, else \<open>-1\<close>.\<close>

fun cond_pos :: "cid \<Rightarrow> cid list \<Rightarrow> nat option" where
  "cond_pos c [] = None"
| "cond_pos c (d # ds) = (if d = c then Some 0 else map_option Suc (cond_pos c ds))"

definition crossCompareAllConds :: "cheap \<Rightarrow> heap \<Rightarrow> bid list \<Rightarrow> bid \<Rightarrow> cid \<Rightarrow> nat \<Rightarrow> int" where
  "crossCompareAllConds C h code_blocks this most_inner_cond c_block =
     (case cond_pos most_inner_cond (cb_cond_blocks (h this)) of
        None \<Rightarrow> -1
      | Some i \<Rightarrow>
          (if list_ex (\<lambda>j. crossCompare (cb_defs (h (code_blocks ! c_block)))
                             (cd_uses (C (cb_cond_blocks (h this) ! j))) \<noteq> None) (rev [0..<i])
           then int i else -1))"

section \<open>Breaking queries across a condition\<close>

definition checkDep :: "vid stdset \<Rightarrow> vid stdset \<Rightarrow> bool" where
  "checkDep defs uses \<longleftrightarrow> list_ex (\<lambda>v. List.member uses v) defs"

definition checkQueryDep :: "cheap \<Rightarrow> cid \<Rightarrow> codeBlock \<Rightarrow> codeBlock \<Rightarrow> bool" where
  "checkQueryDep C c q1 q2 =
     (case cd_type (C c) of
        ELSE \<Rightarrow> (case cd_matched (C c) of
                   None \<Rightarrow> True
                 | Some i \<Rightarrow> checkDep (cb_defs q1) (cd_uses (C i)))
      | FOR \<Rightarrow> (let cross_loop = checkDep (cb_defs q1) (cb_uses q2);
                    defuse = checkDep (cb_defs q1) (cd_uses (C c))
                in cross_loop \<and> defuse)
      | WHILE \<Rightarrow> (let cross_loop = checkDep (cb_defs q1) (cb_uses q2);
                      defuse = checkDep (cb_defs q1) (cd_uses (C c))
                  in cross_loop \<and> defuse)
      | _ \<Rightarrow> checkDep (cb_defs q1) (cd_uses (C c)))"

lemma checkDep_iff: "checkDep defs uses \<longleftrightarrow> set defs \<inter> set uses \<noteq> {}"
  by (auto simp: checkDep_def list_ex_iff)

section \<open>The last query block\<close>

text \<open>\<open>inAnyQuery\<close> looks for the last query block of \<open>code_blocks\<close> only.\<close>

definition inAnyQuery :: "heap \<Rightarrow> bid list \<Rightarrow> src_loc \<Rightarrow> src_loc \<Rightarrow> bool" where
  "inAnyQuery h code_blocks b e =
     (if \<not> loc_isValid b \<or> \<not> loc_isValid e then False
      else (case List.find (\<lambda>q. cb_type (h q) = QUERY) (rev code_blocks) of
              None \<Rightarrow> False
            | Some last_qb \<Rightarrow>
                (if \<not> loc_isValid (cb_begin (h last_qb)) \<or> \<not> loc_isValid (cb_end (h last_qb))
                 then False
                 else if loc_before b (cb_begin (h last_qb)) \<or> loc_before (cb_end (h last_qb)) e
                       \<or> loc_before (cb_end (h last_qb)) b \<or> loc_before e (cb_begin (h last_qb))
                 then False else True)))"

lemma inAnyQuery_within:
  assumes "inAnyQuery h code_blocks b e"
  shows "\<exists>q \<in> set code_blocks. cb_type (h q) = QUERY \<and>
           rangeIsWithin b e (cb_begin (h q)) (cb_end (h q))"
proof -
  let ?f = "List.find (\<lambda>q. cb_type (h q) = QUERY) (rev code_blocks)"
  from assms obtain q where q: "?f = Some q"
    by (auto simp: inAnyQuery_def split: if_splits option.splits)
  then have "cb_type (h q) = QUERY" "q \<in> set code_blocks"
    by (auto simp: find_Some_iff in_set_conv_nth) (metis in_set_conv_nth length_rev set_rev)
  moreover have "rangeIsWithin b e (cb_begin (h q)) (cb_end (h q))"
    using assms q by (auto simp: inAnyQuery_def rangeIsWithin_def loc_isValid_def split: if_splits)
  ultimately show ?thesis by blast
qed

text \<open>A new query block removes the blocks that lie in its range.\<close>

definition remove_within :: "heap \<Rightarrow> src_loc \<Rightarrow> src_loc \<Rightarrow> bid list \<Rightarrow> bid list" where
  "remove_within h sr_begin sr_end code_blocks =
     filter (\<lambda>b. \<not> rangeIsWithin (cb_begin (h b)) (cb_end (h b)) sr_begin sr_end) code_blocks"

end
