(* ===== verification/Quro_Dep.thy ===== *)
theory Quro_Dep
  imports Quro_Block "HOL-Library.While_Combinator"
begin

text \<open>
  The dependency phase of QURO (\<open>codeBlock::setDepBlocks\<close>, \<open>propagateDep\<close>,
  \<open>recursiveGenerate\<close>, \<open>getBlockStr\<close>, \<open>setFinalcBlock\<close>, \<open>finalizeDefs\<close> of
  \<open>src/quro/code/QueryBlock.cpp\<close>): blocks that must stay together because of a loop or
  a condition are linked, the links are closed transitively, and the first block of each
  group takes the code of the others.  The state is the heap of code blocks; the
  conditional blocks and the vector \<open>code_blocks\<close> do not change in this phase.
\<close>

section \<open>setDepBlocks\<close>

definition dep_insert :: "bid \<Rightarrow> bid \<Rightarrow> heap \<Rightarrow> heap" where
  "dep_insert d b h = h(b := (h b)\<lparr>cb_dep_blocks := sset_insert d (cb_dep_blocks (h b))\<rparr>)"

text \<open>\<open>b->dep_blocks.insert(this); dep_blocks.insert(b);\<close>\<close>

definition link :: "bid \<Rightarrow> bid \<Rightarrow> heap \<Rightarrow> heap" where
  "link this b h = dep_insert b this (dep_insert this b h)"

definition isLoop :: "cheap \<Rightarrow> cid \<Rightarrow> bool" where
  "isLoop C c \<longleftrightarrow> cd_type (C c) = WHILE \<or> cd_type (C c) = FOR"

definition add_outer :: "cheap \<Rightarrow> bid list \<Rightarrow> heap \<Rightarrow> cid \<Rightarrow> bid stdset \<Rightarrow> bid stdset" where
  "add_outer C code_blocks h c outer =
     (if isLoop C c
      then fold (\<lambda>j outer. fold (\<lambda>k outer. if k = c then sset_insert j outer else outer)
                                  (cb_cond_blocks (h j)) outer) code_blocks outer
      else outer)"

text \<open>cond 1: the block affects the condition \<open>c\<close> it is in.\<close>

definition link_cond ::
    "cheap \<Rightarrow> bid list \<Rightarrow> bid \<Rightarrow> bid stdset \<Rightarrow> cid \<Rightarrow> heap \<Rightarrow> heap" where
  "link_cond C code_blocks this outer c h =
     (if crossCompare (cb_defs (h this)) (cd_uses (C c)) \<noteq> None
      then (if isLoop C c
            then fold (\<lambda>j h. fold (\<lambda>k h. if k = c then link this j h else h)
                                   (cb_cond_blocks (h j)) h) code_blocks h
            else fold (\<lambda>j h. fold (\<lambda>k h. if k = c
                                         then (if k = c \<or> j \<in> set outer then link this j h else h)
                                         else h)
                                   (cb_cond_blocks (h j)) h) code_blocks h)
      else h)"

text \<open>cond 2: a later block of the same loop reads what this block defines, or defines what
  it reads, or lies in an inner condition that reads what this block defines.\<close>

definition link_data_at :: "cheap \<Rightarrow> bid \<Rightarrow> cid \<Rightarrow> bid \<Rightarrow> nat \<Rightarrow> heap \<Rightarrow> heap" where
  "link_data_at C this c j k h =
     (let defined_var = isDefinedBy h this j; defining_var = isDefinedBy h j this in
      if cb_cond_blocks (h j) ! k = c \<and> (defined_var \<noteq> None \<or> defining_var \<noteq> None)
      then (let h1 = (if defined_var \<noteq> None then link this j h else h)
            in if defining_var \<noteq> None then link this j h1 else h1)
      else if cb_cond_blocks (h j) ! k = c
      then fold (\<lambda>l h. if cond_isDefinedBy (C (cb_cond_blocks (h j) ! l)) this \<noteq> None
                         then link this j h else h) [0..<k] h
      else h)"

definition link_data :: "cheap \<Rightarrow> bid list \<Rightarrow> bid \<Rightarrow> cid \<Rightarrow> heap \<Rightarrow> heap" where
  "link_data C code_blocks this c h =
     fold (\<lambda>j h. if isLoop C c
                   then fold (link_data_at C this c j) [0..<length (cb_cond_blocks (h j))] h
                   else h)
       (drop (cb_index (h this) + 1) code_blocks) h"

definition setDepBlocks :: "cheap \<Rightarrow> bid list \<Rightarrow> bid \<Rightarrow> heap \<Rightarrow> heap" where
  "setDepBlocks C code_blocks this h =
     snd (fold (\<lambda>c (outer, h).
                  (let outer' = add_outer C code_blocks h c outer;
                       h1 = link_cond C code_blocks this outer' c h
                   in (outer', link_data C code_blocks this c h1)))
            (rev (cb_cond_blocks (h this))) ([], h))"

text \<open>
  Linking touches the dependency sets only, so every test of the loops above reads the
  same in all the heaps of the run.  \<open>linked this S\<close> relates two heaps when the second one is
  the first one with \<open>this\<close> linked to every block of \<open>S\<close>.
\<close>

definition nodep :: "heap \<Rightarrow> heap" where
  "nodep h = (\<lambda>b. (h b)\<lparr>cb_dep_blocks := []\<rparr>)"

definition deps :: "heap \<Rightarrow> bid \<Rightarrow> bid set" where
  "deps h b = set (cb_dep_blocks (h b))"

definition linked :: "bid \<Rightarrow> bid set \<Rightarrow> heap \<Rightarrow> heap \<Rightarrow> bool" where
  "linked this S h h' \<longleftrightarrow>
     nodep h' = nodep h \<and>
     (\<forall>a b. b \<in> deps h' a \<longleftrightarrow> b \<in> deps h a \<or> (a = this \<and> b \<in> S) \<or> (b = this \<and> a \<in> S))"

lemma nodep_fields:
  assumes "nodep h' = nodep h"
  shows "cb_cond_blocks (h' b) = cb_cond_blocks (h b)" "cb_defs (h' b) = cb_defs (h b)"
    "cb_uses (h' b) = cb_uses (h b)" "cb_def_stmts (h' b) = cb_def_stmts (h b)"
    "cb_finalcBlock (h' b) = cb_finalcBlock (h b)" "cb_index (h' b) = cb_index (h b)"
    "cb_processed (h' b) = cb_processed (h b)" "cb_type (h' b) = cb_type (h b)"
proof -
  have e: "(h' b)\<lparr>cb_dep_blocks := []\<rparr> = (h b)\<lparr>cb_dep_blocks := []\<rparr>"
    using fun_cong [OF assms, of b] by (simp add: nodep_def)
  from arg_cong [OF e, of cb_cond_blocks] arg_cong [OF e, of cb_defs]
  show "cb_cond_blocks (h' b) = cb_cond_blocks (h b)" "cb_defs (h' b) = cb_defs (h b)" by simp_all
  from arg_cong [OF e, of cb_uses] arg_cong [OF e, of cb_def_stmts]
    arg_cong [OF e, of cb_finalcBlock] arg_cong [OF e, of cb_index]
    arg_cong [OF e, of cb_processed] arg_cong [OF e, of cb_type]
  show "cb_uses (h' b) = cb_uses (h b)" "cb_def_stmts (h' b) = cb_def_stmts (h b)"
    "cb_finalcBlock (h' b) = cb_finalcBlock (h b)" "cb_index (h' b) = cb_index (h b)"
    "cb_processed (h' b) = cb_processed (h b)" "cb_type (h' b) = cb_type (h b)" by simp_all
qed

lemma nodep_isDefinedBy:
  assumes "nodep h' = nodep h"
  shows "isDefinedBy h' a b = isDefinedBy h a b"
proof -
  have "isDefinedBy_in h' m b = isDefinedBy_in h m b" for m
    by (induction m) (auto simp: nodep_fields [OF assms])
  then show ?thesis by (simp add: isDefinedBy_def nodep_fields [OF assms])
qed

lemma linked_refl [simp]: "linked this {} h h"
  by (simp add: linked_def)

lemma linked_trans: "linked this S h h1 \<Longrightarrow> linked this T h1 h2 \<Longrightarrow> linked this (S \<union> T) h h2"
  by (auto simp: linked_def)

lemma linked_nodep: "linked this S h h' \<Longrightarrow> nodep h' = nodep h"
  by (simp add: linked_def)

lemma linked_link [simp]: "linked this {b} h (link this b h)"
  by (auto simp: linked_def link_def dep_insert_def nodep_def deps_def fun_eq_iff)

lemma linked_if: "linked this (if P then {b} else {}) h (if P then link this b h else h)"
  by simp

text \<open>A loop of links.\<close>

lemma linked_fold:
  assumes "\<And>x h'. x \<in> set xs \<Longrightarrow> nodep h' = nodep h \<Longrightarrow> linked this (S x) h' (f x h')"
  shows "linked this (\<Union>x \<in> set xs. S x) h (fold f xs h)"
proof -
  have "linked this (\<Union>x \<in> set xs. S x) h1 (fold f xs h1)" if "nodep h1 = nodep h" for h1
    using assms that
  proof (induction xs arbitrary: h1)
    case Nil
    then show ?case by simp
  next
    case (Cons x xs)
    have 1: "linked this (S x) h1 (f x h1)" using Cons.prems by simp
    then have "nodep (f x h1) = nodep h" using Cons.prems(2) linked_nodep by metis
    with Cons have "linked this (\<Union>x \<in> set xs. S x) (f x h1) (fold f xs (f x h1))" by simp
    with linked_trans [OF 1] show ?case by simp
  qed
  then show ?thesis by simp
qed

lemma linked_eq: "linked this S h h' \<Longrightarrow> S = T \<Longrightarrow> linked this T h h'"
  by simp

lemma linked_foldI:
  assumes "\<And>x h'. nodep h' = nodep h \<Longrightarrow> linked this (S x) h' (f x h')"
    and "(\<Union>x \<in> set xs. S x) = T"
  shows "linked this T h (fold f xs h)"
  using linked_fold [of xs h this S f] assms by simp

definition in_cond :: "bid list \<Rightarrow> heap \<Rightarrow> cid \<Rightarrow> bid set" where
  "in_cond code_blocks h c = {j \<in> set code_blocks. c \<in> set (cb_cond_blocks (h j))}"

lemma linked_link_cond:
  "linked this (if crossCompare (cb_defs (h this)) (cd_uses (C c)) \<noteq> None
                then in_cond code_blocks h c else {})
     h (link_cond C code_blocks this outer c h)"
proof -
  have one: "linked this (if c \<in> set (cb_cond_blocks (h j)) then {j} else {}) h'
               (fold (\<lambda>k h. if k = c then link this j h else h) (cb_cond_blocks (h' j)) h')"
    if "nodep h' = nodep h" for h' j
    by (rule linked_eq [OF linked_fold [where S = "\<lambda>k. if k = c then {j} else {}"]])
       (auto simp: nodep_fields [OF that])
  have two: "linked this (if c \<in> set (cb_cond_blocks (h j)) then {j} else {}) h'
               (fold (\<lambda>k h. if k = c then (if k = c \<or> j \<in> set outer then link this j h else h)
                            else h) (cb_cond_blocks (h' j)) h')"
    if "nodep h' = nodep h" for h' j
  proof -
    have "(\<lambda>k h. if k = c then (if k = c \<or> j \<in> set outer then link this j h else h) else h) =
          (\<lambda>k h. if k = c then link this j h else h)"
      by (intro ext) simp
    with one [OF that] show ?thesis by simp
  qed
  have all: "(\<Union>j \<in> set code_blocks. if c \<in> set (cb_cond_blocks (h j)) then {j} else {}) =
             in_cond code_blocks h c"
    by (auto simp: in_cond_def)
  have 1: "linked this (in_cond code_blocks h c) h
      (fold (\<lambda>j h. fold (\<lambda>k h. if k = c then link this j h else h) (cb_cond_blocks (h j)) h)
         code_blocks h)"
    by (rule linked_foldI [OF one all])
  have 2: "linked this (in_cond code_blocks h c) h
      (fold (\<lambda>j h. fold (\<lambda>k h. if k = c then (if k = c \<or> j \<in> set outer then link this j h else h)
                             else h) (cb_cond_blocks (h j)) h) code_blocks h)"
    by (rule linked_foldI [OF two all])
  show ?thesis
  proof (cases "crossCompare (cb_defs (h this)) (cd_uses (C c)) = None")
    case True
    then show ?thesis by (simp add: link_cond_def)
  next
    case False
    show ?thesis
    proof (cases "isLoop C c")
      case True
      show ?thesis unfolding link_cond_def if_P [OF False] if_P [OF True] by (rule 1)
    next
      case False
      show ?thesis
        unfolding link_cond_def if_P [OF \<open>crossCompare _ _ \<noteq> None\<close>] if_not_P [OF False]
        by (rule 2)
    qed
  qed
qed

text \<open>Why \<open>link_data\<close> links a later block \<open>j\<close>.\<close>

definition data_cause :: "cheap \<Rightarrow> heap \<Rightarrow> bid \<Rightarrow> cid \<Rightarrow> bid \<Rightarrow> bool" where
  "data_cause C h this c j \<longleftrightarrow>
     c \<in> set (cb_cond_blocks (h j)) \<and>
     (isDefinedBy h this j \<noteq> None \<or> isDefinedBy h j this \<noteq> None \<or>
      (\<exists>k < length (cb_cond_blocks (h j)). cb_cond_blocks (h j) ! k = c \<and>
         (\<exists>l < k. cond_isDefinedBy (C (cb_cond_blocks (h j) ! l)) this \<noteq> None)))"

lemma linked_link_data_at:
  "linked this
     (if cb_cond_blocks (h j) ! k = c \<and>
         (isDefinedBy h this j \<noteq> None \<or> isDefinedBy h j this \<noteq> None \<or>
          (\<exists>l < k. cond_isDefinedBy (C (cb_cond_blocks (h j) ! l)) this \<noteq> None))
      then {j} else {}) h (link_data_at C this c j k h)"
proof -
  let ?cb = "\<lambda>l. cond_isDefinedBy (C (cb_cond_blocks (h j) ! l)) this"
  have inner: "linked this (\<Union>l \<in> set [0..<k]. if ?cb l \<noteq> None then {j} else {}) h
      (fold (\<lambda>l h. if cond_isDefinedBy (C (cb_cond_blocks (h j) ! l)) this \<noteq> None
                     then link this j h else h) [0..<k] h)"
  proof (rule linked_fold)
    fix l h2 assume e: "nodep h2 = nodep h"
    show "linked this (if ?cb l \<noteq> None then {j} else {}) h2
        (if cond_isDefinedBy (C (cb_cond_blocks (h2 j) ! l)) this \<noteq> None
         then link this j h2 else h2)"
      by (simp add: nodep_fields [OF e])
  qed
  have two: "linked this {j} h (link this j (link this j h))"
    using linked_trans [OF linked_link [of this j h] linked_link [of this j]] by simp
  consider
      (eq) "cb_cond_blocks (h j) ! k = c" "isDefinedBy h this j \<noteq> None \<or> isDefinedBy h j this \<noteq> None"
    | (cond) "cb_cond_blocks (h j) ! k = c" "isDefinedBy h this j = None" "isDefinedBy h j this = None"
    | (ne) "cb_cond_blocks (h j) ! k \<noteq> c"
    by blast
  then show ?thesis
  proof cases
    case eq
    then show ?thesis
    proof (cases "isDefinedBy h this j = None")
      case True
      with eq show ?thesis by (simp add: link_data_at_def)
    next
      case False
      with eq two show ?thesis
        by (cases "isDefinedBy h j this = None") (simp_all add: link_data_at_def)
    qed
  next
    case cond
    have "(\<Union>l \<in> set [0..<k]. if ?cb l \<noteq> None then {j} else {}) =
          (if \<exists>l < k. ?cb l \<noteq> None then {j} else {})" by auto
    with inner cond show ?thesis by (simp add: link_data_at_def)
  next
    case ne
    then show ?thesis by (simp add: link_data_at_def)
  qed
qed

lemma data_cause_nodep:
  assumes "nodep h' = nodep h"
  shows "data_cause C h' this c j = data_cause C h this c j"
  by (simp add: data_cause_def nodep_fields [OF assms] nodep_isDefinedBy [OF assms])

lemma linked_link_data:
  "linked this
     (if isLoop C c then {j \<in> set (drop (Suc (cb_index (h this))) code_blocks). data_cause C h this c j}
      else {})
     h (link_data C code_blocks this c h)"
proof (cases "isLoop C c")
  case True
  have one: "linked this (if data_cause C h this c j then {j} else {}) h'
      (fold (link_data_at C this c j) [0..<length (cb_cond_blocks (h' j))] h')"
    if "nodep h' = nodep h" for h' j
  proof -
    let ?S = "\<lambda>k. if cb_cond_blocks (h' j) ! k = c \<and>
         (isDefinedBy h' this j \<noteq> None \<or> isDefinedBy h' j this \<noteq> None \<or>
          (\<exists>l < k. cond_isDefinedBy (C (cb_cond_blocks (h' j) ! l)) this \<noteq> None))
      then {j} else {}"
    have "linked this (\<Union>k \<in> set [0..<length (cb_cond_blocks (h' j))]. ?S k) h'
      (fold (link_data_at C this c j) [0..<length (cb_cond_blocks (h' j))] h')"
    proof (rule linked_fold)
      fix k h2 assume e: "nodep h2 = nodep h'"
      show "linked this (?S k) h2 (link_data_at C this c j k h2)"
        using linked_link_data_at [of this h2 j k c C]
        by (simp only: nodep_fields [OF e] nodep_isDefinedBy [OF e])
    qed
    moreover have "(\<Union>k \<in> set [0..<length (cb_cond_blocks (h' j))]. ?S k) =
        (if data_cause C h' this c j then {j} else {})"
      by (auto simp: data_cause_def in_set_conv_nth)
    ultimately show ?thesis using data_cause_nodep [OF that] by simp
  qed
  have "(\<Union>j \<in> set (drop (Suc (cb_index (h this))) code_blocks).
            if data_cause C h this c j then {j} else {}) =
        {j \<in> set (drop (Suc (cb_index (h this))) code_blocks). data_cause C h this c j}" by auto
  from linked_foldI [OF one this] True show ?thesis by (simp add: link_data_def)
next
  case False
  have "fold (\<lambda>j h. h) bs h = h" for bs :: "bid list" and h :: heap
    by (induction bs) simp_all
  with False show ?thesis by (simp add: link_data_def)
qed

text \<open>All the blocks that \<open>setDepBlocks\<close> links to \<open>this\<close>.\<close>

definition dep_cause :: "cheap \<Rightarrow> bid list \<Rightarrow> heap \<Rightarrow> bid \<Rightarrow> bid \<Rightarrow> bool" where
  "dep_cause C code_blocks h this j \<longleftrightarrow>
     (\<exists>c \<in> set (cb_cond_blocks (h this)).
        (set (cb_defs (h this)) \<inter> set (cd_uses (C c)) \<noteq> {} \<and> j \<in> in_cond code_blocks h c) \<or>
        (isLoop C c \<and> j \<in> set (drop (Suc (cb_index (h this))) code_blocks) \<and>
         data_cause C h this c j))"

lemma setDepBlocks_linked:
  "linked this {j. dep_cause C code_blocks h this j} h (setDepBlocks C code_blocks this h)"
proof -
  let ?S = "\<lambda>c. (if crossCompare (cb_defs (h this)) (cd_uses (C c)) \<noteq> None
                   then in_cond code_blocks h c else {}) \<union>
                (if isLoop C c then {j \<in> set (drop (Suc (cb_index (h this))) code_blocks).
                                       data_cause C h this c j} else {})"
  let ?f = "\<lambda>c (outer, h). let outer' = add_outer C code_blocks h c outer;
                       h1 = link_cond C code_blocks this outer' c h
                   in (outer', link_data C code_blocks this c h1)"
  have step: "linked this (?S c) h1 (link_data C code_blocks this c (link_cond C code_blocks this o1 c h1))"
    if e: "nodep h1 = nodep h" for c o1 h1
  proof -
    let ?h2 = "link_cond C code_blocks this o1 c h1"
    have 1: "linked this (if crossCompare (cb_defs (h this)) (cd_uses (C c)) \<noteq> None
                then in_cond code_blocks h c else {}) h1 ?h2"
      using linked_link_cond [of this h1 C c code_blocks o1]
      by (simp only: nodep_fields [OF e] in_cond_def)
    from linked_nodep [OF 1] e have e2: "nodep ?h2 = nodep h" by simp
    have 2: "linked this (if isLoop C c then {j \<in> set (drop (Suc (cb_index (h this))) code_blocks).
                                       data_cause C h this c j} else {}) ?h2
               (link_data C code_blocks this c ?h2)"
      using linked_link_data [of this C c ?h2 code_blocks]
      by (simp only: nodep_fields [OF e2] data_cause_nodep [OF e2])
    from linked_trans [OF 1 2] show ?thesis .
  qed
  have "linked this (\<Union>c \<in> set cs. ?S c) h1 (snd (fold ?f cs (o1, h1)))"
    if "nodep h1 = nodep h" for cs o1 h1
    using that
  proof (induction cs arbitrary: o1 h1)
    case Nil
    then show ?case by simp
  next
    case (Cons c cs)
    let ?o2 = "add_outer C code_blocks h1 c o1"
    let ?h2 = "link_data C code_blocks this c (link_cond C code_blocks this ?o2 c h1)"
    have 1: "linked this (?S c) h1 ?h2" using step [OF Cons.prems] .
    from linked_nodep [OF this] Cons.prems have "nodep ?h2 = nodep h" by simp
    from linked_trans [OF 1 Cons.IH [OF this]] show ?case by (simp add: Let_def)
  qed
  from this [of h "rev (cb_cond_blocks (h this))" "[]"]
  have "linked this (\<Union>c \<in> set (cb_cond_blocks (h this)). ?S c) h
          (setDepBlocks C code_blocks this h)"
    by (simp add: setDepBlocks_def)
  moreover have "(\<Union>c \<in> set (cb_cond_blocks (h this)). ?S c) = {j. dep_cause C code_blocks h this j}"
  proof -
    have "j \<in> ?S c \<longleftrightarrow>
            (set (cb_defs (h this)) \<inter> set (cd_uses (C c)) \<noteq> {} \<and> j \<in> in_cond code_blocks h c) \<or>
            (isLoop C c \<and> j \<in> set (drop (Suc (cb_index (h this))) code_blocks) \<and>
             data_cause C h this c j)" for j c
      by (simp add: crossCompare_None)
    then show ?thesis unfolding dep_cause_def by blast
  qed
  ultimately show ?thesis by simp
qed

text \<open>The loop over all blocks.\<close>

definition setAllDepBlocks :: "cheap \<Rightarrow> bid list \<Rightarrow> heap \<Rightarrow> heap" where
  "setAllDepBlocks C code_blocks h = fold (setDepBlocks C code_blocks) code_blocks h"

lemma dep_cause_nodep:
  assumes "nodep h' = nodep h"
  shows "dep_cause C code_blocks h' this j = dep_cause C code_blocks h this j"
  by (simp add: dep_cause_def in_cond_def nodep_fields [OF assms] data_cause_nodep [OF assms])

lemma setAllDepBlocks_deps:
  "nodep (setAllDepBlocks C code_blocks h) = nodep h \<and>
   (\<forall>a b. b \<in> deps (setAllDepBlocks C code_blocks h) a \<longleftrightarrow>
      b \<in> deps h a \<or> (a \<in> set code_blocks \<and> dep_cause C code_blocks h a b) \<or>
      (b \<in> set code_blocks \<and> dep_cause C code_blocks h b a))"
proof -
  have "nodep h1 = nodep h \<Longrightarrow> nodep (fold (setDepBlocks C code_blocks) bs h1) = nodep h \<and>
     (\<forall>a b. b \<in> deps (fold (setDepBlocks C code_blocks) bs h1) a \<longleftrightarrow>
      b \<in> deps h1 a \<or> (a \<in> set bs \<and> dep_cause C code_blocks h a b) \<or>
      (b \<in> set bs \<and> dep_cause C code_blocks h b a))" for bs h1
  proof (induction bs arbitrary: h1)
    case Nil
    then show ?case by simp
  next
    case (Cons x bs)
    let ?h2 = "setDepBlocks C code_blocks x h1"
    have l: "linked x {j. dep_cause C code_blocks h1 x j} h1 ?h2" by (rule setDepBlocks_linked)
    then have e: "nodep ?h2 = nodep h" using Cons.prems linked_nodep by metis
    have d: "b \<in> deps ?h2 a \<longleftrightarrow> b \<in> deps h1 a \<or> (a = x \<and> dep_cause C code_blocks h x b) \<or>
        (b = x \<and> dep_cause C code_blocks h x a)" for a b
      using l by (auto simp: linked_def dep_cause_nodep [OF Cons.prems])
    from Cons.IH [OF e] d show ?case by auto
  qed
  then show ?thesis by (simp add: setAllDepBlocks_def)
qed

end
