(* ===== verification/Quro_Close.thy ===== *)
theory Quro_Close
  imports Quro_Dep
begin

text \<open>
  \<open>codeBlock::propagateDep\<close>: a breadth-first search over the links closes the dependency
  set of one block; the loop of \<open>reorderCode\<close> closes those of all the blocks, one after
  the other, each on the sets the earlier ones left.  The search is a \<open>while_option\<close>, so
  that its termination is a theorem.
\<close>

section \<open>propagateDep\<close>

definition prop_visit :: "bid \<Rightarrow> bid \<Rightarrow> bid list \<times> heap \<Rightarrow> bid list \<times> heap" where
  "prop_visit this d st =
     (let (que, h) = st in
      if d \<noteq> this \<and> \<not> List.member (cb_dep_blocks (h this)) d
      then (que @ [d], dep_insert d this h) else (que, h))"

definition prop_step :: "bid \<Rightarrow> bid list \<times> heap \<Rightarrow> bid list \<times> heap" where
  "prop_step this st =
     (let (que, h) = st; cb = hd que
      in fold (prop_visit this) (cb_dep_blocks (h cb)) (tl que, h))"

definition propagateDep :: "bid \<Rightarrow> heap \<Rightarrow> heap option" where
  "propagateDep this h =
     map_option snd (while_option (\<lambda>(que, h). que \<noteq> []) (prop_step this)
                       (cb_dep_blocks (h this), h))"

definition propagateAll :: "bid list \<Rightarrow> heap \<Rightarrow> heap option" where
  "propagateAll code_blocks h = foldM propagateDep code_blocks h"

text \<open>What one visit does to the queue and to the set of \<open>this\<close>.\<close>

definition others_same :: "bid \<Rightarrow> heap \<Rightarrow> heap \<Rightarrow> bool" where
  "others_same this h h' \<longleftrightarrow> nodep h' = nodep h \<and> (\<forall>b. b \<noteq> this \<longrightarrow> h' b = h b)"

lemma others_same_refl [simp]: "others_same this h h"
  by (simp add: others_same_def)

lemma others_same_trans: "others_same this h h1 \<Longrightarrow> others_same this h1 h2 \<Longrightarrow> others_same this h h2"
  by (auto simp: others_same_def)

lemma others_same_deps: "others_same this h h' \<Longrightarrow> b \<noteq> this \<Longrightarrow> deps h' b = deps h b"
  by (simp add: others_same_def deps_def)

lemma prop_visits:
  "fold (prop_visit this) ds (que, h) = (que', h') \<Longrightarrow>
   others_same this h h' \<and>
   deps h' this = deps h this \<union> (set ds - {this}) \<and>
   set que' = set que \<union> (set ds - {this} - deps h this) \<and>
   length que' = length que + card (deps h' this - deps h this)"
proof (induction ds arbitrary: que h)
  case Nil
  then show ?case by simp
next
  case (Cons d ds)
  show ?case
  proof (cases "d \<noteq> this \<and> d \<notin> deps h this")
    case False
    then have "prop_visit this d (que, h) = (que, h)" by (auto simp: prop_visit_def deps_def)
    with Cons.prems have "fold (prop_visit this) ds (que, h) = (que', h')" by simp
    from Cons.IH [OF this] False show ?thesis by auto
  next
    case True
    let ?h1 = "dep_insert d this h"
    have d1: "deps ?h1 this = insert d (deps h this)" by (simp add: deps_def dep_insert_def)
    have o1: "others_same this h ?h1"
      by (auto simp: others_same_def dep_insert_def nodep_def fun_eq_iff)
    from True have "prop_visit this d (que, h) = (que @ [d], ?h1)"
      by (auto simp: prop_visit_def deps_def)
    with Cons.prems have "fold (prop_visit this) ds (que @ [d], ?h1) = (que', h')" by simp
    note IH = Cons.IH [OF this]
    have fin: "finite (deps h' this)" by (simp add: deps_def)
    have "deps h' this - deps h this = insert d (deps h' this - deps ?h1 this)"
      using IH d1 True by auto
    then have "card (deps h' this - deps h this) = Suc (card (deps h' this - deps ?h1 this))"
    proof (rule ssubst)
      have "d \<notin> deps h' this - deps ?h1 this" "finite (deps h' this - deps ?h1 this)"
        using fin d1 by blast+
      then show "card (insert d (deps h' this - deps ?h1 this)) =
            Suc (card (deps h' this - deps ?h1 this))"
        by (rule card_insert_disjoint [rotated])
    qed
    moreover have "others_same this h h'" using IH others_same_trans [OF o1] by blast
    moreover have "deps h' this = deps h this \<union> (set (d # ds) - {this})"
      using IH d1 True by auto
    moreover have "set que' = set que \<union> (set (d # ds) - {this} - deps h this)"
      using IH d1 True by auto
    ultimately show ?thesis using IH by simp
  qed
qed

text \<open>The links as a relation.\<close>

definition dep_rel :: "heap \<Rightarrow> (bid \<times> bid) set" where
  "dep_rel h = {(a, b). b \<in> deps h a}"

lemma dep_rel_iff [simp]: "(a, b) \<in> dep_rel h \<longleftrightarrow> b \<in> deps h a"
  by (simp add: dep_rel_def)

lemma dep_trancl: "b \<in> deps h a \<Longrightarrow> (a, b) \<in> (dep_rel h)\<^sup>+"
  by (rule r_into_trancl) simp

text \<open>
  The invariant of the search from \<open>this\<close> in the heap \<open>h0\<close>: only the set of \<open>this\<close> grows,
  everything in it is reachable, and what is not on the queue any more has had its own
  links added.
\<close>

definition prop_inv :: "bid \<Rightarrow> heap \<Rightarrow> bid list \<times> heap \<Rightarrow> bool" where
  "prop_inv this h0 st \<longleftrightarrow>
     (let (que, h) = st in
      others_same this h0 h \<and> deps h0 this \<subseteq> deps h this \<and>
      deps h this \<subseteq> deps h0 this \<union> ((dep_rel h0)\<^sup>+ `` {this} - {this}) \<and>
      set que \<subseteq> deps h this \<and>
      (\<forall>x \<in> deps h this - set que. x \<noteq> this \<longrightarrow> deps h0 x - {this} \<subseteq> deps h this))"

lemma prop_inv_start: "prop_inv this h (cb_dep_blocks (h this), h)"
  by (auto simp: prop_inv_def deps_def)

lemma prop_inv_step:
  assumes inv: "prop_inv this h0 (que, h)" and que: "que \<noteq> []"
  shows "prop_inv this h0 (prop_step this (que, h))"
proof -
  obtain que' h' where st: "prop_step this (que, h) = (que', h')" by (cases "prop_step this (que, h)")
  let ?cb = "hd que"
  have f: "fold (prop_visit this) (cb_dep_blocks (h ?cb)) (tl que, h) = (que', h')"
    using st by (simp add: prop_step_def)
  note v = prop_visits [OF f, folded deps_def]
  from inv have o: "others_same this h0 h" and low: "deps h0 this \<subseteq> deps h this"
    and up: "deps h this \<subseteq> deps h0 this \<union> ((dep_rel h0)\<^sup>+ `` {this} - {this})"
    and q: "set que \<subseteq> deps h this"
    and closed: "\<forall>x \<in> deps h this - set que. x \<noteq> this \<longrightarrow> deps h0 x - {this} \<subseteq> deps h this"
    by (auto simp: prop_inv_def)
  have cb: "?cb \<in> deps h this" using q que by auto
  have seq: "set que = insert ?cb (set (tl que))" using que by (cases que) auto
  have cbdeps: "deps h ?cb = deps h0 ?cb" if "?cb \<noteq> this" using others_same_deps [OF o that] .
  have reach: "(this, x) \<in> (dep_rel h0)\<^sup>+" if "x \<in> deps h this" for x
    using up that dep_trancl by blast
  have up': "deps h' this \<subseteq> deps h0 this \<union> ((dep_rel h0)\<^sup>+ `` {this} - {this})"
  proof (cases "?cb = this")
    case True
    with v up show ?thesis by auto
  next
    case False
    have "deps h ?cb \<subseteq> (dep_rel h0)\<^sup>+ `` {this}"
      using reach [OF cb] cbdeps [OF False] by (auto intro: trancl_into_trancl)
    with v up show ?thesis by auto
  qed
  have "x \<noteq> this \<Longrightarrow> deps h0 x - {this} \<subseteq> deps h' this"
    if x: "x \<in> deps h' this - set que'" for x
  proof -
    assume ne: "x \<noteq> this"
    from x v have xh: "x \<in> deps h this" by auto
    show ?thesis
    proof (cases "x = ?cb")
      case True
      with v cbdeps ne show ?thesis by auto
    next
      case False
      with x v seq have "x \<notin> set que" by auto
      with closed xh ne v show ?thesis by blast
    qed
  qed
  moreover have "others_same this h0 h'" using others_same_trans [OF o] v by blast
  moreover have "set que' \<subseteq> deps h' this" using v q seq by auto
  moreover have "deps h0 this \<subseteq> deps h' this" using v low by blast
  ultimately show ?thesis using up' st by (auto simp: prop_inv_def)
qed

section \<open>Termination and correctness\<close>

lemma prop_reach_bound:
  assumes "finite S" "this \<in> S" "\<forall>b \<in> S. deps h0 b \<subseteq> S"
  shows "(dep_rel h0)\<^sup>+ `` {this} \<subseteq> S"
proof
  fix x assume "x \<in> (dep_rel h0)\<^sup>+ `` {this}"
  then have "(this, x) \<in> (dep_rel h0)\<^sup>+" by simp
  then show "x \<in> S" using assms(2,3) by (induction rule: trancl_induct) auto
qed

lemma propagateDep_total:
  assumes "finite S" "this \<in> S" "\<forall>b \<in> S. deps h0 b \<subseteq> S"
  shows "\<exists>h. propagateDep this h0 = Some h"
proof -
  let ?m = "\<lambda>(que, h). 2 * card (S - deps h this) + length que"
  have "\<exists>t. while_option (\<lambda>(que, h). que \<noteq> []) (prop_step this) (cb_dep_blocks (h0 this), h0) = Some t"
  proof (rule measure_while_option_Some [where P = "prop_inv this h0" and f = ?m])
    fix st assume "prop_inv this h0 st" "case st of (que, h) \<Rightarrow> que \<noteq> []"
    then obtain que h where st: "st = (que, h)" and inv: "prop_inv this h0 (que, h)" and q: "que \<noteq> []"
      by (cases st) auto
    obtain que' h' where st': "prop_step this (que, h) = (que', h')"
      by (cases "prop_step this (que, h)")
    have inv': "prop_inv this h0 (que', h')" using prop_inv_step [OF inv q] st' by simp
    have f: "fold (prop_visit this) (cb_dep_blocks (h (hd que))) (tl que, h) = (que', h')"
      using st' by (simp add: prop_step_def)
    note v = prop_visits [OF f]
    have sub: "deps h' this \<subseteq> S"
    proof -
      have "deps h' this \<subseteq> deps h0 this \<union> ((dep_rel h0)\<^sup>+ `` {this} - {this})"
        using inv' by (simp add: prop_inv_def)
      moreover have "deps h0 this \<subseteq> S" using assms(2,3) by blast
      ultimately show ?thesis using prop_reach_bound [OF assms] by blast
    qed
    let ?new = "deps h' this - deps h this"
    have "S - deps h this = (S - deps h' this) \<union> ?new" using v sub by auto
    moreover have "(S - deps h' this) \<inter> ?new = {}" by auto
    ultimately have "card (S - deps h this) = card (S - deps h' this) + card ?new"
      using assms(1) by (simp add: card_Un_disjoint deps_def)
    moreover have "length que' = length que - 1 + card ?new" using v by simp
    moreover have "0 < length que" using q by simp
    ultimately have "?m (que', h') < ?m (que, h)" by (simp only: prod.case) arith
    with inv' st st' show "prop_inv this h0 (prop_step this st) \<and> ?m (prop_step this st) < ?m st"
      by simp
  qed (rule prop_inv_start)
  then show ?thesis by (auto simp: propagateDep_def)
qed

lemma propagateDep_result:
  assumes "propagateDep this h0 = Some h"
  shows "others_same this h0 h" and "deps h this - {this} = (dep_rel h0)\<^sup>+ `` {this} - {this}"
    and "deps h0 this \<subseteq> deps h this" and "this \<in> deps h this \<longleftrightarrow> this \<in> deps h0 this"
proof -
  from assms obtain que where w: "while_option (\<lambda>(que, h). que \<noteq> []) (prop_step this)
      (cb_dep_blocks (h0 this), h0) = Some (que, h)"
    by (auto simp: propagateDep_def)
  have "prop_inv this h0 (que, h)"
  proof (rule while_option_rule [OF _ w])
    fix s assume "prop_inv this h0 s" "case s of (que, h) \<Rightarrow> que \<noteq> []"
    then show "prop_inv this h0 (prop_step this s)"
      by (cases s) (auto intro: prop_inv_step)
  qed (rule prop_inv_start)
  moreover have "que = []" using while_option_stop [OF w] by simp
  ultimately have o: "others_same this h0 h" and low: "deps h0 this \<subseteq> deps h this"
    and up: "deps h this \<subseteq> deps h0 this \<union> ((dep_rel h0)\<^sup>+ `` {this} - {this})"
    and closed: "\<forall>x \<in> deps h this. x \<noteq> this \<longrightarrow> deps h0 x - {this} \<subseteq> deps h this"
    by (auto simp: prop_inv_def)
  have "x \<noteq> this \<longrightarrow> x \<in> deps h this" if "(this, x) \<in> (dep_rel h0)\<^sup>+" for x
    using that
  proof (induction rule: trancl_induct)
    case (base y)
    then show ?case using low by auto
  next
    case (step y z)
    show ?case
    proof (cases "y = this")
      case True
      with step low show ?thesis by auto
    next
      case False
      with step closed show ?thesis by auto
    qed
  qed
  then show "deps h this - {this} = (dep_rel h0)\<^sup>+ `` {this} - {this}"
    using up dep_trancl by blast
  show "others_same this h0 h" by (rule o)
  show "deps h0 this \<subseteq> deps h this" by (rule low)
  show "this \<in> deps h this \<longleftrightarrow> this \<in> deps h0 this" using up low by auto
qed

text \<open>Closing one set does not change what is reachable.\<close>

lemma propagateDep_trancl:
  assumes "propagateDep this h0 = Some h"
  shows "(dep_rel h)\<^sup>+ = (dep_rel h0)\<^sup>+"
proof (rule antisym)
  note r = propagateDep_result [OF assms]
  have "dep_rel h \<subseteq> (dep_rel h0)\<^sup>+"
  proof
    fix p assume "p \<in> dep_rel h"
    then obtain a b where p: "p = (a, b)" and b: "b \<in> deps h a" by (auto simp: dep_rel_def)
    show "p \<in> (dep_rel h0)\<^sup>+"
    proof (cases "a = this \<and> b \<noteq> this")
      case True
      with r(2) b p show ?thesis by auto
    next
      case False
      with b r(1,4) others_same_deps [OF r(1), of a] have "b \<in> deps h0 a" by (cases "a = this") auto
      with p show ?thesis by (auto intro: r_into_trancl)
    qed
  qed
  then show "(dep_rel h)\<^sup>+ \<subseteq> (dep_rel h0)\<^sup>+"
    by (metis trancl_mono_subset trancl_id trans_trancl)
  have "dep_rel h0 \<subseteq> dep_rel h"
  proof
    fix p assume "p \<in> dep_rel h0"
    then obtain a b where "p = (a, b)" "b \<in> deps h0 a" by (auto simp: dep_rel_def)
    with r(3) others_same_deps [OF r(1), of a] show "p \<in> dep_rel h"
      by (cases "a = this") (auto simp: dep_rel_def)
  qed
  then show "(dep_rel h0)\<^sup>+ \<subseteq> (dep_rel h)\<^sup>+" by (rule trancl_mono_subset)
qed

text \<open>All the blocks.\<close>

lemma propagateAll_result:
  assumes "finite S" "\<forall>b \<in> S. deps h0 b \<subseteq> S" "set bs \<subseteq> S"
  shows "\<exists>h. propagateAll bs h0 = Some h \<and> nodep h = nodep h0 \<and>
           (dep_rel h)\<^sup>+ = (dep_rel h0)\<^sup>+ \<and> (\<forall>b \<in> S. deps h b \<subseteq> S) \<and>
           (\<forall>b \<in> set bs. deps h b - {b} = (dep_rel h0)\<^sup>+ `` {b} - {b}) \<and>
           (\<forall>b. b \<in> deps h b \<longleftrightarrow> b \<in> deps h0 b) \<and> (\<forall>b. b \<notin> set bs \<longrightarrow> deps h b = deps h0 b)"
  using assms
proof (induction bs arbitrary: h0)
  case Nil
  then show ?case by (auto simp: propagateAll_def)
next
  case (Cons x bs)
  have x: "x \<in> S" using Cons.prems(3) by simp
  from propagateDep_total [OF Cons.prems(1) x Cons.prems(2)]
  obtain h1 where h1: "propagateDep x h0 = Some h1" by blast
  note r = propagateDep_result [OF h1] and t = propagateDep_trancl [OF h1]
  have sub: "\<forall>b \<in> S. deps h1 b \<subseteq> S"
  proof
    fix b assume b: "b \<in> S"
    show "deps h1 b \<subseteq> S"
    proof (cases "b = x")
      case True
      with r(2) prop_reach_bound [OF Cons.prems(1) x Cons.prems(2)] x show ?thesis by blast
    next
      case False
      with others_same_deps [OF r(1)] Cons.prems(2) b show ?thesis by simp
    qed
  qed
  from Cons.IH [OF Cons.prems(1) sub] Cons.prems(3)
  obtain h where h: "propagateAll bs h1 = Some h" "nodep h = nodep h1"
      "(dep_rel h)\<^sup>+ = (dep_rel h1)\<^sup>+" "\<forall>b \<in> S. deps h b \<subseteq> S"
      "\<forall>b \<in> set bs. deps h b - {b} = (dep_rel h1)\<^sup>+ `` {b} - {b}"
      "\<forall>b. b \<in> deps h b \<longleftrightarrow> b \<in> deps h1 b" "\<forall>b. b \<notin> set bs \<longrightarrow> deps h b = deps h1 b"
    by auto
  have "deps h x - {x} = (dep_rel h0)\<^sup>+ `` {x} - {x}"
    using h(5,7) r(2) t by (cases "x \<in> set bs") auto
  moreover have "b \<in> deps h b \<longleftrightarrow> b \<in> deps h0 b" for b
    using h(6) r(4) others_same_deps [OF r(1), of b] by (cases "b = x") auto
  moreover have "propagateAll (x # bs) h0 = Some h" using h(1) h1 by (simp add: propagateAll_def)
  moreover have "nodep h = nodep h0" using h(2) r(1) by (simp add: others_same_def)
  ultimately show ?case
    using h t others_same_deps [OF r(1)] by (intro exI [of _ h]) auto
qed

end
