(* ===== verification/Quro_Group.thy ===== *)
theory Quro_Group
  imports Quro_Close
begin

text \<open>
  Generating the code of a group (\<open>recursiveGenerate\<close>, \<open>getBlockStr\<close>), naming the block
  that took the code of each processed block (\<open>setFinalcBlock\<close>), and redirecting the
  definitions to those blocks (\<open>finalizeDefs\<close>), all of \<open>src/quro/code/QueryBlock.cpp\<close>.
  The buffers \<open>char code[65536]\<close> and \<open>char label_begin[100]\<close> are taken to be large enough.
\<close>

section \<open>recursiveGenerate\<close>

definition nl :: string where "nl = [CHR 0x0A]"
definition tab :: string where "tab = [CHR 0x09]"

text \<open>The \<open>sprintf\<close> of each kind of conditional; the one of an \<open>ELSEIF\<close> does not exist.\<close>

definition wrap_cond :: "condBlock \<Rightarrow> string \<Rightarrow> string \<Rightarrow> string" where
  "wrap_cond c s dep_blocks_code =
     (let body = ''{'' @ nl @ tab @ s @ nl @ dep_blocks_code @ nl @ ''}'' @ nl in
      case cd_type c of
        IF \<Rightarrow> ''if('' @ cd_cond_str c @ '')'' @ body
      | ELSE \<Rightarrow> ''if(!('' @ cd_cond_str c @ ''))'' @ body
      | WHILE \<Rightarrow> ''while('' @ cd_cond_str c @ '')'' @ body
      | FOR \<Rightarrow> ''for('' @ cd_init_str c @ ''; '' @ cd_cond_str c @ ''; '' @ cd_inc_str c @ '')'' @ body
      | ELSEIF \<Rightarrow> [])"

definition upd :: "bid \<Rightarrow> (codeBlock \<Rightarrow> codeBlock) \<Rightarrow> heap \<Rightarrow> heap" where
  "upd b f h = h(b := f (h b))"

text \<open>What \<open>this\<close> and the block \<open>j\<close> it takes over exchange.\<close>

definition take_query :: "bid \<Rightarrow> bid \<Rightarrow> heap \<Rightarrow> heap" where
  "take_query this j h =
     (if cb_type (h this) = NONQUERY \<and> cb_type (h j) = QUERY
      then upd this (\<lambda>b. b\<lparr>cb_label := cb_label (h j), cb_type := QUERY,
             cb_conflict_index := max (cb_conflict_index b) (cb_conflict_index (h j))\<rparr>) h
      else h)"

definition swap_sets :: "bid \<Rightarrow> bid \<Rightarrow> heap \<Rightarrow> heap" where
  "swap_sets this j h =
     (let h = upd this (\<lambda>b. b\<lparr>cb_defs := addSets (cb_defs b) (cb_defs (h j))\<rparr>) h;
          h = upd this (\<lambda>b. b\<lparr>cb_uses := addSets (cb_uses b) (cb_uses (h j))\<rparr>) h;
          h = upd j (\<lambda>b. b\<lparr>cb_defs := addSets (cb_defs b) (cb_defs (h this))\<rparr>) h;
          h = upd j (\<lambda>b. b\<lparr>cb_uses := addSets (cb_uses b) (cb_uses (h this))\<rparr>) h;
          h = upd this (\<lambda>b. b\<lparr>cb_def_stmts := addMaps (cb_def_stmts b) (cb_def_stmts (h j))\<rparr>) h
      in upd j (\<lambda>b. b\<lparr>cb_def_stmts := addMaps (cb_def_stmts b) (cb_def_stmts (h this))\<rparr>) h)"

definition merge_block :: "bid \<Rightarrow> bid \<Rightarrow> heap \<Rightarrow> heap" where
  "merge_block this j h =
     (let h = swap_sets this j (take_query this j h);
          h = upd this (\<lambda>b. b\<lparr>cb_conflict_index :=
                max (cb_conflict_index b) (cb_conflict_index (h j))\<rparr>) h
      in upd j (\<lambda>b. b\<lparr>cb_processed := True\<rparr>) h)"

text \<open>
  \<open>recursiveGenerate(i)\<close> with \<open>i + 1\<close> as the argument, so that \<open>0\<close> stands for \<open>i < 0\<close>; the
  first argument is fuel.
\<close>

fun recursiveGenerate ::
    "nat \<Rightarrow> cheap \<Rightarrow> bid list \<Rightarrow> bid \<Rightarrow> nat \<Rightarrow> heap \<Rightarrow> (string \<times> heap) option" where
  "recursiveGenerate 0 C code_blocks this i h = None"
| "recursiveGenerate (Suc n) C code_blocks this 0 h =
     (let h' = upd this (\<lambda>b. b\<lparr>cb_source := cb_source b @ nl\<rparr>) h
      in Some (cb_source (h' this), h'))"
| "recursiveGenerate (Suc n) C code_blocks this (Suc i) h =
     (case recursiveGenerate n C code_blocks this i h of
        None \<Rightarrow> None
      | Some (s, h1) \<Rightarrow>
          (case foldM
             (\<lambda>j (code, h).
                if \<not> List.member (cb_dep_blocks (h this)) j \<or> cb_processed (h j) then Some (code, h)
                else foldM
                  (\<lambda>k (code, h).
                     if cb_cond_blocks (h j) ! k = cb_cond_blocks (h this) ! i
                     then (case recursiveGenerate n C code_blocks j k h of
                             None \<Rightarrow> None
                           | Some (t, h2) \<Rightarrow> Some (code @ t, merge_block this j h2))
                     else Some (code, h))
                  [0..<length (cb_cond_blocks (h j))] (code, h))
             (drop (cb_index (h1 this) + 1) code_blocks) ([], h1) of
             None \<Rightarrow> None
           | Some (code, h2) \<Rightarrow> Some (wrap_cond (C (cb_cond_blocks (h2 this) ! i)) s code, h2)))"

definition getBlockStr :: "nat \<Rightarrow> cheap \<Rightarrow> bid list \<Rightarrow> bid \<Rightarrow> heap \<Rightarrow> (string \<times> heap) option" where
  "getBlockStr fuel C code_blocks this h =
     (let contain_query = (cb_type (h this) = QUERY);
          label_begin = nl @ ''QUERY_BEGIN_'' @ cb_label (h this) @ '':'' @ nl;
          label_end = nl @ ''QUERY_END_'' @ cb_label (h this) @ '':'' @ nl @ nl;
          h1 = upd this (\<lambda>b. b\<lparr>cb_pre_label := cb_label b\<rparr>) h
      in case recursiveGenerate fuel C code_blocks this (length (cb_cond_blocks (h this))) h1 of
           None \<Rightarrow> None
         | Some (source_code, h2) \<Rightarrow>
             Some (if contain_query then label_begin @ source_code @ label_end else source_code, h2))"

definition setInsertCode :: "nat \<Rightarrow> cheap \<Rightarrow> bid list \<Rightarrow> bid \<Rightarrow> heap \<Rightarrow> heap option" where
  "setInsertCode fuel C code_blocks b h =
     (case getBlockStr fuel C code_blocks b h of
        None \<Rightarrow> None
      | Some (code, h') \<Rightarrow> Some (upd b (\<lambda>x. x\<lparr>cb_insert_code := code\<rparr>) h'))"

section \<open>setFinalcBlock and finalizeDefs\<close>

definition final_visit :: "heap \<Rightarrow> bid \<Rightarrow> bid \<Rightarrow> bid list \<times> bid \<Rightarrow> bid list \<times> bid" where
  "final_visit h cb d st =
     (let (que, fin) = st in
      if cb_index (h cb) \<le> cb_index (h d) then (que, fin)
      else if \<not> cb_processed (h d) then (que, d) else (que @ [d], fin))"

definition final_step :: "heap \<Rightarrow> bid list \<times> bid \<Rightarrow> bid list \<times> bid" where
  "final_step h st =
     (let (que, fin) = st; cb = hd que
      in fold (final_visit h cb) (cb_dep_blocks (h cb)) (tl que, fin))"

text \<open>\<open>que.front()\<close> of an empty queue is undefined: \<open>None\<close>.\<close>

definition setFinalcBlock :: "bid \<Rightarrow> heap \<Rightarrow> heap option" where
  "setFinalcBlock this h =
     (if cb_processed (h this)
      then (case while_option (\<lambda>(que, fin). fin = this \<and> que \<noteq> []) (final_step h)
                   ([this], cb_finalcBlock (h this)) of
              None \<Rightarrow> None
            | Some (que, fin) \<Rightarrow>
                (if fin = this then None
                 else Some (upd this (\<lambda>b. b\<lparr>cb_finalcBlock := fin\<rparr>) h)))
      else Some h)"

text \<open>The assertion of \<open>finalizeDefs\<close> is a \<open>None\<close>.\<close>

definition finalize_set :: "heap \<Rightarrow> bid stdset \<Rightarrow> bid stdset option" where
  "finalize_set h s =
     foldM (\<lambda>c new_set. let f = cb_finalcBlock (h c) in
                          if cb_processed (h f) then None else Some (sset_insert f new_set)) s []"

fun finalize_map :: "heap \<Rightarrow> defmap \<Rightarrow> defmap option" where
  "finalize_map h [] = Some []"
| "finalize_map h ((v, s) # m) =
     (case finalize_set h s of
        None \<Rightarrow> None
      | Some s' \<Rightarrow> map_option (Cons (v, s')) (finalize_map h m))"

definition add_cond_sets :: "cheap \<Rightarrow> bid \<Rightarrow> heap \<Rightarrow> heap" where
  "add_cond_sets C this h =
     fold (\<lambda>c. upd this (\<lambda>b. b\<lparr>cb_def_stmts := addMaps (cb_def_stmts b) (cd_def_stmts (C c)),
                                   cb_uses := addSets (cb_uses b) (cd_uses (C c))\<rparr>))
       (cb_cond_blocks (h this)) h"

definition finalizeDefs :: "cheap \<Rightarrow> bid \<Rightarrow> heap \<Rightarrow> heap option" where
  "finalizeDefs C this h =
     (let h1 = add_cond_sets C this h in
      if cb_processed (h this)
      then (case finalize_map h1 (cb_def_stmts (h1 this)) of
              None \<Rightarrow> None
            | Some m \<Rightarrow> Some (upd this (\<lambda>b. b\<lparr>cb_def_stmts := m\<rparr>) h1))
      else Some h1)"

text \<open>The five loops that open \<open>reorderCode\<close>.\<close>

definition prepare :: "nat \<Rightarrow> cheap \<Rightarrow> bid list \<Rightarrow> heap \<Rightarrow> heap option" where
  "prepare fuel C code_blocks h =
     Option.bind (propagateAll code_blocks (setAllDepBlocks C code_blocks h)) (\<lambda>h.
     Option.bind (foldM (setInsertCode fuel C code_blocks) code_blocks h) (\<lambda>h.
     Option.bind (foldM setFinalcBlock code_blocks h) (\<lambda>h.
     foldM (finalizeDefs C) code_blocks h)))"

section \<open>What generation changes\<close>

text \<open>
  Generation keeps the indices, the conditions, the links and \<open>finalcBlock\<close> of every block,
  and a block becomes processed only by a block of smaller index it is linked to.
\<close>

definition gen_rel :: "bid set \<Rightarrow> heap \<Rightarrow> heap \<Rightarrow> bool" where
  "gen_rel B h h' \<longleftrightarrow>
     (\<forall>b. cb_index (h' b) = cb_index (h b) \<and> cb_cond_blocks (h' b) = cb_cond_blocks (h b) \<and>
          cb_dep_blocks (h' b) = cb_dep_blocks (h b) \<and>
          cb_finalcBlock (h' b) = cb_finalcBlock (h b) \<and>
          (cb_processed (h b) \<longrightarrow> cb_processed (h' b))) \<and>
     (\<forall>j. cb_processed (h' j) \<and> \<not> cb_processed (h j) \<longrightarrow>
          (\<exists>a \<in> B. j \<in> deps h a \<and> cb_index (h a) < cb_index (h j)))"

definition idx_ok :: "bid list \<Rightarrow> heap \<Rightarrow> bool" where
  "idx_ok bs h \<longleftrightarrow> (\<forall>p < length bs. p \<le> cb_index (h (bs ! p)))"

definition defs_in :: "bid set \<Rightarrow> heap \<Rightarrow> bool" where
  "defs_in S h \<longleftrightarrow> (\<forall>b. \<forall>(v, s) \<in> set (cb_def_stmts (h b)). set s \<subseteq> S)"

lemma gen_rel_refl [simp]: "gen_rel B h h"
  by (simp add: gen_rel_def)

lemma gen_rel_trans: "gen_rel B h h1 \<Longrightarrow> gen_rel B h1 h2 \<Longrightarrow> gen_rel B h h2"
  unfolding gen_rel_def deps_def by metis

lemma gen_rel_same:
  assumes "\<And>b. cb_index (f b) = cb_index b" "\<And>b. cb_cond_blocks (f b) = cb_cond_blocks b"
    "\<And>b. cb_dep_blocks (f b) = cb_dep_blocks b" "\<And>b. cb_finalcBlock (f b) = cb_finalcBlock b"
    "\<And>b. cb_processed (f b) = cb_processed b"
  shows "gen_rel B h (upd x f h)"
  using assms by (auto simp: gen_rel_def upd_def)

lemma gen_rel_idx: "gen_rel B h h' \<Longrightarrow> idx_ok bs h' = idx_ok bs h"
  by (simp add: gen_rel_def idx_ok_def)

lemma gen_rel_merge:
  assumes "this \<in> B" "j \<in> deps h this" "cb_index (h this) < cb_index (h j)"
  shows "gen_rel B h (merge_block this j h)"
proof -
  have ne: "this \<noteq> j" using assms(3) by auto
  have 1: "gen_rel B h (take_query this j h)"
    by (simp add: take_query_def) (intro impI gen_rel_same; simp)
  have 2: "gen_rel B g (swap_sets this j g)" for g
    unfolding swap_sets_def Let_def
    by (rule gen_rel_trans [OF gen_rel_trans [OF gen_rel_trans [OF gen_rel_trans
          [OF gen_rel_trans]]]]; rule gen_rel_same; simp)
  let ?g = "swap_sets this j (take_query this j h)"
  have g: "gen_rel B h ?g" using gen_rel_trans [OF 1 2] .
  show ?thesis
    using g assms ne
    by (auto simp: merge_block_def Let_def gen_rel_def upd_def)
qed

text \<open>Definitions never leave a set of blocks.\<close>

definition map_in :: "bid set \<Rightarrow> defmap \<Rightarrow> bool" where
  "map_in S m \<longleftrightarrow> (\<forall>(v, s) \<in> set m. set s \<subseteq> S)"

lemma map_in_simps [simp]:
  "map_in S []" "map_in S ((v, s) # m) \<longleftrightarrow> set s \<subseteq> S \<and> map_in S m"
  by (auto simp: map_in_def)

lemma map_in_put: "map_in S m \<Longrightarrow> set s \<subseteq> S \<Longrightarrow> map_in S (smap_put v s m)"
  by (induction m rule: smap_put.induct) auto

lemma map_in_get: "map_in S m \<Longrightarrow> smap_get m v = Some s \<Longrightarrow> set s \<subseteq> S"
  by (auto simp: map_in_def dest!: smap_get_mem)

lemma set_fold_sset: "set (fold sset_insert s d) = set d \<union> set s"
  by (rule fold_insert_set [of set]) simp

lemma map_in_addMaps: "map_in S d \<Longrightarrow> map_in S m \<Longrightarrow> map_in S (addMaps d m)"
proof (induction d m rule: addMaps.induct)
  case (1 dest)
  then show ?case by simp
next
  case (2 dest v s src)
  show ?case
  proof (cases "smap_get dest v")
    case None
    with 2 show ?thesis by (simp add: map_in_put)
  next
    case (Some d)
    then have "set (fold sset_insert s d) \<subseteq> S"
      using map_in_get [OF 2(3) Some] 2(4) by (simp add: set_fold_sset)
    with 2 Some show ?thesis by (simp add: map_in_put)
  qed
qed

definition heap_in :: "bid set \<Rightarrow> heap \<Rightarrow> bool" where
  "heap_in S h \<longleftrightarrow> (\<forall>b. map_in S (cb_def_stmts (h b)))"

lemma heap_in_upd: "heap_in S h \<Longrightarrow> map_in S (cb_def_stmts (f (h x))) \<Longrightarrow> heap_in S (upd x f h)"
  by (simp add: heap_in_def upd_def)

lemma heap_in_get: "heap_in S h \<Longrightarrow> map_in S (cb_def_stmts (h b))"
  by (simp add: heap_in_def)

lemma heap_in_same:
  "heap_in S h \<Longrightarrow> (\<And>b. cb_def_stmts (f b) = cb_def_stmts b) \<Longrightarrow> heap_in S (upd x f h)"
  by (simp add: heap_in_def upd_def)

lemma heap_in_add_map:
  "heap_in S h \<Longrightarrow> map_in S m \<Longrightarrow>
   heap_in S (upd x (\<lambda>b. b\<lparr>cb_def_stmts := addMaps (cb_def_stmts b) m\<rparr>) h)"
  by (simp add: heap_in_def upd_def map_in_addMaps)

lemma heap_in_merge:
  assumes "heap_in S h"
  shows "heap_in S (merge_block this j h)"
proof -
  have 1: "heap_in S (take_query this j h)"
    using assms by (simp add: take_query_def heap_in_same)
  have 2: "heap_in S (swap_sets this j g)" if "heap_in S g" for g
  proof -
    have sets: "heap_in S g \<Longrightarrow> heap_in S (upd x (\<lambda>b. b\<lparr>cb_defs := addSets (cb_defs b) s\<rparr>) g)"
      "heap_in S g \<Longrightarrow> heap_in S (upd x (\<lambda>b. b\<lparr>cb_uses := addSets (cb_uses b) s\<rparr>) g)" for x s g
      by (simp_all add: heap_in_same)
    have maps: "heap_in S g \<Longrightarrow>
        heap_in S (upd x (\<lambda>b. b\<lparr>cb_def_stmts := addMaps (cb_def_stmts b) (cb_def_stmts (g y))\<rparr>) g)"
      for x y g
      by (simp add: heap_in_add_map heap_in_get)
    let ?P = "heap_in S"
    show ?thesis
      unfolding swap_sets_def
      by (rule let_rule [of ?P], rule sets, rule that, rule let_rule [of ?P], erule sets,
          rule let_rule [of ?P], erule sets, rule let_rule [of ?P], erule sets,
          rule let_rule [of ?P], erule maps, erule maps)
  qed
  show ?thesis
    unfolding merge_block_def Let_def by (intro heap_in_same 2 1) simp_all
qed

section \<open>Generation returns\<close>

definition gen_fuel :: "nat \<Rightarrow> bid list \<Rightarrow> heap \<Rightarrow> bid \<Rightarrow> nat \<Rightarrow> nat" where
  "gen_fuel M bs h b i = i + 1 + Suc M * (length bs - cb_index (h b))"

definition conds_bound :: "nat \<Rightarrow> bid list \<Rightarrow> heap \<Rightarrow> bool" where
  "conds_bound M bs h \<longleftrightarrow> (\<forall>b \<in> set bs. length (cb_cond_blocks (h b)) \<le> M)"

lemma gen_rel_fuel: "gen_rel B h h' \<Longrightarrow> gen_fuel M bs h' b i = gen_fuel M bs h b i"
  by (simp add: gen_rel_def gen_fuel_def)

lemma later_index:
  assumes "idx_ok bs h" "j \<in> set (drop (Suc i) bs)"
  shows "i < cb_index (h j)" and "j \<in> set bs" and "i < length bs"
proof -
  from assms(2) obtain p where p: "p < length bs - Suc i" "j = bs ! (Suc i + p)"
    by (auto simp: in_set_conv_nth)
  then have "Suc i + p \<le> cb_index (h j)" using assms(1) by (simp add: idx_ok_def)
  then show "i < cb_index (h j)" by simp
  show "j \<in> set bs" using assms(2) by (rule in_set_dropD)
  show "i < length bs" using p(1) by simp
qed

text \<open>The blocks that \<open>this\<close> takes over at one of its conditions: the later ones it is linked to that stand
  under the condition, too.\<close>

definition takes_over :: "bid list \<Rightarrow> bid \<Rightarrow> cid \<Rightarrow> heap \<Rightarrow> heap \<Rightarrow> bool" where
  "takes_over bs this c h h' \<longleftrightarrow>
     (\<forall>j \<in> set (drop (cb_index (h this) + 1) bs). j \<in> deps h this \<and> c \<in> set (cb_cond_blocks (h j)) \<longrightarrow> cb_processed (h' j))"

lemma gen_rel_processed: "gen_rel B h h' \<Longrightarrow> cb_processed (h j) \<Longrightarrow> cb_processed (h' j)"
  by (simp add: gen_rel_def)

lemma merge_processed: "cb_processed (merge_block this j h j)"
  by (simp add: merge_block_def Let_def upd_def)

lemma recursiveGenerate_total:
  assumes "idx_ok bs h" "conds_bound M bs h" "this \<in> set bs" "i \<le> M"
    "gen_fuel M bs h this i \<le> n" "heap_in S h"
  shows "\<exists>s h'. recursiveGenerate n C bs this i h = Some (s, h') \<and>
           gen_rel (set bs) h h' \<and> heap_in S h' \<and> (0 < i \<longrightarrow> takes_over bs this (cb_cond_blocks (h this) ! (i - 1)) h h')"
  using assms
proof (induction n arbitrary: this i h)
  case 0
  then show ?case by (simp add: gen_fuel_def)
next
  case (Suc n)
  show ?case
  proof (cases i)
    case 0
    have "gen_rel (set bs) h (upd this (\<lambda>b. b\<lparr>cb_source := cb_source b @ nl\<rparr>) h)"
      by (rule gen_rel_same) simp_all
    with Suc.prems(6) 0 show ?thesis by (auto simp: Let_def heap_in_def upd_def)
  next
    case (Suc i')
    have "gen_fuel M bs h this i' \<le> n" using Suc.prems(5) Suc by (simp add: gen_fuel_def)
    from Suc.IH [OF Suc.prems(1-3) _ this Suc.prems(6)] Suc.prems(4) Suc
    obtain s h1 where h1: "recursiveGenerate n C bs this i' h = Some (s, h1)"
      and g1: "gen_rel (set bs) h h1" and in1: "heap_in S h1" by auto
    let ?inner = "\<lambda>j k (code :: string, h). if cb_cond_blocks (h j) ! k = cb_cond_blocks (h this) ! i'
                     then (case recursiveGenerate n C bs j k h of
                             None \<Rightarrow> None
                           | Some (t, h2) \<Rightarrow> Some (code @ t, merge_block this j h2))
                     else Some (code, h)"
    let ?body = "\<lambda>j (code, h).
                if \<not> List.member (cb_dep_blocks (h this)) j \<or> cb_processed (h j) then Some (code, h)
                else foldM (?inner j) [0..<length (cb_cond_blocks (h j))] (code, h)"
    let ?I = "\<lambda>(code :: string, g). gen_rel (set bs) h1 g \<and> heap_in S g"
    let ?le = "\<lambda>(x :: string, g) (y :: string, g'). gen_rel (set bs) g g'"
    have inner: "\<exists>st'. ?inner j k st = Some st' \<and> ?I st' \<and> ?le st st' \<and>
        (cb_cond_blocks (h1 j) ! k = cb_cond_blocks (h1 this) ! i' \<longrightarrow> cb_processed (snd st' j))"
      if j: "j \<in> set (drop (cb_index (h1 this) + 1) bs)" and dep: "j \<in> deps h1 this"
        and k: "k < length (cb_cond_blocks (h1 j))" and I: "?I st" for j k st
    proof -
      obtain code g where st: "st = (code, g)" by (cases st)
      with I have g: "gen_rel (set bs) h1 g" and ing: "heap_in S g" by auto
      have gg: "gen_rel (set bs) h g" using gen_rel_trans [OF g1 g] .
      have idx: "idx_ok bs g" using gen_rel_idx [OF gg] Suc.prems(1) by simp
      have idx1: "idx_ok bs h1" using gen_rel_idx [OF g1] Suc.prems(1) by simp
      note later = later_index [OF idx1 j [simplified]]
      have cb: "conds_bound M bs g" using gg Suc.prems(2) by (simp add: conds_bound_def gen_rel_def)
      have kM: "k \<le> M" using k later(2) g1 Suc.prems(2)
        by (fastforce simp: conds_bound_def gen_rel_def)
      have e: "cb_index (g b) = cb_index (h1 b)" "cb_index (h b) = cb_index (h1 b)" for b
        using g g1 by (simp_all add: gen_rel_def)
      have "gen_fuel M bs g j k \<le> n"
      proof -
        have "Suc (length bs - cb_index (h1 j)) \<le> length bs - cb_index (h1 this)"
          using later(1,3) by simp
        then have "Suc M * Suc (length bs - cb_index (h1 j)) \<le> Suc M * (length bs - cb_index (h1 this))"
          by (rule mult_le_mono2)
        moreover have "i' + 1 + Suc M * (length bs - cb_index (h1 this)) \<le> n"
          using Suc.prems(5) Suc e by (simp add: gen_fuel_def)
        ultimately show ?thesis using kM e by (simp add: gen_fuel_def)
      qed
      from Suc.IH [OF idx cb later(2) kM this ing] obtain t h2 where
        h2: "recursiveGenerate n C bs j k g = Some (t, h2)" "gen_rel (set bs) g h2" "heap_in S h2"
        by blast
      have g12: "gen_rel (set bs) h1 h2" using gen_rel_trans [OF g h2(2)] .
      have "gen_rel (set bs) h2 (merge_block this j h2)"
        using g12 dep later(1) Suc.prems(3) by (intro gen_rel_merge) (auto simp: gen_rel_def deps_def)
      note m = this
      have c: "cb_cond_blocks (g x) = cb_cond_blocks (h1 x)" for x using g by (simp add: gen_rel_def)
      show ?thesis
      proof (cases "cb_cond_blocks (h1 j) ! k = cb_cond_blocks (h1 this) ! i'")
        case True
        have "?inner j k st = Some (code @ t, merge_block this j h2)" using h2(1) True by (simp add: st c)
        moreover have "?I (code @ t, merge_block this j h2)" using gen_rel_trans [OF g12 m] heap_in_merge [OF h2(3)] by simp
        moreover have "?le st (code @ t, merge_block this j h2)" using gen_rel_trans [OF h2(2) m] st by simp
        ultimately show ?thesis using merge_processed by auto
      next
        case False
        then have "?inner j k st = Some st" by (simp add: st c)
        with False I st show ?thesis by auto
      qed
    qed
    let ?Q = "\<lambda>j (x :: string, g). j \<in> deps h1 this \<and> cb_cond_blocks (h1 this) ! i' \<in> set (cb_cond_blocks (h1 j)) \<longrightarrow> cb_processed (g j)"
    have body: "\<exists>st'. ?body j st = Some st' \<and> ?I st' \<and> ?le st st' \<and> ?Q j st'"
      if j: "j \<in> set (drop (cb_index (h1 this) + 1) bs)" and I: "?I st" for j st
    proof -
      obtain code g where st: "st = (code, g)" by (cases st)
      with I have g: "gen_rel (set bs) h1 g" by auto
      show ?thesis
      proof (cases "\<not> List.member (cb_dep_blocks (g this)) j \<or> cb_processed (g j)")
        case True
        moreover have "deps h1 this = deps g this" using g by (simp add: gen_rel_def deps_def)
        ultimately show ?thesis using I st by (auto simp: deps_def)
      next
        case False
        then have dep: "j \<in> deps h1 this" using g by (simp add: gen_rel_def deps_def)
        have c: "cb_cond_blocks (g j) = cb_cond_blocks (h1 j)" using g by (simp add: gen_rel_def)
        let ?R = "\<lambda>k (x :: string, g). cb_cond_blocks (h1 j) ! k = cb_cond_blocks (h1 this) ! i' \<longrightarrow> cb_processed (g j)"
        have "\<exists>st'. foldM (?inner j) [0..<length (cb_cond_blocks (g j))] st = Some st' \<and> ?I st' \<and> ?le st st' \<and>
            (\<forall>k \<in> set [0..<length (cb_cond_blocks (g j))]. ?R k st')"
        proof (rule foldM_marks [where I = ?I and le = ?le and Q = ?R, OF I])
          fix k st assume "k \<in> set [0..<length (cb_cond_blocks (g j))]" and st: "?I st"
          then have "k < length (cb_cond_blocks (h1 j))" by (simp add: c)
          from inner [OF j dep this st] show "\<exists>st'. ?inner j k st = Some st' \<and> ?I st' \<and> ?le st st' \<and> ?R k st'"
            by (simp only: case_prod_beta)
        qed (auto intro: gen_rel_trans gen_rel_processed)
        then obtain st' where st': "foldM (?inner j) [0..<length (cb_cond_blocks (g j))] st = Some st'" "?I st'" "?le st st'"
          "\<forall>k < length (cb_cond_blocks (h1 j)). ?R k st'" unfolding c by auto
        from st'(4) have "?Q j st'" by (cases st') (auto simp: in_set_conv_nth)
        then show ?thesis using False st st'(1-3) by simp
      qed
    qed
    let ?later = "drop (cb_index (h1 this) + 1) bs"
    have "\<exists>st'. foldM ?body ?later ([], h1) = Some st' \<and> ?I st' \<and> ?le ([], h1) st' \<and> (\<forall>j \<in> set ?later. ?Q j st')"
    proof (rule foldM_marks [where I = ?I and le = ?le and Q = ?Q])
      show "?I ([], h1)" using in1 by simp
    next
      fix j st assume "j \<in> set ?later" "?I st"
      then show "\<exists>st'. ?body j st = Some st' \<and> ?I st' \<and> ?le st st' \<and> ?Q j st'" by (rule body)
    qed (auto intro: gen_rel_trans gen_rel_processed)
    then obtain code h2 where f: "foldM ?body ?later ([], h1) = Some (code, h2)"
      and h2: "gen_rel (set bs) h1 h2" "heap_in S h2" and q: "\<forall>j \<in> set ?later. ?Q j (code, h2)" by auto
    have "takes_over bs this (cb_cond_blocks (h this) ! i') h h2"
      using q g1 by (auto simp: takes_over_def gen_rel_def deps_def)
    with f h1 gen_rel_trans [OF g1 h2(1)] h2(2) Suc show ?thesis by simp
  qed
qed

section \<open>The block a processed block was merged into\<close>

definition final_ok :: "heap \<Rightarrow> bid \<Rightarrow> bid \<Rightarrow> bool" where
  "final_ok h b f \<longleftrightarrow>
     f \<in> deps h b \<and> cb_index (h f) < cb_index (h b) \<and> \<not> cb_processed (h f)"

lemma final_visits:
  "fold (final_visit h cb) ds (que, fin) = (que', fin') \<Longrightarrow>
   (fin' = fin \<or> (fin' \<in> set ds \<and> cb_index (h fin') < cb_index (h cb) \<and> \<not> cb_processed (h fin'))) \<and>
   ((\<exists>d \<in> set ds. cb_index (h d) < cb_index (h cb) \<and> \<not> cb_processed (h d)) \<longrightarrow>
      fin' \<in> set ds \<and> cb_index (h fin') < cb_index (h cb) \<and> \<not> cb_processed (h fin'))"
proof (induction ds arbitrary: que fin)
  case Nil
  then show ?case by simp
next
  case (Cons d ds)
  obtain que1 fin1 where v: "final_visit h cb d (que, fin) = (que1, fin1)"
    by (cases "final_visit h cb d (que, fin)")
  with Cons.prems have "fold (final_visit h cb) ds (que1, fin1) = (que', fin')" by simp
  note IH = Cons.IH [OF this]
  have "if cb_index (h d) < cb_index (h cb) \<and> \<not> cb_processed (h d) then fin1 = d else fin1 = fin"
    using v by (auto simp: final_visit_def split: if_splits)
  with IH show ?case by (auto split: if_splits)
qed

lemma setFinalcBlock_processed:
  assumes "cb_processed (h this)" "cb_finalcBlock (h this) = this" "final_ok h this d"
  shows "\<exists>f. final_ok h this f \<and>
           setFinalcBlock this h = Some (upd this (\<lambda>b. b\<lparr>cb_finalcBlock := f\<rparr>) h)"
proof -
  obtain que fin where st: "final_step h ([this], this) = (que, fin)"
    by (cases "final_step h ([this], this)")
  then have "fold (final_visit h this) (cb_dep_blocks (h this)) ([], this) = (que, fin)"
    by (simp add: final_step_def)
  from final_visits [OF this] assms(3) have fin: "final_ok h this fin"
    by (auto simp: final_ok_def deps_def)
  then have ne: "fin \<noteq> this" by (auto simp: final_ok_def)
  have "while_option (\<lambda>(que, fin). fin = this \<and> que \<noteq> []) (final_step h) ([this], this) =
        Some (que, fin)"
    using ne by (subst while_option_unfold) (simp add: st while_option_unfold)
  with assms(1,2) ne
  have "setFinalcBlock this h = Some (upd this (\<lambda>b. b\<lparr>cb_finalcBlock := fin\<rparr>) h)"
    by (simp add: setFinalcBlock_def)
  with fin show ?thesis by blast
qed

definition nofin :: "heap \<Rightarrow> heap" where
  "nofin h = (\<lambda>b. (h b)\<lparr>cb_finalcBlock := 0\<rparr>)"

lemma nofin_fields:
  assumes "nofin h' = nofin h"
  shows "cb_index (h' b) = cb_index (h b)" "cb_processed (h' b) = cb_processed (h b)"
    "cb_dep_blocks (h' b) = cb_dep_blocks (h b)" "cb_def_stmts (h' b) = cb_def_stmts (h b)"
    "cb_cond_blocks (h' b) = cb_cond_blocks (h b)"
proof -
  have e: "(h' b)\<lparr>cb_finalcBlock := 0\<rparr> = (h b)\<lparr>cb_finalcBlock := 0\<rparr>"
    using fun_cong [OF assms, of b] by (simp add: nofin_def)
  from arg_cong [OF e, of cb_index] arg_cong [OF e, of cb_processed]
    arg_cong [OF e, of cb_dep_blocks] arg_cong [OF e, of cb_def_stmts]
    arg_cong [OF e, of cb_cond_blocks]
  show "cb_index (h' b) = cb_index (h b)" "cb_processed (h' b) = cb_processed (h b)"
    "cb_dep_blocks (h' b) = cb_dep_blocks (h b)" "cb_def_stmts (h' b) = cb_def_stmts (h b)"
    "cb_cond_blocks (h' b) = cb_cond_blocks (h b)"
    by simp_all
qed

lemma final_ok_nofin:
  assumes "nofin h' = nofin h"
  shows "final_ok h' b f = final_ok h b f"
  by (simp add: final_ok_def deps_def nofin_fields [OF assms])

lemma setFinalcBlock_all:
  assumes "distinct bs"
    and "\<forall>b \<in> set bs. cb_processed (h b) \<longrightarrow> cb_finalcBlock (h b) = b \<and> (\<exists>d. final_ok h b d)"
  shows "\<exists>h'. foldM setFinalcBlock bs h = Some h' \<and> nofin h' = nofin h \<and>
           (\<forall>b \<in> set bs. cb_processed (h b) \<longrightarrow> final_ok h b (cb_finalcBlock (h' b))) \<and>
           (\<forall>b. b \<notin> set bs \<or> \<not> cb_processed (h b) \<longrightarrow> cb_finalcBlock (h' b) = cb_finalcBlock (h b))"
  using assms
proof (induction bs arbitrary: h)
  case Nil
  then show ?case by simp
next
  case (Cons x bs)
  have "\<exists>h1. setFinalcBlock x h = Some h1 \<and> nofin h1 = nofin h \<and>
          (\<forall>b. b \<noteq> x \<longrightarrow> h1 b = h b) \<and> (cb_processed (h x) \<longrightarrow> final_ok h x (cb_finalcBlock (h1 x))) \<and>
          (\<not> cb_processed (h x) \<longrightarrow> h1 = h)"
  proof (cases "cb_processed (h x)")
    case True
    with Cons.prems(2) obtain d where "cb_finalcBlock (h x) = x" "final_ok h x d" by auto
    from setFinalcBlock_processed [OF True this] obtain f where
      "final_ok h x f" "setFinalcBlock x h = Some (upd x (\<lambda>b. b\<lparr>cb_finalcBlock := f\<rparr>) h)" by blast
    with True show ?thesis by (auto simp: upd_def nofin_def)
  next
    case False
    then show ?thesis by (simp add: setFinalcBlock_def)
  qed
  then obtain h1 where h1: "setFinalcBlock x h = Some h1" "nofin h1 = nofin h"
    "\<forall>b. b \<noteq> x \<longrightarrow> h1 b = h b" "cb_processed (h x) \<longrightarrow> final_ok h x (cb_finalcBlock (h1 x))"
    "\<not> cb_processed (h x) \<longrightarrow> h1 = h" by blast
  have bs: "distinct bs" "x \<notin> set bs" using Cons.prems(1) by auto
  have pre: "\<forall>b \<in> set bs. cb_processed (h1 b) \<longrightarrow> cb_finalcBlock (h1 b) = b \<and> (\<exists>d. final_ok h1 b d)"
  proof
    fix b assume b: "b \<in> set bs"
    with bs(2) have "h1 b = h b" using h1(3) by metis
    then show "cb_processed (h1 b) \<longrightarrow> cb_finalcBlock (h1 b) = b \<and> (\<exists>d. final_ok h1 b d)"
      using Cons.prems(2) b by (simp add: final_ok_nofin [OF h1(2)])
  qed
  from Cons.IH [OF bs(1) pre] obtain h' where h': "foldM setFinalcBlock bs h1 = Some h'"
    "nofin h' = nofin h1"
    "\<forall>b \<in> set bs. cb_processed (h1 b) \<longrightarrow> final_ok h1 b (cb_finalcBlock (h' b))"
    "\<forall>b. b \<notin> set bs \<or> \<not> cb_processed (h1 b) \<longrightarrow> cb_finalcBlock (h' b) = cb_finalcBlock (h1 b)"
    by blast
  have p: "cb_processed (h1 b) = cb_processed (h b)" for b by (rule nofin_fields(2) [OF h1(2)])
  have "\<forall>b \<in> set (x # bs). cb_processed (h b) \<longrightarrow> final_ok h b (cb_finalcBlock (h' b))"
  proof
    fix b assume "b \<in> set (x # bs)"
    then consider "b = x" | "b \<in> set bs" by auto
    then show "cb_processed (h b) \<longrightarrow> final_ok h b (cb_finalcBlock (h' b))"
    proof cases
      case 1
      with h'(4) bs(2) h1(4) show ?thesis by simp
    next
      case 2
      with h'(3) p show ?thesis by (simp add: final_ok_nofin [OF h1(2)])
    qed
  qed
  moreover have "\<forall>b. b \<notin> set (x # bs) \<or> \<not> cb_processed (h b) \<longrightarrow>
      cb_finalcBlock (h' b) = cb_finalcBlock (h b)"
    using h'(4) p h1(3,5) by (metis list.set_intros(1,2))
  ultimately show ?case using h1(1,2) h'(1,2) by auto
qed

section \<open>Redirecting the definitions\<close>

lemma finalize_set_total:
  assumes "\<forall>c \<in> set s. \<not> cb_processed (h (cb_finalcBlock (h c)))"
  shows "\<exists>t. finalize_set h s = Some t \<and> set t = (\<lambda>c. cb_finalcBlock (h c)) ` set s"
proof -
  let ?f = "\<lambda>c new_set. let f = cb_finalcBlock (h c) in
              if cb_processed (h f) then None else Some (sset_insert f new_set)"
  have "\<exists>t. foldM ?f s acc = Some t \<and> set t = (\<lambda>c. cb_finalcBlock (h c)) ` set s \<union> set acc" for acc
    using assms
  proof (induction s arbitrary: acc)
    case Nil
    then show ?case by simp
  next
    case (Cons c s)
    have "\<forall>c \<in> set s. \<not> cb_processed (h (cb_finalcBlock (h c)))" using Cons.prems by simp
    from Cons.IH [OF this, of "sset_insert (cb_finalcBlock (h c)) acc"] Cons.prems
    show ?case by (auto simp: Let_def)
  qed
  from this [of "[]"] show ?thesis by (simp add: finalize_set_def)
qed

lemma finalize_map_total:
  assumes "map_in S m" "\<forall>c \<in> S. \<not> cb_processed (h (cb_finalcBlock (h c))) \<and> cb_finalcBlock (h c) \<in> S"
  shows "\<exists>m'. finalize_map h m = Some m' \<and> map_in S m' \<and> map fst m' = map fst m"
  using assms(1)
proof (induction m)
  case Nil
  then show ?case by simp
next
  case (Cons p m)
  obtain v s where p: "p = (v, s)" by (cases p)
  with Cons.prems have s: "set s \<subseteq> S" and m: "map_in S m" by simp_all
  then have "\<forall>c \<in> set s. \<not> cb_processed (h (cb_finalcBlock (h c)))" using assms(2) by blast
  from finalize_set_total [OF this] obtain t where
    t: "finalize_set h s = Some t" "set t = (\<lambda>c. cb_finalcBlock (h c)) ` set s" by blast
  from Cons.IH [OF m] obtain m' where "finalize_map h m = Some m'" "map_in S m'" "map fst m' = map fst m"
    by blast
  with t s p assms(2) show ?case by auto
qed

definition same_final :: "heap \<Rightarrow> heap \<Rightarrow> bool" where
  "same_final h h' \<longleftrightarrow>
     (\<forall>b. cb_processed (h' b) = cb_processed (h b) \<and> cb_finalcBlock (h' b) = cb_finalcBlock (h b) \<and>
          cb_cond_blocks (h' b) = cb_cond_blocks (h b) \<and> cb_index (h' b) = cb_index (h b))"

lemma add_cond_sets_keeps:
  assumes "heap_in S h" "\<forall>c \<in> set (cb_cond_blocks (h this)). map_in S (cd_def_stmts (C c))"
  shows "same_final h (add_cond_sets C this h) \<and> heap_in S (add_cond_sets C this h)"
proof -
  let ?I = "\<lambda>g. same_final h g \<and> heap_in S g"
  show ?thesis
    unfolding add_cond_sets_def
  proof (rule fold_invariant [where I = ?I])
    show "?I h" using assms(1) by (simp add: same_final_def)
  next
    fix c g assume "c \<in> set (cb_cond_blocks (h this))" "?I g"
    with assms(2) show "?I (upd this (\<lambda>b. b\<lparr>cb_def_stmts := addMaps (cb_def_stmts b) (cd_def_stmts (C c)),
                                   cb_uses := addSets (cb_uses b) (cd_uses (C c))\<rparr>) g)"
      by (auto simp: same_final_def upd_def heap_in_def map_in_addMaps)
  qed
qed

lemma finalizeDefs_total:
  assumes "heap_in S h" "\<forall>c \<in> set (cb_cond_blocks (h this)). map_in S (cd_def_stmts (C c))"
    and "\<forall>c \<in> S. \<not> cb_processed (h (cb_finalcBlock (h c))) \<and> cb_finalcBlock (h c) \<in> S"
  shows "\<exists>h'. finalizeDefs C this h = Some h' \<and> same_final h h' \<and> heap_in S h'"
proof -
  let ?h1 = "add_cond_sets C this h"
  have k: "same_final h ?h1" "heap_in S ?h1" using add_cond_sets_keeps [OF assms(1,2)] by auto
  have "\<forall>c \<in> S. \<not> cb_processed (?h1 (cb_finalcBlock (?h1 c))) \<and> cb_finalcBlock (?h1 c) \<in> S"
    using k(1) assms(3) by (simp add: same_final_def)
  from finalize_map_total [OF heap_in_get [OF k(2)] this, of this] obtain m where
    "finalize_map ?h1 (cb_def_stmts (?h1 this)) = Some m" "map_in S m" by blast
  with k show ?thesis
    by (cases "cb_processed (h this)")
       (auto simp: finalizeDefs_def Let_def same_final_def heap_in_def upd_def)
qed

end
