(* ===== verification/Quro_Prepare.thy ===== *)
theory Quro_Prepare
  imports Quro_Group
begin

text \<open>
  The phase as a whole: what \<open>setDepBlocks\<close> links, what \<open>propagateDep\<close> closes, and that the
  five loops at the head of \<open>reorderCode\<close> run to the end and leave every block either alive
  or merged into one live block of its group.
\<close>

text \<open>The conditions of a block are listed from the innermost one outwards, so blocks that share one have the same
  outermost one.\<close>

definition conds_nested :: "bid list \<Rightarrow> heap \<Rightarrow> bool" where
  "conds_nested bs h \<longleftrightarrow>
     (\<forall>a \<in> set bs. \<forall>b \<in> set bs. set (cb_cond_blocks (h a)) \<inter> set (cb_cond_blocks (h b)) \<noteq> {} \<longrightarrow>
        last (cb_cond_blocks (h a)) = last (cb_cond_blocks (h b)))"

definition wf_blocks :: "cheap \<Rightarrow> bid list \<Rightarrow> heap \<Rightarrow> bool" where
  "wf_blocks C bs h \<longleftrightarrow>
     distinct bs \<and> (\<forall>p < length bs. cb_index (h (bs ! p)) = p) \<and> conds_nested bs h \<and>
     (\<forall>b \<in> set bs. \<not> cb_processed (h b) \<and> cb_finalcBlock (h b) = b) \<and>
     (\<forall>b. deps h b = {}) \<and> heap_in (set bs) h \<and>
     (\<forall>b \<in> set bs. \<forall>c \<in> set (cb_cond_blocks (h b)). map_in (set bs) (cd_def_stmts (C c)))"

text \<open>Two blocks are in the same group when links join them.\<close>

definition linked_pair :: "cheap \<Rightarrow> bid list \<Rightarrow> heap \<Rightarrow> (bid \<times> bid) set" where
  "linked_pair C bs h =
     {(a, b). (a \<in> set bs \<and> dep_cause C bs h a b) \<or> (b \<in> set bs \<and> dep_cause C bs h b a)}"

lemma sym_linked_pair: "sym (linked_pair C bs h)"
  by (auto simp: linked_pair_def sym_def)

lemma dep_cause_in: "dep_cause C bs h a b \<Longrightarrow> b \<in> set bs"
  by (auto simp: dep_cause_def in_cond_def dest: in_set_dropD)

lemma linked_pair_in: "(a, b) \<in> linked_pair C bs h \<Longrightarrow> a \<in> set bs \<and> b \<in> set bs"
  by (auto simp: linked_pair_def dest: dep_cause_in)

lemma wf_idx: "wf_blocks C bs h \<Longrightarrow> idx_ok bs h"
  by (simp add: wf_blocks_def idx_ok_def)

lemma dep_cause_shares: "dep_cause C bs h a b \<Longrightarrow> set (cb_cond_blocks (h a)) \<inter> set (cb_cond_blocks (h b)) \<noteq> {}"
  by (auto simp: dep_cause_def data_cause_def in_cond_def)

text \<open>The blocks of a group have the same outermost condition.\<close>

lemma group_outermost:
  assumes "(a, b) \<in> (linked_pair C bs h)\<^sup>+" "conds_nested bs h"
  shows "cb_cond_blocks (h a) \<noteq> [] \<and> cb_cond_blocks (h b) \<noteq> [] \<and> last (cb_cond_blocks (h a)) = last (cb_cond_blocks (h b))"
proof -
  have one: "cb_cond_blocks (h a) \<noteq> [] \<and> cb_cond_blocks (h b) \<noteq> [] \<and> last (cb_cond_blocks (h a)) = last (cb_cond_blocks (h b))"
    if "(a, b) \<in> linked_pair C bs h" for a b
  proof -
    have "set (cb_cond_blocks (h a)) \<inter> set (cb_cond_blocks (h b)) \<noteq> {}"
      using that dep_cause_shares [of C bs h a b] dep_cause_shares [of C bs h b a] by (auto simp: linked_pair_def)
    with linked_pair_in [OF that] assms(2) show ?thesis by (auto simp: conds_nested_def)
  qed
  from assms(1) show ?thesis by (induction rule: trancl_induct) (use one in \<open>fastforce+\<close>)
qed

lemma linked_pair_rel:
  "\<forall>b. deps h b = {} \<Longrightarrow> dep_rel (setAllDepBlocks C bs h) = linked_pair C bs h"
  using setAllDepBlocks_deps [of C bs h] by (auto simp: dep_rel_def linked_pair_def)

lemma heap_in_nodep: "nodep h' = nodep h \<Longrightarrow> heap_in S h' = heap_in S h"
  unfolding heap_in_def by (metis nodep_fields(4))

lemma idx_ok_nodep: "nodep h' = nodep h \<Longrightarrow> idx_ok bs h' = idx_ok bs h"
  unfolding idx_ok_def by (metis nodep_fields(6))

lemma generate_all:
  assumes "idx_ok bs h" "conds_bound M bs h" "Suc M * Suc (length bs) \<le> fuel" "heap_in S h"
  shows "\<exists>h'. foldM (setInsertCode fuel C bs) bs h = Some h' \<and> gen_rel (set bs) h h' \<and> heap_in S h' \<and>
    (\<forall>x \<in> set bs. cb_cond_blocks (h x) \<noteq> [] \<longrightarrow> takes_over bs x (last (cb_cond_blocks (h x))) h h')"
proof -
  let ?I = "\<lambda>g. gen_rel (set bs) h g \<and> heap_in S g" and ?le = "gen_rel (set bs)"
  let ?Q = "\<lambda>x g. cb_cond_blocks (h x) \<noteq> [] \<longrightarrow> takes_over bs x (last (cb_cond_blocks (h x))) h g"
  have "\<exists>h'. foldM (setInsertCode fuel C bs) bs h = Some h' \<and> ?I h' \<and> ?le h h' \<and> (\<forall>x \<in> set bs. ?Q x h')"
proof (rule foldM_marks)
  show "?I h" using assms(4) by simp
next
  fix x g assume x: "x \<in> set bs" and g: "gen_rel (set bs) h g \<and> heap_in S g"
  let ?g1 = "upd x (\<lambda>b. b\<lparr>cb_pre_label := cb_label b\<rparr>) g"
  have "gen_rel (set bs) g ?g1" by (rule gen_rel_same) simp_all
  then have g1: "gen_rel (set bs) h ?g1" using g gen_rel_trans by blast
  have in1: "heap_in S ?g1" using g by (simp add: heap_in_same)
  have i: "length (cb_cond_blocks (g x)) \<le> M"
    using assms(2) x g by (simp add: conds_bound_def gen_rel_def)
  have cb: "conds_bound M bs ?g1" using assms(2) g1 by (simp add: conds_bound_def gen_rel_def)
  have "gen_fuel M bs ?g1 x (length (cb_cond_blocks (g x))) \<le> Suc M * Suc (length bs)"
    using i by (simp add: gen_fuel_def) (simp add: diff_le_self le_SucI add_mono mult_le_mono2)
  then have fuel: "gen_fuel M bs ?g1 x (length (cb_cond_blocks (g x))) \<le> fuel"
    using assms(3) by linarith
  have idx: "idx_ok bs ?g1" using gen_rel_idx [OF g1] assms(1) by simp
  from recursiveGenerate_total [OF idx cb x i fuel in1] obtain s h2 where
    h2: "recursiveGenerate fuel C bs x (length (cb_cond_blocks (g x))) ?g1 = Some (s, h2)"
      "gen_rel (set bs) ?g1 h2" "heap_in S h2"
      "0 < length (cb_cond_blocks (g x)) \<longrightarrow>
         takes_over bs x (cb_cond_blocks (?g1 x) ! (length (cb_cond_blocks (g x)) - 1)) ?g1 h2" by blast
  have "gen_rel (set bs) h2 (upd x (\<lambda>b. b\<lparr>cb_insert_code := t\<rparr>) h2)" for t
    by (rule gen_rel_same) simp_all
  then have all: "gen_rel (set bs) h (upd x (\<lambda>b. b\<lparr>cb_insert_code := t\<rparr>) h2)" for t
    using gen_rel_trans [OF gen_rel_trans [OF g1 h2(2)]] by blast
  have in2: "heap_in S (upd x (\<lambda>b. b\<lparr>cb_insert_code := t\<rparr>) h2)" for t
    using h2(3) by (simp add: heap_in_same)
  obtain t where "setInsertCode fuel C bs x g = Some (upd x (\<lambda>b. b\<lparr>cb_insert_code := t\<rparr>) h2)"
    using h2(1) by (simp add: setInsertCode_def getBlockStr_def)
  moreover have "?le g (upd x (\<lambda>b. b\<lparr>cb_insert_code := t\<rparr>) h2)"
    using gen_rel_trans [OF gen_rel_trans [OF \<open>gen_rel (set bs) g ?g1\<close> h2(2)] \<open>gen_rel (set bs) h2 _\<close>] .
  moreover have "?Q x (upd x (\<lambda>b. b\<lparr>cb_insert_code := t\<rparr>) h2)"
  proof
    assume ne: "cb_cond_blocks (h x) \<noteq> []"
    have same: "cb_cond_blocks (?g1 j) = cb_cond_blocks (h j)" "deps ?g1 j = deps h j" "cb_index (?g1 j) = cb_index (h j)"
      "cb_cond_blocks (g j) = cb_cond_blocks (h j)" for j
      using g1 g by (simp_all add: gen_rel_def deps_def)
    from h2(4) ne have "takes_over bs x (last (cb_cond_blocks (h x))) ?g1 h2" by (simp add: same last_conv_nth)
    then show "takes_over bs x (last (cb_cond_blocks (h x))) h (upd x (\<lambda>b. b\<lparr>cb_insert_code := t\<rparr>) h2)"
      unfolding takes_over_def same by (auto simp: upd_def)
  qed
  ultimately show "\<exists>s'. setInsertCode fuel C bs x g = Some s' \<and> ?I s' \<and> ?le g s' \<and> ?Q x s'"
    using all in2 by blast
qed (auto intro: gen_rel_trans simp: takes_over_def dest: gen_rel_processed)
  then show ?thesis by blast
qed

text \<open>Every processed block has a live block of smaller index among its links.\<close>

lemma live_root:
  assumes rel: "gen_rel B h h'" and fresh: "\<And>b. b \<in> B \<Longrightarrow> \<not> cb_processed (h b)"
    and closed: "\<And>b. b \<in> B \<Longrightarrow> deps h b - {b} = R `` {b} - {b}"
    and eq: "sym R" "trans R" and dom: "R \<subseteq> B \<times> B"
    and b: "b \<in> B" "cb_processed (h' b)"
  shows "\<exists>d. final_ok h' b d"
  using b
proof (induction "cb_index (h b)" arbitrary: b rule: less_induct)
  case less
  have "\<forall>j. cb_processed (h' j) \<and> \<not> cb_processed (h j) \<longrightarrow>
          (\<exists>a \<in> B. j \<in> deps h a \<and> cb_index (h a) < cb_index (h j))"
    using rel by (simp add: gen_rel_def)
  with less.prems fresh [OF less.prems(1)]
  obtain a where a: "a \<in> B" "b \<in> deps h a" "cb_index (h a) < cb_index (h b)" by blast
  then have "(a, b) \<in> R" using closed [of a] by blast
  then have ba: "(b, a) \<in> R" using eq(1) by (meson symD)
  have keep: "cb_index (h' x) = cb_index (h x)" "deps h' x = deps h x" for x
    using rel by (simp_all add: gen_rel_def deps_def)
  have ok: "final_ok h' b x"
    if "(b, x) \<in> R" "cb_index (h x) < cb_index (h b)" "\<not> cb_processed (h' x)" for x
    using that closed [OF less.prems(1)] keep by (auto simp: final_ok_def)
  show ?case
  proof (cases "cb_processed (h' a)")
    case False
    with ok [OF ba] a(3) show ?thesis by blast
  next
    case True
    from less.hyps [OF a(3) a(1) True] obtain d where d: "final_ok h' a d" by blast
    then have "d \<in> deps h a" "cb_index (h d) < cb_index (h a)" "\<not> cb_processed (h' d)"
      using keep by (auto simp: final_ok_def)
    moreover from this have "(a, d) \<in> R" using closed [OF a(1)] by auto
    ultimately show ?thesis using ok [of d] transD [OF eq(2) ba] a(3) by (meson less_trans)
  qed
qed

lemma wf_deps_in:
  assumes "wf_blocks C bs h" "b \<in> set bs"
  shows "deps (setAllDepBlocks C bs h) b \<subseteq> set bs"
proof -
  have "dep_rel (setAllDepBlocks C bs h) = linked_pair C bs h"
    using assms(1) by (intro linked_pair_rel) (simp add: wf_blocks_def)
  then show ?thesis using linked_pair_in by (fastforce simp: dep_rel_def)
qed

lemma closed_groups:
  assumes wf: "wf_blocks C bs h"
  shows "\<exists>h2. propagateAll bs (setAllDepBlocks C bs h) = Some h2 \<and> nodep h2 = nodep h \<and>
           (\<forall>b \<in> set bs. deps h2 b - {b} = (linked_pair C bs h)\<^sup>+ `` {b} - {b} \<and> deps h2 b \<subseteq> set bs)"
proof -
  let ?h1 = "setAllDepBlocks C bs h"
  have "\<forall>b \<in> set bs. deps ?h1 b \<subseteq> set bs" using wf_deps_in [OF wf] by blast
  from propagateAll_result [OF _ this, of bs] obtain h2 where
    "propagateAll bs ?h1 = Some h2" "nodep h2 = nodep ?h1"
    "\<forall>b \<in> set bs. deps h2 b \<subseteq> set bs"
    "\<forall>b \<in> set bs. deps h2 b - {b} = (dep_rel ?h1)\<^sup>+ `` {b} - {b}" by auto
  moreover have "dep_rel ?h1 = linked_pair C bs h"
    using wf by (intro linked_pair_rel) (simp add: wf_blocks_def)
  moreover have "nodep ?h1 = nodep h" using setAllDepBlocks_deps by blast
  ultimately show ?thesis by auto
qed

text \<open>The state after the fourth loop: every definition points to a live block.\<close>

definition merged_ok :: "(bid \<times> bid) set \<Rightarrow> bid list \<Rightarrow> heap \<Rightarrow> bool" where
  "merged_ok R bs h \<longleftrightarrow>
     (\<forall>b \<in> set bs. let f = cb_finalcBlock (h b) in
        f \<in> set bs \<and> \<not> cb_processed (h f) \<and>
        (if cb_processed (h b) then cb_index (h f) < cb_index (h b) \<and> (b, f) \<in> R else f = b))"

text \<open>All blocks of a group have the same representative.\<close>

definition one_per_group :: "(bid \<times> bid) set \<Rightarrow> bid list \<Rightarrow> heap \<Rightarrow> bool" where
  "one_per_group R bs h \<longleftrightarrow> (\<forall>a \<in> set bs. \<forall>b \<in> set bs. (a, b) \<in> R \<longrightarrow> cb_finalcBlock (h a) = cb_finalcBlock (h b))"

lemma one_live_one_final:
  assumes m: "merged_ok R bs h" and R: "sym R" "trans R"
    and live: "\<And>a b. (a, b) \<in> R \<Longrightarrow> \<not> cb_processed (h a) \<Longrightarrow> \<not> cb_processed (h b) \<Longrightarrow> a = b"
  shows "one_per_group R bs h"
  unfolding one_per_group_def
proof (intro ballI impI)
  fix a b assume a: "a \<in> set bs" and b: "b \<in> set bs" and ab: "(a, b) \<in> R"
  let ?f = "\<lambda>x. cb_finalcBlock (h x)"
  have f: "\<not> cb_processed (h (?f x))" "?f x = x \<or> (x, ?f x) \<in> R" if "x \<in> set bs" for x
    using m that by (auto simp: merged_ok_def Let_def split: if_splits)
  have "(?f a, b) \<in> R" using f(2) [OF a] ab R by (metis symD transD)
  then have "(?f a, ?f b) \<in> R" using f(2) [OF b] R by (metis transD)
  then show "?f a = ?f b" using live f(1) a b by blast
qed

lemma prepare_result:
  assumes wf: "wf_blocks C bs h" and M: "conds_bound M bs h"
    and fuel: "Suc M * Suc (length bs) \<le> fuel"
  shows "\<exists>h'. prepare fuel C bs h = Some h' \<and> merged_ok ((linked_pair C bs h)\<^sup>+) bs h' \<and>
           one_per_group ((linked_pair C bs h)\<^sup>+) bs h' \<and> (\<forall>b. cb_index (h' b) = cb_index (h b)) \<and> heap_in (set bs) h'"
proof -
  let ?R = "(linked_pair C bs h)\<^sup>+"
  from closed_groups [OF wf] obtain h2 where
    h2: "propagateAll bs (setAllDepBlocks C bs h) = Some h2" "nodep h2 = nodep h" and
    closed: "\<forall>b \<in> set bs. deps h2 b - {b} = ?R `` {b} - {b} \<and> deps h2 b \<subseteq> set bs" by blast
  note nf = nodep_fields [OF h2(2)]
  have idx2: "idx_ok bs h2" and in2: "heap_in (set bs) h2"
    using wf wf_idx [OF wf] idx_ok_nodep [OF h2(2)] heap_in_nodep [OF h2(2)] by (simp_all add: wf_blocks_def)
  have cb2: "conds_bound M bs h2" using M by (simp add: conds_bound_def nf)
  from generate_all [OF idx2 cb2 fuel in2] obtain h3 where
    h3: "foldM (setInsertCode fuel C bs) bs h2 = Some h3" "gen_rel (set bs) h2 h3"
      "heap_in (set bs) h3"
      "\<forall>x \<in> set bs. cb_cond_blocks (h2 x) \<noteq> [] \<longrightarrow> takes_over bs x (last (cb_cond_blocks (h2 x))) h2 h3" by blast
  have fresh: "\<And>b. b \<in> set bs \<Longrightarrow> \<not> cb_processed (h2 b)" using wf by (simp add: wf_blocks_def nf)
  have fin3: "\<And>b. b \<in> set bs \<Longrightarrow> cb_finalcBlock (h3 b) = b"
    using wf h3(2) by (simp add: wf_blocks_def nf gen_rel_def)
  have dom: "?R \<subseteq> set bs \<times> set bs"
    using linked_pair_in by (intro trancl_subset_Sigma) auto
  have root: "\<exists>d. final_ok h3 b d" if "b \<in> set bs" "cb_processed (h3 b)" for b
    by (rule live_root [OF h3(2) fresh _ _ _ dom that])
       (use closed sym_linked_pair in \<open>auto intro: sym_trancl\<close>)
  have d: "distinct bs" using wf by (simp add: wf_blocks_def)
  have pre: "\<forall>b \<in> set bs. cb_processed (h3 b) \<longrightarrow> cb_finalcBlock (h3 b) = b \<and> (\<exists>d. final_ok h3 b d)"
    using fin3 root by blast
  from setFinalcBlock_all [OF d pre] obtain h4 where
    h4: "foldM setFinalcBlock bs h3 = Some h4" "nofin h4 = nofin h3"
      "\<forall>b \<in> set bs. cb_processed (h3 b) \<longrightarrow> final_ok h3 b (cb_finalcBlock (h4 b))"
      "\<forall>b. b \<notin> set bs \<or> \<not> cb_processed (h3 b) \<longrightarrow> cb_finalcBlock (h4 b) = cb_finalcBlock (h3 b)"
    by blast
  note ff = nofin_fields [OF h4(2)]
  have m4: "merged_ok ?R bs h4"
    unfolding merged_ok_def Let_def
  proof
    fix b assume b: "b \<in> set bs"
    show "cb_finalcBlock (h4 b) \<in> set bs \<and> \<not> cb_processed (h4 (cb_finalcBlock (h4 b))) \<and>
      (if cb_processed (h4 b)
       then cb_index (h4 (cb_finalcBlock (h4 b))) < cb_index (h4 b) \<and> (b, cb_finalcBlock (h4 b)) \<in> ?R
       else cb_finalcBlock (h4 b) = b)"
    proof (cases "cb_processed (h3 b)")
      case False
      with h4(4) fin3 b show ?thesis by (simp add: ff)
    next
      case True
      let ?f = "cb_finalcBlock (h4 b)"
      from True h4(3) b have ok: "final_ok h3 b ?f" by blast
      then have "?f \<in> deps h2 b" "?f \<noteq> b" using h3(2) by (auto simp: final_ok_def gen_rel_def deps_def)
      with closed b have "?f \<in> set bs" "(b, ?f) \<in> ?R" by blast+
      with ok True show ?thesis by (simp add: final_ok_def ff)
    qed
  qed
  have in4: "heap_in (set bs) h4" using h3(3) by (simp add: heap_in_def ff)
  have good: "\<forall>c \<in> set bs. \<not> cb_processed (h4 (cb_finalcBlock (h4 c))) \<and> cb_finalcBlock (h4 c) \<in> set bs"
    using m4 by (auto simp: merged_ok_def Let_def)
  have conds4: "cb_cond_blocks (h4 b) = cb_cond_blocks (h b)" for b
    using h3(2) by (simp add: ff gen_rel_def nf)
  have "\<exists>h5. foldM (finalizeDefs C) bs h4 = Some h5 \<and> same_final h4 h5 \<and> heap_in (set bs) h5"
  proof (rule foldM_invariant)
    show "same_final h4 h4 \<and> heap_in (set bs) h4" using in4 by (simp add: same_final_def)
  next
    fix x g assume x: "x \<in> set bs" and g: "same_final h4 g \<and> heap_in (set bs) g"
    have "\<forall>c \<in> set (cb_cond_blocks (g x)). map_in (set bs) (cd_def_stmts (C c))"
      using wf x g conds4 by (simp add: wf_blocks_def same_final_def)
    moreover have "\<forall>c \<in> set bs. \<not> cb_processed (g (cb_finalcBlock (g c))) \<and> cb_finalcBlock (g c) \<in> set bs"
      using g good by (simp add: same_final_def)
    ultimately obtain h' where "finalizeDefs C x g = Some h'" "same_final g h'" "heap_in (set bs) h'"
      using finalizeDefs_total g by blast
    with g show "\<exists>s'. finalizeDefs C x g = Some s' \<and> same_final h4 s' \<and> heap_in (set bs) s'"
      by (auto simp: same_final_def)
  qed
  then obtain h5 where h5: "foldM (finalizeDefs C) bs h4 = Some h5" "same_final h4 h5"
    "heap_in (set bs) h5" by blast
  have m5: "merged_ok ?R bs h5" using m4 h5(2) by (simp add: merged_ok_def Let_def same_final_def)
  have later: "cb_processed (h5 b)" if ab: "(a, b) \<in> ?R" "cb_index (h a) < cb_index (h b)" for a b
  proof -
    from ab(1) dom have abs: "a \<in> set bs" "b \<in> set bs" by auto
    then obtain p q where pq: "p < length bs" "a = bs ! p" "q < length bs" "b = bs ! q" by (metis in_set_conv_nth)
    with wf ab(2) have "p < q" "cb_index (h2 a) = p" by (auto simp: wf_blocks_def nf)
    with pq have "b \<in> set (drop (cb_index (h2 a) + 1) bs)"
      by (auto simp: in_set_conv_nth intro!: exI [of _ "q - (p + 1)"])
    moreover have "b \<in> deps h2 a" using closed abs(1) ab by auto
    moreover have nest: "conds_nested bs h" using wf by (simp add: wf_blocks_def)
    have "cb_cond_blocks (h2 a) \<noteq> []" "last (cb_cond_blocks (h2 a)) \<in> set (cb_cond_blocks (h2 b))"
      using group_outermost [OF ab(1) nest] last_in_set [of "cb_cond_blocks (h b)"] by (simp_all add: nf)
    ultimately have "cb_processed (h3 b)" using h3(4) abs(1) by (auto simp: takes_over_def)
    then show ?thesis using h5(2) by (simp add: ff same_final_def)
  qed
  have "one_per_group ?R bs h5"
  proof (rule one_live_one_final [OF m5])
    show "sym ?R" "trans ?R" using sym_linked_pair by (auto intro: sym_trancl)
    fix a b assume ab: "(a, b) \<in> ?R" "\<not> cb_processed (h5 a)" "\<not> cb_processed (h5 b)"
    have ba: "(b, a) \<in> ?R" using ab(1) sym_trancl [OF sym_linked_pair] by (rule symD [rotated])
    have "cb_index (h a) = cb_index (h b)" using later [OF ab(1)] later [OF ba] ab(2,3) by (meson linorder_neqE_nat)
    moreover from ab(1) dom have "a \<in> set bs" "b \<in> set bs" by auto
    then obtain p q where "p < length bs" "a = bs ! p" "q < length bs" "b = bs ! q" by (metis in_set_conv_nth)
    ultimately show "a = b" using wf by (auto simp: wf_blocks_def)
  qed
  note one = this
  have "prepare fuel C bs h = Some h5"
    using h2(1) h3(1) h4(1) h5(1) by (simp add: prepare_def)
  moreover have "cb_index (h5 b) = cb_index (h b)" for b using h5(2) h3(2) by (simp add: same_final_def ff gen_rel_def nf)
  ultimately show ?thesis using h5(3) m5 one by blast
qed

section \<open>Properties\<close>

text \<open>\<open>setDepBlocks\<close> on every block changes nothing but the dependency sets, and links two
  blocks exactly when one of them has cause to: it defines a variable of a condition that
  encloses both, or the other is later in a loop that encloses both and one of them reads
  what the other defines, or an inner condition of the later one does.  In particular the
  new links are symmetric.\<close>

theorem setDepBlocks_links_exactly:
  "nodep (setAllDepBlocks C code_blocks h) = nodep h \<and>
   (b \<in> deps (setAllDepBlocks C code_blocks h) a \<longleftrightarrow>
      b \<in> deps h a \<or> (a, b) \<in> linked_pair C code_blocks h) \<and>
   sym (linked_pair C code_blocks h)"
  using setAllDepBlocks_deps [of C code_blocks h] sym_linked_pair
  by (auto simp: linked_pair_def)

text \<open>C26: on a heap whose links stay within a finite set of blocks, \<open>propagateDep\<close> terminates,
  changes the set of \<open>this\<close> only, and makes it the blocks that links reach (\<open>this\<close> itself
  only if it was linked to itself before).\<close>

theorem propagateDep_closes:
  assumes "finite S" "this \<in> S" "\<forall>b \<in> S. deps h b \<subseteq> S"
  shows "\<exists>h'. propagateDep this h = Some h' \<and> others_same this h h' \<and>
           deps h' this - {this} = (dep_rel h)\<^sup>+ `` {this} - {this} \<and>
           (this \<in> deps h' this \<longleftrightarrow> this \<in> deps h this)"
proof -
  from propagateDep_total [OF assms] obtain h' where h': "propagateDep this h = Some h'" by blast
  show ?thesis
    by (intro exI [of _ h'] conjI h' propagateDep_result [OF h'])
qed

definition ex_chain :: heap where
  "ex_chain = (\<lambda>b. (new_codeBlock NONQUERY b)
     \<lparr>cb_dep_blocks := (if b = 1 then [2] else if b = 2 then [1, 3] else if b = 3 then [2] else [])\<rparr>)"

lemma propagateDep_closes_witness:
  "\<exists>h'. propagateDep 1 ex_chain = Some h' \<and> others_same 1 ex_chain h' \<and>
        deps h' 1 - {1} = (dep_rel ex_chain)\<^sup>+ `` {1} - {1} \<and>
        (1 \<in> deps h' 1 \<longleftrightarrow> 1 \<in> deps ex_chain 1)"
  by (rule propagateDep_closes [where S = "{1, 2, 3}"]) (auto simp: ex_chain_def deps_def)

text \<open>C20: started on fresh blocks, numbered by their positions and with properly nested conditions, the five loops that
  open \<open>reorderCode\<close> (link, close, generate, \<open>setFinalcBlock\<close>, \<open>finalizeDefs\<close>) all end, no assertion fails and no empty
  queue is read; afterwards the blocks of a group, those joined by links, have exactly one representative as their
  \<open>finalcBlock\<close>: it is the block of the group that is not processed, and the one of smallest index; every
  definition still names one of the blocks.\<close>

theorem prepare_merges_groups:
  assumes "wf_blocks C code_blocks h" and "conds_bound M code_blocks h"
    and "Suc M * Suc (length code_blocks) \<le> fuel"
  shows "\<exists>h'. prepare fuel C code_blocks h = Some h' \<and>
           merged_ok ((linked_pair C code_blocks h)\<^sup>+) code_blocks h' \<and>
           one_per_group ((linked_pair C code_blocks h)\<^sup>+) code_blocks h' \<and> (\<forall>b. cb_index (h' b) = cb_index (h b)) \<and>
           heap_in (set code_blocks) h'"
  by (rule prepare_result [OF assms])

definition ex_conds :: cheap where
  "ex_conds = (\<lambda>c. \<lparr>cd_begin = Some 1, cd_end = Some 9, cd_cond_begin = None, cd_cond_end = None,
     cd_type = WHILE, cd_cond_str = ''more'', cd_init_str = [], cd_inc_str = [], cd_uses = [7],
     cd_def_stmts = [(7, [1])], cd_stmt_list = [], cd_matched = None\<rparr>)"

text \<open>\<open>while (more) { x = 0; more = next(x); } done();\<close>\<close>

definition ex_blocks :: heap where
  "ex_blocks = (\<lambda>b. (new_codeBlock NONQUERY b)
     \<lparr>cb_index := b,
      cb_cond_blocks := (if b < 2 then [0] else []),
      cb_defs := (if b = 0 then [8] else if b = 1 then [7] else []),
      cb_uses := (if b = 1 then [8] else []),
      cb_def_stmts := (if b = 1 then [(8, [0])] else [])\<rparr>)"

lemma ex_blocks_wf: "wf_blocks ex_conds [0, 1, 2] ex_blocks"
proof -
  have "cb_index (ex_blocks ([0, 1, 2] ! p)) = p" if "p < 3" for p
  proof -
    from that consider "p = 0" | "p = 1" | "p = 2" by linarith
    then show ?thesis by cases (simp_all add: ex_blocks_def)
  qed
  moreover have "heap_in (set [0, 1, 2]) ex_blocks"
    by (simp add: heap_in_def ex_blocks_def new_codeBlock_def)
  moreover have "\<forall>b. deps ex_blocks b = {}" by (simp add: deps_def ex_blocks_def new_codeBlock_def)
  moreover have "conds_nested [0, 1, 2] ex_blocks" by (simp add: conds_nested_def ex_blocks_def)
  ultimately show ?thesis
    by (simp add: wf_blocks_def) (simp add: ex_blocks_def ex_conds_def new_codeBlock_def)
qed

text \<open>The two statements of the loop are one group, whose representative is the first.\<close>

lemma prepare_merges_groups_witness:
  "\<exists>h'. prepare 8 ex_conds [0, 1, 2] ex_blocks = Some h' \<and> cb_finalcBlock (h' 0) = 0 \<and> cb_finalcBlock (h' 1) = 0 \<and> cb_processed (h' 1)"
proof -
  let ?R = "(linked_pair ex_conds [0, 1, 2] ex_blocks)\<^sup>+"
  have "dep_cause ex_conds [0, 1, 2] ex_blocks 1 0"
    by (simp add: dep_cause_def in_cond_def ex_blocks_def ex_conds_def)
  then have R: "(0, 1) \<in> ?R" by (intro r_into_trancl) (simp add: linked_pair_def)
  have "\<exists>h'. prepare 8 ex_conds [0, 1, 2] ex_blocks = Some h' \<and> merged_ok ?R [0, 1, 2] h' \<and> one_per_group ?R [0, 1, 2] h' \<and>
      (\<forall>b. cb_index (h' b) = cb_index (ex_blocks b)) \<and> heap_in (set [0, 1, 2]) h'"
    by (rule prepare_merges_groups [OF ex_blocks_wf, where M = 1]) (simp_all add: conds_bound_def ex_blocks_def)
  then obtain h' where h': "prepare 8 ex_conds [0, 1, 2] ex_blocks = Some h'" "merged_ok ?R [0, 1, 2] h'" "one_per_group ?R [0, 1, 2] h'"
    "\<forall>b. cb_index (h' b) = b" by (auto simp: ex_blocks_def)
  have "cb_finalcBlock (h' 0) = 0" using h'(2,4) by (auto simp: merged_ok_def Let_def split: if_splits)
  moreover have "cb_finalcBlock (h' 1) = cb_finalcBlock (h' 0)" using h'(3) R by (auto simp: one_per_group_def)
  ultimately show ?thesis using h'(1,2) by (auto simp: merged_ok_def Let_def split: if_splits)
qed

end
