(* ===== verification/Quro_Order.thy ===== *)
theory Quro_Order
  imports Quro_Prepare
begin

text \<open>
  The ordering of the queries (\<open>reorderCode\<close> of \<open>src/quro/code/CBlocks.cpp\<close>): the live blocks,
  the parents of each query, the input of the ILP solver, and the loop that picks the
  queries one by one, a ready one of smallest conflict index first.
\<close>

section \<open>The live blocks\<close>

definition add_cond_uses :: "cheap \<Rightarrow> bid \<Rightarrow> heap \<Rightarrow> heap" where
  "add_cond_uses C b h =
     fold (\<lambda>c. upd b (\<lambda>x. x\<lparr>cb_uses := addSets (cb_uses x) (cd_uses (C c))\<rparr>))
       (cb_cond_blocks (h b)) h"

definition live_step :: "cheap \<Rightarrow> bid \<Rightarrow> bid list \<times> heap \<Rightarrow> bid list \<times> heap" where
  "live_step C b st =
     (let (tempQ, h) = st in
      if \<not> cb_processed (h b) then (tempQ @ [b], add_cond_uses C b h) else (tempQ, h))"

definition live_blocks :: "cheap \<Rightarrow> bid list \<Rightarrow> heap \<Rightarrow> bid list \<times> heap" where
  "live_blocks C code_blocks h = fold (live_step C) code_blocks ([], h)"

definition is_query :: "heap \<Rightarrow> bid \<Rightarrow> bool" where
  "is_query h b \<longleftrightarrow> cb_type (h b) = QUERY"

definition reads :: "heap \<Rightarrow> bid \<Rightarrow> bid \<Rightarrow> bool" where
  "reads h b d \<longleftrightarrow> isDefinedBy h b d \<noteq> None"

lemma add_cond_uses_same:
  "cb_processed (add_cond_uses C b h x) = cb_processed (h x) \<and>
   cb_type (add_cond_uses C b h x) = cb_type (h x) \<and>
   cb_def_stmts (add_cond_uses C b h x) = cb_def_stmts (h x) \<and>
   cb_finalcBlock (add_cond_uses C b h x) = cb_finalcBlock (h x)"
  unfolding add_cond_uses_def
  by (rule fold_invariant [where I = "\<lambda>g. cb_processed (g x) = cb_processed (h x) \<and>
        cb_type (g x) = cb_type (h x) \<and> cb_def_stmts (g x) = cb_def_stmts (h x) \<and>
        cb_finalcBlock (g x) = cb_finalcBlock (h x)"]) (auto simp: upd_def)

lemma live_blocks_filter:
  "fst (live_blocks C bs h) = filter (\<lambda>b. \<not> cb_processed (h b)) bs"
proof -
  have "\<forall>b. cb_processed (g b) = cb_processed (h b) \<Longrightarrow>
        fst (fold (live_step C) bs (q, g)) = q @ filter (\<lambda>b. \<not> cb_processed (h b)) bs" for q g
  proof (induction bs arbitrary: q g)
    case Nil
    then show ?case by simp
  next
    case (Cons b bs)
    then show ?case by (simp add: live_step_def add_cond_uses_same)
  qed
  then show ?thesis by (simp add: live_blocks_def)
qed

section \<open>The parents of a query\<close>

definition before :: "'a \<Rightarrow> 'a list \<Rightarrow> 'a list" where
  "before x xs = takeWhile (\<lambda>y. y \<noteq> x) xs"

text \<open>One round of the search: the definers of \<open>pre\<close> that stand before it are queued, the queries
  among them are parents.\<close>

definition parent_step :: "heap \<Rightarrow> bid list \<Rightarrow> bid list \<times> bid stdset \<Rightarrow> bid list \<times> bid stdset" where
  "parent_step h tempQ st =
     (let (que, new_set) = st; pre = hd que
      in fold (\<lambda>t (que, new_set).
                 if reads h pre t
                 then (que @ [t], if is_query h t then sset_insert t new_set else new_set)
                 else (que, new_set))
           (before pre tempQ) (tl que, new_set))"

definition parent_search :: "heap \<Rightarrow> bid list \<Rightarrow> bid \<Rightarrow> bid stdset \<Rightarrow> bid stdset option" where
  "parent_search h tempQ t new_set =
     map_option snd (while_option (\<lambda>(que, new_set). que \<noteq> []) (parent_step h tempQ) ([t], new_set))"

definition parents :: "heap \<Rightarrow> bid list \<Rightarrow> bid \<Rightarrow> bid stdset option" where
  "parents h tempQ q =
     foldM (\<lambda>t new_set.
              if reads h q t
              then (if is_query h t then Some (sset_insert t new_set)
                    else parent_search h tempQ t new_set)
              else Some new_set)
       (before q tempQ) []"

text \<open>Reading from an earlier block, as a relation on the live blocks.\<close>

definition reads_back :: "heap \<Rightarrow> bid list \<Rightarrow> (bid \<times> bid) set" where
  "reads_back h tempQ = {(a, b). a \<in> set tempQ \<and> b \<in> set (before a tempQ) \<and> reads h a b}"

definition pos :: "'a list \<Rightarrow> 'a \<Rightarrow> nat" where
  "pos xs x = length (before x xs)"

lemma before_subset: "set (before x xs) \<subseteq> set xs"
  by (auto simp: before_def dest: set_takeWhileD)

lemma before_ne: "y \<in> set (before x xs) \<Longrightarrow> y \<noteq> x"
  by (auto simp: before_def dest: set_takeWhileD)

lemma before_split: "x \<in> set xs \<Longrightarrow> \<exists>zs. xs = before x xs @ x # zs"
  by (induction xs) (auto simp: before_def)

lemma before_append: "x \<in> set us \<Longrightarrow> before x (us @ vs) = before x us"
  by (simp add: before_def)

lemma before_Cons: "before x (z # xs) = (if z = x then [] else z # before x xs)"
  by (simp add: before_def)

lemma pos_Cons: "pos (z # xs) x = (if z = x then 0 else Suc (pos xs x))"
  by (simp add: pos_def before_Cons)

lemma pos_iff_before: "y \<in> set xs \<Longrightarrow> y \<in> set (before x xs) \<longleftrightarrow> pos xs y < pos xs x"
  by (induction xs) (auto simp: before_Cons pos_Cons)

lemma pos_before: "y \<in> set (before x xs) \<Longrightarrow> pos xs y < pos xs x"
  by (simp add: pos_iff_before [OF subsetD [OF before_subset], symmetric])

lemma reads_back_pos: "(a, b) \<in> reads_back h tempQ \<Longrightarrow> pos tempQ b < pos tempQ a"
  by (auto simp: reads_back_def intro: pos_before)

lemma reads_back_trancl_pos: "(a, b) \<in> (reads_back h tempQ)\<^sup>+ \<Longrightarrow> pos tempQ b < pos tempQ a"
  by (induction rule: trancl_induct) (auto dest: reads_back_pos)

lemma parent_fold:
  "fold (\<lambda>t (que, new_set).
           if reads h pre t
           then (que @ [t], if is_query h t then sset_insert t new_set else new_set)
           else (que, new_set)) ts (que, s) =
   (que @ filter (reads h pre) ts,
    fold sset_insert (filter (\<lambda>t. reads h pre t \<and> is_query h t) ts) s)"
  by (induction ts arbitrary: que s) auto

text \<open>The sum of \<open>2^pos\<close> over the queue decreases: a block is replaced by blocks before it.\<close>

definition que_weight :: "bid list \<Rightarrow> bid list \<Rightarrow> nat" where
  "que_weight tempQ que = sum_list (map (\<lambda>b. 2 ^ pos tempQ b) que)"

lemma weight_before_le:
  "x \<in> set tempQ \<Longrightarrow> que_weight tempQ (filter P (before x tempQ)) < 2 ^ pos tempQ x"
proof -
  have gen: "sum_list (map (\<lambda>b. 2 ^ pos xs b) (filter P (before x xs))) < (2::nat) ^ pos xs x" for xs :: "bid list"
  proof (induction xs)
    case Nil
    then show ?case by (simp add: before_def pos_def)
  next
    case (Cons z xs)
    show ?case
    proof (cases "z = x")
      case True
      then show ?thesis by (simp add: before_def)
    next
      case False
      have shift: "pos (z # xs) b = (if b = z then 0 else Suc (pos xs b))" for b
        by (simp add: pos_def before_def)
      let ?ys = "filter P (before x xs)"
      have le: "sum_list (map (\<lambda>b. 2 ^ pos (z # xs) b) ys) \<le> (2::nat) * sum_list (map (\<lambda>b. 2 ^ pos xs b) ys)"
        for ys :: "bid list"
      proof (induction ys)
        case (Cons y ys)
        have "(1::nat) \<le> 2 * 2 ^ pos xs y" using one_le_power [of "2::nat" "pos xs y"] by linarith
        from add_mono [OF this Cons.IH] Cons.IH show ?case by (cases "y = z") (simp_all add: shift)
      qed simp
      have "before x (z # xs) = z # before x xs" using False by (simp add: before_def)
      then have "sum_list (map (\<lambda>b. 2 ^ pos (z # xs) b) (filter P (before x (z # xs)))) \<le>
            (1::nat) + sum_list (map (\<lambda>b. 2 ^ pos (z # xs) b) ?ys)" by (simp add: shift)
      also have "\<dots> \<le> 1 + 2 * sum_list (map (\<lambda>b. 2 ^ pos xs b) ?ys)" using le [of ?ys] by simp
      also have "\<dots> < 2 * 2 ^ pos xs x" using Cons.IH by simp
      finally show ?thesis using False by (simp add: shift)
    qed
  qed
  show ?thesis unfolding que_weight_def by (rule gen)
qed

lemma parent_search_total:
  assumes "t \<in> set tempQ"
  shows "\<exists>s'. parent_search h tempQ t s = Some s' \<and>
           set s' = set s \<union> {p. (t, p) \<in> (reads_back h tempQ)\<^sup>+ \<and> is_query h p}"
proof -
  let ?B = "reads_back h tempQ"
  let ?P = "\<lambda>(que, ns). set que \<subseteq> set tempQ \<inter> ({t} \<union> ?B\<^sup>+ `` {t}) \<and>
      set s \<subseteq> set ns \<and> set ns \<subseteq> set s \<union> {p. (t, p) \<in> ?B\<^sup>+ \<and> is_query h p} \<and>
      {p. (t, p) \<in> ?B\<^sup>+ \<and> is_query h p} \<subseteq> set ns \<union> {p. \<exists>u \<in> set que. (u, p) \<in> ?B\<^sup>+}"
  have step: "?P (parent_step h tempQ st) \<and>
      que_weight tempQ (fst (parent_step h tempQ st)) < que_weight tempQ (fst st)"
    if P: "?P st" and ne: "case st of (que, ns) \<Rightarrow> que \<noteq> []" for st
  proof -
    obtain pre que ns where st: "st = (pre # que, ns)"
      using ne by (cases st; cases "fst st") auto
    let ?new = "filter (reads h pre) (before pre tempQ)"
    have eq: "parent_step h tempQ st = (que @ ?new,
        fold sset_insert (filter (\<lambda>t. reads h pre t \<and> is_query h t) (before pre tempQ)) ns)"
      by (simp add: parent_step_def st parent_fold)
    have pre: "pre \<in> set tempQ" "pre = t \<or> (t, pre) \<in> ?B\<^sup>+" using P st by auto
    have new: "set ?new = ?B `` {pre}" using pre(1) by (auto simp: reads_back_def)
    have tr: "(t, p) \<in> ?B\<^sup>+" if "(pre, p) \<in> ?B" for p
      using pre(2) that by (auto intro: trancl_into_trancl)
    have w: "que_weight tempQ (que @ ?new) < que_weight tempQ (pre # que)"
      using weight_before_le [OF pre(1), of "reads h pre"] by (simp add: que_weight_def)
    have newin: "set ?new \<subseteq> set tempQ" using before_subset by fastforce
    have qs: "set (filter (\<lambda>t. reads h pre t \<and> is_query h t) (before pre tempQ)) =
        {p \<in> ?B `` {pre}. is_query h p}" using new by auto
    have cover: "p \<in> set ns \<union> {p \<in> ?B `` {pre}. is_query h p} \<or> (\<exists>u \<in> set que \<union> ?B `` {pre}. (u, p) \<in> ?B\<^sup>+)"
      if p: "(t, p) \<in> ?B\<^sup>+" "is_query h p" for p
    proof -
      from p P st have "p \<in> set ns \<or> (\<exists>u \<in> set (pre # que). (u, p) \<in> ?B\<^sup>+)" by auto
      then consider "p \<in> set ns" | "(pre, p) \<in> ?B\<^sup>+" | "\<exists>u \<in> set que. (u, p) \<in> ?B\<^sup>+" by auto
      then show ?thesis
      proof cases
        case 2
        then obtain y where "(pre, y) \<in> ?B" "y = p \<or> (y, p) \<in> ?B\<^sup>+"
          by (metis tranclD rtranclD)
        then show ?thesis using p(2) by blast
      qed auto
    qed
    have "?P (parent_step h tempQ st)"
      unfolding eq prod.case set_append set_fold_sset qs new
    proof (intro conjI)
      show "set que \<union> ?B `` {pre} \<subseteq> set tempQ \<inter> ({t} \<union> ?B\<^sup>+ `` {t})"
        using P st newin new tr by auto
      show "set s \<subseteq> set ns \<union> {p \<in> ?B `` {pre}. is_query h p}" using P st by auto
      show "set ns \<union> {p \<in> ?B `` {pre}. is_query h p} \<subseteq> set s \<union> {p. (t, p) \<in> ?B\<^sup>+ \<and> is_query h p}"
        using P st tr by auto
      show "{p. (t, p) \<in> ?B\<^sup>+ \<and> is_query h p} \<subseteq>
          set ns \<union> {p \<in> ?B `` {pre}. is_query h p} \<union> {p. \<exists>u \<in> set que \<union> ?B `` {pre}. (u, p) \<in> ?B\<^sup>+}"
        using cover by blast
    qed
    with w eq st show ?thesis by simp
  qed
  have start: "?P ([t], s)" using assms by auto
  have "\<exists>st. while_option (\<lambda>(que, ns). que \<noteq> []) (parent_step h tempQ) ([t], s) = Some st"
  proof (rule measure_while_option_Some [where P = ?P and f = "\<lambda>st. que_weight tempQ (fst st)"])
    show "?P ([t], s)" by (rule start)
  next
    fix st assume "?P st" "case st of (que, ns) \<Rightarrow> que \<noteq> []"
    then show "?P (parent_step h tempQ st) \<and>
        que_weight tempQ (fst (parent_step h tempQ st)) < que_weight tempQ (fst st)"
      by (rule step)
  qed
  then obtain st
    where w: "while_option (\<lambda>(que, ns). que \<noteq> []) (parent_step h tempQ) ([t], s) = Some st" ..
  have "?P st" by (rule while_option_rule [where P = ?P, OF conjunct1 [OF step] w start])
  moreover obtain ns where "st = ([], ns)" using while_option_stop [OF w] by (cases st) auto
  ultimately have "set ns = set s \<union> {p. (t, p) \<in> ?B\<^sup>+ \<and> is_query h p}" by auto
  with w \<open>st = ([], ns)\<close> show ?thesis by (simp add: parent_search_def)
qed

text \<open>The parents of \<open>q\<close>: the queries before it that it reads directly, or through a chain of
  earlier blocks that starts with a non-query block.\<close>

definition parent_set :: "heap \<Rightarrow> bid list \<Rightarrow> bid \<Rightarrow> bid set" where
  "parent_set h tempQ q =
     {p \<in> set (before q tempQ). reads h q p \<and> is_query h p} \<union>
     {p. \<exists>t \<in> set (before q tempQ). reads h q t \<and> \<not> is_query h t \<and>
           (t, p) \<in> (reads_back h tempQ)\<^sup>+ \<and> is_query h p}"

lemma parents_total:
  "\<exists>s. parents h tempQ q = Some s \<and> set s = parent_set h tempQ q"
proof -
  let ?S = "\<lambda>ts. {p \<in> set ts. reads h q p \<and> is_query h p} \<union>
     {p. \<exists>t \<in> set ts. reads h q t \<and> \<not> is_query h t \<and>
           (t, p) \<in> (reads_back h tempQ)\<^sup>+ \<and> is_query h p}"
  let ?f = "\<lambda>t new_set. if reads h q t
              then (if is_query h t then Some (sset_insert t new_set)
                    else parent_search h tempQ t new_set)
              else Some new_set"
  have "set ts \<subseteq> set tempQ \<Longrightarrow> \<exists>s'. foldM ?f ts s = Some s' \<and> set s' = set s \<union> ?S ts" for ts s
  proof (induction ts arbitrary: s)
    case Nil
    then show ?case by simp
  next
    case (Cons t ts)
    let ?new = "if reads h q t then (if is_query h t then {t}
         else {p. (t, p) \<in> (reads_back h tempQ)\<^sup>+ \<and> is_query h p}) else {}"
    have "\<exists>s1. ?f t s = Some s1 \<and> set s1 = set s \<union> ?new"
      using parent_search_total [of t tempQ h s] Cons.prems by simp
    then obtain s1 where s1: "?f t s = Some s1" "set s1 = set s \<union> ?new" by blast
    from Cons.IH [of s1] Cons.prems obtain s' where
      s': "foldM ?f ts s1 = Some s'" "set s' = set s1 \<union> ?S ts" by auto
    have "?new \<union> ?S ts = ?S (t # ts)" by auto
    with s1 s' show ?case by (simp only: foldM.simps option.case) (auto simp: Un_assoc)
  qed
  from this [OF before_subset, of q "[]"] show ?thesis by (simp add: parents_def parent_set_def)
qed

lemma parent_set_before:
  "p \<in> parent_set h tempQ q \<Longrightarrow> p \<in> set tempQ \<and> is_query h p \<and> pos tempQ p < pos tempQ q"
proof -
  assume "p \<in> parent_set h tempQ q"
  then consider "p \<in> set (before q tempQ)" "is_query h p"
    | t where "t \<in> set (before q tempQ)" "(t, p) \<in> (reads_back h tempQ)\<^sup>+" "is_query h p"
    by (auto simp: parent_set_def)
  then show ?thesis
  proof cases
    case 1
    then show ?thesis using pos_before before_subset by fastforce
  next
    case 2
    from 2(2) have "p \<in> set tempQ"
      by (rule trancl.cases) (auto simp: reads_back_def dest: subsetD [OF before_subset])
    with pos_before [OF 2(1)] reads_back_trancl_pos [OF 2(2)] 2(3) show ?thesis by simp
  qed
qed

type_synonym parent_map = "bid \<Rightarrow> bid stdset option"

definition map_parent :: "heap \<Rightarrow> bid list \<Rightarrow> parent_map option" where
  "map_parent h tempQ =
     foldM (\<lambda>q m. if is_query h q
                    then (case parents h tempQ q of None \<Rightarrow> None | Some s \<Rightarrow> Some (m(q \<mapsto> s)))
                    else Some m) tempQ Map.empty"

definition parents_of :: "parent_map \<Rightarrow> bid \<Rightarrow> bid stdset" where
  "parents_of m q = (case m q of None \<Rightarrow> [] | Some s \<Rightarrow> s)"

lemma map_parent_total:
  "\<exists>m. map_parent h tempQ = Some m \<and>
       (\<forall>q \<in> set tempQ. is_query h q \<longrightarrow> set (parents_of m q) = parent_set h tempQ q)"
proof -
  let ?f = "\<lambda>q m. if is_query h q
                    then (case parents h tempQ q of None \<Rightarrow> None | Some s \<Rightarrow> Some (m(q \<mapsto> s)))
                    else Some m"
  have "\<exists>m'. foldM ?f qs m = Some m' \<and>
       (\<forall>q. (q \<in> set qs \<and> is_query h q \<longrightarrow> set (parents_of m' q) = parent_set h tempQ q) \<and>
            (\<not> (q \<in> set qs \<and> is_query h q) \<longrightarrow> m' q = m q))" for qs m
  proof (induction qs arbitrary: m)
    case Nil
    then show ?case by simp
  next
    case (Cons x qs)
    show ?case
    proof (cases "is_query h x")
      case False
      with Cons.IH [of m] show ?thesis by auto
    next
      case True
      from parents_total [of h tempQ x] obtain s where
        s: "parents h tempQ x = Some s" "set s = parent_set h tempQ x" by blast
      from Cons.IH [of "m(x \<mapsto> s)"] obtain m' where m': "foldM ?f qs (m(x \<mapsto> s)) = Some m'"
        "\<forall>q. (q \<in> set qs \<and> is_query h q \<longrightarrow> set (parents_of m' q) = parent_set h tempQ q) \<and>
            (\<not> (q \<in> set qs \<and> is_query h q) \<longrightarrow> m' q = (m(x \<mapsto> s)) q)" by blast
      have "set (parents_of m' x) = parent_set h tempQ x"
        using m'(2) True s(2) by (cases "x \<in> set qs") (auto simp: parents_of_def)
      with m' True s(1) show ?thesis
        by (intro exI [of _ m']) auto
    qed
  qed
  from this [of tempQ Map.empty] show ?thesis by (auto simp: map_parent_def)
qed

section \<open>The input of the ILP solver\<close>

text \<open>\<open>queryinfo.txt\<close>: the number of queries, their conflict indices, and one pair of query
  numbers for each query and parent.\<close>

record ilp_input =
  ilp_count :: nat
  ilp_conflict :: "int list"
  ilp_edges :: "(nat \<times> nat) list"

definition query_index :: "heap \<Rightarrow> bid list \<Rightarrow> bid \<Rightarrow> nat" where
  "query_index h tempQ q = pos (filter (is_query h) tempQ) q"

definition queryinfo :: "heap \<Rightarrow> bid list \<Rightarrow> parent_map \<Rightarrow> ilp_input" where
  "queryinfo h tempQ m =
     \<lparr>ilp_count = length (filter (is_query h) tempQ),
      ilp_conflict = map (\<lambda>q. cb_conflict_index (h q)) (filter (is_query h) tempQ),
      ilp_edges = concat (map (\<lambda>q. if is_query h q
          then concat (map (\<lambda>p. concat (map (\<lambda>t. if is_query h t \<and> t = p
                 then [(query_index h tempQ t, query_index h tempQ q)] else [])
               (before q tempQ))) (parents_of m q))
          else []) tempQ)\<rparr>"

lemma pos_less_length: "x \<in> set xs \<Longrightarrow> pos xs x < length xs"
  by (induction xs) (auto simp: pos_Cons)

lemma nth_pos: "x \<in> set xs \<Longrightarrow> xs ! pos xs x = x"
  by (induction xs) (auto simp: pos_Cons)

lemma pos_filter_mono:
  "x \<in> set xs \<Longrightarrow> P x \<Longrightarrow> P y \<Longrightarrow> pos xs x < pos xs y \<Longrightarrow> pos (filter P xs) x < pos (filter P xs) y"
  by (induction xs) (auto simp: pos_Cons split: if_splits)

lemma queryinfo_edges:
  assumes m: "\<forall>q \<in> set tempQ. is_query h q \<longrightarrow> set (parents_of m q) = parent_set h tempQ q"
  shows "set (ilp_edges (queryinfo h tempQ m)) =
           {(query_index h tempQ p, query_index h tempQ q) | p q.
              q \<in> set tempQ \<and> is_query h q \<and> p \<in> parent_set h tempQ q}" (is "?L = ?R")
proof
  show "?L \<subseteq> ?R" using m by (auto simp: queryinfo_def split: if_splits)
  show "?R \<subseteq> ?L"
  proof
    fix e assume "e \<in> ?R"
    then obtain p q where e: "e = (query_index h tempQ p, query_index h tempQ q)"
      and q: "q \<in> set tempQ" "is_query h q" and p: "p \<in> parent_set h tempQ q" by blast
    from parent_set_before [OF p] have "is_query h p" "p \<in> set (before q tempQ)"
      by (simp_all add: pos_iff_before)
    moreover have "p \<in> set (parents_of m q)" using m q p by blast
    ultimately show "e \<in> ?L" using e q by (force simp: queryinfo_def)
  qed
qed

lemma queryinfo_bound:
  assumes m: "\<forall>q \<in> set tempQ. is_query h q \<longrightarrow> set (parents_of m q) = parent_set h tempQ q"
    and ab: "(a, b) \<in> set (ilp_edges (queryinfo h tempQ m))"
  shows "a < b \<and> b < ilp_count (queryinfo h tempQ m)"
proof -
  from ab queryinfo_edges [OF m] obtain p q where ab: "a = query_index h tempQ p" "b = query_index h tempQ q"
    and q: "q \<in> set tempQ" "is_query h q" and p: "p \<in> parent_set h tempQ q" by auto
  from parent_set_before [OF p] q show ?thesis
    by (simp add: ab query_index_def pos_filter_mono pos_less_length queryinfo_def)
qed

section \<open>Picking the queries\<close>

definition order_ready :: "parent_map \<Rightarrow> bid stdset \<Rightarrow> bid \<Rightarrow> bool" where
  "order_ready m processed q \<longleftrightarrow>
     \<not> List.member processed q \<and> list_all (List.member processed) (parents_of m q)"

definition order_step ::
    "parent_map \<Rightarrow> bid list \<Rightarrow> bid stdset \<times> bid list \<Rightarrow> bid stdset \<times> bid list" where
  "order_step m seq st =
     (let (processed, query_seq) = st in
      case List.find (order_ready m processed) seq of
        None \<Rightarrow> (processed, query_seq)
      | Some q \<Rightarrow> (sset_insert q processed, query_seq @ [q]))"

definition order_queries :: "parent_map \<Rightarrow> bid list \<Rightarrow> bid list option" where
  "order_queries m seq =
     map_option snd (while_option (\<lambda>(processed, query_seq). length processed < length seq)
                       (order_step m seq) ([], []))"

text \<open>A sequence that takes the parents first, and at every point the first ready query of \<open>seq\<close>.\<close>

definition parents_first :: "(bid \<Rightarrow> bid set) \<Rightarrow> bid list \<Rightarrow> bool" where
  "parents_first par qs \<longleftrightarrow> (\<forall>us q vs. qs = us @ q # vs \<longrightarrow> par q \<subseteq> set us)"

definition greedy :: "(bid \<Rightarrow> bid set) \<Rightarrow> bid list \<Rightarrow> bid list \<Rightarrow> bool" where
  "greedy par seq qs \<longleftrightarrow>
     (\<forall>us q vs r. qs = us @ q # vs \<and> r \<in> set seq - set us \<and> par r \<subseteq> set us \<longrightarrow>
        pos seq q \<le> pos seq r)"

lemma snoc_split: "us @ q # vs = xs @ [x] \<longleftrightarrow>
    (vs = [] \<and> us = xs \<and> q = x) \<or> (\<exists>vs'. vs = vs' @ [x] \<and> xs = us @ q # vs')"
  by (cases vs rule: rev_cases) auto

lemma parents_first_snoc:
  "parents_first par (qs @ [q]) \<longleftrightarrow> parents_first par qs \<and> par q \<subseteq> set qs"
  unfolding parents_first_def
  by (auto simp: snoc_split [symmetric] eq_commute [of "qs @ [q]"]) (auto simp: snoc_split)

lemma greedy_snoc:
  "greedy par seq (qs @ [q]) \<longleftrightarrow> greedy par seq qs \<and>
     (\<forall>r \<in> set seq - set qs. par r \<subseteq> set qs \<longrightarrow> pos seq q \<le> pos seq r)"
proof
  assume g: "greedy par seq (qs @ [q])"
  have "greedy par seq qs"
    unfolding greedy_def
  proof (intro allI impI, elim conjE)
    fix us x vs r assume "qs = us @ x # vs" "r \<in> set seq - set us" "par r \<subseteq> set us"
    with g [unfolded greedy_def, rule_format, of us x "vs @ [q]" r]
    show "pos seq x \<le> pos seq r" by simp
  qed
  moreover have "\<forall>r \<in> set seq - set qs. par r \<subseteq> set qs \<longrightarrow> pos seq q \<le> pos seq r"
    using g [unfolded greedy_def, rule_format, of qs q "[]"] by blast
  ultimately show "greedy par seq qs \<and>
     (\<forall>r \<in> set seq - set qs. par r \<subseteq> set qs \<longrightarrow> pos seq q \<le> pos seq r)" by blast
next
  assume g: "greedy par seq qs \<and>
     (\<forall>r \<in> set seq - set qs. par r \<subseteq> set qs \<longrightarrow> pos seq q \<le> pos seq r)"
  show "greedy par seq (qs @ [q])"
    unfolding greedy_def
  proof (intro allI impI, elim conjE)
    fix us x vs r assume e: "qs @ [q] = us @ x # vs" and r: "r \<in> set seq - set us" "par r \<subseteq> set us"
    from e [symmetric] consider "us = qs" "x = q" | vs' where "qs = us @ x # vs'"
      by (auto simp: snoc_split)
    then show "pos seq x \<le> pos seq r"
    proof cases
      case 1
      with g r show ?thesis by blast
    next
      case 2
      with g r show ?thesis by (auto simp: greedy_def)
    qed
  qed
qed

lemma find_first:
  "List.find P xs = Some x \<Longrightarrow> x \<in> set xs \<and> P x \<and> (\<forall>y \<in> set xs. P y \<longrightarrow> pos xs x \<le> pos xs y)"
  by (induction xs) (auto simp: pos_Cons split: if_splits)

definition order_inv :: "parent_map \<Rightarrow> bid list \<Rightarrow> bid stdset \<times> bid list \<Rightarrow> bool" where
  "order_inv m seq st \<longleftrightarrow>
     (let (processed, qs) = st; par = (\<lambda>q. set (parents_of m q)) in
      sset_ok processed \<and> set processed = set qs \<and> distinct qs \<and> set qs \<subseteq> set seq \<and>
      parents_first par qs \<and> greedy par seq qs)"

lemma order_inv_start: "order_inv m seq ([], [])"
  by (simp add: order_inv_def parents_first_def greedy_def)

lemma order_inv_length: "order_inv m seq (processed, qs) \<Longrightarrow> length processed = length qs"
  by (auto simp: order_inv_def Let_def dest!: sset_ok_distinct) (metis distinct_card)

lemma order_ready_iff:
  "order_ready m processed q \<longleftrightarrow> q \<notin> set processed \<and> set (parents_of m q) \<subseteq> set processed"
  by (auto simp: order_ready_def list_all_iff)

lemma order_inv_step:
  assumes "order_inv m seq st"
  shows "order_inv m seq (order_step m seq st)"
proof -
  obtain processed qs where st: "st = (processed, qs)" by (cases st)
  show ?thesis
  proof (cases "List.find (order_ready m processed) seq")
    case None
    with assms st show ?thesis by (simp add: order_step_def)
  next
    case (Some q)
    note f = find_first [OF Some]
    have par: "\<forall>r \<in> set seq - set qs. set (parents_of m r) \<subseteq> set qs \<longrightarrow> pos seq q \<le> pos seq r"
      using f assms st by (auto simp: order_ready_iff order_inv_def Let_def)
    show ?thesis
      using assms st Some f par
      by (simp add: order_step_def order_inv_def Let_def parents_first_snoc greedy_snoc order_ready_iff)
  qed
qed

text \<open>An order in which parents come first, such as their place in the program, makes some query
  ready as long as one is left.\<close>

lemma order_some_ready:
  assumes inv: "order_inv m seq (processed, qs)" and d: "distinct seq"
    and less: "length processed < length seq"
    and rank: "\<forall>q \<in> set seq. \<forall>p \<in> set (parents_of m q). p \<in> set seq \<and> rank p < (rank q :: nat)"
  shows "\<exists>q. List.find (order_ready m processed) seq = Some q"
proof -
  from inv have len: "length processed = length qs" by (rule order_inv_length)
  have "set qs \<noteq> set seq"
  proof
    assume e: "set qs = set seq"
    have "distinct qs" using inv by (simp add: order_inv_def Let_def)
    then have "length qs = length seq" using d e by (metis distinct_card)
    with len less show False by simp
  qed
  then have "set seq - set processed \<noteq> {}" using inv by (auto simp: order_inv_def Let_def)
  then obtain q0 where q0: "q0 \<in> set seq - set processed" by blast
  from ex_has_least_nat [where P = "\<lambda>q. q \<in> set seq - set processed" and m = rank, OF q0]
  obtain q where q: "q \<in> set seq - set processed"
    and min: "\<forall>r. r \<in> set seq - set processed \<longrightarrow> rank q \<le> rank r" by blast
  have "order_ready m processed q"
    unfolding order_ready_iff
  proof
    show "q \<notin> set processed" using q by blast
    show "set (parents_of m q) \<subseteq> set processed"
    proof
      fix p assume "p \<in> set (parents_of m q)"
      with rank q have "p \<in> set seq" "rank p < rank q" by auto
      with min show "p \<in> set processed" by (meson DiffI not_less)
    qed
  qed
  with q have "List.find (order_ready m processed) seq \<noteq> None" by (auto simp: find_None_iff)
  then show ?thesis by blast
qed

lemma order_queries_total:
  assumes d: "distinct seq"
    and rank: "\<forall>q \<in> set seq. \<forall>p \<in> set (parents_of m q). p \<in> set seq \<and> rank p < (rank q :: nat)"
  shows "\<exists>qs. order_queries m seq = Some qs \<and> distinct qs \<and> set qs = set seq \<and>
           parents_first (\<lambda>q. set (parents_of m q)) qs \<and> greedy (\<lambda>q. set (parents_of m q)) seq qs"
proof -
  let ?b = "\<lambda>(processed :: bid list, query_seq :: bid list). length processed < length seq"
  let ?f = "\<lambda>(processed, query_seq :: bid list). length seq - length (processed :: bid list)"
  have "\<exists>t. while_option ?b (order_step m seq) ([], []) = Some t"
  proof (rule measure_while_option_Some [where P = "order_inv m seq" and f = ?f])
    show "order_inv m seq ([], [])" by (rule order_inv_start)
  next
    fix st assume inv: "order_inv m seq st" and b: "?b st"
    obtain processed qs where st: "st = (processed, qs)" by (cases st)
    with b have less: "length processed < length seq" by simp
    from order_some_ready [OF inv [unfolded st] d less rank] obtain q where
      q: "List.find (order_ready m processed) seq = Some q" by blast
    have inv': "order_inv m seq (order_step m seq st)" by (rule order_inv_step [OF inv])
    have eq: "order_step m seq st = (sset_insert q processed, qs @ [q])"
      by (simp add: order_step_def st q)
    have "length (sset_insert q processed) = Suc (length processed)"
      using order_inv_length [OF inv [unfolded st]] order_inv_length [OF inv' [unfolded eq]] by simp
    with inv' eq st less show "order_inv m seq (order_step m seq st) \<and> ?f (order_step m seq st) < ?f st"
      by simp
  qed
  then obtain processed qs where
    w: "while_option ?b (order_step m seq) ([], []) = Some (processed, qs)" by auto
  have inv: "order_inv m seq (processed, qs)"
    by (rule while_option_rule [where P = "order_inv m seq", OF order_inv_step w order_inv_start])
  have "\<not> length processed < length seq" using while_option_stop [OF w] by simp
  with order_inv_length [OF inv] have "length seq \<le> length qs" by simp
  moreover have "distinct qs" "set qs \<subseteq> set seq" using inv by (simp_all add: order_inv_def Let_def)
  ultimately have "set qs = set seq"
    using d by (metis card_seteq distinct_card finite_set)
  with inv w show ?thesis by (simp add: order_queries_def order_inv_def Let_def)
qed

section \<open>Properties\<close>

text \<open>\<open>std::sort\<close> with \<open>qBlockCmp1\<close> gives some permutation in which the conflict indices ascend;
  which one, among equal indices, is not specified.\<close>

definition conflict_sorted :: "heap \<Rightarrow> bid list \<Rightarrow> bid list \<Rightarrow> bool" where
  "conflict_sorted h xs ys \<longleftrightarrow>
     mset ys = mset xs \<and>
     sorted_wrt (\<lambda>a b. cb_conflict_index (h a) \<le> cb_conflict_index (h b)) ys"

definition order_live :: "(bid list \<Rightarrow> bid list) \<Rightarrow> heap \<Rightarrow> bid list \<Rightarrow> bid list option" where
  "order_live srt h tempQ =
     (case map_parent h tempQ of
        None \<Rightarrow> None
      | Some m \<Rightarrow> order_queries m (srt (filter (is_query h) tempQ)))"

lemma sorted_wrt_pos:
  "sorted_wrt R xs \<Longrightarrow> reflp R \<Longrightarrow> x \<in> set xs \<Longrightarrow> y \<in> set xs \<Longrightarrow> pos xs x \<le> pos xs y \<Longrightarrow> R x y"
  by (induction xs) (auto simp: pos_Cons reflp_def split: if_splits)

lemma order_live_run:
  assumes "distinct tempQ"
    and "conflict_sorted h (filter (is_query h) tempQ) (srt (filter (is_query h) tempQ))"
  obtains m qs where "map_parent h tempQ = Some m"
    and "\<forall>q \<in> set tempQ. is_query h q \<longrightarrow> set (parents_of m q) = parent_set h tempQ q"
    and "order_live srt h tempQ = Some qs" and "distinct qs"
    and "set qs = {q \<in> set tempQ. is_query h q}"
    and "parents_first (\<lambda>q. set (parents_of m q)) qs"
    and "greedy (\<lambda>q. set (parents_of m q)) (srt (filter (is_query h) tempQ)) qs"
proof -
  let ?seq = "srt (filter (is_query h) tempQ)"
  from map_parent_total [of h tempQ] obtain m where m: "map_parent h tempQ = Some m"
    and par: "\<forall>q \<in> set tempQ. is_query h q \<longrightarrow> set (parents_of m q) = parent_set h tempQ q" by blast
  have ms: "mset ?seq = mset (filter (is_query h) tempQ)" using assms(2) by (simp add: conflict_sorted_def)
  have set: "set ?seq = {q \<in> set tempQ. is_query h q}" using mset_eq_setD [OF ms] by simp
  have d: "distinct ?seq" using mset_eq_imp_distinct_iff [OF ms] assms(1) by simp
  have rank: "\<forall>q \<in> set ?seq. \<forall>p \<in> set (parents_of m q). p \<in> set ?seq \<and> pos tempQ p < pos tempQ q"
    using par parent_set_before set by auto
  from order_queries_total [OF d rank] obtain qs where
    qs: "order_queries m ?seq = Some qs" "distinct qs" "set qs = set ?seq"
      "parents_first (\<lambda>q. set (parents_of m q)) qs" "greedy (\<lambda>q. set (parents_of m q)) ?seq qs" by blast
  have "order_live srt h tempQ = Some qs" using qs(1) m by (simp add: order_live_def)
  from that [OF m par this qs(2) _ qs(4,5)] qs(3) set show ?thesis by simp
qed

text \<open>C4: whatever the sort does with equal indices, the loop that picks the queries terminates;
  the result has every live query once, each after all its parents, and at each point the
  query taken has the smallest conflict index of those whose parents are all taken.\<close>

theorem query_order_correct:
  assumes "distinct tempQ"
    and "conflict_sorted h (filter (is_query h) tempQ) (srt (filter (is_query h) tempQ))"
  shows "\<exists>qs. order_live srt h tempQ = Some qs \<and> distinct qs \<and>
           set qs = {q \<in> set tempQ. is_query h q} \<and>
           (\<forall>us q vs. qs = us @ q # vs \<longrightarrow>
              parent_set h tempQ q \<subseteq> set us \<and>
              (\<forall>r \<in> set tempQ. is_query h r \<and> r \<notin> set us \<and> parent_set h tempQ r \<subseteq> set us \<longrightarrow>
                 cb_conflict_index (h q) \<le> cb_conflict_index (h r)))"
proof -
  let ?seq = "srt (filter (is_query h) tempQ)"
  from order_live_run [where srt = srt, OF assms] obtain m qs where m: "map_parent h tempQ = Some m"
    and par: "\<forall>q \<in> set tempQ. is_query h q \<longrightarrow> set (parents_of m q) = parent_set h tempQ q"
    and run: "order_live srt h tempQ = Some qs" "distinct qs"
    and set: "set qs = {q \<in> set tempQ. is_query h q}"
    and qs4: "parents_first (\<lambda>q. set (parents_of m q)) qs" and qs5: "greedy (\<lambda>q. set (parents_of m q)) ?seq qs"
    by blast
  have ms: "mset ?seq = mset (filter (is_query h) tempQ)"
    and srt: "sorted_wrt (\<lambda>a b. cb_conflict_index (h a) \<le> cb_conflict_index (h b)) ?seq"
    using assms(2) by (simp_all add: conflict_sorted_def)
  have seq: "set ?seq = {q \<in> set tempQ. is_query h q}" using mset_eq_setD [OF ms] by simp
  have par': "set (parents_of m q) = parent_set h tempQ q" if "q \<in> set ?seq" for q
    using that seq par by blast
  have "parent_set h tempQ q \<subseteq> set us \<and>
      (\<forall>r \<in> set tempQ. is_query h r \<and> r \<notin> set us \<and> parent_set h tempQ r \<subseteq> set us \<longrightarrow>
         cb_conflict_index (h q) \<le> cb_conflict_index (h r))"
    if e: "qs = us @ q # vs" for us q vs
  proof
    have q: "q \<in> set ?seq" using e set seq by auto
    show "parent_set h tempQ q \<subseteq> set us"
      using qs4 e par' [OF q] by (auto simp: parents_first_def)
    show "\<forall>r \<in> set tempQ. is_query h r \<and> r \<notin> set us \<and> parent_set h tempQ r \<subseteq> set us \<longrightarrow>
         cb_conflict_index (h q) \<le> cb_conflict_index (h r)"
    proof (intro ballI impI)
      fix r assume r: "r \<in> set tempQ" "is_query h r \<and> r \<notin> set us \<and> parent_set h tempQ r \<subseteq> set us"
      then have rs: "r \<in> set ?seq" using seq by simp
      have "pos ?seq q \<le> pos ?seq r"
        using qs5 e r rs par' [OF rs] unfolding greedy_def by blast
      then show "cb_conflict_index (h q) \<le> cb_conflict_index (h r)"
        using sorted_wrt_pos [OF srt _ q rs] by (simp add: reflp_def)
    qed
  qed
  with run set show ?thesis by blast
qed

text \<open>Four queries: \<open>Q3\<close> reads \<open>Q1\<close> through the non-query block 2.\<close>

definition ex_queries :: heap where
  "ex_queries = (\<lambda>b. (new_codeBlock (if b = 2 then NONQUERY else QUERY) b)
     \<lparr>cb_index := b, cb_conflict_index := (if b = 3 then 1 else if b = 0 then 9 else 5),
      cb_def_stmts := (if b = 2 then [(4, [1])] else if b = 3 then [(6, [2])] else [])\<rparr>)"

lemma ex_queries_sorted:
  "conflict_sorted ex_queries (filter (is_query ex_queries) [0, 1, 2, 3])
     (sort_key (\<lambda>b. cb_conflict_index (ex_queries b)) (filter (is_query ex_queries) [0, 1, 2, 3]))"
proof -
  have "sorted_wrt (\<lambda>a b. cb_conflict_index (ex_queries a) \<le> cb_conflict_index (ex_queries b))
      (sort_key (\<lambda>b. cb_conflict_index (ex_queries b)) xs)" for xs
    using sorted_sort_key [of "\<lambda>b. cb_conflict_index (ex_queries b)" xs] by (simp add: sorted_wrt_map)
  then show ?thesis
    by (simp add: conflict_sorted_def)
qed

lemma query_order_correct_witness:
  "\<exists>qs. order_live (sort_key (\<lambda>b. cb_conflict_index (ex_queries b))) ex_queries [0, 1, 2, 3] = Some qs \<and>
     distinct qs \<and> set qs = {q \<in> set [0, 1, 2, 3]. is_query ex_queries q} \<and>
     (\<forall>us q vs. qs = us @ q # vs \<longrightarrow>
        parent_set ex_queries [0, 1, 2, 3] q \<subseteq> set us \<and>
        (\<forall>r \<in> set [0, 1, 2, 3]. is_query ex_queries r \<and> r \<notin> set us \<and>
             parent_set ex_queries [0, 1, 2, 3] r \<subseteq> set us \<longrightarrow>
           cb_conflict_index (ex_queries q) \<le> cb_conflict_index (ex_queries r)))"
  by (rule query_order_correct) (simp, rule ex_queries_sorted)

text \<open>The ILP input names exactly the pairs of a live query and one of its parents by their
  numbers among the queries, the parent's number is the smaller one, and the second number
  is below the count.\<close>

theorem ilp_input_edges:
  "\<exists>m. map_parent h tempQ = Some m \<and>
     (let info = queryinfo h tempQ m in
      set (ilp_edges info) =
        {(query_index h tempQ p, query_index h tempQ q) | p q.
           q \<in> set tempQ \<and> is_query h q \<and> p \<in> parent_set h tempQ q} \<and>
      set (ilp_edges info) \<subseteq> {(a, b). a < b \<and> b < ilp_count info})"
proof -
  from map_parent_total [of h tempQ] obtain m where m: "map_parent h tempQ = Some m"
    and par: "\<forall>q \<in> set tempQ. is_query h q \<longrightarrow> set (parents_of m q) = parent_set h tempQ q" by blast
  note edges = queryinfo_edges [OF par]
  have "set (ilp_edges (queryinfo h tempQ m)) \<subseteq> {(a, b). a < b \<and> b < ilp_count (queryinfo h tempQ m)}"
    by (rule subrelI) (use queryinfo_bound [OF par] in simp)
  with m edges show ?thesis unfolding Let_def by (intro exI conjI)
qed

end
