(* ===== verification/Ilp_Quro.thy ===== *)
theory Ilp_Quro
  imports Ilp_Gurobi Ilp_Lpsolve Quro_Order
begin

text \<open>
  QURO and the integer programs: what the generators make of the file that \<open>reorderCode\<close> writes,
  whether they agree, and how the order that QURO picks itself stands to the solver's answers.
\<close>

section \<open>Agreement of the generators\<close>

text \<open>On a problem without a dependence of a query on itself the Gurobi and the \<open>lp_solve\<close>
  program have the same solutions, position for position.\<close>

theorem generators_agree:
  assumes "well_formed I" and "\<forall>(a, b) \<in> set (dep_cond I). a \<noteq> b"
  shows "(\<exists>x. lp_feasible (generate_ilp I) x \<and> (\<forall>i \<in> {0..<nQueries I}. x (qvar i) = p i)) \<longleftrightarrow>
         (\<exists>x. model_feasible (ilp_test I) x \<and> (\<forall>i \<in> {0..<nQueries I}. x (qcol i) = p i))"
proof -
  have "filter (\<lambda>(a, b). a \<noteq> b) (dep_cond I) = dep_cond I" by (simp add: filter_id_conv assms(2))
  then show ?thesis by (simp add: gilp.solutions [OF assms(1)] ltest.solutions [OF assms(1)])
qed

lemma generators_agree_witness:
  "(\<exists>x. lp_feasible (generate_ilp ex_problem) x \<and> (\<forall>i \<in> {0..<nQueries ex_problem}. x (qvar i) = i)) \<longleftrightarrow>
   (\<exists>x. model_feasible (ilp_test ex_problem) x \<and> (\<forall>i \<in> {0..<nQueries ex_problem}. x (qcol i) = i))"
  by (rule generators_agree [OF ex_problem_wf]) (simp add: ex_problem_def)

section \<open>The file that QURO writes\<close>

definition queryinfo_file :: "ilp_input \<Rightarrow> string" where
  "queryinfo_file info = queryinfo_text (ilp_count info) (ilp_conflict info) (ilp_edges info)"

text \<open>The sizes that the generators' arrays have room for.\<close>

definition file_fits :: "nat \<Rightarrow> nat \<Rightarrow> ilp_input \<Rightarrow> bool" where
  "file_fits n k info \<longleftrightarrow>
     0 < ilp_count info \<and> ilp_count info \<le> n \<and> length (ilp_conflict info) = ilp_count info \<and>
     (\<forall>c \<in> set (ilp_conflict info). fits_int c) \<and>
     (\<forall>(a, b) \<in> set (ilp_edges info). a < b \<and> b < ilp_count info) \<and> length (ilp_edges info) < k"

definition int_edges :: "ilp_input \<Rightarrow> (int \<times> int) list" where
  "int_edges info = map (\<lambda>(a, b). (int a, int b)) (ilp_edges info)"

lemma edges_below: "file_fits n k info \<Longrightarrow> \<forall>(a, b) \<in> set (ilp_edges info). a < ilp_count info \<and> b < ilp_count info"
  by (auto simp: file_fits_def)

lemma int_edges_ne: "file_fits n k info \<Longrightarrow> filter (\<lambda>(a, b). a \<noteq> b) (int_edges info) = int_edges info"
  by (auto simp: int_edges_def file_fits_def filter_id_conv)

definition written :: "ilp_input \<Rightarrow> ilp_info" where
  "written info = \<lparr>nQueries = int (ilp_count info), c_index = ilp_conflict info,
     dep_cond = (0, 0) # int_edges info, rd_cond = []\<rparr>"

lemma read_written: "file_fits 200 1000 info \<Longrightarrow> read_queryinfo (Some (queryinfo_file info)) = Inr (written info)"
  using read_back [of "ilp_conflict info" "ilp_count info" "ilp_edges info"] edges_below [of 200 1000 info]
  by (simp add: file_fits_def queryinfo_file_def written_def int_edges_def)

lemma written_wf: "file_fits 200 k info \<Longrightarrow> well_formed (written info)"
  using edges_below [of 200 k info]
  by (auto simp: file_fits_def well_formed_def written_def int_edges_def split_beta)

text \<open>C24: from any file that QURO writes for at least one query, \<open>ilp_test\<close> gets a program whose
  solutions are exactly the orders that keep the written dependences, while the program that
  \<open>generate_ilp\<close> prints has no solution: its first dependence row is \<open>q0 - q0 >= 1\<close>.\<close>

theorem written_file_programs:
  assumes "file_fits 200 1000 info"
  shows "\<exists>I. read_queryinfo (Some (queryinfo_file info)) = Inr I \<and>
     (\<nexists>x. lp_feasible (generate_ilp I) x) \<and>
     (\<forall>p. (\<exists>x. model_feasible (ilp_test I) x \<and> (\<forall>i \<in> {0..<nQueries I}. x (qcol i) = p i)) \<longleftrightarrow>
        orders (int (ilp_count info)) (int_edges info) [] p)"
proof (intro exI conjI allI)
  note wf = written_wf [OF assms]
  show "read_queryinfo (Some (queryinfo_file info)) = Inr (written info)" by (rule read_written [OF assms])
  show "\<nexists>x. lp_feasible (generate_ilp (written info)) x"
  proof
    assume "\<exists>x. lp_feasible (generate_ilp (written info)) x"
    then obtain x where "lp_feasible (generate_ilp (written info)) x" by blast
    from ordersD(3) [OF generate_ilp_sound [OF wf this], of 0 0] show False by (simp add: written_def)
  qed
  show "(\<exists>x. model_feasible (ilp_test (written info)) x \<and>
          (\<forall>i \<in> {0..<nQueries (written info)}. x (qcol i) = p i)) \<longleftrightarrow>
        orders (int (ilp_count info)) (int_edges info) [] p" for p
    using ltest.solutions [OF wf, of p] int_edges_ne [OF assms] by (simp add: written_def)
qed

definition ex_file :: ilp_input where
  "ex_file = \<lparr>ilp_count = 3, ilp_conflict = [5, 0, 3], ilp_edges = [(0, 1), (0, 2), (1, 2)]\<rparr>"

lemma ex_file_fits: "file_fits 200 1000 ex_file" "file_fits 100 99 ex_file"
  by (simp_all add: ex_file_def file_fits_def fits_int_def int_limit_def)

lemma written_file_programs_witness:
  "\<exists>I. read_queryinfo (Some (queryinfo_file ex_file)) = Inr I \<and>
     (\<nexists>x. lp_feasible (generate_ilp I) x) \<and>
     (\<forall>p. (\<exists>x. model_feasible (ilp_test I) x \<and> (\<forall>i \<in> {0..<nQueries I}. x (qcol i) = p i)) \<longleftrightarrow>
        orders (int (ilp_count ex_file)) (int_edges ex_file) [] p)"
  by (rule written_file_programs [OF ex_file_fits(1)])

text \<open>\<open>ilp_query\<close> reads the same blank line as a dependence, which uses up one of the \<open>n\<close> entries that
  its loop looks at.\<close>

definition pairs_of :: "ilp_input \<Rightarrow> ilp_info" where
  "pairs_of info = \<lparr>nQueries = int (ilp_count info), c_index = ilp_conflict info,
     dep_cond = (0, 0) # int_edges info @ replicate (99 - length (ilp_edges info)) (0, 0), rd_cond = []\<rparr>"

lemma read_pairs_of: "file_fits 100 99 info \<Longrightarrow> read_pairs (Some (queryinfo_file info)) = Inr (pairs_of info)"
  using read_pairs_text [of "ilp_conflict info" "ilp_count info" "ilp_edges info"] edges_below [of 100 99 info]
  by (simp add: file_fits_def queryinfo_file_def pairs_of_def int_edges_def)

lemma pairs_of_wf: "file_fits 100 99 info \<Longrightarrow> well_formed (pairs_of info)"
  using edges_below [of 100 99 info]
  by (auto simp: file_fits_def well_formed_def pairs_of_def int_edges_def split_beta)

lemma first_pairs:
  assumes "file_fits 100 99 info"
  shows "filter (\<lambda>(a, b). a \<noteq> b) (dep_cond (first_entries (pairs_of info))) =
     take (ilp_count info - 1) (int_edges info)"
proof -
  let ?n = "ilp_count info" and ?e = "int_edges info"
  have n: "0 < ?n" "?n \<le> 100" "length (ilp_edges info) < 99" using assms by (simp_all add: file_fits_def)
  have len: "?n \<le> length (dep_cond (pairs_of info))" using n by (simp add: pairs_of_def int_edges_def)
  have "dep_cond (first_entries (pairs_of info)) = take ?n (dep_cond (pairs_of info))"
    by (rule nth_equalityI) (use len in \<open>auto simp: first_entries_def pairs_of_def\<close>)
  also have "\<dots> = (0, 0) # take (?n - 1) ?e @ replicate (min (?n - 1 - length ?e) (99 - length (ilp_edges info))) (0, 0)"
    using n(1) by (cases ?n) (simp_all add: pairs_of_def take_replicate)
  also have "filter (\<lambda>(a, b). a \<noteq> b) \<dots> = filter (\<lambda>(a, b). a \<noteq> b) (take (?n - 1) ?e)" by simp
  also have "\<dots> = take (?n - 1) ?e"
  proof -
    have "\<forall>e \<in> set ?e. case e of (a, b) \<Rightarrow> a \<noteq> b"
      using int_edges_ne [OF assms] by (simp only: filter_id_conv)
    then show ?thesis by (auto simp: filter_id_conv dest: in_set_takeD)
  qed
  finally show ?thesis .
qed

text \<open>\<open>ilp_query\<close> keeps only the first \<open>n - 1\<close> of the dependences that QURO wrote
  for \<open>n\<close> queries; with three queries that all depend on each other, it accepts the answer that runs
  the third query before the second although the third reads the second.\<close>

theorem ilp_query_drops_edges:
  assumes "file_fits 100 99 info"
  shows "\<exists>I. read_pairs (Some (queryinfo_file info)) = Inr I \<and>
     (\<forall>p. (\<exists>x. model_feasible (ilp_query I) x \<and> (\<forall>i \<in> {0..<nQueries I}. x (qcol i) = p i)) \<longleftrightarrow>
        orders (int (ilp_count info)) (take (ilp_count info - 1) (int_edges info)) [] p)"
proof (intro exI conjI allI)
  show "read_pairs (Some (queryinfo_file info)) = Inr (pairs_of info)" by (rule read_pairs_of [OF assms])
  have "nQueries (pairs_of info) \<le> int (length (dep_cond (pairs_of info)))"
    using assms by (simp add: pairs_of_def int_edges_def file_fits_def)
  note wf = first_entries_wf [OF pairs_of_wf [OF assms] this]
  show "(\<exists>x. model_feasible (ilp_query (pairs_of info)) x \<and>
          (\<forall>i \<in> {0..<nQueries (pairs_of info)}. x (qcol i) = p i)) \<longleftrightarrow>
        orders (int (ilp_count info)) (take (ilp_count info - 1) (int_edges info)) [] p" for p
    using ltest.solutions [OF wf, of p] unfolding ilp_query_first first_pairs [OF assms]
    by (simp add: first_entries_def pairs_of_def)
qed

lemma ilp_query_drops_edges_witness:
  "\<exists>I x. read_pairs (Some (queryinfo_file ex_file)) = Inr I \<and> model_feasible (ilp_query I) x \<and>
     x (qcol 2) < x (qcol 1) \<and> (1, 2) \<in> set (ilp_edges ex_file)"
proof -
  from ilp_query_drops_edges [OF ex_file_fits(2)] obtain I where
    I: "read_pairs (Some (queryinfo_file ex_file)) = Inr I" and
    iff: "\<And>p. (\<exists>x. model_feasible (ilp_query I) x \<and> (\<forall>i \<in> {0..<nQueries I}. x (qcol i) = p i)) \<longleftrightarrow>
        orders (int (ilp_count ex_file)) (take (ilp_count ex_file - 1) (int_edges ex_file)) [] p" by blast
  have n: "nQueries I = 3"
    using I read_pairs_of [OF ex_file_fits(2)] by (simp add: pairs_of_def ex_file_def)
  let ?p = "\<lambda>i :: int. if i = 0 then 1 else if i = 1 then 3 else (2 :: int)"
  have "{0..<3} = {0, 1, 2 :: int}" by auto
  then have "orders (int (ilp_count ex_file)) (take (ilp_count ex_file - 1) (int_edges ex_file)) [] ?p"
    by (simp add: ex_file_def int_edges_def orders_def inj_on_def)
  with iff [of ?p] obtain x where x: "model_feasible (ilp_query I) x"
    "\<forall>i \<in> {0..<nQueries I}. x (qcol i) = ?p i" by blast
  then have "x (qcol 2) < x (qcol 1)" by (simp add: n)
  with I x(1) show ?thesis by (auto simp: ex_file_def)
qed

section \<open>The order that QURO picks\<close>

text \<open>The position of a query in the order, from 1 on, by the number it has in the file.\<close>

definition picked_position :: "heap \<Rightarrow> bid list \<Rightarrow> bid list \<Rightarrow> int \<Rightarrow> int" where
  "picked_position h tempQ qs i = int (pos qs (filter (is_query h) tempQ ! nat i)) + 1"

lemma pos_inj: "x \<in> set xs \<Longrightarrow> y \<in> set xs \<Longrightarrow> pos xs x = pos xs y \<Longrightarrow> x = y"
  using nth_pos by metis

lemma pos_parents_first:
  assumes "parents_first ps qs" "distinct qs" "q \<in> set qs" "p \<in> ps q"
  shows "pos qs p < pos qs q"
proof -
  from before_split [OF assms(3)] obtain zs where e: "qs = before q qs @ q # zs" by blast
  then have "p \<in> set (before q qs)" using assms(1,4) unfolding parents_first_def by blast
  then show ?thesis by (rule pos_before)
qed

text \<open>C12: the order of the queries that QURO picks without a solver, smallest conflict index first
  among the ready ones, is one of the solutions of the program that \<open>ilp_test\<close> builds from the
  file QURO writes.\<close>

theorem picked_order_feasible:
  assumes "distinct tempQ"
    and "conflict_sorted h (filter (is_query h) tempQ) (srt (filter (is_query h) tempQ))"
    and "\<And>m. map_parent h tempQ = Some m \<Longrightarrow> file_fits 200 1000 (queryinfo h tempQ m)"
  shows "\<exists>m qs I x. map_parent h tempQ = Some m \<and> order_live srt h tempQ = Some qs \<and>
     read_queryinfo (Some (queryinfo_file (queryinfo h tempQ m))) = Inr I \<and>
     model_feasible (ilp_test I) x \<and>
     (\<forall>i \<in> {0..<nQueries I}. x (qcol i) = picked_position h tempQ qs i)"
proof -
  let ?Q = "filter (is_query h) tempQ"
  obtain m qs where m: "map_parent h tempQ = Some m"
    and par: "\<forall>q \<in> set tempQ. is_query h q \<longrightarrow> set (parents_of m q) = parent_set h tempQ q"
    and run: "order_live srt h tempQ = Some qs" "distinct qs"
    and set: "set qs = {q \<in> set tempQ. is_query h q}"
    and first: "parents_first (\<lambda>q. set (parents_of m q)) qs"
    by (rule order_live_run [where srt = srt, OF assms(1,2)])
  let ?info = "queryinfo h tempQ m" and ?p = "picked_position h tempQ qs"
  note fits = assms(3) [OF m]
  have Q: "distinct ?Q" "set ?Q = set qs" using assms(1) set by auto
  have cnt: "ilp_count ?info = length ?Q" by (simp add: queryinfo_def)
  have len: "length qs = length ?Q" using distinct_card [OF Q(1)] distinct_card [OF run(2)] Q(2) by simp
  have mem: "?Q ! nat i \<in> set qs" if "i \<in> {0..<int (length ?Q)}" for i
  proof -
    from that have "nat i < length ?Q" by auto
    from nth_mem [OF this] show ?thesis unfolding Q(2) .
  qed
  have "orders (int (ilp_count ?info)) (int_edges ?info) [] ?p"
    unfolding orders_def cnt
  proof (intro conjI)
    show "\<forall>i \<in> {0..<int (length ?Q)}. 0 \<le> ?p i \<and> ?p i \<le> int (length ?Q)"
    proof
      fix i assume "i \<in> {0..<int (length ?Q)}"
      from pos_less_length [OF mem [OF this]]
      show "0 \<le> ?p i \<and> ?p i \<le> int (length ?Q)" by (simp add: picked_position_def len)
    qed
    show "inj_on ?p {0..<int (length ?Q)}"
    proof (rule inj_onI)
      fix i j assume ij: "i \<in> {0..<int (length ?Q)}" "j \<in> {0..<int (length ?Q)}" "?p i = ?p j"
      then have "?Q ! nat i = ?Q ! nat j"
        using pos_inj [OF mem mem] by (simp add: picked_position_def)
      moreover have "nat i < length ?Q" "nat j < length ?Q" using ij(1,2) by (simp_all add: nat_less_iff)
      ultimately have "nat i = nat j" by (simp add: nth_eq_iff_index_eq [OF Q(1)])
      then show "i = j" using ij(1,2) eq_nat_nat_iff [of i j] by simp
    qed
    show "\<forall>(a, b) \<in> set (int_edges ?info). ?p a < ?p b"
    proof clarify
      fix a b assume "(a, b) \<in> set (int_edges ?info)"
      then have "(nat a, nat b) \<in> set (ilp_edges ?info)" by (auto simp: int_edges_def)
      then obtain p q where ab: "nat a = pos ?Q p" "nat b = pos ?Q q"
        and q: "q \<in> set tempQ" "is_query h q" and p: "p \<in> parent_set h tempQ q"
        unfolding queryinfo_edges [OF par] query_index_def by auto
      have pq: "p \<in> set ?Q" "q \<in> set ?Q" using parent_set_before [OF p] q by auto
      have "p \<in> set (parents_of m q)" using par p q by blast
      then have "pos qs p < pos qs q"
        by (intro pos_parents_first [OF first run(2)]) (use pq(2) Q(2) in \<open>simp_all only:\<close>)
      then show "?p a < ?p b" by (simp add: picked_position_def ab nth_pos [OF pq(1)] nth_pos [OF pq(2)])
    qed
  qed simp
  then have "\<exists>x. model_feasible (ilp_test (written ?info)) x \<and>
      (\<forall>i \<in> {0..<nQueries (written ?info)}. x (qcol i) = ?p i)"
    using ltest.solutions [OF written_wf [OF fits], of ?p] int_edges_ne [OF fits] by (simp add: written_def)
  then obtain x where "model_feasible (ilp_test (written ?info)) x"
    "\<forall>i \<in> {0..<nQueries (written ?info)}. x (qcol i) = ?p i" by blast
  with m run(1) read_written [OF fits] show ?thesis by (intro exI conjI)
qed

lemma ex_queries_fit:
  "map_parent ex_queries [0, 1, 2, 3] = Some m \<Longrightarrow> file_fits 200 1000 (queryinfo ex_queries [0, 1, 2, 3] m)"
proof -
  have "map_option (\<lambda>m. queryinfo ex_queries [0, 1, 2, 3] m) (map_parent ex_queries [0, 1, 2, 3]) =
      Some \<lparr>ilp_count = 3, ilp_conflict = [9, 5, 1], ilp_edges = [(1, 2)]\<rparr>"
    by code_simp
  then show "map_parent ex_queries [0, 1, 2, 3] = Some m \<Longrightarrow> ?thesis"
    by (simp add: file_fits_def fits_int_def int_limit_def)
qed

lemma picked_order_feasible_witness:
  "\<exists>m qs I x. map_parent ex_queries [0, 1, 2, 3] = Some m \<and>
     order_live (sort_key (\<lambda>b. cb_conflict_index (ex_queries b))) ex_queries [0, 1, 2, 3] = Some qs \<and>
     read_queryinfo (Some (queryinfo_file (queryinfo ex_queries [0, 1, 2, 3] m))) = Inr I \<and>
     model_feasible (ilp_test I) x \<and>
     (\<forall>i \<in> {0..<nQueries I}. x (qcol i) = picked_position ex_queries [0, 1, 2, 3] qs i)"
proof (rule picked_order_feasible)
  show "map_parent ex_queries [0, 1, 2, 3] = Some m \<Longrightarrow>
      file_fits 200 1000 (queryinfo ex_queries [0, 1, 2, 3] m)" for m
    by (rule ex_queries_fit)
  show "distinct [0, 1, 2, 3 :: nat]" by simp
  show "conflict_sorted ex_queries (filter (is_query ex_queries) [0, 1, 2, 3])
      (sort_key (\<lambda>b. cb_conflict_index (ex_queries b)) (filter (is_query ex_queries) [0, 1, 2, 3]))"
    by (rule ex_queries_sorted)
qed

end
