(* ===== verification/Quro_Interleave.thy ===== *)
theory Quro_Interleave
  imports Quro_Order
begin

text \<open>
  Putting the other blocks between the ordered queries (\<open>reorderCode\<close> of
  \<open>src/quro/code/CBlocks.cpp\<close>): before each query, the blocks it reads and, through a queue,
  the blocks those need; after it, the blocks that only waited for it; at the end, all the
  rest.  The queue loop and the outer loop are \<open>while_option\<close>s, because the first one need
  not end.
\<close>

section \<open>The loops\<close>

text \<open>One round of the queue loop for the block at position \<open>i\<close>, with \<open>pre\<close> the blocks before
  position \<open>i\<close>: \<open>cb\<close> is emitted when none of them is a definer that is still missing;
  otherwise the missing ones are queued, and \<open>cb\<close> again behind them.\<close>

definition resolve_step ::
    "heap \<Rightarrow> bid list \<Rightarrow> bid list \<times> bid stdset \<times> bid list \<Rightarrow> bid list \<times> bid stdset \<times> bid list" where
  "resolve_step h pre st =
     (let (que, processed, out) = st; cb = hd que;
          missing = filter (\<lambda>t. reads h cb t \<and> \<not> List.member processed t) pre
      in if missing = [] then (tl que, sset_insert cb processed, out @ [cb])
         else (tl que @ missing @ [cb], processed, out))"

definition resolve ::
    "heap \<Rightarrow> bid list \<Rightarrow> bid \<Rightarrow> bid stdset \<times> bid list \<Rightarrow> (bid stdset \<times> bid list) option" where
  "resolve h pre b st =
     map_option snd (while_option (\<lambda>(que, st). que \<noteq> []) (resolve_step h pre) ([b], st))"

text \<open>The first loop skips the queries, so it never reaches its test for the query itself.\<close>

definition place_definers ::
    "heap \<Rightarrow> bid list \<Rightarrow> bid \<Rightarrow> bid stdset \<times> bid list \<Rightarrow> (bid stdset \<times> bid list) option" where
  "place_definers h tempQ2 q st =
     foldM (\<lambda>i st. let t = tempQ2 ! i in
              if is_query h t \<or> \<not> reads h q t \<or> List.member (fst st) t then Some st
              else resolve h (take i tempQ2) t st) [0..<length tempQ2] st"

definition place_waiting ::
    "heap \<Rightarrow> bid list \<Rightarrow> bid \<Rightarrow> bid stdset \<times> bid list \<Rightarrow> bid stdset \<times> bid list" where
  "place_waiting h tempQ2 q st =
     fold (\<lambda>i (processed, out). let t = tempQ2 ! i in
             if is_query h t \<or> \<not> reads h t q then (processed, out)
             else if list_all (\<lambda>d. reads h t d \<longrightarrow> List.member processed d) (take i tempQ2)
             then (sset_insert t processed, out @ [t]) else (processed, out))
       [0..<length tempQ2] st"

text \<open>The assertion that every earlier definer of the query is processed is a \<open>None\<close>.\<close>

definition place_query ::
    "heap \<Rightarrow> bid list \<Rightarrow> bid \<Rightarrow> bid stdset \<times> bid list \<Rightarrow> (bid stdset \<times> bid list) option" where
  "place_query h tempQ2 q st =
     (case place_definers h tempQ2 q st of
        None \<Rightarrow> None
      | Some (processed, out) \<Rightarrow>
          (if list_all (\<lambda>t. reads h q t \<longrightarrow> List.member processed t) (before q tempQ2)
           then Some (place_waiting h tempQ2 q (sset_insert q processed, out @ [q]))
           else None))"

definition place_rest ::
    "heap \<Rightarrow> bid list \<Rightarrow> bid stdset \<times> bid list \<Rightarrow> (bid stdset \<times> bid list) option" where
  "place_rest h tempQ2 st =
     foldM (\<lambda>i st. let t = tempQ2 ! i in
              if List.member (fst st) t then Some st else resolve h (take i tempQ2) t st)
       [0..<length tempQ2] st"

text \<open>The outer loop runs while some block is not processed; its state is \<open>None\<close> after a failure.\<close>

definition outer_more :: "bid list \<Rightarrow> (nat \<times> bid stdset \<times> bid list) option \<Rightarrow> bool" where
  "outer_more tempQ2 st =
     (case st of None \<Rightarrow> False | Some (q_index, processed, out) \<Rightarrow> length processed < length tempQ2)"

definition outer_step ::
    "heap \<Rightarrow> bid list \<Rightarrow> bid list \<Rightarrow> (nat \<times> bid stdset \<times> bid list) option \<Rightarrow>
     (nat \<times> bid stdset \<times> bid list) option" where
  "outer_step h tempQ2 query_seq st =
     (case st of
        None \<Rightarrow> None
      | Some (q_index, st) \<Rightarrow>
          (if q_index < length query_seq
           then map_option (Pair (q_index + 1)) (place_query h tempQ2 (query_seq ! q_index) st)
           else map_option (Pair q_index) (place_rest h tempQ2 st)))"

definition interleave :: "heap \<Rightarrow> bid list \<Rightarrow> bid list \<Rightarrow> bid list option" where
  "interleave h tempQ2 query_seq =
     (case while_option (outer_more tempQ2) (outer_step h tempQ2 query_seq) (Some (0, [], [])) of
        Some (Some (q_index, processed, out)) \<Rightarrow> Some out
      | _ \<Rightarrow> None)"

section \<open>Blocks that read backwards\<close>

text \<open>
  A non-query block reads earlier blocks only; a query block (which may be a merged loop) may
  read itself too.  A non-query block that reads itself can make the queue loop run forever.
\<close>

definition reads_forward :: "heap \<Rightarrow> bid list \<Rightarrow> bool" where
  "reads_forward h T \<longleftrightarrow>
     (\<forall>a \<in> set T. \<forall>d \<in> set T. reads h a d \<longrightarrow> pos T d < pos T a \<or> (d = a \<and> is_query h a))"

definition definers :: "heap \<Rightarrow> bid list \<Rightarrow> bid \<Rightarrow> bid set" where
  "definers h T b = {d \<in> set T. reads h b d} - {b}"

text \<open>No chain of three blocks that are not queries: then the queue loop never queues a block twice.\<close>

definition shallow :: "heap \<Rightarrow> bid list \<Rightarrow> bool" where
  "shallow h T \<longleftrightarrow>
     (\<forall>a \<in> set T. \<forall>b \<in> set T. \<forall>c \<in> set T. reads h a b \<and> reads h b c \<longrightarrow>
        is_query h a \<or> is_query h b \<or> is_query h c)"

definition emit_ok :: "heap \<Rightarrow> bid list \<Rightarrow> bid stdset \<times> bid list \<Rightarrow> bool" where
  "emit_ok h T st \<longleftrightarrow>
     (let (processed, out) = st in
      sset_ok processed \<and> set processed = set out \<and> set out \<subseteq> set T \<and>
      parents_first (definers h T) out \<and> (shallow h T \<longrightarrow> distinct out))"

lemma emit_ok_closed:
  "emit_ok h T (processed, out) \<Longrightarrow> b \<in> set processed \<Longrightarrow> definers h T b \<subseteq> set processed"
proof -
  assume e: "emit_ok h T (processed, out)" and b: "b \<in> set processed"
  from e have out: "set processed = set out" "parents_first (definers h T) out"
    by (simp_all add: emit_ok_def)
  with b obtain us vs where s: "out = us @ b # vs" by (auto simp: in_set_conv_decomp)
  from out(2) s have "definers h T b \<subseteq> set us" unfolding parents_first_def by blast
  with out(1) s show ?thesis by auto
qed

lemma emit_ok_emit:
  "emit_ok h T (processed, out) \<Longrightarrow> b \<in> set T \<Longrightarrow> definers h T b \<subseteq> set processed \<Longrightarrow>
   (shallow h T \<Longrightarrow> b \<notin> set processed) \<Longrightarrow> emit_ok h T (sset_insert b processed, out @ [b])"
  by (auto simp: emit_ok_def parents_first_snoc)

lemma forward_definers:
  "reads_forward h T \<Longrightarrow> b \<in> set T \<Longrightarrow> d \<in> definers h T b \<Longrightarrow> pos T d < pos T b"
  by (auto simp: reads_forward_def definers_def)

lemma take_pos: "distinct T \<Longrightarrow> i < length T \<Longrightarrow> pos T (T ! i) = i"
proof (induction T arbitrary: i)
  case Nil
  then show ?case by simp
next
  case (Cons z T)
  then show ?case by (cases i) (auto simp: pos_Cons)
qed

lemma in_take_iff: "distinct T \<Longrightarrow> i \<le> length T \<Longrightarrow> d \<in> set (take i T) \<longleftrightarrow> d \<in> set T \<and> pos T d < i"
proof -
  assume d: "distinct T" and i: "i \<le> length T"
  have "d \<in> set (take i T) \<longleftrightarrow> (\<exists>k < i. T ! k = d)"
    using i by (auto simp: in_set_conv_nth)
  also have "\<dots> \<longleftrightarrow> d \<in> set T \<and> pos T d < i"
  proof
    assume "\<exists>k < i. T ! k = d"
    then show "d \<in> set T \<and> pos T d < i" using d i take_pos [OF d] by auto
  next
    assume "d \<in> set T \<and> pos T d < i"
    then show "\<exists>k < i. T ! k = d" using nth_pos by metis
  qed
  finally show ?thesis .
qed

section \<open>The queue loop ends\<close>

text \<open>
  The measure: blocks still missing; the first position among the missing blocks on the queue;
  how far the block at that position is from the front.
\<close>

definition unplaced :: "bid list \<times> bid stdset \<times> bid list \<Rightarrow> bid set" where
  "unplaced st = set (fst st) - set (fst (snd st))"

definition low_pos :: "bid list \<Rightarrow> bid list \<times> bid stdset \<times> bid list \<Rightarrow> nat" where
  "low_pos T st = (if unplaced st = {} then 0 else Min (pos T ` unplaced st))"

definition low_dist :: "bid list \<Rightarrow> bid list \<times> bid stdset \<times> bid list \<Rightarrow> nat" where
  "low_dist T st =
     length (takeWhile (\<lambda>b. \<not> (b \<in> unplaced st \<and> pos T b = low_pos T st)) (fst st))"

definition missing_count :: "bid list \<Rightarrow> bid list \<times> bid stdset \<times> bid list \<Rightarrow> nat" where
  "missing_count T st = card (set T - set (fst (snd st)))"

text \<open>In the shallow case only the block that is resolved can wait behind the blocks it needs.\<close>

definition que_ok :: "heap \<Rightarrow> bid list \<Rightarrow> bid \<Rightarrow> bid list \<Rightarrow> bid set \<Rightarrow> bool" where
  "que_ok h T x que P \<longleftrightarrow>
     distinct que \<and> set que \<inter> P = {} \<and> (que = [] \<or> (\<exists>M. que = M @ [x] \<and> (\<forall>m \<in> set M. definers h T m \<subseteq> P)))"

lemma que_ok_Cons:
  assumes "que_ok h T x (b # que) P"
  shows "b \<notin> P \<and> que_ok h T x que (insert b P) \<and> (que = [] \<and> b = x \<or> definers h T b \<subseteq> P)"
proof -
  from assms obtain M where M: "b # que = M @ [x]" "\<forall>m \<in> set M. definers h T m \<subseteq> P" by (auto simp: que_ok_def)
  with assms show ?thesis by (cases M) (auto simp: que_ok_def)
qed

definition resolve_inv ::
    "heap \<Rightarrow> bid list \<Rightarrow> nat \<Rightarrow> bid list \<Rightarrow> bid list \<times> bid stdset \<times> bid list \<Rightarrow> bool" where
  "resolve_inv h T i out0 st \<longleftrightarrow>
     (let (que, processed, out) = st in
      emit_ok h T (processed, out) \<and>
      (\<forall>u \<in> set que. u \<in> set T \<and> pos T u \<le> i \<and> \<not> is_query h u \<and>
         {p. (u, p) \<in> (reads_back h T)\<^sup>+ \<and> is_query h p} \<subseteq> set processed) \<and>
      filter (is_query h) out = filter (is_query h) out0 \<and>
      (shallow h T \<longrightarrow> que_ok h T (T ! i) que (set processed)))"

lemma low_pos_le: "b \<in> unplaced st \<Longrightarrow> low_pos T st \<le> pos T b"
  by (auto simp: low_pos_def unplaced_def)

lemma low_pos_mem:
  assumes "unplaced st \<noteq> {}"
  shows "\<exists>b \<in> unplaced st. pos T b = low_pos T st"
proof -
  have "Min (pos T ` unplaced st) \<in> pos T ` unplaced st"
    using assms by (intro Min_in) (auto simp: unplaced_def)
  then show ?thesis using assms by (auto simp: low_pos_def)
qed

lemma resolve_missing:
  assumes d: "distinct T" and i: "i < length T" and fwd: "reads_forward h T"
    and inv: "resolve_inv h T i out0 (cb # que, processed, out)"
  shows "set (filter (\<lambda>t. reads h cb t \<and> \<not> List.member processed t) (take i T)) =
           definers h T cb - set processed"
proof -
  have cb: "cb \<in> set T" "pos T cb \<le> i" "\<not> is_query h cb" using inv by (auto simp: resolve_inv_def)
  have self: "\<not> reads h cb cb" using fwd cb by (auto simp: reads_forward_def)
  have "pos T x < i" if "x \<in> definers h T cb" for x
    using forward_definers [OF fwd cb(1) that] cb(2) by simp
  then show ?thesis using d i self by (auto simp: in_take_iff definers_def)
qed

lemma resolve_inv_step:
  assumes d: "distinct T" and i: "i < length T" and fwd: "reads_forward h T"
    and inv: "resolve_inv h T i out0 st" and ne: "fst st \<noteq> []"
  shows "resolve_inv h T i out0 (resolve_step h (take i T) st)"
proof -
  obtain cb que processed out where st: "st = (cb # que, processed, out)"
    using ne by (cases st) (metis fst_conv list.exhaust prod.collapse)
  let ?missing = "filter (\<lambda>t. reads h cb t \<and> \<not> List.member processed t) (take i T)"
  note mis = resolve_missing [OF d i fwd inv [unfolded st]]
  have cb: "cb \<in> set T" "pos T cb \<le> i" "\<not> is_query h cb"
    "{p. (cb, p) \<in> (reads_back h T)\<^sup>+ \<and> is_query h p} \<subseteq> set processed"
    and e: "emit_ok h T (processed, out)"
    using inv st by (auto simp: resolve_inv_def)
  show ?thesis
  proof (cases "?missing = []")
    case True
    then have def: "definers h T cb \<subseteq> set processed" using mis by auto
    have q: "cb \<notin> set processed \<and> que_ok h T (T ! i) que (insert cb (set processed))" if "shallow h T"
      using inv st that que_ok_Cons [of h T "T ! i" cb que "set processed"] by (auto simp: resolve_inv_def)
    then have "emit_ok h T (sset_insert cb processed, out @ [cb])" by (intro emit_ok_emit [OF e cb(1) def]) blast
    with q inv st True cb(3) show ?thesis by (auto simp: resolve_step_def resolve_inv_def)
  next
    case False
    have "u \<in> set T \<and> pos T u \<le> i \<and> \<not> is_query h u \<and>
         {p. (u, p) \<in> (reads_back h T)\<^sup>+ \<and> is_query h p} \<subseteq> set processed"
      if u: "u \<in> set ?missing" for u
    proof -
      from u mis have ud: "u \<in> definers h T cb" "u \<notin> set processed" by blast+
      then have uT: "u \<in> set T" "reads h cb u" by (auto simp: definers_def)
      have lt: "pos T u < pos T cb" using forward_definers [OF fwd cb(1) ud(1)] .
      then have bk: "(cb, u) \<in> reads_back h T"
        using uT cb(1) by (simp add: reads_back_def pos_iff_before)
      have "\<not> is_query h u" using cb(4) ud(2) bk by blast
      moreover have "{p. (u, p) \<in> (reads_back h T)\<^sup>+ \<and> is_query h p} \<subseteq> set processed"
        using cb(4) trancl_into_trancl2 [OF bk] by blast
      ultimately show ?thesis using uT(1) lt cb(2) by simp
    qed
    note new = this
    have "que_ok h T (T ! i) (que @ ?missing @ [cb]) (set processed)" if sh: "shallow h T"
    proof -
      have "que_ok h T (T ! i) (cb # que) (set processed)" using inv st sh by (simp add: resolve_inv_def)
      moreover have "\<not> definers h T cb \<subseteq> set processed" using False mis by (metis Diff_eq_empty_iff set_empty)
      ultimately have x: "que = []" "cb = T ! i" "cb \<notin> set processed" using que_ok_Cons by blast+
      have "definers h T m \<subseteq> set processed" if m: "m \<in> set ?missing" for m
      proof
        fix c assume c: "c \<in> definers h T m"
        from m mis have md: "m \<in> set T" "reads h cb m" by (auto simp: definers_def)
        from c have cT: "c \<in> set T" "reads h m c" by (auto simp: definers_def)
        with sh md cb(1,3) new [OF m] have "is_query h c" unfolding shallow_def by blast
        moreover have "(m, c) \<in> reads_back h T"
          using forward_definers [OF fwd md(1) c] cT md(1) by (simp add: reads_back_def pos_iff_before)
        ultimately show "c \<in> set processed" using new [OF m] by blast
      qed
      moreover have "cb \<notin> set ?missing" using mis by (auto simp: definers_def)
      moreover have "distinct ?missing" using d by (simp add: distinct_take)
      moreover have "set ?missing \<inter> set processed = {}" by auto
      ultimately show ?thesis using x by (auto simp: que_ok_def)
    qed
    with new False inv st show ?thesis by (auto simp: resolve_step_def resolve_inv_def)
  qed
qed

lemma resolve_decreases:
  assumes d: "distinct T" and i: "i < length T" and fwd: "reads_forward h T"
    and inv: "resolve_inv h T i out0 st" and ne: "fst st \<noteq> []"
  shows "(resolve_step h (take i T) st, st) \<in> measures [missing_count T, low_pos T, low_dist T]"
proof -
  obtain cb que processed out where st: "st = (cb # que, processed, out)"
    using ne by (cases st) (metis fst_conv list.exhaust prod.collapse)
  let ?missing = "filter (\<lambda>t. reads h cb t \<and> \<not> List.member processed t) (take i T)"
  note mis = resolve_missing [OF d i fwd inv [unfolded st]]
  have cb: "cb \<in> set T" and e: "emit_ok h T (processed, out)" using inv st by (auto simp: resolve_inv_def)
  show ?thesis
  proof (cases "?missing = []")
    case True
    then have st': "resolve_step h (take i T) st = (que, sset_insert cb processed, out @ [cb])"
      by (simp add: resolve_step_def st)
    show ?thesis
    proof (cases "cb \<in> set processed")
      case False
      then have "set T - insert cb (set processed) \<subset> set T - set processed" using cb by blast
      then show ?thesis unfolding st' by (simp add: missing_count_def st psubset_card_mono)
    next
      case True
      let ?st' = "(que, sset_insert cb processed, out @ [cb])"
      have u: "unplaced ?st' = unplaced st" using True by (auto simp: unplaced_def st)
      have "missing_count T ?st' = missing_count T st"
        using True by (simp add: missing_count_def st insert_absorb)
      moreover have l: "low_pos T ?st' = low_pos T st" by (simp add: low_pos_def u)
      moreover have "cb \<notin> unplaced st" using True by (simp add: unplaced_def st)
      then have "low_dist T ?st' < low_dist T st" unfolding low_dist_def u l by (simp add: st)
      ultimately show ?thesis unfolding st' by simp
    qed
  next
    case False
    let ?st' = "(que @ ?missing @ [cb], processed, out)"
    have st': "resolve_step h (take i T) st = ?st'" using False by (simp add: resolve_step_def st)
    from False mis obtain m where m: "m \<in> set ?missing" by (meson list.set_sel(1))
    then have md: "m \<in> definers h T cb" "m \<notin> set processed" using mis by blast+
    have cbu: "cb \<notin> set processed" using emit_ok_closed [OF e, of cb] md by blast
    have sub: "unplaced st \<subseteq> unplaced ?st'" using cbu by (auto simp: unplaced_def st)
    have cbin: "cb \<in> unplaced st" using cbu by (simp add: unplaced_def st)
    have min: "m \<in> unplaced ?st'" using m md(2) by (auto simp: unplaced_def)
    from low_pos_mem [of st T] cbin obtain b where b: "b \<in> unplaced st" "pos T b = low_pos T st" by blast
    have le: "low_pos T ?st' \<le> low_pos T st"
      using low_pos_le [of b ?st' T] sub b by auto
    have "low_pos T ?st' < low_pos T st \<or>
        (low_pos T ?st' = low_pos T st \<and> low_dist T ?st' < low_dist T st)"
    proof (cases "pos T cb = low_pos T st")
      case True
      have "low_pos T ?st' \<le> pos T m" by (rule low_pos_le [OF min])
      also have "\<dots> < pos T cb" using forward_definers [OF fwd cb md(1)] .
      finally show ?thesis using True by simp
    next
      case False
      then have "b \<in> set que" using b by (auto simp: unplaced_def st)
      show ?thesis
      proof (cases "low_pos T ?st' = low_pos T st")
        case True
        let ?Q = "\<lambda>x. \<not> (x \<in> unplaced st \<and> pos T x = low_pos T st)"
        let ?Q' = "\<lambda>x. \<not> (x \<in> unplaced ?st' \<and> pos T x = low_pos T st)"
        have same: "takeWhile ?Q' que = takeWhile ?Q que"
          by (rule takeWhile_cong) (auto simp: unplaced_def st)
        have app: "takeWhile ?Q' (que @ ?missing @ [cb]) = takeWhile ?Q' que"
          using \<open>b \<in> set que\<close> b sub by (intro takeWhile_append1 [of b]) auto
        have "low_dist T ?st' = length (takeWhile ?Q' (que @ ?missing @ [cb]))"
          by (simp only: low_dist_def True fst_conv)
        then have "low_dist T ?st' = length (takeWhile ?Q que)" by (simp only: app same)
        moreover have "low_dist T st = Suc (length (takeWhile ?Q que))"
          using False by (simp add: low_dist_def st)
        ultimately show ?thesis using True by simp
      qed (use le in simp)
    qed
    moreover have "missing_count T ?st' = missing_count T st" by (simp add: missing_count_def st)
    ultimately show ?thesis unfolding st' by auto
  qed
qed

text \<open>What every phase of the loops gives: blocks are only added, in an order that respects the
  definers, and the queries among them are as said.\<close>

definition emits ::
    "heap \<Rightarrow> bid list \<Rightarrow> bid list \<Rightarrow> bid stdset \<times> bid list \<Rightarrow> bid stdset \<times> bid list \<Rightarrow> bool" where
  "emits h T qs st st' \<longleftrightarrow>
     emit_ok h T st' \<and> set (fst st) \<subseteq> set (fst st') \<and>
     filter (is_query h) (snd st') = filter (is_query h) (snd st) @ qs"

lemma emits_refl: "emit_ok h T st \<Longrightarrow> emits h T [] st st"
  by (simp add: emits_def)

lemma emits_trans: "emits h T qs st st1 \<Longrightarrow> emits h T rs st1 st2 \<Longrightarrow> emits h T (qs @ rs) st st2"
  by (auto simp: emits_def)

lemma emits_emit_ok: "emits h T qs st st' \<Longrightarrow> emit_ok h T st'"
  by (simp add: emits_def)

lemma emits_mono: "emits h T qs st st' \<Longrightarrow> set (fst st) \<subseteq> set (fst st')"
  by (simp add: emits_def)

lemma resolve_step_keeps:
  assumes "fst st \<noteq> []" "x \<in> set (fst st) \<or> x \<in> set (fst (snd st))"
  shows "(x \<in> set (fst (resolve_step h pre st)) \<or> x \<in> set (fst (snd (resolve_step h pre st)))) \<and>
         set (fst (snd st)) \<subseteq> set (fst (snd (resolve_step h pre st)))"
proof -
  obtain cb que processed out where st: "st = (cb # que, processed, out)"
    using assms(1) by (cases st) (metis fst_conv list.exhaust prod.collapse)
  show ?thesis using assms(2) by (auto simp: st resolve_step_def Let_def)
qed

lemma resolve_total:
  assumes d: "distinct T" and i: "i < length T" and fwd: "reads_forward h T"
    and e: "emit_ok h T st" and nq: "\<not> is_query h (T ! i)" and np: "T ! i \<notin> set (fst st)"
    and q: "{p. (T ! i, p) \<in> (reads_back h T)\<^sup>+ \<and> is_query h p} \<subseteq> set (fst st)"
  shows "\<exists>st'. resolve h (take i T) (T ! i) st = Some st' \<and> emits h T [] st st' \<and>
           T ! i \<in> set (fst st')"
proof -
  let ?x = "T ! i"
  let ?b = "\<lambda>(que, st). que \<noteq> ([] :: bid list)"
  let ?P = "\<lambda>s. resolve_inv h T i (snd st) s \<and> (?x \<in> set (fst s) \<or> ?x \<in> set (fst (snd s))) \<and>
              set (fst st) \<subseteq> set (fst (snd s))"
  let ?c = "resolve_step h (take i T)"
  have start: "?P ([?x], st)"
    using e nq np q i d by (cases st) (auto simp: resolve_inv_def take_pos que_ok_def)
  have step: "?P (?c s)" if "?P s \<and> ?b s" for s
  proof -
    from that have ne: "fst s \<noteq> []" by (cases s) auto
    with that resolve_inv_step [OF d i fwd _ ne] resolve_step_keeps [OF ne, of ?x h "take i T"]
    show ?thesis by blast
  qed
  have "\<exists>s. while_option ?b ?c ([?x], st) = Some s"
  proof (rule wf_rel_while_option_Some [where P = ?P and
        R = "measures [missing_count T, low_pos T, low_dist T]"])
    show "wf (measures [missing_count T, low_pos T, low_dist T])" by (rule wf_measures)
  next
    fix s assume s: "?P s \<and> ?b s"
    then have "fst s \<noteq> []" by (cases s) auto
    with s show "(?c s, s) \<in> measures [missing_count T, low_pos T, low_dist T]"
      by (intro resolve_decreases [OF d i fwd]) auto
  qed (use step start in auto)
  then obtain s where w: "while_option ?b ?c ([?x], st) = Some s" ..
  have "?P s" by (rule while_option_rule [where P = ?P, OF _ w start]) (use step in blast)
  moreover have "fst s = []" using while_option_stop [OF w] by (cases s) auto
  ultimately have "emits h T [] st (snd s)" "?x \<in> set (fst (snd s))"
    by (cases s; auto simp: emits_def resolve_inv_def)+
  with w show ?thesis by (simp add: resolve_def)
qed

text \<open>A loop over the positions whose body emits blocks.\<close>

lemma emits_loop:
  assumes "emit_ok h T st"
    and "\<And>i s. i \<in> set xs \<Longrightarrow> emits h T [] st s \<Longrightarrow>
           \<exists>s'. f i s = Some s' \<and> emits h T [] s s' \<and> (C i \<longrightarrow> T ! i \<in> set (fst s'))"
  shows "\<exists>s'. foldM f xs st = Some s' \<and> emits h T [] st s' \<and>
           (\<forall>i \<in> set xs. C i \<longrightarrow> T ! i \<in> set (fst s'))"
  using assms
proof (induction xs arbitrary: st)
  case Nil
  then show ?case by (simp add: emits_refl)
next
  case (Cons i xs)
  from Cons.prems(2) [of i st] emits_refl [OF Cons.prems(1)] obtain s1 where
    s1: "f i st = Some s1" "emits h T [] st s1" "C i \<longrightarrow> T ! i \<in> set (fst s1)" by auto
  have "\<exists>s'. f j s = Some s' \<and> emits h T [] s s' \<and> (C j \<longrightarrow> T ! j \<in> set (fst s'))"
    if "j \<in> set xs" "emits h T [] s1 s" for j s
    using Cons.prems(2) [of j s] that emits_trans [OF s1(2) that(2)] by simp
  from Cons.IH [OF emits_emit_ok [OF s1(2)] this] obtain s' where
    s': "foldM f xs s1 = Some s'" "emits h T [] s1 s'" "\<forall>i \<in> set xs. C i \<longrightarrow> T ! i \<in> set (fst s')" by blast
  have "emits h T [] st s'" using emits_trans [OF s1(2) s'(2)] by simp
  moreover have "C i \<longrightarrow> T ! i \<in> set (fst s')" using s1(3) emits_mono [OF s'(2)] by blast
  ultimately show ?case using s1(1) s'(1,3) by simp
qed

lemma place_definers_total:
  assumes d: "distinct T" and fwd: "reads_forward h T" and e: "emit_ok h T st"
    and q: "q \<in> set T" "is_query h q" "parent_set h T q \<subseteq> set (fst st)"
  shows "\<exists>st'. place_definers h T q st = Some st' \<and> emits h T [] st st' \<and>
           (\<forall>t \<in> set T. \<not> is_query h t \<and> reads h q t \<longrightarrow> t \<in> set (fst st'))"
proof -
  let ?f = "\<lambda>i st. let t = T ! i in
              if is_query h t \<or> \<not> reads h q t \<or> List.member (fst st) t then Some st
              else resolve h (take i T) t st"
  let ?C = "\<lambda>i. \<not> is_query h (T ! i) \<and> reads h q (T ! i)"
  have body: "\<exists>s'. ?f i s = Some s' \<and> emits h T [] s s' \<and> (?C i \<longrightarrow> T ! i \<in> set (fst s'))"
    if i: "i \<in> set [0..<length T]" and s: "emits h T [] st s" for i s
  proof (cases "?C i \<and> T ! i \<notin> set (fst s)")
    case False
    with emits_refl [OF emits_emit_ok [OF s]] show ?thesis by (auto simp: Let_def)
  next
    case True
    from i have il: "i < length T" by simp
    with True fwd q(1,2) have "pos T (T ! i) < pos T q"
      unfolding reads_forward_def by (metis nth_mem)
    then have "T ! i \<in> set (before q T)" using il by (simp add: pos_iff_before)
    with True have "{p. (T ! i, p) \<in> (reads_back h T)\<^sup>+ \<and> is_query h p} \<subseteq> parent_set h T q"
      by (auto simp: parent_set_def)
    also have "\<dots> \<subseteq> set (fst s)" using q(3) emits_mono [OF s] by blast
    finally have "\<exists>s'. resolve h (take i T) (T ! i) s = Some s' \<and> emits h T [] s s' \<and>
           T ! i \<in> set (fst s')"
      using True by (intro resolve_total [OF d il fwd emits_emit_ok [OF s]]) auto
    with True show ?thesis by (auto simp: Let_def)
  qed
  from emits_loop [where C = ?C and f = ?f and xs = "[0..<length T]", OF e body] obtain s' where
    "foldM ?f [0..<length T] st = Some s'" "emits h T [] st s'"
    "\<forall>i < length T. ?C i \<longrightarrow> T ! i \<in> set (fst s')" by auto
  then show ?thesis unfolding place_definers_def by (auto simp: all_set_conv_all_nth)
qed

lemma place_rest_total:
  assumes d: "distinct T" and fwd: "reads_forward h T" and e: "emit_ok h T st"
    and q: "{q \<in> set T. is_query h q} \<subseteq> set (fst st)"
  shows "\<exists>st'. place_rest h T st = Some st' \<and> emits h T [] st st' \<and> set T \<subseteq> set (fst st')"
proof -
  let ?f = "\<lambda>i st. let t = T ! i in
              if List.member (fst st) t then Some st else resolve h (take i T) t st"
  have body: "\<exists>s'. ?f i s = Some s' \<and> emits h T [] s s' \<and> (True \<longrightarrow> T ! i \<in> set (fst s'))"
    if i: "i \<in> set [0..<length T]" and s: "emits h T [] st s" for i s
  proof (cases "T ! i \<in> set (fst s)")
    case True
    with emits_refl [OF emits_emit_ok [OF s]] show ?thesis by (auto simp: Let_def)
  next
    case False
    from i have il: "i < length T" by simp
    have qs: "p \<in> set (fst s)" if "p \<in> set T" "is_query h p" for p
      using that q emits_mono [OF s] by blast
    have "(T ! i, p) \<in> (reads_back h T)\<^sup>+ \<Longrightarrow> p \<in> set T" for p
      by (erule trancl.cases) (auto simp: reads_back_def dest: subsetD [OF before_subset])
    then have "{p. (T ! i, p) \<in> (reads_back h T)\<^sup>+ \<and> is_query h p} \<subseteq> set (fst s)" using qs by blast
    moreover have "\<not> is_query h (T ! i)" using False qs il by auto
    moreover note False
    ultimately have "\<exists>s'. resolve h (take i T) (T ! i) s = Some s' \<and> emits h T [] s s' \<and>
           T ! i \<in> set (fst s')"
      by (intro resolve_total [OF d il fwd emits_emit_ok [OF s]])
    with False show ?thesis by (auto simp: Let_def)
  qed
  from emits_loop [where C = "\<lambda>_. True" and f = ?f and xs = "[0..<length T]", OF e body] obtain s' where
    "foldM ?f [0..<length T] st = Some s'" "emits h T [] st s'"
    "\<forall>i < length T. T ! i \<in> set (fst s')" by auto
  then show ?thesis unfolding place_rest_def by (auto simp: in_set_conv_nth)
qed

lemma place_waiting_emits:
  assumes d: "distinct T" and fwd: "reads_forward h T" and e: "emit_ok h T st"
    and new: "\<forall>t \<in> set T. \<not> is_query h t \<and> reads h t q \<longrightarrow> t \<notin> set (fst st)"
  shows "emits h T [] st (place_waiting h T q st)"
proof -
  let ?f = "\<lambda>i (processed, out). let t = T ! i in
             if is_query h t \<or> \<not> reads h t q then (processed, out)
             else if list_all (\<lambda>d. reads h t d \<longrightarrow> List.member processed d) (take i T)
             then (sset_insert t processed, out @ [t]) else (processed, out)"
  let ?W = "\<lambda>i. \<not> is_query h (T ! i) \<and> reads h (T ! i) q"
  have "distinct xs \<Longrightarrow> set xs \<subseteq> {..<length T} \<Longrightarrow> emit_ok h T st \<Longrightarrow>
      \<forall>i \<in> set xs. ?W i \<longrightarrow> T ! i \<notin> set (fst st) \<Longrightarrow> emits h T [] st (fold ?f xs st)" for xs st
  proof (induction xs arbitrary: st)
    case Nil
    then show ?case by (simp add: emits_refl)
  next
    case (Cons i xs)
    obtain processed out where so: "st = (processed, out)" by (cases st)
    from Cons.prems(2) have il: "i < length T" by simp
    show ?case
    proof (cases "?W i \<and> list_all (\<lambda>d. reads h (T ! i) d \<longrightarrow> List.member processed d) (take i T)")
      case False
      then have "?f i st = st" by (auto simp: so Let_def)
      with Cons show ?thesis by simp
    next
      case True
      let ?st = "(sset_insert (T ! i) processed, out @ [T ! i])"
      have "definers h T (T ! i) \<subseteq> set processed"
      proof
        fix x assume x: "x \<in> definers h T (T ! i)"
        have "pos T x < i" using forward_definers [OF fwd _ x] il take_pos [OF d il] by simp
        with x have "x \<in> set (take i T)" "reads h (T ! i) x"
          using d il by (auto simp: in_take_iff definers_def)
        with True show "x \<in> set processed" by (auto simp: list_all_iff)
      qed
      from emit_ok_emit [OF Cons.prems(3) [unfolded so] _ this] il Cons.prems(4) True so
      have e1: "emit_ok h T ?st" by simp
      have "T ! j \<noteq> T ! i" if "j \<in> set xs" for j
        using that Cons.prems(1,2) d by (auto simp: nth_eq_iff_index_eq)
      with Cons.prems(4) so have "\<forall>j \<in> set xs. ?W j \<longrightarrow> T ! j \<notin> set (fst ?st)" by auto
      with Cons.IH [OF _ _ e1] Cons.prems(1,2) have "emits h T [] ?st (fold ?f xs ?st)" by simp
      moreover have "emits h T [] st ?st" using e1 True so by (auto simp: emits_def)
      moreover have "?f i st = ?st" using True by (simp add: so Let_def)
      ultimately show ?thesis using emits_trans [of h T "[]" st ?st "[]"] by simp
    qed
  qed
  note loop = this
  show ?thesis unfolding place_waiting_def by (rule loop) (use e new in auto)
qed

lemma emit_ok_queries: "emit_ok h T st \<Longrightarrow> is_query h q \<Longrightarrow>
    q \<in> set (fst st) \<longleftrightarrow> q \<in> set (filter (is_query h) (snd st))"
  by (cases st) (auto simp: emit_ok_def)

lemma place_query_total:
  assumes d: "distinct T" and fwd: "reads_forward h T" and e: "emit_ok h T st"
    and q: "q \<in> set T" "is_query h q" "parent_set h T q \<subseteq> set (fst st)" and new: "q \<notin> set (fst st)"
  shows "\<exists>st'. place_query h T q st = Some st' \<and> emits h T [q] st st'"
proof -
  from place_definers_total [OF d fwd e q] obtain processed out where
    pd: "place_definers h T q st = Some (processed, out)" "emits h T [] st (processed, out)"
      "\<forall>t \<in> set T. \<not> is_query h t \<and> reads h q t \<longrightarrow> t \<in> set processed" by auto
  have all: "t \<in> set processed" if "t \<in> set (before q T)" "reads h q t" for t
  proof (cases "is_query h t")
    case True
    with that have "t \<in> parent_set h T q" by (simp add: parent_set_def)
    with q(3) emits_mono [OF pd(2)] show ?thesis by auto
  next
    case False
    with pd(3) that subsetD [OF before_subset that(1)] show ?thesis by blast
  qed
  have "definers h T q \<subseteq> set processed"
  proof
    fix t assume t: "t \<in> definers h T q"
    then have "t \<in> set T" "reads h q t" by (auto simp: definers_def)
    with forward_definers [OF fwd q(1) t] show "t \<in> set processed"
      by (intro all) (simp_all add: pos_iff_before)
  qed
  have q1: "q \<notin> set processed"
  proof -
    have "filter (is_query h) out = filter (is_query h) (snd st)" using pd(2) by (simp add: emits_def)
    then show ?thesis using new emit_ok_queries [OF e q(2)] emit_ok_queries [OF emits_emit_ok [OF pd(2)] q(2)]
      by (simp only: fst_conv snd_conv not_False_eq_True)
  qed
  from emit_ok_emit [OF emits_emit_ok [OF pd(2)] q(1) \<open>definers h T q \<subseteq> set processed\<close>] q1
  have e1: "emit_ok h T (sset_insert q processed, out @ [q])" .
  then have "emits h T [q] (processed, out) (sset_insert q processed, out @ [q])"
    using q(2) by (auto simp: emits_def)
  moreover have "t \<notin> set (fst (sset_insert q processed, out @ [q]))"
    if t: "t \<in> set T" "\<not> is_query h t" "reads h t q" for t
  proof
    assume "t \<in> set (fst (sset_insert q processed, out @ [q]))"
    with t(2) q(2) have "t \<in> set processed" by auto
    from emit_ok_closed [OF emits_emit_ok [OF pd(2)] this] t q(1,2) have "q \<in> set processed" by (auto simp: definers_def)
    with q1 show False ..
  qed
  ultimately have "emits h T ([] @ [q] @ []) st (place_waiting h T q (sset_insert q processed, out @ [q]))"
    using emits_trans [OF pd(2) emits_trans [OF _ place_waiting_emits [OF d fwd e1, of q]]] by blast
  then have "emits h T [q] st (place_waiting h T q (sset_insert q processed, out @ [q]))" by simp
  moreover have "list_all (\<lambda>t. reads h q t \<longrightarrow> List.member processed t) (before q T)"
    using all by (auto simp: list_all_iff)
  ultimately show ?thesis using pd(1) by (auto simp: place_query_def)
qed

section \<open>The outer loop\<close>

definition outer_inv ::
    "heap \<Rightarrow> bid list \<Rightarrow> bid list \<Rightarrow> (nat \<times> bid stdset \<times> bid list) option \<Rightarrow> bool" where
  "outer_inv h T query_seq s \<longleftrightarrow>
     (\<exists>i st. s = Some (i, st) \<and> i \<le> length query_seq \<and> emit_ok h T st \<and>
             filter (is_query h) (snd st) = take i query_seq)"

definition outer_measure ::
    "bid list \<Rightarrow> bid list \<Rightarrow> (nat \<times> bid stdset \<times> bid list) option \<Rightarrow> nat" where
  "outer_measure T query_seq s =
     (case s of None \<Rightarrow> 0
      | Some (i, st) \<Rightarrow> (length query_seq - i) + (if length (fst st) < length T then 1 else 0))"

lemma emit_ok_length: "emit_ok h T st \<Longrightarrow> length (fst st) = card (set (fst st))"
proof -
  assume "emit_ok h T st"
  then have "distinct (fst st)" by (cases st) (auto simp: emit_ok_def intro: sset_ok_distinct)
  then show ?thesis by (simp add: distinct_card)
qed

lemma outer_step_inv:
  assumes d: "distinct T" and fwd: "reads_forward h T"
    and qs: "set query_seq = {q \<in> set T. is_query h q}" and dq: "distinct query_seq"
    and par: "parents_first (parent_set h T) query_seq"
    and inv: "outer_inv h T query_seq s" and more: "outer_more T s"
  shows "outer_inv h T query_seq (outer_step h T query_seq s) \<and>
         outer_measure T query_seq (outer_step h T query_seq s) < outer_measure T query_seq s"
proof -
  from inv obtain i st where s: "s = Some (i, st)" and il: "i \<le> length query_seq"
    and e: "emit_ok h T st" and f: "filter (is_query h) (snd st) = take i query_seq"
    by (auto simp: outer_inv_def)
  from more s have less: "length (fst st) < length T" by (cases st) (simp add: outer_more_def)
  show ?thesis
  proof (cases "i < length query_seq")
    case True
    let ?q = "query_seq ! i"
    have q: "?q \<in> set T" "is_query h ?q" using qs True nth_mem by blast+
    have split: "query_seq = take i query_seq @ ?q # drop (Suc i) query_seq"
      using True by (rule id_take_nth_drop)
    have "parent_set h T ?q \<subseteq> set (take i query_seq)"
      using par split unfolding parents_first_def by blast
    also have "\<dots> \<subseteq> set (fst st)"
    proof
      fix p assume p: "p \<in> set (take i query_seq)"
      then have "is_query h p" using qs by (auto dest: in_set_takeD)
      with p f show "p \<in> set (fst st)" using emit_ok_queries [OF e] by metis
    qed
    finally have ps: "parent_set h T ?q \<subseteq> set (fst st)" .
    have new: "?q \<notin> set (fst st)"
      using emit_ok_queries [OF e q(2)] f dq True by (auto simp: in_set_conv_nth nth_eq_iff_index_eq)
    from ps obtain st' where st': "place_query h T ?q st = Some st'" "emits h T [?q] st st'"
      using place_query_total [OF d fwd e q] new by blast
    have "filter (is_query h) (snd st') = take (Suc i) query_seq"
      using st'(2) f True by (simp add: emits_def take_Suc_conv_app_nth)
    then have "outer_inv h T query_seq (Some (Suc i, st'))"
      using True emits_emit_ok [OF st'(2)] by (simp add: outer_inv_def)
    with st'(1) True s less show ?thesis by (auto simp: outer_step_def outer_measure_def)
  next
    case False
    with il have ieq: "i = length query_seq" by simp
    have "q \<in> set (fst st)" if "q \<in> set T" "is_query h q" for q
      using that qs f emit_ok_queries [OF e that(2)] ieq by auto
    then obtain st' where st': "place_rest h T st = Some st'" "emits h T [] st st'"
        "set T \<subseteq> set (fst st')"
      using place_rest_total [OF d fwd e] by blast
    have e': "emit_ok h T st'" by (rule emits_emit_ok [OF st'(2)])
    have "set (fst st') = set T" using st'(3) e' by (cases st') (auto simp: emit_ok_def)
    then have "length (fst st') = length T"
      using emit_ok_length [OF e'] d by (simp add: distinct_card)
    moreover have "outer_inv h T query_seq (Some (i, st'))"
      using st'(2) f ieq e' by (simp add: outer_inv_def emits_def)
    ultimately show ?thesis
      using st'(1) False s less by (auto simp: outer_step_def outer_measure_def)
  qed
qed

lemma interleave_result:
  assumes d: "distinct T" and fwd: "reads_forward h T"
    and qs: "distinct query_seq" "set query_seq = {q \<in> set T. is_query h q}"
    and par: "parents_first (parent_set h T) query_seq"
  shows "\<exists>out. interleave h T query_seq = Some out \<and> set out = set T \<and>
           parents_first (definers h T) out \<and> filter (is_query h) out = query_seq \<and> (shallow h T \<longrightarrow> distinct out)"
proof -
  let ?c = "outer_step h T query_seq"
  let ?s0 = "Some (0, [], []) :: (nat \<times> bid stdset \<times> bid list) option"
  note step = outer_step_inv [OF d fwd qs(2,1) par]
  have start: "outer_inv h T query_seq ?s0"
    by (simp add: outer_inv_def emit_ok_def parents_first_def)
  have "\<exists>s. while_option (outer_more T) ?c ?s0 = Some s"
    by (rule measure_while_option_Some [where P = "outer_inv h T query_seq" and
          f = "outer_measure T query_seq"]) (rule step start; assumption)+
  then obtain s where w: "while_option (outer_more T) ?c ?s0 = Some s" ..
  have "outer_inv h T query_seq s"
    by (rule while_option_rule [where P = "outer_inv h T query_seq", OF conjunct1 [OF step] w start])
  then obtain i processed out where s: "s = Some (i, processed, out)" "i \<le> length query_seq"
    and e: "emit_ok h T (processed, out)" and f: "filter (is_query h) out = take i query_seq"
    by (auto simp: outer_inv_def)
  have "\<not> length processed < length T"
    using while_option_stop [OF w] s by (simp add: outer_more_def)
  then have ge: "card (set T) \<le> card (set processed)"
    using emit_ok_length [OF e] d by (simp add: distinct_card)
  have "set processed \<subseteq> set T" using e by (auto simp: emit_ok_def)
  with ge have "set processed = set T" by (simp add: card_seteq)
  then have out: "set out = set T" using e by (simp add: emit_ok_def)
  have "set (take i query_seq) = set query_seq" using f [symmetric] out qs(2) by simp
  then have "length (take i query_seq) = length query_seq"
    using qs(1) by (metis distinct_card distinct_take)
  then have "filter (is_query h) out = query_seq" using f by simp
  with w s out e show ?thesis by (simp add: interleave_def emit_ok_def)
qed

section \<open>Properties\<close>


lemma ex_queries_reads:
  "reads ex_queries b d \<longleftrightarrow> (b = 2 \<and> d = 1) \<or> (b = 3 \<and> d = 2)"
  by (auto simp: reads_def isDefinedBy_def ex_queries_def new_codeBlock_def)


text \<open>Three live blocks: 0 reads itself (a merged loop), 1 reads 0, the query 2 reads 1.\<close>

definition ex_loop :: heap where
  "ex_loop = (\<lambda>b. (new_codeBlock (if b = 2 then QUERY else NONQUERY) b)
     \<lparr>cb_index := b,
      cb_def_stmts := (if b = 0 then [(4, [0])] else if b = 1 then [(4, [0])]
                       else if b = 2 then [(5, [1])] else [])\<rparr>)"

lemma ex_loop_reads:
  "reads ex_loop b d \<longleftrightarrow> (b = 0 \<and> d = 0) \<or> (b = 1 \<and> d = 0) \<or> (b = 2 \<and> d = 1)"
  by (auto simp: reads_def isDefinedBy_def ex_loop_def new_codeBlock_def)

text \<open>The queue loop never ends when the block it resolves reads a non-query block that reads
  itself and has not been emitted: the loop waits for block 0, which waits for itself.\<close>

theorem resolve_self_reader_diverges:
  "resolve ex_loop [0] 1 ([], []) = None \<and> interleave ex_loop [0, 1, 2] [2] = None"
proof -
  have never: "while_option (\<lambda>(que, st). que \<noteq> []) (resolve_step ex_loop [0]) ([1], [], []) = None"
  proof (rule ccontr)
    let ?P = "\<lambda>(que, processed :: bid list, out :: bid list). 0 \<notin> set processed \<and> que \<noteq> [] \<and> set que \<subseteq> {0, 1 :: nat}"
    assume "while_option (\<lambda>(que, st). que \<noteq> []) (resolve_step ex_loop [0]) ([1], [], []) \<noteq> None"
    then obtain s where
      w: "while_option (\<lambda>(que, st). que \<noteq> []) (resolve_step ex_loop [0]) ([1], [], []) = Some s" by blast
    have "?P s"
    proof (rule while_option_rule [where P = ?P, OF _ w])
      fix s assume "?P s" and "case s of (que, st) \<Rightarrow> que \<noteq> []"
      then obtain cb que processed out where s: "s = (cb # que, processed, out)"
        and p: "0 \<notin> set processed" "cb \<in> {0, 1}" "set que \<subseteq> {0, 1}"
        by (cases s; cases "fst s") auto
      from p(1,2) show "?P (resolve_step ex_loop [0] s)"
        using p(3) by (auto simp: s resolve_step_def ex_loop_reads)
    qed simp
    with while_option_stop [OF w] show False by (cases s) auto
  qed
  then have r: "resolve ex_loop [0] 1 ([], []) = None" by (simp add: resolve_def)
  have q: "is_query ex_loop b \<longleftrightarrow> b = 2" for b by (simp add: is_query_def ex_loop_def new_codeBlock_def)
  have "[0..<3] = [0, 1, 2 :: nat]" by (simp add: upt_rec)
  then have pd: "place_definers ex_loop [0, 1, 2] 2 ([], []) = None"
    using r by (simp add: place_definers_def q ex_loop_reads)
  have "outer_step ex_loop [0, 1, 2] [2] (Some (0, [], [])) = None"
    by (simp add: outer_step_def place_query_def pd del: One_nat_def)
  then have "interleave ex_loop [0, 1, 2] [2] = None"
    unfolding interleave_def
    by (subst while_option_unfold) (simp add: outer_more_def while_option_unfold)
  with r show ?thesis by simp
qed

text \<open>Four live blocks: 1 reads 0, 2 reads 1, the query 3 reads 2.\<close>

definition ex_chain_reads :: heap where
  "ex_chain_reads = (\<lambda>b. (new_codeBlock (if b = 3 then QUERY else NONQUERY) b)
     \<lparr>cb_index := b,
      cb_def_stmts := (if 1 \<le> b \<and> b \<le> 3 then [(b, [b - 1])] else [])\<rparr>)"

lemma ex_chain_reads_reads:
  "reads ex_chain_reads b d \<longleftrightarrow> 1 \<le> b \<and> b \<le> 3 \<and> d = b - 1"
  by (auto simp: reads_def isDefinedBy_def ex_chain_reads_def new_codeBlock_def)

text \<open>On a chain of three non-query blocks that a query needs, the code of the middle block is
  emitted twice: a block is queued once by every block that waits for it, and is emitted
  again although it is processed already.\<close>

theorem chain_emits_block_twice:
  "resolve ex_chain_reads [0, 1] 2 ([], []) = Some ([0, 1, 2], [0, 1, 1, 2])"
proof -
  note w = while_option_unfold [of "\<lambda>(que, st). que \<noteq> []" "resolve_step ex_chain_reads [0, 1]"]
  have "while_option (\<lambda>(que, st). que \<noteq> []) (resolve_step ex_chain_reads [0, 1]) ([2], [], []) =
        Some ([], [0, 1, 2], [0, 1, 1, 2])"
    by (simp add: w resolve_step_def ex_chain_reads_reads del: One_nat_def)
  then show ?thesis by (simp add: resolve_def)
qed

end
