(* ===== verification/Quro_Replace.thy ===== *)
theory Quro_Replace
  imports Quro_Text
begin

text \<open>
  What \<open>replaceString\<close> does to a variable whose name has no digit: a text is cut into words and single
  special characters, and the loop puts the new name in place of exactly the words equal to the name and
  leaves everything else as it is.  Digits are special characters.  The new name is the old one, an underscore and a counter.
\<close>

section \<open>Words between special characters\<close>

fun cut_words :: "string \<Rightarrow> string \<Rightarrow> string list" where
  "cut_words acc [] = (if acc = [] then [] else [acc])"
| "cut_words acc (c # cs) =
     (if isSpecialChar c then (if acc = [] then [] else [acc]) @ cut_words [] cs else cut_words (acc @ [c]) cs)"

definition var_words :: "string \<Rightarrow> string list" where
  "var_words s = cut_words [] s"

text \<open>The text cut up without loss: the words, and each special character by itself.\<close>

fun cut_tokens :: "string \<Rightarrow> string \<Rightarrow> string list" where
  "cut_tokens acc [] = (if acc = [] then [] else [acc])"
| "cut_tokens acc (c # cs) =
     (if isSpecialChar c then (if acc = [] then [] else [acc]) @ [c] # cut_tokens [] cs else cut_tokens (acc @ [c]) cs)"

definition tokens :: "string \<Rightarrow> string list" where
  "tokens s = cut_tokens [] s"

definition rename_text :: "string \<Rightarrow> string \<Rightarrow> string \<Rightarrow> string" where
  "rename_text word new_word s = concat (map (\<lambda>t. if t = word then new_word else t) (tokens s))"

definition plain :: "string \<Rightarrow> bool" where
  "plain w \<longleftrightarrow> w \<noteq> [] \<and> (\<forall>c \<in> set w. \<not> isSpecialChar c)"

lemma concat_cut_tokens: "concat (cut_tokens acc s) = acc @ s"
  by (induction acc s rule: cut_tokens.induct) auto

lemma concat_tokens: "concat (tokens s) = s"
  by (simp add: tokens_def concat_cut_tokens)

lemma plain_token: "plain w \<Longrightarrow> w \<in> set (cut_tokens acc s) \<longleftrightarrow> w \<in> set (cut_words acc s)"
  by (induction acc s rule: cut_tokens.induct) (auto simp: plain_def)

lemma rename_text_same: "plain w \<Longrightarrow> w \<notin> set (var_words s) \<Longrightarrow> rename_text w n s = s"
proof -
  assume "plain w" "w \<notin> set (var_words s)"
  then have "w \<notin> set (tokens s)" by (simp add: tokens_def var_words_def plain_token)
  then have "map (\<lambda>t. if t = w then n else t) (tokens s) = tokens s" by (intro map_idI) auto
  then show "rename_text w n s = s" by (simp add: rename_text_def concat_tokens)
qed

text \<open>A place between two texts where a word cannot continue.\<close>

definition boundary :: "string \<Rightarrow> string \<Rightarrow> bool" where
  "boundary A B \<longleftrightarrow> A = [] \<or> B = [] \<or> isSpecialChar (last A) \<or> isSpecialChar (hd B)"

lemma cut_after_special: "isSpecialChar x \<Longrightarrow> cut_words acc (A @ x # B) = cut_words acc (A @ [x]) @ cut_words [] B"
  by (induction A arbitrary: acc) auto

lemma cut_before_special: "isSpecialChar x \<Longrightarrow> cut_words acc (A @ x # B) = cut_words acc A @ cut_words [] (x # B)"
  by (induction A arbitrary: acc) auto

lemma var_words_append:
  assumes "boundary A B"
  shows "var_words (A @ B) = var_words A @ var_words B"
proof -
  consider "A = []" | "B = []" | "A \<noteq> []" "isSpecialChar (last A)" | "B \<noteq> []" "isSpecialChar (hd B)"
    using assms by (auto simp: boundary_def)
  then show ?thesis
  proof cases
    case 3
    then have "A = butlast A @ [last A]" by simp
    with cut_after_special [OF 3(2), of "[]" "butlast A" B] show ?thesis
      by (simp add: var_words_def) (metis append.assoc append_Cons append_Nil)
  next
    case 4
    then obtain x B' where "B = x # B'" "isSpecialChar x" by (cases B) auto
    with cut_before_special [of x "[]" A B'] show ?thesis by (simp add: var_words_def)
  qed (simp_all add: var_words_def)
qed

lemma tokens_after_special: "isSpecialChar x \<Longrightarrow> cut_tokens acc (A @ x # B) = cut_tokens acc (A @ [x]) @ cut_tokens [] B"
  by (induction A arbitrary: acc) auto

lemma tokens_before_special: "isSpecialChar x \<Longrightarrow> cut_tokens acc (A @ x # B) = cut_tokens acc A @ cut_tokens [] (x # B)"
  by (induction A arbitrary: acc) auto

lemma tokens_append:
  assumes "boundary A B"
  shows "tokens (A @ B) = tokens A @ tokens B"
proof -
  consider "A = []" | "B = []" | "A \<noteq> []" "isSpecialChar (last A)" | "B \<noteq> []" "isSpecialChar (hd B)"
    using assms by (auto simp: boundary_def)
  then show ?thesis
  proof cases
    case 3
    then have "A = butlast A @ [last A]" by simp
    with tokens_after_special [OF 3(2), of "[]" "butlast A" B] show ?thesis
      by (simp add: tokens_def) (metis append.assoc append_Cons append_Nil)
  next
    case 4
    then obtain x B' where "B = x # B'" "isSpecialChar x" by (cases B) auto
    with tokens_before_special [of x "[]" A B'] show ?thesis by (simp add: tokens_def)
  qed (simp_all add: tokens_def)
qed

lemma tokens_plain: "plain w \<Longrightarrow> tokens w = [w]"
proof -
  have "\<forall>c \<in> set w. \<not> isSpecialChar c \<Longrightarrow> cut_tokens acc w = (if acc @ w = [] then [] else [acc @ w])" for acc
    by (induction w arbitrary: acc) auto
  then show "plain w \<Longrightarrow> tokens w = [w]" by (simp add: tokens_def plain_def)
qed

lemma rename_text_append: "boundary A B \<Longrightarrow> rename_text w n (A @ B) = rename_text w n A @ rename_text w n B"
  by (simp add: rename_text_def tokens_append)

lemma cut_plain: "\<forall>c \<in> set w. \<not> isSpecialChar c \<Longrightarrow> cut_words acc w = (if acc @ w = [] then [] else [acc @ w])"
  by (induction w arbitrary: acc) auto

lemma var_words_plain: "plain w \<Longrightarrow> var_words w = [w]"
  by (simp add: var_words_def plain_def cut_plain)

lemma var_words_special: "\<forall>c \<in> set ds. isSpecialChar c \<Longrightarrow> var_words ds = []"
  unfolding var_words_def by (induction ds) auto

section \<open>Occurrences\<close>

text \<open>An occurrence of \<open>w\<close> that \<open>isVarStr\<close> accepts stands between two boundaries.\<close>

definition var_at :: "string \<Rightarrow> string \<Rightarrow> nat \<Rightarrow> bool" where
  "var_at src w i \<longleftrightarrow>
     i + length w \<le> length src \<and> take (length w) (drop i src) = w \<and> isVarStr src i (length w)"

lemma isSpecial_NUL: "isSpecialChar (CHR 0x00)"
  by (simp add: isSpecialChar_def)

lemma var_at_split:
  assumes "plain w"
  shows "var_at src w i \<longleftrightarrow>
           (\<exists>A B. src = A @ w @ B \<and> length A = i \<and> boundary A w \<and> boundary w B)"
proof
  assume v: "var_at src w i"
  let ?A = "take i src" and ?B = "drop (i + length w) src"
  have src: "src = ?A @ w @ ?B"
    using v by (metis add.commute append_take_drop_id drop_drop var_at_def)
  have len: "length ?A = i" using v by (simp add: var_at_def)
  have w: "w \<noteq> []" using assms by (simp add: plain_def)
  have lastA: "?A \<noteq> [] \<Longrightarrow> last ?A = src ! (i - 1)"
    using len v by (simp add: last_conv_nth var_at_def)
  have hdB: "?B \<noteq> [] \<Longrightarrow> hd ?B = src ! (i + length w)" by (simp add: hd_drop_conv_nth)
  have fits: "i + length w \<le> length src" and is_var: "isVarStr src i (length w)"
    using v by (simp_all add: var_at_def)
  have "boundary ?A w"
  proof (cases "i = 0")
    case False
    then have "isSpecialChar (char_at src (i - 1))"
      using is_var by (simp add: isVarStr_def split: if_splits)
    moreover have "?A \<noteq> []" "i - 1 < length src" using False fits w by auto
    ultimately show ?thesis using lastA by (simp add: boundary_def char_at_def)
  qed (simp add: boundary_def)
  moreover have "boundary w ?B"
  proof (cases "?B = []")
    case False
    then have lt: "i + length w < length src" by simp
    then have "i \<noteq> length src - length w" by simp
    then have "isSpecialChar (char_at src (i + length w))"
      using is_var by (simp add: isVarStr_def split: if_splits)
    with False hdB lt show ?thesis by (simp add: boundary_def char_at_def)
  qed (simp add: boundary_def)
  ultimately have "boundary ?A w \<and> boundary w ?B" ..
  with src len show "\<exists>A B. src = A @ w @ B \<and> length A = i \<and> boundary A w \<and> boundary w B" by blast
next
  assume "\<exists>A B. src = A @ w @ B \<and> length A = i \<and> boundary A w \<and> boundary w B"
  then obtain A B where src: "src = A @ w @ B" and i: "i = length A"
    and b: "boundary A w" "boundary w B" by blast
  have w: "w \<noteq> []" "\<not> isSpecialChar (hd w)" "\<not> isSpecialChar (last w)"
    using assms by (auto simp: plain_def)
  have p: "A \<noteq> [] \<Longrightarrow> isSpecialChar (char_at src (i - 1))"
    using b(1) w src i
    by (cases A rule: rev_cases) (auto simp: boundary_def char_at_def nth_append)
  have n: "isSpecialChar (char_at src (i + length w))"
    using b(2) w src i isSpecial_NUL
    by (cases B) (auto simp: boundary_def char_at_def nth_append)
  show "var_at src w i"
    using p n src i by (auto simp: var_at_def isVarStr_def)
qed

lemma var_at_words:
  assumes "plain w" "src = A @ w @ B" "boundary A w" "boundary w B"
  shows "var_words src = var_words A @ w # var_words B"
proof -
  have "boundary A (w @ B)" using assms(1,3) by (auto simp: boundary_def plain_def)
  then show ?thesis
    using assms(2) var_words_append [OF assms(4)] var_words_plain [OF assms(1)]
    by (simp add: var_words_append)
qed

lemma cut_mem:
  "w \<in> set (cut_words acc s) \<Longrightarrow> w \<noteq> acc \<or> True \<Longrightarrow>
   \<exists>A B. acc @ s = A @ w @ B \<and> (A = [] \<or> isSpecialChar (last A)) \<and> (B = [] \<or> isSpecialChar (hd B))"
proof (induction acc s rule: cut_words.induct)
  case (1 acc)
  then show ?case by (intro exI [of _ "[]"]) (auto split: if_splits)
next
  case (2 acc c cs)
  show ?case
  proof (cases "isSpecialChar c")
    case False
    with 2 show ?thesis by simp
  next
    case True
    with 2(3) consider "w = acc" | "w \<in> set (cut_words [] cs)" by (auto split: if_splits)
    then show ?thesis
    proof cases
      case 1
      with True show ?thesis by (intro exI [of _ "[]"] exI [of _ "c # cs"]) simp
    next
      case 2
      from "2.IH"(1) [OF True 2] obtain A B where
        "cs = A @ w @ B" "A = [] \<or> isSpecialChar (last A)" "B = [] \<or> isSpecialChar (hd B)" by auto
      with True show ?thesis
        by (intro exI [of _ "acc @ c # A"] exI [of _ B]) auto
    qed
  qed
qed

lemma words_var_at:
  assumes "plain w" "w \<in> set (var_words src)"
  shows "\<exists>i. var_at src w i"
proof -
  from cut_mem [OF assms(2) [unfolded var_words_def]] obtain A B where
    "src = A @ w @ B" "A = [] \<or> isSpecialChar (last A)" "B = [] \<or> isSpecialChar (hd B)" by auto
  then show ?thesis unfolding var_at_split [OF assms(1)] by (auto simp: boundary_def)
qed

section \<open>The search is complete\<close>

lemma str_scan_complete:
  "k + length w \<le> length s \<Longrightarrow> take (length w) (drop k s) = w \<Longrightarrow>
   \<exists>j. str_scan w s i = Some j \<and> j \<le> i + k"
proof (induction w s i arbitrary: k rule: str_scan.induct)
  case (1 w i)
  then show ?case by simp
next
  case (2 w c cs i)
  show ?case
  proof (cases "take (length w) (c # cs) = w")
    case True
    then show ?thesis by simp
  next
    case False
    then obtain k' where k: "k = Suc k'" using 2(3) by (cases k) auto
    with 2(2,3) have "k' + length w \<le> length cs" "take (length w) (drop k' cs) = w" by simp_all
    from 2(1) [OF False this] False k show ?thesis by auto
  qed
qed

lemma str_find_complete:
  assumes "p \<le> k" "k + length w \<le> length s" "take (length w) (drop k s) = w"
  shows "\<exists>j. str_find s w p = Some j \<and> j \<le> k"
  using str_scan_complete [of "k - p" w "drop p s" p] assms by (simp add: str_find_def)

lemma next_var_complete:
  "next_var src w p = r \<Longrightarrow> p = str_find src w k \<Longrightarrow> k \<le> i \<Longrightarrow> var_at src w i \<Longrightarrow>
   \<exists>q. r = Some q \<and> q \<le> i"
proof (induction src w p arbitrary: k r rule: next_var.induct)
  case (1 src w)
  then show ?case using str_find_complete [of k i w src] by (auto simp: var_at_def)
next
  case (2 src w p)
  from str_find_complete [of k i w src] 2(3,4,5) have pi: "p \<le> i" by (auto simp: var_at_def)
  show ?case
  proof (cases "isVarStr src p (length w)")
    case True
    with 2(2) pi show ?thesis by auto
  next
    case False
    then have "p \<noteq> i" using 2(5) by (auto simp: var_at_def)
    with pi have "Suc p \<le> i" by simp
    with 2(1) [OF False _ refl this 2(5)] 2(2) False show ?thesis by simp
  qed
qed

lemma next_var_var_at:
  assumes "next_var src w (str_find src w k) = Some q"
  shows "var_at src w q"
proof -
  obtain p where p: "str_find src w k = Some p" using assms by (cases "str_find src w k") auto
  from next_var_isVar [OF assms p] str_find_bounds [OF p] str_find_at [OF p]
  show ?thesis by (simp add: var_at_def)
qed

section \<open>Replacing a plain name\<close>

text \<open>\<open>name_number\<close>, where the number is written in special characters (digits are special).\<close>

definition new_name_ok :: "string \<Rightarrow> string \<Rightarrow> bool" where
  "new_name_ok w new_word \<longleftrightarrow>
     (\<exists>ds. new_word = w @ ''_'' @ ds \<and> (\<forall>c \<in> set ds. isSpecialChar c))"

lemma new_name_words:
  assumes w: "plain w" and n: "new_name_ok w new_word"
    and b: "boundary A w" "boundary w B"
  shows "var_words (A @ new_word @ B) = var_words A @ (w @ ''_'') # var_words B"
proof -
  from n obtain ds where ds: "new_word = (w @ ''_'') @ ds" "\<forall>c \<in> set ds. isSpecialChar c"
    by (auto simp: new_name_ok_def)
  have pw: "plain (w @ ''_'')" using w by (auto simp: plain_def isSpecialChar_def)
  have b1: "boundary A ((w @ ''_'') @ ds @ B)" using b(1) w by (auto simp: boundary_def plain_def)
  have b2: "boundary (w @ ''_'') (ds @ B)"
  proof (cases ds)
    case Nil
    with b(2) w show ?thesis by (auto simp: boundary_def plain_def)
  next
    case (Cons d ds')
    with ds(2) show ?thesis by (simp add: boundary_def)
  qed
  have b3: "boundary ds B"
    using ds(2) by (auto simp: boundary_def)
  show ?thesis
    using var_words_append [OF b1] var_words_append [OF b2] var_words_append [OF b3]
      var_words_plain [OF pw] var_words_special [OF ds(2)] ds(1)
    by simp
qed

definition rename_inv :: "string \<Rightarrow> string \<Rightarrow> string \<Rightarrow> string \<times> nat option \<Rightarrow> bool" where
  "rename_inv w n src0 st \<longleftrightarrow>
     rename_text w n (fst st) = rename_text w n src0 \<and>
     (case snd st of None \<Rightarrow> \<forall>i. \<not> var_at (fst st) w i
      | Some p \<Rightarrow> \<forall>i < p. \<not> var_at (fst st) w i)"

text \<open>The new name in place of an occurrence of the name renames to what the occurrence renames to.\<close>

lemma rename_text_new:
  assumes w: "plain w" and n: "new_name_ok w new_word" and b: "boundary A w" "boundary w B"
  shows "rename_text w new_word (A @ new_word @ B) = rename_text w new_word (A @ w @ B)"
proof -
  let ?R = "rename_text w new_word"
  from n obtain ds where ds: "new_word = (w @ ''_'') @ ds" "\<forall>c \<in> set ds. isSpecialChar c"
    by (auto simp: new_name_ok_def)
  have pw: "plain (w @ ''_'')" using w by (auto simp: plain_def isSpecialChar_def)
  have b1: "boundary A (new_word @ B)" "boundary A (w @ B)" using b(1) w ds(1) by (auto simp: boundary_def plain_def)
  have "w \<noteq> []" "\<not> isSpecialChar (last w)" using w by (auto simp: plain_def)
  with b(2) have "boundary new_word B" by (auto simp: boundary_def)
  moreover have "boundary (w @ ''_'') ds" using ds(2) by (cases ds) (simp_all add: boundary_def)
  ultimately have b2: "boundary new_word B" "boundary (w @ ''_'') ds" .
  have "?R ds = ds" using rename_text_same [OF w, of ds] var_words_special [OF ds(2)] by simp
  moreover have "?R (w @ ''_'') = w @ ''_''" using tokens_plain [OF pw] by (simp add: rename_text_def)
  moreover have "?R new_word = ?R (w @ ''_'') @ ?R ds" unfolding ds(1) by (rule rename_text_append [OF b2(2)])
  ultimately have "?R new_word = new_word" by (simp only: ds(1))
  moreover have "?R w = new_word" using tokens_plain [OF w] by (simp add: rename_text_def)
  ultimately show ?thesis
    by (simp only: rename_text_append [OF b1(1)] rename_text_append [OF b1(2)] rename_text_append [OF b2(1)] rename_text_append [OF b(2)])
qed

text \<open>A replacement at the first occurrence leaves none before it.\<close>

lemma replaced_before:
  assumes w: "plain w" and n: "new_name_ok w new_word"
    and src: "src = A @ w @ B" and b: "boundary A w" "boundary w B"
    and first: "\<forall>i < length A. \<not> var_at src w i" and i: "i < length A"
  shows "\<not> var_at (A @ new_word @ B) w i"
proof
  assume "var_at (A @ new_word @ B) w i"
  then obtain A1 B1 where eq: "A @ new_word @ B = A1 @ w @ B1" and A1: "length A1 = i"
    and b1: "boundary A1 w" "boundary w B1" using var_at_split [OF w] by blast
  have wne: "w \<noteq> []" using w by (simp add: plain_def)
  have sp: "isSpecialChar (last A)" using i b(1) w by (auto simp: boundary_def plain_def)
  have Ane: "A \<noteq> []" using i by auto
  have fit: "i + length w \<le> length A"
  proof (rule ccontr)
    assume "\<not> ?thesis"
    then have k: "length A - 1 - i < length w" "length A - 1 - i + i = length A - 1" using i by auto
    have "last A = (A @ new_word @ B) ! (length A - 1)"
      using Ane by (simp add: last_conv_nth nth_append)
    also have "\<dots> = w ! (length A - 1 - i)"
    proof -
      have "\<not> length A - 1 < length A1" "length A - 1 - length A1 < length w" using k A1 i by auto
      then show ?thesis unfolding eq using A1 by (simp add: nth_append)
    qed
    finally have "last A \<in> set w" using k(1) nth_mem by metis
    with sp w show False by (auto simp: plain_def)
  qed
  from eq have A: "A = A1 @ w @ take (length A - i - length w) B1"
  proof -
    have "A = take (length A) (A1 @ w @ B1)" using eq by (metis append_eq_conv_conj)
    with A1 fit show ?thesis by simp
  qed
  let ?B2 = "take (length A - i - length w) B1 @ w @ B"
  have "src = A1 @ w @ ?B2" using src A by simp
  moreover have "boundary w ?B2"
  proof (cases "length A - i - length w = 0 \<or> B1 = []")
    case False
    then have "hd ?B2 = hd B1" "B1 \<noteq> []" by (auto simp: hd_append take_eq_Nil)
    with b1(2) w show ?thesis by (auto simp: boundary_def plain_def)
  next
    case True
    then have "last A = last w" using A wne by auto
    with sp w show ?thesis by (auto simp: plain_def)
  qed
  ultimately have "var_at src w i" using b1(1) A1 var_at_split [OF w] by blast
  with first i show False by blast
qed

lemma rename_step:
  assumes w: "plain w" and n: "new_name_ok w new_word"
    and inv: "rename_inv w new_word src0 st" and more: "replace_more w st"
  shows "rename_inv w new_word src0 (replace_step w new_word st) \<and>
    2 * count_list (var_words (fst (replace_step w new_word st))) w +
      (if snd (replace_step w new_word st) = None then 0 else 1) <
    2 * count_list (var_words (fst st)) w + (if snd st = None then 0 else 1)"
proof -
  obtain src p where st: "st = (src, Some p)"
    using more by (cases st; cases "snd st") (auto simp: replace_more_def)
  show ?thesis
  proof (cases "next_var src w (str_find src w 0)")
    case None
    have "\<not> var_at src w i" for i
      using next_var_complete [of src w "str_find src w 0" None 0 i] None by auto
    with None inv st show ?thesis by (simp add: replace_step_def rename_inv_def)
  next
    case (Some q)
    have vq: "var_at src w q" by (rule next_var_var_at [OF Some])
    have first: "\<not> var_at src w i" if "i < q" for i
      using next_var_complete [OF Some refl, of i] that by auto
    from vq obtain A B where src: "src = A @ w @ B" and q: "length A = q"
      and b: "boundary A w" "boundary w B" using var_at_split [OF w] by blast
    have st': "replace_step w new_word st = (A @ new_word @ B, Some q)"
      using Some src q by (simp add: replace_step_def st)
    have words: "var_words src = var_words A @ w # var_words B" by (rule var_at_words [OF w src b])
    note words' = new_name_words [OF w n b]
    have "\<not> var_at (A @ new_word @ B) w i" if "i < q" for i
      using replaced_before [OF w n src b] first that q by blast
    then have "rename_inv w new_word src0 (replace_step w new_word st)"
      using inv rename_text_new [OF w n b] src st st' by (simp add: rename_inv_def)
    moreover have "count_list (var_words (A @ new_word @ B)) w < count_list (var_words src) w"
      unfolding words words' by simp
    ultimately show ?thesis using st st' by simp
  qed
qed

lemma replaceString_result:
  assumes "plain word" and "new_name_ok word new_word"
  shows "replaceString src word new_word = Some (rename_text word new_word src)"
proof -
  let ?c = "replace_step word new_word" and ?b = "replace_more word"
  let ?f = "\<lambda>st. 2 * count_list (var_words (fst st)) word + (if snd st = None then 0 else 1)"
  have start: "rename_inv word new_word src (src, Some 0)" by (simp add: rename_inv_def)
  have "\<exists>st. while_option ?b ?c (src, Some 0) = Some st"
    by (rule measure_while_option_Some [where P = "rename_inv word new_word src" and f = ?f])
       (rule rename_step [OF assms] start; assumption)+
  then obtain st where w: "while_option ?b ?c (src, Some 0) = Some st" ..
  have inv: "rename_inv word new_word src st"
    by (rule while_option_rule [where P = "rename_inv word new_word src", OF conjunct1 [OF rename_step [OF assms]] w start])
  have stop: "\<not> ?b st" using while_option_stop [OF w] .
  have "\<not> var_at (fst st) word i" for i
  proof (cases "snd st")
    case None
    with inv show ?thesis by (simp add: rename_inv_def)
  next
    case (Some p)
    with stop have "str_find (fst st) word p = None" by (simp add: replace_more_def)
    then have "\<not> var_at (fst st) word i" if "p \<le> i"
      using str_find_complete [OF that, of word "fst st"] by (auto simp: var_at_def)
    with Some inv show ?thesis by (cases "i < p") (auto simp: rename_inv_def)
  qed
  then have "word \<notin> set (var_words (fst st))" using words_var_at [OF assms(1)] by blast
  then have "rename_text word new_word (fst st) = fst st" by (rule rename_text_same [OF assms(1)])
  with inv w show ?thesis by (auto simp: replaceString_def rename_inv_def)
qed

text \<open>C36: for a name made of letters and underscores and a new name that appends an underscore and
  digits, \<open>replaceString\<close> terminates, and its result is the text in which every word equal to the name is
  the new name and everything else is as before; words are the longest runs of letters and underscores, so a digit ends a word.\<close>

theorem replaceString_renames_words:
  assumes "plain word" and "new_name_ok word new_word"
  shows "replaceString src word new_word = Some (rename_text word new_word src)"
  by (rule replaceString_result [OF assms])

lemma replaceString_renames_words_witness:
  "replaceString ''f(ab, a, ab_c, ab)'' ''ab'' ''ab_7'' = Some ''f(ab_7, a, ab_c, ab_7)''"
proof -
  have "replaceString ''f(ab, a, ab_c, ab)'' ''ab'' ''ab_7'' = Some (rename_text ''ab'' ''ab_7'' ''f(ab, a, ab_c, ab)'')"
    by (rule replaceString_renames_words)
       (auto simp: plain_def new_name_ok_def isSpecialChar_def intro: exI [of _ "''7''"])
  then show ?thesis by (simp add: rename_text_def tokens_def isSpecialChar_def)
qed

text \<open>A digit counts as a special character, so the name is replaced inside a longer name that
  continues with a digit: renaming \<open>r\<close> in \<open>r1=r\<close> also changes the variable \<open>r1\<close>.\<close>

theorem replaceString_splits_digit_names:
  "replaceString ''r1=r'' ''r'' ''r_0'' = Some ''r_01=r_0''"
proof -
  note w = while_option_unfold [of "replace_more ''r''" "replace_step ''r'' ''r_0''"]
  note s = str_find_def isVarStr_def char_at_def isSpecialChar_def
  have n0: "next_var ''r1=r'' ''r'' (Some 0) = Some 0"
    by (simp add: s)
  have n1: "next_var ''r_01=r'' ''r'' (Some 0) = Some 5"
    by (simp add: s)
  have n2: "next_var ''r_01=r_0'' ''r'' (Some 0) = None"
    by (simp add: s)
  have "while_option (replace_more ''r'') (replace_step ''r'' ''r_0'') (''r1=r'', Some 0) =
        Some (''r_01=r_0'', None)"
    by (simp add: w replace_more_def replace_step_def n0 n1 n2 str_find_def del: next_var.simps)
  then show ?thesis by (simp add: replaceString_def)
qed

end
