(* ===== verification/Quro_Rename.thy ===== *)
theory Quro_Rename
  imports Quro_Interleave Quro_Replace
begin

text \<open>
  The renaming at the end of \<open>reorderCode\<close> (\<open>src/quro/code/CBlocks.cpp\<close>): for each emitted block
  and variable a use of the definition, then, block by block, new names for the variables
  whose earlier definition is still needed, and the text of the blocks.  The C++ names and
  types of the variables are parameters; \<open>char n_str[10]\<close> is taken to hold the counter.
\<close>

section \<open>last\_use\<close>

text \<open>The inner loop runs down to \<open>i + 1\<close> and overwrites: the smallest position stays.\<close>

definition last_use_var :: "heap \<Rightarrow> bid list \<Rightarrow> nat \<Rightarrow> vid \<Rightarrow> nat option" where
  "last_use_var h tempQ i v =
     fold (\<lambda>j acc. if List.member (smap_at (cb_def_stmts (h (tempQ ! j))) v) (tempQ ! i)
                    then Some j else acc)
       (rev [i + 1..<length tempQ]) None"

definition last_use_map :: "heap \<Rightarrow> bid list \<Rightarrow> nat \<Rightarrow> vid \<Rightarrow> nat option" where
  "last_use_map h tempQ i =
     fold (\<lambda>v new_map. if new_map v \<noteq> None then new_map
                         else (case last_use_var h tempQ i v of
                                 None \<Rightarrow> new_map | Some j \<Rightarrow> new_map(v \<mapsto> j)))
       (cb_defs (h (tempQ ! i))) Map.empty"

definition last_use :: "heap \<Rightarrow> bid list \<Rightarrow> (vid \<Rightarrow> nat option) list" where
  "last_use h tempQ = map (last_use_map h tempQ) [0..<length tempQ]"

text \<open>Block \<open>j\<close> of the sequence reads the value of \<open>v\<close> that block \<open>i\<close> defines.\<close>

definition uses_def :: "heap \<Rightarrow> bid list \<Rightarrow> nat \<Rightarrow> nat \<Rightarrow> vid \<Rightarrow> bool" where
  "uses_def h tempQ j i v \<longleftrightarrow> tempQ ! i \<in> set (smap_at (cb_def_stmts (h (tempQ ! j))) v)"

lemma fold_down_first:
  "fold (\<lambda>j acc. if P j then Some j else acc) (rev [a..<b]) acc0 =
     (if \<exists>j. a \<le> j \<and> j < b \<and> P j then Some (LEAST j. a \<le> j \<and> P j) else acc0)"
proof (induction b arbitrary: acc0)
  case 0
  then show ?case by simp
next
  case (Suc b)
  show ?case
  proof (cases "a \<le> b")
    case False
    then have no: "\<not> (\<exists>j. a \<le> j \<and> j < Suc b \<and> P j)" by auto
    show ?thesis unfolding if_not_P [OF no] using False by simp
  next
    case True
    let ?acc = "if P b then Some b else acc0"
    have eq: "fold (\<lambda>j acc. if P j then Some j else acc) (rev [a..<Suc b]) acc0 =
        fold (\<lambda>j acc. if P j then Some j else acc) (rev [a..<b]) ?acc"
      using True by simp
    show ?thesis
    proof (cases "\<exists>j. a \<le> j \<and> j < b \<and> P j")
      case True
      then have "\<exists>j. a \<le> j \<and> j < Suc b \<and> P j" by (meson less_SucI)
      with True eq Suc.IH show ?thesis by simp
    next
      case no: False
      show ?thesis
      proof (cases "P b")
        case True
        have "(LEAST j. a \<le> j \<and> P j) = b"
          using True \<open>a \<le> b\<close> no by (intro Least_equality) (auto simp: not_less)
        moreover have "\<exists>j. a \<le> j \<and> j < Suc b \<and> P j" using True \<open>a \<le> b\<close> by blast
        ultimately show ?thesis using eq Suc.IH no True by simp
      next
        case False
        then have no': "\<not> (\<exists>j. a \<le> j \<and> j < Suc b \<and> P j)" using no less_Suc_eq by auto
        show ?thesis
          unfolding eq if_not_P [OF False] if_not_P [OF no'] Suc.IH if_not_P [OF no] ..
      qed
    qed
  qed
qed

lemma last_use_var_first:
  "last_use_var h tempQ i v =
     (if \<exists>j. i < j \<and> j < length tempQ \<and> uses_def h tempQ j i v
      then Some (LEAST j. i < j \<and> uses_def h tempQ j i v) else None)"
  using fold_down_first [of "\<lambda>j. uses_def h tempQ j i v" "i + 1" "length tempQ" None]
  unfolding last_use_var_def uses_def_def List.member_iff Suc_eq_plus1 [symmetric] Suc_le_eq .

lemma last_use_map_eq:
  "last_use_map h tempQ i v =
     (if v \<in> set (cb_defs (h (tempQ ! i))) then last_use_var h tempQ i v else None)"
proof -
  have "fold (\<lambda>v new_map. if new_map v \<noteq> None then new_map
                         else (case last_use_var h tempQ i v of
                                 None \<Rightarrow> new_map | Some j \<Rightarrow> new_map(v \<mapsto> j))) vs m v =
        (if m v \<noteq> None then m v else if v \<in> set vs then last_use_var h tempQ i v else None)" for vs m
    by (induction vs arbitrary: m) (auto split: option.splits)
  from this [of _ Map.empty] show ?thesis by (simp add: last_use_map_def)
qed

section \<open>New names\<close>

definition digit_char :: "nat \<Rightarrow> char" where
  "digit_char d = char_of (48 + d)"

fun nat_str :: "nat \<Rightarrow> string" where
  "nat_str n = (if n < 10 then [digit_char n] else nat_str (n div 10) @ [digit_char (n mod 10)])"

declare nat_str.simps [simp del]

record names =
  name_of :: "vid \<Rightarrow> string"
  type_of :: "vid \<Rightarrow> var_type"

record rename_state =
  rn_cnt :: nat
  rn_table :: "bid \<Rightarrow> vid \<Rightarrow> string option"
  rn_code :: "bid \<Rightarrow> string"

type_synonym changed = "(vid \<times> string) list"

text \<open>The block whose definition of \<open>v\<close> the block reads: the last one, in address order, that is not
  the block itself.\<close>

definition def_cb :: "heap \<Rightarrow> bid \<Rightarrow> vid \<Rightarrow> bid option" where
  "def_cb h b v =
     fold (\<lambda>c d. if cb_finalcBlock (h c) \<noteq> b then Some (cb_finalcBlock (h c)) else d)
       (smap_at (cb_def_stmts (h b)) v) None"

definition rename_uses :: "heap \<Rightarrow> bid \<Rightarrow> (bid \<Rightarrow> vid \<Rightarrow> string option) \<Rightarrow> changed" where
  "rename_uses h b table =
     fold (\<lambda>v ch. case def_cb h b v of
                     None \<Rightarrow> ch
                   | Some d \<Rightarrow> (case table d v of None \<Rightarrow> ch | Some n \<Rightarrow> smap_put v n ch))
       (cb_uses (h b)) []"

text \<open>The loop over the earlier blocks: the last suffix and the counter behind it.\<close>

definition rename_suffix ::
    "(vid \<Rightarrow> nat option) list \<Rightarrow> nat \<Rightarrow> vid \<Rightarrow> nat \<Rightarrow> string option \<times> nat" where
  "rename_suffix lu i v cnt =
     fold (\<lambda>j (suffix, cnt). case (lu ! j) v of
                               Some l \<Rightarrow> (if i < l then (Some (''_'' @ nat_str cnt), cnt + 1)
                                         else (suffix, cnt))
                             | None \<Rightarrow> (suffix, cnt)) [0..<i] (None, cnt)"

definition rename_def ::
    "names \<Rightarrow> (vid \<Rightarrow> nat option) list \<Rightarrow> nat \<Rightarrow> bid \<Rightarrow> vid \<Rightarrow>
     rename_state \<times> changed \<Rightarrow> rename_state \<times> changed" where
  "rename_def N lu i b v st =
     (let (s, ch) = st; (suffix, cnt) = rename_suffix lu i v (rn_cnt s); s = s\<lparr>rn_cnt := cnt\<rparr> in
      case suffix of
        None \<Rightarrow> (s, ch)
      | Some n_str \<Rightarrow>
          (let new_name = name_of N v @ n_str;
               s = s\<lparr>rn_table := (rn_table s)(b := (rn_table s b)(v \<mapsto> new_name))\<rparr>
           in case smap_get ch v of
                Some old_name \<Rightarrow>
                  (s\<lparr>rn_code := (rn_code s)(b :=
                      generateAssignment (type_of N v) old_name new_name @ rn_code s b)\<rparr>,
                   smap_put v new_name ch)
              | None \<Rightarrow> (s, smap_put v new_name ch)))"

definition rename_block ::
    "names \<Rightarrow> heap \<Rightarrow> (vid \<Rightarrow> nat option) list \<Rightarrow> bid list \<Rightarrow> nat \<Rightarrow> rename_state \<Rightarrow> rename_state option" where
  "rename_block N h lu tempQ i s =
     (let b = tempQ ! i;
          ch = rename_uses h b (rn_table s);
          (s, ch) = fold (rename_def N lu i b) (cb_defs (h b)) (s, ch)
      in foldM (\<lambda>(v, n) s. case replaceString (rn_code s b) (name_of N v) n of
                              None \<Rightarrow> None
                            | Some code \<Rightarrow> Some (s\<lparr>rn_code := (rn_code s)(b := code)\<rparr>)) ch s)"

definition rename_start :: "heap \<Rightarrow> rename_state" where
  "rename_start h = \<lparr>rn_cnt = 0, rn_table = (\<lambda>b v. None), rn_code = (\<lambda>b. cb_insert_code (h b))\<rparr>"

definition rename_all :: "names \<Rightarrow> heap \<Rightarrow> bid list \<Rightarrow> rename_state option" where
  "rename_all N h tempQ =
     foldM (rename_block N h (last_use h tempQ) tempQ) [0..<length tempQ] (rename_start h)"

text \<open>\<open>InsertTextBefore\<close> from the last block to the first puts the blocks in order.\<close>

definition reordered_text :: "names \<Rightarrow> heap \<Rightarrow> bid list \<Rightarrow> string option" where
  "reordered_text N h tempQ =
     map_option (\<lambda>s. concat (map (rn_code s) tempQ)) (rename_all N h tempQ)"

section \<open>The names differ\<close>

lemma digit_char_inj: "a < 10 \<Longrightarrow> b < 10 \<Longrightarrow> digit_char a = digit_char b \<Longrightarrow> a = b"
proof -
  assume a: "a < 10" and b: "b < 10" and e: "digit_char a = digit_char b"
  from e have "(of_char (char_of (48 + a) :: char) :: nat) = of_char (char_of (48 + b) :: char)"
    by (simp add: digit_char_def)
  then show "a = b" using a b by simp
qed

lemma digit_char_not_underscore: "d < 10 \<Longrightarrow> digit_char d \<noteq> CHR ''_''"
proof
  assume d: "d < 10" and e: "digit_char d = CHR ''_''"
  from arg_cong [OF e, of "of_char :: char \<Rightarrow> nat"] d show False by (simp add: digit_char_def)
qed

lemma nat_str_no_underscore: "CHR ''_'' \<notin> set (nat_str n)"
proof (induction n rule: nat_str.induct)
  case (1 n)
  then show ?case
    using digit_char_not_underscore [of n] digit_char_not_underscore [of "n mod 10"]
    by (subst nat_str.simps) auto
qed

lemma nat_str_nonempty: "nat_str n \<noteq> []"
  by (subst nat_str.simps) simp

lemma nat_str_inj: "nat_str m = nat_str n \<Longrightarrow> m = n"
proof (induction m arbitrary: n rule: nat_str.induct)
  case (1 m)
  have eq: "nat_str k = (if k < 10 then [digit_char k] else nat_str (k div 10) @ [digit_char (k mod 10)])"
    for k by (rule nat_str.simps)
  consider "m < 10" "n < 10" | "m < 10" "\<not> n < 10" | "\<not> m < 10" "n < 10" | "\<not> m < 10" "\<not> n < 10"
    by blast
  then show ?case
  proof cases
    case 1
    with "1.prems" eq [of m] eq [of n] show ?thesis by (simp add: digit_char_inj)
  next
    case 2
    with "1.prems" eq [of m] eq [of n] nat_str_nonempty [of "n div 10"] show ?thesis by simp
  next
    case 3
    with "1.prems" eq [of m] eq [of n] nat_str_nonempty [of "m div 10"] show ?thesis by simp
  next
    case 4
    with "1.prems" eq [of m] eq [of n]
    have "nat_str (m div 10) = nat_str (n div 10)" "digit_char (m mod 10) = digit_char (n mod 10)" by simp_all
    then have "m div 10 = n div 10" "m mod 10 = n mod 10"
      using "1.IH" [OF 4(1)] digit_char_inj [of "m mod 10" "n mod 10"] by simp_all
    then show ?thesis by (metis div_mult_mod_eq)
  qed
qed

text \<open>The part of a name behind its last underscore gives the counter back.\<close>

lemma suffix_inj:
  assumes "xs @ ''_'' @ nat_str m = ys @ ''_'' @ nat_str n"
  shows "xs = ys \<and> m = n"
proof -
  let ?P = "\<lambda>c. c \<noteq> CHR ''_''"
  have tw: "takeWhile ?P (rev (xs @ ''_'' @ nat_str k)) = rev (nat_str k)" for xs k
  proof -
    have "takeWhile ?P (rev (nat_str k) @ CHR ''_'' # rev xs) = rev (nat_str k)"
      using nat_str_no_underscore [of k] by (subst takeWhile_append2) auto
    then show ?thesis by simp
  qed
  have "takeWhile ?P (rev (xs @ ''_'' @ nat_str m)) = takeWhile ?P (rev (ys @ ''_'' @ nat_str n))"
    by (simp only: assms)
  then have "rev (nat_str m) = rev (nat_str n)" by (simp only: tw)
  then have "m = n" using nat_str_inj by simp
  with assms show ?thesis by simp
qed

section \<open>When a variable is renamed\<close>

lemma rename_suffix_loop:
  "fold (\<lambda>j (suffix, cnt). case (lu ! j) v of
             Some l \<Rightarrow> (if i < l then (Some (''_'' @ nat_str cnt), cnt + 1) else (suffix, cnt))
           | None \<Rightarrow> (suffix, cnt)) js (x, cnt) = (y, cnt') \<Longrightarrow>
   cnt \<le> cnt' \<and>
   (if \<exists>j \<in> set js. \<exists>l. (lu ! j) v = Some l \<and> i < l
    then cnt < cnt' \<and> y = Some (''_'' @ nat_str (cnt' - 1)) else y = x \<and> cnt' = cnt)"
proof (induction js arbitrary: x cnt)
  case Nil
  then show ?case by simp
next
  case (Cons j js)
  show ?case
  proof (cases "\<exists>l. (lu ! j) v = Some l \<and> i < l")
    case True
    with Cons.prems have "fold (\<lambda>j (suffix, cnt). case (lu ! j) v of
             Some l \<Rightarrow> (if i < l then (Some (''_'' @ nat_str cnt), cnt + 1) else (suffix, cnt))
           | None \<Rightarrow> (suffix, cnt)) js (Some (''_'' @ nat_str cnt), cnt + 1) = (y, cnt')" by auto
    from Cons.IH [OF this] True show ?thesis by (auto split: if_splits)
  next
    case False
    with Cons.prems have "fold (\<lambda>j (suffix, cnt). case (lu ! j) v of
             Some l \<Rightarrow> (if i < l then (Some (''_'' @ nat_str cnt), cnt + 1) else (suffix, cnt))
           | None \<Rightarrow> (suffix, cnt)) js (x, cnt) = (y, cnt')" by (auto split: option.splits)
    from Cons.IH [OF this] False show ?thesis by (auto split: if_splits)
  qed
qed

lemma rename_suffix_result:
  "rename_suffix lu i v cnt = (y, cnt') \<Longrightarrow>
   cnt \<le> cnt' \<and>
   (if \<exists>j \<in> set [0..<i]. \<exists>l. (lu ! j) v = Some l \<and> i < l
    then cnt < cnt' \<and> y = Some (''_'' @ nat_str (cnt' - 1)) else y = None \<and> cnt' = cnt)"
  unfolding rename_suffix_def by (rule rename_suffix_loop)

text \<open>What the table holds: names with counters below the current one, all different.\<close>

definition table_ok :: "names \<Rightarrow> rename_state \<Rightarrow> bool" where
  "table_ok N s \<longleftrightarrow>
     (\<forall>b v n. rn_table s b v = Some n \<longrightarrow> (\<exists>c < rn_cnt s. n = name_of N v @ ''_'' @ nat_str c)) \<and>
     (\<forall>b v b' v' n. rn_table s b v = Some n \<and> rn_table s b' v' = Some n \<longrightarrow> b = b' \<and> v = v')"

definition changed_ok :: "names \<Rightarrow> changed \<Rightarrow> bool" where
  "changed_ok N ch \<longleftrightarrow> (\<forall>(v, n) \<in> set ch. \<exists>c. n = name_of N v @ ''_'' @ nat_str c)"

lemma changed_ok_put: "changed_ok N ch \<Longrightarrow> n = name_of N v @ ''_'' @ nat_str c \<Longrightarrow> changed_ok N (smap_put v n ch)"
proof (induction ch rule: smap_put.induct)
  case (1 v b)
  then show ?case by (auto simp: changed_ok_def)
next
  case (2 v b k c' m)
  then show ?case by (auto simp: changed_ok_def)
qed

lemma rename_uses_ok:
  assumes "table_ok N s"
  shows "changed_ok N (rename_uses h b (rn_table s))"
  unfolding rename_uses_def
proof (rule fold_invariant [where I = "changed_ok N"])
  show "changed_ok N []" by (simp add: changed_ok_def)
next
  fix v ch assume ch: "changed_ok N ch"
  have "changed_ok N (smap_put v n ch)" if "rn_table s d v = Some n" for d n
  proof -
    from that assms obtain c where "n = name_of N v @ ''_'' @ nat_str c"
      unfolding table_ok_def by blast
    with ch show ?thesis by (rule changed_ok_put)
  qed
  with ch show "changed_ok N (case def_cb h b v of None \<Rightarrow> ch
      | Some d \<Rightarrow> (case rn_table s d v of None \<Rightarrow> ch | Some n \<Rightarrow> smap_put v n ch))"
    by (simp split: option.splits)
qed

lemma rename_def_ok:
  assumes "table_ok N (fst st)" "changed_ok N (snd st)"
  shows "table_ok N (fst (rename_def N lu i b v st)) \<and> changed_ok N (snd (rename_def N lu i b v st))"
proof -
  obtain s ch where st: "st = (s, ch)" by (cases st)
  obtain suffix cnt where r: "rename_suffix lu i v (rn_cnt s) = (suffix, cnt)"
    by (cases "rename_suffix lu i v (rn_cnt s)")
  note res = rename_suffix_result [OF r]
  show ?thesis
  proof (cases suffix)
    case None
    with res have "cnt = rn_cnt s" by (auto split: if_splits)
    with None assms st r show ?thesis by (simp add: rename_def_def)
  next
    case (Some n_str)
    with res have c: "rn_cnt s < cnt" and n: "n_str = ''_'' @ nat_str (cnt - 1)"
      by (auto split: if_splits)
    let ?n = "name_of N v @ n_str"
    have names: "\<forall>b v n. rn_table s b v = Some n \<longrightarrow>
        (\<exists>c < rn_cnt s. n = name_of N v @ ''_'' @ nat_str c)"
      using assms(1) st unfolding table_ok_def by simp
    have new: "rn_table s b' v' \<noteq> Some ?n" for b' v'
    proof
      assume "rn_table s b' v' = Some ?n"
      with names obtain c' where "c' < rn_cnt s" "?n = name_of N v' @ ''_'' @ nat_str c'" by blast
      with n c suffix_inj [of "name_of N v" "cnt - 1" "name_of N v'" c'] show False by (simp; arith)
    qed
    let ?s = "s\<lparr>rn_cnt := cnt, rn_table := (rn_table s)(b := (rn_table s b)(v \<mapsto> ?n))\<rparr>"
    have t: "table_ok N ?s"
      unfolding table_ok_def
    proof (rule conjI; intro allI impI)
      fix b' v' m assume m: "rn_table ?s b' v' = Some m"
      show "\<exists>c < rn_cnt ?s. m = name_of N v' @ ''_'' @ nat_str c"
      proof (cases "b' = b \<and> v' = v")
        case True
        with m n c show ?thesis by (auto intro: exI [of _ "cnt - 1"])
      next
        case False
        with m have "rn_table s b' v' = Some m" by (auto split: if_splits)
        with names obtain c' where "c' < rn_cnt s" "m = name_of N v' @ ''_'' @ nat_str c'" by blast
        with c show ?thesis by (auto intro: exI [of _ c'])
      qed
    next
      fix b1 v1 b2 v2 m assume m: "rn_table ?s b1 v1 = Some m \<and> rn_table ?s b2 v2 = Some m"
      consider "b1 = b" "v1 = v" | "b2 = b" "v2 = v"
        | "rn_table s b1 v1 = Some m" "rn_table s b2 v2 = Some m"
        using m by (auto split: if_splits)
      then show "b1 = b2 \<and> v1 = v2"
      proof cases
        case 1
        with m new [of b2 v2] show ?thesis by (auto split: if_splits)
      next
        case 2
        with m new [of b1 v1] show ?thesis by (auto split: if_splits)
      next
        case 3
        have "\<forall>b v b' v' n. rn_table s b v = Some n \<and> rn_table s b' v' = Some n \<longrightarrow> b = b' \<and> v = v'"
          using assms(1) st unfolding table_ok_def by simp
        with 3 show ?thesis by blast
      qed
    qed
    have ch: "changed_ok N (smap_put v ?n ch)"
      by (rule changed_ok_put [where c = "cnt - 1"]) (use assms(2) st n in simp_all)
    have code: "table_ok N (r\<lparr>rn_code := f\<rparr>)" if "table_ok N r" for r f
      using that unfolding table_ok_def by simp
    note code' = code [OF t]
    show ?thesis
    proof (cases "smap_get ch v")
      case None
      with t ch Some r st show ?thesis by (simp add: rename_def_def Let_def)
    next
      case (Some old_name)
      with code' ch \<open>suffix = Some n_str\<close> r st show ?thesis by (simp add: rename_def_def Let_def)
    qed
  qed
qed

lemma digit_special: "d < 10 \<Longrightarrow> isSpecialChar (digit_char d)"
  using digit_char_not_underscore by (simp add: isSpecialChar_def digit_char_def Let_def)

lemma nat_str_special: "\<forall>c \<in> set (nat_str n). isSpecialChar c"
proof (induction n rule: nat_str.induct)
  case (1 n)
  then show ?case
    using digit_special [of n] digit_special [of "n mod 10"] by (subst nat_str.simps) auto
qed

lemma rename_block_total:
  assumes plain: "\<forall>v. plain (name_of N v)" and t: "table_ok N s"
  shows "\<exists>s'. rename_block N h lu tempQ i s = Some s' \<and> table_ok N s'"
proof -
  let ?b = "tempQ ! i"
  let ?ch = "rename_uses h ?b (rn_table s)"
  obtain s1 ch where f: "fold (rename_def N lu i ?b) (cb_defs (h ?b)) (s, ?ch) = (s1, ch)"
    by (cases "fold (rename_def N lu i ?b) (cb_defs (h ?b)) (s, ?ch)")
  have "table_ok N (fst (s1, ch)) \<and> changed_ok N (snd (s1, ch))"
    unfolding f [symmetric]
    by (rule fold_invariant [where I = "\<lambda>st. table_ok N (fst st) \<and> changed_ok N (snd st)"])
       (use t rename_uses_ok rename_def_ok in auto)
  then have t1: "table_ok N s1" and c1: "changed_ok N ch" by simp_all
  let ?f = "\<lambda>(v, n) s. case replaceString (rn_code s ?b) (name_of N v) n of
                 None \<Rightarrow> None | Some code \<Rightarrow> Some (s\<lparr>rn_code := (rn_code s)(?b := code)\<rparr>)"
  have "\<exists>s'. foldM ?f ch s1 = Some s' \<and> table_ok N s'"
  proof (rule foldM_invariant [where I = "table_ok N", OF t1])
    fix p g assume p: "p \<in> set ch" and g: "table_ok N g"
    obtain v n where vn: "p = (v, n)" by (cases p)
    with p c1 obtain c where "n = name_of N v @ ''_'' @ nat_str c" by (auto simp: changed_ok_def)
    then have "new_name_ok (name_of N v) n"
      using nat_str_special [of c] by (auto simp: new_name_ok_def)
    with replaceString_result plain obtain code where
      "replaceString (rn_code g ?b) (name_of N v) n = Some code" by blast
    with g vn show "\<exists>s'. ?f p g = Some s' \<and> table_ok N s'" by (simp add: table_ok_def)
  qed
  then show ?thesis using f by (simp add: rename_block_def Let_def)
qed

section \<open>What the pass does\<close>

text \<open>The block at position \<open>i\<close> has to give \<open>v\<close> a new name.\<close>

definition needs_new_name :: "heap \<Rightarrow> bid list \<Rightarrow> nat \<Rightarrow> vid \<Rightarrow> bool" where
  "needs_new_name h tempQ i v \<longleftrightarrow> v \<in> set (cb_defs (h (tempQ ! i))) \<and>
     (\<exists>j < i. v \<in> set (cb_defs (h (tempQ ! j))) \<and>
        (\<exists>k. i < k \<and> k < length tempQ \<and> uses_def h tempQ k j v) \<and>
        (\<forall>m. j < m \<and> m \<le> i \<longrightarrow> \<not> uses_def h tempQ m j v))"

lemma renamed_iff:
  assumes "i < length tempQ"
  shows "fst (rename_suffix (last_use h tempQ) i v cnt) \<noteq> None \<longleftrightarrow>
           (\<exists>j < i. v \<in> set (cb_defs (h (tempQ ! j))) \<and>
              (\<exists>k. i < k \<and> k < length tempQ \<and> uses_def h tempQ k j v) \<and>
              (\<forall>m. j < m \<and> m \<le> i \<longrightarrow> \<not> uses_def h tempQ m j v))"
proof -
  have first: "(\<exists>l. (last_use h tempQ ! j) v = Some l \<and> i < l) \<longleftrightarrow>
      v \<in> set (cb_defs (h (tempQ ! j))) \<and>
      (\<exists>k. i < k \<and> k < length tempQ \<and> uses_def h tempQ k j v) \<and>
      (\<forall>m. j < m \<and> m \<le> i \<longrightarrow> \<not> uses_def h tempQ m j v)" if j: "j < i" for j
  proof -
    let ?U = "\<lambda>k. j < k \<and> uses_def h tempQ k j v"
    have lu: "(last_use h tempQ ! j) v = Some l \<longleftrightarrow>
        v \<in> set (cb_defs (h (tempQ ! j))) \<and> (\<exists>k. k < length tempQ \<and> ?U k) \<and> l = (LEAST k. ?U k)" for l
      using assms j by (auto simp: last_use_def last_use_map_eq last_use_var_first)
    have "(\<exists>k. k < length tempQ \<and> ?U k) \<and> i < (LEAST k. ?U k) \<longleftrightarrow>
        (\<exists>k. i < k \<and> k < length tempQ \<and> uses_def h tempQ k j v) \<and>
        (\<forall>m. j < m \<and> m \<le> i \<longrightarrow> \<not> uses_def h tempQ m j v)" (is "?L \<longleftrightarrow> ?R")
    proof
      assume L: ?L
      then obtain k where k: "k < length tempQ" "?U k" by blast
      have "(LEAST k. ?U k) \<le> k" using k(2) by (rule Least_le)
      with L k have "\<exists>k. i < k \<and> k < length tempQ \<and> uses_def h tempQ k j v" by (meson less_le_trans)
      moreover have "\<not> uses_def h tempQ m j v" if "j < m" "m \<le> i" for m
        using L that not_less_Least [of m ?U] by auto
      ultimately show ?R by blast
    next
      assume R: ?R
      then obtain k where k: "i < k" "k < length tempQ" "uses_def h tempQ k j v" by blast
      with j have "?U k" by simp
      then have "?U (LEAST k. ?U k)" by (rule LeastI)
      with R have "i < (LEAST k. ?U k)" by (meson not_less)
      with k \<open>?U k\<close> show ?L by blast
    qed
    moreover have "(\<exists>l. (last_use h tempQ ! j) v = Some l \<and> i < l) \<longleftrightarrow>
        v \<in> set (cb_defs (h (tempQ ! j))) \<and> (\<exists>k. k < length tempQ \<and> ?U k) \<and> i < (LEAST k. ?U k)"
      unfolding lu by (rule iffI; elim exE conjE; intro exI conjI; simp)
    ultimately show ?thesis by (simp only:)
  qed
  obtain y cnt' where r: "rename_suffix (last_use h tempQ) i v cnt = (y, cnt')"
    by (cases "rename_suffix (last_use h tempQ) i v cnt")
  from rename_suffix_result [OF r]
  have "y \<noteq> None \<longleftrightarrow> (\<exists>j < i. \<exists>l. (last_use h tempQ ! j) v = Some l \<and> i < l)"
    by (auto split: if_splits)
  also have "\<dots> \<longleftrightarrow> (\<exists>j < i. v \<in> set (cb_defs (h (tempQ ! j))) \<and>
              (\<exists>k. i < k \<and> k < length tempQ \<and> uses_def h tempQ k j v) \<and>
              (\<forall>m. j < m \<and> m \<le> i \<longrightarrow> \<not> uses_def h tempQ m j v))"
    using first by (intro ex_cong1 conj_cong refl)
  finally show ?thesis using r by simp
qed

text \<open>The name under which a block reads a variable, when the definition it reads was renamed in an earlier block; the name of a
  variable in the block; and the assignments put in front of its text for variables that it both reads and defines
  under new names.\<close>

definition read_name :: "heap \<Rightarrow> bid list \<Rightarrow> (bid \<Rightarrow> vid \<Rightarrow> string option) \<Rightarrow> nat \<Rightarrow> vid \<Rightarrow> string option" where
  "read_name h tempQ table i v =
     (if v \<in> set (cb_uses (h (tempQ ! i)))
      then Option.bind (def_cb h (tempQ ! i) v) (\<lambda>d. if d \<in> set (take i tempQ) then table d v else None)
      else None)"

definition block_name :: "heap \<Rightarrow> bid list \<Rightarrow> (bid \<Rightarrow> vid \<Rightarrow> string option) \<Rightarrow> nat \<Rightarrow> vid \<Rightarrow> string option" where
  "block_name h tempQ table i v =
     (case table (tempQ ! i) v of Some n \<Rightarrow> Some n | None \<Rightarrow> read_name h tempQ table i v)"

definition added_assigns :: "names \<Rightarrow> (vid \<Rightarrow> string option) \<Rightarrow> (vid \<Rightarrow> string option) \<Rightarrow> vid list \<Rightarrow> string" where
  "added_assigns N new old vs =
     concat (map (\<lambda>v. case (new v, old v) of (Some n, Some m) \<Rightarrow> generateAssignment (type_of N v) m n | _ \<Rightarrow> []) (rev vs))"

definition rename_words :: "names \<Rightarrow> changed \<Rightarrow> string \<Rightarrow> string" where
  "rename_words N ch text = fold (\<lambda>(v, n). rename_text (name_of N v) n) ch text"

lemma rename_uses_get:
  "smap_ok (rename_uses h b table) \<and>
   smap_get (rename_uses h b table) v = (if v \<in> set (cb_uses (h b)) then Option.bind (def_cb h b v) (\<lambda>d. table d v) else None)"
proof -
  let ?f = "\<lambda>v ch. case def_cb h b v of
                     None \<Rightarrow> ch
                   | Some d \<Rightarrow> (case table d v of None \<Rightarrow> ch | Some n \<Rightarrow> smap_put v n ch)"
  have "smap_ok ch \<Longrightarrow> smap_ok (fold ?f vs ch) \<and> smap_get (fold ?f vs ch) v =
      (case (if v \<in> set vs then Option.bind (def_cb h b v) (\<lambda>d. table d v) else None) of Some n \<Rightarrow> Some n | None \<Rightarrow> smap_get ch v)"
    for vs ch
  proof (induction vs arbitrary: ch)
    case (Cons u vs)
    have ok: "smap_ok (?f u ch)" using Cons.prems by (simp split: option.split)
    from Cons.IH [OF ok] show ?case by (auto split: option.splits bind_splits)
  qed simp
  from this [of "[]" "cb_uses (h b)"] show ?thesis by (simp add: rename_uses_def split: option.splits)
qed

lemma rename_defs_effect:
  assumes "distinct vs" "\<forall>v. rn_table s b v = None" "smap_ok ch"
  shows "case fold (rename_def N lu i b) vs (s, ch) of (s', ch') \<Rightarrow>
     (\<forall>b'. b' \<noteq> b \<longrightarrow> rn_table s' b' = rn_table s b') \<and>
     (\<forall>v. rn_table s' b v \<noteq> None \<longleftrightarrow> v \<in> set vs \<and> fst (rename_suffix lu i v 0) \<noteq> None) \<and>
     smap_ok ch' \<and> (\<forall>v. smap_get ch' v = (case rn_table s' b v of Some n \<Rightarrow> Some n | None \<Rightarrow> smap_get ch v)) \<and>
     rn_code s' = (rn_code s)(b := added_assigns N (rn_table s' b) (smap_get ch) vs @ rn_code s b)"
  using assms(1)
proof (induction vs rule: rev_induct)
  case Nil
  then show ?case using assms(2,3) by (simp add: added_assigns_def)
next
  case (snoc v vs)
  obtain s1 ch1 where s1: "fold (rename_def N lu i b) vs (s, ch) = (s1, ch1)" by (cases "fold (rename_def N lu i b) vs (s, ch)")
  have v: "v \<notin> set vs" and d: "distinct vs" using snoc.prems by simp_all
  note IH = snoc.IH [OF d, unfolded s1 prod.case]
  then have new: "rn_table s1 b v = None" using v by blast
  obtain suffix cnt where rs: "rename_suffix lu i v (rn_cnt s1) = (suffix, cnt)" by (cases "rename_suffix lu i v (rn_cnt s1)")
  have iff: "suffix \<noteq> None \<longleftrightarrow> fst (rename_suffix lu i v 0) \<noteq> None"
    using rename_suffix_result [OF rs] rename_suffix_result [of lu i v 0 "fst (rename_suffix lu i v 0)" "snd (rename_suffix lu i v 0)"]
    by (auto split: if_splits)
  have step: "fold (rename_def N lu i b) (vs @ [v]) (s, ch) = rename_def N lu i b v (s1, ch1)" by (simp add: s1)
  show ?case
  proof (cases suffix)
    case None
    then have "rename_def N lu i b v (s1, ch1) = (s1\<lparr>rn_cnt := cnt\<rparr>, ch1)" by (simp add: rename_def_def rs)
    with step IH iff None new show ?thesis by (auto simp: added_assigns_def)
  next
    case (Some n_str)
    let ?n = "name_of N v @ n_str"
    let ?table = "(rn_table s1)(b := (rn_table s1 b)(v \<mapsto> ?n))"
    let ?pre = "case smap_get ch v of Some m \<Rightarrow> generateAssignment (type_of N v) m ?n | None \<Rightarrow> []"
    have "smap_get ch1 v = smap_get ch v" using IH new by simp
    then have st: "\<exists>s'. rename_def N lu i b v (s1, ch1) = (s', smap_put v ?n ch1) \<and> rn_table s' = ?table \<and>
        rn_code s' = (rn_code s1)(b := ?pre @ rn_code s1 b)"
      by (cases "smap_get ch v") (simp_all add: rename_def_def rs Some Let_def)
    have old: "added_assigns N (?table b) (smap_get ch) vs = added_assigns N (rn_table s1 b) (smap_get ch) vs"
      unfolding added_assigns_def using v by (intro arg_cong [of _ _ concat] map_cong refl) auto
    have "added_assigns N (?table b) (smap_get ch) (vs @ [v]) = ?pre @ added_assigns N (rn_table s1 b) (smap_get ch) vs"
      unfolding old [symmetric] by (simp add: added_assigns_def split: option.split)
    from st obtain s' where s': "rename_def N lu i b v (s1, ch1) = (s', smap_put v ?n ch1)" "rn_table s' = ?table"
      "rn_code s' = (rn_code s1)(b := ?pre @ rn_code s1 b)" by blast
    have "\<forall>b'. b' \<noteq> b \<longrightarrow> rn_table s' b' = rn_table s b'" using IH s'(2) by simp
    moreover have "rn_table s' b u \<noteq> None \<longleftrightarrow> u \<in> set (vs @ [v]) \<and> fst (rename_suffix lu i u 0) \<noteq> None" for u
      using IH s'(2) iff Some by (cases "u = v") simp_all
    moreover have "smap_ok (smap_put v ?n ch1)" using IH by simp
    moreover have "smap_get (smap_put v ?n ch1) u = (case rn_table s' b u of Some n \<Rightarrow> Some n | None \<Rightarrow> smap_get ch u)" for u
      using IH s'(2) by (cases "u = v") simp_all
    moreover have "rn_code s' = (rn_code s)(b := added_assigns N (rn_table s' b) (smap_get ch) (vs @ [v]) @ rn_code s b)"
      unfolding s'(2) \<open>added_assigns N (?table b) (smap_get ch) (vs @ [v]) = _\<close> using IH s'(3) by simp
    ultimately show ?thesis unfolding step s'(1) prod.case by blast
  qed
qed

lemma rename_defs_ok:
  assumes "table_ok N s" "changed_ok N ch"
  shows "table_ok N (fst (fold (rename_def N lu i b) vs (s, ch))) \<and> changed_ok N (snd (fold (rename_def N lu i b) vs (s, ch)))"
  by (rule fold_invariant [where I = "\<lambda>st. table_ok N (fst st) \<and> changed_ok N (snd st)"]) (use assms rename_def_ok in auto)

lemma replace_all:
  assumes "\<forall>v. plain (name_of N v)" "changed_ok N ch"
  shows "foldM (\<lambda>(v, n) s. case replaceString (rn_code s b) (name_of N v) n of
           None \<Rightarrow> None | Some code \<Rightarrow> Some (s\<lparr>rn_code := (rn_code s)(b := code)\<rparr>)) ch s =
         Some (s\<lparr>rn_code := (rn_code s)(b := rename_words N ch (rn_code s b))\<rparr>)"
  using assms(2)
proof (induction ch arbitrary: s)
  case Nil
  then show ?case by (simp add: rename_words_def)
next
  case (Cons p ch)
  obtain v n where p: "p = (v, n)" by (cases p)
  with Cons.prems obtain c where "n = name_of N v @ ''_'' @ nat_str c" by (auto simp: changed_ok_def)
  then have "new_name_ok (name_of N v) n" using nat_str_special [of c] by (auto simp: new_name_ok_def)
  from replaceString_result [OF assms(1) [rule_format] this]
  have "replaceString (rn_code s b) (name_of N v) n = Some (rename_text (name_of N v) n (rn_code s b))" .
  moreover have "changed_ok N ch" using Cons.prems by (simp add: changed_ok_def)
  ultimately show ?case using Cons.IH by (simp add: p rename_words_def cong: if_cong)
qed

section \<open>The whole pass\<close>

text \<open>The text of the block at position \<open>i\<close> after the pass: the words that are names of variables with a new name in the block
  are replaced by it, variable by variable in the order of the map, in the old text behind the added assignments.\<close>

definition renamed_text :: "names \<Rightarrow> heap \<Rightarrow> bid list \<Rightarrow> rename_state \<Rightarrow> nat \<Rightarrow> bool" where
  "renamed_text N h tempQ s i \<longleftrightarrow>
     (\<exists>ch. smap_ok ch \<and> smap_get ch = block_name h tempQ (rn_table s) i \<and>
        rn_code s (tempQ ! i) = rename_words N ch
          (added_assigns N (rn_table s (tempQ ! i)) (read_name h tempQ (rn_table s) i) (cb_defs (h (tempQ ! i))) @
           cb_insert_code (h (tempQ ! i))))"

lemma rename_block_effect:
  assumes plain: "\<forall>v. plain (name_of N v)" and t: "table_ok N s" and i: "i < length tempQ" "distinct tempQ"
    and d: "distinct (cb_defs (h (tempQ ! i)))" and new: "\<forall>b. b \<notin> set (take i tempQ) \<longrightarrow> (\<forall>v. rn_table s b v = None)"
    and code: "rn_code s (tempQ ! i) = cb_insert_code (h (tempQ ! i))"
  shows "\<exists>s'. rename_block N h (last_use h tempQ) tempQ i s = Some s' \<and> table_ok N s' \<and>
     (\<forall>b. b \<noteq> tempQ ! i \<longrightarrow> rn_table s' b = rn_table s b \<and> rn_code s' b = rn_code s b) \<and>
     (\<forall>v. rn_table s' (tempQ ! i) v \<noteq> None \<longleftrightarrow> needs_new_name h tempQ i v) \<and> renamed_text N h tempQ s' i"
proof -
  let ?b = "tempQ ! i" and ?ch = "rename_uses h (tempQ ! i) (rn_table s)"
  have out: "?b \<notin> set (take i tempQ)" using i by (auto simp: in_set_conv_nth nth_eq_iff_index_eq)
  then have none: "\<forall>v. rn_table s ?b v = None" using new by blast
  obtain s1 ch where f: "fold (rename_def N (last_use h tempQ) i ?b) (cb_defs (h ?b)) (s, ?ch) = (s1, ch)"
    by (cases "fold (rename_def N (last_use h tempQ) i ?b) (cb_defs (h ?b)) (s, ?ch)")
  have ok: "table_ok N s1" "changed_ok N ch"
    using rename_defs_ok [OF t rename_uses_ok [OF t], of "last_use h tempQ" i ?b "cb_defs (h ?b)" h ?b] by (simp_all add: f)
  have ch0: "smap_ok ?ch" using rename_uses_get by blast
  note e = rename_defs_effect [OF d none ch0, where N = N and lu = "last_use h tempQ" and i = i, unfolded f prod.case]
  have read: "smap_get ?ch v = read_name h tempQ (rn_table s1) i v" for v
  proof (cases "v \<in> set (cb_uses (h ?b)) \<and> def_cb h ?b v \<noteq> None")
    case True
    then obtain x where x: "def_cb h ?b v = Some x" by blast
    have "rn_table s x v = (if x \<in> set (take i tempQ) then rn_table s1 x v else None)"
      using e new out by (metis option.distinct(1))
    with True x rename_uses_get [of h ?b "rn_table s" v] show ?thesis by (simp add: read_name_def)
  next
    case False
    with rename_uses_get [of h ?b "rn_table s" v] show ?thesis by (auto simp: read_name_def)
  qed
  let ?s' = "s1\<lparr>rn_code := (rn_code s1)(?b := rename_words N ch (rn_code s1 ?b))\<rparr>"
  have "rename_block N h (last_use h tempQ) tempQ i s = Some ?s'"
    using replace_all [OF plain ok(2)] f by (simp add: rename_block_def Let_def)
  moreover have "table_ok N ?s'" using ok(1) by (simp add: table_ok_def)
  moreover have "rn_table s1 ?b v \<noteq> None \<longleftrightarrow> needs_new_name h tempQ i v" for v
    using e renamed_iff [OF i(1), of h v 0] by (simp add: needs_new_name_def)
  moreover have "renamed_text N h tempQ ?s' i"
    unfolding renamed_text_def
  proof (intro exI [of _ ch] conjI)
    show "smap_ok ch" using e by blast
    have "smap_get ch v = block_name h tempQ (rn_table ?s') i v" for v
      using e read [of v] by (simp add: block_name_def split: option.split)
    then show "smap_get ch = block_name h tempQ (rn_table ?s') i" by (simp add: fun_eq_iff)
    have "smap_get ?ch = read_name h tempQ (rn_table ?s') i" using read by (simp add: fun_eq_iff)
    with e code show "rn_code ?s' ?b = rename_words N ch
        (added_assigns N (rn_table ?s' ?b) (read_name h tempQ (rn_table ?s') i) (cb_defs (h ?b)) @ cb_insert_code (h ?b))"
      by simp
  qed
  ultimately show ?thesis using e by simp
qed

text \<open>The text of a block depends on the names given up to it.\<close>

lemma renamed_text_later:
  assumes "renamed_text N h tempQ s i" "i < length tempQ"
    "\<forall>b \<in> set (take (Suc i) tempQ). rn_table s' b = rn_table s b" "rn_code s' (tempQ ! i) = rn_code s (tempQ ! i)"
  shows "renamed_text N h tempQ s' i"
proof -
  have b: "rn_table s' (tempQ ! i) = rn_table s (tempQ ! i)" using assms(2,3) by (simp add: take_Suc_conv_app_nth)
  have "read_name h tempQ (rn_table s') i = read_name h tempQ (rn_table s) i"
    using assms(2,3) by (auto simp: read_name_def fun_eq_iff take_Suc_conv_app_nth intro!: Option.bind_cong)
  moreover from this b have "block_name h tempQ (rn_table s') i = block_name h tempQ (rn_table s) i"
    by (simp add: block_name_def fun_eq_iff split: option.split)
  ultimately show ?thesis using assms(1,4) b by (simp add: renamed_text_def)
qed

lemma rename_all_effect:
  assumes plain: "\<forall>v. plain (name_of N v)" and tQ: "distinct tempQ" "\<forall>b \<in> set tempQ. distinct (cb_defs (h b))"
  shows "n \<le> length tempQ \<Longrightarrow> \<exists>s. foldM (rename_block N h (last_use h tempQ) tempQ) [0..<n] (rename_start h) = Some s \<and> table_ok N s \<and>
     (\<forall>b. b \<notin> set (take n tempQ) \<longrightarrow> (\<forall>v. rn_table s b v = None) \<and> rn_code s b = cb_insert_code (h b)) \<and>
     (\<forall>i < n. (\<forall>v. rn_table s (tempQ ! i) v \<noteq> None \<longleftrightarrow> needs_new_name h tempQ i v) \<and> renamed_text N h tempQ s i)"
proof (induction n)
  case 0
  then show ?case by (simp add: rename_start_def table_ok_def)
next
  case (Suc n)
  then obtain s where s: "foldM (rename_block N h (last_use h tempQ) tempQ) [0..<n] (rename_start h) = Some s" "table_ok N s"
    "\<forall>b. b \<notin> set (take n tempQ) \<longrightarrow> (\<forall>v. rn_table s b v = None) \<and> rn_code s b = cb_insert_code (h b)"
    "\<forall>i < n. (\<forall>v. rn_table s (tempQ ! i) v \<noteq> None \<longleftrightarrow> needs_new_name h tempQ i v) \<and> renamed_text N h tempQ s i" by auto
  have n: "n < length tempQ" using Suc.prems by simp
  have out: "tempQ ! n \<notin> set (take n tempQ)" using n tQ(1) by (auto simp: in_set_conv_nth nth_eq_iff_index_eq)
  have d: "distinct (cb_defs (h (tempQ ! n)))" using tQ(2) n by simp
  from rename_block_effect [where h = h, OF plain s(2) n tQ(1) d] s(3) out obtain s' where
    s': "rename_block N h (last_use h tempQ) tempQ n s = Some s'" "table_ok N s'"
      "\<forall>b. b \<noteq> tempQ ! n \<longrightarrow> rn_table s' b = rn_table s b \<and> rn_code s' b = rn_code s b"
      "\<forall>v. rn_table s' (tempQ ! n) v \<noteq> None \<longleftrightarrow> needs_new_name h tempQ n v" "renamed_text N h tempQ s' n" by blast
  have "(\<forall>v. rn_table s' (tempQ ! i) v \<noteq> None \<longleftrightarrow> needs_new_name h tempQ i v) \<and> renamed_text N h tempQ s' i" if "i < Suc n" for i
  proof (cases "i = n")
    case False
    with that have i: "i < n" by simp
    have "tempQ ! i \<noteq> tempQ ! n" using i n tQ(1) by (simp add: nth_eq_iff_index_eq)
    moreover have "set (take (Suc i) tempQ) \<subseteq> set (take n tempQ)" using i by (intro set_take_subset_set_take) simp
    then have "\<forall>b \<in> set (take (Suc i) tempQ). b \<noteq> tempQ ! n" using out by blast
    ultimately show ?thesis using s(4) i n s'(3) renamed_text_later [of N h tempQ s i s'] by simp
  qed (use s'(4,5) in simp)
  with s(1,3) s'(1,2,3) n show ?case by (auto simp: take_Suc_conv_app_nth)
qed

section \<open>Properties\<close>


text \<open>A statement sequence \<open>0: x=1; 1: a=x; 2: x=2; 3: b=x\<close> in which block 3 reads the value of block 0.\<close>

definition ex_rename :: heap where
  "ex_rename = (\<lambda>b. (new_codeBlock NONQUERY b)
     \<lparr>cb_defs := (if b = 0 \<or> b = 2 then [5] else []),
      cb_uses := (if b = 1 \<or> b = 3 then [5] else []),
      cb_def_stmts := (if b = 1 \<or> b = 3 then [(5, [0])] else []),
      cb_insert_code := (if b = 0 then ''x=1;'' else if b = 1 then ''a=x;''
                         else if b = 2 then ''x=2;'' else ''b=x;'')\<rparr>)"

definition ex_names :: names where
  "ex_names = \<lparr>name_of = (\<lambda>v. ''x''), type_of = (\<lambda>v. Scalar)\<rparr>"


text \<open>When all variable names are letters and underscores, the renaming pass terminates, and no
  two of the names it gives are equal: each is the variable's name, an underscore and its
  own number.\<close>

theorem rename_names_fresh:
  assumes "\<forall>v. plain (name_of N v)"
  shows "\<exists>s. rename_all N h tempQ = Some s \<and>
           (\<forall>b v n. rn_table s b v = Some n \<longrightarrow>
              (\<exists>c < rn_cnt s. n = name_of N v @ ''_'' @ nat_str c)) \<and>
           (\<forall>b v b' v' n. rn_table s b v = Some n \<and> rn_table s b' v' = Some n \<longrightarrow>
              b = b' \<and> v = v')"
proof -
  have "table_ok N (rename_start h)" by (simp add: table_ok_def rename_start_def)
  then have "\<exists>s. rename_all N h tempQ = Some s \<and> table_ok N s"
    unfolding rename_all_def
    by (rule foldM_invariant) (rule rename_block_total [OF assms])
  then show ?thesis unfolding table_ok_def .
qed

lemma rename_names_fresh_witness:
  "\<exists>s. rename_all ex_names ex_rename [0, 1, 2, 3] = Some s \<and>
     (\<forall>b v n. rn_table s b v = Some n \<longrightarrow>
        (\<exists>c < rn_cnt s. n = name_of ex_names v @ ''_'' @ nat_str c)) \<and>
     (\<forall>b v b' v' n. rn_table s b v = Some n \<and> rn_table s b' v' = Some n \<longrightarrow> b = b' \<and> v = v')"
  by (rule rename_names_fresh) (simp add: ex_names_def plain_def isSpecialChar_def)

text \<open>A definition that is read twice is not protected after its first reader: in the order
  \<open>0, 1, 2, 3\<close> no variable is renamed, so block 3, which reads the value of block 0, gets the
  one of block 2.\<close>

theorem rename_loses_second_use:
  "uses_def ex_rename [0, 1, 2, 3] 3 0 5 \<and> 5 \<in> set (cb_defs (ex_rename 2)) \<and>
   reordered_text ex_names ex_rename [0, 1, 2, 3] = Some ''x=1;a=x;x=2;b=x;''"
proof -
  have u4: "[0..<4] = [0, 1, 2, 3 :: nat]" by code_simp
  have lu: "(last_use ex_rename [0, 1, 2, 3] ! j) 5 = (if j = 0 then Some 1 else None)" if "j < 4" for j
  proof -
    from that consider "j = 0" | "j = 1" | "j = 2" | "j = 3" by linarith
    then show ?thesis
      by cases (simp_all add: last_use_def last_use_map_eq last_use_var_def ex_rename_def u4
          new_codeBlock_def smap_at_def)
  qed
  have suffix: "rename_suffix (last_use ex_rename [0, 1, 2, 3]) i 5 0 = (None, 0)"
    if i: "i = 0 \<or> i = 2" for i
  proof -
    have u2: "[0..<2] = [0, 1 :: nat]" by code_simp
    from i show ?thesis
    proof
      assume "i = 2"
      then show ?thesis using lu [of 0] lu [of 1] by (simp add: rename_suffix_def u2)
    qed (simp add: rename_suffix_def)
  qed
  have none: "rename_uses ex_rename b (\<lambda>b v. None) = []" for b
    by (simp add: rename_uses_def ex_rename_def new_codeBlock_def split: option.splits)
  have step: "rename_block ex_names ex_rename (last_use ex_rename [0, 1, 2, 3]) [0, 1, 2, 3] i
      (rename_start ex_rename) = Some (rename_start ex_rename)" if "i < 4" for i
  proof -
    have b: "[0, 1, 2, 3] ! i = i"
    proof -
      from that consider "i = 0" | "i = 1" | "i = 2" | "i = 3" by linarith
      then show ?thesis by cases simp_all
    qed
    have defs: "cb_defs (ex_rename i) = (if i = 0 \<or> i = 2 then [5] else [])"
      by (simp add: ex_rename_def new_codeBlock_def)
    have start: "rn_cnt (rename_start ex_rename) = 0" "rn_table (rename_start ex_rename) = (\<lambda>b v. None)"
      "(rename_start ex_rename)\<lparr>rn_cnt := 0\<rparr> = rename_start ex_rename"
      by (simp_all add: rename_start_def)
    show ?thesis
      by (simp add: rename_block_def b defs none start rename_def_def suffix del: One_nat_def)
  qed
  have "rename_all ex_names ex_rename [0, 1, 2, 3] = Some (rename_start ex_rename)"
  proof -
    have len: "length [0, 1, 2, 3 :: nat] = 4" by simp
    show ?thesis
      unfolding rename_all_def len u4
      using step [of 0] step [of 1] step [of 2] step [of 3] by (simp del: One_nat_def)
  qed
  then show ?thesis
    by (simp add: reordered_text_def uses_def_def del: One_nat_def)
       (simp add: rename_start_def ex_rename_def new_codeBlock_def smap_at_def)
qed

end
