(* ===== verification/Quro_Reach.thy ===== *)
theory Quro_Reach
  imports Quro_Block "HOL-Library.While_Combinator"
begin

text \<open>
  The reaching-definitions analysis of QURO (\<open>myLiveVariables::computeLiveness\<close> of
  \<open>src/quro/code/ControlFlowGraph.cpp\<close>): which code blocks lie in which block of the
  control-flow graph, the gen and kill sets, the worklist iteration, and the definitions
  it gives to every use.  The graph is the compiler's: its blocks, edges (an edge may be
  null) and statement ranges, and the sort of the worklist by post order, are parameters.
\<close>

type_synonym blk = nat    \<comment> \<open>\<open>CFGBlock\<close>, by its block ID\<close>

record cfg =
  cfg_blocks :: "blk list"
  cfg_pred :: "blk \<Rightarrow> blk option list"
  cfg_succ :: "blk \<Rightarrow> blk option list"
  cfg_stmts :: "blk \<Rightarrow> (src_loc \<times> src_loc) list"

section \<open>The worklist\<close>

text \<open>\<open>DataflowWorklist\<close>: a vector used as a stack (its back is the head of the list here) and a bit
  for each block on it.\<close>

record dataflow_worklist =
  wl_list :: "blk list"
  wl_enqueued :: "blk \<Rightarrow> bool"

definition wl_empty :: dataflow_worklist where
  "wl_empty = \<lparr>wl_list = [], wl_enqueued = (\<lambda>b. False)\<rparr>"

definition enqueueBlock :: "blk option \<Rightarrow> dataflow_worklist \<Rightarrow> dataflow_worklist" where
  "enqueueBlock block w =
     (case block of
        None \<Rightarrow> w
      | Some b \<Rightarrow>
          (if \<not> wl_enqueued w b
           then \<lparr>wl_list = b # wl_list w, wl_enqueued = (wl_enqueued w)(b := True)\<rparr> else w))"

definition enqueuePredecessors :: "cfg \<Rightarrow> blk \<Rightarrow> dataflow_worklist \<Rightarrow> dataflow_worklist" where
  "enqueuePredecessors G b w = fold enqueueBlock (cfg_pred G b) w"

definition enqueueSuccessors :: "cfg \<Rightarrow> blk \<Rightarrow> dataflow_worklist \<Rightarrow> dataflow_worklist" where
  "enqueueSuccessors G b w = fold enqueueBlock (cfg_succ G b) w"

definition dequeue :: "dataflow_worklist \<Rightarrow> (blk \<times> dataflow_worklist) option" where
  "dequeue w =
     (case wl_list w of
        [] \<Rightarrow> None
      | b # bs \<Rightarrow> Some (b, \<lparr>wl_list = bs, wl_enqueued = (wl_enqueued w)(b := False)\<rparr>))"

definition sortWorklist :: "(blk list \<Rightarrow> blk list) \<Rightarrow> dataflow_worklist \<Rightarrow> dataflow_worklist" where
  "sortWorklist pov w = w\<lparr>wl_list := pov (wl_list w)\<rparr>"

text \<open>\<open>reverseSortWorklist\<close>, which the code defines and does not call.\<close>

definition reverseSortWorklist ::
    "(blk list \<Rightarrow> blk list) \<Rightarrow> dataflow_worklist \<Rightarrow> dataflow_worklist" where
  "reverseSortWorklist pov w =
     (let w = sortWorklist pov w; temp_vec = wl_list w in w\<lparr>wl_list := rev temp_vec\<rparr>)"

text \<open>The bit of a block is set exactly while the block is on the list, once.\<close>

definition wl_ok :: "dataflow_worklist \<Rightarrow> bool" where
  "wl_ok w \<longleftrightarrow> distinct (wl_list w) \<and> (\<forall>b. wl_enqueued w b \<longleftrightarrow> b \<in> set (wl_list w))"

lemma wl_ok_empty [simp]: "wl_ok wl_empty"
  by (simp add: wl_ok_def wl_empty_def)

lemma wl_ok_enqueue [simp]: "wl_ok w \<Longrightarrow> wl_ok (enqueueBlock b w)"
  by (auto simp: wl_ok_def enqueueBlock_def split: option.splits)

lemma wl_enqueue_set [simp]:
  "wl_ok w \<Longrightarrow> set (wl_list (enqueueBlock b w)) = set_option b \<union> set (wl_list w)"
  by (auto simp: wl_ok_def enqueueBlock_def split: option.splits)

lemma wl_ok_fold: "wl_ok w \<Longrightarrow> wl_ok (fold enqueueBlock bs w)"
  by (induction bs arbitrary: w) auto

lemma wl_fold_set:
  "wl_ok w \<Longrightarrow> set (wl_list (fold enqueueBlock bs w)) = {b. Some b \<in> set bs} \<union> set (wl_list w)"
  by (induction bs arbitrary: w) (auto simp: elem_set)

lemma wl_fold_append:
  "wl_ok w \<Longrightarrow> \<exists>us. wl_list (fold enqueueBlock bs w) = us @ wl_list w \<and> distinct us \<and>
     set us = {b. Some b \<in> set bs} - set (wl_list w)"
proof (induction bs arbitrary: w)
  case Nil
  then show ?case by simp
next
  case (Cons x bs)
  from Cons.IH [OF wl_ok_enqueue [OF Cons.prems], of x] obtain us where
    us: "wl_list (fold enqueueBlock bs (enqueueBlock x w)) = us @ wl_list (enqueueBlock x w)"
      "distinct us" "set us = {b. Some b \<in> set bs} - set (wl_list (enqueueBlock x w))" by blast
  show ?case
  proof (cases "\<exists>b. x = Some b \<and> b \<notin> set (wl_list w)")
    case True
    then obtain b where b: "x = Some b" "b \<notin> set (wl_list w)" by blast
    then have "wl_list (enqueueBlock x w) = b # wl_list w"
      using Cons.prems by (simp add: enqueueBlock_def wl_ok_def)
    with us b show ?thesis by (intro exI [of _ "us @ [b]"]) auto
  next
    case False
    then have "wl_list (enqueueBlock x w) = wl_list w"
      using Cons.prems by (auto simp: enqueueBlock_def wl_ok_def split: option.splits)
    with us False show ?thesis by (intro exI [of _ us]) auto
  qed
qed

lemma dequeue_ok:
  "wl_ok w \<Longrightarrow> dequeue w = Some (b, w') \<Longrightarrow>
   wl_ok w' \<and> wl_list w = b # wl_list w' \<and> b \<notin> set (wl_list w')"
  by (cases "wl_list w") (auto simp: dequeue_def wl_ok_def split: if_splits)

section \<open>Gen sets\<close>

text \<open>\<open>Vars\<close>: a map from variables to the last code block that defines each; \<open>DefUseValues\<close>: a set of
  code blocks.\<close>

type_synonym vars = "(vid \<times> bid) list"
type_synonym defuse = "bid stdset"

definition vars_add :: "vid \<Rightarrow> bid \<Rightarrow> vars \<Rightarrow> vars" where
  "vars_add v cb m = smap_put v cb m"

definition getStmtList :: "vars \<Rightarrow> defuse" where
  "getStmtList m = fold (\<lambda>(v, cb). sset_insert cb) m []"

definition add_list :: "defuse \<Rightarrow> defuse \<Rightarrow> defuse" where
  "add_list a b = fold sset_insert b a"

definition merge_list :: "defuse \<Rightarrow> defuse \<Rightarrow> defuse" where
  "merge_list a b = (let val = fold sset_insert a [] in fold sset_insert b val)"

definition subtract_list :: "defuse \<Rightarrow> defuse \<Rightarrow> defuse" where
  "subtract_list a b = fold (\<lambda>c val. if List.member b c then val else sset_insert c val) a []"

definition defuse_equals :: "defuse \<Rightarrow> defuse \<Rightarrow> bool" where
  "defuse_equals a b = (if length a \<noteq> length b then False else list_all (List.member b) a)"

lemma set_getStmtList [simp]: "set (getStmtList m) = snd ` set m"
proof -
  have "set (fold (\<lambda>(v, cb). sset_insert cb) m s) = set s \<union> snd ` set m" for s
    by (induction m arbitrary: s) auto
  then show ?thesis by (simp add: getStmtList_def)
qed

lemma set_add_list [simp]: "set (add_list a b) = set a \<union> set b"
  unfolding add_list_def by (rule fold_insert_set [of set]) simp

lemma sset_ok_add_list [simp]: "sset_ok a \<Longrightarrow> sset_ok (add_list a b)"
  unfolding add_list_def by (rule sset.invar_fold)

lemma set_subtract_list [simp]: "set (subtract_list a b) = set a - set b"
proof -
  have "set (fold (\<lambda>c val. if List.member b c then val else sset_insert c val) a s) =
        set s \<union> (set a - set b)" for s
    by (induction a arbitrary: s) auto
  then show ?thesis by (simp add: subtract_list_def)
qed

lemma sset_ok_subtract_list [simp]: "sset_ok (subtract_list a b)"
proof -
  have "sset_ok s \<Longrightarrow>
      sset_ok (fold (\<lambda>c val. if List.member b c then val else sset_insert c val) a s)" for s
    by (induction a arbitrary: s) auto
  then show ?thesis by (simp add: subtract_list_def)
qed

lemma defuse_equals_iff: "sset_ok a \<Longrightarrow> sset_ok b \<Longrightarrow> defuse_equals a b \<longleftrightarrow> set a = set b"
proof
  assume ok: "sset_ok a" "sset_ok b" and e: "defuse_equals a b"
  then have "length a = length b" "set a \<subseteq> set b" by (auto simp: defuse_equals_def list_all_iff split: if_splits)
  moreover have "card (set a) = length a" "card (set b) = length b"
    using ok sset_ok_distinct distinct_card by blast+
  ultimately show "set a = set b" by (simp add: card_subset_eq)
next
  assume ok: "sset_ok a" "sset_ok b" and e: "set a = set b"
  then have "a = b" by (rule sset_eqI)
  then show "defuse_equals a b" by (simp add: defuse_equals_def list_all_iff)
qed

text \<open>The range of a graph block: from its statements' first start to their last end.\<close>

definition range_step :: "src_loc \<times> src_loc \<Rightarrow> src_loc \<times> src_loc \<Rightarrow> src_loc \<times> src_loc" where
  "range_step s r =
     (let (st_begin, st_end) = s; (b, e) = r;
          b' = (if \<not> loc_isValid b \<or> (loc_isValid st_begin \<and> loc_before st_begin b)
                then st_begin else b);
          e' = (if \<not> loc_isValid e \<or> (loc_isValid st_end \<and> loc_before e st_end)
                then st_end else e)
      in (b', e'))"

definition blocks_range :: "cfg \<Rightarrow> blk \<Rightarrow> src_loc \<times> src_loc" where
  "blocks_range G b = fold range_step (cfg_stmts G b) (None, None)"

definition CFG_to_stmts :: "cfg \<Rightarrow> heap \<Rightarrow> bid list \<Rightarrow> blk \<Rightarrow> bid list" where
  "CFG_to_stmts G h code_blocks b =
     filter (\<lambda>cb. rangeIsWithin (cb_begin (h cb)) (cb_end (h cb))
                    (fst (blocks_range G b)) (snd (blocks_range G b))) code_blocks"

definition gen :: "cfg \<Rightarrow> heap \<Rightarrow> bid list \<Rightarrow> blk \<Rightarrow> vars" where
  "gen G h code_blocks b =
     fold (\<lambda>cb m. fold (\<lambda>v. vars_add v cb) (cb_defs (h cb)) m) (CFG_to_stmts G h code_blocks b) []"

text \<open>The locations of the condition of a conditional block are \<open>cd_cond_begin\<close> and
  \<open>cd_cond_end\<close>.\<close>

definition CFG_to_conds :: "cfg \<Rightarrow> cheap \<Rightarrow> cid list \<Rightarrow> blk \<Rightarrow> cid list" where
  "CFG_to_conds G C cond_blocks b =
     filter (\<lambda>c. locIsWithin (cd_cond_begin (C c)) (fst (blocks_range G b)) (snd (blocks_range G b)) \<or>
                 locIsWithin (cd_cond_end (C c)) (fst (blocks_range G b)) (snd (blocks_range G b)))
       cond_blocks"

lemma range_fold_bounds:
  "fold range_step ss (b, e) = (Some lo, hi) \<Longrightarrow>
   (\<forall>x. b = Some x \<longrightarrow> lo \<le> x) \<and> (\<forall>x y. (Some x, y) \<in> set ss \<longrightarrow> lo \<le> x)"
proof (induction ss arbitrary: b e)
  case Nil
  then show ?case by simp
next
  case (Cons s ss)
  obtain sb se where s: "s = (sb, se)" by (cases s)
  obtain b1 e1 where r: "range_step s (b, e) = (b1, e1)" by (cases "range_step s (b, e)")
  with Cons.prems have "fold range_step ss (b1, e1) = (Some lo, hi)" by simp
  note IH = Cons.IH [OF this]
  have b1: "b1 = (if \<not> loc_isValid b \<or> (loc_isValid sb \<and> loc_before sb b) then sb else b)"
    using r by (auto simp: range_step_def s)
  have le: "(\<forall>x. b = Some x \<longrightarrow> (\<exists>z. b1 = Some z \<and> z \<le> x)) \<and> (\<forall>x. sb = Some x \<longrightarrow> (\<exists>z. b1 = Some z \<and> z \<le> x))"
    using b1 by (cases b; cases sb) (auto simp: loc_isValid_def)
  show ?case
  proof (intro conjI allI impI)
    fix x assume "b = Some x"
    with le obtain z where "b1 = Some z" "z \<le> x" by blast
    with IH show "lo \<le> x" by force
  next
    fix x y assume "(Some x, y) \<in> set (s # ss)"
    then consider "sb = Some x" | "(Some x, y) \<in> set ss" using s by auto
    then show "lo \<le> x"
    proof cases
      case 1
      with le obtain z where "b1 = Some z" "z \<le> x" by blast
      with IH show ?thesis by force
    qed (use IH in blast)
  qed
qed

lemma gen_fold_get:
  "smap_get (fold (\<lambda>cb m. fold (\<lambda>v. vars_add v cb) (cb_defs (h cb)) m) cbs m) v =
     (case List.find (\<lambda>cb. v \<in> set (cb_defs (h cb))) (rev cbs) of
        Some cb \<Rightarrow> Some cb | None \<Rightarrow> smap_get m v)"
proof (induction cbs arbitrary: m rule: rev_induct)
  case Nil
  then show ?case by simp
next
  case (snoc cb cbs)
  have "smap_get (fold (\<lambda>v. vars_add v cb) vs m) v = (if v \<in> set vs then Some cb else smap_get m v)" for vs m
    by (induction vs arbitrary: m) (auto simp: vars_add_def)
  with snoc show ?case by simp
qed

lemma gen_last:
  "smap_get (gen G h code_blocks b) v =
     List.find (\<lambda>cb. v \<in> set (cb_defs (h cb))) (rev (CFG_to_stmts G h code_blocks b))"
  by (simp add: gen_def gen_fold_get split: option.split)

lemma gen_ok: "smap_ok (gen G h code_blocks b)"
proof -
  have "smap_ok m \<Longrightarrow> smap_ok (fold (\<lambda>v. vars_add v cb) vs m)" for vs m cb
    by (induction vs arbitrary: m) (auto simp: vars_add_def)
  then have "smap_ok m \<Longrightarrow> smap_ok (fold (\<lambda>cb m. fold (\<lambda>v. vars_add v cb) (cb_defs (h cb)) m) cbs m)" for cbs m
    by (induction cbs arbitrary: m) auto
  then show ?thesis by (simp add: gen_def)
qed

section \<open>Kill sets\<close>

text \<open>The walk over the predecessors of \<open>block\<close>: every block met that has a gen entry for a variable
  that \<open>block\<close> defines adds that entry.\<close>

type_synonym kill_state = "dataflow_worklist \<times> blk stdset \<times> defuse"

definition kill_collect :: "vars \<Rightarrow> vars \<Rightarrow> defuse \<Rightarrow> defuse" where
  "kill_collect myvar gen_pred kill =
     fold (\<lambda>(v, cb) kill. case smap_get gen_pred v of None \<Rightarrow> kill | Some d \<Rightarrow> sset_insert d kill)
       myvar kill"

definition kill_pred :: "blk option \<Rightarrow> dataflow_worklist \<times> blk stdset \<Rightarrow> dataflow_worklist \<times> blk stdset" where
  "kill_pred p st =
     (let (w, counted) = st in
      case p of
        None \<Rightarrow> (w, counted)
      | Some b \<Rightarrow> (if List.member counted b then (w, counted)
                   else (enqueueBlock (Some b) w, sset_insert b counted)))"

definition kill_step :: "cfg \<Rightarrow> (blk \<Rightarrow> vars) \<Rightarrow> blk \<Rightarrow> kill_state \<Rightarrow> kill_state" where
  "kill_step G gn block st =
     (let (w, counted, kill) = st in
      case dequeue w of
        None \<Rightarrow> st
      | Some (pred_block, w1) \<Rightarrow>
          (let kill' = kill_collect (gn block) (gn pred_block) kill;
               (w2, counted') = fold kill_pred (cfg_pred G pred_block) (w1, counted)
           in (w2, counted', kill')))"

definition kill_of :: "cfg \<Rightarrow> (blk \<Rightarrow> vars) \<Rightarrow> blk \<Rightarrow> defuse option" where
  "kill_of G gn block =
     map_option (\<lambda>(w, counted, kill). kill)
       (while_option (\<lambda>(w, counted, kill). wl_list w \<noteq> []) (kill_step G gn block)
          (enqueuePredecessors G block wl_empty, [block], []))"

lemma set_kill_collect:
  "smap_ok myvar \<Longrightarrow>
   set (kill_collect myvar gp kill) =
     set kill \<union> {d. \<exists>v. smap_get myvar v \<noteq> None \<and> smap_get gp v = Some d}"
proof -
  assume ok: "smap_ok myvar"
  have "set (kill_collect m gp kill) = set kill \<union> {d. \<exists>(v, cb) \<in> set m. smap_get gp v = Some d}" for m kill
  proof (induction m arbitrary: kill)
    case Nil
    then show ?case by (simp add: kill_collect_def)
  next
    case (Cons p m)
    obtain v cb where p: "p = (v, cb)" by (cases p)
    have "kill_collect (p # m) gp kill =
        kill_collect m gp (case smap_get gp v of None \<Rightarrow> kill | Some d \<Rightarrow> sset_insert d kill)"
      by (simp add: kill_collect_def p)
    with Cons p show ?case by (auto split: option.splits)
  qed
  moreover have "(\<exists>(v, cb) \<in> set myvar. P v) \<longleftrightarrow> (\<exists>v. smap_get myvar v \<noteq> None \<and> P v)" for P
  proof
    assume "\<exists>(v, cb) \<in> set myvar. P v"
    then obtain v cb where "(v, cb) \<in> set myvar" "P v" by blast
    with smap_mem_get [OF ok] show "\<exists>v. smap_get myvar v \<noteq> None \<and> P v" by blast
  next
    assume "\<exists>v. smap_get myvar v \<noteq> None \<and> P v"
    then obtain v cb where "smap_get myvar v = Some cb" "P v" by blast
    with smap_get_mem [of myvar v cb] show "\<exists>(v, cb) \<in> set myvar. P v" by blast
  qed
  ultimately show ?thesis by simp
qed

text \<open>The blocks the walk from \<open>block\<close> meets: not \<open>block\<close> itself, unless it precedes itself
  directly.\<close>

definition preds :: "cfg \<Rightarrow> blk \<Rightarrow> blk set" where
  "preds G b = {p. Some p \<in> set (cfg_pred G b)}"

definition succs :: "cfg \<Rightarrow> blk \<Rightarrow> blk set" where
  "succs G b = {s. Some s \<in> set (cfg_succ G b)}"

definition walk :: "cfg \<Rightarrow> blk \<Rightarrow> blk set" where
  "walk G block = {(x, y). y \<in> preds G x \<and> y \<noteq> block}\<^sup>* `` preds G block"

definition kill_set :: "cfg \<Rightarrow> (blk \<Rightarrow> vars) \<Rightarrow> blk \<Rightarrow> bid set" where
  "kill_set G gn block =
     {d. \<exists>p \<in> walk G block. \<exists>v. smap_get (gn block) v \<noteq> None \<and> smap_get (gn p) v = Some d}"

lemma kill_pred_fold:
  "wl_ok w \<Longrightarrow> fold kill_pred ps (w, counted) = (w', counted') \<Longrightarrow>
   wl_ok w' \<and> set counted' = set counted \<union> {p. Some p \<in> set ps} \<and>
   set (wl_list w') = set (wl_list w) \<union> ({p. Some p \<in> set ps} - set counted) \<and>
   length (wl_list w') \<le> length (wl_list w) + card (set counted' - set counted)"
proof (induction ps arbitrary: w counted)
  case Nil
  then show ?case by simp
next
  case (Cons p ps)
  show ?case
  proof (cases "\<exists>b. p = Some b \<and> b \<notin> set counted")
    case False
    then have "kill_pred p (w, counted) = (w, counted)"
      by (auto simp: kill_pred_def split: option.splits)
    with Cons.prems have "fold kill_pred ps (w, counted) = (w', counted')" by simp
    from Cons.IH [OF Cons.prems(1) this] False show ?thesis by auto
  next
    case True
    then obtain b where b: "p = Some b" "b \<notin> set counted" by blast
    let ?w1 = "enqueueBlock (Some b) w" and ?c1 = "sset_insert b counted"
    have "kill_pred p (w, counted) = (?w1, ?c1)" using b by (simp add: kill_pred_def)
    with Cons.prems have f: "fold kill_pred ps (?w1, ?c1) = (w', counted')" by simp
    note IH = Cons.IH [OF wl_ok_enqueue [OF Cons.prems(1)] f]
    have "length (wl_list ?w1) \<le> Suc (length (wl_list w))"
      by (auto simp: enqueueBlock_def)
    moreover have "card (set counted' - set counted) = Suc (card (set counted' - set ?c1))"
    proof -
      have "set counted' - set counted = insert b (set counted' - set ?c1)" using IH b by auto
      moreover have "b \<notin> set counted' - set ?c1" "finite (set counted' - set ?c1)" by auto
      ultimately show ?thesis by (metis card_insert_disjoint)
    qed
    ultimately have "length (wl_list w') \<le> length (wl_list w) + card (set counted' - set counted)"
      using IH by linarith
    then show ?thesis using IH b Cons.prems(1) by auto
  qed
qed

definition kill_inv :: "cfg \<Rightarrow> (blk \<Rightarrow> vars) \<Rightarrow> blk set \<Rightarrow> blk \<Rightarrow> kill_state \<Rightarrow> bool" where
  "kill_inv G gn B block st \<longleftrightarrow>
     (let (w, counted, kill) = st in
      wl_ok w \<and> set (wl_list w) \<subseteq> walk G block \<and> set counted \<subseteq> B \<and> block \<in> set counted \<and>
      (\<exists>done \<subseteq> walk G block.
         preds G block \<subseteq> done \<union> set (wl_list w) \<and>
         set counted - {block} \<subseteq> done \<union> set (wl_list w) \<and>
         (\<forall>p \<in> done. preds G p \<subseteq> set counted) \<and>
         set kill = {d. \<exists>p \<in> done. \<exists>v. smap_get (gn block) v \<noteq> None \<and> smap_get (gn p) v = Some d}))"

lemma kill_step_inv:
  assumes ok: "smap_ok (gn block)" and closed: "\<forall>b \<in> B. preds G b \<subseteq> B" and walkB: "walk G block \<subseteq> B"
    and inv: "kill_inv G gn B block (w, counted, kill)" and ne: "wl_list w \<noteq> []" and fin: "finite B"
  shows "kill_inv G gn B block (kill_step G gn block (w, counted, kill)) \<and>
    (\<lambda>(w, counted, kill). 2 * card (B - set counted) + length (wl_list w))
       (kill_step G gn block (w, counted, kill)) <
    2 * card (B - set counted) + length (wl_list w)"
proof -
  from ne obtain b w1 where dq: "dequeue w = Some (b, w1)"
    by (cases "wl_list w") (auto simp: dequeue_def)
  from inv have wok: "wl_ok w" and wl: "set (wl_list w) \<subseteq> walk G block" and cB: "set counted \<subseteq> B"
    and bc: "block \<in> set counted" by (auto simp: kill_inv_def)
  from inv obtain dn where dn: "dn \<subseteq> walk G block" "preds G block \<subseteq> dn \<union> set (wl_list w)"
    "set counted - {block} \<subseteq> dn \<union> set (wl_list w)" "\<forall>p \<in> dn. preds G p \<subseteq> set counted"
    "set kill = {d. \<exists>p \<in> dn. \<exists>v. smap_get (gn block) v \<noteq> None \<and> smap_get (gn p) v = Some d}"
    by (auto simp: kill_inv_def)
  note w1 = dequeue_ok [OF wok dq]
  have bw: "b \<in> walk G block" using wl w1 by auto
  obtain w2 counted' where f: "fold kill_pred (cfg_pred G b) (w1, counted) = (w2, counted')"
    by (cases "fold kill_pred (cfg_pred G b) (w1, counted)")
  note r = kill_pred_fold [OF conjunct1 [OF w1] f, folded preds_def]
  have st: "kill_step G gn block (w, counted, kill) =
      (w2, counted', kill_collect (gn block) (gn b) kill)"
    by (simp add: kill_step_def dq f)
  have walkp: "p \<in> walk G block" if "p \<in> preds G b" "p \<notin> set counted" for p
  proof -
    have "p \<noteq> block" using that bc by auto
    with bw that(1) show ?thesis
      unfolding walk_def by (auto intro: rtrancl_into_rtrancl)
  qed
  have c': "set counted' \<subseteq> B" using r cB closed bw walkB by blast
  have "kill_inv G gn B block (w2, counted', kill_collect (gn block) (gn b) kill)"
    unfolding kill_inv_def prod.case Let_def
  proof (intro conjI)
    show "wl_ok w2" using r by blast
    show "set (wl_list w2) \<subseteq> walk G block" using r w1 wl walkp by auto
    show "set counted' \<subseteq> B" by (rule c')
    show "block \<in> set counted'" using r bc by blast
    show "\<exists>dn \<subseteq> walk G block.
         preds G block \<subseteq> dn \<union> set (wl_list w2) \<and> set counted' - {block} \<subseteq> dn \<union> set (wl_list w2) \<and>
         (\<forall>p \<in> dn. preds G p \<subseteq> set counted') \<and>
         set (kill_collect (gn block) (gn b) kill) =
           {d. \<exists>p \<in> dn. \<exists>v. smap_get (gn block) v \<noteq> None \<and> smap_get (gn p) v = Some d}"
    proof (intro exI [of _ "insert b dn"] conjI)
      show "insert b dn \<subseteq> walk G block" using bw dn(1) by blast
      show "preds G block \<subseteq> insert b dn \<union> set (wl_list w2)" using dn(2) r w1 by auto
      show "set counted' - {block} \<subseteq> insert b dn \<union> set (wl_list w2)" using dn(3) r w1 by auto
      show "\<forall>p \<in> insert b dn. preds G p \<subseteq> set counted'" using dn(4) r by auto
      show "set (kill_collect (gn block) (gn b) kill) =
           {d. \<exists>p \<in> insert b dn. \<exists>v. smap_get (gn block) v \<noteq> None \<and> smap_get (gn p) v = Some d}"
        unfolding set_kill_collect [OF ok] dn(5) by auto
    qed
  qed
  moreover have "2 * card (B - set counted') + length (wl_list w2) <
      2 * card (B - set counted) + length (wl_list w)"
  proof -
    have "B - set counted = (B - set counted') \<union> (set counted' - set counted)"
      using r c' by auto
    moreover have "(B - set counted') \<inter> (set counted' - set counted) = {}" by auto
    ultimately have "card (B - set counted) = card (B - set counted') + card (set counted' - set counted)"
      using fin by (simp add: card_Un_disjoint)
    moreover have "length (wl_list w2) \<le> length (wl_list w1) + card (set counted' - set counted)"
      using r by blast
    moreover have "length (wl_list w) = Suc (length (wl_list w1))" using w1 by simp
    ultimately show ?thesis by linarith
  qed
  ultimately show ?thesis unfolding st by simp
qed

lemma kill_of_total:
  assumes ok: "smap_ok (gn block)" and fin: "finite B" and block: "block \<in> B"
    and closed: "\<forall>b \<in> B. preds G b \<subseteq> B"
  shows "\<exists>kill. kill_of G gn block = Some kill \<and> set kill = kill_set G gn block"
proof -
  have "(x, y) \<in> {(x, y). y \<in> preds G x \<and> y \<noteq> block}\<^sup>* \<Longrightarrow> x \<in> B \<Longrightarrow> y \<in> B" for x y
    by (induction rule: rtrancl_induct) (use closed in auto)
  then have walkB: "walk G block \<subseteq> B" using closed block unfolding walk_def by blast
  let ?b = "\<lambda>(w, counted :: blk list, kill :: bid list). wl_list w \<noteq> []"
  let ?s0 = "(enqueuePredecessors G block wl_empty, [block], [])"
  let ?f = "\<lambda>(w, counted, kill :: bid list). 2 * card (B - set counted) + length (wl_list w)"
  have w0: "set (wl_list (enqueuePredecessors G block wl_empty)) = preds G block"
    using wl_fold_set [OF wl_ok_empty, of "cfg_pred G block"]
    by (simp add: enqueuePredecessors_def wl_empty_def preds_def)
  have start: "kill_inv G gn B block ?s0"
    unfolding kill_inv_def prod.case Let_def
  proof (intro conjI exI [of _ "{}"])
    show "wl_ok (enqueuePredecessors G block wl_empty)"
      by (simp add: enqueuePredecessors_def wl_ok_fold)
    show "set (wl_list (enqueuePredecessors G block wl_empty)) \<subseteq> walk G block"
      unfolding w0 walk_def by blast
  qed (use block w0 in auto)
  have step: "kill_inv G gn B block (kill_step G gn block s) \<and> ?f (kill_step G gn block s) < ?f s"
    if "kill_inv G gn B block s" "?b s" for s
  proof -
    obtain w counted kill where s: "s = (w, counted, kill)" by (cases s)
    with that have "kill_inv G gn B block (w, counted, kill)" "wl_list w \<noteq> []" by simp_all
    from kill_step_inv [OF ok closed walkB this fin] s show ?thesis by simp
  qed
  have "\<exists>s. while_option ?b (kill_step G gn block) ?s0 = Some s"
    by (rule measure_while_option_Some [where P = "kill_inv G gn B block" and f = ?f])
       (rule step start; assumption)+
  then obtain s where wh: "while_option ?b (kill_step G gn block) ?s0 = Some s" ..
  have "kill_inv G gn B block s"
    by (rule while_option_rule [where P = "kill_inv G gn B block", OF conjunct1 [OF step] wh start])
  moreover obtain w counted kill where s: "s = (w, counted, kill)" by (cases s)
  moreover have wl: "wl_list w = []" using while_option_stop [OF wh] s by simp
  ultimately obtain dn where dn: "dn \<subseteq> walk G block" "preds G block \<subseteq> dn" "set counted - {block} \<subseteq> dn"
    "\<forall>p \<in> dn. preds G p \<subseteq> set counted"
    "set kill = {d. \<exists>p \<in> dn. \<exists>v. smap_get (gn block) v \<noteq> None \<and> smap_get (gn p) v = Some d}"
    by (auto simp: kill_inv_def)
  have "(x, y) \<in> {(x, y). y \<in> preds G x \<and> y \<noteq> block}\<^sup>* \<Longrightarrow> x \<in> dn \<Longrightarrow> y \<in> dn" for x y
    by (induction rule: rtrancl_induct) (use dn(3,4) in auto)
  then have "walk G block \<subseteq> dn" using dn(2) unfolding walk_def by blast
  with dn(1) have "dn = walk G block" by blast
  with dn(5) wh s show ?thesis by (simp add: kill_of_def kill_set_def)
qed

end
