(* ===== verification/Quro_Flow.thy ===== *)
theory Quro_Flow
  imports Quro_Reach
begin

text \<open>
  The worklist iteration of \<open>computeLiveness\<close> (\<open>src/quro/code/ControlFlowGraph.cpp\<close>): its result
  solves the equations \<open>in = union of the predecessors' out\<close>, \<open>out = (in + gen) - kill\<close>, and
  is the least solution; it ends when every cycle of the graph has a block without
  definitions, and it need not end otherwise.
\<close>

section \<open>The iteration\<close>

record reach_state =
  rs_wl :: dataflow_worklist
  rs_begin :: "blk \<Rightarrow> defuse"
  rs_end :: "blk \<Rightarrow> defuse"
  rs_ever :: "blk \<Rightarrow> bool"

definition in_value :: "cfg \<Rightarrow> (blk \<Rightarrow> defuse) \<Rightarrow> blk \<Rightarrow> defuse" where
  "in_value G ends b =
     fold (\<lambda>p val. case p of None \<Rightarrow> val | Some p \<Rightarrow> add_list val (ends p)) (cfg_pred G b) []"

text \<open>\<open>prevVal\<close> is a reference to the block's end set, so the assignment \<open>prevVal = val\<close> is
  overwritten by the new end set.\<close>

definition reach_update ::
    "cfg \<Rightarrow> (blk \<Rightarrow> vars) \<Rightarrow> (blk \<Rightarrow> defuse) \<Rightarrow> blk \<Rightarrow> defuse \<Rightarrow> reach_state \<Rightarrow> reach_state" where
  "reach_update G gn kl b val st =
     (let st = st\<lparr>rs_end := (rs_end st)(b := val)\<rparr>;
          out_val = rs_begin st b;
          out_val = add_list out_val (getStmtList (gn b));
          out_val = subtract_list out_val (kl b);
          st = st\<lparr>rs_end := (rs_end st)(b := out_val)\<rparr>
      in st\<lparr>rs_wl := enqueueSuccessors G b (rs_wl st)\<rparr>)"

definition reach_step ::
    "cfg \<Rightarrow> (blk \<Rightarrow> vars) \<Rightarrow> (blk \<Rightarrow> defuse) \<Rightarrow> reach_state \<Rightarrow> reach_state" where
  "reach_step G gn kl st =
     (case dequeue (rs_wl st) of
        None \<Rightarrow> st
      | Some (b, w) \<Rightarrow>
          (let prevVal = rs_end st b;
               val = in_value G (rs_end st) b;
               st = st\<lparr>rs_wl := w, rs_begin := (rs_begin st)(b := val)\<rparr>
           in if \<not> rs_ever st b
              then reach_update G gn kl b val (st\<lparr>rs_ever := (rs_ever st)(b := True)\<rparr>)
              else if defuse_equals prevVal val then st
              else reach_update G gn kl b val st))"

definition reach_start :: "cfg \<Rightarrow> (blk list \<Rightarrow> blk list) \<Rightarrow> reach_state" where
  "reach_start G pov =
     (let w = sortWorklist pov (fold enqueueBlock (map Some (cfg_blocks G)) wl_empty);
          w = sortWorklist pov (fold enqueueBlock (map Some (cfg_blocks G)) w)
      in \<lparr>rs_wl = w, rs_begin = (\<lambda>b. []), rs_end = (\<lambda>b. []), rs_ever = (\<lambda>b. False)\<rparr>)"

definition reach ::
    "cfg \<Rightarrow> (blk \<Rightarrow> vars) \<Rightarrow> (blk \<Rightarrow> defuse) \<Rightarrow> (blk list \<Rightarrow> blk list) \<Rightarrow> reach_state option" where
  "reach G gn kl pov =
     while_option (\<lambda>st. wl_list (rs_wl st) \<noteq> []) (reach_step G gn kl) (reach_start G pov)"

section \<open>Graphs\<close>

text \<open>What the compiler guarantees of a graph: edges are recorded at both ends and stay within the
  blocks.\<close>

definition cfg_ok :: "cfg \<Rightarrow> bool" where
  "cfg_ok G \<longleftrightarrow>
     distinct (cfg_blocks G) \<and>
     (\<forall>b \<in> set (cfg_blocks G). preds G b \<subseteq> set (cfg_blocks G) \<and> succs G b \<subseteq> set (cfg_blocks G)) \<and>
     (\<forall>b \<in> set (cfg_blocks G). \<forall>s \<in> set (cfg_blocks G). b \<in> preds G s \<longleftrightarrow> s \<in> succs G b)"

definition gen_all :: "(blk \<Rightarrow> vars) \<Rightarrow> blk \<Rightarrow> bid set" where
  "gen_all gn b = snd ` set (gn b)"

definition in_set :: "cfg \<Rightarrow> (blk \<Rightarrow> defuse) \<Rightarrow> blk \<Rightarrow> bid set" where
  "in_set G ends b = (\<Union>p \<in> preds G b. set (ends p))"

definition out_set :: "(blk \<Rightarrow> vars) \<Rightarrow> (blk \<Rightarrow> defuse) \<Rightarrow> blk \<Rightarrow> bid set \<Rightarrow> bid set" where
  "out_set gn kl b X = (X \<union> gen_all gn b) - set (kl b)"

lemma set_in_value: "set (in_value G ends b) = in_set G ends b"
proof -
  have "set (fold (\<lambda>p val. case p of None \<Rightarrow> val | Some p \<Rightarrow> add_list val (ends p)) ps s) =
        set s \<union> (\<Union>p \<in> {p. Some p \<in> set ps}. set (ends p))" for ps s
    by (induction ps arbitrary: s) (auto split: option.splits)
  then show ?thesis by (simp add: in_value_def in_set_def preds_def)
qed

lemma sset_ok_in_value: "sset_ok (in_value G ends b)"
proof -
  have "sset_ok s \<Longrightarrow>
      sset_ok (fold (\<lambda>p val. case p of None \<Rightarrow> val | Some p \<Rightarrow> add_list val (ends p)) ps s)" for ps s
    by (induction ps arbitrary: s) (auto split: option.splits)
  then show ?thesis by (simp add: in_value_def)
qed

lemma in_set_mono: "(\<And>p. set (e p) \<subseteq> set (e' p)) \<Longrightarrow> in_set G e b \<subseteq> in_set G e' b"
  by (auto simp: in_set_def)

lemma out_set_mono: "X \<subseteq> Y \<Longrightarrow> out_set gn kl b X \<subseteq> out_set gn kl b Y"
  by (auto simp: out_set_def)

lemma out_set_fixed: "out_set gn kl b (out_set gn kl b X) = out_set gn kl b X"
  by (auto simp: out_set_def)

section \<open>The invariant\<close>

definition reach_inv ::
    "cfg \<Rightarrow> (blk \<Rightarrow> vars) \<Rightarrow> (blk \<Rightarrow> defuse) \<Rightarrow> (blk \<Rightarrow> bid set) \<Rightarrow> reach_state \<Rightarrow> bool" where
  "reach_inv G gn kl E st \<longleftrightarrow>
     wl_ok (rs_wl st) \<and> set (wl_list (rs_wl st)) \<subseteq> set (cfg_blocks G) \<and>
     (\<forall>b. sset_ok (rs_end st b)) \<and>
     (\<forall>b \<in> set (cfg_blocks G).
        (rs_ever st b \<longrightarrow> (\<exists>X. set (rs_end st b) = out_set gn kl b X)) \<and>
        (\<not> rs_ever st b \<longrightarrow> rs_end st b = [] \<and> b \<in> set (wl_list (rs_wl st))) \<and>
        (b \<notin> set (wl_list (rs_wl st)) \<longrightarrow>
           set (rs_begin st b) = in_set G (rs_end st) b \<and>
           set (rs_end st b) = out_set gn kl b (in_set G (rs_end st) b)) \<and>
        set (rs_end st b) \<subseteq> out_set gn kl b (in_set G (rs_end st) b) \<and>
        set (rs_end st b) \<subseteq> E b)"

text \<open>\<open>E\<close> is any assignment of sets that is closed under the equations.\<close>

definition closed_under :: "cfg \<Rightarrow> (blk \<Rightarrow> vars) \<Rightarrow> (blk \<Rightarrow> defuse) \<Rightarrow> (blk \<Rightarrow> bid set) \<Rightarrow> bool" where
  "closed_under G gn kl E \<longleftrightarrow>
     (\<forall>b \<in> set (cfg_blocks G). out_set gn kl b (\<Union>p \<in> preds G b. E p) \<subseteq> E b)"

lemma reach_inv_update:
  assumes G: "cfg_ok G" and E: "closed_under G gn kl E"
    and inv: "reach_inv G gn kl E st" and dq: "dequeue (rs_wl st) = Some (b, w)"
    and st': "rs_wl st' = enqueueSuccessors G b w"
      "rs_begin st' = (rs_begin st)(b := in_value G (rs_end st) b)"
      "rs_ever st' = (rs_ever st)(b := True)"
      "rs_end st' = (rs_end st)(b := subtract_list
         (add_list (in_value G (rs_end st) b) (getStmtList (gn b))) (kl b))"
  shows "reach_inv G gn kl E st' \<and> set (rs_end st b) \<subseteq> set (rs_end st' b) \<and>
         (\<forall>c. c \<noteq> b \<longrightarrow> rs_end st' c = rs_end st c)"
proof -
  let ?B = "set (cfg_blocks G)"
  from inv have wok: "wl_ok (rs_wl st)" and wB: "set (wl_list (rs_wl st)) \<subseteq> ?B"
    and sok: "\<forall>b. sset_ok (rs_end st b)" by (simp_all add: reach_inv_def)
  have I: "rs_ever st c \<longrightarrow> (\<exists>X. set (rs_end st c) = out_set gn kl c X)"
    "\<not> rs_ever st c \<longrightarrow> rs_end st c = [] \<and> c \<in> set (wl_list (rs_wl st))"
    "c \<notin> set (wl_list (rs_wl st)) \<longrightarrow>
       set (rs_begin st c) = in_set G (rs_end st) c \<and>
       set (rs_end st c) = out_set gn kl c (in_set G (rs_end st) c)"
    "set (rs_end st c) \<subseteq> out_set gn kl c (in_set G (rs_end st) c)" "set (rs_end st c) \<subseteq> E c"
    if "c \<in> ?B" for c
    using inv that by (simp_all add: reach_inv_def)
  note d = dequeue_ok [OF wok dq]
  have bB: "b \<in> ?B" using d wB by auto
  have new: "set (rs_end st' b) = out_set gn kl b (in_set G (rs_end st) b)"
    by (simp add: st' set_in_value out_set_def gen_all_def)
  have other: "\<forall>c. c \<noteq> b \<longrightarrow> rs_end st' c = rs_end st c" by (simp add: st')
  have grow: "set (rs_end st c) \<subseteq> set (rs_end st' c)" for c
    using I(4) [OF bB] new other by (cases "c = b") auto
  have wl': "set (wl_list (rs_wl st')) = succs G b \<union> set (wl_list w)"
    using wl_fold_set d unfolding st' enqueueSuccessors_def succs_def by auto
  have wok': "wl_ok (rs_wl st')" using d by (simp add: st' enqueueSuccessors_def wl_ok_fold)
  have up: "in_set G (rs_end st) c \<subseteq> in_set G (rs_end st') c" for c
    by (rule in_set_mono) (rule grow)
  have same: "in_set G (rs_end st') c = in_set G (rs_end st) c" if "b \<notin> preds G c" for c
    unfolding in_set_def by (rule SUP_cong [OF refl]) (metis other that)
  have low: "in_set G (rs_end st) b \<subseteq> (\<Union>p \<in> preds G b. E p)"
    using I(5) G bB by (fastforce simp: in_set_def cfg_ok_def)
  have "reach_inv G gn kl E st'"
    unfolding reach_inv_def
  proof (intro conjI ballI)
    show "wl_ok (rs_wl st')" by (rule wok')
    show "set (wl_list (rs_wl st')) \<subseteq> ?B" using wl' wB d G bB by (auto simp: cfg_ok_def)
    show "\<forall>b. sset_ok (rs_end st' b)" using sok by (simp add: st')
  next
    fix c assume c: "c \<in> ?B"
    show "rs_ever st' c \<longrightarrow> (\<exists>X. set (rs_end st' c) = out_set gn kl c X)"
      using I(1) [OF c] new by (cases "c = b") (auto simp: st'(3) st'(4))
    show "\<not> rs_ever st' c \<longrightarrow> rs_end st' c = [] \<and> c \<in> set (wl_list (rs_wl st'))"
      using I(2) [OF c] wl' d by (cases "c = b") (auto simp: st'(3) st'(4))
    show "c \<notin> set (wl_list (rs_wl st')) \<longrightarrow>
       set (rs_begin st' c) = in_set G (rs_end st') c \<and>
       set (rs_end st' c) = out_set gn kl c (in_set G (rs_end st') c)"
    proof
      assume nw: "c \<notin> set (wl_list (rs_wl st'))"
      then have "c \<notin> succs G b" using wl' by blast
      then have eq: "in_set G (rs_end st') c = in_set G (rs_end st) c"
        using same G bB c by (auto simp: cfg_ok_def)
      show "set (rs_begin st' c) = in_set G (rs_end st') c \<and>
          set (rs_end st' c) = out_set gn kl c (in_set G (rs_end st') c)"
      proof (cases "c = b")
        case True
        then show ?thesis using new eq by (simp add: st'(2) set_in_value)
      next
        case False
        then have "c \<notin> set (wl_list (rs_wl st))" using nw wl' d by auto
        with I(3) [OF c] eq False show ?thesis by (simp add: st'(2) st'(4))
      qed
    qed
    show "set (rs_end st' c) \<subseteq> out_set gn kl c (in_set G (rs_end st') c)"
      using I(4) [OF c] new other out_set_mono [OF up, of gn kl c c] by (cases "c = b") auto
    show "set (rs_end st' c) \<subseteq> E c"
    proof (cases "c = b")
      case True
      have "out_set gn kl b (in_set G (rs_end st) b) \<subseteq> E b"
        using out_set_mono [OF low, of gn kl b] E bB by (auto simp: closed_under_def)
      with True new show ?thesis by simp
    next
      case False
      with I(5) [OF c] other show ?thesis by simp
    qed
  qed
  with grow other show ?thesis by blast
qed

lemma reach_inv_skip:
  assumes G: "cfg_ok G" and inv: "reach_inv G gn kl E st" and dq: "dequeue (rs_wl st) = Some (b, w)"
    and ever: "rs_ever st b" and eq: "set (rs_end st b) = in_set G (rs_end st) b"
  shows "reach_inv G gn kl E (st\<lparr>rs_wl := w, rs_begin := (rs_begin st)(b := in_value G (rs_end st) b)\<rparr>)"
proof -
  from inv have wok: "wl_ok (rs_wl st)" and wB: "set (wl_list (rs_wl st)) \<subseteq> set (cfg_blocks G)"
    by (simp_all add: reach_inv_def)
  note d = dequeue_ok [OF wok dq]
  have bB: "b \<in> set (cfg_blocks G)" using d wB by auto
  have "rs_ever st b \<longrightarrow> (\<exists>X. set (rs_end st b) = out_set gn kl b X)"
    using inv bB by (simp add: reach_inv_def)
  with ever obtain X where "set (rs_end st b) = out_set gn kl b X" by blast
  then have "out_set gn kl b (set (rs_end st b)) = set (rs_end st b)" by (simp add: out_set_fixed)
  then have fixed: "set (rs_end st b) = out_set gn kl b (in_set G (rs_end st) b)" using eq by simp
  show ?thesis
    unfolding reach_inv_def
  proof (intro conjI ballI)
    fix c assume c: "c \<in> set (cfg_blocks G)"
    let ?st = "st\<lparr>rs_wl := w, rs_begin := (rs_begin st)(b := in_value G (rs_end st) b)\<rparr>"
    show "c \<notin> set (wl_list (rs_wl ?st)) \<longrightarrow>
       set (rs_begin ?st c) = in_set G (rs_end ?st) c \<and>
       set (rs_end ?st c) = out_set gn kl c (in_set G (rs_end ?st) c)"
      using inv c d fixed by (cases "c = b") (auto simp: reach_inv_def set_in_value)
    show "\<not> rs_ever ?st c \<longrightarrow> rs_end ?st c = [] \<and> c \<in> set (wl_list (rs_wl ?st))"
      using inv c d ever by (cases "c = b") (auto simp: reach_inv_def)
  qed (use inv d in \<open>auto simp: reach_inv_def\<close>)
qed

text \<open>The two outcomes of a step.\<close>

lemma reach_step_cases:
  assumes inv: "reach_inv G gn kl E st" and ne: "wl_list (rs_wl st) \<noteq> []"
  obtains b w where "dequeue (rs_wl st) = Some (b, w)" "rs_ever st b"
      "set (rs_end st b) = in_set G (rs_end st) b"
      "reach_step G gn kl st = st\<lparr>rs_wl := w, rs_begin := (rs_begin st)(b := in_value G (rs_end st) b)\<rparr>"
  | b w where "dequeue (rs_wl st) = Some (b, w)"
      "\<not> rs_ever st b \<or> set (rs_end st b) \<noteq> in_set G (rs_end st) b"
      "rs_wl (reach_step G gn kl st) = enqueueSuccessors G b w"
      "rs_begin (reach_step G gn kl st) = (rs_begin st)(b := in_value G (rs_end st) b)"
      "rs_ever (reach_step G gn kl st) = (rs_ever st)(b := True)"
      "rs_end (reach_step G gn kl st) = (rs_end st)(b := subtract_list
         (add_list (in_value G (rs_end st) b) (getStmtList (gn b))) (kl b))"
proof -
  from ne obtain b w where dq: "dequeue (rs_wl st) = Some (b, w)"
    by (cases "wl_list (rs_wl st)") (auto simp: dequeue_def)
  have eq: "defuse_equals (rs_end st b) (in_value G (rs_end st) b) \<longleftrightarrow>
      set (rs_end st b) = in_set G (rs_end st) b"
    using inv defuse_equals_iff sset_ok_in_value by (simp add: reach_inv_def set_in_value)
  show thesis
  proof (cases "rs_ever st b \<and> set (rs_end st b) = in_set G (rs_end st) b")
    case True
    with that(1) [OF dq] show ?thesis by (simp add: reach_step_def dq eq Let_def)
  next
    case False
    have upd: "(rs_ever st)(b := True) = rs_ever st" if "rs_ever st b"
      using that by (simp add: fun_upd_idem_iff)
    from False show ?thesis
      using that(2) [OF dq] upd
      by (cases "rs_ever st b") (simp_all add: reach_step_def dq eq Let_def reach_update_def)
  qed
qed

lemma reach_inv_step:
  assumes G: "cfg_ok G" and E: "closed_under G gn kl E"
    and inv: "reach_inv G gn kl E st" and ne: "wl_list (rs_wl st) \<noteq> []"
  shows "reach_inv G gn kl E (reach_step G gn kl st)"
  using inv ne
proof (cases rule: reach_step_cases)
  case (1 b w)
  with reach_inv_skip [OF G inv 1(1-3)] show ?thesis by simp
next
  case (2 b w)
  from reach_inv_update [OF G E inv 2(1) 2(3-6)] show ?thesis by simp
qed

lemma reach_inv_start:
  assumes G: "cfg_ok G" and pov: "\<And>xs. mset (pov xs) = mset xs"
  shows "reach_inv G gn kl E (reach_start G pov)"
proof -
  have perm: "wl_ok w \<Longrightarrow> wl_ok (sortWorklist pov w) \<and> set (wl_list (sortWorklist pov w)) = set (wl_list w)" for w
    using mset_eq_setD [OF pov] mset_eq_imp_distinct_iff [OF pov] by (simp add: sortWorklist_def wl_ok_def)
  let ?bs = "map Some (cfg_blocks G)"
  let ?w1 = "sortWorklist pov (fold enqueueBlock ?bs wl_empty)"
  let ?w2 = "sortWorklist pov (fold enqueueBlock ?bs ?w1)"
  have 1: "wl_ok ?w1" "set (wl_list ?w1) = set (cfg_blocks G)"
    using perm [OF wl_ok_fold [OF wl_ok_empty, of ?bs]] wl_fold_set [OF wl_ok_empty, of ?bs]
    by (auto simp: wl_empty_def)
  have 2: "wl_ok ?w2" "set (wl_list ?w2) = set (cfg_blocks G)"
    using perm [OF wl_ok_fold [OF 1(1), of ?bs]] wl_fold_set [OF 1(1), of ?bs] 1(2) by auto
  then show ?thesis by (simp add: reach_start_def reach_inv_def)
qed

lemma reach_solution:
  assumes G: "cfg_ok G" and pov: "\<And>xs. mset (pov xs) = mset xs"
    and r: "reach G gn kl pov = Some st" and b: "b \<in> set (cfg_blocks G)"
  shows "set (rs_begin st b) = in_set G (rs_end st) b"
    and "set (rs_end st b) = out_set gn kl b (in_set G (rs_end st) b)"
    and "closed_under G gn kl E \<Longrightarrow> set (rs_end st b) \<subseteq> E b"
proof -
  have inv: "reach_inv G gn kl E st" if E: "closed_under G gn kl E" for E
    by (rule while_option_rule [where P = "reach_inv G gn kl E", OF _ r [unfolded reach_def]])
       (use reach_inv_step [OF G E] reach_inv_start [OF G pov] in auto)
  have empty: "wl_list (rs_wl st) = []" using while_option_stop [OF r [unfolded reach_def]] by simp
  have "closed_under G gn kl (\<lambda>b. UNIV)" by (simp add: closed_under_def)
  from inv [OF this] b empty
  show "set (rs_begin st b) = in_set G (rs_end st) b"
    and "set (rs_end st b) = out_set gn kl b (in_set G (rs_end st) b)"
    by (simp_all add: reach_inv_def)
  show "set (rs_end st b) \<subseteq> E b" if "closed_under G gn kl E"
    using inv [OF that] b by (simp add: reach_inv_def)
qed

section \<open>Termination\<close>

text \<open>
  A block whose value changed, or that has definitions of its own, queues its successors again.
  So the iteration ends when the blocks with definitions can be ranked such that their
  successors rank lower; blocks without definitions, such as the back-edge blocks the
  compiler puts into loops, may lead anywhere.
\<close>

definition ranked :: "cfg \<Rightarrow> (blk \<Rightarrow> vars) \<Rightarrow> (blk \<Rightarrow> nat) \<Rightarrow> bool" where
  "ranked G gn rank \<longleftrightarrow>
     (\<forall>b \<in> set (cfg_blocks G). gn b \<noteq> [] \<longrightarrow> (\<forall>s \<in> succs G b. rank s < rank b))"

definition unanalysed :: "cfg \<Rightarrow> reach_state \<Rightarrow> nat" where
  "unanalysed G st = card {b \<in> set (cfg_blocks G). \<not> rs_ever st b}"

definition missing_defs :: "cfg \<Rightarrow> (blk \<Rightarrow> vars) \<Rightarrow> reach_state \<Rightarrow> nat" where
  "missing_defs G gn st =
     (\<Sum>b \<in> set (cfg_blocks G). card ((\<Union>c \<in> set (cfg_blocks G). gen_all gn c) - set (rs_end st b)))"

definition wl_weight :: "(blk \<Rightarrow> nat) \<Rightarrow> nat \<Rightarrow> reach_state \<Rightarrow> nat" where
  "wl_weight rank K st = sum_list (map (\<lambda>b. K ^ rank b) (wl_list (rs_wl st)))"

lemma weight_lower:
  assumes "distinct us" "set us \<subseteq> {s. Some s \<in> set ss}" "length ss < K" "\<forall>s \<in> set us. rank s < n"
  shows "sum_list (map (\<lambda>b. K ^ rank b) us) < (K :: nat) ^ n"
proof (cases "us = []")
  case True
  have "0 < K" using assms(3) by simp
  with True show ?thesis by simp
next
  case False
  then obtain s where "s \<in> set us" by (cases us) auto
  with assms(4) have n: "0 < n" by fastforce
  have K: "0 < K" using assms(3) by simp
  have le: "sum_list (map (\<lambda>b. K ^ rank b) us) \<le> length us * K ^ (n - 1)"
    using assms(4)
  proof (induction us)
    case (Cons u us)
    then have "rank u < n" by simp
    then have "rank u \<le> n - 1" by linarith
    then have "K ^ rank u \<le> K ^ (n - 1)" using K by (simp add: power_increasing)
    with Cons show ?case by simp
  qed simp
  have "length us = card (set us)" using assms(1) by (simp add: distinct_card)
  also have "\<dots> \<le> card {s. Some s \<in> set ss}"
  proof (rule card_mono [OF _ assms(2)])
    have "{s. Some s \<in> set ss} = the ` (set ss - {None})" by force
    then show "finite {s. Some s \<in> set ss}" by simp
  qed
  also have "\<dots> = card (Some ` {s. Some s \<in> set ss})" by (simp add: card_image)
  also have "\<dots> \<le> card (set ss)" by (intro card_mono) auto
  also have "\<dots> \<le> length ss" by (rule card_length)
  finally have "length us < K" using assms(3) by simp
  then have "length us * K ^ (n - 1) < K * K ^ (n - 1)" using K by simp
  also have "\<dots> = K ^ n" using n by (simp add: power_eq_if)
  finally show ?thesis using le by simp
qed

lemma diff_psubset: "A \<subseteq> A' \<Longrightarrow> A' \<subseteq> U \<Longrightarrow> x \<in> A' \<Longrightarrow> x \<notin> A \<Longrightarrow> U - A' \<subset> U - A"
  by blast

lemma reach_step_decreases:
  assumes G: "cfg_ok G" and rank: "ranked G gn rank"
    and kl: "\<forall>b. gn b = [] \<longrightarrow> kl b = []"
    and K: "\<forall>b \<in> set (cfg_blocks G). length (cfg_succ G b) < K"
    and inv: "reach_inv G gn kl (\<lambda>b. \<Union>c \<in> set (cfg_blocks G). gen_all gn c) st"
    and ne: "wl_list (rs_wl st) \<noteq> []"
  shows "(reach_step G gn kl st, st) \<in> measures [unanalysed G, missing_defs G gn, wl_weight rank K]"
proof -
  let ?B = "set (cfg_blocks G)" and ?U = "\<Union>c \<in> set (cfg_blocks G). gen_all gn c"
  let ?st' = "reach_step G gn kl st"
  have E: "closed_under G gn kl (\<lambda>b. ?U)" by (auto simp: closed_under_def out_set_def)
  have wok: "wl_ok (rs_wl st)" and wB: "set (wl_list (rs_wl st)) \<subseteq> ?B"
    using inv by (simp_all add: reach_inv_def)
  have finU: "finite ?U" by (auto simp: gen_all_def)
  obtain b0 w0 where dq0: "dequeue (rs_wl st) = Some (b0, w0)"
    using ne by (cases "wl_list (rs_wl st)") (auto simp: dequeue_def)
  have "b0 \<in> ?B" using dequeue_ok [OF wok dq0] wB by auto
  then have Kpos: "0 < K" using K by fastforce
  show ?thesis
    using inv ne
  proof (cases rule: reach_step_cases)
    case (1 b w)
    from dequeue_ok [OF wok 1(1)] Kpos
    have "wl_weight rank K ?st' < wl_weight rank K st" by (simp add: 1(4) wl_weight_def)
    moreover have "unanalysed G ?st' = unanalysed G st" "missing_defs G gn ?st' = missing_defs G gn st"
      by (simp_all add: 1(4) unanalysed_def missing_defs_def)
    ultimately show ?thesis by simp
  next
    case (2 b w)
    note d = dequeue_ok [OF wok 2(1)]
    have bB: "b \<in> ?B" using d wB by auto
    from reach_inv_update [OF G E inv 2(1) 2(3-6)]
    have inv': "reach_inv G gn kl (\<lambda>b. ?U) ?st'" and grow: "set (rs_end st b) \<subseteq> set (rs_end ?st' b)"
      and other: "\<forall>c. c \<noteq> b \<longrightarrow> rs_end ?st' c = rs_end st c" by simp_all
    show ?thesis
    proof (cases "rs_ever st b")
      case False
      have "{c \<in> ?B. \<not> rs_ever ?st' c} \<subset> {c \<in> ?B. \<not> rs_ever st c}"
        using False bB by (auto simp: 2(5))
      then have "unanalysed G ?st' < unanalysed G st"
        unfolding unanalysed_def by (intro psubset_card_mono) simp_all
      then show ?thesis by simp
    next
      case True
      have un: "unanalysed G ?st' = unanalysed G st"
        using True by (simp add: unanalysed_def 2(5) fun_upd_idem_iff [THEN iffD2])
      show ?thesis
      proof (cases "set (rs_end ?st' b) = set (rs_end st b)")
        case False
        have "missing_defs G gn ?st' < missing_defs G gn st"
          unfolding missing_defs_def
        proof (rule sum_strict_mono_ex1)
          show "\<forall>c \<in> ?B. card (?U - set (rs_end ?st' c)) \<le> card (?U - set (rs_end st c))"
          proof
            fix c assume "c \<in> ?B"
            show "card (?U - set (rs_end ?st' c)) \<le> card (?U - set (rs_end st c))"
            proof (cases "c = b")
              case True
              have "?U - set (rs_end ?st' b) \<subseteq> ?U - set (rs_end st b)" using grow by blast
              with True finU show ?thesis by (simp add: card_mono)
            next
              case False
              with other show ?thesis by simp
            qed
          qed
          have "set (rs_end ?st' b) \<subseteq> ?U" using inv' bB by (simp add: reach_inv_def)
          moreover from False grow obtain x where "x \<in> set (rs_end ?st' b)" "x \<notin> set (rs_end st b)"
            by blast
          ultimately have "?U - set (rs_end ?st' b) \<subset> ?U - set (rs_end st b)"
            using diff_psubset [OF grow] by simp
          then have "card (?U - set (rs_end ?st' b)) < card (?U - set (rs_end st b))"
            by (rule psubset_card_mono [OF finite_Diff [OF finU]])
          with bB show "\<exists>c \<in> ?B. card (?U - set (rs_end ?st' c)) < card (?U - set (rs_end st c))" by blast
        qed simp
        with un show ?thesis by simp
      next
        case same: True
        have "missing_defs G gn ?st' = missing_defs G gn st"
          unfolding missing_defs_def
        proof (rule sum.cong [OF refl])
          fix c
          show "card (?U - set (rs_end ?st' c)) = card (?U - set (rs_end st c))"
            using same other by (cases "c = b") simp_all
        qed
        moreover have gnb: "gn b \<noteq> []"
        proof
          assume e: "gn b = []"
          then have "kl b = []" using kl by blast
          with e have "set (rs_end ?st' b) = in_set G (rs_end st) b"
            by (simp add: 2(6) set_in_value)
          with same 2(2) True show False by simp
        qed
        have "wl_weight rank K ?st' < wl_weight rank K st"
        proof -
          from wl_fold_append [OF conjunct1 [OF d], of "cfg_succ G b"] obtain us where
            us: "wl_list (enqueueSuccessors G b w) = us @ wl_list w" "distinct us"
              "set us \<subseteq> {s. Some s \<in> set (cfg_succ G b)}"
            unfolding enqueueSuccessors_def by auto
          have "\<forall>s \<in> set us. rank s < rank b"
            using us(3) rank gnb bB by (auto simp: ranked_def succs_def)
          from weight_lower [OF us(2,3) _ this] K bB
          have "sum_list (map (\<lambda>b. K ^ rank b) us) < K ^ rank b" by blast
          then show ?thesis using us(1) d by (simp add: wl_weight_def 2(3))
        qed
        ultimately show ?thesis using un by simp
      qed
    qed
  qed
qed

lemma reach_total:
  assumes G: "cfg_ok G" and pov: "\<And>xs. mset (pov xs) = mset xs"
    and rank: "ranked G gn rank" and kl: "\<forall>b. gn b = [] \<longrightarrow> kl b = []"
  shows "\<exists>st. reach G gn kl pov = Some st"
proof -
  let ?U = "\<Union>c \<in> set (cfg_blocks G). gen_all gn c"
  let ?K = "Suc (Max (insert 0 ((\<lambda>b. length (cfg_succ G b)) ` set (cfg_blocks G))))"
  have K: "\<forall>b \<in> set (cfg_blocks G). length (cfg_succ G b) < ?K"
    by (auto intro!: le_imp_less_Suc Max_ge)
  have E: "closed_under G gn kl (\<lambda>b. ?U)" by (auto simp: closed_under_def out_set_def)
  show ?thesis
    unfolding reach_def
  proof (rule wf_rel_while_option_Some [where P = "reach_inv G gn kl (\<lambda>b. ?U)" and
        R = "measures [unanalysed G, missing_defs G gn, wl_weight rank ?K]"])
    show "wf (measures [unanalysed G, missing_defs G gn, wl_weight rank ?K])" by (rule wf_measures)
    show "reach_inv G gn kl (\<lambda>b. ?U) (reach_start G pov)" by (rule reach_inv_start [OF G pov])
  next
    fix st assume "reach_inv G gn kl (\<lambda>b. ?U) st \<and> wl_list (rs_wl st) \<noteq> []"
    then have i: "reach_inv G gn kl (\<lambda>b. ?U) st" and n: "wl_list (rs_wl st) \<noteq> []" by simp_all
    show "(reach_step G gn kl st, st) \<in> measures [unanalysed G, missing_defs G gn, wl_weight rank ?K]"
      by (rule reach_step_decreases [OF G rank kl K i n])
    show "reach_inv G gn kl (\<lambda>b. ?U) (reach_step G gn kl st)" by (rule reach_inv_step [OF G E i n])
  qed
qed

end
