(* ===== verification/Quro_Defs.thy ===== *)
theory Quro_Defs
  imports Quro_Flow
begin

text \<open>
  The rest of \<open>computeLiveness\<close> (\<open>src/quro/code/ControlFlowGraph.cpp\<close>): the kill sets of all
  blocks, the iteration on them, and the assignment of the reaching definitions to the uses
  of every code block and condition.  Then what the analysis promises, and where it does
  not keep to it.
\<close>

section \<open>The analysis as a whole\<close>

definition kill_all :: "cfg \<Rightarrow> (blk \<Rightarrow> vars) \<Rightarrow> (blk \<Rightarrow> defuse) option" where
  "kill_all G gn =
     foldM (\<lambda>b kl. case kill_of G gn b of None \<Rightarrow> None | Some k \<Rightarrow> Some (kl(b := k)))
       (cfg_blocks G) (\<lambda>b. [])"

definition reaching :: "cfg \<Rightarrow> heap \<Rightarrow> bid list \<Rightarrow> (blk list \<Rightarrow> blk list) \<Rightarrow> reach_state option" where
  "reaching G h code_blocks pov =
     (let gn = gen G h code_blocks in
      case kill_all G gn of None \<Rightarrow> None | Some kl \<Rightarrow> reach G gn kl pov)"

text \<open>The definitions of \<open>v\<close> that a statement sees: the last one before it in its own graph block,
  else those that reach the block.\<close>

definition use_defs :: "heap \<Rightarrow> defuse \<Rightarrow> vars \<Rightarrow> vid \<Rightarrow> bid stdset" where
  "use_defs h reaching_def inblock_defs v =
     (case smap_get inblock_defs v of
        Some d \<Rightarrow> [d]
      | None \<Rightarrow> fold (\<lambda>c s. if List.member (cb_defs (h c)) v then sset_insert c s else s)
                  reaching_def [])"

definition assign_code :: "defuse \<Rightarrow> bid \<Rightarrow> vars \<times> heap \<Rightarrow> vars \<times> heap" where
  "assign_code reaching_def cb st =
     (let (inblock_defs, h) = st;
          def_stmts = fold (\<lambda>v m. smap_put v
              (case smap_get inblock_defs v of
                 Some d \<Rightarrow> if d \<noteq> cb then [d] else []
               | None \<Rightarrow> use_defs h reaching_def inblock_defs v) m)
            (cb_uses (h cb)) (cb_def_stmts (h cb));
          inblock_defs = fold (\<lambda>v m. smap_put v cb m) (cb_defs (h cb)) inblock_defs
      in (inblock_defs, h(cb := (h cb)\<lparr>cb_def_stmts := def_stmts\<rparr>)))"

definition assign_cond :: "heap \<Rightarrow> defuse \<Rightarrow> vars \<Rightarrow> cid \<Rightarrow> cheap \<Rightarrow> cheap" where
  "assign_cond h reaching_def inblock_defs c C =
     C(c := (C c)\<lparr>cd_def_stmts :=
       fold (\<lambda>v m. smap_put v
               (fold sset_insert (use_defs h reaching_def inblock_defs v) (smap_at m v)) m)
         (cd_uses (C c)) (cd_def_stmts (C c))\<rparr>)"

definition assign_block ::
    "cfg \<Rightarrow> bid list \<Rightarrow> cid list \<Rightarrow> (blk \<Rightarrow> defuse) \<Rightarrow> blk \<Rightarrow> heap \<times> cheap \<Rightarrow> heap \<times> cheap" where
  "assign_block G code_blocks cond_blocks begins b st =
     (let (h, C) = st;
          (inblock_defs, h1) = fold (assign_code (begins b)) (CFG_to_stmts G h code_blocks b) ([], h)
      in (h1, fold (assign_cond h1 (begins b) inblock_defs) (CFG_to_conds G C cond_blocks b) C))"

definition computeLiveness ::
    "cfg \<Rightarrow> (blk list \<Rightarrow> blk list) \<Rightarrow> bid list \<Rightarrow> cid list \<Rightarrow> heap \<times> cheap \<Rightarrow> (heap \<times> cheap) option" where
  "computeLiveness G pov code_blocks cond_blocks st =
     (case reaching G (fst st) code_blocks pov of
        None \<Rightarrow> None
      | Some r \<Rightarrow> Some (fold (assign_block G code_blocks cond_blocks (rs_begin r))
                         (rev (cfg_blocks G)) st))"

section \<open>The analysis solves the equations\<close>

lemma kill_set_empty: "gn b = [] \<Longrightarrow> kill_set G gn b = {}"
  by (simp add: kill_set_def)

lemma kill_all_total:
  assumes G: "cfg_ok G" and ok: "\<forall>b. smap_ok (gn b)"
  shows "\<exists>kl. kill_all G gn = Some kl \<and>
           (\<forall>b \<in> set (cfg_blocks G). set (kl b) = kill_set G gn b) \<and>
           (\<forall>b. b \<notin> set (cfg_blocks G) \<longrightarrow> kl b = [])"
proof -
  let ?B = "set (cfg_blocks G)"
  let ?f = "\<lambda>b kl. case kill_of G gn b of None \<Rightarrow> None | Some k \<Rightarrow> Some (kl(b := k))"
  have "set bs \<subseteq> ?B \<Longrightarrow> \<exists>kl'. foldM ?f bs kl = Some kl' \<and>
      (\<forall>b \<in> set bs. set (kl' b) = kill_set G gn b) \<and> (\<forall>b. b \<notin> set bs \<longrightarrow> kl' b = kl b)" for bs kl
  proof (induction bs arbitrary: kl)
    case Nil
    then show ?case by simp
  next
    case (Cons x bs)
    have "\<forall>b \<in> ?B. preds G b \<subseteq> ?B" using G by (simp add: cfg_ok_def)
    with Cons.prems kill_of_total [of gn x ?B G] ok obtain k where
      k: "kill_of G gn x = Some k" "set k = kill_set G gn x" by auto
    have "set bs \<subseteq> ?B" using Cons.prems by simp
    from Cons.IH [OF this, of "kl(x := k)"] obtain kl' where
      kl': "foldM ?f bs (kl(x := k)) = Some kl'" "\<forall>b \<in> set bs. set (kl' b) = kill_set G gn b"
        "\<forall>b. b \<notin> set bs \<longrightarrow> kl' b = (kl(x := k)) b" by blast
    have "set (kl' x) = kill_set G gn x" using kl'(2,3) k(2) by (cases "x \<in> set bs") auto
    with k(1) kl' show ?case by auto
  qed
  from this [of "cfg_blocks G" "\<lambda>b. []"] show ?thesis by (simp add: kill_all_def)
qed

definition eq_out :: "cfg \<Rightarrow> (blk \<Rightarrow> vars) \<Rightarrow> blk \<Rightarrow> bid set \<Rightarrow> bid set" where
  "eq_out G gn b X = (X \<union> gen_all gn b) - kill_set G gn b"

lemma reaching_result:
  assumes G: "cfg_ok G" and pov: "\<And>xs. mset (pov xs) = mset xs"
    and rank: "ranked G (gen G h code_blocks) rank"
  shows "\<exists>r. reaching G h code_blocks pov = Some r \<and>
     (\<forall>b \<in> set (cfg_blocks G).
        set (rs_begin r b) = (\<Union>p \<in> preds G b. set (rs_end r p)) \<and>
        set (rs_end r b) = eq_out G (gen G h code_blocks) b (set (rs_begin r b))) \<and>
     (\<forall>E. (\<forall>b \<in> set (cfg_blocks G).
             eq_out G (gen G h code_blocks) b (\<Union>p \<in> preds G b. E p) \<subseteq> E b) \<longrightarrow>
        (\<forall>b \<in> set (cfg_blocks G). set (rs_end r b) \<subseteq> E b))"
proof -
  let ?gn = "gen G h code_blocks" and ?B = "set (cfg_blocks G)"
  from kill_all_total [OF G, of ?gn] gen_ok obtain kl where kl: "kill_all G ?gn = Some kl"
    "\<forall>b \<in> ?B. set (kl b) = kill_set G ?gn b" "\<forall>b. b \<notin> ?B \<longrightarrow> kl b = []" by auto
  have "?gn b = [] \<longrightarrow> kl b = []" for b
    using kl(2,3) kill_set_empty [of ?gn b G] by (cases "b \<in> ?B") auto
  with reach_total [OF G pov rank, of kl] obtain r where r: "reach G ?gn kl pov = Some r" by blast
  have out: "out_set ?gn kl b X = eq_out G ?gn b X" if "b \<in> ?B" for b X
    using kl(2) that by (simp add: out_set_def eq_out_def)
  note sol = reach_solution [OF G pov r]
  have "set (rs_begin r b) = (\<Union>p \<in> preds G b. set (rs_end r p)) \<and>
        set (rs_end r b) = eq_out G ?gn b (set (rs_begin r b))" if b: "b \<in> ?B" for b
    using sol(1,2) [OF b] out [OF b] by (simp add: in_set_def)
  moreover have "set (rs_end r b) \<subseteq> E b"
    if "\<forall>b \<in> ?B. eq_out G ?gn b (\<Union>p \<in> preds G b. E p) \<subseteq> E b" "b \<in> ?B" for E b
    using sol(3) [OF that(2), of E] that out by (simp add: closed_under_def)
  ultimately show ?thesis using r kl(1) by (auto simp: reaching_def Let_def)
qed

lemma reaching_eqs:
  assumes "cfg_ok G" and "\<And>xs. mset (pov xs) = mset xs"
    and "ranked G (gen G h code_blocks) rank"
  shows "\<exists>r. reaching G h code_blocks pov = Some r \<and>
     (\<forall>b \<in> set (cfg_blocks G).
        set (rs_begin r b) = (\<Union>p \<in> preds G b. set (rs_end r p)) \<and>
        set (rs_end r b) = eq_out G (gen G h code_blocks) b (set (rs_begin r b)))"
  using reaching_result [OF assms] by (elim exE conjE) (rule exI, rule conjI, assumption+)

section \<open>Properties\<close>

text \<open>C9: on a graph in which every cycle passes a block without definitions, the reaching-definitions
  iteration ends for every order the sort gives; its result satisfies the equations of the code, \<open>in = union of out over the
  predecessors\<close> and \<open>out = (in + gen) - kill\<close> at every block (the comment there has \<open>gen + (in - kill)\<close>), and is below
  every other solution.  On other cycles the iteration need not end (\<open>reaching_diverges_on_cycle\<close>).\<close>

theorem reaching_least_solution:
  assumes "cfg_ok G" and "\<And>xs. mset (pov xs) = mset xs"
    and "ranked G (gen G h code_blocks) rank"
  shows "\<exists>r. reaching G h code_blocks pov = Some r \<and>
     (\<forall>b \<in> set (cfg_blocks G).
        set (rs_begin r b) = (\<Union>p \<in> preds G b. set (rs_end r p)) \<and>
        set (rs_end r b) = eq_out G (gen G h code_blocks) b (set (rs_begin r b))) \<and>
     (\<forall>E. (\<forall>b \<in> set (cfg_blocks G).
             eq_out G (gen G h code_blocks) b (\<Union>p \<in> preds G b. E p) \<subseteq> E b) \<longrightarrow>
        (\<forall>b \<in> set (cfg_blocks G). set (rs_end r b) \<subseteq> E b))"
  by (rule reaching_result [OF assms])

text \<open>A loop: 0 enters 1, 1 leads to 2 and 3, and the back-edge block 2 returns to 1.\<close>

definition ex_graph :: cfg where
  "ex_graph = \<lparr>cfg_blocks = [0, 1, 2, 3],
     cfg_pred = (\<lambda>b. if b = 1 then [Some 0, Some 2] else if b = 2 \<or> b = 3 then [Some 1] else []),
     cfg_succ = (\<lambda>b. if b = 0 then [Some 1] else if b = 1 then [Some 2, Some 3]
                     else if b = 2 then [Some 1] else []),
     cfg_stmts = (\<lambda>b. if b = 2 then [] else [(Some (10 * b + 1), Some (10 * b + 5))])\<rparr>"

text \<open>The code block \<open>c\<close> is the statement of graph block \<open>c\<close>: 0 and 1 define variable 7, 3 reads it.\<close>

definition ex_stmts :: heap where
  "ex_stmts = (\<lambda>c. (new_codeBlock NONQUERY c)
     \<lparr>cb_begin := Some (10 * c + 1), cb_end := Some (10 * c + 5),
      cb_defs := (if c = 0 \<or> c = 1 then [7] else []), cb_uses := (if c = 3 then [7] else [])\<rparr>)"

lemma ex_graph_ok: "cfg_ok ex_graph"
  by (auto simp: cfg_ok_def ex_graph_def preds_def succs_def split: if_splits)

lemma ex_stmts_within:
  "CFG_to_stmts ex_graph ex_stmts [0, 1, 3] b =
     (if b = 0 then [0] else if b = 1 then [1] else if b = 3 then [3] else [])"
proof -
  have r: "blocks_range ex_graph b =
      (if b = 2 then (None, None) else (Some (10 * b + 1), Some (10 * b + 5)))"
    by (simp add: blocks_range_def ex_graph_def range_step_def loc_isValid_def)
  have w: "rangeIsWithin (cb_begin (ex_stmts c)) (cb_end (ex_stmts c))
      (fst (blocks_range ex_graph b)) (snd (blocks_range ex_graph b)) \<longleftrightarrow> b \<noteq> 2 \<and> c = b" for c
    unfolding r by (auto simp: rangeIsWithin_iff ex_stmts_def)
  show ?thesis unfolding CFG_to_stmts_def w by simp
qed

lemma ex_gen: "gen ex_graph ex_stmts [0, 1, 3] b = (if b = 0 \<or> b = 1 then [(7, b)] else [])"
proof -
  have "cb_defs (ex_stmts c) = (if c = 0 \<or> c = 1 then [7] else [])" for c by (simp add: ex_stmts_def)
  then show ?thesis unfolding gen_def ex_stmts_within by (simp add: vars_add_def)
qed

lemma reaching_least_solution_witness:
  "\<exists>r. reaching ex_graph ex_stmts [0, 1, 3] id = Some r \<and>
     (\<forall>b \<in> set (cfg_blocks ex_graph).
        set (rs_begin r b) = (\<Union>p \<in> preds ex_graph b. set (rs_end r p)) \<and>
        set (rs_end r b) =
          eq_out ex_graph (gen ex_graph ex_stmts [0, 1, 3]) b (set (rs_begin r b))) \<and>
     (\<forall>E. (\<forall>b \<in> set (cfg_blocks ex_graph).
             eq_out ex_graph (gen ex_graph ex_stmts [0, 1, 3]) b (\<Union>p \<in> preds ex_graph b. E p) \<subseteq> E b) \<longrightarrow>
        (\<forall>b \<in> set (cfg_blocks ex_graph). set (rs_end r b) \<subseteq> E b))"
proof (rule reaching_least_solution [OF ex_graph_ok])
  show "mset (id xs) = mset xs" for xs :: "blk list" by simp
  show "ranked ex_graph (gen ex_graph ex_stmts [0, 1, 3]) (\<lambda>b. 3 - b)"
    unfolding ranked_def ex_gen by (auto simp: ex_graph_def succs_def split: if_splits)
qed

text \<open>Leaving a graph block that does not define \<open>v\<close>.\<close>

definition clear_edge :: "cfg \<Rightarrow> (blk \<Rightarrow> vars) \<Rightarrow> vid \<Rightarrow> (blk \<times> blk) set" where
  "clear_edge G gn v =
     {(x, y). x \<in> set (cfg_blocks G) \<and> y \<in> succs G x \<and> smap_get (gn x) v = None}"

lemma gen_defines: "smap_get (gen G h code_blocks b) v = Some d \<Longrightarrow>
    v \<in> set (cb_defs (h d)) \<and> d \<in> set (CFG_to_stmts G h code_blocks b)"
proof -
  assume "smap_get (gen G h code_blocks b) v = Some d"
  then have "List.find (\<lambda>cb. v \<in> set (cb_defs (h cb))) (rev (CFG_to_stmts G h code_blocks b)) = Some d"
    by (simp add: gen_last)
  from find_mem [OF this] show ?thesis by simp
qed

text \<open>C14: on a graph in which every cycle passes a block without definitions, and when each code block defines one variable
  at most, a definition reaches every block to which a path leads from its own block on which no block redefines the
  variable, provided its own block is not its own predecessor and the code block lies in that graph block only
  (\<open>kill_drops_whole_block\<close> shows what is lost when code blocks define two variables).\<close>

theorem reaching_sound_on_paths:
  assumes "cfg_ok G" and "\<And>xs. mset (pov xs) = mset xs"
    and "ranked G (gen G h code_blocks) rank"
    and "\<forall>c v v'. v \<in> set (cb_defs (h c)) \<and> v' \<in> set (cb_defs (h c)) \<longrightarrow> v = v'"
    and "orig \<in> set (cfg_blocks G)" and "smap_get (gen G h code_blocks orig) v = Some d"
    and "orig \<notin> preds G orig" and "\<forall>p. d \<in> set (CFG_to_stmts G h code_blocks p) \<longrightarrow> p = orig"
    and "s \<in> succs G orig" and "(s, b) \<in> (clear_edge G (gen G h code_blocks) v)\<^sup>*"
  shows "\<exists>r. reaching G h code_blocks pov = Some r \<and> d \<in> set (rs_begin r b)"
proof -
  let ?gn = "gen G h code_blocks" and ?B = "set (cfg_blocks G)"
  from reaching_eqs [OF assms(1-3)] obtain r where r: "reaching G h code_blocks pov = Some r"
    and eqs: "\<forall>b \<in> ?B. set (rs_begin r b) = (\<Union>p \<in> preds G b. set (rs_end r p)) \<and>
        set (rs_end r b) = eq_out G ?gn b (set (rs_begin r b))" by (elim exE conjE)
  have edge: "x \<in> preds G y \<and> y \<in> ?B" if "x \<in> ?B" "y \<in> succs G x" for x y
    using assms(1) that unfolding cfg_ok_def by blast
  have "(x, y) \<in> {(x, y). y \<in> preds G x \<and> y \<noteq> orig}\<^sup>* \<Longrightarrow> x \<noteq> orig \<Longrightarrow> y \<noteq> orig" for x y
    by (induction rule: rtrancl_induct) auto
  note stay = this
  have walk0: "orig \<notin> walk G orig"
  proof
    assume "orig \<in> walk G orig"
    then obtain p where "p \<in> preds G orig" "(p, orig) \<in> {(x, y). y \<in> preds G x \<and> y \<noteq> orig}\<^sup>*"
      by (auto simp: walk_def)
    with stay [of p orig] assms(7) show False by (cases "p = orig") auto
  qed
  have "d \<notin> kill_set G ?gn orig"
  proof
    assume "d \<in> kill_set G ?gn orig"
    then obtain p v' where p: "p \<in> walk G orig" "smap_get (?gn p) v' = Some d" by (auto simp: kill_set_def)
    then have "p = orig" using gen_defines assms(8) by blast
    with p(1) walk0 show False by blast
  qed
  moreover have "d \<in> gen_all ?gn orig"
    using smap_get_mem [OF assms(6)] by (force simp: gen_all_def)
  ultimately have end0: "d \<in> set (rs_end r orig)" using eqs assms(5) by (simp add: eq_out_def)
  have "b \<in> ?B \<and> d \<in> set (rs_begin r b)"
    using assms(10)
  proof (induction rule: rtrancl_induct)
    case base
    with edge [OF assms(5,9)] eqs end0 show ?case by blast
  next
    case (step x y)
    then have x: "x \<in> ?B" "d \<in> set (rs_begin r x)" "y \<in> succs G x" "smap_get (?gn x) v = None"
      by (auto simp: clear_edge_def)
    have "d \<notin> kill_set G ?gn x"
    proof
      assume "d \<in> kill_set G ?gn x"
      then obtain p v' where "smap_get (?gn x) v' \<noteq> None" "smap_get (?gn p) v' = Some d"
        by (auto simp: kill_set_def)
      moreover from this have "v' = v"
        using gen_defines gen_defines [OF assms(6)] assms(4) by blast
      ultimately show False using x(4) by simp
    qed
    with x eqs have "d \<in> set (rs_end r x)" by (simp add: eq_out_def)
    with edge [OF x(1,3)] eqs show ?case by blast
  qed
  with r show ?thesis by blast
qed

lemma reaching_sound_on_paths_witness:
  "\<exists>r. reaching ex_graph ex_stmts [0, 1, 3] id = Some r \<and> 1 \<in> set (rs_begin r 3)"
proof (rule reaching_sound_on_paths [where G = ex_graph and h = ex_stmts and pov = id and
      code_blocks = "[0, 1, 3]" and v = 7 and orig = 1 and s = 3 and rank = "\<lambda>b. 3 - b"])
  show "cfg_ok ex_graph" by (rule ex_graph_ok)
  show "mset (id xs) = mset xs" for xs :: "blk list" by simp
  show "ranked ex_graph (gen ex_graph ex_stmts [0, 1, 3]) (\<lambda>b. 3 - b)"
    unfolding ranked_def ex_gen by (auto simp: ex_graph_def succs_def split: if_splits)
  show "\<forall>c v v'. v \<in> set (cb_defs (ex_stmts c)) \<and> v' \<in> set (cb_defs (ex_stmts c)) \<longrightarrow> v = v'"
    by (simp add: ex_stmts_def)
  show "1 \<in> set (cfg_blocks ex_graph)" by (simp add: ex_graph_def)
  show "smap_get (gen ex_graph ex_stmts [0, 1, 3] 1) 7 = Some 1" unfolding ex_gen by simp
  show "1 \<notin> preds ex_graph 1" by (simp add: ex_graph_def preds_def)
  show "\<forall>p. 1 \<in> set (CFG_to_stmts ex_graph ex_stmts [0, 1, 3] p) \<longrightarrow> p = 1"
    unfolding ex_stmts_within by auto
  show "3 \<in> succs ex_graph 1" by (simp add: ex_graph_def succs_def)
qed simp

end
