(* ===== verification/Quro_Limits.thy ===== *)
theory Quro_Limits
  imports Quro_Defs
begin

text \<open>
  Two limits of the reaching-definitions analysis of
  \<open>src/quro/code/ControlFlowGraph.cpp\<close>, by evaluation and by an invariant on small graphs.
\<close>

section \<open>A killed code block is lost for all its variables\<close>

text \<open>Three blocks in a row: code block 0 defines the variables 7 and 8, code block 1 redefines 7, and
  code block 2 reads 8.\<close>

definition drop_graph :: cfg where
  "drop_graph = \<lparr>cfg_blocks = [0, 1, 2],
     cfg_pred = (\<lambda>b. if b = 0 then [] else [Some (b - 1)]),
     cfg_succ = (\<lambda>b. if b = 2 then [] else [Some (b + 1)]),
     cfg_stmts = (\<lambda>b. [(Some (10 * b + 1), Some (10 * b + 5))])\<rparr>"

definition drop_stmts :: heap where
  "drop_stmts = (\<lambda>c. (new_codeBlock NONQUERY c)
     \<lparr>cb_begin := Some (10 * c + 1), cb_end := Some (10 * c + 5),
      cb_defs := (if c = 0 then [7, 8] else if c = 1 then [7] else []),
      cb_uses := (if c = 2 then [8] else [])\<rparr>)"

text \<open>A kill set holds code blocks, not definitions: a code block that defines two variables is
  removed where one of them is redefined, so the use of the other one gets no definition.\<close>

theorem kill_drops_whole_block:
  "map_option (\<lambda>(h, C). (cb_defs (h 0), cb_defs (h 1), cb_uses (h 2), smap_get (cb_def_stmts (h 2)) 8))
     (computeLiveness drop_graph id [0, 1, 2] [] (drop_stmts, \<lambda>_. undefined)) =
   Some ([7, 8], [7], [8], Some [])"
  by code_simp

section \<open>A cycle of defining blocks\<close>

text \<open>Two blocks that follow each other in a circle and both define the variable 7.\<close>

definition loop_graph :: cfg where
  "loop_graph = \<lparr>cfg_blocks = [0, 1],
     cfg_pred = (\<lambda>b. [Some (1 - b)]), cfg_succ = (\<lambda>b. [Some (1 - b)]),
     cfg_stmts = (\<lambda>b. [(Some (10 * b + 1), Some (10 * b + 5))])\<rparr>"

definition loop_stmts :: heap where
  "loop_stmts = (\<lambda>c. (new_codeBlock NONQUERY c)
     \<lparr>cb_begin := Some (10 * c + 1), cb_end := Some (10 * c + 5), cb_defs := [7]\<rparr>)"

definition loop_kill :: "blk \<Rightarrow> defuse" where
  "loop_kill = (\<lambda>b. [])(0 := [1], 1 := [0])"

text \<open>On every state of the iteration a visited block's out set is its own definition.\<close>

definition loop_inv :: "reach_state \<Rightarrow> bool" where
  "loop_inv st \<longleftrightarrow> wl_ok (rs_wl st) \<and>
     wl_list (rs_wl st) \<noteq> [] \<and> set (wl_list (rs_wl st)) \<subseteq> {0, 1} \<and>
     (\<forall>b \<in> {0, 1}. rs_end st b = (if rs_ever st b then [b] else []))"

lemma loop_gen: "gen loop_graph loop_stmts [0, 1] 0 = [(7, 0)]" "gen loop_graph loop_stmts [0, 1] 1 = [(7, 1)]"
  by code_simp+

lemma loop_kill_all: "kill_all loop_graph (gen loop_graph loop_stmts [0, 1]) = Some loop_kill"
proof -
  have "kill_of loop_graph (gen loop_graph loop_stmts [0, 1]) 0 = Some [1]"
    "kill_of loop_graph (gen loop_graph loop_stmts [0, 1]) 1 = Some [0]" by code_simp+
  then show ?thesis by (simp add: kill_all_def loop_kill_def loop_graph_def)
qed

lemma loop_pair: "b \<in> {0, 1 :: nat} \<Longrightarrow> 1 - b \<in> {0, 1} \<and> 1 - b \<noteq> b \<and> 1 - (1 - b) = b"
  by auto

lemma loop_update:
  assumes b: "b \<in> {0, 1}" and wl: "set (wl_list (rs_wl st)) \<subseteq> {0, 1}"
    and ever: "rs_ever st b" and rest: "\<forall>c \<in> {0, 1}. c \<noteq> b \<longrightarrow> rs_end st c = (if rs_ever st c then [c] else [])"
    and val: "rs_begin st b = [] \<or> rs_begin st b = [1 - b]" and enq: "wl_ok (rs_wl st)"
  shows "loop_inv (reach_update loop_graph (gen loop_graph loop_stmts [0, 1]) loop_kill b v st)"
proof -
  let ?u = "reach_update loop_graph (gen loop_graph loop_stmts [0, 1]) loop_kill b v st"
  have wlu: "rs_wl ?u = enqueueBlock (Some (1 - b)) (rs_wl st)"
    by (simp add: reach_update_def Let_def enqueueSuccessors_def loop_graph_def)
  have "subtract_list (add_list (rs_begin st b) (getStmtList (gen loop_graph loop_stmts [0, 1] b))) (loop_kill b) = [b]"
    using b val loop_gen
    by (auto simp: loop_kill_def subtract_list_def add_list_def getStmtList_def)
  then have endu: "rs_end ?u = (rs_end st)(b := [b])" 
    by (simp add: reach_update_def Let_def)
  have everu: "rs_ever ?u = rs_ever st" by (simp add: reach_update_def Let_def)
  have "wl_list (rs_wl ?u) \<noteq> []"
    using enq unfolding wlu by (auto simp: enqueueBlock_def wl_ok_def)
  moreover have "set (wl_list (rs_wl ?u)) \<subseteq> {0, 1}"
    using wl loop_pair [OF b] unfolding wlu by (auto simp: enqueueBlock_def)
  moreover have "\<forall>c \<in> {0, 1}. rs_end ?u c = (if rs_ever ?u c then [c] else [])"
    unfolding endu everu using rest ever by (metis fun_upd_apply)
  moreover have "wl_ok (rs_wl ?u)" unfolding wlu using enq by simp
  ultimately show ?thesis unfolding loop_inv_def by (intro conjI)
qed

lemma loop_step:
  assumes inv: "loop_inv st"
  shows "loop_inv (reach_step loop_graph (gen loop_graph loop_stmts [0, 1]) loop_kill st)"
proof -
  let ?gn = "gen loop_graph loop_stmts [0, 1]"
  from inv obtain b w where w: "dequeue (rs_wl st) = Some (b, w)"
    unfolding loop_inv_def by (cases "wl_list (rs_wl st)") (auto simp: dequeue_def)
  from inv have ok: "wl_ok (rs_wl st)" by (simp add: loop_inv_def)
  note d = dequeue_ok [OF ok w]
  from inv d have b: "b \<in> {0, 1}" and wl: "set (wl_list w) \<subseteq> {0, 1}" unfolding loop_inv_def by auto
  have ends: "rs_end st c = (if rs_ever st c then [c] else [])" if "c \<in> {0, 1}" for c
    using inv that unfolding loop_inv_def by blast
  have other: "rs_end st (1 - b) = (if rs_ever st (1 - b) then [1 - b] else [])"
    using ends loop_pair [OF b] by blast
  have "in_value loop_graph (rs_end st) b = add_list [] (rs_end st (1 - b))"
    by (simp add: in_value_def loop_graph_def)
  then have val: "in_value loop_graph (rs_end st) b = [] \<or> in_value loop_graph (rs_end st) b = [1 - b]"
    unfolding other by (simp add: add_list_def)
  have neq: "\<not> defuse_equals (rs_end st b) (in_value loop_graph (rs_end st) b)" if "rs_ever st b"
  proof -
    have "rs_end st b = [b]" using ends [OF b] that by simp
    then show ?thesis using val loop_pair [OF b] unfolding defuse_equals_def by fastforce
  qed
  let ?s = "st\<lparr>rs_wl := w, rs_begin := (rs_begin st)(b := in_value loop_graph (rs_end st) b)\<rparr>"
  show ?thesis
  proof (cases "rs_ever st b")
    case True
    have "loop_inv (reach_update loop_graph ?gn loop_kill b (in_value loop_graph (rs_end st) b) ?s)"
      by (rule loop_update [OF b]) (use wl True ends val d in simp_all)
    with True neq show ?thesis by (simp add: reach_step_def w Let_def)
  next
    case False
    have "loop_inv (reach_update loop_graph ?gn loop_kill b (in_value loop_graph (rs_end st) b)
            (?s\<lparr>rs_ever := (rs_ever ?s)(b := True)\<rparr>))"
      by (rule loop_update [OF b]) (use wl ends val d in simp_all)
    with False show ?thesis by (simp add: reach_step_def w Let_def)
  qed
qed

text \<open>The iteration compares a block's new in set with its old out set; on a cycle in which every
  block defines a variable that the other kills the two never agree, and the analysis does
  not end.\<close>

theorem reaching_diverges_on_cycle:
  "cfg_ok loop_graph \<and> reaching loop_graph loop_stmts [0, 1] id = None"
proof
  show "cfg_ok loop_graph"
    by (auto simp: cfg_ok_def loop_graph_def preds_def succs_def)
  have start: "loop_inv (reach_start loop_graph id)"
    unfolding loop_inv_def by (simp add: reach_start_def loop_graph_def sortWorklist_def wl_empty_def enqueueBlock_def wl_ok_def)
  have "reach loop_graph (gen loop_graph loop_stmts [0, 1]) loop_kill id = None"
  proof (rule ccontr)
    assume "\<not> ?thesis"
    then obtain t where t: "while_option (\<lambda>st. wl_list (rs_wl st) \<noteq> [])
        (reach_step loop_graph (gen loop_graph loop_stmts [0, 1]) loop_kill) (reach_start loop_graph id) = Some t"
      unfolding reach_def by blast
    have "loop_inv t" by (rule while_option_rule [where P = loop_inv, OF loop_step t start])
    then show False using while_option_stop [OF t] by (simp add: loop_inv_def)
  qed
  then show "reaching loop_graph loop_stmts [0, 1] id = None"
    unfolding reaching_def Let_def loop_kill_all by simp
qed

end
