(* ===== verification/Db_List.thy ===== *)
theory Db_List
  imports Quro_Prelude
begin

text \<open>
  The list macros of DBx1000 (\<open>src/DBx1000/code/system/helper.h\<close>), on a heap of nodes with
  \<open>next\<close> and \<open>prev\<close> fields, and the lists they implement: a heap operation applied to a
  list in the heap gives a heap with the list the functional operation gives.  The other
  components use the functional operations.
\<close>

section \<open>Nodes\<close>

type_synonym addr = nat

record node =
  nx :: "addr option"
  pv :: "addr option"

type_synonym nodes = "addr \<Rightarrow> node"

definition set_next :: "addr \<Rightarrow> addr option \<Rightarrow> nodes \<Rightarrow> nodes" where
  "set_next e p h = h(e := (h e)\<lparr>nx := p\<rparr>)"

definition set_prev :: "addr \<Rightarrow> addr option \<Rightarrow> nodes \<Rightarrow> nodes" where
  "set_prev e p h = h(e := (h e)\<lparr>pv := p\<rparr>)"

lemma set_next_simps [simp]:
  "nx (set_next e p h x) = (if x = e then p else nx (h x))" "pv (set_next e p h x) = pv (h x)"
  by (simp_all add: set_next_def)

lemma set_prev_simps [simp]:
  "pv (set_prev e p h x) = (if x = e then p else pv (h x))" "nx (set_prev e p h x) = nx (h x)"
  by (simp_all add: set_prev_def)

section \<open>The macros\<close>

definition stack_push :: "addr option \<Rightarrow> addr \<Rightarrow> nodes \<Rightarrow> nodes \<times> addr option" where
  "stack_push stack entry h = (set_next entry stack h, Some entry)"

definition stack_pop :: "addr option \<Rightarrow> nodes \<Rightarrow> addr option \<times> addr option" where
  "stack_pop stack h = (case stack of None \<Rightarrow> (None, None) | Some en \<Rightarrow> (Some en, nx (h en)))"

text \<open>The pointer macros give the heap and the new head and tail; reading through a null head is
  \<open>None\<close>.\<close>

definition list_get_head ::
    "addr option \<Rightarrow> addr option \<Rightarrow> nodes \<Rightarrow> (addr \<times> nodes \<times> addr option \<times> addr option) option" where
  "list_get_head lhead ltail h =
     (case lhead of
        None \<Rightarrow> None
      | Some en \<Rightarrow>
          (let lhead = nx (h en);
               (h, ltail) = (case lhead of Some l \<Rightarrow> (set_prev l None h, ltail) | None \<Rightarrow> (h, None));
               h = set_next en None h
           in Some (en, h, lhead, ltail)))"

definition list_put_tail ::
    "addr option \<Rightarrow> addr option \<Rightarrow> addr \<Rightarrow> nodes \<Rightarrow> nodes \<times> addr option \<times> addr option" where
  "list_put_tail lhead ltail en h =
     (let h = set_next en None h; h = set_prev en None h in
      case ltail of
        Some t \<Rightarrow> (let h = set_prev en (Some t) h; h = set_next t (Some en) h in (h, lhead, Some en))
      | None \<Rightarrow> (h, Some en, Some en))"

definition list_insert_before :: "addr \<Rightarrow> addr \<Rightarrow> nodes \<Rightarrow> nodes" where
  "list_insert_before entry newentry h =
     (let h = set_next newentry (Some entry) h;
          h = set_prev newentry (pv (h entry)) h;
          h = (case pv (h entry) of Some p \<Rightarrow> set_next p (Some newentry) h | None \<Rightarrow> h)
      in set_prev entry (Some newentry) h)"

definition list_remove :: "addr \<Rightarrow> nodes \<Rightarrow> nodes" where
  "list_remove entry h =
     (let h = (case nx (h entry) of Some n \<Rightarrow> set_prev n (pv (h entry)) h | None \<Rightarrow> h)
      in case pv (h entry) of Some p \<Rightarrow> set_next p (nx (h entry)) h | None \<Rightarrow> h)"

text \<open>A failed assertion of \<open>LIST_REMOVE_HT\<close> is \<open>None\<close>.\<close>

definition list_remove_ht ::
    "addr \<Rightarrow> addr option \<Rightarrow> addr option \<Rightarrow> nodes \<Rightarrow> (nodes \<times> addr option \<times> addr option) option" where
  "list_remove_ht entry lhead ltail h =
     (case (case nx (h entry) of
              Some n \<Rightarrow> Some (set_prev n (pv (h entry)) h, ltail)
            | None \<Rightarrow> if ltail = Some entry then Some (h, pv (h entry)) else None) of
        None \<Rightarrow> None
      | Some (h, ltail) \<Rightarrow>
          (case pv (h entry) of
             Some p \<Rightarrow> Some (set_next p (nx (h entry)) h, lhead, ltail)
           | None \<Rightarrow> if lhead = Some entry then Some (h, nx (h entry), ltail) else None))"

text \<open>What a caller of \<open>LIST_INSERT_BEFORE\<close> and \<open>LIST_REMOVE\<close> adds: the head, and the tail, when the
  entry was there.\<close>

definition insert_before_fix ::
    "addr \<Rightarrow> addr \<Rightarrow> addr option \<Rightarrow> nodes \<Rightarrow> nodes \<times> addr option" where
  "insert_before_fix en entry lhead h =
     (list_insert_before en entry h, if Some en = lhead then Some entry else lhead)"

definition remove_fix ::
    "addr \<Rightarrow> addr option \<Rightarrow> addr option \<Rightarrow> nodes \<Rightarrow> nodes \<times> addr option \<times> addr option" where
  "remove_fix en lhead ltail h =
     (let h = list_remove en h in
      (h, if Some en = lhead then nx (h en) else lhead, if Some en = ltail then pv (h en) else ltail))"

section \<open>Lists in the heap\<close>

fun slist :: "nodes \<Rightarrow> addr option \<Rightarrow> addr list \<Rightarrow> bool" where
  "slist h f [] \<longleftrightarrow> f = None"
| "slist h f (x # xs) \<longleftrightarrow> f = Some x \<and> slist h (nx (h x)) xs"

text \<open>A doubly linked segment from \<open>f\<close>, whose first entry points back to \<open>p\<close> and whose last one points
  on to \<open>q\<close>; \<open>l\<close> is the last entry, \<open>p\<close> when there is none.\<close>

fun dseg :: "nodes \<Rightarrow> addr option \<Rightarrow> addr option \<Rightarrow> addr list \<Rightarrow> addr option \<Rightarrow> addr option \<Rightarrow> bool"
  where
  "dseg h p f [] l q \<longleftrightarrow> f = q \<and> l = p"
| "dseg h p f (x # xs) l q \<longleftrightarrow> f = Some x \<and> pv (h x) = p \<and> dseg h (Some x) (nx (h x)) xs l q"

definition dlist :: "nodes \<Rightarrow> addr option \<Rightarrow> addr option \<Rightarrow> addr list \<Rightarrow> bool" where
  "dlist h lhead ltail xs \<longleftrightarrow> distinct xs \<and> dseg h None lhead xs ltail None"

lemma slist_frame: "\<forall>x \<in> set xs. nx (h' x) = nx (h x) \<Longrightarrow> slist h f xs \<Longrightarrow> slist h' f xs"
  by (induction xs arbitrary: f) auto

lemma dseg_frame:
  "\<forall>x \<in> set xs. h' x = h x \<Longrightarrow> dseg h p f xs l q \<Longrightarrow> dseg h' p f xs l q"
  by (induction xs arbitrary: p f) auto

lemma dseg_append:
  "dseg h p f (xs @ ys) l q \<longleftrightarrow> (\<exists>m g. dseg h p f xs m g \<and> dseg h m g ys l q)"
  by (induction xs arbitrary: p f) auto

lemma dseg_set_out [simp]:
  "e \<notin> set xs \<Longrightarrow> dseg (set_prev e v h) p f xs l q \<longleftrightarrow> dseg h p f xs l q"
  "e \<notin> set xs \<Longrightarrow> dseg (set_next e v h) p f xs l q \<longleftrightarrow> dseg h p f xs l q"
  by (induction xs arbitrary: p f) auto

text \<open>Only the outer pointers of a segment change at its ends.\<close>

lemma dseg_first:
  "x \<notin> set xs \<Longrightarrow> dseg h p f (x # xs) l q \<Longrightarrow> dseg (set_prev x p' h) p' f (x # xs) l q"
  by simp

lemma dseg_last:
  "y \<notin> set xs \<Longrightarrow> dseg h p f (xs @ [y]) l q \<Longrightarrow> dseg (set_next y q' h) p f (xs @ [y]) l q'"
  by (auto simp: dseg_append)

lemma dseg_next: "dseg h p f xs l q \<Longrightarrow> f = (case xs of [] \<Rightarrow> q | x # _ \<Rightarrow> Some x)"
  by (cases xs) auto

lemma dseg_prev: "dseg h p f xs l q \<Longrightarrow> l = (if xs = [] then p else Some (last xs))"
  by (induction xs arbitrary: p f) auto

section \<open>What the macros do to a list\<close>

lemma stack_push_list:
  "slist h s xs \<Longrightarrow> e \<notin> set xs \<Longrightarrow> stack_push s e h = (h', s') \<Longrightarrow> slist h' s' (e # xs)"
  by (auto simp: stack_push_def intro!: slist_frame [of xs "set_next e s h" h])

lemma stack_pop_list:
  "slist h s xs \<Longrightarrow>
   (case xs of [] \<Rightarrow> stack_pop s h = (None, None)
    | x # ys \<Rightarrow> \<exists>s'. stack_pop s h = (Some x, s') \<and> slist h s' ys)"
  by (cases xs) (auto simp: stack_pop_def)

lemma list_get_head_list:
  assumes "dlist h lhead ltail (x # xs)"
  shows "\<exists>h' lh lt. list_get_head lhead ltail h = Some (x, h', lh, lt) \<and> dlist h' lh lt xs"
proof -
  from assms have d: "lhead = Some x" "pv (h x) = None" "dseg h (Some x) (nx (h x)) xs ltail None"
    "x \<notin> set xs" "distinct xs" by (auto simp: dlist_def)
  show ?thesis
  proof (cases xs)
    case Nil
    with d show ?thesis by (auto simp: list_get_head_def dlist_def)
  next
    case (Cons y ys)
    with d have y: "nx (h x) = Some y" by simp
    have "dseg (set_prev y None h) None (Some y) xs ltail None"
      using dseg_first [of y ys h "Some x" "Some y" ltail None None] d Cons y by simp
    then have "dlist (set_next x None (set_prev y None h)) (Some y) ltail xs"
      using d by (simp add: dlist_def)
    with d y show ?thesis by (simp add: list_get_head_def)
  qed
qed

lemma list_put_tail_list:
  assumes "dlist h lhead ltail xs" "e \<notin> set xs"
  shows "\<exists>h' lh lt. list_put_tail lhead ltail e h = (h', lh, lt) \<and> dlist h' lh lt (xs @ [e])"
proof (cases xs rule: rev_cases)
  case Nil
  with assms show ?thesis by (auto simp: list_put_tail_def dlist_def Let_def)
next
  case (snoc ys y)
  have d: "dseg h None lhead (ys @ [y]) ltail None" "distinct ys" "y \<notin> set ys" "e \<notin> set ys" "e \<noteq> y"
    using assms snoc by (auto simp: dlist_def)
  have t: "ltail = Some y" using dseg_prev [OF d(1)] by simp
  let ?h = "set_prev e (Some y) (set_prev e None (set_next e None h))"
  have "dseg ?h None lhead (ys @ [y]) ltail None" using d by simp
  from dseg_last [OF d(3) this, of "Some e"]
  have "dseg (set_next y (Some e) ?h) None lhead (ys @ [y]) ltail (Some e)" .
  then have "dseg (set_next y (Some e) ?h) None lhead ((ys @ [y]) @ [e]) (Some e) None"
    unfolding dseg_append [of _ _ _ "ys @ [y]"] using t d(5) by auto
  with d snoc t show ?thesis by (simp add: list_put_tail_def dlist_def Let_def)
qed

text \<open>An entry in the middle: what its own pointers are.\<close>

lemma dlist_mid:
  assumes "dlist h lhead ltail (us @ e # vs)"
  shows "dseg h None lhead us (pv (h e)) (Some e)" "dseg h (Some e) (nx (h e)) vs ltail None"
    "pv (h e) = (if us = [] then None else Some (last us))"
    "nx (h e) = (case vs of [] \<Rightarrow> None | v # _ \<Rightarrow> Some v)"
    "e \<notin> set us" "e \<notin> set vs" "distinct us" "distinct vs" "set us \<inter> set vs = {}"
  using assms dseg_prev [of h None lhead us] dseg_next [of h "Some e" _ vs]
  by (auto simp: dlist_def dseg_append split: if_splits)

lemma dseg_redirect_last:
  "dseg h None f us m (Some e) \<Longrightarrow> distinct us \<Longrightarrow>
   dseg (case m of Some p \<Rightarrow> set_next p q h | None \<Rightarrow> h) None (if us = [] then q else f) us m q"
proof (cases us rule: rev_cases)
  case (snoc ys y)
  assume d: "dseg h None f us m (Some e)" "distinct us"
  then have "m = Some y" using dseg_prev [OF d(1)] snoc by simp
  with d snoc dseg_last [of y ys h None f m "Some e" q] show ?thesis by simp
qed simp

lemma dseg_redirect_first:
  "dseg h p (nx (h e)) vs l None \<Longrightarrow> distinct vs \<Longrightarrow>
   dseg (case nx (h e) of Some n \<Rightarrow> set_prev n p' h | None \<Rightarrow> h) p' (nx (h e)) vs
     (if vs = [] then p' else l) None"
proof (cases vs)
  case (Cons v ws)
  assume d: "dseg h p (nx (h e)) vs l None" "distinct vs"
  with Cons have n: "nx (h e) = Some v" by simp
  from d Cons have "v \<notin> set ws" "dseg h p (Some v) (v # ws) l None" unfolding n by auto
  from dseg_first [OF this] show ?thesis unfolding n using Cons by simp
qed auto

lemma list_remove_list:
  assumes "dlist h lhead ltail (us @ e # vs)"
  shows "\<exists>h' lh lt. remove_fix e lhead ltail h = (h', lh, lt) \<and> dlist h' lh lt (us @ vs)"
proof -
  note m = dlist_mid [OF assms]
  define h1 where "h1 = (case nx (h e) of Some n \<Rightarrow> set_prev n (pv (h e)) h | None \<Rightarrow> h)"
  define h2 where "h2 = (case pv (h e) of Some p \<Rightarrow> set_next p (nx (h e)) h1 | None \<Rightarrow> h1)"
  have h1: "dseg h1 (pv (h e)) (nx (h e)) vs (if vs = [] then pv (h e) else ltail) None"
    unfolding h1_def by (rule dseg_redirect_first [OF m(2,8)])
  have "dseg h1 None lhead us (pv (h e)) (Some e)"
    using m(1,9) by (auto simp: h1_def m(4) split: list.splits)
  from dseg_redirect_last [OF this m(7), of "nx (h e)"]
  have u: "dseg h2 None (if us = [] then nx (h e) else lhead) us (pv (h e)) (nx (h e))"
    unfolding h2_def .
  have "last us \<notin> set vs" if "us \<noteq> []" using m(9) that last_in_set [of us] by blast
  with h1 have "dseg h2 (pv (h e)) (nx (h e)) vs (if vs = [] then pv (h e) else ltail) None"
    by (auto simp: h2_def m(3))
  with u have d: "dlist h2 (if us = [] then nx (h e) else lhead)
      (if vs = [] then pv (h e) else ltail) (us @ vs)"
    using m(7-9) by (auto simp: dlist_def dseg_append)
  have keep: "h2 e = h e"
    using m(3-6) by (auto simp: h2_def h1_def set_prev_def set_next_def split: list.splits if_splits)
  have keep1: "h1 e = h e"
    using m(4,6) by (auto simp: h1_def set_prev_def split: list.splits)
  have "list_remove e h = h2"
    unfolding list_remove_def Let_def h1_def [symmetric] keep1 h2_def ..
  moreover have "(Some e = lhead) = (us = [])"
    using dseg_next [OF m(1)] m(5) by (cases us) auto
  moreover have "(Some e = ltail) = (vs = [])"
    using dseg_prev [OF m(2)] m(6) last_in_set [of vs] by (cases "vs = []") auto
  ultimately show ?thesis using d
    by (cases "us = []"; cases "vs = []") (simp_all add: remove_fix_def Let_def keep)
qed

lemma list_remove_ht_list:
  assumes "dlist h lhead ltail (us @ e # vs)"
  shows "\<exists>h' lh lt. list_remove_ht e lhead ltail h = Some (h', lh, lt) \<and> dlist h' lh lt (us @ vs)"
proof -
  note m = dlist_mid [OF assms]
  have head: "lhead = Some e" if "us = []" using dseg_next [OF m(1)] that by simp
  have tail: "ltail = Some e" if "vs = []" using dseg_prev [OF m(2)] that by simp
  from list_remove_list [OF assms] obtain h' lh lt where
    r: "remove_fix e lhead ltail h = (h', lh, lt)" "dlist h' lh lt (us @ vs)" by blast
  have neq: "lhead \<noteq> Some e" if "us \<noteq> []" using dseg_next [OF m(1)] that m(5) by (cases us) auto
  have neq': "ltail \<noteq> Some e" if "vs \<noteq> []"
    using dseg_prev [OF m(2)] that m(6) last_in_set [of vs] by auto
  have keep: "list_remove e h e = h e"
    using m(3-6) by (auto simp: list_remove_def set_prev_def set_next_def Let_def split: list.splits if_splits)
  have "list_remove_ht e lhead ltail h = Some (remove_fix e lhead ltail h)"
    using head tail neq neq' keep m(3,4)
    by (cases us; cases vs)
       (auto simp: list_remove_ht_def remove_fix_def list_remove_def Let_def)
  with r show ?thesis by simp
qed

lemma list_insert_before_list:
  assumes "dlist h lhead ltail (us @ en # vs)" "e \<notin> set (us @ en # vs)"
  shows "\<exists>h' lh. insert_before_fix en e lhead h = (h', lh) \<and> dlist h' lh ltail (us @ e # en # vs)"
proof -
  note m = dlist_mid [OF assms(1)]
  define h1 where "h1 = set_prev e (pv (h en)) (set_next e (Some en) h)"
  define h2 where "h2 = (case pv (h en) of Some p \<Rightarrow> set_next p (Some e) h1 | None \<Rightarrow> h1)"
  define h3 where "h3 = set_prev en (Some e) h2"
  have ne: "e \<noteq> en" "e \<notin> set us" "e \<notin> set vs" using assms(2) by auto
  have "dseg h1 None lhead us (pv (h en)) (Some en)" using m(1) ne by (simp add: h1_def)
  from dseg_redirect_last [OF this m(7), of "Some e"]
  have "dseg h2 None (if us = [] then Some e else lhead) us (pv (h en)) (Some e)"
    unfolding h2_def .
  then have u: "dseg h3 None (if us = [] then Some e else lhead) us (pv (h en)) (Some e)"
    using m(5) by (simp add: h3_def)
  have "last us \<notin> set vs" if "us \<noteq> []" using m(9) that last_in_set [of us] by blast
  then have vs: "dseg h3 (Some en) (nx (h en)) vs ltail None"
    using m(2,6) ne by (simp add: h3_def h2_def h1_def m(3))
  have "pv (h3 e) = pv (h en) \<and> nx (h3 e) = Some en \<and> pv (h3 en) = Some e \<and> nx (h3 en) = nx (h en)"
    using m(3,5) ne last_in_set [of us] by (cases "us = []") (auto simp: h3_def h2_def h1_def)
  with u vs have d: "dlist h3 (if us = [] then Some e else lhead) ltail (us @ e # en # vs)"
    using m(5-9) ne by (auto simp: dlist_def dseg_append)
  have "list_insert_before en e h = h3"
    using ne by (simp add: list_insert_before_def h3_def h2_def h1_def Let_def split: option.splits)
  moreover have "(lhead = Some en) = (us = [])" using dseg_next [OF m(1)] m(5) by (cases us) auto
  ultimately show ?thesis using d by (simp add: insert_before_fix_def eq_commute)
qed

section \<open>Runs of list operations\<close>

datatype list_op = Put_tail addr | Get_head | Remove addr | Remove_ht addr | Insert_before addr addr

fun heap_op ::
    "list_op \<Rightarrow> nodes \<times> addr option \<times> addr option \<Rightarrow> (nodes \<times> addr option \<times> addr option) option"
  where
  "heap_op (Put_tail e) (h, lh, lt) = Some (list_put_tail lh lt e h)"
| "heap_op Get_head (h, lh, lt) = map_option snd (list_get_head lh lt h)"
| "heap_op (Remove e) (h, lh, lt) = Some (remove_fix e lh lt h)"
| "heap_op (Remove_ht e) (h, lh, lt) = list_remove_ht e lh lt h"
| "heap_op (Insert_before en e) (h, lh, lt) =
     (let (h, lh) = insert_before_fix en e lh h in Some (h, lh, lt))"

text \<open>On a list; \<open>None\<close> outside of what the callers may do.\<close>

fun list_op_abs :: "list_op \<Rightarrow> addr list \<Rightarrow> addr list option" where
  "list_op_abs (Put_tail e) xs = (if e \<in> set xs then None else Some (xs @ [e]))"
| "list_op_abs Get_head xs = (case xs of [] \<Rightarrow> None | x # ys \<Rightarrow> Some ys)"
| "list_op_abs (Remove e) xs = map_option snd (unlink (\<lambda>x. x = e) xs)"
| "list_op_abs (Remove_ht e) xs = map_option snd (unlink (\<lambda>x. x = e) xs)"
| "list_op_abs (Insert_before en e) xs =
     (if en \<in> set xs \<and> e \<notin> set xs then Some (insert_where (\<lambda>x. x \<noteq> en) e xs) else None)"

lemma heap_op_refines:
  assumes "dlist h lh lt xs" "list_op_abs op xs = Some ys"
  shows "\<exists>h' lh' lt'. heap_op op (h, lh, lt) = Some (h', lh', lt') \<and> dlist h' lh' lt' ys"
proof (cases op)
  case (Put_tail e)
  with assms list_put_tail_list [of h lh lt xs e] show ?thesis by (auto split: if_splits)
next
  case Get_head
  with assms(2) obtain x where "xs = x # ys" by (auto split: list.splits)
  with assms Get_head list_get_head_list [of h lh lt x ys] show ?thesis by force
next
  case (Remove e)
  with assms(2) obtain y where y: "unlink (\<lambda>x. x = e) xs = Some (y, ys)" by auto
  from unlink_split [OF y] obtain us vs where "xs = us @ e # vs" "ys = us @ vs" by auto
  with assms(1) Remove list_remove_list [of h lh lt us e vs] show ?thesis by auto
next
  case (Remove_ht e)
  with assms(2) obtain y where y: "unlink (\<lambda>x. x = e) xs = Some (y, ys)" by auto
  from unlink_split [OF y] obtain us vs where "xs = us @ e # vs" "ys = us @ vs" by auto
  with assms(1) Remove_ht list_remove_ht_list [of h lh lt us e vs] show ?thesis by auto
next
  case (Insert_before en e)
  with assms(2) have e: "en \<in> set xs" "e \<notin> set xs" "ys = insert_where (\<lambda>x. x \<noteq> en) e xs"
    by (auto split: if_splits)
  then obtain us vs where xs: "xs = us @ en # vs" "en \<notin> set us" using split_list_first by metis
  then have "takeWhile (\<lambda>x. x \<noteq> en) xs = us \<and> dropWhile (\<lambda>x. x \<noteq> en) xs = en # vs"
    by (induction us arbitrary: xs) auto
  with e(3) have "ys = us @ e # en # vs" by (simp add: insert_where_eq)
  with assms(1) xs(1) e(2) Insert_before list_insert_before_list [of h lh lt us en vs e]
  show ?thesis by auto
qed

text \<open>The list macros implement lists: a run of insertions and removals that is allowed on lists
  succeeds on the heap of nodes, from any heap with an empty list, and leaves the resulting
  list doubly linked between its head and its tail.\<close>

theorem list_macros_refine:
  assumes "foldM list_op_abs ops [] = Some xs"
  shows "\<exists>h' lh lt. foldM heap_op ops (h, None, None) = Some (h', lh, lt) \<and> dlist h' lh lt xs"
proof -
  have "foldM list_op_abs ops ys = Some xs \<Longrightarrow> dlist h lh lt ys \<Longrightarrow>
      \<exists>h' lh' lt'. foldM heap_op ops (h, lh, lt) = Some (h', lh', lt') \<and> dlist h' lh' lt' xs"
    for ys h lh lt
  proof (induction ops arbitrary: ys h lh lt)
    case Nil
    then show ?case by simp
  next
    case (Cons op ops)
    from Cons.prems(1) obtain zs where zs: "list_op_abs op ys = Some zs" "foldM list_op_abs ops zs = Some xs"
      by (auto split: option.splits)
    from heap_op_refines [OF Cons.prems(2) zs(1)] obtain h' lh' lt' where
      "heap_op op (h, lh, lt) = Some (h', lh', lt')" "dlist h' lh' lt' zs" by blast
    with Cons.IH [OF zs(2)] show ?case by simp
  qed
  from this [OF assms, of h None None] show ?thesis by (simp add: dlist_def)
qed

lemma list_macros_refine_witness:
  "\<exists>h' lh lt.
     foldM heap_op [Put_tail 1, Put_tail 2, Insert_before 2 3, Remove 1, Get_head] (\<lambda>_. \<lparr>nx = None, pv = None\<rparr>, None, None) =
       Some (h', lh, lt) \<and> dlist h' lh lt [2]"
  by (rule list_macros_refine) code_simp

end
