(* ===== verification/Db_Base.thy ===== *)
theory Db_Base
  imports Db_List
begin

text \<open>
  What the concurrency-control schemes of DBx1000 share: return codes and request types
  (\<open>src/DBx1000/code/system/global.h\<close>), the transaction manager's fields
  (\<open>src/DBx1000/code/system/txn.h\<close>), and the argument that a waiting order prevents
  deadlocks.  A transaction manager is an address; every scheme works on the map of all of them.
\<close>

section \<open>Types\<close>

datatype RC = RCOK | Commit | Abort | WAIT | ERROR | FINISH

datatype access_t = RD | WR | XP | SCAN

datatype lock_t = LOCK_EX | LOCK_SH | LOCK_NONE

datatype TsType = R_REQ | W_REQ | P_REQ | XP_REQ

type_synonym tid = nat    \<comment> \<open>\<open>txn_man*\<close>\<close>
type_synonym rid = nat    \<comment> \<open>\<open>row_t*\<close>\<close>
type_synonym rdata = "nat list"    \<comment> \<open>the bytes of a row\<close>

text \<open>Timestamps and transaction ids are 64-bit counters that are only compared, except where said.\<close>

record txn_man =
  tm_id :: nat
  tm_ts :: nat
  tm_lock_ready :: bool
  tm_lock_abort :: bool
  tm_ts_ready :: bool
  tm_ready_part :: int
  tm_cur_row :: rdata

type_synonym txns = "tid \<Rightarrow> txn_man"

definition UINT64_MAX :: nat where "UINT64_MAX = 2 ^ 64 - 1"

definition set_lock_ready :: "tid \<Rightarrow> bool \<Rightarrow> txns \<Rightarrow> txns" where
  "set_lock_ready t b T = T(t := (T t)\<lparr>tm_lock_ready := b\<rparr>)"

lemma set_lock_ready_simps [simp]:
  "tm_ts (set_lock_ready t b T x) = tm_ts (T x)" "tm_id (set_lock_ready t b T x) = tm_id (T x)"
  "tm_lock_ready (set_lock_ready t b T x) = (if x = t then b else tm_lock_ready (T x))"
  by (simp_all add: set_lock_ready_def)

definition ts_of :: "txns \<Rightarrow> tid \<Rightarrow> nat" where
  "ts_of T t = tm_ts (T t)"

lemma ts_of_set_lock_ready [simp]: "ts_of (set_lock_ready t b T) = ts_of T"
  by (simp add: ts_of_def fun_eq_iff)

lemma ts_of_upd [simp]: "ts_of (T(t := (T t)\<lparr>tm_ts_ready := b\<rparr>)) = ts_of T"
  "ts_of (T(t := (T t)\<lparr>tm_cur_row := d\<rparr>)) = ts_of T"
  "ts_of (T(t := (T t)\<lparr>tm_cur_row := d, tm_ts_ready := b\<rparr>)) = ts_of T"
  by (auto simp: ts_of_def fun_eq_iff)

text \<open>Transactions for examples: each has its address as id and timestamp.\<close>

definition ex_txns :: txns where
  "ex_txns t = \<lparr>tm_id = t, tm_ts = t, tm_lock_ready = False, tm_lock_abort = False,
     tm_ts_ready = False, tm_ready_part = 0, tm_cur_row = []\<rparr>"

section \<open>Waiting in an order\<close>

text \<open>
  A scheme that lets a transaction wait only for transactions of a higher rank: \<open>edges\<close> are
  the pairs of a waiting transaction and one it waits for.  No transaction waits for itself
  through others, and every chain of waiting ends at a transaction that runs.
\<close>

locale wait_order =
  fixes inv :: "'s \<Rightarrow> bool"
    and rank :: "'s \<Rightarrow> 'w \<Rightarrow> int"
    and waiting :: "'s \<Rightarrow> 'w set"
    and edges :: "'s \<Rightarrow> ('w \<times> 'w) set"
  assumes finite_waiting: "inv s \<Longrightarrow> finite (waiting s)"
    and waits_for_higher: "inv s \<Longrightarrow> (a, b) \<in> edges s \<Longrightarrow> rank s a < rank s b"
    and waits_for_one: "inv s \<Longrightarrow> a \<in> waiting s \<Longrightarrow> \<exists>b. (a, b) \<in> edges s"
begin

lemma chain_rises: "inv s \<Longrightarrow> (a, b) \<in> (edges s)\<^sup>+ \<Longrightarrow> rank s a < rank s b"
  by (erule trancl_induct) (auto dest: waits_for_higher)

lemma no_cycle: "inv s \<Longrightarrow> acyclic (edges s)"
  unfolding acyclic_def using chain_rises by fastforce

lemma chain_ends:
  assumes "inv s" "a \<in> waiting s"
  shows "\<exists>b. (a, b) \<in> (edges s)\<^sup>+ \<and> b \<notin> waiting s"
proof (rule ccontr)
  assume none: "\<not> ?thesis"
  let ?R = "{b. (a, b) \<in> (edges s)\<^sup>+}"
  have sub: "?R \<subseteq> waiting s" using none by blast
  then have fin: "finite ?R" using finite_waiting [OF assms(1)] by (rule finite_subset)
  have "?R \<noteq> {}" using waits_for_one [OF assms] by blast
  with fin have "Max (rank s ` ?R) \<in> rank s ` ?R" by (intro Max_in) simp_all
  then obtain m where m: "m \<in> ?R" "Max (rank s ` ?R) = rank s m" by (rule imageE)
  have top: "rank s x \<le> rank s m" if "x \<in> ?R" for x
    unfolding m(2) [symmetric] using fin that by (intro Max_ge) simp_all
  from m(1) sub obtain b where b: "(m, b) \<in> edges s" using waits_for_one [OF assms(1)] by blast
  with m(1) have "b \<in> ?R" by (auto intro: trancl_into_trancl)
  from top [OF this] waits_for_higher [OF assms(1) b] show False by simp
qed

end

end
