(* ===== verification/Row_Lock.thy ===== *)
theory Row_Lock
  imports Db_Base
begin

text \<open>
  The per-row lock of DBx1000 (\<open>src/DBx1000/code/concurrency_control/row_lock.cpp\<close>) for the
  three locking schemes: \<open>NO_WAIT\<close>, \<open>WAIT_DIE\<close> and \<open>DL_DETECT\<close>.  The owners are a stack and
  the waiters a doubly linked list, here lists (theory \<open>Db_List\<close>); an assertion that fails is
  \<open>None\<close>.  The latch makes every operation one step.
\<close>

section \<open>Operations\<close>

datatype cc_alg = NO_WAIT | WAIT_DIE | DL_DETECT

record LockEntry =
  le_type :: lock_t
  le_txn :: tid

record row_lock =
  lk_type :: lock_t
  owner_cnt :: nat
  waiter_cnt :: nat
  owners :: "LockEntry list"
  waiters :: "LockEntry list"

definition lock_init :: row_lock where
  "lock_init = \<lparr>lk_type = LOCK_NONE, owner_cnt = 0, waiter_cnt = 0, owners = [], waiters = []\<rparr>"

definition conflict_lock :: "lock_t \<Rightarrow> lock_t \<Rightarrow> bool" where
  "conflict_lock l1 l2 =
     (if l1 = LOCK_NONE \<or> l2 = LOCK_NONE then False
      else if l1 = LOCK_EX \<or> l2 = LOCK_EX then True else False)"

text \<open>Whether the request must wait or abort.\<close>

definition must_wait :: "cc_alg \<Rightarrow> txns \<Rightarrow> lock_t \<Rightarrow> tid \<Rightarrow> row_lock \<Rightarrow> bool" where
  "must_wait alg T type txn rl =
     (let conflict = conflict_lock (lk_type rl) type;
          conflict = (if alg = WAIT_DIE \<and> \<not> conflict
                      then waiters rl \<noteq> [] \<and> ts_of T txn < ts_of T (le_txn (hd (waiters rl)))
                      else conflict)
      in if alg = DL_DETECT \<and> waiters rl \<noteq> [] then True else conflict)"

definition enqueue_waiter :: "LockEntry list \<Rightarrow> tid \<Rightarrow> row_lock \<times> txns \<Rightarrow> row_lock \<times> txns" where
  "enqueue_waiter ws txn st =
     (let (rl, T) = st in
      (rl\<lparr>waiters := ws, waiter_cnt := waiter_cnt rl + 1\<rparr>, set_lock_ready txn False T))"

text \<open>The transactions a new waiter at the tail depends on.\<close>

definition wait_ids :: "txns \<Rightarrow> lock_t \<Rightarrow> row_lock \<Rightarrow> nat list" where
  "wait_ids T type rl =
     map (\<lambda>en. tm_id (T (le_txn en)))
       (filter (\<lambda>en. conflict_lock type (le_type en)) (rev (butlast (waiters rl))) @
        (if conflict_lock type (lk_type rl) then owners rl else []))"

definition push_owner :: "LockEntry \<Rightarrow> row_lock \<Rightarrow> row_lock" where
  "push_owner entry rl =
     rl\<lparr>owners := entry # owners rl, owner_cnt := owner_cnt rl + 1, lk_type := le_type entry\<rparr>"

definition lock_get ::
    "cc_alg \<Rightarrow> nat \<Rightarrow> lock_t \<Rightarrow> tid \<Rightarrow> row_lock \<times> txns \<Rightarrow> (RC \<times> nat list \<times> row_lock \<times> txns) option"
  where
  "lock_get alg g_thread_cnt type txn st =
     (let (rl, T) = st; entry = \<lparr>le_type = type, le_txn = txn\<rparr> in
      if \<not> (owner_cnt rl \<le> g_thread_cnt \<and> waiter_cnt rl < g_thread_cnt) then None
      else if must_wait alg T type txn rl then
        (case alg of
           NO_WAIT \<Rightarrow> Some (Abort, [], rl, T)
         | DL_DETECT \<Rightarrow>
             (let (rl', T') = enqueue_waiter (waiters rl @ [entry]) txn (rl, T);
                  txnids = wait_ids T' type rl'
              in if txnids = [] then None else Some (WAIT, txnids, rl', T'))
         | WAIT_DIE \<Rightarrow>
             (let canwait = (\<forall>en \<in> set (owners rl). \<not> ts_of T (le_txn en) < ts_of T txn) in
              if canwait
              then (let (rl', T') = enqueue_waiter
                          (insert_where (\<lambda>en. ts_of T txn < ts_of T (le_txn en)) entry (waiters rl))
                          txn (rl, T)
                    in Some (WAIT, [], rl', T'))
              else Some (Abort, [], rl, T)))
      else if alg = DL_DETECT \<and> waiters rl \<noteq> [] then None
      else Some (RCOK, [], push_owner entry rl, T))"

text \<open>Removing the entry of \<open>txn\<close>: from the owners when it is there, else from the waiters.\<close>

definition remove_entry :: "tid \<Rightarrow> row_lock \<Rightarrow> row_lock option" where
  "remove_entry txn rl =
     (case unlink (\<lambda>en. le_txn en = txn) (owners rl) of
        Some (_, os) \<Rightarrow>
          Some (rl\<lparr>owners := os, owner_cnt := owner_cnt rl - 1,
                   lk_type := if owner_cnt rl - 1 = 0 then LOCK_NONE else lk_type rl\<rparr>)
      | None \<Rightarrow>
          (case unlink (\<lambda>en. le_txn en = txn) (waiters rl) of
             None \<Rightarrow> None
           | Some (_, ws) \<Rightarrow> Some (rl\<lparr>waiters := ws, waiter_cnt := waiter_cnt rl - 1\<rparr>)))"

fun grant_waiters :: "LockEntry list \<Rightarrow> row_lock \<times> txns \<Rightarrow> (row_lock \<times> txns) option" where
  "grant_waiters [] (rl, T) = Some (rl\<lparr>waiters := []\<rparr>, T)"
| "grant_waiters (entry # ws) (rl, T) =
     (if conflict_lock (lk_type rl) (le_type entry) then Some (rl\<lparr>waiters := entry # ws\<rparr>, T)
      else if tm_lock_ready (T (le_txn entry)) then None
      else grant_waiters ws
             ((push_owner entry rl)\<lparr>waiter_cnt := waiter_cnt rl - 1\<rparr>, set_lock_ready (le_txn entry) True T))"

definition lock_release :: "tid \<Rightarrow> row_lock \<times> txns \<Rightarrow> (RC \<times> row_lock \<times> txns) option" where
  "lock_release txn st =
     (let (rl, T) = st in
      case remove_entry txn rl of
        None \<Rightarrow> None
      | Some rl1 \<Rightarrow>
          (if owner_cnt rl1 = 0 \<and> lk_type rl1 \<noteq> LOCK_NONE then None
           else (case grant_waiters (waiters rl1) (rl1, T) of
                   None \<Rightarrow> None
                 | Some (rl2, T2) \<Rightarrow>
                     (if (owners rl2 = []) = (owner_cnt rl2 = 0) then Some (RCOK, rl2, T2) else None))))"

section \<open>The invariant\<close>

definition holding :: "row_lock \<Rightarrow> tid set" where
  "holding rl = le_txn ` set (owners rl)"

definition waiting_at :: "row_lock \<Rightarrow> tid set" where
  "waiting_at rl = le_txn ` set (waiters rl)"

text \<open>The owners share the type of the lock, and an exclusive owner is alone.\<close>

definition owners_ok :: "row_lock \<Rightarrow> bool" where
  "owners_ok rl \<longleftrightarrow>
     owner_cnt rl = length (owners rl) \<and> (owners rl = [] \<longleftrightarrow> lk_type rl = LOCK_NONE) \<and>
     (\<forall>e \<in> set (owners rl). le_type e = lk_type rl) \<and>
     (lk_type rl = LOCK_EX \<longrightarrow> length (owners rl) = 1)"

definition waiters_ok :: "txns \<Rightarrow> row_lock \<Rightarrow> bool" where
  "waiters_ok T rl \<longleftrightarrow>
     waiter_cnt rl = length (waiters rl) \<and>
     (\<forall>e \<in> set (waiters rl). le_type e \<noteq> LOCK_NONE \<and> \<not> tm_lock_ready (T (le_txn e)))"

text \<open>Under \<open>WAIT_DIE\<close> the waiters descend in their timestamps and none is younger than an owner.\<close>

definition scheme_ok :: "cc_alg \<Rightarrow> txns \<Rightarrow> row_lock \<Rightarrow> bool" where
  "scheme_ok alg T rl \<longleftrightarrow>
     (alg = NO_WAIT \<longrightarrow> waiters rl = []) \<and>
     (alg = WAIT_DIE \<longrightarrow>
        sorted_wrt (\<lambda>a b. ts_of T (le_txn b) \<le> ts_of T (le_txn a)) (waiters rl) \<and>
        (\<forall>w \<in> set (waiters rl). \<forall>e \<in> set (owners rl). ts_of T (le_txn w) \<le> ts_of T (le_txn e)))"

definition lock_pre :: "cc_alg \<Rightarrow> txns \<Rightarrow> row_lock \<Rightarrow> bool" where
  "lock_pre alg T rl \<longleftrightarrow>
     owners_ok rl \<and> waiters_ok T rl \<and> scheme_ok alg T rl \<and>
     distinct (map le_txn (owners rl @ waiters rl))"

text \<open>The first waiter cannot join the owners: no grant is forgotten.\<close>

definition head_blocked :: "row_lock \<Rightarrow> bool" where
  "head_blocked rl \<longleftrightarrow> waiters rl \<noteq> [] \<longrightarrow> conflict_lock (lk_type rl) (le_type (hd (waiters rl)))"

definition lock_ok :: "cc_alg \<Rightarrow> txns \<Rightarrow> row_lock \<Rightarrow> bool" where
  "lock_ok alg T rl \<longleftrightarrow> lock_pre alg T rl \<and> head_blocked rl"

lemmas lock_inv_defs = lock_ok_def lock_pre_def owners_ok_def waiters_ok_def scheme_ok_def head_blocked_def

lemma conflict_lock_iff [simp]:
  "conflict_lock a b \<longleftrightarrow> a \<noteq> LOCK_NONE \<and> b \<noteq> LOCK_NONE \<and> (a = LOCK_EX \<or> b = LOCK_EX)"
  by (auto simp: conflict_lock_def)

lemma lock_ok_init [simp]: "lock_ok alg T lock_init"
  by (simp add: lock_inv_defs lock_init_def)

text \<open>Only the ready flags of the row's own waiters matter to it.\<close>

lemma lock_ok_frame:
  "lock_ok alg T rl \<Longrightarrow> \<forall>t. tm_ts (T' t) = tm_ts (T t) \<Longrightarrow>
   \<forall>t \<in> waiting_at rl. tm_lock_ready (T' t) = tm_lock_ready (T t) \<Longrightarrow> lock_ok alg T' rl"
  by (auto simp: lock_inv_defs waiting_at_def ts_of_def)

subsection \<open>Adding an owner\<close>

lemma push_owner_ok:
  assumes pre: "lock_pre alg T rl" and type: "le_type e \<noteq> LOCK_NONE" "\<not> conflict_lock (lk_type rl) (le_type e)"
    and new: "le_txn e \<notin> holding rl \<union> waiting_at rl"
    and old: "alg = WAIT_DIE \<longrightarrow> (\<forall>w \<in> set (waiters rl). ts_of T (le_txn w) \<le> ts_of T (le_txn e))"
  shows "lock_pre alg T (push_owner e rl)"
proof -
  from pre type have "owners_ok (push_owner e rl)"
    by (cases "lk_type rl"; cases "le_type e") (auto simp: lock_pre_def owners_ok_def push_owner_def)
  with pre new old show ?thesis
    by (auto simp: lock_pre_def waiters_ok_def scheme_ok_def push_owner_def holding_def waiting_at_def)
qed

lemma push_owner_sets [simp]:
  "holding (push_owner e rl) = insert (le_txn e) (holding rl)" "waiting_at (push_owner e rl) = waiting_at rl"
  by (auto simp: push_owner_def holding_def waiting_at_def)

subsection \<open>Granting waiters\<close>

lemma grant_waiters_ok:
  assumes "lock_pre alg T (rl\<lparr>waiters := ws\<rparr>)"
  shows "\<exists>rl' T'. grant_waiters ws (rl, T) = Some (rl', T') \<and> lock_ok alg T' rl' \<and>
     holding rl' \<union> waiting_at rl' = holding rl \<union> le_txn ` set ws \<and>
     waiting_at rl' \<subseteq> le_txn ` set ws \<and> holding rl \<subseteq> holding rl' \<and> (\<forall>t. tm_ts (T' t) = tm_ts (T t)) \<and>
     (\<forall>t. t \<notin> le_txn ` set ws \<longrightarrow> T' t = T t)"
  using assms
proof (induction ws arbitrary: rl T)
  case Nil
  then show ?case by (auto simp: lock_ok_def head_blocked_def holding_def waiting_at_def)
next
  case (Cons e ws)
  show ?case
  proof (cases "conflict_lock (lk_type rl) (le_type e)")
    case True
    with Cons.prems show ?thesis
      by (auto simp: lock_ok_def head_blocked_def holding_def waiting_at_def simp del: conflict_lock_iff)
  next
    case False
    let ?rl = "(push_owner e rl)\<lparr>waiter_cnt := waiter_cnt rl - 1\<rparr>" and ?T = "set_lock_ready (le_txn e) True T"
    note pre' = Cons.prems [unfolded lock_pre_def]
    have e: "le_type e \<noteq> LOCK_NONE" "\<not> tm_lock_ready (T (le_txn e))" "waiter_cnt rl = Suc (length ws)"
      and ws: "\<forall>w \<in> set ws. le_type w \<noteq> LOCK_NONE \<and> \<not> tm_lock_ready (T (le_txn w))"
      using pre' by (simp_all add: waiters_ok_def)
    have d: "le_txn e \<notin> le_txn ` set ws" "le_txn e \<notin> holding rl" "distinct (map le_txn (owners rl @ ws))"
      using pre' by (auto simp: holding_def)
    have old: "alg = WAIT_DIE \<longrightarrow> (\<forall>w \<in> set ws. ts_of T (le_txn w) \<le> ts_of T (le_txn e))"
      and scheme: "scheme_ok alg T (rl\<lparr>waiters := ws, waiter_cnt := waiter_cnt rl - 1\<rparr>)"
      using pre' by (simp_all add: scheme_ok_def)
    have pre: "lock_pre alg T (rl\<lparr>waiters := ws, waiter_cnt := waiter_cnt rl - 1\<rparr>)"
      using pre' e(3) ws d(3) scheme by (simp add: lock_pre_def owners_ok_def waiters_ok_def)
    have "lock_pre alg T (push_owner e (rl\<lparr>waiters := ws, waiter_cnt := waiter_cnt rl - 1\<rparr>))"
      by (rule push_owner_ok [OF pre]) (use e d old False in \<open>simp_all add: holding_def waiting_at_def\<close>)
    with d(1) have "lock_pre alg ?T (?rl\<lparr>waiters := ws\<rparr>)"
      by (simp add: lock_pre_def owners_ok_def waiters_ok_def scheme_ok_def push_owner_def image_iff) metis
    from Cons.IH [OF this] obtain rl' T' where IH: "grant_waiters ws (?rl, ?T) = Some (rl', T')"
      "lock_ok alg T' rl'" "holding rl' \<union> waiting_at rl' = holding ?rl \<union> le_txn ` set ws"
      "waiting_at rl' \<subseteq> le_txn ` set ws" "holding ?rl \<subseteq> holding rl'" "\<forall>t. tm_ts (T' t) = tm_ts (?T t)"
      "\<forall>t. t \<notin> le_txn ` set ws \<longrightarrow> T' t = ?T t" by blast
    have "holding ?rl = insert (le_txn e) (holding rl)"
      by (auto simp: push_owner_def holding_def)
    moreover have "\<forall>t. t \<notin> le_txn ` set (e # ws) \<longrightarrow> T' t = T t"
      using IH(7) by (auto simp: set_lock_ready_def)
    ultimately show ?thesis using IH e(2) False
      by (intro exI [of _ rl'] exI [of _ T']) (auto simp del: conflict_lock_iff)
  qed
qed

subsection \<open>Removing an entry\<close>

lemma unlink_txn:
  assumes "unlink (\<lambda>en. le_txn en = t) es = Some (e, es')" "distinct (map le_txn es)"
  shows "le_txn ` set es' = le_txn ` set es - {t}" "distinct (map le_txn es')" "set es' \<subseteq> set es"
    "length es = Suc (length es')"
  using unlink_split [OF assms(1)] assms(2) by (auto simp: rev_image_eqI)

lemma unlink_owner_ok:
  assumes pre: "lock_pre alg T rl" and u: "unlink (\<lambda>en. le_txn en = txn) (owners rl) = Some (e, os)"
  shows "lock_pre alg T (rl\<lparr>owners := os, owner_cnt := owner_cnt rl - 1,
           lk_type := if owner_cnt rl - 1 = 0 then LOCK_NONE else lk_type rl\<rparr>)"
proof -
  have d: "distinct (map le_txn (owners rl))" using pre by (simp add: lock_pre_def)
  note os = unlink_txn [OF u d]
  have cnt: "owner_cnt rl = Suc (length os)" using pre os(4) by (simp add: lock_pre_def owners_ok_def)
  have "owners_ok (rl\<lparr>owners := os, owner_cnt := owner_cnt rl - 1,
           lk_type := if owner_cnt rl - 1 = 0 then LOCK_NONE else lk_type rl\<rparr>)"
    using pre os cnt by (auto simp: lock_pre_def owners_ok_def subset_iff)
  moreover have "distinct (map le_txn (os @ waiters rl))" using pre os by (auto simp: lock_pre_def)
  ultimately show ?thesis
    using pre os(3) by (auto simp: lock_pre_def waiters_ok_def scheme_ok_def)
qed

lemma unlink_waiter_ok:
  assumes pre: "lock_pre alg T rl" and u: "unlink (\<lambda>en. le_txn en = txn) (waiters rl) = Some (e, ws)"
  shows "lock_pre alg T (rl\<lparr>waiters := ws, waiter_cnt := waiter_cnt rl - 1\<rparr>)"
proof -
  have d: "distinct (map le_txn (waiters rl))" using pre by (simp add: lock_pre_def)
  note ws = unlink_txn [OF u d]
  have "distinct (map le_txn (owners rl @ ws))" using pre ws by (auto simp: lock_pre_def)
  moreover have "scheme_ok alg T (rl\<lparr>waiters := ws, waiter_cnt := waiter_cnt rl - 1\<rparr>)"
    using pre ws(3) unlink_sorted_wrt [OF u] unlink_length [OF u]
    by (auto simp: lock_pre_def scheme_ok_def)
  ultimately show ?thesis
    using pre ws(3,4) by (auto simp: lock_pre_def waiters_ok_def owners_ok_def)
qed

lemma remove_entry_ok:
  assumes pre: "lock_pre alg T rl" and txn: "txn \<in> holding rl \<union> waiting_at rl"
  shows "\<exists>rl'. remove_entry txn rl = Some rl' \<and> lock_pre alg T rl' \<and>
     holding rl' = holding rl - {txn} \<and> waiting_at rl' = waiting_at rl - {txn}"
proof -
  have d: "distinct (map le_txn (owners rl))" "distinct (map le_txn (waiters rl))"
    "holding rl \<inter> waiting_at rl = {}"
    using pre by (auto simp: lock_pre_def holding_def waiting_at_def)
  show ?thesis
  proof (cases "unlink (\<lambda>en. le_txn en = txn) (owners rl)")
    case None
    then have out: "txn \<notin> holding rl" by (auto simp: holding_def)
    with txn have "txn \<in> waiting_at rl" by blast
    then obtain e ws where u: "unlink (\<lambda>en. le_txn en = txn) (waiters rl) = Some (e, ws)"
      by (cases "unlink (\<lambda>en. le_txn en = txn) (waiters rl)") (auto simp: waiting_at_def)
    have eq: "remove_entry txn rl = Some (rl\<lparr>waiters := ws, waiter_cnt := waiter_cnt rl - 1\<rparr>)"
      unfolding remove_entry_def None u by simp
    show ?thesis
      by (rule exI, rule conjI, rule eq)
         (use out unlink_waiter_ok [OF pre u] unlink_txn [OF u d(2)]
          in \<open>simp add: holding_def waiting_at_def\<close>)
  next
    case (Some p)
    then obtain e os where u: "unlink (\<lambda>en. le_txn en = txn) (owners rl) = Some (e, os)"
      by (cases p) auto
    then have "txn \<in> holding rl" using unlink_Some(1,2) [OF u] by (auto simp: holding_def)
    with d(3) have "txn \<notin> waiting_at rl" by blast
    then have out: "waiting_at rl - {txn} = waiting_at rl" by blast
    have eq: "remove_entry txn rl = Some (rl\<lparr>owners := os, owner_cnt := owner_cnt rl - 1,
        lk_type := if owner_cnt rl - 1 = 0 then LOCK_NONE else lk_type rl\<rparr>)"
      unfolding remove_entry_def u by simp
    show ?thesis unfolding out
      by (rule exI, rule conjI, rule eq)
         (use unlink_owner_ok [OF pre u] unlink_txn [OF u d(1)]
          in \<open>simp add: holding_def waiting_at_def\<close>)
  qed
qed

lemma lock_release_ok:
  assumes ok: "lock_ok alg T rl" and txn: "txn \<in> holding rl \<union> waiting_at rl"
  shows "\<exists>rl' T'. lock_release txn (rl, T) = Some (RCOK, rl', T') \<and> lock_ok alg T' rl' \<and>
     holding rl' \<union> waiting_at rl' = holding rl \<union> waiting_at rl - {txn} \<and>
     waiting_at rl' \<subseteq> waiting_at rl \<and> holding rl - {txn} \<subseteq> holding rl' \<and>
     (\<forall>t. tm_ts (T' t) = tm_ts (T t)) \<and> (\<forall>t. t \<notin> waiting_at rl - {txn} \<longrightarrow> T' t = T t)"
proof -
  from ok have "lock_pre alg T rl" by (simp add: lock_ok_def)
  from remove_entry_ok [OF this txn] obtain rl1 where rl1: "remove_entry txn rl = Some rl1"
    "lock_pre alg T rl1" "holding rl1 = holding rl - {txn}" "waiting_at rl1 = waiting_at rl - {txn}"
    by blast
  have self: "rl1\<lparr>waiters := waiters rl1\<rparr> = rl1" by simp
  from grant_waiters_ok [where alg = alg and T = T and rl = rl1 and ws = "waiters rl1"] rl1(2) obtain rl2 T2 where
    g: "grant_waiters (waiters rl1) (rl1, T) = Some (rl2, T2)" "lock_ok alg T2 rl2"
    "holding rl2 \<union> waiting_at rl2 = holding rl1 \<union> waiting_at rl1"
    "waiting_at rl2 \<subseteq> waiting_at rl1" "holding rl1 \<subseteq> holding rl2" "\<forall>t. tm_ts (T2 t) = tm_ts (T t)"
    "\<forall>t. t \<notin> waiting_at rl1 \<longrightarrow> T2 t = T t"
    unfolding self waiting_at_def by blast
  have "owner_cnt rl1 = 0 \<longrightarrow> lk_type rl1 = LOCK_NONE" "(owners rl2 = []) = (owner_cnt rl2 = 0)"
    using rl1(2) g(2) by (auto simp: lock_ok_def lock_pre_def owners_ok_def)
  with rl1(1) g(1) have "lock_release txn (rl, T) = Some (RCOK, rl2, T2)"
    by (auto simp: lock_release_def)
  with g rl1(3,4) show ?thesis by blast
qed

subsection \<open>Requests\<close>

lemma enqueue_ok:
  assumes ok: "lock_ok alg T rl" and type: "type \<noteq> LOCK_NONE" and new: "txn \<notin> holding rl \<union> waiting_at rl"
    and alg: "alg \<noteq> NO_WAIT" and ws: "set ws = insert \<lparr>le_type = type, le_txn = txn\<rparr> (set (waiters rl))"
      "distinct (map le_txn ws)" "length ws = Suc (length (waiters rl))"
    and scheme: "alg = WAIT_DIE \<longrightarrow>
        sorted_wrt (\<lambda>a b. ts_of T (le_txn b) \<le> ts_of T (le_txn a)) ws \<and>
        (\<forall>e \<in> set (owners rl). ts_of T txn \<le> ts_of T (le_txn e))"
    and head: "conflict_lock (lk_type rl) (le_type (hd ws))"
    and enq: "enqueue_waiter ws txn (rl, T) = (rl', T')"
  shows "lock_ok alg T' rl' \<and> holding rl' = holding rl \<and> waiting_at rl' = insert txn (waiting_at rl)"
proof -
  have rl': "rl' = rl\<lparr>waiters := ws, waiter_cnt := waiter_cnt rl + 1\<rparr>" "T' = set_lock_ready txn False T"
    using enq by (simp_all add: enqueue_waiter_def)
  have sets: "holding rl' = holding rl" "waiting_at rl' = insert txn (waiting_at rl)"
    using ws(1) by (auto simp: rl' holding_def waiting_at_def)
  from ok have pre: "owners_ok rl" "waiters_ok T rl" "scheme_ok alg T rl" "distinct (map le_txn (owners rl))"
    by (simp_all add: lock_ok_def lock_pre_def)
  have "distinct (map le_txn (owners rl @ waiters rl))" using ok by (simp add: lock_ok_def lock_pre_def)
  with pre(4) ws(1,2) new have "distinct (map le_txn (owners rl @ ws))"
    by (auto simp: holding_def waiting_at_def)
  moreover have "owners_ok rl'" using pre(1) by (simp add: rl' owners_ok_def)
  moreover have "waiters_ok T' rl'" using pre(2) ws(1,3) type new
    by (auto simp: rl' waiters_ok_def waiting_at_def)
  moreover have "scheme_ok alg T' rl'" using pre(3) scheme alg ws(1) by (auto simp: rl' scheme_ok_def)
  moreover have "head_blocked rl'" using head by (simp add: rl' head_blocked_def)
  ultimately show ?thesis using sets by (simp add: lock_ok_def lock_pre_def rl')
qed

lemma lock_get_counts:
  "lock_get alg n type txn (rl, T) = Some x \<Longrightarrow> owner_cnt rl \<le> n \<and> waiter_cnt rl < n"
  by (rule ccontr) (auto simp: lock_get_def Let_def)

lemma sorted_insert_where:
  assumes "sorted_wrt (\<lambda>a b. f b \<le> (f a :: nat)) xs"
  shows "sorted_wrt (\<lambda>a b. f b \<le> f a) (insert_where (\<lambda>a. f e < f a) e xs)"
  using assms by (induction xs) (auto intro: order_trans dest: less_imp_le)

lemma hd_insert_where:
  "hd (insert_where P e xs) = (if xs \<noteq> [] \<and> P (hd xs) then hd xs else e)"
  by (cases xs) auto

text \<open>A waiter under \<open>DL_DETECT\<close> waits for somebody.\<close>

lemma wait_ids_nonempty:
  assumes own: "owners_ok rl" and head: "head_blocked rl" and type: "type \<noteq> LOCK_NONE"
    and wait: "waiters rl = [] \<longrightarrow> conflict_lock (lk_type rl) type"
    and rl': "owners rl' = owners rl" "lk_type rl' = lk_type rl" "waiters rl' = waiters rl @ [e]"
  shows "wait_ids T type rl' \<noteq> []"
proof (cases "conflict_lock type (lk_type rl)")
  case True
  then have "owners rl \<noteq> []" using own by (auto simp: owners_ok_def)
  with True show ?thesis by (simp add: wait_ids_def rl')
next
  case False
  with wait have ws: "waiters rl \<noteq> []" by auto
  with head False type have "conflict_lock type (le_type (hd (waiters rl)))"
    by (auto simp: head_blocked_def)
  with ws have "filter (\<lambda>en. conflict_lock type (le_type en)) (rev (waiters rl)) \<noteq> []"
    unfolding filter_empty_conv by (metis list.set_sel(1) set_rev)
  then show ?thesis by (simp add: wait_ids_def rl')
qed

text \<open>A request that does not fail an assertion keeps the invariant; \<open>RCOK\<close> makes an owner, \<open>WAIT\<close> a
  waiter, and an abort changes nothing.\<close>

lemma lock_get_ok:
  assumes ok: "lock_ok alg T rl" and type: "type \<noteq> LOCK_NONE" and new: "txn \<notin> holding rl \<union> waiting_at rl"
    and cnt: "owner_cnt rl \<le> n" "waiter_cnt rl < n"
  shows "\<exists>rc ids rl' T'. lock_get alg n type txn (rl, T) = Some (rc, ids, rl', T') \<and> lock_ok alg T' rl' \<and>
     (rc = RCOK \<and> holding rl' = insert txn (holding rl) \<and> waiting_at rl' = waiting_at rl \<and> T' = T \<or>
      rc = WAIT \<and> holding rl' = holding rl \<and> waiting_at rl' = insert txn (waiting_at rl) \<and>
        T' = set_lock_ready txn False T \<and> (alg = DL_DETECT \<longrightarrow> ids \<noteq> []) \<or>
      rc = Abort \<and> rl' = rl \<and> T' = T)"
proof -
  let ?e = "\<lparr>le_type = type, le_txn = txn\<rparr>"
  have pre: "lock_pre alg T rl" and head: "head_blocked rl" using ok by (simp_all add: lock_ok_def)
  have blocked: "conflict_lock (lk_type rl) (le_type (hd (waiters rl)))" if "waiters rl \<noteq> []"
    using head that by (simp add: head_blocked_def)
  have d: "distinct (map le_txn (waiters rl))" using pre by (simp add: lock_pre_def)
  show ?thesis
  proof (cases "must_wait alg T type txn rl")
    case False
    then have c: "\<not> conflict_lock (lk_type rl) type" by (auto simp: must_wait_def Let_def split: if_splits)
    have old: "alg = WAIT_DIE \<longrightarrow> (\<forall>w \<in> set (waiters rl). ts_of T (le_txn w) \<le> ts_of T txn)"
    proof (intro impI)
      assume "alg = WAIT_DIE"
      with False c have "waiters rl \<noteq> [] \<longrightarrow> ts_of T (le_txn (hd (waiters rl))) \<le> ts_of T txn"
        by (auto simp: must_wait_def Let_def)
      with pre \<open>alg = WAIT_DIE\<close> show "\<forall>w \<in> set (waiters rl). ts_of T (le_txn w) \<le> ts_of T txn"
        by (cases "waiters rl") (auto simp: lock_pre_def scheme_ok_def intro: order_trans)
    qed
    have "lock_pre alg T (push_owner ?e rl)"
      by (rule push_owner_ok [OF pre]) (use type c new old in simp_all)
    moreover have "head_blocked (push_owner ?e rl)"
      using c blocked type by (cases "lk_type rl"; cases type) (auto simp: head_blocked_def push_owner_def)
    moreover have "\<not> (alg = DL_DETECT \<and> waiters rl \<noteq> [])"
      using False by (simp add: must_wait_def Let_def split: if_splits)
    ultimately show ?thesis
      using False cnt by (intro exI [of _ RCOK] exI [of _ "[]"] exI [of _ "push_owner ?e rl"] exI [of _ T])
        (auto simp: lock_get_def lock_ok_def)
  next
    case wait: True
    show ?thesis
    proof (cases alg)
      case NO_WAIT
      with wait cnt ok show ?thesis by (auto simp: lock_get_def)
    next
      case WAIT_DIE
      let ?ws = "insert_where (\<lambda>en. ts_of T (le_txn ?e) < ts_of T (le_txn en)) ?e (waiters rl)"
      show ?thesis
      proof (cases "\<forall>en \<in> set (owners rl). \<not> ts_of T (le_txn en) < ts_of T txn")
        case True
        obtain rl' T' where enq: "enqueue_waiter ?ws txn (rl, T) = (rl', T')" by force
        have "conflict_lock (lk_type rl) (le_type (hd ?ws))"
          using wait WAIT_DIE blocked unfolding hd_insert_where
          by (auto simp: must_wait_def Let_def split: if_splits)
        moreover have "distinct (map le_txn ?ws)"
          using d new by (simp add: distinct_insert_where waiting_at_def)
        ultimately have "lock_ok alg T' rl' \<and> holding rl' = holding rl \<and> waiting_at rl' = insert txn (waiting_at rl)"
          by (intro enqueue_ok [OF ok type new _ _ _ _ _ _ enq])
             (use WAIT_DIE pre True in
               \<open>simp_all add: lock_pre_def scheme_ok_def not_less
                  sorted_insert_where [of "\<lambda>en. ts_of T (le_txn en)" _ ?e, simplified]\<close>)
        moreover have "lock_get alg n type txn (rl, T) = Some (WAIT, [], rl', T')"
          using wait WAIT_DIE True cnt enq by (simp add: lock_get_def Let_def)
        ultimately show ?thesis using enq WAIT_DIE by (auto simp: enqueue_waiter_def)
      next
        case False
        then have "lock_get alg n type txn (rl, T) = Some (Abort, [], rl, T)"
          using wait WAIT_DIE cnt by (simp add: lock_get_def Let_def)
        with ok show ?thesis by blast
      qed
    next
      case DL_DETECT
      let ?ws = "waiters rl @ [?e]"
      obtain rl' T' where enq: "enqueue_waiter ?ws txn (rl, T) = (rl', T')" by force
      have "conflict_lock (lk_type rl) (le_type (hd ?ws))"
        using wait DL_DETECT blocked by (cases "waiters rl") (auto simp: must_wait_def Let_def)
      then have ok': "lock_ok alg T' rl' \<and> holding rl' = holding rl \<and> waiting_at rl' = insert txn (waiting_at rl)"
        by (intro enqueue_ok [OF ok type new _ _ _ _ _ _ enq])
           (use DL_DETECT d new in \<open>auto simp: waiting_at_def\<close>)
      have ids: "wait_ids T' type rl' \<noteq> []"
      proof (rule wait_ids_nonempty [where rl = rl and e = ?e])
        show "owners_ok rl" "head_blocked rl" using pre head by (simp_all add: lock_pre_def)
        show "waiters rl = [] \<longrightarrow> conflict_lock (lk_type rl) type"
          using wait DL_DETECT by (auto simp: must_wait_def Let_def)
      qed (use type enq in \<open>auto simp: enqueue_waiter_def\<close>)
      have "lock_get alg n type txn (rl, T) = Some (WAIT, wait_ids T' type rl', rl', T')"
        using wait DL_DETECT cnt enq ids by (simp add: lock_get_def Let_def)
      with ok' ids show ?thesis using enq by (auto simp: enqueue_waiter_def)
    qed
  qed
qed

subsection \<open>The entries of a row\<close>

lemma grant_waiters_entries:
  "grant_waiters ws (rl, T) = Some (rl', T') \<Longrightarrow>
   set (owners rl') \<union> set (waiters rl') = set (owners rl) \<union> set ws \<and> set (owners rl) \<subseteq> set (owners rl')"
proof (induction ws arbitrary: rl T)
  case (Cons e ws)
  show ?case
  proof (cases "conflict_lock (lk_type rl) (le_type e)")
    case False
    with Cons.prems have "grant_waiters ws
        ((push_owner e rl)\<lparr>waiter_cnt := waiter_cnt rl - 1\<rparr>, set_lock_ready (le_txn e) True T) = Some (rl', T')"
      by (simp del: conflict_lock_iff split: if_splits)
    from Cons.IH [OF this] show ?thesis by (auto simp: push_owner_def)
  qed (use Cons.prems in \<open>auto simp del: conflict_lock_iff\<close>)
qed auto

lemma remove_entry_entries:
  assumes "remove_entry txn rl = Some rl'" "distinct (map le_txn (owners rl @ waiters rl))"
  shows "set (owners rl') = {e \<in> set (owners rl). le_txn e \<noteq> txn}"
    "set (waiters rl') = {e \<in> set (waiters rl). le_txn e \<noteq> txn}"
proof -
  have rest: "set es' = {e \<in> set es. le_txn e \<noteq> txn}"
    if "unlink (\<lambda>en. le_txn en = txn) es = Some (e, es')" "distinct (map le_txn es)" for es e es'
    using unlink_split [OF that(1)] that(2) by (auto simp: rev_image_eqI)
  show "set (owners rl') = {e \<in> set (owners rl). le_txn e \<noteq> txn}"
    "set (waiters rl') = {e \<in> set (waiters rl). le_txn e \<noteq> txn}"
  proof (atomize (full), cases "unlink (\<lambda>en. le_txn en = txn) (owners rl)")
    case None
    with assms(1) obtain e ws where u: "unlink (\<lambda>en. le_txn en = txn) (waiters rl) = Some (e, ws)"
      "rl' = rl\<lparr>waiters := ws, waiter_cnt := waiter_cnt rl - 1\<rparr>"
      unfolding remove_entry_def by (auto split: option.splits)
    from None have "\<forall>e \<in> set (owners rl). le_txn e \<noteq> txn" by simp
    with rest [OF u(1)] assms(2) u(2)
    show "set (owners rl') = {e \<in> set (owners rl). le_txn e \<noteq> txn} \<and>
        set (waiters rl') = {e \<in> set (waiters rl). le_txn e \<noteq> txn}" by auto
  next
    case (Some p)
    then obtain e os where u: "unlink (\<lambda>en. le_txn en = txn) (owners rl) = Some (e, os)" by (cases p) auto
    with assms(1) have rl': "owners rl' = os" "waiters rl' = waiters rl" by (auto simp: remove_entry_def)
    have "e \<in> set (owners rl)" "le_txn e = txn" using unlink_Some(1,2) [OF u] by auto
    with assms(2) have "\<forall>w \<in> set (waiters rl). le_txn w \<noteq> txn" by auto
    with rest [OF u] assms(2) rl'
    show "set (owners rl') = {e \<in> set (owners rl). le_txn e \<noteq> txn} \<and>
        set (waiters rl') = {e \<in> set (waiters rl). le_txn e \<noteq> txn}" by auto
  qed
qed

lemma lock_release_entries:
  assumes "lock_release txn (rl, T) = Some (rc, rl', T')" "distinct (map le_txn (owners rl @ waiters rl))"
  shows "set (owners rl') \<union> set (waiters rl') = {e \<in> set (owners rl) \<union> set (waiters rl). le_txn e \<noteq> txn}"
    "{e \<in> set (owners rl). le_txn e \<noteq> txn} \<subseteq> set (owners rl')"
proof -
  from assms(1) obtain rl1 where r: "remove_entry txn rl = Some rl1"
    "grant_waiters (waiters rl1) (rl1, T) = Some (rl', T')"
    unfolding lock_release_def by (auto split: option.splits if_splits)
  note e = remove_entry_entries [OF r(1) assms(2)]
  from grant_waiters_entries [OF r(2)]
  show "set (owners rl') \<union> set (waiters rl') = {e \<in> set (owners rl) \<union> set (waiters rl). le_txn e \<noteq> txn}"
    "{e \<in> set (owners rl). le_txn e \<noteq> txn} \<subseteq> set (owners rl')"
    using e by auto
qed

lemma lock_get_entries:
  assumes "lock_get alg n type txn (rl, T) = Some (rc, ids, rl', T')"
  shows "rc = RCOK \<and> set (owners rl') = insert \<lparr>le_type = type, le_txn = txn\<rparr> (set (owners rl)) \<and>
       waiters rl' = waiters rl \<and> T' = T \<or>
     rc = WAIT \<and> owners rl' = owners rl \<and>
       set (waiters rl') = insert \<lparr>le_type = type, le_txn = txn\<rparr> (set (waiters rl)) \<and> T' = set_lock_ready txn False T \<or>
     rc = Abort \<and> rl' = rl \<and> T' = T"
proof -
  have enq: "owners rl2 = owners rl \<and> waiters rl2 = ws \<and> T2 = set_lock_ready txn False T"
    if "enqueue_waiter ws txn (rl, T) = (rl2, T2)" for ws rl2 T2
    using that by (auto simp: enqueue_waiter_def)
  show ?thesis
  proof (cases "must_wait alg T type txn rl")
    case True
    with assms show ?thesis
      unfolding lock_get_def
      by (cases alg) (auto simp: Let_def split: if_splits prod.splits dest!: enq)
  next
    case False
    with assms show ?thesis by (auto simp: lock_get_def push_owner_def Let_def split: if_splits)
  qed
qed

section \<open>A property\<close>

text \<open>When a request waits under \<open>DL_DETECT\<close>, the ids handed to the deadlock detector are those of the
  owners and earlier waiters whose locks conflict with it, and there is one.\<close>

theorem dl_wait_ids_exact:
  assumes "lock_ok DL_DETECT T rl" and "type \<noteq> LOCK_NONE" and "txn \<notin> holding rl \<union> waiting_at rl"
    and "lock_get DL_DETECT n type txn (rl, T) = Some (WAIT, ids, rl', T')"
  shows "ids \<noteq> [] \<and>
     set ids = {tm_id (T (le_txn e)) | e. e \<in> set (owners rl) \<union> set (waiters rl) \<and> conflict_lock type (le_type e)}"
proof -
  let ?e = "\<lparr>le_type = type, le_txn = txn\<rparr>"
  from assms(4) have wait: "must_wait DL_DETECT T type txn rl"
    by (rule contrapos_pp) (simp add: lock_get_def Let_def)
  with assms(4) have rl': "rl' = rl\<lparr>waiters := waiters rl @ [?e], waiter_cnt := waiter_cnt rl + 1\<rparr>"
    "ids = wait_ids (set_lock_ready txn False T) type rl'" "ids \<noteq> []"
    by (auto simp: lock_get_def enqueue_waiter_def Let_def split: if_splits)
  have own: "\<forall>e \<in> set (owners rl). le_type e = lk_type rl"
    using assms(1) by (simp add: lock_ok_def lock_pre_def owners_ok_def)
  have "set ids = (\<lambda>e. tm_id (T (le_txn e))) ` ({e \<in> set (waiters rl). conflict_lock type (le_type e)} \<union>
      (if conflict_lock type (lk_type rl) then set (owners rl) else {}))"
    unfolding rl'(2) wait_ids_def by (simp add: rl'(1) image_Un del: conflict_lock_iff)
  also have "(if conflict_lock type (lk_type rl) then set (owners rl) else {}) =
      {e \<in> set (owners rl). conflict_lock type (le_type e)}"
    using own by (auto simp del: conflict_lock_iff)
  finally show ?thesis using rl'(3) by (auto simp del: conflict_lock_iff)
qed

definition ex_dl_lock :: row_lock where
  "ex_dl_lock = \<lparr>lk_type = LOCK_SH, owner_cnt = 1, waiter_cnt = 1,
     owners = [\<lparr>le_type = LOCK_SH, le_txn = 1\<rparr>], waiters = [\<lparr>le_type = LOCK_EX, le_txn = 2\<rparr>]\<rparr>"

definition ex_dl_txns :: txns where
  "ex_dl_txns t = \<lparr>tm_id = 10 * t, tm_ts = t, tm_lock_ready = False, tm_lock_abort = False,
     tm_ts_ready = False, tm_ready_part = 0, tm_cur_row = []\<rparr>"

lemma dl_wait_ids_exact_witness:
  "[20] \<noteq> ([] :: nat list) \<and>
     set [20] = {tm_id (ex_dl_txns (le_txn e)) | e.
       e \<in> set (owners ex_dl_lock) \<union> set (waiters ex_dl_lock) \<and> conflict_lock LOCK_SH (le_type e)}"
proof (rule dl_wait_ids_exact)
  show "lock_ok DL_DETECT ex_dl_txns ex_dl_lock"
    by (simp add: lock_inv_defs ex_dl_lock_def ex_dl_txns_def)
  show "3 \<notin> holding ex_dl_lock \<union> waiting_at ex_dl_lock"
    by (simp add: holding_def waiting_at_def ex_dl_lock_def)
  show "lock_get DL_DETECT 3 LOCK_SH 3 (ex_dl_lock, ex_dl_txns) = Some (WAIT, [20],
      ex_dl_lock\<lparr>waiters := waiters ex_dl_lock @ [\<lparr>le_type = LOCK_SH, le_txn = 3\<rparr>], waiter_cnt := 2\<rparr>,
      set_lock_ready 3 False ex_dl_txns)"
    by (simp add: lock_get_def must_wait_def enqueue_waiter_def wait_ids_def ex_dl_lock_def ex_dl_txns_def)
qed simp

end
