(* ===== verification/Lock_System.thy ===== *)
theory Lock_System
  imports Row_Lock
begin

text \<open>
  The rows of DBx1000 under the locking schemes: transactions request and release the locks
  of many rows (\<open>row_t::get_row\<close> and \<open>row_t::return_row\<close> of
  \<open>src/DBx1000/code/storage/row.cpp\<close> call \<open>Row_lock\<close>), one row at a time, and do nothing while
  they wait.  Mutual exclusion, no failing assertion, and no deadlock under \<open>WAIT_DIE\<close>.
\<close>

section \<open>Steps\<close>

type_synonym lock_sys = "(rid \<Rightarrow> row_lock) \<times> txns"

text \<open>\<open>Ts\<close> are the transactions, at most one per thread.  A transaction requests a row it has no
  entry at, and waits nowhere meanwhile.\<close>

inductive lock_step :: "cc_alg \<Rightarrow> nat \<Rightarrow> tid set \<Rightarrow> lock_sys \<Rightarrow> lock_sys \<Rightarrow> bool"
  for alg :: cc_alg and n :: nat and Ts :: "tid set" where
  lock_step_get:
    "txn \<in> Ts \<Longrightarrow> type \<noteq> LOCK_NONE \<Longrightarrow> txn \<notin> holding (L r) \<Longrightarrow> \<forall>r'. txn \<notin> waiting_at (L r') \<Longrightarrow>
     lock_get alg n type txn (L r, T) = Some (rc, ids, rl, T') \<Longrightarrow> lock_step alg n Ts (L, T) (L(r := rl), T')"
| lock_step_release:
    "txn \<in> holding (L r) \<union> waiting_at (L r) \<Longrightarrow>
     lock_release txn (L r, T) = Some (rc, rl, T') \<Longrightarrow> lock_step alg n Ts (L, T) (L(r := rl), T')"

inductive_cases lock_stepE: "lock_step alg n Ts s s'"

definition lock_start :: "txns \<Rightarrow> lock_sys" where
  "lock_start T = (\<lambda>_. lock_init, T)"

abbreviation lock_reach :: "cc_alg \<Rightarrow> nat \<Rightarrow> tid set \<Rightarrow> txns \<Rightarrow> lock_sys \<Rightarrow> bool" where
  "lock_reach alg n Ts T0 s \<equiv> (lock_step alg n Ts)\<^sup>*\<^sup>* (lock_start T0) s"

definition sys_waiting :: "lock_sys \<Rightarrow> tid set" where
  "sys_waiting s = (\<Union>r. waiting_at (fst s r))"

definition sys_inv :: "cc_alg \<Rightarrow> tid set \<Rightarrow> (tid \<Rightarrow> nat) \<Rightarrow> lock_sys \<Rightarrow> bool" where
  "sys_inv alg Ts ts s \<longleftrightarrow>
     (\<forall>r. lock_ok alg (snd s) (fst s r) \<and> holding (fst s r) \<union> waiting_at (fst s r) \<subseteq> Ts) \<and>
     (\<forall>r r' t. t \<in> waiting_at (fst s r) \<and> t \<in> waiting_at (fst s r') \<longrightarrow> r = r') \<and>
     (\<forall>t. ts_of (snd s) t = ts t)"

lemma sys_inv_start: "sys_inv alg Ts (ts_of T) (lock_start T)"
  by (simp add: sys_inv_def lock_start_def) (simp add: lock_init_def holding_def waiting_at_def)

lemma sys_inv_update:
  assumes inv: "sys_inv alg Ts ts (L, T)" and ok: "lock_ok alg T' rl" "holding rl \<union> waiting_at rl \<subseteq> Ts"
    and new: "\<forall>t \<in> waiting_at rl. t \<in> waiting_at (L r) \<or> (\<forall>r'. t \<notin> waiting_at (L r'))"
    and frame: "\<forall>t. tm_ts (T' t) = tm_ts (T t)"
      "\<forall>r' t. r' \<noteq> r \<and> t \<in> waiting_at (L r') \<longrightarrow> tm_lock_ready (T' t) = tm_lock_ready (T t)"
  shows "sys_inv alg Ts ts (L(r := rl), T')"
proof -
  have "lock_ok alg T' (L r')" if "r' \<noteq> r" for r'
  proof (rule lock_ok_frame [of alg T])
    show "lock_ok alg T (L r')" using inv by (simp add: sys_inv_def)
    show "\<forall>t \<in> waiting_at (L r'). tm_lock_ready (T' t) = tm_lock_ready (T t)" using frame(2) that by simp
  qed (rule frame(1))
  with ok(1) have locks: "lock_ok alg T' ((L(r := rl)) r')" for r' by simp
  have sub: "holding ((L(r := rl)) r') \<union> waiting_at ((L(r := rl)) r') \<subseteq> Ts" for r'
    using inv ok(2) by (simp add: sys_inv_def)
  have unique: "r1 = r2"
    if t: "t \<in> waiting_at ((L(r := rl)) r1)" "t \<in> waiting_at ((L(r := rl)) r2)" for r1 r2 t
  proof -
    have one: "x = y" if "t \<in> waiting_at (L x)" "t \<in> waiting_at (L y)" for x y
    proof -
      have "\<forall>r r' t. t \<in> waiting_at (L r) \<and> t \<in> waiting_at (L r') \<longrightarrow> r = r'"
        using inv by (simp add: sys_inv_def)
      with that show ?thesis by blast
    qed
    have cross: "x = r" if "t \<in> waiting_at rl" "t \<in> waiting_at (L x)" for x
    proof -
      from new that have "t \<in> waiting_at (L r)" by blast
      from one [OF that(2) this] show ?thesis .
    qed
    consider "r1 = r" "r2 = r" | "r1 = r" "r2 \<noteq> r" | "r1 \<noteq> r" "r2 = r" | "r1 \<noteq> r" "r2 \<noteq> r" by blast
    then show ?thesis
    proof cases
      case 2
      with t have "t \<in> waiting_at rl" "t \<in> waiting_at (L r2)" by simp_all
      from cross [OF this] 2 show ?thesis by blast
    next
      case 3
      with t have "t \<in> waiting_at rl" "t \<in> waiting_at (L r1)" by simp_all
      from cross [OF this] 3 show ?thesis by blast
    next
      case 4
      with t have "t \<in> waiting_at (L r1)" "t \<in> waiting_at (L r2)" by simp_all
      from one [OF this] show ?thesis .
    qed simp
  qed
  have ts: "ts_of T' t = ts t" for t using inv frame(1) by (simp add: sys_inv_def ts_of_def)
  show ?thesis unfolding sys_inv_def fst_conv snd_conv
  proof (intro conjI allI)
    fix r1 r2 t
    show "t \<in> waiting_at ((L(r := rl)) r1) \<and> t \<in> waiting_at ((L(r := rl)) r2) \<longrightarrow> r1 = r2"
      using unique by blast
  qed (rule locks sub ts)+
qed

lemma sys_inv_step: "lock_step alg n Ts s s' \<Longrightarrow> sys_inv alg Ts ts s \<Longrightarrow> sys_inv alg Ts ts s'"
proof (induction rule: lock_step.induct)
  case (lock_step_get txn type L r T rc ids rl T')
  have ok: "lock_ok alg T (L r)" and sub: "holding (L r) \<union> waiting_at (L r) \<subseteq> Ts"
    using lock_step_get.prems by (auto simp: sys_inv_def)
  have new: "txn \<notin> holding (L r) \<union> waiting_at (L r)" using lock_step_get.hyps(3,4) by blast
  have "owner_cnt (L r) \<le> n \<and> waiter_cnt (L r) < n"
    by (rule lock_get_counts [OF lock_step_get.hyps(5)])
  with lock_get_ok [OF ok lock_step_get.hyps(2) new, of n] lock_step_get.hyps(5)
  have "lock_ok alg T' rl" and res: "holding rl = insert txn (holding (L r)) \<and> waiting_at rl = waiting_at (L r) \<and> T' = T \<or>
      holding rl = holding (L r) \<and> waiting_at rl = insert txn (waiting_at (L r)) \<and> T' = set_lock_ready txn False T \<or>
      rl = L r \<and> T' = T" by auto
  have nowhere: "\<forall>r'. txn \<notin> waiting_at (L r')" by (rule lock_step_get.hyps(4))
  show ?case
  proof (rule sys_inv_update [OF lock_step_get.prems \<open>lock_ok alg T' rl\<close>])
    show "holding rl \<union> waiting_at rl \<subseteq> Ts" using res sub lock_step_get.hyps(1) by auto
    show "\<forall>t \<in> waiting_at rl. t \<in> waiting_at (L r) \<or> (\<forall>r'. t \<notin> waiting_at (L r'))"
      using res nowhere by auto
    show "\<forall>t. tm_ts (T' t) = tm_ts (T t)" using res by auto
    show "\<forall>r' t. r' \<noteq> r \<and> t \<in> waiting_at (L r') \<longrightarrow> tm_lock_ready (T' t) = tm_lock_ready (T t)"
    proof (intro allI impI)
      fix r' t assume "r' \<noteq> r \<and> t \<in> waiting_at (L r')"
      with nowhere have "t \<noteq> txn" by blast
      with res show "tm_lock_ready (T' t) = tm_lock_ready (T t)" by auto
    qed
  qed
next
  case (lock_step_release txn L r T rc rl T')
  have ok: "lock_ok alg T (L r)" and sub: "holding (L r) \<union> waiting_at (L r) \<subseteq> Ts"
    and one: "\<forall>r' t. t \<in> waiting_at (L r) \<and> t \<in> waiting_at (L r') \<longrightarrow> r = r'"
    using lock_step_release.prems by (auto simp: sys_inv_def)
  from lock_release_ok [OF ok lock_step_release.hyps(1)] lock_step_release.hyps(2)
  have res: "lock_ok alg T' rl" "holding rl \<union> waiting_at rl = holding (L r) \<union> waiting_at (L r) - {txn}"
    "waiting_at rl \<subseteq> waiting_at (L r)" "\<forall>t. tm_ts (T' t) = tm_ts (T t)"
    "\<forall>t. t \<notin> waiting_at (L r) - {txn} \<longrightarrow> T' t = T t" by auto
  show ?case
  proof (rule sys_inv_update [OF lock_step_release.prems res(1)])
    show "holding rl \<union> waiting_at rl \<subseteq> Ts" using res(2) sub by auto
    show "\<forall>t \<in> waiting_at rl. t \<in> waiting_at (L r) \<or> (\<forall>r'. t \<notin> waiting_at (L r'))" using res(3) by blast
    show "\<forall>r' t. r' \<noteq> r \<and> t \<in> waiting_at (L r') \<longrightarrow> tm_lock_ready (T' t) = tm_lock_ready (T t)"
    proof (intro allI impI)
      fix r' t assume t: "r' \<noteq> r \<and> t \<in> waiting_at (L r')"
      with one have "t \<notin> waiting_at (L r) - {txn}" by blast
      with res(5) show "tm_lock_ready (T' t) = tm_lock_ready (T t)" by simp
    qed
  qed (rule res(4))
qed

lemma sys_inv_reach: "lock_reach alg n Ts T0 s \<Longrightarrow> sys_inv alg Ts (ts_of T0) s"
  by (induction rule: rtranclp_induct) (auto simp: sys_inv_start intro: sys_inv_step)

section \<open>Waiting under \<open>WAIT_DIE\<close>\<close>

text \<open>A waiter waits for the owners of its row and for the waiters ahead of it.\<close>

definition ahead :: "LockEntry list \<Rightarrow> (tid \<times> tid) set" where
  "ahead ws = {(t, u). \<exists>i j. i < j \<and> j < length ws \<and> u = le_txn (ws ! i) \<and> t = le_txn (ws ! j)}"

definition waits_on :: "lock_sys \<Rightarrow> (tid \<times> tid) set" where
  "waits_on s = (\<Union>r. waiting_at (fst s r) \<times> holding (fst s r) \<union> ahead (waiters (fst s r)))"

lemma blocked_owner:
  assumes "lock_ok alg T rl" "waiters rl \<noteq> []"
  shows "\<exists>e \<in> set (owners rl). conflict_lock (le_type e) (le_type (hd (waiters rl)))"
proof -
  from assms have c: "conflict_lock (lk_type rl) (le_type (hd (waiters rl)))"
    by (simp add: lock_ok_def head_blocked_def)
  with assms(1) have "owners rl \<noteq> []" by (auto simp: lock_ok_def lock_pre_def owners_ok_def)
  then obtain e where "e \<in> set (owners rl)" by (cases "owners rl") auto
  moreover from this assms(1) have "le_type e = lk_type rl" by (simp add: lock_ok_def lock_pre_def owners_ok_def)
  ultimately show ?thesis using c by (intro bexI [of _ e]) simp_all
qed

lemma wait_die_edge:
  assumes inv: "sys_inv WAIT_DIE Ts ts s" and inj: "inj_on ts Ts" and e: "(t, u) \<in> waits_on s"
  shows "ts t < ts u"
proof -
  from e obtain r where r: "t \<in> waiting_at (fst s r) \<and> u \<in> holding (fst s r) \<or> (t, u) \<in> ahead (waiters (fst s r))"
    by (auto simp: waits_on_def)
  let ?rl = "fst s r"
  have pre: "lock_pre WAIT_DIE (snd s) ?rl" and sub: "holding ?rl \<union> waiting_at ?rl \<subseteq> Ts"
    and ts: "ts_of (snd s) x = ts x" for x
    using inv by (simp_all add: sys_inv_def lock_ok_def)
  have d: "distinct (map le_txn (waiters ?rl))" "holding ?rl \<inter> waiting_at ?rl = {}"
    using pre by (auto simp: lock_pre_def holding_def waiting_at_def)
  from r show ?thesis
  proof
    assume tu: "t \<in> waiting_at ?rl \<and> u \<in> holding ?rl"
    with pre have "ts t \<le> ts u" by (auto simp: lock_pre_def scheme_ok_def waiting_at_def holding_def ts)
    moreover from tu d(2) have "t \<noteq> u" by blast
    moreover from tu sub have "t \<in> Ts" "u \<in> Ts" by auto
    ultimately show ?thesis using inj by (metis inj_onD order_le_imp_less_or_eq)
  next
    assume "(t, u) \<in> ahead (waiters ?rl)"
    then obtain i j where ij: "i < j" "j < length (waiters ?rl)"
      "u = le_txn (waiters ?rl ! i)" "t = le_txn (waiters ?rl ! j)" by (auto simp: ahead_def)
    with pre have "ts t \<le> ts u"
      by (auto simp: lock_pre_def scheme_ok_def ts dest: sorted_wrt_nth_less)
    moreover have "t \<noteq> u"
      using d(1) ij nth_eq_iff_index_eq [of "map le_txn (waiters ?rl)" i j] by auto
    moreover have "t \<in> Ts" "u \<in> Ts" using ij sub by (auto simp: waiting_at_def)
    ultimately show ?thesis using inj by (metis inj_onD order_le_imp_less_or_eq)
  qed
qed

lemma waiting_edge:
  assumes "sys_inv alg Ts ts s" "t \<in> sys_waiting s"
  shows "\<exists>u. (t, u) \<in> waits_on s"
proof -
  from assms(2) obtain r where r: "t \<in> waiting_at (fst s r)" by (auto simp: sys_waiting_def)
  have "lock_ok alg (snd s) (fst s r)" using assms(1) by (simp add: sys_inv_def)
  moreover have "waiters (fst s r) \<noteq> []" using r by (auto simp: waiting_at_def)
  ultimately obtain e where "e \<in> set (owners (fst s r))" using blocked_owner by blast
  then have "le_txn e \<in> holding (fst s r)" by (simp add: holding_def)
  with r show ?thesis by (auto simp: waits_on_def)
qed

interpretation wd: wait_order
  "\<lambda>(Ts, ts, s). finite Ts \<and> inj_on ts Ts \<and> sys_inv WAIT_DIE Ts ts s"
  "\<lambda>(Ts, ts, s) t. int (ts t)" "\<lambda>(Ts, ts, s). sys_waiting s" "\<lambda>(Ts, ts, s). waits_on s"
proof unfold_locales
  show "finite ((\<lambda>(Ts, ts, s). sys_waiting s) x)"
    if "(\<lambda>(Ts, ts, s). finite Ts \<and> inj_on ts Ts \<and> sys_inv WAIT_DIE Ts ts s) x" for x
  proof (cases x)
    case (fields Ts ts L T)
    with that have "sys_waiting (L, T) \<subseteq> Ts" "finite Ts" by (auto simp: sys_waiting_def sys_inv_def)
    with fields show ?thesis by (auto intro: finite_subset)
  qed
qed (auto dest: wait_die_edge waiting_edge)

section \<open>Properties\<close>

text \<open>C3: in every state that any number of transactions can reach, whatever the scheme: two owners of a
  row never hold conflicting locks, a transaction is not both owner and waiter, the first
  waiter of a row conflicts with an owner of it, and no waiter has its ready flag set.\<close>

theorem row_locks_exclude:
  assumes "lock_reach alg n Ts T0 (L, T)"
  shows "(\<forall>e \<in> set (owners (L r)). \<forall>f \<in> set (owners (L r)).
        le_txn e \<noteq> le_txn f \<longrightarrow> \<not> conflict_lock (le_type e) (le_type f)) \<and>
     holding (L r) \<inter> waiting_at (L r) = {} \<and>
     (waiters (L r) \<noteq> [] \<longrightarrow>
        (\<exists>e \<in> set (owners (L r)). conflict_lock (le_type e) (le_type (hd (waiters (L r)))))) \<and>
     (\<forall>t \<in> waiting_at (L r). \<not> tm_lock_ready (T t))"
proof -
  have ok: "lock_ok alg T (L r)" using sys_inv_reach [OF assms] by (simp add: sys_inv_def)
  then have own: "owners_ok (L r)" and wait: "waiters_ok T (L r)"
    and d: "distinct (map le_txn (owners (L r) @ waiters (L r)))"
    by (simp_all add: lock_ok_def lock_pre_def)
  have "\<not> conflict_lock (le_type e) (le_type f)"
    if "e \<in> set (owners (L r))" "f \<in> set (owners (L r))" "le_txn e \<noteq> le_txn f" for e f
  proof -
    have types: "le_type e = lk_type (L r)" "le_type f = lk_type (L r)" using own that by (simp_all add: owners_ok_def)
    have "length (owners (L r)) \<noteq> 1" using that by (auto simp: length_Suc_conv)
    with own have "lk_type (L r) \<noteq> LOCK_EX" by (simp add: owners_ok_def)
    with types show ?thesis by simp
  qed
  moreover have "holding (L r) \<inter> waiting_at (L r) = {}" using d by (auto simp: holding_def waiting_at_def)
  moreover have "\<forall>t \<in> waiting_at (L r). \<not> tm_lock_ready (T t)"
    using wait by (auto simp: waiters_ok_def waiting_at_def)
  ultimately show ?thesis using blocked_owner [OF ok] by blast
qed

text \<open>Transaction 2 holds row 0, and the older transaction 1 waits for it.\<close>

definition ex_held :: row_lock where
  "ex_held = \<lparr>lk_type = LOCK_EX, owner_cnt = 1, waiter_cnt = 0,
     owners = [\<lparr>le_type = LOCK_EX, le_txn = 2\<rparr>], waiters = []\<rparr>"

definition ex_waited :: row_lock where
  "ex_waited = ex_held\<lparr>waiters := [\<lparr>le_type = LOCK_EX, le_txn = 1\<rparr>], waiter_cnt := 1\<rparr>"

lemma ex_gets:
  "lock_get WAIT_DIE 2 LOCK_EX 2 (lock_init, ex_txns) = Some (RCOK, [], ex_held, ex_txns)"
  "lock_get WAIT_DIE 2 LOCK_EX 1 (ex_held, ex_txns) =
     Some (WAIT, [], ex_waited, set_lock_ready 1 False ex_txns)"
  by (simp_all add: lock_get_def must_wait_def lock_init_def push_owner_def ex_held_def ex_waited_def
    enqueue_waiter_def ts_of_def ex_txns_def)

lemma ex_reach:
  "lock_reach WAIT_DIE 2 {1, 2} ex_txns ((\<lambda>_. lock_init)(0 := ex_waited), set_lock_ready 1 False ex_txns)"
proof -
  let ?s1 = "((\<lambda>_. lock_init)(0 := ex_held), ex_txns)"
  have none: "holding lock_init = {}" "waiting_at lock_init = {}" "waiting_at ex_held = {}" "1 \<notin> holding ex_held"
    by (simp_all add: holding_def waiting_at_def lock_init_def ex_held_def)
  have "lock_step WAIT_DIE 2 {1, 2} (lock_start ex_txns) ?s1"
    unfolding lock_start_def by (rule lock_step_get [of 2 _ LOCK_EX]) (simp_all add: none ex_gets)
  moreover have "lock_step WAIT_DIE 2 {1, 2} ?s1
      (((\<lambda>_. lock_init)(0 := ex_held))(0 := ex_waited), set_lock_ready 1 False ex_txns)"
    by (rule lock_step_get [of 1 _ LOCK_EX]) (simp_all add: none ex_gets del: One_nat_def)
  ultimately show ?thesis by (simp add: converse_rtranclp_into_rtranclp)
qed

lemma row_locks_exclude_witness:
  "holding ex_waited \<inter> waiting_at ex_waited = {} \<and>
     (\<exists>e \<in> set (owners ex_waited). conflict_lock (le_type e) LOCK_EX) \<and>
     tm_lock_ready (set_lock_ready 1 False ex_txns 1) = False"
proof -
  have "waiters ex_waited \<noteq> []" "le_type (hd (waiters ex_waited)) = LOCK_EX" "1 \<in> waiting_at ex_waited"
    by (simp_all add: ex_waited_def waiting_at_def)
  with row_locks_exclude [OF ex_reach, of 0, unfolded fun_upd_same] show ?thesis by metis
qed

text \<open>C40: with at most one transaction per thread no assertion of the lock manager fails: a transaction
  that neither holds the row nor waits anywhere gets an answer to a request, which is an
  entry or an abort that leaves the row as it was; one with an entry can always release it.\<close>

theorem row_lock_calls_succeed:
  assumes "lock_reach alg n Ts T0 (L, T)" and "finite Ts" and "card Ts \<le> n" and "txn \<in> Ts"
  shows "(type \<noteq> LOCK_NONE \<and> txn \<notin> holding (L r) \<and> (\<forall>r'. txn \<notin> waiting_at (L r')) \<longrightarrow>
       (\<exists>rc ids rl T'. lock_get alg n type txn (L r, T) = Some (rc, ids, rl, T') \<and>
          (rc = RCOK \<and> txn \<in> holding rl \<or> rc = WAIT \<and> txn \<in> waiting_at rl \<or>
           rc = Abort \<and> rl = L r \<and> T' = T))) \<and>
     (txn \<in> holding (L r) \<union> waiting_at (L r) \<longrightarrow>
       (\<exists>rl T'. lock_release txn (L r, T) = Some (RCOK, rl, T') \<and>
          holding rl \<union> waiting_at rl = holding (L r) \<union> waiting_at (L r) - {txn}))"
proof -
  have ok: "lock_ok alg T (L r)" and sub: "holding (L r) \<union> waiting_at (L r) \<subseteq> Ts"
    using sys_inv_reach [OF assms(1)] by (simp_all add: sys_inv_def)
  have d: "distinct (map le_txn (owners (L r)))" "distinct (map le_txn (waiters (L r)))"
    and cnt: "owner_cnt (L r) = length (owners (L r))" "waiter_cnt (L r) = length (waiters (L r))"
    using ok by (simp_all add: lock_ok_def lock_pre_def owners_ok_def waiters_ok_def)
  have "owner_cnt (L r) = card (holding (L r))" "waiter_cnt (L r) = card (waiting_at (L r))"
    using d cnt distinct_card by (metis holding_def length_map set_map, metis distinct_card waiting_at_def length_map set_map)
  moreover have "card (holding (L r)) \<le> card Ts" using sub assms(2) by (intro card_mono) auto
  moreover have "card (waiting_at (L r)) < card Ts" if "txn \<notin> waiting_at (L r)"
    using sub assms(2,4) that by (intro psubset_card_mono) auto
  ultimately have counts: "owner_cnt (L r) \<le> n" "txn \<notin> waiting_at (L r) \<longrightarrow> waiter_cnt (L r) < n"
    using assms(3) by auto
  have get: "\<exists>rc ids rl T'. lock_get alg n type txn (L r, T) = Some (rc, ids, rl, T') \<and>
          (rc = RCOK \<and> txn \<in> holding rl \<or> rc = WAIT \<and> txn \<in> waiting_at rl \<or> rc = Abort \<and> rl = L r \<and> T' = T)"
    if req: "type \<noteq> LOCK_NONE" "txn \<notin> holding (L r)" "\<forall>r'. txn \<notin> waiting_at (L r')"
  proof -
    have "txn \<notin> holding (L r) \<union> waiting_at (L r)" using req by blast
    from lock_get_ok [OF ok req(1) this counts(1)] counts(2) req(3) show ?thesis by fastforce
  qed
  show ?thesis using get lock_release_ok [OF ok, of txn] by blast
qed

lemma row_lock_calls_succeed_witness:
  "\<exists>rl T'. lock_release 1 (ex_waited, set_lock_ready 1 False ex_txns) = Some (RCOK, rl, T') \<and>
     holding rl \<union> waiting_at rl = {2}"
  using row_lock_calls_succeed [OF ex_reach, of 1 LOCK_EX 0]
  by (simp add: ex_waited_def ex_held_def holding_def waiting_at_def)

text \<open>C13: under \<open>WAIT_DIE\<close>, with different timestamps, no transaction waits for itself through others, and
  every chain of waiting transactions ends at one that does not wait.\<close>

theorem wait_die_no_deadlock:
  assumes "lock_reach WAIT_DIE n Ts T0 s" and "finite Ts" and "inj_on (ts_of T0) Ts"
  shows "acyclic (waits_on s) \<and>
     (\<forall>t \<in> sys_waiting s. \<exists>u. (t, u) \<in> (waits_on s)\<^sup>+ \<and> u \<notin> sys_waiting s)"
proof -
  have inv: "(\<lambda>(Ts, ts, s). finite Ts \<and> inj_on ts Ts \<and> sys_inv WAIT_DIE Ts ts s) (Ts, ts_of T0, s)"
    using assms sys_inv_reach [OF assms(1)] by simp
  from wd.no_cycle [OF inv] wd.chain_ends [OF inv] show ?thesis by simp
qed

lemma wait_die_no_deadlock_witness:
  "let s = ((\<lambda>_. lock_init)(0 := ex_waited), set_lock_ready 1 False ex_txns) in
   acyclic (waits_on s) \<and> (\<exists>u. (1, u) \<in> (waits_on s)\<^sup>+ \<and> u \<notin> sys_waiting s)"
proof -
  let ?s = "((\<lambda>_. lock_init)(0 := ex_waited), set_lock_ready 1 False ex_txns)"
  have "1 \<in> waiting_at (fst ?s 0)" by (simp add: ex_waited_def waiting_at_def)
  then have "1 \<in> sys_waiting ?s" unfolding sys_waiting_def by blast
  moreover have "inj_on (ts_of ex_txns) {1, 2}" by (simp add: inj_on_def ts_of_def ex_txns_def)
  ultimately show ?thesis unfolding Let_def using wait_die_no_deadlock [OF ex_reach] by blast
qed

text \<open>The loop that runs transactions never gives them a timestamp under \<open>WAIT_DIE\<close>
  (\<open>src/DBx1000/code/system/thread.cpp\<close>, lines 72 to 76).  Transactions 1 and 2 with equal timestamps
  have a row each and ask for the other's: both wait, for each other.\<close>

definition zero_txns :: txns where
  "zero_txns t = (ex_txns t)\<lparr>tm_ts := 0\<rparr>"

definition ex_lock_of :: "tid \<Rightarrow> tid list \<Rightarrow> row_lock" where
  "ex_lock_of t ws = \<lparr>lk_type = LOCK_EX, owner_cnt = 1, waiter_cnt = length ws,
     owners = [\<lparr>le_type = LOCK_EX, le_txn = t\<rparr>], waiters = map (\<lambda>w. \<lparr>le_type = LOCK_EX, le_txn = w\<rparr>) ws\<rparr>"

lemma ex_lock_of_sets [simp]: "holding (ex_lock_of t ws) = {t}" "waiting_at (ex_lock_of t ws) = set ws"
  by (simp_all add: holding_def waiting_at_def ex_lock_of_def image_image)

lemma zero_ts [simp]: "ts_of zero_txns t = 0"
  by (simp add: zero_txns_def ts_of_def)

lemma ex_own: "lock_get WAIT_DIE 2 LOCK_EX t (lock_init, T) = Some (RCOK, [], ex_lock_of t [], T)"
  by (simp add: lock_get_def must_wait_def lock_init_def push_owner_def ex_lock_of_def)

lemma ex_queue:
  "ts_of T t = 0 \<Longrightarrow> ts_of T u = 0 \<Longrightarrow> lock_get WAIT_DIE 2 LOCK_EX u (ex_lock_of t [], T) =
     Some (WAIT, [], ex_lock_of t [u], set_lock_ready u False T)"
  by (simp add: lock_get_def must_wait_def ex_lock_of_def enqueue_waiter_def)

theorem wait_die_equal_ts_deadlock:
  "\<exists>s. lock_reach WAIT_DIE 2 {1, 2} zero_txns s \<and> sys_waiting s = {1, 2} \<and>
     (1, 2) \<in> waits_on s \<and> (2, 1) \<in> waits_on s"
proof -
  let ?L0 = "\<lambda>_. lock_init" let ?L1 = "?L0(0 := ex_lock_of 1 [])" let ?L2 = "?L1(1 := ex_lock_of 2 [])"
  let ?T1 = "set_lock_ready 1 False zero_txns" let ?T2 = "set_lock_ready 2 False ?T1"
  let ?L3 = "?L2(1 := ex_lock_of 2 [1])" let ?L4 = "?L3(0 := ex_lock_of 1 [2])"
  have none: "holding lock_init = {}" "waiting_at lock_init = {}"
    by (simp_all add: holding_def waiting_at_def lock_init_def)
  have ts: "ts_of ?T1 t = 0" for t by (simp add: ts_of_def set_lock_ready_def zero_txns_def)
  note get = lock_step_get [where type = LOCK_EX]
  have 1: "lock_step WAIT_DIE 2 {1, 2} (?L0, zero_txns) (?L1, zero_txns)"
    by (rule get [where r = 0, OF _ _ _ _ ex_own]) (simp_all add: none)
  have 2: "lock_step WAIT_DIE 2 {1, 2} (?L1, zero_txns) (?L2, zero_txns)"
    by (rule get [where r = 1 and txn = 2]) (simp_all add: none ex_own del: One_nat_def)
  have 3: "lock_step WAIT_DIE 2 {1, 2} (?L2, zero_txns) (?L3, ?T1)"
    by (rule get [where r = 1 and txn = 1]) (simp_all add: none ex_queue del: One_nat_def)
  have 4: "lock_step WAIT_DIE 2 {1, 2} (?L3, ?T1) (?L4, ?T2)"
    by (rule get [where r = 0 and txn = 2]) (simp_all add: none ex_queue ts del: One_nat_def)
  note more = converse_rtranclp_into_rtranclp [where r = "lock_step WAIT_DIE 2 {1, 2}"]
  have reach: "lock_reach WAIT_DIE 2 {1, 2} zero_txns (?L4, ?T2)" unfolding lock_start_def
    by (rule more [OF 1], rule more [OF 2], rule more [OF 3], rule more [OF 4], rule rtranclp.rtrancl_refl)
  have at: "waiting_at (?L4 r) = (if r = 0 then {2} else if r = 1 then {1} else {})" for r by (simp add: none)
  have "sys_waiting (?L4, ?T2) = {1, 2}" unfolding sys_waiting_def fst_conv at by (auto split: if_splits)
  moreover have "(1, 2) \<in> waits_on (?L4, ?T2)" unfolding waits_on_def
    by (rule UN_I [of 1]) (simp_all del: One_nat_def)
  moreover have "(2, 1) \<in> waits_on (?L4, ?T2)" unfolding waits_on_def
    by (rule UN_I [of 0]) simp_all
  ultimately show ?thesis using reach by blast
qed

end
