(* ===== verification/Txn_Lock.thy ===== *)
theory Txn_Lock
  imports Lock_System
begin

text \<open>
  Transactions on locked rows (\<open>src/DBx1000/code/storage/row.cpp\<close>: \<open>get_row\<close>, \<open>return_row\<close>, and
  \<open>src/DBx1000/code/system/txn.cpp\<close>: \<open>get_row\<close>, \<open>cleanup\<close>) under the three locking schemes,
  with \<open>ROLL_BACK\<close> set: a transaction works on the rows themselves, keeps a copy of each row it
  writes, and gives the rows back one by one.  The steps of the transactions interleave.
  What the rows hold outside of running transactions changes at commits only.
\<close>

section \<open>State\<close>

record access =
  ac_type :: access_t
  ac_row :: rid
  ac_orig :: rdata    \<comment> \<open>\<open>orig_data\<close>, a copy of the row, for a write\<close>

text \<open>\<open>pending\<close> is the request a transaction waits for in \<open>row_t::get_row\<close>; \<open>finishing\<close> is the
  argument of the \<open>cleanup\<close> it runs.  The length of \<open>accesses\<close> is \<open>row_cnt\<close>.\<close>

record db =
  db_locks :: "rid \<Rightarrow> row_lock"
  db_txns :: txns
  db_data :: "rid \<Rightarrow> rdata"
  accesses :: "tid \<Rightarrow> access list"
  pending :: "tid \<Rightarrow> (rid \<times> access_t) option"
  finishing :: "tid \<Rightarrow> RC option"

section \<open>Operations\<close>

definition lock_type_of :: "access_t \<Rightarrow> lock_t" where
  "lock_type_of type = (if type = RD \<or> type = SCAN then LOCK_SH else LOCK_EX)"

text \<open>The end of \<open>txn_man::get_row\<close>: the access is recorded, with a copy of a row to be written.\<close>

definition record_access :: "tid \<Rightarrow> rid \<Rightarrow> access_t \<Rightarrow> db \<Rightarrow> db" where
  "record_access t r type s =
     (let orig = (if type = WR then db_data s r else []) in
      s\<lparr>accesses := (accesses s)(t := accesses s t @ [\<lparr>ac_type = type, ac_row = r, ac_orig = orig\<rparr>])\<rparr>)"

text \<open>\<open>get_row\<close> up to the answer of the lock manager; on \<open>WAIT\<close> the transaction starts to spin.\<close>

definition get_row :: "cc_alg \<Rightarrow> nat \<Rightarrow> tid \<Rightarrow> rid \<Rightarrow> access_t \<Rightarrow> db \<Rightarrow> (RC \<times> db) option" where
  "get_row alg n t r type s =
     (case lock_get alg n (lock_type_of type) t (db_locks s r, db_txns s) of
        None \<Rightarrow> None
      | Some (rc, ids, rl, T) \<Rightarrow>
          (let s = s\<lparr>db_locks := (db_locks s)(r := rl), db_txns := T\<rparr> in
           if rc = RCOK then Some (RCOK, record_access t r type s)
           else if rc = WAIT
           then Some (WAIT, s\<lparr>db_txns := (db_txns s)(t := (db_txns s t)\<lparr>tm_lock_abort := False\<rparr>),
                              pending := (pending s)(t := Some (r, type))\<rparr>)
           else Some (Abort, s)))"

text \<open>\<open>return_row\<close>: an aborted write is undone, and the lock released.\<close>

definition return_row :: "access_t \<Rightarrow> tid \<Rightarrow> rid \<Rightarrow> rdata \<Rightarrow> db \<Rightarrow> db option" where
  "return_row type t r row s =
     (let s = (if type = XP then s\<lparr>db_data := (db_data s)(r := row)\<rparr> else s) in
      case lock_release t (db_locks s r, db_txns s) of
        None \<Rightarrow> None
      | Some (rc, rl, T) \<Rightarrow> Some (s\<lparr>db_locks := (db_locks s)(r := rl), db_txns := T\<rparr>))"

text \<open>The loop that waits ends when the lock is granted, or when the transaction is told to abort.\<close>

definition wake_granted :: "tid \<Rightarrow> rid \<Rightarrow> access_t \<Rightarrow> db \<Rightarrow> db" where
  "wake_granted t r type s = record_access t r type (s\<lparr>pending := (pending s)(t := None)\<rparr>)"

definition wake_aborted :: "tid \<Rightarrow> rid \<Rightarrow> access_t \<Rightarrow> db \<Rightarrow> db option" where
  "wake_aborted t r type s = return_row type t r [] (s\<lparr>pending := (pending s)(t := None)\<rparr>)"

text \<open>One round of the loop of \<open>cleanup\<close>, from the last access to the first.\<close>

definition cleanup_step :: "RC \<Rightarrow> tid \<Rightarrow> db \<Rightarrow> db option" where
  "cleanup_step rc t s =
     (if accesses s t = [] then Some s
      else (let a = last (accesses s t);
                type = (if ac_type a = WR \<and> rc = Abort then XP else ac_type a)
            in map_option (\<lambda>s. s\<lparr>accesses := (accesses s)(t := butlast (accesses s t))\<rparr>)
                 (return_row type t (ac_row a) (ac_orig a) s)))"

section \<open>Interleaved steps\<close>

datatype label = Internal | Committed tid

text \<open>A transaction that is neither waiting nor finishing may ask for a row it does not have, write a
  row it has for writing, or finish.  Anybody may tell a transaction to abort.  An abort in
  the waiting loop and the release that follows are not atomic: the lock may be granted
  between them.\<close>

definition running :: "db \<Rightarrow> tid \<Rightarrow> bool" where
  "running s t \<longleftrightarrow> pending s t = None \<and> finishing s t = None"

inductive db_step :: "cc_alg \<Rightarrow> nat \<Rightarrow> tid set \<Rightarrow> db \<Rightarrow> label \<Rightarrow> db \<Rightarrow> bool"
  for alg :: cc_alg and n :: nat and Ts :: "tid set" where
  step_get: "t \<in> Ts \<Longrightarrow> running s t \<Longrightarrow> r \<notin> ac_row ` set (accesses s t) \<Longrightarrow> type \<in> {RD, WR, SCAN} \<Longrightarrow>
     get_row alg n t r type s = Some (rc, s') \<Longrightarrow> db_step alg n Ts s Internal s'"
| step_granted: "pending s t = Some (r, type) \<Longrightarrow> tm_lock_ready (db_txns s t) \<Longrightarrow>
     db_step alg n Ts s Internal (wake_granted t r type s)"
| step_aborted: "pending s t = Some (r, type) \<Longrightarrow> tm_lock_abort (db_txns s t) \<Longrightarrow>
     wake_aborted t r type s = Some s' \<Longrightarrow> db_step alg n Ts s Internal s'"
| step_flag: "db_step alg n Ts s Internal
     (s\<lparr>db_txns := (db_txns s)(t := (db_txns s t)\<lparr>tm_lock_abort := True\<rparr>)\<rparr>)"
| step_write: "running s t \<Longrightarrow> a \<in> set (accesses s t) \<Longrightarrow> ac_type a = WR \<Longrightarrow>
     db_step alg n Ts s Internal (s\<lparr>db_data := (db_data s)(ac_row a := d)\<rparr>)"
| step_commit: "running s t \<Longrightarrow>
     db_step alg n Ts s (Committed t) (s\<lparr>finishing := (finishing s)(t := Some RCOK)\<rparr>)"
| step_abort: "running s t \<Longrightarrow>
     db_step alg n Ts s Internal (s\<lparr>finishing := (finishing s)(t := Some Abort)\<rparr>)"
| step_cleanup: "finishing s t = Some rc \<Longrightarrow> accesses s t \<noteq> [] \<Longrightarrow> cleanup_step rc t s = Some s' \<Longrightarrow>
     db_step alg n Ts s Internal s'"
| step_done: "finishing s t = Some rc \<Longrightarrow> accesses s t = [] \<Longrightarrow>
     db_step alg n Ts s Internal (s\<lparr>finishing := (finishing s)(t := None)\<rparr>)"

definition db_start :: "txns \<Rightarrow> (rid \<Rightarrow> rdata) \<Rightarrow> db" where
  "db_start T data = \<lparr>db_locks = (\<lambda>_. lock_init), db_txns = T, db_data = data, accesses = (\<lambda>_. []),
     pending = (\<lambda>_. None), finishing = (\<lambda>_. None)\<rparr>"

inductive db_reach :: "cc_alg \<Rightarrow> nat \<Rightarrow> tid set \<Rightarrow> db \<Rightarrow> db \<Rightarrow> bool"
  for alg :: cc_alg and n :: nat and Ts :: "tid set" and s0 :: db where
  db_reach_start: "db_reach alg n Ts s0 s0"
| db_reach_step: "db_reach alg n Ts s0 s \<Longrightarrow> db_step alg n Ts s lab s' \<Longrightarrow> db_reach alg n Ts s0 s'"

section \<open>Who has which entry\<close>

definition entries :: "row_lock \<Rightarrow> LockEntry set" where
  "entries rl = set (owners rl) \<union> set (waiters rl)"

definition entry_for :: "access_t \<Rightarrow> tid \<Rightarrow> LockEntry" where
  "entry_for type t = \<lparr>le_type = lock_type_of type, le_txn = t\<rparr>"

lemma entry_for_txn [simp]: "le_txn (entry_for type t) = t"
  by (simp add: entry_for_def)

text \<open>Every access of a transaction is an owner's entry, its pending request is an entry, and there are
  no other entries.\<close>

definition owns_accesses :: "(rid \<Rightarrow> row_lock) \<Rightarrow> (tid \<Rightarrow> access list) \<Rightarrow> bool" where
  "owns_accesses L acc \<longleftrightarrow>
     (\<forall>t. distinct (map ac_row (acc t)) \<and>
        (\<forall>a \<in> set (acc t). entry_for (ac_type a) t \<in> set (owners (L (ac_row a)))))"

definition has_pending ::
    "(rid \<Rightarrow> row_lock) \<Rightarrow> (tid \<Rightarrow> access list) \<Rightarrow> (tid \<Rightarrow> (rid \<times> access_t) option) \<Rightarrow> bool" where
  "has_pending L acc pend \<longleftrightarrow>
     (\<forall>t r type. pend t = Some (r, type) \<longrightarrow>
        entry_for type t \<in> entries (L r) \<and> r \<notin> ac_row ` set (acc t))"

definition no_other_entry ::
    "(rid \<Rightarrow> row_lock) \<Rightarrow> (tid \<Rightarrow> access list) \<Rightarrow> (tid \<Rightarrow> (rid \<times> access_t) option) \<Rightarrow> bool" where
  "no_other_entry L acc pend \<longleftrightarrow>
     (\<forall>r. \<forall>e \<in> entries (L r).
        r \<in> ac_row ` set (acc (le_txn e)) \<or> (\<exists>type. pend (le_txn e) = Some (r, type)))"

definition acc_inv ::
    "(rid \<Rightarrow> row_lock) \<Rightarrow> (tid \<Rightarrow> access list) \<Rightarrow> (tid \<Rightarrow> (rid \<times> access_t) option) \<Rightarrow> bool" where
  "acc_inv L acc pend \<longleftrightarrow> owns_accesses L acc \<and> has_pending L acc pend \<and> no_other_entry L acc pend"

lemmas acc_inv_defs = acc_inv_def owns_accesses_def has_pending_def no_other_entry_def

lemma acc_inv_owner:
  assumes inv: "acc_inv L acc pend" and e: "entry_for type t \<in> set (owners rl)" "set (owners (L r)) \<subseteq> set (owners rl)"
    "entries rl = insert (entry_for type t) (entries (L r))"
    and new: "r \<notin> ac_row ` set (acc t)" "ac_row a = r" "ac_type a = type"
    and pend: "pend t = None \<or> pend t = Some (r, type)"
  shows "acc_inv (L(r := rl)) (acc(t := acc t @ [a])) (pend(t := None))"
proof -
  have "owns_accesses (L(r := rl)) (acc(t := acc t @ [a]))"
    using inv e new by (auto simp: acc_inv_def owns_accesses_def) (metis image_eqI, metis subsetD)
  moreover have "has_pending (L(r := rl)) (acc(t := acc t @ [a])) (pend(t := None))"
    using inv e new by (auto simp: acc_inv_def has_pending_def)
  moreover have "no_other_entry (L(r := rl)) (acc(t := acc t @ [a])) (pend(t := None))"
    using inv e new pend by (fastforce simp: acc_inv_def no_other_entry_def)
  ultimately show ?thesis by (simp add: acc_inv_def)
qed

lemma acc_inv_waiter:
  assumes inv: "acc_inv L acc pend" and e: "owners rl = owners (L r)"
    "entries rl = insert (entry_for type t) (entries (L r))"
    and new: "r \<notin> ac_row ` set (acc t)" "pend t = None"
  shows "acc_inv (L(r := rl)) acc (pend(t := Some (r, type)))"
proof -
  have "owns_accesses (L(r := rl)) acc"
    using inv e by (auto simp: acc_inv_def owns_accesses_def)
  moreover have "has_pending (L(r := rl)) acc (pend(t := Some (r, type)))"
    using inv e new by (auto simp: acc_inv_def has_pending_def)
  moreover have "no_other_entry (L(r := rl)) acc (pend(t := Some (r, type)))"
    using inv e new by (fastforce simp: acc_inv_def no_other_entry_def)
  ultimately show ?thesis by (simp add: acc_inv_def)
qed

lemma acc_inv_release:
  assumes inv: "acc_inv L acc pend" and e: "{e \<in> set (owners (L r)). le_txn e \<noteq> t} \<subseteq> set (owners rl)"
    "entries rl = {e \<in> entries (L r). le_txn e \<noteq> t}"
    and acc: "set as \<subseteq> set (acc t)" "distinct (map ac_row as)" "ac_row ` set as = ac_row ` set (acc t) - {r}"
    and pend: "pend t = None \<or> fst (the (pend t)) = r"
  shows "acc_inv (L(r := rl)) (acc(t := as)) (pend(t := None))"
proof -
  have other: "ac_row a \<noteq> r" if "a \<in> set as" for a using acc(3) that by blast
  have "owns_accesses (L(r := rl)) (acc(t := as))"
    using inv e(1) acc other unfolding acc_inv_def owns_accesses_def by (auto simp: subset_iff)
  moreover have "has_pending (L(r := rl)) (acc(t := as)) (pend(t := None))"
    using inv e by (auto simp: acc_inv_def has_pending_def)
  moreover have "no_other_entry (L(r := rl)) (acc(t := as)) (pend(t := None))"
    using inv e acc(3) pend by (fastforce simp: acc_inv_def no_other_entry_def)
  ultimately show ?thesis by (simp add: acc_inv_def)
qed

section \<open>The invariant of the steps\<close>

definition types_ok :: "db \<Rightarrow> bool" where
  "types_ok s \<longleftrightarrow>
     (\<forall>t r type. pending s t = Some (r, type) \<longrightarrow> type \<noteq> XP) \<and>
     (\<forall>t. \<forall>a \<in> set (accesses s t). ac_type a \<noteq> XP) \<and>
     (\<forall>t. finishing s t \<in> {None, Some RCOK, Some Abort})"

definition db_inv :: "cc_alg \<Rightarrow> tid set \<Rightarrow> (tid \<Rightarrow> nat) \<Rightarrow> db \<Rightarrow> bool" where
  "db_inv alg Ts ts s \<longleftrightarrow>
     sys_inv alg Ts ts (db_locks s, db_txns s) \<and>
     acc_inv (db_locks s) (accesses s) (pending s) \<and>
     (\<forall>t. pending s t \<noteq> None \<longrightarrow> finishing s t = None) \<and>
     types_ok s"

lemma sys_inv_abort_flag [simp]:
  "sys_inv alg Ts ts (L, T(t := (T t)\<lparr>tm_lock_abort := b\<rparr>)) \<longleftrightarrow> sys_inv alg Ts ts (L, T)"
proof -
  have "ts_of (T(t := (T t)\<lparr>tm_lock_abort := b\<rparr>)) = ts_of T" by (auto simp: ts_of_def fun_eq_iff)
  moreover have "tm_lock_ready ((T(t := (T t)\<lparr>tm_lock_abort := b\<rparr>)) u) = tm_lock_ready (T u)" for u by simp
  ultimately show ?thesis by (simp only: sys_inv_def lock_inv_defs fst_conv snd_conv)
qed

lemma entries_txns: "le_txn ` entries rl = holding rl \<union> waiting_at rl"
  by (auto simp: entries_def holding_def waiting_at_def)

lemma no_entry:
  assumes "acc_inv L acc pend" "pend t = None"
  shows "t \<notin> waiting_at (L r) \<or> r \<in> ac_row ` set (acc t)"
    "r \<notin> ac_row ` set (acc t) \<Longrightarrow> t \<notin> holding (L r) \<union> waiting_at (L r)"
proof -
  have "r \<in> ac_row ` set (acc t)" if t: "t \<in> holding (L r) \<union> waiting_at (L r)"
  proof -
    from t obtain e where e: "e \<in> entries (L r)" "le_txn e = t" unfolding entries_txns [symmetric] by blast
    with assms(1) have "r \<in> ac_row ` set (acc t) \<or> (\<exists>type. pend t = Some (r, type))"
      unfolding acc_inv_def no_other_entry_def by blast
    with assms(2) show ?thesis by simp
  qed
  then show "t \<notin> waiting_at (L r) \<or> r \<in> ac_row ` set (acc t)"
    "r \<notin> ac_row ` set (acc t) \<Longrightarrow> t \<notin> holding (L r) \<union> waiting_at (L r)" by auto
qed

lemma waits_nowhere:
  assumes "acc_inv L acc pend" "pend t = None" "sys_inv alg Ts ts (L, T)"
  shows "t \<notin> waiting_at (L r)"
proof
  assume w: "t \<in> waiting_at (L r)"
  with no_entry(1) [OF assms(1,2)] obtain a where a: "a \<in> set (acc t)" "ac_row a = r" by blast
  with assms(1) have "entry_for (ac_type a) t \<in> set (owners (L r))" by (auto simp: acc_inv_def owns_accesses_def)
  then have "t \<in> holding (L r)" by (force simp: holding_def)
  moreover have "holding (L r) \<inter> waiting_at (L r) = {}"
    using assms(3) by (auto simp: sys_inv_def lock_ok_def lock_pre_def holding_def waiting_at_def)
  ultimately show False using w by blast
qed

lemma get_row_inv:
  assumes inv: "db_inv alg Ts ts s" and t: "t \<in> Ts" "running s t" "r \<notin> ac_row ` set (accesses s t)" "type \<noteq> XP"
    and get: "get_row alg n t r type s = Some (rc, s')"
  shows "db_inv alg Ts ts s'"
proof -
  let ?L = "db_locks s" and ?T = "db_txns s"
  have sys: "sys_inv alg Ts ts (?L, ?T)" and acc: "acc_inv ?L (accesses s) (pending s)"
    and fin: "\<forall>t. pending s t \<noteq> None \<longrightarrow> finishing s t = None"
    and types: "types_ok s"
    using inv by (simp_all add: db_inv_def)
  have idle: "pending s t = None" "finishing s t = None" using t(2) by (simp_all add: running_def)
  from get obtain rc' ids rl T where g: "lock_get alg n (lock_type_of type) t (?L r, ?T) = Some (rc', ids, rl, T)"
    by (auto simp: get_row_def split: option.splits)
  have "lock_step alg n Ts (?L, ?T) (?L(r := rl), T)"
    by (rule lock_step_get [where L = ?L and r = r, OF t(1) _ _ _ g])
       (use no_entry(2) [OF acc idle(1) t(3)] waits_nowhere [OF acc idle(1) sys] in
         \<open>auto simp: lock_type_of_def\<close>)
  from sys_inv_step [OF this sys] have sys': "sys_inv alg Ts ts (?L(r := rl), T)" .
  have e: "\<lparr>le_type = lock_type_of type, le_txn = t\<rparr> = entry_for type t" by (simp add: entry_for_def)
  from lock_get_entries [OF g] consider
      (ok) "rc' = RCOK" "set (owners rl) = insert (entry_for type t) (set (owners (?L r)))" "waiters rl = waiters (?L r)"
    | (wait) "rc' = WAIT" "owners rl = owners (?L r)" "set (waiters rl) = insert (entry_for type t) (set (waiters (?L r)))"
    | (abort) "rc' = Abort" "rl = ?L r" "T = ?T" unfolding e by blast
  then show ?thesis
  proof cases
    case ok
    have p: "(pending s)(t := None) = pending s" using idle(1) by (simp add: fun_upd_idem)
    define a where "a = \<lparr>ac_type = type, ac_row = r, ac_orig = (if type = WR then db_data s r else [])\<rparr>"
    have "acc_inv (?L(r := rl)) ((accesses s)(t := accesses s t @ [a])) ((pending s)(t := None))"
      by (rule acc_inv_owner [OF acc _ _ _ t(3)]) (use ok idle in \<open>auto simp: entries_def a_def\<close>)
    moreover have "s' = s\<lparr>db_locks := ?L(r := rl), db_txns := T, accesses := (accesses s)(t := accesses s t @ [a])\<rparr>"
      using get g ok(1) by (cases "type = WR") (simp_all add: get_row_def record_access_def Let_def a_def)
    ultimately show ?thesis using sys' fin types t(4) by (simp add: db_inv_def p types_ok_def a_def)
  next
    case wait
    have "acc_inv (?L(r := rl)) (accesses s) ((pending s)(t := Some (r, type)))"
      by (rule acc_inv_waiter [OF acc _ _ t(3)]) (use wait idle in \<open>auto simp: entries_def\<close>)
    moreover have "s' = s\<lparr>db_locks := ?L(r := rl), db_txns := T(t := (T t)\<lparr>tm_lock_abort := False\<rparr>),
        pending := (pending s)(t := Some (r, type))\<rparr>"
      using get g wait(1) by (simp add: get_row_def Let_def)
    ultimately show ?thesis using sys' fin types idle t(4) by (simp add: db_inv_def types_ok_def)
  next
    case abort
    then have "s' = s" using get g by (simp add: get_row_def)
    with inv show ?thesis by simp
  qed
qed

lemma ready_holds:
  assumes inv: "db_inv alg Ts ts s" and p: "pending s t = Some (r, type)" and rdy: "tm_lock_ready (db_txns s t)"
  shows "entry_for type t \<in> set (owners (db_locks s r))"
proof -
  have "entry_for type t \<in> entries (db_locks s r)"
    using inv p by (simp add: db_inv_def acc_inv_def has_pending_def)
  moreover have "waiters_ok (db_txns s) (db_locks s r)"
    using inv by (simp add: db_inv_def sys_inv_def lock_ok_def lock_pre_def)
  then have "entry_for type t \<notin> set (waiters (db_locks s r))"
    using rdy by (auto simp: waiters_ok_def)
  ultimately show ?thesis by (simp add: entries_def)
qed

lemma wake_granted_inv:
  assumes inv: "db_inv alg Ts ts s" and p: "pending s t = Some (r, type)" and rdy: "tm_lock_ready (db_txns s t)"
  shows "db_inv alg Ts ts (wake_granted t r type s)"
proof -
  have acc: "acc_inv (db_locks s) (accesses s) (pending s)" using inv by (simp add: db_inv_def)
  note e = ready_holds [OF assms]
  define a where "a = \<lparr>ac_type = type, ac_row = r, ac_orig = (if type = WR then db_data s r else [])\<rparr>"
  have new: "r \<notin> ac_row ` set (accesses s t)" using acc p by (simp add: acc_inv_def has_pending_def)
  have "acc_inv ((db_locks s)(r := db_locks s r)) ((accesses s)(t := accesses s t @ [a])) ((pending s)(t := None))"
    by (rule acc_inv_owner [OF acc e _ _ new]) (use e p in \<open>auto simp: entries_def a_def\<close>)
  then have "acc_inv (db_locks s) ((accesses s)(t := accesses s t @ [a])) ((pending s)(t := None))" by simp
  moreover have "wake_granted t r type s =
      s\<lparr>accesses := (accesses s)(t := accesses s t @ [a]), pending := (pending s)(t := None)\<rparr>"
    by (cases "type = WR") (simp_all add: wake_granted_def record_access_def a_def)
  moreover have "type \<noteq> XP" using inv p by (auto simp: db_inv_def types_ok_def)
  ultimately show ?thesis using inv by (simp add: db_inv_def types_ok_def a_def)
qed

lemma release_inv:
  assumes inv: "db_inv alg Ts ts s" and t: "t \<in> holding (db_locks s r) \<union> waiting_at (db_locks s r)"
    and rel: "lock_release t (db_locks s r, db_txns s) = Some (rc, rl, T)"
    and acc: "set as \<subseteq> set (accesses s t)" "distinct (map ac_row as)"
      "ac_row ` set as = ac_row ` set (accesses s t) - {r}"
    and pend: "pending s t = None \<or> fst (the (pending s t)) = r"
    and s': "db_locks s' = (db_locks s)(r := rl)" "db_txns s' = T" "accesses s' = (accesses s)(t := as)"
      "pending s' = (pending s)(t := None)" "finishing s' = finishing s"
  shows "db_inv alg Ts ts s'"
proof -
  let ?L = "db_locks s"
  have sys: "sys_inv alg Ts ts (?L, db_txns s)" using inv by (simp add: db_inv_def)
  then have d: "distinct (map le_txn (owners (?L r) @ waiters (?L r)))"
    by (simp add: sys_inv_def lock_ok_def lock_pre_def)
  have "lock_step alg 0 Ts (?L, db_txns s) (?L(r := rl), T)"
    by (rule lock_step_release [where L = ?L and r = r, OF t rel])
  from sys_inv_step [OF this sys] have "sys_inv alg Ts ts (?L(r := rl), T)" .
  moreover have "acc_inv (?L(r := rl)) ((accesses s)(t := as)) ((pending s)(t := None))"
  proof (rule acc_inv_release)
    show "acc_inv ?L (accesses s) (pending s)" using inv by (simp add: db_inv_def)
    show "{e \<in> set (owners (?L r)). le_txn e \<noteq> t} \<subseteq> set (owners rl)"
      "entries rl = {e \<in> entries (?L r). le_txn e \<noteq> t}"
      using lock_release_entries [OF rel d] by (simp_all add: entries_def)
  qed (rule acc pend)+
  moreover have "types_ok s'" using inv acc(1) s' unfolding db_inv_def types_ok_def by auto
  ultimately show ?thesis using inv s' by (simp add: db_inv_def)
qed

lemma wake_aborted_inv:
  assumes inv: "db_inv alg Ts ts s" and p: "pending s t = Some (r, type)"
    and wake: "wake_aborted t r type s = Some s'"
  shows "db_inv alg Ts ts s'"
proof -
  have acc: "acc_inv (db_locks s) (accesses s) (pending s)" using inv by (simp add: db_inv_def)
  have "type \<noteq> XP" using inv p by (auto simp: db_inv_def types_ok_def)
  with wake obtain rc rl T where rel: "lock_release t (db_locks s r, db_txns s) = Some (rc, rl, T)"
    "s' = s\<lparr>pending := (pending s)(t := None), db_locks := (db_locks s)(r := rl), db_txns := T\<rparr>"
    by (auto simp: wake_aborted_def return_row_def Let_def split: option.splits)
  have e: "entry_for type t \<in> entries (db_locks s r)" "r \<notin> ac_row ` set (accesses s t)"
    using acc p by (simp_all add: acc_inv_def has_pending_def)
  have "t \<in> holding (db_locks s r) \<union> waiting_at (db_locks s r)"
    using e(1) unfolding entries_txns [symmetric] by force
  from release_inv [OF inv this rel(1), of "accesses s t" s'] acc e(2) p rel(2)
  show ?thesis by (simp add: acc_inv_def owns_accesses_def)
qed

lemma cleanup_step_inv:
  assumes inv: "db_inv alg Ts ts s" and fin: "finishing s t = Some rc" and ne: "accesses s t \<noteq> []"
    and cl: "cleanup_step rc t s = Some s'"
  shows "db_inv alg Ts ts s'"
proof -
  let ?a = "last (accesses s t)" and ?as = "butlast (accesses s t)"
  have acc: "acc_inv (db_locks s) (accesses s) (pending s)" and p: "pending s t = None"
    using inv fin by (simp add: db_inv_def, metis db_inv_def inv option.distinct(1))
  have split: "accesses s t = ?as @ [?a]" using ne by simp
  from acc have d: "distinct (map ac_row (?as @ [?a]))" unfolding split [symmetric]
    by (simp add: acc_inv_def owns_accesses_def)
  have "entry_for (ac_type ?a) t \<in> set (owners (db_locks s (ac_row ?a)))"
    using acc ne by (simp add: acc_inv_def owns_accesses_def)
  then have t: "t \<in> holding (db_locks s (ac_row ?a)) \<union> waiting_at (db_locks s (ac_row ?a))"
    by (force simp: holding_def)
  from cl ne obtain rc' rl T where
    rel: "lock_release t (db_locks s (ac_row ?a), db_txns s) = Some (rc', rl, T)"
    and s': "db_locks s' = (db_locks s)(ac_row ?a := rl)" "db_txns s' = T"
      "accesses s' = (accesses s)(t := ?as)" "pending s' = pending s" "finishing s' = finishing s"
    by (auto simp: cleanup_step_def return_row_def Let_def split: option.splits if_splits)
  have p': "(pending s)(t := None) = pending s" using p by (simp add: fun_upd_idem)
  have rows: "ac_row ` set ?as = ac_row ` set (accesses s t) - {ac_row ?a}"
    using d by (subst (2) split) auto
  have sub: "set ?as \<subseteq> set (accesses s t)" by (auto dest: in_set_butlastD)
  show ?thesis
    by (rule release_inv [OF inv t rel sub _ rows]) (use d p p' s' in simp_all)
qed

lemma db_inv_start: "db_inv alg Ts (ts_of T) (db_start T data)"
  using sys_inv_start [of alg Ts T]
  by (simp add: db_inv_def types_ok_def db_start_def lock_start_def acc_inv_defs entries_def lock_init_def)

lemma db_inv_step: "db_step alg n Ts s lab s' \<Longrightarrow> db_inv alg Ts ts s \<Longrightarrow> db_inv alg Ts ts s'"
proof (induction rule: db_step.induct)
  case (step_get t s r type rc s')
  then have "type \<noteq> XP" by auto
  with step_get show ?case by (blast intro: get_row_inv)
next
  case (step_commit s t)
  then show ?case by (auto simp: db_inv_def types_ok_def running_def)
next
  case (step_abort s t)
  then show ?case by (auto simp: db_inv_def types_ok_def running_def)
next
  case (step_granted s t r type)
  then show ?case by (blast intro: wake_granted_inv)
next
  case (step_aborted s t r type s')
  then show ?case by (blast intro: wake_aborted_inv)
next
  case (step_cleanup s t rc s')
  then show ?case by (blast intro: cleanup_step_inv)
qed (simp_all add: db_inv_def types_ok_def)

lemma db_inv_reach: "db_reach alg n Ts (db_start T0 data) s \<Longrightarrow> db_inv alg Ts (ts_of T0) s"
  by (induction rule: db_reach.induct) (auto simp: db_inv_start intro: db_inv_step)

section \<open>Committed data\<close>

text \<open>What the rows hold when the writes of all transactions that have not committed are undone.\<close>

definition open_write :: "db \<Rightarrow> tid \<Rightarrow> access \<Rightarrow> bool" where
  "open_write s t a \<longleftrightarrow> a \<in> set (accesses s t) \<and> ac_type a = WR \<and> finishing s t \<noteq> Some RCOK"

definition committed :: "db \<Rightarrow> (rid \<Rightarrow> rdata) \<Rightarrow> bool" where
  "committed s B \<longleftrightarrow>
     (\<forall>t a. open_write s t a \<longrightarrow> B (ac_row a) = ac_orig a) \<and>
     (\<forall>r. (\<forall>t a. open_write s t a \<longrightarrow> ac_row a \<noteq> r) \<longrightarrow> B r = db_data s r)"

definition write_rows :: "db \<Rightarrow> tid \<Rightarrow> rid set" where
  "write_rows s t = ac_row ` {a \<in> set (accesses s t). ac_type a = WR}"

definition commit_effect :: "db \<Rightarrow> label \<Rightarrow> (rid \<Rightarrow> rdata) \<Rightarrow> rid \<Rightarrow> rdata" where
  "commit_effect s lab B =
     (case lab of Internal \<Rightarrow> B
      | Committed t \<Rightarrow> (\<lambda>r. if r \<in> write_rows s t then db_data s r else B r))"

lemma exclusive_access:
  assumes inv: "db_inv alg Ts ts s" and a: "a \<in> set (accesses s t)" "ac_type a = WR"
    and b: "b \<in> set (accesses s u)" "ac_row b = ac_row a"
  shows "u = t \<and> b = a"
proof -
  let ?rl = "db_locks s (ac_row a)"
  have acc: "owns_accesses (db_locks s) (accesses s)" using inv by (simp add: db_inv_def acc_inv_def)
  have own: "owners_ok ?rl" using inv by (simp add: db_inv_def sys_inv_def lock_ok_def lock_pre_def)
  have "entry_for (ac_type a) t \<in> set (owners ?rl)"
    "entry_for (ac_type b) u \<in> set (owners (db_locks s (ac_row b)))"
    using acc a(1) b(1) by (simp_all add: owns_accesses_def)
  then have e: "entry_for WR t \<in> set (owners ?rl)" "entry_for (ac_type b) u \<in> set (owners ?rl)"
    by (simp_all only: a(2) b(2))
  then have "lk_type ?rl = LOCK_EX"
    using own by (fastforce simp: owners_ok_def entry_for_def lock_type_of_def)
  with own have "length (owners ?rl) = 1" by (simp add: owners_ok_def)
  with e have "entry_for WR t = entry_for (ac_type b) u" by (auto simp: length_Suc_conv)
  then have "u = t" by (simp add: entry_for_def)
  moreover have "distinct (map ac_row (accesses s t))" using acc by (simp add: owns_accesses_def)
  ultimately show ?thesis using a(1) b by (auto simp: distinct_map inj_on_def)
qed

lemma committed_record:
  assumes inv': "db_inv alg Ts ts s'" and c: "committed s B"
    and s': "accesses s' = (accesses s)(t := accesses s t @ [a])" "db_data s' = db_data s" "finishing s' = finishing s"
    and a: "ac_type a = WR \<longrightarrow> ac_orig a = db_data s (ac_row a)"
  shows "committed s' B"
proof -
  have old: "open_write s' u b" if "open_write s u b" for u b
    using that s' by (auto simp: open_write_def)
  have new: "open_write s u b \<or> u = t \<and> b = a \<and> ac_type a = WR" if "open_write s' u b" for u b
    using that s' by (auto simp: open_write_def split: if_splits)
  have "B (ac_row a) = ac_orig a" if wr: "ac_type a = WR"
  proof -
    have "ac_row b \<noteq> ac_row a" if b: "open_write s u b" for u b
    proof
      assume row: "ac_row b = ac_row a"
      have ab: "a \<in> set (accesses s' t)" "b \<in> set (accesses s' u)" using b s' by (auto simp: open_write_def)
      from exclusive_access [OF inv' ab(1) wr ab(2) row] have "u = t" "b = a" by auto
      with b have "a \<in> set (accesses s t)" by (simp add: open_write_def)
      moreover have "distinct (map ac_row (accesses s' t))"
        using inv' by (simp add: db_inv_def acc_inv_def owns_accesses_def)
      ultimately show False using s'(1) by auto
    qed
    with c have "B (ac_row a) = db_data s (ac_row a)" by (auto simp: committed_def)
    with a wr show ?thesis by simp
  qed
  with c new old s'(2) show ?thesis unfolding committed_def by metis
qed

lemma committed_same:
  "committed s B \<Longrightarrow> accesses s' = accesses s \<Longrightarrow> db_data s' = db_data s \<Longrightarrow>
   \<forall>t. accesses s t \<noteq> [] \<longrightarrow> (finishing s' t = Some RCOK) = (finishing s t = Some RCOK) \<Longrightarrow> committed s' B"
proof -
  assume c: "committed s B" and s': "accesses s' = accesses s" "db_data s' = db_data s"
    "\<forall>t. accesses s t \<noteq> [] \<longrightarrow> (finishing s' t = Some RCOK) = (finishing s t = Some RCOK)"
  then have "open_write s' t a \<longleftrightarrow> open_write s t a" for t a
    by (cases "accesses s t = []") (simp_all add: open_write_def)
  with c s'(2) show ?thesis by (simp add: committed_def)
qed

lemma committed_cleanup:
  assumes inv: "db_inv alg Ts ts s" and c: "committed s B" and fin: "finishing s t = Some rc"
    and ne: "accesses s t \<noteq> []" and cl: "cleanup_step rc t s = Some s'"
  shows "committed s' B"
proof -
  let ?a = "last (accesses s t)" and ?as = "butlast (accesses s t)"
  have mem: "?a \<in> set (accesses s t)" using ne by simp
  have "finishing s t \<in> {None, Some RCOK, Some Abort}" "ac_type ?a \<noteq> XP"
    using inv mem by (simp_all add: db_inv_def types_ok_def)
  with fin have rc: "rc = RCOK \<or> rc = Abort" and xp: "ac_type ?a \<noteq> XP" by auto
  have "distinct (map ac_row (?as @ [?a]))"
    using inv ne by (simp add: db_inv_def acc_inv_def owns_accesses_def)
  then have out: "ac_row b \<noteq> ac_row ?a" if "b \<in> set ?as" for b
    using that by auto (metis image_eqI)
  from cl ne xp have s': "accesses s' = (accesses s)(t := ?as)" "finishing s' = finishing s"
    and data: "db_data s' = (if ac_type ?a = WR \<and> rc = Abort
        then (db_data s)(ac_row ?a := ac_orig ?a) else db_data s)"
    by (auto simp: cleanup_step_def return_row_def Let_def split: option.splits if_splits)
  have set_as: "set (accesses s t) = insert ?a (set ?as)"
    using ne by (metis append_butlast_last_id list.simps(15) rotate1.simps(2) set_rotate1)
  have ow: "open_write s u b \<longleftrightarrow> open_write s' u b \<or> u = t \<and> b = ?a \<and> ac_type ?a = WR \<and> rc \<noteq> RCOK" for u b
    using fin set_as s' by (auto simp: open_write_def)
  have other: "ac_row b \<noteq> ac_row ?a" if "open_write s' u b" "ac_type ?a = WR" for u b
  proof
    assume row: "ac_row b = ac_row ?a"
    from that(1) ow have "b \<in> set (accesses s u)" by (auto simp: open_write_def)
    from exclusive_access [OF inv mem that(2) this row] that(1) s' out row show False
      by (auto simp: open_write_def)
  qed
  show ?thesis
  proof (cases "ac_type ?a = WR \<and> rc = Abort")
    case True
    then have "open_write s t ?a" using ow by auto
    with c have a: "B (ac_row ?a) = ac_orig ?a" by (simp add: committed_def)
    have "B r = db_data s' r" if none: "\<forall>u b. open_write s' u b \<longrightarrow> ac_row b \<noteq> r" for r
    proof (cases "r = ac_row ?a")
      case False
      then have "\<forall>u b. open_write s u b \<longrightarrow> ac_row b \<noteq> r" using none ow by auto
      with c have "B r = db_data s r" by (simp add: committed_def)
      with False True data show ?thesis by simp
    qed (use a data True in simp)
    then show ?thesis using c ow unfolding committed_def by blast
  next
    case False
    then have "open_write s u b \<longleftrightarrow> open_write s' u b" for u b using ow rc by auto
    with c data False show ?thesis by (simp add: committed_def)
  qed
qed

lemma get_row_parts:
  assumes "get_row alg n t r type s = Some (rc, s')"
  shows "db_data s' = db_data s \<and> finishing s' = finishing s \<and>
     (accesses s' = accesses s \<or>
      accesses s' = (accesses s)(t := accesses s t @
        [\<lparr>ac_type = type, ac_row = r, ac_orig = (if type = WR then db_data s r else [])\<rparr>]))"
  using assms by (auto simp: get_row_def record_access_def Let_def split: option.splits if_splits)

lemma wake_aborted_parts:
  assumes "wake_aborted t r type s = Some s'" "type \<noteq> XP"
  shows "db_data s' = db_data s \<and> finishing s' = finishing s \<and> accesses s' = accesses s"
  using assms by (auto simp: wake_aborted_def return_row_def Let_def split: option.splits)

lemma committed_commit:
  assumes inv: "db_inv alg Ts ts s" and c: "committed s B" and t: "running s t"
    and s': "s' = s\<lparr>finishing := (finishing s)(t := Some RCOK)\<rparr>"
  shows "committed s' (\<lambda>r. if r \<in> write_rows s t then db_data s r else B r)"
proof -
  have ow: "open_write s u b \<longleftrightarrow> open_write s' u b \<or> u = t \<and> b \<in> set (accesses s t) \<and> ac_type b = WR" for u b
    using t by (auto simp: open_write_def running_def s')
  have own: "ac_row b \<notin> write_rows s t" if "open_write s' u b" for u b
  proof
    assume "ac_row b \<in> write_rows s t"
    then obtain a where a: "a \<in> set (accesses s t)" "ac_type a = WR" "ac_row b = ac_row a"
      by (auto simp: write_rows_def)
    have "b \<in> set (accesses s u)" using that by (simp add: open_write_def s')
    from exclusive_access [OF inv a(1,2) this a(3)] that show False by (auto simp: open_write_def s')
  qed
  have "B r = db_data s' r" if "\<forall>u b. open_write s' u b \<longrightarrow> ac_row b \<noteq> r" "r \<notin> write_rows s t" for r
  proof -
    have "\<forall>u b. open_write s u b \<longrightarrow> ac_row b \<noteq> r" using that ow by (auto simp: write_rows_def)
    with c show ?thesis by (simp add: committed_def s')
  qed
  with c ow own show ?thesis unfolding committed_def by (auto simp: s')
qed

lemma committed_step:
  assumes "db_reach alg n Ts (db_start T0 data) s" and "committed s B" and "db_step alg n Ts s lab s'"
  shows "committed s' (commit_effect s lab B)"
proof -
  have inv: "db_inv alg Ts (ts_of T0) s" and inv': "db_inv alg Ts (ts_of T0) s'"
    using db_inv_reach [OF assms(1)] db_inv_step [OF assms(3)] by auto
  note c = assms(2)
  from assms(3) show ?thesis
  proof cases
    case (step_get t r type rc)
    note parts = get_row_parts [OF step_get(6)]
    have "committed s' B"
    proof (cases "accesses s' = accesses s")
      case True
      with parts show ?thesis by (intro committed_same [OF c]) simp_all
    next
      case False
      with parts show ?thesis by (intro committed_record [OF inv' c, of t]) auto
    qed
    with step_get(1) show ?thesis by (simp add: commit_effect_def)
  next
    case (step_granted t r type)
    then have "committed s' B"
      by (intro committed_record [OF inv' c, of t]) (auto simp: wake_granted_def record_access_def Let_def)
    with step_granted(1) show ?thesis by (simp add: commit_effect_def)
  next
    case (step_aborted t r type)
    then have "type \<noteq> XP" using inv by (auto simp: db_inv_def types_ok_def)
    from wake_aborted_parts [OF step_aborted(4) this] c have "committed s' B"
      by (intro committed_same [OF c]) simp_all
    with step_aborted(1) show ?thesis by (simp add: commit_effect_def)
  next
    case step_flag
    then have "committed s' B" by (intro committed_same [OF c]) simp_all
    with step_flag(1) show ?thesis by (simp add: commit_effect_def)
  next
    case (step_write t a d)
    then have "open_write s t a" by (simp add: open_write_def running_def)
    moreover have "open_write s' u b \<longleftrightarrow> open_write s u b" for u b using step_write by (simp add: open_write_def)
    ultimately have "committed s' B" using c step_write(2) unfolding committed_def
      by (auto simp: fun_upd_def)
    with step_write(1) show ?thesis by (simp add: commit_effect_def)
  next
    case (step_commit t)
    from committed_commit [OF inv c step_commit(3,2)] step_commit(1) show ?thesis by (simp add: commit_effect_def)
  next
    case (step_abort t)
    then have "committed s' B" by (intro committed_same [OF c]) (auto simp: running_def)
    with step_abort(1) show ?thesis by (simp add: commit_effect_def)
  next
    case (step_cleanup t rc)
    from committed_cleanup [OF inv c step_cleanup(2-4)] step_cleanup(1) show ?thesis by (simp add: commit_effect_def)
  next
    case (step_done t rc)
    then have "committed s' B" by (intro committed_same [OF c]) auto
    with step_done(1) show ?thesis by (simp add: commit_effect_def)
  qed
qed

section \<open>Properties\<close>

text \<open>C1: the rows refine a store that only commits change: \<open>committed s B\<close> says that \<open>B\<close> is what the
  rows hold when the writes of unfinished and of aborting transactions are undone; every step
  of every interleaving leaves \<open>B\<close> as it is, except a commit, which puts the values of the rows
  the transaction wrote into it, all at once.\<close>

theorem rows_refine_commits:
  assumes "db_reach alg n Ts (db_start T0 data) s" and "committed s B" and "db_step alg n Ts s lab s'"
  shows "committed s' (commit_effect s lab B)"
  by (rule committed_step [OF assms])

text \<open>What a transaction itself does to a row it has for writing: it writes it, or its \<open>cleanup\<close> after an abort puts
  the copy back.\<close>

definition own_write :: "tid \<Rightarrow> access \<Rightarrow> db \<Rightarrow> db \<Rightarrow> bool" where
  "own_write t a s s' \<longleftrightarrow> running s t \<and> ac_type a = WR \<and> (\<exists>d. s' = s\<lparr>db_data := (db_data s)(ac_row a := d)\<rparr>)"

definition own_undo :: "tid \<Rightarrow> access \<Rightarrow> db \<Rightarrow> db \<Rightarrow> bool" where
  "own_undo t a s s' \<longleftrightarrow> finishing s t = Some Abort \<and> ac_type a = WR \<and> a = last (accesses s t) \<and>
     cleanup_step Abort t s = Some s' \<and> db_data s' (ac_row a) = ac_orig a"

lemma granted_committed:
  assumes inv': "db_inv alg Ts ts s'" and c: "committed s' B"
    and s': "accesses s' = (accesses s)(t := accesses s t @ [\<lparr>ac_type = type, ac_row = r, ac_orig = (if type = WR then db_data s r else [])\<rparr>])"
      "db_data s' = db_data s" "finishing s' t = None" and a: "a \<in> set (accesses s' u)" "a \<notin> set (accesses s u)"
  shows "db_data s' (ac_row a) = B (ac_row a)"
proof -
  have at: "u = t" "ac_type a = WR \<longrightarrow> ac_orig a = db_data s (ac_row a)" using a s'(1) by (auto split: if_splits)
  show ?thesis
  proof (cases "ac_type a = WR")
    case True
    with a(1) at s'(3) have "open_write s' t a" by (simp add: open_write_def)
    with c have "B (ac_row a) = ac_orig a" by (simp add: committed_def)
    with at(2) True s'(2) show ?thesis by simp
  next
    case False
    then have "ac_row b \<noteq> ac_row a" if "open_write s' v b" for v b
      using exclusive_access [OF inv' _ _ a(1), of b v] that by (auto simp: open_write_def)
    with c show ?thesis by (simp add: committed_def)
  qed
qed

text \<open>C35: isolation of rows, in every interleaving under every locking scheme.  A transaction that gets a row gets it with
  its committed value.  While it has a row for reading the row keeps that value, and while it has one for writing its copy is
  that value.  Nobody else has a row that it has for writing, and nobody has one for writing that
  it has.  A step that changes a row it has is its own write or the undoing of its own write by its own \<open>cleanup\<close>.\<close>

theorem accesses_isolated:
  assumes "db_reach alg n Ts (db_start T0 data) s" and "committed s B" and "db_step alg n Ts s lab s'"
  shows "(a \<in> set (accesses s t) \<longrightarrow>
       (ac_type a \<in> {RD, SCAN} \<longrightarrow> db_data s (ac_row a) = B (ac_row a)) \<and>
       (ac_type a = WR \<and> finishing s t \<noteq> Some RCOK \<longrightarrow> ac_orig a = B (ac_row a)) \<and>
       (\<forall>u b. u \<noteq> t \<and> b \<in> set (accesses s u) \<and> ac_row b = ac_row a \<longrightarrow> ac_type a \<noteq> WR \<and> ac_type b \<noteq> WR) \<and>
       (db_data s' (ac_row a) \<noteq> db_data s (ac_row a) \<longrightarrow> own_write t a s s' \<or> own_undo t a s s')) \<and>
     (a \<in> set (accesses s' t) - set (accesses s t) \<longrightarrow> db_data s' (ac_row a) = B (ac_row a))"
proof (intro conjI impI)
  have inv: "db_inv alg Ts (ts_of T0) s" and inv': "db_inv alg Ts (ts_of T0) s'"
    using db_inv_reach [OF assms(1)] db_inv_step [OF assms(3)] by auto
  have alone: "ac_type a \<noteq> WR \<and> ac_type b \<noteq> WR"
    if "a \<in> set (accesses s t)" "u \<noteq> t" "b \<in> set (accesses s u)" "ac_row b = ac_row a" for a t u b
    using exclusive_access [OF inv that(1) _ that(3,4)] exclusive_access [OF inv that(3) _ that(1)] that by auto
  {
    assume a: "a \<in> set (accesses s t)"
    show "\<forall>u b. u \<noteq> t \<and> b \<in> set (accesses s u) \<and> ac_row b = ac_row a \<longrightarrow> ac_type a \<noteq> WR \<and> ac_type b \<noteq> WR"
      using alone [OF a] by blast
    show "db_data s (ac_row a) = B (ac_row a)" if rd: "ac_type a \<in> {RD, SCAN}"
    proof -
      have "ac_row b \<noteq> ac_row a" if "open_write s u b" for u b
        using exclusive_access [OF inv _ _ a, of b u] that rd by (auto simp: open_write_def)
      with assms(2) show ?thesis by (simp add: committed_def)
    qed
    show "ac_orig a = B (ac_row a)" if "ac_type a = WR \<and> finishing s t \<noteq> Some RCOK"
      using assms(2) a that by (auto simp: committed_def open_write_def)
    assume ch: "db_data s' (ac_row a) \<noteq> db_data s (ac_row a)"
    from assms(3) show "own_write t a s s' \<or> own_undo t a s s'"
    proof cases
      case (step_get u r type rc)
      with get_row_parts [OF step_get(6)] ch show ?thesis by simp
    next
      case (step_granted u r type)
      with ch show ?thesis by (simp add: wake_granted_def record_access_def Let_def)
    next
      case (step_aborted u r type)
      then have "type \<noteq> XP" using inv by (auto simp: db_inv_def types_ok_def)
      with wake_aborted_parts [OF step_aborted(4)] ch show ?thesis by simp
    next
      case (step_write u b d)
      with ch have row: "ac_row a = ac_row b" by (auto split: if_splits)
      from exclusive_access [OF inv step_write(4,5) a row] step_write show ?thesis by (auto simp: own_write_def)
    next
      case (step_cleanup u rc)
      let ?b = "last (accesses s u)"
      have mem: "?b \<in> set (accesses s u)" using step_cleanup(3) by simp
      then have "ac_type ?b \<noteq> XP" using inv by (simp add: db_inv_def types_ok_def)
      with step_cleanup(3,4) have data: "db_data s' = (if ac_type ?b = WR \<and> rc = Abort
          then (db_data s)(ac_row ?b := ac_orig ?b) else db_data s)"
        by (auto simp: cleanup_step_def return_row_def Let_def split: option.splits if_splits)
      with ch have b: "ac_type ?b = WR" "rc = Abort" "ac_row a = ac_row ?b" by (auto split: if_splits)
      from exclusive_access [OF inv mem b(1) a b(3)] data b step_cleanup(2,4) show ?thesis by (auto simp: own_undo_def)
    qed (use ch in simp_all)
  }
  assume new: "a \<in> set (accesses s' t) - set (accesses s t)"
  have c': "lab = Internal \<Longrightarrow> committed s' B" using committed_step [OF assms] by (simp add: commit_effect_def)
  from assms(3) show "db_data s' (ac_row a) = B (ac_row a)"
  proof cases
    case (step_get u r type rc)
    note parts = get_row_parts [OF step_get(6)]
    have "finishing s' u = None" using parts step_get(3) by (simp add: running_def)
    moreover have "accesses s' \<noteq> accesses s" using new by auto
    ultimately show ?thesis using granted_committed [OF inv' c' [OF step_get(1)], where u = t and t = u] parts new by blast
  next
    case (step_granted u r type)
    have fin: "finishing s u = None" using inv step_granted(3) by (auto simp: db_inv_def)
    have parts: "accesses s' = (accesses s)(u := accesses s u @ [\<lparr>ac_type = type, ac_row = r, ac_orig = (if type = WR then db_data s r else [])\<rparr>])"
      "db_data s' = db_data s" "finishing s' = finishing s"
      using step_granted(2) by (simp_all add: wake_granted_def record_access_def Let_def)
    show ?thesis by (rule granted_committed [OF inv' c' [OF step_granted(1)] parts(1,2)]) (use parts(3) fin new in auto)
  next
    case (step_aborted u r type)
    then have "type \<noteq> XP" using inv by (auto simp: db_inv_def types_ok_def)
    with wake_aborted_parts [OF step_aborted(4)] new show ?thesis by simp
  next
    case (step_cleanup u rc)
    then have "set (accesses s' v) \<subseteq> set (accesses s v)" for v
      by (auto simp: cleanup_step_def return_row_def Let_def split: option.splits if_splits dest: in_set_butlastD)
    with new show ?thesis by blast
  qed (use new in simp_all)
qed

text \<open>Transaction 1 has written row 0 and commits.\<close>

definition ex_run :: db where
  "ex_run = (db_start ex_txns (\<lambda>_. [0]))
     \<lparr>db_locks := (\<lambda>_. lock_init)(0 := push_owner \<lparr>le_type = LOCK_EX, le_txn = 1\<rparr> lock_init),
      accesses := (\<lambda>_. [])(1 := [\<lparr>ac_type = WR, ac_row = 0, ac_orig = [0]\<rparr>]),
      db_data := (\<lambda>_. [0])(0 := [7])\<rparr>"

lemma ex_run_reach: "db_reach WAIT_DIE 2 {1} (db_start ex_txns (\<lambda>_. [0])) ex_run"
proof -
  let ?s0 = "db_start ex_txns (\<lambda>_. [0])"
  let ?s1 = "?s0\<lparr>db_locks := (\<lambda>_. lock_init)(0 := push_owner \<lparr>le_type = LOCK_EX, le_txn = 1\<rparr> lock_init),
      accesses := (\<lambda>_. [])(1 := [\<lparr>ac_type = WR, ac_row = 0, ac_orig = [0]\<rparr>])\<rparr>"
  have "get_row WAIT_DIE 2 1 0 WR ?s0 = Some (RCOK, ?s1)"
    by (simp add: get_row_def lock_get_def must_wait_def lock_type_of_def record_access_def db_start_def lock_init_def)
  then have "db_step WAIT_DIE 2 {1} ?s0 Internal ?s1"
    by (rule step_get [rotated 4]) (simp_all add: running_def db_start_def)
  moreover have "db_step WAIT_DIE 2 {1} ?s1 Internal
      (?s1\<lparr>db_data := (db_data ?s1)(ac_row \<lparr>ac_type = WR, ac_row = 0, ac_orig = [0]\<rparr> := [7])\<rparr>)"
    by (rule step_write [of _ 1]) (simp_all add: running_def db_start_def)
  then have "db_step WAIT_DIE 2 {1} ?s1 Internal ex_run" by (simp add: ex_run_def db_start_def)
  ultimately show ?thesis by (blast intro: db_reach.intros)
qed

lemma ex_run_committed: "committed ex_run (\<lambda>_. [0])"
  by (auto simp: committed_def open_write_def ex_run_def db_start_def split: if_splits)

lemma rows_refine_commits_witness:
  "committed (ex_run\<lparr>finishing := (\<lambda>_. None)(1 := Some RCOK)\<rparr>) ((\<lambda>_. [0])(0 := [7]))"
proof -
  have "db_step WAIT_DIE 2 {1} ex_run (Committed 1) (ex_run\<lparr>finishing := (\<lambda>_. None)(1 := Some RCOK)\<rparr>)"
    using step_commit [of ex_run 1 WAIT_DIE 2 "{1}"] by (simp add: running_def ex_run_def db_start_def)
  note c = rows_refine_commits [OF ex_run_reach ex_run_committed this]
  have "write_rows ex_run 1 = {0}" by (auto simp: write_rows_def ex_run_def)
  then have "commit_effect ex_run (Committed 1) (\<lambda>_. [0]) = (\<lambda>_. [0])(0 := [7])"
    by (auto simp: commit_effect_def fun_eq_iff ex_run_def)
  with c show ?thesis by simp
qed

lemma accesses_isolated_witness:
  "let a = \<lparr>ac_type = WR, ac_row = 0, ac_orig = [0]\<rparr>; s' = ex_run\<lparr>db_data := (db_data ex_run)(0 := [9])\<rparr> in
   ac_orig a = [0] \<and> (own_write 1 a ex_run s' \<or> own_undo 1 a ex_run s')"
proof -
  let ?a = "\<lparr>ac_type = WR, ac_row = 0, ac_orig = [0]\<rparr>"
  let ?s' = "ex_run\<lparr>db_data := (db_data ex_run)(0 := [9])\<rparr>"
  have a: "?a \<in> set (accesses ex_run 1)" by (simp add: ex_run_def)
  have "db_step WAIT_DIE 2 {1} ex_run Internal (ex_run\<lparr>db_data := (db_data ex_run)(ac_row ?a := [9])\<rparr>)"
    by (rule step_write [of _ 1]) (simp_all add: running_def ex_run_def db_start_def)
  then have step: "db_step WAIT_DIE 2 {1} ex_run Internal ?s'" by simp
  have "db_data ?s' (ac_row ?a) \<noteq> db_data ex_run (ac_row ?a)" "finishing ex_run 1 \<noteq> Some RCOK" by (simp_all add: ex_run_def db_start_def)
  with accesses_isolated [OF ex_run_reach ex_run_committed step, of ?a 1] a show ?thesis unfolding Let_def by simp
qed

end
