(* ===== verification/Dl_Detect.thy ===== *)
theory Dl_Detect
  imports Db_Base
begin

text \<open>
  The deadlock detector of DBx1000 (\<open>src/DBx1000/code/concurrency_control/dl_detect.cpp\<close>): each
  thread has the transactions its transaction waits for, and a depth-first search from a
  waiting transaction looks for a cycle and picks the transaction on it with the fewest locks.
  The search is modelled on a snapshot of the dependencies.  Its recursion is bounded by fuel,
  and as much fuel as there are threads is enough.
\<close>

section \<open>Dependencies\<close>

record DepThd =
  dp_adj :: "nat list"
  dp_txnid :: int    \<comment> \<open>\<open>-1\<close>: invalid\<close>
  dp_num_locks :: int

definition get_thdid_from_txnid :: "nat \<Rightarrow> nat \<Rightarrow> nat" where
  "get_thdid_from_txnid g_thread_cnt txnid = txnid mod g_thread_cnt"

text \<open>The casts to \<open>SInt64\<close> and \<open>SInt32\<close>.\<close>

definition SInt64 :: "nat \<Rightarrow> int" where
  "SInt64 x = signed_take_bit 63 (int x)"

definition SInt32 :: "nat \<Rightarrow> int" where
  "SInt32 x = signed_take_bit 31 (int x)"

lemma SInt_small:
  "x < 2 ^ 31 \<Longrightarrow> SInt32 x = int x" "x < 2 ^ 63 \<Longrightarrow> SInt64 x = int x"
  by (auto simp: SInt32_def SInt64_def intro!: signed_take_bit_int_eq_self)

definition add_dep :: "bool \<Rightarrow> nat \<Rightarrow> nat \<Rightarrow> nat list \<Rightarrow> int \<Rightarrow> (nat \<Rightarrow> DepThd) \<Rightarrow> nat \<Rightarrow> DepThd" where
  "add_dep g_no_dl n txnid1 txnids num_locks dep =
     (if g_no_dl then dep
      else let thd1 = get_thdid_from_txnid n txnid1 in
        dep(thd1 := (dep thd1)\<lparr>dp_txnid := SInt64 txnid1, dp_num_locks := num_locks,
                               dp_adj := dp_adj (dep thd1) @ txnids\<rparr>))"

definition clear_dep :: "bool \<Rightarrow> nat \<Rightarrow> nat \<Rightarrow> (nat \<Rightarrow> DepThd) \<Rightarrow> nat \<Rightarrow> DepThd" where
  "clear_dep g_no_dl n txnid dep =
     (if g_no_dl then dep
      else let thd = get_thdid_from_txnid n txnid in
        dep(thd := (dep thd)\<lparr>dp_adj := [], dp_txnid := -1, dp_num_locks := 0\<rparr>))"

section \<open>The search\<close>

record DetectData =
  visited :: "nat \<Rightarrow> bool"
  recStack :: "nat \<Rightarrow> bool"
  loop :: bool
  onloop :: bool
  loopstart :: nat
  min_lock_num :: int
  min_txnid :: nat

text \<open>The code after the loop of \<open>nextNode\<close>.\<close>

definition leave_node :: "nat \<Rightarrow> nat \<Rightarrow> int \<Rightarrow> DetectData \<Rightarrow> DetectData" where
  "leave_node thd txnid lock_num d =
     (let d = d\<lparr>recStack := (recStack d)(thd := False)\<rparr>;
          d = (if loop d \<and> onloop d \<and> lock_num < min_lock_num d
               then d\<lparr>min_lock_num := lock_num, min_txnid := txnid\<rparr> else d)
      in if thd = loopstart d then d\<lparr>onloop := False\<rparr> else d)"

fun nextNode :: "nat \<Rightarrow> nat \<Rightarrow> (nat \<Rightarrow> DepThd) \<Rightarrow> nat \<Rightarrow> DetectData \<Rightarrow> (bool \<times> DetectData) option"
  and next_nodes :: "nat \<Rightarrow> nat \<Rightarrow> (nat \<Rightarrow> DepThd) \<Rightarrow> nat list \<Rightarrow> DetectData \<Rightarrow> DetectData option" where
  "nextNode 0 n dep txnid d = None"
| "nextNode (Suc fuel) n dep txnid d =
     (let thd = get_thdid_from_txnid n txnid in
      if visited d thd then None
      else if dp_txnid (dep thd) \<noteq> SInt64 txnid
      then Some (False, d\<lparr>visited := (visited d)(thd := True), recStack := (recStack d)(thd := False)\<rparr>)
      else (case next_nodes fuel n dep (dp_adj (dep thd))
                   (d\<lparr>visited := (visited d)(thd := True), recStack := (recStack d)(thd := True)\<rparr>) of
              None \<Rightarrow> None
            | Some d \<Rightarrow>
                (let d = leave_node thd txnid (dp_num_locks (dep thd)) d in Some (loop d, d))))"
| "next_nodes fuel n dep [] d = Some d"
| "next_nodes fuel n dep (x # xs) d =
     (let nextthd = get_thdid_from_txnid n x in
      if recStack d nextthd \<and> SInt32 x = dp_txnid (dep nextthd)
      then Some (d\<lparr>loop := True, onloop := True, loopstart := nextthd\<rparr>)
      else if \<not> visited d nextthd \<and> dp_txnid (dep nextthd) = SInt64 x
      then (case nextNode fuel n dep x d of
              None \<Rightarrow> None
            | Some (cyclic, d) \<Rightarrow> if cyclic then Some d else next_nodes fuel n dep xs d)
      else next_nodes fuel n dep xs d)"

text \<open>\<open>onloop\<close> and \<open>loopstart\<close> are whatever the allocated memory holds.\<close>

definition start_data :: "bool \<Rightarrow> nat \<Rightarrow> DetectData" where
  "start_data ol ls = \<lparr>visited = (\<lambda>_. False), recStack = (\<lambda>_. False), loop = False, onloop = ol,
     loopstart = ls, min_lock_num = 1000, min_txnid = 2 ^ 64 - 1\<rparr>"

text \<open>The return value, and the thread whose \<open>lock_abort\<close> is set.\<close>

definition detect_cycle ::
    "bool \<Rightarrow> nat \<Rightarrow> (nat \<Rightarrow> DepThd) \<Rightarrow> nat \<Rightarrow> bool \<Rightarrow> nat \<Rightarrow> (int \<times> nat option) option" where
  "detect_cycle g_no_dl n dep txnid ol ls =
     (if g_no_dl then Some (0, None)
      else case nextNode n n dep txnid (start_data ol ls) of
        None \<Rightarrow> None
      | Some (cyclic, d) \<Rightarrow>
          (if cyclic
           then (let thd_to_abort = get_thdid_from_txnid n (min_txnid d) in
                 Some (1, if dp_txnid (dep thd_to_abort) = SInt64 (min_txnid d) then Some thd_to_abort else None))
           else Some (0, None)))"

section \<open>The graph of live waits\<close>

text \<open>A thread waits for another when one of the transactions it waits for is the other's current one.\<close>

definition dep_edges :: "nat \<Rightarrow> (nat \<Rightarrow> DepThd) \<Rightarrow> (nat \<times> nat) set" where
  "dep_edges n dep =
     {(t, u). \<exists>x \<in> set (dp_adj (dep t)). u = get_thdid_from_txnid n x \<and> dp_txnid (dep u) = int x}"

definition small_ids :: "(nat \<Rightarrow> DepThd) \<Rightarrow> bool" where
  "small_ids dep \<longleftrightarrow> (\<forall>t. \<forall>x \<in> set (dp_adj (dep t)). x < 2 ^ 31)"

lemma small_idsD: "small_ids dep \<Longrightarrow> x \<in> set (dp_adj (dep t)) \<Longrightarrow> x < 2 ^ 31"
  by (simp add: small_ids_def)

definition is_cycle :: "(nat \<times> nat) set \<Rightarrow> nat list \<Rightarrow> bool" where
  "is_cycle E c \<longleftrightarrow> c \<noteq> [] \<and> successively (\<lambda>t u. (t, u) \<in> E) c \<and> (last c, hd c) \<in> E"

lemma path_rtrancl: "p \<noteq> [] \<Longrightarrow> successively (\<lambda>t u. (t, u) \<in> E) p \<Longrightarrow> x \<in> set p \<Longrightarrow> (hd p, x) \<in> E\<^sup>*"
proof (induction p)
  case (Cons t p)
  show ?case
  proof (cases "x = t")
    case False
    with Cons.prems have "p \<noteq> []" "x \<in> set p" by auto
    with Cons.prems Cons.IH have "(t, hd p) \<in> E" "(hd p, x) \<in> E\<^sup>*" by (cases p; simp)+
    then show ?thesis by simp
  qed simp
qed simp

lemma is_cycle_trancl:
  assumes "is_cycle E c"
  shows "(hd c, hd c) \<in> E\<^sup>+"
proof -
  from assms have "(hd c, last c) \<in> E\<^sup>*" "(last c, hd c) \<in> E"
    using path_rtrancl [of c E "last c"] by (auto simp: is_cycle_def)
  then show ?thesis by (rule rtrancl_into_trancl1)
qed

text \<open>The smallest number of locks along a path, and whose it is.\<close>

definition min_of :: "(nat \<Rightarrow> DepThd) \<Rightarrow> nat list \<Rightarrow> DetectData \<Rightarrow> bool" where
  "min_of dep p d \<longleftrightarrow>
     (\<forall>t \<in> set p. min_lock_num d \<le> dp_num_locks (dep t)) \<and> min_lock_num d \<le> 1000 \<and>
     (min_lock_num d < 1000 \<longrightarrow>
        (\<exists>t \<in> set p. dp_txnid (dep t) = int (min_txnid d) \<and> dp_num_locks (dep t) = min_lock_num d))"

definition found :: "nat \<Rightarrow> (nat \<Rightarrow> DepThd) \<Rightarrow> (nat \<Rightarrow> bool) \<Rightarrow> nat \<Rightarrow> nat list \<Rightarrow> DetectData \<Rightarrow> bool" where
  "found n dep G v p d \<longleftrightarrow>
     loop d \<and>
     (if onloop d
      then p \<noteq> [] \<and> hd p = v \<and> successively (\<lambda>t u. (t, u) \<in> dep_edges n dep) p \<and>
        (last p, loopstart d) \<in> dep_edges n dep \<and> G (loopstart d)
      else is_cycle (dep_edges n dep) p \<and> (v, hd p) \<in> (dep_edges n dep)\<^sup>*)"

section \<open>Depth-first search\<close>

text \<open>A node that has been left: all it waits for have been left, and it is on no cycle.\<close>

definition left :: "DetectData \<Rightarrow> nat set" where
  "left d = {t. visited d t \<and> \<not> recStack d t}"

definition search_ok :: "nat \<Rightarrow> (nat \<Rightarrow> DepThd) \<Rightarrow> DetectData \<Rightarrow> bool" where
  "search_ok n dep d \<longleftrightarrow>
     \<not> loop d \<and> min_lock_num d = 1000 \<and> (\<forall>t. recStack d t \<longrightarrow> visited d t) \<and>
     dep_edges n dep `` left d \<subseteq> left d \<and> (\<forall>t \<in> left d. (t, t) \<notin> (dep_edges n dep)\<^sup>+)"

definition grows :: "DetectData \<Rightarrow> DetectData \<Rightarrow> bool" where
  "grows d d' \<longleftrightarrow> recStack d' = recStack d \<and> (\<forall>t. visited d t \<longrightarrow> visited d' t)"

definition room :: "nat \<Rightarrow> DetectData \<Rightarrow> nat" where
  "room n d = card {t. t < n \<and> \<not> visited d t}"

lemma room_grows: "grows d d' \<Longrightarrow> room n d' \<le> room n d"
  unfolding room_def grows_def by (rule card_mono) auto

lemma grows_trans: "grows d d' \<Longrightarrow> grows d' d'' \<Longrightarrow> grows d d''"
  by (simp add: grows_def)

lemma trancl_closed: "(t, u) \<in> E\<^sup>+ \<Longrightarrow> E `` A \<subseteq> A \<Longrightarrow> t \<in> A \<Longrightarrow> u \<in> A"
  by (induction rule: trancl_induct) auto

lemma left_insert:
  assumes "E `` A \<subseteq> A" "\<forall>t \<in> A. (t, t) \<notin> E\<^sup>+" "v \<notin> A" "E `` {v} \<subseteq> A"
  shows "E `` insert v A \<subseteq> insert v A \<and> (\<forall>t \<in> insert v A. (t, t) \<notin> E\<^sup>+)"
proof -
  have "(v, v) \<notin> E\<^sup>+"
  proof
    assume "(v, v) \<in> E\<^sup>+"
    then obtain u where "(v, u) \<in> E" "(u, v) \<in> E\<^sup>*" by (meson tranclD)
    then have "u \<in> A" "u = v \<or> (u, v) \<in> E\<^sup>+" using assms(4) by (auto simp: rtrancl_eq_or_trancl)
    with trancl_closed [OF _ assms(1)] assms(3) show False by blast
  qed
  with assms show ?thesis by auto
qed

lemma leave_node_simps [simp]:
  "visited (leave_node v x k d) = visited d" "recStack (leave_node v x k d) = (recStack d)(v := False)"
  "loop (leave_node v x k d) = loop d" "loopstart (leave_node v x k d) = loopstart d"
  "onloop (leave_node v x k d) \<longleftrightarrow> onloop d \<and> v \<noteq> loopstart d"
  by (simp_all add: leave_node_def Let_def)

lemma leave_node_min:
  "loop d \<Longrightarrow> onloop d \<Longrightarrow> min_of dep p d \<Longrightarrow> dp_txnid (dep v) = int x \<Longrightarrow>
   min_of dep (v # p) (leave_node v x (dp_num_locks (dep v)) d)"
  "\<not> (loop d \<and> onloop d) \<Longrightarrow> min_lock_num (leave_node v x k d) = min_lock_num d"
  "\<not> (loop d \<and> onloop d) \<Longrightarrow> min_txnid (leave_node v x k d) = min_txnid d"
  by (auto simp: leave_node_def min_of_def Let_def)

lemma leave_found:
  assumes gr: "grows (d\<lparr>visited := (visited d)(v := True), recStack := (recStack d)(v := True)\<rparr>) d2"
    and min: "min_of dep p d2" and f: "found n dep ((recStack d)(v := True)) v (if onloop d2 then v # p else p) d2"
    and live: "dp_txnid (dep v) = int x"
  shows "\<exists>p. min_of dep p (leave_node v x (dp_num_locks (dep v)) d2) \<and>
     found n dep (recStack d) v p (leave_node v x (dp_num_locks (dep v)) d2)"
proof (cases "onloop d2")
  case True
  with f have "loop d2" by (simp add: found_def)
  then have "min_of dep (v # p) (leave_node v x (dp_num_locks (dep v)) d2)"
    using leave_node_min(1) True min live by blast
  moreover have "found n dep (recStack d) v (v # p) (leave_node v x (dp_num_locks (dep v)) d2)"
    using f True by (auto simp: found_def is_cycle_def)
  ultimately show ?thesis by blast
next
  case False
  with leave_node_min(2,3) [of d2] min have "min_of dep p (leave_node v x (dp_num_locks (dep v)) d2)"
    by (simp add: min_of_def)
  moreover have "found n dep (recStack d) v p (leave_node v x (dp_num_locks (dep v)) d2)"
    using f False by (simp add: found_def)
  ultimately show ?thesis by blast
qed

lemma leave_ok:
  assumes ok: "search_ok n dep d2" and v: "visited d2 v" "recStack d2 v"
    and adj: "dep_edges n dep `` {v} \<subseteq> left d2"
  shows "search_ok n dep (leave_node v x k d2) \<and> v \<in> left (leave_node v x k d2)"
proof -
  have l: "left (leave_node v x k d2) = insert v (left d2)" using v by (auto simp: left_def)
  have "v \<notin> left d2" using v by (simp add: left_def)
  with ok adj left_insert [of "dep_edges n dep" "left d2" v] show ?thesis
    using leave_node_min(2) [of d2] by (simp add: search_ok_def l)
qed

lemma search_correct:
  "\<lbrakk>small_ids dep; dp_txnid (dep (get_thdid_from_txnid n x)) = int x; x < 2 ^ 31; 0 < n;
      \<not> visited d (get_thdid_from_txnid n x); search_ok n dep d; room n d \<le> fuel\<rbrakk> \<Longrightarrow>
    \<exists>d'. nextNode fuel n dep x d = Some (loop d', d') \<and> grows d d' \<and>
      (if loop d' then \<exists>p. min_of dep p d' \<and> found n dep (recStack d) (get_thdid_from_txnid n x) p d'
       else search_ok n dep d' \<and> get_thdid_from_txnid n x \<in> left d')"
  "\<lbrakk>small_ids dep; set xs \<subseteq> set (dp_adj (dep t)); 0 < n; recStack d t; search_ok n dep d; room n d \<le> fuel\<rbrakk> \<Longrightarrow>
    \<exists>d'. next_nodes fuel n dep xs d = Some d' \<and> grows d d' \<and>
      (if loop d'
       then \<exists>p. min_of dep p d' \<and> found n dep (recStack d) t (if onloop d' then t # p else p) d'
       else search_ok n dep d' \<and>
         (\<forall>y \<in> set xs. dp_txnid (dep (get_thdid_from_txnid n y)) = int y \<longrightarrow> get_thdid_from_txnid n y \<in> left d'))"
proof (induction fuel n dep x d and fuel n dep xs d arbitrary: and t rule: nextNode_next_nodes.induct)
  case (1 n dep x d)
  have "get_thdid_from_txnid n x < n" using 1 by (simp add: get_thdid_from_txnid_def)
  with 1 have "get_thdid_from_txnid n x \<in> {t. t < n \<and> \<not> visited d t}" by simp
  with 1 show ?case by (auto simp: room_def)
next
  case (2 fuel n dep x d)
  let ?v = "get_thdid_from_txnid n x"
  let ?d1 = "d\<lparr>visited := (visited d)(?v := True), recStack := (recStack d)(?v := True)\<rparr>"
  have v: "?v < n" "\<not> recStack d ?v"
    using 2 by (auto simp: get_thdid_from_txnid_def search_ok_def)
  have "x < 2 ^ 63" using "2.prems"(3) by simp
  then have id: "SInt64 x = int x" by (rule SInt_small)
  have "{t. t < n \<and> \<not> visited ?d1 t} \<subset> {t. t < n \<and> \<not> visited d t}" using v "2.prems"(5) by auto
  then have "room n ?d1 < room n d" unfolding room_def by (rule psubset_card_mono [rotated]) simp
  with "2.prems"(7) have room: "room n ?d1 \<le> fuel" by simp
  have "left ?d1 = left d" using "2.prems"(5) by (auto simp: left_def)
  with "2.prems"(6) have ok1: "search_ok n dep ?d1" by (simp add: search_ok_def)
  have "\<not> dp_txnid (dep ?v) \<noteq> SInt64 x" "recStack ?d1 ?v" using id "2.prems"(2) by simp_all
  from "2.IH" [OF refl "2.prems"(5) this(1) "2.prems"(1) subset_refl "2.prems"(4) this(2) ok1 room]
  obtain d2 where d2: "next_nodes fuel n dep (dp_adj (dep ?v)) ?d1 = Some d2" and gr: "grows ?d1 d2"
    and post: "if loop d2
      then \<exists>p. min_of dep p d2 \<and> found n dep (recStack ?d1) ?v (if onloop d2 then ?v # p else p) d2
      else search_ok n dep d2 \<and> (\<forall>y \<in> set (dp_adj (dep ?v)).
        dp_txnid (dep (get_thdid_from_txnid n y)) = int y \<longrightarrow> get_thdid_from_txnid n y \<in> left d2)"
    by auto
  let ?d3 = "leave_node ?v x (dp_num_locks (dep ?v)) d2"
  have "nextNode (Suc fuel) n dep x d = Some (loop ?d3, ?d3)"
    using "2.prems"(2,5) id d2 by (simp add: Let_def)
  moreover have "grows d ?d3" using gr v(2) by (auto simp: grows_def fun_eq_iff)
  moreover have "if loop ?d3 then \<exists>p. min_of dep p ?d3 \<and> found n dep (recStack d) ?v p ?d3
      else search_ok n dep ?d3 \<and> ?v \<in> left ?d3"
  proof (cases "loop d2")
    case True
    with post obtain p where "min_of dep p d2"
      "found n dep ((recStack d)(?v := True)) ?v (if onloop d2 then ?v # p else p) d2" by auto
    from leave_found [OF gr this "2.prems"(2)] True show ?thesis by simp
  next
    case False
    with post have "dep_edges n dep `` {?v} \<subseteq> left d2" by (auto simp: dep_edges_def)
    from leave_ok [OF _ _ _ this, of x] False post gr show ?thesis by (simp add: grows_def)
  qed
  ultimately show ?case by blast
next
  case (3 fuel n dep d)
  then show ?case by (simp add: grows_def search_ok_def)
next
  case (4 fuel n dep x xs d)
  let ?u = "get_thdid_from_txnid n x"
  have "x \<in> set (dp_adj (dep t))" using "4.prems"(2) by simp
  then have "x < 2 ^ 31" by (rule small_idsD [OF "4.prems"(1)])
  then have id: "SInt32 x = int x" "SInt64 x = int x" using SInt_small [of x] by simp_all
  have xs: "set xs \<subseteq> set (dp_adj (dep t))" using "4.prems"(2) by simp
  consider (direct) "recStack d ?u" "dp_txnid (dep ?u) = int x"
    | (node) "\<not> visited d ?u" "dp_txnid (dep ?u) = int x"
    | (skip) "dp_txnid (dep ?u) = int x \<longrightarrow> ?u \<in> left d"
    by (auto simp: left_def)
  then show ?case
  proof cases
    case direct
    then have "(t, ?u) \<in> dep_edges n dep" using "4.prems"(2) by (auto simp: dep_edges_def)
    with direct id "4.prems"(5) show ?thesis
      by (auto simp: Let_def grows_def found_def min_of_def search_ok_def intro!: exI [of _ "[]"])
  next
    case node
    have nr: "\<not> recStack d ?u" using node(1) "4.prems"(5) by (auto simp: search_ok_def)
    have edge: "(t, ?u) \<in> dep_edges n dep" using node(2) "4.prems"(2) by (auto simp: dep_edges_def)
    from "4.IH"(1) [OF refl _ _ "4.prems"(1) node(2) \<open>x < 2 ^ 31\<close> "4.prems"(3) node(1) "4.prems"(5,6)] nr node id
    obtain d1 where d1: "nextNode fuel n dep x d = Some (loop d1, d1)" and gr: "grows d d1"
      and post: "if loop d1 then \<exists>p. min_of dep p d1 \<and> found n dep (recStack d) ?u p d1
        else search_ok n dep d1 \<and> ?u \<in> left d1" by auto
    show ?thesis
    proof (cases "loop d1")
      case True
      with post obtain p where p: "min_of dep p d1" "found n dep (recStack d) ?u p d1" by auto
      then have "found n dep (recStack d) t (if onloop d1 then t # p else p) d1"
        using edge by (cases p) (auto simp: found_def intro: converse_rtrancl_into_rtrancl)
      with True p gr d1 nr node id show ?thesis by (auto simp: Let_def)
    next
      case False
      with post have ok: "search_ok n dep d1" and u: "?u \<in> left d1" by auto
      have "recStack d1 t" "room n d1 \<le> fuel"
        using gr "4.prems"(4,6) room_grows [OF gr, of n] by (auto simp: grows_def)
      from "4.IH"(2) [OF refl _ _ d1 refl _ "4.prems"(1) xs "4.prems"(3) this(1) ok this(2)] nr node id False
      obtain d2 where d2: "next_nodes fuel n dep xs d1 = Some d2" and gr2: "grows d1 d2"
        and post2: "if loop d2
          then \<exists>p. min_of dep p d2 \<and> found n dep (recStack d1) t (if onloop d2 then t # p else p) d2
          else search_ok n dep d2 \<and> (\<forall>y \<in> set xs.
            dp_txnid (dep (get_thdid_from_txnid n y)) = int y \<longrightarrow> get_thdid_from_txnid n y \<in> left d2)"
        by auto
      have "?u \<in> left d2" using u gr2 by (auto simp: left_def grows_def)
      moreover have "next_nodes fuel n dep (x # xs) d = Some d2"
        using nr node id d1 False d2 by (simp add: Let_def)
      moreover have rs: "recStack d1 = recStack d" using gr by (simp add: grows_def)
      ultimately show ?thesis
        using post2 [unfolded rs] grows_trans [OF gr gr2] by (intro exI [of _ d2]) (simp split: if_splits)
    qed
  next
    case skip
    then have no: "\<not> (recStack d ?u \<and> SInt32 x = dp_txnid (dep ?u))"
      "\<not> (\<not> visited d ?u \<and> dp_txnid (dep ?u) = SInt64 x)" using id by (auto simp: left_def)
    from "4.IH"(3) [OF refl no "4.prems"(1) xs "4.prems"(3-6)]
    obtain d2 where d2: "next_nodes fuel n dep xs d = Some d2" and gr: "grows d d2"
      and post: "if loop d2
        then \<exists>p. min_of dep p d2 \<and> found n dep (recStack d) t (if onloop d2 then t # p else p) d2
        else search_ok n dep d2 \<and> (\<forall>y \<in> set xs.
          dp_txnid (dep (get_thdid_from_txnid n y)) = int y \<longrightarrow> get_thdid_from_txnid n y \<in> left d2)"
      by auto
    have "next_nodes fuel n dep (x # xs) d = Some d2"
      by (simp only: next_nodes.simps Let_def if_not_P [OF no(1)] if_not_P [OF no(2)] d2)
    moreover have "?u \<in> left d2" if "dp_txnid (dep ?u) = int x"
      using skip that gr by (auto simp: left_def grows_def)
    ultimately show ?thesis using post gr by auto
  qed
qed

lemma cycle_pred:
  assumes "is_cycle E c" "t \<in> set c"
  shows "\<exists>s. (s, t) \<in> E"
proof -
  have "(hd c, t) \<in> E\<^sup>*" using assms path_rtrancl [of c E t] by (simp add: is_cycle_def)
  then show ?thesis using assms(1) by (cases rule: rtranclE) (auto simp: is_cycle_def)
qed

lemma search_ok_start: "search_ok n dep (start_data ol ls)"
  by (simp add: search_ok_def start_data_def left_def)

lemma room_start: "room n (start_data ol ls) = n"
  by (simp add: room_def start_data_def)

section \<open>Properties\<close>

text \<open>C19: on a snapshot whose transaction ids are below \<open>2 ^ 31\<close>, \<open>detect_cycle\<close> for a live transaction
  returns, with a recursion no deeper than the number of threads; it returns 1 exactly when
  a cycle of live waits can be reached from the transaction, whoever holds the fewest locks on it; and when a transaction on the cycle
  found has fewer than 1000 locks, the one told to abort is on that cycle and has
  the fewest locks on it.\<close>

theorem detect_cycle_correct:
  assumes "small_ids dep" and "0 < n" and "x < 2 ^ 31"
    and "dp_txnid (dep (get_thdid_from_txnid n x)) = int x"
  shows "\<exists>rc victim. detect_cycle False n dep x ol ls = Some (rc, victim) \<and>
     rc = (if \<exists>u. (get_thdid_from_txnid n x, u) \<in> (dep_edges n dep)\<^sup>* \<and> (u, u) \<in> (dep_edges n dep)\<^sup>+
           then 1 else 0) \<and>
     (rc = 0 \<longrightarrow> victim = None) \<and>
     (rc = 1 \<longrightarrow> (\<exists>c. is_cycle (dep_edges n dep) c \<and>
        (get_thdid_from_txnid n x, hd c) \<in> (dep_edges n dep)\<^sup>* \<and>
        ((\<exists>t \<in> set c. dp_num_locks (dep t) < 1000) \<longrightarrow>
         (\<exists>t \<in> set c. victim = Some t \<and> (\<forall>u \<in> set c. dp_num_locks (dep t) \<le> dp_num_locks (dep u))))))"
proof -
  let ?v = "get_thdid_from_txnid n x" and ?d = "start_data ol ls" and ?E = "dep_edges n dep"
  have new: "\<not> visited ?d ?v" "recStack ?d = (\<lambda>_. False)" by (simp_all add: start_data_def)
  from search_correct(1) [OF assms(1,4,3,2) new(1) search_ok_start, of n]
  obtain d' where d': "nextNode n n dep x ?d = Some (loop d', d')"
    and post: "if loop d' then \<exists>p. min_of dep p d' \<and> found n dep (\<lambda>_. False) ?v p d'
      else search_ok n dep d' \<and> ?v \<in> left d'" unfolding new(2) by (auto simp: room_start)
  show ?thesis
  proof (cases "loop d'")
    case False
    with post have ok: "?E `` left d' \<subseteq> left d'" "\<forall>t \<in> left d'. (t, t) \<notin> ?E\<^sup>+" "?v \<in> left d'"
      by (auto simp: search_ok_def)
    have "u \<in> left d'" if "(?v, u) \<in> ?E\<^sup>*" for u
      using that ok trancl_closed [OF _ ok(1)] by (auto simp: rtrancl_eq_or_trancl)
    with ok(2) False d' show ?thesis by (auto simp: detect_cycle_def)
  next
    case True
    with post obtain c where min: "min_of dep c d'" and c: "is_cycle ?E c" "(?v, hd c) \<in> ?E\<^sup>*"
      by (auto simp: found_def split: if_splits)
    define victim where "victim = (if dp_txnid (dep (get_thdid_from_txnid n (min_txnid d'))) = SInt64 (min_txnid d')
      then Some (get_thdid_from_txnid n (min_txnid d')) else None)"
    have res: "detect_cycle False n dep x ol ls = Some (1, victim)"
      using d' True by (simp add: detect_cycle_def victim_def Let_def)
    have "\<exists>t \<in> set c. victim = Some t \<and> (\<forall>u \<in> set c. dp_num_locks (dep t) \<le> dp_num_locks (dep u))"
      if few: "\<exists>t \<in> set c. dp_num_locks (dep t) < 1000"
    proof -
      from few min have "min_lock_num d' < 1000" by (auto simp: min_of_def)
      with min obtain t where t: "t \<in> set c" "dp_txnid (dep t) = int (min_txnid d')"
        "dp_num_locks (dep t) = min_lock_num d'" by (auto simp: min_of_def)
      from cycle_pred [OF c(1) t(1)] obtain s y where y: "y \<in> set (dp_adj (dep s))"
        "t = get_thdid_from_txnid n y" "dp_txnid (dep t) = int y" by (auto simp: dep_edges_def)
      with t(2) have "min_txnid d' = y" by simp
      moreover have "y < 2 ^ 31" using assms(1) y(1) by (auto simp: small_ids_def)
      ultimately have "victim = Some t" using y(2,3) SInt_small(2) [of y] by (simp add: victim_def)
      with t min show ?thesis by (auto simp: min_of_def)
    qed
    with res c is_cycle_trancl [OF c(1)] show ?thesis by (intro exI [of _ 1] exI [of _ victim]) auto
  qed
qed

text \<open>Two transactions wait for each other, on threads 0 and 1 of three.\<close>

definition ex_deps :: "nat \<Rightarrow> nat \<Rightarrow> DepThd" where
  "ex_deps base =
     (add_dep False 3 (base + 1) [base] 4 (add_dep False 3 base [base + 1] 5
       (\<lambda>_. \<lparr>dp_adj = [], dp_txnid = -1, dp_num_locks = 0\<rparr>)))"

lemmas nextNode_numeral =
  nextNode.simps(2) [of "pred_numeral k" for k, folded numeral_eq_Suc]

lemmas detect_eval = detect_cycle_def nextNode_numeral start_data_def Let_def ex_deps_def
  add_dep_def get_thdid_from_txnid_def

lemma detect_cycle_correct_witness:
  "\<exists>c. is_cycle (dep_edges 3 (ex_deps 30)) c \<and> (0, hd c) \<in> (dep_edges 3 (ex_deps 30))\<^sup>* \<and> 1 \<in> set c"
proof -
  have res: "detect_cycle False 3 (ex_deps 30) 30 True 7 = Some (1, Some 1)"
    by (simp add: detect_eval leave_node_def SInt_small)
  have deps: "small_ids (ex_deps 30)" "dp_txnid (ex_deps 30 (get_thdid_from_txnid 3 30)) = int 30"
    by (simp_all add: small_ids_def detect_eval SInt_small)
  have locks: "dp_num_locks (ex_deps 30 t) < 1000" for t by (simp add: ex_deps_def add_dep_def Let_def)
  from detect_cycle_correct [OF deps(1) _ _ deps(2), of True 7]
  obtain c where c: "is_cycle (dep_edges 3 (ex_deps 30)) c" "(0, hd c) \<in> (dep_edges 3 (ex_deps 30))\<^sup>*"
    and pick: "(\<exists>t \<in> set c. dp_num_locks (ex_deps 30 t) < 1000) \<longrightarrow> 1 \<in> set c"
    unfolding res by (auto simp: get_thdid_from_txnid_def)
  from c(1) have "hd c \<in> set c" by (simp add: is_cycle_def)
  with pick locks c show ?thesis by blast
qed

lemma SInt_large:
  "SInt64 2147483649 = 2147483649" "SInt64 2147483650 = 2147483650"
  "SInt32 2147483649 = -2147483647" "SInt32 2147483650 = -2147483646"
  by (simp_all add: SInt_small) (simp_all add: SInt32_def signed_take_bit_eq_take_bit_shift take_bit_eq_mod)

text \<open>The test for a transaction on the recursion stack compares the id cut to 32 bits.  Two
  transactions with ids from \<open>2 ^ 31\<close> on that wait for each other are a cycle, and \<open>detect_cycle\<close>
  says that there is none.\<close>

theorem detect_cycle_misses_large_ids:
  "is_cycle (dep_edges 3 (ex_deps 2147483649)) [0, 1] \<and>
   detect_cycle False 3 (ex_deps 2147483649) 2147483649 ol ls = Some (0, None)"
proof
  show "is_cycle (dep_edges 3 (ex_deps 2147483649)) [0, 1]"
    by (simp add: is_cycle_def dep_edges_def ex_deps_def add_dep_def get_thdid_from_txnid_def SInt_large)
  show "detect_cycle False 3 (ex_deps 2147483649) 2147483649 ol ls = Some (0, None)"
    by (simp add: detect_eval SInt_large)
qed

end
