(* ===== verification/Part_Lock.thy ===== *)
theory Part_Lock
  imports Db_Base
begin

text \<open>
  Partition locks of the H-Store scheme (\<open>src/DBx1000/code/concurrency_control/plock.cpp\<close>).  A
  partition has one owner and an array of waiters in the order of their timestamps; only a
  younger transaction waits.  \<open>Plock::lock\<close> takes the partitions of a transaction one by one,
  gives them back when one of them says \<open>Abort\<close>, and waits until \<open>ready_part\<close>, the
  number of partitions it is queued at, is 0.
\<close>

section \<open>One partition\<close>

record PartMan =
  pm_owner :: "tid option"
  pm_waiters :: "nat \<Rightarrow> tid"    \<comment> \<open>an array of \<open>g_thread_cnt\<close> cells\<close>
  pm_waiter_cnt :: nat

text \<open>The cells of the new array are not initialised.\<close>

definition PartMan_init :: "(nat \<Rightarrow> tid) \<Rightarrow> PartMan" where
  "PartMan_init junk = \<lparr>pm_owner = None, pm_waiters = junk, pm_waiter_cnt = 0\<rparr>"

definition add_ready :: "tid \<Rightarrow> int \<Rightarrow> txns \<Rightarrow> txns" where
  "add_ready t k T = T(t := (T t)\<lparr>tm_ready_part := tm_ready_part (T t) + k\<rparr>)"

text \<open>The loop that makes room for \<open>txn\<close>, from the last waiter down.\<close>

fun shift_in :: "txns \<Rightarrow> tid \<Rightarrow> nat \<Rightarrow> (nat \<Rightarrow> tid) \<Rightarrow> nat \<Rightarrow> tid" where
  "shift_in T txn 0 w = w(0 := txn)"
| "shift_in T txn (Suc i) w =
     (if ts_of T (w i) < ts_of T txn then w(Suc i := txn)
      else shift_in T txn i (w(Suc i := w i)))"

definition PartMan_lock :: "nat \<Rightarrow> tid \<Rightarrow> PartMan \<times> txns \<Rightarrow> (RC \<times> PartMan \<times> txns) option" where
  "PartMan_lock g_thread_cnt txn st =
     (let (pm, T) = st in
      case pm_owner pm of
        None \<Rightarrow> Some (RCOK, pm\<lparr>pm_owner := Some txn\<rparr>, T)
      | Some owner \<Rightarrow>
          (if ts_of T owner < ts_of T txn
           then (if pm_waiter_cnt pm < g_thread_cnt
                 then Some (WAIT, pm\<lparr>pm_waiters := shift_in T txn (pm_waiter_cnt pm) (pm_waiters pm),
                                     pm_waiter_cnt := pm_waiter_cnt pm + 1\<rparr>, add_ready txn 1 T)
                 else None)
           else Some (Abort, pm, T)))"

text \<open>The loops of \<open>unlock\<close>: \<open>k\<close> rounds from index \<open>i\<close>.\<close>

fun shift_down :: "txns \<Rightarrow> nat \<Rightarrow> nat \<Rightarrow> (nat \<Rightarrow> tid) \<Rightarrow> (nat \<Rightarrow> tid) option" where
  "shift_down T 0 i w = Some w"
| "shift_down T (Suc k) i w =
     (if ts_of T (w i) < ts_of T (w (i + 1)) then shift_down T k (i + 1) (w(i := w (i + 1))) else None)"

fun drop_waiter :: "tid \<Rightarrow> nat \<Rightarrow> nat \<Rightarrow> nat \<Rightarrow> bool \<Rightarrow> (nat \<Rightarrow> tid) \<Rightarrow> bool \<times> (nat \<Rightarrow> tid)" where
  "drop_waiter txn cnt 0 i hit w = (hit, w)"
| "drop_waiter txn cnt (Suc k) i hit w =
     (let hit = (if w i = txn then True else hit);
          w = (if hit \<and> i < cnt - 1 then w(i := w (i + 1)) else w)
      in drop_waiter txn cnt k (i + 1) hit w)"

definition PartMan_unlock :: "tid \<Rightarrow> PartMan \<times> txns \<Rightarrow> (PartMan \<times> txns) option" where
  "PartMan_unlock txn st =
     (let (pm, T) = st; cnt = pm_waiter_cnt pm; w = pm_waiters pm in
      if pm_owner pm = Some txn then
        (if cnt = 0 then Some (pm\<lparr>pm_owner := None\<rparr>, T)
         else (case shift_down T (cnt - 1) 0 w of
                 None \<Rightarrow> None
               | Some w' \<Rightarrow>
                   Some (pm\<lparr>pm_owner := Some (w 0), pm_waiters := w', pm_waiter_cnt := cnt - 1\<rparr>,
                         add_ready (w 0) (-1) T)))
      else (let (hit, w') = drop_waiter txn cnt cnt 0 False w in
            if hit then Some (pm\<lparr>pm_waiters := w', pm_waiter_cnt := cnt - 1\<rparr>, add_ready txn (-1) T)
            else None))"

section \<open>All partitions\<close>

type_synonym part_sys = "(nat \<Rightarrow> PartMan) \<times> txns"

definition Plock_init :: "(nat \<Rightarrow> nat \<Rightarrow> tid) \<Rightarrow> nat \<Rightarrow> PartMan" where
  "Plock_init junk = (\<lambda>i. PartMan_init (junk i))"

definition unlock_part :: "tid \<Rightarrow> nat \<Rightarrow> part_sys \<Rightarrow> part_sys option" where
  "unlock_part txn part_id s =
     map_option (\<lambda>(pm, T). ((fst s)(part_id := pm), T)) (PartMan_unlock txn (fst s part_id, snd s))"

definition Plock_unlock :: "tid \<Rightarrow> nat list \<Rightarrow> part_sys \<Rightarrow> part_sys option" where
  "Plock_unlock txn parts s = foldM (unlock_part txn) parts s"

text \<open>The loop of \<open>lock\<close>, with the partitions it has taken.\<close>

fun lock_parts :: "nat \<Rightarrow> tid \<Rightarrow> RC \<Rightarrow> nat list \<Rightarrow> nat list \<Rightarrow> part_sys \<Rightarrow> (RC \<times> nat list \<times> part_sys) option" where
  "lock_parts n txn rc taken [] s = Some (rc, taken, s)"
| "lock_parts n txn rc taken (part_id # parts) s =
     (case PartMan_lock n txn (fst s part_id, snd s) of
        None \<Rightarrow> None
      | Some (rc, pm, T) \<Rightarrow>
          (let s = ((fst s)(part_id := pm), T) in
           if rc = Abort then Some (Abort, taken, s) else lock_parts n txn rc (taken @ [part_id]) parts s))"

text \<open>\<open>WAIT\<close> stands for the loop that waits until \<open>ready_part\<close> is 0, after which the answer is
  \<open>RCOK\<close>.  \<open>rc0\<close> is the value of the variable \<open>rc\<close>, which is not initialised.\<close>

definition Plock_lock :: "nat \<Rightarrow> tid \<Rightarrow> RC \<Rightarrow> nat list \<Rightarrow> part_sys \<Rightarrow> (RC \<times> part_sys) option" where
  "Plock_lock n txn rc0 parts s =
     (case lock_parts n txn rc0 [] parts s of
        None \<Rightarrow> None
      | Some (rc, taken, s) \<Rightarrow>
          (if rc = Abort
           then (case Plock_unlock txn taken s of
                   None \<Rightarrow> None
                 | Some s \<Rightarrow> if tm_ready_part (snd s txn) = 0 then Some (Abort, s) else None)
           else if 0 < tm_ready_part (snd s txn) then Some (WAIT, s)
           else if tm_ready_part (snd s txn) = 0 then Some (RCOK, s) else None))"

section \<open>The queue of a partition\<close>

definition waiting_list :: "PartMan \<Rightarrow> tid list" where
  "waiting_list pm = map (pm_waiters pm) [0..<pm_waiter_cnt pm]"

text \<open>The owner and then the waiters, as the array holds them.\<close>

definition queue :: "PartMan \<Rightarrow> tid list" where
  "queue pm = (case pm_owner pm of None \<Rightarrow> [] | Some t \<Rightarrow> t # waiting_list pm)"

definition part_ok :: "txns \<Rightarrow> PartMan \<Rightarrow> bool" where
  "part_ok T pm \<longleftrightarrow>
     (pm_owner pm = None \<longrightarrow> pm_waiter_cnt pm = 0) \<and>
     sorted_wrt (\<lambda>t u. ts_of T t < ts_of T u) (queue pm)"

lemma ts_of_add_ready [simp]: "ts_of (add_ready t k T) = ts_of T"
  by (simp add: add_ready_def ts_of_def fun_eq_iff)

lemma tm_add_ready [simp]:
  "tm_ts (add_ready t k T u) = tm_ts (T u)"
  "tm_ready_part (add_ready t k T u) = tm_ready_part (T u) + (if u = t then k else 0)"
  by (simp_all add: add_ready_def)

lemma part_ok_add_ready [simp]: "part_ok (add_ready t k T) pm = part_ok T pm"
  by (simp add: part_ok_def)

lemma part_ok_ts: "ts_of T' = ts_of T \<Longrightarrow> part_ok T pm \<Longrightarrow> part_ok T' pm"
  by (simp add: part_ok_def)

lemma part_ok_init: "part_ok T (PartMan_init junk)"
  by (simp add: part_ok_def PartMan_init_def queue_def)

lemma queue_empty: "part_ok T pm \<Longrightarrow> queue pm = [] \<longleftrightarrow> pm_owner pm = None"
  by (simp add: queue_def split: option.split)

subsection \<open>The loops on the array\<close>

lemma shift_in_above: "k < j \<Longrightarrow> shift_in T t k w j = w j"
  by (induction T t k w rule: shift_in.induct) auto

lemma insert_where_all: "\<forall>x \<in> set xs. P x \<Longrightarrow> insert_where P e xs = xs @ [e]"
  by (induction xs) auto

lemma insert_where_snoc: "\<not> P x \<Longrightarrow> insert_where P e (xs @ [x]) = insert_where P e xs @ [x]"
  by (induction xs) auto

lemma shift_in_list:
  "sorted_wrt (\<lambda>a b. ts_of T a < ts_of T b) (map w [0..<k]) \<Longrightarrow>
   map (shift_in T t k w) [0..<Suc k] = insert_where (\<lambda>x. ts_of T x < ts_of T t) t (map w [0..<k])"
proof (induction k arbitrary: w)
  case (Suc k)
  have split: "map w [0..<Suc k] = map w [0..<k] @ [w k]" by simp
  show ?case
  proof (cases "ts_of T (w k) < ts_of T t")
    case True
    with Suc.prems have "\<forall>x \<in> set (map w [0..<Suc k]). ts_of T x < ts_of T t"
      unfolding split by (auto simp: sorted_wrt_append)
    then have "insert_where (\<lambda>x. ts_of T x < ts_of T t) t (map w [0..<Suc k]) = map w [0..<Suc k] @ [t]"
      by (rule insert_where_all)
    moreover have "map (w(Suc k := t)) [0..<Suc k] = map w [0..<Suc k]" by (rule map_cong) auto
    ultimately show ?thesis using True by (subst upt_Suc_append) simp_all
  next
    case False
    let ?w = "w(Suc k := w k)"
    have same: "map ?w [0..<k] = map w [0..<k]" by (rule map_cong) auto
    from Suc.prems have "sorted_wrt (\<lambda>a b. ts_of T a < ts_of T b) (map ?w [0..<k])"
      unfolding same split by (simp add: sorted_wrt_append)
    from Suc.IH [OF this] have "map (shift_in T t k ?w) [0..<Suc k] =
        insert_where (\<lambda>x. ts_of T x < ts_of T t) t (map w [0..<k])" unfolding same .
    moreover have "shift_in T t k ?w (Suc k) = w k" by (simp add: shift_in_above)
    ultimately show ?thesis
      using False unfolding split by (subst upt_Suc_append) (simp_all add: insert_where_snoc)
  qed
qed simp

lemma shift_down_eq:
  "\<forall>j. i \<le> j \<and> j < i + k \<longrightarrow> ts_of T (w j) < ts_of T (w (j + 1)) \<Longrightarrow>
   shift_down T k i w = Some (\<lambda>j. if i \<le> j \<and> j < i + k then w (j + 1) else w j)"
proof (induction k arbitrary: i w)
  case (Suc k)
  let ?w = "w(i := w (i + 1))"
  have "\<forall>j. i + 1 \<le> j \<and> j < i + 1 + k \<longrightarrow> ts_of T (?w j) < ts_of T (?w (j + 1))" using Suc.prems by auto
  note IH = Suc.IH [OF this]
  have "shift_down T (Suc k) i w = shift_down T k (i + 1) ?w" using Suc.prems by simp
  also note IH
  also have "(\<lambda>j. if i + 1 \<le> j \<and> j < i + 1 + k then ?w (j + 1) else ?w j) =
      (\<lambda>j. if i \<le> j \<and> j < i + Suc k then w (j + 1) else w j)" by (auto simp: fun_eq_iff)
  finally show ?case .
qed (auto simp: fun_eq_iff)

lemma drop_waiter_found:
  "drop_waiter t cnt k i True w = (True, \<lambda>j. if i \<le> j \<and> j < i + k \<and> j < cnt - 1 then w (j + 1) else w j)"
  by (induction k arbitrary: i w) (auto simp: Let_def fun_eq_iff)

lemma drop_waiter_at:
  "i \<le> m \<Longrightarrow> m < i + k \<Longrightarrow> w m = t \<Longrightarrow> \<forall>j. i \<le> j \<and> j < m \<longrightarrow> w j \<noteq> t \<Longrightarrow>
   drop_waiter t cnt k i False w = (True, \<lambda>j. if m \<le> j \<and> j < i + k \<and> j < cnt - 1 then w (j + 1) else w j)"
proof (induction k arbitrary: i)
  case (Suc k)
  show ?case
  proof (cases "i = m")
    case True
    with Suc.prems(3) show ?thesis by (auto simp: Let_def drop_waiter_found fun_eq_iff)
  next
    case False
    with Suc.prems have "w i \<noteq> t" by simp
    moreover have "drop_waiter t cnt k (i + 1) False w =
        (True, \<lambda>j. if m \<le> j \<and> j < i + 1 + k \<and> j < cnt - 1 then w (j + 1) else w j)"
      using False Suc.prems by (intro Suc.IH) auto
    ultimately show ?thesis by (simp add: Let_def)
  qed
qed simp

lemma drop_waiter_list:
  assumes "distinct (map w [0..<cnt])" "t \<in> set (map w [0..<cnt])"
  shows "\<exists>w'. drop_waiter t cnt cnt 0 False w = (True, w') \<and> map w' [0..<cnt - 1] = remove1 t (map w [0..<cnt])"
proof -
  from assms(2) obtain m where m: "m < cnt" "w m = t" by auto
  have nb: "w j \<noteq> t" if "j < m" for j
    using assms(1) m that by (auto simp: distinct_map inj_on_def) fastforce
  with m have "drop_waiter t cnt cnt 0 False w =
      (True, \<lambda>j. if m \<le> j \<and> j < 0 + cnt \<and> j < cnt - 1 then w (j + 1) else w j)"
    by (intro drop_waiter_at) auto
  moreover have "map (\<lambda>j. if m \<le> j \<and> j < 0 + cnt \<and> j < cnt - 1 then w (j + 1) else w j) [0..<cnt - 1] =
      remove1 t (map w [0..<cnt])"
  proof -
    obtain k where k: "cnt = m + Suc k" using less_imp_Suc_add [OF m(1)] by auto
    have "[0..<cnt] = [0..<m] @ m # [Suc m..<cnt]"
      unfolding k by (simp only: upt_add_eq_append [of 0 m] upt_conv_Cons [of m] le0 less_add_Suc1)
    moreover have "t \<notin> set (map w [0..<m])"
    proof
      assume "t \<in> set (map w [0..<m])"
      then obtain x where "x < m" "w x = t" by auto
      with nb show False by blast
    qed
    ultimately have "remove1 t (map w [0..<cnt]) = map w [0..<m] @ map w [Suc m..<cnt]"
      using m(2) by (simp add: remove1_append)
    moreover have "[0..<cnt - 1] = [0..<m] @ [m..<cnt - 1]"
      using upt_add_eq_append [of 0 m k] k by simp
    moreover have "map w [Suc m..<cnt] = map (\<lambda>j. w (j + 1)) [m..<cnt - 1]"
      using m(1) by (intro nth_equalityI) auto
    ultimately show ?thesis by (auto intro!: map_cong)
  qed
  ultimately show ?thesis by blast
qed

subsection \<open>The operations on the queue\<close>

text \<open>A lock puts the transaction into the queue in the order of the timestamps, or aborts it when
  the owner is younger.\<close>

lemma lock_queue:
  assumes ok: "part_ok T pm" and n: "pm_waiter_cnt pm < n" and new: "ts_of T t \<notin> ts_of T ` set (queue pm)"
  shows "\<exists>rc pm' T'. PartMan_lock n t (pm, T) = Some (rc, pm', T') \<and> part_ok T' pm' \<and>
     (if queue pm = [] then rc = RCOK \<and> queue pm' = [t] \<and> T' = T
      else if ts_of T (hd (queue pm)) < ts_of T t
      then rc = WAIT \<and> queue pm' = insert_where (\<lambda>x. ts_of T x < ts_of T t) t (queue pm) \<and> T' = add_ready t 1 T
      else rc = Abort \<and> pm' = pm \<and> T' = T)"
proof (cases "pm_owner pm")
  case None
  with ok have "pm_waiter_cnt pm = 0" by (simp add: part_ok_def)
  with None show ?thesis by (auto simp: PartMan_lock_def queue_def part_ok_def waiting_list_def)
next
  case (Some ow)
  show ?thesis
  proof (cases "ts_of T ow < ts_of T t")
    case True
    let ?pm = "pm\<lparr>pm_waiters := shift_in T t (pm_waiter_cnt pm) (pm_waiters pm), pm_waiter_cnt := pm_waiter_cnt pm + 1\<rparr>"
    let ?P = "\<lambda>x. ts_of T x < ts_of T t"
    from ok Some have "sorted_wrt (\<lambda>a b. ts_of T a < ts_of T b) (waiting_list pm)"
      by (simp add: part_ok_def queue_def)
    from shift_in_list [OF this [unfolded waiting_list_def], of t]
    have "waiting_list ?pm = insert_where ?P t (waiting_list pm)" by (simp add: waiting_list_def)
    with Some True have q: "queue ?pm = insert_where ?P t (queue pm)" by (simp add: queue_def)
    have "sorted_wrt (\<lambda>a b. ts_of T a < ts_of T b) (insert_where ?P t xs)"
      if "sorted_wrt (\<lambda>a b. ts_of T a < ts_of T b) xs" "ts_of T t \<notin> ts_of T ` set xs" for xs
      using that by (induction xs) (auto simp: not_less order_le_less dest: less_trans)
    with ok new q Some have "part_ok T ?pm" by (simp add: part_ok_def)
    then have "part_ok (add_ready t 1 T) ?pm" by (simp)
    with Some True n q show ?thesis by (simp add: PartMan_lock_def queue_def)
  next
    case False
    with Some ok show ?thesis by (simp add: PartMan_lock_def queue_def)
  qed
qed

lemma distinct_sorted_ts: "sorted_wrt (\<lambda>a b. ts_of T a < ts_of T b) xs \<Longrightarrow> distinct xs"
  by (induction xs) auto

lemma unlock_queue:
  assumes ok: "part_ok T pm" and t: "t \<in> set (queue pm)"
  shows "\<exists>pm' T'. PartMan_unlock t (pm, T) = Some (pm', T') \<and> part_ok T' pm' \<and> queue pm' = remove1 t (queue pm) \<and>
     T' = (if t \<noteq> hd (queue pm) then add_ready t (-1) T
           else if tl (queue pm) = [] then T else add_ready (hd (tl (queue pm))) (-1) T)"
proof -
  from t obtain ow where ow: "pm_owner pm = Some ow" by (cases "pm_owner pm") (auto simp: queue_def)
  let ?w = "pm_waiters pm" and ?c = "pm_waiter_cnt pm"
  have q: "queue pm = ow # map ?w [0..<?c]" using ow by (simp add: queue_def waiting_list_def)
  with ok have sorted: "sorted_wrt (\<lambda>a b. ts_of T a < ts_of T b) (ow # map ?w [0..<?c])" by (simp add: part_ok_def)
  have sorted_remove: "sorted_wrt (\<lambda>a b. ts_of T a < ts_of T b) (remove1 t (queue pm))"
  proof -
    have "sorted_wrt R (remove1 x xs)" if "sorted_wrt R xs" for R and x :: tid and xs
      using that by (induction xs) (auto dest: subsetD [OF set_remove1_subset])
    with ok show ?thesis by (simp add: part_ok_def)
  qed
  show ?thesis
  proof (cases "t = ow")
    case True
    show ?thesis
    proof (cases "?c = 0")
      case True
      with \<open>t = ow\<close> ow q show ?thesis by (simp add: PartMan_unlock_def queue_def part_ok_def)
    next
      case False
      then obtain k where k: "?c = Suc k" by (cases ?c) auto
      have "ts_of T (?w j) < ts_of T (?w (j + 1))" if "j < k" for j
      proof -
        have "sorted_wrt (\<lambda>a b. ts_of T a < ts_of T b) (map ?w [0..<Suc k])" using sorted k by simp
        from sorted_wrt_nth_less [OF this, of j "j + 1"] that show ?thesis by (simp del: upt_Suc)
      qed
      then have sh: "shift_down T (?c - 1) 0 ?w = Some (\<lambda>j. if j < k then ?w (j + 1) else ?w j)"
        using shift_down_eq [of 0 k T ?w] by (simp add: k)
      let ?pm = "pm\<lparr>pm_owner := Some (?w 0), pm_waiters := (\<lambda>j. if j < k then ?w (j + 1) else ?w j), pm_waiter_cnt := k\<rparr>"
      have un: "PartMan_unlock t (pm, T) = Some (?pm, add_ready (?w 0) (-1) T)"
        using True ow sh k by (simp add: PartMan_unlock_def Let_def)
      have "map (\<lambda>j. if j < k then ?w (j + 1) else ?w j) [0..<k] = map (\<lambda>j. ?w (j + 1)) [0..<k]"
        by (rule map_cong) auto
      moreover have "[0..<Suc k] = 0 # map Suc [0..<k]" by (simp add: map_Suc_upt upt_conv_Cons del: upt_Suc)
      then have w: "map ?w [0..<?c] = ?w 0 # map (\<lambda>j. ?w (j + 1)) [0..<k]"
        unfolding k by (simp add: comp_def del: upt_Suc)
      ultimately have qp: "queue ?pm = map ?w [0..<?c]" by (simp add: queue_def waiting_list_def)
      then have "queue ?pm = remove1 t (queue pm)" using True q by simp
      moreover from this sorted_remove have "part_ok T ?pm" by (simp add: part_ok_def)
      then have "part_ok (add_ready (?w 0) (-1) T) ?pm" by (simp)
      ultimately show ?thesis using un True q w by auto
    qed
  next
    case False
    with t q have mem: "t \<in> set (map ?w [0..<?c])" by auto
    have "distinct (map ?w [0..<?c])" using sorted distinct_sorted_ts by auto
    from drop_waiter_list [OF this mem] obtain w' where
      w': "drop_waiter t ?c ?c 0 False ?w = (True, w')" "map w' [0..<?c - 1] = remove1 t (map ?w [0..<?c])" by blast
    let ?pm = "pm\<lparr>pm_waiters := w', pm_waiter_cnt := ?c - 1\<rparr>"
    have un: "PartMan_unlock t (pm, T) = Some (?pm, add_ready t (-1) T)"
      using False ow w' by (simp add: PartMan_unlock_def Let_def)
    have qp: "queue ?pm = remove1 t (queue pm)" using ow w' q False by (simp add: queue_def waiting_list_def)
    with sorted_remove ow have "part_ok T ?pm" by (simp add: part_ok_def)
    then have "part_ok (add_ready t (-1) T) ?pm" by (simp)
    with un qp False q show ?thesis by auto
  qed
qed

section \<open>Interleaved steps\<close>

text \<open>The transactions \<open>Ts\<close> lock and unlock partitions, in any order; a transaction locks a partition
  it is not queued at and unlocks one it is queued at.\<close>

inductive part_step :: "nat \<Rightarrow> tid set \<Rightarrow> part_sys \<Rightarrow> part_sys \<Rightarrow> bool" for n :: nat and Ts :: "tid set" where
  part_step_lock: "t \<in> Ts \<Longrightarrow> t \<notin> set (queue (P p)) \<Longrightarrow> PartMan_lock n t (P p, T) = Some (rc, pm, T') \<Longrightarrow>
     part_step n Ts (P, T) (P(p := pm), T')"
| part_step_unlock: "t \<in> set (queue (P p)) \<Longrightarrow> PartMan_unlock t (P p, T) = Some (pm, T') \<Longrightarrow>
     part_step n Ts (P, T) (P(p := pm), T')"

definition part_start :: "(nat \<Rightarrow> nat \<Rightarrow> tid) \<Rightarrow> txns \<Rightarrow> part_sys" where
  "part_start junk T = (Plock_init junk, \<lambda>t. (T t)\<lparr>tm_ready_part := 0\<rparr>)"

abbreviation part_reach :: "nat \<Rightarrow> tid set \<Rightarrow> (nat \<Rightarrow> nat \<Rightarrow> tid) \<Rightarrow> txns \<Rightarrow> part_sys \<Rightarrow> bool" where
  "part_reach n Ts junk T0 s \<equiv> (part_step n Ts)\<^sup>*\<^sup>* (part_start junk T0) s"

text \<open>The partitions a transaction is a waiter of.\<close>

definition waits_at :: "(nat \<Rightarrow> PartMan) \<Rightarrow> tid \<Rightarrow> nat set" where
  "waits_at P t = {p. t \<in> set (tl (queue (P p)))}"

definition ready_ok :: "(nat \<Rightarrow> PartMan) \<Rightarrow> txns \<Rightarrow> bool" where
  "ready_ok P T \<longleftrightarrow> (\<forall>t. finite (waits_at P t) \<and> tm_ready_part (T t) = int (card (waits_at P t)))"

definition part_inv :: "tid set \<Rightarrow> (tid \<Rightarrow> nat) \<Rightarrow> part_sys \<Rightarrow> bool" where
  "part_inv Ts ts s \<longleftrightarrow>
     (\<forall>p. part_ok (snd s) (fst s p) \<and> set (queue (fst s p)) \<subseteq> Ts) \<and>
     (\<forall>t. ts_of (snd s) t = ts t) \<and> ready_ok (fst s) (snd s)"

lemma waits_at_upd:
  "waits_at (P(p := pm)) t = (if t \<in> set (tl (queue pm)) then insert p (waits_at P t) else waits_at P t - {p})"
  by (auto simp: waits_at_def)

lemma ready_ok_add:
  "ready_ok P T \<Longrightarrow> set (tl (queue pm)) = insert u (set (tl (queue (P p)))) \<Longrightarrow> u \<notin> set (tl (queue (P p))) \<Longrightarrow>
   ready_ok (P(p := pm)) (add_ready u 1 T)"
  unfolding ready_ok_def
proof (intro allI)
  fix t
  assume r: "\<forall>t. finite (waits_at P t) \<and> tm_ready_part (T t) = int (card (waits_at P t))"
    and q: "set (tl (queue pm)) = insert u (set (tl (queue (P p))))" "u \<notin> set (tl (queue (P p)))"
  have "p \<notin> waits_at P u" using q(2) by (simp add: waits_at_def)
  moreover have "waits_at (P(p := pm)) t = (if t = u then insert p (waits_at P t) else waits_at P t)"
    using q by (auto simp: waits_at_def)
  ultimately show "finite (waits_at (P(p := pm)) t) \<and>
      tm_ready_part (add_ready u 1 T t) = int (card (waits_at (P(p := pm)) t))"
    using r by (cases "t = u") simp_all
qed

lemma ready_ok_del:
  "ready_ok P T \<Longrightarrow> set (tl (queue pm)) = set (tl (queue (P p))) - {u} \<Longrightarrow> u \<in> set (tl (queue (P p))) \<Longrightarrow>
   ready_ok (P(p := pm)) (add_ready u (-1) T)"
  unfolding ready_ok_def
proof (intro allI)
  fix t
  assume r: "\<forall>t. finite (waits_at P t) \<and> tm_ready_part (T t) = int (card (waits_at P t))"
    and q: "set (tl (queue pm)) = set (tl (queue (P p))) - {u}" "u \<in> set (tl (queue (P p)))"
  have p: "p \<in> waits_at P u" using q(2) by (simp add: waits_at_def)
  have "0 < card (waits_at P u)" using p r card_gt_0_iff by blast
  then have "int (card (waits_at P u - {p})) = int (card (waits_at P u)) - 1"
    using p r by (simp add: card_Diff_singleton)
  moreover have "waits_at (P(p := pm)) t = (if t = u then waits_at P t - {p} else waits_at P t)"
    using q by (auto simp: waits_at_def)
  ultimately show "finite (waits_at (P(p := pm)) t) \<and>
      tm_ready_part (add_ready u (-1) T t) = int (card (waits_at (P(p := pm)) t))"
    using r by (cases "t = u") simp_all
qed

lemma ready_ok_same:
  "ready_ok P T \<Longrightarrow> set (tl (queue pm)) = set (tl (queue (P p))) \<Longrightarrow> ready_ok (P(p := pm)) T"
proof -
  assume r: "ready_ok P T" and q: "set (tl (queue pm)) = set (tl (queue (P p)))"
  then have "waits_at (P(p := pm)) t = waits_at P t" for t by (auto simp: waits_at_def)
  with r show ?thesis by (simp add: ready_ok_def)
qed

lemma part_inv_start: "part_inv Ts (ts_of T) (part_start junk T)"
proof -
  have "queue (Plock_init junk p) = []" for p by (simp add: Plock_init_def PartMan_init_def queue_def)
  then show ?thesis
    by (simp add: part_inv_def part_start_def ready_ok_def waits_at_def part_ok_init Plock_init_def ts_of_def)
qed

lemma waiter_cnt_less:
  assumes inv: "part_inv Ts ts (P, T)" and n: "finite Ts" "card Ts \<le> n" and t: "t \<in> Ts" "t \<notin> set (queue (P p))"
  shows "pm_waiter_cnt (P p) < n"
proof -
  have ok: "part_ok T (P p)" and sub: "set (queue (P p)) \<subseteq> Ts" using inv by (auto simp: part_inv_def)
  then have "distinct (queue (P p))" using distinct_sorted_ts by (auto simp: part_ok_def)
  then have "length (queue (P p)) = card (set (queue (P p)))" by (simp add: distinct_card)
  also have "\<dots> < card Ts" using sub t n(1) by (intro psubset_card_mono) auto
  finally show ?thesis using n(2) ok by (auto simp: queue_def waiting_list_def part_ok_def split: option.splits)
qed

lemma part_inv_lock:
  assumes inv: "part_inv Ts ts (P, T)" and inj: "inj_on ts Ts" and t: "t \<in> Ts" "t \<notin> set (queue (P p))"
    and lock: "PartMan_lock n t (P p, T) = Some (rc, pm, T')" and n: "finite Ts" "card Ts \<le> n"
  shows "part_inv Ts ts (P(p := pm), T')"
proof -
  have ok: "part_ok T (P p)" and sub: "set (queue (P p)) \<subseteq> Ts" and ts: "ts_of T = ts"
    and r: "ready_ok P T" using inv by (auto simp: part_inv_def)
  have new: "ts_of T t \<notin> ts_of T ` set (queue (P p))"
    unfolding ts using inj t sub by (auto dest: inj_onD)
  from lock_queue [OF ok waiter_cnt_less [OF inv n t] new] lock have ok': "part_ok T' pm" and q: "if queue (P p) = []
      then rc = RCOK \<and> queue pm = [t] \<and> T' = T
      else if ts_of T (hd (queue (P p))) < ts_of T t
      then rc = WAIT \<and> queue pm = insert_where (\<lambda>x. ts_of T x < ts_of T t) t (queue (P p)) \<and> T' = add_ready t 1 T
      else rc = Abort \<and> pm = P p \<and> T' = T" by auto
  have T': "ts_of T' = ts_of T" using q by (auto split: if_splits)
  have sub': "set (queue pm) \<subseteq> Ts" using q sub t(1) by (auto split: if_splits)
  have "ready_ok (P(p := pm)) T'"
  proof (cases "rc = WAIT")
    case True
    with q have w: "queue pm = insert_where (\<lambda>x. ts_of T x < ts_of T t) t (queue (P p))" "T' = add_ready t 1 T"
      "queue (P p) \<noteq> []" "ts_of T (hd (queue (P p))) < ts_of T t" by (auto split: if_splits)
    then have "set (tl (queue pm)) = insert t (set (tl (queue (P p))))" by (cases "queue (P p)") auto
    moreover have "t \<notin> set (tl (queue (P p)))" using t(2) by (cases "queue (P p)") auto
    ultimately show ?thesis unfolding w(2) by (rule ready_ok_add [OF r])
  next
    case False
    with q have "T' = T" "set (tl (queue pm)) = set (tl (queue (P p)))" by (auto split: if_splits)
    with ready_ok_same [OF r] show ?thesis by simp
  qed
  moreover have "part_ok T' (P p')" for p'
    using inv by (intro part_ok_ts [OF T']) (simp add: part_inv_def)
  ultimately show ?thesis using inv ok' sub' T' ts by (simp add: part_inv_def)
qed

lemma part_inv_unlock:
  assumes inv: "part_inv Ts ts (P, T)" and t: "t \<in> set (queue (P p))"
    and unlock: "PartMan_unlock t (P p, T) = Some (pm, T')"
  shows "part_inv Ts ts (P(p := pm), T')"
proof -
  have ok: "part_ok T (P p)" and sub: "set (queue (P p)) \<subseteq> Ts" and r: "ready_ok P T"
    using inv by (auto simp: part_inv_def)
  from ok have d: "distinct (queue (P p))" using distinct_sorted_ts by (auto simp: part_ok_def)
  from unlock_queue [OF ok t] obtain pm1 T1 where "PartMan_unlock t (P p, T) = Some (pm1, T1)" "part_ok T1 pm1"
    "queue pm1 = remove1 t (queue (P p))" "T1 = (if t \<noteq> hd (queue (P p)) then add_ready t (-1) T
           else if tl (queue (P p)) = [] then T else add_ready (hd (tl (queue (P p)))) (-1) T)" by blast
  with unlock have ok': "part_ok T' pm" and q: "queue pm = remove1 t (queue (P p))"
    and T': "T' = (if t \<noteq> hd (queue (P p)) then add_ready t (-1) T
           else if tl (queue (P p)) = [] then T else add_ready (hd (tl (queue (P p)))) (-1) T)" by simp_all
  have ts: "ts_of T' = ts_of T" using T' by simp
  from t obtain x xs where xs: "queue (P p) = x # xs" by (cases "queue (P p)") auto
  have "ready_ok (P(p := pm)) T'"
  proof (cases "t = x")
    case True
    show ?thesis
    proof (cases xs)
      case Nil
      with True xs q T' ready_ok_same [OF r] show ?thesis by simp
    next
      case (Cons y ys)
      with True xs q d have "set (tl (queue pm)) = set (tl (queue (P p))) - {y}" "y \<in> set (tl (queue (P p)))"
        by auto
      from ready_ok_del [OF r this] True xs Cons T' show ?thesis by simp
    qed
  next
    case False
    with xs q d t have "set (tl (queue pm)) = set (tl (queue (P p))) - {t}" "t \<in> set (tl (queue (P p)))"
      by auto
    from ready_ok_del [OF r this] False xs T' show ?thesis by simp
  qed
  moreover have "set (queue pm) \<subseteq> Ts" unfolding q using sub by (meson order_trans set_remove1_subset)
  moreover have "part_ok T' (P p')" for p'
    using inv by (intro part_ok_ts [OF ts]) (simp add: part_inv_def)
  ultimately show ?thesis using inv ok' ts by (simp add: part_inv_def)
qed

lemma part_inv_reach:
  "part_reach n Ts junk T0 s \<Longrightarrow> finite Ts \<Longrightarrow> card Ts \<le> n \<Longrightarrow> inj_on (ts_of T0) Ts \<Longrightarrow> part_inv Ts (ts_of T0) s"
proof (induction rule: rtranclp_induct)
  case (step s s')
  from step.hyps(2) step.IH [OF step.prems] show ?case
  proof cases
    case (part_step_lock t P p T rc pm T')
    with step.IH [OF step.prems] part_inv_lock [OF _ step.prems(3) _ _ _ step.prems(1,2)] show ?thesis by blast
  next
    case (part_step_unlock t P p T pm T')
    with step.IH [OF step.prems] part_inv_unlock show ?thesis by blast
  qed
qed (rule part_inv_start)

section \<open>Waiting\<close>

text \<open>A waiter waits for those before it in the queue.\<close>

definition part_waiting :: "part_sys \<Rightarrow> tid set" where
  "part_waiting s = {t. waits_at (fst s) t \<noteq> {}}"

definition part_waits_on :: "part_sys \<Rightarrow> (tid \<times> tid) set" where
  "part_waits_on s = {(t, u). \<exists>p i j. i < j \<and> j < length (queue (fst s p)) \<and>
     u = queue (fst s p) ! i \<and> t = queue (fst s p) ! j}"

interpretation hs: wait_order
  "\<lambda>(Ts, ts, s). finite Ts \<and> part_inv Ts ts s"
  "\<lambda>(Ts, ts, s) t. - int (ts t)" "\<lambda>(Ts, ts, s). part_waiting s" "\<lambda>(Ts, ts, s). part_waits_on s"
proof unfold_locales
  show "finite ((\<lambda>(Ts, ts, s). part_waiting s) x)"
    if "(\<lambda>(Ts, ts, s). finite Ts \<and> part_inv Ts ts s) x" for x
  proof (cases x)
    case (fields Ts ts P T)
    with that have "set (queue (P p)) \<subseteq> Ts" for p by (simp add: part_inv_def)
    moreover have "set (tl (queue (P p))) \<subseteq> set (queue (P p))" for p by (cases "queue (P p)") auto
    ultimately have "part_waiting (P, T) \<subseteq> Ts" by (auto simp: part_waiting_def waits_at_def)
    with fields that show ?thesis by (auto intro: finite_subset)
  qed
next
  fix x and t u :: tid
  assume inv: "(\<lambda>(Ts, ts, s). finite Ts \<and> part_inv Ts ts s) x" and e: "(t, u) \<in> (\<lambda>(Ts, ts, s). part_waits_on s) x"
  obtain Ts ts P T where x: "x = (Ts, ts, P, T)" by (cases x) auto
  from e x obtain p i j where ij: "i < j" "j < length (queue (P p))" "u = queue (P p) ! i" "t = queue (P p) ! j"
    by (auto simp: part_waits_on_def)
  from inv x have "sorted_wrt (\<lambda>t u. ts_of T t < ts_of T u) (queue (P p))" "ts_of T = ts"
    by (auto simp: part_inv_def part_ok_def)
  then have "sorted_wrt (\<lambda>t u. ts t < ts u) (queue (P p))" by simp
  from sorted_wrt_nth_less [OF this ij(1,2)] ij x
  show "(\<lambda>(Ts, ts, s) t. - int (ts t)) x t < (\<lambda>(Ts, ts, s) t. - int (ts t)) x u" by simp
next
  fix x and t :: tid
  assume "t \<in> (\<lambda>(Ts, ts, s). part_waiting s) x"
  then obtain Ts ts P T p where x: "x = (Ts, ts, P, T)" and t: "t \<in> set (tl (queue (P p)))"
    by (cases x) (auto simp: part_waiting_def waits_at_def)
  from t obtain y ys where q: "queue (P p) = y # ys" "t \<in> set ys" by (cases "queue (P p)") auto
  then obtain j where "j < length ys" "ys ! j = t" by (auto simp: in_set_conv_nth)
  with q have "0 < Suc j \<and> Suc j < length (queue (fst (P, T) p)) \<and>
      y = queue (fst (P, T) p) ! 0 \<and> t = queue (fst (P, T) p) ! Suc j" by simp
  then have "(t, y) \<in> part_waits_on (P, T)" unfolding part_waits_on_def by blast
  with x show "\<exists>b. (t, b) \<in> (\<lambda>(Ts, ts, s). part_waits_on s) x" by auto
qed

section \<open>All partitions or none\<close>

text \<open>What \<open>lock\<close> has done so far: \<open>q\<close> are the queues it found.\<close>

definition taken_ok :: "tid set \<Rightarrow> (tid \<Rightarrow> nat) \<Rightarrow> (nat \<Rightarrow> tid list) \<Rightarrow> tid \<Rightarrow> nat set \<Rightarrow> part_sys \<Rightarrow> bool" where
  "taken_ok Ts ts q t A s \<longleftrightarrow>
     part_inv Ts ts s \<and>
     (\<forall>p \<in> A. t \<in> set (queue (fst s p)) \<and> remove1 t (queue (fst s p)) = q p) \<and>
     (\<forall>p. p \<notin> A \<longrightarrow> queue (fst s p) = q p \<and> t \<notin> set (q p))"

lemma remove1_insert_where: "t \<notin> set xs \<Longrightarrow> remove1 t (insert_where P t xs) = xs"
  by (induction xs) auto

lemma taken_lock:
  assumes ok: "taken_ok Ts ts q t A s" and env: "finite Ts" "card Ts \<le> n" "inj_on ts Ts" "t \<in> Ts" and p: "p \<notin> A"
  shows "\<exists>rc pm T'. PartMan_lock n t (fst s p, snd s) = Some (rc, pm, T') \<and>
     (rc = Abort \<and> taken_ok Ts ts q t A ((fst s)(p := pm), T') \<or>
      rc \<in> {RCOK, WAIT} \<and> taken_ok Ts ts q t (insert p A) ((fst s)(p := pm), T'))"
proof -
  have inv: "part_inv Ts ts (fst s, snd s)" and new: "t \<notin> set (queue (fst s p))"
    using ok p by (simp_all add: taken_ok_def)
  from inv have pok: "part_ok (snd s) (fst s p)" and sub: "set (queue (fst s p)) \<subseteq> Ts" and ts: "ts_of (snd s) = ts"
    by (auto simp: part_inv_def)
  have "ts_of (snd s) t \<notin> ts_of (snd s) ` set (queue (fst s p))"
    unfolding ts using env(3,4) new sub by (auto dest: inj_onD)
  from lock_queue [OF pok waiter_cnt_less [OF inv env(1,2,4) new] this]
  obtain rc pm T' where lock: "PartMan_lock n t (fst s p, snd s) = Some (rc, pm, T')"
    and r: "rc = Abort \<and> pm = fst s p \<or>
      rc \<in> {RCOK, WAIT} \<and> t \<in> set (queue pm) \<and> remove1 t (queue pm) = queue (fst s p)"
    by (auto simp: remove1_insert_where new split: if_splits)
  from part_inv_lock [OF inv env(3,4) new lock env(1,2)] have inv': "part_inv Ts ts ((fst s)(p := pm), T')" .
  with r ok p show ?thesis unfolding lock by (auto simp: taken_ok_def)
qed

lemma taken_unlock:
  assumes ok: "taken_ok Ts ts q t A s" and p: "p \<in> A" "t \<notin> set (q p)"
  shows "\<exists>s'. unlock_part t p s = Some s' \<and> taken_ok Ts ts q t (A - {p}) s'"
proof -
  have inv: "part_inv Ts ts (fst s, snd s)" and t: "t \<in> set (queue (fst s p))"
    using ok p by (simp_all add: taken_ok_def)
  from inv have pok: "part_ok (snd s) (fst s p)" by (simp add: part_inv_def)
  from unlock_queue [OF pok t] obtain pm T' where u: "PartMan_unlock t (fst s p, snd s) = Some (pm, T')"
    "queue pm = remove1 t (queue (fst s p))" by blast
  have "part_inv Ts ts ((fst s)(p := pm), T')" by (rule part_inv_unlock [OF inv t u(1)])
  with u ok p have "taken_ok Ts ts q t (A - {p}) ((fst s)(p := pm), T')" by (auto simp: taken_ok_def)
  with u(1) show ?thesis by (simp add: unlock_part_def)
qed

lemma taken_unlock_all:
  "taken_ok Ts ts q t (set parts) s \<Longrightarrow> distinct parts \<Longrightarrow> \<forall>p. t \<notin> set (q p) \<Longrightarrow>
   \<exists>s'. Plock_unlock t parts s = Some s' \<and> taken_ok Ts ts q t {} s'"
proof (induction parts arbitrary: s)
  case (Cons p parts)
  from taken_unlock [OF Cons.prems(1), of p] Cons.prems(3) obtain s1 where
    s1: "unlock_part t p s = Some s1" "taken_ok Ts ts q t (set (p # parts) - {p}) s1" by auto
  with Cons.prems(2) have "taken_ok Ts ts q t (set parts) s1" by simp
  from Cons.IH [OF this] Cons.prems s1(1) show ?case by (simp add: Plock_unlock_def)
qed (simp add: Plock_unlock_def)

lemma taken_lock_parts:
  assumes env: "finite Ts" "card Ts \<le> n" "inj_on ts Ts" "t \<in> Ts"
  shows "taken_ok Ts ts q t (set taken) s \<Longrightarrow> distinct (taken @ parts) \<Longrightarrow> rc \<in> {RCOK, WAIT} \<or> parts \<noteq> [] \<Longrightarrow>
   \<exists>rc' taken' s'. lock_parts n t rc taken parts s = Some (rc', taken', s') \<and> distinct taken' \<and>
     taken_ok Ts ts q t (set taken') s' \<and>
     (rc' = Abort \<or> rc' \<in> {RCOK, WAIT} \<and> set taken' = set (taken @ parts))"
proof (induction parts arbitrary: rc taken s)
  case (Cons p parts)
  have "p \<notin> set taken" using Cons.prems(2) by simp
  from taken_lock [OF Cons.prems(1) env this] obtain rc1 pm T1 where
    l: "PartMan_lock n t (fst s p, snd s) = Some (rc1, pm, T1)"
    and r: "rc1 = Abort \<and> taken_ok Ts ts q t (set taken) ((fst s)(p := pm), T1) \<or>
      rc1 \<in> {RCOK, WAIT} \<and> taken_ok Ts ts q t (insert p (set taken)) ((fst s)(p := pm), T1)" by blast
  show ?case
  proof (cases "rc1 = Abort")
    case True
    with l r Cons.prems(2) show ?thesis by (simp add: Let_def)
  next
    case False
    with r have rc1: "rc1 \<in> {RCOK, WAIT} \<or> parts \<noteq> []"
      and ok: "taken_ok Ts ts q t (set (taken @ [p])) ((fst s)(p := pm), T1)" by auto
    have "distinct ((taken @ [p]) @ parts)" using Cons.prems(2) by simp
    from Cons.IH [OF ok this rc1] False l show ?thesis by (simp add: Let_def)
  qed
qed auto

section \<open>Properties\<close>

text \<open>C31: \<open>Plock::lock\<close>, called by a transaction that is queued nowhere for distinct partitions, fails no
  assertion and is all or nothing: on \<open>Abort\<close> every queue is as it was; otherwise the transaction is in
  the queues of exactly these partitions, and the answer is \<open>RCOK\<close> when it owns all of them,
  \<open>WAIT\<close> when not.\<close>

theorem plock_all_or_nothing:
  assumes "part_reach n Ts junk T0 s" and "finite Ts" and "card Ts \<le> n" and "inj_on (ts_of T0) Ts"
    and "t \<in> Ts" and "\<forall>p. t \<notin> set (queue (fst s p))" and "distinct parts" and "parts \<noteq> []"
  shows "\<exists>rc s'. Plock_lock n t rc0 parts s = Some (rc, s') \<and> rc \<in> {RCOK, WAIT, Abort} \<and>
     (if rc = Abort then \<forall>p. queue (fst s' p) = queue (fst s p)
      else \<forall>p. t \<in> set (queue (fst s' p)) \<longleftrightarrow> p \<in> set parts) \<and>
     (rc = RCOK \<longrightarrow> (\<forall>p \<in> set parts. pm_owner (fst s' p) = Some t)) \<and>
     (rc = WAIT \<longrightarrow> (\<exists>p \<in> set parts. pm_owner (fst s' p) \<noteq> Some t))"
proof -
  let ?q = "\<lambda>p. queue (fst s p)"
  have inv: "part_inv Ts (ts_of T0) s" by (rule part_inv_reach [OF assms(1-4)])
  then have "taken_ok Ts (ts_of T0) ?q t (set []) s" using assms(6) by (simp add: taken_ok_def)
  from taken_lock_parts [OF assms(2-5) this, of parts rc0] assms(7,8)
  obtain rc taken s1 where l: "lock_parts n t rc0 [] parts s = Some (rc, taken, s1)" "distinct taken"
    "taken_ok Ts (ts_of T0) ?q t (set taken) s1"
    "rc = Abort \<or> rc \<in> {RCOK, WAIT} \<and> set taken = set parts" by auto
  have ready: "tm_ready_part (snd s' t) = int (card (waits_at (fst s') t)) \<and> finite (waits_at (fst s') t)"
    if "taken_ok Ts (ts_of T0) ?q t A s'" for A s'
    using that by (simp add: taken_ok_def part_inv_def ready_ok_def)
  show ?thesis
  proof (cases "rc = Abort")
    case True
    from taken_unlock_all [OF l(3,2)] assms(6) obtain s2 where
      s2: "Plock_unlock t taken s1 = Some s2" "taken_ok Ts (ts_of T0) ?q t {} s2" by blast
    then have q: "queue (fst s2 p) = ?q p" for p by (simp add: taken_ok_def)
    have "t \<notin> set (tl (?q p))" for p using assms(6) by (cases "?q p") (auto dest: spec [of _ p])
    then have "waits_at (fst s2) t = {}" by (simp add: waits_at_def q)
    with ready [OF s2(2)] have "tm_ready_part (snd s2 t) = 0" by simp
    with l(1) True s2(1) q show ?thesis by (simp add: Plock_lock_def)
  next
    case False
    with l(4) have set: "set taken = set parts" by blast
    have mem: "t \<in> set (queue (fst s1 p)) \<longleftrightarrow> p \<in> set parts" for p
      using l(3) by (cases "p \<in> set parts") (auto simp: taken_ok_def set)
    have own: "p \<in> waits_at (fst s1) t \<longleftrightarrow> p \<in> set parts \<and> pm_owner (fst s1 p) \<noteq> Some t" for p
    proof -
      have "part_ok (snd s1) (fst s1 p)" using l(3) by (simp add: taken_ok_def part_inv_def)
      then have "distinct (queue (fst s1 p))" using distinct_sorted_ts by (auto simp: part_ok_def)
      then show ?thesis unfolding mem [symmetric] waits_at_def
        by (cases "pm_owner (fst s1 p)") (auto simp: queue_def)
    qed
    have "0 \<le> tm_ready_part (snd s1 t)" "tm_ready_part (snd s1 t) = 0 \<longleftrightarrow> waits_at (fst s1) t = {}"
      using ready [OF l(3)] by simp_all
    moreover from this(1) l(1) False have "Plock_lock n t rc0 parts s =
        Some (if tm_ready_part (snd s1 t) = 0 then RCOK else WAIT, s1)" by (simp add: Plock_lock_def)
    ultimately show ?thesis using mem own by auto
  qed
qed

text \<open>Transaction 2 owns partition 1, which transaction 1 asks for after partition 0.\<close>

definition ex_parts :: part_sys where
  "ex_parts = ((Plock_init (\<lambda>_ _. 9))(1 := \<lparr>pm_owner = Some 2, pm_waiters = \<lambda>_. 9, pm_waiter_cnt = 0\<rparr>), ex_txns)"

lemma ex_start: "part_start (\<lambda>_ _. 9) ex_txns = (Plock_init (\<lambda>_ _. 9), ex_txns)"
  by (simp add: part_start_def ex_txns_def fun_eq_iff)

lemma ex_parts_reach: "part_reach 2 {1, 2} (\<lambda>_ _. 9) ex_txns ex_parts"
proof -
  have "part_step 2 {1, 2} (part_start (\<lambda>_ _. 9) ex_txns) ex_parts" unfolding ex_start ex_parts_def
    by (rule part_step_lock [of 2 _ _ _ _ _ RCOK])
      (simp_all add: Plock_init_def PartMan_init_def queue_def PartMan_lock_def)
  then show ?thesis by blast
qed

lemma plock_all_or_nothing_witness:
  "\<exists>s'. Plock_lock 2 1 Commit [0, 1] ex_parts = Some (Abort, s') \<and> (\<forall>p. queue (fst s' p) = queue (fst ex_parts p))"
proof -
  have none: "\<forall>p. 1 \<notin> set (queue (fst ex_parts p))" and inj: "inj_on (ts_of ex_txns) {1, 2}"
    by (auto simp: ex_parts_def queue_def waiting_list_def Plock_init_def PartMan_init_def inj_on_def ts_of_def ex_txns_def)
  have "map_option fst (Plock_lock 2 1 Commit [0, 1] ex_parts) = Some Abort"
    by (simp add: Plock_lock_def PartMan_lock_def ex_parts_def Plock_init_def PartMan_init_def ts_of_def
        ex_txns_def Plock_unlock_def unlock_part_def PartMan_unlock_def)
  with plock_all_or_nothing [OF ex_parts_reach _ _ inj _ none, of "[0, 1]" Commit] show ?thesis by auto
qed

text \<open>C39: transactions that lock and unlock partitions in any order never deadlock: no transaction waits
  for itself through others, and every chain of waiting transactions ends at one that waits for
  no partition, whose \<open>ready_part\<close> is 0.\<close>

theorem plock_no_deadlock:
  assumes "part_reach n Ts junk T0 s" and "finite Ts" and "card Ts \<le> n" and "inj_on (ts_of T0) Ts"
  shows "acyclic (part_waits_on s) \<and>
     (\<forall>t \<in> part_waiting s. \<exists>u. (t, u) \<in> (part_waits_on s)\<^sup>+ \<and> tm_ready_part (snd s u) = 0)"
proof -
  have inv: "(\<lambda>(Ts, ts, s). finite Ts \<and> part_inv Ts ts s) (Ts, ts_of T0, s)"
    using part_inv_reach [OF assms] assms(2) by simp
  have "tm_ready_part (snd s u) = 0" if "u \<notin> part_waiting s" for u
    using part_inv_reach [OF assms] that by (simp add: part_inv_def ready_ok_def part_waiting_def)
  with hs.no_cycle [OF inv] hs.chain_ends [OF inv] show ?thesis by fastforce
qed

lemma plock_no_deadlock_witness:
  "\<exists>s. part_waiting s = {1} \<and> acyclic (part_waits_on s) \<and>
     (\<exists>u. (1, u) \<in> (part_waits_on s)\<^sup>+ \<and> tm_ready_part (snd s u) = 0)"
proof -
  let ?T = "\<lambda>t. (ex_txns t)\<lparr>tm_ts := 3 - t\<rparr>" and ?P = "Plock_init (\<lambda>_ _. 9)"
  let ?pm = "\<lparr>pm_owner = Some 2, pm_waiters = \<lambda>_. 9, pm_waiter_cnt = 0\<rparr>"
  let ?pm' = "\<lparr>pm_owner = Some 2, pm_waiters = (\<lambda>_. 9)(0 := 1), pm_waiter_cnt = 1\<rparr>"
  let ?s = "(?P(0 := ?pm))(0 := ?pm')" and ?T' = "add_ready 1 1 ?T"
  have start: "part_start (\<lambda>_ _. 9) ?T = (?P, ?T)" by (simp add: part_start_def ex_txns_def fun_eq_iff)
  have "part_step 2 {1, 2} (?P, ?T) (?P(0 := ?pm), ?T)"
    by (rule part_step_lock [of 2 _ _ _ _ _ RCOK])
      (simp_all add: Plock_init_def PartMan_init_def queue_def PartMan_lock_def)
  moreover have "part_step 2 {1, 2} (?P(0 := ?pm), ?T) (?s, ?T')"
    by (rule part_step_lock [of 1 _ _ _ _ _ WAIT])
      (simp_all add: queue_def PartMan_lock_def waiting_list_def ts_of_def)
  ultimately have r: "part_reach 2 {1, 2} (\<lambda>_ _. 9) ?T (?s, ?T')"
    unfolding start by (rule converse_rtranclp_into_rtranclp [OF _ r_into_rtranclp])
  have "part_waiting (?s, ?T') = {1}"
    by (auto simp: part_waiting_def waits_at_def queue_def waiting_list_def Plock_init_def PartMan_init_def)
  moreover have "inj_on (ts_of ?T) {1, 2}" by (simp add: inj_on_def ts_of_def)
  ultimately show ?thesis using plock_no_deadlock [OF r] by (intro exI [of _ "(?s, ?T')"]) simp
qed

end
