(* ===== verification/Row_Mvcc.thy ===== *)
theory Row_Mvcc
  imports Db_Base
begin

text \<open>
  Multi-version timestamp ordering on one row (\<open>src/DBx1000/code/concurrency_control/row_mvcc.cpp\<close>).
  A row has a history of versions and of reads, newest first, a stack of prewrites and a stack of reads
  that wait.  The history lists are doubly linked in the code (theory \<open>Db_List\<close>); a pointer to a
  version is its value, since a version never changes.  A failing assertion is \<open>None\<close>.
\<close>

section \<open>State\<close>

record MVReqEntry =
  rq_txn :: tid
  rq_ts :: nat

record MVHisEntry =
  hs_ts :: nat
  hs_row :: "rdata option"    \<comment> \<open>\<open>NULL\<close> in the history of reads\<close>

record Row_mvcc =
  mv_row :: rdata
  mv_readreq :: "MVReqEntry list"
  mv_prereq :: "MVReqEntry list"
  mv_readhis :: "MVHisEntry list"
  mv_writehis :: "MVHisEntry list"
  whis_len :: nat
  rhis_len :: nat
  rreq_len :: nat
  preq_len :: nat

type_synonym mvcc = "Row_mvcc \<times> txns"

definition HIS_RECYCLE_LEN :: nat where "HIS_RECYCLE_LEN = 10"
definition MAX_PRE_REQ :: nat where "MAX_PRE_REQ = 1024"
definition MAX_READ_REQ :: nat where "MAX_READ_REQ = 1024"

definition mvcc_init :: "rdata \<Rightarrow> Row_mvcc" where
  "mvcc_init row = \<lparr>mv_row = row, mv_readreq = [], mv_prereq = [], mv_readhis = [], mv_writehis = [],
     whis_len = 0, rhis_len = 0, rreq_len = 0, preq_len = 0\<rparr>"

section \<open>Histories and buffers\<close>

text \<open>The loop of \<open>clear_history\<close> walks from the tail by \<open>prev\<close>: its list is the reversed history.\<close>

fun clear_from :: "nat \<Rightarrow> MVHisEntry list \<Rightarrow> rdata option \<Rightarrow> nat \<Rightarrow> (MVHisEntry list \<times> rdata option \<times> nat) option" where
  "clear_from ts (his # prev # rest) row len =
     (if hs_ts prev < ts
      then (if hs_ts his < hs_ts prev then clear_from ts (prev # rest) (hs_row his) (len - 1) else None)
      else Some (his # prev # rest, row, len))"
| "clear_from ts hs row len = Some (hs, row, len)"

definition clear_history :: "TsType \<Rightarrow> nat \<Rightarrow> Row_mvcc \<Rightarrow> (rdata option \<times> Row_mvcc) option" where
  "clear_history type ts m =
     (case type of
        R_REQ \<Rightarrow> map_option (\<lambda>(hs, row, len). (row, m\<lparr>mv_readhis := rev hs, rhis_len := len\<rparr>))
                   (clear_from ts (rev (mv_readhis m)) None (rhis_len m))
      | W_REQ \<Rightarrow> map_option (\<lambda>(hs, row, len). (row, m\<lparr>mv_writehis := rev hs, whis_len := len\<rparr>))
                   (clear_from ts (rev (mv_writehis m)) None (whis_len m))
      | _ \<Rightarrow> None)"

definition mv_buffer_req :: "TsType \<Rightarrow> tid \<Rightarrow> mvcc \<Rightarrow> Row_mvcc" where
  "mv_buffer_req type txn st =
     (let (m, T) = st; req = \<lparr>rq_txn = txn, rq_ts = ts_of T txn\<rparr> in
      if type = R_REQ then m\<lparr>rreq_len := rreq_len m + 1, mv_readreq := req # mv_readreq m\<rparr>
      else if type = P_REQ then m\<lparr>preq_len := preq_len m + 1, mv_prereq := req # mv_prereq m\<rparr>
      else m)"

text \<open>\<open>debuffer_req\<close> with a transaction: its prewrite is unlinked.\<close>

definition debuffer_prewrite :: "tid \<Rightarrow> Row_mvcc \<Rightarrow> Row_mvcc option" where
  "debuffer_prewrite txn m =
     (case unlink (\<lambda>req. rq_txn req = txn) (mv_prereq m) of
        None \<Rightarrow> None
      | Some (_, qs) \<Rightarrow> Some (m\<lparr>mv_prereq := qs, preq_len := preq_len m - 1\<rparr>))"

text \<open>\<open>debuffer_req\<close> without one: the waiting reads up to the oldest prewrite, last one first.\<close>

definition min_prewrite :: "MVReqEntry list \<Rightarrow> nat" where
  "min_prewrite qs = fold (\<lambda>q m. if rq_ts q < m then rq_ts q else m) qs (2 ^ 32)"

definition debuffer_reads :: "Row_mvcc \<Rightarrow> MVReqEntry list \<times> Row_mvcc" where
  "debuffer_reads m =
     (let min_pts = min_prewrite (mv_prereq m);
          ready = filter (\<lambda>q. rq_ts q \<le> min_pts) (mv_readreq m)
      in (rev ready, m\<lparr>mv_readreq := filter (\<lambda>q. \<not> rq_ts q \<le> min_pts) (mv_readreq m),
                       rreq_len := rreq_len m - length ready\<rparr>))"

definition insert_history :: "nat \<Rightarrow> rdata option \<Rightarrow> Row_mvcc \<Rightarrow> Row_mvcc" where
  "insert_history ts row m =
     (let entry = \<lparr>hs_ts = ts, hs_row = row\<rparr> in
      if row = None
      then m\<lparr>rhis_len := rhis_len m + 1, mv_readhis := insert_where (\<lambda>his. ts < hs_ts his) entry (mv_readhis m)\<rparr>
      else m\<lparr>whis_len := whis_len m + 1, mv_writehis := insert_where (\<lambda>his. ts < hs_ts his) entry (mv_writehis m)\<rparr>)"

section \<open>Conflicts\<close>

definition pts_before :: "nat \<Rightarrow> MVReqEntry list \<Rightarrow> nat" where
  "pts_before ts qs = fold (\<lambda>q pts. if rq_ts q < ts \<and> pts < rq_ts q then rq_ts q else pts) qs 0"

fun rts_after :: "nat \<Rightarrow> nat \<Rightarrow> MVHisEntry list \<Rightarrow> nat" where
  "rts_after ts rts [] = rts"
| "rts_after ts rts (his # hs) = (if ts < hs_ts his then rts_after ts (hs_ts his) hs else rts)"

fun version_between :: "nat \<Rightarrow> nat \<Rightarrow> MVHisEntry list \<Rightarrow> bool" where
  "version_between pts rts [] = False"
| "version_between pts rts (w # ws) =
     (if pts < hs_ts w then (if hs_ts w < rts then True else version_between pts rts ws) else False)"

definition conflict :: "TsType \<Rightarrow> nat \<Rightarrow> Row_mvcc \<Rightarrow> bool" where
  "conflict type ts m =
     (if type = R_REQ
      then (let pts = pts_before ts (mv_prereq m) in
            if pts = 0 then False else \<not> version_between pts ts (mv_writehis m))
      else (let rts = rts_after ts 0 (mv_readhis m) in
            if rts = 0 then False else \<not> version_between ts rts (mv_writehis m)))"

section \<open>Access\<close>

text \<open>The newest version that is not younger, or the row itself.\<close>

definition version_for :: "nat \<Rightarrow> Row_mvcc \<Rightarrow> rdata" where
  "version_for ts m =
     (case dropWhile (\<lambda>w. ts < hs_ts w) (mv_writehis m) of
        [] \<Rightarrow> mv_row m
      | w # _ \<Rightarrow> the (hs_row w))"

definition wake_read :: "MVReqEntry \<Rightarrow> mvcc \<Rightarrow> mvcc" where
  "wake_read req = (\<lambda>(m, T). (insert_history (rq_ts req) None m,
     T(rq_txn req := (T (rq_txn req))\<lparr>tm_cur_row := version_for (rq_ts req) m, tm_ts_ready := True\<rparr>)))"

definition mv_update_buffer :: "mvcc \<Rightarrow> mvcc" where
  "mv_update_buffer st = (let (ready, m) = debuffer_reads (fst st) in fold wake_read ready (m, snd st))"

text \<open>The four kinds of requests.\<close>

definition mv_request :: "tid \<Rightarrow> TsType \<Rightarrow> rdata \<Rightarrow> mvcc \<Rightarrow> (RC \<times> mvcc) option" where
  "mv_request txn type row st =
     (let (m, T) = st; ts = ts_of T txn in
      case type of
        R_REQ \<Rightarrow>
          (if conflict R_REQ ts m \<and> rreq_len m < MAX_READ_REQ
           then Some (WAIT, mv_buffer_req R_REQ txn (m, T), T(txn := (T txn)\<lparr>tm_ts_ready := False\<rparr>))
           else if conflict R_REQ ts m then Some (Abort, m, T)
           else Some (RCOK, insert_history ts None m, T(txn := (T txn)\<lparr>tm_cur_row := version_for ts m\<rparr>)))
      | P_REQ \<Rightarrow>
          (if conflict P_REQ ts m then Some (Abort, m, T)
           else if preq_len m < MAX_PRE_REQ then Some (RCOK, mv_buffer_req P_REQ txn (m, T), T)
           else Some (Abort, m, T))
      | W_REQ \<Rightarrow>
          map_option (\<lambda>m. (RCOK, mv_update_buffer (m, T))) (debuffer_prewrite txn (insert_history ts (Some row) m))
      | XP_REQ \<Rightarrow>
          map_option (\<lambda>m. (RCOK, mv_update_buffer (m, T))) (debuffer_prewrite txn m))"

text \<open>Old reads and versions are dropped; \<open>t_th\<close> is what \<open>get_min_ts\<close> returns.\<close>

definition mv_recycle :: "nat \<Rightarrow> Row_mvcc \<Rightarrow> Row_mvcc option" where
  "mv_recycle t_th m =
     (if HIS_RECYCLE_LEN < whis_len m \<or> HIS_RECYCLE_LEN < rhis_len m
      then (case (if mv_readhis m \<noteq> [] \<and> hs_ts (last (mv_readhis m)) < t_th
                  then clear_history R_REQ t_th m else Some (None, m)) of
              None \<Rightarrow> None
            | Some (_, m) \<Rightarrow>
                (if 1 < whis_len m \<and> hs_ts (last (butlast (mv_writehis m))) < t_th
                 then map_option (\<lambda>(latest_row, m). case latest_row of None \<Rightarrow> m | Some row \<Rightarrow> m\<lparr>mv_row := row\<rparr>)
                        (clear_history W_REQ t_th m)
                 else Some m))
      else Some m)"

definition mv_access :: "tid \<Rightarrow> TsType \<Rightarrow> rdata \<Rightarrow> nat \<Rightarrow> mvcc \<Rightarrow> (RC \<times> mvcc) option" where
  "mv_access txn type row t_th st =
     (case mv_request txn type row st of
        None \<Rightarrow> None
      | Some (rc, m, T) \<Rightarrow>
          (if rc = RCOK then map_option (\<lambda>m. (rc, m, T)) (mv_recycle t_th m) else Some (rc, m, T)))"

section \<open>The searches\<close>

abbreviation newest_first :: "MVHisEntry list \<Rightarrow> bool" where
  "newest_first hs \<equiv> sorted_wrt (\<lambda>a b. hs_ts b < hs_ts a) hs"

lemma pts_before_spec:
  "(pts_before ts qs = 0 \<or> pts_before ts qs \<in> rq_ts ` set qs \<and> pts_before ts qs < ts) \<and>
   (\<forall>q \<in> set qs. rq_ts q < ts \<longrightarrow> rq_ts q \<le> pts_before ts qs)"
proof -
  let ?f = "\<lambda>q pts. if rq_ts q < ts \<and> pts < rq_ts q then rq_ts q else pts"
  have "(fold ?f qs p = p \<or> fold ?f qs p \<in> rq_ts ` set qs \<and> fold ?f qs p < ts) \<and> p \<le> fold ?f qs p \<and>
      (\<forall>q \<in> set qs. rq_ts q < ts \<longrightarrow> rq_ts q \<le> fold ?f qs p)" for p
  proof (induction qs arbitrary: p)
    case (Cons q qs)
    from Cons.IH [of "?f q p"] show ?case by auto
  qed simp
  from this [of 0] show ?thesis by (simp add: pts_before_def)
qed

lemma rts_after_spec:
  "newest_first hs \<Longrightarrow> \<forall>h \<in> set hs. hs_ts h < r \<or> r = 0 \<Longrightarrow>
   (rts_after ts r hs = r \<or> ts < rts_after ts r hs) \<and>
   (\<forall>h \<in> set hs. ts < hs_ts h \<longrightarrow> rts_after ts r hs \<noteq> 0 \<and> rts_after ts r hs \<le> hs_ts h)"
proof (induction hs arbitrary: r)
  case (Cons h hs)
  show ?case
  proof (cases "ts < hs_ts h")
    case True
    from Cons.prems(1) have "newest_first hs" "\<forall>x \<in> set hs. hs_ts x < hs_ts h \<or> hs_ts h = 0" by auto
    from Cons.IH [OF this] True have IH: "rts_after ts (hs_ts h) hs = hs_ts h \<or> ts < rts_after ts (hs_ts h) hs"
      "\<forall>x \<in> set hs. ts < hs_ts x \<longrightarrow> rts_after ts (hs_ts h) hs \<noteq> 0 \<and> rts_after ts (hs_ts h) hs \<le> hs_ts x" by auto
    have "rts_after ts (hs_ts h) hs \<le> hs_ts h"
    proof (cases "\<exists>x \<in> set hs. ts < hs_ts x")
      case True
      then obtain x where "x \<in> set hs" "ts < hs_ts x" by blast
      with IH(2) Cons.prems(1) show ?thesis by fastforce
    next
      case False
      then show ?thesis by (cases hs) auto
    qed
    with IH True show ?thesis by auto
  next
    case False
    with Cons.prems(1) show ?thesis by auto
  qed
qed simp

lemma version_between_iff:
  "newest_first ws \<Longrightarrow> version_between p r ws \<longleftrightarrow> (\<exists>w \<in> set ws. p < hs_ts w \<and> hs_ts w < r)"
  by (induction ws) (auto dest: order.strict_trans)

lemma min_prewrite_le: "q \<in> set qs \<Longrightarrow> min_prewrite qs \<le> rq_ts q"
proof -
  let ?f = "\<lambda>q m. if rq_ts q < m then rq_ts q else m"
  have "fold ?f qs m \<le> m \<and> (\<forall>q \<in> set qs. fold ?f qs m \<le> rq_ts q)" for m
  proof (induction qs arbitrary: m)
    case (Cons q qs)
    from Cons.IH [of "?f q m"] show ?case by auto
  qed simp
  then show "q \<in> set qs \<Longrightarrow> min_prewrite qs \<le> rq_ts q" by (simp add: min_prewrite_def)
qed

text \<open>What the test of conflicts means.\<close>

definition covered :: "nat \<Rightarrow> nat \<Rightarrow> MVHisEntry list \<Rightarrow> bool" where
  "covered p r ws \<longleftrightarrow> (p < r \<longrightarrow> (\<exists>w \<in> set ws. p < hs_ts w \<and> hs_ts w < r))"

lemma no_conflict_read:
  assumes "newest_first (mv_writehis m)" "\<not> conflict R_REQ ts m" "\<forall>q \<in> set (mv_prereq m). 0 < rq_ts q"
  shows "\<forall>q \<in> set (mv_prereq m). covered (rq_ts q) ts (mv_writehis m)"
proof
  fix q assume q: "q \<in> set (mv_prereq m)"
  show "covered (rq_ts q) ts (mv_writehis m)"
  proof (cases "rq_ts q < ts")
    case True
    with pts_before_spec [of ts "mv_prereq m"] q have le: "rq_ts q \<le> pts_before ts (mv_prereq m)" by blast
    with q assms(3) have "pts_before ts (mv_prereq m) \<noteq> 0" by fastforce
    with assms(2) have "version_between (pts_before ts (mv_prereq m)) ts (mv_writehis m)"
      by (simp add: conflict_def Let_def)
    with le show ?thesis unfolding version_between_iff [OF assms(1)] covered_def by (meson le_less_trans)
  qed (simp add: covered_def)
qed

lemma no_conflict_prewrite:
  assumes "newest_first (mv_writehis m)" "newest_first (mv_readhis m)" "\<not> conflict P_REQ ts m"
  shows "\<forall>h \<in> set (mv_readhis m). covered ts (hs_ts h) (mv_writehis m)"
proof
  fix h assume h: "h \<in> set (mv_readhis m)"
  show "covered ts (hs_ts h) (mv_writehis m)"
  proof (cases "ts < hs_ts h")
    case True
    with rts_after_spec [OF assms(2), of 0 ts] h have le: "rts_after ts 0 (mv_readhis m) \<le> hs_ts h"
      "rts_after ts 0 (mv_readhis m) \<noteq> 0" by auto
    with assms(3) have "version_between ts (rts_after ts 0 (mv_readhis m)) (mv_writehis m)"
      by (simp add: conflict_def Let_def)
    with le show ?thesis unfolding version_between_iff [OF assms(1)] covered_def by (meson less_le_trans)
  qed (simp add: covered_def)
qed

section \<open>The invariant\<close>

text \<open>\<open>low\<close> bounds the timestamps of the transactions that still run from below.\<close>

definition reqs_ok :: "nat \<Rightarrow> txns \<Rightarrow> MVReqEntry list \<Rightarrow> nat set \<Rightarrow> bool" where
  "reqs_ok low T qs done \<longleftrightarrow>
     distinct (map rq_ts qs) \<and> rq_ts ` set qs \<inter> done = {} \<and>
     (\<forall>q \<in> set qs. ts_of T (rq_txn q) = rq_ts q \<and> low \<le> rq_ts q)"

definition reads_covered :: "Row_mvcc \<Rightarrow> bool" where
  "reads_covered m \<longleftrightarrow>
     (\<forall>h \<in> set (mv_readhis m). \<forall>q \<in> set (mv_prereq m). covered (rq_ts q) (hs_ts h) (mv_writehis m))"

definition lens_ok :: "Row_mvcc \<Rightarrow> bool" where
  "lens_ok m \<longleftrightarrow>
     whis_len m = length (mv_writehis m) \<and> rhis_len m = length (mv_readhis m) \<and>
     rreq_len m = length (mv_readreq m) \<and> preq_len m = length (mv_prereq m)"

definition mv_inv :: "nat \<Rightarrow> mvcc \<Rightarrow> bool" where
  "mv_inv low st \<longleftrightarrow>
     (let (m, T) = st in
      0 < low \<and> newest_first (mv_writehis m) \<and> newest_first (mv_readhis m) \<and>
      (\<forall>w \<in> set (mv_writehis m). hs_row w \<noteq> None) \<and>
      reqs_ok low T (mv_prereq m) (hs_ts ` set (mv_writehis m)) \<and>
      reqs_ok low T (mv_readreq m) (hs_ts ` set (mv_readhis m)) \<and>
      reads_covered m \<and> lens_ok m)"

text \<open>The requests a transaction makes: a read or a prewrite it has not made yet, and the end of a prewrite.\<close>

definition mv_allowed :: "nat \<Rightarrow> tid \<Rightarrow> TsType \<Rightarrow> mvcc \<Rightarrow> bool" where
  "mv_allowed low t type st \<longleftrightarrow>
     (let (m, T) = st; ts = ts_of T t in
      low \<le> ts \<and>
      (case type of
         R_REQ \<Rightarrow> ts \<notin> hs_ts ` set (mv_readhis m) \<union> rq_ts ` set (mv_readreq m)
       | P_REQ \<Rightarrow> ts \<notin> hs_ts ` set (mv_writehis m) \<union> rq_ts ` set (mv_prereq m)
       | _ \<Rightarrow> t \<in> rq_txn ` set (mv_prereq m)))"

lemma mv_inv_init: "mv_inv 1 (mvcc_init row, T)"
  by (simp add: mv_inv_def mvcc_init_def reqs_ok_def reads_covered_def lens_ok_def)

lemma newest_first_insert:
  "newest_first hs \<Longrightarrow> ts \<notin> hs_ts ` set hs \<Longrightarrow>
   newest_first (insert_where (\<lambda>h. ts < hs_ts h) \<lparr>hs_ts = ts, hs_row = row\<rparr> hs)"
proof (induction hs)
  case (Cons h hs)
  then show ?case by (auto simp: not_less intro: le_less_trans dest: order.strict_trans order_le_imp_less_or_eq)
qed simp

lemma reqs_ok_Cons:
  "reqs_ok low T qs done \<Longrightarrow> ts_of T t \<notin> done \<union> rq_ts ` set qs \<Longrightarrow> low \<le> ts_of T t \<Longrightarrow>
   reqs_ok low T (\<lparr>rq_txn = t, rq_ts = ts_of T t\<rparr> # qs) done"
  by (auto simp: reqs_ok_def)

lemma reqs_ok_sub:
  "reqs_ok low T qs done \<Longrightarrow> set qs' \<subseteq> set qs \<Longrightarrow> distinct (map rq_ts qs') \<Longrightarrow> done' \<subseteq> done \<Longrightarrow> reqs_ok low T qs' done'"
  unfolding reqs_ok_def by blast

lemma reqs_ok_ts: "reqs_ok low T qs done \<Longrightarrow> ts_of T' = ts_of T \<Longrightarrow> reqs_ok low T' qs done"
  unfolding reqs_ok_def by (elim ssubst)

subsection \<open>Versions\<close>

lemma version_insert:
  "newest_first ws \<Longrightarrow> p \<notin> hs_ts ` set ws \<Longrightarrow> r \<noteq> p \<Longrightarrow> covered p r ws \<Longrightarrow> hs_ts e = p \<Longrightarrow>
   (case dropWhile (\<lambda>w. r < hs_ts w) (insert_where (\<lambda>h. p < hs_ts h) e ws) of [] \<Rightarrow> d | w # _ \<Rightarrow> the (hs_row w)) =
   (case dropWhile (\<lambda>w. r < hs_ts w) ws of [] \<Rightarrow> d | w # _ \<Rightarrow> the (hs_row w))"
proof (induction ws)
  case Nil
  then show ?case by (auto simp: covered_def)
next
  case (Cons w ws)
  show ?case
  proof (cases "p < hs_ts w")
    case True
    show ?thesis
    proof (cases "r < hs_ts w")
      case True
      with Cons.prems(4) have "covered p r ws" by (auto simp: covered_def)
      with Cons True \<open>p < hs_ts w\<close> show ?thesis by simp
    qed (use True in simp)
  next
    case False
    with Cons.prems(2) have "hs_ts w < p" by (auto simp: not_less order_le_less)
    with Cons.prems have "\<not> p < r" by (fastforce simp: covered_def)
    with False Cons.prems(3,5) show ?thesis by simp
  qed
qed

lemma version_for_insert:
  assumes "newest_first (mv_writehis m)" "p \<notin> hs_ts ` set (mv_writehis m)" "r \<noteq> p" "covered p r (mv_writehis m)"
  shows "version_for r (insert_history p (Some row) m) = version_for r m"
  using version_insert [OF assms, of "\<lparr>hs_ts = p, hs_row = Some row\<rparr>" "mv_row m"]
  by (simp add: version_for_def insert_history_def cong: list.case_cong)

lemma version_for_same:
  "mv_writehis m' = mv_writehis m \<Longrightarrow> mv_row m' = mv_row m \<Longrightarrow> version_for r m' = version_for r m"
  by (simp add: version_for_def cong: list.case_cong)

subsection \<open>Waking reads\<close>

lemma wake_reads:
  assumes "newest_first (mv_readhis m)" "distinct (map rq_ts ready)" "rq_ts ` set ready \<inter> hs_ts ` set (mv_readhis m) = {}"
  shows "\<exists>m' T'. fold wake_read ready (m, T) = (m', T') \<and> newest_first (mv_readhis m') \<and>
     hs_ts ` set (mv_readhis m') = hs_ts ` set (mv_readhis m) \<union> rq_ts ` set ready \<and>
     rhis_len m' + length (mv_readhis m) = rhis_len m + length (mv_readhis m') \<and>
     mv_writehis m' = mv_writehis m \<and> mv_row m' = mv_row m \<and> mv_prereq m' = mv_prereq m \<and>
     mv_readreq m' = mv_readreq m \<and> whis_len m' = whis_len m \<and> rreq_len m' = rreq_len m \<and>
     preq_len m' = preq_len m \<and> ts_of T' = ts_of T"
  using assms
proof (induction ready arbitrary: m T)
  case (Cons q ready)
  let ?m = "insert_history (rq_ts q) None m"
  let ?T = "T(rq_txn q := (T (rq_txn q))\<lparr>tm_cur_row := version_for (rq_ts q) m, tm_ts_ready := True\<rparr>)"
  have m: "mv_readhis ?m = insert_where (\<lambda>h. rq_ts q < hs_ts h) \<lparr>hs_ts = rq_ts q, hs_row = None\<rparr> (mv_readhis m)"
    "rhis_len ?m = rhis_len m + 1" "mv_writehis ?m = mv_writehis m" "mv_row ?m = mv_row m"
    "mv_prereq ?m = mv_prereq m" "mv_readreq ?m = mv_readreq m" "whis_len ?m = whis_len m"
    "rreq_len ?m = rreq_len m" "preq_len ?m = preq_len m"
    by (simp_all add: insert_history_def)
  have "newest_first (mv_readhis ?m)" unfolding m using Cons.prems by (intro newest_first_insert) auto
  moreover have "distinct (map rq_ts ready)" using Cons.prems by simp
  moreover have "rq_ts ` set ready \<inter> hs_ts ` set (mv_readhis ?m) = {}" using Cons.prems unfolding m by auto
  ultimately obtain m' T' where IH: "fold wake_read ready (?m, ?T) = (m', T')" "newest_first (mv_readhis m')"
     "hs_ts ` set (mv_readhis m') = hs_ts ` set (mv_readhis ?m) \<union> rq_ts ` set ready"
     "rhis_len m' + length (mv_readhis ?m) = rhis_len ?m + length (mv_readhis m')"
     "mv_writehis m' = mv_writehis ?m" "mv_row m' = mv_row ?m" "mv_prereq m' = mv_prereq ?m"
     "mv_readreq m' = mv_readreq ?m" "whis_len m' = whis_len ?m" "rreq_len m' = rreq_len ?m"
     "preq_len m' = preq_len ?m" "ts_of T' = ts_of ?T" using Cons.IH [of ?m ?T] by blast
  have "fold wake_read (q # ready) (m, T) = (m', T')" using IH(1) by (simp add: wake_read_def)
  moreover have "hs_ts ` set (mv_readhis m') = hs_ts ` set (mv_readhis m) \<union> rq_ts ` set (q # ready)"
    using IH(3) unfolding m by auto
  moreover have "rhis_len m' + length (mv_readhis m) = rhis_len m + length (mv_readhis m')"
    using IH(4) unfolding m by simp
  ultimately show ?case using IH(2,5-) m(3-) by (intro exI [of _ m'] exI [of _ T']) simp
qed simp

lemma update_buffer_ok:
  assumes inv: "mv_inv low (m, T)"
  shows "\<exists>m' T'. mv_update_buffer (m, T) = (m', T') \<and> mv_inv low (m', T') \<and> mv_writehis m' = mv_writehis m \<and>
     mv_row m' = mv_row m \<and> hs_ts ` set (mv_readhis m) \<subseteq> hs_ts ` set (mv_readhis m') \<and> ts_of T' = ts_of T"
proof -
  let ?min = "min_prewrite (mv_prereq m)"
  let ?ready = "rev (filter (\<lambda>q. rq_ts q \<le> ?min) (mv_readreq m))" and ?rest = "filter (\<lambda>q. \<not> rq_ts q \<le> ?min) (mv_readreq m)"
  let ?m = "m\<lparr>mv_readreq := ?rest, rreq_len := rreq_len m - length ?ready\<rparr>"
  have reqs: "reqs_ok low T (mv_readreq m) (hs_ts ` set (mv_readhis m))" using inv by (simp add: mv_inv_def)
  then have d: "distinct (map rq_ts ?ready)" "distinct (map rq_ts ?rest)"
    "rq_ts ` set ?ready \<inter> rq_ts ` set ?rest = {}" "rq_ts ` set (mv_readreq m) \<inter> hs_ts ` set (mv_readhis m) = {}"
    by (auto simp: reqs_ok_def distinct_map_filter rev_map [symmetric])
  have nf: "newest_first (mv_readhis ?m)" using inv by (simp add: mv_inv_def)
  have "rq_ts ` set ?ready \<inter> hs_ts ` set (mv_readhis ?m) = {}" using d(4) by auto
  from wake_reads [OF nf d(1) this, of T] obtain m' T' where
    w: "fold wake_read ?ready (?m, T) = (m', T')" "newest_first (mv_readhis m')"
      "hs_ts ` set (mv_readhis m') = hs_ts ` set (mv_readhis m) \<union> rq_ts ` set ?ready"
      "rhis_len m' + length (mv_readhis m) = rhis_len m + length (mv_readhis m')"
      "mv_writehis m' = mv_writehis m" "mv_row m' = mv_row m" "mv_prereq m' = mv_prereq m"
      "mv_readreq m' = ?rest" "whis_len m' = whis_len m" "rreq_len m' = rreq_len m - length ?ready"
      "preq_len m' = preq_len m" "ts_of T' = ts_of T" by auto
  have upd: "mv_update_buffer (m, T) = (m', T')"
    using w(1) by (simp add: mv_update_buffer_def debuffer_reads_def Let_def)
  have r1: "reqs_ok low T' ?rest (hs_ts ` set (mv_readhis m'))"
  proof (rule reqs_ok_ts [OF _ w(12)])
    have "rq_ts ` set ?rest \<inter> hs_ts ` set (mv_readhis m') = {}" unfolding w(3) using d(3,4) by auto
    with reqs d(2) show "reqs_ok low T ?rest (hs_ts ` set (mv_readhis m'))" by (simp add: reqs_ok_def)
  qed
  have "length ?ready + length ?rest = length (mv_readreq m)" by (simp add: sum_length_filter_compl)
  then have lens: "lens_ok m'" using inv w by (auto simp: mv_inv_def lens_ok_def)
  have cov: "reads_covered m'" unfolding reads_covered_def
  proof (intro ballI)
    fix h q assume h: "h \<in> set (mv_readhis m')" and q: "q \<in> set (mv_prereq m')"
    from h w(3) have "hs_ts h \<in> hs_ts ` set (mv_readhis m) \<or> hs_ts h \<in> rq_ts ` set ?ready" by blast
    then show "covered (rq_ts q) (hs_ts h) (mv_writehis m')"
    proof
      assume "hs_ts h \<in> hs_ts ` set (mv_readhis m)"
      then obtain h' where "h' \<in> set (mv_readhis m)" "hs_ts h' = hs_ts h" by auto
      moreover have "reads_covered m" using inv by (simp add: mv_inv_def)
      ultimately show ?thesis using q w(5,7) unfolding reads_covered_def by metis
    next
      assume "hs_ts h \<in> rq_ts ` set ?ready"
      then have "hs_ts h \<le> ?min" by auto
      also have "?min \<le> rq_ts q" using q w(7) by (intro min_prewrite_le) simp
      finally show ?thesis by (simp add: covered_def)
    qed
  qed
  have "mv_inv low (m', T')" using inv w r1 lens cov reqs_ok_ts [OF _ w(12)] by (simp add: mv_inv_def)
  with upd w show ?thesis by auto
qed

subsection \<open>Recycling\<close>

lemma clear_from_spec:
  "sorted_wrt (\<lambda>a b. hs_ts a < hs_ts b) hs \<Longrightarrow>
   \<exists>rem kept. hs = rem @ kept \<and>
     clear_from ts hs row len = Some (kept, if rem = [] then row else hs_row (last rem), len - length rem) \<and>
     (rem \<noteq> [] \<longrightarrow> kept \<noteq> [] \<and> hs_ts (hd kept) < ts)"
proof (induction ts hs row len rule: clear_from.induct)
  case (1 ts his prev rest row len)
  show ?case
  proof (cases "hs_ts prev < ts")
    case True
    have "hs_ts his < hs_ts prev" "sorted_wrt (\<lambda>a b. hs_ts a < hs_ts b) (prev # rest)" using "1.prems" by auto
    from "1.IH" [OF True this] obtain rem kept where r: "prev # rest = rem @ kept"
      "clear_from ts (prev # rest) (hs_row his) (len - 1) =
        Some (kept, if rem = [] then hs_row his else hs_row (last rem), len - 1 - length rem)"
      "rem \<noteq> [] \<longrightarrow> kept \<noteq> [] \<and> hs_ts (hd kept) < ts" by blast
    have "kept \<noteq> [] \<and> hs_ts (hd kept) < ts" using r(1,3) True by (cases rem) auto
    moreover have "clear_from ts (his # prev # rest) row len =
        Some (kept, hs_row (last (his # rem)), len - length (his # rem))"
      using True \<open>hs_ts his < hs_ts prev\<close> r(2) by (cases "rem = []") simp_all
    ultimately show ?thesis using r(1) by (intro exI [of _ "his # rem"] exI [of _ kept]) simp
  next
    case False
    then show ?thesis by (intro exI [of _ "[]"] exI [of _ "his # prev # rest"]) simp
  qed
qed auto

lemma clear_reads:
  assumes "newest_first (mv_readhis m)"
  shows "\<exists>row hs old. mv_readhis m = hs @ old \<and> (old \<noteq> [] \<longrightarrow> hs \<noteq> [] \<and> hs_ts (last hs) < ts) \<and>
     clear_history R_REQ ts m = Some (row, m\<lparr>mv_readhis := hs, rhis_len := rhis_len m - length old\<rparr>)"
proof -
  have "sorted_wrt (\<lambda>a b. hs_ts a < hs_ts b) (rev (mv_readhis m))" using assms by (simp add: sorted_wrt_rev)
  from clear_from_spec [OF this, of ts None "rhis_len m"] obtain rem kept where
    k: "rev (mv_readhis m) = rem @ kept" "clear_from ts (rev (mv_readhis m)) None (rhis_len m) =
      Some (kept, if rem = [] then None else hs_row (last rem), rhis_len m - length rem)"
    "rem \<noteq> [] \<longrightarrow> kept \<noteq> [] \<and> hs_ts (hd kept) < ts" by blast
  from k(1) have "mv_readhis m = rev kept @ rev rem" by (metis rev_append rev_rev_ident)
  with k show ?thesis
    by (intro exI [of _ "if rem = [] then None else hs_row (last rem)"] exI [of _ "rev kept"] exI [of _ "rev rem"])
      (simp add: clear_history_def last_rev)
qed

lemma clear_versions:
  assumes "newest_first (mv_writehis m)"
  shows "\<exists>ws old. mv_writehis m = ws @ old \<and> (old \<noteq> [] \<longrightarrow> ws \<noteq> [] \<and> hs_ts (last ws) < ts) \<and>
     clear_history W_REQ ts m = Some (if old = [] then None else hs_row (hd old),
       m\<lparr>mv_writehis := ws, whis_len := whis_len m - length old\<rparr>)"
proof -
  have "sorted_wrt (\<lambda>a b. hs_ts a < hs_ts b) (rev (mv_writehis m))" using assms by (simp add: sorted_wrt_rev)
  from clear_from_spec [OF this, of ts None "whis_len m"] obtain rem kept where
    k: "rev (mv_writehis m) = rem @ kept" "clear_from ts (rev (mv_writehis m)) None (whis_len m) =
      Some (kept, if rem = [] then None else hs_row (last rem), whis_len m - length rem)"
    "rem \<noteq> [] \<longrightarrow> kept \<noteq> [] \<and> hs_ts (hd kept) < ts" by blast
  from k(1) have "mv_writehis m = rev kept @ rev rem" by (metis rev_append rev_rev_ident)
  with k show ?thesis
    by (intro exI [of _ "rev kept"] exI [of _ "rev rem"]) (simp add: clear_history_def last_rev hd_rev)
qed

lemma newest_first_append: "newest_first (xs @ ys) \<Longrightarrow> x \<in> set xs \<Longrightarrow> y \<in> set ys \<Longrightarrow> hs_ts y < hs_ts x"
  by (auto simp: sorted_wrt_append)

text \<open>Recycling keeps what a running transaction can see.\<close>

definition keeps :: "nat \<Rightarrow> Row_mvcc \<Rightarrow> Row_mvcc \<Rightarrow> bool" where
  "keeps low m m' \<longleftrightarrow>
     (\<forall>r \<ge> low. version_for r m' = version_for r m) \<and>
     (\<forall>r \<ge> low. r \<in> hs_ts ` set (mv_readhis m) \<longrightarrow> r \<in> hs_ts ` set (mv_readhis m')) \<and>
     (\<forall>r \<ge> low. r \<in> hs_ts ` set (mv_writehis m) \<longrightarrow> r \<in> hs_ts ` set (mv_writehis m'))"

lemma keeps_trans: "keeps low m m' \<Longrightarrow> keeps low m' m'' \<Longrightarrow> keeps low m m''"
  by (simp add: keeps_def)

lemma drop_reads_ok:
  assumes inv: "mv_inv low (m, T)" and hs: "mv_readhis m = hs @ old" "old \<noteq> [] \<longrightarrow> hs \<noteq> [] \<and> hs_ts (last hs) < t_th"
    and t: "t_th \<le> low"
  shows "mv_inv low (m\<lparr>mv_readhis := hs, rhis_len := rhis_len m - length old\<rparr>, T) \<and>
     keeps low m (m\<lparr>mv_readhis := hs, rhis_len := rhis_len m - length old\<rparr>)"
proof -
  let ?m = "m\<lparr>mv_readhis := hs, rhis_len := rhis_len m - length old\<rparr>"
  have nf: "newest_first (hs @ old)" using inv hs(1) by (simp add: mv_inv_def)
  have "mv_inv low (?m, T)"
    using inv nf reqs_ok_sub [of low T "mv_readreq m" "hs_ts ` set (mv_readhis m)" "mv_readreq m" "hs_ts ` set hs"]
    unfolding mv_inv_def Let_def split reads_covered_def lens_ok_def
    by (auto simp: hs(1) sorted_wrt_append reqs_ok_def)
  moreover have old: "hs_ts h < low" if "h \<in> set old" for h
  proof -
    from that hs(2) have "hs \<noteq> []" "hs_ts (last hs) < t_th" by auto
    with newest_first_append [OF nf _ that, of "last hs"] t show ?thesis by simp
  qed
  have "keeps low m ?m"
    using hs(1) by (auto simp: keeps_def version_for_def cong: list.case_cong dest: old)
  ultimately show ?thesis by blast
qed

lemma drop_versions_ok:
  assumes inv: "mv_inv low (m, T)" and ws: "mv_writehis m = ws @ old" "old \<noteq> [] \<longrightarrow> ws \<noteq> [] \<and> hs_ts (last ws) < t_th"
    and t: "t_th \<le> low" and row: "old = [] \<longrightarrow> row = mv_row m"
  shows "mv_inv low (m\<lparr>mv_writehis := ws, whis_len := whis_len m - length old, mv_row := row\<rparr>, T) \<and>
     keeps low m (m\<lparr>mv_writehis := ws, whis_len := whis_len m - length old, mv_row := row\<rparr>)"
proof -
  let ?m = "m\<lparr>mv_writehis := ws, whis_len := whis_len m - length old, mv_row := row\<rparr>"
  have nf: "newest_first (ws @ old)" using inv ws(1) by (simp add: mv_inv_def)
  have old: "hs_ts w < low" if "w \<in> set old" for w
  proof -
    from that ws(2) have "ws \<noteq> []" "hs_ts (last ws) < t_th" by auto
    with newest_first_append [OF nf _ that, of "last ws"] t show ?thesis by simp
  qed
  have cov: "covered p r ws" if "covered p r (mv_writehis m)" "low \<le> p" for p r
    using that old by (fastforce simp: covered_def ws(1))
  have "\<forall>q \<in> set (mv_prereq m). low \<le> rq_ts q" using inv by (simp add: mv_inv_def reqs_ok_def)
  with inv cov have "reads_covered ?m" by (simp add: mv_inv_def reads_covered_def)
  moreover have "reqs_ok low T (mv_prereq m) (hs_ts ` set ws)"
    using inv ws(1) by (auto simp: mv_inv_def intro: reqs_ok_sub) (auto simp: reqs_ok_def)
  moreover have "newest_first ws" using nf by (simp add: sorted_wrt_append)
  moreover have "lens_ok ?m" using inv by (simp add: mv_inv_def lens_ok_def ws(1))
  moreover have "\<forall>w \<in> set ws. hs_row w \<noteq> None" using inv ws(1) by (simp add: mv_inv_def)
  ultimately have "mv_inv low (?m, T)" using inv by (simp add: mv_inv_def)
  moreover have "version_for r ?m = version_for r m" if r: "low \<le> r" for r
  proof (cases "old = []")
    case True
    with ws(1) row show ?thesis by (simp add: version_for_def cong: list.case_cong)
  next
    case False
    with ws(2) t r have "ws \<noteq> []" "\<not> r < hs_ts (last ws)" by auto
    then have "dropWhile (\<lambda>w. r < hs_ts w) (ws @ old) = dropWhile (\<lambda>w. r < hs_ts w) ws @ old"
      "dropWhile (\<lambda>w. r < hs_ts w) ws \<noteq> []"
      by (auto intro!: dropWhile_append1 [of "last ws"] simp: dropWhile_eq_Nil_conv)
    then show ?thesis by (cases "dropWhile (\<lambda>w. r < hs_ts w) ws") (simp_all add: version_for_def ws(1))
  qed
  moreover have "\<forall>r \<ge> low. r \<in> hs_ts ` set (mv_writehis m) \<longrightarrow> r \<in> hs_ts ` set ws"
    using old by (fastforce simp: ws(1))
  ultimately show ?thesis by (simp add: keeps_def)
qed

lemma recycle_ok:
  assumes inv: "mv_inv low (m, T)" and t: "t_th \<le> low"
  shows "\<exists>m'. mv_recycle t_th m = Some m' \<and> mv_inv low (m', T) \<and> keeps low m m'"
proof -
  have refl: "keeps low m m" for m by (simp add: keeps_def)
  let ?reads = "if mv_readhis m \<noteq> [] \<and> hs_ts (last (mv_readhis m)) < t_th
    then clear_history R_REQ t_th m else Some (None, m)"
  have "\<exists>row m1. ?reads = Some (row, m1) \<and> mv_inv low (m1, T) \<and> keeps low m m1"
  proof (cases "mv_readhis m \<noteq> [] \<and> hs_ts (last (mv_readhis m)) < t_th")
    case True
    have "newest_first (mv_readhis m)" using inv by (simp add: mv_inv_def)
    from clear_reads [OF this, of t_th] obtain row hs old where c: "mv_readhis m = hs @ old"
      "old \<noteq> [] \<longrightarrow> hs \<noteq> [] \<and> hs_ts (last hs) < t_th"
      "clear_history R_REQ t_th m = Some (row, m\<lparr>mv_readhis := hs, rhis_len := rhis_len m - length old\<rparr>)" by blast
    from drop_reads_ok [OF inv c(1,2) t] c(3) True show ?thesis by auto
  qed (use inv refl in auto)
  then obtain row m1 where m1: "?reads = Some (row, m1)" and inv1: "mv_inv low (m1, T)" and k1: "keeps low m m1"
    by blast
  show ?thesis
  proof (cases "HIS_RECYCLE_LEN < whis_len m \<or> HIS_RECYCLE_LEN < rhis_len m")
    case False
    with inv refl show ?thesis by (simp add: mv_recycle_def)
  next
    case len: True
    show ?thesis
    proof (cases "1 < whis_len m1 \<and> hs_ts (last (butlast (mv_writehis m1))) < t_th")
      case False
      have "mv_recycle t_th m = Some m1"
        unfolding mv_recycle_def m1 by (simp only: if_P [OF len] option.case prod.case if_not_P [OF False])
      with inv1 k1 show ?thesis by blast
    next
      case True
      have "newest_first (mv_writehis m1)" using inv1 by (simp add: mv_inv_def)
      from clear_versions [OF this, of t_th] obtain ws old where c: "mv_writehis m1 = ws @ old"
        "old \<noteq> [] \<longrightarrow> ws \<noteq> [] \<and> hs_ts (last ws) < t_th"
        "clear_history W_REQ t_th m1 = Some (if old = [] then None else hs_row (hd old),
          m1\<lparr>mv_writehis := ws, whis_len := whis_len m1 - length old\<rparr>)" by blast
      define row' where "row' = (case if old = [] then None else hs_row (hd old) of None \<Rightarrow> mv_row m1 | Some d \<Rightarrow> d)"
      let ?m2 = "m1\<lparr>mv_writehis := ws, whis_len := whis_len m1 - length old, mv_row := row'\<rparr>"
      have "mv_recycle t_th m = Some ?m2"
        using len m1 True unfolding mv_recycle_def c(3) by (simp add: c(3) row'_def split: option.splits)
      moreover have "mv_inv low (?m2, T) \<and> keeps low m1 ?m2"
        by (rule drop_versions_ok [OF inv1 c(1,2) t]) (simp add: row'_def)
      ultimately show ?thesis using keeps_trans [OF k1] by blast
    qed
  qed
qed

subsection \<open>Requests\<close>

text \<open>What a request does to the reads made before it.\<close>

definition stable :: "nat \<Rightarrow> Row_mvcc \<Rightarrow> Row_mvcc \<Rightarrow> bool" where
  "stable low m m' \<longleftrightarrow>
     (\<forall>r \<ge> low. r \<in> hs_ts ` set (mv_readhis m) \<longrightarrow> r \<in> hs_ts ` set (mv_readhis m') \<and>
        (r \<notin> hs_ts ` set (mv_writehis m') \<longrightarrow> version_for r m' = version_for r m)) \<and>
     (\<forall>r \<ge> low. r \<in> hs_ts ` set (mv_writehis m) \<longrightarrow> r \<in> hs_ts ` set (mv_writehis m'))"

lemma prewrite_end_ok:
  assumes inv: "mv_inv low (m, T)" and t: "t \<in> rq_txn ` set (mv_prereq m)"
  shows "\<exists>m'. debuffer_prewrite t m = Some m' \<and> mv_inv low (m', T) \<and>
     ts_of T t \<in> rq_ts ` set (mv_prereq m) \<and> ts_of T t \<notin> rq_ts ` set (mv_prereq m') \<and>
     mv_writehis m' = mv_writehis m \<and> mv_row m' = mv_row m \<and> mv_readhis m' = mv_readhis m"
proof -
  have reqs: "reqs_ok low T (mv_prereq m) (hs_ts ` set (mv_writehis m))" using inv by (simp add: mv_inv_def)
  from t obtain q qs where u: "unlink (\<lambda>req. rq_txn req = t) (mv_prereq m) = Some (q, qs)"
    by (cases "unlink (\<lambda>req. rq_txn req = t) (mv_prereq m)") auto
  have q: "rq_txn q = t" "q \<in> set (mv_prereq m)" using unlink_Some(1,2) [OF u] by auto
  have d: "distinct (map rq_ts qs)" "rq_ts q \<notin> rq_ts ` set qs" "set (mv_prereq m) = insert q (set qs)"
    using unlink_distinct [OF u, of rq_ts] unlink_set [OF u] reqs by (auto simp: reqs_ok_def)
  have ts: "ts_of T t = rq_ts q" using reqs q by (auto simp: reqs_ok_def)
  let ?m = "m\<lparr>mv_prereq := qs, preq_len := preq_len m - 1\<rparr>"
  have "reqs_ok low T qs (hs_ts ` set (mv_writehis m))" using reqs_ok_sub [OF reqs _ d(1)] d(3) by blast
  moreover have "reads_covered ?m" using inv d(3) by (simp add: mv_inv_def reads_covered_def)
  moreover have "lens_ok ?m" using inv unlink_length [OF u] by (simp add: mv_inv_def lens_ok_def)
  ultimately have "mv_inv low (?m, T)" using inv by (simp add: mv_inv_def)
  moreover have "debuffer_prewrite t m = Some ?m" using u by (simp add: debuffer_prewrite_def)
  ultimately show ?thesis using d(2,3) ts q by auto
qed

lemma insert_version_ok:
  assumes inv: "mv_inv low (m, T)" and p: "p \<notin> hs_ts ` set (mv_writehis m)" "p \<notin> rq_ts ` set (mv_prereq m)"
    and cov: "\<forall>h \<in> set (mv_readhis m). covered p (hs_ts h) (mv_writehis m)"
  shows "mv_inv low (insert_history p (Some d) m, T) \<and> stable low m (insert_history p (Some d) m)"
proof -
  let ?m = "insert_history p (Some d) m"
  have m: "mv_writehis ?m = insert_where (\<lambda>h. p < hs_ts h) \<lparr>hs_ts = p, hs_row = Some d\<rparr> (mv_writehis m)"
    "whis_len ?m = whis_len m + 1" "mv_readhis ?m = mv_readhis m" "mv_prereq ?m = mv_prereq m"
    "mv_readreq ?m = mv_readreq m" "rhis_len ?m = rhis_len m" "rreq_len ?m = rreq_len m" "preq_len ?m = preq_len m"
    by (simp_all add: insert_history_def)
  have nf: "newest_first (mv_writehis m)" using inv by (simp add: mv_inv_def)
  then have "newest_first (mv_writehis ?m)" unfolding m using p(1) by (rule newest_first_insert)
  moreover have "\<forall>w \<in> set (mv_writehis ?m). hs_row w \<noteq> None" using inv unfolding m by (auto simp: mv_inv_def)
  moreover have "reqs_ok low T (mv_prereq ?m) (hs_ts ` set (mv_writehis ?m))"
    using inv p(2) unfolding m by (auto simp: mv_inv_def reqs_ok_def)
  moreover have "reads_covered ?m"
    using inv unfolding m mv_inv_def reads_covered_def by (auto simp: covered_def)
  moreover have "lens_ok ?m" using inv by (simp add: mv_inv_def lens_ok_def m)
  ultimately have "mv_inv low (?m, T)" using inv by (simp add: mv_inv_def m)
  moreover have "stable low m ?m" unfolding stable_def
  proof (intro conjI allI impI)
    fix r assume "low \<le> r" "r \<in> hs_ts ` set (mv_readhis m)" "r \<notin> hs_ts ` set (mv_writehis ?m)"
    with cov m(1) have "covered p r (mv_writehis m)" "r \<noteq> p" by auto
    with version_for_insert [OF nf p(1)] show "version_for r ?m = version_for r m" by blast
  qed (auto simp: m)
  ultimately show ?thesis by blast
qed

lemma stable_refl: "stable low m m"
  by (simp add: stable_def)

lemma request_ok:
  assumes inv: "mv_inv low (m, T)" and allowed: "mv_allowed low t type (m, T)"
  shows "\<exists>rc m' T'. mv_request t type d (m, T) = Some (rc, m', T') \<and> mv_inv low (m', T') \<and> stable low m m' \<and>
     ts_of T' = ts_of T"
proof (cases type)
  case R_REQ
  let ?ts = "ts_of T t"
  have new: "?ts \<notin> hs_ts ` set (mv_readhis m)" "?ts \<notin> rq_ts ` set (mv_readreq m)" "low \<le> ?ts"
    using allowed R_REQ by (simp_all add: mv_allowed_def Let_def)
  consider (wait) "conflict R_REQ ?ts m" "rreq_len m < MAX_READ_REQ"
    | (abort) "conflict R_REQ ?ts m" "\<not> rreq_len m < MAX_READ_REQ" | (ok) "\<not> conflict R_REQ ?ts m" by blast
  then show ?thesis
  proof cases
    case wait
    let ?m = "mv_buffer_req R_REQ t (m, T)" and ?T = "T(t := (T t)\<lparr>tm_ts_ready := False\<rparr>)"
    have m: "?m = m\<lparr>rreq_len := rreq_len m + 1, mv_readreq := \<lparr>rq_txn = t, rq_ts = ?ts\<rparr> # mv_readreq m\<rparr>"
      by (simp add: mv_buffer_req_def)
    have "reqs_ok low ?T (mv_readreq ?m) (hs_ts ` set (mv_readhis m))"
    proof (rule reqs_ok_ts [of low T])
      show "reqs_ok low T (mv_readreq ?m) (hs_ts ` set (mv_readhis m))"
        unfolding m using inv new by (simp add: mv_inv_def reqs_ok_Cons)
    qed simp
    moreover have "reqs_ok low ?T (mv_prereq m) (hs_ts ` set (mv_writehis m))"
      by (rule reqs_ok_ts [of low T]) (use inv in \<open>simp_all add: mv_inv_def\<close>)
    moreover have "reads_covered ?m" "lens_ok ?m" using inv by (simp_all add: m mv_inv_def reads_covered_def lens_ok_def)
    ultimately have "mv_inv low (?m, ?T)" using inv by (simp add: mv_inv_def m)
    moreover have "stable low m ?m" by (simp add: m stable_def version_for_def cong: list.case_cong)
    ultimately show ?thesis using wait R_REQ by (simp add: mv_request_def Let_def)
  next
    case abort
    with R_REQ inv stable_refl show ?thesis by (simp add: mv_request_def Let_def)
  next
    case ok
    let ?m = "insert_history ?ts None m" and ?T = "T(t := (T t)\<lparr>tm_cur_row := version_for ?ts m\<rparr>)"
    have m: "?m = m\<lparr>rhis_len := rhis_len m + 1, mv_readhis := insert_where (\<lambda>h. ?ts < hs_ts h)
        \<lparr>hs_ts = ?ts, hs_row = None\<rparr> (mv_readhis m)\<rparr>" by (simp add: insert_history_def)
    have nf: "newest_first (mv_writehis m)" "newest_first (mv_readhis m)" using inv by (simp_all add: mv_inv_def)
    have "\<forall>q \<in> set (mv_prereq m). 0 < rq_ts q" using inv by (auto simp: mv_inv_def reqs_ok_def)
    from no_conflict_read [OF nf(1) ok this] inv have "reads_covered ?m"
      by (auto simp: m mv_inv_def reads_covered_def)
    moreover have "newest_first (mv_readhis ?m)" using newest_first_insert [OF nf(2) new(1)] by (simp add: m)
    moreover have "reqs_ok low ?T (mv_readreq ?m) (hs_ts ` set (mv_readhis ?m))"
    proof (rule reqs_ok_ts [of low T])
      show "reqs_ok low T (mv_readreq ?m) (hs_ts ` set (mv_readhis ?m))"
        using inv new(2) by (auto simp: m mv_inv_def reqs_ok_def)
    qed simp
    moreover have "reqs_ok low ?T (mv_prereq m) (hs_ts ` set (mv_writehis m))"
      by (rule reqs_ok_ts [of low T]) (use inv in \<open>simp_all add: mv_inv_def\<close>)
    moreover have "lens_ok ?m" using inv by (simp add: m mv_inv_def lens_ok_def)
    ultimately have "mv_inv low (?m, ?T)" using inv by (simp add: mv_inv_def m)
    moreover have "stable low m ?m" by (auto simp: m stable_def version_for_def cong: list.case_cong)
    ultimately show ?thesis using ok R_REQ by (simp add: mv_request_def Let_def)
  qed
next
  case P_REQ
  let ?ts = "ts_of T t"
  have new: "?ts \<notin> hs_ts ` set (mv_writehis m)" "?ts \<notin> rq_ts ` set (mv_prereq m)" "low \<le> ?ts"
    using allowed P_REQ by (simp_all add: mv_allowed_def Let_def)
  show ?thesis
  proof (cases "conflict P_REQ ?ts m \<or> \<not> preq_len m < MAX_PRE_REQ")
    case True
    with P_REQ inv stable_refl show ?thesis by (auto simp: mv_request_def Let_def)
  next
    case False
    let ?m = "mv_buffer_req P_REQ t (m, T)"
    have m: "?m = m\<lparr>preq_len := preq_len m + 1, mv_prereq := \<lparr>rq_txn = t, rq_ts = ?ts\<rparr> # mv_prereq m\<rparr>"
      by (simp add: mv_buffer_req_def)
    have nf: "newest_first (mv_writehis m)" "newest_first (mv_readhis m)" using inv by (simp_all add: mv_inv_def)
    from no_conflict_prewrite [OF nf] False inv have "reads_covered ?m"
      by (auto simp: m mv_inv_def reads_covered_def)
    moreover have "reqs_ok low T (mv_prereq ?m) (hs_ts ` set (mv_writehis m))"
      unfolding m using inv new by (simp add: mv_inv_def reqs_ok_Cons)
    moreover have "lens_ok ?m" using inv by (simp add: m mv_inv_def lens_ok_def)
    ultimately have "mv_inv low (?m, T)" using inv by (simp add: mv_inv_def m)
    moreover have "stable low m ?m" by (simp add: m stable_def version_for_def cong: list.case_cong)
    ultimately show ?thesis using False P_REQ by (simp add: mv_request_def Let_def)
  qed
next
  case XP_REQ
  have "t \<in> rq_txn ` set (mv_prereq m)" using allowed XP_REQ by (simp add: mv_allowed_def Let_def)
  from prewrite_end_ok [OF inv this] obtain m1 where d: "debuffer_prewrite t m = Some m1" "mv_inv low (m1, T)"
    and m1: "mv_writehis m1 = mv_writehis m" "mv_row m1 = mv_row m" "mv_readhis m1 = mv_readhis m" by blast
  from update_buffer_ok [OF d(2)] obtain m2 T2 where u: "mv_update_buffer (m1, T) = (m2, T2)" "mv_inv low (m2, T2)"
    "mv_writehis m2 = mv_writehis m1" "mv_row m2 = mv_row m1" "hs_ts ` set (mv_readhis m1) \<subseteq> hs_ts ` set (mv_readhis m2)"
    "ts_of T2 = ts_of T" by blast
  have "stable low m m2" using u(3,4,5) version_for_same [of m2 m] by (auto simp: m1 stable_def)
  with u d(1) XP_REQ show ?thesis by (simp add: mv_request_def Let_def)
next
  case W_REQ
  let ?p = "ts_of T t"
  have "t \<in> rq_txn ` set (mv_prereq m)" using allowed W_REQ by (simp add: mv_allowed_def Let_def)
  from prewrite_end_ok [OF inv this] obtain m1 where d: "debuffer_prewrite t m = Some m1" "mv_inv low (m1, T)"
    "?p \<in> rq_ts ` set (mv_prereq m)" "?p \<notin> rq_ts ` set (mv_prereq m1)"
    and m1: "mv_writehis m1 = mv_writehis m" "mv_row m1 = mv_row m" "mv_readhis m1 = mv_readhis m" by blast
  have "debuffer_prewrite t (insert_history ?p (Some d) m) = Some (insert_history ?p (Some d) m1)"
    using d(1) by (cases "unlink (\<lambda>req. rq_txn req = t) (mv_prereq m)")
      (auto simp: debuffer_prewrite_def insert_history_def simp del: unlink_None)
  moreover have "mv_inv low (insert_history ?p (Some d) m1, T) \<and> stable low m1 (insert_history ?p (Some d) m1)"
  proof (rule insert_version_ok [OF d(2) _ d(4)])
    show "?p \<notin> hs_ts ` set (mv_writehis m1)" using inv d(3) by (auto simp: m1 mv_inv_def reqs_ok_def)
    show "\<forall>h \<in> set (mv_readhis m1). covered ?p (hs_ts h) (mv_writehis m1)"
      using inv d(3) by (auto simp: m1 mv_inv_def reads_covered_def)
  qed
  moreover from this obtain m2 T2 where u: "mv_update_buffer (insert_history ?p (Some d) m1, T) = (m2, T2)"
    "mv_inv low (m2, T2)" "mv_writehis m2 = mv_writehis (insert_history ?p (Some d) m1)"
    "mv_row m2 = mv_row (insert_history ?p (Some d) m1)"
    "hs_ts ` set (mv_readhis (insert_history ?p (Some d) m1)) \<subseteq> hs_ts ` set (mv_readhis m2)"
    "ts_of T2 = ts_of T" using update_buffer_ok by blast
  moreover have "version_for r m1 = version_for r m" for r by (rule version_for_same) (simp_all add: m1)
  moreover have "version_for r m2 = version_for r (insert_history ?p (Some d) m1)" for r
    by (rule version_for_same) (simp_all add: u)
  ultimately show ?thesis using W_REQ
    by (simp add: mv_request_def Let_def) (auto simp: stable_def m1)
qed

lemma access_ok:
  assumes inv: "mv_inv low (m, T)" and allowed: "mv_allowed low t type (m, T)" and t: "t_th \<le> low"
  shows "\<exists>rc m' T'. mv_access t type d t_th (m, T) = Some (rc, m', T') \<and> mv_inv low (m', T') \<and> stable low m m' \<and>
     ts_of T' = ts_of T"
proof -
  from request_ok [OF inv allowed, of d] obtain rc m1 T1 where r: "mv_request t type d (m, T) = Some (rc, m1, T1)"
    "mv_inv low (m1, T1)" "stable low m m1" "ts_of T1 = ts_of T" by blast
  from recycle_ok [OF r(2) t] obtain m2 where m2: "mv_recycle t_th m1 = Some m2" "mv_inv low (m2, T1)" "keeps low m1 m2"
    by blast
  have "stable low m m2" using r(3) m2(3) unfolding stable_def keeps_def by metis
  with r m2 show ?thesis by (cases "rc = RCOK") (simp_all add: mv_access_def)
qed

section \<open>Large timestamps\<close>

text \<open>A waiting read whose timestamp is above \<open>2 ^ 32\<close> is never woken: the search for the oldest
  prewrite starts from \<open>2 ^ 32\<close>, so the buffer is not touched even when no prewrite is left.\<close>

theorem mvcc_large_timestamps_not_woken:
  assumes "\<forall>q \<in> set (mv_readreq m). 2 ^ 32 < rq_ts q"
  shows "mv_update_buffer (m, T) = (m, T)"
proof -
  have le: "fold (\<lambda>q m. if rq_ts q < m then rq_ts q else m) qs k \<le> k" for qs and k :: nat
  proof (induction qs arbitrary: k)
    case (Cons q qs)
    from Cons.IH [of "if rq_ts q < k then rq_ts q else k"] show ?case by (auto split: if_splits)
  qed simp
  have "min_prewrite (mv_prereq m) \<le> 2 ^ 32" unfolding min_prewrite_def by (rule le)
  with assms have none: "\<forall>q \<in> set (mv_readreq m). \<not> rq_ts q \<le> min_prewrite (mv_prereq m)" by fastforce
  then have "filter (\<lambda>q. rq_ts q \<le> min_prewrite (mv_prereq m)) (mv_readreq m) = []"
    "filter (\<lambda>q. \<not> rq_ts q \<le> min_prewrite (mv_prereq m)) (mv_readreq m) = mv_readreq m"
    by (simp_all add: filter_empty_conv filter_id_conv)
  then show ?thesis by (simp add: mv_update_buffer_def debuffer_reads_def Let_def)
qed

lemma mvcc_large_timestamps_not_woken_witness:
  "let m = (mvcc_init [0])\<lparr>mv_readreq := [\<lparr>rq_txn = 7, rq_ts = 2 ^ 32 + 1\<rparr>], rreq_len := 1\<rparr>
   in mv_update_buffer (m, ex_txns) = (m, ex_txns)"
  unfolding Let_def by (rule mvcc_large_timestamps_not_woken) simp

end
