(* ===== verification/Db_Manager.thy ===== *)
theory Db_Manager
  imports Db_Base "HOL-Library.Word"
begin

unbundle bit_operations_syntax

text \<open>
  The global manager of DBx1000 (\<open>src/DBx1000/code/system/manager.cpp\<close>), the timestamps its threads draw
  from it (\<open>src/DBx1000/code/system/thread.cpp\<close>), and the keys of \<open>src/DBx1000/code/system/helper.cpp\<close>.
  Timestamps are 64-bit counters with the wrap-around written out; a failing assertion is \<open>None\<close>.
\<close>

section \<open>Timestamps\<close>

datatype ts_alloc = TS_MUTEX | TS_CAS | TS_HW | TS_CLOCK

record ts_config =
  g_ts_alloc :: ts_alloc
  g_ts_batch_alloc :: bool
  g_ts_batch_num :: nat
  g_thread_cnt :: nat

record Manager =
  mg_timestamp :: nat
  mg_last_min_ts_time :: nat
  mg_min_ts :: nat
  mg_all_ts :: "nat list"

definition Manager_init :: "nat \<Rightarrow> Manager" where
  "Manager_init n = \<lparr>mg_timestamp = 1, mg_last_min_ts_time = 0, mg_min_ts = 0, mg_all_ts = replicate n UINT64_MAX\<rparr>"

text \<open>\<open>clock\<close> is what \<open>get_sys_clock\<close> returns.  \<open>TS_HW\<close> needs the simulator and asserts without it.\<close>

definition get_ts :: "ts_config \<Rightarrow> nat \<Rightarrow> nat \<Rightarrow> Manager \<Rightarrow> (nat \<times> Manager) option" where
  "get_ts cfg clock thread_id mg =
     (if g_ts_batch_alloc cfg \<and> g_ts_alloc cfg \<noteq> TS_CAS then None
      else case g_ts_alloc cfg of
        TS_MUTEX \<Rightarrow> (let time = (mg_timestamp mg + 1) mod 2 ^ 64 in Some (time, mg\<lparr>mg_timestamp := time\<rparr>))
      | TS_CAS \<Rightarrow>
          (let num = (if g_ts_batch_alloc cfg then g_ts_batch_num cfg else 1)
           in Some (mg_timestamp mg, mg\<lparr>mg_timestamp := (mg_timestamp mg + num) mod 2 ^ 64\<rparr>))
      | TS_HW \<Rightarrow> None
      | TS_CLOCK \<Rightarrow> Some ((clock * g_thread_cnt cfg + thread_id) mod 2 ^ 64, mg))"

text \<open>\<open>thread_t::get_next_ts\<close>; the map holds \<open>_curr_ts\<close> of every thread.\<close>

type_synonym ts_state = "Manager \<times> (nat \<Rightarrow> nat)"

definition get_next_ts :: "ts_config \<Rightarrow> nat \<Rightarrow> nat \<Rightarrow> ts_state \<Rightarrow> (nat \<times> ts_state) option" where
  "get_next_ts cfg clock thd st =
     (let (mg, cur) = st in
      if g_ts_batch_alloc cfg
      then (if cur thd mod g_ts_batch_num cfg = 0
            then map_option (\<lambda>(time, mg). (time, mg, cur(thd := time + 1))) (get_ts cfg clock thd mg)
            else Some (cur thd, mg, cur(thd := cur thd + 1)))
      else map_option (\<lambda>(time, mg). (time, mg, cur(thd := time))) (get_ts cfg clock thd mg))"

text \<open>Threads draw in any order: the requests are pairs of a thread and a reading of the clock.\<close>

fun draws :: "ts_config \<Rightarrow> (nat \<times> nat) list \<Rightarrow> ts_state \<Rightarrow> ((nat \<times> nat) list \<times> ts_state) option" where
  "draws cfg [] st = Some ([], st)"
| "draws cfg ((thd, clock) # rs) st =
     (case get_next_ts cfg clock thd st of
        None \<Rightarrow> None
      | Some (time, st) \<Rightarrow> map_option (\<lambda>(gs, st). ((thd, time) # gs, st)) (draws cfg rs st))"

subsection \<open>What has been drawn\<close>

definition fetched :: "ts_config \<Rightarrow> nat" where
  "fetched cfg = (if g_ts_batch_alloc cfg then g_ts_batch_num cfg else 1)"

definition fresh_ts :: "ts_config \<Rightarrow> Manager \<Rightarrow> nat" where
  "fresh_ts cfg mg = (if g_ts_alloc cfg = TS_MUTEX then mg_timestamp mg + 1 else mg_timestamp mg)"

definition counting :: "ts_config \<Rightarrow> bool" where
  "counting cfg \<longleftrightarrow> g_ts_alloc cfg \<in> {TS_MUTEX, TS_CAS} \<and>
     (g_ts_batch_alloc cfg \<longrightarrow> g_ts_alloc cfg = TS_CAS \<and> 0 < g_ts_batch_num cfg)"

abbreviation draw_order :: "nat \<times> nat \<Rightarrow> nat \<times> nat \<Rightarrow> bool" where
  "draw_order a b \<equiv> snd a \<noteq> snd b \<and> (fst a = fst b \<longrightarrow> snd a < snd b)"

text \<open>The rest of a thread's batch: nobody else draws from it.\<close>

definition batch_ok :: "ts_config \<Rightarrow> (nat \<times> nat) list \<Rightarrow> ts_state \<Rightarrow> bool" where
  "batch_ok cfg given st \<longleftrightarrow>
     (\<forall>t. snd st t mod g_ts_batch_num cfg \<noteq> 0 \<longrightarrow>
        snd st t < mg_timestamp (fst st) \<and>
        (\<forall>a \<in> set given. (snd a - 1) div g_ts_batch_num cfg = snd st t div g_ts_batch_num cfg \<longrightarrow> snd a < snd st t) \<and>
        (\<forall>a \<in> set given. fst a = t \<longrightarrow> snd a < snd st t) \<and>
        (\<forall>u. u \<noteq> t \<and> snd st u mod g_ts_batch_num cfg \<noteq> 0 \<longrightarrow>
           snd st u div g_ts_batch_num cfg \<noteq> snd st t div g_ts_batch_num cfg))"

definition drawn_inv :: "ts_config \<Rightarrow> nat \<Rightarrow> (nat \<times> nat) list \<Rightarrow> ts_state \<Rightarrow> bool" where
  "drawn_inv cfg K given st \<longleftrightarrow>
     mg_timestamp (fst st) = 1 + K * fetched cfg \<and> sorted_wrt draw_order given \<and>
     (\<forall>a \<in> set given. 0 < snd a \<and> snd a < fresh_ts cfg (fst st)) \<and>
     (g_ts_batch_alloc cfg \<longrightarrow> batch_ok cfg given st)"

lemma batch_okD:
  assumes "batch_ok cfg given st" "snd st t mod g_ts_batch_num cfg \<noteq> 0"
  shows "snd st t < mg_timestamp (fst st)"
    "a \<in> set given \<Longrightarrow> (snd a - 1) div g_ts_batch_num cfg = snd st t div g_ts_batch_num cfg \<Longrightarrow> snd a < snd st t"
    "a \<in> set given \<Longrightarrow> fst a = t \<Longrightarrow> snd a < snd st t"
    "u \<noteq> t \<Longrightarrow> snd st u mod g_ts_batch_num cfg \<noteq> 0 \<Longrightarrow>
       snd st u div g_ts_batch_num cfg \<noteq> snd st t div g_ts_batch_num cfg"
  using assms unfolding batch_ok_def by blast+

lemma pred_div: "n mod k \<noteq> 0 \<Longrightarrow> (n - 1) div k = n div (k :: nat)"
  by (cases n) (auto simp: div_Suc mod_Suc split: if_splits)

lemma drawn_single:
  assumes inv: "drawn_inv cfg K given (mg, cur)" and cfg: "counting cfg" "\<not> g_ts_batch_alloc cfg"
    and bound: "K + 2 < 2 ^ 64"
  shows "\<exists>time st. get_next_ts cfg clock thd (mg, cur) = Some (time, st) \<and>
     drawn_inv cfg (Suc K) (given @ [(thd, time)]) st"
proof -
  have ts: "mg_timestamp mg = 1 + K" using inv cfg(2) by (simp add: drawn_inv_def fetched_def)
  have old: "\<forall>a \<in> set given. 0 < snd a \<and> snd a < fresh_ts cfg mg" "sorted_wrt draw_order given"
    using inv by (simp_all add: drawn_inv_def)
  have small: "Suc (Suc K) mod 18446744073709551616 = Suc (Suc K)" using bound by simp
  consider "g_ts_alloc cfg = TS_MUTEX" | "g_ts_alloc cfg = TS_CAS" using cfg(1) by (auto simp: counting_def)
  then show ?thesis
  proof cases
    case 1
    then show ?thesis using cfg(2) ts old small
      by (auto simp: get_next_ts_def get_ts_def drawn_inv_def fetched_def fresh_ts_def sorted_wrt_append)
  next
    case 2
    then show ?thesis using cfg(2) ts old small
      by (auto simp: get_next_ts_def get_ts_def drawn_inv_def fetched_def fresh_ts_def sorted_wrt_append)
  qed
qed

text \<open>A thread that starts a new batch, and one that goes on with its batch.\<close>

lemma drawn_fetch:
  assumes inv: "drawn_inv cfg K given (mg, cur)" and cfg: "counting cfg" "g_ts_batch_alloc cfg"
    and spent: "cur thd mod g_ts_batch_num cfg = 0"
  shows "drawn_inv cfg (Suc K) (given @ [(thd, mg_timestamp mg)])
     (mg\<lparr>mg_timestamp := 1 + Suc K * g_ts_batch_num cfg\<rparr>, cur(thd := mg_timestamp mg + 1))"
    (is "drawn_inv cfg _ ?given (?mg, ?cur)")
proof -
  let ?n = "g_ts_batch_num cfg"
  have cas: "g_ts_alloc cfg = TS_CAS" "0 < ?n" using cfg by (auto simp: counting_def)
  have ts: "mg_timestamp mg = 1 + K * ?n" using inv cfg(2) by (simp add: drawn_inv_def fetched_def)
  have b: "batch_ok cfg given (mg, cur)" and old: "sorted_wrt draw_order given"
    and range: "\<forall>a \<in> set given. 0 < snd a \<and> snd a < mg_timestamp mg"
    using inv cfg(2) cas unfolding drawn_inv_def fresh_ts_def fst_conv by auto
  have before: "(snd a - 1) div ?n < K" if "a \<in> set given" for a
  proof -
    have "snd a - 1 < K * ?n" using range that ts by fastforce
    then show ?thesis using cas(2) by (simp add: div_less_iff_less_mult)
  qed
  have mine: "?cur thd div ?n = K \<and> ?cur thd < 1 + Suc K * ?n" if "?cur thd mod ?n \<noteq> 0"
  proof -
    have cur: "?cur thd = K * ?n + 2" by (simp add: ts)
    have "?n \<noteq> 1" using that by auto
    moreover have "?n \<noteq> 2" using that cur by auto
    ultimately have "2 < ?n" using cas(2) by linarith
    moreover from this have "(K * ?n + 2) div ?n = K" by (intro div_nat_eqI) (simp_all add: algebra_simps)
    ultimately show ?thesis unfolding cur by simp
  qed
  have other: "?cur u div ?n < K" if "u \<noteq> thd" "?cur u mod ?n \<noteq> 0" for u
  proof -
    have m: "cur u mod ?n \<noteq> 0" using that by simp
    have "cur u < 1 + K * ?n" using batch_okD(1) [OF b, of u] m ts by simp
    moreover have "cur u \<noteq> K * ?n" using m by auto
    ultimately have "cur u < K * ?n" by linarith
    then show ?thesis using that(1) cas(2) by (simp add: div_less_iff_less_mult)
  qed
  have "batch_ok cfg ?given (?mg, ?cur)" unfolding batch_ok_def fst_conv snd_conv
  proof (intro allI impI)
    fix t assume act: "?cur t mod ?n \<noteq> 0"
    show "?cur t < mg_timestamp ?mg \<and>
        (\<forall>a \<in> set ?given. (snd a - 1) div ?n = ?cur t div ?n \<longrightarrow> snd a < ?cur t) \<and>
        (\<forall>a \<in> set ?given. fst a = t \<longrightarrow> snd a < ?cur t) \<and>
        (\<forall>u. u \<noteq> t \<and> ?cur u mod ?n \<noteq> 0 \<longrightarrow> ?cur u div ?n \<noteq> ?cur t div ?n)"
    proof (cases "t = thd")
      case True
      have "snd a < ?cur t" if "a \<in> set ?given" for a using that True range by auto
      moreover have "?cur u div ?n \<noteq> ?cur t div ?n" if "u \<noteq> t" "?cur u mod ?n \<noteq> 0" for u
        using other [of u] that mine act True by auto
      ultimately show ?thesis using mine act True by auto
    next
      case False
      then have m: "cur t mod ?n \<noteq> 0" using act by simp
      note d = batch_okD [OF b, simplified, OF m [simplified]]
      have "?cur u div ?n \<noteq> ?cur t div ?n" if "u \<noteq> t" "?cur u mod ?n \<noteq> 0" for u
      proof (cases "u = thd")
        case True
        with mine that other [of t] False act show ?thesis by auto
      next
        case False
        with d(4) [of u] that \<open>t \<noteq> thd\<close> show ?thesis by auto
      qed
      moreover have "(mg_timestamp mg - 1) div ?n \<noteq> ?cur t div ?n" using other [of t] False act cas(2) by (simp add: ts)
      ultimately show ?thesis using d(1-3) False ts by auto
    qed
  qed
  moreover have "sorted_wrt draw_order ?given" using old range by (auto simp: sorted_wrt_append)
  moreover have "\<forall>a \<in> set ?given. 0 < snd a \<and> snd a < fresh_ts cfg ?mg"
    using range cas ts by (auto simp: fresh_ts_def)
  ultimately show ?thesis using cfg(2) by (simp add: drawn_inv_def fetched_def)
qed

lemma drawn_continue:
  assumes inv: "drawn_inv cfg K given (mg, cur)" and cfg: "counting cfg" "g_ts_batch_alloc cfg"
    and act: "cur thd mod g_ts_batch_num cfg \<noteq> 0"
  shows "drawn_inv cfg K (given @ [(thd, cur thd)]) (mg, cur(thd := cur thd + 1))"
    (is "drawn_inv cfg _ ?given (_, ?cur)")
proof -
  let ?n = "g_ts_batch_num cfg"
  have cas: "g_ts_alloc cfg = TS_CAS" using cfg by (auto simp: counting_def)
  have b: "batch_ok cfg given (mg, cur)" and old: "sorted_wrt draw_order given"
    and range: "\<forall>a \<in> set given. 0 < snd a \<and> snd a < mg_timestamp mg"
    using inv cfg(2) cas unfolding drawn_inv_def fresh_ts_def fst_conv by auto
  have ts: "mg_timestamp mg = 1 + K * ?n" using inv cfg(2) by (simp add: drawn_inv_def fetched_def)
  note d = batch_okD [OF b, simplified]
  have same: "?cur t div ?n = cur t div ?n" "cur t mod ?n \<noteq> 0" if "?cur t mod ?n \<noteq> 0" for t
    using that act by (auto simp: div_Suc mod_Suc split: if_splits)
  have new: "snd a \<noteq> cur thd" if "a \<in> set given" for a
    using d(2) [OF act [simplified] that] pred_div [OF act] by auto
  have "batch_ok cfg ?given (mg, ?cur)" unfolding batch_ok_def fst_conv snd_conv
  proof (intro allI impI)
    fix t assume t: "?cur t mod ?n \<noteq> 0"
    note m = same(2) [OF t]
    have "?cur t < mg_timestamp mg"
    proof (cases "t = thd")
      case True
      have "cur thd < 1 + K * ?n" using d(1) [OF m [simplified]] ts True by simp
      moreover have "cur thd \<noteq> K * ?n" using act by auto
      ultimately show ?thesis using True ts by simp
    qed (use d(1) [OF m [simplified]] in simp)
    moreover have "snd a < ?cur t" if "a \<in> set ?given" "(snd a - 1) div ?n = ?cur t div ?n" for a
    proof (cases "a = (thd, cur thd)")
      case True
      with that same(1) [OF t] pred_div [OF act] have "cur thd div ?n = cur t div ?n" by simp
      with d(4) [OF m [simplified], of thd] act have "t = thd" by auto
      with True show ?thesis by simp
    next
      case False
      with that have "a \<in> set given" "(snd a - 1) div ?n = cur t div ?n" using same(1) [OF t] by auto
      with d(2) [OF m [simplified]] have "snd a < cur t" by simp
      then show ?thesis by (cases "t = thd") simp_all
    qed
    moreover have "snd a < ?cur t" if "a \<in> set ?given" "fst a = t" for a
      using that d(3) [OF m [simplified], of a] by auto
    moreover have "?cur u div ?n \<noteq> ?cur t div ?n" if "u \<noteq> t" "?cur u mod ?n \<noteq> 0" for u
      using d(4) [OF m [simplified], of u] same [OF that(2)] same(1) [OF t] that(1) by simp
    ultimately show "?cur t < mg_timestamp mg \<and>
        (\<forall>a \<in> set ?given. (snd a - 1) div ?n = ?cur t div ?n \<longrightarrow> snd a < ?cur t) \<and>
        (\<forall>a \<in> set ?given. fst a = t \<longrightarrow> snd a < ?cur t) \<and>
        (\<forall>u. u \<noteq> t \<and> ?cur u mod ?n \<noteq> 0 \<longrightarrow> ?cur u div ?n \<noteq> ?cur t div ?n)" by blast
  qed
  moreover have "sorted_wrt draw_order ?given"
    using old new d(3) [OF act [simplified]] by (auto simp: sorted_wrt_append)
  moreover have "0 < cur thd" using act by (cases "cur thd") auto
  then have "\<forall>a \<in> set ?given. 0 < snd a \<and> snd a < fresh_ts cfg mg"
    using range d(1) [OF act [simplified]] cas by (auto simp: fresh_ts_def)
  ultimately show ?thesis using cfg(2) ts by (simp add: drawn_inv_def fetched_def)
qed

lemma drawn_step:
  assumes inv: "drawn_inv cfg K given (mg, cur)" and cfg: "counting cfg" and bound: "(K + 2) * fetched cfg < 2 ^ 64"
  shows "\<exists>time st K'. get_next_ts cfg clock thd (mg, cur) = Some (time, st) \<and> K' \<le> Suc K \<and>
     drawn_inv cfg K' (given @ [(thd, time)]) st"
proof (cases "g_ts_batch_alloc cfg")
  case False
  then have "K + 2 < 2 ^ 64" using bound by (simp add: fetched_def)
  from drawn_single [OF inv cfg False this] show ?thesis by blast
next
  case True
  let ?n = "g_ts_batch_num cfg"
  have cas: "g_ts_alloc cfg = TS_CAS" "0 < ?n" using cfg True by (auto simp: counting_def)
  have ts: "mg_timestamp mg = 1 + K * ?n" using inv True by (simp add: drawn_inv_def fetched_def)
  show ?thesis
  proof (cases "cur thd mod ?n = 0")
    case fetch: True
    have "1 + Suc K * ?n \<le> (K + 2) * ?n" using cas(2) by (simp add: algebra_simps)
    then have "1 + Suc K * ?n < 2 ^ 64" using bound True by (simp add: fetched_def)
    then have "(mg_timestamp mg + ?n) mod 2 ^ 64 = 1 + Suc K * ?n" by (simp add: ts)
    then have "get_next_ts cfg clock thd (mg, cur) =
        Some (mg_timestamp mg, mg\<lparr>mg_timestamp := 1 + Suc K * ?n\<rparr>, cur(thd := mg_timestamp mg + 1))"
      using True fetch cas(1) by (simp add: get_next_ts_def get_ts_def)
    with drawn_fetch [OF inv cfg True fetch] show ?thesis by blast
  next
    case False
    then have "get_next_ts cfg clock thd (mg, cur) = Some (cur thd, mg, cur(thd := cur thd + 1))"
      using True by (simp add: get_next_ts_def)
    with drawn_continue [OF inv cfg True False] show ?thesis by (intro exI conjI) (assumption, simp_all)
  qed
qed

lemma drawn_run:
  assumes "drawn_inv cfg K given st" "counting cfg" "(K + length rs + 1) * fetched cfg < 2 ^ 64"
  shows "\<exists>gs st' K'. draws cfg rs st = Some (gs, st') \<and> drawn_inv cfg K' (given @ gs) st' \<and> map fst gs = map fst rs"
  using assms
proof (induction rs arbitrary: K given st)
  case (Cons r rs)
  obtain thd clock mg cur where r: "r = (thd, clock)" "st = (mg, cur)" by (cases r, cases st)
  have "(K + 2) * fetched cfg \<le> (K + length (r # rs) + 1) * fetched cfg" by (intro mult_right_mono) simp_all
  then have "(K + 2) * fetched cfg < 2 ^ 64" using Cons.prems(3) by linarith
  from drawn_step [OF Cons.prems(1) [unfolded r(2)] Cons.prems(2) this, of clock thd] r(2)
  obtain time st1 K1 where s: "get_next_ts cfg clock thd st = Some (time, st1)" "K1 \<le> Suc K"
    "drawn_inv cfg K1 (given @ [(thd, time)]) st1" by blast
  have "(K1 + length rs + 1) * fetched cfg \<le> (K + length (r # rs) + 1) * fetched cfg"
    using s(2) by (intro mult_right_mono) simp_all
  then have "(K1 + length rs + 1) * fetched cfg < 2 ^ 64" using Cons.prems(3) by linarith
  from Cons.IH [OF s(3) Cons.prems(2) this] obtain gs st' K' where
    "draws cfg rs st1 = Some (gs, st')" "drawn_inv cfg K' (given @ (thd, time) # gs) st'" "map fst gs = map fst rs"
    by auto
  then show ?case using s(1) r(1) by auto
qed auto

text \<open>The timestamps threads draw are pairwise different, and those of one thread increase, in whatever
  order the threads draw them, one by one or in batches, as long as the 64-bit counter does not
  overflow.\<close>

theorem timestamps_unique:
  assumes "counting cfg" and "(length rs + 1) * fetched cfg < 2 ^ 64" and "\<forall>t. cur t mod g_ts_batch_num cfg = 0"
  shows "\<exists>gs st. draws cfg rs (Manager_init n, cur) = Some (gs, st) \<and> map fst gs = map fst rs \<and>
     distinct (map snd gs) \<and>
     (\<forall>i j. i < j \<and> j < length gs \<and> fst (gs ! i) = fst (gs ! j) \<longrightarrow> snd (gs ! i) < snd (gs ! j))"
proof -
  have "drawn_inv cfg 0 [] (Manager_init n, cur)"
    using assms(3) by (simp add: drawn_inv_def Manager_init_def batch_ok_def)
  moreover have "(0 + length rs + 1) * fetched cfg < 2 ^ 64" using assms(2) by simp
  ultimately obtain gs st K where
    d: "draws cfg rs (Manager_init n, cur) = Some (gs, st)" "drawn_inv cfg K gs st" "map fst gs = map fst rs"
    using drawn_run [of cfg 0 "[]" "(Manager_init n, cur)" rs] assms(1) by auto
  then have o: "draw_order (gs ! i) (gs ! j)" if "i < j" "j < length gs" for i j
    using that by (auto simp: drawn_inv_def dest: sorted_wrt_nth_less)
  then have "distinct (map snd gs)"
    by (auto simp: distinct_conv_nth) (metis linorder_neqE_nat)
  with d o show ?thesis by blast
qed

definition ex_cfg :: ts_config where
  "ex_cfg = \<lparr>g_ts_alloc = TS_CAS, g_ts_batch_alloc = True, g_ts_batch_num = 3, g_thread_cnt = 2\<rparr>"

lemma ex_cfg_counting [simp]: "counting ex_cfg" "fetched ex_cfg = 3" "g_ts_batch_num ex_cfg = 3"
  by (simp_all add: ex_cfg_def counting_def fetched_def)

lemma timestamps_unique_witness:
  "\<exists>gs st. draws ex_cfg [(0, 0), (1, 0), (0, 0)] (Manager_init 2, \<lambda>_. 0) = Some (gs, st) \<and>
     distinct (map snd gs) \<and> snd (gs ! 0) < snd (gs ! 2)"
proof -
  let ?rs = "[(0, 0), (1, 0), (0, 0)]"
  obtain gs st where d: "draws ex_cfg ?rs (Manager_init 2, \<lambda>_. 0) = Some (gs, st)" "map fst gs = map fst ?rs"
    "distinct (map snd gs)"
    "\<forall>i j. i < j \<and> j < length gs \<and> fst (gs ! i) = fst (gs ! j) \<longrightarrow> snd (gs ! i) < snd (gs ! j)"
    using timestamps_unique [of ex_cfg ?rs "\<lambda>_. 0" 2] by auto
  then have "length gs = 3" "fst (gs ! 0) = 0" "fst (gs ! 2) = 0" by (auto simp: map_eq_Cons_conv)
  with d show ?thesis by auto
qed

section \<open>The oldest active timestamp\<close>

definition MIN_TS_INTVL :: nat where "MIN_TS_INTVL = 10000000"

definition add_ts :: "nat \<Rightarrow> nat \<Rightarrow> Manager \<Rightarrow> Manager option" where
  "add_ts thd_id ts mg =
     (if mg_all_ts mg ! thd_id \<le> ts \<or> mg_all_ts mg ! thd_id = UINT64_MAX
      then Some (mg\<lparr>mg_all_ts := (mg_all_ts mg)[thd_id := ts]\<rparr>) else None)"

definition min_of_all :: "nat list \<Rightarrow> nat" where
  "min_of_all all_ts = fold (\<lambda>ts min. if ts < min then ts else min) all_ts UINT64_MAX"

text \<open>The difference of the clocks is unsigned.\<close>

definition get_min_ts :: "nat \<Rightarrow> Manager \<Rightarrow> (nat \<times> Manager) option" where
  "get_min_ts now mg =
     (if MIN_TS_INTVL < (now + 2 ^ 64 - mg_last_min_ts_time mg) mod 2 ^ 64
      then (let min = min_of_all (mg_all_ts mg) in
            if min \<noteq> UINT64_MAX \<and> mg_min_ts mg \<le> min
            then Some (min, mg\<lparr>mg_last_min_ts_time := now, mg_min_ts := min\<rparr>) else None)
      else Some (mg_min_ts mg, mg))"

lemma min_of_all_le: "fold (\<lambda>ts min. if ts < min then ts else min) xs k \<le> k \<and>
    (\<forall>x \<in> set xs. fold (\<lambda>ts min. if ts < min then ts else min) xs k \<le> x) \<and>
    fold (\<lambda>ts min. if ts < min then ts else min) xs k \<in> insert k (set xs)" for k :: nat
proof (induction xs arbitrary: k)
  case (Cons y xs)
  from Cons.IH [of "if y < k then y else k"] show ?case by (auto split: if_splits)
qed simp

lemma min_of_all_lower: "x \<in> set xs \<Longrightarrow> min_of_all xs \<le> x"
  using min_of_all_le [of xs UINT64_MAX] by (simp add: min_of_all_def)

text \<open>Under \<open>MVCC\<close> a thread draws a timestamp for its transaction and then adds it
  (\<open>thread_t::run\<close>); in between other threads run.  \<open>pend\<close> is what is drawn and not added yet.
  The steps of \<open>min\<close> are those where every thread has added a timestamp before.\<close>

type_synonym mts = "ts_state \<times> (nat \<Rightarrow> nat option)"

inductive mts_step :: "ts_config \<Rightarrow> nat \<Rightarrow> mts \<Rightarrow> mts \<Rightarrow> bool" for cfg :: ts_config and n :: nat where
  mts_draw: "t < n \<Longrightarrow> pend t = None \<Longrightarrow> mg_timestamp (fst st) + 2 * fetched cfg < 2 ^ 64 \<Longrightarrow>
     get_next_ts cfg clock t st = Some (time, st') \<Longrightarrow> mts_step cfg n (st, pend) (st', pend(t := Some time))"
| mts_add: "t < n \<Longrightarrow> pend t = Some time \<Longrightarrow> add_ts t time mg = Some mg' \<Longrightarrow>
     mts_step cfg n ((mg, cur), pend) ((mg', cur), pend(t := None))"
| mts_min: "\<forall>t < n. mg_all_ts mg ! t \<noteq> UINT64_MAX \<Longrightarrow> get_min_ts now mg = Some (time, mg') \<Longrightarrow>
     mts_step cfg n ((mg, cur), pend) ((mg', cur), pend)"

definition mts_start :: "nat \<Rightarrow> mts" where
  "mts_start n = ((Manager_init n, \<lambda>_. 0), \<lambda>_. None)"

abbreviation mts_reach :: "ts_config \<Rightarrow> nat \<Rightarrow> mts \<Rightarrow> bool" where
  "mts_reach cfg n \<equiv> (mts_step cfg n)\<^sup>*\<^sup>* (mts_start n)"

definition all_ok :: "nat \<Rightarrow> (nat \<times> nat) list \<Rightarrow> Manager \<Rightarrow> bool" where
  "all_ok n given mg \<longleftrightarrow> length (mg_all_ts mg) = n \<and>
     (\<forall>t < n. mg_all_ts mg ! t = UINT64_MAX \<and> mg_min_ts mg = 0 \<or>
        (t, mg_all_ts mg ! t) \<in> set given \<and> mg_min_ts mg \<le> mg_all_ts mg ! t)"

definition pend_ok :: "nat \<Rightarrow> (nat \<times> nat) list \<Rightarrow> Manager \<Rightarrow> (nat \<Rightarrow> nat option) \<Rightarrow> bool" where
  "pend_ok n given mg pend \<longleftrightarrow>
     (\<forall>t time. pend t = Some time \<longrightarrow> t < n \<and> (t, time) \<in> set given \<and> time \<noteq> UINT64_MAX \<and>
        (mg_all_ts mg ! t = UINT64_MAX \<or> mg_all_ts mg ! t < time))"

definition mts_inv :: "ts_config \<Rightarrow> nat \<Rightarrow> mts \<Rightarrow> bool" where
  "mts_inv cfg n s \<longleftrightarrow>
     (\<exists>K given. drawn_inv cfg K given (fst s) \<and> all_ok n given (fst (fst s)) \<and>
        pend_ok n given (fst (fst s)) (snd s) \<and> (\<forall>a \<in> set given. snd a < UINT64_MAX))"

lemma mts_inv_start: "mts_inv cfg n (mts_start n)"
proof -
  have "drawn_inv cfg 0 [] (fst (mts_start n))"
    by (simp add: mts_start_def drawn_inv_def Manager_init_def batch_ok_def)
  moreover have "all_ok n [] (fst (fst (mts_start n)))" by (simp add: all_ok_def mts_start_def Manager_init_def)
  moreover have "pend_ok n [] (fst (fst (mts_start n))) (snd (mts_start n))" by (simp add: pend_ok_def mts_start_def)
  ultimately show ?thesis unfolding mts_inv_def by (metis empty_iff list.set(1))
qed

lemma drawn_inv_frame: "mg_timestamp mg' = mg_timestamp mg \<Longrightarrow> drawn_inv cfg K given (mg', cur) = drawn_inv cfg K given (mg, cur)"
  by (simp add: drawn_inv_def batch_ok_def fresh_ts_def)

lemma get_next_ts_frame:
  "get_next_ts cfg clock t (mg, cur) = Some (time, mg', cur') \<Longrightarrow>
   mg_all_ts mg' = mg_all_ts mg \<and> mg_min_ts mg' = mg_min_ts mg"
  by (auto simp: get_next_ts_def get_ts_def Let_def split: if_splits ts_alloc.splits)

lemma mts_draw_inv:
  assumes inv: "mts_inv cfg n (st, pend)" and cfg: "counting cfg" and t: "t < n" "pend t = None"
    and room: "mg_timestamp (fst st) + 2 * fetched cfg < 2 ^ 64" and d: "get_next_ts cfg clock t st = Some (time, st')"
  shows "mts_inv cfg n (st', pend(t := Some time))"
proof -
  obtain mg cur mg' cur' where st: "st = (mg, cur)" "st' = (mg', cur')" by (cases st, cases st')
  from inv st obtain K given where i: "drawn_inv cfg K given (mg, cur)" "all_ok n given mg"
    "pend_ok n given mg pend" "\<forall>a \<in> set given. snd a < UINT64_MAX" by (auto simp: mts_inv_def)
  have f: "0 < fetched cfg" and ts: "mg_timestamp mg = 1 + K * fetched cfg"
    using cfg i(1) by (auto simp: counting_def fetched_def drawn_inv_def)
  have "(K + 2) * fetched cfg < 2 ^ 64" using room ts st by (simp add: algebra_simps)
  from drawn_step [OF i(1) cfg this, of clock t] d st obtain K' where
    k: "K' \<le> Suc K" "drawn_inv cfg K' (given @ [(t, time)]) (mg', cur')" by auto
  have same: "mg_all_ts mg' = mg_all_ts mg" "mg_min_ts mg' = mg_min_ts mg"
    using get_next_ts_frame d st by blast+
  have "K' * fetched cfg \<le> Suc K * fetched cfg" using k(1) by (rule mult_right_mono) simp
  then have "mg_timestamp mg' + fetched cfg < 2 ^ 64" using k(2) room ts st by (simp add: drawn_inv_def)
  moreover have "time < fresh_ts cfg mg'" using k(2) by (simp add: drawn_inv_def)
  ultimately have "time < 2 ^ 64 - 1" using f by (auto simp: fresh_ts_def split: if_splits)
  then have small: "time < UINT64_MAX" by (simp add: UINT64_MAX_def)
  have order: "mg_all_ts mg ! t = UINT64_MAX \<or> mg_all_ts mg ! t < time"
    using i(2) t(1) k(2) by (fastforce simp: all_ok_def drawn_inv_def sorted_wrt_append)
  have "pend_ok n (given @ [(t, time)]) mg' (pend(t := Some time))"
    using i(3) order small t(1) by (auto simp: pend_ok_def same)
  moreover have "all_ok n (given @ [(t, time)]) mg'" using i(2) by (auto simp: all_ok_def same)
  ultimately show ?thesis using k(2) i(4) small unfolding mts_inv_def st
    by (intro exI [of _ K'] exI [of _ "given @ [(t, time)]"]) auto
qed

lemma mts_inv_step: "mts_step cfg n s s' \<Longrightarrow> counting cfg \<Longrightarrow> mts_inv cfg n s \<Longrightarrow> mts_inv cfg n s'"
proof (induction rule: mts_step.induct)
  case mts_draw
  then show ?case using mts_draw_inv by blast
next
  case (mts_add t pend time mg mg' cur)
  then obtain K given where i: "drawn_inv cfg K given (mg, cur)" "all_ok n given mg"
    "pend_ok n given mg pend" "\<forall>a \<in> set given. snd a < UINT64_MAX" by (auto simp: mts_inv_def)
  have mg': "mg' = mg\<lparr>mg_all_ts := (mg_all_ts mg)[t := time]\<rparr>"
    using mts_add.hyps(3) by (auto simp: add_ts_def split: if_splits)
  have p: "(t, time) \<in> set given" "mg_all_ts mg ! t = UINT64_MAX \<or> mg_all_ts mg ! t < time"
    using i(3) mts_add.hyps(2) by (auto simp: pend_ok_def)
  have a: "length (mg_all_ts mg) = n" "mg_all_ts mg ! u = UINT64_MAX \<and> mg_min_ts mg = 0 \<or>
        (u, mg_all_ts mg ! u) \<in> set given \<and> mg_min_ts mg \<le> mg_all_ts mg ! u" if "u < n" for u
    using i(2) that by (auto simp: all_ok_def)
  have notmax: "mg_all_ts mg ! t \<noteq> UINT64_MAX \<or> mg_min_ts mg = 0" using a(2) [OF mts_add.hyps(1)] i(4) by fastforce
  then have "mg_min_ts mg \<le> time" using p(2) a(2) [OF mts_add.hyps(1)] by auto
  then have "all_ok n given mg'" using a p(1) mts_add.hyps(1) i(2) by (auto simp: all_ok_def mg' nth_list_update)
  moreover have "pend_ok n given mg' (pend(t := None))" using i(3) by (auto simp: pend_ok_def mg')
  moreover have "drawn_inv cfg K given (mg', cur)" using i(1) by (subst drawn_inv_frame) (simp_all add: mg')
  ultimately show ?case using i(4) unfolding mts_inv_def fst_conv snd_conv by blast
next
  case (mts_min mg now time mg' cur pend)
  then obtain K given where i: "drawn_inv cfg K given (mg, cur)" "all_ok n given mg"
    "pend_ok n given mg pend" "\<forall>a \<in> set given. snd a < UINT64_MAX" by (auto simp: mts_inv_def)
  show ?case
  proof (cases "mg' = mg")
    case True
    with mts_min.prems show ?thesis by simp
  next
    case False
    then have mg': "mg' = mg\<lparr>mg_last_min_ts_time := now, mg_min_ts := min_of_all (mg_all_ts mg)\<rparr>"
      using mts_min.hyps(2) by (auto simp: get_min_ts_def Let_def split: if_splits)
    have "min_of_all (mg_all_ts mg) \<le> mg_all_ts mg ! u" if "u < n" for u
      using that i(2) by (intro min_of_all_lower) (simp add: all_ok_def)
    then have "all_ok n given mg'" using i(2) mts_min.hyps(1) by (auto simp: all_ok_def mg')
    moreover have "pend_ok n given mg' pend" using i(3) by (simp add: pend_ok_def mg')
    moreover have "drawn_inv cfg K given (mg', cur)" using i(1) by (subst drawn_inv_frame) (simp_all add: mg')
    ultimately show ?thesis using i(4) unfolding mts_inv_def fst_conv snd_conv by blast
  qed
qed

lemma mts_inv_reach: "mts_reach cfg n s \<Longrightarrow> counting cfg \<Longrightarrow> mts_inv cfg n s"
  by (induction rule: rtranclp_induct) (auto intro: mts_inv_start mts_inv_step)

lemma get_min_ts_added:
  assumes "mts_inv cfg n ((mg, cur), pend)" and "0 < n" and "\<forall>t < n. mg_all_ts mg ! t \<noteq> UINT64_MAX"
  shows "\<exists>min mg'. get_min_ts now mg = Some (min, mg') \<and>
     (\<forall>t < n. min \<le> mg_all_ts mg ! t) \<and>
     (\<forall>t time. pend t = Some time \<longrightarrow> min < time \<and> (\<exists>mg''. add_ts t time mg = Some mg''))"
proof -
  from assms(1) obtain K given where i: "all_ok n given mg" "pend_ok n given mg pend"
    "\<forall>a \<in> set given. snd a < UINT64_MAX" by (auto simp: mts_inv_def)
  have len: "length (mg_all_ts mg) = n" using i(1) by (simp add: all_ok_def)
  have added: "mg_min_ts mg \<le> mg_all_ts mg ! t \<and> mg_all_ts mg ! t < UINT64_MAX" if "t < n" for t
    using i(1,3) assms(3) that by (fastforce simp: all_ok_def)
  have low: "min_of_all (mg_all_ts mg) \<le> mg_all_ts mg ! t" if "t < n" for t using that len by (intro min_of_all_lower) simp
  have below: "mg_min_ts mg \<le> min_of_all (mg_all_ts mg) \<and> min_of_all (mg_all_ts mg) \<noteq> UINT64_MAX"
  proof -
    have "min_of_all (mg_all_ts mg) \<noteq> UINT64_MAX" using low [OF assms(2)] added [OF assms(2)] by linarith
    moreover from this have "min_of_all (mg_all_ts mg) \<in> set (mg_all_ts mg)"
      using min_of_all_le [of "mg_all_ts mg" UINT64_MAX] by (auto simp: min_of_all_def)
    then obtain t where "t < n" "mg_all_ts mg ! t = min_of_all (mg_all_ts mg)" using len by (auto simp: in_set_conv_nth)
    ultimately show ?thesis using added [of t] by simp
  qed
  have pend: "mg_all_ts mg ! t < time \<and> t < n \<and> (\<exists>mg'. add_ts t time mg = Some mg')" if p: "pend t = Some time" for t time
  proof -
    have "t < n" "mg_all_ts mg ! t = UINT64_MAX \<or> mg_all_ts mg ! t < time" using i(2) p by (auto simp: pend_ok_def)
    with assms(3) have "t < n" "mg_all_ts mg ! t < time" by auto
    then show ?thesis by (simp add: add_ts_def)
  qed
  obtain min mg' where g: "get_min_ts now mg = Some (min, mg')" "min = mg_min_ts mg \<or> min = min_of_all (mg_all_ts mg)"
    using below unfolding get_min_ts_def Let_def by (cases "MIN_TS_INTVL < (now + 2 ^ 64 - mg_last_min_ts_time mg) mod 2 ^ 64") auto
  then have "min \<le> mg_all_ts mg ! t" if "t < n" for t using added low that by auto
  with g(1) pend show ?thesis by (meson order_le_less_trans)
qed

text \<open>Once every thread has added a timestamp, \<open>get_min_ts\<close> succeeds, and its result is at most the
  timestamp of every transaction that runs or has drawn a timestamp; adding a drawn
  timestamp never fails.  So the multi-version rows may recycle below it.\<close>

theorem min_ts_below_active:
  assumes "mts_reach cfg n ((mg, cur), pend)" and "counting cfg" and "0 < n"
    and "\<forall>t < n. mg_all_ts mg ! t \<noteq> UINT64_MAX"
  shows "\<exists>min mg'. get_min_ts now mg = Some (min, mg') \<and>
     (\<forall>t < n. min \<le> mg_all_ts mg ! t) \<and>
     (\<forall>t time. pend t = Some time \<longrightarrow> min < time \<and> (\<exists>mg''. add_ts t time mg = Some mg''))"
  by (rule get_min_ts_added [OF mts_inv_reach [OF assms(1,2)] assms(3,4)])

definition ex_all :: "nat list \<Rightarrow> nat \<Rightarrow> nat \<Rightarrow> Manager" where
  "ex_all ts time m = \<lparr>mg_timestamp = 3, mg_last_min_ts_time = time, mg_min_ts = m, mg_all_ts = ts\<rparr>"

lemmas mts_eval = ex_all_def add_ts_def get_min_ts_def MIN_TS_INTVL_def min_of_all_def UINT64_MAX_def Let_def

text \<open>Before that the assertion of \<open>get_min_ts\<close> can fail: thread 0 draws 1 and thread 1 draws 2 and adds it, the
  oldest timestamp is taken to be 2, and only then thread 0 adds 1.\<close>

theorem min_ts_race:
  "let none = 2 ^ 64 - 1 in
   add_ts 1 2 (ex_all [none, none] 0 0) = Some (ex_all [none, 2] 0 0) \<and>
   get_min_ts 20000000 (ex_all [none, 2] 0 0) = Some (2, ex_all [none, 2] 20000000 2) \<and>
   add_ts 0 1 (ex_all [none, 2] 20000000 2) = Some (ex_all [1, 2] 20000000 2) \<and>
   get_min_ts 40000000 (ex_all [1, 2] 20000000 2) = None"
  unfolding Let_def
proof (intro conjI)
  show "add_ts 1 2 (ex_all [2 ^ 64 - 1, 2 ^ 64 - 1] 0 0) = Some (ex_all [2 ^ 64 - 1, 2] 0 0)" by (simp add: mts_eval)
  show "get_min_ts 20000000 (ex_all [2 ^ 64 - 1, 2] 0 0) = Some (2, ex_all [2 ^ 64 - 1, 2] 20000000 2)" by (simp add: mts_eval)
  show "add_ts 0 1 (ex_all [2 ^ 64 - 1, 2] 20000000 2) = Some (ex_all [1, 2] 20000000 2)" by (simp add: mts_eval)
  show "get_min_ts 40000000 (ex_all [1, 2] 20000000 2) = None" by (simp add: mts_eval)
qed

lemma min_ts_below_active_witness:
  "\<exists>min mg'. get_min_ts 20000000 (ex_all [1, 2] 0 0) = Some (min, mg') \<and> min \<le> 1"
proof -
  let ?cfg = "\<lparr>g_ts_alloc = TS_CAS, g_ts_batch_alloc = False, g_ts_batch_num = 1, g_thread_cnt = 2\<rparr>"
  let ?N = "UINT64_MAX" and ?P = "\<lambda>_. None"
  let ?m = "\<lambda>ts a. \<lparr>mg_timestamp = ts, mg_last_min_ts_time = 0, mg_min_ts = 0, mg_all_ts = a\<rparr>"
  have start: "mts_start 2 = ((?m 1 [?N, ?N], \<lambda>_. 0), ?P)" by (simp add: mts_start_def Manager_init_def numeral_2_eq_2)
  have f: "fetched ?cfg = Suc 0" by (simp add: fetched_def)
  have 1: "mts_step ?cfg 2 ((?m 1 [?N, ?N], \<lambda>_. 0), ?P) ((?m 2 [?N, ?N], (\<lambda>_. 0)(0 := 1)), ?P(0 := Some 1))"
    by (rule mts_draw) (simp_all add: f [simplified] get_next_ts_def get_ts_def)
  have 2: "mts_step ?cfg 2 ((?m 2 [?N, ?N], (\<lambda>_. 0)(0 := 1)), ?P(0 := Some 1))
      ((?m 2 [1, ?N], (\<lambda>_. 0)(0 := 1)), (?P(0 := Some 1))(0 := None))"
    by (rule mts_add) (simp_all add: add_ts_def)
  have 3: "mts_step ?cfg 2 ((?m 2 [1, ?N], (\<lambda>_. 0)(0 := 1)), (?P(0 := Some 1))(0 := None))
      ((?m 3 [1, ?N], ((\<lambda>_. 0)(0 := 1))(1 := 2)), ((?P(0 := Some 1))(0 := None))(1 := Some 2))"
    by (rule mts_draw) (simp_all add: f [simplified] get_next_ts_def get_ts_def)
  have 4: "mts_step ?cfg 2 ((?m 3 [1, ?N], ((\<lambda>_. 0)(0 := 1))(1 := 2)), ((?P(0 := Some 1))(0 := None))(1 := Some 2))
      ((?m 3 [1, 2], ((\<lambda>_. 0)(0 := 1))(1 := 2)), (((?P(0 := Some 1))(0 := None))(1 := Some 2))(1 := None))"
    by (rule mts_add) (simp_all add: add_ts_def)
  note more = converse_rtranclp_into_rtranclp [where r = "mts_step ?cfg 2"]
  have r: "mts_reach ?cfg 2 ((?m 3 [1, 2], ((\<lambda>_. 0)(0 := 1))(1 := 2)), (((?P(0 := Some 1))(0 := None))(1 := Some 2))(1 := None))"
    unfolding start by (rule more [OF 1], rule more [OF 2], rule more [OF 3], rule more [OF 4], rule rtranclp.rtrancl_refl)
  have "counting ?cfg" by (simp add: counting_def)
  moreover have "\<forall>t < 2. mg_all_ts (?m 3 [1, 2]) ! t \<noteq> ?N" by (simp add: UINT64_MAX_def less_2_cases_iff all_conj_distrib nth_Cons')
  ultimately obtain min mg' where "get_min_ts 20000000 (?m 3 [1, 2]) = Some (min, mg')"
    "\<forall>t < 2. min \<le> mg_all_ts (?m 3 [1, 2]) ! t" using min_ts_below_active [OF r, of 20000000] by auto
  then show ?thesis unfolding ex_all_def by (intro exI [of _ min] exI [of _ mg']) (auto dest: spec [of _ 0])
qed

section \<open>Keys\<close>

definition merge_idx_key2 :: "64 word \<Rightarrow> 64 word \<Rightarrow> 64 word option" where
  "merge_idx_key2 key1 key2 =
     (if key1 < 2 ^ 32 \<and> key2 < 2 ^ 32 then Some (push_bit 32 key1 OR key2) else None)"

definition merge_idx_key3 :: "64 word \<Rightarrow> 64 word \<Rightarrow> 64 word \<Rightarrow> 64 word option" where
  "merge_idx_key3 key1 key2 key3 =
     (if key1 < 2 ^ 21 \<and> key2 < 2 ^ 21 \<and> key3 < 2 ^ 21
      then Some (push_bit 42 key1 OR push_bit 21 key2 OR key3) else None)"

text \<open>The version for an array, whose loop runs \<open>len\<close> times; reading past the array is \<open>None\<close>.\<close>

fun merge_loop :: "nat \<Rightarrow> nat \<Rightarrow> 64 word list \<Rightarrow> 64 word \<Rightarrow> 64 word option" where
  "merge_loop len 0 keys key = Some key"
| "merge_loop len (Suc n) [] key = None"
| "merge_loop len (Suc n) (k # keys) key =
     (if k < push_bit len 1 then merge_loop len n keys (push_bit len key OR k) else None)"

definition merge_idx_keys :: "64 word list \<Rightarrow> 64 word option" where
  "merge_idx_keys keys =
     (let key_cnt = length keys; len = 64 div key_cnt in if key_cnt = 0 then None else merge_loop len len keys 0)"

definition key_to_part :: "bool \<Rightarrow> nat \<Rightarrow> nat \<Rightarrow> nat" where
  "key_to_part g_part_alloc g_part_cnt key = (if g_part_alloc then key mod g_part_cnt else 0)"

lemma small_take_bit: "k < 2 ^ m \<Longrightarrow> m < 64 \<Longrightarrow> take_bit m k = (k :: 64 word)"
proof -
  assume "k < 2 ^ m" "m < 64"
  then have "uint k < 2 ^ m" using word_2p_lem [of m k] by (simp add: word_size)
  then have "uint (take_bit m k) = uint k" by (simp add: unsigned_take_bit_eq take_bit_int_eq_self)
  then show ?thesis by (simp only: word_uint_eq_iff)
qed

lemma small_bit: "k < 2 ^ m \<Longrightarrow> m < 64 \<Longrightarrow> bit (k :: 64 word) i \<Longrightarrow> i < m"
  using small_take_bit [of k m] by (metis bit_take_bit_iff)

text \<open>The keys merged into one 64-bit key can be read back from it, so different keys stay different.\<close>

theorem merge_idx_key_parts:
  "(merge_idx_key2 k1 k2 = Some k \<longrightarrow> drop_bit 32 k = k1 \<and> take_bit 32 k = k2) \<and>
   (merge_idx_key3 k1 k2 k3 = Some k \<longrightarrow>
      drop_bit 42 k = k1 \<and> take_bit 21 (drop_bit 21 k) = k2 \<and> take_bit 21 k = k3)"
proof (intro conjI impI)
  assume "merge_idx_key2 k1 k2 = Some k"
  then have k: "k1 < 2 ^ 32" "k2 < 2 ^ 32" "k = push_bit 32 k1 OR k2" by (auto simp: merge_idx_key2_def split: if_splits)
  note small = small_bit [OF k(1), simplified] small_bit [OF k(2), simplified]
  show "drop_bit 32 k = k1"
    by (rule bit_word_eqI) (auto simp: k(3) bit_simps dest: small)
  show "take_bit 32 k = k2"
    by (rule bit_word_eqI) (auto simp: k(3) bit_simps dest: small)
next
  assume "merge_idx_key3 k1 k2 k3 = Some k"
  then have k: "k1 < 2 ^ 21" "k2 < 2 ^ 21" "k3 < 2 ^ 21" "k = push_bit 42 k1 OR push_bit 21 k2 OR k3"
    by (auto simp: merge_idx_key3_def split: if_splits)
  note small = small_bit [OF k(1), simplified] small_bit [OF k(2), simplified] small_bit [OF k(3), simplified]
  show "drop_bit 42 k = k1" by (rule bit_word_eqI) (auto simp: k(4) bit_simps dest: small)
  show "take_bit 21 (drop_bit 21 k) = k2" by (rule bit_word_eqI) (auto simp: k(4) bit_simps dest: small)
  show "take_bit 21 k = k3" by (rule bit_word_eqI) (auto simp: k(4) bit_simps dest: small)
qed

lemma merge_idx_key_parts_witness: "drop_bit 32 (21474836487 :: 64 word) = 5 \<and> take_bit 32 (21474836487 :: 64 word) = 7"
  using merge_idx_key_parts [of 5 7 21474836487 0] by (simp add: merge_idx_key2_def)

text \<open>The version for an array never answers for one to seven keys: it reads past the array, or its assertion
  fails before.\<close>

theorem merge_idx_keys_none: "length keys < 8 \<Longrightarrow> merge_idx_keys keys = None"
proof -
  assume "length keys < 8"
  have short: "length ks < n \<Longrightarrow> merge_loop len n ks key = None" for len n ks key
    by (induction len n ks key rule: merge_loop.induct) auto
  have "length keys < 64 div length keys" if "keys \<noteq> []"
  proof -
    from that have "0 < length keys" by simp
    with \<open>length keys < 8\<close> consider "length keys = 1" | "length keys = 2" | "length keys = 3" | "length keys = 4"
      | "length keys = 5" | "length keys = 6" | "length keys = 7" by linarith
    then show ?thesis by cases simp_all
  qed
  then show ?thesis using short by (simp add: merge_idx_keys_def Let_def)
qed

end
