(* ===== verification/Mvcc_System.thy ===== *)
theory Mvcc_System
  imports Row_Mvcc Db_Manager
begin

text \<open>
  A row under multi-version timestamp ordering together with the manager that the threads draw their timestamps from
  (\<open>thread_t::run\<close> in \<open>src/DBx1000/code/system/thread.cpp\<close>, \<open>Row_mvcc::access\<close> in
  \<open>src/DBx1000/code/concurrency_control/row_mvcc.cpp\<close>).  A thread has one \<open>txn_man\<close>, so a transaction is known by
  its thread; the threshold below which \<open>access\<close> recycles versions is what \<open>get_min_ts\<close> returns at that moment.
\<close>

section \<open>Steps\<close>

text \<open>Whether \<open>access\<close> gets as far as asking for the threshold.\<close>

definition asks_min :: "tid \<Rightarrow> TsType \<Rightarrow> rdata \<Rightarrow> mvcc \<Rightarrow> bool" where
  "asks_min txn type row st =
     (case mv_request txn type row st of
        None \<Rightarrow> False
      | Some (rc, m, T) \<Rightarrow> rc = RCOK \<and> (HIS_RECYCLE_LEN < whis_len m \<or> HIS_RECYCLE_LEN < rhis_len m))"

text \<open>A thread whose transaction has ended (it has no request in a buffer of the row) draws a timestamp for the next one
  and adds it; then the transaction accesses the row.  It reads once, announces a write once before it writes, and
  ends only what it has announced.  A threshold is asked for only when every thread has added a timestamp.\<close>

type_synonym mvs = "mts \<times> mvcc"

inductive mvs_step :: "ts_config \<Rightarrow> nat \<Rightarrow> mvs \<Rightarrow> mvs \<Rightarrow> bool" for cfg :: ts_config and n :: nat where
  mvs_draw: "t < n \<Longrightarrow> pend t = None \<Longrightarrow> mg_timestamp (fst st) + 2 * fetched cfg < 2 ^ 64 \<Longrightarrow>
     t \<notin> rq_txn ` set (mv_prereq m @ mv_readreq m) \<Longrightarrow> get_next_ts cfg clock t st = Some (time, st') \<Longrightarrow>
     mvs_step cfg n ((st, pend), m, T) ((st', pend(t := Some time)), m, T(t := (T t)\<lparr>tm_ts := time\<rparr>))"
| mvs_add: "t < n \<Longrightarrow> pend t = Some time \<Longrightarrow> add_ts t time mg = Some mg' \<Longrightarrow>
     mvs_step cfg n (((mg, cur), pend), m, T) (((mg', cur), pend(t := None)), m, T)"
| mvs_access: "t < n \<Longrightarrow> pend t = None \<Longrightarrow> mg_all_ts mg ! t \<noteq> UINT64_MAX \<Longrightarrow> mv_allowed 0 t type (m, T) \<Longrightarrow>
     (asks_min t type d (m, T) \<Longrightarrow> \<forall>u < n. mg_all_ts mg ! u \<noteq> UINT64_MAX) \<Longrightarrow>
     (if asks_min t type d (m, T) then get_min_ts now mg else Some (0, mg)) = Some (t_th, mg') \<Longrightarrow>
     mv_access t type d t_th (m, T) = Some (rc, m', T') \<Longrightarrow>
     mvs_step cfg n (((mg, cur), pend), m, T) (((mg', cur), pend), m', T')"

inductive_cases mvs_stepE: "mvs_step cfg n s s'"

abbreviation mvs_reach :: "ts_config \<Rightarrow> nat \<Rightarrow> rdata \<Rightarrow> txns \<Rightarrow> mvs \<Rightarrow> bool" where
  "mvs_reach cfg n row T \<equiv> (mvs_step cfg n)\<^sup>*\<^sup>* (mts_start n, mvcc_init row, T)"

section \<open>The oldest running timestamp\<close>

text \<open>No threshold is asked for before every thread has added a timestamp; then the oldest of them bounds it.\<close>

definition oldest_ts :: "nat \<Rightarrow> Manager \<Rightarrow> nat" where
  "oldest_ts n mg = (if 0 < n \<and> (\<forall>t < n. mg_all_ts mg ! t \<noteq> UINT64_MAX) then Min ((\<lambda>t. mg_all_ts mg ! t) ` {..<n}) else 1)"

definition mvs_inv :: "ts_config \<Rightarrow> nat \<Rightarrow> mvs \<Rightarrow> bool" where
  "mvs_inv cfg n s \<longleftrightarrow>
     (case s of (((mg, cur), pend), m, T) \<Rightarrow>
        mts_inv cfg n ((mg, cur), pend) \<and> mv_inv (oldest_ts n mg) (m, T) \<and>
        (\<forall>q \<in> set (mv_prereq m @ mv_readreq m). rq_txn q < n \<and> pend (rq_txn q) = None \<and> mg_all_ts mg ! rq_txn q \<noteq> UINT64_MAX) \<and>
        (\<forall>t < n. case pend t of
                   Some time \<Rightarrow> ts_of T t = time
                 | None \<Rightarrow> mg_all_ts mg ! t \<noteq> UINT64_MAX \<longrightarrow> ts_of T t = mg_all_ts mg ! t))"

lemma mvs_invD:
  assumes "mvs_inv cfg n (((mg, cur), pend), m, T)"
  shows "mts_inv cfg n ((mg, cur), pend)" "mv_inv (oldest_ts n mg) (m, T)"
    "q \<in> set (mv_prereq m @ mv_readreq m) \<Longrightarrow> rq_txn q < n \<and> pend (rq_txn q) = None \<and> mg_all_ts mg ! rq_txn q \<noteq> UINT64_MAX"
    "t < n \<Longrightarrow> pend t = Some time \<Longrightarrow> ts_of T t = time"
    "t < n \<Longrightarrow> pend t = None \<Longrightarrow> mg_all_ts mg ! t \<noteq> UINT64_MAX \<Longrightarrow> ts_of T t = mg_all_ts mg ! t"
  using assms unfolding mvs_inv_def prod.case by (blast, blast, blast, fastforce, fastforce)

lemma mts_inv_added:
  assumes "mts_inv cfg n ((mg, cur), pend)" "t < n"
  shows "0 < mg_all_ts mg ! t" "mg_all_ts mg ! t \<noteq> UINT64_MAX \<Longrightarrow> mg_min_ts mg \<le> mg_all_ts mg ! t"
    "length (mg_all_ts mg) = n"
    "pend t = Some time \<Longrightarrow> time \<noteq> UINT64_MAX \<and> (mg_all_ts mg ! t = UINT64_MAX \<or> mg_all_ts mg ! t < time)"
proof -
  from assms obtain K given where i: "drawn_inv cfg K given (mg, cur)" "all_ok n given mg" "pend_ok n given mg pend"
    by (auto simp: mts_inv_def)
  show "0 < mg_all_ts mg ! t"
    using i(1,2) assms(2) by (fastforce simp: drawn_inv_def all_ok_def UINT64_MAX_def)
  show "mg_all_ts mg ! t \<noteq> UINT64_MAX \<Longrightarrow> mg_min_ts mg \<le> mg_all_ts mg ! t" "length (mg_all_ts mg) = n"
    using i(2) assms(2) by (auto simp: all_ok_def)
  show "pend t = Some time \<Longrightarrow> time \<noteq> UINT64_MAX \<and> (mg_all_ts mg ! t = UINT64_MAX \<or> mg_all_ts mg ! t < time)"
    using i(3) by (auto simp: pend_ok_def)
qed

lemma oldest_ts_le:
  assumes "mts_inv cfg n ((mg, cur), pend)" "t < n"
  shows "oldest_ts n mg \<le> mg_all_ts mg ! t"
  using assms mts_inv_added(1) [OF assms] by (auto simp: oldest_ts_def intro!: Min_le)

lemma oldest_ts_ge:
  assumes "0 < n" "\<forall>t < n. mg_all_ts mg ! t \<noteq> UINT64_MAX" "\<And>t. t < n \<Longrightarrow> k \<le> mg_all_ts mg ! t"
  shows "k \<le> oldest_ts n mg"
proof -
  have "k \<le> Min ((\<lambda>t. mg_all_ts mg ! t) ` {..<n})" using assms(1,3) by (intro Min.boundedI) auto
  then show ?thesis unfolding oldest_ts_def using assms(1,2) by (subst if_P) simp_all
qed

lemma oldest_ts_not_added: "\<not> (\<forall>t < n. mg_all_ts mg ! t \<noteq> UINT64_MAX) \<Longrightarrow> oldest_ts n mg = 1"
  unfolding oldest_ts_def by argo

text \<open>A threshold that \<open>get_min_ts\<close> returns is no larger.\<close>

lemma min_ts_le_oldest:
  assumes inv: "mts_inv cfg n ((mg, cur), pend)" and n: "0 < n" and added: "\<forall>t < n. mg_all_ts mg ! t \<noteq> UINT64_MAX"
    and g: "get_min_ts now mg = Some (t_th, mg')"
  shows "t_th \<le> oldest_ts n mg"
proof -
  have "t_th = mg_min_ts mg \<or> t_th = min_of_all (mg_all_ts mg)" using g by (auto simp: get_min_ts_def Let_def split: if_splits)
  moreover have "min_of_all (mg_all_ts mg) \<le> mg_all_ts mg ! t" if "t < n" for t
    using that mts_inv_added(3) [OF inv that] by (intro min_of_all_lower) simp
  ultimately have "t_th \<le> mg_all_ts mg ! t" if "t < n" for t using that mts_inv_added(2) [OF inv that] added by auto
  then show ?thesis by (rule oldest_ts_ge [OF n added])
qed

lemma get_min_ts_frame: "get_min_ts now mg = Some (t_th, mg') \<Longrightarrow> mg_all_ts mg' = mg_all_ts mg"
  by (auto simp: get_min_ts_def Let_def split: if_splits)

lemma oldest_ts_same: "mg_all_ts mg' = mg_all_ts mg \<Longrightarrow> oldest_ts n mg' = oldest_ts n mg"
  unfolding oldest_ts_def by (simp only:)

text \<open>When a thread adds a newer timestamp, the oldest one can only grow.\<close>

lemma oldest_ts_add:
  assumes inv: "mts_inv cfg n ((mg, cur), pend)" and t: "t < n" "pend t = Some time"
  shows "oldest_ts n mg \<le> oldest_ts n (mg\<lparr>mg_all_ts := (mg_all_ts mg)[t := time]\<rparr>)"
proof -
  let ?all = "(mg_all_ts mg)[t := time]"
  have len: "length (mg_all_ts mg) = n" by (rule mts_inv_added(3) [OF inv t(1)])
  have at: "?all ! u = (if u = t then time else mg_all_ts mg ! u)" if "u < n" for u using that len by simp
  have time: "time \<noteq> UINT64_MAX" "mg_all_ts mg ! t = UINT64_MAX \<or> mg_all_ts mg ! t < time"
    using mts_inv_added(4) [OF inv t] by auto
  show ?thesis
  proof (cases "\<forall>u < n. ?all ! u \<noteq> UINT64_MAX")
    case False
    then have "\<not> (\<forall>u < n. mg_all_ts mg ! u \<noteq> UINT64_MAX)" using at time(1) by metis
    from oldest_ts_not_added [OF this] oldest_ts_not_added [of n "mg\<lparr>mg_all_ts := ?all\<rparr>"] False show ?thesis by simp
  next
    case True
    have "oldest_ts n mg \<le> ?all ! u" if u: "u < n" for u
    proof (cases "u = t")
      case eq: True
      then show ?thesis
      proof (cases "mg_all_ts mg ! t = UINT64_MAX")
        case True
        have "\<not> (\<forall>u < n. mg_all_ts mg ! u \<noteq> UINT64_MAX)" using t(1) True by blast
        then have one: "oldest_ts n mg = 1" by (rule oldest_ts_not_added)
        from inv t(2) obtain K given where "drawn_inv cfg K given (mg, cur)" "(t, time) \<in> set given"
          by (auto simp: mts_inv_def pend_ok_def)
        then have "0 < time" by (auto simp: drawn_inv_def)
        with one eq at [OF u] show ?thesis by simp
      next
        case False
        with time(2) oldest_ts_le [OF inv t(1)] eq at [OF u] show ?thesis by simp
      qed
    qed (use at [OF u] oldest_ts_le [OF inv u] in simp)
    with True t(1) show ?thesis by (intro oldest_ts_ge) auto
  qed
qed

section \<open>The buffers\<close>

definition buffered :: "Row_mvcc \<Rightarrow> tid set" where
  "buffered m = rq_txn ` set (mv_prereq m @ mv_readreq m)"

lemma buffered_insert_history [simp]: "buffered (insert_history ts row m) = buffered m"
  by (simp add: buffered_def insert_history_def Let_def)

lemma buffered_wake: "buffered (fst (fold wake_read ready st)) = buffered (fst st)"
proof (induction ready arbitrary: st)
  case (Cons q ready)
  obtain m T where "st = (m, T)" by (cases st)
  then show ?case by (simp only: fold_simps o_apply Cons.IH) (simp add: wake_read_def)
qed simp

lemma buffered_update: "buffered (fst (mv_update_buffer (m, T))) \<subseteq> buffered m"
  by (auto simp: mv_update_buffer_def debuffer_reads_def Let_def buffered_wake) (auto simp: buffered_def)

lemma buffered_debuffer: "debuffer_prewrite t m = Some m' \<Longrightarrow> buffered m' \<subseteq> buffered m"
  using unlink_set [of "\<lambda>req. rq_txn req = t" "mv_prereq m"]
  by (fastforce simp: debuffer_prewrite_def buffered_def split: option.splits prod.splits)

lemma buffered_buffer: "buffered (mv_buffer_req type t (m, T)) \<subseteq> insert t (buffered m)"
  by (auto simp: mv_buffer_req_def buffered_def Let_def)

lemma buffered_request:
  assumes "mv_request t type d (m, T) = Some (rc, m', T')"
  shows "buffered m' \<subseteq> insert t (buffered m)"
proof (cases type)
  case W_REQ
  then obtain m1 where m1: "debuffer_prewrite t (insert_history (ts_of T t) (Some d) m) = Some m1"
    "m' = fst (mv_update_buffer (m1, T))" using assms by (auto simp: mv_request_def Let_def)
  then show ?thesis using buffered_debuffer [OF m1(1)] buffered_update [of m1 T] by auto
next
  case XP_REQ
  then obtain m1 where m1: "debuffer_prewrite t m = Some m1" "m' = fst (mv_update_buffer (m1, T))"
    using assms by (auto simp: mv_request_def Let_def)
  then show ?thesis using buffered_debuffer [OF m1(1)] buffered_update [of m1 T] by auto
next
  case R_REQ
  with assms have "m' = mv_buffer_req type t (m, T) \<or> m' = m \<or> m' = insert_history (ts_of T t) None m"
    by (auto simp: mv_request_def Let_def split: if_splits)
  then show ?thesis using buffered_buffer [of type t m T] by auto
next
  case P_REQ
  with assms have "m' = mv_buffer_req type t (m, T) \<or> m' = m \<or> m' = insert_history (ts_of T t) None m"
    by (auto simp: mv_request_def Let_def split: if_splits)
  then show ?thesis using buffered_buffer [of type t m T] by auto
qed

lemma buffered_recycle:
  assumes r: "mv_recycle t_th m = Some m'"
  shows "buffered m' = buffered m"
proof -
  have clear: "buffered m2 = buffered m1" if "clear_history type ts m1 = Some (row, m2)" for type ts m1 row m2
    using that by (cases type) (auto simp: clear_history_def buffered_def)
  show ?thesis
  proof (cases "HIS_RECYCLE_LEN < whis_len m \<or> HIS_RECYCLE_LEN < rhis_len m")
    case True
    let ?reads = "if mv_readhis m \<noteq> [] \<and> hs_ts (last (mv_readhis m)) < t_th then clear_history R_REQ t_th m else Some (None, m)"
    let ?writes = "\<lambda>m. if 1 < whis_len m \<and> hs_ts (last (butlast (mv_writehis m))) < t_th
                 then map_option (\<lambda>(latest_row, m). case latest_row of None \<Rightarrow> m | Some row \<Rightarrow> m\<lparr>mv_row := row\<rparr>)
                        (clear_history W_REQ t_th m)
                 else Some m"
    from r have r': "(case ?reads of None \<Rightarrow> None | Some (_, m) \<Rightarrow> ?writes m) = Some m'"
      by (simp only: mv_recycle_def True if_True)
    then obtain x where x: "?reads = Some x" by (cases ?reads) simp_all
    obtain row m1 where m1: "x = (row, m1)" by (cases x)
    note m1 = x [unfolded m1] r' [unfolded x m1 option.case prod.case]
    have "buffered m1 = buffered m" using m1(1) clear by (metis option.inject prod.inject)
    moreover have "buffered m' = buffered m1"
    proof (cases "1 < whis_len m1 \<and> hs_ts (last (butlast (mv_writehis m1))) < t_th")
      case True
      with m1(2) obtain row2 m2 where "clear_history W_REQ t_th m1 = Some (row2, m2)"
        "m' = (case row2 of None \<Rightarrow> m2 | Some row \<Rightarrow> m2\<lparr>mv_row := row\<rparr>)" by auto
      with clear show ?thesis by (cases row2) (auto simp: buffered_def)
    qed (use m1(2) in \<open>simp only: if_False option.inject\<close>)
    ultimately show ?thesis by simp
  qed (use r in \<open>simp add: mv_recycle_def\<close>)
qed

lemma buffered_access:
  assumes "mv_access t type d t_th (m, T) = Some (rc, m', T')"
  shows "buffered m' \<subseteq> insert t (buffered m)"
proof -
  from assms obtain rc1 m1 T1 where m1: "mv_request t type d (m, T) = Some (rc1, m1, T1)"
    by (auto simp: mv_access_def split: option.splits)
  with assms have "m' = m1 \<or> mv_recycle t_th m1 = Some m'" by (auto simp: mv_access_def split: if_splits)
  with buffered_request [OF m1] buffered_recycle [of t_th m1 m'] show ?thesis by auto
qed

section \<open>The invariant\<close>

lemma mv_inv_draw:
  assumes "mv_inv low (m, T)" "t \<notin> buffered m"
  shows "mv_inv low (m, T(t := x))"
proof -
  have "ts_of (T(t := x)) (rq_txn q) = ts_of T (rq_txn q)" if "q \<in> set (mv_prereq m) \<union> set (mv_readreq m)" for q
    using that assms(2) by (auto simp: ts_of_def buffered_def)
  with assms(1) show ?thesis by (simp add: mv_inv_def reqs_ok_def)
qed

lemma mv_inv_grow:
  "mv_inv low (m, T) \<Longrightarrow> low \<le> low' \<Longrightarrow> \<forall>q \<in> set (mv_prereq m @ mv_readreq m). low' \<le> rq_ts q \<Longrightarrow> mv_inv low' (m, T)"
  by (auto simp: mv_inv_def reqs_ok_def)

lemma mv_inv_req_ts: "mv_inv low (m, T) \<Longrightarrow> q \<in> set (mv_prereq m @ mv_readreq m) \<Longrightarrow> rq_ts q = ts_of T (rq_txn q)"
  by (auto simp: mv_inv_def reqs_ok_def)

lemma asks_min_not:
  assumes "\<not> asks_min t type d st"
  shows "mv_access t type d t_th st = mv_access t type d t_th' st"
proof (cases "mv_request t type d st")
  case (Some x)
  obtain rc m T where "x = (rc, m, T)" by (cases x)
  with assms Some show ?thesis by (simp add: asks_min_def mv_access_def mv_recycle_def)
qed (simp add: mv_access_def)

lemma mv_allowed_low: "mv_allowed 0 t type (m, T) \<Longrightarrow> low \<le> ts_of T t \<Longrightarrow> mv_allowed low t type (m, T)"
  by (simp add: mv_allowed_def Let_def)

lemma mvs_inv_start: "mvs_inv cfg n (mts_start n, mvcc_init row, T)"
proof -
  have "oldest_ts n (Manager_init n) = 1" by (auto simp: oldest_ts_def Manager_init_def)
  then show ?thesis using mts_inv_start [of cfg n] mv_inv_init [of row T]
    by (simp add: mvs_inv_def mts_start_def mvcc_init_def) (simp add: Manager_init_def)
qed

text \<open>What a step does: the invariant stays, the oldest timestamp grows, and the reads above it stay valid.\<close>

definition mvs_ok :: "ts_config \<Rightarrow> nat \<Rightarrow> mvs \<Rightarrow> mvs \<Rightarrow> bool" where
  "mvs_ok cfg n s s' \<longleftrightarrow> mvs_inv cfg n s' \<and> oldest_ts n (fst (fst (fst s))) \<le> oldest_ts n (fst (fst (fst s'))) \<and>
     stable (oldest_ts n (fst (fst (fst s)))) (fst (snd s)) (fst (snd s'))"

lemma mvs_draw_ok:
  assumes inv: "mvs_inv cfg n ((st, pend), m, T)" and cfg: "counting cfg" and t: "t < n" "pend t = None"
    and room: "mg_timestamp (fst st) + 2 * fetched cfg < 2 ^ 64" and free: "t \<notin> rq_txn ` set (mv_prereq m @ mv_readreq m)"
    and d: "get_next_ts cfg clock t st = Some (time, st')"
  shows "mvs_ok cfg n ((st, pend), m, T) ((st', pend(t := Some time)), m, T(t := (T t)\<lparr>tm_ts := time\<rparr>))"
proof -
  obtain mg cur mg' cur' where st: "st = (mg, cur)" "st' = (mg', cur')" by (cases st, cases st')
  have same: "mg_all_ts mg' = mg_all_ts mg" using get_next_ts_frame d st by blast
  note i = mvs_invD [OF inv [unfolded st(1)]]
  have "mts_inv cfg n ((mg', cur'), pend(t := Some time))"
    using mts_draw_inv [where pend = pend and t = t, OF _ cfg t room d] i(1) st by simp
  moreover have "mv_inv (oldest_ts n mg') (m, T(t := (T t)\<lparr>tm_ts := time\<rparr>))"
    unfolding oldest_ts_same [OF same] using i(2) free by (intro mv_inv_draw) (simp_all add: buffered_def)
  moreover have "rq_txn q \<noteq> t" if "q \<in> set (mv_prereq m @ mv_readreq m)" for q using free that by auto
  moreover have "case (pend(t := Some time)) u of Some time' \<Rightarrow> ts_of (T(t := (T t)\<lparr>tm_ts := time\<rparr>)) u = time'
      | None \<Rightarrow> mg_all_ts mg' ! u \<noteq> UINT64_MAX \<longrightarrow> ts_of (T(t := (T t)\<lparr>tm_ts := time\<rparr>)) u = mg_all_ts mg' ! u" if "u < n" for u
    using i(4,5) [OF that] by (cases "u = t"; cases "pend u") (simp_all add: ts_of_def same)
  ultimately have "mvs_inv cfg n ((st', pend(t := Some time)), m, T(t := (T t)\<lparr>tm_ts := time\<rparr>))"
    using i(3) unfolding st mvs_inv_def prod.case by (simp add: same)
  with oldest_ts_same [OF same] show ?thesis by (simp add: mvs_ok_def st stable_refl)
qed

lemma mvs_add_ok:
  assumes inv: "mvs_inv cfg n (((mg, cur), pend), m, T)" and cfg: "counting cfg" and t: "t < n" "pend t = Some time"
    and a: "add_ts t time mg = Some mg'"
  shows "mvs_ok cfg n (((mg, cur), pend), m, T) (((mg', cur), pend(t := None)), m, T)"
proof -
  note i = mvs_invD [OF inv]
  note mts = i(1)
  have mg': "mg' = mg\<lparr>mg_all_ts := (mg_all_ts mg)[t := time]\<rparr>" using a by (auto simp: add_ts_def split: if_splits)
  have all: "mg_all_ts mg' ! u = (if u = t then time else mg_all_ts mg ! u)" if "u < n" for u
    using that mts_inv_added(3) [OF mts t(1)] by (simp add: mg')
  have mts': "mts_inv cfg n ((mg', cur), pend(t := None))" using mts_inv_step [OF mts_add [where pend = pend and t = t, OF t a] cfg mts] .
  have grow: "oldest_ts n mg \<le> oldest_ts n mg'" unfolding mg' by (rule oldest_ts_add [OF mts t])
  have reqs: "rq_txn q < n \<and> rq_txn q \<noteq> t \<and> pend (rq_txn q) = None \<and> mg_all_ts mg' ! rq_txn q \<noteq> UINT64_MAX \<and>
      rq_ts q = mg_all_ts mg' ! rq_txn q"
    if q: "q \<in> set (mv_prereq m @ mv_readreq m)" for q
  proof -
    have r: "rq_txn q < n" "pend (rq_txn q) = None" "mg_all_ts mg ! rq_txn q \<noteq> UINT64_MAX" using i(3) [OF q] by blast+
    then have "rq_txn q \<noteq> t" using t(2) by auto
    with r i(5) [OF r] mv_inv_req_ts [OF i(2) q] all [OF r(1)] show ?thesis by simp
  qed
  then have "\<forall>q \<in> set (mv_prereq m @ mv_readreq m). oldest_ts n mg' \<le> rq_ts q" using oldest_ts_le [OF mts'] by metis
  then have "mv_inv (oldest_ts n mg') (m, T)" by (rule mv_inv_grow [OF i(2) grow])
  moreover have "case (pend(t := None)) u of Some time' \<Rightarrow> ts_of T u = time'
      | None \<Rightarrow> mg_all_ts mg' ! u \<noteq> UINT64_MAX \<longrightarrow> ts_of T u = mg_all_ts mg' ! u" if "u < n" for u
    using i(4,5) [OF that] all [OF that] i(4) [OF t] by (cases "u = t"; cases "pend u") simp_all
  ultimately have "mvs_inv cfg n (((mg', cur), pend(t := None)), m, T)"
    using mts' reqs unfolding mvs_inv_def prod.case by simp
  with grow show ?thesis by (simp add: mvs_ok_def stable_refl)
qed

lemma mvs_access_ok:
  assumes inv: "mvs_inv cfg n (((mg, cur), pend), m, T)" and cfg: "counting cfg"
    and t: "t < n" "pend t = None" "mg_all_ts mg ! t \<noteq> UINT64_MAX" and al: "mv_allowed 0 t type (m, T)"
    and added: "asks_min t type d (m, T) \<Longrightarrow> \<forall>u < n. mg_all_ts mg ! u \<noteq> UINT64_MAX"
    and g: "(if asks_min t type d (m, T) then get_min_ts now mg else Some (0, mg)) = Some (t_th, mg')"
    and a: "mv_access t type d t_th (m, T) = Some (rc, m', T')"
  shows "mvs_ok cfg n (((mg, cur), pend), m, T) (((mg', cur), pend), m', T')"
proof -
  note i = mvs_invD [OF inv]
  note mts = i(1)
  note ts = i(5) [OF t]
  have "mts_inv cfg n ((mg', cur), pend) \<and> mg_all_ts mg' = mg_all_ts mg \<and> t_th \<le> oldest_ts n mg"
  proof (cases "asks_min t type d (m, T)")
    case True
    with g have min: "get_min_ts now mg = Some (t_th, mg')" by simp
    from mts_inv_step [OF mts_min [OF added [OF True] min] cfg mts] get_min_ts_frame [OF min]
      min_ts_le_oldest [OF mts _ added [OF True] min] t(1) show ?thesis by simp
  qed (use g mts in auto)
  then have mts': "mts_inv cfg n ((mg', cur), pend)" and same: "mg_all_ts mg' = mg_all_ts mg" and th: "t_th \<le> oldest_ts n mg"
    by blast+
  have "mv_allowed (oldest_ts n mg) t type (m, T)" using oldest_ts_le [OF mts t(1)] ts by (simp add: mv_allowed_low [OF al])
  from access_ok [OF i(2) this th, of d] obtain rc1 m1 T1 where x: "mv_access t type d t_th (m, T) = Some (rc1, m1, T1)"
    "mv_inv (oldest_ts n mg) (m1, T1)" "stable (oldest_ts n mg) m m1" "ts_of T1 = ts_of T" by blast
  from x(1) a have "m1 = m'" "T1 = T'" by simp_all
  note ok = x(2-4) [unfolded this]
  have "rq_txn q < n \<and> pend (rq_txn q) = None \<and> mg_all_ts mg ! rq_txn q \<noteq> UINT64_MAX"
    if "q \<in> set (mv_prereq m' @ mv_readreq m')" for q
  proof -
    have "rq_txn q \<in> buffered m'" using that by (simp add: buffered_def)
    then have "rq_txn q = t \<or> rq_txn q \<in> buffered m" using buffered_access [OF a] by blast
    then show ?thesis using i(3) t by (auto simp: buffered_def)
  qed
  moreover have "case pend u of Some time \<Rightarrow> ts_of T' u = time
      | None \<Rightarrow> mg_all_ts mg' ! u \<noteq> UINT64_MAX \<longrightarrow> ts_of T' u = mg_all_ts mg' ! u" if "u < n" for u
    using i(4,5) [OF that] by (cases "pend u") (simp_all add: ok(3) same)
  ultimately have "mvs_inv cfg n (((mg', cur), pend), m', T')"
    using ok(1) mts' unfolding mvs_inv_def prod.case by (simp add: same oldest_ts_same [OF same])
  with ok(2) show ?thesis by (simp add: mvs_ok_def oldest_ts_same [OF same])
qed

lemma mvs_step_ok: "mvs_step cfg n s s' \<Longrightarrow> counting cfg \<Longrightarrow> mvs_inv cfg n s \<Longrightarrow> mvs_ok cfg n s s'"
proof (induction rule: mvs_step.induct)
  case mvs_draw
  then show ?case by (intro mvs_draw_ok)
next
  case mvs_add
  then show ?case by (intro mvs_add_ok)
next
  case (mvs_access t pend mg type m T d now t_th mg' rc m' T' cur)
  from mvs_access_ok [OF mvs_access(9,8,1-7)] show ?case .
qed

lemma mvs_inv_reach: "mvs_reach cfg n row T s \<Longrightarrow> counting cfg \<Longrightarrow> mvs_inv cfg n s"
proof (induction rule: rtranclp_induct)
  case base
  show ?case by (rule mvs_inv_start)
next
  case (step s s')
  from mvs_step_ok [OF step.hyps(2) step.prems step.IH [OF step.prems]] show ?case by (simp add: mvs_ok_def)
qed

section \<open>Properties\<close>


text \<open>No assertion fails in the calls that running transactions make: in every state that can be reached, once all
  threads have added a timestamp, the threshold is found and the access gets an answer, and an announced write is always
  accepted.\<close>

theorem mvcc_calls_succeed:
  assumes "mvs_reach cfg n row T0 (((mg, cur), pend), m, T)" "counting cfg" "\<forall>u < n. mg_all_ts mg ! u \<noteq> UINT64_MAX"
    "t < n" "pend t = None" "mv_allowed 0 t type (m, T)"
  shows "\<exists>t_th mg' rc m' T'. get_min_ts now mg = Some (t_th, mg') \<and> mv_access t type d t_th (m, T) = Some (rc, m', T') \<and>
     (type \<in> {W_REQ, XP_REQ} \<longrightarrow> rc = RCOK)"
proof -
  note inv = mvs_inv_reach [OF assms(1,2)]
  note i = mvs_invD [OF inv]
  have n: "0 < n" using assms(4) by simp
  from get_min_ts_added [OF i(1) n assms(3)] obtain t_th mg' where g: "get_min_ts now mg = Some (t_th, mg')" by blast
  have "oldest_ts n mg \<le> ts_of T t" using oldest_ts_le [OF i(1) assms(4)] i(5) [OF assms(4,5)] assms(3,4) by simp
  from access_ok [OF i(2) mv_allowed_low [OF assms(6) this] min_ts_le_oldest [OF i(1) n assms(3) g]]
  obtain rc m' T' where a: "mv_access t type d t_th (m, T) = Some (rc, m', T')" by blast
  moreover have "rc = RCOK" if "type \<in> {W_REQ, XP_REQ}"
    using a that by (auto simp: mv_access_def mv_request_def Let_def split: option.splits if_splits)
  ultimately show ?thesis using g by blast
qed

text \<open>Two threads draw the timestamps 1 and 2; the first transaction reads the row, then the second announces and makes a
  write.\<close>

definition ex_mv_cfg :: ts_config where
  "ex_mv_cfg = \<lparr>g_ts_alloc = TS_CAS, g_ts_batch_alloc = False, g_ts_batch_num = 1, g_thread_cnt = 2\<rparr>"

definition ex_mts :: mts where
  "ex_mts = ((ex_all [1, 2] 0 0, (\<lambda>_. 0)(0 := 1, 1 := 2)), \<lambda>_. None)"

definition ex_read :: Row_mvcc where
  "ex_read = (mvcc_init [0])\<lparr>mv_readhis := [\<lparr>hs_ts = 1, hs_row = None\<rparr>], rhis_len := 1\<rparr>"

definition ex_pre :: Row_mvcc where
  "ex_pre = ex_read\<lparr>mv_prereq := [\<lparr>rq_txn = 1, rq_ts = 2\<rparr>], preq_len := 1\<rparr>"

definition ex_written :: Row_mvcc where
  "ex_written = ex_read\<lparr>mv_writehis := [\<lparr>hs_ts = 2, hs_row = Some [9]\<rparr>], whis_len := 1\<rparr>"

definition ex_txns2 :: txns where
  "ex_txns2 = ex_txns(0 := (ex_txns 0)\<lparr>tm_ts := 1\<rparr>, 1 := (ex_txns 1)\<lparr>tm_ts := 2\<rparr>)"

abbreviation ex_txns3 :: txns where
  "ex_txns3 \<equiv> ex_txns2(0 := (ex_txns2 0)\<lparr>tm_cur_row := [0]\<rparr>)"

lemmas ex_eval = mv_access_def mv_request_def conflict_def pts_before_def mv_buffer_req_def mv_recycle_def
  debuffer_prewrite_def mv_update_buffer_def debuffer_reads_def insert_history_def version_for_def Let_def
  ex_read_def ex_pre_def ex_written_def mvcc_init_def ts_of_def ex_txns_def HIS_RECYCLE_LEN_def MAX_PRE_REQ_def

lemma ex_mts_reach: "mvs_reach ex_mv_cfg 2 [0] ex_txns (ex_mts, mvcc_init [0], ex_txns2)"
proof -
  let ?N = "UINT64_MAX" and ?P = "\<lambda>_. None" and ?m = "mvcc_init [0]"
  let ?mg = "\<lambda>ts a. \<lparr>mg_timestamp = ts, mg_last_min_ts_time = 0, mg_min_ts = 0, mg_all_ts = a\<rparr>"
  let ?T1 = "ex_txns(0 := (ex_txns 0)\<lparr>tm_ts := 1\<rparr>)" and ?c1 = "(\<lambda>_. 0)(0 := 1)"
  have start: "mts_start 2 = ((?mg 1 [?N, ?N], \<lambda>_. 0), ?P)" by (simp add: mts_start_def Manager_init_def numeral_2_eq_2)
  have 1: "mvs_step ex_mv_cfg 2 (((?mg 1 [?N, ?N], \<lambda>_. 0), ?P), ?m, ex_txns) (((?mg 2 [?N, ?N], ?c1), ?P(0 := Some 1)), ?m, ?T1)"
    by (rule mvs_draw) (simp_all add: fetched_def get_next_ts_def get_ts_def ex_mv_cfg_def mvcc_init_def)
  have 2: "mvs_step ex_mv_cfg 2 (((?mg 2 [?N, ?N], ?c1), ?P(0 := Some 1)), ?m, ?T1) (((?mg 2 [1, ?N], ?c1), (?P(0 := Some 1))(0 := None)), ?m, ?T1)"
    by (rule mvs_add) (simp_all add: add_ts_def)
  have 3: "mvs_step ex_mv_cfg 2 (((?mg 2 [1, ?N], ?c1), (?P(0 := Some 1))(0 := None)), ?m, ?T1)
      (((?mg 3 [1, ?N], ?c1(1 := 2)), ((?P(0 := Some 1))(0 := None))(1 := Some 2)), ?m, ?T1(1 := (?T1 1)\<lparr>tm_ts := 2\<rparr>))"
    by (rule mvs_draw) (simp_all add: fetched_def get_next_ts_def get_ts_def ex_mv_cfg_def mvcc_init_def)
  have 4: "mvs_step ex_mv_cfg 2 (((?mg 3 [1, ?N], ?c1(1 := 2)), ((?P(0 := Some 1))(0 := None))(1 := Some 2)), ?m, ?T1(1 := (?T1 1)\<lparr>tm_ts := 2\<rparr>))
      (((?mg 3 [1, 2], ?c1(1 := 2)), (((?P(0 := Some 1))(0 := None))(1 := Some 2))(1 := None)), ?m, ?T1(1 := (?T1 1)\<lparr>tm_ts := 2\<rparr>))"
    by (rule mvs_add) (simp_all add: add_ts_def)
  note more = converse_rtranclp_into_rtranclp [where r = "mvs_step ex_mv_cfg 2"]
  have "mvs_reach ex_mv_cfg 2 [0] ex_txns
      (((?mg 3 [1, 2], ?c1(1 := 2)), (((?P(0 := Some 1))(0 := None))(1 := Some 2))(1 := None)), ?m, ?T1(1 := (?T1 1)\<lparr>tm_ts := 2\<rparr>))"
    unfolding start by (rule more [OF 1], rule more [OF 2], rule more [OF 3], rule more [OF 4], rule rtranclp.rtrancl_refl)
  moreover have "(((?P(0 := Some 1))(0 := None))(1 := Some 2))(1 := None) = (\<lambda>_. None :: nat option)" by (simp add: fun_eq_iff)
  ultimately show ?thesis by (simp add: ex_mts_def ex_all_def ex_txns2_def ex_txns_def)
qed

lemma ex_access:
  assumes "t < 2" "mv_allowed 0 t type (m, T)" "\<not> asks_min t type d (m, T)" "mv_access t type d 0 (m, T) = Some (rc, m', T')"
  shows "mvs_step ex_mv_cfg 2 (ex_mts, m, T) (ex_mts, m', T')"
  unfolding ex_mts_def
  by (rule mvs_access [OF assms(1) refl _ assms(2)]) (use assms in \<open>auto simp: ex_all_def UINT64_MAX_def less_2_cases_iff\<close>)

lemma ex_read_reach: "mvs_reach ex_mv_cfg 2 [0] ex_txns (ex_mts, ex_read, ex_txns3)"
proof -
  have "mvs_step ex_mv_cfg 2 (ex_mts, mvcc_init [0], ex_txns2) (ex_mts, ex_read, ex_txns3)"
    by (rule ex_access [where t = 0 and type = R_REQ and rc = RCOK and d = "[]"])
      (simp_all add: ex_eval mv_allowed_def asks_min_def ex_txns2_def fun_eq_iff)
  with ex_mts_reach show ?thesis by (rule rtranclp.rtrancl_into_rtrancl)
qed

lemma ex_written_steps: "(mvs_step ex_mv_cfg 2)\<^sup>*\<^sup>* (ex_mts, ex_read, ex_txns3) (ex_mts, ex_written, ex_txns3)"
proof -
  have "mvs_step ex_mv_cfg 2 (ex_mts, ex_read, ex_txns3) (ex_mts, ex_pre, ex_txns3)"
    by (rule ex_access [where t = 1 and type = P_REQ and rc = RCOK and d = "[]"])
      (simp_all add: ex_eval mv_allowed_def asks_min_def ex_txns2_def fun_eq_iff)
  moreover have "mvs_step ex_mv_cfg 2 (ex_mts, ex_pre, ex_txns3) (ex_mts, ex_written, ex_txns3)"
    by (rule ex_access [where t = 1 and type = W_REQ and rc = RCOK and d = "[9]"])
      (simp_all add: ex_eval mv_allowed_def asks_min_def ex_txns2_def fun_eq_iff)
  ultimately show ?thesis by (simp add: converse_rtranclp_into_rtranclp)
qed


lemma mvcc_calls_succeed_witness: "\<exists>rc m' T'. \<exists>t_th. mv_access 1 P_REQ [] t_th (ex_read, ex_txns3) = Some (rc, m', T')"
proof -
  have "counting ex_mv_cfg" by (simp add: counting_def ex_mv_cfg_def)
  moreover have "\<forall>u < 2. mg_all_ts (ex_all [1, 2] 0 0) ! u \<noteq> UINT64_MAX"
    by (auto simp: ex_all_def UINT64_MAX_def less_2_cases_iff)
  moreover have "mv_allowed 0 1 P_REQ (ex_read, ex_txns3)" by (simp add: mv_allowed_def ex_eval ex_txns2_def)
  ultimately show ?thesis using mvcc_calls_succeed [OF ex_read_reach [unfolded ex_mts_def], of 1 P_REQ] by fastforce
qed

end
