(* ===== verification/Row_Ts.thy ===== *)
theory Row_Ts
  imports Db_Base
begin

text \<open>
  Basic timestamp ordering on one row (\<open>src/DBx1000/code/concurrency_control/row_ts.cpp\<close>): the row
  buffers reads, prewrites and writes, as stacks, and keeps the smallest timestamp of each.  A
  write is announced by a prewrite.  A failing assertion is \<open>None\<close>.
\<close>

section \<open>State\<close>

record TsReqEntry =
  te_txn :: tid
  te_row :: "rdata option"
  te_ts :: nat

record Row_ts =
  rt_row :: rdata
  rt_wts :: nat
  rt_rts :: nat
  rt_min_wts :: nat
  rt_min_rts :: nat
  rt_min_pts :: nat
  rt_readreq :: "TsReqEntry list"
  rt_writereq :: "TsReqEntry list"
  rt_prereq :: "TsReqEntry list"
  rt_preq_len :: nat

type_synonym tso = "Row_ts \<times> txns"

definition ts_init :: "rdata \<Rightarrow> Row_ts" where
  "ts_init row = \<lparr>rt_row = row, rt_wts = 0, rt_rts = 0, rt_min_wts = UINT64_MAX, rt_min_rts = UINT64_MAX,
     rt_min_pts = UINT64_MAX, rt_readreq = [], rt_writereq = [], rt_prereq = [], rt_preq_len = 0\<rparr>"

section \<open>Buffers\<close>

definition ts_buffer_req :: "TsType \<Rightarrow> tid \<Rightarrow> rdata option \<Rightarrow> tso \<Rightarrow> Row_ts option" where
  "ts_buffer_req type txn row st =
     (let (m, T) = st; ts = ts_of T txn; req = \<lparr>te_txn = txn, te_row = row, te_ts = ts\<rparr> in
      case type of
        R_REQ \<Rightarrow> Some (m\<lparr>rt_readreq := req # rt_readreq m,
                        rt_min_rts := if ts < rt_min_rts m then ts else rt_min_rts m\<rparr>)
      | W_REQ \<Rightarrow>
          (if row = None then None
           else Some (m\<lparr>rt_writereq := req # rt_writereq m,
                        rt_min_wts := if ts < rt_min_wts m then ts else rt_min_wts m\<rparr>))
      | P_REQ \<Rightarrow> Some (m\<lparr>rt_preq_len := rt_preq_len m + 1, rt_prereq := req # rt_prereq m,
                        rt_min_pts := if ts < rt_min_pts m then ts else rt_min_pts m\<rparr>)
      | XP_REQ \<Rightarrow> Some m)"

text \<open>\<open>debuffer_req\<close> with a transaction, which is only called for prewrites.\<close>

definition debuffer_pre :: "tid \<Rightarrow> Row_ts \<Rightarrow> Row_ts option" where
  "debuffer_pre txn m =
     (case unlink (\<lambda>req. te_txn req = txn) (rt_prereq m) of
        None \<Rightarrow> None
      | Some (_, qs) \<Rightarrow> Some (m\<lparr>rt_prereq := qs, rt_preq_len := rt_preq_len m - 1\<rparr>))"

text \<open>\<open>debuffer_req\<close> with a timestamp: the requests up to it, last one first, and the others.\<close>

definition debuffer_upto :: "nat \<Rightarrow> TsReqEntry list \<Rightarrow> TsReqEntry list \<times> TsReqEntry list" where
  "debuffer_upto ts queue = (rev (filter (\<lambda>q. te_ts q \<le> ts) queue), filter (\<lambda>q. \<not> te_ts q \<le> ts) queue)"

definition cal_min :: "TsReqEntry list \<Rightarrow> nat" where
  "cal_min queue = fold (\<lambda>q m. if te_ts q < m then te_ts q else m) queue UINT64_MAX"

section \<open>Waking buffered requests\<close>

definition perform_read :: "TsReqEntry \<Rightarrow> tso \<Rightarrow> tso" where
  "perform_read req = (\<lambda>(m, T).
     (m\<lparr>rt_rts := if rt_rts m < te_ts req then te_ts req else rt_rts m\<rparr>,
      T(te_txn req := (T (te_txn req))\<lparr>tm_cur_row := rt_row m, tm_ts_ready := True\<rparr>)))"

text \<open>The one of the ready writes that is performed.\<close>

fun young_write :: "nat \<Rightarrow> TsReqEntry option \<Rightarrow> TsReqEntry list \<Rightarrow> TsReqEntry option" where
  "young_write young_ts young_req [] = young_req"
| "young_write young_ts young_req (req # reqs) =
     (if te_ts req < young_ts then young_write (te_ts req) (Some req) reqs
      else young_write young_ts young_req reqs)"

definition perform_write :: "TsReqEntry list \<Rightarrow> Row_ts \<Rightarrow> Row_ts option" where
  "perform_write ready_write m =
     (case foldM (\<lambda>req. debuffer_pre (te_txn req)) ready_write m of
        None \<Rightarrow> None
      | Some m \<Rightarrow>
          (case young_write UINT64_MAX None ready_write of
             None \<Rightarrow> None
           | Some young_req \<Rightarrow>
               Some (m\<lparr>rt_row := the (te_row young_req),
                       rt_wts := if rt_wts m < te_ts young_req then te_ts young_req else rt_wts m\<rparr>)))"

text \<open>A further round follows only a round that has taken a read from its buffer.\<close>

fun update_rounds :: "nat \<Rightarrow> tso \<Rightarrow> tso option" where
  "update_rounds 0 st = None"
| "update_rounds (Suc fuel) (m, T) =
     (let new_min_pts = cal_min (rt_prereq m) in
      if new_min_pts < rt_min_pts m then None
      else if \<not> rt_min_pts m < new_min_pts then Some (m, T)
      else
        (let m = m\<lparr>rt_min_pts := new_min_pts\<rparr>;
             (ready_read, rest) = debuffer_upto new_min_pts (rt_readreq m)
         in if ready_read = [] then Some (m, T)
            else (let (m, T) = fold perform_read ready_read (m\<lparr>rt_readreq := rest\<rparr>, T);
                      new_min_rts = cal_min (rt_readreq m)
                  in if \<not> rt_min_rts m < new_min_rts then Some (m, T)
                     else (let m = m\<lparr>rt_min_rts := new_min_rts\<rparr>;
                               (ready_write, rest) = debuffer_upto new_min_rts (rt_writereq m)
                           in if ready_write = [] then Some (m, T)
                              else (case perform_write ready_write (m\<lparr>rt_writereq := rest\<rparr>) of
                                      None \<Rightarrow> None
                                    | Some m \<Rightarrow> update_rounds fuel (m, T))))))"

definition ts_update_buffer :: "tso \<Rightarrow> tso option" where
  "ts_update_buffer st = update_rounds (Suc (length (rt_readreq (fst st)))) st"

section \<open>Access\<close>

definition ts_access :: "bool \<Rightarrow> tid \<Rightarrow> TsType \<Rightarrow> rdata \<Rightarrow> tso \<Rightarrow> (RC \<times> tso) option" where
  "ts_access TS_TWR txn type row st =
     (let (m, T) = st; ts = ts_of T txn in
      case type of
        R_REQ \<Rightarrow>
          (if ts < rt_wts m then Some (Abort, m, T)
           else if rt_min_pts m < ts
           then map_option (\<lambda>m. (WAIT, m, T(txn := (T txn)\<lparr>tm_ts_ready := False\<rparr>))) (ts_buffer_req R_REQ txn None (m, T))
           else Some (RCOK, m\<lparr>rt_rts := if rt_rts m < ts then ts else rt_rts m\<rparr>,
                      T(txn := (T txn)\<lparr>tm_cur_row := rt_row m\<rparr>)))
      | P_REQ \<Rightarrow>
          (if ts < rt_rts m then Some (Abort, m, T)
           else if \<not> TS_TWR \<and> ts < rt_wts m then Some (Abort, m, T)
           else map_option (\<lambda>m. (RCOK, m, T)) (ts_buffer_req P_REQ txn None (m, T)))
      | W_REQ \<Rightarrow>
          (if TS_TWR \<and> ts < rt_wts m
           then map_option (\<lambda>st. (RCOK, st)) (Option.bind (debuffer_pre txn m) (\<lambda>m. ts_update_buffer (m, T)))
           else if \<not> TS_TWR \<and> rt_min_pts m < ts \<or> rt_min_rts m < ts
           then map_option (\<lambda>m. (RCOK, m, T)) (ts_buffer_req W_REQ txn (Some row) (m, T))
           else map_option (\<lambda>st. (RCOK, st))
                  (Option.bind (debuffer_pre txn (m\<lparr>rt_row := row, rt_wts := if rt_wts m < ts then ts else rt_wts m\<rparr>))
                     (\<lambda>m. ts_update_buffer (m, T))))
      | XP_REQ \<Rightarrow>
          map_option (\<lambda>st. (RCOK, st)) (Option.bind (debuffer_pre txn m) (\<lambda>m. ts_update_buffer (m, T))))"

section \<open>Smallest timestamps\<close>

lemma cal_min_eq: "cal_min qs = Min (insert UINT64_MAX (te_ts ` set qs))"
proof -
  have "fold (\<lambda>q m. if te_ts q < m then te_ts q else m) qs k = Min (insert k (te_ts ` set qs))" for k :: nat
  proof (induction qs arbitrary: k)
    case (Cons q qs)
    show ?case
    proof (cases "qs = []")
      case False
      then have "Min (insert x (te_ts ` set qs)) = min x (Min (te_ts ` set qs))"
        "Min (insert k (insert x (te_ts ` set qs))) = min k (min x (Min (te_ts ` set qs)))" for x
        by (simp_all add: Min_insert)
      with Cons.IH show ?thesis by (simp add: min_def)
    qed (simp add: min_def)
  qed simp
  then show ?thesis by (simp add: cal_min_def)
qed

lemma cal_min_le: "q \<in> set qs \<Longrightarrow> cal_min qs \<le> te_ts q"
  unfolding cal_min_eq by (rule Min_le) auto

lemma cal_min_max: "cal_min qs \<le> UINT64_MAX"
  unfolding cal_min_eq by (rule Min_le) auto

lemma cal_min_Nil [simp]: "cal_min [] = UINT64_MAX"
  by (simp add: cal_min_def)

lemma cal_min_ge_iff: "k \<le> cal_min qs \<longleftrightarrow> k \<le> UINT64_MAX \<and> (\<forall>q \<in> set qs. k \<le> te_ts q)"
  unfolding cal_min_eq by (subst Min_ge_iff) auto

lemma cal_min_gr_iff: "k < cal_min qs \<longleftrightarrow> k < UINT64_MAX \<and> (\<forall>q \<in> set qs. k < te_ts q)"
  unfolding cal_min_eq by (subst Min_gr_iff) auto

lemma cal_min_Cons: "cal_min (q # qs) = (if te_ts q < cal_min qs then te_ts q else cal_min qs)"
proof -
  have "cal_min (q # qs) = min (te_ts q) (cal_min qs)"
    unfolding cal_min_eq list.set image_insert by (subst insert_commute, subst Min_insert) auto
  then show ?thesis by (simp add: min_def)
qed

lemma cal_min_sub: "set qs' \<subseteq> set qs \<Longrightarrow> cal_min qs \<le> cal_min qs'"
  unfolding cal_min_ge_iff [of "cal_min qs"] using cal_min_le cal_min_max by blast

section \<open>The protocol of \<open>row_t\<close>\<close>

text \<open>\<open>row_t::get_row\<close> announces a write before it reads the row, and the row is written only after the
  read has been answered.  \<open>I\<close> are the transactions whose read was accepted.\<close>

definition reqs_of :: "txns \<Rightarrow> TsReqEntry list \<Rightarrow> bool" where
  "reqs_of T qs \<longleftrightarrow> distinct (map te_txn qs) \<and> (\<forall>q \<in> set qs. ts_of T (te_txn q) = te_ts q)"

definition reads_ok :: "tid set \<Rightarrow> tso \<Rightarrow> bool" where
  "reads_ok I st \<longleftrightarrow>
     (let (m, T) = st in
      rt_min_rts m = cal_min (rt_readreq m) \<and> (\<forall>q \<in> set (rt_readreq m). rt_min_pts m < te_ts q) \<and>
      te_txn ` set (rt_readreq m) \<subseteq> I \<and> (\<forall>t \<in> I - te_txn ` set (rt_readreq m). ts_of T t \<le> rt_rts m))"

definition ts_pre_inv :: "tid set \<Rightarrow> tso \<Rightarrow> bool" where
  "ts_pre_inv I st \<longleftrightarrow>
     (let (m, T) = st in
      rt_min_pts m \<le> cal_min (rt_prereq m) \<and> rt_writereq m = [] \<and> rt_rts m \<le> rt_min_pts m \<and> rt_wts m \<le> rt_min_pts m \<and>
      reqs_of T (rt_prereq m) \<and> reqs_of T (rt_readreq m) \<and> reads_ok I (m, T))"

definition ts_inv :: "tid set \<Rightarrow> tso \<Rightarrow> bool" where
  "ts_inv I st \<longleftrightarrow> ts_pre_inv I st \<and> cal_min (rt_prereq (fst st)) = rt_min_pts (fst st)"

lemma ts_inv_init: "ts_inv {} (ts_init row, T)"
  by (simp add: ts_inv_def ts_pre_inv_def ts_init_def reqs_of_def reads_ok_def)

lemma reqs_of_ts: "ts_of T' = ts_of T \<Longrightarrow> reqs_of T' qs = reqs_of T qs"
  unfolding reqs_of_def by (elim ssubst) (rule refl)

lemma perform_reads:
  assumes "\<forall>q \<in> set qs. te_ts q \<le> k" "rt_rts m \<le> k"
  shows "\<exists>r T'. fold perform_read qs (m, T) = (m\<lparr>rt_rts := r\<rparr>, T') \<and> ts_of T' = ts_of T \<and>
     rt_rts m \<le> r \<and> r \<le> k \<and> (\<forall>q \<in> set qs. te_ts q \<le> r)"
  using assms
proof (induction qs arbitrary: m T)
  case Nil
  then show ?case by (intro exI [of _ "rt_rts m"] exI [of _ T]) simp
next
  case (Cons q qs)
  let ?r = "if rt_rts m < te_ts q then te_ts q else rt_rts m"
  let ?T = "T(te_txn q := (T (te_txn q))\<lparr>tm_cur_row := rt_row m, tm_ts_ready := True\<rparr>)"
  have "\<forall>q \<in> set qs. te_ts q \<le> k" "rt_rts (m\<lparr>rt_rts := ?r\<rparr>) \<le> k" using Cons.prems by auto
  from Cons.IH [OF this, of ?T] obtain r T' where "fold perform_read qs (m\<lparr>rt_rts := ?r\<rparr>, ?T) =
      (m\<lparr>rt_rts := ?r\<rparr>\<lparr>rt_rts := r\<rparr>, T')" "ts_of T' = ts_of ?T" "rt_rts (m\<lparr>rt_rts := ?r\<rparr>) \<le> r" "r \<le> k"
    "\<forall>q \<in> set qs. te_ts q \<le> r" by blast
  moreover have "perform_read q (m, T) = (m\<lparr>rt_rts := ?r\<rparr>, ?T)" by (simp add: perform_read_def)
  ultimately show ?case by (intro exI [of _ r] exI [of _ T']) (auto split: if_splits)
qed

lemma update_ok:
  assumes inv: "ts_pre_inv I (m, T)"
  shows "\<exists>m' T'. ts_update_buffer (m, T) = Some (m', T') \<and> ts_inv I (m', T') \<and> ts_of T' = ts_of T \<and>
     rt_row m' = rt_row m \<and> rt_wts m' = rt_wts m \<and> rt_prereq m' = rt_prereq m \<and>
     set (rt_readreq m') \<subseteq> set (rt_readreq m) \<and> rt_rts m \<le> rt_rts m'"
proof -
  let ?p = "cal_min (rt_prereq m)"
  let ?ready = "rev (filter (\<lambda>q. te_ts q \<le> ?p) (rt_readreq m))" and ?rest = "filter (\<lambda>q. \<not> te_ts q \<le> ?p) (rt_readreq m)"
  have pts: "rt_min_pts m \<le> ?p" "rt_writereq m = []" "rt_rts m \<le> rt_min_pts m" "rt_wts m \<le> rt_min_pts m"
    and reqs: "reqs_of T (rt_prereq m)" "reqs_of T (rt_readreq m)"
    and rd: "rt_min_rts m = cal_min (rt_readreq m)" "\<forall>q \<in> set (rt_readreq m). rt_min_pts m < te_ts q"
      "te_txn ` set (rt_readreq m) \<subseteq> I" "\<forall>t \<in> I - te_txn ` set (rt_readreq m). ts_of T t \<le> rt_rts m"
    using inv by (simp_all add: ts_pre_inv_def reads_ok_def)
  consider (same) "rt_min_pts m = ?p" | (none) "rt_min_pts m < ?p" "?ready = []" | (wake) "rt_min_pts m < ?p" "?ready \<noteq> []"
    using pts(1) by fastforce
  then show ?thesis
  proof cases
    case same
    then show ?thesis using inv by (simp add: ts_update_buffer_def ts_inv_def)
  next
    case none
    then have rest: "?rest = rt_readreq m" by (simp add: filter_empty_conv filter_id_conv)
    let ?m = "m\<lparr>rt_min_pts := ?p\<rparr>"
    have "ts_update_buffer (m, T) = Some (?m, T)"
      using none pts(1) by (simp add: ts_update_buffer_def debuffer_upto_def Let_def)
    moreover have "\<forall>q \<in> set (rt_readreq m). ?p < te_ts q" using none(2) by (auto simp: filter_empty_conv not_le)
    then have "ts_inv I (?m, T)"
      using pts reqs rd by (simp add: ts_inv_def ts_pre_inv_def reads_ok_def)
    ultimately show ?thesis by simp
  next
    case wake
    let ?m = "m\<lparr>rt_min_pts := ?p, rt_readreq := ?rest\<rparr>"
    have "\<forall>q \<in> set ?ready. te_ts q \<le> ?p" "rt_rts ?m \<le> ?p" using pts by auto
    from perform_reads [OF this, of T] obtain r T' where
      r: "fold perform_read ?ready (?m, T) = (?m\<lparr>rt_rts := r\<rparr>, T')" "ts_of T' = ts_of T"
        "rt_rts m \<le> r" "r \<le> ?p" "\<forall>q \<in> set ?ready. te_ts q \<le> r" by auto
    let ?m' = "?m\<lparr>rt_rts := r, rt_min_rts := cal_min ?rest\<rparr>"
    have le: "rt_min_rts m \<le> cal_min ?rest" unfolding rd(1) by (rule cal_min_sub) auto
    have up: "ts_update_buffer (m, T) = Some (?m', T')"
    proof (cases "rt_min_rts m < cal_min ?rest")
      case True
      then show ?thesis using wake pts(1,2) r(1) by (simp add: ts_update_buffer_def debuffer_upto_def Let_def)
    next
      case False
      with le have "rt_min_rts m = cal_min ?rest" by simp
      then show ?thesis using wake pts(1,2) r(1) by (simp add: ts_update_buffer_def debuffer_upto_def Let_def)
    qed
    have answered: "ts_of T t \<le> r" if "t \<in> I - te_txn ` set ?rest" for t
    proof (cases "t \<in> te_txn ` set (rt_readreq m)")
      case True
      then obtain q where q: "q \<in> set (rt_readreq m)" "te_txn q = t" by auto
      with that have "q \<in> set ?ready" by auto
      with r(5) q reqs(2) show ?thesis by (auto simp: reqs_of_def)
    next
      case False
      with that rd(4) have "ts_of T t \<le> rt_rts m" by blast
      with r(3) show ?thesis by simp
    qed
    have "reqs_of T ?rest" using reqs(2) by (simp add: reqs_of_def distinct_map_filter)
    moreover have "reads_ok I (?m', T')"
      using answered rd(3) r(2) by (auto simp: reads_ok_def)
    ultimately have "ts_inv I (?m', T')"
      using pts r(4) reqs reqs_of_ts [OF r(2)] wake(1) by (simp add: ts_inv_def ts_pre_inv_def)
    with up r show ?thesis by simp
  qed
qed

lemma debuffer_pre_ok:
  assumes inv: "ts_inv I (m, T)" and t: "t \<in> te_txn ` set (rt_prereq m)"
  shows "\<exists>m'. debuffer_pre t m = Some m' \<and> rt_min_pts m \<le> cal_min (rt_prereq m') \<and> reqs_of T (rt_prereq m') \<and>
     rt_min_pts m \<le> ts_of T t \<and> t \<notin> te_txn ` set (rt_prereq m') \<and>
     m' = m\<lparr>rt_prereq := rt_prereq m', rt_preq_len := rt_preq_len m'\<rparr>"
proof -
  have reqs: "reqs_of T (rt_prereq m)" and min: "cal_min (rt_prereq m) = rt_min_pts m"
    using inv by (simp_all add: ts_inv_def ts_pre_inv_def)
  from t obtain q qs where u: "unlink (\<lambda>req. te_txn req = t) (rt_prereq m) = Some (q, qs)"
    by (cases "unlink (\<lambda>req. te_txn req = t) (rt_prereq m)") auto
  have q: "te_txn q = t" "q \<in> set (rt_prereq m)" using unlink_Some(1,2) [OF u] by auto
  have "cal_min (rt_prereq m) \<le> cal_min qs" using unlink_set [OF u] by (intro cal_min_sub) auto
  moreover have "reqs_of T qs" "t \<notin> te_txn ` set qs"
    using unlink_distinct [OF u, of te_txn] unlink_set [OF u] reqs q(1) by (auto simp: reqs_of_def)
  moreover have "cal_min (rt_prereq m) \<le> ts_of T t" using cal_min_le [OF q(2)] reqs q by (auto simp: reqs_of_def)
  ultimately show ?thesis using u min by (simp add: debuffer_pre_def)
qed

inductive ts_step :: "tid set \<times> tso \<Rightarrow> tid set \<times> tso \<Rightarrow> bool" where
  ts_read: "t \<notin> I \<Longrightarrow> ts_access False t R_REQ d (m, T) = Some (rc, m', T') \<Longrightarrow>
     ts_step (I, m, T) (if rc = Abort then I else insert t I, m', T')"
| ts_prewrite: "t \<notin> I \<Longrightarrow> t \<notin> te_txn ` set (rt_prereq m) \<Longrightarrow>
     ts_access False t P_REQ d (m, T) = Some (rc, m', T') \<Longrightarrow> ts_step (I, m, T) (I, m', T')"
| ts_write: "t \<in> I \<Longrightarrow> t \<notin> te_txn ` set (rt_readreq m) \<Longrightarrow> t \<in> te_txn ` set (rt_prereq m) \<Longrightarrow>
     ts_access False t W_REQ d (m, T) = Some (rc, m', T') \<Longrightarrow> ts_step (I, m, T) (I, m', T')"
| ts_cancel: "t \<in> te_txn ` set (rt_prereq m) \<Longrightarrow>
     ts_access False t XP_REQ d (m, T) = Some (rc, m', T') \<Longrightarrow> ts_step (I, m, T) (I, m', T')"

abbreviation ts_reach :: "rdata \<Rightarrow> txns \<Rightarrow> tid set \<times> tso \<Rightarrow> bool" where
  "ts_reach row T \<equiv> ts_step\<^sup>*\<^sup>* ({}, ts_init row, T)"

lemma read_ok:
  assumes inv: "ts_inv I (m, T)" and t: "t \<notin> I"
  shows "\<exists>rc m' T'. ts_access False t R_REQ d (m, T) = Some (rc, m', T') \<and>
     ts_inv (if rc = Abort then I else insert t I) (m', T')"
proof -
  have pts: "cal_min (rt_prereq m) = rt_min_pts m" "rt_writereq m = []" "rt_rts m \<le> rt_min_pts m" "rt_wts m \<le> rt_min_pts m"
    and reqs: "reqs_of T (rt_prereq m)" "reqs_of T (rt_readreq m)"
    and rd: "rt_min_rts m = cal_min (rt_readreq m)" "\<forall>q \<in> set (rt_readreq m). rt_min_pts m < te_ts q"
      "te_txn ` set (rt_readreq m) \<subseteq> I" "\<forall>t \<in> I - te_txn ` set (rt_readreq m). ts_of T t \<le> rt_rts m"
    using inv unfolding ts_inv_def ts_pre_inv_def reads_ok_def Let_def split fst_conv by blast+
  consider (abort) "ts_of T t < rt_wts m" | (wait) "\<not> ts_of T t < rt_wts m" "rt_min_pts m < ts_of T t"
    | (ok) "\<not> ts_of T t < rt_wts m" "\<not> rt_min_pts m < ts_of T t" by blast
  then show ?thesis
  proof cases
    case abort
    with inv show ?thesis by (simp add: ts_access_def Let_def)
  next
    case wait
    let ?q = "\<lparr>te_txn = t, te_row = None, te_ts = ts_of T t\<rparr>"
    let ?m = "m\<lparr>rt_readreq := ?q # rt_readreq m, rt_min_rts := cal_min (?q # rt_readreq m)\<rparr>"
      and ?T = "T(t := (T t)\<lparr>tm_ts_ready := False\<rparr>)"
    have "ts_access False t R_REQ d (m, T) = Some (WAIT, ?m, ?T)"
      using wait rd(1) by (simp add: ts_access_def ts_buffer_req_def Let_def cal_min_Cons)
    moreover have "ts_inv (insert t I) (?m, ?T)"
      using pts reqs rd wait t reqs_of_ts [of ?T T]
      by (auto simp: ts_inv_def ts_pre_inv_def reads_ok_def reqs_of_def)
    ultimately show ?thesis by simp
  next
    case ok
    let ?m = "m\<lparr>rt_rts := if rt_rts m < ts_of T t then ts_of T t else rt_rts m\<rparr>"
      and ?T = "T(t := (T t)\<lparr>tm_cur_row := rt_row m\<rparr>)"
    have "ts_access False t R_REQ d (m, T) = Some (RCOK, ?m, ?T)" using ok by (simp add: ts_access_def Let_def)
    moreover have "reads_ok (insert t I) (?m, ?T)"
      using rd by (auto simp: reads_ok_def intro: order_trans)
    then have "ts_inv (insert t I) (?m, ?T)"
      using pts reqs ok reqs_of_ts [of ?T T] by (simp add: ts_inv_def ts_pre_inv_def)
    ultimately show ?thesis by simp
  qed
qed

lemma prewrite_ok:
  assumes inv: "ts_inv I (m, T)" and t: "t \<notin> te_txn ` set (rt_prereq m)"
  shows "\<exists>rc m' T'. ts_access False t P_REQ d (m, T) = Some (rc, m', T') \<and> ts_inv I (m', T')"
proof (cases "ts_of T t < rt_rts m \<or> ts_of T t < rt_wts m")
  case True
  with inv show ?thesis by (auto simp: ts_access_def Let_def)
next
  case False
  let ?q = "\<lparr>te_txn = t, te_row = None, te_ts = ts_of T t\<rparr>"
  let ?m = "m\<lparr>rt_prereq := ?q # rt_prereq m, rt_min_pts := cal_min (?q # rt_prereq m), rt_preq_len := rt_preq_len m + 1\<rparr>"
  have pts: "cal_min (rt_prereq m) = rt_min_pts m" "rt_writereq m = []" "rt_rts m \<le> rt_min_pts m" "rt_wts m \<le> rt_min_pts m"
    and reqs: "reqs_of T (rt_prereq m)" "reqs_of T (rt_readreq m)" and rd: "reads_ok I (m, T)"
    using inv by (simp_all add: ts_inv_def ts_pre_inv_def)
  have "ts_access False t P_REQ d (m, T) = Some (RCOK, ?m, T)"
    using False pts(1) by (simp add: ts_access_def ts_buffer_req_def Let_def cal_min_Cons)
  moreover have "cal_min (?q # rt_prereq m) \<le> rt_min_pts m" unfolding pts(1) [symmetric] by (rule cal_min_sub) auto
  then have "reads_ok I (?m, T)" using rd by (auto simp: reads_ok_def)
  moreover have "rt_rts m \<le> cal_min (?q # rt_prereq m)" "rt_wts m \<le> cal_min (?q # rt_prereq m)"
    using pts False by (auto simp: cal_min_Cons)
  moreover have "reqs_of T (?q # rt_prereq m)" using reqs(1) t by (auto simp: reqs_of_def)
  ultimately show ?thesis using pts(2) reqs(2) by (simp add: ts_inv_def ts_pre_inv_def)
qed

lemma ts_inv_min_rts: "ts_inv I (m, T) \<Longrightarrow> rt_min_pts m \<le> UINT64_MAX \<and> rt_min_pts m \<le> rt_min_rts m"
  using cal_min_max [of "rt_prereq m"]
  by (auto simp: ts_inv_def ts_pre_inv_def reads_ok_def cal_min_ge_iff less_imp_le)

lemma pre_inv_drop:
  assumes inv: "ts_inv I (m, T)" and m': "m' = m\<lparr>rt_prereq := rt_prereq m', rt_preq_len := rt_preq_len m'\<rparr>"
    "rt_min_pts m \<le> cal_min (rt_prereq m')" "reqs_of T (rt_prereq m')"
  shows "ts_pre_inv I (m', T)"
proof -
  have "rt_min_pts m' = rt_min_pts m" "rt_writereq m' = rt_writereq m" "rt_rts m' = rt_rts m" "rt_wts m' = rt_wts m"
    "rt_readreq m' = rt_readreq m" "rt_min_rts m' = rt_min_rts m"
    by (subst m'(1); simp)+
  with inv m'(2,3) show ?thesis by (simp add: ts_inv_def ts_pre_inv_def reads_ok_def)
qed

lemma cancel_ok:
  assumes inv: "ts_inv I (m, T)" and t: "t \<in> te_txn ` set (rt_prereq m)"
  shows "\<exists>m' T'. ts_access False t XP_REQ d (m, T) = Some (RCOK, m', T') \<and> ts_inv I (m', T')"
proof -
  from debuffer_pre_ok [OF inv t] obtain m1 where m1: "debuffer_pre t m = Some m1"
    "m1 = m\<lparr>rt_prereq := rt_prereq m1, rt_preq_len := rt_preq_len m1\<rparr>"
    "rt_min_pts m \<le> cal_min (rt_prereq m1)" "reqs_of T (rt_prereq m1)" by blast
  from update_ok [OF pre_inv_drop [OF inv m1(2-4)]] m1(1) show ?thesis by (auto simp: ts_access_def Let_def)
qed

text \<open>A write whose read has been answered is performed at once.\<close>

lemma write_ok:
  assumes inv: "ts_inv I (m, T)" and t: "t \<in> I" "t \<notin> te_txn ` set (rt_readreq m)" "t \<in> te_txn ` set (rt_prereq m)"
  shows "\<exists>m' T'. ts_access False t W_REQ d (m, T) = Some (RCOK, m', T') \<and> ts_inv I (m', T') \<and>
     rt_row m' = d \<and> rt_wts m' = ts_of T t \<and> rt_wts m \<le> ts_of T t \<and> rt_rts m = ts_of T t \<and> rt_rts m \<le> rt_rts m'"
proof -
  let ?m = "m\<lparr>rt_row := d, rt_wts := if rt_wts m < ts_of T t then ts_of T t else rt_wts m\<rparr>"
  from debuffer_pre_ok [OF inv t(3)] obtain m0 where m0: "rt_min_pts m \<le> ts_of T t" by blast
  have rts: "ts_of T t \<le> rt_rts m" using inv t by (simp add: ts_inv_def ts_pre_inv_def reads_ok_def)
  have le: "rt_rts m \<le> rt_min_pts m" "rt_wts m \<le> rt_min_pts m" using inv unfolding ts_inv_def ts_pre_inv_def by auto
  have eq: "ts_of T t = rt_min_pts m" "rt_rts m = ts_of T t" using m0 rts le by auto
  have wts: "rt_wts m \<le> ts_of T t" using le eq by simp
  have inv1: "ts_inv I (?m, T)" using inv eq(1) wts by (simp add: ts_inv_def ts_pre_inv_def reads_ok_def)
  from debuffer_pre_ok [OF this] t(3) obtain m1 where m1: "debuffer_pre t ?m = Some m1"
    "m1 = ?m\<lparr>rt_prereq := rt_prereq m1, rt_preq_len := rt_preq_len m1\<rparr>"
    "rt_min_pts ?m \<le> cal_min (rt_prereq m1)" "reqs_of T (rt_prereq m1)" by auto
  from update_ok [OF pre_inv_drop [OF inv1 m1(2-4)]] obtain m2 T2 where
    m2: "ts_update_buffer (m1, T) = Some (m2, T2)" "ts_inv I (m2, T2)" "rt_row m2 = rt_row m1" "rt_wts m2 = rt_wts m1"
      "rt_rts m1 \<le> rt_rts m2" by blast
  have f: "rt_row m1 = d" "rt_wts m1 = ts_of T t" "rt_rts m1 = rt_rts m"
    using wts by (subst m1(2); simp)+
  have "\<not> rt_min_pts m < ts_of T t" "\<not> rt_min_rts m < ts_of T t"
    using eq ts_inv_min_rts [OF inv] by auto
  then have "ts_access False t W_REQ d (m, T) = Some (RCOK, m2, T2)"
    using m1(1) m2(1) by (simp add: ts_access_def Let_def)
  with m2 f wts eq show ?thesis by auto
qed

lemma ts_inv_reach: "ts_reach row T s \<Longrightarrow> ts_inv (fst s) (snd s)"
proof (induction rule: rtranclp_induct)
  case (step s s')
  from step.hyps(2) show ?case
  proof cases
    case (ts_read t I d m T rc m' T')
    then have "ts_inv I (m, T)" using step.IH by simp
    from read_ok [OF this ts_read(3), of d] ts_read show ?thesis by auto
  next
    case (ts_prewrite t I m d T rc m' T')
    then have "ts_inv I (m, T)" using step.IH by simp
    from prewrite_ok [OF this ts_prewrite(4), of d] ts_prewrite show ?thesis by auto
  next
    case (ts_write t I m d T rc m' T')
    then have "ts_inv I (m, T)" using step.IH by simp
    from write_ok [OF this ts_write(3-5), of d] ts_write show ?thesis by auto
  next
    case (ts_cancel t m d T rc m' T' I)
    then have "ts_inv I (m, T)" using step.IH by simp
    from cancel_ok [OF this ts_cancel(3), of d] ts_cancel show ?thesis by auto
  qed
qed (simp add: ts_inv_init)

section \<open>Properties\<close>

text \<open>When a row is written only by transactions that announced the write and then read the row, as
  \<open>row_t::get_row\<close> makes them, every write is performed at once: it is never
  buffered, no assertion fails, the row gets the data, and its timestamp is the writer's, which is not below
  that of any earlier write and equals the largest timestamp of the reads so far.\<close>

theorem ts_writes_in_order:
  assumes "ts_reach row T0 (I, m, T)" and "t \<in> I" and "t \<notin> te_txn ` set (rt_readreq m)"
    and "t \<in> te_txn ` set (rt_prereq m)"
  shows "\<exists>m' T'. ts_access False t W_REQ d (m, T) = Some (RCOK, m', T') \<and> rt_writereq m' = [] \<and>
     rt_row m' = d \<and> rt_wts m' = ts_of T t \<and> rt_wts m \<le> ts_of T t \<and> rt_rts m = ts_of T t"
proof -
  from ts_inv_reach [OF assms(1)] have "ts_inv I (m, T)" by simp
  from write_ok [OF this assms(2-4), of d] obtain m' T' where
    w: "ts_access False t W_REQ d (m, T) = Some (RCOK, m', T')" "ts_inv I (m', T')"
      "rt_row m' = d" "rt_wts m' = ts_of T t" "rt_wts m \<le> ts_of T t" "rt_rts m = ts_of T t" by blast
  moreover from w(2) have "rt_writereq m' = []" by (simp add: ts_inv_def ts_pre_inv_def)
  ultimately show ?thesis by blast
qed

definition ex_answered :: Row_ts where
  "ex_answered = (ts_init [0])\<lparr>rt_prereq := [\<lparr>te_txn = 1, te_row = None, te_ts = 1\<rparr>], rt_min_pts := 1,
     rt_preq_len := 1, rt_rts := 1\<rparr>"

lemma ts_writes_in_order_witness:
  "let T = ex_txns(1 := (ex_txns 1)\<lparr>tm_cur_row := [0]\<rparr>) in
   \<exists>m' T'. ts_access False 1 W_REQ [5] (ex_answered, T) = Some (RCOK, m', T') \<and> rt_writereq m' = [] \<and>
     rt_row m' = [5] \<and> rt_wts m' = ts_of T 1 \<and> rt_wts ex_answered \<le> ts_of T 1 \<and> rt_rts ex_answered = ts_of T 1"
proof -
  let ?T = "ex_txns(1 := (ex_txns 1)\<lparr>tm_cur_row := [0]\<rparr>)"
  have "ts_step ({}, ts_init [0], ex_txns) ({}, ex_answered\<lparr>rt_rts := 0\<rparr>, ex_txns)"
    by (rule ts_prewrite [where t = 1 and rc = RCOK and d = "[]"])
      (simp_all add: ts_access_def ts_buffer_req_def ts_init_def ex_answered_def ts_of_def ex_txns_def UINT64_MAX_def)
  moreover have "ts_step ({}, ex_answered\<lparr>rt_rts := 0\<rparr>, ex_txns)
      (if RCOK = Abort then {} else insert 1 {}, ex_answered, ?T)"
    by (rule ts_read [where rc = RCOK and d = "[]"])
      (simp_all add: ts_access_def ts_init_def ex_answered_def ts_of_def ex_txns_def)
  then have "ts_step ({}, ex_answered\<lparr>rt_rts := 0\<rparr>, ex_txns) ({1}, ex_answered, ?T)" by simp
  ultimately have "ts_reach [0] ex_txns ({1}, ex_answered, ?T)" by (rule converse_rtranclp_into_rtranclp [OF _ r_into_rtranclp])
  from ts_writes_in_order [OF this, of 1 "[5]"] show ?thesis
    unfolding Let_def by (simp add: ex_answered_def ts_init_def)
qed

definition run_ts :: "(tid \<times> TsType \<times> rdata) list \<Rightarrow> tso option" where
  "run_ts calls = foldM (\<lambda>(t, type, d) st. map_option snd (ts_access False t type d st)) calls (ts_init [0], ex_txns)"

text \<open>Writers that do not read first, transactions 1 and 2 that both announce a write: the
  younger write is buffered, and after the older one has been performed nothing in the buffers
  moves any more: the younger write is lost in the buffer, and a read of a
  later transaction waits behind its prewrite.\<close>

theorem ts_blind_write_stuck:
  "map_option (\<lambda>(m, T). (rt_row m, map te_ts (rt_writereq m), map te_ts (rt_prereq m), rt_min_pts m))
     (run_ts [(1, P_REQ, []), (2, P_REQ, []), (2, W_REQ, [22]), (1, W_REQ, [11])]) =
     Some ([11], [2], [2], 2) \<and>
   map_option (\<lambda>(m, T). (rt_row m, map te_ts (rt_writereq m), map te_ts (rt_readreq m)))
     (run_ts [(1, P_REQ, []), (2, P_REQ, []), (2, W_REQ, [22]), (1, W_REQ, [11]), (3, R_REQ, [])]) =
     Some ([11], [2], [3])"
  by (simp add: run_ts_def ts_init_def ts_access_def ts_buffer_req_def debuffer_pre_def ts_update_buffer_def
    ex_txns_def ts_of_def UINT64_MAX_def cal_min_def debuffer_upto_def Let_def)

text \<open>Of several buffered writes that become ready together, the one with the smallest timestamp is
  performed and the younger ones are dropped, with their prewrites: the row keeps the data of 5 although 6 wrote
  later.\<close>

theorem ts_newer_write_dropped:
  "map_option (\<lambda>(m, T). (rt_row m, rt_wts m, rt_writereq m, rt_prereq m))
     (run_ts [(1, P_REQ, []), (3, R_REQ, []), (5, P_REQ, []), (6, P_REQ, []),
              (5, W_REQ, [55]), (6, W_REQ, [66]), (1, W_REQ, [11])]) =
     Some ([55], 5, [], [])"
  by (simp add: run_ts_def ts_init_def ts_access_def ts_buffer_req_def debuffer_pre_def ts_update_buffer_def
    ex_txns_def ts_of_def UINT64_MAX_def cal_min_def debuffer_upto_def Let_def perform_read_def perform_write_def)

end
