(* ===== verification/Occ_Valid.thy ===== *)
theory Occ_Valid
  imports Db_Base
begin

text \<open>
  The sequential parts of optimistic concurrency control (\<open>src/DBx1000/code/concurrency_control/occ.cpp\<close>):
  the sort of a transaction's accesses before their rows are latched, and the central validation
  against the write sets of committed and of validating transactions.
\<close>

section \<open>Accesses\<close>

text \<open>\<open>oc_read\<close> is what the row held when it was copied, \<open>oc_local\<close> the copy the transaction works on.\<close>

record occ_access =
  oc_type :: access_t
  oc_row :: rid
  oc_read :: rdata
  oc_local :: rdata

section \<open>The order of the rows\<close>

fun strcmp :: "nat list \<Rightarrow> nat list \<Rightarrow> int" where
  "strcmp [] [] = 0"
| "strcmp [] (b # bs) = -1"
| "strcmp (a # as) [] = 1"
| "strcmp (a # as) (b # bs) = (if a = b then strcmp as bs else int a - int b)"

type_synonym row_key = "nat list \<times> nat"    \<comment> \<open>the table's name and the primary key\<close>

definition key_gt :: "row_key \<Rightarrow> row_key \<Rightarrow> bool" where
  "key_gt k1 k2 =
     (let tabcmp = strcmp (fst k1) (fst k2) in tabcmp > 0 \<or> (tabcmp = 0 \<and> snd k1 > snd k2))"

lemma strcmp_zero [simp]: "strcmp a b = 0 \<longleftrightarrow> a = b"
  by (induction a b rule: strcmp.induct) auto

lemma strcmp_swap: "strcmp a b > 0 \<longleftrightarrow> strcmp b a < 0"
  by (induction a b rule: strcmp.induct) auto

lemma strcmp_trans: "strcmp a b > 0 \<Longrightarrow> strcmp b c > 0 \<Longrightarrow> strcmp a c > 0"
proof (induction a b arbitrary: c rule: strcmp.induct)
  case (3 a as)
  then show ?case by (cases c) auto
next
  case (4 a as b bs)
  then show ?case by (cases c) (auto split: if_splits)
qed auto

lemma key_gt_trans: "key_gt a b \<Longrightarrow> key_gt b c \<Longrightarrow> key_gt a c"
  using strcmp_trans [of "fst a" "fst b" "fst c"] by (auto simp: key_gt_def Let_def)

lemma key_gt_irrefl [simp]: "\<not> key_gt a a"
proof -
  have "strcmp (fst a) (fst a) = 0" by (simp only: strcmp_zero)
  then show ?thesis by (simp add: key_gt_def del: strcmp_zero)
qed

lemma key_gt_total: "a \<noteq> b \<Longrightarrow> key_gt a b \<or> key_gt b a"
proof -
  assume "a \<noteq> b"
  show ?thesis
  proof (cases "fst a = fst b")
    case True
    with \<open>a \<noteq> b\<close> have "snd a \<noteq> snd b" by (simp add: prod_eq_iff)
    moreover from True have "strcmp (fst a) (fst b) = 0" "strcmp (fst b) (fst a) = 0" by (simp_all only: strcmp_zero)
    ultimately show ?thesis by (auto simp: key_gt_def simp del: strcmp_zero)
  next
    case False
    then have "strcmp (fst a) (fst b) \<noteq> 0" by simp
    then have "strcmp (fst a) (fst b) > 0 \<or> strcmp (fst b) (fst a) > 0"
      using strcmp_swap [of "fst b" "fst a"] by linarith
    then show ?thesis by (auto simp: key_gt_def)
  qed
qed

lemma key_gt_asym: "key_gt a b \<Longrightarrow> \<not> key_gt b a"
  using key_gt_trans key_gt_irrefl by blast

section \<open>The bubble sort\<close>

text \<open>One round of the outer loop: \<open>i\<close> comparisons from the front.\<close>

fun bubble_pass :: "('a \<Rightarrow> 'a \<Rightarrow> bool) \<Rightarrow> nat \<Rightarrow> 'a list \<Rightarrow> 'a list" where
  "bubble_pass gt (Suc i) (x # y # zs) =
     (if gt x y then y # bubble_pass gt i (x # zs) else x # bubble_pass gt i (y # zs))"
| "bubble_pass gt i xs = xs"

fun bubble_rounds :: "('a \<Rightarrow> 'a \<Rightarrow> bool) \<Rightarrow> nat \<Rightarrow> 'a list \<Rightarrow> 'a list" where
  "bubble_rounds gt 0 xs = xs"
| "bubble_rounds gt (Suc i) xs = bubble_rounds gt i (bubble_pass gt (Suc i) xs)"

definition sort_accesses :: "(rid \<Rightarrow> row_key) \<Rightarrow> occ_access list \<Rightarrow> occ_access list" where
  "sort_accesses key accs =
     bubble_rounds (\<lambda>a b. key_gt (key (oc_row a)) (key (oc_row b))) (length accs - 1) accs"

lemma bubble_pass_mset [simp]: "mset (bubble_pass gt i xs) = mset xs"
  by (induction gt i xs rule: bubble_pass.induct) auto

lemma bubble_rounds_mset [simp]: "mset (bubble_rounds gt i xs) = mset xs"
  by (induction gt i xs rule: bubble_rounds.induct) (auto simp del: bubble_pass.simps)

lemma bubble_pass_drop: "drop (Suc i) (bubble_pass gt i xs) = drop (Suc i) xs"
  by (induction gt i xs rule: bubble_pass.induct) auto

lemma bubble_pass_length [simp]: "length (bubble_pass gt i xs) = length xs"
  by (induction gt i xs rule: bubble_pass.induct) auto

lemma bubble_pass_max:
  assumes trans: "\<And>a b c. \<not> gt a b \<Longrightarrow> \<not> gt b c \<Longrightarrow> \<not> gt a c" and asym: "\<And>a b. gt a b \<Longrightarrow> \<not> gt b a"
  shows "i < length xs \<Longrightarrow> \<forall>x \<in> set (take (Suc i) xs). \<not> gt x (bubble_pass gt i xs ! i)"
proof (induction i arbitrary: xs)
  case 0
  then obtain x zs where "xs = x # zs" by (cases xs) auto
  with asym show ?case by (cases zs) auto
next
  case (Suc i)
  then obtain x y zs where xs: "xs = x # y # zs" by (cases xs; cases "tl xs") auto
  let ?w = "if gt x y then x # zs else y # zs"
  let ?m = "bubble_pass gt (Suc i) xs ! Suc i"
  have m: "?m = bubble_pass gt i ?w ! i" by (simp add: xs)
  have "\<forall>z \<in> set (take (Suc i) ?w). \<not> gt z ?m" unfolding m using Suc xs by (intro Suc.IH) auto
  moreover have "\<not> gt y x" if "gt x y" using asym that .
  ultimately show ?case using trans by (auto simp: xs split: if_splits)
qed

definition ordered :: "('a \<Rightarrow> 'a \<Rightarrow> bool) \<Rightarrow> 'a list \<Rightarrow> bool" where
  "ordered gt xs \<longleftrightarrow> sorted_wrt (\<lambda>a b. \<not> gt a b) xs"

lemma bubble_rounds_ordered:
  assumes trans: "\<And>a b c. \<not> gt a b \<Longrightarrow> \<not> gt b c \<Longrightarrow> \<not> gt a c" and asym: "\<And>a b. gt a b \<Longrightarrow> \<not> gt b a"
  shows "i < length xs \<Longrightarrow> ordered gt (drop (Suc i) xs) \<Longrightarrow>
    \<forall>a \<in> set (take (Suc i) xs). \<forall>b \<in> set (drop (Suc i) xs). \<not> gt a b \<Longrightarrow> ordered gt (bubble_rounds gt i xs)"
proof (induction i arbitrary: xs)
  case 0
  then obtain x ys where "xs = x # ys" by (cases xs) auto
  with 0 show ?case by (simp add: ordered_def)
next
  case (Suc i)
  let ?ys = "bubble_pass gt (Suc i) xs"
  have len: "Suc i < length ?ys" using Suc.prems(1) by simp
  have drop: "drop (Suc (Suc i)) ?ys = drop (Suc (Suc i)) xs" by (rule bubble_pass_drop)
  have set: "set (take (Suc (Suc i)) ?ys) = set (take (Suc (Suc i)) xs)"
  proof -
    have "mset (take (Suc (Suc i)) ?ys) + mset (drop (Suc (Suc i)) ?ys) = mset (take (Suc (Suc i)) xs) + mset (drop (Suc (Suc i)) xs)"
      by (simp add: mset_append [symmetric] del: mset_append)
    then have "mset (take (Suc (Suc i)) ?ys) = mset (take (Suc (Suc i)) xs)" unfolding drop by simp
    then show ?thesis by (rule mset_eq_setD)
  qed
  have max: "\<not> gt x (?ys ! Suc i)" if "x \<in> set (take (Suc (Suc i)) xs)" for x
  proof -
    have "\<forall>x \<in> set (take (Suc (Suc i)) xs). \<not> gt x (?ys ! Suc i)"
      by (rule bubble_pass_max [of gt]) (use trans asym Suc.prems(1) in blast)+
    with that show ?thesis by blast
  qed
  have split: "drop (Suc i) ?ys = ?ys ! Suc i # drop (Suc (Suc i)) ?ys" using len by (simp add: Cons_nth_drop_Suc)
  have last: "?ys ! Suc i \<in> set (take (Suc (Suc i)) ?ys)" using len by (simp add: take_Suc_conv_app_nth)
  have sub: "set (take (Suc i) ?ys) \<subseteq> set (take (Suc (Suc i)) ?ys)" using set_take_subset_set_take [of "Suc i" "Suc (Suc i)" ?ys] by simp
  have "ordered gt (drop (Suc i) ?ys)"
    using Suc.prems(2,3) last unfolding split drop set ordered_def by auto
  moreover have "\<forall>a \<in> set (take (Suc i) ?ys). \<forall>b \<in> set (drop (Suc i) ?ys). \<not> gt a b"
    using Suc.prems(3) sub max unfolding split drop set by auto
  ultimately show ?case using Suc.IH [of ?ys] len by simp
qed

lemma sort_accesses_ordered:
  "ordered (\<lambda>a b. key_gt (key (oc_row a)) (key (oc_row b))) (sort_accesses key accs)"
proof (cases "accs = []")
  case False
  let ?gt = "\<lambda>a b. key_gt (key (oc_row a)) (key (oc_row b))"
  show ?thesis unfolding sort_accesses_def
  proof (rule bubble_rounds_ordered)
    show "\<not> ?gt a c" if "\<not> ?gt a b" "\<not> ?gt b c" for a b c
      using that key_gt_total key_gt_trans by metis
    show "\<not> ?gt b a" if "?gt a b" for a b using key_gt_asym that .
  qed (use False in \<open>simp_all add: ordered_def\<close>)
qed (simp add: sort_accesses_def ordered_def)

lemma sort_accesses_mset [simp]: "mset (sort_accesses key accs) = mset accs"
  by (simp add: sort_accesses_def)

lemma ordered_strict:
  "ordered (\<lambda>a b. key_gt (key (f a)) (key (f b))) xs \<Longrightarrow> inj key \<Longrightarrow> distinct (map f xs) \<Longrightarrow>
   sorted_wrt (\<lambda>a b. key_gt (key (f b)) (key (f a))) xs"
proof (induction xs)
  case (Cons x xs)
  have "key_gt (key (f y)) (key (f x))" if "y \<in> set xs" for y
  proof -
    from Cons.prems that have "f x \<noteq> f y" "\<not> key_gt (key (f x)) (key (f y))" by (auto simp: ordered_def)
    with key_gt_total [of "key (f x)" "key (f y)"] Cons.prems(2) show ?thesis by (auto dest: injD)
  qed
  with Cons show ?case by (simp add: ordered_def)
qed simp

lemma sort_accesses_rows:
  assumes "inj key" "distinct (map oc_row accs)"
  shows "sorted_wrt (\<lambda>a b. key_gt (key (oc_row b)) (key (oc_row a))) (sort_accesses key accs)"
proof (rule ordered_strict [OF sort_accesses_ordered assms(1)])
  show "distinct (map oc_row (sort_accesses key accs))"
    using assms(2) by (metis mset_map sort_accesses_mset mset_eq_imp_distinct_iff)
qed

section \<open>Central validation\<close>

record set_ent =
  se_tn :: nat
  se_txn :: tid
  se_rows :: "rid list"

record OptCC =
  cc_history :: "set_ent list"
  cc_active :: "set_ent list"
  cc_his_len :: nat
  cc_active_len :: nat
  cc_tnc :: nat

definition OptCC_init :: OptCC where
  "OptCC_init = \<lparr>cc_history = [], cc_active = [], cc_his_len = 0, cc_active_len = 0, cc_tnc = 0\<rparr>"

text \<open>The read set and the write set.\<close>

definition get_rw_set :: "tid \<Rightarrow> occ_access list \<Rightarrow> set_ent \<times> set_ent" where
  "get_rw_set txn accs =
     (\<lparr>se_tn = 0, se_txn = txn, se_rows = map oc_row (filter (\<lambda>a. oc_type a \<noteq> WR) accs)\<rparr>,
      \<lparr>se_tn = 0, se_txn = txn, se_rows = map oc_row (filter (\<lambda>a. oc_type a = WR) accs)\<rparr>)"

fun test_row :: "rid \<Rightarrow> rid list \<Rightarrow> bool" where
  "test_row r [] = True"
| "test_row r (x # xs) = (if r = x then False else test_row r xs)"

fun test_rows :: "rid list \<Rightarrow> rid list \<Rightarrow> bool" where
  "test_rows [] ys = True"
| "test_rows (x # xs) ys = (if test_row x ys then test_rows xs ys else False)"

definition test_valid :: "set_ent \<Rightarrow> set_ent \<Rightarrow> bool" where
  "test_valid set1 set2 = test_rows (se_rows set1) (se_rows set2)"

text \<open>The first critical section.\<close>

definition cv_enter :: "set_ent \<Rightarrow> OptCC \<Rightarrow> nat \<times> set_ent list \<times> set_ent list \<times> OptCC" where
  "cv_enter wset cc =
     (cc_tnc cc, cc_active cc, cc_history cc,
      if se_rows wset \<noteq> []
      then cc\<lparr>cc_active := wset # cc_active cc, cc_active_len := cc_active_len cc + 1\<rparr> else cc)"

fun skip_newer :: "nat \<Rightarrow> set_ent list \<Rightarrow> set_ent list" where
  "skip_newer finish_tn [] = []"
| "skip_newer finish_tn (his # hs) = (if finish_tn < se_tn his then skip_newer finish_tn hs else his # hs)"

fun check_history :: "nat \<Rightarrow> set_ent \<Rightarrow> set_ent list \<Rightarrow> bool" where
  "check_history start_tn rset [] = True"
| "check_history start_tn rset (his # hs) =
     (if start_tn < se_tn his then (if test_valid his rset then check_history start_tn rset hs else False) else True)"

fun check_active :: "set_ent \<Rightarrow> set_ent \<Rightarrow> set_ent list \<Rightarrow> bool" where
  "check_active rset wset [] = True"
| "check_active rset wset (wact # ws) =
     (if test_valid wact rset \<and> test_valid wact wset then check_active rset wset ws else False)"

text \<open>The tests between the critical sections.\<close>

definition cv_check :: "nat \<Rightarrow> nat \<Rightarrow> set_ent list \<Rightarrow> set_ent list \<Rightarrow> set_ent \<Rightarrow> set_ent \<Rightarrow> bool" where
  "cv_check start_tn finish_tn history active rset wset =
     (if start_tn < finish_tn \<and> \<not> check_history start_tn rset (skip_newer finish_tn history) then False
      else check_active rset wset active)"

text \<open>The second critical section.\<close>

definition cv_finish :: "tid \<Rightarrow> bool \<Rightarrow> set_ent \<Rightarrow> OptCC \<Rightarrow> OptCC option" where
  "cv_finish txn valid wset cc =
     (if se_rows wset = [] then Some cc
      else (case unlink (\<lambda>e. se_txn e = txn) (cc_active cc) of
              None \<Rightarrow> None
            | Some (_, es) \<Rightarrow>
                (let cc = cc\<lparr>cc_active := es, cc_active_len := cc_active_len cc - 1\<rparr> in
                 if \<not> valid then Some cc
                 else if cc_history cc \<noteq> [] \<and> se_tn (hd (cc_history cc)) \<noteq> cc_tnc cc then None
                 else Some (cc\<lparr>cc_tnc := cc_tnc cc + 1,
                               cc_history := wset\<lparr>se_tn := cc_tnc cc + 1\<rparr> # cc_history cc,
                               cc_his_len := cc_his_len cc + 1\<rparr>))))"

definition central_validate :: "tid \<Rightarrow> nat \<Rightarrow> occ_access list \<Rightarrow> OptCC \<Rightarrow> (RC \<times> OptCC) option" where
  "central_validate txn start_tn accs cc =
     (let (rset, wset) = get_rw_set txn accs;
          (finish_tn, active, history, cc) = cv_enter wset cc;
          valid = cv_check start_tn finish_tn history active rset wset
      in map_option (\<lambda>cc. (if valid then RCOK else Abort, cc)) (cv_finish txn valid wset cc))"

lemma test_valid_iff: "test_valid a b \<longleftrightarrow> set (se_rows a) \<inter> set (se_rows b) = {}"
proof -
  have 1: "test_row x ys \<longleftrightarrow> x \<notin> set ys" for x ys by (induction ys) auto
  have "test_rows xs ys \<longleftrightarrow> set xs \<inter> set ys = {}" for xs ys by (induction xs) (auto simp: 1)
  then show ?thesis by (simp add: test_valid_def)
qed

definition history_ok :: "OptCC \<Rightarrow> bool" where
  "history_ok cc \<longleftrightarrow>
     sorted_wrt (\<lambda>a b. se_tn b < se_tn a) (cc_history cc) \<and>
     (\<forall>e \<in> set (cc_history cc). se_tn e \<le> cc_tnc cc) \<and>
     (cc_history cc \<noteq> [] \<longrightarrow> se_tn (hd (cc_history cc)) = cc_tnc cc)"

lemma check_history_iff:
  "sorted_wrt (\<lambda>a b. se_tn b < se_tn a) hs \<Longrightarrow>
   check_history st rset (skip_newer ft hs) \<longleftrightarrow>
     (\<forall>h \<in> set hs. st < se_tn h \<and> se_tn h \<le> ft \<longrightarrow> set (se_rows h) \<inter> set (se_rows rset) = {})"
proof (induction hs)
  case (Cons h hs)
  have chk: "check_history st rset hs' \<longleftrightarrow>
      (\<forall>h \<in> set hs'. st < se_tn h \<longrightarrow> set (se_rows h) \<inter> set (se_rows rset) = {})"
    if "sorted_wrt (\<lambda>a b. se_tn b < se_tn a) hs'" for hs'
    using that by (induction hs') (auto simp: test_valid_iff dest: order.strict_trans)
  show ?case
  proof (cases "ft < se_tn h")
    case True
    with Cons show ?thesis by simp
  next
    case False
    then have "\<forall>x \<in> set (h # hs). se_tn x \<le> ft" using Cons.prems by fastforce
    with False chk [OF Cons.prems] show ?thesis by auto
  qed
qed simp

lemma check_active_iff:
  "check_active rset wset ws \<longleftrightarrow>
     (\<forall>w \<in> set ws. set (se_rows w) \<inter> (set (se_rows rset) \<union> set (se_rows wset)) = {})"
  by (induction ws) (auto simp: test_valid_iff)

section \<open>Properties\<close>

text \<open>The accesses of a transaction are sorted by table name and primary key before their rows are latched:
  the sort keeps the accesses, and with one access per row and distinct keys every row comes strictly after the
  rows before it.\<close>

theorem sort_accesses_correct:
  assumes "inj key" and "distinct (map oc_row accs)"
  shows "mset (sort_accesses key accs) = mset accs \<and>
     sorted_wrt (\<lambda>a b. key_gt (key (oc_row b)) (key (oc_row a))) (sort_accesses key accs)"
  using sort_accesses_rows [OF assms] by simp

definition ex_key :: "rid \<Rightarrow> row_key" where
  "ex_key r = ([7], r)"

definition ex_wr :: "rid \<Rightarrow> occ_access" where
  "ex_wr r = \<lparr>oc_type = WR, oc_row = r, oc_read = [r], oc_local = [r]\<rparr>"

lemma sort_accesses_correct_witness:
  "sort_accesses ex_key [ex_wr 3, ex_wr 1, ex_wr 2] = [ex_wr 1, ex_wr 2, ex_wr 3] \<and>
   sorted_wrt (\<lambda>a b. key_gt (ex_key (oc_row b)) (ex_key (oc_row a))) (sort_accesses ex_key [ex_wr 3, ex_wr 1, ex_wr 2])"
proof
  show "sort_accesses ex_key [ex_wr 3, ex_wr 1, ex_wr 2] = [ex_wr 1, ex_wr 2, ex_wr 3]"
    by (simp add: sort_accesses_def ex_key_def ex_wr_def key_gt_def eval_nat_numeral)
  show "sorted_wrt (\<lambda>a b. key_gt (ex_key (oc_row b)) (ex_key (oc_row a))) (sort_accesses ex_key [ex_wr 3, ex_wr 1, ex_wr 2])"
    by (rule conjunct2 [OF sort_accesses_correct]) (simp_all add: inj_on_def ex_key_def ex_wr_def)
qed

text \<open>C37: what the central validation tests, on a history in the order of its transaction numbers: the
  transaction is valid exactly when no transaction that committed after \<open>start_tn\<close> has written a row
  it has only read, and no transaction that is validating writes a row that it has read or
  written; and the history stays in order.\<close>

theorem central_validate_exact:
  assumes "history_ok cc" and "txn \<notin> se_txn ` set (cc_active cc)"
  shows "\<exists>cc'. central_validate txn start_tn accs cc = Some
       (if (\<forall>h \<in> set (cc_history cc). start_tn < se_tn h \<longrightarrow>
              (\<forall>a \<in> set accs. oc_type a \<noteq> WR \<longrightarrow> oc_row a \<notin> set (se_rows h))) \<and>
           (\<forall>w \<in> set (cc_active cc). \<forall>a \<in> set accs. oc_row a \<notin> set (se_rows w))
        then RCOK else Abort, cc') \<and> history_ok cc' \<and> cc_active cc' = cc_active cc"
proof -
  obtain rset wset where rw: "get_rw_set txn accs = (rset, wset)" by force
  then have rows: "set (se_rows rset) = oc_row ` {a \<in> set accs. oc_type a \<noteq> WR}"
    "set (se_rows wset) = oc_row ` {a \<in> set accs. oc_type a = WR}" "se_txn wset = txn"
    by (auto simp: get_rw_set_def)
  let ?valid = "cv_check start_tn (cc_tnc cc) (cc_history cc) (cc_active cc) rset wset"
  let ?his = "\<forall>h \<in> set (cc_history cc). start_tn < se_tn h \<longrightarrow> set (se_rows h) \<inter> set (se_rows rset) = {}"
  let ?act = "\<forall>w \<in> set (cc_active cc). set (se_rows w) \<inter> (set (se_rows rset) \<union> set (se_rows wset)) = {}"
  have h: "sorted_wrt (\<lambda>a b. se_tn b < se_tn a) (cc_history cc)" "\<forall>e \<in> set (cc_history cc). se_tn e \<le> cc_tnc cc"
    using assms(1) by (simp_all add: history_ok_def)
  have "start_tn < cc_tnc cc \<and> \<not> check_history start_tn rset (skip_newer (cc_tnc cc) (cc_history cc)) \<longleftrightarrow> \<not> ?his"
    unfolding check_history_iff [OF h(1)] using h(2) by fastforce
  then have valid: "?valid \<longleftrightarrow> ?his \<and> ?act" by (simp add: cv_check_def check_active_iff)
  have spec: "?his \<and> ?act \<longleftrightarrow> (\<forall>h \<in> set (cc_history cc). start_tn < se_tn h \<longrightarrow>
        (\<forall>a \<in> set accs. oc_type a \<noteq> WR \<longrightarrow> oc_row a \<notin> set (se_rows h))) \<and>
      (\<forall>w \<in> set (cc_active cc). \<forall>a \<in> set accs. oc_row a \<notin> set (se_rows w))"
    unfolding rows by blast
  have "\<exists>cc'. cv_finish txn ?valid wset (if se_rows wset \<noteq> []
      then cc\<lparr>cc_active := wset # cc_active cc, cc_active_len := cc_active_len cc + 1\<rparr> else cc) = Some cc' \<and>
      history_ok cc' \<and> cc_active cc' = cc_active cc"
    using assms(1) rows(3) by (auto simp: cv_finish_def history_ok_def Let_def)
  then show ?thesis
    unfolding spec [symmetric] valid [symmetric] by (auto simp: central_validate_def rw cv_enter_def)
qed

lemma central_validate_exact_witness:
  "\<exists>cc'. central_validate 1 0 [ex_wr 4] OptCC_init = Some (RCOK, cc') \<and> history_ok cc' \<and> cc_active cc' = []"
  using central_validate_exact [of OptCC_init 1 0 "[ex_wr 4]"] by (simp add: OptCC_init_def history_ok_def)

text \<open>Two transactions read and write the same row; the second one starts before the
  first commits, with the number of the first not yet given out.  Both pass the central
  validation, although the write of the second is based on what the row held before the write of the first: the rows a transaction
  writes are not in the set that is tested against the history.\<close>

theorem central_validate_lost_update:
  "\<exists>cc1 cc2. central_validate 1 0 [ex_wr 4] OptCC_init = Some (RCOK, cc1) \<and>
     (\<exists>h \<in> set (cc_history cc1). 0 < se_tn h \<and> 4 \<in> set (se_rows h)) \<and>
     central_validate 2 0 [ex_wr 4] cc1 = Some (RCOK, cc2)"
  by (simp add: central_validate_def get_rw_set_def cv_enter_def cv_check_def cv_finish_def OptCC_init_def ex_wr_def
    test_valid_def)

end
