(* ===== verification/Occ_System.thy ===== *)
theory Occ_System
  imports Occ_Valid
begin

text \<open>
  Optimistic concurrency control with validation per row: \<open>Row_occ\<close>
  (\<open>src/DBx1000/code/concurrency_control/row_occ.cpp\<close>), \<open>OptCC::per_row_validate\<close> and the write phase of \<open>cleanup\<close>.
  Transactions copy rows, and at the end latch their rows in order, test that no row was
  written since they started, take a timestamp, write, and release the latches.  Every call on
  a row is a step; the steps of the transactions interleave.
\<close>

section \<open>State\<close>

datatype occ_phase =
    Idle
  | Running
  | Validating nat    \<comment> \<open>the rows latched so far\<close>
  | Writing nat nat    \<comment> \<open>the accesses \<open>cleanup\<close> has not returned yet, and \<open>end_ts\<close>\<close>
  | Releasing nat nat    \<comment> \<open>the next latch to release, and \<open>lock_cnt\<close>\<close>

record occ =
  oc_data :: "rid \<Rightarrow> rdata"
  oc_wts :: "rid \<Rightarrow> nat"
  oc_latch :: "rid \<Rightarrow> tid option"
  oc_clock :: nat    \<comment> \<open>\<open>timestamp\<close> of the manager\<close>
  oc_phase :: "tid \<Rightarrow> occ_phase"
  oc_start :: "tid \<Rightarrow> nat"
  oc_accs :: "tid \<Rightarrow> occ_access list"

definition occ_init :: "(rid \<Rightarrow> rdata) \<Rightarrow> occ" where
  "occ_init data = \<lparr>oc_data = data, oc_wts = (\<lambda>_. 0), oc_latch = (\<lambda>_. None), oc_clock = 1,
     oc_phase = (\<lambda>_. Idle), oc_start = (\<lambda>_. 0), oc_accs = (\<lambda>_. [])\<rparr>"

section \<open>Operations\<close>

text \<open>\<open>get_ts\<close> with \<open>TS_CAS\<close>.\<close>

definition occ_begin :: "tid \<Rightarrow> occ \<Rightarrow> occ" where
  "occ_begin t s = s\<lparr>oc_start := (oc_start s)(t := oc_clock s), oc_clock := oc_clock s + 1,
     oc_accs := (oc_accs s)(t := []), oc_phase := (oc_phase s)(t := Running)\<rparr>"

text \<open>\<open>Row_occ::validate\<close>.\<close>

definition occ_validate :: "nat \<Rightarrow> rid \<Rightarrow> occ \<Rightarrow> bool" where
  "occ_validate ts r s = (if ts < oc_wts s r then False else True)"

text \<open>\<open>Row_occ::access\<close> when the latch is free; an abort gives the copies back.\<close>

definition occ_get :: "tid \<Rightarrow> access_t \<Rightarrow> rid \<Rightarrow> occ \<Rightarrow> occ" where
  "occ_get t type r s =
     (if oc_start s t < oc_wts s r then s\<lparr>oc_phase := (oc_phase s)(t := Idle)\<rparr>
      else s\<lparr>oc_accs := (oc_accs s)(t := oc_accs s t @
               [\<lparr>oc_type = type, oc_row = r, oc_read = oc_data s r, oc_local = oc_data s r\<rparr>])\<rparr>)"

definition occ_update :: "tid \<Rightarrow> nat \<Rightarrow> rdata \<Rightarrow> occ \<Rightarrow> occ" where
  "occ_update t i d s =
     s\<lparr>oc_accs := (oc_accs s)(t := (oc_accs s t)[i := (oc_accs s t ! i)\<lparr>oc_local := d\<rparr>])\<rparr>"

definition occ_sort :: "(rid \<Rightarrow> row_key) \<Rightarrow> tid \<Rightarrow> occ \<Rightarrow> occ" where
  "occ_sort key t s = s\<lparr>oc_accs := (oc_accs s)(t := sort_accesses key (oc_accs s t)),
     oc_phase := (oc_phase s)(t := Validating 0)\<rparr>"

text \<open>One round of the loop that latches and validates.\<close>

definition occ_latch_row :: "tid \<Rightarrow> nat \<Rightarrow> occ \<Rightarrow> occ" where
  "occ_latch_row t i s =
     (let r = oc_row (oc_accs s t ! i);
          s = s\<lparr>oc_latch := (oc_latch s)(r := Some t)\<rparr>
      in s\<lparr>oc_phase := (oc_phase s)(t :=
           if occ_validate (oc_start s t) r s then Validating (i + 1) else Releasing 0 (i + 1))\<rparr>)"

definition occ_commit :: "tid \<Rightarrow> occ \<Rightarrow> occ" where
  "occ_commit t s = s\<lparr>oc_phase := (oc_phase s)(t := Writing (length (oc_accs s t)) (oc_clock s)),
     oc_clock := oc_clock s + 1\<rparr>"

text \<open>\<open>Row_occ::write\<close>.\<close>

definition occ_write :: "rid \<Rightarrow> rdata \<Rightarrow> nat \<Rightarrow> occ \<Rightarrow> occ option" where
  "occ_write r d ts s =
     (if oc_wts s r < ts
      then Some (s\<lparr>oc_data := (oc_data s)(r := d), oc_wts := (oc_wts s)(r := ts)\<rparr>) else None)"

text \<open>One round of \<open>cleanup(RCOK)\<close>, from the last access down.\<close>

definition occ_return_row :: "tid \<Rightarrow> nat \<Rightarrow> nat \<Rightarrow> occ \<Rightarrow> occ option" where
  "occ_return_row t k end_ts s =
     (let a = oc_accs s t ! k in
      map_option (\<lambda>s. s\<lparr>oc_phase := (oc_phase s)(t := Writing k end_ts)\<rparr>)
        (if oc_type a = WR then occ_write (oc_row a) (oc_local a) end_ts s else Some s))"

definition occ_release_row :: "tid \<Rightarrow> nat \<Rightarrow> nat \<Rightarrow> occ \<Rightarrow> occ" where
  "occ_release_row t i cnt s =
     s\<lparr>oc_latch := (oc_latch s)(oc_row (oc_accs s t ! i) := None),
       oc_phase := (oc_phase s)(t := if i + 1 < cnt then Releasing (i + 1) cnt else Idle)\<rparr>"

section \<open>Steps\<close>

datatype occ_label = Silent | Commits tid

inductive occ_step :: "(rid \<Rightarrow> row_key) \<Rightarrow> tid set \<Rightarrow> occ \<Rightarrow> occ_label \<Rightarrow> occ \<Rightarrow> bool"
  for key :: "rid \<Rightarrow> row_key" and Ts :: "tid set" where
  os_begin: "t \<in> Ts \<Longrightarrow> oc_phase s t = Idle \<Longrightarrow> occ_step key Ts s Silent (occ_begin t s)"
| os_get: "oc_phase s t = Running \<Longrightarrow> r \<notin> oc_row ` set (oc_accs s t) \<Longrightarrow> oc_latch s r = None \<Longrightarrow>
     occ_step key Ts s Silent (occ_get t type r s)"
| os_update: "oc_phase s t = Running \<Longrightarrow> i < length (oc_accs s t) \<Longrightarrow> oc_type (oc_accs s t ! i) = WR \<Longrightarrow>
     occ_step key Ts s Silent (occ_update t i d s)"
| os_giveup: "oc_phase s t = Running \<Longrightarrow> occ_step key Ts s Silent (s\<lparr>oc_phase := (oc_phase s)(t := Idle)\<rparr>)"
| os_sort: "oc_phase s t = Running \<Longrightarrow> occ_step key Ts s Silent (occ_sort key t s)"
| os_latch: "oc_phase s t = Validating i \<Longrightarrow> i < length (oc_accs s t) \<Longrightarrow>
     oc_latch s (oc_row (oc_accs s t ! i)) = None \<Longrightarrow> occ_step key Ts s Silent (occ_latch_row t i s)"
| os_commit: "oc_phase s t = Validating (length (oc_accs s t)) \<Longrightarrow> occ_step key Ts s (Commits t) (occ_commit t s)"
| os_return: "oc_phase s t = Writing (Suc k) e \<Longrightarrow> occ_return_row t k e s = Some s' \<Longrightarrow> occ_step key Ts s Silent s'"
| os_returned: "oc_phase s t = Writing 0 e \<Longrightarrow>
     occ_step key Ts s Silent (s\<lparr>oc_phase := (oc_phase s)(t :=
       if oc_accs s t = [] then Idle else Releasing 0 (length (oc_accs s t)))\<rparr>)"
| os_release: "oc_phase s t = Releasing i cnt \<Longrightarrow> occ_step key Ts s Silent (occ_release_row t i cnt s)"

inductive occ_reach :: "(rid \<Rightarrow> row_key) \<Rightarrow> tid set \<Rightarrow> (rid \<Rightarrow> rdata) \<Rightarrow> occ \<Rightarrow> bool"
  for key :: "rid \<Rightarrow> row_key" and Ts :: "tid set" and data :: "rid \<Rightarrow> rdata" where
  occ_reach_init: "occ_reach key Ts data (occ_init data)"
| occ_reach_step: "occ_reach key Ts data s \<Longrightarrow> occ_step key Ts s lab s' \<Longrightarrow> occ_reach key Ts data s'"

section \<open>The invariant\<close>

text \<open>The part of the accesses whose rows are latched.\<close>

fun latched :: "occ_phase \<Rightarrow> occ_access list \<Rightarrow> occ_access list" where
  "latched (Validating i) accs = take i accs"
| "latched (Writing k e) accs = accs"
| "latched (Releasing i cnt) accs = drop i (take cnt accs)"
| "latched _ accs = []"

fun reading :: "occ_phase \<Rightarrow> bool" where
  "reading Running = True"
| "reading (Validating i) = True"
| "reading _ = False"

fun phase_ok :: "occ_phase \<Rightarrow> nat \<Rightarrow> bool" where
  "phase_ok (Validating i) n = (i \<le> n)"
| "phase_ok (Writing k e) n = (k \<le> n)"
| "phase_ok (Releasing i cnt) n = (i < cnt \<and> cnt \<le> n)"
| "phase_ok _ n = True"

definition latches_ok :: "occ \<Rightarrow> bool" where
  "latches_ok s \<longleftrightarrow> (\<forall>r t. oc_latch s r = Some t \<longleftrightarrow> r \<in> oc_row ` set (latched (oc_phase s t) (oc_accs s t)))"

definition accs_ok :: "tid set \<Rightarrow> occ \<Rightarrow> bool" where
  "accs_ok Ts s \<longleftrightarrow>
     (\<forall>t. distinct (map oc_row (oc_accs s t)) \<and> phase_ok (oc_phase s t) (length (oc_accs s t)) \<and>
        (oc_phase s t \<noteq> Idle \<longrightarrow> t \<in> Ts))"

definition times_ok :: "occ \<Rightarrow> bool" where
  "times_ok s \<longleftrightarrow>
     (\<forall>r. oc_wts s r < oc_clock s) \<and> (\<forall>t. oc_phase s t \<noteq> Idle \<longrightarrow> oc_start s t < oc_clock s) \<and>
     (\<forall>t k e. oc_phase s t = Writing k e \<longrightarrow> e < oc_clock s)"

text \<open>What a transaction has copied is what the row holds, or the row was written after it started.\<close>

definition copies_ok :: "occ \<Rightarrow> bool" where
  "copies_ok s \<longleftrightarrow>
     (\<forall>t. reading (oc_phase s t) \<longrightarrow> (\<forall>a \<in> set (oc_accs s t).
        oc_data s (oc_row a) = oc_read a \<or> oc_start s t < oc_wts s (oc_row a)))"

definition valid_ok :: "occ \<Rightarrow> bool" where
  "valid_ok s \<longleftrightarrow>
     (\<forall>t i. oc_phase s t = Validating i \<longrightarrow> (\<forall>a \<in> set (take i (oc_accs s t)). oc_wts s (oc_row a) \<le> oc_start s t))"

definition writing_ok :: "occ \<Rightarrow> bool" where
  "writing_ok s \<longleftrightarrow>
     (\<forall>t k e. oc_phase s t = Writing k e \<longrightarrow>
        (\<forall>a \<in> set (take k (oc_accs s t)). oc_wts s (oc_row a) < e) \<and>
        (\<forall>u. reading (oc_phase s u) \<longrightarrow> oc_row ` set (oc_accs s u) \<inter> oc_row ` set (oc_accs s t) \<noteq> {} \<longrightarrow>
           oc_start s u < e))"

definition occ_inv :: "tid set \<Rightarrow> occ \<Rightarrow> bool" where
  "occ_inv Ts s \<longleftrightarrow>
     latches_ok s \<and> accs_ok Ts s \<and> times_ok s \<and> copies_ok s \<and> valid_ok s \<and> writing_ok s"

lemma occ_inv_init: "occ_inv Ts (occ_init data)"
  by (simp add: occ_inv_def occ_init_def latches_ok_def accs_ok_def times_ok_def copies_ok_def valid_ok_def writing_ok_def)

lemma latched_sub: "set (latched p accs) \<subseteq> set accs"
  by (cases p) (auto dest: in_set_takeD in_set_dropD)

text \<open>A row latched by one transaction is not latched by another.\<close>

lemma latch_unique:
  assumes "latches_ok s" "r \<in> oc_row ` set (latched (oc_phase s t) (oc_accs s t))"
    "r \<in> oc_row ` set (latched (oc_phase s u) (oc_accs s u))"
  shows "t = u"
  using assms unfolding latches_ok_def by (metis option.inject)

text \<open>A step that moves one transaction and leaves the rows alone.\<close>

lemma occ_inv_move:
  assumes inv: "occ_inv Ts s"
    and s': "oc_data s' = oc_data s" "oc_wts s' = oc_wts s" "oc_phase s' = (oc_phase s)(t := p)"
      "oc_accs s' = (oc_accs s)(t := as)" "oc_start s' = (oc_start s)(t := st)" "oc_clock s \<le> oc_clock s'"
    and latches: "latches_ok s'"
    and as: "distinct (map oc_row as)" "phase_ok p (length as)" "p \<noteq> Idle \<longrightarrow> t \<in> Ts \<and> st < oc_clock s'"
    and rd: "reading p \<longrightarrow> (\<forall>a \<in> set as. oc_data s (oc_row a) = oc_read a \<or> st < oc_wts s (oc_row a)) \<and>
        (\<forall>u k e. u \<noteq> t \<and> oc_phase s u = Writing k e \<and> oc_row ` set as \<inter> oc_row ` set (oc_accs s u) \<noteq> {} \<longrightarrow> st < e)"
    and val: "\<forall>i. p = Validating i \<longrightarrow> (\<forall>a \<in> set (take i as). oc_wts s (oc_row a) \<le> st)"
    and wr: "\<forall>k e. p = Writing k e \<longrightarrow> e < oc_clock s' \<and> (\<forall>a \<in> set (take k as). oc_wts s (oc_row a) < e) \<and>
        (\<forall>u. u \<noteq> t \<and> reading (oc_phase s u) \<and> oc_row ` set (oc_accs s u) \<inter> oc_row ` set as \<noteq> {} \<longrightarrow> oc_start s u < e)"
  shows "occ_inv Ts s'"
proof -
  have "accs_ok Ts s'" using inv as unfolding occ_inv_def accs_ok_def s' by simp
  moreover have "times_ok s'"
  proof -
    have "oc_wts s r < oc_clock s'" for r
      using inv s'(6) unfolding occ_inv_def times_ok_def by (meson order_less_le_trans)
    moreover have "oc_start s u < oc_clock s'" if "oc_phase s u \<noteq> Idle" for u
      using inv s'(6) that unfolding occ_inv_def times_ok_def by (meson order_less_le_trans)
    moreover have "e < oc_clock s'" if "oc_phase s u = Writing k e" for u k e
      using inv s'(6) that unfolding occ_inv_def times_ok_def by (meson order_less_le_trans)
    ultimately show ?thesis using as(3) wr unfolding times_ok_def s'(2,3,5) by simp
  qed
  moreover have "copies_ok s'" using inv rd unfolding occ_inv_def copies_ok_def s'(1-5) by simp
  moreover have "valid_ok s'" using inv val unfolding occ_inv_def valid_ok_def s'(2-5) by simp
  moreover have "writing_ok s'" unfolding writing_ok_def
  proof (intro allI impI conjI ballI)
    fix u k e a assume "oc_phase s' u = Writing k e" "a \<in> set (take k (oc_accs s' u))"
    then show "oc_wts s' (oc_row a) < e"
      using inv wr unfolding occ_inv_def writing_ok_def s'(2-4) by (cases "u = t") simp_all
  next
    fix u k e w assume h: "oc_phase s' u = Writing k e" "reading (oc_phase s' w)"
      "oc_row ` set (oc_accs s' w) \<inter> oc_row ` set (oc_accs s' u) \<noteq> {}"
    consider "u = t" "w = t" | "u = t" "w \<noteq> t" | "u \<noteq> t" "w = t" | "u \<noteq> t" "w \<noteq> t" by blast
    then show "oc_start s' w < e"
    proof cases
      case 1
      with h show ?thesis unfolding s'(3) by auto
    next
      case 2
      with h wr show ?thesis unfolding s'(3-5) by auto
    next
      case 3
      with h rd show ?thesis unfolding s'(3-5) by auto
    next
      case 4
      with h inv show ?thesis unfolding s'(3-5) occ_inv_def writing_ok_def by auto
    qed
  qed
  ultimately show ?thesis using latches by (simp add: occ_inv_def)
qed

lemma latches_ok_move:
  assumes "latches_ok s" "oc_latch s' = oc_latch s" "oc_phase s' = (oc_phase s)(t := p)" "oc_accs s' = (oc_accs s)(t := as)"
    "oc_row ` set (latched p as) = oc_row ` set (latched (oc_phase s t) (oc_accs s t))"
  shows "latches_ok s'"
  using assms unfolding latches_ok_def by (auto simp: assms(2-4))

lemma writing_start:
  assumes inv: "occ_inv Ts s" and u: "oc_phase s u = Writing k e"
    and t: "reading (oc_phase s t)" "oc_row ` set (oc_accs s t) \<inter> oc_row ` set (oc_accs s u) \<noteq> {}"
  shows "oc_start s t < e"
proof -
  have "writing_ok s" using inv by (simp add: occ_inv_def)
  with u t show ?thesis unfolding writing_ok_def by blast
qed

lemma reading_copies:
  assumes inv: "occ_inv Ts s" and t: "reading (oc_phase s t)" "a \<in> set (oc_accs s t)"
  shows "oc_data s (oc_row a) = oc_read a \<or> oc_start s t < oc_wts s (oc_row a)"
proof -
  have "copies_ok s" using inv by (simp add: occ_inv_def)
  with t show ?thesis unfolding copies_ok_def by blast
qed

text \<open>A transaction that goes on reading, with the same copies.\<close>

lemma occ_inv_reading:
  assumes inv: "occ_inv Ts s" and t: "reading (oc_phase s t)" and p: "reading p" "phase_ok p (length as)"
    and s': "oc_data s' = oc_data s" "oc_wts s' = oc_wts s" "oc_phase s' = (oc_phase s)(t := p)"
      "oc_accs s' = (oc_accs s)(t := as)" "oc_start s' = oc_start s" "oc_clock s' = oc_clock s"
    and latches: "latches_ok s'"
    and as: "distinct (map oc_row as)" "(\<lambda>a. (oc_row a, oc_read a)) ` set as \<subseteq> (\<lambda>a. (oc_row a, oc_read a)) ` set (oc_accs s t)"
    and val: "\<forall>i. p = Validating i \<longrightarrow> (\<forall>a \<in> set (take i as). oc_wts s (oc_row a) \<le> oc_start s t)"
  shows "occ_inv Ts s'"
proof (rule occ_inv_move [OF inv s'(1-4) _ _ latches as(1) p(2), where st = "oc_start s t"])
  have idle: "oc_phase s t \<noteq> Idle" using t by (cases "oc_phase s t") simp_all
  then show "p \<noteq> Idle \<longrightarrow> t \<in> Ts \<and> oc_start s t < oc_clock s'"
    using inv s'(6) by (auto simp: occ_inv_def accs_ok_def times_ok_def)
  have copies: "oc_data s (oc_row a) = oc_read a \<or> oc_start s t < oc_wts s (oc_row a)" if "a \<in> set as" for a
  proof -
    from as(2) that obtain b where "b \<in> set (oc_accs s t)" "oc_row b = oc_row a" "oc_read b = oc_read a" by force
    with reading_copies [OF inv t, of b] show ?thesis by simp
  qed
  have rows: "oc_row ` set as \<subseteq> oc_row ` set (oc_accs s t)"
    using image_mono [OF as(2), of fst] by (simp add: image_image)
  have "oc_start s t < e" if "oc_phase s u = Writing k e" "oc_row ` set as \<inter> oc_row ` set (oc_accs s u) \<noteq> {}" for u k e
    using writing_start [OF inv that(1) t] that(2) rows by blast
  with copies show "reading p \<longrightarrow> (\<forall>a \<in> set as. oc_data s (oc_row a) = oc_read a \<or> oc_start s t < oc_wts s (oc_row a)) \<and>
      (\<forall>u k e. u \<noteq> t \<and> oc_phase s u = Writing k e \<and> oc_row ` set as \<inter> oc_row ` set (oc_accs s u) \<noteq> {} \<longrightarrow> oc_start s t < e)"
    by blast
  show "\<forall>k e. p = Writing k e \<longrightarrow> e < oc_clock s' \<and> (\<forall>a \<in> set (take k as). oc_wts s (oc_row a) < e) \<and>
      (\<forall>u. u \<noteq> t \<and> reading (oc_phase s u) \<and> oc_row ` set (oc_accs s u) \<inter> oc_row ` set as \<noteq> {} \<longrightarrow> oc_start s u < e)"
    using p(1) by auto
qed (use s' val in simp_all)

text \<open>A transaction that neither reads nor writes any more.\<close>

lemma occ_inv_finishing:
  assumes inv: "occ_inv Ts s" and p: "\<not> reading p" "\<forall>k e. p \<noteq> Writing k e" "phase_ok p (length (oc_accs s t))"
    and t: "oc_phase s t \<noteq> Idle"
    and s': "oc_data s' = oc_data s" "oc_wts s' = oc_wts s" "oc_phase s' = (oc_phase s)(t := p)"
      "oc_accs s' = oc_accs s" "oc_start s' = oc_start s" "oc_clock s' = oc_clock s"
    and latches: "latches_ok s'"
  shows "occ_inv Ts s'"
proof (rule occ_inv_move [OF inv s'(1-3) _ _ _ latches _ p(3), where st = "oc_start s t"])
  show "p \<noteq> Idle \<longrightarrow> t \<in> Ts \<and> oc_start s t < oc_clock s'"
    using inv s'(6) t by (auto simp: occ_inv_def accs_ok_def times_ok_def)
  show "distinct (map oc_row (oc_accs s t))" using inv by (simp add: occ_inv_def accs_ok_def)
  show "\<forall>i. p = Validating i \<longrightarrow> (\<forall>a \<in> set (take i (oc_accs s t)). oc_wts s (oc_row a) \<le> oc_start s t)"
    using p(1) by auto
qed (use p s' in auto)

lemma sort_accesses_set [simp]: "set (sort_accesses key accs) = set accs"
  by (metis set_mset_mset sort_accesses_mset)

text \<open>The rows a committed transaction writes.\<close>

lemma occ_inv_return:
  assumes p: "oc_phase s t = Writing (Suc k) e" and ret: "occ_return_row t k e s = Some s'" and inv: "occ_inv Ts s"
  shows "occ_inv Ts s'"
proof -
  let ?a = "oc_accs s t ! k" and ?accs = "oc_accs s t"
  have l: "latches_ok s" and d: "distinct (map oc_row ?accs)" and len: "k < length ?accs" and e: "e < oc_clock s"
    using inv p by (auto simp: occ_inv_def accs_ok_def times_ok_def dest: spec [of _ t])
  have take: "take (Suc k) ?accs = take k ?accs @ [?a]" using len by (simp add: take_Suc_conv_app_nth)
  have "distinct (map oc_row (take (Suc k) ?accs))" using d by (simp add: take_map [symmetric])
  then have other: "oc_row b \<noteq> oc_row ?a" if "b \<in> set (take k ?accs)" for b
    using that unfolding take by auto (metis image_eqI)
  have pend: "oc_wts s (oc_row b) < e" if "b \<in> set (take (Suc k) ?accs)" for b
    using inv p that by (simp add: occ_inv_def writing_ok_def)
  have start: "oc_start s u < e" if "reading (oc_phase s u)" "oc_row ` set (oc_accs s u) \<inter> oc_row ` set ?accs \<noteq> {}" for u
    using writing_start [OF inv p that] .
  show ?thesis
  proof (cases "oc_type ?a = WR")
    case False
    with ret have s': "s' = s\<lparr>oc_phase := (oc_phase s)(t := Writing k e)\<rparr>" by (simp add: occ_return_row_def Let_def)
    show ?thesis
    proof (rule occ_inv_move [OF inv, where t = t and p = "Writing k e" and as = ?accs and st = "oc_start s t"])
      show "latches_ok s'"
        by (rule latches_ok_move [OF l, where t = t and p = "Writing k e" and as = ?accs]) (simp_all add: s' p)
      show "Writing k e \<noteq> Idle \<longrightarrow> t \<in> Ts \<and> oc_start s t < oc_clock s'"
        using inv p by (auto simp: s' occ_inv_def accs_ok_def times_ok_def)
      show "\<forall>k' e'. Writing k e = Writing k' e' \<longrightarrow> e' < oc_clock s' \<and> (\<forall>a \<in> set (take k' ?accs). oc_wts s (oc_row a) < e') \<and>
          (\<forall>u. u \<noteq> t \<and> reading (oc_phase s u) \<and> oc_row ` set (oc_accs s u) \<inter> oc_row ` set ?accs \<noteq> {} \<longrightarrow> oc_start s u < e')"
        using e start pend by (simp add: s' take)
    qed (use d len in \<open>simp_all add: s'\<close>)
  next
    case True
    let ?r = "oc_row ?a"
    have s': "s' = s\<lparr>oc_data := (oc_data s)(?r := oc_local ?a), oc_wts := (oc_wts s)(?r := e),
        oc_phase := (oc_phase s)(t := Writing k e)\<rparr>"
      using ret True by (auto simp: occ_return_row_def occ_write_def Let_def split: if_splits)
    have r: "?r \<in> oc_row ` set ?accs" using len by simp
    have mine: "?r \<in> oc_row ` set (latched (oc_phase s t) ?accs)" using r p by simp
    have we: "oc_wts s ?r < e" by (rule pend) (simp add: take)
    have latches: "latches_ok s'"
      by (rule latches_ok_move [OF l, where t = t and p = "Writing k e" and as = ?accs]) (simp_all add: s' p)
    have accs: "accs_ok Ts s'" using inv len p by (auto simp: occ_inv_def accs_ok_def s')
    have times: "times_ok s'" using inv e p by (auto simp: occ_inv_def times_ok_def s')
    have copies: "copies_ok s'" unfolding copies_ok_def
    proof (intro allI impI ballI)
      fix u b assume u: "reading (oc_phase s' u)" "b \<in> set (oc_accs s' u)"
      then have ut: "reading (oc_phase s u)" "b \<in> set (oc_accs s u)" by (auto simp: s' split: if_splits)
      show "oc_data s' (oc_row b) = oc_read b \<or> oc_start s' u < oc_wts s' (oc_row b)"
      proof (cases "oc_row b = ?r")
        case True
        with ut(2) r have "oc_row ` set (oc_accs s u) \<inter> oc_row ` set ?accs \<noteq> {}" by force
        from start [OF ut(1) this] True show ?thesis by (simp add: s')
      next
        case False
        with reading_copies [OF inv ut] show ?thesis by (simp add: s')
      qed
    qed
    have valid: "valid_ok s'" unfolding valid_ok_def
    proof (intro allI impI ballI)
      fix u i b assume u: "oc_phase s' u = Validating i" "b \<in> set (take i (oc_accs s' u))"
      then have ut: "oc_phase s u = Validating i" "b \<in> set (take i (oc_accs s u))" "u \<noteq> t"
        by (auto simp: s' split: if_splits)
      have "oc_row b \<noteq> ?r"
      proof
        assume "oc_row b = ?r"
        have "b \<in> set (latched (oc_phase s u) (oc_accs s u))" using ut(1,2) by simp
        from latch_unique [OF l mine imageI [OF this, of oc_row, unfolded \<open>oc_row b = ?r\<close>]] ut(3) show False by simp
      qed
      moreover have "oc_wts s (oc_row b) \<le> oc_start s u" using inv ut(1,2) by (simp add: occ_inv_def valid_ok_def)
      ultimately show "oc_wts s' (oc_row b) \<le> oc_start s' u" by (simp add: s')
    qed
    have "writing_ok s'" unfolding writing_ok_def
    proof (intro allI impI conjI ballI)
      fix u k' e' b assume u: "oc_phase s' u = Writing k' e'" and b: "b \<in> set (take k' (oc_accs s' u))"
      show "oc_wts s' (oc_row b) < e'"
      proof (cases "u = t")
        case True
        with u b have k: "k' = k" "e' = e" "b \<in> set (take k ?accs)" by (auto simp: s')
        with pend [of b] other [of b] show ?thesis by (simp add: s' take)
      next
        case False
        with u b have ut: "oc_phase s u = Writing k' e'" "b \<in> set (take k' (oc_accs s u))" by (auto simp: s')
        have "oc_row b \<noteq> ?r"
        proof
          assume "oc_row b = ?r"
          have "b \<in> set (latched (oc_phase s u) (oc_accs s u))" using ut(1) in_set_takeD [OF ut(2)] by simp
          from latch_unique [OF l mine imageI [OF this, of oc_row, unfolded \<open>oc_row b = ?r\<close>]] False show False by simp
        qed
        moreover have "oc_wts s (oc_row b) < e'" using inv ut by (simp add: occ_inv_def writing_ok_def)
        ultimately show ?thesis by (simp add: s')
      qed
    next
      fix u k' e' w assume h: "oc_phase s' u = Writing k' e'" "reading (oc_phase s' w)"
        "oc_row ` set (oc_accs s' w) \<inter> oc_row ` set (oc_accs s' u) \<noteq> {}"
      have w: "reading (oc_phase s w)" "oc_row ` set (oc_accs s w) \<inter> oc_row ` set (oc_accs s u) \<noteq> {}"
        using h(2,3) by (auto simp: s' split: if_splits)
      show "oc_start s' w < e'"
      proof (cases "u = t")
        case True
        with h(1) start [OF w(1)] w(2) show ?thesis by (simp add: s')
      next
        case False
        with h(1) have "oc_phase s u = Writing k' e'" by (simp add: s')
        from writing_start [OF inv this w] show ?thesis by (simp add: s')
      qed
    qed
    with latches accs times copies valid show ?thesis by (simp add: occ_inv_def)
  qed
qed

lemma occ_inv_step: "occ_step key Ts s lab s' \<Longrightarrow> occ_inv Ts s \<Longrightarrow> occ_inv Ts s'"
proof (induction rule: occ_step.induct)
  case (os_begin t s)
  then have l: "latches_ok s" by (simp add: occ_inv_def)
  show ?case
  proof (rule occ_inv_move [OF os_begin.prems, where t = t and p = Running and as = "[]" and st = "oc_clock s"])
    show "latches_ok (occ_begin t s)"
      by (rule latches_ok_move [OF l, where t = t and p = Running and as = "[]"])
        (use os_begin.hyps in \<open>simp_all add: occ_begin_def\<close>)
  qed (use os_begin.hyps in \<open>simp_all add: occ_begin_def\<close>)
next
  case (os_get s t r type)
  note inv = os_get.prems
  then have l: "latches_ok s" and t: "t \<in> Ts" "oc_start s t < oc_clock s" "distinct (map oc_row (oc_accs s t))"
    using os_get.hyps(1) by (auto simp: occ_inv_def accs_ok_def times_ok_def)
  show ?case
  proof (cases "oc_start s t < oc_wts s r")
    case True
    show ?thesis
    proof (rule occ_inv_move [OF inv, where t = t and p = Idle and as = "oc_accs s t" and st = "oc_start s t"])
      show "latches_ok (occ_get t type r s)"
        by (rule latches_ok_move [OF l, where t = t and p = Idle and as = "oc_accs s t"])
          (use True os_get.hyps in \<open>simp_all add: occ_get_def\<close>)
    qed (use True t in \<open>simp_all add: occ_get_def\<close>)
  next
    case False
    let ?a = "\<lparr>oc_type = type, oc_row = r, oc_read = oc_data s r, oc_local = oc_data s r\<rparr>"
    have free: "r \<notin> oc_row ` set (oc_accs s u)" if "oc_phase s u = Writing k e" for u k e
    proof
      assume "r \<in> oc_row ` set (oc_accs s u)"
      with that l have "oc_latch s r = Some u" by (simp add: latches_ok_def)
      with os_get.hyps(3) show False by simp
    qed
    show ?thesis
    proof (rule occ_inv_move [OF inv, where t = t and p = Running and as = "oc_accs s t @ [?a]" and st = "oc_start s t"])
      show "latches_ok (occ_get t type r s)"
        by (rule latches_ok_move [OF l, where t = t and p = Running and as = "oc_accs s t @ [?a]"])
          (use False os_get.hyps in \<open>simp_all add: occ_get_def fun_upd_idem\<close>)
      have copies: "\<forall>a \<in> set (oc_accs s t @ [?a]). oc_data s (oc_row a) = oc_read a \<or> oc_start s t < oc_wts s (oc_row a)"
        using inv os_get.hyps(1) by (simp add: occ_inv_def copies_ok_def)
      have "oc_start s t < e" if "oc_phase s u = Writing k e"
        "oc_row ` set (oc_accs s t @ [?a]) \<inter> oc_row ` set (oc_accs s u) \<noteq> {}" for u k e
      proof (rule writing_start [OF inv that(1)])
        show "oc_row ` set (oc_accs s t) \<inter> oc_row ` set (oc_accs s u) \<noteq> {}" using that(2) free [OF that(1)] by simp
      qed (use os_get.hyps(1) in simp)
      with copies show "reading Running \<longrightarrow>
         (\<forall>a \<in> set (oc_accs s t @ [?a]). oc_data s (oc_row a) = oc_read a \<or> oc_start s t < oc_wts s (oc_row a)) \<and>
         (\<forall>u k e. u \<noteq> t \<and> oc_phase s u = Writing k e \<and>
            oc_row ` set (oc_accs s t @ [?a]) \<inter> oc_row ` set (oc_accs s u) \<noteq> {} \<longrightarrow> oc_start s t < e)"
        by blast
    qed (use False t os_get.hyps in \<open>simp_all add: occ_get_def fun_upd_idem\<close>)
  qed
next
  case (os_update s t i d)
  note inv = os_update.prems
  then have l: "latches_ok s" and d: "distinct (map oc_row (oc_accs s t))" by (auto simp: occ_inv_def accs_ok_def)
  let ?as = "(oc_accs s t)[i := (oc_accs s t ! i)\<lparr>oc_local := d\<rparr>]"
  have m: "map (\<lambda>a. (oc_row a, oc_read a)) ?as = map (\<lambda>a. (oc_row a, oc_read a)) (oc_accs s t)"
    using os_update.hyps(2) by (simp add: map_update list_update_same_conv)
  have "map oc_row ?as = map oc_row (oc_accs s t)"
    using os_update.hyps(2) by (simp add: map_update list_update_same_conv)
  with d have d': "distinct (map oc_row ?as)" by simp
  show ?case
  proof (rule occ_inv_reading [OF inv, where t = t and p = Running and as = ?as])
    show "latches_ok (occ_update t i d s)"
      by (rule latches_ok_move [OF l, where t = t and p = Running and as = ?as])
        (use os_update.hyps in \<open>simp_all add: occ_update_def fun_upd_idem\<close>)
    show "(\<lambda>a. (oc_row a, oc_read a)) ` set ?as \<subseteq> (\<lambda>a. (oc_row a, oc_read a)) ` set (oc_accs s t)"
      using arg_cong [OF m, of set] by simp
  qed (use os_update.hyps d' in \<open>simp_all add: occ_update_def fun_upd_idem\<close>)
next
  case (os_giveup s t)
  then have l: "latches_ok s" by (simp add: occ_inv_def)
  have "latches_ok (s\<lparr>oc_phase := (oc_phase s)(t := Idle)\<rparr>)"
    by (rule latches_ok_move [OF l, where t = t and p = Idle and as = "oc_accs s t"])
      (use os_giveup.hyps in simp_all)
  then show ?case
    by (intro occ_inv_finishing [OF os_giveup.prems, where t = t and p = Idle]) (use os_giveup.hyps in simp_all)
next
  case (os_sort s t)
  note inv = os_sort.prems
  then have l: "latches_ok s" and d: "distinct (map oc_row (oc_accs s t))" by (auto simp: occ_inv_def accs_ok_def)
  let ?as = "sort_accesses key (oc_accs s t)"
  have d': "distinct (map oc_row ?as)" using d by (metis mset_map sort_accesses_mset mset_eq_imp_distinct_iff)
  show ?case
  proof (rule occ_inv_reading [OF inv, where t = t and p = "Validating 0" and as = ?as])
    show "latches_ok (occ_sort key t s)"
      by (rule latches_ok_move [OF l, where t = t and p = "Validating 0" and as = ?as])
        (use os_sort.hyps in \<open>simp_all add: occ_sort_def\<close>)
  qed (use os_sort.hyps d' in \<open>simp_all add: occ_sort_def\<close>)
next
  case (os_latch s t i)
  note inv = os_latch.prems
  then have l: "latches_ok s" and d: "distinct (map oc_row (oc_accs s t))" by (auto simp: occ_inv_def accs_ok_def)
  let ?a = "oc_accs s t ! i" and ?s = "occ_latch_row t i s"
  define p where "p = (if oc_start s t < oc_wts s (oc_row ?a) then Releasing 0 (i + 1) else Validating (i + 1))"
  have s': "oc_data ?s = oc_data s" "oc_wts ?s = oc_wts s" "oc_phase ?s = (oc_phase s)(t := p)" "oc_accs ?s = oc_accs s"
    "oc_start ?s = oc_start s" "oc_clock ?s = oc_clock s" "oc_latch ?s = (oc_latch s)(oc_row ?a := Some t)"
    by (simp_all add: occ_latch_row_def Let_def occ_validate_def p_def)
  have take: "set (take (i + 1) (oc_accs s t)) = insert ?a (set (take i (oc_accs s t)))"
    using os_latch.hyps(2) by (simp add: take_Suc_conv_app_nth)
  have latched: "set (latched p (oc_accs s t)) = insert ?a (set (take i (oc_accs s t)))"
    using take by (simp add: p_def)
  have latches: "latches_ok ?s" unfolding latches_ok_def
  proof (intro allI)
    fix r u
    have old: "oc_latch s r = Some u \<longleftrightarrow> r \<in> oc_row ` set (latched (oc_phase s u) (oc_accs s u))"
      using l by (simp add: latches_ok_def)
    show "oc_latch ?s r = Some u \<longleftrightarrow> r \<in> oc_row ` set (latched (oc_phase ?s u) (oc_accs ?s u))"
    proof (cases "u = t")
      case True
      with latched old os_latch.hyps(1) show ?thesis unfolding s' by auto
    next
      case False
      with old os_latch.hyps(3) show ?thesis unfolding s' by auto
    qed
  qed
  show ?case
  proof (cases "oc_start s t < oc_wts s (oc_row ?a)")
    case True
    with os_latch.hyps s' latches show ?thesis
      by (intro occ_inv_finishing [OF inv, where t = t and p = p]) (simp_all add: p_def)
  next
    case False
    have "\<forall>a \<in> set (take (i + 1) (oc_accs s t)). oc_wts s (oc_row a) \<le> oc_start s t"
      using inv os_latch.hyps(1) False unfolding take by (simp add: occ_inv_def valid_ok_def)
    with False os_latch.hyps d s' latches show ?thesis
      by (intro occ_inv_reading [OF inv, where t = t and p = p and as = "oc_accs s t"])
        (simp_all add: p_def fun_upd_idem)
  qed
next
  case (os_commit s t)
  note inv = os_commit.prems
  then have l: "latches_ok s" and t: "t \<in> Ts" "oc_start s t < oc_clock s" "distinct (map oc_row (oc_accs s t))"
    using os_commit.hyps(1) by (auto simp: occ_inv_def accs_ok_def times_ok_def)
  let ?p = "Writing (length (oc_accs s t)) (oc_clock s)"
  show ?case
  proof (rule occ_inv_move [OF inv, where t = t and p = ?p and as = "oc_accs s t" and st = "oc_start s t"])
    show "latches_ok (occ_commit t s)"
      by (rule latches_ok_move [OF l, where t = t and p = ?p and as = "oc_accs s t"])
        (use os_commit.hyps in \<open>simp_all add: occ_commit_def\<close>)
    have "oc_start s u < oc_clock s" if "reading (oc_phase s u)" for u
    proof -
      have "oc_phase s u \<noteq> Idle" using that by (cases "oc_phase s u") simp_all
      with inv show ?thesis by (simp add: occ_inv_def times_ok_def)
    qed
    moreover have "\<forall>r. oc_wts s r < oc_clock s" using inv by (simp add: occ_inv_def times_ok_def)
    ultimately show "\<forall>k e. ?p = Writing k e \<longrightarrow> e < oc_clock (occ_commit t s) \<and>
        (\<forall>a \<in> set (take k (oc_accs s t)). oc_wts s (oc_row a) < e) \<and>
        (\<forall>u. u \<noteq> t \<and> reading (oc_phase s u) \<and> oc_row ` set (oc_accs s u) \<inter> oc_row ` set (oc_accs s t) \<noteq> {} \<longrightarrow> oc_start s u < e)"
      by (simp add: occ_commit_def)
  qed (use t in \<open>simp_all add: occ_commit_def\<close>)
next
  case (os_return s t k e s')
  then show ?case by (rule occ_inv_return)
next
  case (os_returned s t e)
  then have l: "latches_ok s" by (simp add: occ_inv_def)
  let ?p = "if oc_accs s t = [] then Idle else Releasing 0 (length (oc_accs s t))"
  have "latches_ok (s\<lparr>oc_phase := (oc_phase s)(t := ?p)\<rparr>)"
    by (rule latches_ok_move [OF l, where t = t and p = ?p and as = "oc_accs s t"]) (use os_returned.hyps in simp_all)
  then show ?case
    by (intro occ_inv_finishing [OF os_returned.prems, where t = t and p = ?p]) (use os_returned.hyps in simp_all)
next
  case (os_release s t i cnt)
  note inv = os_release.prems
  then have l: "latches_ok s" and d: "distinct (map oc_row (oc_accs s t))" and n: "i < cnt" "cnt \<le> length (oc_accs s t)"
    using os_release.hyps by (auto simp: occ_inv_def accs_ok_def dest: spec [of _ t])
  let ?s = "occ_release_row t i cnt s" and ?a = "oc_accs s t ! i"
  let ?p = "if i + 1 < cnt then Releasing (i + 1) cnt else Idle"
  have old: "drop i (take cnt (oc_accs s t)) = ?a # drop (i + 1) (take cnt (oc_accs s t))"
    using n by (simp add: Cons_nth_drop_Suc [symmetric])
  have new: "latched ?p (oc_accs s t) = drop (i + 1) (take cnt (oc_accs s t))" using n by simp
  have "distinct (map oc_row (drop i (take cnt (oc_accs s t))))" using d by (simp add: drop_map [symmetric] take_map [symmetric])
  then have notin: "oc_row ?a \<notin> oc_row ` set (latched ?p (oc_accs s t))" unfolding old new by simp
  have "latches_ok ?s" unfolding latches_ok_def
  proof (intro allI)
    fix r u
    have o: "oc_latch s r = Some u \<longleftrightarrow> r \<in> oc_row ` set (latched (oc_phase s u) (oc_accs s u))" for r u
      using l by (simp add: latches_ok_def)
    show "oc_latch ?s r = Some u \<longleftrightarrow> r \<in> oc_row ` set (latched (oc_phase ?s u) (oc_accs ?s u))"
    proof (cases "u = t")
      case True
      have "oc_row ` set (latched (oc_phase s t) (oc_accs s t)) = insert (oc_row ?a) (oc_row ` set (latched ?p (oc_accs s t)))"
        using os_release.hyps old new by simp
      with True o [of r t] notin show ?thesis by (auto simp: occ_release_row_def simp del: latched.simps)
    next
      case False
      have "oc_latch s (oc_row ?a) = Some t" unfolding o using os_release.hyps old by simp
      with False o [of r u] show ?thesis by (auto simp: occ_release_row_def)
    qed
  qed
  then show ?case
    by (intro occ_inv_finishing [OF inv, where t = t and p = ?p]) (use os_release.hyps n in \<open>simp_all add: occ_release_row_def\<close>)
qed

lemma occ_inv_reach: "occ_reach key Ts data s \<Longrightarrow> occ_inv Ts s"
  by (induction rule: occ_reach.induct) (auto simp: occ_inv_init intro: occ_inv_step)

section \<open>Committed data\<close>

text \<open>What the rows hold when every committed transaction has finished its writes.\<close>

definition pending_write :: "occ \<Rightarrow> occ_access \<Rightarrow> bool" where
  "pending_write s a \<longleftrightarrow>
     (\<exists>t k e. oc_phase s t = Writing k e \<and> a \<in> set (take k (oc_accs s t)) \<and> oc_type a = WR)"

definition occ_committed :: "occ \<Rightarrow> (rid \<Rightarrow> rdata) \<Rightarrow> bool" where
  "occ_committed s B \<longleftrightarrow>
     (\<forall>a. pending_write s a \<longrightarrow> B (oc_row a) = oc_local a) \<and>
     (\<forall>r. (\<forall>a. pending_write s a \<longrightarrow> oc_row a \<noteq> r) \<longrightarrow> B r = oc_data s r)"

definition occ_effect :: "occ \<Rightarrow> occ_label \<Rightarrow> (rid \<Rightarrow> rdata) \<Rightarrow> rid \<Rightarrow> rdata" where
  "occ_effect s lab B =
     (case lab of
        Silent \<Rightarrow> B
      | Commits t \<Rightarrow> (\<lambda>r. case List.find (\<lambda>a. oc_type a = WR \<and> oc_row a = r) (oc_accs s t) of
                            None \<Rightarrow> B r | Some a \<Rightarrow> oc_local a))"

lemma occ_committed_same:
  assumes "occ_committed s B" "oc_data s' = oc_data s" "\<And>a. pending_write s' a \<longleftrightarrow> pending_write s a"
  shows "occ_committed s' B"
  using assms by (simp add: occ_committed_def)

lemma pending_write_move:
  assumes s': "oc_phase s' = (oc_phase s)(t := p)" "oc_accs s' = (oc_accs s)(t := as)"
    and p: "\<forall>k e. p = Writing k e \<longrightarrow> k = 0" "\<forall>k e. oc_phase s t = Writing k e \<longrightarrow> k = 0"
  shows "pending_write s' a \<longleftrightarrow> pending_write s a"
proof -
  have "oc_phase s' u = Writing k e \<and> a \<in> set (take k (oc_accs s' u)) \<longleftrightarrow>
      oc_phase s u = Writing k e \<and> a \<in> set (take k (oc_accs s u))" for u k e
    using p by (cases "u = t") (auto simp: s')
  then show ?thesis unfolding pending_write_def by blast
qed

lemma find_row:
  "distinct (map oc_row accs) \<Longrightarrow> a \<in> set accs \<Longrightarrow> oc_type a = WR \<Longrightarrow>
   List.find (\<lambda>b. oc_type b = WR \<and> oc_row b = oc_row a) accs = Some a"
  by (induction accs) auto

text \<open>At its commit a transaction's copies are what the rows hold.\<close>

lemma commit_current:
  assumes inv: "occ_inv Ts s" and p: "oc_phase s t = Validating (length (oc_accs s t))" and a: "a \<in> set (oc_accs s t)"
  shows "oc_data s (oc_row a) = oc_read a" "\<not> (\<exists>b. pending_write s b \<and> oc_row b = oc_row a)"
proof -
  have "oc_wts s (oc_row a) \<le> oc_start s t" using inv p a by (simp add: occ_inv_def valid_ok_def)
  with reading_copies [OF inv _ a] p show "oc_data s (oc_row a) = oc_read a" by auto
  show "\<not> (\<exists>b. pending_write s b \<and> oc_row b = oc_row a)"
  proof
    assume "\<exists>b. pending_write s b \<and> oc_row b = oc_row a"
    then obtain b u k e where b: "oc_phase s u = Writing k e" "b \<in> set (take k (oc_accs s u))" "oc_row b = oc_row a"
      by (auto simp: pending_write_def)
    have "b \<in> set (latched (oc_phase s u) (oc_accs s u))" using b(1) in_set_takeD [OF b(2)] by simp
    from imageI [OF this, of oc_row] have u: "oc_row a \<in> oc_row ` set (latched (oc_phase s u) (oc_accs s u))" unfolding b(3) .
    have "oc_row a \<in> oc_row ` set (latched (oc_phase s t) (oc_accs s t))" using a p by simp
    moreover have "latches_ok s" using inv by (simp add: occ_inv_def)
    ultimately have "t = u" using latch_unique u by blast
    with p b(1) show False by simp
  qed
qed

lemma committed_at_commit:
  assumes inv: "occ_inv Ts s" and c: "occ_committed s B" and p: "oc_phase s t = Validating (length (oc_accs s t))"
  shows "occ_committed (occ_commit t s) (occ_effect s (Commits t) B)"
proof -
  let ?s = "occ_commit t s" and ?B = "occ_effect s (Commits t) B"
  have d: "distinct (map oc_row (oc_accs s t))" using inv by (simp add: occ_inv_def accs_ok_def)
  have pend: "pending_write ?s a \<longleftrightarrow> pending_write s a \<or> a \<in> set (oc_accs s t) \<and> oc_type a = WR" for a
  proof -
    have "pending_write ?s a \<longleftrightarrow> (\<exists>u k e. u \<noteq> t \<and> oc_phase s u = Writing k e \<and> a \<in> set (take k (oc_accs s u)) \<and> oc_type a = WR) \<or>
        a \<in> set (oc_accs s t) \<and> oc_type a = WR"
      by (auto simp: pending_write_def occ_commit_def split: if_splits)
    moreover have "pending_write s a \<longleftrightarrow> (\<exists>u k e. u \<noteq> t \<and> oc_phase s u = Writing k e \<and> a \<in> set (take k (oc_accs s u)) \<and> oc_type a = WR)"
    proof -
      have "u \<noteq> t" if "oc_phase s u = Writing k e" for u k e using p that by auto
      then show ?thesis unfolding pending_write_def by blast
    qed
    ultimately show ?thesis by simp
  qed
  have mine: "?B (oc_row a) = oc_local a" if "a \<in> set (oc_accs s t)" "oc_type a = WR" for a
    using find_row [OF d that] by (simp add: occ_effect_def)
  have other: "?B r = B r" if "\<forall>a \<in> set (oc_accs s t). oc_type a = WR \<longrightarrow> oc_row a \<noteq> r" for r
  proof -
    have "List.find (\<lambda>a. oc_type a = WR \<and> oc_row a = r) (oc_accs s t) = None" using that by (auto simp: find_None_iff)
    then show ?thesis by (simp add: occ_effect_def)
  qed
  show ?thesis unfolding occ_committed_def
  proof (intro conjI allI impI)
    fix a assume "pending_write ?s a"
    then show "?B (oc_row a) = oc_local a" unfolding pend
    proof
      assume a: "pending_write s a"
      have "oc_row b \<noteq> oc_row a" if "b \<in> set (oc_accs s t)" for b
        using commit_current(2) [OF inv p that] a by auto
      then have "?B (oc_row a) = B (oc_row a)" by (intro other) blast
      with a c show ?thesis by (simp add: occ_committed_def)
    qed (blast intro: mine)
  next
    fix r assume none: "\<forall>a. pending_write ?s a \<longrightarrow> oc_row a \<noteq> r"
    then have "?B r = B r" unfolding pend by (intro other) blast
    moreover have "B r = oc_data s r" using none c unfolding pend occ_committed_def by blast
    ultimately show "?B r = oc_data ?s r" by (simp add: occ_commit_def)
  qed
qed

lemma committed_return:
  assumes inv: "occ_inv Ts s" and c: "occ_committed s B" and p: "oc_phase s t = Writing (Suc k) e"
    and ret: "occ_return_row t k e s = Some s'"
  shows "occ_committed s' B"
proof -
  let ?a = "oc_accs s t ! k" and ?accs = "oc_accs s t"
  have len: "k < length ?accs" and d: "distinct (map oc_row ?accs)" and l: "latches_ok s"
    using inv p by (auto simp: occ_inv_def accs_ok_def dest: spec [of _ t])
  have take: "set (take (Suc k) ?accs) = insert ?a (set (take k ?accs))"
    using len by (simp add: take_Suc_conv_app_nth)
  have s': "oc_phase s' = (oc_phase s)(t := Writing k e)" "oc_accs s' = oc_accs s"
    "oc_data s' = (if oc_type ?a = WR then (oc_data s)(oc_row ?a := oc_local ?a) else oc_data s)"
    using ret by (auto simp: occ_return_row_def occ_write_def Let_def split: if_splits)
  have old: "pending_write s b" if "pending_write s' b" for b
  proof -
    from that obtain u k' e' where b: "oc_phase s' u = Writing k' e'" "b \<in> set (take k' (oc_accs s u))" "oc_type b = WR"
      by (auto simp: pending_write_def s'(2))
    show ?thesis
    proof (cases "u = t")
      case True
      with b s'(1) have "b \<in> set (take (Suc k) ?accs)" unfolding take by auto
      with p b(3) show ?thesis unfolding pending_write_def by blast
    next
      case False
      with b s'(1) have "oc_phase s u = Writing k' e'" by simp
      with b show ?thesis unfolding pending_write_def by blast
    qed
  qed
  have new: "pending_write s' b \<or> b = ?a \<and> oc_type ?a = WR" if pw: "pending_write s b" for b
  proof -
    from pw obtain u k' e' where b: "oc_phase s u = Writing k' e'" "b \<in> set (take k' (oc_accs s u))" "oc_type b = WR"
      by (auto simp: pending_write_def)
    show ?thesis
    proof (cases "u = t")
      case True
      with b p have "b = ?a \<or> b \<in> set (take k ?accs)" using take by auto
      moreover have "pending_write s' b" if "b \<in> set (take k ?accs)"
        unfolding pending_write_def by (rule exI [of _ t], rule exI [of _ k], rule exI [of _ e]) (use that b(3) s' in simp)
      ultimately show ?thesis using b(3) by blast
    next
      case False
      with b s' have "oc_phase s' u = Writing k' e'" "b \<in> set (take k' (oc_accs s' u))" by simp_all
      with b(3) show ?thesis unfolding pending_write_def by blast
    qed
  qed
  show ?thesis
  proof (cases "oc_type ?a = WR")
    case False
    with old new have "pending_write s' b \<longleftrightarrow> pending_write s b" for b by blast
    with c False s'(3) show ?thesis by (intro occ_committed_same [OF c]) simp_all
  next
    case True
    have "pending_write s ?a" unfolding pending_write_def
      by (rule exI [of _ t], rule exI [of _ "Suc k"], rule exI [of _ e]) (use p True take in simp)
    with c have a: "B (oc_row ?a) = oc_local ?a" by (simp add: occ_committed_def)
    show ?thesis unfolding occ_committed_def
    proof (intro conjI allI impI)
      fix b assume "pending_write s' b"
      with old c show "B (oc_row b) = oc_local b" by (simp add: occ_committed_def)
    next
      fix r assume none: "\<forall>b. pending_write s' b \<longrightarrow> oc_row b \<noteq> r"
      show "B r = oc_data s' r"
      proof (cases "r = oc_row ?a")
        case False
        with none new have "\<forall>b. pending_write s b \<longrightarrow> oc_row b \<noteq> r" by blast
        with c have "B r = oc_data s r" by (simp add: occ_committed_def)
        with False True s'(3) show ?thesis by simp
      qed (use a True s'(3) in simp)
    qed
  qed
qed

section \<open>Waiting for latches\<close>

definition occ_sorted :: "(rid \<Rightarrow> row_key) \<Rightarrow> occ \<Rightarrow> bool" where
  "occ_sorted key s \<longleftrightarrow>
     (\<forall>t i. oc_phase s t = Validating i \<longrightarrow>
        sorted_wrt (\<lambda>a b. key_gt (key (oc_row b)) (key (oc_row a))) (oc_accs s t))"

text \<open>The row whose latch a validating transaction takes next.\<close>

definition occ_want :: "occ \<Rightarrow> tid \<Rightarrow> rid option" where
  "occ_want s t =
     (case oc_phase s t of
        Validating i \<Rightarrow> if i < length (oc_accs s t) then Some (oc_row (oc_accs s t ! i)) else None
      | _ \<Rightarrow> None)"

definition occ_waits_on :: "occ \<Rightarrow> (tid \<times> tid) set" where
  "occ_waits_on s = {(t, u). \<exists>r. occ_want s t = Some r \<and> oc_latch s r = Some u}"

definition occ_waiting :: "occ \<Rightarrow> tid set" where
  "occ_waiting s = {t. \<exists>r. occ_want s t = Some r \<and> oc_latch s r \<noteq> None}"

definition occ_rank :: "(rid \<Rightarrow> row_key) \<Rightarrow> occ \<Rightarrow> tid \<Rightarrow> int" where
  "occ_rank key s t =
     int (if t \<in> occ_waiting s
          then card {w \<in> occ_waiting s. key_gt (key (the (occ_want s t))) (key (the (occ_want s w)))}
          else card (occ_waiting s))"

lemma occ_sorted_step:
  "occ_step key Ts s lab s' \<Longrightarrow> occ_inv Ts s \<Longrightarrow> inj key \<Longrightarrow> occ_sorted key s \<Longrightarrow> occ_sorted key s'"
proof (induction rule: occ_step.induct)
  case (os_sort s t)
  then have "distinct (map oc_row (oc_accs s t))" by (simp add: occ_inv_def accs_ok_def)
  from sort_accesses_rows [OF os_sort.prems(2) this] os_sort show ?case by (auto simp: occ_sorted_def occ_sort_def)
qed (auto simp: occ_sorted_def occ_begin_def occ_get_def occ_update_def occ_latch_row_def occ_commit_def
    occ_return_row_def occ_write_def occ_release_row_def Let_def split: if_splits)

lemma occ_sorted_reach: "occ_reach key Ts data s \<Longrightarrow> inj key \<Longrightarrow> occ_sorted key s"
proof (induction rule: occ_reach.induct)
  case (occ_reach_step s lab s')
  then show ?case using occ_sorted_step occ_inv_reach by blast
qed (simp add: occ_sorted_def occ_init_def)

lemma occ_want_Some:
  "occ_want s t = Some r \<longleftrightarrow>
     (\<exists>i. oc_phase s t = Validating i \<and> i < length (oc_accs s t) \<and> r = oc_row (oc_accs s t ! i))"
  by (auto simp: occ_want_def split: occ_phase.splits)

text \<open>A transaction that waits holds the latches of rows before the one it waits for.\<close>

lemma held_before:
  assumes "occ_inv Ts s" "occ_sorted key s" "occ_want s u = Some y" "oc_latch s x = Some u"
  shows "key_gt (key y) (key x)"
proof -
  from assms(3) obtain i where i: "oc_phase s u = Validating i" "i < length (oc_accs s u)" "y = oc_row (oc_accs s u ! i)"
    by (auto simp: occ_want_Some)
  have "x \<in> oc_row ` set (take i (oc_accs s u))"
    using assms(1,4) i(1) unfolding occ_inv_def latches_ok_def by (metis latched.simps(1))
  then obtain a where a: "a \<in> set (take i (oc_accs s u))" "x = oc_row a" by auto
  then obtain j where j: "j < i" "a = oc_accs s u ! j" using i(2) by (auto simp: in_set_conv_nth)
  have "sorted_wrt (\<lambda>a b. key_gt (key (oc_row b)) (key (oc_row a))) (oc_accs s u)"
    using assms(2) i(1) unfolding occ_sorted_def by blast
  from sorted_wrt_nth_less [OF this j(1) i(2)] show ?thesis by (simp add: a(2) i(3) j(2))
qed

lemma occ_rank_rises:
  assumes fin: "finite (occ_waiting s)" and inv: "occ_inv Ts s" "occ_sorted key s" and e: "(t, u) \<in> occ_waits_on s"
  shows "occ_rank key s t < occ_rank key s u"
proof -
  from e obtain x where x: "occ_want s t = Some x" "oc_latch s x = Some u" by (auto simp: occ_waits_on_def)
  then have t: "t \<in> occ_waiting s" by (auto simp: occ_waiting_def)
  let ?below = "\<lambda>r. {w \<in> occ_waiting s. key_gt (key r) (key (the (occ_want s w)))}"
  have not: "t \<notin> ?below x" using x(1) by simp
  show ?thesis
  proof (cases "u \<in> occ_waiting s")
    case False
    have "?below x \<subset> occ_waiting s" using t not by blast
    then have "card (?below x) < card (occ_waiting s)" by (rule psubset_card_mono [OF fin])
    with t False x(1) show ?thesis by (simp add: occ_rank_def)
  next
    case True
    then obtain y where y: "occ_want s u = Some y" by (auto simp: occ_waiting_def)
    have gt: "key_gt (key y) (key x)" by (rule held_before [OF inv y x(2)])
    have "t \<in> ?below y" using t x(1) gt by simp
    moreover have "?below x \<subseteq> ?below y" using key_gt_trans [OF gt] by blast
    ultimately have "?below x \<subset> ?below y" using not by blast
    then have "card (?below x) < card (?below y)" by (rule psubset_card_mono [rotated]) (use fin in simp)
    with t True x(1) y show ?thesis by (simp add: occ_rank_def)
  qed
qed

interpretation ol: wait_order
  "\<lambda>(key, Ts, s). finite Ts \<and> occ_inv Ts s \<and> occ_sorted key s"
  "\<lambda>(key, Ts, s). occ_rank key s" "\<lambda>(key, Ts, s). occ_waiting s" "\<lambda>(key, Ts, s). occ_waits_on s"
proof unfold_locales
  show fin: "finite ((\<lambda>(key, Ts, s). occ_waiting s) x)"
    if "(\<lambda>(key, Ts, s). finite Ts \<and> occ_inv Ts s \<and> occ_sorted key s) x" for x :: "(rid \<Rightarrow> row_key) \<times> tid set \<times> occ"
  proof (cases x)
    case (fields key Ts s)
    with that have "occ_waiting s \<subseteq> Ts"
      by (auto simp: occ_waiting_def occ_want_Some occ_inv_def accs_ok_def)
    with fields that show ?thesis by (auto intro: finite_subset)
  qed
  show "(\<lambda>(key, Ts, s). occ_rank key s) x t < (\<lambda>(key, Ts, s). occ_rank key s) x u"
    if "(\<lambda>(key, Ts, s). finite Ts \<and> occ_inv Ts s \<and> occ_sorted key s) x"
      "(t, u) \<in> (\<lambda>(key, Ts, s). occ_waits_on s) x" for x :: "(rid \<Rightarrow> row_key) \<times> tid set \<times> occ" and t u
    using fin [OF that(1)] that occ_rank_rises by (cases x) auto
qed (auto simp: occ_waiting_def occ_waits_on_def)

section \<open>Properties\<close>

text \<open>C8: per-row validation serializes the transactions at their commits: \<open>occ_committed s B\<close> says that
  \<open>B\<close> is what the rows hold when the writes of committed transactions are done; every step of every
  interleaving leaves \<open>B\<close> as it is, except a commit, which puts all writes of the transaction into
  it, and at that moment everything the transaction has read is what \<open>B\<close> holds.\<close>

theorem occ_commits_serialize:
  assumes "occ_reach key Ts data s" and "occ_committed s B" and "occ_step key Ts s lab s'"
  shows "occ_committed s' (occ_effect s lab B) \<and>
     (\<forall>t. lab = Commits t \<longrightarrow> (\<forall>a \<in> set (oc_accs s t). oc_read a = B (oc_row a)))"
proof -
  have inv: "occ_inv Ts s" by (rule occ_inv_reach [OF assms(1)])
  note c = assms(2)
  have silent: ?thesis if "lab = Silent" "occ_committed s' B" using that by (simp add: occ_effect_def)
  have move: ?thesis if "lab = Silent" "oc_data s' = oc_data s" "oc_phase s' = (oc_phase s)(t := p)"
      "oc_accs s' = (oc_accs s)(t := as)" "\<forall>k e. p = Writing k e \<longrightarrow> k = 0" "\<forall>k e. oc_phase s t = Writing k e \<longrightarrow> k = 0" for t p as
    by (rule silent [OF that(1) occ_committed_same [OF c that(2) pending_write_move [OF that(3-6)]]])
  from assms(3) show ?thesis
  proof cases
    case (os_begin t)
    then show ?thesis by (intro move [of t Running "[]"]) (simp_all add: occ_begin_def)
  next
    case (os_get t r type)
    then show ?thesis
      by (intro move [of t "oc_phase s' t" "oc_accs s' t"]) (auto simp: occ_get_def fun_upd_idem)
  next
    case (os_update t i d)
    then show ?thesis by (intro move [of t Running "oc_accs s' t"]) (simp_all add: occ_update_def fun_upd_idem)
  next
    case (os_giveup t)
    then show ?thesis by (intro move [of t Idle "oc_accs s t"]) simp_all
  next
    case (os_sort t)
    then show ?thesis by (intro move [of t "Validating 0" "oc_accs s' t"]) (simp_all add: occ_sort_def)
  next
    case (os_latch t i)
    then show ?thesis
      by (intro move [of t "oc_phase s' t" "oc_accs s t"]) (auto simp: occ_latch_row_def Let_def)
  next
    case (os_commit t)
    have "oc_read a = B (oc_row a)" if "a \<in> set (oc_accs s t)" for a
      using commit_current [OF inv os_commit(3) that] c unfolding occ_committed_def by metis
    with committed_at_commit [OF inv c os_commit(3)] os_commit(1,2) show ?thesis by simp
  next
    case (os_return t k e)
    from silent [OF os_return(1) committed_return [OF inv c os_return(2,3)]] show ?thesis .
  next
    case (os_returned t e)
    then show ?thesis
      by (intro move [of t "oc_phase s' t" "oc_accs s t"]) auto
  next
    case (os_release t i cnt)
    then show ?thesis
      by (intro move [of t "oc_phase s' t" "oc_accs s t"]) (auto simp: occ_release_row_def)
  qed
qed

text \<open>With distinct keys no transactions wait for each other's latches: no transaction waits for itself
  through others, and every chain of waiting transactions ends at one that does not wait for
  a latch.\<close>

theorem occ_latches_no_deadlock:
  assumes "occ_reach key Ts data s" and "finite Ts" and "inj key"
  shows "acyclic (occ_waits_on s) \<and>
     (\<forall>t \<in> occ_waiting s. \<exists>u. (t, u) \<in> (occ_waits_on s)\<^sup>+ \<and> u \<notin> occ_waiting s)"
proof -
  have inv: "(\<lambda>(key, Ts, s). finite Ts \<and> occ_inv Ts s \<and> occ_sorted key s) (key, Ts, s)"
    using assms(2) occ_inv_reach [OF assms(1)] occ_sorted_reach [OF assms(1,3)] by simp
  from ol.no_cycle [OF inv] ol.chain_ends [OF inv] show ?thesis by simp
qed

text \<open>Transaction 1 reads and writes row 0, which transaction 2 reads; both validate, and 1 has the latch.\<close>

definition ex_both :: occ where
  "ex_both = occ_sort ex_key 2 (occ_sort ex_key 1 (occ_update 1 0 [5]
     (occ_get 2 RD 0 (occ_get 1 WR 0 (occ_begin 2 (occ_begin 1 (occ_init (\<lambda>_. [0]))))))))"

lemmas occ_eval = ex_both_def occ_sort_def occ_update_def occ_get_def occ_begin_def occ_init_def
  occ_latch_row_def occ_validate_def sort_accesses_def Let_def

lemma ex_both_reach: "occ_reach ex_key {1, 2} (\<lambda>_. [0]) ex_both"
proof -
  let ?s0 = "occ_init (\<lambda>_. [0])" and ?R = "occ_reach ex_key {1, 2} (\<lambda>_. [0])"
  let ?s1 = "occ_begin 1 ?s0" let ?s2 = "occ_begin 2 ?s1" let ?s3 = "occ_get 1 WR 0 ?s2"
  let ?s4 = "occ_get 2 RD 0 ?s3" let ?s5 = "occ_update 1 0 [5] ?s4" let ?s6 = "occ_sort ex_key 1 ?s5"
  have "?R ?s0" by (rule occ_reach_init)
  then have "?R ?s1" by (rule occ_reach_step [OF _ os_begin]) (simp_all add: occ_eval)
  then have "?R ?s2" by (rule occ_reach_step [OF _ os_begin]) (simp_all add: occ_eval)
  then have "?R ?s3" by (rule occ_reach_step [OF _ os_get]) (simp_all add: occ_eval)
  then have "?R ?s4" by (rule occ_reach_step [OF _ os_get]) (simp_all add: occ_eval)
  then have "?R ?s5" by (rule occ_reach_step [OF _ os_update]) (simp_all add: occ_eval)
  then have "?R ?s6" by (rule occ_reach_step [OF _ os_sort]) (simp_all add: occ_eval)
  then have "?R (occ_sort ex_key 2 ?s6)" by (rule occ_reach_step [OF _ os_sort]) (simp_all add: occ_eval)
  then show ?thesis by (simp only: ex_both_def)
qed

lemma ex_latched_reach: "occ_reach ex_key {1, 2} (\<lambda>_. [0]) (occ_latch_row 1 0 ex_both)"
  by (rule occ_reach_step [OF ex_both_reach os_latch]) (simp_all add: occ_eval)

lemma occ_commits_serialize_witness:
  "occ_committed (occ_commit 1 (occ_latch_row 1 0 ex_both))
     (occ_effect (occ_latch_row 1 0 ex_both) (Commits 1) (\<lambda>_. [0])) \<and>
   occ_effect (occ_latch_row 1 0 ex_both) (Commits 1) (\<lambda>_. [0]) 0 = [5]"
proof
  have "occ_step ex_key {1, 2} (occ_latch_row 1 0 ex_both) (Commits 1) (occ_commit 1 (occ_latch_row 1 0 ex_both))"
    by (rule os_commit) (simp add: occ_eval)
  moreover have "occ_committed (occ_latch_row 1 0 ex_both) (\<lambda>_. [0])"
    by (simp add: occ_committed_def pending_write_def occ_eval)
  ultimately show "occ_committed (occ_commit 1 (occ_latch_row 1 0 ex_both))
      (occ_effect (occ_latch_row 1 0 ex_both) (Commits 1) (\<lambda>_. [0]))"
    using occ_commits_serialize [OF ex_latched_reach] by blast
  show "occ_effect (occ_latch_row 1 0 ex_both) (Commits 1) (\<lambda>_. [0]) 0 = [5]"
    by (simp add: occ_effect_def occ_eval)
qed

lemma occ_latches_no_deadlock_witness:
  "acyclic (occ_waits_on (occ_latch_row 1 0 ex_both)) \<and>
   (\<exists>u. (2, u) \<in> (occ_waits_on (occ_latch_row 1 0 ex_both))\<^sup>+ \<and> u \<notin> occ_waiting (occ_latch_row 1 0 ex_both))"
proof -
  have "2 \<in> occ_waiting (occ_latch_row 1 0 ex_both)"
    by (simp add: occ_waiting_def occ_want_def occ_eval)
  moreover have "inj ex_key" by (simp add: inj_on_def ex_key_def)
  ultimately show ?thesis using occ_latches_no_deadlock [OF ex_latched_reach] by blast
qed

end
