(* ===== verification/Vll.thy ===== *)
theory Vll
  imports Db_Base
begin

text \<open>
  Very lightweight locking (\<open>src/DBx1000/code/concurrency_control/row_vll.cpp\<close>, \<open>vll.cpp\<close>): a row counts
  the readers and the writers that have announced themselves; a transaction announces all its
  accesses in one critical section and runs at once when nobody conflicts, and else waits in a queue.
  A failing assertion is \<open>None\<close>.
\<close>

section \<open>Rows\<close>

record Row_vll =
  vr_cs :: nat
  vr_cx :: nat

definition vll_row_init :: Row_vll where
  "vll_row_init = \<lparr>vr_cs = 0, vr_cx = 0\<rparr>"

text \<open>The answer says whether the access is blocked.\<close>

definition insert_access :: "access_t \<Rightarrow> Row_vll \<Rightarrow> bool \<times> Row_vll" where
  "insert_access type rv =
     (if type = RD then (let rv = rv\<lparr>vr_cs := vr_cs rv + 1\<rparr> in (vr_cx rv > 0, rv))
      else (let rv = rv\<lparr>vr_cx := vr_cx rv + 1\<rparr> in (vr_cx rv > 1 \<or> vr_cs rv > 0, rv)))"

definition remove_access :: "access_t \<Rightarrow> Row_vll \<Rightarrow> Row_vll option" where
  "remove_access type rv =
     (if type = RD then (if vr_cs rv > 0 then Some (rv\<lparr>vr_cs := vr_cs rv - 1\<rparr>) else None)
      else (if vr_cx rv > 0 then Some (rv\<lparr>vr_cx := vr_cx rv - 1\<rparr>) else None))"

section \<open>The manager\<close>

datatype vll_type = VLL_Blocked | VLL_Free

record TxnQEntry =
  qe_id :: nat
  qe_txn :: "tid option"

type_synonym vll_accs = "(rid \<times> access_t) list"

text \<open>\<open>vl_in\<close> are the transactions between \<open>beginTxn\<close> and \<open>finishTxn\<close>, with their entries.\<close>

record vll =
  vl_rows :: "rid \<Rightarrow> Row_vll"
  vl_queue :: "TxnQEntry list"
  vl_next :: nat
  vl_type :: "tid \<Rightarrow> vll_type"
  vl_in :: "(tid \<times> nat) list"

definition vll_init :: vll where
  "vll_init = \<lparr>vl_rows = (\<lambda>_. vll_row_init), vl_queue = [], vl_next = 0, vl_type = (\<lambda>_. VLL_Free), vl_in = []\<rparr>"

definition getQEntry :: "nat \<Rightarrow> TxnQEntry" where
  "getQEntry i = \<lparr>qe_id = i, qe_txn = None\<rparr>"

text \<open>The front of the queue in \<open>vllMainLoop\<close>.\<close>

definition front_txn :: "vll \<Rightarrow> tid option" where
  "front_txn s = (case vl_queue s of [] \<Rightarrow> None | e # _ \<Rightarrow> qe_txn e)"

fun announce :: "vll_accs \<Rightarrow> (rid \<Rightarrow> Row_vll) \<Rightarrow> vll_type \<Rightarrow> (rid \<Rightarrow> Row_vll) \<times> vll_type" where
  "announce [] rows type = (rows, type)"
| "announce ((r, ty) # accs) rows type =
     (let (blocked, rv) = insert_access ty (rows r) in
      announce accs (rows(r := rv)) (if blocked then VLL_Blocked else type))"

text \<open>The size of the queue is compared with its limit, but it is never changed and its answer, 3, is
  overwritten.\<close>

definition beginTxn :: "(tid \<Rightarrow> vll_accs) \<Rightarrow> tid \<Rightarrow> vll \<Rightarrow> nat \<times> vll" where
  "beginTxn accs txn s =
     (let (rows, type) = announce (accs txn) (vl_rows s) VLL_Free;
          entry = getQEntry (vl_next s)
      in (if type = VLL_Blocked then 1 else 2,
          s\<lparr>vl_rows := rows, vl_type := (vl_type s)(txn := type), vl_queue := vl_queue s @ [entry],
            vl_next := vl_next s + 1, vl_in := (txn, qe_id entry) # vl_in s\<rparr>))"

fun withdraw :: "vll_accs \<Rightarrow> (rid \<Rightarrow> Row_vll) \<Rightarrow> (rid \<Rightarrow> Row_vll) option" where
  "withdraw [] rows = Some rows"
| "withdraw ((r, ty) # accs) rows =
     (case remove_access ty (rows r) of None \<Rightarrow> None | Some rv \<Rightarrow> withdraw accs (rows(r := rv)))"

definition finishTxn :: "(tid \<Rightarrow> vll_accs) \<Rightarrow> tid \<Rightarrow> vll \<Rightarrow> vll option" where
  "finishTxn accs txn s =
     (case unlink (\<lambda>p. fst p = txn) (vl_in s) of
        None \<Rightarrow> None
      | Some (p, rest) \<Rightarrow>
          map_option (\<lambda>rows. s\<lparr>vl_rows := rows, vl_in := rest,
              vl_queue := filter (\<lambda>e. qe_id e \<noteq> snd p) (vl_queue s)\<rparr>)
            (withdraw (accs txn) (vl_rows s)))"

text \<open>The two branches of \<open>vllMainLoop\<close>: a worker takes over a blocked transaction at the front of the
  queue, or begins its own; a transaction that is free is executed and finished.\<close>

inductive vll_step :: "(tid \<Rightarrow> vll_accs) \<Rightarrow> vll \<Rightarrow> vll \<Rightarrow> bool" for accs :: "tid \<Rightarrow> vll_accs" where
  vll_front: "front_txn s = Some u \<Longrightarrow> vl_type s u = VLL_Blocked \<Longrightarrow>
     vll_step accs s (s\<lparr>vl_type := (vl_type s)(u := VLL_Free)\<rparr>)"
| vll_begin: "\<not> (\<exists>u. front_txn s = Some u \<and> vl_type s u = VLL_Blocked) \<Longrightarrow> t \<notin> fst ` set (vl_in s) \<Longrightarrow>
     beginTxn accs t s = (ok, s') \<Longrightarrow> vll_step accs s s'"
| vll_finish: "t \<in> fst ` set (vl_in s) \<Longrightarrow> vl_type s t = VLL_Free \<Longrightarrow> finishTxn accs t s = Some s' \<Longrightarrow>
     vll_step accs s s'"

abbreviation vll_reach :: "(tid \<Rightarrow> vll_accs) \<Rightarrow> vll \<Rightarrow> bool" where
  "vll_reach accs \<equiv> (vll_step accs)\<^sup>*\<^sup>* vll_init"

section \<open>Counts\<close>

definition readers :: "rid \<Rightarrow> vll_accs \<Rightarrow> nat" where
  "readers r accs = length (filter (\<lambda>(x, ty). x = r \<and> ty = RD) accs)"

definition writers :: "rid \<Rightarrow> vll_accs \<Rightarrow> nat" where
  "writers r accs = length (filter (\<lambda>(x, ty). x = r \<and> ty \<noteq> RD) accs)"

lemma readers_simps [simp]: "readers r [] = 0" "readers r (a # xs) = (if fst a = r \<and> snd a = RD then 1 else 0) + readers r xs"
  "readers r (xs @ ys) = readers r xs + readers r ys"
  by (auto simp: readers_def split: prod.splits)

lemma writers_simps [simp]: "writers r [] = 0" "writers r (a # xs) = (if fst a = r \<and> snd a \<noteq> RD then 1 else 0) + writers r xs"
  "writers r (xs @ ys) = writers r xs + writers r ys"
  by (auto simp: writers_def split: prod.splits)

lemma readers_pos: "(r, RD) \<in> set accs \<Longrightarrow> 0 < readers r accs"
  by (induction accs) auto

lemma writers_pos: "(r, ty) \<in> set accs \<Longrightarrow> ty \<noteq> RD \<Longrightarrow> 0 < writers r accs"
  by (induction accs) auto

text \<open>Announcing adds to the counts; a transaction stays free only when nobody it conflicts with has
  announced.\<close>

lemma announce_spec:
  "announce accs rows type = (rows', type') \<Longrightarrow>
   (\<forall>r. vr_cs (rows' r) = vr_cs (rows r) + readers r accs \<and> vr_cx (rows' r) = vr_cx (rows r) + writers r accs) \<and>
   (type' = VLL_Free \<longrightarrow> type = VLL_Free \<and>
      (\<forall>(r, ty) \<in> set accs. vr_cx (rows r) = 0 \<and> (ty \<noteq> RD \<longrightarrow> vr_cs (rows r) = 0)))"
proof (induction accs arbitrary: rows type)
  case (Cons a accs)
  obtain r ty where a: "a = (r, ty)" by (cases a)
  obtain blocked rv where i: "insert_access ty (rows r) = (blocked, rv)" by force
  have rv: "vr_cs rv = vr_cs (rows r) + (if ty = RD then 1 else 0)" "vr_cx rv = vr_cx (rows r) + (if ty \<noteq> RD then 1 else 0)"
    "\<not> blocked \<longrightarrow> vr_cx (rows r) = 0 \<and> (ty \<noteq> RD \<longrightarrow> vr_cs (rows r) = 0)"
    using i by (auto simp: insert_access_def Let_def split: if_splits)
  from Cons.prems a i have "announce accs (rows(r := rv)) (if blocked then VLL_Blocked else type) = (rows', type')"
    by simp
  from Cons.IH [OF this] rv show ?case unfolding a by (fastforce split: if_splits)
qed simp

lemma withdraw_spec:
  "(\<forall>r. readers r accs \<le> vr_cs (rows r) \<and> writers r accs \<le> vr_cx (rows r)) \<Longrightarrow>
   \<exists>rows'. withdraw accs rows = Some rows' \<and>
     (\<forall>r. vr_cs (rows' r) = vr_cs (rows r) - readers r accs \<and> vr_cx (rows' r) = vr_cx (rows r) - writers r accs)"
proof (induction accs arbitrary: rows)
  case (Cons a accs)
  obtain r ty where a: "a = (r, ty)" by (cases a)
  define rv where "rv = (if ty = RD then (rows r)\<lparr>vr_cs := vr_cs (rows r) - 1\<rparr> else (rows r)\<lparr>vr_cx := vr_cx (rows r) - 1\<rparr>)"
  have pos: "if ty = RD then 0 < vr_cs (rows r) else 0 < vr_cx (rows r)"
    using spec [OF Cons.prems, of r] by (simp add: a split: if_splits)
  then have rem: "remove_access ty (rows r) = Some rv" by (simp add: remove_access_def rv_def)
  have "\<forall>x. readers x accs \<le> vr_cs ((rows(r := rv)) x) \<and> writers x accs \<le> vr_cx ((rows(r := rv)) x)"
  proof
    fix x show "readers x accs \<le> vr_cs ((rows(r := rv)) x) \<and> writers x accs \<le> vr_cx ((rows(r := rv)) x)"
      using spec [OF Cons.prems, of x] by (auto simp: a rv_def split: if_splits)
  qed
  from Cons.IH [OF this] obtain rows' where w: "withdraw accs (rows(r := rv)) = Some rows'"
    "\<forall>x. vr_cs (rows' x) = vr_cs ((rows(r := rv)) x) - readers x accs \<and>
      vr_cx (rows' x) = vr_cx ((rows(r := rv)) x) - writers x accs" by blast
  have "vr_cs (rows' x) = vr_cs (rows x) - readers x (a # accs) \<and> vr_cx (rows' x) = vr_cx (rows x) - writers x (a # accs)" for x
    using spec [OF w(2), of x] by (auto simp: a rv_def)
  with w(1) rem show ?case by (simp add: a)
qed simp

section \<open>The invariant\<close>

abbreviation announced :: "(tid \<Rightarrow> vll_accs) \<Rightarrow> (tid \<times> nat) list \<Rightarrow> vll_accs" where
  "announced accs ins \<equiv> concat (map (\<lambda>p. accs (fst p)) ins)"

text \<open>Two accesses to a row that exclude each other.\<close>

definition vll_conflict :: "vll_accs \<Rightarrow> vll_accs \<Rightarrow> bool" where
  "vll_conflict as bs \<longleftrightarrow> (\<exists>r ty ty'. (r, ty) \<in> set as \<and> (r, ty') \<in> set bs \<and> \<not> (ty = RD \<and> ty' = RD))"

definition vll_inv :: "(tid \<Rightarrow> vll_accs) \<Rightarrow> vll \<Rightarrow> bool" where
  "vll_inv accs s \<longleftrightarrow>
     (\<forall>e \<in> set (vl_queue s). qe_txn e = None) \<and> distinct (map fst (vl_in s)) \<and>
     (\<forall>r. vr_cs (vl_rows s r) = readers r (announced accs (vl_in s)) \<and>
          vr_cx (vl_rows s r) = writers r (announced accs (vl_in s))) \<and>
     (\<forall>t \<in> fst ` set (vl_in s). \<forall>u \<in> fst ` set (vl_in s).
        t \<noteq> u \<and> vl_type s t = VLL_Free \<and> vl_type s u = VLL_Free \<longrightarrow> \<not> vll_conflict (accs t) (accs u))"

lemma vll_inv_init: "vll_inv accs vll_init"
  by (simp add: vll_inv_def vll_init_def vll_row_init_def)

lemma announced_mem: "t \<in> fst ` set ins \<Longrightarrow> a \<in> set (accs t) \<Longrightarrow> a \<in> set (announced accs ins)"
  by auto

lemma vll_conflict_sym: "vll_conflict as bs \<longleftrightarrow> vll_conflict bs as"
  unfolding vll_conflict_def by blast

lemma begin_inv:
  assumes inv: "vll_inv accs s" and t: "t \<notin> fst ` set (vl_in s)" and b: "beginTxn accs t s = (ok, s')"
  shows "vll_inv accs s' \<and> (\<forall>u. u \<noteq> t \<longrightarrow> vl_type s' u = vl_type s u) \<and> set (vl_in s) \<subseteq> set (vl_in s')"
proof -
  obtain rows type where a: "announce (accs t) (vl_rows s) VLL_Free = (rows, type)" by force
  have s': "s' = s\<lparr>vl_rows := rows, vl_type := (vl_type s)(t := type), vl_queue := vl_queue s @ [getQEntry (vl_next s)],
      vl_next := vl_next s + 1, vl_in := (t, vl_next s) # vl_in s\<rparr>"
    using b by (simp add: beginTxn_def a getQEntry_def)
  note spec = announce_spec [OF a]
  have free: "\<not> vll_conflict (accs t) (accs u)" if u: "u \<in> fst ` set (vl_in s)" and "type = VLL_Free" for u
  proof
    assume "vll_conflict (accs t) (accs u)"
    then obtain r ty ty' where c: "(r, ty) \<in> set (accs t)" "(r, ty') \<in> set (accs u)" "\<not> (ty = RD \<and> ty' = RD)"
      by (auto simp: vll_conflict_def)
    from announced_mem [of u "vl_in s" "(r, ty')" accs] u c(2) have m: "(r, ty') \<in> set (announced accs (vl_in s))" by blast
    have z: "vr_cx (vl_rows s r) = 0" "ty \<noteq> RD \<longrightarrow> vr_cs (vl_rows s r) = 0" using spec that(2) c(1) by auto
    have cnt: "vr_cs (vl_rows s r) = readers r (announced accs (vl_in s))" "vr_cx (vl_rows s r) = writers r (announced accs (vl_in s))"
      using inv by (simp_all add: vll_inv_def)
    show False
    proof (cases "ty' = RD")
      case True
      from readers_pos [OF m [unfolded True]] have "0 < vr_cs (vl_rows s r)" using cnt(1) by simp
      with z(2) c(3) True show False by simp
    next
      case False
      with writers_pos [OF m] z(1) cnt(2) show False by simp
    qed
  qed
  have "vll_inv accs s'" unfolding vll_inv_def
  proof (intro conjI)
    show "\<forall>e \<in> set (vl_queue s'). qe_txn e = None" using inv by (auto simp: s' vll_inv_def getQEntry_def)
    show "distinct (map fst (vl_in s'))" using inv t by (auto simp: s' vll_inv_def)
    show "\<forall>r. vr_cs (vl_rows s' r) = readers r (announced accs (vl_in s')) \<and>
        vr_cx (vl_rows s' r) = writers r (announced accs (vl_in s'))"
      using inv spec by (simp add: s' vll_inv_def)
    show "\<forall>x \<in> fst ` set (vl_in s'). \<forall>u \<in> fst ` set (vl_in s').
        x \<noteq> u \<and> vl_type s' x = VLL_Free \<and> vl_type s' u = VLL_Free \<longrightarrow> \<not> vll_conflict (accs x) (accs u)"
    proof (intro ballI impI)
      fix x u assume h: "x \<in> fst ` set (vl_in s')" "u \<in> fst ` set (vl_in s')"
        "x \<noteq> u \<and> vl_type s' x = VLL_Free \<and> vl_type s' u = VLL_Free"
      consider "x = t" | "u = t" | "x \<noteq> t" "u \<noteq> t" by blast
      then show "\<not> vll_conflict (accs x) (accs u)"
      proof cases
        case 1
        with h free [of u] show ?thesis by (auto simp: s')
      next
        case 2
        with h free [of x] show ?thesis using vll_conflict_sym by (auto simp: s')
      next
        case 3
        with h have "x \<in> fst ` set (vl_in s)" "u \<in> fst ` set (vl_in s)" "vl_type s x = VLL_Free" "vl_type s u = VLL_Free"
          by (auto simp: s')
        with inv h(3) show ?thesis unfolding vll_inv_def by blast
      qed
    qed
  qed
  then show ?thesis by (auto simp: s')
qed

lemma finish_ok:
  assumes inv: "vll_inv accs s" and t: "t \<in> fst ` set (vl_in s)"
  shows "\<exists>s'. finishTxn accs t s = Some s' \<and> vll_inv accs s' \<and> vl_type s' = vl_type s \<and>
     fst ` set (vl_in s') = fst ` set (vl_in s) - {t}"
proof -
  from t obtain p rest where u: "unlink (\<lambda>p. fst p = t) (vl_in s) = Some (p, rest)"
    by (cases "unlink (\<lambda>p. fst p = t) (vl_in s)") auto
  obtain us vs where split: "fst p = t" "vl_in s = us @ p # vs" "rest = us @ vs" using unlink_split [OF u] by blast
  have d: "distinct (map fst (vl_in s))" and cnt: "\<forall>r. vr_cs (vl_rows s r) = readers r (announced accs (vl_in s)) \<and>
      vr_cx (vl_rows s r) = writers r (announced accs (vl_in s))" using inv by (simp_all add: vll_inv_def)
  have sum: "readers r (announced accs (vl_in s)) = readers r (accs t) + readers r (announced accs rest)"
    "writers r (announced accs (vl_in s)) = writers r (accs t) + writers r (announced accs rest)" for r
    by (simp_all add: split)
  have "\<forall>r. readers r (accs t) \<le> vr_cs (vl_rows s r) \<and> writers r (accs t) \<le> vr_cx (vl_rows s r)"
    using cnt sum by simp
  from withdraw_spec [OF this] obtain rows where w: "withdraw (accs t) (vl_rows s) = Some rows"
    "\<forall>r. vr_cs (rows r) = vr_cs (vl_rows s r) - readers r (accs t) \<and> vr_cx (rows r) = vr_cx (vl_rows s r) - writers r (accs t)"
    by blast
  let ?s = "s\<lparr>vl_rows := rows, vl_in := rest, vl_queue := filter (\<lambda>e. qe_id e \<noteq> snd p) (vl_queue s)\<rparr>"
  have f: "finishTxn accs t s = Some ?s" by (simp add: finishTxn_def u w(1))
  have rest: "fst ` set rest = fst ` set (vl_in s) - {t}" using d by (auto simp: split)
  have "vll_inv accs ?s" unfolding vll_inv_def
  proof (intro conjI)
    show "\<forall>e \<in> set (vl_queue ?s). qe_txn e = None" using inv by (simp add: vll_inv_def)
    show "distinct (map fst (vl_in ?s))" using d by (simp add: split)
    show "\<forall>r. vr_cs (vl_rows ?s r) = readers r (announced accs (vl_in ?s)) \<and>
        vr_cx (vl_rows ?s r) = writers r (announced accs (vl_in ?s))"
      using w(2) cnt sum by simp
    have in': "fst ` set (vl_in ?s) = fst ` set (vl_in s) - {t}" "vl_type ?s = vl_type s" using rest by simp_all
    show "\<forall>x \<in> fst ` set (vl_in ?s). \<forall>u \<in> fst ` set (vl_in ?s).
        x \<noteq> u \<and> vl_type ?s x = VLL_Free \<and> vl_type ?s u = VLL_Free \<longrightarrow> \<not> vll_conflict (accs x) (accs u)"
      unfolding in' using inv unfolding vll_inv_def by blast
  qed
  with f rest show ?thesis by simp
qed

lemma front_none: "vll_inv accs s \<Longrightarrow> front_txn s = None"
  by (cases "vl_queue s") (auto simp: vll_inv_def front_txn_def)

lemma vll_step_ok:
  assumes "vll_step accs s s'" "vll_inv accs s"
  shows "vll_inv accs s' \<and> (\<forall>t \<in> fst ` set (vl_in s). vl_type s t = VLL_Blocked \<longrightarrow>
     t \<in> fst ` set (vl_in s') \<and> vl_type s' t = VLL_Blocked)"
  using assms
proof cases
  case (vll_front u)
  with front_none [OF assms(2)] show ?thesis by simp
next
  case (vll_begin t ok)
  from begin_inv [OF assms(2) vll_begin(2,3)] vll_begin(2) show ?thesis by force
next
  case (vll_finish t)
  from finish_ok [OF assms(2) vll_finish(1)] vll_finish show ?thesis by auto
qed

lemma vll_inv_reach: "vll_reach accs s \<Longrightarrow> vll_inv accs s"
  by (induction rule: rtranclp_induct) (auto simp: vll_inv_init dest: vll_step_ok)

section \<open>Properties\<close>

text \<open>C38: transactions that run at the same time under VLL never conflict: of two that have begun and are
  free, both only read the rows they share.\<close>

theorem vll_free_compatible:
  assumes "vll_reach accs s" and "t \<in> fst ` set (vl_in s)" and "u \<in> fst ` set (vl_in s)" and "t \<noteq> u"
    and "vl_type s t = VLL_Free" and "vl_type s u = VLL_Free"
    and "(r, ty) \<in> set (accs t)" and "(r, ty') \<in> set (accs u)"
  shows "ty = RD \<and> ty' = RD"
proof -
  have "\<not> vll_conflict (accs t) (accs u)"
    using vll_inv_reach [OF assms(1)] assms(2-6) unfolding vll_inv_def by blast
  with assms(7,8) show ?thesis unfolding vll_conflict_def by blast
qed

text \<open>A transaction that is blocked when it begins is never run: the entry of the queue does not
  name the transaction, so no worker ever takes it over, and in every later state it is still
  blocked and its accesses are still announced.\<close>

theorem vll_blocked_never_runs:
  assumes "vll_reach accs s" and "t \<in> fst ` set (vl_in s)" and "vl_type s t = VLL_Blocked"
    and "(vll_step accs)\<^sup>*\<^sup>* s s'"
  shows "t \<in> fst ` set (vl_in s') \<and> vl_type s' t = VLL_Blocked \<and> front_txn s' = None"
proof -
  from assms(4) have "vll_inv accs s' \<and> t \<in> fst ` set (vl_in s') \<and> vl_type s' t = VLL_Blocked"
  proof (induction rule: rtranclp_induct)
    case base
    with vll_inv_reach [OF assms(1)] assms(2,3) show ?case by blast
  next
    case (step s1 s2)
    with vll_step_ok show ?case by blast
  qed
  with front_none show ?thesis by blast
qed

text \<open>Transactions 1 and 2 write row 0, and 1 and 3 read row 4.\<close>

definition ex_vll_accs :: "tid \<Rightarrow> vll_accs" where
  "ex_vll_accs t = (if t = 1 then [(0, WR), (4, RD)] else if t = 2 then [(0, WR)] else [(4, RD)])"

definition ex_vll :: vll where
  "ex_vll = snd (beginTxn ex_vll_accs 3 (snd (beginTxn ex_vll_accs 2 (snd (beginTxn ex_vll_accs 1 vll_init)))))"

lemmas vll_eval = beginTxn_def insert_access_def getQEntry_def vll_init_def vll_row_init_def ex_vll_accs_def
  front_txn_def Let_def

lemma ex_vll_reach: "vll_reach ex_vll_accs ex_vll"
proof -
  let ?s1 = "snd (beginTxn ex_vll_accs 1 vll_init)" let ?s2 = "snd (beginTxn ex_vll_accs 2 ?s1)"
  have "vll_step ex_vll_accs vll_init ?s1" by (rule vll_begin [OF _ _ prod.collapse [symmetric]]) (simp_all add: vll_eval)
  moreover have "vll_step ex_vll_accs ?s1 ?s2" by (rule vll_begin [OF _ _ prod.collapse [symmetric]]) (simp_all add: vll_eval)
  moreover have "vll_step ex_vll_accs ?s2 ex_vll" unfolding ex_vll_def
    by (rule vll_begin [OF _ _ prod.collapse [symmetric]]) (simp_all add: vll_eval)
  ultimately show ?thesis by (rule converse_rtranclp_into_rtranclp [OF _ converse_rtranclp_into_rtranclp
      [OF _ r_into_rtranclp]])
qed

lemma vll_free_compatible_witness: "RD = RD \<and> RD = RD \<and> vl_type ex_vll 1 = VLL_Free \<and> vl_type ex_vll 3 = VLL_Free"
proof -
  have free: "vl_type ex_vll 1 = VLL_Free" "vl_type ex_vll 3 = VLL_Free"
    and ins: "1 \<in> fst ` set (vl_in ex_vll)" "3 \<in> fst ` set (vl_in ex_vll)"
    and accs: "(4, RD) \<in> set (ex_vll_accs 1)" "(4, RD) \<in> set (ex_vll_accs 3)"
    by (simp_all add: ex_vll_def vll_eval)
  from vll_free_compatible [OF ex_vll_reach ins _ free accs] free show ?thesis by simp
qed

lemma vll_blocked_never_runs_witness:
  "2 \<in> fst ` set (vl_in ex_vll) \<and> vl_type ex_vll 2 = VLL_Blocked \<and> front_txn ex_vll = None"
proof -
  have "2 \<in> fst ` set (vl_in ex_vll)" "vl_type ex_vll 2 = VLL_Blocked" by (simp_all add: ex_vll_def vll_eval)
  from vll_blocked_never_runs [OF ex_vll_reach this rtranclp.rtrancl_refl] show ?thesis .
qed

end
