(* ===== verification/Index_Hash.thy ===== *)
theory Index_Hash
  imports Db_Base
begin

text \<open>
  The hash index of DBx1000 (\<open>src/DBx1000/code/storage/index_hash.cpp\<close>): per partition an array of buckets, a
  bucket is a linked list of nodes with different keys, and a node holds the items of its key, newest first.
  An insertion works under the latch of its bucket and becomes visible with one
  pointer write, so it is one step.  A crash is \<open>None\<close>.
\<close>

section \<open>Buckets\<close>

type_synonym item = nat    \<comment> \<open>\<open>itemid_t*\<close>, every one inserted once\<close>

record BucketNode =
  bn_key :: nat
  bn_items :: "item list"

record BucketHeader =
  bk_nodes :: "BucketNode list"
  bk_node_cnt :: nat
  bk_locked :: bool

definition bucket_init :: BucketHeader where
  "bucket_init = \<lparr>bk_nodes = [], bk_node_cnt = 0, bk_locked = False\<rparr>"

fun insert_node :: "nat \<Rightarrow> item \<Rightarrow> BucketNode list \<Rightarrow> BucketNode list" where
  "insert_node key item [] = [\<lparr>bn_key = key, bn_items = [item]\<rparr>]"
| "insert_node key item (nd # nodes) =
     (if bn_key nd = key then nd\<lparr>bn_items := item # bn_items nd\<rparr> # nodes
      else nd # insert_node key item nodes)"

definition insert_item :: "nat \<Rightarrow> item \<Rightarrow> BucketHeader \<Rightarrow> BucketHeader" where
  "insert_item key item bk = bk\<lparr>bk_nodes := insert_node key item (bk_nodes bk)\<rparr>"

definition read_item :: "nat \<Rightarrow> BucketHeader \<Rightarrow> item list option" where
  "read_item key bk =
     (case dropWhile (\<lambda>nd. bn_key nd \<noteq> key) (bk_nodes bk) of [] \<Rightarrow> None | nd # _ \<Rightarrow> Some (bn_items nd))"

text \<open>The latch is a compare-and-set; getting it waits until it is free.\<close>

definition get_latch :: "BucketHeader \<Rightarrow> BucketHeader option" where
  "get_latch bk = (if bk_locked bk then None else Some (bk\<lparr>bk_locked := True\<rparr>))"

definition release_latch :: "BucketHeader \<Rightarrow> BucketHeader option" where
  "release_latch bk = (if bk_locked bk then Some (bk\<lparr>bk_locked := False\<rparr>) else None)"

section \<open>The index\<close>

record IndexHash =
  ih_part_cnt :: nat
  ih_bucket_cnt :: nat
  ih_bucket_cnt_per_part :: nat
  ih_buckets :: "nat \<Rightarrow> nat \<Rightarrow> BucketHeader"

definition index_init :: "nat \<Rightarrow> nat \<Rightarrow> IndexHash" where
  "index_init g_part_cnt bucket_cnt = \<lparr>ih_part_cnt = g_part_cnt, ih_bucket_cnt = bucket_cnt,
     ih_bucket_cnt_per_part = bucket_cnt div g_part_cnt, ih_buckets = (\<lambda>_ _. bucket_init)\<rparr>"

text \<open>A partition that does not exist, or no bucket at all, is an access out of bounds or a division by 0.\<close>

definition bucket_idx :: "nat \<Rightarrow> nat \<Rightarrow> IndexHash \<Rightarrow> nat option" where
  "bucket_idx key part_id ih =
     (if part_id < ih_part_cnt ih \<and> ih_bucket_cnt_per_part ih \<noteq> 0
      then Some (key mod ih_bucket_cnt_per_part ih) else None)"

definition index_insert :: "nat \<Rightarrow> item \<Rightarrow> nat \<Rightarrow> IndexHash \<Rightarrow> IndexHash option" where
  "index_insert key item part_id ih =
     (case bucket_idx key part_id ih of
        None \<Rightarrow> None
      | Some idx \<Rightarrow>
          (case Option.bind (get_latch (ih_buckets ih part_id idx))
                  (\<lambda>bk. release_latch (insert_item key item bk)) of
             None \<Rightarrow> None
           | Some bk \<Rightarrow> Some (ih\<lparr>ih_buckets :=
               (ih_buckets ih)(part_id := (ih_buckets ih part_id)(idx := bk))\<rparr>)))"

definition index_read :: "nat \<Rightarrow> nat \<Rightarrow> IndexHash \<Rightarrow> item list option" where
  "index_read key part_id ih =
     (case bucket_idx key part_id ih of
        None \<Rightarrow> None | Some idx \<Rightarrow> read_item key (ih_buckets ih part_id idx))"

section \<open>What the index holds\<close>

definition items_of :: "nat \<Rightarrow> BucketNode list \<Rightarrow> item list" where
  "items_of key nodes = (case dropWhile (\<lambda>nd. bn_key nd \<noteq> key) nodes of [] \<Rightarrow> [] | nd # _ \<Rightarrow> bn_items nd)"

definition nodes_ok :: "nat \<Rightarrow> nat \<Rightarrow> BucketNode list \<Rightarrow> bool" where
  "nodes_ok n idx nodes \<longleftrightarrow> distinct (map bn_key nodes) \<and>
     (\<forall>nd \<in> set nodes. bn_key nd mod n = idx \<and> bn_items nd \<noteq> [])"

lemma insert_node_keys: "bn_key ` set (insert_node key item nodes) = insert key (bn_key ` set nodes)"
  by (induction nodes) auto

lemma insert_node_items: "\<forall>nd \<in> set nodes. bn_items nd \<noteq> [] \<Longrightarrow> nd \<in> set (insert_node key item nodes) \<Longrightarrow> bn_items nd \<noteq> []"
  by (induction nodes) (auto split: if_splits)

lemma insert_node_distinct: "distinct (map bn_key nodes) \<Longrightarrow> distinct (map bn_key (insert_node key item nodes))"
proof (induction nodes)
  case (Cons nd nodes)
  then show ?case using insert_node_keys [of key item nodes] by auto
qed simp

lemma insert_node_ok:
  assumes "nodes_ok n idx nodes" "key mod n = idx"
  shows "nodes_ok n idx (insert_node key item nodes)"
proof -
  have "bn_key nd mod n = idx" if "nd \<in> set (insert_node key item nodes)" for nd
  proof -
    from that have "bn_key nd \<in> insert key (bn_key ` set nodes)" using insert_node_keys [of key item nodes] by blast
    with assms show ?thesis by (auto simp: nodes_ok_def)
  qed
  moreover have "bn_items nd \<noteq> []" if "nd \<in> set (insert_node key item nodes)" for nd
    using insert_node_items [OF _ that] assms(1) by (simp add: nodes_ok_def)
  moreover have "distinct (map bn_key (insert_node key item nodes))"
    using assms(1) by (intro insert_node_distinct) (simp add: nodes_ok_def)
  ultimately show ?thesis by (simp add: nodes_ok_def)
qed

lemma items_of_insert:
  "items_of k (insert_node key item nodes) = (if k = key then item # items_of k nodes else items_of k nodes)"
  by (induction nodes) (auto simp: items_of_def)

lemma read_item_items:
  assumes "nodes_ok n idx (bk_nodes bk)"
  shows "read_item key bk = (case items_of key (bk_nodes bk) of [] \<Rightarrow> None | xs \<Rightarrow> Some xs)"
proof (cases "dropWhile (\<lambda>nd. bn_key nd \<noteq> key) (bk_nodes bk)")
  case (Cons nd nds)
  then have "nd \<in> set (bk_nodes bk)" by (metis list.set_intros(1) set_dropWhileD)
  with assms have "bn_items nd \<noteq> []" by (simp add: nodes_ok_def)
  with Cons show ?thesis by (simp add: read_item_def items_of_def split: list.split)
qed (simp add: read_item_def items_of_def del: dropWhile_eq_Nil_conv)

definition index_ok :: "IndexHash \<Rightarrow> bool" where
  "index_ok ih \<longleftrightarrow>
     (\<forall>p idx. nodes_ok (ih_bucket_cnt_per_part ih) idx (bk_nodes (ih_buckets ih p idx)) \<and>
        \<not> bk_locked (ih_buckets ih p idx))"

text \<open>The items under a key of a partition, newest first.\<close>

definition held :: "IndexHash \<Rightarrow> nat \<times> nat \<Rightarrow> item list" where
  "held ih = (\<lambda>(p, key). items_of key (bk_nodes (ih_buckets ih p (key mod ih_bucket_cnt_per_part ih))))"

lemma index_init_ok: "index_ok (index_init pc bc)" "held (index_init pc bc) = (\<lambda>_. [])"
  by (auto simp: index_ok_def index_init_def bucket_init_def nodes_ok_def held_def items_of_def)

lemma index_insert_ok:
  assumes "index_ok ih" "part_id < ih_part_cnt ih" "ih_bucket_cnt_per_part ih \<noteq> 0"
  shows "\<exists>ih'. index_insert key item part_id ih = Some ih' \<and> index_ok ih' \<and>
     ih_part_cnt ih' = ih_part_cnt ih \<and> ih_bucket_cnt_per_part ih' = ih_bucket_cnt_per_part ih \<and>
     held ih' = (held ih)((part_id, key) := item # held ih (part_id, key))"
proof -
  let ?n = "ih_bucket_cnt_per_part ih"
  let ?idx = "key mod ?n" let ?bk = "ih_buckets ih part_id ?idx"
  have free: "\<not> bk_locked ?bk" and ok: "nodes_ok ?n ?idx (bk_nodes ?bk)" using assms(1) by (simp_all add: index_ok_def)
  define bk where "bk = ?bk\<lparr>bk_nodes := insert_node key item (bk_nodes ?bk), bk_locked := False\<rparr>"
  let ?ih = "ih\<lparr>ih_buckets := (ih_buckets ih)(part_id := (ih_buckets ih part_id)(?idx := bk))\<rparr>"
  have "index_insert key item part_id ih = Some ?ih" using assms(2,3) free
    by (simp add: index_insert_def bucket_idx_def get_latch_def release_latch_def insert_item_def bk_def)
  moreover have "index_ok ?ih" using assms(1) insert_node_ok [OF ok] by (auto simp: index_ok_def bk_def)
  moreover have "held ?ih = (held ih)((part_id, key) := item # held ih (part_id, key))"
    by (auto simp: held_def fun_eq_iff bk_def items_of_insert)
  ultimately show ?thesis by (intro exI [of _ ?ih]) simp
qed

text \<open>The items of a list of insertions under one key, newest first.\<close>

definition inserted :: "(nat \<times> item \<times> nat) list \<Rightarrow> nat \<Rightarrow> nat \<Rightarrow> item list" where
  "inserted ops part_id key = rev (map (fst \<circ> snd) (filter (\<lambda>(k, _, p). k = key \<and> p = part_id) ops))"

lemma inserts_run:
  assumes "index_ok ih" "\<forall>(k, i, p) \<in> set ops. p < ih_part_cnt ih" "ih_bucket_cnt_per_part ih \<noteq> 0"
  shows "\<exists>ih'. foldM (\<lambda>(k, i, p). index_insert k i p) ops ih = Some ih' \<and> index_ok ih' \<and>
     ih_part_cnt ih' = ih_part_cnt ih \<and> ih_bucket_cnt_per_part ih' = ih_bucket_cnt_per_part ih \<and>
     (\<forall>p k. held ih' (p, k) = inserted ops p k @ held ih (p, k))"
  using assms
proof (induction ops arbitrary: ih)
  case Nil
  then show ?case by (simp add: inserted_def)
next
  case (Cons op ops)
  obtain k i p where op: "op = (k, i, p)" by (cases op)
  with Cons.prems(2) have "p < ih_part_cnt ih" by simp
  from index_insert_ok [OF Cons.prems(1) this Cons.prems(3), of k i] obtain ih1 where
    s: "index_insert k i p ih = Some ih1" "index_ok ih1" "ih_part_cnt ih1 = ih_part_cnt ih"
    "ih_bucket_cnt_per_part ih1 = ih_bucket_cnt_per_part ih"
    "held ih1 = (held ih)((p, k) := i # held ih (p, k))" by blast
  have "\<forall>(k, i, p) \<in> set ops. p < ih_part_cnt ih1" "ih_bucket_cnt_per_part ih1 \<noteq> 0"
    using Cons.prems(2,3) s(3,4) by auto
  from Cons.IH [OF s(2) this] obtain ih2 where r: "foldM (\<lambda>(k, i, p). index_insert k i p) ops ih1 = Some ih2"
    "index_ok ih2" "ih_part_cnt ih2 = ih_part_cnt ih1" "ih_bucket_cnt_per_part ih2 = ih_bucket_cnt_per_part ih1"
    "\<forall>p k. held ih2 (p, k) = inserted ops p k @ held ih1 (p, k)" by blast
  have "held ih2 (q, x) = inserted (op # ops) q x @ held ih (q, x)" for q x
    using r(5) s(5) by (simp add: inserted_def op)
  with r(1-4) s op show ?case by simp
qed

text \<open>The index is a map from a partition and a key to lists of items: after any insertions into existing
  partitions, a read finds exactly the items inserted under its key in its partition, newest
  first, however the keys collide in the buckets, and it crashes only when there are none.\<close>

theorem hash_index_refines_map:
  assumes "\<forall>(k, i, p) \<in> set ops. p < g_part_cnt" and "part_id < g_part_cnt" and "g_part_cnt \<le> bucket_cnt"
  shows "\<exists>ih. foldM (\<lambda>(k, i, p). index_insert k i p) ops (index_init g_part_cnt bucket_cnt) = Some ih \<and>
     index_read key part_id ih =
       (case inserted ops part_id key of [] \<Rightarrow> None | items \<Rightarrow> Some items)"
proof -
  let ?ih = "index_init g_part_cnt bucket_cnt"
  have "ih_part_cnt ?ih = g_part_cnt" "ih_bucket_cnt_per_part ?ih \<noteq> 0"
    using assms by (auto simp: index_init_def div_eq_0_iff)
  with inserts_run [OF index_init_ok(1), of ops g_part_cnt bucket_cnt] assms(1) obtain ih where
    r: "foldM (\<lambda>(k, i, p). index_insert k i p) ops ?ih = Some ih" "index_ok ih" "ih_part_cnt ih = g_part_cnt"
    "ih_bucket_cnt_per_part ih \<noteq> 0" "held ih (part_id, key) = inserted ops part_id key"
    by (auto simp: index_init_ok(2))
  have "nodes_ok (ih_bucket_cnt_per_part ih) (key mod ih_bucket_cnt_per_part ih)
      (bk_nodes (ih_buckets ih part_id (key mod ih_bucket_cnt_per_part ih)))" using r(2) by (simp add: index_ok_def)
  from read_item_items [OF this, of key] r(3-5) assms(2)
  have "index_read key part_id ih = (case inserted ops part_id key of [] \<Rightarrow> None | items \<Rightarrow> Some items)"
    by (simp add: index_read_def bucket_idx_def held_def)
  with r(1) show ?thesis by blast
qed

lemma hash_index_refines_map_witness:
  "\<exists>ih. foldM (\<lambda>(k, i, p). index_insert k i p) [(3, 10, 0), (7, 11, 0), (3, 12, 0), (3, 13, 1)] (index_init 2 8) = Some ih \<and>
     index_read 3 0 ih = Some [12, 10]"
  using hash_index_refines_map [of "[(3, 10, 0), (7, 11, 0), (3, 12, 0), (3, 13, 1)]" 2 0 8 3] by (simp add: inserted_def)

end
