(* ===== verification/Index_Btree.thy ===== *)
theory Index_Btree
  imports Index_Hash "HOL-Library.Word" "HOL-Library.Monad_Syntax"
begin

text \<open>
  The B+ tree of DBx1000 (\<open>src/DBx1000/code/storage/index_btree.cpp\<close>): nodes on a heap with pointers to their parents,
  an insertion goes down to a leaf and splits full nodes on the way up.  This theory has the operations on the
  heap, for one partition (\<open>PART_CNT\<close> is 1) and with latches switched off (\<open>ENABLE_LATCH\<close> is false).
  A null pointer, a failing assertion, an access out of bounds and a loop that does not end are \<open>None\<close>.
\<close>

section \<open>Nodes\<close>

type_synonym idx_key = "64 word"
type_synonym nid = nat    \<comment> \<open>the address of a node\<close>

text \<open>A cell of \<open>pointers\<close>: a node, or the chain of items of one key, newest first.\<close>

datatype cell = Null | Child nid | Chain "item list"

record bt_node =
  nd_pointers :: "cell list"
  nd_is_leaf :: bool
  nd_keys :: "idx_key list"
  nd_parent :: "nid option"
  nd_num_keys :: nat
  nd_next :: "nid option"

text \<open>\<open>bt_fresh\<close> is the next address that the allocator gives out.\<close>

record index_btree =
  bt_heap :: "nid \<Rightarrow> bt_node option"
  bt_fresh :: nid
  bt_root :: nid
  bt_cur_leaf :: "nat \<Rightarrow> nid option"
  bt_cur_idx :: "nat \<Rightarrow> nat"

definition get_node :: "nid \<Rightarrow> index_btree \<Rightarrow> bt_node option" where
  "get_node a s = bt_heap s a"

definition put_node :: "nid \<Rightarrow> bt_node \<Rightarrow> index_btree \<Rightarrow> index_btree" where
  "put_node a n s = s\<lparr>bt_heap := (bt_heap s)(a \<mapsto> n)\<rparr>"

text \<open>\<open>order\<close> is \<open>BTREE_ORDER\<close>, an argument.  What fresh keys hold is not read.\<close>

definition make_node :: "nat \<Rightarrow> bool \<Rightarrow> index_btree \<Rightarrow> nid \<times> index_btree" where
  "make_node ord leaf s =
     (bt_fresh s,
      (put_node (bt_fresh s) \<lparr>nd_pointers = replicate ord Null, nd_is_leaf = leaf, nd_keys = replicate (ord - 1) 0,
         nd_parent = None, nd_num_keys = 0, nd_next = None\<rparr> s)\<lparr>bt_fresh := bt_fresh s + 1\<rparr>)"

definition make_lf :: "nat \<Rightarrow> index_btree \<Rightarrow> nid \<times> index_btree" where
  "make_lf ord s = make_node ord True s"

definition make_nl :: "nat \<Rightarrow> index_btree \<Rightarrow> nid \<times> index_btree" where
  "make_nl ord s = make_node ord False s"

definition btree_init :: "nat \<Rightarrow> index_btree" where
  "btree_init ord =
     (let (a, s) = make_lf ord \<lparr>bt_heap = Map.empty, bt_fresh = 0, bt_root = 0, bt_cur_leaf = (\<lambda>_. None),
            bt_cur_idx = (\<lambda>_. 0)\<rparr>
      in s\<lparr>bt_root := a\<rparr>)"

definition cut :: "nat \<Rightarrow> nat" where
  "cut n = (if n mod 2 = 0 then n div 2 else n div 2 + 1)"

section \<open>Loops over the arrays of a node\<close>

text \<open>\<open>while (i < n && go(i)) i++\<close>\<close>

function advance :: "(nat \<Rightarrow> bool) \<Rightarrow> nat \<Rightarrow> nat \<Rightarrow> nat" where
  "advance go n i = (if i < n \<and> go i then advance go n (i + 1) else i)"
  by pat_completeness auto

termination by (relation "measure (\<lambda>(go, n, i). n - i)") auto

declare advance.simps [simp del]

definition leaf_has_key :: "bt_node \<Rightarrow> idx_key \<Rightarrow> nat option" where
  "leaf_has_key n key =
     (let i = advance (\<lambda>i. nd_keys n ! i \<noteq> key) (nd_num_keys n) 0 in if i < nd_num_keys n then Some i else None)"

text \<open>\<open>for (i = n; i > ip; i--) xs[i] = xs[i - 1]\<close>\<close>

function shift_cells :: "nat \<Rightarrow> nat \<Rightarrow> 'a list \<Rightarrow> 'a list" where
  "shift_cells ip i xs = (if ip < i then shift_cells ip (i - 1) (xs[i := xs ! (i - 1)]) else xs)"
  by pat_completeness auto

termination by (relation "measure (\<lambda>(ip, i, xs). i)") auto

declare shift_cells.simps [simp del]

text \<open>The loop of \<open>insert_into_parent\<close>, whose counter is an unsigned number of 32 bits: after 0 comes \<open>2^32 - 1\<close>.\<close>

partial_function (option) shift_parent :: "nat \<Rightarrow> nat \<Rightarrow> idx_key list \<Rightarrow> cell list \<Rightarrow> (idx_key list \<times> cell list) option" where
  "shift_parent idx i ks ps =
     (if idx \<le> i
      then (let i1 = (i + 1) mod 2 ^ 32; i2 = (i + 2) mod 2 ^ 32 in
            if i < length ks \<and> i1 < length ks \<and> i1 < length ps \<and> i2 < length ps
            then shift_parent idx (if i = 0 then 2 ^ 32 - 1 else i - 1) (ks[i1 := ks ! i]) (ps[i2 := ps ! i1])
            else None)
      else Some (ks, ps))"

text \<open>\<open>for (i = 0, j = 0; i < n; i++, j++) { if (j == gap) j++; temp[j] = xs[i]; }\<close>\<close>

function spread :: "nat \<Rightarrow> nat \<Rightarrow> 'a list \<Rightarrow> nat \<Rightarrow> nat \<Rightarrow> 'a list \<Rightarrow> 'a list" where
  "spread gap n xs i j temp =
     (if i < n
      then (let j = (if j = gap then j + 1 else j) in spread gap n xs (i + 1) (j + 1) (temp[j := xs ! i]))
      else temp)"
  by pat_completeness auto

termination by (relation "measure (\<lambda>(gap, n, xs, i, j, temp). n - i)") auto

declare spread.simps [simp del]

text \<open>\<open>for (; i < m; i++, j++) ys[j] = xs[i]\<close>\<close>

function copy_cells :: "'a list \<Rightarrow> nat \<Rightarrow> nat \<Rightarrow> nat \<Rightarrow> 'a list \<Rightarrow> 'a list" where
  "copy_cells xs i m j ys = (if i < m then copy_cells xs (i + 1) m (j + 1) (ys[j := xs ! i]) else ys)"
  by pat_completeness auto

termination by (relation "measure (\<lambda>(xs, i, m, j, ys). m - i)") auto

declare copy_cells.simps [simp del]

section \<open>Finding a leaf\<close>

text \<open>\<open>cleanup\<close> releases latches, which do nothing here, on the way up to \<open>last_ex\<close>.\<close>

partial_function (option) cleanup_up :: "nid \<Rightarrow> nid \<Rightarrow> index_btree \<Rightarrow> unit option" where
  "cleanup_up node last_ex s =
     do { n \<leftarrow> get_node node s;
          p \<leftarrow> nd_parent n;
          if p = last_ex then Some () else cleanup_up p last_ex s }"

definition cleanup_latches :: "nid \<Rightarrow> nid option \<Rightarrow> index_btree \<Rightarrow> unit option" where
  "cleanup_latches node last_ex s = (case last_ex of None \<Rightarrow> Some () | Some e \<Rightarrow> cleanup_up node e s)"

definition child_of :: "bt_node \<Rightarrow> nat \<Rightarrow> nid option" where
  "child_of n i =
     (if i < length (nd_pointers n) then (case nd_pointers n ! i of Child a \<Rightarrow> Some a | _ \<Rightarrow> None) else None)"

partial_function (option) find_leaf_loop ::
    "nat \<Rightarrow> bool \<Rightarrow> idx_key \<Rightarrow> nid \<Rightarrow> nid option \<Rightarrow> index_btree \<Rightarrow> (nid \<times> nid option) option" where
  "find_leaf_loop ord ins key c last_ex s =
     do { n \<leftarrow> get_node c s;
          if nd_is_leaf n then Some (c, last_ex)
          else do { child \<leftarrow> child_of n (advance (\<lambda>i. \<not> key < nd_keys n ! i) (nd_num_keys n) 0);
                    m \<leftarrow> get_node child s;
                    if ins
                    then if nd_num_keys m = ord - 1
                         then find_leaf_loop ord ins key child (if last_ex = None then Some c else last_ex) s
                         else do { cleanup_latches c last_ex s; find_leaf_loop ord ins key child None s }
                    else find_leaf_loop ord ins key child last_ex s } }"

definition find_leaf :: "nat \<Rightarrow> bool \<Rightarrow> idx_key \<Rightarrow> index_btree \<Rightarrow> (nid \<times> nid option) option" where
  "find_leaf ord ins key s = find_leaf_loop ord ins key (bt_root s) None s"

section \<open>Insertion\<close>

definition insert_into_leaf :: "nat \<Rightarrow> nid \<Rightarrow> idx_key \<Rightarrow> item \<Rightarrow> index_btree \<Rightarrow> index_btree option" where
  "insert_into_leaf ord leaf key item s =
     do { n \<leftarrow> get_node leaf s;
          case leaf_has_key n key of
            Some idx \<Rightarrow>
              (case nd_pointers n ! idx of
                 Chain items \<Rightarrow> Some (put_node leaf (n\<lparr>nd_pointers := (nd_pointers n)[idx := Chain (item # items)]\<rparr>) s)
               | _ \<Rightarrow> None)
          | None \<Rightarrow>
              (let ip = advance (\<lambda>i. nd_keys n ! i < key) (nd_num_keys n) 0; k = nd_num_keys n in
               if k < length (nd_keys n) \<and> k < length (nd_pointers n) \<and> k + 1 < ord
               then Some (put_node leaf (n\<lparr>nd_keys := (shift_cells ip k (nd_keys n))[ip := key],
                      nd_pointers := (shift_cells ip k (nd_pointers n))[ip := Chain [item]], nd_num_keys := k + 1\<rparr>) s)
               else None) }"

definition insert_into_new_root :: "nat \<Rightarrow> nid \<Rightarrow> idx_key \<Rightarrow> nid \<Rightarrow> index_btree \<Rightarrow> index_btree option" where
  "insert_into_new_root ord left key right s =
     (let (root, s) = make_nl ord s in
      do { r \<leftarrow> get_node root s;
           let s = put_node root (r\<lparr>nd_keys := (nd_keys r)[0 := key],
                     nd_pointers := (nd_pointers r)[0 := Child left, 1 := Child right],
                     nd_num_keys := nd_num_keys r + 1, nd_parent := None\<rparr>) s;
           l \<leftarrow> get_node left s;
           let s = put_node left (l\<lparr>nd_parent := Some root\<rparr>) s;
           rn \<leftarrow> get_node right s;
           let s = put_node right (rn\<lparr>nd_parent := Some root\<rparr>) s;
           l \<leftarrow> get_node left s;
           let s = put_node left (l\<lparr>nd_next := Some right\<rparr>) s;
           Some (s\<lparr>bt_root := root\<rparr>) })"

text \<open>\<open>for (i = 0; i <= new_node->num_keys; i++) child->parent = new_node\<close>\<close>

primrec reparent :: "nid \<Rightarrow> cell list \<Rightarrow> index_btree \<Rightarrow> index_btree option" where
  "reparent p [] s = Some s"
| "reparent p (c # cs) s =
     (case c of
        Child a \<Rightarrow> do { n \<leftarrow> get_node a s; reparent p cs (put_node a (n\<lparr>nd_parent := Some p\<rparr>) s) }
      | _ \<Rightarrow> None)"

text \<open>\<open>split_nl_insert\<close> up to its last call: the key and the node to insert one level up.\<close>

definition split_nl :: "nat \<Rightarrow> nid \<Rightarrow> nat \<Rightarrow> idx_key \<Rightarrow> nid \<Rightarrow> index_btree \<Rightarrow> (idx_key \<times> nid \<times> index_btree) option" where
  "split_nl ord old left_index key right s =
     (let (new, s) = make_node ord False s in
      do { o_n \<leftarrow> get_node old s;
           n_n \<leftarrow> get_node new s;
           let k = nd_num_keys o_n;
           let temp_pointers = (spread (left_index + 1) (k + 1) (nd_pointers o_n) 0 0 (replicate (ord + 1) Null))
                 [left_index + 1 := Child right];
           let temp_keys = (spread left_index k (nd_keys o_n) 0 0 (replicate ord 0))[left_index := key];
           let m = cut ord;
           if ord \<le> k then None else do {
           let s = put_node old (o_n\<lparr>nd_keys := copy_cells temp_keys 0 (m - 1) 0 (nd_keys o_n),
                     nd_pointers := copy_cells temp_pointers 0 m 0 (nd_pointers o_n),
                     nd_num_keys := m - 1, nd_next := Some new\<rparr>) s;
           let pointers = copy_cells temp_pointers m (ord + 1) 0 (nd_pointers n_n);
           let s = put_node new (n_n\<lparr>nd_keys := copy_cells temp_keys m ord 0 (nd_keys n_n), nd_pointers := pointers,
                     nd_num_keys := ord - m, nd_next := nd_next o_n, nd_parent := nd_parent o_n\<rparr>) s;
           s \<leftarrow> reparent new (take (ord - m + 1) pointers) s;
           Some (temp_keys ! (m - 1), new, s) } })"

text \<open>\<open>insert_into_parent\<close> and \<open>split_nl_insert\<close> call each other.  The test of the loop reads one key past a
  full node before it looks at the bound, which then decides.\<close>

partial_function (option) insert_into_parent ::
    "nat \<Rightarrow> nid \<Rightarrow> idx_key \<Rightarrow> nid \<Rightarrow> index_btree \<Rightarrow> index_btree option" where
  "insert_into_parent ord left key right s =
     do { l \<leftarrow> get_node left s;
          case nd_parent l of
            None \<Rightarrow> insert_into_new_root ord left key right s
          | Some parent \<Rightarrow>
              do { p \<leftarrow> get_node parent s;
                   let idx = advance (\<lambda>i. nd_keys p ! i < key) (nd_num_keys p) 0;
                   if nd_num_keys p < ord - 1
                   then do { (ks, ps) \<leftarrow> shift_parent idx (if nd_num_keys p = 0 then 2 ^ 32 - 1 else nd_num_keys p - 1) (nd_keys p) (nd_pointers p);
                             Some (put_node parent (p\<lparr>nd_keys := ks[idx := key], nd_pointers := ps[idx + 1 := Child right],
                               nd_num_keys := nd_num_keys p + 1\<rparr>) s) }
                   else do { (k', new, s') \<leftarrow> split_nl ord parent idx key right s;
                             insert_into_parent ord parent k' new s' } } }"

definition split_lf_insert :: "nat \<Rightarrow> nid \<Rightarrow> idx_key \<Rightarrow> item \<Rightarrow> index_btree \<Rightarrow> index_btree option" where
  "split_lf_insert ord leaf key item s =
     (let (new, s) = make_lf ord s in
      do { n \<leftarrow> get_node leaf s;
           n_n \<leftarrow> get_node new s;
           let ins = advance (\<lambda>i. nd_keys n ! i < key) (ord - 1) 0;
           let temp_keys = (spread ins (nd_num_keys n) (nd_keys n) 0 0 (replicate ord 0))[ins := key];
           let temp_pointers = (spread ins (nd_num_keys n) (nd_pointers n) 0 0 (replicate ord Null))[ins := Chain [item]];
           let m = cut (ord - 1);
           if nd_num_keys n = ord - 1 \<and> m < ord
           then do {
             let s = put_node leaf (n\<lparr>nd_keys := copy_cells temp_keys 0 m 0 (nd_keys n),
                       nd_pointers := copy_cells (replicate (ord - 1) Null) m (ord - 1) m
                         (copy_cells temp_pointers 0 m 0 (nd_pointers n)),
                       nd_num_keys := m, nd_next := Some new\<rparr>) s;
             let keys = copy_cells temp_keys m ord 0 (nd_keys n_n);
             let s = put_node new (n_n\<lparr>nd_keys := keys,
                       nd_pointers := copy_cells (replicate (ord - 1) Null) (ord - m) (ord - 1) (ord - m)
                         (copy_cells temp_pointers m ord 0 (nd_pointers n_n)),
                       nd_num_keys := ord - m, nd_next := nd_next n, nd_parent := nd_parent n\<rparr>) s;
             insert_into_parent ord leaf (keys ! 0) new s }
           else None })"

text \<open>\<open>ex_list\<close> gets the nodes from the leaf up to \<open>last_ex\<close>; it has room for 100.\<close>

partial_function (option) ex_depth :: "nid \<Rightarrow> nid \<Rightarrow> nat \<Rightarrow> index_btree \<Rightarrow> nat option" where
  "ex_depth node last_ex depth s =
     (if node = last_ex then Some (depth + 1)
      else do { n \<leftarrow> get_node node s;
                p \<leftarrow> nd_parent n;
                if depth + 1 < 100 then ex_depth p last_ex (depth + 1) s else None })"

definition btree_insert :: "nat \<Rightarrow> idx_key \<Rightarrow> item \<Rightarrow> index_btree \<Rightarrow> index_btree option" where
  "btree_insert ord key item s =
     do { (leaf, last_ex) \<leftarrow> find_leaf ord True key s;
          depth \<leftarrow> (case last_ex of None \<Rightarrow> Some 1 | Some e \<Rightarrow> ex_depth leaf e 0 s);
          n \<leftarrow> get_node leaf s;
          if nd_num_keys n < ord - 1 \<or> leaf_has_key n key \<noteq> None
          then insert_into_leaf ord leaf key item s
          else split_lf_insert ord leaf key item s }"

section \<open>Reading\<close>

definition btree_read :: "nat \<Rightarrow> idx_key \<Rightarrow> nat \<Rightarrow> index_btree \<Rightarrow> (item list \<times> index_btree) option" where
  "btree_read ord key thd s =
     do { (leaf, last_ex) \<leftarrow> find_leaf ord False key s;
          n \<leftarrow> get_node leaf s;
          i \<leftarrow> leaf_has_key n key;
          case nd_pointers n ! i of
            Chain items \<Rightarrow> Some (items, s\<lparr>bt_cur_leaf := (bt_cur_leaf s)(thd := Some leaf),
                                          bt_cur_idx := (bt_cur_idx s)(thd := i)\<rparr>)
          | _ \<Rightarrow> None }"

text \<open>The next items after the last ones of a thread; the result \<open>None\<close> inside is the end.\<close>

definition btree_next :: "nat \<Rightarrow> bool \<Rightarrow> index_btree \<Rightarrow> (item list option \<times> index_btree) option" where
  "btree_next thd samekey s =
     do { leaf \<leftarrow> bt_cur_leaf s thd;
          n \<leftarrow> get_node leaf s;
          let idx = bt_cur_idx s thd;
          let cur_key = nd_keys n ! idx;
          let s = s\<lparr>bt_cur_idx := (bt_cur_idx s)(thd := idx + 1)\<rparr>;
          let (leaf', s) = (if nd_num_keys n \<le> idx + 1
                then (nd_next n, s\<lparr>bt_cur_leaf := (bt_cur_leaf s)(thd := nd_next n), bt_cur_idx := (bt_cur_idx s)(thd := 0)\<rparr>)
                else (Some leaf, s));
          case leaf' of
            None \<Rightarrow> Some (None, s)
          | Some l \<Rightarrow>
              do { m \<leftarrow> get_node l s;
                   let i = bt_cur_idx s thd;
                   if \<not> nd_is_leaf m then None
                   else if samekey \<and> nd_keys m ! i \<noteq> cur_key then Some (None, s)
                   else (case nd_pointers m ! i of Chain items \<Rightarrow> Some (Some items, s) | _ \<Rightarrow> None) } }"

end
