(* ===== verification/Btree_Tree.thy ===== *)
theory Btree_Tree
  imports Index_Btree
begin

text \<open>
  The trees that the heap of \<open>Index_Btree\<close> holds, as a datatype whose nodes carry their addresses; paths from a
  node to the root; and the insertion on trees, which the next theory compares with the one on the heap.
\<close>

section \<open>Trees\<close>

type_synonym kvs = "(idx_key \<times> item list) list"

datatype bt = Lf nid kvs | Nd nid "idx_key list" "bt list"

fun root_of :: "bt \<Rightarrow> nid" where
  "root_of (Lf a kvs) = a"
| "root_of (Nd a ks ts) = a"

fun nodes_of :: "bt \<Rightarrow> nid list" where
  "nodes_of (Lf a kvs) = [a]"
| "nodes_of (Nd a ks ts) = a # concat (map nodes_of ts)"

text \<open>The leaves from left to right, with their contents.\<close>

fun leaves_of :: "bt \<Rightarrow> (nid \<times> kvs) list" where
  "leaves_of (Lf a kvs) = [(a, kvs)]"
| "leaves_of (Nd a ks ts) = concat (map leaves_of ts)"

definition bt_entries :: "bt \<Rightarrow> kvs" where
  "bt_entries t = concat (map snd (leaves_of t))"

text \<open>All leaves at the same depth, no leaf but a root is empty, no node has a single child.\<close>

fun balanced :: "nat \<Rightarrow> bt \<Rightarrow> bool" where
  "balanced h (Lf a kvs) \<longleftrightarrow> h = 0"
| "balanced h (Nd a ks ts) \<longleftrightarrow> (\<exists>h'. h = Suc h' \<and> ks \<noteq> [] \<and> length ts = length ks + 1 \<and> (\<forall>t \<in> set ts. balanced h' t))"

definition filled :: "bt \<Rightarrow> bool" where
  "filled t \<longleftrightarrow> (\<forall>(a, kvs) \<in> set (leaves_of t). kvs \<noteq> [])"

section \<open>Order\<close>

text \<open>Keys between a lower bound, inclusive, and an upper bound, exclusive.\<close>

definition below :: "idx_key option \<Rightarrow> idx_key option \<Rightarrow> bool" where
  "below lo hi \<longleftrightarrow> (case (lo, hi) of (Some l, Some h) \<Rightarrow> l < h | _ \<Rightarrow> True)"

definition within :: "idx_key option \<Rightarrow> idx_key option \<Rightarrow> idx_key \<Rightarrow> bool" where
  "within lo hi k \<longleftrightarrow> (case lo of Some l \<Rightarrow> l \<le> k | None \<Rightarrow> True) \<and> below (Some k) hi"

fun bt_ordered :: "idx_key option \<Rightarrow> idx_key option \<Rightarrow> bt \<Rightarrow> bool"
  and ordered_kids :: "idx_key option \<Rightarrow> idx_key list \<Rightarrow> bt list \<Rightarrow> idx_key option \<Rightarrow> bool" where
  "bt_ordered lo hi (Lf a kvs) \<longleftrightarrow> sorted_wrt (<) (map fst kvs) \<and> (\<forall>k \<in> fst ` set kvs. within lo hi k)"
| "bt_ordered lo hi (Nd a ks ts) \<longleftrightarrow> ordered_kids lo ks ts hi"
| "ordered_kids lo [] [t] hi \<longleftrightarrow> below lo hi \<and> bt_ordered lo hi t"
| "ordered_kids lo (k # ks) (t # ts) hi \<longleftrightarrow> below lo (Some k) \<and> bt_ordered lo (Some k) t \<and> ordered_kids (Some k) ks ts hi"
| "ordered_kids lo _ _ hi \<longleftrightarrow> False"

fun last_bound :: "idx_key option \<Rightarrow> idx_key list \<Rightarrow> idx_key option" where
  "last_bound lo [] = lo"
| "last_bound lo (k # ks) = last_bound (Some k) ks"

definition head_bound :: "idx_key list \<Rightarrow> idx_key option \<Rightarrow> idx_key option" where
  "head_bound ks hi = (case ks of [] \<Rightarrow> hi | k # _ \<Rightarrow> Some k)"

fun ordered_pre :: "idx_key option \<Rightarrow> idx_key list \<Rightarrow> bt list \<Rightarrow> bool" where
  "ordered_pre lo [] [] \<longleftrightarrow> True"
| "ordered_pre lo (k # ks) (t # ts) \<longleftrightarrow> below lo (Some k) \<and> bt_ordered lo (Some k) t \<and> ordered_pre (Some k) ks ts"
| "ordered_pre lo _ _ \<longleftrightarrow> False"

definition ordered_post :: "idx_key list \<Rightarrow> bt list \<Rightarrow> idx_key option \<Rightarrow> bool" where
  "ordered_post ks ts hi \<longleftrightarrow> (case ks of [] \<Rightarrow> ts = [] | k # ks' \<Rightarrow> ordered_kids (Some k) ks' ts hi)"

lemma ordered_kids_length: "ordered_kids lo ks ts hi \<Longrightarrow> length ts = length ks + 1"
proof (induction ks arbitrary: lo ts)
  case Nil
  then show ?case by (cases ts rule: ordered_kids.cases [of "(lo, [], ts, hi)" for ts]) (auto elim: ordered_kids.elims)
next
  case (Cons k ks)
  then show ?case by (cases ts) auto
qed

lemma ordered_kids_Nil: "ordered_kids lo [] ts hi \<longleftrightarrow> (\<exists>t. ts = [t] \<and> below lo hi \<and> bt_ordered lo hi t)"
proof (cases ts)
  case (Cons t ts')
  then show ?thesis by (cases ts') auto
qed simp

text \<open>A node cut at one of its children, and at one of its keys.\<close>

lemma ordered_kids_at:
  "length ls = length kl \<Longrightarrow>
   ordered_kids lo (kl @ kr) (ls @ t # rs) hi \<longleftrightarrow>
     ordered_pre lo kl ls \<and> below (last_bound lo kl) (head_bound kr hi) \<and>
     bt_ordered (last_bound lo kl) (head_bound kr hi) t \<and> ordered_post kr rs hi"
proof (induction kl arbitrary: lo ls)
  case Nil
  then show ?case
    by (cases kr; cases rs) (auto simp: head_bound_def ordered_post_def ordered_kids_Nil)
next
  case (Cons k kl)
  then obtain t' ls' where "ls = t' # ls'" by (cases ls) auto
  with Cons show ?case by auto
qed

lemma ordered_kids_key:
  "length ts = length kl + 1 \<Longrightarrow>
   ordered_kids lo (kl @ k # kr) (ts @ us) hi \<longleftrightarrow> ordered_kids lo kl ts (Some k) \<and> ordered_kids (Some k) kr us hi"
proof (induction kl arbitrary: lo ts)
  case Nil
  then obtain t where "ts = [t]" by (cases ts) auto
  then show ?case by auto
next
  case (Cons k' kl)
  then obtain t ts' where "ts = t # ts'" by (cases ts) auto
  with Cons show ?case by auto
qed

lemma below_trans: "below lo (Some k) \<Longrightarrow> below (Some k) hi \<Longrightarrow> below lo hi"
  by (auto simp: below_def split: option.splits)

lemma ordered_pre_below: "ordered_pre lo kl ls \<Longrightarrow> kl \<noteq> [] \<Longrightarrow> \<exists>l. last_bound lo kl = Some l \<and> below lo (Some l)"
proof (induction lo kl ls rule: ordered_pre.induct)
  case (2 lo k ks t ts)
  then show ?case using below_trans by (cases ks) auto
qed auto

text \<open>All keys of an ordered tree lie within its bounds, and its entries are sorted.\<close>

definition keys_of :: "bt list \<Rightarrow> idx_key set" where
  "keys_of ts = fst ` (\<Union>t \<in> set ts. set (bt_entries t))"

lemma keys_of_simps [simp]:
  "keys_of [] = {}" "keys_of (t # ts) = fst ` set (bt_entries t) \<union> keys_of ts" "keys_of (ts @ us) = keys_of ts \<union> keys_of us"
  by (auto simp: keys_of_def)

lemma entries_Lf [simp]: "bt_entries (Lf a kvs) = kvs"
  by (simp add: bt_entries_def)

lemma entries_Nd [simp]: "bt_entries (Nd a ks ts) = concat (map bt_entries ts)"
  by (induction ts) (simp_all add: bt_entries_def)

lemma keys_of_concat: "fst ` set (concat (map bt_entries ts)) = keys_of ts"
  by (auto simp: keys_of_def)

lemma within_weaken_hi: "within lo (Some k) x \<Longrightarrow> below (Some k) hi \<Longrightarrow> within lo hi x"
  by (auto simp: within_def below_def split: option.splits)

lemma within_weaken_lo: "within (Some k) hi x \<Longrightarrow> below lo (Some k) \<Longrightarrow> within lo hi x"
  by (auto simp: within_def below_def split: option.splits)

lemma ordered_kids_below: "ordered_kids lo ks ts hi \<Longrightarrow> below lo hi"
proof (induction ks arbitrary: lo ts)
  case (Cons k ks)
  then obtain t ts' where "ts = t # ts'" by (cases ts) auto
  with Cons show ?case using below_trans by auto
qed (auto simp: ordered_kids_Nil)

lemma ordered_within:
  "bt_ordered lo hi t \<Longrightarrow> k \<in> fst ` set (bt_entries t) \<Longrightarrow> within lo hi k"
  "ordered_kids lo ks ts hi \<Longrightarrow> k \<in> keys_of ts \<Longrightarrow> within lo hi k"
proof (induction lo hi t and lo ks ts hi arbitrary: k and k rule: bt_ordered_ordered_kids.induct)
  case (2 lo hi a ks ts)
  then show ?case by (simp add: keys_of_concat [symmetric])
next
  case (4 lo k' ks t ts hi)
  from 4(3) have o: "below lo (Some k')" "bt_ordered lo (Some k') t" "ordered_kids (Some k') ks ts hi" by simp_all
  from 4(4) consider "k \<in> fst ` set (bt_entries t)" | "k \<in> keys_of ts" by auto
  then show ?case
  proof cases
    case 1
    show ?thesis by (rule within_weaken_hi [OF 4(1) [OF o(2) 1] ordered_kids_below [OF o(3)]])
  next
    case 2
    show ?thesis by (rule within_weaken_lo [OF 4(2) [OF o(3) 2] o(1)])
  qed
qed auto

lemma sorted_wrt_append_keys:
  "sorted_wrt (<) (xs @ ys) \<longleftrightarrow> sorted_wrt (<) xs \<and> sorted_wrt (<) ys \<and> (\<forall>x \<in> set xs. \<forall>y \<in> set ys. x < (y :: idx_key))"
  by (simp add: sorted_wrt_append)

lemma ordered_sorted:
  "bt_ordered lo hi t \<Longrightarrow> sorted_wrt (<) (map fst (bt_entries t))"
  "ordered_kids lo ks ts hi \<Longrightarrow> sorted_wrt (<) (map fst (concat (map bt_entries ts)))"
proof (induction lo hi t and lo ks ts hi rule: bt_ordered_ordered_kids.induct)
  case (4 lo k ks t ts hi)
  have "x < y" if "x \<in> fst ` set (bt_entries t)" "y \<in> fst ` set (concat (map bt_entries ts))" for x y
  proof -
    have "within lo (Some k) x" using ordered_within(1) [of lo "Some k" t x] 4(3) that(1) by simp
    moreover have "within (Some k) hi y"
      using ordered_within(2) [of "Some k" ks ts hi y] 4(3) that(2) by (simp add: keys_of_concat del: set_concat)
    ultimately show ?thesis by (auto simp: within_def below_def split: option.splits)
  qed
  with 4 show ?case by (simp add: sorted_wrt_append_keys)
qed auto

section \<open>Paths\<close>

text \<open>A node on the path: its address, the keys and children left and right of the child taken.\<close>

datatype frame = Frame nid "idx_key list" "bt list" "idx_key list" "bt list"

type_synonym path = "frame list"    \<comment> \<open>from the child up to the root\<close>

fun plug :: "path \<Rightarrow> bt \<Rightarrow> bt" where
  "plug [] t = t"
| "plug (Frame a kl ls kr rs # c) t = plug c (Nd a (kl @ kr) (ls @ t # rs))"

fun shaped :: "path \<Rightarrow> bool" where
  "shaped [] \<longleftrightarrow> True"
| "shaped (Frame a kl ls kr rs # c) \<longleftrightarrow> length ls = length kl \<and> length rs = length kr \<and> shaped c"

fun hole_lo :: "path \<Rightarrow> idx_key option" where
  "hole_lo [] = None"
| "hole_lo (Frame a kl ls kr rs # c) = last_bound (hole_lo c) kl"

fun hole_hi :: "path \<Rightarrow> idx_key option" where
  "hole_hi [] = None"
| "hole_hi (Frame a kl ls kr rs # c) = head_bound kr (hole_hi c)"

fun path_ordered :: "path \<Rightarrow> bool" where
  "path_ordered [] \<longleftrightarrow> True"
| "path_ordered (Frame a kl ls kr rs # c) \<longleftrightarrow> ordered_pre (hole_lo c) kl ls \<and> ordered_post kr rs (hole_hi c) \<and>
     below (last_bound (hole_lo c) kl) (head_bound kr (hole_hi c)) \<and> path_ordered c"

lemma ordered_plug:
  "shaped c \<Longrightarrow> bt_ordered None None (plug c t) \<longleftrightarrow> path_ordered c \<and> bt_ordered (hole_lo c) (hole_hi c) t"
proof (induction c arbitrary: t)
  case (Cons f c)
  obtain a kl ls kr rs where f: "f = Frame a kl ls kr rs" by (cases f)
  with Cons show ?case by (auto simp: ordered_kids_at)
qed simp

lemma path_below: "path_ordered c \<Longrightarrow> below (hole_lo c) (hole_hi c)"
  by (cases c rule: path_ordered.cases) (auto simp: below_def)

fun bal_path :: "nat \<Rightarrow> path \<Rightarrow> bool" where
  "bal_path h [] \<longleftrightarrow> True"
| "bal_path h (Frame a kl ls kr rs # c) \<longleftrightarrow>
     (\<forall>t \<in> set ls \<union> set rs. balanced h t) \<and> kl @ kr \<noteq> [] \<and> bal_path (Suc h) c"

lemma balanced_plug: "shaped c \<Longrightarrow> balanced (h + length c) (plug c t) \<longleftrightarrow> bal_path h c \<and> balanced h t"
proof (induction c arbitrary: h t)
  case (Cons f c)
  obtain a kl ls kr rs where f: "f = Frame a kl ls kr rs" by (cases f)
  from Cons.IH [of "Suc h" "Nd a (kl @ kr) (ls @ t # rs)"] Cons.prems show ?case by (auto simp: f)
qed simp

fun left_leaves :: "path \<Rightarrow> (nid \<times> kvs) list" where
  "left_leaves [] = []"
| "left_leaves (Frame a kl ls kr rs # c) = left_leaves c @ concat (map leaves_of ls)"

fun right_leaves :: "path \<Rightarrow> (nid \<times> kvs) list" where
  "right_leaves [] = []"
| "right_leaves (Frame a kl ls kr rs # c) = concat (map leaves_of rs) @ right_leaves c"

lemma leaves_plug: "leaves_of (plug c t) = left_leaves c @ leaves_of t @ right_leaves c"
  by (induction c t rule: plug.induct) auto

lemma last_bound_append: "last_bound lo (ks @ [k]) = Some k"
  by (induction ks arbitrary: lo) auto

lemma pre_keys: "ordered_pre lo kl ls \<Longrightarrow> k \<in> keys_of ls \<Longrightarrow> below (Some k) (last_bound lo kl) \<and> last_bound lo kl \<noteq> None"
proof (induction lo kl ls rule: ordered_pre.induct)
  case (2 lo k' ks t ts)
  have step: "below (Some x) (last_bound (Some k') ks) \<and> last_bound (Some k') ks \<noteq> None"
    if "below (Some x) (Some k')" "ordered_pre (Some k') ks ts" for x
  proof (cases "ks = []")
    case False
    from ordered_pre_below [OF that(2) False] obtain l
      where "last_bound (Some k') ks = Some l" "below (Some k') (Some l)" by blast
    with that(1) show ?thesis by (auto simp: below_def)
  qed (use that(1) in simp)
  from 2 show ?case using ordered_within(1) [of lo "Some k'" t k] step by (auto simp: within_def)
qed auto

lemma post_keys: "ordered_post kr rs hi \<Longrightarrow> k \<in> keys_of rs \<Longrightarrow> \<exists>h. head_bound kr hi = Some h \<and> h \<le> k"
  using ordered_within(2) by (fastforce simp: ordered_post_def head_bound_def within_def split: list.splits)

text \<open>The keys left of the path are below the lower bound of its end, those right of it not below the upper one.\<close>

lemma left_keys:
  "path_ordered c \<Longrightarrow> k \<in> fst ` set (concat (map snd (left_leaves c))) \<Longrightarrow>
   \<exists>l. hole_lo c = Some l \<and> k < l"
proof (induction c rule: path_ordered.induct)
  case (2 a kl ls kr rs c)
  have left: "fst ` set (concat (map snd (concat (map leaves_of ls)))) = keys_of ls"
    by (induction ls) (auto simp: bt_entries_def image_Un)
  from 2(3) consider "k \<in> fst ` set (concat (map snd (left_leaves c)))" | "k \<in> keys_of ls"
    unfolding left [symmetric] left_leaves.simps map_append concat_append set_append image_Un by (elim UnE)
  then show ?case
  proof cases
    case 1
    with 2 obtain l where l: "hole_lo c = Some l" "k < l" by auto
    show ?thesis
    proof (cases "kl = []")
      case False
      then obtain m where "last_bound (hole_lo c) kl = Some m" "below (hole_lo c) (Some m)"
        using ordered_pre_below [of "hole_lo c" kl ls] 2(2) by auto
      with l show ?thesis by (auto simp: below_def)
    qed (use l in simp)
  next
    case 2
    with pre_keys [of "hole_lo c" kl ls k] \<open>path_ordered (Frame a kl ls kr rs # c)\<close> show ?thesis
      by (auto simp: below_def)
  qed
qed simp

lemma right_keys:
  "path_ordered c \<Longrightarrow> k \<in> fst ` set (concat (map snd (right_leaves c))) \<Longrightarrow>
   \<exists>h. hole_hi c = Some h \<and> h \<le> k"
proof (induction c rule: path_ordered.induct)
  case (2 a kl ls kr rs c)
  have right: "fst ` set (concat (map snd (concat (map leaves_of rs)))) = keys_of rs"
    by (induction rs) (auto simp: bt_entries_def image_Un)
  from 2(3) consider "k \<in> keys_of rs" | "k \<in> fst ` set (concat (map snd (right_leaves c)))"
    unfolding right [symmetric] right_leaves.simps map_append concat_append set_append image_Un by (elim UnE)
  then show ?case
  proof cases
    case 1
    with post_keys 2(2) show ?thesis by auto
  next
    case k: 2
    with 2 obtain h where h: "hole_hi c = Some h" "h \<le> k" by auto
    show ?thesis
    proof (cases kr)
      case (Cons k' kr')
      with 2(2) have "below (Some k') (hole_hi c)" using ordered_kids_below by (auto simp: ordered_post_def)
      with h Cons show ?thesis by (auto simp: head_bound_def below_def)
    qed (use h in \<open>simp add: head_bound_def\<close>)
  qed
qed simp

section \<open>Insertion on trees\<close>

fun ins_kvs :: "idx_key \<Rightarrow> item \<Rightarrow> kvs \<Rightarrow> kvs" where
  "ins_kvs key item [] = [(key, [item])]"
| "ins_kvs key item ((k, items) # kvs) =
     (if k = key then (k, item # items) # kvs
      else if k < key then (k, items) # ins_kvs key item kvs
      else (key, [item]) # (k, items) # kvs)"

text \<open>The way up with a key and a node to the right of it; \<open>f\<close> is the next address.\<close>

fun up :: "nat \<Rightarrow> nid \<Rightarrow> path \<Rightarrow> bt \<Rightarrow> idx_key \<Rightarrow> bt \<Rightarrow> bt option" where
  "up ord f [] l k r = Some (Nd f [k] [l, r])"
| "up ord f (Frame a kl ls kr rs # c) l k r =
     (if length (kl @ kr) < ord - 1
      then if kl = [] then None else Some (plug c (Nd a (kl @ k # kr) (ls @ l # r # rs)))
      else (let ks = kl @ k # kr; ts = ls @ l # r # rs; m = cut ord in
            up ord (f + 1) c (Nd a (take (m - 1) ks) (take m ts)) (ks ! (m - 1)) (Nd f (drop m ks) (drop m ts))))"

definition tree_insert :: "nat \<Rightarrow> nid \<Rightarrow> idx_key \<Rightarrow> item \<Rightarrow> path \<Rightarrow> nid \<Rightarrow> kvs \<Rightarrow> bt option" where
  "tree_insert ord f key item c a kvs =
     (let kvs' = ins_kvs key item kvs; m = cut (ord - 1) in
      if length kvs < ord - 1 \<or> key \<in> fst ` set kvs then Some (plug c (Lf a kvs'))
      else up ord (f + 1) c (Lf a (take m kvs')) (fst (kvs' ! m)) (Lf f (drop m kvs')))"

lemma ins_kvs_keys: "fst ` set (ins_kvs key item kvs) = insert key (fst ` set kvs)"
  by (induction key item kvs rule: ins_kvs.induct) auto

lemma ins_kvs_sorted: "sorted_wrt (<) (map fst kvs) \<Longrightarrow> sorted_wrt (<) (map fst (ins_kvs key item kvs))"
proof (induction key item kvs rule: ins_kvs.induct)
  case (2 key item k items kvs)
  have "\<forall>x \<in> fst ` set (ins_kvs key item kvs). k < x" if "k < key"
    unfolding ins_kvs_keys using 2(2) that by auto
  with 2 show ?case by (auto simp: not_less order.strict_iff_order intro: order.trans)
qed simp

lemma ins_kvs_length:
  "length (ins_kvs key item kvs) = (if key \<in> fst ` set kvs then length kvs else length kvs + 1)" if "sorted_wrt (<) (map fst kvs)"
  using that by (induction key item kvs rule: ins_kvs.induct) auto

lemma ins_kvs_left: "\<forall>k \<in> fst ` set L. k < key \<Longrightarrow> ins_kvs key item (L @ kvs) = L @ ins_kvs key item kvs"
  by (induction L) auto

lemma ins_kvs_right: "\<forall>k \<in> fst ` set R. key < k \<Longrightarrow> ins_kvs key item (kvs @ R) = ins_kvs key item kvs @ R"
proof (induction key item kvs rule: ins_kvs.induct)
  case (1 key item)
  then show ?case by (cases R) auto
qed auto

text \<open>The entries of the tree get the item at its place.\<close>

definition path_entries :: "path \<Rightarrow> kvs \<Rightarrow> kvs" where
  "path_entries c kvs = concat (map snd (left_leaves c)) @ kvs @ concat (map snd (right_leaves c))"

lemma entries_plug: "bt_entries (plug c t) = path_entries c (bt_entries t)"
  by (simp add: bt_entries_def leaves_plug path_entries_def)

lemma ins_kvs_path:
  assumes "path_ordered c" "within (hole_lo c) (hole_hi c) key"
  shows "ins_kvs key item (path_entries c kvs) = path_entries c (ins_kvs key item kvs)"
proof -
  have "\<forall>k \<in> fst ` set (concat (map snd (left_leaves c))). k < key"
    using left_keys [OF assms(1)] assms(2) by (fastforce simp: within_def)
  moreover have "\<forall>k \<in> fst ` set (concat (map snd (right_leaves c))). key < k"
    using right_keys [OF assms(1)] assms(2) by (fastforce simp: within_def below_def)
  ultimately show ?thesis unfolding path_entries_def by (simp only: ins_kvs_left ins_kvs_right)
qed

lemma cut_bounds: "2 \<le> n \<Longrightarrow> 1 \<le> cut n \<and> cut n < n"
  unfolding cut_def by presburger

lemma up_leaves:
  assumes "2 \<le> ord"
  shows "up ord f c l k r = Some t \<Longrightarrow> leaves_of t = left_leaves c @ leaves_of l @ leaves_of r @ right_leaves c"
proof (induction ord f c l k r arbitrary: t rule: up.induct)
  case (2 ord f a kl ls kr rs c l k r)
  show ?case
  proof (cases "length (kl @ kr) < ord - 1")
    case True
    with 2(2) show ?thesis by (auto simp: leaves_plug split: if_splits)
  next
    case False
    let ?ts = "ls @ l # r # rs"
    have "concat (map leaves_of (take (cut ord) ?ts)) @ concat (map leaves_of (drop (cut ord) ?ts)) =
        concat (map leaves_of ?ts)"
      unfolding concat_append [symmetric] map_append [symmetric] append_take_drop_id ..
    with 2(1) [OF False refl refl refl] 2(2) False show ?thesis by (simp add: Let_def)
  qed
qed simp

text \<open>A node with one more key and child, and its two halves.\<close>

lemma kids_with:
  assumes "length ls = length kl" "length rs = length kr" "path_ordered (Frame a kl ls kr rs # c)"
    "bt_ordered (hole_lo (Frame a kl ls kr rs # c)) (Some k) l" "bt_ordered (Some k) (hole_hi (Frame a kl ls kr rs # c)) r"
    "below (hole_lo (Frame a kl ls kr rs # c)) (Some k)" "below (Some k) (hole_hi (Frame a kl ls kr rs # c))"
  shows "ordered_kids (hole_lo c) (kl @ k # kr) (ls @ l # r # rs) (hole_hi c)"
proof -
  have "ordered_kids (Some k) kr (r # rs) (hole_hi c)"
    using assms by (cases kr; cases rs) (auto simp: ordered_post_def head_bound_def)
  with ordered_kids_at [OF assms(1), of "hole_lo c" "k # kr" l "r # rs" "hole_hi c"] assms(3,4,6) show ?thesis
    by (simp add: head_bound_def ordered_post_def)
qed

lemma kids_halves:
  assumes "ordered_kids lo ks ts hi" "2 \<le> ord" "ord \<le> length ks" "m = cut ord"
  shows "ordered_kids lo (take (m - 1) ks) (take m ts) (Some (ks ! (m - 1)))"
    "ordered_kids (Some (ks ! (m - 1))) (drop m ks) (drop m ts) hi"
proof -
  have m: "1 \<le> m" "m < ord" using cut_bounds [OF assms(2)] assms(4) by simp_all
  have split: "ks = take (m - 1) ks @ ks ! (m - 1) # drop m ks"
    using id_take_nth_drop [of "m - 1" ks] m assms(3) by simp
  have lt: "length (take m ts) = length (take (m - 1) ks) + 1"
    using m assms(3) ordered_kids_length [OF assms(1)] by simp
  have "ordered_kids lo (take (m - 1) ks @ ks ! (m - 1) # drop m ks) (take m ts @ drop m ts) hi"
    unfolding append_take_drop_id split [symmetric] by (rule assms(1))
  then show "ordered_kids lo (take (m - 1) ks) (take m ts) (Some (ks ! (m - 1)))"
    "ordered_kids (Some (ks ! (m - 1))) (drop m ks) (drop m ts) hi"
    unfolding ordered_kids_key [OF lt] by blast+
qed

lemma ordered_kids_sorted:
  "ordered_kids lo ks ts hi \<Longrightarrow> sorted_wrt (<) ks \<and> (\<forall>k \<in> set ks. below lo (Some k))"
proof (induction ks arbitrary: lo ts)
  case (Cons k ks)
  then obtain t ts' where ts: "ts = t # ts'" by (cases ts) auto
  with Cons.prems have k: "below lo (Some k)" "ordered_kids (Some k) ks ts' hi" by simp_all
  from Cons.IH [OF k(2)] k(1) show ?case using below_trans [OF k(1)] by (auto simp: below_def)
qed simp

lemma up_ordered:
  assumes "2 \<le> ord"
  shows "up ord f c l k r = Some t \<Longrightarrow> shaped c \<Longrightarrow> path_ordered c \<Longrightarrow> bt_ordered (hole_lo c) (Some k) l \<Longrightarrow>
    bt_ordered (Some k) (hole_hi c) r \<Longrightarrow> below (hole_lo c) (Some k) \<Longrightarrow> below (Some k) (hole_hi c) \<Longrightarrow> bt_ordered None None t"
  using assms
proof (induction ord f c l k r arbitrary: t rule: up.induct)
  case (1 ord f l k r)
  then show ?case by (auto simp: below_def)
next
  case (2 ord f a kl ls kr rs c l k r)
  have c: "shaped c" "path_ordered c" using 2(3,4) by simp_all
  let ?ks = "kl @ k # kr" and ?ts = "ls @ l # r # rs" and ?m = "cut ord"
  have kids: "ordered_kids (hole_lo c) ?ks ?ts (hole_hi c)"
    by (rule kids_with [OF _ _ 2(4-8)]) (use 2(3) in simp_all)
  show ?case
  proof (cases "length (kl @ kr) < ord - 1")
    case True
    with 2(2) have "t = plug c (Nd a ?ks ?ts)" by (auto split: if_splits)
    then show ?thesis using ordered_plug [OF c(1)] c(2) kids by simp
  next
    case False
    then have "ord \<le> length ?ks" by simp
    note two = kids_halves [OF kids 2(9) this refl]
    show ?thesis
      by (rule 2(1) [OF False refl refl refl _ c _ _ _ _ 2(9)])
        (use 2(2) False two ordered_kids_below in \<open>auto simp: Let_def\<close>)
  qed
qed

lemma up_balanced:
  assumes "3 \<le> ord"
  shows "up ord f c l k r = Some t \<Longrightarrow> shaped c \<Longrightarrow> bal_path h c \<Longrightarrow> balanced h l \<Longrightarrow> balanced h r \<Longrightarrow> \<exists>h'. balanced h' t"
  using assms
proof (induction ord f c l k r arbitrary: t h rule: up.induct)
  case (1 ord f l k r)
  then show ?case by (intro exI [of _ "Suc h"]) auto
next
  case (2 ord f a kl ls kr rs c l k r)
  let ?ks = "kl @ k # kr" and ?ts = "ls @ l # r # rs" and ?m = "cut ord"
  have len: "length ?ts = length ?ks + 1" and c: "shaped c" and bc: "bal_path (Suc h) c" using 2(3,4) by simp_all
  have all: "\<forall>t \<in> set ?ts. balanced h t" using 2(4-6) by auto
  show ?case
  proof (cases "length (kl @ kr) < ord - 1")
    case True
    with 2(2) have t: "t = plug c (Nd a ?ks ?ts)" by (auto split: if_splits)
    have "balanced (Suc h) (Nd a ?ks ?ts)" using all len by simp
    then show ?thesis using balanced_plug [OF c, of "Suc h"] bc t by blast
  next
    case False
    have m: "2 \<le> ?m" "?m < ord" using 2(7) by (auto simp: cut_def)
    have lk: "ord \<le> length ?ks" using False by simp
    have "\<forall>t \<in> set (take ?m ?ts). balanced h t" "\<forall>t \<in> set (drop ?m ?ts). balanced h t"
      by (meson all in_set_takeD in_set_dropD)+
    moreover have "take (?m - 1) ?ks \<noteq> []" "length (take ?m ?ts) = length (take (?m - 1) ?ks) + 1"
      "drop ?m ?ks \<noteq> []" "length (drop ?m ?ts) = length (drop ?m ?ks) + 1" using m lk len by auto
    ultimately have "balanced (Suc h) (Nd a (take (?m - 1) ?ks) (take ?m ?ts))"
      "balanced (Suc h) (Nd f (drop ?m ?ks) (drop ?m ?ts))" unfolding balanced.simps by blast+
    from 2(1) [OF False refl refl refl _ c bc this 2(7)] 2(2) False show ?thesis by (simp add: Let_def)
  qed
qed

text \<open>A tree of height \<open>h\<close> has at least \<open>2^h\<close> keys, and there are \<open>2^64\<close> keys.\<close>

lemma leaves_count: "balanced h t \<Longrightarrow> 2 ^ h \<le> length (leaves_of t)"
proof (induction t arbitrary: h)
  case (Nd a ks ts)
  then obtain h' where h: "h = Suc h'" "ks \<noteq> []" "length ts = length ks + 1" "\<forall>t \<in> set ts. balanced h' t" by auto
  then obtain t1 t2 ts' where ts: "ts = t1 # t2 # ts'" by (cases ts; cases "tl ts") auto
  have "2 ^ h' \<le> length (leaves_of t1)" "2 ^ h' \<le> length (leaves_of t2)"
    using Nd.IH [of _ h'] h(4) ts by auto
  then show ?case by (simp add: h(1) ts)
qed simp

lemma filled_count: "filled t \<Longrightarrow> length (leaves_of t) \<le> length (bt_entries t)"
proof -
  have "\<forall>(a, kvs) \<in> set xs. kvs \<noteq> [] \<Longrightarrow> length xs \<le> length (concat (map snd xs))" for xs :: "(nid \<times> kvs) list"
    by (induction xs) (auto simp: Suc_le_eq neq_Nil_conv)
  then show "filled t \<Longrightarrow> length (leaves_of t) \<le> length (bt_entries t)" by (simp add: filled_def bt_entries_def)
qed

lemma sorted_keys_distinct: "sorted_wrt (<) (ks :: idx_key list) \<Longrightarrow> distinct ks"
  by (induction ks) auto

lemma height_bound:
  assumes "balanced h t" "filled t" "sorted_wrt (<) (map fst (bt_entries t))"
  shows "h \<le> 64"
proof -
  have "(2 :: nat) ^ h \<le> length (map fst (bt_entries t))"
    using leaves_count [OF assms(1)] filled_count [OF assms(2)] by simp
  also have "\<dots> = card (set (map fst (bt_entries t)))"
    by (rule distinct_card [OF sorted_keys_distinct [OF assms(3)], symmetric])
  also have "\<dots> \<le> card (UNIV :: idx_key set)" by (rule card_mono) simp_all
  also have "\<dots> = 2 ^ 64" by (simp add: card_word)
  finally show ?thesis by (rule power_le_imp_le_exp [rotated]) simp
qed

end
