(* ===== verification/Btree_Heap.thy ===== *)
theory Btree_Heap
  imports Btree_Tree "HOL-Library.Multiset"
begin

text \<open>
  The operations of \<open>Index_Btree\<close> on a heap do what the operations of \<open>Btree_Tree\<close> do to the tree that the heap holds.
\<close>

section \<open>The loops over arrays\<close>

lemma advance_bounds: "i \<le> n \<Longrightarrow> i \<le> advance go n i \<and> advance go n i \<le> n"
proof (induction go n i rule: advance.induct)
  case (1 go n i)
  then show ?case by (subst (1 2) advance.simps) auto
qed

lemma advance_eq: "i \<le> k \<Longrightarrow> k \<le> n \<Longrightarrow> (\<And>j. i \<le> j \<Longrightarrow> j < k \<Longrightarrow> go j) \<Longrightarrow> (k < n \<Longrightarrow> \<not> go k) \<Longrightarrow> advance go n i = k"
proof (induction go n i rule: advance.induct)
  case (1 go n i)
  show ?case
  proof (cases "i < k")
    case True
    with 1 show ?thesis by (subst advance.simps) simp
  next
    case False
    with 1(2,5) have "i = k" "\<not> (i < n \<and> go i)" by auto
    then show ?thesis by (subst advance.simps) auto
  qed
qed

lemma advance_keys:
  assumes "take (length ks) (keys :: idx_key list) = ks" "ks = kl @ kr" "\<forall>x \<in> set kl. P x" "kr \<noteq> [] \<Longrightarrow> \<not> P (hd kr)"
    "length kl + length kr = n"
  shows "advance (\<lambda>i. P (keys ! i)) n 0 = length kl"
proof (rule advance_eq)
  have nth: "keys ! j = ks ! j" if "j < length ks" for j
    using assms(1) that nth_take [of j "length ks" keys] by simp
  show "P (keys ! j)" if "j < length kl" for j
    using nth [of j] that assms(2,3) by (simp add: nth_append)
  show "\<not> P (keys ! length kl)" if "length kl < n"
    using nth [of "length kl"] that assms(2,4,5) by (cases kr) (simp_all add: nth_append)
qed (use assms(5) in simp_all)

lemma length_shift_cells [simp]: "length (shift_cells ip i xs) = length xs"
proof (induction ip i xs rule: shift_cells.induct)
  case (1 ip i xs)
  then show ?case by (subst shift_cells.simps) simp
qed

lemma shift_nth:
  "i < length xs \<Longrightarrow> j < length xs \<Longrightarrow>
   shift_cells ip i xs ! j = (if ip < j \<and> j \<le> i then xs ! (j - 1) else xs ! j)"
proof (induction ip i xs rule: shift_cells.induct)
  case (1 ip i xs)
  show ?case
  proof (cases "ip < i")
    case True
    with 1 show ?thesis by (subst shift_cells.simps) (auto simp: nth_list_update)
  next
    case False
    then show ?thesis by (subst shift_cells.simps) auto
  qed
qed

lemma shift_insert:
  assumes "ip \<le> i" "i < length xs"
  shows "(shift_cells ip i xs)[ip := v] = take ip xs @ v # drop ip (take i xs) @ drop (i + 1) xs"
proof (rule nth_equalityI)
  fix j assume "j < length ((shift_cells ip i xs)[ip := v])"
  then have j: "j < length xs" by simp
  consider "j < ip" | "j = ip" | "ip < j" "j \<le> i" | "i < j" by linarith
  then show "(shift_cells ip i xs)[ip := v] ! j = (take ip xs @ v # drop ip (take i xs) @ drop (i + 1) xs) ! j"
    using assms j by cases (auto simp: nth_append shift_nth nth_Cons' min_def)
qed (use assms in simp)

lemma shift_parent_ok:
  "1 \<le> idx \<Longrightarrow> idx \<le> i + 1 \<Longrightarrow> i + 1 < length ks \<Longrightarrow> i + 2 < length ps \<Longrightarrow> length ps < 2 ^ 32 \<Longrightarrow>
   shift_parent idx i ks ps = Some (shift_cells idx (i + 1) ks, shift_cells (idx + 1) (i + 2) ps)"
proof (induction i arbitrary: ks ps)
  case 0
  then show ?case
    by (subst shift_parent.simps) (subst (1 2) shift_cells.simps, simp)
next
  case (Suc i)
  show ?case
  proof (cases "idx \<le> Suc i")
    case True
    let ?ks = "ks[Suc i + 1 := ks ! Suc i]" and ?ps = "ps[Suc i + 2 := ps ! (Suc i + 1)]"
    have m: "(Suc i + 1) mod 2 ^ 32 = Suc i + 1" "(Suc i + 2) mod 2 ^ 32 = Suc i + 2"
      using Suc.prems by (simp_all del: add_2_eq_Suc')
    have "shift_parent idx (Suc i) ks ps = shift_parent idx i ?ks ?ps"
      by (subst shift_parent.simps, unfold Let_def m) (use True Suc.prems in simp)
    also have "\<dots> = Some (shift_cells idx (i + 1) ?ks, shift_cells (idx + 1) (i + 2) ?ps)"
      by (rule Suc.IH) (use True Suc.prems in simp_all)
    also have "shift_cells idx (i + 1) ?ks = shift_cells idx (Suc i + 1) ks"
      using True by (subst (2) shift_cells.simps) simp
    also have "shift_cells (idx + 1) (i + 2) ?ps = shift_cells (idx + 1) (Suc i + 2) ps"
      using True by (subst (2) shift_cells.simps) simp
    finally show ?thesis .
  next
    case False
    with Suc.prems(2) have "idx = Suc i + 1" by simp
    then show ?thesis by (subst shift_parent.simps) (subst (1 2) shift_cells.simps, simp)
  qed
qed

lemma shift_parent_zero:
  "length ks < 2 ^ 32 \<Longrightarrow> shift_parent 0 i ks ps = None"
proof (induction i arbitrary: ks ps)
  case 0
  have "shift_parent 0 (2 ^ 32 - 1) ks' ps' = None" if "length ks' = length ks" for ks' ps'
    using that 0 by (subst shift_parent.simps) simp
  then show ?case by (subst shift_parent.simps) (simp add: Let_def)
next
  case (Suc i)
  have "shift_parent 0 i ks' ps' = None" if "length ks' = length ks" for ks' ps'
    using that Suc by simp
  then show ?case by (subst shift_parent.simps) (simp add: Let_def)
qed

lemma length_spread [simp]: "length (spread gap n xs i j temp) = length temp"
proof (induction gap n xs i j temp rule: spread.induct)
  case (1 gap n xs i j temp)
  then show ?case by (subst spread.simps) (simp add: Let_def)
qed

lemma spread_nth:
  "p < length temp \<Longrightarrow> j = (if i \<le> gap then i else i + 1) \<Longrightarrow>
   spread gap n xs i j temp ! p =
     (if p < gap \<and> i \<le> p \<and> p < n then xs ! p
      else if gap < p \<and> i < p \<and> p \<le> n then xs ! (p - 1) else temp ! p)"
proof (induction gap n xs i j temp rule: spread.induct)
  case (1 gap n xs i j temp)
  show ?case
  proof (cases "i < n")
    case True
    let ?j = "if j = gap then j + 1 else j"
    have j: "?j = (if i < gap then i else i + 1)" using 1(3) by auto
    have "spread gap n xs (i + 1) (?j + 1) (temp[?j := xs ! i]) ! p =
       (if p < gap \<and> i + 1 \<le> p \<and> p < n then xs ! p
        else if gap < p \<and> i + 1 < p \<and> p \<le> n then xs ! (p - 1) else temp[?j := xs ! i] ! p)"
      by (rule 1(1) [OF True refl]) (use 1(2) j in auto)
    moreover have "spread gap n xs i j temp = spread gap n xs (i + 1) (?j + 1) (temp[?j := xs ! i])"
      using True by (subst spread.simps) (simp add: Let_def)
    ultimately have e: "spread gap n xs i j temp ! p =
       (if p < gap \<and> i + 1 \<le> p \<and> p < n then xs ! p
        else if gap < p \<and> i + 1 < p \<and> p \<le> n then xs ! (p - 1)
        else if p = ?j then xs ! i else temp ! p)"
      using 1(2) by (simp add: nth_list_update)
    show ?thesis
    proof (cases "i < gap")
      case True
      with j \<open>i < n\<close> show ?thesis unfolding e by (cases "p = i") auto
    next
      case False
      with j \<open>i < n\<close> show ?thesis unfolding e by (cases "p = i + 1") auto
    qed
  next
    case False
    then show ?thesis by (subst spread.simps) auto
  qed
qed

lemma spread_insert:
  assumes "gap \<le> n" "n \<le> length xs" "length temp = n + 1"
  shows "(spread gap n xs 0 0 temp)[gap := v] = take gap xs @ v # drop gap (take n xs)"
proof (rule nth_equalityI)
  fix p assume "p < length ((spread gap n xs 0 0 temp)[gap := v])"
  then have p: "p < length temp" by simp
  have s: "spread gap n xs 0 0 temp ! p =
     (if p < gap \<and> p < n then xs ! p else if gap < p \<and> p \<le> n then xs ! (p - 1) else temp ! p)"
    using spread_nth [OF p, of 0 0 gap n xs] by auto
  consider "p < gap" | "p = gap" | "gap < p" by linarith
  then show "(spread gap n xs 0 0 temp)[gap := v] ! p = (take gap xs @ v # drop gap (take n xs)) ! p"
    using assms p by cases (auto simp: nth_append nth_Cons' s)
qed (use assms in simp)

lemma length_copy_cells [simp]: "length (copy_cells xs i m j ys) = length ys"
proof (induction xs i m j ys rule: copy_cells.induct)
  case (1 xs i m j ys)
  then show ?case by (subst copy_cells.simps) simp
qed

lemma copy_nth:
  "p < length ys \<Longrightarrow> copy_cells xs i m j ys ! p = (if j \<le> p \<and> p + i < m + j then xs ! (p + i - j) else ys ! p)"
proof (induction xs i m j ys rule: copy_cells.induct)
  case (1 xs i m j ys)
  show ?case
  proof (cases "i < m")
    case True
    then have "copy_cells xs i m j ys ! p =
        (if j + 1 \<le> p \<and> p + (i + 1) < m + (j + 1) then xs ! (p + (i + 1) - (j + 1)) else ys[j := xs ! i] ! p)"
      using 1 by (subst copy_cells.simps) simp
    with 1(2) have e: "copy_cells xs i m j ys ! p =
        (if j + 1 \<le> p \<and> p + (i + 1) < m + (j + 1) then xs ! (p + i - j) else if p = j then xs ! i else ys ! p)"
      by (simp add: nth_list_update)
    show ?thesis using True unfolding e by (cases "p = j") auto
  next
    case False
    then show ?thesis by (subst copy_cells.simps) auto
  qed
qed

lemma copy_take:
  assumes "m \<le> length xs" "m - i \<le> length ys"
  shows "take (m - i) (copy_cells xs i m 0 ys) = drop i (take m xs)"
  using assms by (intro nth_equalityI) (auto simp: copy_nth add.commute)

lemma copy_beyond: "take j (copy_cells xs i m j ys) = take j ys"
  by (intro nth_equalityI) (auto simp: copy_nth)

section \<open>What the heap holds\<close>

definition leaf_cell :: "nat \<Rightarrow> nid option \<Rightarrow> kvs \<Rightarrow> bt_node \<Rightarrow> bool" where
  "leaf_cell ord par kvs n \<longleftrightarrow> nd_is_leaf n \<and> nd_parent n = par \<and> nd_num_keys n = length kvs \<and>
     length kvs \<le> ord - 1 \<and> length (nd_keys n) = ord - 1 \<and> length (nd_pointers n) = ord \<and>
     take (length kvs) (nd_keys n) = map fst kvs \<and> take (length kvs) (nd_pointers n) = map (\<lambda>kv. Chain (snd kv)) kvs"

definition inner_cell :: "nat \<Rightarrow> nid option \<Rightarrow> idx_key list \<Rightarrow> nid list \<Rightarrow> bt_node \<Rightarrow> bool" where
  "inner_cell ord par ks rs n \<longleftrightarrow> \<not> nd_is_leaf n \<and> nd_parent n = par \<and> nd_num_keys n = length ks \<and>
     length ks \<le> ord - 1 \<and> length rs = length ks + 1 \<and> length (nd_keys n) = ord - 1 \<and> length (nd_pointers n) = ord \<and>
     take (length ks) (nd_keys n) = ks \<and> take (length ks + 1) (nd_pointers n) = map Child rs"

type_synonym bt_cells = "nid \<Rightarrow> bt_node option"

fun holds :: "nat \<Rightarrow> bt_cells \<Rightarrow> nid option \<Rightarrow> bt \<Rightarrow> bool" where
  "holds ord h par (Lf a kvs) \<longleftrightarrow> (\<exists>n. h a = Some n \<and> leaf_cell ord par kvs n)"
| "holds ord h par (Nd a ks ts) \<longleftrightarrow> (\<exists>n. h a = Some n \<and> inner_cell ord par ks (map root_of ts) n) \<and>
     (\<forall>t \<in> set ts. holds ord h (Some a) t)"

fun parent_of :: "path \<Rightarrow> nid option" where
  "parent_of [] = None"
| "parent_of (Frame a kl ls kr rs # c) = Some a"

fun path_holds :: "nat \<Rightarrow> bt_cells \<Rightarrow> path \<Rightarrow> nid \<Rightarrow> bool" where
  "path_holds ord h [] r \<longleftrightarrow> True"
| "path_holds ord h (Frame a kl ls kr rs # c) r \<longleftrightarrow>
     (\<exists>n. h a = Some n \<and> inner_cell ord (parent_of c) (kl @ kr) (map root_of ls @ r # map root_of rs) n) \<and>
     (\<forall>t \<in> set (ls @ rs). holds ord h (Some a) t) \<and> path_holds ord h c a"

fun path_nodes :: "path \<Rightarrow> nid list" where
  "path_nodes [] = []"
| "path_nodes (Frame a kl ls kr rs # c) = a # concat (map nodes_of ls) @ concat (map nodes_of rs) @ path_nodes c"

lemma holds_plug: "holds ord h None (plug c t) \<longleftrightarrow> path_holds ord h c (root_of t) \<and> holds ord h (parent_of c) t"
proof (induction c arbitrary: t)
  case (Cons f c)
  obtain a kl ls kr rs where f: "f = Frame a kl ls kr rs" by (cases f)
  with Cons show ?case by auto
qed simp

lemma nodes_plug: "mset (nodes_of (plug c t)) = mset (path_nodes c) + mset (nodes_of t)"
proof (induction c arbitrary: t)
  case (Cons f c)
  obtain a kl ls kr rs where f: "f = Frame a kl ls kr rs" by (cases f)
  with Cons show ?case by simp
qed simp

lemma nodes_plug_set: "set (nodes_of (plug c t)) = set (path_nodes c) \<union> set (nodes_of t)"
  using arg_cong [OF nodes_plug, of set_mset c t] by simp

lemma nodes_plug_distinct: "distinct (nodes_of (plug c t)) \<longleftrightarrow> distinct (path_nodes c @ nodes_of t)"
proof -
  have "mset (nodes_of (plug c t)) = mset (path_nodes c @ nodes_of t)" by (simp add: nodes_plug)
  then show ?thesis by (rule mset_eq_imp_distinct_iff)
qed

lemma root_in_nodes [simp]: "root_of t \<in> set (nodes_of t)"
  by (cases t) simp_all

text \<open>What is stored elsewhere does not matter, nor does \<open>next\<close>.\<close>

definition same_cell :: "bt_node option \<Rightarrow> bt_node option \<Rightarrow> bool" where
  "same_cell x y \<longleftrightarrow> map_option (\<lambda>n. n\<lparr>nd_next := None\<rparr>) x = map_option (\<lambda>n. n\<lparr>nd_next := None\<rparr>) y"

lemma same_cell_refl [simp]: "same_cell x x"
  by (simp add: same_cell_def)

lemma next_irrelevant:
  assumes "n\<lparr>nd_next := None\<rparr> = m\<lparr>nd_next := None\<rparr>"
  shows "leaf_cell ord par kvs n \<longleftrightarrow> leaf_cell ord par kvs m" "inner_cell ord par ks rs n \<longleftrightarrow> inner_cell ord par ks rs m"
proof -
  have "nd_is_leaf n = nd_is_leaf m" "nd_parent n = nd_parent m" "nd_num_keys n = nd_num_keys m" "nd_keys n = nd_keys m"
    "nd_pointers n = nd_pointers m"
    using arg_cong [OF assms, of nd_is_leaf] arg_cong [OF assms, of nd_parent] arg_cong [OF assms, of nd_num_keys]
      arg_cong [OF assms, of nd_keys] arg_cong [OF assms, of nd_pointers] by simp_all
  then show "leaf_cell ord par kvs n \<longleftrightarrow> leaf_cell ord par kvs m" "inner_cell ord par ks rs n \<longleftrightarrow> inner_cell ord par ks rs m"
    by (simp_all add: leaf_cell_def inner_cell_def)
qed

lemma same_cell_cells:
  assumes "same_cell x y"
  shows "(\<exists>n. x = Some n \<and> leaf_cell ord par kvs n) \<longleftrightarrow> (\<exists>n. y = Some n \<and> leaf_cell ord par kvs n)"
    "(\<exists>n. x = Some n \<and> inner_cell ord par ks rs n) \<longleftrightarrow> (\<exists>n. y = Some n \<and> inner_cell ord par ks rs n)"
proof -
  consider "x = None" "y = None" | n m where "x = Some n" "y = Some m" "n\<lparr>nd_next := None\<rparr> = m\<lparr>nd_next := None\<rparr>"
    using assms by (cases x; cases y) (simp_all add: same_cell_def)
  then have "(\<exists>n. x = Some n \<and> leaf_cell ord par kvs n) = (\<exists>n. y = Some n \<and> leaf_cell ord par kvs n) \<and>
      (\<exists>n. x = Some n \<and> inner_cell ord par ks rs n) = (\<exists>n. y = Some n \<and> inner_cell ord par ks rs n)"
  proof cases
    case 2
    from next_irrelevant [OF 2(3)] show ?thesis by (simp add: 2(1,2))
  qed simp
  then show "(\<exists>n. x = Some n \<and> leaf_cell ord par kvs n) \<longleftrightarrow> (\<exists>n. y = Some n \<and> leaf_cell ord par kvs n)"
    "(\<exists>n. x = Some n \<and> inner_cell ord par ks rs n) \<longleftrightarrow> (\<exists>n. y = Some n \<and> inner_cell ord par ks rs n)" by blast+
qed

lemma holds_cong: "\<forall>a \<in> set (nodes_of t). same_cell (h a) (h' a) \<Longrightarrow> holds ord h par t \<longleftrightarrow> holds ord h' par t"
proof (induction t arbitrary: par)
  case (Lf a kvs)
  then show ?case using same_cell_cells(1) by simp
next
  case (Nd a ks ts)
  then have "\<forall>t \<in> set ts. holds ord h (Some a) t \<longleftrightarrow> holds ord h' (Some a) t" by auto
  with Nd.prems same_cell_cells(2) [of "h a" "h' a" ord par ks "map root_of ts"] show ?case by simp
qed

lemma path_holds_cong:
  "\<forall>a \<in> set (path_nodes c). same_cell (h a) (h' a) \<Longrightarrow> path_holds ord h c r \<longleftrightarrow> path_holds ord h' c r"
proof (induction c arbitrary: r)
  case (Cons f c)
  obtain a kl ls kr rs where f: "f = Frame a kl ls kr rs" by (cases f)
  have "\<forall>t \<in> set (ls @ rs). holds ord h (Some a) t \<longleftrightarrow> holds ord h' (Some a) t"
    using Cons.prems by (auto simp: f intro!: holds_cong)
  moreover have "same_cell (h a) (h' a)" "\<forall>a \<in> set (path_nodes c). same_cell (h a) (h' a)"
    using Cons.prems by (auto simp: f)
  moreover note same_cell_cells(2) [OF this(1), of ord "parent_of c" "kl @ kr" "map root_of ls @ r # map root_of rs"]
  ultimately show ?case using Cons.IH [of a] by (simp add: f)
qed simp

lemma holds_reparent:
  assumes "holds ord h par t" "h (root_of t) = Some n" "distinct (nodes_of t)"
  shows "holds ord (h(root_of t \<mapsto> n\<lparr>nd_parent := par', nd_next := nn\<rparr>)) par' t"
proof (cases t)
  case (Lf a kvs)
  with assms show ?thesis by (simp add: leaf_cell_def)
next
  case (Nd a ks ts)
  have "holds ord (h(a \<mapsto> n\<lparr>nd_parent := par', nd_next := nn\<rparr>)) (Some a) t'" if t': "t' \<in> set ts" for t'
  proof -
    have "a \<notin> set (nodes_of t')" using assms(3) t' by (auto simp: Nd)
    then have "holds ord h (Some a) t' \<longleftrightarrow> holds ord (h(a \<mapsto> n\<lparr>nd_parent := par', nd_next := nn\<rparr>)) (Some a) t'"
      by (intro holds_cong) auto
    with assms(1) t' show ?thesis by (simp add: Nd)
  qed
  with assms(1,2) show ?thesis by (simp add: Nd inner_cell_def)
qed

lemma holds_root: "holds ord h par t \<Longrightarrow> \<exists>n. h (root_of t) = Some n \<and> nd_parent n = par"
  by (cases t) (auto simp: leaf_cell_def inner_cell_def)

definition next_of :: "bt_cells \<Rightarrow> nid \<Rightarrow> nid option" where
  "next_of h a = Option.bind (h a) nd_next"

lemma get_node_simps [simp]:
  "get_node a (s\<lparr>bt_heap := h\<rparr>) = h a" "get_node a (s\<lparr>bt_root := r\<rparr>) = get_node a s"
  "get_node a (s\<lparr>bt_fresh := r\<rparr>) = get_node a s"
  "bt_heap (put_node a n s) = (bt_heap s)(a \<mapsto> n)" "bt_fresh (put_node a n s) = bt_fresh s"
  "bt_root (put_node a n s) = bt_root s" "get_node a (put_node b n s) = (if a = b then Some n else get_node a s)"
  by (simp_all add: get_node_def put_node_def)

text \<open>Giving children a new parent.\<close>

lemma reparent_holds:
  "(\<forall>t \<in> set ts. holds ord (bt_heap s) (Some a) t) \<Longrightarrow> distinct (concat (map nodes_of ts)) \<Longrightarrow>
   \<exists>h. reparent p (map (\<lambda>t. Child (root_of t)) ts) s = Some (s\<lparr>bt_heap := h\<rparr>) \<and>
     (\<forall>t \<in> set ts. holds ord h (Some p) t) \<and> (\<forall>b. b \<notin> set (concat (map nodes_of ts)) \<longrightarrow> h b = bt_heap s b) \<and>
     (\<forall>b. next_of h b = next_of (bt_heap s) b)"
proof (induction ts arbitrary: s)
  case Nil
  then show ?case by (intro exI [of _ "bt_heap s"]) simp
next
  case (Cons t ts)
  have dt: "distinct (nodes_of t)" "distinct (concat (map nodes_of ts))"
    and dis: "set (nodes_of t) \<inter> set (concat (map nodes_of ts)) = {}" using Cons.prems(2) by auto
  from Cons.prems(1) have t: "holds ord (bt_heap s) (Some a) t" by simp
  from holds_root [OF this] obtain n where n: "bt_heap s (root_of t) = Some n" by blast
  let ?h = "(bt_heap s)(root_of t \<mapsto> n\<lparr>nd_parent := Some p\<rparr>)"
  let ?s = "put_node (root_of t) (n\<lparr>nd_parent := Some p\<rparr>) s"
  have sh: "?s = s\<lparr>bt_heap := ?h\<rparr>" by (simp add: put_node_def)
  have ht: "holds ord ?h (Some p) t" using holds_reparent [OF t n dt(1), where par' = "Some p" and nn = "nd_next n"] by simp
  have rest: "\<forall>t' \<in> set ts. holds ord (bt_heap ?s) (Some a) t'"
  proof
    fix t' assume t': "t' \<in> set ts"
    moreover have "root_of t \<notin> set (concat (map nodes_of ts))" using dis root_in_nodes [of t] by blast
    ultimately have "root_of t \<notin> set (nodes_of t')" by auto
    then have "holds ord (bt_heap s) (Some a) t' \<longleftrightarrow> holds ord ?h (Some a) t'" by (intro holds_cong) auto
    with Cons.prems(1) \<open>t' \<in> set ts\<close> show "holds ord (bt_heap ?s) (Some a) t'" by simp
  qed
  have hs: "bt_heap ?s = ?h" by simp
  from Cons.IH [OF rest dt(2)] obtain h
    where h: "reparent p (map (\<lambda>t. Child (root_of t)) ts) ?s = Some (?s\<lparr>bt_heap := h\<rparr>)"
      "\<forall>t \<in> set ts. holds ord h (Some p) t" "\<forall>b. b \<notin> set (concat (map nodes_of ts)) \<longrightarrow> h b = ?h b"
      "\<forall>b. next_of h b = next_of ?h b" unfolding hs by (elim exE conjE)
  have "holds ord h (Some p) t"
  proof -
    have "\<forall>b \<in> set (nodes_of t). h b = ?h b" using h(3) dis by blast
    then have "\<forall>b \<in> set (nodes_of t). same_cell (?h b) (h b)" unfolding same_cell_def by metis
    from holds_cong [OF this] ht show ?thesis by blast
  qed
  moreover have "next_of ?h b = next_of (bt_heap s) b" for b using n by (simp add: next_of_def)
  ultimately show ?case using h n by (intro exI [of _ h]) (auto simp: get_node_def sh)
qed

end
