(* ===== verification/Btree_Refine.thy ===== *)
theory Btree_Refine
  imports Btree_Heap
begin

text \<open>
  The way up of an insertion, on the heap and on the tree: a new root, a parent with room, and a parent that splits.
\<close>

section \<open>States\<close>

definition stores :: "nat \<Rightarrow> index_btree \<Rightarrow> bt \<Rightarrow> bool" where
  "stores ord s t \<longleftrightarrow> holds ord (bt_heap s) None t \<and> distinct (nodes_of t) \<and> (\<forall>a \<in> set (nodes_of t). a < bt_fresh s) \<and>
     bt_root s = root_of t"

text \<open>Before \<open>insert_into_parent\<close>: \<open>l\<close> is at the end of the path, \<open>r\<close> is to be put to the right of it.\<close>

definition pending :: "nat \<Rightarrow> index_btree \<Rightarrow> path \<Rightarrow> bt \<Rightarrow> idx_key \<Rightarrow> bt \<Rightarrow> bool" where
  "pending ord s c l k r \<longleftrightarrow>
     path_holds ord (bt_heap s) c (root_of l) \<and> holds ord (bt_heap s) (parent_of c) l \<and>
     holds ord (bt_heap s) (parent_of c) r \<and> distinct (path_nodes c @ nodes_of l @ nodes_of r) \<and>
     (\<forall>a \<in> set (path_nodes c @ nodes_of l @ nodes_of r). a < bt_fresh s) \<and> bt_root s = root_of (plug c l) \<and>
     shaped c \<and> path_ordered c \<and> bt_ordered (hole_lo c) (Some k) l \<and> bt_ordered (Some k) (hole_hi c) r \<and>
     below (hole_lo c) (Some k) \<and> below (Some k) (hole_hi c)"

lemma pendingD:
  assumes "pending ord s c l k r"
  shows "path_holds ord (bt_heap s) c (root_of l)" "holds ord (bt_heap s) (parent_of c) l"
    "holds ord (bt_heap s) (parent_of c) r" "distinct (path_nodes c @ nodes_of l @ nodes_of r)"
    "\<forall>a \<in> set (path_nodes c @ nodes_of l @ nodes_of r). a < bt_fresh s" "bt_root s = root_of (plug c l)"
    "shaped c" "path_ordered c" "bt_ordered (hole_lo c) (Some k) l" "bt_ordered (Some k) (hole_hi c) r"
    "below (hole_lo c) (Some k)" "below (Some k) (hole_hi c)"
  using assms by (simp_all only: pending_def) blast

lemma holds_other:
  "holds ord h par t \<Longrightarrow> \<forall>a \<in> set (nodes_of t). h' a = h a \<Longrightarrow> holds ord h' par t"
  using holds_cong [of t h h' ord par] by (simp add: same_cell_def)

lemma path_holds_other:
  "path_holds ord h c r \<Longrightarrow> \<forall>a \<in> set (path_nodes c). h' a = h a \<Longrightarrow> path_holds ord h' c r"
  using path_holds_cong [of c h h' ord r] by (simp add: same_cell_def)

lemma root_plug: "root_of t = root_of t' \<Longrightarrow> root_of (plug c t) = root_of (plug c t')"
proof (induction c arbitrary: t t')
  case (Cons f c)
  obtain a kl ls kr rs where f: "f = Frame a kl ls kr rs" by (cases f)
  show ?case unfolding f plug.simps by (rule Cons.IH) simp
qed simp

section \<open>A new root\<close>

lemma new_root_refines:
  assumes p: "pending ord s [] l k r" and ord: "3 \<le> ord"
  shows "\<exists>h. insert_into_new_root ord (root_of l) k (root_of r) s =
      Some (s\<lparr>bt_heap := h, bt_fresh := bt_fresh s + 1, bt_root := bt_fresh s\<rparr>) \<and>
    stores ord (s\<lparr>bt_heap := h, bt_fresh := bt_fresh s + 1, bt_root := bt_fresh s\<rparr>) (Nd (bt_fresh s) [k] [l, r]) \<and>
    (\<forall>b. b < bt_fresh s \<longrightarrow> next_of h b = (if b = root_of l then Some (root_of r) else next_of (bt_heap s) b))"
proof -
  let ?f = "bt_fresh s" and ?l = "root_of l" and ?r = "root_of r"
  have hl: "holds ord (bt_heap s) None l" and hr: "holds ord (bt_heap s) None r"
    and dl: "distinct (nodes_of l)" and dr: "distinct (nodes_of r)" and dis: "set (nodes_of l) \<inter> set (nodes_of r) = {}"
    and fr: "\<forall>a \<in> set (nodes_of l) \<union> set (nodes_of r). a < ?f"
    using p by (auto simp: pending_def)
  obtain nl where nl: "bt_heap s ?l = Some nl" using holds_root [OF hl] by blast
  obtain nr where nr: "bt_heap s ?r = Some nr" using holds_root [OF hr] by blast
  have "?l < ?f" "?r < ?f" by (rule bspec [OF fr], simp)+
  moreover have "?l \<noteq> ?r" using dis by (metis disjoint_iff root_in_nodes)
  ultimately have ne: "?l \<noteq> ?r" "?l \<noteq> ?f" "?r \<noteq> ?f" by simp_all
  have out: "?l \<notin> set (nodes_of r)" "?r \<notin> set (nodes_of l)" "?f \<notin> set (nodes_of l)" "?f \<notin> set (nodes_of r)"
    using dis fr by (metis disjoint_iff root_in_nodes, metis disjoint_iff root_in_nodes, auto)
  let ?root = "\<lparr>nd_pointers = (replicate ord Null)[0 := Child ?l, 1 := Child ?r], nd_is_leaf = False,
    nd_keys = (replicate (ord - 1) 0)[0 := k], nd_parent = None, nd_num_keys = 1, nd_next = None\<rparr>"
  define h where "h = (bt_heap s)(?f \<mapsto> ?root, ?l \<mapsto> nl\<lparr>nd_parent := Some ?f, nd_next := Some ?r\<rparr>,
    ?r \<mapsto> nr\<lparr>nd_parent := Some ?f\<rparr>)"
  let ?s = "s\<lparr>bt_heap := h, bt_fresh := ?f + 1, bt_root := ?f\<rparr>"
  have run: "insert_into_new_root ord ?l k ?r s = Some ?s"
    using ne nl nr by (simp add: insert_into_new_root_def make_nl_def make_node_def get_node_def put_node_def h_def fun_upd_twist)
  have "holds ord (h(?l \<mapsto> nl\<lparr>nd_parent := Some ?f, nd_next := Some ?r\<rparr>)) (Some ?f) l"
  proof (rule holds_other [OF holds_reparent [OF hl nl dl, where par' = "Some ?f" and nn = "Some ?r"]])
    show "\<forall>a \<in> set (nodes_of l). (h(?l \<mapsto> nl\<lparr>nd_parent := Some ?f, nd_next := Some ?r\<rparr>)) a =
        ((bt_heap s)(?l \<mapsto> nl\<lparr>nd_parent := Some ?f, nd_next := Some ?r\<rparr>)) a"
      using out by (auto simp: h_def)
  qed
  moreover have "h(?l \<mapsto> nl\<lparr>nd_parent := Some ?f, nd_next := Some ?r\<rparr>) = h"
    using ne by (auto simp: h_def fun_eq_iff)
  ultimately have l: "holds ord h (Some ?f) l" by simp
  have r: "holds ord h (Some ?f) r"
  proof (rule holds_other [OF holds_reparent [OF hr nr dr, where par' = "Some ?f" and nn = "nd_next nr"]])
    show "\<forall>a \<in> set (nodes_of r). h a = ((bt_heap s)(?r \<mapsto> nr\<lparr>nd_parent := Some ?f, nd_next := nd_next nr\<rparr>)) a"
      using out by (auto simp: h_def)
  qed
  obtain m where "ord = 3 + m" using ord le_Suc_ex by blast
  then have "inner_cell ord None [k] [?l, ?r] ?root" by (simp add: inner_cell_def numeral_3_eq_3)
  moreover have "h ?f = Some ?root" using ne by (auto simp: h_def)
  ultimately have "holds ord h None (Nd ?f [k] [l, r])" using l r by simp
  moreover have "distinct (nodes_of (Nd ?f [k] [l, r]))" using dl dr dis out by simp
  moreover have "\<forall>a \<in> set (nodes_of (Nd ?f [k] [l, r])). a < ?f + 1" using fr by (auto intro: less_SucI)
  ultimately have "stores ord ?s (Nd ?f [k] [l, r])" by (simp add: stores_def)
  moreover have "next_of h b = (if b = ?l then Some ?r else next_of (bt_heap s) b)" if "b < ?f" for b
    using that ne nl nr by (auto simp: next_of_def h_def)
  ultimately show ?thesis using run by blast
qed

section \<open>A parent with room\<close>

lemma take_insert:
  assumes "take n xs = A @ B" "length A = i" "length A + length B = n" "n < length xs"
  shows "take (n + 1) ((shift_cells i n xs)[i := v]) = A @ v # B"
proof -
  have A: "take i xs = A" using arg_cong [OF assms(1), of "take i"] assms(2,3) by (simp add: min_def)
  have B: "drop i (take n xs) = B" using assms(1,2) by simp
  have "(shift_cells i n xs)[i := v] = take i xs @ v # drop i (take n xs) @ drop (n + 1) xs"
    by (rule shift_insert) (use assms in simp_all)
  then have e: "(shift_cells i n xs)[i := v] = (A @ v # B) @ drop (n + 1) xs" unfolding A B by simp
  have "n + 1 = length (A @ v # B)" using assms(2,3) by simp
  then show ?thesis unfolding e by (metis append_eq_conv_conj)
qed

text \<open>What the path says about the parent.\<close>

lemma pending_parent:
  assumes "pending ord s (Frame a kl ls kr rs # c) l k r"
  obtains p where "bt_heap s a = Some p"
    "inner_cell ord (parent_of c) (kl @ kr) (map root_of ls @ root_of l # map root_of rs) p"
    "nd_parent (the (bt_heap s (root_of l))) = Some a" "bt_heap s (root_of l) \<noteq> None"
    "advance (\<lambda>i. nd_keys p ! i < k) (nd_num_keys p) 0 = length kl"
    "ordered_kids (hole_lo c) (kl @ k # kr) (ls @ l # r # rs) (hole_hi c)"
proof -
  from assms obtain p where p: "bt_heap s a = Some p"
    "inner_cell ord (parent_of c) (kl @ kr) (map root_of ls @ root_of l # map root_of rs) p"
    by (auto simp: pending_def)
  have "holds ord (bt_heap s) (Some a) l" using assms by (simp add: pending_def)
  from holds_root [OF this] have root: "nd_parent (the (bt_heap s (root_of l))) = Some a" "bt_heap s (root_of l) \<noteq> None"
    by auto
  have kids: "ordered_kids (hole_lo c) (kl @ k # kr) (ls @ l # r # rs) (hole_hi c)"
    by (rule kids_with [OF _ _ pendingD(8-12) [OF assms]]) (use pendingD(7) [OF assms] in simp_all)
  then have "sorted_wrt (<) (kl @ k # kr)" using ordered_kids_sorted by blast
  then have "\<forall>x \<in> set kl. x < k" "kr \<noteq> [] \<Longrightarrow> \<not> hd kr < k"
    by (auto simp: sorted_wrt_append) (metis hd_in_set less_asym)
  then have "advance (\<lambda>i. nd_keys p ! i < k) (nd_num_keys p) 0 = length kl"
    using p(2) by (intro advance_keys [where ks = "kl @ kr" and kr = kr]) (auto simp: inner_cell_def)
  from that [OF p root this kids] show ?thesis .
qed

lemma frame_nodes:
  "mset (path_nodes c @ nodes_of (Nd a ks (ls @ l # r # rs))) =
   mset (path_nodes (Frame a kl ls kr rs # c) @ nodes_of l @ nodes_of r)"
  by simp

lemma room_refines:
  assumes pe: "pending ord s (Frame a kl ls kr rs # c) l k r" and ord: "ord < 2 ^ 32"
    and room: "length (kl @ kr) < ord - 1"
  shows "(kl = [] \<longrightarrow> insert_into_parent ord (root_of l) k (root_of r) s = None) \<and>
    (kl \<noteq> [] \<longrightarrow> (\<exists>h. insert_into_parent ord (root_of l) k (root_of r) s = Some (s\<lparr>bt_heap := h\<rparr>) \<and>
      stores ord (s\<lparr>bt_heap := h\<rparr>) (plug c (Nd a (kl @ k # kr) (ls @ l # r # rs))) \<and>
      (\<forall>b. next_of h b = next_of (bt_heap s) b)))"
proof -
  from pe obtain p where p: "bt_heap s a = Some p"
      "inner_cell ord (parent_of c) (kl @ kr) (map root_of ls @ root_of l # map root_of rs) p"
    and root: "nd_parent (the (bt_heap s (root_of l))) = Some a" "bt_heap s (root_of l) \<noteq> None"
    and idx: "advance (\<lambda>i. nd_keys p ! i < k) (nd_num_keys p) 0 = length kl"
    and kids: "ordered_kids (hole_lo c) (kl @ k # kr) (ls @ l # r # rs) (hole_hi c)"
    by (rule pending_parent)
  from root obtain nl where nl: "bt_heap s (root_of l) = Some nl" "nd_parent nl = Some a" by auto
  let ?n = "length kl + length kr"
  have cell: "nd_num_keys p = ?n" "length (nd_keys p) = ord - 1" "length (nd_pointers p) = ord" "\<not> nd_is_leaf p"
    "nd_parent p = parent_of c" "length ls + length rs = ?n" "take ?n (nd_keys p) = kl @ kr"
    "take (?n + 1) (nd_pointers p) = map Child (map root_of ls @ root_of l # map root_of rs)"
    using p(2) by (auto simp: inner_cell_def)
  have sh: "length ls = length kl" "length rs = length kr" using pe by (simp_all add: pending_def)
  have step: "insert_into_parent ord (root_of l) k (root_of r) s =
    do { (ks, ps) \<leftarrow> shift_parent (length kl) (if ?n = 0 then 2 ^ 32 - 1 else ?n - 1) (nd_keys p) (nd_pointers p);
         Some (put_node a (p\<lparr>nd_keys := ks[length kl := k], nd_pointers := ps[length kl + 1 := Child (root_of r)],
           nd_num_keys := ?n + 1\<rparr>) s) }"
    using room idx by (subst insert_into_parent.simps) (simp add: get_node_def nl p(1) cell(1) Let_def)
  show ?thesis
  proof (cases "kl = []")
    case True
    have "shift_parent 0 i (nd_keys p) (nd_pointers p) = None" for i
      by (rule shift_parent_zero) (use cell(2) ord in simp)
    with True step show ?thesis by simp
  next
    case False
    then have n: "1 \<le> length kl" "?n - 1 + 1 = ?n" "?n - 1 + 2 = ?n + 1" "(if ?n = 0 then 2 ^ 32 - 1 else ?n - 1) = ?n - 1"
      by (cases kl; simp)+
    have shift: "shift_parent (length kl) (?n - 1) (nd_keys p) (nd_pointers p) =
        Some (shift_cells (length kl) ?n (nd_keys p), shift_cells (length kl + 1) (?n + 1) (nd_pointers p))"
      using shift_parent_ok [OF n(1), of "?n - 1" "nd_keys p" "nd_pointers p"] n room cell(2,3) ord by simp
    define p' where "p' = p\<lparr>nd_keys := (shift_cells (length kl) ?n (nd_keys p))[length kl := k],
      nd_pointers := (shift_cells (length kl + 1) (?n + 1) (nd_pointers p))[length kl + 1 := Child (root_of r)],
      nd_num_keys := ?n + 1\<rparr>"
    let ?h = "(bt_heap s)(a \<mapsto> p')"
    have run: "insert_into_parent ord (root_of l) k (root_of r) s = Some (s\<lparr>bt_heap := ?h\<rparr>)"
      unfolding step n(4) shift by (simp add: p'_def put_node_def)
    have "take (?n + 1) (nd_keys p') = kl @ k # kr"
      using take_insert [of ?n "nd_keys p" kl kr "length kl" k] cell(2,7) room by (simp add: p'_def)
    moreover have "take (?n + 2) (nd_pointers p') = map Child (map root_of ls @ root_of l # root_of r # map root_of rs)"
      using take_insert [of "?n + 1" "nd_pointers p" "map Child (map root_of ls @ [root_of l])" "map Child (map root_of rs)"
          "length kl + 1" "Child (root_of r)"] cell(3,8) room sh by (simp add: p'_def)
    ultimately have "inner_cell ord (parent_of c) (kl @ k # kr) (map root_of (ls @ l # r # rs)) p'"
      using cell room by (simp add: inner_cell_def p'_def)
    moreover have "holds ord ?h (Some a) t" if "t \<in> set (ls @ l # r # rs)" for t
    proof -
      have "holds ord (bt_heap s) (Some a) t" "a \<notin> set (nodes_of t)" using pendingD(1-4) [OF pe] that by auto
      then show ?thesis by (auto intro: holds_other)
    qed
    ultimately have "holds ord ?h (parent_of c) (Nd a (kl @ k # kr) (ls @ l # r # rs))" by simp
    moreover have "path_holds ord ?h c a"
      by (rule path_holds_other [of ord "bt_heap s"]) (use pendingD(1,4) [OF pe] in auto)
    ultimately have hold: "holds ord ?h None (plug c (Nd a (kl @ k # kr) (ls @ l # r # rs)))" by (simp add: holds_plug)
    have dis: "distinct (nodes_of (plug c (Nd a (kl @ k # kr) (ls @ l # r # rs))))"
      unfolding nodes_plug_distinct mset_eq_imp_distinct_iff [OF frame_nodes [where kl = kl and kr = kr]] by (rule pendingD(4) [OF pe])
    have "\<forall>b \<in> set (nodes_of (plug c (Nd a (kl @ k # kr) (ls @ l # r # rs)))). b < bt_fresh s"
      unfolding nodes_plug_set set_append [symmetric] mset_eq_setD [OF frame_nodes [where kl = kl and kr = kr]] by (rule pendingD(5) [OF pe])
    moreover have "root_of (plug c (Nd a (kl @ k # kr) (ls @ l # r # rs))) = root_of (plug (Frame a kl ls kr rs # c) l)"
      unfolding plug.simps by (rule root_plug) simp
    ultimately have "stores ord (s\<lparr>bt_heap := ?h\<rparr>) (plug c (Nd a (kl @ k # kr) (ls @ l # r # rs)))"
      using hold dis pe by (simp add: stores_def pending_def)
    moreover have "next_of ?h b = next_of (bt_heap s) b" for b using p(1) by (simp add: next_of_def p'_def)
    ultimately show ?thesis using run False by blast
  qed
qed

section \<open>A parent that splits\<close>

text \<open>The temporary arrays hold all keys and children in order.\<close>

lemma spread_whole:
  assumes "take n xs = A @ B" "length A = i" "length A + length B = n" "n \<le> length xs"
  shows "(spread i n xs 0 0 (replicate (n + 1) z))[i := v] = A @ v # B"
proof -
  have A: "take i xs = A" using arg_cong [OF assms(1), of "take i"] assms(2,3) by (simp add: min_def)
  have B: "drop i (take n xs) = B" using assms(1,2) by simp
  have "(spread i n xs 0 0 (replicate (n + 1) z))[i := v] = take i xs @ v # drop i (take n xs)"
    by (rule spread_insert) (use assms in simp_all)
  then show ?thesis unfolding A B .
qed

lemma split_refines:
  assumes pe: "pending ord s (Frame a kl ls kr rs # c) l k r" and ord: "3 \<le> ord" and full: "\<not> length (kl @ kr) < ord - 1"
  defines "ks \<equiv> kl @ k # kr" and "ts \<equiv> ls @ l # r # rs" and "m \<equiv> cut ord" and "f \<equiv> bt_fresh s"
  shows "\<exists>h. split_nl ord a (length kl) k (root_of r) s =
      Some (ks ! (m - 1), f, s\<lparr>bt_heap := h, bt_fresh := f + 1\<rparr>) \<and>
    pending ord (s\<lparr>bt_heap := h, bt_fresh := f + 1\<rparr>) c (Nd a (take (m - 1) ks) (take m ts)) (ks ! (m - 1))
      (Nd f (drop m ks) (drop m ts)) \<and>
    (\<forall>b. b \<noteq> a \<longrightarrow> b \<noteq> f \<longrightarrow> next_of h b = next_of (bt_heap s) b)"
proof -
  from pe obtain p where p: "bt_heap s a = Some p"
      "inner_cell ord (parent_of c) (kl @ kr) (map root_of ls @ root_of l # map root_of rs) p"
    and root: "nd_parent (the (bt_heap s (root_of l))) = Some a" "bt_heap s (root_of l) \<noteq> None"
    and idx: "advance (\<lambda>i. nd_keys p ! i < k) (nd_num_keys p) 0 = length kl"
    and kids: "ordered_kids (hole_lo c) (kl @ k # kr) (ls @ l # r # rs) (hole_hi c)"
    by (rule pending_parent)
  let ?n = "length kl + length kr"
  have sh: "length ls = length kl" "length rs = length kr" using pendingD(7) [OF pe] by simp_all
  have cell: "nd_num_keys p = ?n" "length (nd_keys p) = ord - 1" "length (nd_pointers p) = ord" "\<not> nd_is_leaf p"
    "nd_parent p = parent_of c" "take ?n (nd_keys p) = kl @ kr"
    "take (?n + 1) (nd_pointers p) = map Child (map root_of ls @ root_of l # map root_of rs)" "?n \<le> ord - 1"
    using p(2) by (auto simp: inner_cell_def)
  have n: "?n + 1 = ord" "?n + 2 = ord + 1" using cell(8) full ord by auto
  have m: "2 \<le> m" "m < ord" using ord by (auto simp: m_def cut_def)
  have lks: "length ks = ord" "length ts = ord + 1" using n sh by (simp_all add: ks_def ts_def)
  have af: "a < f" using pendingD(5) [OF pe] by (simp add: f_def)
  have tk: "(spread (length kl) ?n (nd_keys p) 0 0 (replicate ord 0))[length kl := k] = ks"
    unfolding ks_def n(1) [symmetric] by (rule spread_whole) (use cell n in simp_all)
  have tp: "(spread (length kl + 1) (?n + 1) (nd_pointers p) 0 0 (replicate (ord + 1) Null))[length kl + 1 := Child (root_of r)] =
      map (\<lambda>t. Child (root_of t)) ts"
  proof -
    have "(spread (length kl + 1) (?n + 1) (nd_pointers p) 0 0 (replicate (?n + 1 + 1) Null))[length kl + 1 := Child (root_of r)] =
        map (\<lambda>t. Child (root_of t)) (ls @ [l]) @ Child (root_of r) # map (\<lambda>t. Child (root_of t)) rs"
      by (rule spread_whole) (use cell n sh in \<open>simp_all add: comp_def\<close>)
    then show ?thesis unfolding n(1) by (simp only: ts_def map_append list.map append_assoc append_Cons append_Nil)
  qed
  define o' where "o' = p\<lparr>nd_keys := copy_cells ks 0 (m - 1) 0 (nd_keys p),
    nd_pointers := copy_cells (map (\<lambda>t. Child (root_of t)) ts) 0 m 0 (nd_pointers p), nd_num_keys := m - 1, nd_next := Some f\<rparr>"
  define ps where "ps = copy_cells (map (\<lambda>t. Child (root_of t)) ts) m (ord + 1) 0 (replicate ord Null)"
  define n' where "n' = \<lparr>nd_pointers = ps, nd_is_leaf = False, nd_keys = copy_cells ks m ord 0 (replicate (ord - 1) 0),
    nd_parent = nd_parent p, nd_num_keys = ord - m, nd_next = nd_next p\<rparr>"
  let ?h1 = "(bt_heap s)(a \<mapsto> o', f \<mapsto> n')"
  let ?s1 = "s\<lparr>bt_heap := ?h1, bt_fresh := f + 1\<rparr>"
  have ps: "take (ord - m + 1) ps = map (\<lambda>t. Child (root_of t)) (drop m ts)"
    using copy_take [of "ord + 1" "map (\<lambda>t. Child (root_of t)) ts" m "replicate ord Null"] m lks
    by (simp add: ps_def drop_map Suc_diff_le)
  have lps: "length ps = ord" by (simp add: ps_def)
  have oc: "inner_cell ord (parent_of c) (take (m - 1) ks) (map root_of (take m ts)) o'"
    using copy_take [of "m - 1" ks 0 "nd_keys p"] copy_take [of m "map (\<lambda>t. Child (root_of t)) ts" 0 "nd_pointers p"] m lks cell
    by (auto simp: inner_cell_def o'_def take_map comp_def min_def)
  have nc: "inner_cell ord (parent_of c) (drop m ks) (map root_of (drop m ts)) n'"
    using copy_take [of ord ks m "replicate (ord - 1) 0"] ps m lks cell(5) lps
    by (auto simp: inner_cell_def n'_def drop_map comp_def Suc_diff_le)
  note out = pendingD(4,5) [OF pe, folded f_def]
  have apart: "a \<notin> set (nodes_of t)" "f \<notin> set (nodes_of t)" if "t \<in> set ts" for t
    using out that by (auto simp: ts_def)
  have old: "holds ord ?h1 (Some a) t" if "t \<in> set ts" for t
  proof (rule holds_other)
    show "holds ord (bt_heap s) (Some a) t" using pendingD(1-3) [OF pe] that by (auto simp: ts_def)
  qed (use apart [OF that] in auto)
  have dts: "distinct (concat (map nodes_of ts))" using out(1) by (auto simp: ts_def)
  then have dd: "distinct (concat (map nodes_of (drop m ts)))"
    and disj: "set (concat (map nodes_of (take m ts))) \<inter> set (concat (map nodes_of (drop m ts))) = {}"
    using append_take_drop_id [of m ts] by (metis concat_append distinct_append map_append)+
  have "\<forall>t \<in> set (drop m ts). holds ord (bt_heap ?s1) (Some a) t" using old by (auto dest: in_set_dropD)
  from reparent_holds [OF this dd, of f] obtain h
    where re: "reparent f (map (\<lambda>t. Child (root_of t)) (drop m ts)) ?s1 = Some (?s1\<lparr>bt_heap := h\<rparr>)"
      and hk: "\<forall>t \<in> set (drop m ts). holds ord h (Some f) t"
      and ho: "\<forall>b. b \<notin> set (concat (map nodes_of (drop m ts))) \<longrightarrow> h b = bt_heap ?s1 b"
      and hn: "\<forall>b. next_of h b = next_of (bt_heap ?s1) b" by (elim exE conjE)
  let ?s = "s\<lparr>bt_heap := h, bt_fresh := f + 1\<rparr>"
  have run: "split_nl ord a (length kl) k (root_of r) s = Some (ks ! (m - 1), f, ?s)"
  proof -
    have "f \<noteq> a" "a \<noteq> f" using af by simp_all
    moreover have "?n < ord" using n by simp
    moreover have sw: "s\<lparr>bt_heap := H, bt_fresh := F\<rparr> = s\<lparr>bt_fresh := F, bt_heap := H\<rparr>" for H F by simp
    ultimately show ?thesis
      unfolding split_nl_def make_node_def Let_def prod.case f_def [symmetric]
      using re [unfolded o'_def n'_def ps_def sw]
      by (simp add: get_node_def put_node_def p(1) cell(1) tk tp [simplified] m_def [symmetric] ps [unfolded ps_def, simplified]
          fun_upd_twist [OF \<open>f \<noteq> a\<close>])
  qed
  have pa: "b \<noteq> a \<and> b \<noteq> f \<and> (\<forall>t \<in> set ts. b \<notin> set (nodes_of t))" if "b \<in> set (path_nodes c)" for b
    using out that by (auto simp: ts_def)
  have same: "h b = bt_heap s b" if "b \<in> set (path_nodes c)" for b
  proof -
    have "b \<notin> set (concat (map nodes_of (drop m ts)))" using pa [OF that] by (auto dest: in_set_dropD)
    with ho pa [OF that] show ?thesis by simp
  qed
  have ph: "path_holds ord h c a"
    by (rule path_holds_other [of ord "bt_heap s"]) (use pendingD(1) [OF pe] same in simp_all)
  have "a \<notin> set (concat (map nodes_of (drop m ts)))" "f \<notin> set (concat (map nodes_of (drop m ts)))"
    using apart by (auto dest: in_set_dropD)
  with ho af have cells: "h a = Some o'" "h f = Some n'" by simp_all
  have "holds ord h (Some a) t" if t: "t \<in> set (take m ts)" for t
  proof (rule holds_other)
    show "holds ord ?h1 (Some a) t" using old t by (auto dest: in_set_takeD)
    have "set (nodes_of t) \<subseteq> set (concat (map nodes_of (take m ts)))" using t by auto
    then have "set (nodes_of t) \<inter> set (concat (map nodes_of (drop m ts))) = {}" using disj by blast
    with ho show "\<forall>b \<in> set (nodes_of t). h b = ?h1 b" unfolding index_btree.select_convs index_btree.update_convs by force
  qed
  then have hl: "holds ord h (parent_of c) (Nd a (take (m - 1) ks) (take m ts))" using cells oc by simp
  have hr: "holds ord h (parent_of c) (Nd f (drop m ks) (drop m ts))" using cells nc hk by simp
  have all: "mset (path_nodes c @ nodes_of (Nd a (take (m - 1) ks) (take m ts)) @ nodes_of (Nd f (drop m ks) (drop m ts))) =
      mset (f # path_nodes (Frame a kl ls kr rs # c) @ nodes_of l @ nodes_of r)"
  proof -
    have "mset (concat (map nodes_of (take m ts))) + mset (concat (map nodes_of (drop m ts))) = mset (concat (map nodes_of ts))"
      by (metis append_take_drop_id concat_append map_append mset_append)
    then have "mset (concat (map nodes_of (take m ts))) + mset (concat (map nodes_of (drop m ts))) =
        mset (concat (map nodes_of (ls @ l # r # rs)))" by (simp only: ts_def)
    from arg_cong [OF this, of "\<lambda>M. count M x" for x] show ?thesis by (intro multiset_eqI) simp
  qed
  have "distinct (f # path_nodes (Frame a kl ls kr rs # c) @ nodes_of l @ nodes_of r)" using out by auto
  then have dis: "distinct (path_nodes c @ nodes_of (Nd a (take (m - 1) ks) (take m ts)) @ nodes_of (Nd f (drop m ks) (drop m ts)))"
    unfolding mset_eq_imp_distinct_iff [OF all] .
  have fr: "\<forall>b \<in> set (path_nodes c @ nodes_of (Nd a (take (m - 1) ks) (take m ts)) @ nodes_of (Nd f (drop m ks) (drop m ts))). b < f + 1"
    unfolding mset_eq_setD [OF all]
  proof
    fix b assume "b \<in> set (f # path_nodes (Frame a kl ls kr rs # c) @ nodes_of l @ nodes_of r)"
    then have "b = f \<or> b < f" unfolding set_simps insert_iff using bspec [OF out(2)] by blast
    then show "b < f + 1" by auto
  qed
  have rt: "bt_root ?s = root_of (plug c (Nd a (take (m - 1) ks) (take m ts)))"
    using pendingD(6) [OF pe] root_plug [of "Nd a (kl @ kr) (ls @ l # rs)" "Nd a (take (m - 1) ks) (take m ts)" c] by simp
  have "2 \<le> ord" "ord \<le> length ks" using ord lks by simp_all
  note two = kids_halves [OF kids [folded ks_def ts_def] this m_def [THEN meta_eq_to_obj_eq]]
  have pend: "pending ord ?s c (Nd a (take (m - 1) ks) (take m ts)) (ks ! (m - 1)) (Nd f (drop m ks) (drop m ts))"
    unfolding pending_def
    using ph hl hr dis fr rt pendingD(7,8) [OF pe] two ordered_kids_below [OF two(1)] ordered_kids_below [OF two(2)] by simp
  have "next_of h b = next_of (bt_heap s) b" if "b \<noteq> a" "b \<noteq> f" for b
    using hn that by (simp add: next_of_def)
  with run pend show ?thesis by blast
qed

end
