(* ===== verification/Btree_Up.thy ===== *)
theory Btree_Up
  imports Btree_Refine
begin

text \<open>
  The whole way up of an insertion: \<open>insert_into_parent\<close> on the heap does what \<open>up\<close> does to the tree.
\<close>

section \<open>The whole way up\<close>

lemma leaves_in_nodes: "fst ` set (leaves_of t) \<subseteq> set (nodes_of t)"
  by (induction t) auto

lemma path_leaves_in: "fst ` set (left_leaves c) \<union> fst ` set (right_leaves c) \<subseteq> set (path_nodes c)"
proof (induction c rule: path_nodes.induct)
  case (2 a kl ls kr rs c)
  have "fst ` set (concat (map leaves_of us)) \<subseteq> set (concat (map nodes_of us))" for us
    using leaves_in_nodes by fastforce
  from this [of ls] this [of rs] 2 show ?case by (simp only: left_leaves.simps right_leaves.simps path_nodes.simps
      set_append image_Un set_simps) blast
qed simp

definition leaf_nodes :: "path \<Rightarrow> bt \<Rightarrow> bt \<Rightarrow> nid set" where
  "leaf_nodes c l r = fst ` set (left_leaves c @ leaves_of l @ leaves_of r @ right_leaves c)"

lemma leaf_nodes_in: "leaf_nodes c l r \<subseteq> set (path_nodes c @ nodes_of l @ nodes_of r)"
  unfolding leaf_nodes_def set_append image_Un using leaves_in_nodes [of l] leaves_in_nodes [of r] path_leaves_in [of c] by blast

lemma frame_leaf_nodes:
  assumes "concat (map leaves_of (ls @ l # r # rs)) = leaves_of l' @ leaves_of r'"
  shows "leaf_nodes (Frame a kl ls kr rs # c) l r = leaf_nodes c l' r'"
proof -
  have e: "left_leaves (Frame a kl ls kr rs # c) @ leaves_of l @ leaves_of r @ right_leaves (Frame a kl ls kr rs # c) =
      left_leaves c @ concat (map leaves_of (ls @ l # r # rs)) @ right_leaves c" by simp
  show ?thesis unfolding leaf_nodes_def e assms append_assoc ..
qed

lemma frame_no_leaf:
  assumes "pending ord s (Frame a kl ls kr rs # c) l k r"
  shows "a \<notin> leaf_nodes (Frame a kl ls kr rs # c) l r" "bt_fresh s \<notin> leaf_nodes (Frame a kl ls kr rs # c) l r"
proof -
  let ?l = "Nd (root_of l) [] (ls @ [l])" and ?r = "Nd (root_of r) [] (r # rs)"
  have "leaf_nodes (Frame a kl ls kr rs # c) l r = leaf_nodes c ?l ?r" by (rule frame_leaf_nodes) simp
  moreover have "a \<notin> set (path_nodes c @ nodes_of ?l @ nodes_of ?r)"
    using pendingD(4) [OF assms] root_in_nodes [of l] root_in_nodes [of r] by auto
  ultimately show "a \<notin> leaf_nodes (Frame a kl ls kr rs # c) l r" using leaf_nodes_in [of c ?l ?r] by blast
  show "bt_fresh s \<notin> leaf_nodes (Frame a kl ls kr rs # c) l r"
    using leaf_nodes_in [of "Frame a kl ls kr rs # c" l r] pendingD(5) [OF assms] by blast
qed

lemma up_refines:
  assumes "3 \<le> ord" "ord < 2 ^ 32"
  shows "pending ord s c l k r \<Longrightarrow> (\<And>a kvs. l = Lf a kvs \<Longrightarrow> next_of (bt_heap s) a = Some (root_of r)) \<Longrightarrow>
    case up ord (bt_fresh s) c l k r of
      None \<Rightarrow> insert_into_parent ord (root_of l) k (root_of r) s = None
    | Some t \<Rightarrow> \<exists>h f a. insert_into_parent ord (root_of l) k (root_of r) s =
          Some (s\<lparr>bt_heap := h, bt_fresh := f, bt_root := a\<rparr>) \<and>
        stores ord (s\<lparr>bt_heap := h, bt_fresh := f, bt_root := a\<rparr>) t \<and>
        (\<forall>b \<in> leaf_nodes c l r. next_of h b = next_of (bt_heap s) b)"
proof (induction c arbitrary: s l k r)
  case Nil
  note pe = Nil.prems(1)
  from new_root_refines [OF pe assms(1)] obtain h
    where h: "insert_into_new_root ord (root_of l) k (root_of r) s =
        Some (s\<lparr>bt_heap := h, bt_fresh := bt_fresh s + 1, bt_root := bt_fresh s\<rparr>)"
      "stores ord (s\<lparr>bt_heap := h, bt_fresh := bt_fresh s + 1, bt_root := bt_fresh s\<rparr>) (Nd (bt_fresh s) [k] [l, r])"
      "\<forall>b. b < bt_fresh s \<longrightarrow> next_of h b = (if b = root_of l then Some (root_of r) else next_of (bt_heap s) b)"
    by (elim exE conjE)
  from holds_root [OF pendingD(2) [OF pe]] obtain nl where "bt_heap s (root_of l) = Some nl" "nd_parent nl = None" by auto
  then have run: "insert_into_parent ord (root_of l) k (root_of r) s = insert_into_new_root ord (root_of l) k (root_of r) s"
    by (subst insert_into_parent.simps) (simp add: get_node_def)
  have "next_of h b = next_of (bt_heap s) b" if b: "b \<in> leaf_nodes [] l r" for b
  proof -
    have "b \<in> set (path_nodes [] @ nodes_of l @ nodes_of r)" using b leaf_nodes_in [of "[]" l r] by blast
    then have "b < bt_fresh s" using pendingD(5) [OF pe] by blast
    moreover have "next_of (bt_heap s) b = Some (root_of r)" if "b = root_of l"
    proof (cases l)
      case (Lf a kvs)
      with Nil.prems(2) that show ?thesis by simp
    next
      case (Nd a ks ts)
      have "a \<notin> fst ` set (leaves_of l)" "a \<notin> fst ` set (leaves_of r)"
        using pendingD(4) [OF pe] leaves_in_nodes [of r] leaves_in_nodes unfolding Nd by fastforce+
      with b that show ?thesis by (simp add: leaf_nodes_def Nd image_Un)
    qed
    ultimately show ?thesis using h(3) by simp
  qed
  with run h(1,2) show ?case by auto
next
  case (Cons fr c)
  obtain a kl ls kr rs where fr: "fr = Frame a kl ls kr rs" by (cases fr)
  note pe = Cons.prems(1) [unfolded fr]
  show ?case
  proof (cases "length (kl @ kr) < ord - 1")
    case True
    show ?thesis
    proof (cases "kl = []")
      case True
      with \<open>length (kl @ kr) < ord - 1\<close> room_refines [OF pe assms(2)] show ?thesis by (simp add: fr)
    next
      case False
      from room_refines [OF pe assms(2) True, THEN conjunct2, THEN mp, OF False] obtain h
        where h: "insert_into_parent ord (root_of l) k (root_of r) s = Some (s\<lparr>bt_heap := h\<rparr>)"
          "stores ord (s\<lparr>bt_heap := h\<rparr>) (plug c (Nd a (kl @ k # kr) (ls @ l # r # rs)))"
          "\<forall>b. next_of h b = next_of (bt_heap s) b" by (elim exE conjE)
      from True False have "up ord (bt_fresh s) (fr # c) l k r = Some (plug c (Nd a (kl @ k # kr) (ls @ l # r # rs)))"
        by (simp add: fr)
      then show ?thesis
        by (simp only: option.case, intro exI [of _ h] exI [of _ "bt_fresh s"] exI [of _ "bt_root s"] conjI) (use h in simp_all)
    qed
  next
    case False
    let ?ks = "kl @ k # kr" and ?ts = "ls @ l # r # rs" and ?m = "cut ord" and ?f = "bt_fresh s"
    let ?l = "Nd a (take (?m - 1) ?ks) (take ?m ?ts)" and ?r = "Nd ?f (drop ?m ?ks) (drop ?m ?ts)"
    from split_refines [OF pe assms(1) False] obtain h
      where h: "split_nl ord a (length kl) k (root_of r) s = Some (?ks ! (?m - 1), ?f, s\<lparr>bt_heap := h, bt_fresh := ?f + 1\<rparr>)"
        "pending ord (s\<lparr>bt_heap := h, bt_fresh := ?f + 1\<rparr>) c ?l (?ks ! (?m - 1)) ?r"
        "\<forall>b. b \<noteq> a \<longrightarrow> b \<noteq> ?f \<longrightarrow> next_of h b = next_of (bt_heap s) b" by (elim exE conjE)
    let ?s = "s\<lparr>bt_heap := h, bt_fresh := ?f + 1\<rparr>"
    from pe obtain p where p: "bt_heap s a = Some p"
        "inner_cell ord (parent_of c) (kl @ kr) (map root_of ls @ root_of l # map root_of rs) p"
      and root: "nd_parent (the (bt_heap s (root_of l))) = Some a" "bt_heap s (root_of l) \<noteq> None"
      and idx: "advance (\<lambda>i. nd_keys p ! i < k) (nd_num_keys p) 0 = length kl"
      and kids: "ordered_kids (hole_lo c) (kl @ k # kr) (ls @ l # r # rs) (hole_hi c)"
      by (rule pending_parent)
    from root obtain nl where nl: "bt_heap s (root_of l) = Some nl" "nd_parent nl = Some a" by auto
    have "nd_num_keys p = length (kl @ kr)" using p(2) by (simp add: inner_cell_def)
    then have run: "insert_into_parent ord (root_of l) k (root_of r) s = insert_into_parent ord (root_of ?l) (?ks ! (?m - 1)) (root_of ?r) ?s"
      using False idx h(1) by (subst insert_into_parent.simps) (simp add: get_node_def nl p(1) Let_def)
    have L: "leaf_nodes (fr # c) l r = leaf_nodes c ?l ?r" unfolding fr
    proof (rule frame_leaf_nodes)
      show "concat (map leaves_of ?ts) = leaves_of ?l @ leaves_of ?r"
        unfolding leaves_of.simps concat_append [symmetric] map_append [symmetric] append_take_drop_id ..
    qed
    have same: "next_of h b = next_of (bt_heap s) b" if "b \<in> leaf_nodes (fr # c) l r" for b
      using h(3) frame_no_leaf [OF pe] that unfolding fr by metis
    have U: "up ord ?f (fr # c) l k r = up ord (bt_fresh ?s) c ?l (?ks ! (?m - 1)) ?r"
      using False by (simp add: fr Let_def)
    have IH: "case up ord (bt_fresh ?s) c ?l (?ks ! (?m - 1)) ?r of
      None \<Rightarrow> insert_into_parent ord (root_of ?l) (?ks ! (?m - 1)) (root_of ?r) ?s = None
    | Some t \<Rightarrow> \<exists>h' f a. insert_into_parent ord (root_of ?l) (?ks ! (?m - 1)) (root_of ?r) ?s =
          Some (?s\<lparr>bt_heap := h', bt_fresh := f, bt_root := a\<rparr>) \<and>
        stores ord (?s\<lparr>bt_heap := h', bt_fresh := f, bt_root := a\<rparr>) t \<and>
        (\<forall>b \<in> leaf_nodes c ?l ?r. next_of h' b = next_of (bt_heap ?s) b)"
      by (rule Cons.IH [OF h(2)]) simp
    have upd: "?s\<lparr>bt_heap := h', bt_fresh := f, bt_root := e\<rparr> = s\<lparr>bt_heap := h', bt_fresh := f, bt_root := e\<rparr>" for h' f e
      by simp
    show ?thesis
    proof (cases "up ord (bt_fresh ?s) c ?l (?ks ! (?m - 1)) ?r")
      case None
      with IH show ?thesis unfolding U run by simp
    next
      case (Some t)
      from IH obtain h' f e where e: "insert_into_parent ord (root_of ?l) (?ks ! (?m - 1)) (root_of ?r) ?s =
            Some (s\<lparr>bt_heap := h', bt_fresh := f, bt_root := e\<rparr>)"
          "stores ord (s\<lparr>bt_heap := h', bt_fresh := f, bt_root := e\<rparr>) t"
          "\<forall>b \<in> leaf_nodes c ?l ?r. next_of h' b = next_of (bt_heap ?s) b"
        unfolding Some option.case upd by (elim exE conjE)
      have "\<forall>b \<in> leaf_nodes (fr # c) l r. next_of h' b = next_of (bt_heap s) b"
        using e(3) same unfolding L by simp
      with e(1,2) show ?thesis unfolding U run Some option.case by blast
    qed
  qed
qed

end
