(* ===== verification/Btree_Find.thy ===== *)
theory Btree_Find
  imports Btree_Up
begin

text \<open>
  Going down to a leaf: \<open>find_leaf\<close> ends at the one leaf whose bounds enclose the key, and the node that it
  remembers for the latches is on the path.
\<close>

section \<open>The path on the tree\<close>

text \<open>The keys and children before the first key above \<open>key\<close>.\<close>

fun descend :: "idx_key \<Rightarrow> path \<Rightarrow> bt \<Rightarrow> path \<times> nid \<times> kvs"
  and descend_kids :: "idx_key \<Rightarrow> path \<Rightarrow> nid \<Rightarrow> idx_key list \<Rightarrow> bt list \<Rightarrow> idx_key list \<Rightarrow> bt list \<Rightarrow> path \<times> nid \<times> kvs" where
  "descend key c (Lf a kvs) = (c, a, kvs)"
| "descend key c (Nd a ks ts) = descend_kids key c a [] [] ks ts"
| "descend_kids key c a kl ls [] (t # ts) = descend key (Frame a kl ls [] ts # c) t"
| "descend_kids key c a kl ls (k # ks) (t # ts) =
     (if key < k then descend key (Frame a kl ls (k # ks) ts # c) t
      else descend_kids key c a (kl @ [k]) (ls @ [t]) ks ts)"
| "descend_kids key c a kl ls ks [] = (c, a, [])"

lemma descend_kids_at:
  assumes "\<forall>x \<in> set kl. \<not> key < x" "kr \<noteq> [] \<Longrightarrow> key < hd kr" "length ls = length kl"
  shows "descend_kids key c a kl0 ls0 (kl @ kr) (ls @ t # rs) = descend key (Frame a (kl0 @ kl) (ls0 @ ls) kr rs # c) t"
  using assms
proof (induction kl arbitrary: kl0 ls0 ls)
  case Nil
  then show ?case by (cases kr) auto
next
  case (Cons k kl)
  then obtain t' ls' where "ls = t' # ls'" by (cases ls) auto
  with Cons show ?case by auto
qed

lemma descend_split:
  assumes "length ts = length ks + 1"
  obtains kl kr ls t rs where "ks = kl @ kr" "ts = ls @ t # rs" "length ls = length kl" "length rs = length kr"
    "\<forall>x \<in> set kl. \<not> key < x" "kr \<noteq> [] \<longrightarrow> key < hd kr"
    "\<forall>c a. descend key c (Nd a ks ts) = descend key (Frame a kl ls kr rs # c) t"
proof -
  let ?kl = "takeWhile (\<lambda>k. \<not> key < k) ks" and ?kr = "dropWhile (\<lambda>k. \<not> key < k) ks"
  let ?n = "length ?kl"
  have n: "?n < length ts" using assms length_takeWhile_le [of "\<lambda>k. \<not> key < k" ks] by simp
  have ks: "ks = ?kl @ ?kr" by simp
  then have len: "length ks = ?n + length ?kr" by (metis length_append)
  have ts: "ts = take ?n ts @ ts ! ?n # drop (?n + 1) ts" using id_take_nth_drop [OF n] by simp
  have l: "length (take ?n ts) = ?n" "length (drop (?n + 1) ts) = length ?kr" using n len assms by simp_all
  have kl: "\<forall>x \<in> set ?kl. \<not> key < x" by (blast dest: set_takeWhileD)
  have kr: "?kr \<noteq> [] \<Longrightarrow> key < hd ?kr" using hd_dropWhile [of "\<lambda>k. \<not> key < k" ks] by simp
  have d: "descend key c (Nd a ks ts) = descend key (Frame a ?kl (take ?n ts) ?kr (drop (?n + 1) ts) # c) (ts ! ?n)" for c a
    using descend_kids_at [OF kl kr l(1), of c a "[]" "[]" "ts ! ?n" "drop (?n + 1) ts"] ks ts by simp
  show ?thesis by (rule that [OF ks ts l kl]) (use kr d in blast)+
qed

lemma within_child:
  assumes "within lo hi key" "\<forall>x \<in> set kl. \<not> key < x" "kr \<noteq> [] \<Longrightarrow> key < hd kr"
  shows "within (last_bound lo kl) (head_bound kr hi) key"
proof -
  have "within (last_bound lo kl) hi key" using assms(1,2)
    by (induction kl arbitrary: lo) (auto simp: within_def not_less)
  with assms(3) show ?thesis by (cases kr) (auto simp: head_bound_def within_def below_def)
qed

text \<open>Where the descent ends.\<close>

definition frame_addrs :: "path \<Rightarrow> nid list" where
  "frame_addrs c = map (\<lambda>f. case f of Frame a _ _ _ _ \<Rightarrow> a) c"

lemma frame_addrs_simps [simp]: "frame_addrs [] = []" "frame_addrs (Frame a kl ls kr rs # c) = a # frame_addrs c"
  by (simp_all add: frame_addrs_def)

lemma descend_spec:
  assumes "balanced h t" "shaped c" "within (hole_lo c) (hole_hi c) key" "descend key c t = (c', a, kvs)"
  shows "plug c' (Lf a kvs) = plug c t \<and> shaped c' \<and> within (hole_lo c') (hole_hi c') key"
  using assms
proof (induction t arbitrary: c h)
  case (Nd b ks ts)
  then obtain h' where len: "length ts = length ks + 1" and bal: "\<forall>t \<in> set ts. balanced h' t" by auto
  from len obtain kl kr ls t rs where sp: "ks = kl @ kr" "ts = ls @ t # rs" "length ls = length kl" "length rs = length kr"
      "\<forall>x \<in> set kl. \<not> key < x" "kr \<noteq> [] \<longrightarrow> key < hd kr"
      "\<forall>c a. descend key c (Nd a ks ts) = descend key (Frame a kl ls kr rs # c) t"
    by (rule descend_split [of ts ks key])
  have t: "t \<in> set ts" using sp(2) by simp
  have "plug c' (Lf a kvs) = plug (Frame b kl ls kr rs # c) t \<and> shaped c' \<and> within (hole_lo c') (hole_hi c') key"
  proof (rule Nd.IH [OF t])
    show "balanced h' t" using bal t by blast
    show "shaped (Frame b kl ls kr rs # c)" using sp(3,4) Nd.prems(2) by simp
    show "within (hole_lo (Frame b kl ls kr rs # c)) (hole_hi (Frame b kl ls kr rs # c)) key"
      using within_child [OF Nd.prems(3) sp(5)] sp(6) by simp
    show "descend key (Frame b kl ls kr rs # c) t = (c', a, kvs)" using Nd.prems(4) sp(7) by simp
  qed
  then show ?case by (simp add: sp(1,2))
qed auto

section \<open>The descent on the heap\<close>

lemma cleanup_total:
  "path_holds ord (bt_heap s) c r \<Longrightarrow> bt_heap s r = Some n \<Longrightarrow> nd_parent n = parent_of c \<Longrightarrow> e \<in> set (frame_addrs c) \<Longrightarrow>
   cleanup_up r e s = Some ()"
proof (induction c arbitrary: r n)
  case (Cons f c)
  obtain a kl ls kr rs where f: "f = Frame a kl ls kr rs" by (cases f)
  from Cons.prems(1) obtain m where m: "bt_heap s a = Some m" "nd_parent m = parent_of c" "path_holds ord (bt_heap s) c a"
    by (auto simp: f inner_cell_def)
  from Cons.IH [OF m(3,1,2)] Cons.prems show ?case
    by (subst cleanup_up.simps) (auto simp: f get_node_def)
qed simp

lemma ex_depth_total:
  "path_holds ord (bt_heap s) c r \<Longrightarrow> bt_heap s r = Some n \<Longrightarrow> nd_parent n = parent_of c \<Longrightarrow> e = r \<or> e \<in> set (frame_addrs c) \<Longrightarrow>
   d + length c < 100 \<Longrightarrow> \<exists>d'. ex_depth r e d s = Some d'"
proof (induction c arbitrary: r n d)
  case Nil
  then show ?case by (subst ex_depth.simps) simp
next
  case (Cons f c)
  obtain a kl ls kr rs where f: "f = Frame a kl ls kr rs" by (cases f)
  from Cons.prems(1) obtain m where m: "bt_heap s a = Some m" "nd_parent m = parent_of c" "path_holds ord (bt_heap s) c a"
    by (auto simp: f inner_cell_def)
  show ?case
  proof (cases "r = e")
    case False
    with Cons.prems(4) have "e = a \<or> e \<in> set (frame_addrs c)" by (auto simp: f)
    from Cons.IH [OF m(3,1,2) this, of "d + 1"] Cons.prems False show ?thesis
      by (subst ex_depth.simps) (simp add: f get_node_def)
  qed (subst ex_depth.simps, simp)
qed

lemma inner_child:
  assumes "inner_cell ord par (kl @ kr) (map root_of ls @ root_of t # map root_of rs) n" "length ls = length kl"
  shows "child_of n (length kl) = Some (root_of t)"
proof -
  let ?n = "length (kl @ kr) + 1" and ?xs = "map Child (map root_of ls @ root_of t # map root_of rs)"
  have tk: "take ?n (nd_pointers n) = ?xs" and len: "length (map root_of ls @ root_of t # map root_of rs) = ?n"
    using assms(1) by (simp_all add: inner_cell_def)
  have "length (take ?n (nd_pointers n)) = ?n" unfolding tk using len by simp
  then have "length kl < length (nd_pointers n)" by simp
  moreover have "nd_pointers n ! length kl = take ?n (nd_pointers n) ! length kl" by simp
  then have "nd_pointers n ! length kl = Child (root_of t)" unfolding tk by (simp add: nth_append assms(2))
  ultimately show ?thesis by (simp add: child_of_def)
qed

lemma find_leaf_loop_refines:
  assumes "descend key c t = (c', a, kvs)" "balanced h t" "shaped c" "path_holds ord (bt_heap s) c (root_of t)"
    "holds ord (bt_heap s) (parent_of c) t" "\<forall>e. last_ex = Some e \<longrightarrow> e \<in> set (frame_addrs c)"
  shows "\<exists>last'. find_leaf_loop ord ins key (root_of t) last_ex s = Some (a, last') \<and>
    (\<forall>e. last' = Some e \<longrightarrow> e \<in> set (frame_addrs c'))"
  using assms
proof (induction t arbitrary: c h last_ex)
  case (Lf b kvs')
  then show ?case by (subst find_leaf_loop.simps) (auto simp: get_node_def leaf_cell_def)
next
  case (Nd b ks ts)
  then obtain h' where len: "length ts = length ks + 1" and bal: "\<forall>t \<in> set ts. balanced h' t" by auto
  from len obtain kl kr ls t rs where sp: "ks = kl @ kr" "ts = ls @ t # rs" "length ls = length kl" "length rs = length kr"
      "\<forall>x \<in> set kl. \<not> key < x" "kr \<noteq> [] \<longrightarrow> key < hd kr"
      "\<forall>c a. descend key c (Nd a ks ts) = descend key (Frame a kl ls kr rs # c) t"
    by (rule descend_split [of ts ks key])
  have t: "t \<in> set ts" using sp(2) by simp
  let ?c = "Frame b kl ls kr rs # c"
  from Nd.prems(5) obtain n where n: "bt_heap s b = Some n" "inner_cell ord (parent_of c) ks (map root_of ts) n"
    and kids: "\<forall>t \<in> set ts. holds ord (bt_heap s) (Some b) t" by auto
  have n': "inner_cell ord (parent_of c) (kl @ kr) (map root_of ls @ root_of t # map root_of rs) n"
    using n(2) by (simp add: sp(1,2))
  have idx: "advance (\<lambda>i. \<not> key < nd_keys n ! i) (nd_num_keys n) 0 = length kl"
    using n(2) sp(1,5,6) by (intro advance_keys [where ks = ks and kr = kr and P = "\<lambda>x. \<not> key < x"]) (auto simp: inner_cell_def)
  have child: "child_of n (length kl) = Some (root_of t)" by (rule inner_child [OF n' sp(3)])
  have ht: "holds ord (bt_heap s) (parent_of ?c) t" using kids t by simp
  from holds_root [OF ht] obtain m where m: "bt_heap s (root_of t) = Some m" by blast
  have ph: "path_holds ord (bt_heap s) ?c (root_of t)" using n(1) n' kids Nd.prems(4) by (auto simp: sp(2))
  have IH: "\<exists>last'. find_leaf_loop ord ins key (root_of t) l s = Some (a, last') \<and>
      (\<forall>e. last' = Some e \<longrightarrow> e \<in> set (frame_addrs c'))" if "\<forall>e. l = Some e \<longrightarrow> e \<in> set (frame_addrs ?c)" for l
    by (rule Nd.IH [OF t _ _ _ ph ht that, of h']) (use bal t sp(3,4,7) Nd.prems(1,3) in simp_all)
  have clean: "cleanup_latches b last_ex s = Some ()"
    using cleanup_total [OF _ n(1), of ord c] Nd.prems(4,6) n(2)
    by (auto simp: cleanup_latches_def inner_cell_def split: option.splits)
  have leaf: "\<not> nd_is_leaf n" using n(2) by (simp add: inner_cell_def)
  let ?l = "if ins then if nd_num_keys m = ord - 1 then if last_ex = None then Some b else last_ex else None else last_ex"
  have step: "find_leaf_loop ord ins key b last_ex s = find_leaf_loop ord ins key (root_of t) ?l s"
    by (subst find_leaf_loop.simps) (use leaf idx child m n(1) clean in \<open>simp add: get_node_def\<close>)
  have "\<forall>e. ?l = Some e \<longrightarrow> e \<in> set (frame_addrs ?c)" using Nd.prems(6) by (auto split: if_splits)
  from IH [OF this] show ?case unfolding root_of.simps step .
qed

end
