(* ===== verification/Btree_Leaf.thy ===== *)
theory Btree_Leaf
  imports Btree_Find
begin

text \<open>
  An insertion at a leaf, on the heap and on the tree: a key that is there, a leaf with room, a leaf that splits.
\<close>

section \<open>The place of a key\<close>

lemma ins_kvs_cases:
  assumes "sorted_wrt (<) (map fst kvs)"
  obtains (found) A items B where "kvs = A @ (key, items) # B" "\<forall>k \<in> fst ` set A. k < key" "key \<in> fst ` set kvs"
      "ins_kvs key item kvs = A @ (key, item # items) # B"
    | (new) A B where "kvs = A @ B" "\<forall>k \<in> fst ` set A. k < key" "\<forall>k \<in> fst ` set B. key < k" "key \<notin> fst ` set kvs"
      "ins_kvs key item kvs = A @ (key, [item]) # B"
proof -
  let ?A = "takeWhile (\<lambda>kv. fst kv < key) kvs" and ?B = "dropWhile (\<lambda>kv. fst kv < key) kvs"
  have kvs: "kvs = ?A @ ?B" by simp
  have A: "\<forall>k \<in> fst ` set ?A. k < key" by (auto dest: set_takeWhileD)
  have ins: "ins_kvs key item kvs = ?A @ ins_kvs key item ?B" using ins_kvs_left [OF A, of item ?B] by simp
  have "sorted_wrt (<) (map fst (?A @ ?B))" using assms by simp
  then have sB: "sorted_wrt (<) (map fst ?B)" unfolding map_append sorted_wrt_append by blast
  show thesis
  proof (cases "?B \<noteq> [] \<and> fst (hd ?B) = key")
    case True
    then obtain items B where B: "?B = (key, items) # B" by (cases ?B) auto
    have "ins_kvs key item ?B = (key, item # items) # B" unfolding B by simp
    then have "ins_kvs key item kvs = ?A @ (key, item # items) # B" using ins by (simp only:)
    moreover have k: "kvs = ?A @ (key, items) # B" using kvs B by simp
    moreover have "key \<in> fst ` set kvs" by (subst k) (simp add: image_Un)
    ultimately show thesis using found A by blast
  next
    case False
    have B: "\<forall>k \<in> fst ` set ?B. key < k"
    proof (cases ?B)
      case (Cons kv B)
      have "\<not> fst kv < key" using hd_dropWhile [of "\<lambda>kv. fst kv < key" kvs] Cons by simp
      with False Cons have "key < fst kv" by auto
      with sB show ?thesis unfolding Cons by auto
    next
      case Nil
      show ?thesis unfolding Nil by simp
    qed
    then have "ins_kvs key item ?B = (key, [item]) # ?B"
      using ins_kvs_right [of ?B key item "[]"] by simp
    then have "ins_kvs key item kvs = ?A @ (key, [item]) # ?B" using ins by (simp only:)
    moreover have "key \<notin> fst ` set kvs"
    proof
      assume "key \<in> fst ` set kvs"
      then have "key \<in> fst ` set ?A \<or> key \<in> fst ` set ?B" by (subst (asm) kvs) (simp only: set_append image_Un Un_iff)
      with A B show False by blast
    qed
    ultimately show thesis using new kvs A B by blast
  qed
qed

lemma leaf_keysD:
  assumes "leaf_cell ord par kvs n"
  shows "take (length kvs) (nd_keys n) = map fst kvs" "nd_num_keys n = length kvs"
    "take (length kvs) (nd_pointers n) = map (\<lambda>kv. Chain (snd kv)) kvs" "length kvs \<le> ord - 1" "length (nd_keys n) = ord - 1"
    "length (nd_pointers n) = ord" "nd_is_leaf n" "nd_parent n = par"
  using assms by (simp_all add: leaf_cell_def)

lemma leaf_position:
  assumes "leaf_cell ord par (A @ B) n" "\<forall>k \<in> fst ` set A. P k" "B \<noteq> [] \<Longrightarrow> \<not> P (fst (hd B))"
  shows "advance (\<lambda>i. P (nd_keys n ! i)) (length A + length B) 0 = length A"
proof -
  have "advance (\<lambda>i. P (nd_keys n ! i)) (length A + length B) 0 = length (map fst A)"
    by (rule advance_keys [where ks = "map fst A @ map fst B" and kr = "map fst B"])
      (use assms leaf_keysD(1) [OF assms(1)] in \<open>auto simp: hd_map\<close>)
  then show ?thesis by simp
qed

lemma leaf_has_found:
  assumes "leaf_cell ord par (A @ (key, items) # B) n" "\<forall>k \<in> fst ` set A. k < key"
  shows "leaf_has_key n key = Some (length A)" "nd_pointers n ! length A = Chain items" "length A < length (nd_pointers n)"
proof -
  have "advance (\<lambda>i. nd_keys n ! i \<noteq> key) (length A + length ((key, items) # B)) 0 = length A"
    by (rule leaf_position [OF assms(1)]) (use assms(2) in auto)
  with leaf_keysD(2) [OF assms(1)] show "leaf_has_key n key = Some (length A)" by (simp add: leaf_has_key_def)
  have "take (length (A @ (key, items) # B)) (nd_pointers n) ! length A = Chain items"
    unfolding leaf_keysD(3) [OF assms(1)] by (simp add: nth_append)
  then show "nd_pointers n ! length A = Chain items" by simp
  show "length A < length (nd_pointers n)" using leaf_keysD(4,6) [OF assms(1)] by simp
qed

lemma leaf_has_new:
  assumes "leaf_cell ord par kvs n" "key \<notin> fst ` set kvs"
  shows "leaf_has_key n key = None"
proof -
  have "advance (\<lambda>i. nd_keys n ! i \<noteq> key) (length kvs + length ([] :: kvs)) 0 = length kvs"
    by (rule leaf_position) (use assms in auto)
  with leaf_keysD(2) [OF assms(1)] show ?thesis by (simp add: leaf_has_key_def)
qed

lemma leaf_place:
  assumes "leaf_cell ord par (A @ B) n" "\<forall>k \<in> fst ` set A. k < key" "\<forall>k \<in> fst ` set B. key < k"
  shows "advance (\<lambda>i. nd_keys n ! i < key) (length A + length B) 0 = length A"
  by (rule leaf_position [OF assms(1,2)]) (use assms(3) in \<open>cases B; auto\<close>)

section \<open>A leaf with room\<close>

text \<open>A new cell for one leaf of the tree.\<close>

lemma stores_leaf:
  assumes "stores ord s (plug c (Lf a kvs))" "leaf_cell ord (parent_of c) kvs' n'"
  shows "stores ord (s\<lparr>bt_heap := (bt_heap s)(a \<mapsto> n')\<rparr>) (plug c (Lf a kvs'))"
proof -
  have st: "holds ord (bt_heap s) None (plug c (Lf a kvs))" "distinct (nodes_of (plug c (Lf a kvs)))"
    "\<forall>b \<in> set (nodes_of (plug c (Lf a kvs))). b < bt_fresh s" "bt_root s = root_of (plug c (Lf a kvs))"
    using assms(1) unfolding stores_def by blast+
  have "path_holds ord (bt_heap s) c a" using st(1) by (simp add: holds_plug)
  then have "path_holds ord ((bt_heap s)(a \<mapsto> n')) c a"
    by (rule path_holds_other) (use st(2) in \<open>auto simp: nodes_plug_distinct\<close>)
  with assms(2) have "holds ord ((bt_heap s)(a \<mapsto> n')) None (plug c (Lf a kvs'))" by (simp add: holds_plug)
  with st(2-4) root_plug [of "Lf a kvs" "Lf a kvs'" c] show ?thesis
    by (simp add: stores_def nodes_plug_distinct nodes_plug_set)
qed

lemma stores_leaf_cell:
  assumes "stores ord s (plug c (Lf a kvs))"
  obtains n where "bt_heap s a = Some n" "leaf_cell ord (parent_of c) kvs n"
  using assms by (auto simp: stores_def holds_plug)

lemma leaf_refines:
  assumes st: "stores ord s (plug c (Lf a kvs))" and kvs: "sorted_wrt (<) (map fst kvs)"
    and room: "length kvs < ord - 1 \<or> key \<in> fst ` set kvs"
  shows "\<exists>h. insert_into_leaf ord a key item s = Some (s\<lparr>bt_heap := h\<rparr>) \<and>
    stores ord (s\<lparr>bt_heap := h\<rparr>) (plug c (Lf a (ins_kvs key item kvs))) \<and> (\<forall>b. next_of h b = next_of (bt_heap s) b)"
proof -
  from st obtain n where n: "bt_heap s a = Some n" "leaf_cell ord (parent_of c) kvs n" by (rule stores_leaf_cell)
  note cell = leaf_keysD [OF n(2)]
  have result: ?thesis if "insert_into_leaf ord a key item s = Some (put_node a n' s)"
    "leaf_cell ord (parent_of c) (ins_kvs key item kvs) n'" "nd_next n' = nd_next n" for n'
    using that stores_leaf [OF st that(2)] n(1)
    by (intro exI [of _ "(bt_heap s)(a \<mapsto> n')"]) (simp add: put_node_def next_of_def)
  from kvs show ?thesis
  proof (cases rule: ins_kvs_cases [where key = key and item = item])
    case (found A items B)
    let ?n = "n\<lparr>nd_pointers := (nd_pointers n)[length A := Chain (item # items)]\<rparr>"
    note has = leaf_has_found [OF n(2) [unfolded found(1)] found(2)]
    show ?thesis
    proof (rule result)
      show "insert_into_leaf ord a key item s = Some (put_node a ?n s)"
        by (simp add: insert_into_leaf_def get_node_def n(1) has)
      have "take (length kvs) ((nd_pointers n)[length A := Chain (item # items)]) =
          map (\<lambda>kv. Chain (snd kv)) (ins_kvs key item kvs)"
        unfolding take_update_swap cell(3) found(4) by (simp add: found(1) list_update_append)
      then show "leaf_cell ord (parent_of c) (ins_kvs key item kvs) ?n"
        using n(2) found(1,4) by (simp add: leaf_cell_def)
    qed simp
  next
    case (new A B)
    have len: "length kvs = length A + length B" by (simp add: new(1))
    from room new(4) have r: "length A + length B < ord - 1" by (simp add: len)
    let ?k = "length A + length B"
    let ?n = "n\<lparr>nd_keys := (shift_cells (length A) ?k (nd_keys n))[length A := key],
        nd_pointers := (shift_cells (length A) ?k (nd_pointers n))[length A := Chain [item]], nd_num_keys := ?k + 1\<rparr>"
    have ip: "advance (\<lambda>i. nd_keys n ! i < key) ?k 0 = length A"
      by (rule leaf_place [OF n(2) [unfolded new(1)] new(2,3)])
    show ?thesis
    proof (rule result)
      show "insert_into_leaf ord a key item s = Some (put_node a ?n s)"
        using r less_diff_conv [of ?k ord 1]
        by (simp add: insert_into_leaf_def get_node_def n(1) leaf_has_new [OF n(2) new(4)] cell(2,5,6) len ip Let_def)
      have "take (?k + 1) ((shift_cells (length A) ?k (nd_keys n))[length A := key]) = map fst A @ key # map fst B"
        by (rule take_insert) (use r cell(1,5) len new(1) in simp_all)
      moreover have "take (?k + 1) ((shift_cells (length A) ?k (nd_pointers n))[length A := Chain [item]]) =
          map (\<lambda>kv. Chain (snd kv)) A @ Chain [item] # map (\<lambda>kv. Chain (snd kv)) B"
        by (rule take_insert) (use r cell(3,6) len new(1) in simp_all)
      ultimately show "leaf_cell ord (parent_of c) (ins_kvs key item kvs) ?n"
        using n(2) r cell(4) by (simp add: leaf_cell_def new(5) len)
    qed simp
  qed
qed

section \<open>A leaf that splits\<close>

lemma leaf_halves:
  assumes "sorted_wrt (<) (map fst kvs)" "\<forall>k \<in> fst ` set kvs. within lo hi k" "1 \<le> m" "m < length kvs"
  defines "k \<equiv> fst (kvs ! m)"
  shows "bt_ordered lo (Some k) (Lf a (take m kvs))" "bt_ordered (Some k) hi (Lf f (drop m kvs))" "below lo (Some k)" "below (Some k) hi"
proof -
  have kvs: "kvs = take m kvs @ kvs ! m # drop (m + 1) kvs" using id_take_nth_drop [OF assms(4)] by simp
  have d: "drop m kvs = kvs ! m # drop (m + 1) kvs" using Cons_nth_drop_Suc [OF assms(4)] by simp
  have "sorted_wrt (<) (map fst (take m kvs) @ map fst (drop m kvs))"
    unfolding map_append [symmetric] append_take_drop_id by (rule assms(1))
  then have s: "sorted_wrt (<) (map fst (take m kvs))" "sorted_wrt (<) (map fst (drop m kvs))"
    "\<forall>x \<in> set (map fst (take m kvs)). \<forall>y \<in> set (map fst (drop m kvs)). x < y"
    unfolding sorted_wrt_append by blast+
  have lt: "x < k" if "x \<in> fst ` set (take m kvs)" for x using s(3) that by (auto simp: d k_def)
  have ge: "k \<le> x" if "x \<in> fst ` set (drop m kvs)" for x using s(2) that by (auto simp: d k_def)
  have wt: "within lo hi x" if "x \<in> fst ` set (take m kvs)" for x using assms(2) that in_set_takeD by fastforce
  have wd: "within lo hi x" if "x \<in> fst ` set (drop m kvs)" for x using assms(2) that in_set_dropD by fastforce
  show "bt_ordered lo (Some k) (Lf a (take m kvs))"
    using s(1) lt wt by (auto simp: within_def below_def)
  show "bt_ordered (Some k) hi (Lf f (drop m kvs))"
    using s(2) ge wd by (auto simp: within_def)
  have "fst (kvs ! 0) \<in> fst ` set (take m kvs)" using assms(3,4)
    by (metis Suc_le_eq One_nat_def image_eqI in_set_conv_nth length_take min_less_iff_conj nth_take order_less_trans)
  from lt [OF this] wt [OF this] show "below lo (Some k)" by (auto simp: within_def below_def split: option.splits)
  show "below (Some k) hi" using wd [of k] by (simp add: d k_def within_def)
qed

lemma leaf_split_refines:
  fixes item :: item
  assumes st: "stores ord s (plug c (Lf a kvs))" and o: "sorted_wrt (<) (map fst kvs)" "\<forall>k \<in> fst ` set kvs. within (hole_lo c) (hole_hi c) k"
    and key: "within (hole_lo c) (hole_hi c) key" "key \<notin> fst ` set kvs" and full: "\<not> length kvs < ord - 1" and ord: "3 \<le> ord"
    and c: "shaped c" "path_ordered c"
  defines "kvs' \<equiv> ins_kvs key item kvs" and "m \<equiv> cut (ord - 1)" and "f \<equiv> bt_fresh s"
  shows "\<exists>h. split_lf_insert ord a key item s = insert_into_parent ord a (fst (kvs' ! m)) f (s\<lparr>bt_heap := h, bt_fresh := f + 1\<rparr>) \<and>
    pending ord (s\<lparr>bt_heap := h, bt_fresh := f + 1\<rparr>) c (Lf a (take m kvs')) (fst (kvs' ! m)) (Lf f (drop m kvs')) \<and>
    next_of h a = Some f \<and> next_of h f = next_of (bt_heap s) a \<and>
    (\<forall>b. b \<noteq> a \<longrightarrow> b \<noteq> f \<longrightarrow> next_of h b = next_of (bt_heap s) b)"
proof -
  from st obtain n where n: "bt_heap s a = Some n" "leaf_cell ord (parent_of c) kvs n" by (rule stores_leaf_cell)
  note cell = leaf_keysD [OF n(2)]
  have len: "length kvs = ord - 1" using full cell(4) by simp
  from o(1) obtain A B where new: "kvs = A @ B" "\<forall>k \<in> fst ` set A. k < key" "\<forall>k \<in> fst ` set B. key < k"
      "kvs' = A @ (key, [item]) # B"
    unfolding kvs'_def by (cases rule: ins_kvs_cases [where key = key and item = item]) (use key(2) in blast)+
  have lAB: "length A + length B = ord - 1" using len by (simp add: new(1))
  have o1: "ord - 1 + 1 = ord" using ord by simp
  have m: "1 \<le> m" "m < ord - 1" using cut_bounds [of "ord - 1"] ord by (simp_all add: m_def)
  have lk: "length kvs' = ord" using lAB ord by (simp add: new(4))
  have ip: "advance (\<lambda>i. nd_keys n ! i < key) (ord - 1) 0 = length A"
    using leaf_place [OF n(2) [unfolded new(1)] new(2,3)] by (simp add: lAB)
  have tk: "(spread (length A) (ord - 1) (nd_keys n) 0 0 (replicate ord 0))[length A := key] = map fst kvs'"
  proof -
    have "(spread (length A) (ord - 1) (nd_keys n) 0 0 (replicate (ord - 1 + 1) 0))[length A := key] =
        map fst A @ key # map fst B"
      by (rule spread_whole) (use cell(1,5) len new(1) lAB in simp_all)
    then show ?thesis unfolding o1 by (simp add: new(4))
  qed
  have tp: "(spread (length A) (ord - 1) (nd_pointers n) 0 0 (replicate ord Null))[length A := Chain [item]] =
      map (\<lambda>kv. Chain (snd kv)) kvs'"
  proof -
    have "(spread (length A) (ord - 1) (nd_pointers n) 0 0 (replicate (ord - 1 + 1) Null))[length A := Chain [item]] =
        map (\<lambda>kv. Chain (snd kv)) A @ Chain [item] # map (\<lambda>kv. Chain (snd kv)) B"
      by (rule spread_whole) (use cell(3,6) len new(1) lAB in simp_all)
    then show ?thesis unfolding o1 by (simp add: new(4))
  qed
  define o' where "o' = n\<lparr>nd_keys := copy_cells (map fst kvs') 0 m 0 (nd_keys n),
    nd_pointers := copy_cells (replicate (ord - 1) Null) m (ord - 1) m
      (copy_cells (map (\<lambda>kv. Chain (snd kv)) kvs') 0 m 0 (nd_pointers n)), nd_num_keys := m, nd_next := Some f\<rparr>"
  define keys where "keys = copy_cells (map fst kvs') m ord 0 (replicate (ord - 1) 0)"
  define n' where "n' = \<lparr>nd_pointers = copy_cells (replicate (ord - 1) Null) (ord - m) (ord - 1) (ord - m)
      (copy_cells (map (\<lambda>kv. Chain (snd kv)) kvs') m ord 0 (replicate ord Null)), nd_is_leaf = True, nd_keys = keys,
    nd_parent = nd_parent n, nd_num_keys = ord - m, nd_next = nd_next n\<rparr>"
  let ?h = "(bt_heap s)(a \<mapsto> o', f \<mapsto> n')" and ?k = "fst (kvs' ! m)"
  let ?s = "s\<lparr>bt_heap := ?h, bt_fresh := f + 1\<rparr>"
  have ks: "take (ord - m) keys = map fst (drop m kvs')"
    using copy_take [of ord "map fst kvs'" m "replicate (ord - 1) 0"] m lk by (simp add: keys_def drop_map)
  have "take (ord - m) keys ! 0 = ?k" unfolding ks using m lk by simp
  then have k0: "keys ! 0 = ?k" using m by simp
  have af: "a < f" using st by (auto simp: stores_def nodes_plug_set f_def)
  have run: "split_lf_insert ord a key item s = insert_into_parent ord a ?k f ?s"
  proof -
    have fa: "f \<noteq> a" "a \<noteq> f" "m < ord" using af m by simp_all
    have sw: "s\<lparr>bt_heap := H, bt_fresh := F\<rparr> = s\<lparr>bt_fresh := F, bt_heap := H\<rparr>" for H F by simp
    show ?thesis
      unfolding split_lf_insert_def make_lf_def make_node_def Let_def prod.case f_def [symmetric] sw o'_def n'_def keys_def
      using fa
      by (simp add: get_node_def put_node_def n(1) cell(2) len ip [simplified] tk [simplified] tp [simplified] m_def [THEN meta_eq_to_obj_eq, symmetric, simplified]
          k0 [unfolded keys_def, simplified] fun_upd_twist [OF fa(1)])
  qed
  have oc: "leaf_cell ord (parent_of c) (take m kvs') o'"
    using copy_take [of m "map fst kvs'" 0 "nd_keys n"] copy_take [of m "map (\<lambda>kv. Chain (snd kv)) kvs'" 0 "nd_pointers n"]
      m lk cell by (simp add: leaf_cell_def o'_def copy_beyond take_map)
  have nc: "leaf_cell ord (parent_of c) (drop m kvs') n'"
    using ks copy_take [of ord "map (\<lambda>kv. Chain (snd kv)) kvs'" m "replicate ord Null"] m lk cell(8)
    by (auto simp: leaf_cell_def n'_def copy_beyond drop_map keys_def)
  have w: "\<forall>k \<in> fst ` set kvs'. within (hole_lo c) (hole_hi c) k"
    unfolding kvs'_def ins_kvs_keys using key(1) o(2) by blast
  have "m < length kvs'" using m lk by simp
  note two = leaf_halves [OF ins_kvs_sorted [OF o(1), of key item, folded kvs'_def] w m(1) this]
  note h = st [unfolded stores_def holds_plug nodes_plug_distinct nodes_plug_set]
  have ph: "path_holds ord ?h c a"
    by (rule path_holds_other [of ord "bt_heap s"]) (use h in \<open>auto simp: f_def\<close>)
  have dis: "distinct (path_nodes c @ [a] @ [f])" "\<forall>b \<in> set (path_nodes c @ [a] @ [f]). b < f + 1"
    using h by (auto simp: f_def intro: less_SucI)
  have rt: "bt_root ?s = root_of (plug c (Lf a (take m kvs')))"
    using h root_plug [of "Lf a kvs" "Lf a (take m kvs')" c] by simp
  have pend: "pending ord ?s c (Lf a (take m kvs')) ?k (Lf f (drop m kvs'))"
    unfolding pending_def using ph dis rt c two oc nc af by simp
  have nx: "next_of ?h a = Some f" "next_of ?h f = next_of (bt_heap s) a"
    "\<forall>b. b \<noteq> a \<longrightarrow> b \<noteq> f \<longrightarrow> next_of ?h b = next_of (bt_heap s) b"
    using af n(1) by (auto simp: next_of_def o'_def n'_def)
  from run pend nx show ?thesis by blast
qed

end
