(* ===== verification/Btree_Index.thy ===== *)
theory Btree_Index
  imports Btree_Leaf
begin

text \<open>
  The B+ tree as an index: what \<open>index_insert\<close>, \<open>index_read\<close> and \<open>index_next\<close> do to the sorted list of keys
  and chains, and when an insertion fails.
\<close>

section \<open>The leaves as a chain\<close>

fun chained :: "bt_cells \<Rightarrow> nid list \<Rightarrow> bool" where
  "chained h [] \<longleftrightarrow> True"
| "chained h [a] \<longleftrightarrow> next_of h a = None"
| "chained h (a # b # as) \<longleftrightarrow> next_of h a = Some b \<and> chained h (b # as)"

lemma chained_cong: "\<forall>a \<in> set as. next_of h' a = next_of h a \<Longrightarrow> chained h' as \<longleftrightarrow> chained h as"
  by (induction h as rule: chained.induct) auto

lemma chained_split:
  assumes "chained h (L @ a # R)" "next_of h' a = Some f" "next_of h' f = next_of h a"
    "\<forall>b \<in> set L \<union> set R. next_of h' b = next_of h b"
  shows "chained h' (L @ a # f # R)"
  using assms
proof (induction L)
  case Nil
  show ?case
  proof (cases R)
    case (Cons b R')
    have "chained h' (b # R') \<longleftrightarrow> chained h (b # R')" by (rule chained_cong) (use Nil.prems(4) Cons in simp)
    with Nil.prems Cons show ?thesis by simp
  qed (use Nil.prems in simp)
next
  case (Cons x L)
  obtain y ys where y: "L @ a # R = y # ys" "L @ a # f # R = y # tl (L @ a # f # R)" by (cases L) auto
  have "chained h (L @ a # R) \<and> next_of h x = Some y" using Cons.prems(1) by (simp add: y(1))
  then have "chained h' (L @ a # f # R)" "next_of h' x = Some y" using Cons by auto
  then show ?case by (metis append_Cons chained.simps(3) y(2))
qed

section \<open>The invariant\<close>

definition btree_inv :: "nat \<Rightarrow> index_btree \<Rightarrow> bt \<Rightarrow> bool" where
  "btree_inv ord s t \<longleftrightarrow> stores ord s t \<and> bt_ordered None None t \<and> (\<exists>h. balanced h t) \<and> (filled t \<or> (\<exists>a. t = Lf a [])) \<and>
     chained (bt_heap s) (map fst (leaves_of t))"

definition bt_insert :: "nat \<Rightarrow> nid \<Rightarrow> idx_key \<Rightarrow> item \<Rightarrow> bt \<Rightarrow> bt option" where
  "bt_insert ord f key item t = (case descend key [] t of (c, a, kvs) \<Rightarrow> tree_insert ord f key item c a kvs)"

lemma balanced_height: "balanced h (plug c t) \<Longrightarrow> \<exists>h'. h = h' + length c \<and> balanced h' t"
proof (induction c arbitrary: t)
  case (Cons f c)
  obtain a kl ls kr rs where f: "f = Frame a kl ls kr rs" by (cases f)
  from Cons.IH [of "Nd a (kl @ kr) (ls @ t # rs)"] Cons.prems show ?case by (auto simp: f)
qed simp

text \<open>What is known about the leaf where a key belongs.\<close>

lemma leaf_facts:
  assumes "btree_inv ord s t" "descend key [] t = (c, a, kvs)"
  shows "t = plug c (Lf a kvs)" "shaped c" "within (hole_lo c) (hole_hi c) key" "path_ordered c"
    "sorted_wrt (<) (map fst kvs)" "\<forall>k \<in> fst ` set kvs. within (hole_lo c) (hole_hi c) k" "length c \<le> 64" "bal_path 0 c"
proof -
  from assms(1) obtain h where h: "balanced h t" by (auto simp: btree_inv_def)
  have "plug c (Lf a kvs) = plug [] t \<and> shaped c \<and> within (hole_lo c) (hole_hi c) key"
    by (rule descend_spec [OF h _ _ assms(2)]) (simp_all add: within_def below_def)
  then show t: "t = plug c (Lf a kvs)" and c: "shaped c" and "within (hole_lo c) (hole_hi c) key" by simp_all
  have "bt_ordered None None (plug c (Lf a kvs))" using assms(1) by (simp add: btree_inv_def t)
  then have o: "path_ordered c" "bt_ordered (hole_lo c) (hole_hi c) (Lf a kvs)" using ordered_plug [OF c] by simp_all
  from o(1) show "path_ordered c" .
  from o(2) show "sorted_wrt (<) (map fst kvs)" "\<forall>k \<in> fst ` set kvs. within (hole_lo c) (hole_hi c) k" by auto
  from h balanced_height [of h c "Lf a kvs"] have b: "balanced (length c) t" by (auto simp: t)
  then have "balanced (0 + length c) (plug c (Lf a kvs))" by (simp add: t)
  then show "bal_path 0 c" using balanced_plug [OF c] by blast
  from assms(1) consider "filled t" | "\<exists>a. t = Lf a []" by (auto simp: btree_inv_def)
  then show "length c \<le> 64"
  proof cases
    case 1
    have "sorted_wrt (<) (map fst (bt_entries t))" using assms(1) ordered_sorted(1) by (auto simp: btree_inv_def)
    then show ?thesis by (rule height_bound [OF b 1])
  next
    case 2
    with assms(2) show ?thesis by auto
  qed
qed

lemma find_leaf_refines:
  assumes "btree_inv ord s t" "descend key [] t = (c, a, kvs)"
  shows "\<exists>last'. find_leaf ord ins key s = Some (a, last') \<and> (\<forall>e. last' = Some e \<longrightarrow> e \<in> set (frame_addrs c))"
proof -
  from assms(1) obtain h where h: "balanced h t" "holds ord (bt_heap s) None t" "bt_root s = root_of t"
    by (auto simp: btree_inv_def stores_def)
  show ?thesis unfolding find_leaf_def h(3)
    by (rule find_leaf_loop_refines [OF assms(2) h(1)]) (use h(2) in simp_all)
qed

lemma leaf_has_iff:
  assumes "leaf_cell ord par kvs n" "sorted_wrt (<) (map fst kvs)"
  shows "leaf_has_key n key \<noteq> None \<longleftrightarrow> key \<in> fst ` set kvs"
  using assms(2)
proof (cases rule: ins_kvs_cases [where key = key and item = undefined])
  case (found A items B)
  then show ?thesis using leaf_has_found(1) assms(1) by fastforce
next
  case (new A B)
  then show ?thesis using leaf_has_new [OF assms(1)] by simp
qed

section \<open>Insertion on the tree\<close>

lemma tree_insert_leaves:
  assumes "3 \<le> ord" "tree_insert ord f key item c a kvs = Some t'"
  shows "leaves_of t' = left_leaves c @ (if length kvs < ord - 1 \<or> key \<in> fst ` set kvs then [(a, ins_kvs key item kvs)]
      else [(a, take (cut (ord - 1)) (ins_kvs key item kvs)), (f, drop (cut (ord - 1)) (ins_kvs key item kvs))]) @ right_leaves c"
  using assms up_leaves [of ord] by (auto simp: tree_insert_def leaves_plug Let_def split: if_splits)

lemma tree_insert_entries:
  assumes "3 \<le> ord" "tree_insert ord f key item c a kvs = Some t'" "path_ordered c" "within (hole_lo c) (hole_hi c) key"
  shows "bt_entries t' = ins_kvs key item (bt_entries (plug c (Lf a kvs)))"
proof -
  have "bt_entries t' = path_entries c (ins_kvs key item kvs)"
    unfolding bt_entries_def tree_insert_leaves [OF assms(1,2)] by (simp add: path_entries_def)
  then show ?thesis by (simp add: entries_plug ins_kvs_path [OF assms(3,4)])
qed

text \<open>The part of the invariant that is about the tree.\<close>

lemma tree_insert_ok:
  assumes ord: "3 \<le> ord" and t': "tree_insert ord f key item c a kvs = Some t'" and c: "shaped c" "path_ordered c" "bal_path 0 c"
    and key: "within (hole_lo c) (hole_hi c) key" and kvs: "sorted_wrt (<) (map fst kvs)" "\<forall>k \<in> fst ` set kvs. within (hole_lo c) (hole_hi c) k"
    and fill: "\<forall>(a, kvs) \<in> set (left_leaves c @ right_leaves c). kvs \<noteq> []"
  shows "bt_ordered None None t' \<and> (\<exists>h. balanced h t') \<and> filled t'"
proof -
  let ?kvs = "ins_kvs key item kvs" and ?m = "cut (ord - 1)"
  have w: "\<forall>k \<in> fst ` set ?kvs. within (hole_lo c) (hole_hi c) k" unfolding ins_kvs_keys using key kvs(2) by blast
  have s: "sorted_wrt (<) (map fst ?kvs)" by (rule ins_kvs_sorted [OF kvs(1)])
  have ne: "?kvs \<noteq> []" using ins_kvs_keys [of key item kvs] by (cases ?kvs) auto
  have m: "1 \<le> ?m" "?m < ord - 1" using cut_bounds [of "ord - 1"] ord by simp_all
  show ?thesis
  proof (cases "length kvs < ord - 1 \<or> key \<in> fst ` set kvs")
    case True
    then have t: "t' = plug c (Lf a ?kvs)" using t' by (simp add: tree_insert_def Let_def)
    have "bt_ordered None None t'" using ordered_plug [OF c(1)] c(2) s w by (simp add: t)
    moreover have "balanced (0 + length c) t'" unfolding t balanced_plug [OF c(1)] using c(3) by simp
    moreover have "filled t'" using fill ne by (auto simp: filled_def t leaves_plug)
    ultimately show ?thesis by blast
  next
    case False
    have len: "?m < length ?kvs" using False m ins_kvs_length [OF kvs(1), of key item] by simp
    note two = leaf_halves [OF s w m(1) len]
    have u: "up ord (f + 1) c (Lf a (take ?m ?kvs)) (fst (?kvs ! ?m)) (Lf f (drop ?m ?kvs)) = Some t'"
      using t' False by (simp add: tree_insert_def Let_def)
    have "bt_ordered None None t'" by (rule up_ordered [OF _ u c(1,2) two]) (use ord in simp)
    moreover have "\<exists>h. balanced h t'" by (rule up_balanced [OF ord u c(1,3)]) simp_all
    moreover have "filled t'" unfolding filled_def tree_insert_leaves [OF ord t'] using fill False m(1) len ne by auto
    ultimately show ?thesis by blast
  qed
qed

section \<open>Insertion on the heap\<close>

lemma stores_cursor: "stores ord (s\<lparr>bt_cur_leaf := x, bt_cur_idx := y\<rparr>) t \<longleftrightarrow> stores ord s t"
  by (simp add: stores_def)

lemma inv_filled_rest:
  assumes "btree_inv ord s t" "t = plug c (Lf a kvs)"
  shows "\<forall>(a, kvs) \<in> set (left_leaves c @ right_leaves c). kvs \<noteq> []"
proof -
  from assms(1) consider "filled t" | b where "t = Lf b []" by (auto simp: btree_inv_def)
  then show ?thesis
  proof cases
    case 1
    then show ?thesis by (auto simp: filled_def assms(2) leaves_plug)
  next
    case 2
    have "leaves_of t = left_leaves c @ (a, kvs) # right_leaves c" by (simp add: assms(2) leaves_plug)
    with 2 show ?thesis by (auto simp: append_eq_Cons_conv Cons_eq_append_conv)
  qed
qed

lemma leaf_addrs_distinct: "distinct (nodes_of t) \<Longrightarrow> distinct (map fst (leaves_of t))"
proof (induction t)
  case (Nd a ks ts)
  have "distinct (concat (map nodes_of us)) \<Longrightarrow> (\<And>t. t \<in> set us \<Longrightarrow> distinct (nodes_of t) \<Longrightarrow> distinct (map fst (leaves_of t))) \<Longrightarrow>
      distinct (map fst (concat (map leaves_of us)))" for us
  proof (induction us)
    case (Cons u us)
    have "fst ` set (concat (map leaves_of us)) \<subseteq> set (concat (map nodes_of us))" using leaves_in_nodes by fastforce
    then have "fst ` set (leaves_of u) \<inter> fst ` set (concat (map leaves_of us)) = {}"
      using leaves_in_nodes [of u] Cons.prems(1) by (simp del: set_concat) blast
    with Cons show ?case by simp
  qed simp
  with Nd show ?case by simp
qed simp

lemma insert_room:
  assumes inv: "btree_inv ord s (plug c (Lf a kvs))" and kvs: "sorted_wrt (<) (map fst kvs)"
    and room: "length kvs < ord - 1 \<or> key \<in> fst ` set kvs"
  shows "\<exists>h. insert_into_leaf ord a key item s = Some (s\<lparr>bt_heap := h\<rparr>) \<and>
    stores ord (s\<lparr>bt_heap := h\<rparr>) (plug c (Lf a (ins_kvs key item kvs))) \<and>
    chained h (map fst (leaves_of (plug c (Lf a (ins_kvs key item kvs)))))"
proof -
  have st: "stores ord s (plug c (Lf a kvs))" and ch: "chained (bt_heap s) (map fst (leaves_of (plug c (Lf a kvs))))"
    using inv by (simp_all add: btree_inv_def)
  from leaf_refines [OF st kvs room, of item] obtain h
    where h: "insert_into_leaf ord a key item s = Some (s\<lparr>bt_heap := h\<rparr>)"
      "stores ord (s\<lparr>bt_heap := h\<rparr>) (plug c (Lf a (ins_kvs key item kvs)))" "\<forall>b. next_of h b = next_of (bt_heap s) b"
    by (elim exE conjE)
  have "map fst (leaves_of (plug c (Lf a (ins_kvs key item kvs)))) = map fst (leaves_of (plug c (Lf a kvs)))"
    by (simp add: leaves_plug)
  moreover have "chained h (map fst (leaves_of (plug c (Lf a kvs))))"
    using chained_cong [of "map fst (leaves_of (plug c (Lf a kvs)))" h "bt_heap s"] h(3) ch by simp
  ultimately show ?thesis using h(1,2) by auto
qed

lemma insert_split:
  assumes inv: "btree_inv ord s (plug c (Lf a kvs))" and o: "sorted_wrt (<) (map fst kvs)" "\<forall>k \<in> fst ` set kvs. within (hole_lo c) (hole_hi c) k"
    and key: "within (hole_lo c) (hole_hi c) key" "key \<notin> fst ` set kvs" and full: "\<not> length kvs < ord - 1"
    and ord: "3 \<le> ord" "ord < 2 ^ 32" and c: "shaped c" "path_ordered c"
  shows "case tree_insert ord (bt_fresh s) key item c a kvs of
      None \<Rightarrow> split_lf_insert ord a key item s = None
    | Some t' \<Rightarrow> \<exists>h f r. split_lf_insert ord a key item s = Some (s\<lparr>bt_heap := h, bt_fresh := f, bt_root := r\<rparr>) \<and>
        stores ord (s\<lparr>bt_heap := h, bt_fresh := f, bt_root := r\<rparr>) t' \<and> chained h (map fst (leaves_of t'))"
proof -
  have st: "stores ord s (plug c (Lf a kvs))" and ch: "chained (bt_heap s) (map fst (leaves_of (plug c (Lf a kvs))))"
    using inv by (simp_all add: btree_inv_def)
  let ?kvs = "ins_kvs key item kvs" and ?m = "cut (ord - 1)" and ?f = "bt_fresh s"
  let ?k = "fst (?kvs ! ?m)" and ?l = "Lf a (take ?m ?kvs)" and ?r = "Lf ?f (drop ?m ?kvs)"
  from leaf_split_refines [OF st o key full ord(1) c, of item] obtain h
    where h: "split_lf_insert ord a key item s = insert_into_parent ord a ?k ?f (s\<lparr>bt_heap := h, bt_fresh := ?f + 1\<rparr>)"
      "pending ord (s\<lparr>bt_heap := h, bt_fresh := ?f + 1\<rparr>) c ?l ?k ?r"
      "next_of h a = Some ?f" "next_of h ?f = next_of (bt_heap s) a"
      "\<forall>b. b \<noteq> a \<longrightarrow> b \<noteq> ?f \<longrightarrow> next_of h b = next_of (bt_heap s) b" by (elim exE conjE)
  let ?s = "s\<lparr>bt_heap := h, bt_fresh := ?f + 1\<rparr>"
  have U: "tree_insert ord ?f key item c a kvs = up ord (bt_fresh ?s) c ?l ?k ?r"
    using key(2) full by (simp add: tree_insert_def Let_def)
  have up: "case up ord (bt_fresh ?s) c ?l ?k ?r of
      None \<Rightarrow> insert_into_parent ord (root_of ?l) ?k (root_of ?r) ?s = None
    | Some t \<Rightarrow> \<exists>h' f r. insert_into_parent ord (root_of ?l) ?k (root_of ?r) ?s = Some (?s\<lparr>bt_heap := h', bt_fresh := f, bt_root := r\<rparr>) \<and>
        stores ord (?s\<lparr>bt_heap := h', bt_fresh := f, bt_root := r\<rparr>) t \<and>
        (\<forall>b \<in> leaf_nodes c ?l ?r. next_of h' b = next_of (bt_heap ?s) b)"
    by (rule up_refines [OF ord h(2)]) (use h(3) in simp)
  have upd: "?s\<lparr>bt_heap := h', bt_fresh := f, bt_root := e\<rparr> = s\<lparr>bt_heap := h', bt_fresh := f, bt_root := e\<rparr>" for h' f e
    by simp
  show ?thesis
  proof (cases "up ord (bt_fresh ?s) c ?l ?k ?r")
    case None
    with up show ?thesis unfolding U h(1) by simp
  next
    case (Some t')
    from up obtain h' f r where e: "insert_into_parent ord a ?k ?f ?s = Some (s\<lparr>bt_heap := h', bt_fresh := f, bt_root := r\<rparr>)"
        "stores ord (s\<lparr>bt_heap := h', bt_fresh := f, bt_root := r\<rparr>) t'"
        "\<forall>b \<in> leaf_nodes c ?l ?r. next_of h' b = next_of (bt_heap ?s) b"
      unfolding Some option.case upd root_of.simps by (elim exE conjE)
    have lv: "map fst (leaves_of t') = map fst (left_leaves c) @ a # ?f # map fst (right_leaves c)"
      using up_leaves [OF _ Some] ord(1) by simp
    have old: "map fst (leaves_of (plug c (Lf a kvs))) = map fst (left_leaves c) @ a # map fst (right_leaves c)"
      by (simp add: leaves_plug)
    have dis: "distinct (map fst (left_leaves c) @ a # map fst (right_leaves c))"
      using leaf_addrs_distinct [of "plug c (Lf a kvs)"] st unfolding old by (simp add: stores_def)
    have "fst ` set (leaves_of (plug c (Lf a kvs))) \<subseteq> set (nodes_of (plug c (Lf a kvs)))" by (rule leaves_in_nodes)
    then have "?f \<notin> set (map fst (leaves_of (plug c (Lf a kvs))))" using st by (auto simp: stores_def)
    then have fr: "?f \<notin> set (map fst (left_leaves c) @ a # map fst (right_leaves c))" unfolding old .
    have "b \<noteq> a \<and> b \<noteq> ?f" if "b \<in> set (map fst (left_leaves c)) \<union> set (map fst (right_leaves c))" for b
    proof -
      have "b \<noteq> a" using that dis unfolding distinct_append distinct.simps list.set by blast
      moreover have "b \<noteq> ?f" using that fr unfolding set_append list.set by blast
      ultimately show ?thesis ..
    qed
    with h(5) have "\<forall>b \<in> set (map fst (left_leaves c)) \<union> set (map fst (right_leaves c)). next_of h b = next_of (bt_heap s) b"
      by blast
    then have "chained h (map fst (left_leaves c) @ a # ?f # map fst (right_leaves c))"
      by (rule chained_split [OF ch [unfolded old] h(3,4)])
    moreover have "next_of h' b = next_of h b" if "b \<in> set (map fst (leaves_of t'))" for b
      using e(3) that unfolding lv leaf_nodes_def by auto
    ultimately have "chained h' (map fst (leaves_of t'))"
      using chained_cong [of "map fst (leaves_of t')" h' h] unfolding lv by blast
    with e(1,2) show ?thesis unfolding U Some option.case h(1) by blast
  qed
qed

lemma btree_insert_tree:
  assumes inv: "btree_inv ord s t" and ord: "3 \<le> ord" "ord < 2 ^ 32"
  shows "case bt_insert ord (bt_fresh s) key item t of
      None \<Rightarrow> btree_insert ord key item s = None
    | Some t' \<Rightarrow> \<exists>s'. btree_insert ord key item s = Some s' \<and> btree_inv ord s' t' \<and> bt_entries t' = ins_kvs key item (bt_entries t) \<and>
        bt_cur_leaf s' = bt_cur_leaf s \<and> bt_cur_idx s' = bt_cur_idx s"
proof -
  obtain c a kvs where d: "descend key [] t = (c, a, kvs)" by (cases "descend key [] t")
  note f = leaf_facts [OF inv d]
  have ti: "bt_insert ord (bt_fresh s) key item t = tree_insert ord (bt_fresh s) key item c a kvs"
    by (simp add: bt_insert_def d)
  from find_leaf_refines [OF inv d] obtain last' where last': "find_leaf ord True key s = Some (a, last')"
    "\<forall>e. last' = Some e \<longrightarrow> e \<in> set (frame_addrs c)" by blast
  have st: "stores ord s (plug c (Lf a kvs))" using inv by (simp add: btree_inv_def f(1))
  then obtain n where n: "bt_heap s a = Some n" "leaf_cell ord (parent_of c) kvs n" by (rule stores_leaf_cell)
  have ph: "path_holds ord (bt_heap s) c a" using st by (simp add: stores_def holds_plug)
  have depth: "\<exists>d. (case last' of None \<Rightarrow> Some 1 | Some e \<Rightarrow> ex_depth a e 0 s) = Some d"
  proof (cases last')
    case (Some e)
    have "\<exists>d'. ex_depth a e 0 s = Some d'"
      by (rule ex_depth_total [OF ph n(1)]) (use last'(2) Some f(7) leaf_keysD(8) [OF n(2)] in auto)
    then show ?thesis by (simp add: Some)
  qed simp
  have run: "btree_insert ord key item s =
      (if length kvs < ord - 1 \<or> key \<in> fst ` set kvs then insert_into_leaf ord a key item s else split_lf_insert ord a key item s)"
    using depth leaf_keysD(2) [OF n(2)] leaf_has_iff [OF n(2) f(5), of key]
    by (auto simp: btree_insert_def last'(1) get_node_def n(1))
  note rest = inv_filled_rest [OF inv f(1)]
  have inv': "btree_inv ord s' t' \<and> bt_entries t' = ins_kvs key item (bt_entries t)"
    if "stores ord s' t'" "chained (bt_heap s') (map fst (leaves_of t'))" "tree_insert ord (bt_fresh s) key item c a kvs = Some t'" for s' t'
    using that(1,2) tree_insert_ok [OF ord(1) that(3) f(2,4,8,3,5,6) rest] tree_insert_entries [OF ord(1) that(3) f(4,3)]
    by (simp add: btree_inv_def f(1))
  show ?thesis
  proof (cases "length kvs < ord - 1 \<or> key \<in> fst ` set kvs")
    case True
    from insert_room [OF inv [unfolded f(1)] f(5) True, of item] obtain h
      where h: "insert_into_leaf ord a key item s = Some (s\<lparr>bt_heap := h\<rparr>)"
        "stores ord (s\<lparr>bt_heap := h\<rparr>) (plug c (Lf a (ins_kvs key item kvs)))"
        "chained h (map fst (leaves_of (plug c (Lf a (ins_kvs key item kvs)))))" by (elim exE conjE)
    have t': "tree_insert ord (bt_fresh s) key item c a kvs = Some (plug c (Lf a (ins_kvs key item kvs)))"
      using True by (simp add: tree_insert_def Let_def)
    from inv' [OF h(2) _ t'] h(3) run True h(1) show ?thesis unfolding ti t' by simp
  next
    case False
    then have nk: "key \<notin> fst ` set kvs" "\<not> length kvs < ord - 1" by simp_all
    note sp = insert_split [OF inv [unfolded f(1)] f(5,6,3) nk ord f(2,4), of item]
    show ?thesis
    proof (cases "tree_insert ord (bt_fresh s) key item c a kvs")
      case None
      with sp run False show ?thesis unfolding ti None by simp
    next
      case (Some t')
      from sp obtain h f' r where h: "split_lf_insert ord a key item s = Some (s\<lparr>bt_heap := h, bt_fresh := f', bt_root := r\<rparr>)"
          "stores ord (s\<lparr>bt_heap := h, bt_fresh := f', bt_root := r\<rparr>) t'" "chained h (map fst (leaves_of t'))"
        unfolding Some option.case by (elim exE conjE)
      from inv' [OF h(2) _ Some] h(3) run False h(1) show ?thesis unfolding ti Some by simp
    qed
  qed
qed

end
