(* ===== verification/Btree_Scan.thy ===== *)
theory Btree_Scan
  imports Btree_Index
begin

text \<open>
  The B+ tree for its clients: reading a key, scanning from it, which insertions fail, and loading a table.
\<close>

section \<open>Reading\<close>

text \<open>The cursor of a thread is at the \<open>i\<close>-th key.\<close>

definition points_at :: "index_btree \<Rightarrow> nat \<Rightarrow> bt \<Rightarrow> nat \<Rightarrow> bool" where
  "points_at s thd t i \<longleftrightarrow> (\<exists>L a kvs R. leaves_of t = L @ (a, kvs) # R \<and> bt_cur_leaf s thd = Some a \<and>
     bt_cur_idx s thd < length kvs \<and> i = length (concat (map snd L)) + bt_cur_idx s thd)"

lemma inv_cursor:
  "btree_inv ord (s\<lparr>bt_cur_leaf := x\<rparr>) t \<longleftrightarrow> btree_inv ord s t" "btree_inv ord (s\<lparr>bt_cur_idx := y\<rparr>) t \<longleftrightarrow> btree_inv ord s t"
  by (simp_all add: btree_inv_def stores_def)

lemma path_map_of:
  assumes "path_ordered c" "within (hole_lo c) (hole_hi c) key"
  shows "map_of (path_entries c kvs) key = map_of kvs key"
proof -
  have "key \<notin> fst ` set (concat (map snd (left_leaves c)))"
  proof
    assume "key \<in> fst ` set (concat (map snd (left_leaves c)))"
    from left_keys [OF assms(1) this] assms(2) show False by (auto simp: within_def)
  qed
  moreover have "key \<notin> fst ` set (concat (map snd (right_leaves c)))"
  proof
    assume "key \<in> fst ` set (concat (map snd (right_leaves c)))"
    from right_keys [OF assms(1) this] assms(2) show False by (auto simp: within_def below_def)
  qed
  ultimately have "map_of (concat (map snd (left_leaves c))) key = None" "map_of (concat (map snd (right_leaves c))) key = None"
    unfolding map_of_eq_None_iff by blast+
  then show ?thesis unfolding path_entries_def map_of_append map_add_def by (auto split: option.splits)
qed

lemma read_missing:
  assumes inv: "btree_inv ord s t" and key: "map_of (bt_entries t) key = None"
  shows "btree_read ord key thd s = None"
proof -
  obtain c a kvs where d: "descend key [] t = (c, a, kvs)" by (cases "descend key [] t")
  note f = leaf_facts [OF inv d]
  from find_leaf_refines [OF inv d] obtain last' where last': "find_leaf ord False key s = Some (a, last')" by blast
  have "stores ord s (plug c (Lf a kvs))" using inv by (simp add: btree_inv_def f(1))
  then obtain n where n: "bt_heap s a = Some n" "leaf_cell ord (parent_of c) kvs n" by (rule stores_leaf_cell)
  have "map_of kvs key = None" using key path_map_of [OF f(4,3), of kvs] by (simp add: f(1) entries_plug)
  then have "key \<notin> fst ` set kvs" by (simp add: map_of_eq_None_iff)
  from leaf_has_new [OF n(2) this] show ?thesis by (simp add: btree_read_def last' get_node_def n(1))
qed

lemma read_found:
  assumes inv: "btree_inv ord s t" and key: "map_of (bt_entries t) key = Some items"
  shows "\<exists>s' i. btree_read ord key thd s = Some (items, s') \<and> btree_inv ord s' t \<and> points_at s' thd t i \<and>
    i < length (bt_entries t) \<and> bt_entries t ! i = (key, items)"
proof -
  obtain c a kvs where d: "descend key [] t = (c, a, kvs)" by (cases "descend key [] t")
  note f = leaf_facts [OF inv d]
  from find_leaf_refines [OF inv d] obtain last' where last': "find_leaf ord False key s = Some (a, last')" by blast
  have "stores ord s (plug c (Lf a kvs))" using inv by (simp add: btree_inv_def f(1))
  then obtain n where n: "bt_heap s a = Some n" "leaf_cell ord (parent_of c) kvs n" by (rule stores_leaf_cell)
  have m: "map_of kvs key = Some items" using key path_map_of [OF f(4,3), of kvs] by (simp add: f(1) entries_plug)
  then have "key \<in> fst ` set kvs" by (metis fst_conv image_eqI map_of_SomeD)
  with f(5) obtain A items' B where kvs: "kvs = A @ (key, items') # B" "\<forall>k \<in> fst ` set A. k < key"
    by (cases rule: ins_kvs_cases [where key = key and item = undefined]) blast+
  have "map_of A key = None" using kvs(2) by (auto simp: map_of_eq_None_iff)
  with m have i: "items' = items" by (simp add: kvs(1) map_add_def)
  note has = leaf_has_found [OF n(2) [unfolded kvs(1) i] kvs(2)]
  let ?s = "s\<lparr>bt_cur_leaf := (bt_cur_leaf s)(thd := Some a), bt_cur_idx := (bt_cur_idx s)(thd := length A)\<rparr>"
  let ?i = "length (concat (map snd (left_leaves c))) + length A"
  have run: "btree_read ord key thd s = Some (items, ?s)"
    by (simp add: btree_read_def last' get_node_def n(1) has)
  have e: "bt_entries t = (concat (map snd (left_leaves c)) @ A) @ (key, items) # B @ concat (map snd (right_leaves c))"
    by (simp add: f(1) entries_plug path_entries_def kvs(1) i)
  have len: "?i = length (concat (map snd (left_leaves c)) @ A)" by simp
  have "bt_entries t ! ?i = (key, items)" "?i < length (bt_entries t)" unfolding e len nth_append_length by simp_all
  moreover have "points_at ?s thd t ?i"
    unfolding points_at_def by (intro exI [of _ "left_leaves c"] exI [of _ a] exI [of _ kvs] exI [of _ "right_leaves c"])
      (simp add: f(1) leaves_plug kvs(1))
  moreover have "btree_inv ord ?s t" using inv by (simp add: inv_cursor)
  ultimately show ?thesis using run by blast
qed

section \<open>Scanning\<close>

lemma holds_leaf: "holds ord h par t \<Longrightarrow> (a, kvs) \<in> set (leaves_of t) \<Longrightarrow> \<exists>n par'. h a = Some n \<and> leaf_cell ord par' kvs n"
proof (induction t arbitrary: par)
  case (Nd b ks ts)
  then show ?case by auto
qed auto

lemma chained_next: "chained h (L @ a # R) \<Longrightarrow> next_of h a = (case R of [] \<Rightarrow> None | b # _ \<Rightarrow> Some b)"
proof (induction L)
  case Nil
  then show ?case by (cases R) auto
next
  case (Cons x L)
  then show ?case by (cases L) auto
qed

lemma leaf_pointer:
  assumes "leaf_cell ord par kvs n" "j < length kvs"
  shows "nd_pointers n ! j = Chain (snd (kvs ! j))" "nd_keys n ! j = fst (kvs ! j)"
proof -
  have "take (length kvs) (nd_pointers n) ! j = Chain (snd (kvs ! j))" "take (length kvs) (nd_keys n) ! j = fst (kvs ! j)"
    unfolding leaf_keysD(1,3) [OF assms(1)] using assms(2) by simp_all
  then show "nd_pointers n ! j = Chain (snd (kvs ! j))" "nd_keys n ! j = fst (kvs ! j)" using assms(2) by simp_all
qed

text \<open>One step: to the next key, or to the end.  With \<open>samekey\<close> the step finds nothing, a key has one chain.\<close>

lemma next_step:
  assumes inv: "btree_inv ord s t" and p: "points_at s thd t i"
  shows "(i + 1 < length (bt_entries t) \<longrightarrow> (\<exists>s'. btree_next thd samekey s =
        Some (if samekey then None else Some (snd (bt_entries t ! (i + 1))), s') \<and> btree_inv ord s' t \<and> points_at s' thd t (i + 1))) \<and>
    (length (bt_entries t) \<le> i + 1 \<longrightarrow> (\<exists>s'. btree_next thd samekey s = Some (None, s') \<and> btree_inv ord s' t))"
proof -
  from p obtain L a kvs R where p: "leaves_of t = L @ (a, kvs) # R" "bt_cur_leaf s thd = Some a"
      "bt_cur_idx s thd < length kvs" "i = length (concat (map snd L)) + bt_cur_idx s thd"
    by (auto simp: points_at_def)
  let ?j = "bt_cur_idx s thd"
  have e: "bt_entries t = concat (map snd L) @ kvs @ concat (map snd R)" by (simp add: bt_entries_def p(1))
  have srt: "sorted_wrt (<) (map fst (bt_entries t))" using inv ordered_sorted(1) by (auto simp: btree_inv_def)
  have holds: "holds ord (bt_heap s) None t" using inv by (simp add: btree_inv_def stores_def)
  from holds_leaf [OF holds, of a kvs] obtain n par where n: "bt_heap s a = Some n" "leaf_cell ord par kvs n"
    by (auto simp: p(1))
  have i: "bt_entries t ! i = kvs ! ?j" using p(3) by (simp add: e p(4) nth_append)
  have diff: "fst (bt_entries t ! (i + 1)) \<noteq> nd_keys n ! ?j" if "i + 1 < length (bt_entries t)"
  proof -
    have "fst (bt_entries t ! i) < fst (bt_entries t ! (i + 1))"
      using sorted_wrt_nth_less [OF srt, of i "i + 1"] that by simp
    then show ?thesis using leaf_pointer(2) [OF n(2) p(3)] i by simp
  qed
  show ?thesis
  proof (cases "?j + 1 < length kvs")
    case True
    let ?s = "s\<lparr>bt_cur_idx := (bt_cur_idx s)(thd := ?j + 1)\<rparr>"
    have i1: "i + 1 < length (bt_entries t)" "bt_entries t ! (i + 1) = kvs ! (?j + 1)"
      using True by (simp_all add: e p(4) nth_append)
    note ptr = leaf_pointer [OF n(2) True]
    have "btree_next thd samekey s = Some (if samekey then None else Some (snd (bt_entries t ! (i + 1))), ?s)"
      using True diff [OF i1(1)] leaf_keysD(2,7) [OF n(2)]
      by (simp add: btree_next_def p(2) get_node_def n(1) Let_def i1(2) [simplified] ptr [simplified])
    moreover have "points_at ?s thd t (i + 1)"
      unfolding points_at_def using p True by (intro exI [of _ L] exI [of _ a] exI [of _ kvs] exI [of _ R]) simp
    ultimately show ?thesis using inv i1(1) by (auto simp: inv_cursor)
  next
    case False
    with p(3) have j: "?j + 1 = length kvs" by simp
    have "nd_next n = (case map fst R of [] \<Rightarrow> None | b # _ \<Rightarrow> Some b)"
      using chained_next [of "bt_heap s" "map fst L" a "map fst R"] inv by (simp add: btree_inv_def p(1) next_of_def n(1))
    show ?thesis
    proof (cases R)
      case Nil
      have "btree_next thd samekey s = Some (None, s\<lparr>bt_cur_idx := (bt_cur_idx s)(thd := 0), bt_cur_leaf := (bt_cur_leaf s)(thd := None)\<rparr>)"
        using \<open>nd_next n = _\<close> leaf_keysD(2) [OF n(2)] j
        by (simp add: btree_next_def p(2) get_node_def n(1) Let_def Nil)
      moreover have "length (bt_entries t) \<le> i + 1" using j by (simp add: e p(4) Nil)
      ultimately show ?thesis using inv by (auto simp: inv_cursor)
    next
      case (Cons q R')
      obtain b kvs' where q: "q = (b, kvs')" by (cases q)
      from holds_leaf [OF holds, of b kvs'] obtain m par' where m: "bt_heap s b = Some m" "leaf_cell ord par' kvs' m"
        by (auto simp: p(1) Cons q)
      have "filled t" using inv by (auto simp: btree_inv_def p(1) Cons append_eq_Cons_conv dest: arg_cong [of _ _ leaves_of])
      then have k0: "0 < length kvs'" by (auto simp: filled_def p(1) Cons q)
      let ?s = "s\<lparr>bt_cur_idx := (bt_cur_idx s)(thd := 0), bt_cur_leaf := (bt_cur_leaf s)(thd := Some b)\<rparr>"
      have i1: "i + 1 < length (bt_entries t)" "bt_entries t ! (i + 1) = kvs' ! 0"
      proof -
        have len: "i + 1 = length (concat (map snd L) @ kvs)" using j by (simp add: p(4))
        have "bt_entries t = (concat (map snd L) @ kvs) @ kvs' @ concat (map snd R')" by (simp add: e Cons q)
        then show "i + 1 < length (bt_entries t)" "bt_entries t ! (i + 1) = kvs' ! 0"
          unfolding len using k0 by (simp_all add: nth_append)
      qed
      have "btree_next thd samekey s = Some (if samekey then None else Some (snd (bt_entries t ! (i + 1))), ?s)"
        using \<open>nd_next n = _\<close> j diff [OF i1(1)] leaf_keysD(2,7) [OF n(2)] leaf_keysD(7) [OF m(2)]
        by (simp add: btree_next_def p(2) get_node_def n(1) m(1) Let_def i1(2) [simplified] Cons q leaf_pointer [OF m(2) k0])
      moreover have "points_at ?s thd t (i + 1)"
        unfolding points_at_def using p j k0
        by (intro exI [of _ "L @ [(a, kvs)]"] exI [of _ b] exI [of _ kvs'] exI [of _ R']) (simp add: Cons q)
      ultimately show ?thesis using inv i1(1) by (auto simp: inv_cursor)
    qed
  qed
qed

end
