(* ===== verification/Btree_Load.thy ===== *)
theory Btree_Load
  imports Btree_Scan
begin

text \<open>
  The properties of the B+ tree: insertion, reading and scanning on the sorted list of keys; which insertions fail;
  loading in ascending order always works, loading in descending order does not.
\<close>

section \<open>A scan\<close>

text \<open>A client that calls \<open>index_next\<close> until it gets no item, at most \<open>n\<close> times.\<close>

primrec btree_scan :: "nat \<Rightarrow> nat \<Rightarrow> index_btree \<Rightarrow> item list list option" where
  "btree_scan 0 thd s = None"
| "btree_scan (Suc n) thd s =
     (case btree_next thd False s of
        None \<Rightarrow> None
      | Some (None, s) \<Rightarrow> Some []
      | Some (Some items, s) \<Rightarrow> map_option ((#) items) (btree_scan n thd s))"

lemma points_at_length: "points_at s thd t i \<Longrightarrow> i < length (bt_entries t)"
  by (auto simp: points_at_def bt_entries_def)

lemma scan_rest:
  "btree_inv ord s t \<Longrightarrow> points_at s thd t i \<Longrightarrow> length (bt_entries t) - i \<le> n \<Longrightarrow>
   btree_scan n thd s = Some (map snd (drop (i + 1) (bt_entries t)))"
proof (induction n arbitrary: s i)
  case 0
  with points_at_length [of s thd t i] show ?case by simp
next
  case (Suc n)
  note step = next_step [OF Suc.prems(1,2), of False]
  show ?case
  proof (cases "i + 1 < length (bt_entries t)")
    case True
    with step obtain s' where s': "btree_next thd False s = Some (Some (snd (bt_entries t ! (i + 1))), s')"
        "btree_inv ord s' t" "points_at s' thd t (i + 1)" by auto
    have "btree_scan n thd s' = Some (map snd (drop (i + 1 + 1) (bt_entries t)))"
      by (rule Suc.IH [OF s'(2,3)]) (use Suc.prems(3) in simp)
    moreover have "drop (i + 1) (bt_entries t) = bt_entries t ! (i + 1) # drop (i + 1 + 1) (bt_entries t)"
      using Cons_nth_drop_Suc [OF True] by simp
    ultimately show ?thesis using s'(1) by simp
  next
    case False
    with step obtain s' where "btree_next thd False s = Some (None, s')" by auto
    with False show ?thesis by simp
  qed
qed

lemma sorted_drop_filter:
  assumes "sorted_wrt (<) (map fst (xs :: kvs))" "i < length xs" "fst (xs ! i) = key"
  shows "drop (i + 1) xs = filter (\<lambda>kv. key < fst kv) xs"
proof -
  have xs: "xs = take i xs @ xs ! i # drop (i + 1) xs" using id_take_nth_drop [OF assms(2)] by simp
  have "sorted_wrt (<) (map fst (take i xs) @ fst (xs ! i) # map fst (drop (i + 1) xs))"
    using assms(1) xs by (metis list.simps(9) map_append)
  then have s: "\<forall>x \<in> set (take i xs). fst x < key" "\<forall>x \<in> set (drop (i + 1) xs). key < fst x"
    using assms(3) by (auto simp: sorted_wrt_append)
  have "filter (\<lambda>kv. key < fst kv) (take i xs) = []" using s(1) by (auto simp: filter_empty_conv)
  moreover have "filter (\<lambda>kv. key < fst kv) (drop (i + 1) xs) = drop (i + 1) xs" using s(2) by simp
  ultimately have "filter (\<lambda>kv. key < fst kv) (take i xs @ xs ! i # drop (i + 1) xs) = drop (i + 1) xs"
    using assms(3) by simp
  with arg_cong [OF xs, of "filter (\<lambda>kv. key < fst kv)"] show ?thesis by (rule trans [symmetric])
qed

section \<open>Insertions that fail\<close>

text \<open>The first node with room on the way up gets its key in front.\<close>

fun stuck :: "nat \<Rightarrow> path \<Rightarrow> bool" where
  "stuck ord [] \<longleftrightarrow> False"
| "stuck ord (Frame a kl ls kr rs # c) \<longleftrightarrow> (if length (kl @ kr) < ord - 1 then kl = [] else stuck ord c)"

lemma up_None: "up ord f c l k r = None \<longleftrightarrow> stuck ord c"
  by (induction ord f c l k r rule: up.induct) (simp_all add: Let_def)

definition insert_stuck :: "nat \<Rightarrow> idx_key \<Rightarrow> bt \<Rightarrow> bool" where
  "insert_stuck ord key t =
     (case descend key [] t of (c, a, kvs) \<Rightarrow> \<not> length kvs < ord - 1 \<and> key \<notin> fst ` set kvs \<and> stuck ord c)"

lemma bt_insert_None: "bt_insert ord f key item t = None \<longleftrightarrow> insert_stuck ord key t"
  by (cases "descend key [] t") (simp add: bt_insert_def insert_stuck_def tree_insert_def up_None Let_def)

text \<open>A key above all others goes to the last leaf, and that path is never stuck.\<close>

lemma leaves_nonempty: "balanced h t \<Longrightarrow> leaves_of t \<noteq> []"
  using leaves_count [of h t] by auto

lemma last_path_not_stuck: "right_leaves c = [] \<Longrightarrow> shaped c \<Longrightarrow> bal_path h c \<Longrightarrow> \<not> stuck ord c"
proof (induction c arbitrary: h)
  case (Cons f c)
  obtain a kl ls kr rs where f: "f = Frame a kl ls kr rs" by (cases f)
  have "rs = []" using Cons.prems leaves_nonempty by (cases rs) (auto simp: f)
  with Cons show ?case by (auto simp: f)
qed simp

lemma ascending_not_stuck:
  assumes inv: "btree_inv ord s t" and key: "\<forall>k \<in> fst ` set (bt_entries t). k \<le> key"
  shows "\<not> insert_stuck ord key t"
proof -
  obtain c a kvs where d: "descend key [] t = (c, a, kvs)" by (cases "descend key [] t")
  note f = leaf_facts [OF inv d]
  have "right_leaves c = []"
  proof (rule ccontr)
    assume "right_leaves c \<noteq> []"
    then obtain b kvs' R where R: "right_leaves c = (b, kvs') # R" by (cases "right_leaves c") auto
    with inv_filled_rest [OF inv f(1)] obtain k items kvs'' where k: "kvs' = (k, items) # kvs''" by (cases kvs') auto
    then have "k \<in> fst ` set (concat (map snd (right_leaves c)))" by (simp add: R)
    from right_keys [OF f(4) this] f(3) have "key < k" by (auto simp: within_def below_def)
    moreover have "k \<in> fst ` set (bt_entries t)" by (simp add: f(1) entries_plug path_entries_def R k)
    ultimately show False using key by auto
  qed
  from last_path_not_stuck [OF this f(2,8)] show ?thesis by (simp add: insert_stuck_def d)
qed

section \<open>Loading\<close>

lemma init_inv: "3 \<le> ord \<Longrightarrow> btree_inv ord (btree_init ord) (Lf 0 [])"
  by (simp add: btree_inv_def stores_def btree_init_def make_lf_def make_node_def put_node_def leaf_cell_def filled_def next_of_def)

lemma ascending_load:
  assumes "3 \<le> ord" "ord < 2 ^ 32"
  shows "btree_inv ord s t \<Longrightarrow> sorted (map fst kvs) \<Longrightarrow> \<forall>k \<in> fst ` set (bt_entries t). \<forall>k' \<in> fst ` set kvs. k \<le> k' \<Longrightarrow>
    \<exists>s' t'. foldM (\<lambda>(k, i). btree_insert ord k i) kvs s = Some s' \<and> btree_inv ord s' t' \<and>
      bt_entries t' = fold (\<lambda>kv. ins_kvs (fst kv) (snd kv)) kvs (bt_entries t)"
proof (induction kvs arbitrary: s t)
  case Nil
  then show ?case by auto
next
  case (Cons kv kvs)
  have "\<forall>k \<in> fst ` set (bt_entries t). k \<le> fst kv" using Cons.prems(3) by auto
  then have "bt_insert ord (bt_fresh s) (fst kv) (snd kv) t \<noteq> None"
    using ascending_not_stuck [OF Cons.prems(1)] by (simp add: bt_insert_None)
  with btree_insert_tree [OF Cons.prems(1) assms, of "fst kv" "snd kv"] obtain s' t'
    where s': "btree_insert ord (fst kv) (snd kv) s = Some s'" "btree_inv ord s' t'"
      "bt_entries t' = ins_kvs (fst kv) (snd kv) (bt_entries t)" by auto
  have "\<forall>k \<in> fst ` set (bt_entries t'). \<forall>k' \<in> fst ` set kvs. k \<le> k'"
    unfolding s'(3) ins_kvs_keys using Cons.prems(2,3) by auto
  with Cons.IH [OF s'(2)] Cons.prems(2) s'(1,3) show ?case by (cases kv) auto
qed

text \<open>Loading in descending order: the leaf of the root fills up, splits, the left half fills up, and then the
  new key would have to go in front of the only key of the root.\<close>

definition load_result :: "nat \<Rightarrow> bool \<Rightarrow> kvs \<Rightarrow> (idx_key \<times> item) list \<Rightarrow> index_btree \<Rightarrow> bool" where
  "load_result ord crash E xs s \<longleftrightarrow>
     (if crash then foldM (\<lambda>(k, i). btree_insert ord k i) xs s = None
      else \<exists>s' t. foldM (\<lambda>(k, i). btree_insert ord k i) xs s = Some s' \<and> btree_inv ord s' t \<and>
        bt_entries t = rev (map (\<lambda>(k, i). (k, [i])) xs) @ E)"

lemma load_result_Cons:
  "btree_insert ord key item s = Some s' \<Longrightarrow> load_result ord crash ((key, [item]) # E) xs s' \<Longrightarrow>
   load_result ord crash E ((key, item) # xs) s"
  by (auto simp: load_result_def split: if_splits)

lemma descending_full:
  assumes "3 \<le> ord" "ord < 2 ^ 32"
  shows "btree_inv ord s (Nd r [k] [Lf a kvs, R]) \<Longrightarrow> kvs \<noteq> [] \<Longrightarrow> sorted_wrt (>) (map fst xs) \<Longrightarrow>
    \<forall>x \<in> fst ` set xs. x < fst (hd kvs) \<Longrightarrow>
    load_result ord (ord \<le> length kvs + length xs) (kvs @ bt_entries R) xs s"
proof (induction xs arbitrary: s kvs)
  case Nil
  have "holds ord (bt_heap s) (Some r) (Lf a kvs)" using Nil.prems(1) by (simp add: btree_inv_def stores_def)
  then have "length kvs \<le> ord - 1" by (auto simp: leaf_cell_def)
  with Nil.prems(1) assms(1) show ?case by (auto simp: load_result_def)
next
  case (Cons x xs)
  obtain key item where x: "x = (key, item)" by (cases x)
  have low: "key < fst (hd kvs)" using Cons.prems(4) by (simp add: x)
  have o: "sorted_wrt (<) (map fst kvs)" "\<forall>y \<in> fst ` set kvs. y < k"
    using Cons.prems(1) by (auto simp: btree_inv_def within_def below_def)
  then have "fst (hd kvs) < k" using Cons.prems(2) by simp
  with low have "key < k" by simp
  then have d: "descend key [] (Nd r [k] [Lf a kvs, R]) = ([Frame r [] [] [k] [R]], a, kvs)" by simp
  have first: "\<forall>y \<in> fst ` set kvs. key < y"
    using low o(1) Cons.prems(2) by (cases kvs) (auto dest: order.strict_trans)
  then have new: "key \<notin> fst ` set kvs" by blast
  have ins: "ins_kvs key item kvs = (key, [item]) # kvs" using ins_kvs_right [OF first, of item "[]"] by simp
  show ?case
  proof (cases "length kvs < ord - 1")
    case False
    with d new assms(1) have "insert_stuck ord key (Nd r [k] [Lf a kvs, R])" by (simp add: insert_stuck_def)
    then have "bt_insert ord (bt_fresh s) key item (Nd r [k] [Lf a kvs, R]) = None" by (simp only: bt_insert_None)
    with btree_insert_tree [OF Cons.prems(1) assms, of key item] False show ?thesis by (simp add: x load_result_def)
  next
    case True
    then have "bt_insert ord (bt_fresh s) key item (Nd r [k] [Lf a kvs, R]) = Some (Nd r [k] [Lf a ((key, [item]) # kvs), R])"
      using d by (simp add: bt_insert_def tree_insert_def ins Let_def)
    with btree_insert_tree [OF Cons.prems(1) assms, of key item] obtain s'
      where s': "btree_insert ord key item s = Some s'" "btree_inv ord s' (Nd r [k] [Lf a ((key, [item]) # kvs), R])" by auto
    have "load_result ord (ord \<le> length ((key, [item]) # kvs) + length xs) (((key, [item]) # kvs) @ bt_entries R) xs s'"
      by (rule Cons.IH [OF s'(2)]) (use Cons.prems(3) in \<open>simp_all add: x\<close>)
    with load_result_Cons [OF s'(1)] show ?thesis by (simp add: x)
  qed
qed

lemma descending_load:
  assumes ord: "3 \<le> ord" "ord < 2 ^ 32"
  shows "btree_inv ord s (Lf a kvs) \<Longrightarrow> sorted_wrt (>) (map fst xs) \<Longrightarrow>
    \<forall>x \<in> fst ` set xs. \<forall>y \<in> fst ` set kvs. x < y \<Longrightarrow>
    load_result ord (2 * ord - cut (ord - 1) \<le> length kvs + length xs) kvs xs s"
proof (induction xs arbitrary: s kvs)
  case Nil
  have "length kvs \<le> ord - 1" using Nil.prems(1) by (auto simp: btree_inv_def stores_def leaf_cell_def)
  moreover have "cut (ord - 1) < ord - 1" using cut_bounds [of "ord - 1"] ord(1) by simp
  ultimately show ?case using Nil.prems(1) by (auto simp: load_result_def)
next
  case (Cons x xs)
  obtain key item where x: "x = (key, item)" by (cases x)
  have first: "\<forall>y \<in> fst ` set kvs. key < y" using Cons.prems(3) by (simp add: x)
  then have new: "key \<notin> fst ` set kvs" by blast
  have ins: "ins_kvs key item kvs = (key, [item]) # kvs" using ins_kvs_right [OF first, of item "[]"] by simp
  have le: "length kvs \<le> ord - 1" using Cons.prems(1) by (auto simp: btree_inv_def stores_def leaf_cell_def)
  have below: "\<forall>y \<in> fst ` set xs. y < key" using Cons.prems(2) by (auto simp: x)
  show ?case
  proof (cases "length kvs < ord - 1")
    case True
    then have "bt_insert ord (bt_fresh s) key item (Lf a kvs) = Some (Lf a ((key, [item]) # kvs))"
      by (simp add: bt_insert_def tree_insert_def ins Let_def)
    with btree_insert_tree [OF Cons.prems(1) ord, of key item] obtain s'
      where s': "btree_insert ord key item s = Some s'" "btree_inv ord s' (Lf a ((key, [item]) # kvs))" by auto
    have "load_result ord (2 * ord - cut (ord - 1) \<le> length ((key, [item]) # kvs) + length xs) ((key, [item]) # kvs) xs s'"
      by (rule Cons.IH [OF s'(2)]) (use Cons.prems(2,3) below in \<open>auto simp: x\<close>)
    with load_result_Cons [OF s'(1)] show ?thesis by (simp add: x)
  next
    case False
    let ?kvs = "(key, [item]) # kvs" and ?m = "cut (ord - 1)" and ?f = "bt_fresh s"
    let ?k = "fst (?kvs ! ?m)" and ?r = "Lf ?f (drop ?m ?kvs)"
    have m: "1 \<le> ?m" "?m < ord - 1" using cut_bounds [of "ord - 1"] ord(1) by simp_all
    have "bt_insert ord ?f key item (Lf a kvs) = Some (Nd (?f + 1) [?k] [Lf a (take ?m ?kvs), ?r])"
      using False new by (simp add: bt_insert_def tree_insert_def ins Let_def)
    with btree_insert_tree [OF Cons.prems(1) ord, of key item] obtain s'
      where s': "btree_insert ord key item s = Some s'" "btree_inv ord s' (Nd (?f + 1) [?k] [Lf a (take ?m ?kvs), ?r])" by auto
    have hd: "hd (take ?m ?kvs) = (key, [item])" "take ?m ?kvs \<noteq> []" "length (take ?m ?kvs) = ?m"
      using m le False by (cases ?m; simp)+
    have "load_result ord (ord \<le> length (take ?m ?kvs) + length xs) (take ?m ?kvs @ bt_entries ?r) xs s'"
      by (rule descending_full [OF ord s'(2)]) (use hd below Cons.prems(2) in \<open>auto simp: x\<close>)
    moreover have "take ?m ?kvs @ bt_entries ?r = ?kvs" by simp
    moreover have "ord \<le> length (take ?m ?kvs) + length xs \<longleftrightarrow> 2 * ord - ?m \<le> length kvs + length (x # xs)"
      unfolding hd(3) using le m False ord(1) by auto
    ultimately have "load_result ord (2 * ord - ?m \<le> length kvs + length (x # xs)) ?kvs xs s'" by simp
    with load_result_Cons [OF s'(1)] show ?thesis by (simp add: x)
  qed
qed

section \<open>Properties\<close>

text \<open>The chain of items under a key.\<close>

definition chain_of :: "kvs \<Rightarrow> idx_key \<Rightarrow> item list" where
  "chain_of kvs k = (case map_of kvs k of None \<Rightarrow> [] | Some items \<Rightarrow> items)"

lemma chain_of_ins:
  assumes "sorted_wrt (<) (map fst kvs)"
  shows "chain_of (ins_kvs key item kvs) = (chain_of kvs)(key := item # chain_of kvs key)"
  using assms
proof (cases rule: ins_kvs_cases [where key = key and item = item])
  case (found A items B)
  then have "map_of A key = None" by (auto simp: map_of_eq_None_iff)
  moreover have "map_of (ins_kvs key item kvs) = map_of (A @ (key, item # items) # B)" "map_of kvs = map_of (A @ (key, items) # B)"
    by (rule arg_cong [OF found(4)], rule arg_cong [OF found(1)])
  ultimately show ?thesis by (auto simp: chain_of_def map_add_def fun_eq_iff split: option.splits)
next
  case (new A B)
  then have "map_of A key = None" "map_of B key = None" by (auto simp: map_of_eq_None_iff)
  moreover have "map_of (ins_kvs key item kvs) = map_of (A @ (key, [item]) # B)" "map_of kvs = map_of (A @ B)"
    by (rule arg_cong [OF new(5)], rule arg_cong [OF new(1)])
  ultimately show ?thesis by (auto simp: chain_of_def map_add_def fun_eq_iff split: option.splits)
qed

lemma insert_ok:
  assumes "btree_inv ord s t" "3 \<le> ord" "ord < 2 ^ 32" "\<not> insert_stuck ord key t"
  shows "\<exists>s' t'. btree_insert ord key item s = Some s' \<and> btree_inv ord s' t' \<and> bt_entries t' = ins_kvs key item (bt_entries t) \<and>
    chain_of (bt_entries t') = (chain_of (bt_entries t))(key := item # chain_of (bt_entries t) key) \<and>
    bt_cur_leaf s' = bt_cur_leaf s \<and> bt_cur_idx s' = bt_cur_idx s"
proof -
  from assms(4) obtain t' where t': "bt_insert ord (bt_fresh s) key item t = Some t'"
    using bt_insert_None by fastforce
  from btree_insert_tree [OF assms(1-3), of key item] obtain s'
    where s': "btree_insert ord key item s = Some s'" "btree_inv ord s' t'" "bt_entries t' = ins_kvs key item (bt_entries t)"
      "bt_cur_leaf s' = bt_cur_leaf s" "bt_cur_idx s' = bt_cur_idx s" by (auto simp: t')
  have "sorted_wrt (<) (map fst (bt_entries t))" using assms(1) ordered_sorted(1) by (auto simp: btree_inv_def)
  from chain_of_ins [OF this, of key item] s' show ?thesis by auto
qed

lemma insert_fails:
  assumes "btree_inv ord s t" "3 \<le> ord" "ord < 2 ^ 32"
  shows "btree_insert ord key item s = None \<longleftrightarrow> insert_stuck ord key t"
proof (cases "insert_stuck ord key t")
  case True
  then have "bt_insert ord (bt_fresh s) key item t = None" by (simp only: bt_insert_None)
  with btree_insert_tree [OF assms, of key item] True show ?thesis by simp
next
  case False
  with insert_ok [OF assms False, of item] show ?thesis by auto
qed

text \<open>C6: an insertion into the B+ tree keeps its invariant (the nodes form a tree on the heap with the right
  parents, all leaves at one depth and linked in order, keys sorted and within the bounds of their nodes) and
  puts the item in front of the chain of its key, whichever nodes split on the way up, unless the insertion is stuck.\<close>

theorem index_insert_correct:
  assumes "btree_inv ord s t" "3 \<le> ord" "ord < 2 ^ 32" "\<not> insert_stuck ord key t"
  shows "\<exists>s' t'. btree_insert ord key item s = Some s' \<and> btree_inv ord s' t' \<and> bt_entries t' = ins_kvs key item (bt_entries t) \<and>
    chain_of (bt_entries t') = (chain_of (bt_entries t))(key := item # chain_of (bt_entries t) key) \<and>
    bt_cur_leaf s' = bt_cur_leaf s \<and> bt_cur_idx s' = bt_cur_idx s"
  by (rule insert_ok [OF assms])

text \<open>Five keys in descending order, with at most three keys in a node.\<close>

lemma five_keys:
  "\<exists>s f r. btree_inv 4 s (Nd r [50] [Lf 0 [(20, [5]), (30, [4]), (40, [3])], Lf f [(50, [2]), (60, [1])]])"
proof -
  have step: "bt_insert 4 (bt_fresh s) key item t = Some t' \<Longrightarrow> btree_inv 4 s t \<Longrightarrow> \<exists>s'. btree_inv 4 s' t'" for s key item t t'
    using btree_insert_tree [of 4 s t key item] by auto
  note ev = bt_insert_def tree_insert_def Let_def cut_def
  obtain s1 where s1: "btree_inv 4 s1 (Lf 0 [(60, [1])])"
    using step [of "btree_init 4" 60 1, OF _ init_inv] by (auto simp: ev)
  obtain s2 where s2: "btree_inv 4 s2 (Lf 0 [(50, [2]), (60, [1])])"
    using step [of s1 50 2, OF _ s1] by (auto simp: ev)
  obtain s3 where s3: "btree_inv 4 s3 (Lf 0 [(40, [3]), (50, [2]), (60, [1])])"
    using step [of s2 40 3, OF _ s2] by (auto simp: ev)
  obtain s4 where s4: "btree_inv 4 s4 (Nd (bt_fresh s3 + 1) [50] [Lf 0 [(30, [4]), (40, [3])], Lf (bt_fresh s3) [(50, [2]), (60, [1])]])"
    using step [of s3 30 4, OF _ s3] by (auto simp: ev)
  show ?thesis using step [of s4 20 5, OF _ s4] by (auto simp: ev)
qed

lemma index_insert_correct_witness:
  "\<exists>s t s' t'. btree_inv 4 s t \<and> btree_insert 4 55 6 s = Some s' \<and> btree_inv 4 s' t' \<and>
     bt_entries t' = [(20, [5]), (30, [4]), (40, [3]), (50, [2]), (55, [6]), (60, [1])]"
proof -
  obtain s f r where inv: "btree_inv 4 s (Nd r [50] [Lf 0 [(20, [5]), (30, [4]), (40, [3])], Lf f [(50, [2]), (60, [1])]])"
    using five_keys by blast
  have "\<not> insert_stuck 4 55 (Nd r [50] [Lf 0 [(20, [5]), (30, [4]), (40, [3])], Lf f [(50, [2]), (60, [1])]])"
    by (simp add: insert_stuck_def)
  from index_insert_correct [OF inv _ _ this, of 6] inv show ?thesis by fastforce
qed

text \<open>C11: an insertion fails exactly when its leaf is full, the key is new and the lowest ancestor with room would get the new
  key in front of all its keys: the loop that makes room there counts an unsigned number down past 0.\<close>

theorem index_insert_stuck:
  assumes "btree_inv ord s t" "3 \<le> ord" "ord < 2 ^ 32"
  shows "btree_insert ord key item s = None \<longleftrightarrow> insert_stuck ord key t"
  by (rule insert_fails [OF assms])

lemma index_insert_stuck_witness:
  "\<exists>s t. btree_inv 4 s t \<and> map fst (bt_entries t) = [20, 30, 40, 50, 60] \<and> btree_insert 4 10 6 s = None \<and> btree_insert 4 30 6 s \<noteq> None"
proof -
  obtain s f r where inv: "btree_inv 4 s (Nd r [50] [Lf 0 [(20, [5]), (30, [4]), (40, [3])], Lf f [(50, [2]), (60, [1])]])"
    using five_keys by blast
  have "btree_insert 4 10 6 s = None" using index_insert_stuck [OF inv, of 10 6] by (simp add: insert_stuck_def)
  moreover have "btree_insert 4 30 6 s \<noteq> None" using index_insert_stuck [OF inv, of 30 6] by (simp add: insert_stuck_def)
  ultimately show ?thesis using inv by fastforce
qed

text \<open>Rows loaded in ascending order of their keys never get stuck: the load succeeds for every order of the tree from 3 up,
  and the tree holds exactly the loaded items under their keys.\<close>

theorem ascending_load_succeeds:
  assumes "3 \<le> ord" "ord < 2 ^ 32" "sorted (map fst kvs)"
  shows "\<exists>s t. foldM (\<lambda>(k, i). btree_insert ord k i) kvs (btree_init ord) = Some s \<and> btree_inv ord s t \<and>
    bt_entries t = fold (\<lambda>kv. ins_kvs (fst kv) (snd kv)) kvs []"
  using ascending_load [OF assms(1,2) init_inv [OF assms(1)] assms(3)] by simp

lemma ascending_load_succeeds_witness:
  "\<exists>s t. foldM (\<lambda>(k, i). btree_insert 4 k i) [(1, 1), (2, 2), (2, 3), (5, 4), (6, 5), (7, 6)] (btree_init 4) = Some s \<and>
     btree_inv 4 s t \<and> bt_entries t = [(1, [1]), (2, [3, 2]), (5, [4]), (6, [5]), (7, [6])]"
  using ascending_load_succeeds [of 4 "[(1, 1), (2, 2), (2, 3), (5, 4), (6, 5), (7, 6)]"] by simp

text \<open>C28: rows loaded in descending order of their keys load correctly as long as the first leaf has split at most once, and crash
  the load as soon as it has to split for the second time; with the configured order of 16 the first 23 rows load and
  the 24th crashes.\<close>

theorem descending_load_crashes:
  assumes "3 \<le> ord" "ord < 2 ^ 32" "sorted_wrt (>) (map fst kvs)"
  shows "if 2 * ord - cut (ord - 1) \<le> length kvs
    then foldM (\<lambda>(k, i). btree_insert ord k i) kvs (btree_init ord) = None
    else \<exists>s t. foldM (\<lambda>(k, i). btree_insert ord k i) kvs (btree_init ord) = Some s \<and> btree_inv ord s t \<and>
      bt_entries t = rev (map (\<lambda>(k, i). (k, [i])) kvs)"
proof -
  have "load_result ord (2 * ord - cut (ord - 1) \<le> length kvs) [] kvs (btree_init ord)"
    using descending_load [OF assms(1,2) init_inv [OF assms(1)] assms(3)] by simp
  then show ?thesis unfolding load_result_def append_Nil2 .
qed

lemma descending_load_crashes_witness:
  "let kvs = [(24, 1), (23, 2), (22, 3), (21, 4), (20, 5), (19, 6), (18, 7), (17, 8), (16, 9), (15, 10), (14, 11), (13, 12),
      (12, 13), (11, 14), (10, 15), (9, 16), (8, 17), (7, 18), (6, 19), (5, 20), (4, 21), (3, 22), (2, 23)] in
   foldM (\<lambda>(k, i). btree_insert 16 k i) (kvs @ [(1, 24)]) (btree_init 16) = None \<and>
   (\<exists>s t. foldM (\<lambda>(k, i). btree_insert 16 k i) kvs (btree_init 16) = Some s \<and> btree_inv 16 s t \<and>
     bt_entries t = rev (map (\<lambda>(k, i). (k, [i])) kvs))"
proof -
  let ?kvs = "[(24, 1), (23, 2), (22, 3), (21, 4), (20, 5), (19, 6), (18, 7), (17, 8), (16, 9), (15, 10), (14, 11), (13, 12),
      (12, 13), (11, 14), (10, 15), (9, 16), (8, 17), (7, 18), (6, 19), (5, 20), (4, 21), (3, 22), (2, 23)] :: (idx_key \<times> item) list"
  have "foldM (\<lambda>(k, i). btree_insert 16 k i) (?kvs @ [(1, 24)]) (btree_init 16) = None"
    using descending_load_crashes [of 16 "?kvs @ [(1, 24)]"] by (simp add: cut_def)
  moreover have "\<exists>s t. foldM (\<lambda>(k, i). btree_insert 16 k i) ?kvs (btree_init 16) = Some s \<and> btree_inv 16 s t \<and>
     bt_entries t = rev (map (\<lambda>(k, i). (k, [i])) ?kvs)"
    using descending_load_crashes [of 16 ?kvs] by (simp add: cut_def del: foldM.simps)
  ultimately show ?thesis unfolding Let_def by (rule conjI)
qed

text \<open>A read returns the chain of its key, newest item first, and leaves the cursor of the thread there; a read of a key that was
  never inserted crashes.\<close>

theorem index_read_correct:
  assumes "btree_inv ord s t"
  shows "case map_of (bt_entries t) key of
      None \<Rightarrow> btree_read ord key thd s = None
    | Some items \<Rightarrow> \<exists>s' i. btree_read ord key thd s = Some (items, s') \<and> btree_inv ord s' t \<and> points_at s' thd t i \<and>
        bt_entries t ! i = (key, items)"
  using read_missing [OF assms] read_found [OF assms] by (cases "map_of (bt_entries t) key") fastforce+

lemma index_read_correct_witness:
  "\<exists>s s'. btree_read 4 40 0 s = Some ([3], s') \<and> btree_read 4 45 0 s = None"
proof -
  obtain s f r where inv: "btree_inv 4 s (Nd r [50] [Lf 0 [(20, [5]), (30, [4]), (40, [3])], Lf f [(50, [2]), (60, [1])]])"
    using five_keys by blast
  from index_read_correct [OF inv, of 40 0] index_read_correct [OF inv, of 45 0] show ?thesis by auto
qed

text \<open>C22: a read followed by \<open>index_next\<close> until it returns nothing gives the chains of all larger keys, each once and in
  ascending order, across the leaves.\<close>

theorem index_scan_correct:
  assumes "btree_inv ord s t" "map_of (bt_entries t) key = Some items" "length (bt_entries t) \<le> n"
  shows "\<exists>s'. btree_read ord key thd s = Some (items, s') \<and>
    btree_scan n thd s' = Some (map snd (filter (\<lambda>kv. key < fst kv) (bt_entries t)))"
proof -
  from read_found [OF assms(1,2)] obtain s' i where s': "btree_read ord key thd s = Some (items, s')" "btree_inv ord s' t"
      "points_at s' thd t i" "i < length (bt_entries t)" "bt_entries t ! i = (key, items)" by blast
  have "sorted_wrt (<) (map fst (bt_entries t))" using assms(1) ordered_sorted(1) by (auto simp: btree_inv_def)
  then have "drop (i + 1) (bt_entries t) = filter (\<lambda>kv. key < fst kv) (bt_entries t)"
    by (rule sorted_drop_filter) (use s'(4,5) in simp_all)
  with scan_rest [OF s'(2,3), of n] s'(1) assms(3) show ?thesis by simp
qed

lemma index_scan_correct_witness:
  "\<exists>s s'. btree_read 4 30 7 s = Some ([4], s') \<and> btree_scan 5 7 s' = Some [[3], [2], [1]]"
proof -
  obtain s f r where inv: "btree_inv 4 s (Nd r [50] [Lf 0 [(20, [5]), (30, [4]), (40, [3])], Lf f [(50, [2]), (60, [1])]])"
    using five_keys by blast
  from index_scan_correct [OF inv, of 30 "[4]" 5 7] show ?thesis by auto
qed

end
