(* ===== verification/Index_Base.thy ===== *)
theory Index_Base
  imports Btree_Load
begin

text \<open>
  The interface \<open>index_base\<close> (\<open>src/DBx1000/code/storage/index_base.h\<close>) that the workloads and transactions call:
  a map from keys to chains of items.  The hash index and the B+ tree both provide it, for one partition and one thread: the
  two numbers behind the item are the partition and the thread in \<open>index_base.h\<close>, \<open>index_hash.h\<close> and \<open>txn.cpp\<close>, but the thread
  and the partition in \<open>index_btree.h\<close>, which makes no difference while both are 0.
\<close>

section \<open>The interface\<close>

text \<open>The items of a list of insertions under one key, newest first.\<close>

definition newest :: "('k \<times> item) list \<Rightarrow> 'k \<Rightarrow> item list" where
  "newest ops k = rev (map snd (filter (\<lambda>op. fst op = k) ops))"

locale index_base =
  fixes insert :: "'k \<Rightarrow> item \<Rightarrow> 's \<Rightarrow> 's option"
    and read :: "'k \<Rightarrow> 's \<Rightarrow> (item list \<times> 's) option"
    and rep :: "'s \<Rightarrow> ('k \<Rightarrow> item list) \<Rightarrow> bool"
  assumes insert_rep: "rep s m \<Longrightarrow> insert k i s = Some s' \<Longrightarrow> rep s' (m(k := i # m k))"
    and read_absent: "rep s m \<Longrightarrow> m k = [] \<Longrightarrow> read k s = None"
    and read_present: "rep s m \<Longrightarrow> m k \<noteq> [] \<Longrightarrow> \<exists>s'. read k s = Some (m k, s') \<and> rep s' m"
begin

lemma load_rep: "foldM (\<lambda>(k, i). insert k i) ops s = Some s' \<Longrightarrow> rep s m \<Longrightarrow> rep s' (\<lambda>k. newest ops k @ m k)"
proof (induction ops arbitrary: s m)
  case Nil
  then show ?case by (simp add: newest_def)
next
  case (Cons op ops)
  obtain k i where op: "op = (k, i)" by (cases op)
  from Cons.prems(1) obtain s1 where s1: "insert k i s = Some s1" "foldM (\<lambda>(k, i). insert k i) ops s1 = Some s'"
    by (auto simp: op split: option.splits)
  have "newest ops x @ (m(k := i # m k)) x = newest (op # ops) x @ m x" for x by (simp add: newest_def op)
  with Cons.IH [OF s1(2) insert_rep [OF Cons.prems(2) s1(1)]] show ?case by simp
qed

lemma reads_rep: "foldM (\<lambda>k s. map_option snd (read k s)) ks s = Some s' \<Longrightarrow> rep s m \<Longrightarrow> rep s' m"
proof (induction ks arbitrary: s)
  case (Cons k ks)
  then obtain s1 where s1: "map_option snd (read k s) = Some s1" "foldM (\<lambda>k s. map_option snd (read k s)) ks s1 = Some s'"
    by (auto split: option.splits)
  then have "m k \<noteq> []" using read_absent [OF Cons.prems(2)] by auto
  from read_present [OF Cons.prems(2) this] s1(1) have "rep s1 m" by auto
  from Cons.IH [OF s1(2) this] show ?case .
qed simp

text \<open>After a load and any reads, a read finds exactly what was loaded under its key.\<close>

lemma read_loaded:
  assumes "rep s (\<lambda>_. [])" "foldM (\<lambda>(k, i). insert k i) ops s = Some s1"
    "foldM (\<lambda>k s. map_option snd (read k s)) ks s1 = Some s2"
  shows "map_option fst (read k s2) = (case newest ops k of [] \<Rightarrow> None | items \<Rightarrow> Some items)"
proof -
  have r: "rep s2 (newest ops)" using reads_rep [OF assms(3) load_rep [OF assms(2,1)]] by simp
  show ?thesis
  proof (cases "newest ops k = []")
    case True
    with read_absent [OF r True] show ?thesis by simp
  next
    case False
    from read_present [OF r False] False show ?thesis by (auto split: list.split)
  qed
qed

end

section \<open>The hash index\<close>

definition hash_insert :: "nat \<times> nat \<Rightarrow> item \<Rightarrow> IndexHash \<Rightarrow> IndexHash option" where
  "hash_insert pk i ih = index_insert (snd pk) i (fst pk) ih"

definition hash_read :: "nat \<times> nat \<Rightarrow> IndexHash \<Rightarrow> (item list \<times> IndexHash) option" where
  "hash_read pk ih = map_option (\<lambda>items. (items, ih)) (index_read (snd pk) (fst pk) ih)"

definition hash_rep :: "IndexHash \<Rightarrow> (nat \<times> nat \<Rightarrow> item list) \<Rightarrow> bool" where
  "hash_rep ih m \<longleftrightarrow> index_ok ih \<and> ih_bucket_cnt_per_part ih \<noteq> 0 \<and> held ih = m \<and>
     (\<forall>p k. ih_part_cnt ih \<le> p \<longrightarrow> m (p, k) = [])"

lemma hash_insert_rep:
  assumes "hash_rep ih m" "hash_insert pk i ih = Some ih'"
  shows "hash_rep ih' (m(pk := i # m pk))"
proof -
  obtain p k where pk: "pk = (p, k)" by (cases pk)
  note r = assms(1) [unfolded hash_rep_def]
  have p: "p < ih_part_cnt ih"
    using assms(2) by (rule contrapos_pp) (simp add: pk hash_insert_def index_insert_def bucket_idx_def)
  from r index_insert_ok [of ih p k i] p assms(2) show ?thesis
    by (auto simp: hash_rep_def pk hash_insert_def)
qed

lemma hash_read_rep:
  assumes "hash_rep ih m"
  shows "hash_read pk ih = (case m pk of [] \<Rightarrow> None | items \<Rightarrow> Some (items, ih))"
proof -
  obtain p k where pk: "pk = (p, k)" by (cases pk)
  note r = assms [unfolded hash_rep_def]
  show ?thesis
  proof (cases "p < ih_part_cnt ih")
    case True
    from r have "nodes_ok (ih_bucket_cnt_per_part ih) (k mod ih_bucket_cnt_per_part ih)
        (bk_nodes (ih_buckets ih p (k mod ih_bucket_cnt_per_part ih)))" by (simp add: index_ok_def)
    from read_item_items [OF this, of k] r True show ?thesis
      by (auto simp: hash_read_def index_read_def bucket_idx_def pk held_def split: list.split)
  next
    case False
    with r show ?thesis by (simp add: hash_read_def index_read_def bucket_idx_def pk)
  qed
qed

interpretation hash: index_base hash_insert hash_read hash_rep
proof unfold_locales
  fix ih m pk i ih'
  assume "hash_rep ih m" "hash_insert pk i ih = Some ih'"
  then show "hash_rep ih' (m(pk := i # m pk))" by (rule hash_insert_rep)
next
  fix ih m pk assume "hash_rep ih m" "m pk = []"
  with hash_read_rep show "hash_read pk ih = None" by simp
next
  fix ih m pk assume "hash_rep ih m" "m pk \<noteq> []"
  with hash_read_rep [of ih m pk] show "\<exists>ih'. hash_read pk ih = Some (m pk, ih') \<and> hash_rep ih' m"
    by (auto split: list.splits)
qed

section \<open>The B+ tree\<close>

text \<open>With the configured order, \<open>BTREE_ORDER\<close> in \<open>config.h\<close>, for the thread 0.\<close>

definition BTREE_ORDER :: nat where
  "BTREE_ORDER = 16"

definition btree_rep :: "index_btree \<Rightarrow> (idx_key \<Rightarrow> item list) \<Rightarrow> bool" where
  "btree_rep s m \<longleftrightarrow>
     (\<exists>t. btree_inv BTREE_ORDER s t \<and> m = chain_of (bt_entries t) \<and> (\<forall>kv \<in> set (bt_entries t). snd kv \<noteq> []))"

lemma ins_kvs_chains: "\<forall>kv \<in> set kvs. snd kv \<noteq> [] \<Longrightarrow> \<forall>kv \<in> set (ins_kvs key item kvs). snd kv \<noteq> []"
  by (induction key item kvs rule: ins_kvs.induct) auto

lemma chain_of_cases: "\<forall>kv \<in> set kvs. snd kv \<noteq> [] \<Longrightarrow>
    (case map_of kvs k of None \<Rightarrow> chain_of kvs k = [] | Some items \<Rightarrow> chain_of kvs k = items \<and> items \<noteq> [])"
  by (fastforce simp: chain_of_def dest: map_of_SomeD split: option.split)

interpretation btree: index_base "btree_insert BTREE_ORDER" "\<lambda>k. btree_read BTREE_ORDER k thd" btree_rep for thd
proof unfold_locales
  fix s m k i s' assume "btree_rep s m" and ins: "btree_insert BTREE_ORDER k i s = Some s'"
  then obtain t where t: "btree_inv BTREE_ORDER s t" "m = chain_of (bt_entries t)" "\<forall>kv \<in> set (bt_entries t). snd kv \<noteq> []"
    by (auto simp: btree_rep_def)
  have o: "3 \<le> BTREE_ORDER" "BTREE_ORDER < 2 ^ 32" by (simp_all add: BTREE_ORDER_def)
  have "\<not> insert_stuck BTREE_ORDER k t" using insert_fails [OF t(1) o, of k i] ins by simp
  from insert_ok [OF t(1) o this, of i] ins obtain t' where t': "btree_inv BTREE_ORDER s' t'"
    "bt_entries t' = ins_kvs k i (bt_entries t)" "chain_of (bt_entries t') = (chain_of (bt_entries t))(k := i # chain_of (bt_entries t) k)"
    by auto
  have "\<forall>kv \<in> set (bt_entries t'). snd kv \<noteq> []" unfolding t'(2) by (rule ins_kvs_chains [OF t(3)])
  with t'(1,3) show "btree_rep s' (m(k := i # m k))" unfolding btree_rep_def t(2) by metis
next
  fix s m k assume "btree_rep s m" "m k = []"
  then obtain t where t: "btree_inv BTREE_ORDER s t" "chain_of (bt_entries t) k = []" "\<forall>kv \<in> set (bt_entries t). snd kv \<noteq> []"
    by (auto simp: btree_rep_def)
  from chain_of_cases [OF t(3), of k] t(2) have "map_of (bt_entries t) k = None" by (auto split: option.splits)
  with read_missing [OF t(1)] show "btree_read BTREE_ORDER k thd s = None" .
next
  fix s m k assume "btree_rep s m" "m k \<noteq> []"
  then obtain t where t: "btree_inv BTREE_ORDER s t" "m = chain_of (bt_entries t)" "\<forall>kv \<in> set (bt_entries t). snd kv \<noteq> []"
    "chain_of (bt_entries t) k \<noteq> []" by (auto simp: btree_rep_def)
  from chain_of_cases [OF t(3), of k] t(4) have "map_of (bt_entries t) k = Some (m k)" unfolding t(2) by (auto split: option.splits)
  from read_found [OF t(1) this, of thd] t(2,3)
  show "\<exists>s'. btree_read BTREE_ORDER k thd s = Some (m k, s') \<and> btree_rep s' m" unfolding btree_rep_def by blast
qed

lemma btree_init_rep: "btree_rep (btree_init BTREE_ORDER) (\<lambda>_. [])"
  unfolding btree_rep_def
  by (intro exI [of _ "Lf 0 []"] conjI init_inv) (simp_all add: BTREE_ORDER_def chain_of_def fun_eq_iff)

section \<open>Both give the same answers\<close>

lemma hash_load:
  assumes "0 < g_part_cnt" "g_part_cnt \<le> bucket_cnt"
  shows "\<exists>ih. foldM (\<lambda>(pk, i). hash_insert pk i) (map (\<lambda>(k, i). ((0, unat (k :: idx_key)), i)) ops) (index_init g_part_cnt bucket_cnt) = Some ih \<and>
    foldM (\<lambda>(k, i). index_insert (unat k) i 0) ops (index_init g_part_cnt bucket_cnt) = Some ih"
proof -
  let ?init = "index_init g_part_cnt bucket_cnt"
  have f: "foldM (\<lambda>(pk, i). hash_insert pk i) (map (\<lambda>(k, i). ((0, unat k), i)) ops) ih =
      foldM (\<lambda>(k, i). index_insert (unat k) i 0) ops ih" for ih
    by (induction ops arbitrary: ih) (auto simp: hash_insert_def split: option.splits)
  have g: "foldM (\<lambda>(k, i, p). index_insert k i p) (map (\<lambda>(k, i). (unat k, i, 0)) ops) ih =
      foldM (\<lambda>(k, i). index_insert (unat k) i 0) ops ih" for ih
    by (induction ops arbitrary: ih) (auto split: option.splits)
  have "\<forall>(k, i, p) \<in> set (map (\<lambda>(k, i). (unat k, i, 0)) ops). p < ih_part_cnt ?init" "ih_bucket_cnt_per_part ?init \<noteq> 0"
    using assms by (auto simp: index_init_def div_eq_0_iff)
  from inserts_run [OF index_init_ok(1) this] show ?thesis unfolding f g by auto
qed

lemma newest_unat: "newest (map (\<lambda>(k, i). ((0, unat k), i)) ops) (0 :: nat, unat (key :: idx_key)) = newest ops key"
  by (induction ops) (auto simp: newest_def word_unat_eq_iff)

text \<open>C16: the two index structures agree: when the same rows are loaded into a B+ tree and into a hash index and the load of the
  tree gets through, the load of the hash index does too and every read finds the same items in the same order in both,
  or crashes in both.\<close>

theorem index_structures_agree:
  assumes "foldM (\<lambda>(k, i). btree_insert BTREE_ORDER k i) ops (btree_init BTREE_ORDER) = Some s"
    and "0 < g_part_cnt" and "g_part_cnt \<le> bucket_cnt"
  shows "\<exists>ih. foldM (\<lambda>(k, i). index_insert (unat k) i 0) ops (index_init g_part_cnt bucket_cnt) = Some ih \<and>
    map_option fst (btree_read BTREE_ORDER key thd s) = index_read (unat key) 0 ih"
proof -
  let ?ops = "map (\<lambda>(k, i). ((0 :: nat, unat k), i)) ops"
  from hash_load [OF assms(2,3), of ops] obtain ih
    where ih: "foldM (\<lambda>(pk, i). hash_insert pk i) ?ops (index_init g_part_cnt bucket_cnt) = Some ih"
      "foldM (\<lambda>(k, i). index_insert (unat k) i 0) ops (index_init g_part_cnt bucket_cnt) = Some ih" by blast
  have "ih_bucket_cnt_per_part (index_init g_part_cnt bucket_cnt) \<noteq> 0"
    using assms(2,3) by (simp add: index_init_def div_eq_0_iff)
  then have "hash_rep (index_init g_part_cnt bucket_cnt) (\<lambda>_. [])" by (simp add: hash_rep_def index_init_ok)
  from hash.read_loaded [OF this ih(1), of "[]" ih "(0, unat key)"]
  have "index_read (unat key) 0 ih = (case newest ops key of [] \<Rightarrow> None | items \<Rightarrow> Some items)"
    by (simp add: newest_unat hash_read_def option.map_comp comp_def option.map_ident)
  with btree.read_loaded [OF btree_init_rep assms(1), of thd "[]" s key] ih(2) show ?thesis by simp
qed

lemma index_structures_agree_witness:
  "\<exists>s ih. foldM (\<lambda>(k, i). btree_insert BTREE_ORDER k i) [(3, 10), (3, 12), (7, 11)] (btree_init BTREE_ORDER) = Some s \<and>
     foldM (\<lambda>(k, i). index_insert (unat k) i 0) [(3 :: idx_key, 10), (3, 12), (7, 11)] (index_init 2 8) = Some ih \<and>
     map_option fst (btree_read BTREE_ORDER 3 0 s) = index_read 3 0 ih"
proof -
  have "\<exists>s. foldM (\<lambda>(k, i). btree_insert BTREE_ORDER k i) [(3, 10), (3, 12), (7, 11)] (btree_init BTREE_ORDER) = Some s"
    using ascending_load [of BTREE_ORDER "btree_init BTREE_ORDER" "Lf 0 []" "[(3, 10), (3, 12), (7, 11)]"]
      init_inv [of BTREE_ORDER] by (auto simp: BTREE_ORDER_def)
  with index_structures_agree [of "[(3, 10), (3, 12), (7, 11)]" _ 2 8 3 0] show ?thesis by auto
qed

end
