(* ===== verification/Db_Row.thy ===== *)
theory Db_Row
  imports Db_Base "HOL-Library.Word"
begin

text \<open>
  Schemas and rows (\<open>src/DBx1000/code/storage/catalog.cpp\<close> and \<open>row.cpp\<close>): a schema lays the columns
  of a table out one after the other, and the values of a row are read and written as bytes at
  the place of their column.  A column that does not exist, a read past the bytes of a row or
  past the variable that a value is copied from is \<open>None\<close>.
\<close>

section \<open>Schemas\<close>

record Column =
  cl_size :: nat
  cl_index :: nat
  cl_type :: string
  cl_name :: string

text \<open>\<open>ct_max\<close> is the size of the array \<open>_columns\<close>; the id of a column is its place in the array.\<close>

record Catalog =
  ct_columns :: "Column list"
  ct_max :: nat
  ct_tuple_size :: nat

definition catalog_init :: "nat \<Rightarrow> Catalog" where
  "catalog_init field_cnt = \<lparr>ct_columns = [], ct_max = field_cnt, ct_tuple_size = 0\<rparr>"

definition add_col :: "string \<Rightarrow> nat \<Rightarrow> string \<Rightarrow> Catalog \<Rightarrow> Catalog option" where
  "add_col name sz type ct =
     (if length (ct_columns ct) < ct_max ct \<and> length name < 80 \<and> length type < 80
      then Some (ct\<lparr>ct_columns := ct_columns ct @
                     [\<lparr>cl_size = sz, cl_index = ct_tuple_size ct, cl_type = type, cl_name = name\<rparr>],
                   ct_tuple_size := ct_tuple_size ct + sz\<rparr>)
      else None)"

fun find_name :: "string \<Rightarrow> Column list \<Rightarrow> nat option" where
  "find_name name [] = None"
| "find_name name (c # cs) = (if cl_name c = name then Some 0 else map_option Suc (find_name name cs))"

definition get_field_id :: "string \<Rightarrow> Catalog \<Rightarrow> nat option" where
  "get_field_id name ct = find_name name (ct_columns ct)"

definition column_at :: "nat \<Rightarrow> Catalog \<Rightarrow> Column option" where
  "column_at fid ct = (if fid < length (ct_columns ct) then Some (ct_columns ct ! fid) else None)"

text \<open>The columns of \<open>init_schema\<close>, added in the order of the file.\<close>

definition schema_of :: "(nat \<times> string \<times> string) list \<Rightarrow> Catalog option" where
  "schema_of cols = fold (\<lambda>(sz, type, name) ct. Option.bind ct (add_col name sz type)) cols
     (Some (catalog_init (length cols)))"

section \<open>Bytes\<close>

text \<open>A 64-bit value in memory, lowest byte first.\<close>

primrec to_bytes :: "nat \<Rightarrow> nat \<Rightarrow> rdata" where
  "to_bytes 0 v = []"
| "to_bytes (Suc k) v = v mod 256 # to_bytes k (v div 256)"

fun of_bytes :: "rdata \<Rightarrow> nat" where
  "of_bytes [] = 0"
| "of_bytes (b # bs) = b + 256 * of_bytes bs"

lemma length_to_bytes [simp]: "length (to_bytes k v) = k"
  by (induction k arbitrary: v) auto

lemma of_to_bytes: "of_bytes (to_bytes k v) = v mod 256 ^ k"
  by (induction k arbitrary: v) (simp_all add: mod_mult2_eq)

definition bytes64 :: "64 word \<Rightarrow> rdata" where
  "bytes64 w = to_bytes 8 (unat w)"

definition word64 :: "rdata \<Rightarrow> 64 word" where
  "word64 bs = word_of_nat (of_bytes bs)"

lemma word64_bytes64 [simp]: "word64 (bytes64 w) = w"
proof -
  have "unat w < 2 ^ 64" using unsigned_less [of w] by simp
  then show ?thesis by (simp add: word64_def bytes64_def of_to_bytes)
qed

lemma length_bytes64 [simp]: "length (bytes64 w) = 8"
  by (simp add: bytes64_def)

section \<open>Rows\<close>

text \<open>\<open>memcpy(&data[pos], ptr, size)\<close>; \<open>src\<close> are the bytes that can be read at \<open>ptr\<close>.\<close>

definition memcpy_at :: "nat \<Rightarrow> nat \<Rightarrow> rdata \<Rightarrow> rdata \<Rightarrow> rdata option" where
  "memcpy_at pos sz src data =
     (if sz \<le> length src \<and> pos + sz \<le> length data
      then Some (take pos data @ take sz src @ drop (pos + sz) data) else None)"

definition set_value :: "Catalog \<Rightarrow> nat \<Rightarrow> rdata \<Rightarrow> rdata \<Rightarrow> rdata option" where
  "set_value ct fid src data =
     Option.bind (column_at fid ct) (\<lambda>c. memcpy_at (cl_index c) (cl_size c) src data)"

text \<open>The overloads by type copy the value itself.\<close>

definition set_u64 :: "Catalog \<Rightarrow> nat \<Rightarrow> 64 word \<Rightarrow> rdata \<Rightarrow> rdata option" where
  "set_u64 ct fid v data = set_value ct fid (bytes64 v) data"

definition set_i32 :: "Catalog \<Rightarrow> nat \<Rightarrow> 32 word \<Rightarrow> rdata \<Rightarrow> rdata option" where
  "set_i32 ct fid v data = set_value ct fid (to_bytes 4 (unat v)) data"

text \<open>\<open>value = *(type *)&data[pos]\<close> for a type of eight bytes.\<close>

definition get_u64 :: "Catalog \<Rightarrow> nat \<Rightarrow> rdata \<Rightarrow> 64 word option" where
  "get_u64 ct fid data =
     Option.bind (column_at fid ct)
       (\<lambda>c. if cl_index c + 8 \<le> length data then Some (word64 (take 8 (drop (cl_index c) data))) else None)"

text \<open>\<open>row_t::init\<close>: as many bytes as the schema says, with whatever they hold.\<close>

definition row_init :: "Catalog \<Rightarrow> rdata \<Rightarrow> rdata option" where
  "row_init ct mem = (if ct_tuple_size ct \<le> length mem then Some (take (ct_tuple_size ct) mem) else None)"

definition copy_row :: "Catalog \<Rightarrow> rdata \<Rightarrow> rdata \<Rightarrow> rdata option" where
  "copy_row ct src data = memcpy_at 0 (ct_tuple_size ct) src data"

section \<open>What a schema promises\<close>

text \<open>The columns lie one after the other and end where the tuple ends.\<close>

definition laid_out :: "Column list \<Rightarrow> nat \<Rightarrow> bool" where
  "laid_out cs n \<longleftrightarrow> (\<forall>k < length cs. cl_index (cs ! k) = sum_list (map cl_size (take k cs))) \<and>
     n = sum_list (map cl_size cs)"

definition catalog_ok :: "Catalog \<Rightarrow> bool" where
  "catalog_ok ct \<longleftrightarrow> laid_out (ct_columns ct) (ct_tuple_size ct) \<and> length (ct_columns ct) \<le> ct_max ct"

lemma catalog_ok_init: "catalog_ok (catalog_init n)"
  by (simp add: catalog_ok_def laid_out_def catalog_init_def)

lemma catalog_ok_add: "catalog_ok ct \<Longrightarrow> add_col name sz type ct = Some ct' \<Longrightarrow> catalog_ok ct'"
  by (auto simp: catalog_ok_def laid_out_def add_col_def nth_append less_Suc_eq split: if_splits)

lemma catalog_ok_schema: "schema_of cols = Some ct \<Longrightarrow> catalog_ok ct"
proof -
  have "fold (\<lambda>(sz, type, name) ct. Option.bind ct (add_col name sz type)) cols c = Some ct \<Longrightarrow>
      (\<forall>c'. c = Some c' \<longrightarrow> catalog_ok c') \<Longrightarrow> catalog_ok ct" for cols c
  proof (induction cols arbitrary: c)
    case (Cons col cols)
    obtain sz type name where col: "col = (sz, type, name)" by (rule prod_cases3)
    show ?case
    proof (rule Cons.IH)
      show "fold (\<lambda>(sz, type, name) ct. Option.bind ct (add_col name sz type)) cols
          (Option.bind c (add_col name sz type)) = Some ct"
        using Cons.prems(1) by (simp add: col)
      show "\<forall>c'. Option.bind c (add_col name sz type) = Some c' \<longrightarrow> catalog_ok c'"
        using Cons.prems(2) catalog_ok_add by (cases c) auto
    qed
  qed auto
  then show "schema_of cols = Some ct \<Longrightarrow> catalog_ok ct"
    unfolding schema_of_def using catalog_ok_init by blast
qed

lemma sum_take_le: "k \<le> l \<Longrightarrow> sum_list (map f (take k xs)) \<le> (sum_list (map f (take l xs)) :: nat)"
proof -
  assume "k \<le> l"
  then have "take l xs = take k xs @ take (l - k) (drop k xs)" by (metis le_add_diff_inverse take_add)
  then show ?thesis by simp
qed

lemma column_end:
  assumes "laid_out cs n" "k < length cs"
  shows "cl_index (cs ! k) + cl_size (cs ! k) = sum_list (map cl_size (take (Suc k) cs))"
  using assms by (simp add: laid_out_def take_Suc_conv_app_nth)

lemma columns_apart:
  assumes "laid_out cs n" "k < l" "l < length cs"
  shows "cl_index (cs ! k) + cl_size (cs ! k) \<le> cl_index (cs ! l)"
proof -
  have "sum_list (map cl_size (take (Suc k) cs)) \<le> sum_list (map cl_size (take l cs))"
    by (rule sum_take_le) (use assms in simp)
  then show ?thesis using column_end [OF assms(1), of k] assms by (simp add: laid_out_def)
qed

lemma column_inside:
  assumes "laid_out cs n" "k < length cs"
  shows "cl_index (cs ! k) + cl_size (cs ! k) \<le> n"
  using column_end [OF assms] sum_take_le [of "Suc k" "length cs" cl_size cs] assms by (simp add: laid_out_def)

section \<open>Writing and reading a column\<close>

definition row_of :: "Catalog \<Rightarrow> rdata \<Rightarrow> bool" where
  "row_of ct data \<longleftrightarrow> length data = ct_tuple_size ct"

definition word_col :: "Catalog \<Rightarrow> nat \<Rightarrow> bool" where
  "word_col ct fid \<longleftrightarrow> fid < length (ct_columns ct) \<and> cl_size (ct_columns ct ! fid) = 8"

lemma memcpy_length: "memcpy_at pos sz src data = Some data' \<Longrightarrow> length data' = length data"
  by (auto simp: memcpy_at_def split: if_splits)

lemma memcpy_get:
  "memcpy_at pos sz src data = Some data' \<Longrightarrow> take sz (drop pos data') = take sz src"
  by (auto simp: memcpy_at_def split: if_splits)

lemma memcpy_other:
  assumes "memcpy_at pos sz src data = Some data'" "q + l \<le> pos \<or> pos + sz \<le> q"
  shows "take l (drop q data') = take l (drop q data)"
proof -
  have d: "data' = take pos data @ take sz src @ drop (pos + sz) data"
    and le: "sz \<le> length src" "pos + sz \<le> length data"
    using assms(1) by (auto simp: memcpy_at_def split: if_splits)
  from assms(2) show ?thesis
  proof
    assume q: "q + l \<le> pos"
    then have "take l (drop q data') = take l (drop q (take pos data))"
      using le by (simp add: d)
    also have "\<dots> = take l (drop q data)" using q by (simp add: drop_take)
    finally show ?thesis .
  next
    assume q: "pos + sz \<le> q"
    then have "drop q data' = drop q data"
      using le by (simp add: d drop_append)
    then show ?thesis by simp
  qed
qed

lemma set_u64_total:
  assumes "catalog_ok ct" "row_of ct data" "word_col ct fid"
  shows "\<exists>data'. set_u64 ct fid v data = Some data' \<and> row_of ct data' \<and> get_u64 ct fid data' = Some v"
proof -
  let ?c = "ct_columns ct ! fid"
  have fid: "fid < length (ct_columns ct)" "cl_size ?c = 8" using assms(3) by (simp_all add: word_col_def)
  have "cl_index ?c + 8 \<le> length data"
    using column_inside [OF _ fid(1)] assms(1,2) fid(2) by (simp add: catalog_ok_def row_of_def)
  then obtain data' where d: "memcpy_at (cl_index ?c) 8 (bytes64 v) data = Some data'"
    by (simp add: memcpy_at_def)
  have "set_u64 ct fid v data = Some data'"
    by (simp add: set_u64_def set_value_def column_at_def fid d)
  moreover have "get_u64 ct fid data' = Some v"
    using memcpy_get [OF d] memcpy_length [OF d] \<open>cl_index ?c + 8 \<le> length data\<close>
    by (simp add: get_u64_def column_at_def fid)
  moreover have "row_of ct data'" using memcpy_length [OF d] assms(2) by (simp add: row_of_def)
  ultimately show ?thesis by blast
qed

lemma get_set_other:
  assumes "catalog_ok ct" "set_value ct fid src data = Some data'" "word_col ct k" "k \<noteq> fid"
  shows "get_u64 ct k data' = get_u64 ct k data"
proof -
  let ?c = "ct_columns ct ! fid" and ?k = "ct_columns ct ! k"
  have fid: "fid < length (ct_columns ct)" and d: "memcpy_at (cl_index ?c) (cl_size ?c) src data = Some data'"
    using assms(2) by (auto simp: set_value_def column_at_def bind_eq_Some_conv split: if_splits)
  have k: "k < length (ct_columns ct)" "cl_size ?k = 8" using assms(3) by (simp_all add: word_col_def)
  have l: "laid_out (ct_columns ct) (ct_tuple_size ct)" using assms(1) by (simp add: catalog_ok_def)
  have "cl_index ?k + 8 \<le> cl_index ?c \<or> cl_index ?c + cl_size ?c \<le> cl_index ?k"
    using columns_apart [OF l, of k fid] columns_apart [OF l, of fid k] k fid assms(4)
    by (cases "k < fid") auto
  from memcpy_other [OF d this] show ?thesis
    using memcpy_length [OF d] k by (simp add: get_u64_def column_at_def)
qed


definition ex_schema :: "(nat \<times> string \<times> string) list" where
  "ex_schema = [(8, ''int64_t'', ''D_ID''), (3, ''string'', ''D_NAME''), (8, ''double'', ''D_YTD'')]"


end
