(* ===== verification/Txn_Script.thy ===== *)
theory Txn_Script
  imports Txn_Lock Db_Row "HOL-Library.Monad_Syntax"
begin

text \<open>
  One transaction from its first request to \<open>finish\<close> (\<open>src/DBx1000/code/system/txn.cpp\<close>), under a locking scheme:
  a granted row is the row itself, an aborted transaction puts back the copies that \<open>get_row\<close> took of the
  rows it writes.  Whether a request is granted is the answer of the concurrency control, an argument of the
  model; how the answers come about is the subject of \<open>Txn_Lock\<close>.  A crash is \<open>None\<close>.
\<close>

section \<open>The state of a transaction\<close>

text \<open>\<open>rn_acc\<close> are \<open>accesses\<close> up to \<open>row_cnt\<close>, \<open>rn_ins\<close> the rows of \<open>insert_rows\<close> with their tables;
  \<open>rn_log\<close> keeps the requests for the statements about their order.\<close>

datatype tpcc_table = WAREHOUSE | DISTRICT | CUSTOMER | HISTORY | NEW_ORDER | ORDER | ORDER_LINE | ITEM | STOCK

record run =
  rn_data :: "rid \<Rightarrow> rdata"
  rn_acc :: "access list"
  rn_ins :: "(tpcc_table \<times> rdata) list"
  rn_log :: "(rid \<times> access_t) list"

definition txn_start :: "(rid \<Rightarrow> rdata) \<Rightarrow> run" where
  "txn_start data = \<lparr>rn_data = data, rn_acc = [], rn_ins = [], rn_log = []\<rparr>"

type_synonym grants = "nat \<Rightarrow> bool"    \<comment> \<open>the answer to each request\<close>
type_synonym outcome = "(RC \<times> run) option"

definition MAX_ROW_PER_TXN :: nat where "MAX_ROW_PER_TXN = 64"

section \<open>Operations\<close>

definition undo_access :: "access \<Rightarrow> (rid \<Rightarrow> rdata) \<Rightarrow> rid \<Rightarrow> rdata" where
  "undo_access a d = (if ac_type a = WR then d(ac_row a := ac_orig a) else d)"

text \<open>\<open>cleanup\<close> goes from the last access to the first.\<close>

definition undo :: "access list \<Rightarrow> (rid \<Rightarrow> rdata) \<Rightarrow> rid \<Rightarrow> rdata" where
  "undo accs d = foldr undo_access accs d"

definition finish :: "RC \<Rightarrow> run \<Rightarrow> outcome" where
  "finish rc s =
     (if rc = Abort
      then Some (Abort, s\<lparr>rn_data := undo (rn_acc s) (rn_data s), rn_acc := [], rn_ins := []\<rparr>)
      else Some (rc, s\<lparr>rn_acc := []\<rparr>))"

text \<open>\<open>row = get_row(r, type); if (row == NULL) return finish(Abort); \<dots>\<close>: the rest is an argument.\<close>

definition note_access :: "rid \<Rightarrow> access_t \<Rightarrow> run \<Rightarrow> run" where
  "note_access r type s =
     s\<lparr>rn_acc := rn_acc s @ [\<lparr>ac_type = type, ac_row = r, ac_orig = (if type = WR then rn_data s r else [])\<rparr>],
       rn_log := rn_log s @ [(r, type)]\<rparr>"

definition with_row :: "grants \<Rightarrow> rid \<Rightarrow> access_t \<Rightarrow> run \<Rightarrow> (run \<Rightarrow> outcome) \<Rightarrow> outcome" where
  "with_row g r type s k =
     (if MAX_ROW_PER_TXN \<le> length (rn_acc s) then None
      else if g (length (rn_acc s)) then k (note_access r type s)
      else finish Abort s)"

text \<open>The code between two requests changes one row through its \<open>get_value\<close> and \<open>set_value\<close>.\<close>

definition update_row :: "rid \<Rightarrow> (rdata \<Rightarrow> rdata option) \<Rightarrow> run \<Rightarrow> run option" where
  "update_row r f s = map_option (\<lambda>d. s\<lparr>rn_data := (rn_data s)(r := d)\<rparr>) (f (rn_data s r))"

definition insert_row :: "tpcc_table \<Rightarrow> rdata \<Rightarrow> run \<Rightarrow> run option" where
  "insert_row t d s =
     (if length (rn_ins s) < MAX_ROW_PER_TXN then Some (s\<lparr>rn_ins := rn_ins s @ [(t, d)]\<rparr>) else None)"

section \<open>Atomicity\<close>

text \<open>At every point the copies give back the data that the transaction started from.\<close>

definition restorable :: "(rid \<Rightarrow> rdata) \<Rightarrow> run \<Rightarrow> bool" where
  "restorable D s \<longleftrightarrow> undo (rn_acc s) (rn_data s) = D"

definition writable :: "rid \<Rightarrow> run \<Rightarrow> bool" where
  "writable r s \<longleftrightarrow> (\<exists>a \<in> set (rn_acc s). ac_type a = WR \<and> ac_row a = r)"

lemma undo_append: "undo (as @ bs) d = undo as (undo bs d)"
  by (simp add: undo_def)

lemma undo_Cons: "undo (a # accs) d = undo_access a (undo accs d)"
  by (simp add: undo_def)

lemma undo_other:
  "\<not> (\<exists>a \<in> set accs. ac_type a = WR \<and> ac_row a = r) \<Longrightarrow> undo accs (d(r := x)) = (undo accs d)(r := x)"
  by (induction accs) (auto simp: undo_def undo_access_def)

lemma undo_write: "\<exists>a \<in> set accs. ac_type a = WR \<and> ac_row a = r \<Longrightarrow> undo accs (d(r := x)) = undo accs d"
proof (induction accs)
  case (Cons a accs)
  show ?case
  proof (cases "\<exists>a \<in> set accs. ac_type a = WR \<and> ac_row a = r")
    case True
    with Cons.IH show ?thesis by (simp add: undo_Cons)
  next
    case False
    then have "ac_type a = WR" "ac_row a = r" using Cons.prems by auto
    then show ?thesis unfolding undo_Cons undo_other [OF False] undo_access_def by simp
  qed
qed simp

lemma restorable_start: "restorable data (txn_start data)"
  by (simp add: restorable_def txn_start_def undo_def)

lemma restorable_note: "restorable D s \<Longrightarrow> restorable D (note_access r type s)"
  by (auto simp: restorable_def note_access_def undo_append) (simp_all add: undo_def undo_access_def)

lemma writable_note: "writable r (note_access q type s) \<longleftrightarrow> writable r s \<or> (q = r \<and> type = WR)"
  by (auto simp: writable_def note_access_def)

lemma restorable_update:
  "update_row r f s = Some s' \<Longrightarrow> writable r s \<Longrightarrow> restorable D s \<Longrightarrow>
   restorable D s' \<and> (\<forall>q. writable q s' \<longleftrightarrow> writable q s)"
  using undo_write [of "rn_acc s" r "rn_data s"]
  by (auto simp: update_row_def restorable_def writable_def)

lemma restorable_insert:
  "insert_row t d s = Some s' \<Longrightarrow> restorable D s \<Longrightarrow> restorable D s' \<and> (\<forall>q. writable q s' \<longleftrightarrow> writable q s)"
  by (auto simp: insert_row_def restorable_def writable_def split: if_splits)

text \<open>One answer of the concurrency control against all requests granted: either the transaction
  aborted and left nothing, or the outcome is the same.\<close>

definition outcome_ok :: "(rid \<Rightarrow> rdata) \<Rightarrow> outcome \<Rightarrow> outcome \<Rightarrow> bool" where
  "outcome_ok D a b \<longleftrightarrow> a = b \<or> (\<exists>s. a = Some (Abort, s) \<and> rn_data s = D \<and> rn_ins s = [] \<and> rn_acc s = [])"

lemma outcome_ok_refl: "outcome_ok D a a"
  by (simp add: outcome_ok_def)

lemma outcome_ok_row:
  assumes "restorable D s" "\<And>s'. s' = note_access r type s \<Longrightarrow> restorable D s' \<Longrightarrow> outcome_ok D (k s') (k' s')"
  shows "outcome_ok D (with_row g r type s k) (with_row (\<lambda>_. True) r type s k')"
  using assms restorable_note [OF assms(1)]
  by (auto simp: with_row_def outcome_ok_def finish_def restorable_def)

lemma outcome_ok_bind:
  "(\<And>y. x = Some y \<Longrightarrow> outcome_ok D (k y) (k' y)) \<Longrightarrow> outcome_ok D (Option.bind x k) (Option.bind x k')"
  by (cases x) (simp_all add: outcome_ok_refl)

lemmas outcome_ok_intros = outcome_ok_refl outcome_ok_row outcome_ok_bind

text \<open>The rollback is the data side of the \<open>cleanup\<close> that runs with the locks.\<close>

lemma cleanup_undoes:
  assumes "cleanup_step Abort t s = Some s'" "accesses s t \<noteq> []" "ac_type (last (accesses s t)) \<in> {RD, WR, SCAN}"
  shows "db_data s' = undo_access (last (accesses s t)) (db_data s) \<and> accesses s' t = butlast (accesses s t)"
proof -
  let ?a = "last (accesses s t)"
  let ?type = "if ac_type ?a = WR \<and> Abort = Abort then XP else ac_type ?a"
  from assms(1,2) obtain u where u: "return_row ?type t (ac_row ?a) (ac_orig ?a) s = Some u"
    and s': "s' = u\<lparr>accesses := (accesses u)(t := butlast (accesses u t))\<rparr>"
    by (auto simp: cleanup_step_def Let_def)
  from u assms(3) have "db_data u = undo_access ?a (db_data s) \<and> accesses u = accesses s"
    by (auto simp: return_row_def undo_access_def Let_def split: option.splits prod.splits)
  then show ?thesis by (simp add: s')
qed

end
