(* ===== verification/Tpcc_Key.thy ===== *)
theory Tpcc_Key
  imports Db_Base "HOL-Library.Word" "HOL-Library.Sublist"
begin

text \<open>
  The keys of the TPC-C tables (\<open>src/DBx1000/code/benchmarks/tpcc_helper.cpp\<close>), 64-bit numbers whose
  arithmetic wraps around, and the list of items of a new order without duplicates
  (\<open>tpcc_query.cpp\<close>).
\<close>

unbundle bit_operations_syntax

section \<open>Keys\<close>

definition DIST_PER_WARE :: "64 word" where "DIST_PER_WARE = 10"

definition distKey :: "64 word \<Rightarrow> 64 word \<Rightarrow> 64 word" where
  "distKey d_id d_w_id = d_w_id * DIST_PER_WARE + d_id"

definition custKey :: "64 word \<Rightarrow> 64 word \<Rightarrow> 64 word \<Rightarrow> 64 word \<Rightarrow> 64 word" where
  "custKey g_cust_per_dist c_id c_d_id c_w_id = distKey c_d_id c_w_id * g_cust_per_dist + c_id"

definition orderlineKey :: "64 word \<Rightarrow> 64 word \<Rightarrow> 64 word \<Rightarrow> 64 word \<Rightarrow> 64 word" where
  "orderlineKey g_cust_per_dist w_id d_id o_id = distKey d_id w_id * g_cust_per_dist + o_id"

definition stockKey :: "64 word \<Rightarrow> 64 word \<Rightarrow> 64 word \<Rightarrow> 64 word" where
  "stockKey g_max_items s_i_id s_w_id = s_w_id * g_max_items + s_i_id"

text \<open>The key by last name: each letter is added to twice the key so far.\<close>

definition name_key :: "string \<Rightarrow> 64 word" where
  "name_key c_last = foldl (\<lambda>key c. push_bit 1 key + (of_char c - 65)) 0 c_last"

definition custNPKey :: "string \<Rightarrow> 64 word \<Rightarrow> 64 word \<Rightarrow> 64 word" where
  "custNPKey c_last c_d_id c_w_id = push_bit 10 (name_key c_last) + (c_w_id * DIST_PER_WARE + c_d_id)"

definition syllables :: "string list" where
  "syllables = [''BAR'', ''OUGHT'', ''ABLE'', ''PRI'', ''PRES'', ''ESE'', ''ANTI'', ''CALLY'', ''ATION'', ''EING'']"

definition Lastname :: "nat \<Rightarrow> string option" where
  "Lastname num =
     (if num div 100 < length syllables
      then Some (syllables ! (num div 100) @ syllables ! (num div 10 mod 10) @ syllables ! (num mod 10))
      else None)"

definition wh_to_part :: "nat \<Rightarrow> nat \<Rightarrow> 64 word \<Rightarrow> nat option" where
  "wh_to_part g_part_cnt g_num_wh wid =
     (if g_part_cnt \<le> g_num_wh \<and> g_part_cnt \<noteq> 0 then Some (unat wid mod g_part_cnt) else None)"

section \<open>Which keys are different\<close>

lemma mult_add_cancel:
  fixes a b c d n :: nat
  assumes "a * n + c = b * n + d" "0 < c" "c \<le> n" "0 < d" "d \<le> n"
  shows "a = b \<and> c = d"
proof -
  have "(a * n + (c - 1)) = b * n + (d - 1)" using assms by linarith
  moreover have "c - 1 < n" "d - 1 < n" using assms by linarith+
  ultimately have "a = b \<and> c - 1 = d - 1"
    by (metis add.commute div_mult_self1 div_less add.right_neutral mod_mult_self1 mod_less
        not_less_zero add_0)
  then show ?thesis using assms by linarith
qed

text \<open>Two numbers packed into one 64-bit number without wrapping around.\<close>

lemma packed_eq:
  fixes a b n c d :: "64 word"
  assumes eq: "a * n + c = b * n + d" and ac: "unat a * unat n + unat c < 2 ^ 64"
    and bd: "unat b * unat n + unat d < 2 ^ 64"
    and r: "0 < unat c" "unat c \<le> unat n" "0 < unat d" "unat d \<le> unat n"
  shows "a = b \<and> c = d"
proof -
  have u: "unat (x * n + y) = unat x * unat n + unat y"
    if "unat x * unat n + unat y < 2 ^ 64" for x y :: "64 word"
    using that by (simp add: unat_word_ariths)
  have "unat a * unat n + unat c = unat b * unat n + unat d"
    using arg_cong [OF eq, of unat] u [OF ac] u [OF bd] by simp
  from mult_add_cancel [OF this r] show ?thesis by (simp add: word_unat_eq_iff)
qed

text \<open>The ranges that the workload uses: at most \<open>2^31\<close> warehouses, ten districts each, and at most
  \<open>2^24\<close> customers per district.\<close>

definition in_district :: "64 word \<Rightarrow> 64 word \<Rightarrow> bool" where
  "in_district d w \<longleftrightarrow> 1 \<le> unat d \<and> unat d \<le> 10 \<and> unat w < 2 ^ 31"

lemma distKey_unat: "in_district d w \<Longrightarrow> unat (distKey d w) = unat w * 10 + unat d"
  by (simp add: in_district_def distKey_def DIST_PER_WARE_def unat_word_ariths)

lemma custKey_fits:
  assumes "in_district d w" "unat n < 2 ^ 24" "unat c \<le> unat n"
  shows "unat (distKey d w) * unat n + unat c < 2 ^ 64"
proof -
  have "unat w * 10 + unat d \<le> 2 ^ 31 * 10 + 10" using assms(1) by (simp add: in_district_def)
  then have "(unat w * 10 + unat d) * unat n \<le> (2 ^ 31 * 10 + 10) * 2 ^ 24"
    using assms(2) by (intro mult_mono) simp_all
  moreover have "unat c < 2 ^ 24" using assms(2,3) by linarith
  ultimately have "(unat w * 10 + unat d) * unat n + unat c < (2 ^ 31 * 10 + 10) * 2 ^ 24 + 2 ^ 24" by linarith
  also have "\<dots> < (2 :: nat) ^ 64" by simp
  finally show ?thesis by (simp add: distKey_unat [OF assms(1)])
qed

lemma distKey_eq:
  assumes "in_district d w" "in_district d' w'" "distKey d w = distKey d' w'"
  shows "d = d' \<and> w = w'"
proof -
  have "unat w * 10 + unat d = unat w' * 10 + unat d'"
    using assms(3) distKey_unat [OF assms(1)] distKey_unat [OF assms(2)] by simp
  from mult_add_cancel [OF this] assms(1,2) show ?thesis
    by (simp add: in_district_def word_unat_eq_iff)
qed

text \<open>As long as districts, customers and items keep to the ranges of the workload, no two districts,
  customers or stock rows share a primary key.\<close>

theorem tpcc_keys_unique:
  assumes "in_district d w" "in_district d' w'"
    and "unat n < 2 ^ 24" "1 \<le> unat c" "unat c \<le> unat n" "1 \<le> unat c'" "unat c' \<le> unat n"
  shows "(distKey d w = distKey d' w' \<longleftrightarrow> d = d' \<and> w = w') \<and>
    (custKey n c d w = custKey n c' d' w' \<longleftrightarrow> c = c' \<and> d = d' \<and> w = w') \<and>
    (stockKey n c w = stockKey n c' w' \<longleftrightarrow> c = c' \<and> w = w')"
proof (intro conjI iffI)
  assume "distKey d w = distKey d' w'"
  from distKey_eq [OF assms(1,2) this] show "d = d'" "w = w'" by blast+
next
  assume "custKey n c d w = custKey n c' d' w'"
  then have "distKey d w = distKey d' w' \<and> c = c'" unfolding custKey_def
    by (rule packed_eq) (use assms custKey_fits in \<open>auto simp: custKey_fits\<close>)
  with distKey_eq [OF assms(1,2)] show "c = c'" "d = d'" "w = w'" by blast+
next
  have fits: "unat w * unat n + unat c < 2 ^ 64" if "unat w < 2 ^ 31" "unat c \<le> unat n" for w c :: "64 word"
  proof -
    have "unat w * unat n \<le> 2 ^ 31 * 2 ^ 24" using that assms(3) by (intro mult_mono) simp_all
    moreover have "unat c < 2 ^ 24" using that assms(3) by linarith
    ultimately show ?thesis by simp
  qed
  assume "stockKey n c w = stockKey n c' w'"
  then have "w = w' \<and> c = c'" unfolding stockKey_def
    by (rule packed_eq) (use assms fits in \<open>auto simp: in_district_def\<close>)
  then show "c = c'" "w = w'" by blast+
qed (simp_all)

lemma tpcc_keys_unique_witness:
  "(distKey 3 7 = distKey 4 7 \<longleftrightarrow> (3 :: 64 word) = 4 \<and> (7 :: 64 word) = 7) \<and>
   (custKey 3000 3000 3 7 = custKey 3000 1 4 7 \<longleftrightarrow> (3000 :: 64 word) = 1 \<and> (3 :: 64 word) = 4 \<and> (7 :: 64 word) = 7) \<and>
   (stockKey 3000 3000 7 = stockKey 3000 1 7 \<longleftrightarrow> (3000 :: 64 word) = 1 \<and> (7 :: 64 word) = 7)"
  by (rule tpcc_keys_unique) (simp_all add: in_district_def)

text \<open>The key by last name does not tell all last names of the workload apart: the names with the
  numbers 40 and 530 have the same key in every district, so a payment by last name finds customers
  of both names in one list.\<close>

theorem name_keys_collide:
  "\<exists>a b. Lastname 40 = Some a \<and> Lastname 530 = Some b \<and> a \<noteq> b \<and>
     (\<forall>d w. custNPKey a d w = custNPKey b d w)"
proof -
  have "name_key ''BARPRESBAR'' = name_key ''ESEPRIBAR''"
    by (simp add: name_key_def push_bit_eq_mult)
  then have "\<forall>d w. custNPKey ''BARPRESBAR'' d w = custNPKey ''ESEPRIBAR'' d w" by (simp add: custNPKey_def)
  moreover have "Lastname 40 = Some ''BARPRESBAR''" "Lastname 530 = Some ''ESEPRIBAR''"
    by (simp_all add: Lastname_def syllables_def)
  ultimately show ?thesis by blast
qed

text \<open>Beyond the customers of a district the key of an order runs into the next district.\<close>

lemma order_keys_collide: "orderlineKey n w d (n + k) = orderlineKey n w (d + 1) k"
  by (simp add: orderlineKey_def distKey_def algebra_simps)

section \<open>The items of a new order\<close>

record Item_no =
  ol_i_id :: "64 word"
  ol_supply_w_id :: "64 word"
  ol_quantity :: "64 word"

text \<open>The loops of \<open>gen_new_order\<close> that remove duplicate items: \<open>i\<close> steps back when an item is removed, in
  the middle of the inner loop.  The list is the first \<open>ol_cnt\<close> items.\<close>

function dup_inner :: "Item_no list \<Rightarrow> nat \<Rightarrow> nat \<Rightarrow> Item_no list \<times> nat" where
  "dup_inner xs i j =
     (if j < i
      then (if ol_i_id (xs ! i) = ol_i_id (xs ! j)
            then dup_inner (take i xs @ drop (i + 1) xs) (i - 1) (j + 1)
            else dup_inner xs i (j + 1))
      else (xs, i))"
  by pat_completeness auto

termination by (relation "measure (\<lambda>(xs, i, j). i - j)") auto

declare dup_inner.simps [simp del]

lemma dup_inner_bounds:
  "dup_inner xs i j = (ys, k) \<Longrightarrow> i < length xs \<Longrightarrow>
   k \<le> i \<and> k \<le> length ys \<and> length ys + (i - k) = length xs"
proof (induction xs i j arbitrary: ys k rule: dup_inner.induct)
  case (1 xs i j)
  show ?case
  proof (cases "j < i")
    case False
    with 1(3,4) show ?thesis by (subst (asm) dup_inner.simps) auto
  next
    case True
    show ?thesis
    proof (cases "ol_i_id (xs ! i) = ol_i_id (xs ! j)")
      case False
      with 1(2) [OF True False, of ys k] 1(3,4) True show ?thesis
        by (subst (asm) dup_inner.simps) simp
    next
      case eq: True
      let ?zs = "take i xs @ drop (i + 1) xs"
      have "dup_inner ?zs (i - 1) (j + 1) = (ys, k)" using 1(3) True eq by (subst (asm) dup_inner.simps) simp
      from 1(1) [OF True eq this] have "i - 1 < length xs - 1 \<Longrightarrow>
          k \<le> i - 1 \<and> k \<le> length ys \<and> length ys + (i - 1 - k) = length xs - 1"
        using 1(4) True by (simp add: min_def)
      moreover have "i - 1 < length xs - 1" using 1(4) True by linarith
      ultimately show ?thesis using 1(4) True by linarith
    qed
  qed
qed

function dup_outer :: "Item_no list \<Rightarrow> nat \<Rightarrow> Item_no list" where
  "dup_outer xs i =
     (if i < length xs then (let (ys, k) = dup_inner xs i 0 in dup_outer ys (k + 1)) else xs)"
  by pat_completeness auto

termination
proof (relation "measure (\<lambda>(xs, i). length xs - i)")
  fix xs :: "Item_no list" and i ys k p
  assume i: "i < length xs" and p: "p = dup_inner xs i 0" "(ys, k) = p"
  then have "dup_inner xs i 0 = (ys, k)" by simp
  from dup_inner_bounds [OF this i] i have "length ys - k = length xs - i" "0 < length xs - i" by linarith+
  then show "((ys, k + 1), (xs, i)) \<in> measure (\<lambda>(xs, i). length xs - i)" by simp
qed simp

declare dup_outer.simps [simp del]

definition remove_duplicates :: "Item_no list \<Rightarrow> Item_no list" where
  "remove_duplicates xs = dup_outer xs 0"

text \<open>The items before place \<open>i\<close> are different; at most one of them equals the item at \<open>i\<close>.\<close>

lemma dup_inner_none:
  "\<forall>l. j \<le> l \<and> l < i \<longrightarrow> ol_i_id (xs ! i) \<noteq> ol_i_id (xs ! l) \<Longrightarrow> dup_inner xs i j = (xs, i)"
proof (induction xs i j rule: dup_inner.induct)
  case (1 xs i j)
  then show ?case by (subst dup_inner.simps) auto
qed

lemma dup_inner_result:
  assumes "distinct (map ol_i_id (take i xs))" "i < length xs"
  shows "dup_inner xs i j =
     (if \<exists>l. j \<le> l \<and> l < i \<and> ol_i_id (xs ! i) = ol_i_id (xs ! l)
      then (take i xs @ drop (i + 1) xs, i - 1) else (xs, i))"
  using assms
proof (induction xs i j rule: dup_inner.induct)
  case (1 xs i j)
  show ?case
  proof (cases "j < i")
    case False
    then show ?thesis by (subst dup_inner.simps) auto
  next
    case True
    show ?thesis
    proof (cases "ol_i_id (xs ! i) = ol_i_id (xs ! j)")
      case False
      have "(\<exists>l. j \<le> l \<and> l < i \<and> ol_i_id (xs ! i) = ol_i_id (xs ! l)) \<longleftrightarrow>
          (\<exists>l. j + 1 \<le> l \<and> l < i \<and> ol_i_id (xs ! i) = ol_i_id (xs ! l))"
        using False by (metis Suc_eq_plus1 le_SucI le_antisym not_less_eq_eq)
      with 1(2) [OF True False 1(3,4)] True False show ?thesis by (subst dup_inner.simps) simp
    next
      case eq: True
      let ?zs = "take i xs @ drop (i + 1) xs"
      have nth: "?zs ! l = xs ! l" if "l < i" for l using that 1(4) by (simp add: nth_append)
      have "\<forall>l. j + 1 \<le> l \<and> l < i - 1 \<longrightarrow> ol_i_id (?zs ! (i - 1)) \<noteq> ol_i_id (?zs ! l)"
      proof (intro allI impI)
        fix l assume l: "j + 1 \<le> l \<and> l < i - 1"
        then have "l < i" "i - 1 < i" "l \<noteq> i - 1" by linarith+
        moreover have "ol_i_id (xs ! a) \<noteq> ol_i_id (xs ! b)" if "a < i" "b < i" "a \<noteq> b" for a b
          using 1(3,4) that by (auto simp: distinct_conv_nth)
        ultimately show "ol_i_id (?zs ! (i - 1)) \<noteq> ol_i_id (?zs ! l)" by (simp only: nth) metis
      qed
      from dup_inner_none [OF this] True eq show ?thesis by (subst dup_inner.simps) auto
    qed
  qed
qed

lemma dup_outer_result:
  "distinct (map ol_i_id (take i xs)) \<Longrightarrow>
   distinct (map ol_i_id (dup_outer xs i)) \<and>
   ol_i_id ` set (dup_outer xs i) = ol_i_id ` set xs \<and> subseq (dup_outer xs i) xs"
proof (induction xs i rule: dup_outer.induct)
  case (1 xs i)
  show ?case
  proof (cases "i < length xs")
    case False
    then show ?thesis using 1(2) by (subst (1 2 3) dup_outer.simps) simp
  next
    case True
    note res = dup_inner_result [OF 1(2) True, of 0]
    let ?zs = "take i xs @ drop (i + 1) xs"
    have xs: "xs = take i xs @ xs ! i # drop (i + 1) xs" using True by (simp add: id_take_nth_drop [symmetric])
    show ?thesis
    proof (cases "\<exists>l < i. ol_i_id (xs ! i) = ol_i_id (xs ! l)")
      case dup: True
      then have i: "0 < i" by auto
      have r: "dup_inner xs i 0 = (?zs, i - 1)" using res dup by auto
      then have o: "dup_outer xs i = dup_outer ?zs i"
        using True i by (subst dup_outer.simps) simp
      have "distinct (map ol_i_id (take i ?zs))" using 1(2) True by (simp add: min_def)
      from 1(1) [OF True r [symmetric] refl] this i
      have IH: "distinct (map ol_i_id (dup_outer ?zs i)) \<and>
          ol_i_id ` set (dup_outer ?zs i) = ol_i_id ` set ?zs \<and> subseq (dup_outer ?zs i) ?zs" by simp
      have "ol_i_id (xs ! i) \<in> ol_i_id ` set (take i xs)"
      proof -
        from dup obtain l where l: "l < i" "ol_i_id (xs ! i) = ol_i_id (xs ! l)" by blast
        then have "xs ! l \<in> set (take i xs)" using True by (auto simp: in_set_conv_nth)
        with l(2) show ?thesis by simp
      qed
      moreover have "ol_i_id ` set xs = insert (ol_i_id (xs ! i)) (ol_i_id ` set ?zs)"
        by (subst (1) xs) (simp only: set_append list.set image_Un image_insert, blast)
      ultimately have "ol_i_id ` set ?zs = ol_i_id ` set xs" by (simp add: image_Un insert_absorb)
      moreover have "subseq ?zs xs"
      proof -
        have "subseq (take i xs @ drop (i + 1) xs) (take i xs @ xs ! i # drop (i + 1) xs)"
          by (rule list_emb_append_mono [OF subseq_order.refl list_emb_Cons [OF subseq_order.refl]])
        then show ?thesis unfolding xs [symmetric] .
      qed
      ultimately show ?thesis using IH subseq_order.trans [of "dup_outer ?zs i" ?zs xs] unfolding o
        by (simp only: simp_thms)
    next
      case False
      then have r: "dup_inner xs i 0 = (xs, i)" using res by auto
      then have o: "dup_outer xs i = dup_outer xs (i + 1)" using True by (subst dup_outer.simps) simp
      have "distinct (map ol_i_id (take (i + 1) xs))"
      proof -
        have "ol_i_id (xs ! i) \<notin> ol_i_id ` set (take i xs)"
        proof
          assume "ol_i_id (xs ! i) \<in> ol_i_id ` set (take i xs)"
          then obtain y where y: "y \<in> set (take i xs)" "ol_i_id (xs ! i) = ol_i_id y" by blast
          then obtain l where "l < i" "y = xs ! l" using True by (auto simp: in_set_conv_nth)
          with y(2) False show False by blast
        qed
        then show ?thesis using 1(2) True by (simp add: take_Suc_conv_app_nth)
      qed
      from 1(1) [OF True r [symmetric] refl this] show ?thesis unfolding o .
    qed
  qed
qed

text \<open>The loops that remove duplicate items end; what is left are items of the list, in their order,
  one for each item number that occurs, so no two order lines of a new order name the same item.\<close>

theorem remove_duplicates_correct:
  "distinct (map ol_i_id (remove_duplicates xs)) \<and>
   ol_i_id ` set (remove_duplicates xs) = ol_i_id ` set xs \<and> subseq (remove_duplicates xs) xs"
  unfolding remove_duplicates_def by (rule dup_outer_result) simp

end
