(* ===== verification/Tpcc_Txn.thy ===== *)
theory Tpcc_Txn
  imports Txn_Script Tpcc_Key Index_Hash
begin

text \<open>
  The payment and new-order transactions of TPC-C as DBx1000 runs them
  (\<open>src/DBx1000/code/benchmarks/tpcc_txn.cpp\<close>, with the columns of \<open>TPCC_SMALL\<close>), and the same transactions
  in the order of statements that QURO proposes (\<open>src/DBx1000/code/temp_transaction_file/reorder_tpcc_txn.cpp\<close>).
\<close>

section \<open>Tables, indexes and queries\<close>

text \<open>The places of the columns (\<open>tpcc_const.h\<close>).\<close>

abbreviation (input) W_TAX :: nat where "W_TAX \<equiv> 7"
abbreviation (input) W_YTD :: nat where "W_YTD \<equiv> 8"
abbreviation (input) D_YTD :: nat where "D_YTD \<equiv> 9"
abbreviation (input) D_NEXT_O_ID :: nat where "D_NEXT_O_ID \<equiv> 10"
abbreviation (input) C_CREDIT :: nat where "C_CREDIT \<equiv> 6"
abbreviation (input) C_DISCOUNT :: nat where "C_DISCOUNT \<equiv> 7"
abbreviation (input) C_BALANCE :: nat where "C_BALANCE \<equiv> 8"
abbreviation (input) C_YTD_PAYMENT :: nat where "C_YTD_PAYMENT \<equiv> 9"
abbreviation (input) C_PAYMENT_CNT :: nat where "C_PAYMENT_CNT \<equiv> 10"
abbreviation (input) I_PRICE :: nat where "I_PRICE \<equiv> 3"
abbreviation (input) S_QUANTITY :: nat where "S_QUANTITY \<equiv> 2"
abbreviation (input) S_REMOTE_CNT :: nat where "S_REMOTE_CNT \<equiv> 3"

datatype tpcc_index = i_item | i_warehouse | i_district | i_customer_id | i_customer_last | i_stock

text \<open>What the transactions find: the indexes, the row of an item, the schemas, the memory of the rows they
  create, the constants of the configuration, and the arithmetic of \<open>double\<close> on the eight bytes of
  a value.  \<open>en_stray\<close> are the bytes behind the variable \<open>ol_number\<close>.\<close>

record tpcc_env =
  en_index :: "tpcc_index \<Rightarrow> IndexHash"
  en_row :: "item \<Rightarrow> rid"
  en_schema :: "tpcc_table \<Rightarrow> Catalog"
  en_mem :: "nat \<Rightarrow> rdata"
  en_part_cnt :: nat
  en_num_wh :: nat
  en_cust_per_dist :: "64 word"
  en_max_items :: "64 word"
  en_wh_update :: bool
  en_add :: "64 word \<Rightarrow> 64 word \<Rightarrow> 64 word"
  en_sub :: "64 word \<Rightarrow> 64 word \<Rightarrow> 64 word"
  en_one :: "64 word"
  en_stray :: "nat \<Rightarrow> rdata"

record tpcc_query =
  w_id :: "64 word"
  d_id :: "64 word"
  c_id :: "64 word"
  d_w_id :: "64 word"
  c_w_id :: "64 word"
  c_d_id :: "64 word"
  c_last :: string
  h_amount :: "64 word"
  by_last_name :: bool
  q_items :: "Item_no list"
  remote :: bool
  o_entry_d :: "64 word"

text \<open>\<open>index_read\<close> with the assertion that it found something.\<close>

definition find_items :: "tpcc_env \<Rightarrow> tpcc_index \<Rightarrow> 64 word \<Rightarrow> 64 word \<Rightarrow> item list option" where
  "find_items E ix key wid =
     do { part \<leftarrow> wh_to_part (en_part_cnt E) (en_num_wh E) wid;
          items \<leftarrow> index_read (unat key) part (en_index E ix);
          if items = [] then None else Some items }"

definition index_row :: "tpcc_env \<Rightarrow> tpcc_index \<Rightarrow> 64 word \<Rightarrow> 64 word \<Rightarrow> rid option" where
  "index_row E ix key wid = map_option (\<lambda>items. en_row E (hd items)) (find_items E ix key wid)"

text \<open>Items are in partition 0.\<close>

definition find_item_row :: "tpcc_env \<Rightarrow> 64 word \<Rightarrow> rid option" where
  "find_item_row E key =
     do { items \<leftarrow> index_read (unat key) 0 (en_index E i_item);
          if items = [] then None else Some (en_row E (hd items)) }"

section \<open>Payment\<close>

text \<open>The customer by last name: \<open>it\<close> walks down the list, \<open>mid\<close> takes one step for two of it.\<close>

fun mid_loop :: "item list \<Rightarrow> nat \<Rightarrow> item list \<Rightarrow> item list" where
  "mid_loop [] cnt mid = mid"
| "mid_loop (x # it) cnt mid =
     (let cnt = cnt + 1 in mid_loop it cnt (if cnt mod 2 = 0 then tl mid else mid))"

definition pay_find_customer :: "tpcc_env \<Rightarrow> tpcc_query \<Rightarrow> rid option" where
  "pay_find_customer E q =
     (if by_last_name q
      then do { items \<leftarrow> find_items E i_customer_last (custNPKey (c_last q) (c_d_id q) (c_w_id q)) (c_w_id q);
                let mid = mid_loop items 0 items
                in if mid = [] then None else Some (en_row E (hd mid)) }
      else index_row E i_customer_id (custKey (en_cust_per_dist E) (c_id q) (c_d_id q) (c_w_id q)) (c_w_id q))"

definition pay_district :: "tpcc_env \<Rightarrow> tpcc_query \<Rightarrow> rdata \<Rightarrow> rdata option" where
  "pay_district E q d =
     do { d_ytd \<leftarrow> get_u64 (en_schema E DISTRICT) D_YTD d;
          set_u64 (en_schema E DISTRICT) D_YTD (en_add E d_ytd (h_amount q)) d }"

text \<open>What the credit of the customer is has no effect: the branch is empty.\<close>

definition pay_customer :: "tpcc_env \<Rightarrow> tpcc_query \<Rightarrow> rdata \<Rightarrow> rdata option" where
  "pay_customer E q d =
     (let ct = en_schema E CUSTOMER in
      do { c_balance \<leftarrow> get_u64 ct C_BALANCE d;
           d \<leftarrow> set_u64 ct C_BALANCE (en_sub E c_balance (h_amount q)) d;
           c_ytd_payment \<leftarrow> get_u64 ct C_YTD_PAYMENT d;
           d \<leftarrow> set_u64 ct C_YTD_PAYMENT (en_add E c_ytd_payment (h_amount q)) d;
           c_payment_cnt \<leftarrow> get_u64 ct C_PAYMENT_CNT d;
           d \<leftarrow> set_u64 ct C_PAYMENT_CNT (en_add E c_payment_cnt (en_one E)) d;
           c_credit \<leftarrow> column_at C_CREDIT ct;
           Some d })"

definition history_row :: "tpcc_env \<Rightarrow> tpcc_query \<Rightarrow> rdata \<Rightarrow> rdata option" where
  "history_row E q mem =
     (let ct = en_schema E HISTORY in
      do { d \<leftarrow> row_init ct mem;
           d \<leftarrow> set_u64 ct 0 (c_id q) d;
           d \<leftarrow> set_u64 ct 1 (c_d_id q) d;
           d \<leftarrow> set_u64 ct 2 (c_w_id q) d;
           d \<leftarrow> set_u64 ct 3 (d_id q) d;
           d \<leftarrow> set_u64 ct 4 (w_id q) d;
           d \<leftarrow> set_u64 ct 5 2013 d;
           set_u64 ct 6 (h_amount q) d })"

definition pay_history :: "tpcc_env \<Rightarrow> tpcc_query \<Rightarrow> run \<Rightarrow> run option" where
  "pay_history E q s =
     do { d \<leftarrow> history_row E q (en_mem E (length (rn_ins s))); insert_row HISTORY d s }"

definition wh_access :: "tpcc_env \<Rightarrow> access_t" where
  "wh_access E = (if en_wh_update E then WR else RD)"

definition pay_set_ytd :: "tpcc_env \<Rightarrow> tpcc_query \<Rightarrow> rid \<Rightarrow> 64 word \<Rightarrow> run \<Rightarrow> run option" where
  "pay_set_ytd E q r_wh w_ytd s =
     (if en_wh_update E
      then update_row r_wh (set_u64 (en_schema E WAREHOUSE) W_YTD (en_add E w_ytd (h_amount q))) s
      else Some s)"

definition run_payment :: "tpcc_env \<Rightarrow> grants \<Rightarrow> tpcc_query \<Rightarrow> run \<Rightarrow> outcome" where
  "run_payment E g q s =
     do { r_wh \<leftarrow> index_row E i_warehouse (w_id q) (w_id q);
          with_row g r_wh (wh_access E) s (\<lambda>s.
     do { w_ytd \<leftarrow> get_u64 (en_schema E WAREHOUSE) W_YTD (rn_data s r_wh);
          s \<leftarrow> pay_set_ytd E q r_wh w_ytd s;
          r_dist \<leftarrow> index_row E i_district (distKey (d_id q) (d_w_id q)) (w_id q);
          with_row g r_dist WR s (\<lambda>s.
     do { s \<leftarrow> update_row r_dist (pay_district E q) s;
          r_cust \<leftarrow> pay_find_customer E q;
          with_row g r_cust WR s (\<lambda>s.
     do { s \<leftarrow> update_row r_cust (pay_customer E q) s;
          s \<leftarrow> pay_history E q s;
          finish RCOK s }) }) }) }"

text \<open>The order that QURO proposes: the row of the warehouse, which all payments of a warehouse write, comes
  last.\<close>

definition reorder_payment :: "tpcc_env \<Rightarrow> grants \<Rightarrow> tpcc_query \<Rightarrow> run \<Rightarrow> outcome" where
  "reorder_payment E g q s =
     do { r_cust \<leftarrow> pay_find_customer E q;
          with_row g r_cust WR s (\<lambda>s.
     do { s \<leftarrow> update_row r_cust (pay_customer E q) s;
          r_dist \<leftarrow> index_row E i_district (distKey (d_id q) (d_w_id q)) (w_id q);
          with_row g r_dist WR s (\<lambda>s.
     do { s \<leftarrow> update_row r_dist (pay_district E q) s;
          r_wh \<leftarrow> index_row E i_warehouse (w_id q) (w_id q);
          with_row g r_wh (wh_access E) s (\<lambda>s.
     do { w_ytd \<leftarrow> get_u64 (en_schema E WAREHOUSE) W_YTD (rn_data s r_wh);
          s \<leftarrow> pay_history E q s;
          s \<leftarrow> pay_set_ytd E q r_wh w_ytd s;
          finish RCOK s }) }) }) }"

section \<open>New order\<close>

definition order_row :: "tpcc_env \<Rightarrow> tpcc_query \<Rightarrow> 64 word \<Rightarrow> rdata \<Rightarrow> rdata option" where
  "order_row E q o_id mem =
     (let ct = en_schema E ORDER in
      do { d \<leftarrow> row_init ct mem;
           d \<leftarrow> set_u64 ct 0 o_id d;
           d \<leftarrow> set_u64 ct 1 (c_id q) d;
           d \<leftarrow> set_u64 ct 2 (d_id q) d;
           d \<leftarrow> set_u64 ct 3 (w_id q) d;
           d \<leftarrow> set_u64 ct 4 (o_entry_d q) d;
           d \<leftarrow> set_u64 ct 6 (of_nat (length (q_items q))) d;
           set_u64 ct 7 (if remote q then 0 else 1) d })"

definition neworder_row :: "tpcc_env \<Rightarrow> tpcc_query \<Rightarrow> 64 word \<Rightarrow> rdata \<Rightarrow> rdata option" where
  "neworder_row E q o_id mem =
     (let ct = en_schema E NEW_ORDER in
      do { d \<leftarrow> row_init ct mem;
           d \<leftarrow> set_u64 ct 0 o_id d;
           d \<leftarrow> set_u64 ct 1 (d_id q) d;
           set_u64 ct 2 (w_id q) d })"

text \<open>The number of the line is a variable of four bytes: the other bytes of the column come from behind it.\<close>

definition line_row :: "tpcc_env \<Rightarrow> tpcc_query \<Rightarrow> 64 word \<Rightarrow> nat \<Rightarrow> Item_no \<Rightarrow> rdata \<Rightarrow> rdata option" where
  "line_row E q o_id n it mem =
     (let ct = en_schema E ORDER_LINE in
      do { d \<leftarrow> row_init ct mem;
           d \<leftarrow> set_u64 ct 0 o_id d;
           d \<leftarrow> set_u64 ct 1 (d_id q) d;
           d \<leftarrow> set_u64 ct 2 (w_id q) d;
           d \<leftarrow> set_value ct 3 (to_bytes 4 n @ en_stray E n) d;
           set_u64 ct 4 (ol_i_id it) d })"

definition add_new_row :: "tpcc_env \<Rightarrow> tpcc_table \<Rightarrow> (rdata \<Rightarrow> rdata option) \<Rightarrow> run \<Rightarrow> run option" where
  "add_new_row E t f s = do { d \<leftarrow> f (en_mem E (length (rn_ins s))); insert_row t d s }"

text \<open>The stock of one item.\<close>

definition stock_left :: "64 word \<Rightarrow> 64 word \<Rightarrow> 64 word" where
  "stock_left s_quantity quantity =
     (if quantity + 10 < s_quantity then s_quantity - quantity else s_quantity - quantity + 91)"

definition stock_update :: "tpcc_env \<Rightarrow> tpcc_query \<Rightarrow> Item_no \<Rightarrow> rdata \<Rightarrow> rdata option" where
  "stock_update E q it d =
     (let ct = en_schema E STOCK in
      do { s_quantity \<leftarrow> get_u64 ct S_QUANTITY d;
           d \<leftarrow> (if remote q
                then do { s_remote_cnt \<leftarrow> get_u64 ct S_REMOTE_CNT d;
                          set_u64 ct S_REMOTE_CNT (s_remote_cnt + 1) d }
                else Some d);
           set_u64 ct S_QUANTITY (stock_left s_quantity (ol_quantity it)) d })"

definition item_price :: "tpcc_env \<Rightarrow> grants \<Rightarrow> Item_no \<Rightarrow> run \<Rightarrow> (run \<Rightarrow> outcome) \<Rightarrow> outcome" where
  "item_price E g it s k =
     do { r \<leftarrow> find_item_row E (ol_i_id it);
          with_row g r RD s (\<lambda>s.
     do { i_price \<leftarrow> get_u64 (en_schema E ITEM) I_PRICE (rn_data s r);
          k s }) }"

definition stock_line ::
    "tpcc_env \<Rightarrow> grants \<Rightarrow> tpcc_query \<Rightarrow> 64 word \<Rightarrow> nat \<Rightarrow> Item_no \<Rightarrow> run \<Rightarrow> (run \<Rightarrow> outcome) \<Rightarrow> outcome" where
  "stock_line E g q o_id n it s k =
     do { r \<leftarrow> index_row E i_stock (stockKey (en_max_items E) (ol_i_id it) (ol_supply_w_id it)) (ol_supply_w_id it);
          with_row g r WR s (\<lambda>s.
     do { s \<leftarrow> update_row r (stock_update E q it) s;
          s \<leftarrow> add_new_row E ORDER_LINE (line_row E q o_id n it) s;
          k s }) }"

primrec order_lines ::
    "tpcc_env \<Rightarrow> grants \<Rightarrow> tpcc_query \<Rightarrow> 64 word \<Rightarrow> nat \<Rightarrow> Item_no list \<Rightarrow> run \<Rightarrow> (run \<Rightarrow> outcome) \<Rightarrow> outcome" where
  "order_lines E g q o_id n [] s k = k s"
| "order_lines E g q o_id n (it # its) s k =
     item_price E g it s (\<lambda>s. stock_line E g q o_id n it s (\<lambda>s. order_lines E g q o_id (n + 1) its s k))"

definition take_order_id :: "tpcc_env \<Rightarrow> rdata \<Rightarrow> 64 word option" where
  "take_order_id E d = map_option (\<lambda>o_id. o_id + 1) (get_u64 (en_schema E DISTRICT) D_NEXT_O_ID d)"

definition run_new_order :: "tpcc_env \<Rightarrow> grants \<Rightarrow> tpcc_query \<Rightarrow> run \<Rightarrow> outcome" where
  "run_new_order E g q s =
     do { r_wh \<leftarrow> index_row E i_warehouse (w_id q) (w_id q);
          with_row g r_wh RD s (\<lambda>s.
     do { w_tax \<leftarrow> get_u64 (en_schema E WAREHOUSE) W_TAX (rn_data s r_wh);
          r_cust \<leftarrow> index_row E i_customer_id (custKey (en_cust_per_dist E) (c_id q) (d_id q) (w_id q)) (w_id q);
          r_dist \<leftarrow> index_row E i_district (distKey (d_id q) (w_id q)) (w_id q);
          with_row g r_dist WR s (\<lambda>s.
     do { o_id \<leftarrow> take_order_id E (rn_data s r_dist);
          s \<leftarrow> update_row r_dist (set_u64 (en_schema E DISTRICT) D_NEXT_O_ID o_id) s;
          with_row g r_cust RD s (\<lambda>s.
     do { c_discount \<leftarrow> get_u64 (en_schema E CUSTOMER) C_DISCOUNT (rn_data s r_cust);
          s \<leftarrow> add_new_row E ORDER (order_row E q o_id) s;
          s \<leftarrow> add_new_row E NEW_ORDER (neworder_row E q o_id) s;
          order_lines E g q o_id 0 (q_items q) s (finish RCOK) }) }) }) }"

text \<open>The order that QURO proposes: the items and the customer first, then the district, then the stock; the
  district is written after the last line, and the warehouse is read at the end.\<close>

primrec item_prices :: "tpcc_env \<Rightarrow> grants \<Rightarrow> Item_no list \<Rightarrow> run \<Rightarrow> (run \<Rightarrow> outcome) \<Rightarrow> outcome" where
  "item_prices E g [] s k = k s"
| "item_prices E g (it # its) s k = item_price E g it s (\<lambda>s. item_prices E g its s k)"

primrec stock_lines ::
    "tpcc_env \<Rightarrow> grants \<Rightarrow> tpcc_query \<Rightarrow> 64 word \<Rightarrow> nat \<Rightarrow> Item_no list \<Rightarrow> run \<Rightarrow> (run \<Rightarrow> outcome) \<Rightarrow> outcome" where
  "stock_lines E g q o_id n [] s k = k s"
| "stock_lines E g q o_id n (it # its) s k =
     stock_line E g q o_id n it s (\<lambda>s. stock_lines E g q o_id (n + 1) its s k)"

definition reorder_new_order :: "tpcc_env \<Rightarrow> grants \<Rightarrow> tpcc_query \<Rightarrow> run \<Rightarrow> outcome" where
  "reorder_new_order E g q s =
     item_prices E g (q_items q) s (\<lambda>s.
     do { r_cust \<leftarrow> index_row E i_customer_id (custKey (en_cust_per_dist E) (c_id q) (d_id q) (w_id q)) (w_id q);
          with_row g r_cust RD s (\<lambda>s.
     do { c_discount \<leftarrow> get_u64 (en_schema E CUSTOMER) C_DISCOUNT (rn_data s r_cust);
          r_dist \<leftarrow> index_row E i_district (distKey (d_id q) (w_id q)) (w_id q);
          with_row g r_dist WR s (\<lambda>s.
     do { o_id \<leftarrow> take_order_id E (rn_data s r_dist);
          s \<leftarrow> add_new_row E ORDER (order_row E q o_id) s;
          s \<leftarrow> add_new_row E NEW_ORDER (neworder_row E q o_id) s;
          stock_lines E g q o_id 0 (q_items q) s (\<lambda>s.
     do { s \<leftarrow> update_row r_dist (set_u64 (en_schema E DISTRICT) D_NEXT_O_ID o_id) s;
          r_wh \<leftarrow> index_row E i_warehouse (w_id q) (w_id q);
          with_row g r_wh RD s (\<lambda>s.
     do { w_tax \<leftarrow> get_u64 (en_schema E WAREHOUSE) W_TAX (rn_data s r_wh);
          finish RCOK s }) }) }) }) })"

section \<open>Rows of different tables\<close>

fun table_of_index :: "tpcc_index \<Rightarrow> tpcc_table" where
  "table_of_index i_item = ITEM"
| "table_of_index i_warehouse = WAREHOUSE"
| "table_of_index i_district = DISTRICT"
| "table_of_index i_customer_id = CUSTOMER"
| "table_of_index i_customer_last = CUSTOMER"
| "table_of_index i_stock = STOCK"

text \<open>The rows under an index are rows of its table.\<close>

definition index_rows :: "tpcc_env \<Rightarrow> (rid \<Rightarrow> tpcc_table) \<Rightarrow> bool" where
  "index_rows E tab \<longleftrightarrow>
     (\<forall>ix key part items. index_read key part (en_index E ix) = Some items \<longrightarrow>
        (\<forall>i \<in> set items. tab (en_row E i) = table_of_index ix))"

lemma find_items_table:
  "index_rows E tab \<Longrightarrow> find_items E ix key w = Some items \<Longrightarrow>
   items \<noteq> [] \<and> (\<forall>i \<in> set items. tab (en_row E i) = table_of_index ix)"
  by (auto simp: find_items_def index_rows_def bind_eq_Some_conv split: if_splits)

lemma index_row_table: "index_rows E tab \<Longrightarrow> index_row E ix key w = Some r \<Longrightarrow> tab r = table_of_index ix"
  using find_items_table by (fastforce simp: index_row_def)

lemma find_item_row_table: "index_rows E tab \<Longrightarrow> find_item_row E key = Some r \<Longrightarrow> tab r = ITEM"
  unfolding index_rows_def find_item_row_def
  by (auto simp: bind_eq_Some_conv split: if_splits)

text \<open>Where the pointer in the middle ends: it never runs off the list.\<close>

lemma mid_loop_drop: "mid_loop it cnt mid = drop ((cnt + length it) div 2 - cnt div 2) mid"
proof (induction it arbitrary: cnt mid)
  case Nil
  then show ?case by simp
next
  case (Cons x it)
  show ?case
  proof (cases "(cnt + 1) mod 2 = 0")
    case True
    then have a: "(cnt + 1) div 2 = cnt div 2 + 1" by presburger
    have b: "(cnt + 1) div 2 \<le> (cnt + 1 + length it) div 2" by (rule div_le_mono) simp
    have "Suc ((cnt + 1 + length it) div 2 - (cnt + 1) div 2) = (cnt + length (x # it)) div 2 - cnt div 2"
    proof -
      have "cnt + length (x # it) = cnt + 1 + length it" by simp
      with a b show ?thesis by linarith
    qed
    then show ?thesis using True Cons.IH [of "cnt + 1" "tl mid"] by (simp add: drop_Suc [symmetric] Let_def)
  next
    case False
    then have "(cnt + 1) div 2 = cnt div 2" by presburger
    then show ?thesis using False Cons.IH [of "cnt + 1" mid] by (simp add: Let_def)
  qed
qed

lemma pay_find_customer_table:
  assumes "index_rows E tab" "pay_find_customer E q = Some r"
  shows "tab r = CUSTOMER"
proof (cases "by_last_name q")
  case True
  with assms(2) obtain items where it: "find_items E i_customer_last (custNPKey (c_last q) (c_d_id q) (c_w_id q)) (c_w_id q) = Some items"
    and mid: "mid_loop items 0 items \<noteq> []" "r = en_row E (hd (mid_loop items 0 items))"
    by (auto simp: pay_find_customer_def bind_eq_Some_conv Let_def split: if_splits)
  have "hd (mid_loop items 0 items) \<in> set items"
    using hd_in_set [OF mid(1)] unfolding mid_loop_drop [of items] by (rule in_set_dropD)
  with find_items_table [OF assms(1) it] mid(2) show ?thesis by simp
next
  case False
  with assms(2) index_row_table [OF assms(1)] show ?thesis by (simp add: pay_find_customer_def)
qed

section \<open>The two orders of a payment\<close>

text \<open>What a transaction leaves behind.\<close>

definition effect :: "outcome \<Rightarrow> (RC \<times> (rid \<Rightarrow> rdata) \<times> (tpcc_table \<times> rdata) list) option" where
  "effect out = map_option (\<lambda>(rc, s). (rc, rn_data s, rn_ins s)) out"

lemma granted:
  "length (rn_acc s) < 64 \<Longrightarrow> with_row (\<lambda>_. True) r type s k = k (note_access r type s)"
  by (simp add: with_row_def MAX_ROW_PER_TXN_def)

lemma note_access_simps [simp]:
  "rn_data (note_access r type s) = rn_data s" "rn_ins (note_access r type s) = rn_ins s"
  "length (rn_acc (note_access r type s)) = Suc (length (rn_acc s))"
  by (simp_all add: note_access_def)

lemma txn_start_simps [simp]:
  "rn_data (txn_start D) = D" "rn_ins (txn_start D) = []" "rn_acc (txn_start D) = []"
  by (simp_all add: txn_start_def)

lemma effect_finish [simp]: "effect (finish RCOK s) = Some (RCOK, rn_data s, rn_ins s)"
  by (simp add: effect_def finish_def)

lemma effect_None [simp]: "effect None = None"
  by (simp add: effect_def)

lemma effect_bind: "effect (Option.bind x f) = Option.bind x (\<lambda>y. effect (f y))"
  by (cases x) simp_all

lemma bind_None [simp]: "Option.bind x (\<lambda>_. None) = None"
  by (cases x) simp_all

lemma bind_update_row:
  "Option.bind (update_row r f s) k =
     Option.bind (f (rn_data s r)) (\<lambda>d. k (s\<lparr>rn_data := (rn_data s)(r := d)\<rparr>))"
  by (cases "f (rn_data s r)") (simp_all add: update_row_def)

lemma bind_pay_history:
  "length (rn_ins s) < 64 \<Longrightarrow> Option.bind (pay_history E q s) k =
     Option.bind (history_row E q (en_mem E (length (rn_ins s)))) (\<lambda>d. k (s\<lparr>rn_ins := rn_ins s @ [(HISTORY, d)]\<rparr>))"
  by (cases "history_row E q (en_mem E (length (rn_ins s)))")
    (simp_all add: pay_history_def insert_row_def MAX_ROW_PER_TXN_def)

text \<open>The new bytes of the warehouse row.\<close>

definition ytd_row :: "tpcc_env \<Rightarrow> tpcc_query \<Rightarrow> 64 word \<Rightarrow> rdata \<Rightarrow> rdata option" where
  "ytd_row E q w_ytd d =
     (if en_wh_update E then set_u64 (en_schema E WAREHOUSE) W_YTD (en_add E w_ytd (h_amount q)) d else Some d)"

lemma bind_pay_set_ytd:
  "Option.bind (pay_set_ytd E q r y s) k =
     Option.bind (ytd_row E q y (rn_data s r)) (\<lambda>d. k (s\<lparr>rn_data := (rn_data s)(r := d)\<rparr>))"
  by (simp add: pay_set_ytd_def ytd_row_def bind_update_row)

lemmas script_simps = granted effect_bind bind_update_row bind_pay_history bind_pay_set_ytd

text \<open>Both orders do the same to three rows and insert the same row of history.\<close>

definition payment_result ::
    "tpcc_env \<Rightarrow> tpcc_query \<Rightarrow> (rid \<Rightarrow> rdata) \<Rightarrow> (RC \<times> (rid \<Rightarrow> rdata) \<times> (tpcc_table \<times> rdata) list) option" where
  "payment_result E q D =
     do { r_wh \<leftarrow> index_row E i_warehouse (w_id q) (w_id q);
          r_dist \<leftarrow> index_row E i_district (distKey (d_id q) (d_w_id q)) (w_id q);
          r_cust \<leftarrow> pay_find_customer E q;
          y \<leftarrow> get_u64 (en_schema E WAREHOUSE) W_YTD (D r_wh);
          wh \<leftarrow> ytd_row E q y (D r_wh);
          dist \<leftarrow> pay_district E q (D r_dist);
          cust \<leftarrow> pay_customer E q (D r_cust);
          h \<leftarrow> history_row E q (en_mem E 0);
          Some (RCOK, D(r_wh := wh, r_dist := dist, r_cust := cust), [(HISTORY, h)]) }"

lemma payment_rows_apart:
  assumes "index_rows E tab" "index_row E i_warehouse k w = Some r_wh"
    "index_row E i_district k' w' = Some r_dist" "pay_find_customer E q = Some r_cust"
  shows "r_wh \<noteq> r_dist" "r_wh \<noteq> r_cust" "r_dist \<noteq> r_cust"
  using index_row_table [OF assms(1,2)] index_row_table [OF assms(1,3)] pay_find_customer_table [OF assms(1,4)]
  by auto

lemma run_payment_result:
  assumes "index_rows E tab"
  shows "effect (run_payment E (\<lambda>_. True) q (txn_start D)) = payment_result E q D"
proof -
  consider "index_row E i_warehouse (w_id q) (w_id q) = None"
    | "index_row E i_district (distKey (d_id q) (d_w_id q)) (w_id q) = None" | "pay_find_customer E q = None"
    | a b c where "index_row E i_warehouse (w_id q) (w_id q) = Some a"
      "index_row E i_district (distKey (d_id q) (d_w_id q)) (w_id q) = Some b" "pay_find_customer E q = Some c"
    by blast
  then show ?thesis
  proof cases
    case 4
    note ap = payment_rows_apart [OF assms 4]
    show ?thesis by (simp add: run_payment_def payment_result_def 4 script_simps ap ap [symmetric])
  qed (simp_all add: run_payment_def payment_result_def script_simps)
qed

lemma reorder_payment_result:
  assumes "index_rows E tab"
  shows "effect (reorder_payment E (\<lambda>_. True) q (txn_start D)) = payment_result E q D"
proof -
  consider "index_row E i_warehouse (w_id q) (w_id q) = None"
    | "index_row E i_district (distKey (d_id q) (d_w_id q)) (w_id q) = None" | "pay_find_customer E q = None"
    | a b c where "index_row E i_warehouse (w_id q) (w_id q) = Some a"
      "index_row E i_district (distKey (d_id q) (d_w_id q)) (w_id q) = Some b" "pay_find_customer E q = Some c"
    by blast
  then show ?thesis
  proof cases
    case 4
    note ap = payment_rows_apart [OF assms 4]
    show ?thesis
      by (cases "get_u64 (en_schema E WAREHOUSE) W_YTD (D a)"; cases "pay_district E q (D b)";
          cases "pay_customer E q (D c)"; cases "history_row E q (en_mem E 0)")
        (simp_all add: reorder_payment_def payment_result_def 4 script_simps ap ap [symmetric] fun_upd_twist)
  qed (simp_all add: reorder_payment_def payment_result_def script_simps)
qed

text \<open>Whatever the answers of the concurrency control, an aborted payment leaves nothing.\<close>

lemma pay_set_ytd_restorable:
  "pay_set_ytd E q r y s = Some s' \<Longrightarrow> (en_wh_update E \<Longrightarrow> writable r s) \<Longrightarrow> restorable D s \<Longrightarrow> restorable D s'"
  using restorable_update by (auto simp: pay_set_ytd_def split: if_splits)

lemma pay_history_restorable:
  "pay_history E q s = Some s' \<Longrightarrow> restorable D s \<Longrightarrow> restorable D s' \<and> (\<forall>r. writable r s' \<longleftrightarrow> writable r s)"
  using restorable_insert by (auto simp: pay_history_def bind_eq_Some_conv)

lemma restorable_write:
  "update_row r f s' = Some s'' \<Longrightarrow> s' = note_access r WR s \<Longrightarrow> restorable D s' \<Longrightarrow> restorable D s''"
  using restorable_update [of r f s' s'' D] by (simp add: writable_note)

lemma writable_wh: "s' = note_access r (wh_access E) s \<Longrightarrow> en_wh_update E \<Longrightarrow> writable r s'"
  by (simp add: writable_note wh_access_def)

lemma run_payment_atomic:
  "outcome_ok D (run_payment E g q (txn_start D)) (run_payment E (\<lambda>_. True) q (txn_start D))"
  unfolding run_payment_def
proof (intro outcome_ok_bind outcome_ok_row outcome_ok_refl restorable_start, goal_cases)
  case (1 r_wh s y s' r_dist)
  then show ?case using pay_set_ytd_restorable writable_wh by blast
next
  case (2 r_wh s y s' r_dist t t' r_cust)
  then show ?case using restorable_write by blast
qed

lemma reorder_payment_atomic:
  "outcome_ok D (reorder_payment E g q (txn_start D)) (reorder_payment E (\<lambda>_. True) q (txn_start D))"
  unfolding reorder_payment_def
proof (intro outcome_ok_bind outcome_ok_row outcome_ok_refl restorable_start, goal_cases)
  case (1 r_cust s s' r_dist)
  then show ?case using restorable_write by blast
next
  case (2 r_cust s s' r_dist t t' r_wh)
  then show ?case using restorable_write by blast
qed

section \<open>The two orders of a new order\<close>

lemma bind_commute:
  "Option.bind x (\<lambda>a. Option.bind y (\<lambda>b. f a b)) = Option.bind y (\<lambda>b. Option.bind x (\<lambda>a. f a b))"
  by (cases x; cases y) simp_all

lemma bind_add_new_row:
  "length (rn_ins s) < 64 \<Longrightarrow> Option.bind (add_new_row E t f s) k =
     Option.bind (f (en_mem E (length (rn_ins s)))) (\<lambda>d. k (s\<lparr>rn_ins := rn_ins s @ [(t, d)]\<rparr>))"
  by (cases "f (en_mem E (length (rn_ins s)))") (simp_all add: add_new_row_def insert_row_def MAX_ROW_PER_TXN_def)

text \<open>What the loops do to the data and the rows inserted.\<close>

primrec items_found :: "tpcc_env \<Rightarrow> (rid \<Rightarrow> rdata) \<Rightarrow> Item_no list \<Rightarrow> unit option" where
  "items_found E D [] = Some ()"
| "items_found E D (it # its) =
     do { r \<leftarrow> find_item_row E (ol_i_id it);
          i_price \<leftarrow> get_u64 (en_schema E ITEM) I_PRICE (D r);
          items_found E D its }"

primrec stocks_result ::
    "tpcc_env \<Rightarrow> tpcc_query \<Rightarrow> 64 word \<Rightarrow> nat \<Rightarrow> Item_no list \<Rightarrow> (rid \<Rightarrow> rdata) \<Rightarrow> (tpcc_table \<times> rdata) list \<Rightarrow>
     ((rid \<Rightarrow> rdata) \<times> (tpcc_table \<times> rdata) list) option" where
  "stocks_result E q o_id n [] D ins = Some (D, ins)"
| "stocks_result E q o_id n (it # its) D ins =
     do { r \<leftarrow> index_row E i_stock (stockKey (en_max_items E) (ol_i_id it) (ol_supply_w_id it)) (ol_supply_w_id it);
          d \<leftarrow> stock_update E q it (D r);
          l \<leftarrow> line_row E q o_id n it (en_mem E (length ins));
          stocks_result E q o_id (n + 1) its (D(r := d)) (ins @ [(ORDER_LINE, l)]) }"

lemma items_found_cong:
  assumes "index_rows E tab" "\<forall>r. tab r = ITEM \<longrightarrow> D r = D' r"
  shows "items_found E D its = items_found E D' its"
proof (induction its)
  case (Cons it its)
  show ?case
  proof (cases "find_item_row E (ol_i_id it)")
    case (Some r)
    with find_item_row_table [OF assms(1)] assms(2) have "D r = D' r" by blast
    with Some Cons.IH show ?thesis by simp
  qed simp
qed simp

lemma stocks_result_frame:
  assumes ok: "index_rows E tab" and r: "tab r \<noteq> STOCK"
  shows "stocks_result E q o_id n its D ins = Some (D', ins') \<Longrightarrow> D' r = D r"
    and "stocks_result E q o_id n its (D(r := x)) ins =
      map_option (\<lambda>(D', ins'). (D'(r := x), ins')) (stocks_result E q o_id n its D ins)"
proof (induction its arbitrary: n D ins)
  case Nil
  { case 1 then show ?case by simp next case 2 then show ?case by simp }
next
  case (Cons it its)
  have ne: "q \<noteq> r" if "index_row E i_stock k w = Some q" for k w q
    using index_row_table [OF ok that] r by auto
  {
    case 1
    then show ?case using Cons.IH(1) ne by (fastforce simp: bind_eq_Some_conv)
  next
    case 2
    let ?row = "index_row E i_stock (stockKey (en_max_items E) (ol_i_id it) (ol_supply_w_id it)) (ol_supply_w_id it)"
    show ?case
    proof (cases ?row)
      case (Some v)
      have tw: "(D(r := x))(v := d) = (D(v := d))(r := x)" for d
        using ne [OF Some] by (simp add: fun_upd_twist)
      have D: "(D(r := x)) v = D v" using ne [OF Some] by simp
      show ?thesis
        by (cases "stock_update E q it (D v)"; cases "line_row E q o_id n it (en_mem E (length ins))")
          (simp_all only: stocks_result.simps Some bind.simps D tw Cons.IH(2) option.map)
    qed simp
  }
qed

lemma stock_lines_effect:
  assumes "length (rn_acc s) + length its \<le> 64" "length (rn_ins s) + length its \<le> 64"
    and "\<And>s'. length (rn_acc s') = length (rn_acc s) + length its \<Longrightarrow> effect (k s') = K (rn_data s') (rn_ins s')"
  shows "effect (stock_lines E (\<lambda>_. True) q o_id n its s k) =
    Option.bind (stocks_result E q o_id n its (rn_data s) (rn_ins s)) (\<lambda>(D, ins). K D ins)"
  using assms
proof (induction its arbitrary: n s)
  case Nil
  then show ?case by simp
next
  case (Cons it its)
  show ?case
  proof (cases "index_row E i_stock (stockKey (en_max_items E) (ol_i_id it) (ol_supply_w_id it)) (ol_supply_w_id it)")
    case (Some r)
    let ?s = "\<lambda>d l. (note_access r WR s)\<lparr>rn_data := (rn_data s)(r := d), rn_ins := rn_ins s @ [(ORDER_LINE, l)]\<rparr>"
    have IH: "effect (stock_lines E (\<lambda>_. True) q o_id (n + 1) its (?s d l) k) =
      Option.bind (stocks_result E q o_id (n + 1) its ((rn_data s)(r := d)) (rn_ins s @ [(ORDER_LINE, l)]))
        (\<lambda>(D, ins). K D ins)" for d l
      by (subst Cons.IH) (use Cons.prems in simp_all)
    show ?thesis using Cons.prems(1,2) IH
      by (simp add: Some stock_line_def script_simps bind_add_new_row)
  qed (simp add: stock_line_def effect_bind)
qed

lemma item_prices_effect:
  assumes "length (rn_acc s) + length its \<le> 64"
    and "\<And>s'. length (rn_acc s') = length (rn_acc s) + length its \<Longrightarrow> rn_data s' = rn_data s \<Longrightarrow> rn_ins s' = rn_ins s \<Longrightarrow>
      effect (k s') = K"
  shows "effect (item_prices E (\<lambda>_. True) its s k) = Option.bind (items_found E (rn_data s) its) (\<lambda>_. K)"
  using assms
proof (induction its arbitrary: s)
  case (Cons it its)
  show ?case
  proof (cases "find_item_row E (ol_i_id it)")
    case (Some r)
    have IH: "effect (item_prices E (\<lambda>_. True) its (note_access r RD s) k) =
        Option.bind (items_found E (rn_data s) its) (\<lambda>_. K)"
      by (subst Cons.IH) (use Cons.prems in simp_all)
    show ?thesis using Cons.prems(1) IH by (simp add: Some item_price_def script_simps)
  qed (simp add: item_price_def)
qed simp

lemma order_lines_effect:
  assumes "index_rows E tab" "length (rn_acc s) + 2 * length its \<le> 64" "length (rn_ins s) + length its \<le> 64"
    and "\<And>s'. effect (k s') = K (rn_data s') (rn_ins s')"
  shows "effect (order_lines E (\<lambda>_. True) q o_id n its s k) =
    Option.bind (items_found E (rn_data s) its)
      (\<lambda>_. Option.bind (stocks_result E q o_id n its (rn_data s) (rn_ins s)) (\<lambda>(D, ins). K D ins))"
  using assms(2,3)
proof (induction its arbitrary: n s)
  case Nil
  then show ?case using assms(4) by simp
next
  case (Cons it its)
  show ?case
  proof (cases "find_item_row E (ol_i_id it)")
    case item: (Some i)
    show ?thesis
    proof (cases "index_row E i_stock (stockKey (en_max_items E) (ol_i_id it) (ol_supply_w_id it)) (ol_supply_w_id it)")
      case (Some r)
      let ?s = "\<lambda>d l. (note_access r WR (note_access i RD s))
        \<lparr>rn_data := (rn_data s)(r := d), rn_ins := rn_ins s @ [(ORDER_LINE, l)]\<rparr>"
      have same: "items_found E ((rn_data s)(r := d)) its = items_found E (rn_data s) its" for d
        by (rule items_found_cong [OF assms(1)]) (use index_row_table [OF assms(1) Some] in auto)
      have IH: "effect (order_lines E (\<lambda>_. True) q o_id (n + 1) its (?s d l) k) =
        Option.bind (items_found E (rn_data s) its)
          (\<lambda>_. Option.bind (stocks_result E q o_id (n + 1) its ((rn_data s)(r := d)) (rn_ins s @ [(ORDER_LINE, l)]))
            (\<lambda>(D, ins). K D ins))" for d l
        by (subst Cons.IH) (use Cons.prems in \<open>simp_all add: same\<close>)
      show ?thesis using Cons.prems IH
        by (cases "items_found E (rn_data s) its")
          (simp_all add: item Some item_price_def stock_line_def script_simps bind_add_new_row)
    qed (use Cons.prems in \<open>simp add: item item_price_def stock_line_def script_simps\<close>)
  qed (simp add: item_price_def)
qed

text \<open>Both orders take the same number for the order, and do the same to the stock and the district.\<close>

definition new_order_result ::
    "tpcc_env \<Rightarrow> tpcc_query \<Rightarrow> (rid \<Rightarrow> rdata) \<Rightarrow> (RC \<times> (rid \<Rightarrow> rdata) \<times> (tpcc_table \<times> rdata) list) option" where
  "new_order_result E q D =
     do { r_wh \<leftarrow> index_row E i_warehouse (w_id q) (w_id q);
          r_cust \<leftarrow> index_row E i_customer_id (custKey (en_cust_per_dist E) (c_id q) (d_id q) (w_id q)) (w_id q);
          r_dist \<leftarrow> index_row E i_district (distKey (d_id q) (w_id q)) (w_id q);
          w_tax \<leftarrow> get_u64 (en_schema E WAREHOUSE) W_TAX (D r_wh);
          c_discount \<leftarrow> get_u64 (en_schema E CUSTOMER) C_DISCOUNT (D r_cust);
          o_id \<leftarrow> take_order_id E (D r_dist);
          dist \<leftarrow> set_u64 (en_schema E DISTRICT) D_NEXT_O_ID o_id (D r_dist);
          items_found E D (q_items q);
          ord \<leftarrow> order_row E q o_id (en_mem E 0);
          new \<leftarrow> neworder_row E q o_id (en_mem E 1);
          (D', ins) \<leftarrow> stocks_result E q o_id 0 (q_items q) D [(ORDER, ord), (NEW_ORDER, new)];
          Some (RCOK, D'(r_dist := dist), ins) }"

lemma run_new_order_result:
  assumes ok: "index_rows E tab" and len: "length (q_items q) \<le> 15"
  shows "effect (run_new_order E (\<lambda>_. True) q (txn_start D)) = new_order_result E q D"
proof -
  consider "index_row E i_warehouse (w_id q) (w_id q) = None"
    | "index_row E i_customer_id (custKey (en_cust_per_dist E) (c_id q) (d_id q) (w_id q)) (w_id q) = None"
    | "index_row E i_district (distKey (d_id q) (w_id q)) (w_id q) = None"
    | a b c where "index_row E i_warehouse (w_id q) (w_id q) = Some a"
      "index_row E i_customer_id (custKey (en_cust_per_dist E) (c_id q) (d_id q) (w_id q)) (w_id q) = Some b"
      "index_row E i_district (distKey (d_id q) (w_id q)) (w_id q) = Some c"
    by blast
  then show ?thesis
  proof cases
    case 4
    have c: "tab c = DISTRICT" "tab b = CUSTOMER"
      using index_row_table [OF ok 4(3)] index_row_table [OF ok 4(2)] by simp_all
    have ne: "b \<noteq> c" using c by auto
    have same: "items_found E (D(c := d)) its = items_found E D its" for d its
      by (rule items_found_cong [OF ok]) (use c in auto)
    have frame: "stocks_result E q o_id n its (D(c := d)) ins =
        map_option (\<lambda>(D', ins'). (D'(c := d), ins')) (stocks_result E q o_id n its D ins)" for o_id n its d ins
      by (rule stocks_result_frame [OF ok]) (use c in simp)
    have lines: "effect (order_lines E (\<lambda>_. True) q o_id 0 (q_items q) s (finish RCOK)) =
        Option.bind (items_found E (rn_data s) (q_items q))
          (\<lambda>_. Option.bind (stocks_result E q o_id 0 (q_items q) (rn_data s) (rn_ins s))
            (\<lambda>(D, ins). Some (RCOK, D, ins)))" if "length (rn_acc s) = 3" "length (rn_ins s) = 2" for s o_id
      by (rule order_lines_effect [OF ok]) (use len that in simp_all)
    show ?thesis
      by (cases "take_order_id E (D c)"; cases "get_u64 (en_schema E CUSTOMER) C_DISCOUNT (D b)";
          cases "items_found E D (q_items q)")
        (simp_all add: run_new_order_def new_order_result_def 4 script_simps bind_add_new_row lines same frame ne
          bind_map_option comp_def case_prod_unfold)
  qed (simp_all add: run_new_order_def new_order_result_def script_simps)
qed

lemma reorder_new_order_result:
  assumes ok: "index_rows E tab" and len: "length (q_items q) \<le> 15"
  shows "effect (reorder_new_order E (\<lambda>_. True) q (txn_start D)) = new_order_result E q D"
proof -
  have prices: "effect (item_prices E (\<lambda>_. True) (q_items q) (txn_start D) k) =
      Option.bind (items_found E D (q_items q)) (\<lambda>_. K)"
    if "\<And>s. length (rn_acc s) = length (q_items q) \<Longrightarrow> rn_data s = D \<Longrightarrow> rn_ins s = [] \<Longrightarrow> effect (k s) = K" for k K
    by (subst item_prices_effect [where K = K]) (use len that in simp_all)
  consider "index_row E i_customer_id (custKey (en_cust_per_dist E) (c_id q) (d_id q) (w_id q)) (w_id q) = None"
    | b where "index_row E i_customer_id (custKey (en_cust_per_dist E) (c_id q) (d_id q) (w_id q)) (w_id q) = Some b"
      "index_row E i_district (distKey (d_id q) (w_id q)) (w_id q) = None"
    | b c where "index_row E i_customer_id (custKey (en_cust_per_dist E) (c_id q) (d_id q) (w_id q)) (w_id q) = Some b"
      "index_row E i_district (distKey (d_id q) (w_id q)) (w_id q) = Some c"
    by blast
  then show ?thesis
  proof cases
    case 1
    then show ?thesis unfolding reorder_new_order_def by (subst prices [where K = None]) (simp_all add: new_order_result_def)
  next
    case 2
    then show ?thesis unfolding reorder_new_order_def
      by (subst prices [where K = None]) (use len in \<open>simp_all add: script_simps new_order_result_def\<close>)
  next
    case 3
    have c: "tab c = DISTRICT" using index_row_table [OF ok 3(2)] by simp
    have wh: "tab a = WAREHOUSE" if "index_row E i_warehouse k w = Some a" for a k w
      using index_row_table [OF ok that] by simp
    define K where "K o_id D' ins =
      do { dist \<leftarrow> set_u64 (en_schema E DISTRICT) D_NEXT_O_ID o_id (D' c);
           r_wh \<leftarrow> index_row E i_warehouse (w_id q) (w_id q);
           w_tax \<leftarrow> get_u64 (en_schema E WAREHOUSE) W_TAX (D' r_wh);
           Some (RCOK, D'(c := dist), ins) }" for o_id D' and ins :: "(tpcc_table \<times> rdata) list"
    let ?k = "\<lambda>o_id s.
      do { dist \<leftarrow> set_u64 (en_schema E DISTRICT) D_NEXT_O_ID o_id (rn_data s c);
           r_wh \<leftarrow> index_row E i_warehouse (w_id q) (w_id q);
           with_row (\<lambda>_. True) r_wh RD (s\<lparr>rn_data := (rn_data s)(c := dist)\<rparr>) (\<lambda>s.
      do { w_tax \<leftarrow> get_u64 (en_schema E WAREHOUSE) W_TAX (rn_data s r_wh); finish RCOK s }) }"
    have k: "effect (?k o_id s) = K o_id (rn_data s) (rn_ins s)"
      if "length (rn_acc s) \<le> 60" for o_id s
    proof (cases "index_row E i_warehouse (w_id q) (w_id q)")
      case (Some a)
      with wh c have "a \<noteq> c" by auto
      with Some that show ?thesis by (simp add: K_def script_simps)
    qed (simp add: K_def script_simps)
    have lines: "effect (stock_lines E (\<lambda>_. True) q o_id 0 (q_items q) s (?k o_id)) =
        Option.bind (stocks_result E q o_id 0 (q_items q) D (rn_ins s)) (\<lambda>(D, ins). K o_id D ins)"
      if "length (rn_acc s) = length (q_items q) + 2" "length (rn_ins s) = 2" "rn_data s = D" for s o_id
      using that len by (subst stock_lines_effect [where K = "K o_id"]) (simp_all add: k)
    have same: "K o_id D' ins =
      do { r_wh \<leftarrow> index_row E i_warehouse (w_id q) (w_id q);
           w_tax \<leftarrow> get_u64 (en_schema E WAREHOUSE) W_TAX (D r_wh);
           dist \<leftarrow> set_u64 (en_schema E DISTRICT) D_NEXT_O_ID o_id (D c);
           Some (RCOK, D'(c := dist), ins) }"
      if "stocks_result E q o_id 0 (q_items q) D ins0 = Some (D', ins)" for o_id D' ins ins0
    proof (cases "index_row E i_warehouse (w_id q) (w_id q)")
      case (Some a)
      have "D' c = D c" "D' a = D a"
        by (rule stocks_result_frame(1) [OF ok _ that], simp add: c wh [OF Some])+
      with Some show ?thesis by (cases "set_u64 (en_schema E DISTRICT) D_NEXT_O_ID o_id (D c)") (simp_all add: K_def)
    qed (simp add: K_def)
    define R where "R =
      do { c_discount \<leftarrow> get_u64 (en_schema E CUSTOMER) C_DISCOUNT (D b);
           o_id \<leftarrow> take_order_id E (D c);
           ord \<leftarrow> order_row E q o_id (en_mem E 0);
           new \<leftarrow> neworder_row E q o_id (en_mem E 1);
           (D', ins) \<leftarrow> stocks_result E q o_id 0 (q_items q) D [(ORDER, ord), (NEW_ORDER, new)];
           K o_id D' ins }"
    have "effect (reorder_new_order E (\<lambda>_. True) q (txn_start D)) =
        Option.bind (items_found E D (q_items q)) (\<lambda>_. R)"
      unfolding reorder_new_order_def
      by (rule prices) (use len in \<open>simp add: 3 script_simps bind_add_new_row lines R_def\<close>)
    also have "\<dots> = new_order_result E q D"
    proof (cases "index_row E i_warehouse (w_id q) (w_id q)")
      case (Some a)
      have K: "Option.bind (stocks_result E q o_id 0 (q_items q) D ins0) (\<lambda>(D', ins). K o_id D' ins) =
        do { w_tax \<leftarrow> get_u64 (en_schema E WAREHOUSE) W_TAX (D a);
             dist \<leftarrow> set_u64 (en_schema E DISTRICT) D_NEXT_O_ID o_id (D c);
             (D', ins) \<leftarrow> stocks_result E q o_id 0 (q_items q) D ins0;
             Some (RCOK, D'(c := dist), ins) }" for o_id ins0
        by (cases "stocks_result E q o_id 0 (q_items q) D ins0") (auto simp: same Some)
      show ?thesis
        by (cases "get_u64 (en_schema E WAREHOUSE) W_TAX (D a)"; cases "items_found E D (q_items q)";
            cases "take_order_id E (D c)"; cases "set_u64 (en_schema E DISTRICT) D_NEXT_O_ID (the (take_order_id E (D c))) (D c)")
          (simp_all add: R_def new_order_result_def 3 Some K)
    next
      case None
      have "Option.bind (stocks_result E q o_id 0 (q_items q) D ins0) (\<lambda>(D', ins). K o_id D' ins) = None" for o_id ins0
        by (cases "stocks_result E q o_id 0 (q_items q) D ins0") (auto simp: same None)
      then show ?thesis by (simp add: R_def new_order_result_def None)
    qed
    finally show ?thesis .
  qed
qed

text \<open>The continuation of a loop starts with the copies of all rows written before.\<close>

definition goes_on :: "(rid \<Rightarrow> rdata) \<Rightarrow> run \<Rightarrow> (run \<Rightarrow> outcome) \<Rightarrow> (run \<Rightarrow> outcome) \<Rightarrow> bool" where
  "goes_on D s k k' \<longleftrightarrow>
     (\<forall>s'. restorable D s' \<longrightarrow> (\<forall>r. writable r s \<longrightarrow> writable r s') \<longrightarrow> outcome_ok D (k s') (k' s'))"

lemma goes_onI:
  "(\<And>s'. restorable D s' \<Longrightarrow> (\<And>r. writable r s \<Longrightarrow> writable r s') \<Longrightarrow> outcome_ok D (k s') (k' s')) \<Longrightarrow> goes_on D s k k'"
  by (simp add: goes_on_def)

lemma goes_onD:
  "goes_on D s k k' \<Longrightarrow> restorable D s' \<Longrightarrow> (\<And>r. writable r s \<Longrightarrow> writable r s') \<Longrightarrow> outcome_ok D (k s') (k' s')"
  by (simp add: goes_on_def)

lemma goes_on_mono: "goes_on D s k k' \<Longrightarrow> (\<And>r. writable r s \<Longrightarrow> writable r s') \<Longrightarrow> goes_on D s' k k'"
  by (auto simp: goes_on_def)

lemma add_new_row_restorable:
  "add_new_row E t f s = Some s' \<Longrightarrow> restorable D s \<Longrightarrow> restorable D s' \<and> (\<forall>r. writable r s' \<longleftrightarrow> writable r s)"
  using restorable_insert by (auto simp: add_new_row_def bind_eq_Some_conv)

lemma update_noted:
  "update_row r f s' = Some s'' \<Longrightarrow> s' = note_access r WR s \<Longrightarrow> restorable D s' \<Longrightarrow>
   restorable D s'' \<and> (\<forall>q. writable q s'' \<longleftrightarrow> writable q s \<or> q = r)"
  using restorable_update [of r f s' s'' D] by (auto simp: writable_note)

lemma outcome_ok_item_price:
  assumes "restorable D s" "goes_on D s k k'"
  shows "outcome_ok D (item_price E g it s k) (item_price E (\<lambda>_. True) it s k')"
  unfolding item_price_def
  by (intro outcome_ok_bind outcome_ok_row assms(1) goes_onD [OF assms(2)]) (auto simp: writable_note)

lemma outcome_ok_stock_line:
  assumes "restorable D s" "goes_on D s k k'"
  shows "outcome_ok D (stock_line E g q o_id n it s k) (stock_line E (\<lambda>_. True) q o_id n it s k')"
  unfolding stock_line_def
proof (intro outcome_ok_bind outcome_ok_row assms(1), goal_cases)
  case (1 r s1 s2 s3)
  from update_noted [OF 1(4,2,3)] add_new_row_restorable [OF 1(5)] show ?case
    by (intro goes_onD [OF assms(2)]) blast+
qed

lemma outcome_ok_item_prices:
  "restorable D s \<Longrightarrow> goes_on D s k k' \<Longrightarrow>
   outcome_ok D (item_prices E g its s k) (item_prices E (\<lambda>_. True) its s k')"
proof (induction its arbitrary: s)
  case (Cons it its)
  show ?case unfolding item_prices.simps
    by (intro outcome_ok_item_price Cons.prems(1) goes_onI Cons.IH) (auto intro: goes_onD [OF Cons.prems(2)])
qed (simp add: goes_on_def)

lemma outcome_ok_stock_lines:
  "restorable D s \<Longrightarrow> goes_on D s k k' \<Longrightarrow>
   outcome_ok D (stock_lines E g q o_id n its s k) (stock_lines E (\<lambda>_. True) q o_id n its s k')"
proof (induction its arbitrary: n s)
  case (Cons it its)
  show ?case unfolding stock_lines.simps
    by (intro outcome_ok_stock_line Cons.prems(1) goes_onI Cons.IH) (auto intro: goes_onD [OF Cons.prems(2)])
qed (simp add: goes_on_def)

lemma outcome_ok_order_lines:
  "restorable D s \<Longrightarrow> goes_on D s k k' \<Longrightarrow>
   outcome_ok D (order_lines E g q o_id n its s k) (order_lines E (\<lambda>_. True) q o_id n its s k')"
proof (induction its arbitrary: n s)
  case (Cons it its)
  show ?case unfolding order_lines.simps
    by (intro outcome_ok_item_price outcome_ok_stock_line Cons.prems(1) goes_onI Cons.IH)
      (auto intro: goes_onD [OF Cons.prems(2)])
qed (simp add: goes_on_def)

lemma run_new_order_atomic:
  "outcome_ok D (run_new_order E g q (txn_start D)) (run_new_order E (\<lambda>_. True) q (txn_start D))"
  unfolding run_new_order_def
  by ((intro outcome_ok_bind outcome_ok_row restorable_start outcome_ok_order_lines goes_onI outcome_ok_refl);
    (assumption | blast dest: restorable_write add_new_row_restorable)?)

lemma reorder_new_order_atomic:
  "outcome_ok D (reorder_new_order E g q (txn_start D)) (reorder_new_order E (\<lambda>_. True) q (txn_start D))"
  unfolding reorder_new_order_def
proof (((intro outcome_ok_bind outcome_ok_row restorable_start outcome_ok_item_prices outcome_ok_stock_lines
    goes_onI outcome_ok_refl); (assumption)?), goal_cases)
  case (1 s r_cust s1 c_discount r_dist s2 o_id s3 s4)
  from add_new_row_restorable [OF 1(12)] add_new_row_restorable [OF 1(11)] 1(9) show ?case by blast
next
  case (2 s r_cust s1 c_discount r_dist s2 o_id s3 s4 s5 s6 r_wh)
  have "writable r_dist s2" unfolding 2(8) by (simp add: writable_note)
  with add_new_row_restorable [OF 2(12)] add_new_row_restorable [OF 2(11)] 2(9) have "writable r_dist s4" by blast
  then have "writable r_dist s5" by (rule 2(14))
  with restorable_update [OF 2(15)] 2(13) show ?case by blast
qed

end
