(* ===== verification/Tpcc_Schema.thy ===== *)
theory Tpcc_Schema
  imports Tpcc_Txn
begin

text \<open>
  The schemas of TPC-C (\<open>src/DBx1000/code/benchmarks/TPCC_short_schema.txt\<close>), what the transactions do to the
  columns of their rows, and a small database that they run on.
\<close>

section \<open>The schemas\<close>

fun tpcc_short_schema :: "tpcc_table \<Rightarrow> (nat \<times> string \<times> string) list" where
  "tpcc_short_schema WAREHOUSE =
     [(8, ''int64_t'', ''W_ID''), (10, ''string'', ''W_NAME''), (20, ''string'', ''W_STREET_1''),
      (20, ''string'', ''W_STREET_2''), (20, ''string'', ''W_CITY''), (2, ''string'', ''W_STATE''),
      (9, ''string'', ''W_ZIP''), (8, ''double'', ''W_TAX''), (8, ''double'', ''W_YTD'')]"
| "tpcc_short_schema DISTRICT =
     [(8, ''int64_t'', ''D_ID''), (8, ''int64_t'', ''D_W_ID''), (10, ''string'', ''D_NAME''),
      (20, ''string'', ''D_STREET_1''), (20, ''string'', ''D_STREET_2''), (20, ''string'', ''D_CITY''),
      (2, ''string'', ''D_STATE''), (9, ''string'', ''D_ZIP''), (8, ''double'', ''D_TAX''),
      (8, ''double'', ''D_YTD''), (8, ''int64_t'', ''D_NEXT_O_ID'')]"
| "tpcc_short_schema CUSTOMER =
     [(8, ''int64_t'', ''C_ID''), (8, ''int64_t'', ''C_D_ID''), (8, ''int64_t'', ''C_W_ID''),
      (2, ''string'', ''C_MIDDLE''), (16, ''string'', ''C_LAST''), (2, ''string'', ''C_STATE''),
      (2, ''string'', ''C_CREDIT''), (8, ''int64_t'', ''C_DISCOUNT''), (8, ''double'', ''C_BALANCE''),
      (8, ''double'', ''C_YTD_PAYMENT''), (8, ''uint64_t'', ''C_PAYMENT_CNT'')]"
| "tpcc_short_schema HISTORY =
     [(8, ''int64_t'', ''H_C_ID''), (8, ''int64_t'', ''H_C_D_ID''), (8, ''int64_t'', ''H_C_W_ID''),
      (8, ''int64_t'', ''H_D_ID''), (8, ''int64_t'', ''H_W_ID''), (8, ''int64_t'', ''H_DATE''),
      (8, ''double'', ''H_AMOUNT'')]"
| "tpcc_short_schema NEW_ORDER =
     [(8, ''int64_t'', ''NO_O_ID''), (8, ''int64_t'', ''NO_D_ID''), (8, ''int64_t'', ''NO_W_ID'')]"
| "tpcc_short_schema ORDER =
     [(8, ''int64_t'', ''O_ID''), (8, ''int64_t'', ''O_C_ID''), (8, ''int64_t'', ''O_D_ID''),
      (8, ''int64_t'', ''O_W_ID''), (8, ''int64_t'', ''O_ENTRY_D''), (8, ''int64_t'', ''O_CARRIER_ID''),
      (8, ''int64_t'', ''O_OL_CNT''), (8, ''int64_t'', ''O_ALL_LOCAL'')]"
| "tpcc_short_schema ORDER_LINE =
     [(8, ''int64_t'', ''OL_O_ID''), (8, ''int64_t'', ''OL_D_ID''), (8, ''int64_t'', ''OL_W_ID''),
      (8, ''int64_t'', ''OL_NUMBER''), (8, ''int64_t'', ''OL_I_ID'')]"
| "tpcc_short_schema ITEM =
     [(8, ''int64_t'', ''I_ID''), (8, ''int64_t'', ''I_IM_ID''), (24, ''string'', ''I_NAME''),
      (8, ''int64_t'', ''I_PRICE''), (50, ''string'', ''I_DATA'')]"
| "tpcc_short_schema STOCK =
     [(8, ''int64_t'', ''S_I_ID''), (8, ''int64_t'', ''S_W_ID''), (8, ''int64_t'', ''S_QUANTITY''),
      (8, ''int64_t'', ''S_REMOTE_CNT'')]"

text \<open>The schemas are read from the file, rows are as long as their schema says, new rows get enough memory,
  and there are bytes behind every variable.\<close>

definition tpcc_env_ok :: "tpcc_env \<Rightarrow> bool" where
  "tpcc_env_ok E \<longleftrightarrow> (\<forall>t. schema_of (tpcc_short_schema t) = Some (en_schema E t)) \<and>
     (\<forall>n t. ct_tuple_size (en_schema E t) \<le> length (en_mem E n)) \<and> (\<forall>n. 4 \<le> length (en_stray E n))"

definition rows_ok :: "tpcc_env \<Rightarrow> (rid \<Rightarrow> tpcc_table) \<Rightarrow> (rid \<Rightarrow> rdata) \<Rightarrow> bool" where
  "rows_ok E tab D \<longleftrightarrow> (\<forall>r. row_of (en_schema E (tab r)) (D r))"

lemma schema_sizes: "schema_of cols = Some ct \<Longrightarrow> map cl_size (ct_columns ct) = map fst cols"
proof -
  have "fold (\<lambda>(sz, type, name) ct. Option.bind ct (add_col name sz type)) cols (Some c) = Some ct \<Longrightarrow>
      map cl_size (ct_columns ct) = map cl_size (ct_columns c) @ map fst cols" for c
  proof (induction cols arbitrary: c)
    case (Cons col cols)
    obtain sz type name where col: "col = (sz, type, name)" by (rule prod_cases3)
    have none: "fold (\<lambda>(sz, type, name) ct. Option.bind ct (add_col name sz type)) cols None = None" for cols
      by (induction cols) auto
    from Cons.prems obtain c' where "add_col name sz type c = Some c'"
      using none by (cases "add_col name sz type c") (auto simp: col)
    then show ?case using Cons.IH [of c'] Cons.prems by (auto simp: col add_col_def split: if_splits)
  qed simp
  then show "schema_of cols = Some ct \<Longrightarrow> map cl_size (ct_columns ct) = map fst cols"
    by (fastforce simp: schema_of_def catalog_init_def)
qed

lemma env_schema: "tpcc_env_ok E \<Longrightarrow> catalog_ok (en_schema E t)"
  using catalog_ok_schema by (auto simp: tpcc_env_ok_def)

lemma env_word_col:
  assumes "tpcc_env_ok E"
  shows "word_col (en_schema E t) k \<longleftrightarrow>
    k < length (tpcc_short_schema t) \<and> fst (tpcc_short_schema t ! k) = 8"
proof -
  have m: "map cl_size (ct_columns (en_schema E t)) = map fst (tpcc_short_schema t)"
    using assms schema_sizes by (auto simp: tpcc_env_ok_def)
  have "length (ct_columns (en_schema E t)) = length (tpcc_short_schema t)" using m map_eq_imp_length_eq by blast
  moreover have "k < length (tpcc_short_schema t) \<Longrightarrow>
      cl_size (ct_columns (en_schema E t) ! k) = fst (tpcc_short_schema t ! k)"
    using m by (metis calculation nth_map)
  ultimately show ?thesis by (auto simp: word_col_def)
qed

lemma env_column: "tpcc_env_ok E \<Longrightarrow> column_at C_CREDIT (en_schema E CUSTOMER) \<noteq> None"
  using env_word_col [of E CUSTOMER 8] by (simp add: column_at_def word_col_def)

section \<open>Chains of writes\<close>

text \<open>A row after writes of some columns: what they hold, and the others as before.\<close>

definition cols_written :: "Catalog \<Rightarrow> (nat \<rightharpoonup> 64 word) \<Rightarrow> rdata \<Rightarrow> rdata \<Rightarrow> bool" where
  "cols_written ct m d d' \<longleftrightarrow> row_of ct d' \<and>
     (\<forall>j. word_col ct j \<longrightarrow> get_u64 ct j d' = (case m j of Some v \<Rightarrow> Some v | None \<Rightarrow> get_u64 ct j d))"

lemma written_refl: "row_of ct d \<Longrightarrow> cols_written ct Map.empty d d"
  by (simp add: cols_written_def)

lemma set_value_written:
  assumes "catalog_ok ct" "cols_written ct m d d'" "word_col ct k" "8 \<le> length src"
  shows "\<exists>d''. set_value ct k src d' = Some d'' \<and> cols_written ct (m(k \<mapsto> word64 (take 8 src))) d d''"
proof -
  let ?c = "ct_columns ct ! k"
  from assms(2) have row: "length d' = ct_tuple_size ct" by (simp add: cols_written_def row_of_def)
  have k: "k < length (ct_columns ct)" "cl_size ?c = 8" using assms(3) by (simp_all add: word_col_def)
  have "cl_index ?c + 8 \<le> length d'" using column_inside [OF _ k(1)] assms(1) k(2) row by (simp add: catalog_ok_def)
  then obtain d'' where d: "memcpy_at (cl_index ?c) 8 src d' = Some d''" using assms(4) by (simp add: memcpy_at_def)
  have s: "set_value ct k src d' = Some d''" by (simp add: set_value_def column_at_def k d)
  have "get_u64 ct k d'' = Some (word64 (take 8 src))"
    using memcpy_get [OF d] memcpy_length [OF d] \<open>cl_index ?c + 8 \<le> length d'\<close> by (simp add: get_u64_def column_at_def k)
  moreover have "get_u64 ct j d'' = get_u64 ct j d'" if "word_col ct j" "j \<noteq> k" for j
    by (rule get_set_other [OF assms(1) s that])
  ultimately have "cols_written ct (m(k \<mapsto> word64 (take 8 src))) d d''"
    using assms(2) memcpy_length [OF d] by (simp add: cols_written_def row_of_def)
  with s show ?thesis by blast
qed

lemma written_set:
  assumes "catalog_ok ct" "cols_written ct m d d'" "word_col ct k"
  shows "\<exists>d''. set_u64 ct k v d' = Some d'' \<and> cols_written ct (m(k \<mapsto> v)) d d''"
  using set_value_written [OF assms, of "bytes64 v"] by (simp add: set_u64_def)

lemma written_bind:
  assumes "catalog_ok ct" "cols_written ct m d d'" "word_col ct k"
    "\<And>d''. cols_written ct (m(k \<mapsto> v)) d d'' \<Longrightarrow> \<exists>x. f d'' = Some x \<and> P x"
  shows "\<exists>x. Option.bind (set_u64 ct k v d') f = Some x \<and> P x"
  using written_set [OF assms(1-3), of v] assms(4) by auto

lemma written_last:
  assumes "catalog_ok ct" "cols_written ct m d d'" "word_col ct k" "\<And>d''. cols_written ct (m(k \<mapsto> v)) d d'' \<Longrightarrow> P d''"
  shows "\<exists>x. set_u64 ct k v d' = Some x \<and> P x"
  using written_set [OF assms(1-3), of v] assms(4) by auto

lemma get_some:
  assumes "catalog_ok ct" "row_of ct d" "word_col ct k"
  shows "\<exists>v. get_u64 ct k d = Some v"
proof -
  have k: "k < length (ct_columns ct)" "cl_size (ct_columns ct ! k) = 8" using assms(3) by (simp_all add: word_col_def)
  with column_inside [OF _ k(1)] assms(1,2) show ?thesis
    by (simp add: get_u64_def column_at_def catalog_ok_def row_of_def)
qed

lemma written_get:
  "cols_written ct m d d' \<Longrightarrow> word_col ct j \<Longrightarrow> get_u64 ct j d' = (case m j of Some v \<Rightarrow> Some v | None \<Rightarrow> get_u64 ct j d)"
  by (simp add: cols_written_def)

lemma row_init_written:
  assumes "ct_tuple_size ct \<le> length mem"
  shows "\<exists>d. row_init ct mem = Some d \<and> cols_written ct Map.empty d d"
  using assms by (simp add: row_init_def written_refl row_of_def)

section \<open>Payments\<close>

lemma pay_district_written:
  assumes "tpcc_env_ok E" "row_of (en_schema E DISTRICT) d"
  shows "\<exists>y d'. get_u64 (en_schema E DISTRICT) D_YTD d = Some y \<and> pay_district E q d = Some d' \<and>
    cols_written (en_schema E DISTRICT) [D_YTD \<mapsto> en_add E y (h_amount q)] d d'"
proof -
  note ok = env_schema [OF assms(1), of DISTRICT]
  have w: "word_col (en_schema E DISTRICT) D_YTD" by (simp add: env_word_col [OF assms(1)])
  obtain y where y: "get_u64 (en_schema E DISTRICT) D_YTD d = Some y" using get_some [OF ok assms(2) w] by blast
  show ?thesis
    using written_set [OF ok written_refl [OF assms(2)] w, of "en_add E y (h_amount q)"]
    by (auto simp: pay_district_def y)
qed

lemma pay_customer_written:
  assumes "tpcc_env_ok E" "row_of (en_schema E CUSTOMER) d"
  shows "\<exists>b y c d'. get_u64 (en_schema E CUSTOMER) C_BALANCE d = Some b \<and>
    get_u64 (en_schema E CUSTOMER) C_YTD_PAYMENT d = Some y \<and>
    get_u64 (en_schema E CUSTOMER) C_PAYMENT_CNT d = Some c \<and> pay_customer E q d = Some d' \<and>
    cols_written (en_schema E CUSTOMER) [C_BALANCE \<mapsto> en_sub E b (h_amount q), C_YTD_PAYMENT \<mapsto> en_add E y (h_amount q),
      C_PAYMENT_CNT \<mapsto> en_add E c (en_one E)] d d'"
proof -
  note ok = env_schema [OF assms(1), of CUSTOMER]
  have w: "word_col (en_schema E CUSTOMER) C_BALANCE" "word_col (en_schema E CUSTOMER) C_YTD_PAYMENT"
    "word_col (en_schema E CUSTOMER) C_PAYMENT_CNT" by (simp_all add: env_word_col [OF assms(1)])
  obtain b y c where v: "get_u64 (en_schema E CUSTOMER) C_BALANCE d = Some b"
    "get_u64 (en_schema E CUSTOMER) C_YTD_PAYMENT d = Some y" "get_u64 (en_schema E CUSTOMER) C_PAYMENT_CNT d = Some c"
    using get_some [OF ok assms(2) w(1)] get_some [OF ok assms(2) w(2)] get_some [OF ok assms(2) w(3)]
    by (elim exE)
  have credit: "Option.bind (column_at C_CREDIT (en_schema E CUSTOMER)) (\<lambda>_. Some d') = Some d'" for d'
    using env_column [OF assms(1)] by (cases "column_at C_CREDIT (en_schema E CUSTOMER)") simp_all
  have "\<exists>d'. pay_customer E q d = Some d' \<and>
    cols_written (en_schema E CUSTOMER) [C_BALANCE \<mapsto> en_sub E b (h_amount q), C_YTD_PAYMENT \<mapsto> en_add E y (h_amount q),
      C_PAYMENT_CNT \<mapsto> en_add E c (en_one E)] d d'"
    unfolding pay_customer_def Let_def v bind.simps credit
    by (rule written_bind [OF ok written_refl [OF assms(2)] w(1)], simp add: written_get w v,
        erule written_bind [OF ok _ w(2)], simp add: written_get w v, erule written_last [OF ok _ w(3)])
  with v show ?thesis by blast
qed

lemma history_row_written:
  assumes "tpcc_env_ok E"
  shows "\<exists>d0 d. history_row E q (en_mem E n) = Some d \<and>
    cols_written (en_schema E HISTORY) [0 \<mapsto> c_id q, 1 \<mapsto> c_d_id q, 2 \<mapsto> c_w_id q, 3 \<mapsto> d_id q, 4 \<mapsto> w_id q, 5 \<mapsto> 2013,
      6 \<mapsto> h_amount q] d0 d"
proof -
  note ok = env_schema [OF assms, of HISTORY]
  have w: "word_col (en_schema E HISTORY) k" if "k < 7" for k
    using that by (auto simp: env_word_col [OF assms] less_Suc_eq numeral_eq_Suc)
  obtain d0 where d0: "row_init (en_schema E HISTORY) (en_mem E n) = Some d0" "cols_written (en_schema E HISTORY) Map.empty d0 d0"
    using row_init_written assms by (metis tpcc_env_ok_def)
  have "\<exists>d. history_row E q (en_mem E n) = Some d \<and>
    cols_written (en_schema E HISTORY) [0 \<mapsto> c_id q, 1 \<mapsto> c_d_id q, 2 \<mapsto> c_w_id q, 3 \<mapsto> d_id q, 4 \<mapsto> w_id q, 5 \<mapsto> 2013,
      6 \<mapsto> h_amount q] d0 d"
    unfolding history_row_def Let_def d0(1) bind.simps
    by (rule written_bind [OF ok d0(2) w], simp, (erule written_bind [OF ok _ w], simp)+,
        erule written_last [OF ok _ w], simp_all)
  then show ?thesis by blast
qed

section \<open>Payments and their rows\<close>

lemma payment_values:
  assumes env: "tpcc_env_ok E" and ok: "index_rows E tab" "rows_ok E tab D"
    and f: "index_row E i_warehouse (w_id q) (w_id q) = Some wh"
      "index_row E i_district (distKey (d_id q) (d_w_id q)) (w_id q) = Some dist" "pay_find_customer E q = Some cust"
  shows "\<exists>a b c h h0 y z bal p n. payment_result E q D = Some (RCOK, D(wh := a, dist := b, cust := c), [(HISTORY, h)]) \<and>
    get_u64 (en_schema E WAREHOUSE) W_YTD (D wh) = Some y \<and> get_u64 (en_schema E DISTRICT) D_YTD (D dist) = Some z \<and>
    get_u64 (en_schema E CUSTOMER) C_BALANCE (D cust) = Some bal \<and>
    get_u64 (en_schema E CUSTOMER) C_YTD_PAYMENT (D cust) = Some p \<and>
    get_u64 (en_schema E CUSTOMER) C_PAYMENT_CNT (D cust) = Some n \<and>
    cols_written (en_schema E WAREHOUSE) [W_YTD \<mapsto> if en_wh_update E then en_add E y (h_amount q) else y] (D wh) a \<and>
    cols_written (en_schema E DISTRICT) [D_YTD \<mapsto> en_add E z (h_amount q)] (D dist) b \<and>
    cols_written (en_schema E CUSTOMER) [C_BALANCE \<mapsto> en_sub E bal (h_amount q), C_YTD_PAYMENT \<mapsto> en_add E p (h_amount q),
      C_PAYMENT_CNT \<mapsto> en_add E n (en_one E)] (D cust) c \<and>
    cols_written (en_schema E HISTORY) [0 \<mapsto> c_id q, 1 \<mapsto> c_d_id q, 2 \<mapsto> c_w_id q, 3 \<mapsto> d_id q, 4 \<mapsto> w_id q, 5 \<mapsto> 2013,
      6 \<mapsto> h_amount q] h0 h"
proof -
  have row: "row_of (en_schema E WAREHOUSE) (D wh)" "row_of (en_schema E DISTRICT) (D dist)"
    "row_of (en_schema E CUSTOMER) (D cust)"
    using ok(2) index_row_table [OF ok(1) f(1)] index_row_table [OF ok(1) f(2)] pay_find_customer_table [OF ok(1) f(3)]
    unfolding rows_ok_def by (metis table_of_index.simps)+
  have w: "word_col (en_schema E WAREHOUSE) W_YTD" by (simp add: env_word_col [OF env])
  note wok = env_schema [OF env, of WAREHOUSE]
  obtain y where y: "get_u64 (en_schema E WAREHOUSE) W_YTD (D wh) = Some y" using get_some [OF wok row(1) w] ..
  have "\<exists>a. ytd_row E q y (D wh) = Some a \<and>
      cols_written (en_schema E WAREHOUSE) [W_YTD \<mapsto> if en_wh_update E then en_add E y (h_amount q) else y] (D wh) a"
  proof (cases "en_wh_update E")
    case True
    with written_set [OF wok written_refl [OF row(1)] w] show ?thesis by (simp add: ytd_row_def)
  next
    case False
    with row(1) y show ?thesis by (simp add: ytd_row_def cols_written_def)
  qed
  then obtain a where a: "ytd_row E q y (D wh) = Some a"
    "cols_written (en_schema E WAREHOUSE) [W_YTD \<mapsto> if en_wh_update E then en_add E y (h_amount q) else y] (D wh) a"
    by (elim exE conjE)
  from pay_district_written [OF env row(2), of q] obtain z b
    where b: "get_u64 (en_schema E DISTRICT) D_YTD (D dist) = Some z" "pay_district E q (D dist) = Some b"
      "cols_written (en_schema E DISTRICT) [D_YTD \<mapsto> en_add E z (h_amount q)] (D dist) b" by (elim exE conjE)
  from pay_customer_written [OF env row(3), of q] obtain bal p n c
    where c: "get_u64 (en_schema E CUSTOMER) C_BALANCE (D cust) = Some bal"
      "get_u64 (en_schema E CUSTOMER) C_YTD_PAYMENT (D cust) = Some p"
      "get_u64 (en_schema E CUSTOMER) C_PAYMENT_CNT (D cust) = Some n" "pay_customer E q (D cust) = Some c"
      "cols_written (en_schema E CUSTOMER) [C_BALANCE \<mapsto> en_sub E bal (h_amount q), C_YTD_PAYMENT \<mapsto> en_add E p (h_amount q),
        C_PAYMENT_CNT \<mapsto> en_add E n (en_one E)] (D cust) c" by (elim exE conjE)
  from history_row_written [OF env, of q 0] obtain h0 h where h: "history_row E q (en_mem E 0) = Some h"
    "cols_written (en_schema E HISTORY) [0 \<mapsto> c_id q, 1 \<mapsto> c_d_id q, 2 \<mapsto> c_w_id q, 3 \<mapsto> d_id q, 4 \<mapsto> w_id q, 5 \<mapsto> 2013,
      6 \<mapsto> h_amount q] h0 h" by (elim exE conjE)
  have "payment_result E q D = Some (RCOK, D(wh := a, dist := b, cust := c), [(HISTORY, h)])"
    unfolding payment_result_def f bind.simps y a(1) b(2) c(4) h(1) ..
  with y a(2) b(1,3) c(1,2,3,5) h(2) show ?thesis by blast
qed

section \<open>New orders and their rows\<close>

lemma order_row_written:
  assumes "tpcc_env_ok E"
  shows "\<exists>d0 d. order_row E q o_id (en_mem E n) = Some d \<and>
    cols_written (en_schema E ORDER) [0 \<mapsto> o_id, 1 \<mapsto> c_id q, 2 \<mapsto> d_id q, 3 \<mapsto> w_id q, 4 \<mapsto> o_entry_d q,
      6 \<mapsto> of_nat (length (q_items q)), 7 \<mapsto> (if remote q then 0 else 1)] d0 d"
proof -
  note ok = env_schema [OF assms, of ORDER]
  have w: "word_col (en_schema E ORDER) k" if "k < 8" for k
    using that by (auto simp: env_word_col [OF assms] less_Suc_eq numeral_eq_Suc)
  obtain d0 where d0: "row_init (en_schema E ORDER) (en_mem E n) = Some d0" "cols_written (en_schema E ORDER) Map.empty d0 d0"
    using row_init_written assms by (metis tpcc_env_ok_def)
  have "\<exists>d. order_row E q o_id (en_mem E n) = Some d \<and>
    cols_written (en_schema E ORDER) [0 \<mapsto> o_id, 1 \<mapsto> c_id q, 2 \<mapsto> d_id q, 3 \<mapsto> w_id q, 4 \<mapsto> o_entry_d q,
      6 \<mapsto> of_nat (length (q_items q)), 7 \<mapsto> (if remote q then 0 else 1)] d0 d"
    unfolding order_row_def Let_def d0(1) bind.simps
    by (rule written_bind [OF ok d0(2) w], simp, (erule written_bind [OF ok _ w], simp)+,
        erule written_last [OF ok _ w], simp_all)
  then show ?thesis by blast
qed

lemma neworder_row_written:
  assumes "tpcc_env_ok E"
  shows "\<exists>d0 d. neworder_row E q o_id (en_mem E n) = Some d \<and>
    cols_written (en_schema E NEW_ORDER) [0 \<mapsto> o_id, 1 \<mapsto> d_id q, 2 \<mapsto> w_id q] d0 d"
proof -
  note ok = env_schema [OF assms, of NEW_ORDER]
  have w: "word_col (en_schema E NEW_ORDER) k" if "k < 3" for k
    using that by (auto simp: env_word_col [OF assms] less_Suc_eq numeral_eq_Suc)
  obtain d0 where d0: "row_init (en_schema E NEW_ORDER) (en_mem E n) = Some d0" "cols_written (en_schema E NEW_ORDER) Map.empty d0 d0"
    using row_init_written assms by (metis tpcc_env_ok_def)
  have "\<exists>d. neworder_row E q o_id (en_mem E n) = Some d \<and>
    cols_written (en_schema E NEW_ORDER) [0 \<mapsto> o_id, 1 \<mapsto> d_id q, 2 \<mapsto> w_id q] d0 d"
    unfolding neworder_row_def Let_def d0(1) bind.simps
    by (rule written_bind [OF ok d0(2) w], simp, (erule written_bind [OF ok _ w], simp)+,
        erule written_last [OF ok _ w], simp_all)
  then show ?thesis by blast
qed

lemma of_bytes_append: "of_bytes (a @ b) = of_bytes a + 256 ^ length a * of_bytes b"
  by (induction a) (simp_all add: algebra_simps)

text \<open>Of the number of a line only the low half is sure.\<close>

lemma line_number_low:
  assumes "n < 2 ^ 32"
  shows "unat (word64 (take 8 (to_bytes 4 n @ stray))) mod 2 ^ 32 = n"
proof -
  have "of_bytes (take 8 (to_bytes 4 n @ stray)) = n mod 256 ^ 4 + 256 ^ 4 * of_bytes (take 4 stray)"
    by (simp add: of_bytes_append of_to_bytes del: of_bytes.simps)
  then have "of_bytes (take 8 (to_bytes 4 n @ stray)) mod 2 ^ 64 mod 2 ^ 32 = n"
    using assms by (simp add: mod_mod_cancel)
  then show ?thesis by (simp add: word64_def unat_of_nat)
qed

definition line_number :: "tpcc_env \<Rightarrow> nat \<Rightarrow> 64 word" where
  "line_number E n = word64 (take 8 (to_bytes 4 n @ en_stray E n))"

lemma line_row_written:
  assumes "tpcc_env_ok E"
  shows "\<exists>d0 d. line_row E q o_id n it (en_mem E k) = Some d \<and>
    cols_written (en_schema E ORDER_LINE) [0 \<mapsto> o_id, 1 \<mapsto> d_id q, 2 \<mapsto> w_id q, 3 \<mapsto> line_number E n, 4 \<mapsto> ol_i_id it] d0 d"
proof -
  let ?ct = "en_schema E ORDER_LINE"
  note ok = env_schema [OF assms, of ORDER_LINE]
  have w: "word_col ?ct k" if "k < 5" for k
    using that by (auto simp: env_word_col [OF assms] less_Suc_eq numeral_eq_Suc)
  obtain d0 where d0: "row_init ?ct (en_mem E k) = Some d0" "cols_written ?ct Map.empty d0 d0"
    using row_init_written assms by (metis tpcc_env_ok_def)
  have num: "\<exists>x. Option.bind (set_value ?ct 3 (to_bytes 4 n @ en_stray E n) d') f = Some x \<and> P x"
    if "cols_written ?ct m d0 d'" "\<And>d''. cols_written ?ct (m(3 \<mapsto> line_number E n)) d0 d'' \<Longrightarrow> \<exists>x. f d'' = Some x \<and> P x" for d' m f P
  proof -
    have "8 \<le> length (to_bytes 4 n @ en_stray E n)" using assms by (simp add: tpcc_env_ok_def)
    have w3: "word_col ?ct 3" by (rule w) simp
    from set_value_written [OF ok that(1) w3 \<open>8 \<le> length (to_bytes 4 n @ en_stray E n)\<close>] obtain d'' where
      "set_value ?ct 3 (to_bytes 4 n @ en_stray E n) d' = Some d''" "cols_written ?ct (m(3 \<mapsto> line_number E n)) d0 d''"
      unfolding line_number_def by (elim exE conjE)
    with that(2) [of d''] show ?thesis by simp
  qed
  have "\<exists>d. line_row E q o_id n it (en_mem E k) = Some d \<and>
    cols_written ?ct [0 \<mapsto> o_id, 1 \<mapsto> d_id q, 2 \<mapsto> w_id q, 3 \<mapsto> line_number E n, 4 \<mapsto> ol_i_id it] d0 d"
    unfolding line_row_def Let_def d0(1) bind.simps
    by (rule written_bind [OF ok d0(2) w], simp, (erule written_bind [OF ok _ w], simp)+, erule num,
        erule written_last [OF ok _ w], simp_all)
  then show ?thesis by blast
qed

lemma stock_update_written:
  assumes "tpcc_env_ok E" "row_of (en_schema E STOCK) d"
  shows "\<exists>s c d'. get_u64 (en_schema E STOCK) S_QUANTITY d = Some s \<and> get_u64 (en_schema E STOCK) S_REMOTE_CNT d = Some c \<and>
    stock_update E q it d = Some d' \<and>
    cols_written (en_schema E STOCK)
      [S_REMOTE_CNT \<mapsto> if remote q then c + 1 else c, S_QUANTITY \<mapsto> stock_left s (ol_quantity it)] d d'"
proof -
  let ?ct = "en_schema E STOCK"
  note ok = env_schema [OF assms(1), of STOCK]
  have w: "word_col ?ct S_QUANTITY" "word_col ?ct S_REMOTE_CNT" by (simp_all add: env_word_col [OF assms(1)])
  from get_some [OF ok assms(2) w(1)] get_some [OF ok assms(2) w(2)] obtain s c
    where v: "get_u64 ?ct S_QUANTITY d = Some s" "get_u64 ?ct S_REMOTE_CNT d = Some c" by (elim exE)
  have "\<exists>d1. (if remote q then set_u64 ?ct S_REMOTE_CNT (c + 1) d else Some d) = Some d1 \<and>
      cols_written ?ct [S_REMOTE_CNT \<mapsto> if remote q then c + 1 else c] d d1"
  proof (cases "remote q")
    case True
    with written_set [OF ok written_refl [OF assms(2)] w(2), of "c + 1"] show ?thesis by simp
  next
    case False
    then show ?thesis using v assms(2) by (simp add: cols_written_def)
  qed
  then obtain d1 where d1: "(if remote q then set_u64 ?ct S_REMOTE_CNT (c + 1) d else Some d) = Some d1"
    "cols_written ?ct [S_REMOTE_CNT \<mapsto> if remote q then c + 1 else c] d d1" by (elim exE conjE)
  from written_set [OF ok d1(2) w(1), of "stock_left s (ol_quantity it)"] obtain d2
    where d2: "set_u64 ?ct S_QUANTITY (stock_left s (ol_quantity it)) d1 = Some d2"
      "cols_written ?ct [S_REMOTE_CNT \<mapsto> if remote q then c + 1 else c, S_QUANTITY \<mapsto> stock_left s (ol_quantity it)] d d2"
    by (elim exE conjE)
  have "stock_update E q it d = Some d2"
    using d1(1) d2(1) by (simp add: stock_update_def v split: if_splits)
  with v d2(2) show ?thesis by blast
qed

text \<open>The rows of the lines of an order.\<close>

definition item_rid :: "tpcc_env \<Rightarrow> Item_no \<Rightarrow> rid" where
  "item_rid E it = the (find_item_row E (ol_i_id it))"

definition stock_rid :: "tpcc_env \<Rightarrow> Item_no \<Rightarrow> rid" where
  "stock_rid E it =
     the (index_row E i_stock (stockKey (en_max_items E) (ol_i_id it) (ol_supply_w_id it)) (ol_supply_w_id it))"

definition lines_found :: "tpcc_env \<Rightarrow> Item_no list \<Rightarrow> bool" where
  "lines_found E its \<longleftrightarrow> (\<forall>it \<in> set its. find_item_row E (ol_i_id it) \<noteq> None \<and>
     index_row E i_stock (stockKey (en_max_items E) (ol_i_id it) (ol_supply_w_id it)) (ol_supply_w_id it) \<noteq> None)"

text \<open>What is left of a stock after the lines that take from it.\<close>

definition taken :: "tpcc_env \<Rightarrow> rid \<Rightarrow> Item_no list \<Rightarrow> 64 word \<Rightarrow> 64 word" where
  "taken E r its s = foldl stock_left s (map ol_quantity (filter (\<lambda>it. stock_rid E it = r) its))"

definition line_ok :: "tpcc_env \<Rightarrow> tpcc_query \<Rightarrow> 64 word \<Rightarrow> nat \<Rightarrow> Item_no \<Rightarrow> rdata \<Rightarrow> bool" where
  "line_ok E q o_id n it l \<longleftrightarrow>
     (\<exists>d0. cols_written (en_schema E ORDER_LINE)
        [0 \<mapsto> o_id, 1 \<mapsto> d_id q, 2 \<mapsto> w_id q, 3 \<mapsto> line_number E n, 4 \<mapsto> ol_i_id it] d0 l)"

lemma rows_ok_write:
  "rows_ok E tab D \<Longrightarrow> cols_written (en_schema E (tab r)) m d x \<Longrightarrow> rows_ok E tab (D(r := x))"
  by (auto simp: rows_ok_def cols_written_def)

lemma items_found_total:
  assumes "tpcc_env_ok E" "index_rows E tab" "rows_ok E tab D" "lines_found E its"
  shows "items_found E D its = Some ()"
  using assms(4)
proof (induction its)
  case (Cons it its)
  then obtain r where r: "find_item_row E (ol_i_id it) = Some r" by (auto simp: lines_found_def)
  have w: "word_col (en_schema E ITEM) I_PRICE" by (simp add: env_word_col [OF assms(1)])
  have "row_of (en_schema E ITEM) (D r)"
    using assms(3) find_item_row_table [OF assms(2) r] unfolding rows_ok_def by metis
  from get_some [OF env_schema [OF assms(1)] this w] Cons show ?case by (auto simp: r lines_found_def)
qed simp

lemma stocks_values:
  assumes env: "tpcc_env_ok E" and ok: "index_rows E tab"
  shows "rows_ok E tab D \<Longrightarrow> lines_found E its \<Longrightarrow>
    \<exists>D' ls. stocks_result E q o_id n its D ins = Some (D', ins @ map (Pair ORDER_LINE) ls) \<and> rows_ok E tab D' \<and>
      length ls = length its \<and> (\<forall>k < length its. line_ok E q o_id (n + k) (its ! k) (ls ! k)) \<and>
      (\<forall>r. tab r \<noteq> STOCK \<longrightarrow> D' r = D r) \<and>
      (\<forall>r. tab r = STOCK \<longrightarrow> get_u64 (en_schema E STOCK) S_QUANTITY (D' r) =
         map_option (taken E r its) (get_u64 (en_schema E STOCK) S_QUANTITY (D r)))"
proof (induction its arbitrary: n D ins)
  case Nil
  then show ?case by (simp add: taken_def option.map_ident cong: map_option_cong)
next
  case (Cons it its)
  let ?ct = "en_schema E STOCK"
  from Cons.prems(2) obtain r
    where r: "index_row E i_stock (stockKey (en_max_items E) (ol_i_id it) (ol_supply_w_id it)) (ol_supply_w_id it) = Some r"
      and its: "lines_found E its" by (auto simp: lines_found_def)
  have tab: "tab r = STOCK" using index_row_table [OF ok r] by simp
  have rid: "stock_rid E it = r" by (simp add: stock_rid_def r)
  have row: "row_of ?ct (D r)" using Cons.prems(1) tab unfolding rows_ok_def by metis
  from stock_update_written [OF env row, of q it] obtain s c d
    where d: "get_u64 ?ct S_QUANTITY (D r) = Some s" "stock_update E q it (D r) = Some d"
      "cols_written ?ct [S_REMOTE_CNT \<mapsto> if remote q then c + 1 else c, S_QUANTITY \<mapsto> stock_left s (ol_quantity it)] (D r) d"
    by (elim exE conjE)
  from line_row_written [OF env, of q o_id n it "length ins"] obtain l
    where l: "line_row E q o_id n it (en_mem E (length ins)) = Some l" "line_ok E q o_id n it l"
    unfolding line_ok_def by blast
  have "word_col ?ct S_QUANTITY" by (simp add: env_word_col [OF env])
  from written_get [OF d(3) this] have s': "get_u64 ?ct S_QUANTITY d = Some (stock_left s (ol_quantity it))" by simp
  have rows: "rows_ok E tab (D(r := d))" by (rule rows_ok_write [OF Cons.prems(1)]) (use d(3) tab in simp)
  from Cons.IH [OF rows its, of "Suc n" "ins @ [(ORDER_LINE, l)]"] obtain D' ls
    where res: "stocks_result E q o_id (Suc n) its (D(r := d)) (ins @ [(ORDER_LINE, l)]) =
        Some (D', (ins @ [(ORDER_LINE, l)]) @ map (Pair ORDER_LINE) ls)" "rows_ok E tab D'" "length ls = length its"
      and ls: "\<forall>k < length its. line_ok E q o_id (Suc n + k) (its ! k) (ls ! k)"
      and same: "\<forall>r'. tab r' \<noteq> STOCK \<longrightarrow> D' r' = (D(r := d)) r'"
      and q': "\<forall>r'. tab r' = STOCK \<longrightarrow> get_u64 ?ct S_QUANTITY (D' r') =
        map_option (taken E r' its) (get_u64 ?ct S_QUANTITY ((D(r := d)) r'))" by (elim exE conjE)
  have "stocks_result E q o_id n (it # its) D ins = Some (D', ins @ map (Pair ORDER_LINE) (l # ls))"
    using res(1) by (simp add: r d(2) l(1))
  moreover have "\<forall>k < length (it # its). line_ok E q o_id (n + k) ((it # its) ! k) ((l # ls) ! k)"
    using ls l(2) by (auto simp: nth_Cons less_Suc_eq_0_disj split: nat.split)
  moreover have "\<forall>r'. tab r' \<noteq> STOCK \<longrightarrow> D' r' = D r'"
    using same tab by (metis fun_upd_other)
  moreover have "get_u64 ?ct S_QUANTITY (D' r') = map_option (taken E r' (it # its)) (get_u64 ?ct S_QUANTITY (D r'))"
    if "tab r' = STOCK" for r'
  proof (cases "r' = r")
    case True
    with q' [rule_format, OF that] show ?thesis by (simp add: d(1) s' taken_def rid)
  next
    case False
    then have "taken E r' (it # its) = taken E r' its" by (simp add: taken_def rid fun_eq_iff)
    with q' [rule_format, OF that] False show ?thesis by simp
  qed
  ultimately show ?case using res(2,3) by (intro exI [of _ D'] exI [of _ "l # ls"]) simp
qed

lemma new_order_values:
  assumes env: "tpcc_env_ok E" and ok: "index_rows E tab" "rows_ok E tab D"
    and f: "index_row E i_warehouse (w_id q) (w_id q) = Some wh"
      "index_row E i_customer_id (custKey (en_cust_per_dist E) (c_id q) (d_id q) (w_id q)) (w_id q) = Some cust"
      "index_row E i_district (distKey (d_id q) (w_id q)) (w_id q) = Some dist" "lines_found E (q_items q)"
  shows "\<exists>n D' dd ord new ls d0 d1. get_u64 (en_schema E DISTRICT) D_NEXT_O_ID (D dist) = Some n \<and>
    new_order_result E q D =
      Some (RCOK, D'(dist := dd), (ORDER, ord) # (NEW_ORDER, new) # map (Pair ORDER_LINE) ls) \<and>
    rows_ok E tab D' \<and> cols_written (en_schema E DISTRICT) [D_NEXT_O_ID \<mapsto> n + 1] (D dist) dd \<and>
    cols_written (en_schema E ORDER) [0 \<mapsto> n + 1, 1 \<mapsto> c_id q, 2 \<mapsto> d_id q, 3 \<mapsto> w_id q, 4 \<mapsto> o_entry_d q,
      6 \<mapsto> of_nat (length (q_items q)), 7 \<mapsto> (if remote q then 0 else 1)] d0 ord \<and>
    cols_written (en_schema E NEW_ORDER) [0 \<mapsto> n + 1, 1 \<mapsto> d_id q, 2 \<mapsto> w_id q] d1 new \<and>
    length ls = length (q_items q) \<and> (\<forall>k < length ls. line_ok E q (n + 1) k (q_items q ! k) (ls ! k)) \<and>
    (\<forall>r. tab r \<noteq> STOCK \<longrightarrow> D' r = D r) \<and>
    (\<forall>r. tab r = STOCK \<longrightarrow> get_u64 (en_schema E STOCK) S_QUANTITY (D' r) =
       map_option (taken E r (q_items q)) (get_u64 (en_schema E STOCK) S_QUANTITY (D r)))"
proof -
  have row: "row_of (en_schema E WAREHOUSE) (D wh)" "row_of (en_schema E CUSTOMER) (D cust)"
    "row_of (en_schema E DISTRICT) (D dist)"
    using ok(2) index_row_table [OF ok(1) f(1)] index_row_table [OF ok(1) f(2)] index_row_table [OF ok(1) f(3)]
    unfolding rows_ok_def by (metis table_of_index.simps)+
  have w: "word_col (en_schema E WAREHOUSE) W_TAX" "word_col (en_schema E CUSTOMER) C_DISCOUNT"
    "word_col (en_schema E DISTRICT) D_NEXT_O_ID" by (simp_all add: env_word_col [OF env])
  note cat = env_schema [OF env]
  from get_some [OF cat row(1) w(1)] get_some [OF cat row(2) w(2)] get_some [OF cat row(3) w(3)] obtain tax disc n
    where v: "get_u64 (en_schema E WAREHOUSE) W_TAX (D wh) = Some tax"
      "get_u64 (en_schema E CUSTOMER) C_DISCOUNT (D cust) = Some disc"
      "get_u64 (en_schema E DISTRICT) D_NEXT_O_ID (D dist) = Some n" by (elim exE)
  have id: "take_order_id E (D dist) = Some (n + 1)" by (simp add: take_order_id_def v)
  from written_set [OF cat written_refl [OF row(3)] w(3), of "n + 1"] obtain dd
    where dd: "set_u64 (en_schema E DISTRICT) D_NEXT_O_ID (n + 1) (D dist) = Some dd"
      "cols_written (en_schema E DISTRICT) [D_NEXT_O_ID \<mapsto> n + 1] (D dist) dd" by (elim exE conjE)
  from order_row_written [OF env, of q "n + 1" 0] obtain d0 ord where ord: "order_row E q (n + 1) (en_mem E 0) = Some ord"
    "cols_written (en_schema E ORDER) [0 \<mapsto> n + 1, 1 \<mapsto> c_id q, 2 \<mapsto> d_id q, 3 \<mapsto> w_id q, 4 \<mapsto> o_entry_d q,
      6 \<mapsto> of_nat (length (q_items q)), 7 \<mapsto> (if remote q then 0 else 1)] d0 ord" by (elim exE conjE)
  from neworder_row_written [OF env, of q "n + 1" 1] obtain d1 new
    where new: "neworder_row E q (n + 1) (en_mem E 1) = Some new"
      "cols_written (en_schema E NEW_ORDER) [0 \<mapsto> n + 1, 1 \<mapsto> d_id q, 2 \<mapsto> w_id q] d1 new" by (elim exE conjE)
  from stocks_values [OF env ok f(4), of q "n + 1" 0 "[(ORDER, ord), (NEW_ORDER, new)]"] obtain D' ls
    where st: "stocks_result E q (n + 1) 0 (q_items q) D [(ORDER, ord), (NEW_ORDER, new)] =
        Some (D', [(ORDER, ord), (NEW_ORDER, new)] @ map (Pair ORDER_LINE) ls)"
      and more: "rows_ok E tab D'" "length ls = length (q_items q)"
        "\<forall>k < length (q_items q). line_ok E q (n + 1) (0 + k) (q_items q ! k) (ls ! k)"
        "\<forall>r. tab r \<noteq> STOCK \<longrightarrow> D' r = D r"
        "\<forall>r. tab r = STOCK \<longrightarrow> get_u64 (en_schema E STOCK) S_QUANTITY (D' r) =
          map_option (taken E r (q_items q)) (get_u64 (en_schema E STOCK) S_QUANTITY (D r))" by (elim exE conjE)
  have "new_order_result E q D =
      Some (RCOK, D'(dist := dd), (ORDER, ord) # (NEW_ORDER, new) # map (Pair ORDER_LINE) ls)"
    by (simp add: new_order_result_def f(1-3) v(1,2) id dd(1) items_found_total [OF env ok f(4)] ord(1)
        new(1) [simplified] st)
  then show ?thesis
    by (intro exI [of _ n] exI [of _ D'] exI [of _ dd] exI [of _ ord] exI [of _ new] exI [of _ ls]
        exI [of _ d0] exI [of _ d1] conjI v(3) dd(2) ord(2) new(2) more) (use more(2,3) in simp_all)
qed

section \<open>A small database\<close>

text \<open>One warehouse with one district, one customer of it, and two items with their stock.\<close>

definition ex_schema_of :: "tpcc_table \<Rightarrow> Catalog" where
  "ex_schema_of t = (case schema_of (tpcc_short_schema t) of Some ct \<Rightarrow> ct | None \<Rightarrow> catalog_init 0)"

definition ex_tab :: "rid \<Rightarrow> tpcc_table" where
  "ex_tab r = (if r = 0 then WAREHOUSE else if r = 1 then DISTRICT else if r = 2 then CUSTOMER
     else if r < 5 then ITEM else STOCK)"

definition ex_hash :: "(nat \<times> nat) list \<Rightarrow> IndexHash" where
  "ex_hash kvs = \<lparr>ih_part_cnt = 1, ih_bucket_cnt = 1, ih_bucket_cnt_per_part = 1,
     ih_buckets = (\<lambda>_ _. \<lparr>bk_nodes = map (\<lambda>(k, r). \<lparr>bn_key = k, bn_items = [r]\<rparr>) kvs, bk_node_cnt = length kvs,
       bk_locked = False\<rparr>)\<rparr>"

fun ex_index :: "tpcc_index \<Rightarrow> IndexHash" where
  "ex_index i_item = ex_hash [(7, 3), (8, 4)]"
| "ex_index i_warehouse = ex_hash [(1, 0)]"
| "ex_index i_district = ex_hash [(11, 1)]"
| "ex_index i_customer_id = ex_hash [(33005, 2)]"
| "ex_index i_customer_last = ex_hash [(2000, 2)]"
| "ex_index i_stock = ex_hash [(107, 5), (108, 6)]"

definition ex_env :: tpcc_env where
  "ex_env = \<lparr>en_index = ex_index, en_row = (\<lambda>i. i), en_schema = ex_schema_of, en_mem = (\<lambda>_. replicate 200 0),
     en_part_cnt = 1, en_num_wh = 1, en_cust_per_dist = 3000, en_max_items = 100, en_wh_update = True,
     en_add = (+), en_sub = (-), en_one = 1, en_stray = (\<lambda>_. [9, 9, 9, 9])\<rparr>"

definition ex_data :: "rid \<Rightarrow> rdata" where
  "ex_data r = replicate (ct_tuple_size (ex_schema_of (ex_tab r))) 0"

definition ex_query :: tpcc_query where
  "ex_query = \<lparr>w_id = 1, d_id = 1, c_id = 5, d_w_id = 1, c_w_id = 1, c_d_id = 1, c_last = '''', h_amount = 250,
     by_last_name = False,
     q_items = [\<lparr>ol_i_id = 7, ol_supply_w_id = 1, ol_quantity = 4\<rparr>, \<lparr>ol_i_id = 8, ol_supply_w_id = 1, ol_quantity = 2\<rparr>],
     remote = False, o_entry_d = 2013\<rparr>"

lemma ex_schemas: "schema_of (tpcc_short_schema t) = Some (ex_schema_of t)" "ct_tuple_size (ex_schema_of t) \<le> 200"
  by (cases t; simp add: ex_schema_of_def schema_of_def add_col_def catalog_init_def)+

lemma ex_env_ok: "tpcc_env_ok ex_env"
  by (simp add: tpcc_env_ok_def ex_env_def ex_schemas)

lemma ex_rows: "rows_ok ex_env ex_tab ex_data"
  by (simp add: rows_ok_def row_of_def ex_env_def ex_data_def)

lemma ex_hash_read: "index_read key part (ex_hash kvs) = (if part = 0 then map_option (\<lambda>r. [r]) (map_of kvs key) else None)"
proof -
  have "read_item key \<lparr>bk_nodes = map (\<lambda>(k, r). \<lparr>bn_key = k, bn_items = [r]\<rparr>) kvs, bk_node_cnt = n, bk_locked = l\<rparr> =
      map_option (\<lambda>r. [r]) (map_of kvs key)" for n l
    by (induction kvs) (auto simp: read_item_def)
  then show ?thesis by (simp add: index_read_def bucket_idx_def ex_hash_def)
qed

lemma ex_index_rows: "index_rows ex_env ex_tab"
  unfolding index_rows_def
proof (intro allI impI)
  fix ix key part items
  assume "index_read key part (en_index ex_env ix) = Some items"
  then show "\<forall>i \<in> set items. ex_tab (en_row ex_env i) = table_of_index ix"
    by (cases ix) (auto simp: ex_env_def ex_hash_read ex_tab_def split: if_splits)
qed

lemma ex_finds:
  "index_row ex_env i_warehouse (w_id ex_query) (w_id ex_query) = Some 0"
  "index_row ex_env i_district (distKey (d_id ex_query) (d_w_id ex_query)) (w_id ex_query) = Some 1"
  "index_row ex_env i_district (distKey (d_id ex_query) (w_id ex_query)) (w_id ex_query) = Some 1"
  "pay_find_customer ex_env ex_query = Some 2"
  "index_row ex_env i_customer_id (custKey (en_cust_per_dist ex_env) (c_id ex_query) (d_id ex_query) (w_id ex_query))
     (w_id ex_query) = Some 2"
  "lines_found ex_env (q_items ex_query)"
  by (simp_all add: index_row_def find_items_def find_item_row_def pay_find_customer_def lines_found_def ex_env_def
      ex_query_def wh_to_part_def ex_hash_read distKey_def custKey_def stockKey_def DIST_PER_WARE_def)

text \<open>Both transactions commit on it.\<close>

lemma commits:
  "effect out = Some (RCOK, D', ins) \<Longrightarrow> \<exists>s. out = Some (RCOK, s)"
  by (auto simp: effect_def)

lemma ex_payment: "\<exists>D' ins. payment_result ex_env ex_query ex_data = Some (RCOK, D', ins)"
  using payment_values [OF ex_env_ok ex_index_rows ex_rows ex_finds(1,2,4)] by blast

lemma ex_new_order: "\<exists>D' ins. new_order_result ex_env ex_query ex_data = Some (RCOK, D', ins)"
  using new_order_values [OF ex_env_ok ex_index_rows ex_rows ex_finds(1,5,3,6)] by blast

end
