(* ===== verification/Tpcc_Order.thy ===== *)
theory Tpcc_Order
  imports Tpcc_Schema
begin

text \<open>
  What QURO's order of the statements keeps and what it changes: the two orders of a transaction leave the
  same database, and they ask for the same rows, the rows that others wait for later.
\<close>

section \<open>The same effect\<close>

lemma effect_cases:
  assumes "outcome_ok D a b"
  shows "effect a \<in> {effect b, Some (Abort, D, [])}"
  using assms by (auto simp: outcome_ok_def effect_def)

text \<open>C15: a payment in the order of QURO does what the original payment does: whatever the answers of the
  concurrency control, either order leaves the effect of the payment or aborts and leaves nothing, and with all
  requests granted both leave the effect.\<close>

theorem payment_reorder_equivalent:
  assumes "index_rows E tab"
  shows "effect (run_payment E (\<lambda>_. True) q (txn_start D)) = payment_result E q D \<and>
    effect (reorder_payment E (\<lambda>_. True) q (txn_start D)) = payment_result E q D \<and>
    effect (run_payment E g q (txn_start D)) \<in> {payment_result E q D, Some (Abort, D, [])} \<and>
    effect (reorder_payment E g q (txn_start D)) \<in> {payment_result E q D, Some (Abort, D, [])}"
  using run_payment_result [OF assms] reorder_payment_result [OF assms]
    effect_cases [OF run_payment_atomic [of D E g q]] effect_cases [OF reorder_payment_atomic [of D E g q]]
  by simp

lemma payment_reorder_equivalent_witness:
  "payment_result ex_env ex_query ex_data \<noteq> None \<and>
   effect (run_payment ex_env (\<lambda>_. True) ex_query (txn_start ex_data)) =
     effect (reorder_payment ex_env (\<lambda>_. True) ex_query (txn_start ex_data)) \<and>
   effect (reorder_payment ex_env (\<lambda>n. n < 2) ex_query (txn_start ex_data)) \<in>
     {payment_result ex_env ex_query ex_data, Some (Abort, ex_data, [])}"
  using payment_reorder_equivalent [OF ex_index_rows, of ex_query ex_data "\<lambda>n. n < 2"] ex_payment by auto

text \<open>C5: a new order in the order of QURO does what the original new order does, for up to fifteen lines and
  whatever the answers of the concurrency control: the same number of the order, the same rows
  inserted, the same stock, or nothing at all.\<close>

theorem new_order_reorder_equivalent:
  assumes "index_rows E tab" and "length (q_items q) \<le> 15"
  shows "effect (run_new_order E (\<lambda>_. True) q (txn_start D)) = new_order_result E q D \<and>
    effect (reorder_new_order E (\<lambda>_. True) q (txn_start D)) = new_order_result E q D \<and>
    effect (run_new_order E g q (txn_start D)) \<in> {new_order_result E q D, Some (Abort, D, [])} \<and>
    effect (reorder_new_order E g q (txn_start D)) \<in> {new_order_result E q D, Some (Abort, D, [])}"
  using run_new_order_result [OF assms] reorder_new_order_result [OF assms]
    effect_cases [OF run_new_order_atomic [of D E g q]] effect_cases [OF reorder_new_order_atomic [of D E g q]]
  by simp

lemma new_order_reorder_equivalent_witness:
  "new_order_result ex_env ex_query ex_data \<noteq> None \<and>
   effect (run_new_order ex_env (\<lambda>_. True) ex_query (txn_start ex_data)) =
     effect (reorder_new_order ex_env (\<lambda>_. True) ex_query (txn_start ex_data)) \<and>
   effect (reorder_new_order ex_env (\<lambda>n. n < 5) ex_query (txn_start ex_data)) \<in>
     {new_order_result ex_env ex_query ex_data, Some (Abort, ex_data, [])}"
proof -
  have "length (q_items ex_query) \<le> 15" by (simp add: ex_query_def)
  from new_order_reorder_equivalent [OF ex_index_rows this, of ex_data "\<lambda>n. n < 5"] ex_new_order
  show ?thesis by auto
qed

section \<open>The order of the requests\<close>

lemma with_row_commit:
  "with_row g r type s k = Some (RCOK, s') \<longleftrightarrow>
     length (rn_acc s) < MAX_ROW_PER_TXN \<and> g (length (rn_acc s)) \<and> k (note_access r type s) = Some (RCOK, s')"
  by (auto simp: with_row_def finish_def)

lemma finish_commit: "finish RCOK s = Some (RCOK, s') \<longleftrightarrow> s' = s\<lparr>rn_acc := []\<rparr>"
  by (auto simp: finish_def)

lemma log_note [simp]: "rn_log (note_access r type s) = rn_log s @ [(r, type)]"
  by (simp add: note_access_def)

lemma log_kept:
  "update_row r f s = Some s' \<Longrightarrow> rn_log s' = rn_log s"
  "insert_row t d s = Some s' \<Longrightarrow> rn_log s' = rn_log s"
  "add_new_row E t F s = Some s' \<Longrightarrow> rn_log s' = rn_log s"
  "pay_set_ytd E q r y s = Some s' \<Longrightarrow> rn_log s' = rn_log s"
  "pay_history E q s = Some s' \<Longrightarrow> rn_log s' = rn_log s"
  by (auto simp: update_row_def insert_row_def add_new_row_def pay_set_ytd_def pay_history_def
      bind_eq_Some_conv split: if_splits)

lemmas commit_simps = with_row_commit bind_eq_Some_conv finish_commit

lemma item_price_commit:
  assumes "item_price E g it s k = Some (RCOK, s')"
  obtains s1 where "k s1 = Some (RCOK, s')" "rn_log s1 = rn_log s @ [(item_rid E it, RD)]"
  using assms by (fastforce simp: item_price_def commit_simps item_rid_def)

lemma stock_line_commit:
  assumes "stock_line E g q o_id n it s k = Some (RCOK, s')"
  obtains s1 where "k s1 = Some (RCOK, s')" "rn_log s1 = rn_log s @ [(stock_rid E it, WR)]"
proof -
  from assms obtain r s1 s2
    where r: "index_row E i_stock (stockKey (en_max_items E) (ol_i_id it) (ol_supply_w_id it)) (ol_supply_w_id it) = Some r"
      and s: "update_row r (stock_update E q it) (note_access r WR s) = Some s1"
        "add_new_row E ORDER_LINE (line_row E q o_id n it) s1 = Some s2" "k s2 = Some (RCOK, s')"
    by (auto simp: stock_line_def commit_simps)
  show ?thesis by (rule that [OF s(3)]) (simp add: log_kept(3) [OF s(2)] log_kept(1) [OF s(1)] stock_rid_def r)
qed

lemma item_prices_commit:
  assumes "item_prices E g its s k = Some (RCOK, s')"
  obtains s1 where "k s1 = Some (RCOK, s')" "rn_log s1 = rn_log s @ map (\<lambda>it. (item_rid E it, RD)) its"
  using assms
proof (induction its arbitrary: s thesis)
  case (Cons it its)
  from Cons.prems(2) show ?case unfolding item_prices.simps
  proof (rule item_price_commit)
    fix s1 assume s1: "item_prices E g its s1 k = Some (RCOK, s')" "rn_log s1 = rn_log s @ [(item_rid E it, RD)]"
    show ?case by (rule Cons.IH [OF _ s1(1)]) (use Cons.prems(1) s1(2) in simp)
  qed
qed simp

lemma stock_lines_commit:
  assumes "stock_lines E g q o_id n its s k = Some (RCOK, s')"
  obtains s1 where "k s1 = Some (RCOK, s')" "rn_log s1 = rn_log s @ map (\<lambda>it. (stock_rid E it, WR)) its"
  using assms
proof (induction its arbitrary: n s thesis)
  case (Cons it its)
  from Cons.prems(2) show ?case unfolding stock_lines.simps
  proof (rule stock_line_commit)
    fix s1 assume s1: "stock_lines E g q o_id (n + 1) its s1 k = Some (RCOK, s')"
      "rn_log s1 = rn_log s @ [(stock_rid E it, WR)]"
    show ?case by (rule Cons.IH [OF _ s1(1)]) (use Cons.prems(1) s1(2) in simp)
  qed
qed simp

lemma order_lines_commit:
  assumes "order_lines E g q o_id n its s k = Some (RCOK, s')"
  obtains s1 where "k s1 = Some (RCOK, s')"
    "rn_log s1 = rn_log s @ concat (map (\<lambda>it. [(item_rid E it, RD), (stock_rid E it, WR)]) its)"
  using assms
proof (induction its arbitrary: n s thesis)
  case (Cons it its)
  from Cons.prems(2) show ?case unfolding order_lines.simps
  proof (rule item_price_commit)
    fix s1 assume "stock_line E g q o_id n it s1 (\<lambda>s. order_lines E g q o_id (n + 1) its s k) = Some (RCOK, s')"
      and l1: "rn_log s1 = rn_log s @ [(item_rid E it, RD)]"
    then show ?case
    proof (elim stock_line_commit)
      fix s2 assume s2: "order_lines E g q o_id (n + 1) its s2 k = Some (RCOK, s')"
        "rn_log s2 = rn_log s1 @ [(stock_rid E it, WR)]"
      show ?case by (rule Cons.IH [OF _ s2(1)]) (use Cons.prems(1) l1 s2(2) in simp)
    qed
  qed
qed simp

text \<open>A committed payment in the order of QURO has asked for the rows of the original payment in reverse:
  the warehouse, the row that all payments of a warehouse write, comes last, so its lock is held for one
  request instead of three.\<close>

theorem payment_request_order:
  assumes "run_payment E g q (txn_start D) = Some (RCOK, s)"
    and "reorder_payment E g' q (txn_start D) = Some (RCOK, s')"
  shows "\<exists>wh dist cust. index_row E i_warehouse (w_id q) (w_id q) = Some wh \<and>
    rn_log s = [(wh, wh_access E), (dist, WR), (cust, WR)] \<and> rn_log s' = rev (rn_log s)"
proof -
  have start: "rn_log (txn_start D) = []" by (simp add: txn_start_def)
  from assms(1) obtain wh dist cust
    where f: "index_row E i_warehouse (w_id q) (w_id q) = Some wh"
      "index_row E i_district (distKey (d_id q) (d_w_id q)) (w_id q) = Some dist" "pay_find_customer E q = Some cust"
    and s: "rn_log s = [(wh, wh_access E), (dist, WR), (cust, WR)]"
    by (auto simp: run_payment_def commit_simps start dest!: log_kept)
  from assms(2) have "rn_log s' = [(cust, WR), (dist, WR), (wh, wh_access E)]"
    by (auto simp: reorder_payment_def commit_simps start f dest!: log_kept)
  with f(1) s show ?thesis by simp
qed

lemma payment_request_order_witness:
  "\<exists>s s' dist cust. run_payment ex_env (\<lambda>_. True) ex_query (txn_start ex_data) = Some (RCOK, s) \<and>
     reorder_payment ex_env (\<lambda>_. True) ex_query (txn_start ex_data) = Some (RCOK, s') \<and>
     rn_log s' = [(cust, WR), (dist, WR), (0, WR)] \<and> rn_log s' = rev (rn_log s)"
proof -
  obtain s s' where s: "run_payment ex_env (\<lambda>_. True) ex_query (txn_start ex_data) = Some (RCOK, s)"
    "reorder_payment ex_env (\<lambda>_. True) ex_query (txn_start ex_data) = Some (RCOK, s')"
    using run_payment_result [OF ex_index_rows] reorder_payment_result [OF ex_index_rows] ex_payment commits by metis
  have "wh_access ex_env = WR" by (simp add: wh_access_def ex_env_def)
  with payment_request_order [OF s] s ex_finds(1) show ?thesis by auto
qed

text \<open>C21: of a committed new order of \<open>n\<close> lines both orders have asked for the same rows; after the row
  of the district, which all new orders of a district write, the original asks for
  \<open>2 * n + 1\<close> more rows and the order of QURO for \<open>n + 1\<close>.\<close>

theorem new_order_request_order:
  assumes "run_new_order E g q (txn_start D) = Some (RCOK, s)"
    and "reorder_new_order E g' q (txn_start D) = Some (RCOK, s')"
  shows "\<exists>wh dist cust items stocks. length items = length (q_items q) \<and> length stocks = length (q_items q) \<and>
    index_row E i_district (distKey (d_id q) (w_id q)) (w_id q) = Some dist \<and>
    rn_log s = [(wh, RD)] @ (dist, WR) # (cust, RD) # concat (map2 (\<lambda>i st. [(i, RD), (st, WR)]) items stocks) \<and>
    rn_log s' = map (\<lambda>i. (i, RD)) items @ (cust, RD) # (dist, WR) # map (\<lambda>st. (st, WR)) stocks @ [(wh, RD)]"
proof -
  have start: "rn_log (txn_start D) = []" by (simp add: txn_start_def)
  from assms(1) obtain wh dist cust o_id s1
    where f: "index_row E i_warehouse (w_id q) (w_id q) = Some wh"
      "index_row E i_customer_id (custKey (en_cust_per_dist E) (c_id q) (d_id q) (w_id q)) (w_id q) = Some cust"
      "index_row E i_district (distKey (d_id q) (w_id q)) (w_id q) = Some dist"
    and l: "rn_log s1 = [(wh, RD), (dist, WR), (cust, RD)]"
    and k: "order_lines E g q o_id 0 (q_items q) s1 (finish RCOK) = Some (RCOK, s)"
    by (auto simp: run_new_order_def commit_simps start dest!: log_kept)
  from k have s: "rn_log s = [(wh, RD), (dist, WR), (cust, RD)] @
      concat (map (\<lambda>it. [(item_rid E it, RD), (stock_rid E it, WR)]) (q_items q))"
    by (rule order_lines_commit) (simp add: finish_commit l)
  from assms(2) have s': "rn_log s' = map (\<lambda>it. (item_rid E it, RD)) (q_items q) @
      (cust, RD) # (dist, WR) # map (\<lambda>it. (stock_rid E it, WR)) (q_items q) @ [(wh, RD)]"
    unfolding reorder_new_order_def
  proof (rule item_prices_commit, goal_cases)
    case (1 t)
    from 1(1) obtain o_id' t1 where t1: "rn_log t1 = rn_log t @ [(cust, RD), (dist, WR)]"
      and k: "stock_lines E g' q o_id' 0 (q_items q) t1 (\<lambda>s.
        do { s \<leftarrow> update_row dist (set_u64 (en_schema E DISTRICT) D_NEXT_O_ID o_id') s;
             with_row g' wh RD s (\<lambda>s. do { w_tax \<leftarrow> get_u64 (en_schema E WAREHOUSE) W_TAX (rn_data s wh);
             finish RCOK s }) }) = Some (RCOK, s')"
      by (auto simp: commit_simps f dest!: log_kept)
    from k show ?case
      by (rule stock_lines_commit) (auto simp: commit_simps t1 1(2) start dest!: log_kept)
  qed
  have "concat (map (\<lambda>it. [(item_rid E it, RD), (stock_rid E it, WR)]) its) =
      concat (map2 (\<lambda>i st. [(i, RD), (st, WR)]) (map (item_rid E) its) (map (stock_rid E) its))" for its
    by (induction its) simp_all
  then show ?thesis
    by (intro exI [of _ wh] exI [of _ dist] exI [of _ cust] exI [of _ "map (item_rid E) (q_items q)"]
        exI [of _ "map (stock_rid E) (q_items q)"]) (simp add: f s s' comp_def)
qed

lemma new_order_request_order_witness:
  "\<exists>s s' wh items stocks cust. run_new_order ex_env (\<lambda>_. True) ex_query (txn_start ex_data) = Some (RCOK, s) \<and>
     reorder_new_order ex_env (\<lambda>_. True) ex_query (txn_start ex_data) = Some (RCOK, s') \<and>
     rn_log s = [(wh, RD)] @ (1, WR) # (cust, RD) # concat (map2 (\<lambda>i st. [(i, RD), (st, WR)]) items stocks) \<and>
     rn_log s' = map (\<lambda>i. (i, RD)) items @ (cust, RD) # (1, WR) # map (\<lambda>st. (st, WR)) stocks @ [(wh, RD)] \<and>
     length items = 2 \<and> length stocks = 2"
proof -
  have l: "length (q_items ex_query) \<le> 15" and l2: "length (q_items ex_query) = 2" by (simp_all add: ex_query_def)
  obtain s s' where s: "run_new_order ex_env (\<lambda>_. True) ex_query (txn_start ex_data) = Some (RCOK, s)"
    "reorder_new_order ex_env (\<lambda>_. True) ex_query (txn_start ex_data) = Some (RCOK, s')"
    using run_new_order_result [OF ex_index_rows l] reorder_new_order_result [OF ex_index_rows l] ex_new_order commits
    by metis
  from new_order_request_order [OF s] obtain wh dist cust items stocks
    where r: "length items = length (q_items ex_query)" "length stocks = length (q_items ex_query)"
      "index_row ex_env i_district (distKey (d_id ex_query) (w_id ex_query)) (w_id ex_query) = Some dist"
      "rn_log s = [(wh, RD)] @ (dist, WR) # (cust, RD) # concat (map2 (\<lambda>i st. [(i, RD), (st, WR)]) items stocks)"
      "rn_log s' = map (\<lambda>i. (i, RD)) items @ (cust, RD) # (dist, WR) # map (\<lambda>st. (st, WR)) stocks @ [(wh, RD)]"
    by (elim exE conjE)
  have "dist = 1" using r(3) ex_finds(3) by simp
  with r s l2 show ?thesis
    by (intro exI [of _ s] exI [of _ s'] exI [of _ wh] exI [of _ items] exI [of _ stocks] exI [of _ cust]) simp
qed

end
