(* ===== verification/Tpcc_History.thy ===== *)
theory Tpcc_History
  imports Tpcc_Order
begin

text \<open>
  What the transactions of TPC-C do to the values of the columns, and what holds after any number of them, run
  one after the other as the schemes of concurrency control make them appear: the orders of a
  district are numbered without a gap, and the stock stays in its range.
\<close>

section \<open>The effect on the values\<close>

text \<open>A payment for which all requests are granted adds its amount to the year-to-date sums of the warehouse,
  the district and the customer, takes it from the customer's balance, counts the payment, changes
  no other row, and inserts one row of history with the keys and the amount; the order of
  QURO does the same.\<close>

theorem payment_moves_amount:
  assumes "tpcc_env_ok E" and "index_rows E tab" and "rows_ok E tab D"
    and "index_row E i_warehouse (w_id q) (w_id q) = Some wh"
    and "index_row E i_district (distKey (d_id q) (d_w_id q)) (w_id q) = Some dist" and "pay_find_customer E q = Some cust"
  shows "\<exists>a b c h y z bal p n.
    effect (run_payment E (\<lambda>_. True) q (txn_start D)) = Some (RCOK, D(wh := a, dist := b, cust := c), [(HISTORY, h)]) \<and>
    effect (reorder_payment E (\<lambda>_. True) q (txn_start D)) = Some (RCOK, D(wh := a, dist := b, cust := c), [(HISTORY, h)]) \<and>
    get_u64 (en_schema E WAREHOUSE) W_YTD (D wh) = Some y \<and>
    get_u64 (en_schema E WAREHOUSE) W_YTD a = Some (if en_wh_update E then en_add E y (h_amount q) else y) \<and>
    get_u64 (en_schema E DISTRICT) D_YTD (D dist) = Some z \<and>
    get_u64 (en_schema E DISTRICT) D_YTD b = Some (en_add E z (h_amount q)) \<and>
    get_u64 (en_schema E DISTRICT) D_NEXT_O_ID b = get_u64 (en_schema E DISTRICT) D_NEXT_O_ID (D dist) \<and>
    get_u64 (en_schema E CUSTOMER) C_BALANCE (D cust) = Some bal \<and>
    get_u64 (en_schema E CUSTOMER) C_BALANCE c = Some (en_sub E bal (h_amount q)) \<and>
    get_u64 (en_schema E CUSTOMER) C_YTD_PAYMENT (D cust) = Some p \<and>
    get_u64 (en_schema E CUSTOMER) C_YTD_PAYMENT c = Some (en_add E p (h_amount q)) \<and>
    get_u64 (en_schema E CUSTOMER) C_PAYMENT_CNT (D cust) = Some n \<and>
    get_u64 (en_schema E CUSTOMER) C_PAYMENT_CNT c = Some (en_add E n (en_one E)) \<and>
    map (\<lambda>k. get_u64 (en_schema E HISTORY) k h) [0, 1, 2, 3, 4, 5, 6] =
      map Some [c_id q, c_d_id q, c_w_id q, d_id q, w_id q, 2013, h_amount q]"
proof -
  note col = env_word_col [OF assms(1)]
  from payment_values [OF assms] obtain a b c h h0 y z bal p n
    where r: "payment_result E q D = Some (RCOK, D(wh := a, dist := b, cust := c), [(HISTORY, h)])"
      and v: "get_u64 (en_schema E WAREHOUSE) W_YTD (D wh) = Some y" "get_u64 (en_schema E DISTRICT) D_YTD (D dist) = Some z"
        "get_u64 (en_schema E CUSTOMER) C_BALANCE (D cust) = Some bal"
        "get_u64 (en_schema E CUSTOMER) C_YTD_PAYMENT (D cust) = Some p"
        "get_u64 (en_schema E CUSTOMER) C_PAYMENT_CNT (D cust) = Some n"
      and w: "cols_written (en_schema E WAREHOUSE) [W_YTD \<mapsto> if en_wh_update E then en_add E y (h_amount q) else y] (D wh) a"
        "cols_written (en_schema E DISTRICT) [D_YTD \<mapsto> en_add E z (h_amount q)] (D dist) b"
        "cols_written (en_schema E CUSTOMER) [C_BALANCE \<mapsto> en_sub E bal (h_amount q), C_YTD_PAYMENT \<mapsto> en_add E p (h_amount q),
          C_PAYMENT_CNT \<mapsto> en_add E n (en_one E)] (D cust) c"
        "cols_written (en_schema E HISTORY) [0 \<mapsto> c_id q, 1 \<mapsto> c_d_id q, 2 \<mapsto> c_w_id q, 3 \<mapsto> d_id q, 4 \<mapsto> w_id q,
          5 \<mapsto> 2013, 6 \<mapsto> h_amount q] h0 h" by (elim exE conjE)
  have "effect (run_payment E (\<lambda>_. True) q (txn_start D)) = Some (RCOK, D(wh := a, dist := b, cust := c), [(HISTORY, h)])"
    unfolding run_payment_result [OF assms(2)] by (rule r)
  moreover have "effect (reorder_payment E (\<lambda>_. True) q (txn_start D)) = Some (RCOK, D(wh := a, dist := b, cust := c), [(HISTORY, h)])"
    unfolding reorder_payment_result [OF assms(2)] by (rule r)
  moreover have "get_u64 (en_schema E WAREHOUSE) W_YTD a = Some (if en_wh_update E then en_add E y (h_amount q) else y)"
    by (subst written_get [OF w(1)]) (simp_all add: col)
  moreover have "get_u64 (en_schema E DISTRICT) D_YTD b = Some (en_add E z (h_amount q))"
    "get_u64 (en_schema E DISTRICT) D_NEXT_O_ID b = get_u64 (en_schema E DISTRICT) D_NEXT_O_ID (D dist)"
    by (subst written_get [OF w(2)]; simp add: col)+
  moreover have "get_u64 (en_schema E CUSTOMER) C_BALANCE c = Some (en_sub E bal (h_amount q))"
    "get_u64 (en_schema E CUSTOMER) C_YTD_PAYMENT c = Some (en_add E p (h_amount q))"
    "get_u64 (en_schema E CUSTOMER) C_PAYMENT_CNT c = Some (en_add E n (en_one E))"
    by (subst written_get [OF w(3)]; simp add: col)+
  moreover have "map (\<lambda>k. get_u64 (en_schema E HISTORY) k h) [0, 1, 2, 3, 4, 5, 6] =
      map Some [c_id q, c_d_id q, c_w_id q, d_id q, w_id q, 2013, h_amount q]"
    by (simp add: written_get [OF w(4)] col)
  ultimately show ?thesis using v by (intro exI conjI) assumption+
qed

lemma payment_moves_amount_witness:
  "\<exists>a b c h. effect (run_payment ex_env (\<lambda>_. True) ex_query (txn_start ex_data)) =
       Some (RCOK, ex_data(0 := a, 1 := b, 2 := c), [(HISTORY, h)]) \<and>
     get_u64 (en_schema ex_env WAREHOUSE) W_YTD a = Some 250 \<and> get_u64 (en_schema ex_env HISTORY) 6 h = Some 250"
proof -
  have zero: "get_u64 (en_schema ex_env WAREHOUSE) W_YTD (ex_data 0) = Some 0" by code_simp
  have e: "en_wh_update ex_env" "en_add ex_env 0 (h_amount ex_query) = 250" "h_amount ex_query = 250"
    by (simp_all add: ex_env_def ex_query_def)
  from payment_moves_amount [OF ex_env_ok ex_index_rows ex_rows ex_finds(1,2,4)] obtain a b c h y
    where r: "effect (run_payment ex_env (\<lambda>_. True) ex_query (txn_start ex_data)) =
        Some (RCOK, ex_data(0 := a, 1 := b, 2 := c), [(HISTORY, h)])"
      "get_u64 (en_schema ex_env WAREHOUSE) W_YTD (ex_data 0) = Some y"
      "get_u64 (en_schema ex_env WAREHOUSE) W_YTD a =
        Some (if en_wh_update ex_env then en_add ex_env y (h_amount ex_query) else y)"
      "map (\<lambda>k. get_u64 (en_schema ex_env HISTORY) k h) [0, 1, 2, 3, 4, 5, 6] =
        map Some [c_id ex_query, c_d_id ex_query, c_w_id ex_query, d_id ex_query, w_id ex_query, 2013, h_amount ex_query]"
    by (elim exE conjE)
  have "y = 0" using r(2) zero by simp
  then have "get_u64 (en_schema ex_env WAREHOUSE) W_YTD a = Some 250" using r(3) e(1,2) by simp
  moreover have "get_u64 (en_schema ex_env HISTORY) 6 h = Some 250" using r(4) e(3) by simp
  ultimately show ?thesis using r(1) by blast
qed

text \<open>A new order for which all requests are granted takes the next number of its district, writes it back, and
  inserts one row of the order, one row of new orders and one row per line, all with that number;
  no table but the district and the stock changes.\<close>

theorem new_order_takes_number:
  assumes "tpcc_env_ok E" and "index_rows E tab" and "rows_ok E tab D" and "length (q_items q) \<le> 15"
    and "index_row E i_warehouse (w_id q) (w_id q) = Some wh"
    and "index_row E i_customer_id (custKey (en_cust_per_dist E) (c_id q) (d_id q) (w_id q)) (w_id q) = Some cust"
    and "index_row E i_district (distKey (d_id q) (w_id q)) (w_id q) = Some dist" and "lines_found E (q_items q)"
  shows "\<exists>n D' ord new ls.
    effect (run_new_order E (\<lambda>_. True) q (txn_start D)) = Some (RCOK, D', (ORDER, ord) # (NEW_ORDER, new) # map (Pair ORDER_LINE) ls) \<and>
    effect (reorder_new_order E (\<lambda>_. True) q (txn_start D)) = effect (run_new_order E (\<lambda>_. True) q (txn_start D)) \<and>
    get_u64 (en_schema E DISTRICT) D_NEXT_O_ID (D dist) = Some n \<and>
    get_u64 (en_schema E DISTRICT) D_NEXT_O_ID (D' dist) = Some (n + 1) \<and>
    (\<forall>r. tab r \<noteq> STOCK \<and> r \<noteq> dist \<longrightarrow> D' r = D r) \<and>
    map (\<lambda>k. get_u64 (en_schema E ORDER) k ord) [0, 1, 2, 3, 4, 6, 7] =
      map Some [n + 1, c_id q, d_id q, w_id q, o_entry_d q, of_nat (length (q_items q)), if remote q then 0 else 1] \<and>
    map (\<lambda>k. get_u64 (en_schema E NEW_ORDER) k new) [0, 1, 2] = map Some [n + 1, d_id q, w_id q] \<and>
    length ls = length (q_items q) \<and>
    (\<forall>k < length ls. map (\<lambda>c. get_u64 (en_schema E ORDER_LINE) c (ls ! k)) [0, 1, 2, 4] =
        map Some [n + 1, d_id q, w_id q, ol_i_id (q_items q ! k)] \<and>
      (\<exists>x. get_u64 (en_schema E ORDER_LINE) 3 (ls ! k) = Some x \<and> unat x mod 2 ^ 32 = k))"
proof -
  note col = env_word_col [OF assms(1)]
  from new_order_values [OF assms(1-3,5-8)] obtain n D' dd ord new ls d0 d1
    where r: "new_order_result E q D = Some (RCOK, D'(dist := dd), (ORDER, ord) # (NEW_ORDER, new) # map (Pair ORDER_LINE) ls)"
      and n: "get_u64 (en_schema E DISTRICT) D_NEXT_O_ID (D dist) = Some n"
      and w: "cols_written (en_schema E DISTRICT) [D_NEXT_O_ID \<mapsto> n + 1] (D dist) dd"
        "cols_written (en_schema E ORDER) [0 \<mapsto> n + 1, 1 \<mapsto> c_id q, 2 \<mapsto> d_id q, 3 \<mapsto> w_id q, 4 \<mapsto> o_entry_d q,
          6 \<mapsto> of_nat (length (q_items q)), 7 \<mapsto> (if remote q then 0 else 1)] d0 ord"
        "cols_written (en_schema E NEW_ORDER) [0 \<mapsto> n + 1, 1 \<mapsto> d_id q, 2 \<mapsto> w_id q] d1 new"
      and ls: "length ls = length (q_items q)" "\<forall>k < length ls. line_ok E q (n + 1) k (q_items q ! k) (ls ! k)"
      and same: "\<forall>r. tab r \<noteq> STOCK \<longrightarrow> D' r = D r" by (elim exE conjE)
  have line: "map (\<lambda>c. get_u64 (en_schema E ORDER_LINE) c (ls ! k)) [0, 1, 2, 4] =
        map Some [n + 1, d_id q, w_id q, ol_i_id (q_items q ! k)] \<and>
      (\<exists>x. get_u64 (en_schema E ORDER_LINE) 3 (ls ! k) = Some x \<and> unat x mod 2 ^ 32 = k)" if "k < length ls" for k
  proof -
    from ls(2) that obtain l0 where l: "cols_written (en_schema E ORDER_LINE)
        [0 \<mapsto> n + 1, 1 \<mapsto> d_id q, 2 \<mapsto> w_id q, 3 \<mapsto> line_number E k, 4 \<mapsto> ol_i_id (q_items q ! k)] l0 (ls ! k)"
      by (auto simp: line_ok_def)
    have "k < 2 ^ 32" using that ls(1) assms(4) by simp
    then have "unat (line_number E k) mod 2 ^ 32 = k" unfolding line_number_def by (rule line_number_low)
    then show ?thesis by (simp add: written_get [OF l] col)
  qed
  have e: "effect (run_new_order E (\<lambda>_. True) q (txn_start D)) =
      Some (RCOK, D'(dist := dd), (ORDER, ord) # (NEW_ORDER, new) # map (Pair ORDER_LINE) ls)"
    unfolding run_new_order_result [OF assms(2,4)] by (rule r)
  moreover have "effect (reorder_new_order E (\<lambda>_. True) q (txn_start D)) = effect (run_new_order E (\<lambda>_. True) q (txn_start D))"
    unfolding e reorder_new_order_result [OF assms(2,4)] by (rule r)
  moreover have "get_u64 (en_schema E DISTRICT) D_NEXT_O_ID ((D'(dist := dd)) dist) = Some (n + 1)"
    by (simp add: written_get [OF w(1)] col)
  moreover have "\<forall>r. tab r \<noteq> STOCK \<and> r \<noteq> dist \<longrightarrow> (D'(dist := dd)) r = D r" using same by simp
  moreover have "map (\<lambda>k. get_u64 (en_schema E ORDER) k ord) [0, 1, 2, 3, 4, 6, 7] =
      map Some [n + 1, c_id q, d_id q, w_id q, o_entry_d q, of_nat (length (q_items q)), if remote q then 0 else 1]"
    by (simp add: written_get [OF w(2)] col)
  moreover have "map (\<lambda>k. get_u64 (en_schema E NEW_ORDER) k new) [0, 1, 2] = map Some [n + 1, d_id q, w_id q]"
    by (simp add: written_get [OF w(3)] col)
  moreover have "\<forall>k < length ls. map (\<lambda>c. get_u64 (en_schema E ORDER_LINE) c (ls ! k)) [0, 1, 2, 4] =
        map Some [n + 1, d_id q, w_id q, ol_i_id (q_items q ! k)] \<and>
      (\<exists>x. get_u64 (en_schema E ORDER_LINE) 3 (ls ! k) = Some x \<and> unat x mod 2 ^ 32 = k)" using line by blast
  ultimately show ?thesis using n ls(1) by (intro exI conjI) assumption+
qed

lemma new_order_takes_number_witness:
  "\<exists>D' ord new l l'. effect (run_new_order ex_env (\<lambda>_. True) ex_query (txn_start ex_data)) =
       Some (RCOK, D', [(ORDER, ord), (NEW_ORDER, new), (ORDER_LINE, l), (ORDER_LINE, l')]) \<and>
     get_u64 (en_schema ex_env DISTRICT) D_NEXT_O_ID (D' 1) = Some 1 \<and>
     get_u64 (en_schema ex_env ORDER) 0 ord = Some 1"
proof -
  have l: "length (q_items ex_query) \<le> 15" and l2: "length (q_items ex_query) = 2" by (simp_all add: ex_query_def)
  have zero: "get_u64 (en_schema ex_env DISTRICT) D_NEXT_O_ID (ex_data 1) = Some 0" by code_simp
  from new_order_takes_number [OF ex_env_ok ex_index_rows ex_rows l ex_finds(1,5,3,6)] obtain n D' ord new ls
    where r: "effect (run_new_order ex_env (\<lambda>_. True) ex_query (txn_start ex_data)) =
        Some (RCOK, D', (ORDER, ord) # (NEW_ORDER, new) # map (Pair ORDER_LINE) ls)"
      "get_u64 (en_schema ex_env DISTRICT) D_NEXT_O_ID (ex_data 1) = Some n"
      "get_u64 (en_schema ex_env DISTRICT) D_NEXT_O_ID (D' 1) = Some (n + 1)"
      "map (\<lambda>k. get_u64 (en_schema ex_env ORDER) k ord) [0, 1, 2, 3, 4, 6, 7] =
        map Some [n + 1, c_id ex_query, d_id ex_query, w_id ex_query, o_entry_d ex_query,
          of_nat (length (q_items ex_query)), if remote ex_query then 0 else 1]"
      "length ls = length (q_items ex_query)" by (elim exE conjE)
  obtain la lb where ls: "ls = [la, lb]" using r(5) l2 by (auto simp: numeral_2_eq_2 length_Suc_conv)
  have "n = 0" using r(2) zero by simp
  with r(1,3,4) show ?thesis by (intro exI [of _ D'] exI [of _ ord] exI [of _ new] exI [of _ la] exI [of _ lb]) (simp add: ls)
qed

section \<open>One transaction after the other\<close>

datatype TPCCTxnType =
  TPCC_ALL | TPCC_PAYMENT | TPCC_NEW_ORDER | TPCC_ORDER_STATUS | TPCC_DELIVERY | TPCC_STOCK_LEVEL

text \<open>\<open>run_txn\<close>; the other types of transactions are an assertion that fails.\<close>

fun run_txn :: "tpcc_env \<Rightarrow> grants \<Rightarrow> TPCCTxnType \<Rightarrow> tpcc_query \<Rightarrow> run \<Rightarrow> outcome" where
  "run_txn E g TPCC_PAYMENT q s = run_payment E g q s"
| "run_txn E g TPCC_NEW_ORDER q s = run_new_order E g q s"
| "run_txn E g _ q s = None"

fun reorder_txn :: "tpcc_env \<Rightarrow> grants \<Rightarrow> TPCCTxnType \<Rightarrow> tpcc_query \<Rightarrow> run \<Rightarrow> outcome" where
  "reorder_txn E g TPCC_PAYMENT q s = reorder_payment E g q s"
| "reorder_txn E g TPCC_NEW_ORDER q s = reorder_new_order E g q s"
| "reorder_txn E g _ q s = None"

text \<open>A history: every transaction with the answers it gets; what the committed ones inserted is kept.\<close>

type_synonym request = "grants \<times> TPCCTxnType \<times> tpcc_query"
type_synonym commit = "TPCCTxnType \<times> tpcc_query \<times> (tpcc_table \<times> rdata) list"

primrec serial ::
    "(grants \<Rightarrow> TPCCTxnType \<Rightarrow> tpcc_query \<Rightarrow> run \<Rightarrow> outcome) \<Rightarrow> request list \<Rightarrow> (rid \<Rightarrow> rdata) \<Rightarrow>
     ((rid \<Rightarrow> rdata) \<times> commit list) option" where
  "serial run [] D = Some (D, [])"
| "serial run (t # ts) D =
     (case t of (g, type, q) \<Rightarrow>
        do { (rc, D', ins) \<leftarrow> effect (run g type q (txn_start D));
             (D'', log) \<leftarrow> serial run ts D';
             Some (D'', if rc = RCOK then (type, q, ins) # log else log) })"

definition valid_txn :: "tpcc_env \<Rightarrow> TPCCTxnType \<Rightarrow> tpcc_query \<Rightarrow> bool" where
  "valid_txn E type q \<longleftrightarrow> index_row E i_warehouse (w_id q) (w_id q) \<noteq> None \<and>
     (case type of
        TPCC_PAYMENT \<Rightarrow> index_row E i_district (distKey (d_id q) (d_w_id q)) (w_id q) \<noteq> None \<and> pay_find_customer E q \<noteq> None
      | TPCC_NEW_ORDER \<Rightarrow>
          index_row E i_customer_id (custKey (en_cust_per_dist E) (c_id q) (d_id q) (w_id q)) (w_id q) \<noteq> None \<and>
          index_row E i_district (distKey (d_id q) (w_id q)) (w_id q) \<noteq> None \<and> lines_found E (q_items q) \<and>
          length (q_items q) \<le> 15 \<and> (\<forall>it \<in> set (q_items q). 1 \<le> ol_quantity it \<and> ol_quantity it \<le> 10)
      | _ \<Rightarrow> False)"

text \<open>The district of a new order and the number that the order has got.\<close>

definition order_of :: "tpcc_env \<Rightarrow> commit \<Rightarrow> (rid \<times> 64 word) option" where
  "order_of E c =
     (case c of (type, q, ins) \<Rightarrow>
        if type = TPCC_NEW_ORDER
        then do { r \<leftarrow> index_row E i_district (distKey (d_id q) (w_id q)) (w_id q);
                  n \<leftarrow> get_u64 (en_schema E ORDER) 0 (snd (hd ins)); Some (r, n) }
        else None)"

definition order_numbers :: "tpcc_env \<Rightarrow> rid \<Rightarrow> commit list \<Rightarrow> 64 word list" where
  "order_numbers E r log = map snd (filter (\<lambda>(r', n). r' = r) (List.map_filter (order_of E) log))"

definition stock_in_range :: "tpcc_env \<Rightarrow> (rid \<Rightarrow> tpcc_table) \<Rightarrow> (rid \<Rightarrow> rdata) \<Rightarrow> bool" where
  "stock_in_range E tab D \<longleftrightarrow> (\<forall>r. tab r = STOCK \<longrightarrow>
     (\<exists>s. get_u64 (en_schema E STOCK) S_QUANTITY (D r) = Some s \<and> 10 \<le> s \<and> s \<le> 101))"

lemma stock_left_range:
  assumes "10 \<le> s" "s \<le> 101" "1 \<le> n" "n \<le> 10"
  shows "10 \<le> stock_left s n \<and> stock_left s n \<le> 101"
proof -
  have u: "10 \<le> unat s" "unat s \<le> 101" "1 \<le> unat n" "unat n \<le> 10"
    using assms by (simp_all add: word_le_nat_alt)
  have sum: "unat (n + 10) = unat n + 10" using u by (simp add: unat_word_ariths)
  have diff: "unat (s - n) = unat s - unat n" using u by (intro unat_sub) (simp add: word_le_nat_alt)
  have diff': "unat (s - n + 91) = unat s - unat n + 91" using u diff by (simp add: unat_word_ariths)
  show ?thesis
  proof (cases "n + 10 < s")
    case True
    then have "unat n + 10 < unat s" using sum by (simp add: word_less_nat_alt)
    then have "10 \<le> unat s - unat n \<and> unat s - unat n \<le> 101" using u by linarith
    with True diff show ?thesis by (simp add: stock_left_def word_le_nat_alt)
  next
    case False
    then have "unat s \<le> unat n + 10" using sum by (simp add: word_less_nat_alt)
    then have "10 \<le> unat s - unat n + 91 \<and> unat s - unat n + 91 \<le> 101" using u by linarith
    with False show ?thesis by (simp only: stock_left_def word_le_nat_alt diff' if_False) simp
  qed
qed

lemma taken_range:
  "\<forall>it \<in> set its. 1 \<le> ol_quantity it \<and> ol_quantity it \<le> 10 \<Longrightarrow> 10 \<le> s \<Longrightarrow> s \<le> 101 \<Longrightarrow>
   10 \<le> taken E r its s \<and> taken E r its s \<le> 101"
proof (induction its arbitrary: s)
  case (Cons it its)
  then show ?case using stock_left_range [of s "ol_quantity it"] by (cases "stock_rid E it = r") (auto simp: taken_def)
qed (simp add: taken_def)

text \<open>What one committed transaction does to the numbers of the districts and the stock.\<close>

definition step_ok :: "tpcc_env \<Rightarrow> (rid \<Rightarrow> tpcc_table) \<Rightarrow> (rid \<Rightarrow> rdata) \<Rightarrow> (rid \<Rightarrow> rdata) \<Rightarrow> commit \<Rightarrow> bool" where
  "step_ok E tab D D' c \<longleftrightarrow> rows_ok E tab D' \<and> stock_in_range E tab D' \<and>
     (\<forall>r. tab r = DISTRICT \<longrightarrow> (\<exists>n. get_u64 (en_schema E DISTRICT) D_NEXT_O_ID (D r) = Some n \<and>
        (case order_of E c of
           Some (r', k) \<Rightarrow> (if r' = r then k = n + 1 else True) \<and>
             get_u64 (en_schema E DISTRICT) D_NEXT_O_ID (D' r) = Some (if r' = r then n + 1 else n)
         | None \<Rightarrow> get_u64 (en_schema E DISTRICT) D_NEXT_O_ID (D' r) = Some n)))"

lemma district_number:
  assumes "tpcc_env_ok E" "rows_ok E tab D" "tab r = DISTRICT"
  shows "\<exists>n. get_u64 (en_schema E DISTRICT) D_NEXT_O_ID (D r) = Some n"
proof -
  have "row_of (en_schema E DISTRICT) (D r)" using assms(2,3) unfolding rows_ok_def by metis
  then show ?thesis by (rule get_some [OF env_schema [OF assms(1)]]) (simp add: env_word_col [OF assms(1)])
qed

lemma payment_step:
  assumes env: "tpcc_env_ok E" and ok: "index_rows E tab" "rows_ok E tab D" "stock_in_range E tab D"
    and v: "valid_txn E TPCC_PAYMENT q"
  shows "\<exists>D' ins. payment_result E q D = Some (RCOK, D', ins) \<and> step_ok E tab D D' (TPCC_PAYMENT, q, ins)"
proof -
  from v obtain wh dist cust
    where f: "index_row E i_warehouse (w_id q) (w_id q) = Some wh"
      "index_row E i_district (distKey (d_id q) (d_w_id q)) (w_id q) = Some dist" "pay_find_customer E q = Some cust"
    by (auto simp: valid_txn_def)
  have tab: "tab wh = WAREHOUSE" "tab dist = DISTRICT" "tab cust = CUSTOMER"
    using index_row_table [OF ok(1) f(1)] index_row_table [OF ok(1) f(2)] pay_find_customer_table [OF ok(1) f(3)] by simp_all
  from payment_values [OF env ok(1,2) f] obtain a b c h m m' m''
    where r: "payment_result E q D = Some (RCOK, D(wh := a, dist := b, cust := c), [(HISTORY, h)])"
      and w: "cols_written (en_schema E WAREHOUSE) m (D wh) a" "cols_written (en_schema E CUSTOMER) m' (D cust) c"
        "cols_written (en_schema E DISTRICT) [D_YTD \<mapsto> m''] (D dist) b" by (elim exE conjE)
  let ?D = "D(wh := a, dist := b, cust := c)"
  have rows: "rows_ok E tab ?D"
    using ok(2) w tab unfolding rows_ok_def cols_written_def by auto
  have other: "?D r = D r" if "tab r \<notin> {WAREHOUSE, DISTRICT, CUSTOMER}" for r
    using that tab by auto
  have "stock_in_range E tab ?D"
    using ok(3) other unfolding stock_in_range_def by (metis empty_iff insert_iff tpcc_table.distinct)
  moreover have "get_u64 (en_schema E DISTRICT) D_NEXT_O_ID (?D r) = get_u64 (en_schema E DISTRICT) D_NEXT_O_ID (D r)"
    if "tab r = DISTRICT" for r
    using written_get [OF w(3), of D_NEXT_O_ID] env_word_col [OF env] that tab by (cases "r = dist") auto
  ultimately have "step_ok E tab D ?D (TPCC_PAYMENT, q, [(HISTORY, h)])"
    using rows district_number [OF env ok(2)] by (simp add: step_ok_def order_of_def)
  with r show ?thesis by blast
qed

lemma new_order_step:
  assumes env: "tpcc_env_ok E" and ok: "index_rows E tab" "rows_ok E tab D" "stock_in_range E tab D"
    and v: "valid_txn E TPCC_NEW_ORDER q"
  shows "\<exists>D' ins. new_order_result E q D = Some (RCOK, D', ins) \<and> step_ok E tab D D' (TPCC_NEW_ORDER, q, ins)"
proof -
  from v obtain wh cust dist
    where f: "index_row E i_warehouse (w_id q) (w_id q) = Some wh"
      "index_row E i_customer_id (custKey (en_cust_per_dist E) (c_id q) (d_id q) (w_id q)) (w_id q) = Some cust"
      "index_row E i_district (distKey (d_id q) (w_id q)) (w_id q) = Some dist" "lines_found E (q_items q)"
      and range: "\<forall>it \<in> set (q_items q). 1 \<le> ol_quantity it \<and> ol_quantity it \<le> 10"
    by (auto simp: valid_txn_def)
  have tab: "tab dist = DISTRICT" using index_row_table [OF ok(1) f(3)] by simp
  from new_order_values [OF env ok(1,2) f] obtain n D' dd ord new ls d0 m
    where n: "get_u64 (en_schema E DISTRICT) D_NEXT_O_ID (D dist) = Some n"
      and r: "new_order_result E q D = Some (RCOK, D'(dist := dd), (ORDER, ord) # (NEW_ORDER, new) # map (Pair ORDER_LINE) ls)"
      and rows: "rows_ok E tab D'" and w: "cols_written (en_schema E DISTRICT) [D_NEXT_O_ID \<mapsto> n + 1] (D dist) dd"
        "cols_written (en_schema E ORDER) (m(0 \<mapsto> n + 1, 1 \<mapsto> c_id q, 2 \<mapsto> d_id q, 3 \<mapsto> w_id q, 4 \<mapsto> o_entry_d q,
          6 \<mapsto> of_nat (length (q_items q)), 7 \<mapsto> (if remote q then 0 else 1))) d0 ord"
      and same: "\<forall>r. tab r \<noteq> STOCK \<longrightarrow> D' r = D r"
      and qu: "\<forall>r. tab r = STOCK \<longrightarrow> get_u64 (en_schema E STOCK) S_QUANTITY (D' r) =
        map_option (taken E r (q_items q)) (get_u64 (en_schema E STOCK) S_QUANTITY (D r))" by (elim exE conjE)
  let ?D = "D'(dist := dd)"
  have "rows_ok E tab ?D" by (rule rows_ok_write [OF rows]) (use w(1) tab in simp)
  moreover have "stock_in_range E tab ?D" unfolding stock_in_range_def
  proof (intro allI impI)
    fix r assume t: "tab r = STOCK"
    with ok(3) obtain s where s: "get_u64 (en_schema E STOCK) S_QUANTITY (D r) = Some s" "10 \<le> s" "s \<le> 101"
      unfolding stock_in_range_def by blast
    have "get_u64 (en_schema E STOCK) S_QUANTITY (?D r) = Some (taken E r (q_items q) s)"
      using qu t s(1) tab by auto
    with taken_range [OF range s(2,3)]
    show "\<exists>s. get_u64 (en_schema E STOCK) S_QUANTITY (?D r) = Some s \<and> 10 \<le> s \<and> s \<le> 101" by blast
  qed
  moreover have num: "get_u64 (en_schema E ORDER) 0 ord = Some (n + 1)"
    using written_get [OF w(2), of 0] env_word_col [OF env] by simp
  have o: "order_of E (TPCC_NEW_ORDER, q, (ORDER, ord) # (NEW_ORDER, new) # map (Pair ORDER_LINE) ls) = Some (dist, n + 1)"
    by (simp add: order_of_def f(3) num)
  have "\<exists>k. get_u64 (en_schema E DISTRICT) D_NEXT_O_ID (D r) = Some k \<and> (if dist = r then n + 1 = k + 1 else True) \<and>
      get_u64 (en_schema E DISTRICT) D_NEXT_O_ID (?D r) = Some (if dist = r then k + 1 else k)" if t: "tab r = DISTRICT" for r
  proof (cases "r = dist")
    case True
    then show ?thesis using n written_get [OF w(1), of D_NEXT_O_ID] env_word_col [OF env] by simp
  next
    case False
    with same t district_number [OF env ok(2) t] show ?thesis by auto
  qed
  ultimately have "step_ok E tab D ?D (TPCC_NEW_ORDER, q, (ORDER, ord) # (NEW_ORDER, new) # map (Pair ORDER_LINE) ls)"
    unfolding step_ok_def o by simp
  with r show ?thesis by blast
qed

definition runs_tpcc ::
    "tpcc_env \<Rightarrow> (grants \<Rightarrow> TPCCTxnType \<Rightarrow> tpcc_query \<Rightarrow> run \<Rightarrow> outcome) \<Rightarrow> bool" where
  "runs_tpcc E run \<longleftrightarrow> run = run_txn E \<or> run = reorder_txn E"

lemma txn_step:
  assumes env: "tpcc_env_ok E" and ok: "index_rows E tab" "rows_ok E tab D" "stock_in_range E tab D"
    and v: "valid_txn E type q" and run: "runs_tpcc E run"
  shows "effect (run g type q (txn_start D)) = Some (Abort, D, []) \<or>
    (\<exists>D' ins. effect (run g type q (txn_start D)) = Some (RCOK, D', ins) \<and> step_ok E tab D D' (type, q, ins))"
proof -
  have "type = TPCC_PAYMENT \<or> type = TPCC_NEW_ORDER" using v by (cases type) (simp_all add: valid_txn_def)
  then show ?thesis
  proof
    assume t: "type = TPCC_PAYMENT"
    from payment_step [OF env ok v [unfolded t]] obtain D' ins
      where r: "payment_result E q D = Some (RCOK, D', ins)" "step_ok E tab D D' (TPCC_PAYMENT, q, ins)" by (elim exE conjE)
    have "effect (run g type q (txn_start D)) \<in> {payment_result E q D, Some (Abort, D, [])}"
      using run run_payment_result [OF ok(1)] reorder_payment_result [OF ok(1)]
        effect_cases [OF run_payment_atomic [of D E g q]] effect_cases [OF reorder_payment_atomic [of D E g q]]
      by (auto simp: runs_tpcc_def t)
    with r t show ?thesis by auto
  next
    assume t: "type = TPCC_NEW_ORDER"
    from v t have l: "length (q_items q) \<le> 15" by (simp add: valid_txn_def)
    from new_order_step [OF env ok v [unfolded t]] obtain D' ins
      where r: "new_order_result E q D = Some (RCOK, D', ins)" "step_ok E tab D D' (TPCC_NEW_ORDER, q, ins)"
      by (elim exE conjE)
    have "effect (run g type q (txn_start D)) \<in> {new_order_result E q D, Some (Abort, D, [])}"
      using run run_new_order_result [OF ok(1) l] reorder_new_order_result [OF ok(1) l]
        effect_cases [OF run_new_order_atomic [of D E g q]] effect_cases [OF reorder_new_order_atomic [of D E g q]]
      by (auto simp: runs_tpcc_def t)
    with r t show ?thesis by auto
  qed
qed

text \<open>The numbers that a history hands out, from a start value.\<close>

definition numbered :: "64 word \<Rightarrow> 64 word list \<Rightarrow> bool" where
  "numbered n ks \<longleftrightarrow> ks = map (\<lambda>i. n + of_nat (Suc i)) [0..<length ks]"

lemma numbered_Nil: "numbered n []"
  by (simp add: numbered_def)

lemma numbered_Cons: "numbered (n + 1) ks \<Longrightarrow> numbered n ((n + 1) # ks)"
proof -
  assume "numbered (n + 1) ks"
  then have ks: "ks = map (\<lambda>i. n + 1 + of_nat (Suc i)) [0..<length ks]" by (simp add: numbered_def)
  have "map (\<lambda>i. n + of_nat (Suc i)) [0..<Suc (length ks)] = (n + 1) # map (\<lambda>i. n + of_nat (Suc (Suc i))) [0..<length ks]"
    by (simp add: upt_rec [of 0] map_Suc_upt [symmetric] comp_def del: upt_Suc map_Suc_upt)
  then show ?thesis using ks by (simp add: numbered_def algebra_simps del: upt_Suc)
qed

lemma serial_total:
  assumes env: "tpcc_env_ok E" and tab: "index_rows E tab" and run: "runs_tpcc E run"
  shows "rows_ok E tab D \<Longrightarrow> stock_in_range E tab D \<Longrightarrow> \<forall>(g, type, q) \<in> set ts. valid_txn E type q \<Longrightarrow>
    \<exists>D' log. serial run ts D = Some (D', log) \<and> rows_ok E tab D' \<and> stock_in_range E tab D' \<and>
      (\<forall>r. tab r = DISTRICT \<longrightarrow> (\<exists>n. get_u64 (en_schema E DISTRICT) D_NEXT_O_ID (D r) = Some n \<and>
         numbered n (order_numbers E r log) \<and>
         get_u64 (en_schema E DISTRICT) D_NEXT_O_ID (D' r) = Some (n + of_nat (length (order_numbers E r log)))))"
proof (induction ts arbitrary: D)
  case Nil
  then show ?case using district_number [OF env] by (fastforce simp: order_numbers_def numbered_Nil List.map_filter_simps)
next
  case (Cons t ts)
  obtain g type q where t: "t = (g, type, q)" by (rule prod_cases3)
  from Cons.prems(3) have v: "valid_txn E type q" and vs: "\<forall>(g, type, q) \<in> set ts. valid_txn E type q" by (auto simp: t)
  from txn_step [OF env tab Cons.prems(1,2) v run, of g] show ?case
  proof (elim disjE exE conjE)
    assume "effect (run g type q (txn_start D)) = Some (Abort, D, [])"
    with Cons.IH [OF Cons.prems(1,2) vs] show ?thesis by (auto simp: t)
  next
    fix D1 ins assume e: "effect (run g type q (txn_start D)) = Some (RCOK, D1, ins)"
      and s: "step_ok E tab D D1 (type, q, ins)"
    then have "rows_ok E tab D1" "stock_in_range E tab D1" by (simp_all add: step_ok_def)
    from Cons.IH [OF this vs] obtain D' log
      where r: "serial run ts D1 = Some (D', log)" "rows_ok E tab D'" "stock_in_range E tab D'"
        and num: "\<forall>r. tab r = DISTRICT \<longrightarrow> (\<exists>n. get_u64 (en_schema E DISTRICT) D_NEXT_O_ID (D1 r) = Some n \<and>
         numbered n (order_numbers E r log) \<and>
         get_u64 (en_schema E DISTRICT) D_NEXT_O_ID (D' r) = Some (n + of_nat (length (order_numbers E r log))))"
      by (elim exE conjE)
    let ?log = "(type, q, ins) # log"
    have "\<exists>n. get_u64 (en_schema E DISTRICT) D_NEXT_O_ID (D r) = Some n \<and> numbered n (order_numbers E r ?log) \<and>
        get_u64 (en_schema E DISTRICT) D_NEXT_O_ID (D' r) = Some (n + of_nat (length (order_numbers E r ?log)))"
      if d: "tab r = DISTRICT" for r
    proof -
      from num d obtain n1 where n1: "get_u64 (en_schema E DISTRICT) D_NEXT_O_ID (D1 r) = Some n1"
        "numbered n1 (order_numbers E r log)"
        "get_u64 (en_schema E DISTRICT) D_NEXT_O_ID (D' r) = Some (n1 + of_nat (length (order_numbers E r log)))" by blast
      from s d obtain n where n: "get_u64 (en_schema E DISTRICT) D_NEXT_O_ID (D r) = Some n"
        "case order_of E (type, q, ins) of
           Some (r', k) \<Rightarrow> (if r' = r then k = n + 1 else True) \<and>
             get_u64 (en_schema E DISTRICT) D_NEXT_O_ID (D1 r) = Some (if r' = r then n + 1 else n)
         | None \<Rightarrow> get_u64 (en_schema E DISTRICT) D_NEXT_O_ID (D1 r) = Some n"
        unfolding step_ok_def by blast
      show ?thesis
      proof (cases "\<exists>k. order_of E (type, q, ins) = Some (r, k)")
        case True
        with n(2) have o: "order_of E (type, q, ins) = Some (r, n + 1)"
          and "get_u64 (en_schema E DISTRICT) D_NEXT_O_ID (D1 r) = Some (n + 1)" by auto
        with n1(1) have "n1 = n + 1" by simp
        moreover have "order_numbers E r ?log = (n + 1) # order_numbers E r log"
          by (simp add: order_numbers_def List.map_filter_simps o)
        ultimately show ?thesis using n(1) n1(2,3) numbered_Cons [of n "order_numbers E r log"] by (simp add: algebra_simps)
      next
        case False
        with n(2) n1(1) have "n1 = n" by (auto split: option.splits prod.splits if_splits)
        moreover have "order_numbers E r ?log = order_numbers E r log"
          using False by (auto simp: order_numbers_def List.map_filter_simps split: option.split)
        ultimately show ?thesis using n(1) n1 by simp
      qed
    qed
    moreover have "serial run (t # ts) D = Some (D', ?log)" by (simp add: t e r(1))
    ultimately show ?thesis using r(2,3) by blast
  qed
qed

text \<open>C10: any history of valid payments and new orders, in the original order of statements or in
  QURO's and whatever the answers of the concurrency control, runs to its end; the committed new orders of
  every district are numbered one after the other from the number the district had, without a gap for
  those that aborted, and the district holds the last number.\<close>

theorem orders_numbered:
  assumes "tpcc_env_ok E" and "index_rows E tab" and "runs_tpcc E run"
    and "rows_ok E tab D" and "stock_in_range E tab D" and "\<forall>(g, type, q) \<in> set ts. valid_txn E type q"
    and "tab r = DISTRICT"
  shows "\<exists>D' log n. serial run ts D = Some (D', log) \<and>
    get_u64 (en_schema E DISTRICT) D_NEXT_O_ID (D r) = Some n \<and>
    order_numbers E r log = map (\<lambda>i. n + of_nat (Suc i)) [0..<length (order_numbers E r log)] \<and>
    get_u64 (en_schema E DISTRICT) D_NEXT_O_ID (D' r) = Some (n + of_nat (length (order_numbers E r log)))"
  using serial_total [OF assms(1-6)] assms(7) unfolding numbered_def by blast

text \<open>C27: as long as the lines of new orders ask for one to ten pieces, no history takes the stock of any item
  below 10 or above 101, although the quantity is an unsigned number that is decreased without a check.\<close>

theorem stock_stays_in_range:
  assumes "tpcc_env_ok E" and "index_rows E tab" and "runs_tpcc E run"
    and "rows_ok E tab D" and "stock_in_range E tab D" and "\<forall>(g, type, q) \<in> set ts. valid_txn E type q"
  shows "\<exists>D' log. serial run ts D = Some (D', log) \<and> rows_ok E tab D' \<and> stock_in_range E tab D'"
  using serial_total [OF assms] by blast

text \<open>A history on the small database: two new orders and a payment, one new order aborted.\<close>

definition ex_history :: "request list" where
  "ex_history = [(\<lambda>_. True, TPCC_NEW_ORDER, ex_query), (\<lambda>n. n < 3, TPCC_NEW_ORDER, ex_query),
     (\<lambda>_. True, TPCC_PAYMENT, ex_query), (\<lambda>_. True, TPCC_NEW_ORDER, ex_query)]"

lemma ex_history_valid: "\<forall>(g, type, q) \<in> set ex_history. valid_txn ex_env type q"
proof -
  have "\<forall>it \<in> set (q_items ex_query). 1 \<le> ol_quantity it \<and> ol_quantity it \<le> 10" "length (q_items ex_query) \<le> 15"
    by (simp_all add: ex_query_def)
  then show ?thesis using ex_finds by (simp add: ex_history_def valid_txn_def)
qed

text \<open>The same with a stock of 50 pieces each.\<close>

definition ex_stocked :: "rid \<Rightarrow> rdata" where
  "ex_stocked r = (if ex_tab r = STOCK then replicate 16 0 @ [50] @ replicate 15 0 else ex_data r)"

lemma ex_stocked_ok: "rows_ok ex_env ex_tab ex_stocked" "stock_in_range ex_env ex_tab ex_stocked"
proof -
  have "ct_tuple_size (ex_schema_of STOCK) = 32" by code_simp
  then show "rows_ok ex_env ex_tab ex_stocked"
    by (simp add: rows_ok_def row_of_def ex_env_def ex_stocked_def ex_data_def)
  have "get_u64 (en_schema ex_env STOCK) S_QUANTITY (replicate 16 0 @ [50] @ replicate 15 0) = Some 50" by code_simp
  then show "stock_in_range ex_env ex_tab ex_stocked" by (simp add: stock_in_range_def ex_stocked_def)
qed

lemma orders_numbered_witness:
  "\<exists>D' log n. serial (reorder_txn ex_env) ex_history ex_stocked = Some (D', log) \<and>
     order_numbers ex_env 1 log = map (\<lambda>i. n + of_nat (Suc i)) [0..<length (order_numbers ex_env 1 log)] \<and>
     get_u64 (en_schema ex_env DISTRICT) D_NEXT_O_ID (D' 1) = Some (n + of_nat (length (order_numbers ex_env 1 log)))"
proof -
  have "ex_tab 1 = DISTRICT" "runs_tpcc ex_env (reorder_txn ex_env)" by (simp_all add: ex_tab_def runs_tpcc_def)
  from orders_numbered [OF ex_env_ok ex_index_rows this(2) ex_stocked_ok ex_history_valid this(1)] show ?thesis by blast
qed

lemma stock_stays_in_range_witness:
  "\<exists>D' log. serial (run_txn ex_env) ex_history ex_stocked = Some (D', log) \<and> stock_in_range ex_env ex_tab D'"
proof -
  have "runs_tpcc ex_env (run_txn ex_env)" by (simp add: runs_tpcc_def)
  from stock_stays_in_range [OF ex_env_ok ex_index_rows this ex_stocked_ok ex_history_valid] show ?thesis by blast
qed

end
