(* ===== verification/Lock_Order.thy ===== *)
theory Lock_Order
  imports Lock_System
begin

text \<open>
  Requests in key order.  With \<open>KEY_ORDER\<close> a query sorts its requests (\<open>ycsb_query.cpp\<close>) and
  \<open>config.h\<close> sets \<open>NO_DL\<close>, so \<open>row_t::get_row\<close> waits without looking for deadlocks.  Here rows are named by their
  keys, every transaction asks for rows above those it holds, and nothing else is known of the scheme or the timestamps.
\<close>

section \<open>Steps\<close>

inductive ordered_step :: "cc_alg \<Rightarrow> nat \<Rightarrow> tid set \<Rightarrow> lock_sys \<Rightarrow> lock_sys \<Rightarrow> bool"
  for alg :: cc_alg and n :: nat and Ts :: "tid set" where
  ordered_get:
    "txn \<in> Ts \<Longrightarrow> type \<noteq> LOCK_NONE \<Longrightarrow> \<forall>r'. txn \<in> holding (L r') \<longrightarrow> r' < r \<Longrightarrow> \<forall>r'. txn \<notin> waiting_at (L r') \<Longrightarrow>
     lock_get alg n type txn (L r, T) = Some (rc, ids, rl, T') \<Longrightarrow> ordered_step alg n Ts (L, T) (L(r := rl), T')"
| ordered_release:
    "txn \<in> holding (L r) \<union> waiting_at (L r) \<Longrightarrow>
     lock_release txn (L r, T) = Some (rc, rl, T') \<Longrightarrow> ordered_step alg n Ts (L, T) (L(r := rl), T')"

abbreviation ordered_reach :: "cc_alg \<Rightarrow> nat \<Rightarrow> tid set \<Rightarrow> txns \<Rightarrow> lock_sys \<Rightarrow> bool" where
  "ordered_reach alg n Ts T0 s \<equiv> (ordered_step alg n Ts)\<^sup>*\<^sup>* (lock_start T0) s"

lemma ordered_lock_step: "ordered_step alg n Ts s s' \<Longrightarrow> lock_step alg n Ts s s'"
proof (induction rule: ordered_step.induct)
  case (ordered_get txn type L r T rc ids rl T')
  then have "txn \<notin> holding (L r)" by blast
  with ordered_get show ?case by (intro lock_step_get)
qed (rule lock_step_release)

lemma ordered_lock_reach: "ordered_reach alg n Ts T0 s \<Longrightarrow> lock_reach alg n Ts T0 s"
  by (induction rule: rtranclp_induct) (auto dest: ordered_lock_step intro: rtranclp.rtrancl_into_rtrancl)

section \<open>Everyone waits above what it holds\<close>

definition ascending :: "lock_sys \<Rightarrow> bool" where
  "ascending s \<longleftrightarrow> (\<forall>t r r'. t \<in> holding (fst s r) \<longrightarrow> t \<in> waiting_at (fst s r') \<longrightarrow> r < r')"

lemma ascendingD: "ascending s \<Longrightarrow> t \<in> holding (fst s r) \<Longrightarrow> t \<in> waiting_at (fst s r') \<Longrightarrow> r < r'"
  by (simp add: ascending_def)

lemma apart: "lock_ok alg T rl \<Longrightarrow> holding rl \<inter> waiting_at rl = {}"
  by (auto simp: lock_ok_def lock_pre_def holding_def waiting_at_def)

lemma ascending_step: "ordered_step alg n Ts s s' \<Longrightarrow> sys_inv alg Ts ts s \<Longrightarrow> ascending s \<Longrightarrow> ascending s'"
proof (induction rule: ordered_step.induct)
  case (ordered_get txn type L r T rc ids rl T')
  have ok: "lock_ok alg T (L r)" using ordered_get.prems(1) by (simp add: sys_inv_def)
  have new: "txn \<notin> holding (L r) \<union> waiting_at (L r)" using ordered_get.hyps(3,4) by blast
  have "owner_cnt (L r) \<le> n \<and> waiter_cnt (L r) < n" by (rule lock_get_counts [OF ordered_get.hyps(5)])
  with lock_get_ok [OF ok ordered_get.hyps(2) new, of n] ordered_get.hyps(5)
  have res: "holding rl = insert txn (holding (L r)) \<and> waiting_at rl = waiting_at (L r) \<or>
      holding rl = holding (L r) \<and> waiting_at rl = insert txn (waiting_at (L r)) \<or> rl = L r" by auto
  have old: "x < y" if "t \<in> holding (L x)" "t \<in> waiting_at (L y)" for t x y
    using ordered_get.prems(2) that by (auto simp: ascending_def)
  have "x < y" if h: "t \<in> holding ((L(r := rl)) x)" and w: "t \<in> waiting_at ((L(r := rl)) y)" for t x y
  proof (cases "t = txn")
    case True
    from w True ordered_get.hyps(4) res have y: "y = r" "holding rl = holding (L r)"
      by (auto split: if_splits)
    with h True ordered_get.hyps(3) show ?thesis by (auto split: if_splits)
  next
    case False
    with h w res have "t \<in> holding (L x)" "t \<in> waiting_at (L y)" by (auto split: if_splits)
    then show ?thesis by (rule old)
  qed
  then show ?case by (auto simp: ascending_def)
next
  case (ordered_release txn L r T rc rl T')
  have ok: "lock_ok alg T (L r)" and one: "\<forall>r1 r2 t. t \<in> waiting_at (L r1) \<and> t \<in> waiting_at (L r2) \<longrightarrow> r1 = r2"
    using ordered_release.prems(1) by (auto simp: sys_inv_def)
  from lock_release_ok [OF ok ordered_release.hyps(1)] ordered_release.hyps(2)
  have res: "lock_ok alg T' rl" "holding rl \<union> waiting_at rl = holding (L r) \<union> waiting_at (L r) - {txn}"
    "waiting_at rl \<subseteq> waiting_at (L r)" by auto
  have old: "x < y" if "t \<in> holding (L x)" "t \<in> waiting_at (L y)" for t x y
    using ordered_release.prems(2) that by (auto simp: ascending_def)
  have "x < y" if h: "t \<in> holding ((L(r := rl)) x)" and w: "t \<in> waiting_at ((L(r := rl)) y)" for t x y
  proof -
    have wy: "t \<in> waiting_at (L y)" using w res(3) by (auto split: if_splits)
    have "t \<in> holding (L x)"
    proof (cases "x = r")
      case True
      with h have hr: "t \<in> holding rl" by simp
      with apart [OF res(1)] w True have "y \<noteq> r" by (auto split: if_splits)
      with one wy have "t \<notin> waiting_at (L r)" by blast
      with hr res(2) True show ?thesis by blast
    qed (use h in simp)
    with wy show ?thesis by (rule old [rotated])
  qed
  then show ?case by (auto simp: ascending_def)
qed

lemma ascending_reach: "ordered_reach alg n Ts T0 s \<Longrightarrow> ascending s"
proof (induction rule: rtranclp_induct)
  case base
  show ?case by (simp add: ascending_def lock_start_def lock_init_def holding_def)
next
  case (step s s')
  from ascending_step [OF step.hyps(2) sys_inv_reach [OF ordered_lock_reach [OF step.hyps(1)]] step.IH] show ?case .
qed

section \<open>The order of the waiting transactions\<close>

definition row_awaited :: "lock_sys \<Rightarrow> tid \<Rightarrow> rid" where
  "row_awaited s t = (THE r. t \<in> waiting_at (fst s r))"

definition queue_pos :: "lock_sys \<Rightarrow> tid \<Rightarrow> nat" where
  "queue_pos s t = length (takeWhile (\<lambda>e. le_txn e \<noteq> t) (waiters (fst s (row_awaited s t))))"

text \<open>Higher rows rank higher, at one row the front of the queue; above all who do not wait.\<close>

definition wait_rank :: "tid set \<Rightarrow> lock_sys \<Rightarrow> tid \<Rightarrow> nat" where
  "wait_rank Ts s t =
     (if t \<in> sys_waiting s then row_awaited s t * (card Ts + 1) + (card Ts - queue_pos s t)
      else (Max (insert 0 (row_awaited s ` sys_waiting s)) + 1) * (card Ts + 1))"

lemma row_awaited_eq:
  assumes "sys_inv alg Ts ts s" "t \<in> waiting_at (fst s r)"
  shows "row_awaited s t = r"
  unfolding row_awaited_def
proof (rule the_equality)
  have one: "\<forall>r r' t. t \<in> waiting_at (fst s r) \<and> t \<in> waiting_at (fst s r') \<longrightarrow> r = r'"
    using assms(1) by (simp add: sys_inv_def)
  show "r' = r" if "t \<in> waiting_at (fst s r')" for r' using one assms(2) that by blast
qed (rule assms(2))

lemma queue_pos_nth:
  assumes "sys_inv alg Ts ts s" "i < length (waiters (fst s r))" "t = le_txn (waiters (fst s r) ! i)"
  shows "queue_pos s t = i"
proof -
  let ?ws = "waiters (fst s r)"
  have "t \<in> waiting_at (fst s r)" using assms(2,3) by (auto simp: waiting_at_def)
  then have r: "row_awaited s t = r" by (rule row_awaited_eq [OF assms(1)])
  have d: "distinct (map le_txn ?ws)" using assms(1) by (auto simp: sys_inv_def lock_ok_def lock_pre_def)
  have ne: "le_txn (?ws ! j) \<noteq> t" if "j < i" for j
    using d that assms(2,3) nth_eq_iff_index_eq [of "map le_txn ?ws" j i] by auto
  have "takeWhile (\<lambda>e. le_txn e \<noteq> t) ?ws = take i ?ws"
    by (rule takeWhile_eq_take_P_nth) (use ne assms(2,3) in auto)
  with assms(2) show ?thesis by (simp add: queue_pos_def r)
qed

lemma queue_length:
  assumes "sys_inv alg Ts ts s" "finite Ts"
  shows "length (waiters (fst s r)) \<le> card Ts"
proof -
  have "distinct (map le_txn (waiters (fst s r)))" "set (map le_txn (waiters (fst s r))) \<subseteq> Ts"
    using assms(1) by (auto simp: sys_inv_def lock_ok_def lock_pre_def waiting_at_def)
  then show ?thesis using assms(2) by (metis card_mono distinct_card length_map)
qed

lemma sys_waiting_finite: "sys_inv alg Ts ts s \<Longrightarrow> finite Ts \<Longrightarrow> finite (sys_waiting s)"
  by (rule finite_subset [of _ Ts]) (auto simp: sys_waiting_def sys_inv_def)

lemma ordered_edge:
  assumes inv: "sys_inv alg Ts ts s" and fin: "finite Ts" and asc: "ascending s" and e: "(t, u) \<in> waits_on s"
  shows "wait_rank Ts s t < wait_rank Ts s u"
proof -
  let ?N = "card Ts"
  from e obtain r where r: "t \<in> waiting_at (fst s r) \<and> u \<in> holding (fst s r) \<or> (t, u) \<in> ahead (waiters (fst s r))"
    by (auto simp: waits_on_def)
  from r have tw: "t \<in> waiting_at (fst s r)" by (auto simp: ahead_def waiting_at_def)
  then have t: "t \<in> sys_waiting s" "row_awaited s t = r"
    using row_awaited_eq [OF inv] by (auto simp: sys_waiting_def)
  then have rt: "wait_rank Ts s t = r * (?N + 1) + (?N - queue_pos s t)" by (simp add: wait_rank_def)
  also have "\<dots> < (r + 1) * (?N + 1)" by simp
  finally have up: "wait_rank Ts s t < (r + 1) * (?N + 1)" .
  have step: ?thesis if "(r + 1) * (?N + 1) \<le> wait_rank Ts s u" using up that by (rule less_le_trans)
  from r show ?thesis
  proof
    assume hold: "t \<in> waiting_at (fst s r) \<and> u \<in> holding (fst s r)"
    show ?thesis
    proof (cases "u \<in> sys_waiting s")
      case True
      then obtain r' where r': "u \<in> waiting_at (fst s r')" by (auto simp: sys_waiting_def)
      with asc hold have "r + 1 \<le> r'" by (auto dest: ascendingD)
      then have "(r + 1) * (?N + 1) \<le> r' * (?N + 1)" by (rule mult_le_mono1)
      also have "\<dots> \<le> wait_rank Ts s u" using True row_awaited_eq [OF inv r'] by (simp add: wait_rank_def)
      finally show ?thesis by (rule step)
    next
      case False
      have "finite (insert 0 (row_awaited s ` sys_waiting s))" using sys_waiting_finite [OF inv fin] by simp
      moreover have "r \<in> insert 0 (row_awaited s ` sys_waiting s)" using t by blast
      ultimately have "r \<le> Max (insert 0 (row_awaited s ` sys_waiting s))" by (rule Max_ge)
      then have "(r + 1) * (?N + 1) \<le> (Max (insert 0 (row_awaited s ` sys_waiting s)) + 1) * (?N + 1)"
        by (intro mult_le_mono1) simp
      with False show ?thesis by (intro step) (simp add: wait_rank_def)
    qed
  next
    assume "(t, u) \<in> ahead (waiters (fst s r))"
    then obtain i j where ij: "i < j" "j < length (waiters (fst s r))" "u = le_txn (waiters (fst s r) ! i)"
      "t = le_txn (waiters (fst s r) ! j)" by (auto simp: ahead_def)
    then have uw: "u \<in> waiting_at (fst s r)" by (auto simp: waiting_at_def)
    then have "u \<in> sys_waiting s" "row_awaited s u = r" using row_awaited_eq [OF inv] by (auto simp: sys_waiting_def)
    moreover have "queue_pos s u = i" by (rule queue_pos_nth [OF inv _ ij(3)]) (use ij(1,2) in simp)
    moreover have "queue_pos s t = j" by (rule queue_pos_nth [OF inv ij(2,4)])
    moreover have "j < ?N" using ij(2) queue_length [OF inv fin, of r] by simp
    ultimately show ?thesis using ij(1) t by (simp add: wait_rank_def diff_less_mono2)
  qed
qed

interpretation ko: wait_order
  "\<lambda>(Ts, ts, s). finite Ts \<and> sys_inv alg Ts ts s \<and> ascending s"
  "\<lambda>(Ts, ts, s) t. int (wait_rank Ts s t)" "\<lambda>(Ts, ts, s). sys_waiting s" "\<lambda>(Ts, ts, s). waits_on s" for alg
  by unfold_locales (auto simp: sys_waiting_finite dest: ordered_edge waiting_edge)

section \<open>Properties\<close>

text \<open>C17: transactions that ask for their rows in ascending order of the keys never wait for each other in a circle, under any of
  the locking schemes and whatever their timestamps, and every chain of waiting transactions ends at one that does not wait; so
  \<open>NO_DL\<close> may follow \<open>KEY_ORDER\<close>.\<close>

theorem key_order_no_deadlock:
  assumes "ordered_reach alg n Ts T0 s" and "finite Ts"
  shows "acyclic (waits_on s) \<and> (\<forall>t \<in> sys_waiting s. \<exists>u. (t, u) \<in> (waits_on s)\<^sup>+ \<and> u \<notin> sys_waiting s)"
proof -
  have inv: "(\<lambda>(Ts, ts, s). finite Ts \<and> sys_inv alg Ts ts s \<and> ascending s) (Ts, ts_of T0, s)"
    using assms sys_inv_reach [OF ordered_lock_reach [OF assms(1)]] ascending_reach [OF assms(1)] by simp
  from ko.no_cycle [OF inv] ko.chain_ends [OF inv] show ?thesis by simp
qed

text \<open>Transactions 1 and 2 with equal timestamps, in ascending order of the rows: 2 waits for 1, which runs.\<close>

lemma ordered_example:
  "ordered_reach WAIT_DIE 2 {1, 2} zero_txns ((\<lambda>_. lock_init)(0 := ex_lock_of 1 [2]), set_lock_ready 2 False zero_txns)"
proof -
  let ?s1 = "((\<lambda>_. lock_init)(0 := ex_lock_of 1 []), zero_txns)"
  have none: "holding lock_init = {}" "waiting_at lock_init = {}"
    by (simp_all add: holding_def waiting_at_def lock_init_def)
  have "ordered_step WAIT_DIE 2 {1, 2} (lock_start zero_txns) ?s1"
    unfolding lock_start_def by (rule ordered_get [of 1 _ LOCK_EX]) (simp_all add: none ex_own del: One_nat_def)
  moreover have "ordered_step WAIT_DIE 2 {1, 2} ?s1
      (((\<lambda>_. lock_init)(0 := ex_lock_of 1 []))(0 := ex_lock_of 1 [2]), set_lock_ready 2 False zero_txns)"
    by (rule ordered_get [of 2 _ LOCK_EX]) (simp_all add: none ex_queue del: One_nat_def)
  ultimately show ?thesis by (simp add: converse_rtranclp_into_rtranclp)
qed

lemma key_order_no_deadlock_witness:
  "let s = ((\<lambda>_. lock_init)(0 := ex_lock_of 1 [2]), set_lock_ready 2 False zero_txns) in
   acyclic (waits_on s) \<and> (\<exists>u. (2, u) \<in> (waits_on s)\<^sup>+ \<and> u \<notin> sys_waiting s)"
proof -
  let ?s = "((\<lambda>_. lock_init)(0 := ex_lock_of 1 [2]), set_lock_ready 2 False zero_txns)"
  have "2 \<in> waiting_at (fst ?s 0)" by simp
  then have "2 \<in> sys_waiting ?s" unfolding sys_waiting_def by blast
  then show ?thesis unfolding Let_def using key_order_no_deadlock [OF ordered_example] by blast
qed

end
