(* ===== verification/Ycsb.thy ===== *)
theory Ycsb
  imports Txn_Script Lock_Order Index_Hash "HOL-Library.Multiset" Complex_Main
begin

text \<open>
  The YCSB benchmark of DBx1000: the requests of a query (\<open>ycsb_query.cpp\<close>), the table
  (\<open>ycsb_wl.cpp\<close>) and the transaction (\<open>ycsb_txn.cpp\<close>).  Random numbers are arguments, and so are the results of
  \<open>zipf\<close>, which computes with \<open>double\<close>; the percentages are real numbers.  A crash is \<open>None\<close>.
\<close>

section \<open>The requests of a query\<close>

record ycsb_request =
  rq_type :: access_t
  rq_key :: nat
  rq_value :: nat
  rq_scan_len :: nat

record ycsb_config =
  g_synth_table_size :: nat
  g_part_cnt :: nat
  g_virtual_part_cnt :: nat
  g_req_per_query :: nat
  g_part_per_txn :: nat
  FIRST_PART_LOCAL :: bool
  g_read_perc :: real
  g_write_perc :: real
  g_key_order :: bool

definition SCAN_LEN :: nat where "SCAN_LEN = 20"

text \<open>One random choice for every round of the loop.\<close>

record draw =
  dr_r :: real
  dr_row :: nat    \<comment> \<open>what \<open>zipf\<close> returns\<close>
  dr_value :: nat

text \<open>\<open>part_to_access\<close>: a partition that is there already is overwritten by the next one.\<close>

definition add_part :: "nat \<Rightarrow> nat list \<Rightarrow> nat list" where
  "add_part p parts = (if p \<in> set parts then parts else parts @ [p])"

definition gen_parts :: "ycsb_config \<Rightarrow> bool \<Rightarrow> nat \<Rightarrow> (nat \<Rightarrow> nat) \<Rightarrow> nat list" where
  "gen_parts cfg multi thd_id rnd =
     (if multi
      then fold (\<lambda>i. add_part ((if i = 0 \<and> FIRST_PART_LOCAL cfg then thd_id else rnd i) mod g_virtual_part_cnt cfg))
             [0..<g_part_per_txn cfg] []
      else [(if FIRST_PART_LOCAL cfg then thd_id else rnd 0) mod g_part_cnt cfg])"

definition request_type :: "ycsb_config \<Rightarrow> real \<Rightarrow> access_t" where
  "request_type cfg r =
     (if r < g_read_perc cfg then RD
      else if g_read_perc cfg \<le> r \<and> r \<le> g_write_perc cfg + g_read_perc cfg then WR
      else SCAN)"

text \<open>The requests so far, \<open>all_keys\<close>, and \<open>access_cnt\<close>.  Only a scan sets \<open>scan_len\<close>, and only for scans is it read;
  \<open>conflict\<close> is whether a key of the scan is there already.  The choice that finds its keys taken is skipped.\<close>

type_synonym gen_state = "ycsb_request list \<times> nat list \<times> nat"

definition gen_request :: "ycsb_config \<Rightarrow> nat list \<Rightarrow> nat \<times> draw \<Rightarrow> gen_state \<Rightarrow> gen_state option" where
  "gen_request cfg parts td st =
     (let (tmp, d) = td; (reqs, all_keys, access_cnt) = st;
          rtype = request_type cfg (dr_r d);
          ith = tmp * length parts div g_req_per_query cfg;
          part_id = parts ! ith;
          table_size = g_synth_table_size cfg div g_virtual_part_cnt cfg;
          row_id = dr_row d;
          key = row_id * g_virtual_part_cnt cfg + part_id;
          req = \<lparr>rq_type = rtype, rq_key = key, rq_value = dr_value d, rq_scan_len = SCAN_LEN\<rparr>;
          scan_keys = map (\<lambda>i. (row_id + i) * g_part_cnt cfg + part_id) [0..<SCAN_LEN]
      in if \<not> ith < length parts \<or> \<not> row_id < table_size then None
         else if rtype = RD \<or> rtype = WR
         then (if key \<in> set all_keys then Some st else Some (reqs @ [req], key # all_keys, access_cnt + 1))
         else (if \<exists>k \<in> set scan_keys. k \<in> set all_keys then Some st
               else Some (reqs @ [req], scan_keys @ all_keys, access_cnt + SCAN_LEN)))"

text \<open>The exchange sort in key order.\<close>

definition swap_at :: "nat \<Rightarrow> ycsb_request list \<Rightarrow> ycsb_request list" where
  "swap_at j xs = (if rq_key (xs ! (j + 1)) < rq_key (xs ! j) then xs[j := xs ! (j + 1), j + 1 := xs ! j] else xs)"

function sort_pass :: "nat \<Rightarrow> nat \<Rightarrow> ycsb_request list \<Rightarrow> ycsb_request list" where
  "sort_pass j i xs = (if j < i then sort_pass (j + 1) i (swap_at j xs) else xs)"
  by pat_completeness auto

termination by (relation "measure (\<lambda>(j, i, xs). i - j)") auto

declare sort_pass.simps [simp del]

fun sort_requests :: "nat \<Rightarrow> ycsb_request list \<Rightarrow> ycsb_request list" where
  "sort_requests 0 xs = xs"
| "sort_requests (Suc i) xs = sort_requests i (sort_pass 0 (Suc i) xs)"

text \<open>The assertions after the sort run over \<open>request_cnt - 1\<close> pairs, a huge number when there is no request.\<close>

definition gen_requests :: "ycsb_config \<Rightarrow> nat list \<Rightarrow> draw list \<Rightarrow> (ycsb_request list \<times> nat) option" where
  "gen_requests cfg parts ds =
     (case foldM (gen_request cfg parts) (enumerate 0 ds) ([], [], 0) of
        None \<Rightarrow> None
      | Some (reqs, _, access_cnt) \<Rightarrow>
          (if g_key_order cfg
           then (let reqs = sort_requests (length reqs - 1) reqs
                 in if reqs \<noteq> [] \<and> sorted_wrt (<) (map rq_key reqs) then Some (reqs, access_cnt) else None)
           else Some (reqs, access_cnt)))"

section \<open>The exchange sort\<close>

lemma swap_at_mset: "j + 1 < length xs \<Longrightarrow> mset (swap_at j xs) = mset xs"
  by (simp add: swap_at_def mset_swap)

lemma swap_at_length [simp]: "length (swap_at j xs) = length xs"
  by (simp add: swap_at_def)

text \<open>A pass brings the largest of the first keys to their end.\<close>

lemma sort_pass_spec:
  "j \<le> i \<Longrightarrow> i < length xs \<Longrightarrow> \<forall>k \<le> j. rq_key (xs ! k) \<le> rq_key (xs ! j) \<Longrightarrow>
   length (sort_pass j i xs) = length xs \<and> mset (take (i + 1) (sort_pass j i xs)) = mset (take (i + 1) xs) \<and>
   drop (i + 1) (sort_pass j i xs) = drop (i + 1) xs \<and>
   (\<forall>k \<le> i. rq_key (sort_pass j i xs ! k) \<le> rq_key (sort_pass j i xs ! i))"
proof (induction j i xs rule: sort_pass.induct)
  case (1 j i xs)
  show ?case
  proof (cases "j < i")
    case True
    let ?ys = "swap_at j xs"
    have big: "\<forall>k \<le> j + 1. rq_key (?ys ! k) \<le> rq_key (?ys ! (j + 1))"
    proof (intro allI impI)
      fix k assume k: "k \<le> j + 1"
      show "rq_key (?ys ! k) \<le> rq_key (?ys ! (j + 1))"
      proof (cases "rq_key (xs ! (j + 1)) < rq_key (xs ! j)")
        case True
        with k 1(3,4) \<open>j < i\<close> show ?thesis
          by (cases "k = j"; cases "k = j + 1") (auto simp: swap_at_def nth_list_update)
      next
        case False
        have "rq_key (xs ! k) \<le> rq_key (xs ! (j + 1))"
        proof (cases "k = j + 1")
          case False
          with k 1(4) have "rq_key (xs ! k) \<le> rq_key (xs ! j)" by simp
          with \<open>\<not> rq_key (xs ! (j + 1)) < rq_key (xs ! j)\<close> show ?thesis by simp
        qed simp
        with False show ?thesis by (simp add: swap_at_def)
      qed
    qed
    have "mset (swap_at j (take (i + 1) xs)) = mset (take (i + 1) xs)"
      by (rule swap_at_mset) (use True 1(3) in simp)
    moreover have "swap_at j (take (i + 1) xs) = take (i + 1) ?ys" using True 1(3) by (simp add: swap_at_def take_update_swap)
    ultimately have "mset (take (i + 1) ?ys) = mset (take (i + 1) xs)" by simp
    moreover have "drop (i + 1) ?ys = drop (i + 1) xs" using True by (simp add: swap_at_def)
    ultimately show ?thesis using 1(1) [OF True _ _ big] 1(3) True by (subst (1 2 3 4 5) sort_pass.simps) simp
  next
    case False
    with 1(2) have "j = i" by simp
    with 1(4) show ?thesis by (subst (1 2 3 4 5) sort_pass.simps) simp
  qed
qed

lemma sort_requests_spec:
  "i < length xs \<Longrightarrow> sorted (map rq_key (drop (i + 1) xs)) \<Longrightarrow>
   \<forall>a \<in> set (take (i + 1) xs). \<forall>b \<in> set (drop (i + 1) xs). rq_key a \<le> rq_key b \<Longrightarrow>
   sorted (map rq_key (sort_requests i xs)) \<and> mset (sort_requests i xs) = mset xs"
proof (induction i arbitrary: xs)
  case 0
  then obtain x ys where "xs = x # ys" by (cases xs) auto
  with 0 show ?case by simp
next
  case (Suc i)
  let ?ys = "sort_pass 0 (Suc i) xs"
  have ps: "length ?ys = length xs" "mset (take (Suc i + 1) ?ys) = mset (take (Suc i + 1) xs)"
    "drop (Suc i + 1) ?ys = drop (Suc i + 1) xs" "\<forall>k \<le> Suc i. rq_key (?ys ! k) \<le> rq_key (?ys ! Suc i)"
    using sort_pass_spec [of 0 "Suc i" xs] Suc.prems(1) by auto
  have set: "set (take (Suc i + 1) ?ys) = set (take (Suc i + 1) xs)" by (rule mset_eq_setD [OF ps(2)])
  have len: "Suc i < length ?ys" using Suc.prems(1) ps(1) by simp
  have d: "drop (i + 1) ?ys = ?ys ! Suc i # drop (Suc i + 1) xs"
    using Cons_nth_drop_Suc [OF len] ps(3) by simp
  have last: "?ys ! Suc i \<in> set (take (Suc i + 1) ?ys)" using len by (auto simp: in_set_conv_nth intro!: exI [of _ "Suc i"])
  have le: "rq_key a \<le> rq_key (?ys ! Suc i)" if "a \<in> set (take (i + 1) ?ys)" for a
    using that ps(4) len by (auto simp: in_set_conv_nth)
  have sub: "a \<in> set (take (Suc i + 1) xs)" if "a \<in> set (take (i + 1) ?ys)" for a
    using that set set_take_subset_set_take [of "i + 1" "Suc i + 1" ?ys] by auto
  have "sorted (map rq_key (drop (i + 1) ?ys))" unfolding d using Suc.prems(2,3) last set by auto
  moreover have "\<forall>a \<in> set (take (i + 1) ?ys). \<forall>b \<in> set (drop (i + 1) ?ys). rq_key a \<le> rq_key b"
    unfolding d using le sub Suc.prems(3) by auto
  moreover have "i < length ?ys" using len by simp
  ultimately have IH: "sorted (map rq_key (sort_requests i ?ys)) \<and> mset (sort_requests i ?ys) = mset ?ys"
    by (intro Suc.IH)
  have "mset ?ys = mset (take (Suc i + 1) ?ys) + mset (drop (Suc i + 1) ?ys)" by (metis append_take_drop_id mset_append)
  also have "\<dots> = mset xs" unfolding ps(2,3) by (metis append_take_drop_id mset_append)
  finally show ?case using IH by simp
qed

lemma sort_requests_sorts:
  "sorted (map rq_key (sort_requests (length xs - 1) xs)) \<and> mset (sort_requests (length xs - 1) xs) = mset xs"
proof (cases xs)
  case (Cons x ys)
  then show ?thesis by (intro sort_requests_spec) simp_all
qed simp

section \<open>The generated keys\<close>

definition gen_inv :: "gen_state \<Rightarrow> bool" where
  "gen_inv st \<longleftrightarrow> (case st of (reqs, all_keys, cnt) \<Rightarrow>
     distinct (map rq_key reqs) \<and> rq_key ` set reqs \<subseteq> set all_keys \<and>
     cnt = (\<Sum>rq \<leftarrow> reqs. if rq_type rq = SCAN then SCAN_LEN else 1))"

text \<open>A round keeps the keys apart, provided scans note their keys with the same number of partitions.\<close>

lemma gen_request_inv:
  assumes "gen_inv st" "gen_request cfg parts td st = Some st'" "g_part_cnt cfg = g_virtual_part_cnt cfg"
  shows "gen_inv st'"
proof -
  obtain tmp d where td: "td = (tmp, d)" by (cases td)
  obtain reqs ks cnt where st: "st = (reqs, ks, cnt)" by (cases st)
  let ?p = "parts ! (tmp * length parts div g_req_per_query cfg)"
  let ?key = "dr_row d * g_virtual_part_cnt cfg + ?p"
  let ?scan = "map (\<lambda>i. (dr_row d + i) * g_part_cnt cfg + ?p) [0..<SCAN_LEN]"
  have first: "?key \<in> set ?scan"
  proof -
    have "?key = (dr_row d + 0) * g_part_cnt cfg + ?p" by (simp add: assms(3))
    moreover have "0 \<in> set [0..<SCAN_LEN]" by (simp add: SCAN_LEN_def)
    ultimately show ?thesis unfolding set_map by (rule image_eqI)
  qed
  show ?thesis
  proof (cases "request_type cfg (dr_r d) = RD \<or> request_type cfg (dr_r d) = WR")
    case True
    with assms(1,2) show ?thesis
      by (auto simp: gen_request_def td st Let_def gen_inv_def image_subset_iff split: if_splits)
  next
    case False
    then have scan: "request_type cfg (dr_r d) = SCAN" by (auto simp: request_type_def split: if_splits)
    show ?thesis
    proof (cases "\<exists>k \<in> set ?scan. k \<in> set ks")
      case True
      with assms(1,2) scan show ?thesis by (simp add: gen_request_def td st Let_def split: if_splits)
    next
      case free: False
      with first have "?key \<notin> set ks" by blast
      moreover from free scan assms(2) have "st' = (reqs @ [\<lparr>rq_type = SCAN, rq_key = ?key, rq_value = dr_value d, rq_scan_len = SCAN_LEN\<rparr>],
          ?scan @ ks, cnt + SCAN_LEN)"
        by (simp add: gen_request_def td st Let_def split: if_splits)
      ultimately show ?thesis using assms(1) first by (auto simp: gen_inv_def st)
    qed
  qed
qed

lemma gen_request_total:
  assumes "dr_row d < g_synth_table_size cfg div g_virtual_part_cnt cfg" "tmp * length parts div g_req_per_query cfg < length parts"
  shows "\<exists>st'. gen_request cfg parts (tmp, d) st = Some st' \<and> (fst st \<noteq> [] \<longrightarrow> fst st' \<noteq> []) \<and>
    (st = ([], [], 0) \<longrightarrow> fst st' \<noteq> [])"
  using assms by (cases st) (auto simp: gen_request_def Let_def)

lemma ith_part:
  assumes "tmp < g_req_per_query cfg" "parts \<noteq> []"
  shows "tmp * length parts div g_req_per_query cfg < length parts"
proof -
  have "tmp * length parts < g_req_per_query cfg * length parts" using assms by simp
  then show ?thesis using less_mult_imp_div_less by (simp add: mult.commute)
qed

lemma gen_loop_total:
  "\<forall>d \<in> set ds. dr_row d < g_synth_table_size cfg div g_virtual_part_cnt cfg \<Longrightarrow> i + length ds \<le> g_req_per_query cfg \<Longrightarrow>
   parts \<noteq> [] \<Longrightarrow>
   \<exists>st'. foldM (gen_request cfg parts) (enumerate i ds) st = Some st' \<and> (fst st \<noteq> [] \<longrightarrow> fst st' \<noteq> []) \<and>
     (st = ([], [], 0) \<and> ds \<noteq> [] \<longrightarrow> fst st' \<noteq> [])"
proof (induction ds arbitrary: i st)
  case (Cons d ds)
  have "i * length parts div g_req_per_query cfg < length parts" by (rule ith_part) (use Cons.prems(2,3) in simp_all)
  with gen_request_total [of d cfg i parts st] Cons.prems(1) obtain st1
    where st1: "gen_request cfg parts (i, d) st = Some st1" "fst st \<noteq> [] \<longrightarrow> fst st1 \<noteq> []"
      "st = ([], [], 0) \<longrightarrow> fst st1 \<noteq> []" by auto
  from Cons.IH [of "Suc i" st1] Cons.prems obtain st2
    where "foldM (gen_request cfg parts) (enumerate (Suc i) ds) st1 = Some st2" "fst st1 \<noteq> [] \<longrightarrow> fst st2 \<noteq> []" by auto
  with st1 show ?case by auto
qed simp

text \<open>Every key lies in a partition of the query, counted as the query counts them.\<close>

lemma gen_request_parts:
  assumes "gen_request cfg parts (tmp, d) (reqs, ks, cnt) = Some (reqs', ks', cnt')" "tmp < g_req_per_query cfg" "parts \<noteq> []"
    "\<forall>p \<in> set parts. p < g_virtual_part_cnt cfg" "\<forall>rq \<in> set reqs. rq_key rq mod g_virtual_part_cnt cfg \<in> set parts"
  shows "\<forall>rq \<in> set reqs'. rq_key rq mod g_virtual_part_cnt cfg \<in> set parts"
proof -
  let ?ith = "tmp * length parts div g_req_per_query cfg"
  have "parts ! ?ith \<in> set parts" using ith_part [OF assms(2,3)] by simp
  moreover from this assms(4) have "(dr_row d * g_virtual_part_cnt cfg + parts ! ?ith) mod g_virtual_part_cnt cfg = parts ! ?ith"
    by simp
  ultimately show ?thesis using assms(1,5)
    by (auto simp: gen_request_def Let_def split: if_splits)
qed

lemma gen_loop_parts:
  "foldM (gen_request cfg parts) (enumerate i ds) (reqs, ks, cnt) = Some (reqs', ks', cnt') \<Longrightarrow> i + length ds \<le> g_req_per_query cfg \<Longrightarrow>
   parts \<noteq> [] \<Longrightarrow> \<forall>p \<in> set parts. p < g_virtual_part_cnt cfg \<Longrightarrow>
   \<forall>rq \<in> set reqs. rq_key rq mod g_virtual_part_cnt cfg \<in> set parts \<Longrightarrow>
   \<forall>rq \<in> set reqs'. rq_key rq mod g_virtual_part_cnt cfg \<in> set parts"
proof (induction ds arbitrary: i reqs ks cnt)
  case (Cons d ds)
  from Cons.prems(1) obtain r1 k1 c1 where s1: "gen_request cfg parts (i, d) (reqs, ks, cnt) = Some (r1, k1, c1)"
    "foldM (gen_request cfg parts) (enumerate (Suc i) ds) (r1, k1, c1) = Some (reqs', ks', cnt')"
    by (auto split: option.splits)
  have "\<forall>rq \<in> set r1. rq_key rq mod g_virtual_part_cnt cfg \<in> set parts"
    by (rule gen_request_parts [OF s1(1) _ Cons.prems(3-5)]) (use Cons.prems(2) in simp)
  from Cons.IH [OF s1(2) _ Cons.prems(3,4) this] Cons.prems(2) show ?case by simp
qed simp

lemma sorted_distinct_strict: "sorted (xs :: nat list) \<Longrightarrow> distinct xs \<Longrightarrow> sorted_wrt (<) xs"
  by (simp add: strict_sorted_iff)

lemma generated:
  assumes "\<forall>d \<in> set ds. dr_row d < g_synth_table_size cfg div g_virtual_part_cnt cfg" "ds \<noteq> []" "length ds \<le> g_req_per_query cfg"
    "g_part_cnt cfg = g_virtual_part_cnt cfg" "parts \<noteq> []" "\<forall>p \<in> set parts. p < g_virtual_part_cnt cfg"
  shows "\<exists>reqs cnt. gen_requests cfg parts ds = Some (reqs, cnt) \<and> reqs \<noteq> [] \<and> distinct (map rq_key reqs) \<and>
    (g_key_order cfg \<longrightarrow> sorted_wrt (<) (map rq_key reqs)) \<and>
    (\<forall>rq \<in> set reqs. rq_key rq mod g_virtual_part_cnt cfg \<in> set parts) \<and>
    cnt = (\<Sum>rq \<leftarrow> reqs. if rq_type rq = SCAN then SCAN_LEN else 1)"
proof -
  from gen_loop_total [OF assms(1), of 0 parts "([], [], 0)"] assms(2,3,5) obtain reqs ks cnt
    where run: "foldM (gen_request cfg parts) (enumerate 0 ds) ([], [], 0) = Some (reqs, ks, cnt)" and ne: "reqs \<noteq> []" by auto
  have inv: "gen_inv (reqs, ks, cnt)"
    by (rule foldM_result [OF run]) (use gen_request_inv assms(4) in \<open>auto simp: gen_inv_def\<close>)
  have parts: "\<forall>rq \<in> set reqs. rq_key rq mod g_virtual_part_cnt cfg \<in> set parts"
    by (rule gen_loop_parts [OF run _ assms(5,6)]) (use assms(3) in simp_all)
  let ?s = "sort_requests (length reqs - 1) reqs"
  have s: "sorted (map rq_key ?s)" "mset ?s = mset reqs" using sort_requests_sorts by blast+
  then have "mset (map rq_key ?s) = mset (map rq_key reqs)" by simp
  moreover have "distinct (map rq_key reqs)" using inv by (simp add: gen_inv_def)
  ultimately have d: "distinct (map rq_key ?s)" using mset_eq_imp_distinct_iff by blast
  have set: "set ?s = set reqs" "?s \<noteq> []" using s(2) ne mset_eq_setD by (blast, auto)
  have sum: "(\<Sum>rq \<leftarrow> ?s. if rq_type rq = SCAN then SCAN_LEN else 1) = (\<Sum>rq \<leftarrow> reqs. if rq_type rq = SCAN then SCAN_LEN else 1)"
    using s(2) by (metis mset_map sum_mset_sum_list)
  show ?thesis
  proof (cases "g_key_order cfg")
    case True
    with run set sorted_distinct_strict [OF s(1) d] d parts sum inv show ?thesis
      by (intro exI [of _ ?s] exI [of _ cnt]) (simp add: gen_requests_def Let_def gen_inv_def)
  next
    case False
    with run ne parts inv show ?thesis by (simp add: gen_requests_def gen_inv_def)
  qed
qed

section \<open>The transaction\<close>

record ycsb_env =
  ye_cfg :: ycsb_config
  ye_index :: "nat \<Rightarrow> nat \<Rightarrow> rid option"    \<comment> \<open>the row of the item that \<open>index_read\<close> finds for a key in a partition\<close>

text \<open>\<open>ycsb_wl::key_to_part\<close>; no row in a partition is a division by 0.\<close>

definition wl_key_to_part :: "ycsb_config \<Rightarrow> nat \<Rightarrow> nat option" where
  "wl_key_to_part cfg key =
     (let rows_per_part = g_synth_table_size cfg div g_part_cnt cfg
      in if rows_per_part = 0 then None else Some (key div rows_per_part))"

text \<open>The computation on a granted row: a read looks at the first eight bytes, a write clears them.\<close>

definition compute :: "nat \<Rightarrow> ycsb_request \<Rightarrow> rid \<Rightarrow> run \<Rightarrow> run option" where
  "compute request_cnt req r s =
     (if 1 < request_cnt
      then (if rq_type req = RD \<or> rq_type req = SCAN then (if 8 \<le> length (rn_data s r) then Some s else None)
            else if rq_type req = WR
            then update_row r (\<lambda>d. if 8 \<le> length d then Some (replicate 8 0 @ drop 8 d) else None) s
            else None)
      else Some s)"

text \<open>The inner loop; without an ordered index it asks for the same row in every iteration.\<close>

fun scan_rows :: "grants \<Rightarrow> nat \<Rightarrow> ycsb_request \<Rightarrow> rid \<Rightarrow> nat \<Rightarrow> run \<Rightarrow> (run \<Rightarrow> outcome) \<Rightarrow> outcome" where
  "scan_rows g request_cnt req r 0 s k = k s"
| "scan_rows g request_cnt req r (Suc i) s k =
     with_row g r (rq_type req) s (\<lambda>s. Option.bind (compute request_cnt req r s) (\<lambda>s. scan_rows g request_cnt req r i s k))"

definition iterations :: "ycsb_request \<Rightarrow> nat" where
  "iterations req = (if rq_type req = RD \<or> rq_type req = WR then 1 else if rq_scan_len req = 0 then 2 ^ 32 else rq_scan_len req)"

fun run_requests :: "ycsb_env \<Rightarrow> grants \<Rightarrow> nat \<Rightarrow> ycsb_request list \<Rightarrow> run \<Rightarrow> outcome" where
  "run_requests E g request_cnt [] s = finish RCOK s"
| "run_requests E g request_cnt (req # reqs) s =
     (case wl_key_to_part (ye_cfg E) (rq_key req) of
        None \<Rightarrow> None
      | Some part_id \<Rightarrow>
          (case ye_index E (rq_key req) part_id of
             None \<Rightarrow> None
           | Some r \<Rightarrow> scan_rows g request_cnt req r (iterations req) s (run_requests E g request_cnt reqs)))"

definition run_ycsb :: "ycsb_env \<Rightarrow> grants \<Rightarrow> ycsb_request list \<Rightarrow> (rid \<Rightarrow> rdata) \<Rightarrow> outcome" where
  "run_ycsb E g reqs data = run_requests E g (length reqs) reqs (txn_start data)"

section \<open>What a transaction does\<close>

lemma compute_restorable:
  assumes "compute n req r s = Some s'" "rq_type req = WR \<longrightarrow> writable r s" "restorable D s"
  shows "restorable D s'"
  using assms restorable_update [of r _ s s' D] by (auto simp: compute_def split: if_splits)

lemma scan_rows_ok:
  "restorable D s \<Longrightarrow> (\<And>s'. restorable D s' \<Longrightarrow> outcome_ok D (k s') (k' s')) \<Longrightarrow>
   outcome_ok D (scan_rows g n req r i s k) (scan_rows (\<lambda>_. True) n req r i s k')"
proof (induction i arbitrary: s)
  case (Suc i)
  show ?case unfolding scan_rows.simps
  proof (rule outcome_ok_row [OF Suc.prems(1)])
    fix s' assume s': "s' = note_access r (rq_type req) s" "restorable D s'"
    have "rq_type req = WR \<longrightarrow> writable r s'" by (simp add: s'(1) writable_note)
    with s'(2) show "outcome_ok D (Option.bind (compute n req r s') (\<lambda>s. scan_rows g n req r i s k))
        (Option.bind (compute n req r s') (\<lambda>s. scan_rows (\<lambda>_. True) n req r i s k'))"
      by (intro outcome_ok_bind Suc.IH Suc.prems(2)) (auto intro: compute_restorable)
  qed
qed simp

lemma run_requests_ok: "restorable D s \<Longrightarrow> outcome_ok D (run_requests E g n reqs s) (run_requests E (\<lambda>_. True) n reqs s)"
proof (induction reqs arbitrary: s)
  case Nil
  show ?case by (simp add: outcome_ok_refl)
next
  case (Cons req reqs)
  show ?case using scan_rows_ok [OF Cons.prems Cons.IH] by (auto simp: outcome_ok_refl split: option.split)
qed

text \<open>All requests granted: the first eight bytes of the rows written are cleared.\<close>

definition clear8 :: "rdata \<Rightarrow> rdata" where
  "clear8 d = replicate 8 0 @ drop 8 d"

definition cleared :: "rid set \<Rightarrow> (rid \<Rightarrow> rdata) \<Rightarrow> rid \<Rightarrow> rdata" where
  "cleared W data r = (if r \<in> W then clear8 (data r) else data r)"

lemma run_requests_granted:
  assumes "1 < n" "\<forall>req \<in> set reqs. (rq_type req = RD \<or> rq_type req = WR) \<and>
      (\<exists>p. wl_key_to_part (ye_cfg E) (rq_key req) = Some p \<and> ye_index E (rq_key req) p = Some (f (rq_key req)))"
    "\<forall>r. 8 \<le> length (rn_data s r)" "length (rn_acc s) + length reqs \<le> MAX_ROW_PER_TXN" "distinct (map (f \<circ> rq_key) reqs)"
  shows "\<exists>s'. run_requests E (\<lambda>_. True) n reqs s = Some (RCOK, s') \<and>
    rn_data s' = cleared ((f \<circ> rq_key) ` {req \<in> set reqs. rq_type req = WR}) (rn_data s) \<and>
    rn_log s' = rn_log s @ map (\<lambda>req. (f (rq_key req), rq_type req)) reqs"
  using assms(2-5)
proof (induction reqs arbitrary: s)
  case Nil
  then show ?case by (simp add: finish_def cleared_def)
next
  case (Cons req reqs)
  from Cons.prems(1) obtain p where p: "wl_key_to_part (ye_cfg E) (rq_key req) = Some p"
    "ye_index E (rq_key req) p = Some (f (rq_key req))" by auto
  let ?r = "f (rq_key req)"
  let ?s = "note_access ?r (rq_type req) s"
  let ?s1 = "if rq_type req = WR then ?s\<lparr>rn_data := (rn_data s)(?r := clear8 (rn_data s ?r))\<rparr> else ?s"
  have nd: "rn_data ?s = rn_data s" "rn_acc ?s = rn_acc s @ [\<lparr>ac_type = rq_type req, ac_row = ?r, ac_orig = (if rq_type req = WR then rn_data s ?r else [])\<rparr>]"
    "rn_log ?s = rn_log s @ [(?r, rq_type req)]" by (simp_all add: note_access_def)
  have keep: "rn_data (note_access r' ty s) = rn_data s" for r' ty by (simp add: note_access_def)
  have "compute n req ?r ?s = Some ?s1"
    using assms(1) Cons.prems(1,2) by (auto simp: compute_def keep update_row_def clear8_def)
  then have run: "run_requests E (\<lambda>_. True) n (req # reqs) s = run_requests E (\<lambda>_. True) n reqs ?s1"
    using p Cons.prems(1,3) by (auto simp: iterations_def with_row_def)
  have "\<exists>s'. run_requests E (\<lambda>_. True) n reqs ?s1 = Some (RCOK, s') \<and>
      rn_data s' = cleared ((f \<circ> rq_key) ` {req \<in> set reqs. rq_type req = WR}) (rn_data ?s1) \<and>
      rn_log s' = rn_log ?s1 @ map (\<lambda>req. (f (rq_key req), rq_type req)) reqs"
    by (rule Cons.IH) (use Cons.prems nd in \<open>auto simp: clear8_def\<close>)
  then obtain s' where s': "run_requests E (\<lambda>_. True) n reqs ?s1 = Some (RCOK, s')"
      "rn_data s' = cleared ((f \<circ> rq_key) ` {req \<in> set reqs. rq_type req = WR}) (rn_data ?s1)"
      "rn_log s' = rn_log ?s1 @ map (\<lambda>req. (f (rq_key req), rq_type req)) reqs" by blast
  have other: "?r \<notin> (f \<circ> rq_key) ` {req \<in> set reqs. rq_type req = WR}" using Cons.prems(4) by auto
  have "rn_data s' = cleared ((f \<circ> rq_key) ` {q \<in> set (req # reqs). rq_type q = WR}) (rn_data s)"
    unfolding s'(2) using other nd(1) by (auto simp: cleared_def fun_eq_iff)
  moreover have "rn_log s' = rn_log s @ map (\<lambda>req. (f (rq_key req), rq_type req)) (req # reqs)"
    unfolding s'(3) by (simp add: note_access_def)
  ultimately show ?case using s'(1) run by auto
qed

section \<open>Loading the table\<close>

text \<open>\<open>init_table_slice\<close>: thread \<open>tid\<close> inserts the keys of its slice; \<open>item_of\<close> gives the item of a key.\<close>

definition slice :: "ycsb_config \<Rightarrow> nat \<Rightarrow> nat \<Rightarrow> nat list option" where
  "slice cfg g_init_parallelism tid =
     (if g_init_parallelism \<noteq> 0 \<and> g_synth_table_size cfg mod g_init_parallelism = 0 \<and> tid < g_init_parallelism
      then (let slice_size = g_synth_table_size cfg div g_init_parallelism
            in Some [slice_size * tid ..< slice_size * (tid + 1)])
      else None)"

definition load_row :: "ycsb_config \<Rightarrow> (nat \<Rightarrow> item) \<Rightarrow> nat \<Rightarrow> IndexHash \<Rightarrow> IndexHash option" where
  "load_row cfg item_of key ih =
     (case wl_key_to_part cfg key of None \<Rightarrow> None | Some part_id \<Rightarrow> index_insert key (item_of key) part_id ih)"

lemma slices_cover:
  assumes "g_init_parallelism dvd g_synth_table_size cfg" "0 < g_init_parallelism"
  shows "concat (map (\<lambda>tid. the (slice cfg g_init_parallelism tid)) [0..<g_init_parallelism]) = [0..<g_synth_table_size cfg]"
proof -
  let ?k = "g_synth_table_size cfg div g_init_parallelism"
  have "concat (map (\<lambda>tid. [?k * tid ..< ?k * (tid + 1)]) [0..<m]) = [0..<?k * m]" for m
  proof (induction m)
    case (Suc m)
    have e: "?k * Suc m = ?k * m + ?k" by simp
    have "[0..<?k * Suc m] = [0..<?k * m] @ [?k * m..<?k * m + ?k]" unfolding e by (rule upt_add_eq_append) simp
    with Suc show ?case by (simp add: add.commute)
  qed simp
  moreover have "map (\<lambda>tid. the (slice cfg g_init_parallelism tid)) [0..<g_init_parallelism] =
      map (\<lambda>tid. [?k * tid ..< ?k * (tid + 1)]) [0..<g_init_parallelism]"
    using assms by (intro map_cong refl) (simp add: slice_def Let_def dvd_eq_mod_eq_0)
  moreover have "?k * g_init_parallelism = g_synth_table_size cfg" using assms(1) by simp
  ultimately show ?thesis by metis
qed

lemma inserted_once:
  assumes "distinct keys" "key \<in> set keys" "part_id = pf key"
  shows "inserted (map (\<lambda>k. (k, item_of k, pf k)) keys) part_id key = [item_of key]"
proof -
  have "filter (\<lambda>k. k = key) keys = [key]" using assms(1,2) by (induction keys) (auto simp: filter_empty_conv)
  moreover have "filter (\<lambda>k. k = key \<and> pf k = part_id) keys = filter (\<lambda>k. k = key) keys" by (rule filter_cong) (auto simp: assms(3))
  ultimately show ?thesis by (simp add: inserted_def filter_map comp_def)
qed

lemma load_runs:
  assumes "\<forall>k \<in> set keys. wl_key_to_part cfg k = Some (pf k)"
  shows "foldM (load_row cfg item_of) keys ih = foldM (\<lambda>(k, i, p). index_insert k i p) (map (\<lambda>k. (k, item_of k, pf k)) keys) ih"
  using assms by (induction keys arbitrary: ih) (auto simp: load_row_def split: option.split)

section \<open>Properties\<close>

lemma gen_parts_distinct: "distinct parts \<Longrightarrow> distinct (fold (\<lambda>i. add_part (f i)) is parts)"
  by (induction "is" arbitrary: parts) (auto simp: add_part_def)

lemma gen_parts_range: "\<forall>p \<in> set parts. p < n \<Longrightarrow> \<forall>i. f i < n \<Longrightarrow> \<forall>p \<in> set (fold (\<lambda>i. add_part (f i)) is parts). p < (n :: nat)"
proof (induction "is" arbitrary: parts)
  case (Cons i "is")
  have "\<forall>p \<in> set (add_part (f i) parts). p < n" using Cons.prems by (simp add: add_part_def)
  from Cons.IH [OF this Cons.prems(2)] show ?case by simp
qed simp

lemma gen_parts_nonempty: "is \<noteq> [] \<Longrightarrow> fold (\<lambda>i. add_part (f i)) is parts \<noteq> []"
proof (induction "is" arbitrary: parts)
  case (Cons i "is")
  have "add_part (f i) parts \<noteq> []" by (auto simp: add_part_def)
  then show ?case using Cons.IH by (cases "is") auto
qed simp

lemma gen_parts_ok:
  assumes "0 < g_virtual_part_cnt cfg" "g_part_cnt cfg = g_virtual_part_cnt cfg" "0 < g_part_per_txn cfg"
  shows "gen_parts cfg multi thd_id rnd \<noteq> [] \<and> distinct (gen_parts cfg multi thd_id rnd) \<and>
    (\<forall>p \<in> set (gen_parts cfg multi thd_id rnd). p < g_virtual_part_cnt cfg)"
proof (cases multi)
  case True
  let ?f = "\<lambda>i. (if i = 0 \<and> FIRST_PART_LOCAL cfg then thd_id else rnd i) mod g_virtual_part_cnt cfg"
  have e: "gen_parts cfg multi thd_id rnd = fold (\<lambda>i. add_part (?f i)) [0..<g_part_per_txn cfg] []"
    using True by (simp add: gen_parts_def)
  show ?thesis unfolding e
  proof (intro conjI)
    show "fold (\<lambda>i. add_part (?f i)) [0..<g_part_per_txn cfg] [] \<noteq> []" by (rule gen_parts_nonempty) (use assms(3) in simp)
    show "distinct (fold (\<lambda>i. add_part (?f i)) [0..<g_part_per_txn cfg] [])" by (rule gen_parts_distinct) simp
    show "\<forall>p \<in> set (fold (\<lambda>i. add_part (?f i)) [0..<g_part_per_txn cfg] []). p < g_virtual_part_cnt cfg"
      by (rule gen_parts_range) (use assms(1) in simp_all)
  qed
qed (use assms in \<open>simp add: gen_parts_def\<close>)


definition ex_cfg2 :: ycsb_config where
  "ex_cfg2 = \<lparr>g_synth_table_size = 100, g_part_cnt = 2, g_virtual_part_cnt = 2, g_req_per_query = 4, g_part_per_txn = 2,
     FIRST_PART_LOCAL = True, g_read_perc = 1 / 2, g_write_perc = 1 / 2, g_key_order = True\<rparr>"

definition ex_draws :: "draw list" where
  "ex_draws = [\<lparr>dr_r = 1 / 4, dr_row = 7, dr_value = 1\<rparr>, \<lparr>dr_r = 3 / 4, dr_row = 3, dr_value = 2\<rparr>,
     \<lparr>dr_r = 3 / 4, dr_row = 3, dr_value = 3\<rparr>, \<lparr>dr_r = 1 / 4, dr_row = 3, dr_value = 4\<rparr>]"


lemma txn_effect:
  assumes "1 < length reqs" "length reqs \<le> MAX_ROW_PER_TXN" "distinct (map (f \<circ> rq_key) reqs)" "\<forall>r. 8 \<le> length (data r)"
    "\<forall>req \<in> set reqs. (rq_type req = RD \<or> rq_type req = WR) \<and>
      (\<exists>p. wl_key_to_part (ye_cfg E) (rq_key req) = Some p \<and> ye_index E (rq_key req) p = Some (f (rq_key req)))"
  shows "\<exists>s. run_ycsb E (\<lambda>_. True) reqs data = Some (RCOK, s) \<and>
    rn_data s = cleared ((f \<circ> rq_key) ` {req \<in> set reqs. rq_type req = WR}) data \<and>
    rn_log s = map (\<lambda>req. (f (rq_key req), rq_type req)) reqs \<and>
    (\<forall>g. outcome_ok data (run_ycsb E g reqs data) (Some (RCOK, s)))"
proof -
  have "\<exists>s. run_requests E (\<lambda>_. True) (length reqs) reqs (txn_start data) = Some (RCOK, s) \<and>
      rn_data s = cleared ((f \<circ> rq_key) ` {req \<in> set reqs. rq_type req = WR}) (rn_data (txn_start data)) \<and>
      rn_log s = rn_log (txn_start data) @ map (\<lambda>req. (f (rq_key req), rq_type req)) reqs"
    by (rule run_requests_granted [OF assms(1,5) _ _ assms(3)]) (use assms(2,4) in \<open>simp_all add: txn_start_def\<close>)
  then obtain s where s: "run_requests E (\<lambda>_. True) (length reqs) reqs (txn_start data) = Some (RCOK, s)"
      "rn_data s = cleared ((f \<circ> rq_key) ` {req \<in> set reqs. rq_type req = WR}) data"
      "rn_log s = map (\<lambda>req. (f (rq_key req), rq_type req)) reqs" by (auto simp: txn_start_def)
  have "outcome_ok data (run_ycsb E g reqs data) (Some (RCOK, s))" for g
    using run_requests_ok [OF restorable_start [of data], where g = g and E = E and n = "length reqs" and reqs = reqs] s(1) by (simp add: run_ycsb_def)
  with s show ?thesis by (auto simp: run_ycsb_def)
qed

text \<open>C29: a YCSB transaction of more than one request, reads and writes of different rows, under a locking scheme is atomic: when all requests are granted it has cleared the first
  eight bytes of exactly the rows it writes, and asked for the rows in the order of the requests; otherwise it aborts and
  leaves the data as it was.\<close>

theorem ycsb_txn_effect:
  assumes "1 < length reqs" "length reqs \<le> MAX_ROW_PER_TXN" "distinct (map (f \<circ> rq_key) reqs)" "\<forall>r. 8 \<le> length (data r)"
    "\<forall>req \<in> set reqs. (rq_type req = RD \<or> rq_type req = WR) \<and>
      (\<exists>p. wl_key_to_part (ye_cfg E) (rq_key req) = Some p \<and> ye_index E (rq_key req) p = Some (f (rq_key req)))"
  shows "\<exists>s. run_ycsb E (\<lambda>_. True) reqs data = Some (RCOK, s) \<and>
    rn_data s = cleared ((f \<circ> rq_key) ` {req \<in> set reqs. rq_type req = WR}) data \<and>
    rn_log s = map (\<lambda>req. (f (rq_key req), rq_type req)) reqs \<and>
    (\<forall>g. outcome_ok data (run_ycsb E g reqs data) (Some (RCOK, s)))"
  by (rule txn_effect [OF assms])

definition ex_request :: "access_t \<Rightarrow> nat \<Rightarrow> ycsb_request" where
  "ex_request type key = \<lparr>rq_type = type, rq_key = key, rq_value = 0, rq_scan_len = SCAN_LEN\<rparr>"

definition ex_ycsb_env :: ycsb_env where
  "ex_ycsb_env = \<lparr>ye_cfg = ex_cfg2, ye_index = (\<lambda>key p. Some key)\<rparr>"

lemma ycsb_txn_effect_witness:
  "\<exists>s. run_ycsb ex_ycsb_env (\<lambda>_. True) [ex_request WR 3, ex_request RD 60] (\<lambda>_. replicate 9 1) = Some (RCOK, s) \<and>
     rn_data s 3 = [0, 0, 0, 0, 0, 0, 0, 0, 1] \<and> rn_data s 60 = replicate 9 1 \<and> rn_log s = [(3, WR), (60, RD)]"
proof -
  let ?reqs = "[ex_request WR 3, ex_request RD 60]"
  have W: "{req \<in> set ?reqs. rq_type req = WR} = {ex_request WR 3}" by (auto simp: ex_request_def)
  from ycsb_txn_effect [of ?reqs "\<lambda>k. k" "\<lambda>_. replicate 9 1" ex_ycsb_env]
  obtain s where "run_ycsb ex_ycsb_env (\<lambda>_. True) ?reqs (\<lambda>_. replicate 9 1) = Some (RCOK, s)"
      "rn_data s = cleared (((\<lambda>k. k) \<circ> rq_key) ` {ex_request WR 3}) (\<lambda>_. replicate 9 1)"
      "rn_log s = map (\<lambda>req. (rq_key req, rq_type req)) ?reqs"
    unfolding W by (auto simp: ex_request_def ex_ycsb_env_def ex_cfg2_def wl_key_to_part_def MAX_ROW_PER_TXN_def)
  moreover have "replicate 8 0 = [0, 0, 0, 0, 0, 0, 0, 0]" "drop 8 (replicate 9 1) = [1]" by (simp_all add: eval_nat_numeral)
  ultimately show ?thesis by (intro exI [of _ s]) (simp add: cleared_def clear8_def ex_request_def)
qed

text \<open>A query generated with \<open>g_key_order\<close> and without scans makes a transaction that asks for rows in ascending order,
  as the absence of deadlocks requires, when rows are named in the order of their keys.\<close>

theorem ycsb_key_order_ascends:
  assumes "gen_requests (ye_cfg E) parts ds = Some (reqs, cnt)" "g_key_order (ye_cfg E)" "1 < length reqs"
    "length reqs \<le> MAX_ROW_PER_TXN" "strict_mono f" "\<forall>r. 8 \<le> length (data r)"
    "\<forall>req \<in> set reqs. (rq_type req = RD \<or> rq_type req = WR) \<and>
      (\<exists>p. wl_key_to_part (ye_cfg E) (rq_key req) = Some p \<and> ye_index E (rq_key req) p = Some (f (rq_key req)))"
  shows "\<exists>s. run_ycsb E (\<lambda>_. True) reqs data = Some (RCOK, s) \<and> sorted_wrt (<) (map fst (rn_log s))"
proof -
  have keys: "sorted_wrt (<) (map rq_key reqs)"
    using assms(1,2) by (auto simp: gen_requests_def Let_def split: option.splits if_splits prod.splits)
  then have asc: "sorted_wrt (<) (map (f \<circ> rq_key) reqs)"
    unfolding sorted_wrt_map using sorted_wrt_mono_rel [of reqs "\<lambda>x y. rq_key x < rq_key y" "\<lambda>x y. (f \<circ> rq_key) x < (f \<circ> rq_key) y"]
      strict_monoD [OF assms(5)] by auto
  then have "distinct (map (f \<circ> rq_key) reqs)" by (simp add: strict_sorted_iff)
  from txn_effect [OF assms(3,4) this assms(6,7)] obtain s where s: "run_ycsb E (\<lambda>_. True) reqs data = Some (RCOK, s)"
    "rn_log s = map (\<lambda>req. (f (rq_key req), rq_type req)) reqs" by blast
  have "map fst (rn_log s) = map (f \<circ> rq_key) reqs" by (simp add: s(2) comp_def)
  with s(1) asc show ?thesis by auto
qed

lemma gen_ex: "gen_requests ex_cfg2 [0] [\<lparr>dr_r = 1 / 4, dr_row = 30, dr_value = 1\<rparr>, \<lparr>dr_r = 3 / 4, dr_row = 3, dr_value = 2\<rparr>] =
    Some ([\<lparr>rq_type = WR, rq_key = 6, rq_value = 2, rq_scan_len = SCAN_LEN\<rparr>, \<lparr>rq_type = RD, rq_key = 60, rq_value = 1, rq_scan_len = SCAN_LEN\<rparr>], 2)"
  by (simp add: gen_requests_def ex_cfg2_def gen_request_def Let_def request_type_def sort_pass.simps swap_at_def)

lemma ycsb_key_order_ascends_witness:
  "\<exists>reqs cnt s. gen_requests ex_cfg2 [0] [\<lparr>dr_r = 1 / 4, dr_row = 30, dr_value = 1\<rparr>, \<lparr>dr_r = 3 / 4, dr_row = 3, dr_value = 2\<rparr>] = Some (reqs, cnt) \<and>
     run_ycsb ex_ycsb_env (\<lambda>_. True) reqs (\<lambda>_. replicate 9 1) = Some (RCOK, s) \<and> sorted_wrt (<) (map fst (rn_log s))"
proof -
  have E: "ye_cfg ex_ycsb_env = ex_cfg2" by (simp add: ex_ycsb_env_def)
  show ?thesis
    using ycsb_key_order_ascends [of ex_ycsb_env, unfolded E, OF gen_ex, of "\<lambda>k. k" "\<lambda>_. replicate 9 1"] gen_ex
    by (auto simp: ex_ycsb_env_def ex_cfg2_def wl_key_to_part_def MAX_ROW_PER_TXN_def strict_mono_def)
qed

text \<open>C34: the threads that fill the table in parallel, in whatever order their insertions happen, leave an index in which
  every key of the table is found in its partition with its one row, provided the partitions divide the table evenly.\<close>

theorem ycsb_load_complete:
  assumes "mset keys = mset (concat (map (\<lambda>tid. the (slice cfg g_init_parallelism tid)) [0..<g_init_parallelism]))"
    and "0 < g_init_parallelism" "g_init_parallelism dvd g_synth_table_size cfg" "g_part_cnt cfg dvd g_synth_table_size cfg"
    and "0 < g_part_cnt cfg" "g_part_cnt cfg \<le> bucket_cnt" "key < g_synth_table_size cfg"
  shows "\<exists>ih part_id. foldM (load_row cfg item_of) keys (index_init (g_part_cnt cfg) bucket_cnt) = Some ih \<and>
    wl_key_to_part cfg key = Some part_id \<and> index_read key part_id ih = Some [item_of key]"
proof -
  let ?n = "g_synth_table_size cfg" and ?init = "index_init (g_part_cnt cfg) bucket_cnt"
  let ?pf = "\<lambda>k. k div (?n div g_part_cnt cfg)"
  have m: "mset keys = mset [0..<?n]" using assms(1) slices_cover [OF assms(3,2)] by simp
  have keys: "set keys = {0..<?n}" "distinct keys" using mset_eq_setD [OF m] mset_eq_imp_distinct_iff [OF m] by simp_all
  have per: "0 < ?n div g_part_cnt cfg" using assms(4,5,7) by (metis dvd_div_eq_0_iff gr0I not_less_zero)
  then have pf: "\<forall>k \<in> set keys. wl_key_to_part cfg k = Some (?pf k)" "wl_key_to_part cfg key = Some (?pf key)"
    by (simp_all add: wl_key_to_part_def Let_def)
  have range: "?pf k < g_part_cnt cfg" if "k < ?n" for k
    using that assms(4) per by (simp add: div_less_iff_less_mult)
  let ?ops = "map (\<lambda>k. (k, item_of k, ?pf k)) keys"
  have "\<forall>(k, i, p) \<in> set ?ops. p < ih_part_cnt ?init" using range keys(1) by (auto simp: index_init_def)
  moreover have "ih_bucket_cnt_per_part ?init \<noteq> 0" using assms(5,6) by (simp add: index_init_def div_eq_0_iff)
  ultimately obtain ih where ih: "foldM (\<lambda>(k, i, p). index_insert k i p) ?ops ?init = Some ih" "index_ok ih"
      "ih_part_cnt ih = ih_part_cnt ?init" "ih_bucket_cnt_per_part ih = ih_bucket_cnt_per_part ?init"
      "\<forall>p k. held ih (p, k) = inserted ?ops p k @ held ?init (p, k)"
    using inserts_run [OF index_init_ok(1), of ?ops "g_part_cnt cfg" bucket_cnt] by auto
  have "key \<in> set keys" using keys(1) assms(7) by simp
  then have held: "held ih (?pf key, key) = [item_of key]"
    using ih(5) inserted_once [OF keys(2), of key "?pf key" ?pf item_of] by (simp add: index_init_ok(2))
  have "nodes_ok (ih_bucket_cnt_per_part ih) (key mod ih_bucket_cnt_per_part ih)
      (bk_nodes (ih_buckets ih (?pf key) (key mod ih_bucket_cnt_per_part ih)))" using ih(2) by (simp add: index_ok_def)
  from read_item_items [OF this, of key] held ih(3,4) range [OF assms(7)] \<open>ih_bucket_cnt_per_part ?init \<noteq> 0\<close>
  have "index_read key (?pf key) ih = Some [item_of key]"
    by (simp add: index_read_def bucket_idx_def held_def index_init_def)
  with ih(1) pf load_runs [OF pf(1), of item_of] show ?thesis by auto
qed

lemma ycsb_load_complete_witness:
  "\<exists>ih part_id. foldM (load_row (ex_cfg2\<lparr>g_synth_table_size := 4\<rparr>) (\<lambda>k. k + 100)) [2, 0, 3, 1] (index_init 2 4) = Some ih \<and>
     wl_key_to_part (ex_cfg2\<lparr>g_synth_table_size := 4\<rparr>) 3 = Some part_id \<and> index_read 3 part_id ih = Some [103]"
proof -
  have "mset [2, 0, 3, 1] = mset (concat (map (\<lambda>tid. the (slice (ex_cfg2\<lparr>g_synth_table_size := 4\<rparr>) 2 tid)) [0..<2]))"
    (is "_ = mset ?slices")
  proof -
    have "?slices = [0..<4]" by (subst slices_cover) (simp_all add: ex_cfg2_def)
    then show ?thesis by (simp add: upt_rec numeral_2_eq_2 numeral_3_eq_3)
  qed
  from ycsb_load_complete [OF this, of 4 3 "\<lambda>k. k + 100"] show ?thesis by (simp add: ex_cfg2_def)
qed

section \<open>What goes wrong\<close>

text \<open>With more than one partition the row of a request need not lie in a partition of the query, whose locks
  \<open>HSTORE\<close> takes: the query counts partitions by the remainder of the key, the table by its quotient.\<close>

theorem ycsb_partition_mismatch:
  "\<exists>req cnt. gen_requests ex_cfg2 [1] [\<lparr>dr_r = 3 / 4, dr_row = 3, dr_value = 1\<rparr>] = Some ([req], cnt) \<and>
     wl_key_to_part ex_cfg2 (rq_key req) = Some 0"
  by (simp add: gen_requests_def ex_cfg2_def gen_request_def Let_def request_type_def wl_key_to_part_def)

text \<open>A scan notes its keys with \<open>g_part_cnt\<close> and has its own key with \<open>g_virtual_part_cnt\<close>: when the counts differ a key is
  requested twice and the assertion on the sorted keys fails.\<close>

theorem ycsb_scan_key_twice:
  "gen_requests (ex_cfg2\<lparr>g_virtual_part_cnt := 1, g_write_perc := 0\<rparr>) [0]
     [\<lparr>dr_r = 3 / 4, dr_row = 1, dr_value = 1\<rparr>, \<lparr>dr_r = 1 / 4, dr_row = 1, dr_value = 1\<rparr>] = None"
  by (simp add: gen_requests_def ex_cfg2_def gen_request_def Let_def request_type_def SCAN_LEN_def upt_rec
      sort_pass.simps swap_at_def)

end
