(* ===== verification/Spec2Isabelle.thy ===== *)
theory Spec2Isabelle
  imports Ilp_Quro Quro_Rename Quro_Limits Txn_Lock Dl_Detect Part_Lock Mvcc_System Row_Ts Occ_System Vll Db_Manager Index_Base Tpcc_History Ycsb
begin

text \<open>
  This development verifies the two programs of the repository that have logic of their own: QURO
  (\<open>src/quro/code\<close>), a clang tool that reorders the statements of a database transaction so that the
  queries on contended tables come last, and DBx1000 (\<open>src/DBx1000/code\<close>), the in-memory database on which
  the effect of the reordering on concurrency control is measured.

  \<^bold>\<open>QURO\<close>.  The tool walks the syntax tree of a transaction, cuts it into code blocks (one per statement, query
  blocks for SQL), computes which definitions reach which uses, groups blocks that must stay together,
  orders the queries, places the other statements around them, renames variables whose
  definitions have moved, and prints the result.
  \<^item> \<open>Quro_Prelude\<close>, \<open>Std_Containers\<close>: linked lists, \<open>std::set\<close> and \<open>std::map\<close> of pointers as ascending
    lists, \<open>CmpUnorderedSet\<close> of \<open>QueryBlock.h\<close>.  A pointer is an address.
  \<^item> \<open>Src_Range\<close>: source ranges and the stack of conditional blocks (\<open>QueryBlock.cpp\<close>, \<open>CBlocks.cpp\<close>).
  \<^item> \<open>Quro_Text\<close>, \<open>Quro_Replace\<close>: labels, the conflict index of a SQL literal, \<open>replaceString\<close>.
  \<^item> \<open>Quro_Block\<close>, \<open>Quro_Dep\<close>, \<open>Quro_Close\<close>, \<open>Quro_Group\<close>, \<open>Quro_Prepare\<close>: code blocks on a heap,
    \<open>setDepBlocks\<close>, \<open>propagateDep\<close>, \<open>recursiveGenerate\<close>, \<open>setFinalcBlock\<close>, \<open>finalizeDefs\<close> and the first
    part of \<open>reorderCode\<close>, which runs them for all blocks.
  \<^item> \<open>Quro_Order\<close>, \<open>Quro_Interleave\<close>, \<open>Quro_Rename\<close>: the query order, the statement order and the renaming of
    \<open>reorderCode\<close> (\<open>CBlocks.cpp\<close>), each from the state the one before leaves.
  \<^item> \<open>Quro_Reach\<close>, \<open>Quro_Flow\<close>, \<open>Quro_Defs\<close>, \<open>Quro_Limits\<close>: \<open>computeLiveness\<close> of
    \<open>ControlFlowGraph.cpp\<close>, the worklist, the gen and kill sets, the iteration, the definitions of a
    use, and what is wrong with them.

  \<^bold>\<open>The programs for the solvers\<close>.  QURO also writes its query graph to a file, from which \<open>src/ILPsolvers/code\<close>
  generates integer programs whose solutions are orders of the queries.
  \<^item> \<open>Ilp_Base\<close>: orders, rows over columns, and the locale \<open>ilp_generator\<close> of a generator whose solutions are
    the orders; both generators interpret it.
  \<^item> \<open>Ilp_Input\<close>: the text of \<open>queryinfo.txt\<close> (\<open>CBlocks.cpp\<close>) and the loops that read it from a stream.
  \<^item> \<open>Ilp_Gurobi\<close>, \<open>Ilp_Lpsolve\<close>: \<open>gurobi/generate_ilp.cpp\<close>, and \<open>ilp_test.cpp\<close> and \<open>ilp_query.cpp\<close> for
    lp_solve.  \<open>Ilp_Quro\<close> composes QURO's file with the generators.

  \<^bold>\<open>DBx1000\<close>.  Threads run transactions; every access to a row goes through the manager of the row, whose
  type is one of the concurrency-control schemes.
  \<^item> \<open>Db_List\<close>, \<open>Db_Base\<close>: the list macros of \<open>helper.h\<close> on a heap of nodes and the lists they implement;
    the flags of \<open>txn_man\<close>; the locale \<open>wait_order\<close>, whose laws exclude deadlocks.
  \<^item> \<open>Row_Lock\<close>, \<open>Lock_System\<close>, \<open>Txn_Lock\<close>: \<open>row_lock.cpp\<close> on one row, on all rows with interleaved requests,
    and under \<open>get_row\<close>, \<open>return_row\<close> and \<open>cleanup\<close> (\<open>row.cpp\<close>, \<open>txn.cpp\<close>).  \<open>Lock_System\<close> interprets
    \<open>wait_order\<close> for \<open>WAIT_DIE\<close>.
  \<^item> \<open>Lock_Order\<close>: transactions that ask for rows in key order, with another interpretation of \<open>wait_order\<close>; it
    justifies that \<open>config.h\<close> turns the search for deadlocks off when requests are sorted.
  \<^item> \<open>Dl_Detect\<close>: \<open>dl_detect.cpp\<close>.  The search visits every thread at most once, so as much fuel as there are
    threads is enough, which \<open>detect_cycle_correct\<close> proves.
  \<^item> \<open>Part_Lock\<close>: \<open>plock.cpp\<close>, with an interpretation of \<open>wait_order\<close>.
  \<^item> \<open>Row_Mvcc\<close>, \<open>Row_Ts\<close>: \<open>row_mvcc.cpp\<close> and \<open>row_ts.cpp\<close>.  Every further round of \<open>update_buffer\<close> has woken a
    read, so the number of waiting reads bounds the rounds.  \<open>Mvcc_System\<close> puts a multi-version row together with the
    timestamps of the threads, so that versions are recycled below what \<open>get_min_ts\<close> returns.
  \<^item> \<open>Occ_Valid\<close>, \<open>Occ_System\<close>: \<open>occ.cpp\<close> and \<open>row_occ.cpp\<close>; the second has the interleaved steps of
    \<open>per_row_validate\<close> and an interpretation of \<open>wait_order\<close> for the latches.
  \<^item> \<open>Vll\<close>: \<open>vll.cpp\<close> and \<open>row_vll.cpp\<close>.
  \<^item> \<open>Db_Manager\<close>: timestamps (\<open>manager.cpp\<close>, \<open>thread.cpp\<close>) and merged keys (\<open>helper.cpp\<close>).
  \<^item> \<open>Index_Hash\<close>: \<open>index_hash.cpp\<close>.
  \<^item> \<open>Index_Btree\<close>: the operations of \<open>index_btree.cpp\<close> on a heap of nodes.  \<open>Btree_Tree\<close> has the trees that the
    heap holds and the insertion on them, \<open>Btree_Heap\<close>, \<open>Btree_Refine\<close> and \<open>Btree_Up\<close> relate the way up of an
    insertion on the heap to the one on the tree, \<open>Btree_Find\<close> the way down, \<open>Btree_Leaf\<close> the leaf,
    \<open>Btree_Index\<close> the whole insertion, and \<open>Btree_Scan\<close> and \<open>Btree_Load\<close> reads, scans and loads.
  \<^item> \<open>Index_Base\<close>: the interface of both indexes (\<open>index_base.h\<close>) as a locale, which both interpret.
  \<^item> \<open>Db_Row\<close>: schemas and the bytes of a row (\<open>catalog.cpp\<close>, \<open>row.cpp\<close>).
  \<^item> \<open>Tpcc_Key\<close>: keys, last names and the items of a new order (\<open>tpcc_helper.cpp\<close>, \<open>tpcc_query.cpp\<close>).
  \<^item> \<open>Txn_Script\<close>: one transaction from its first request to \<open>finish\<close>, with the rollback (\<open>txn.cpp\<close>).
  \<^item> \<open>Tpcc_Txn\<close>: payment and new order of \<open>tpcc_txn.cpp\<close> and, in the order that QURO proposes, of
    \<open>temp_transaction_file/reorder_tpcc_txn.cpp\<close>.
  \<^item> \<open>Tpcc_Schema\<close>, \<open>Tpcc_Order\<close>, \<open>Tpcc_History\<close>: what they do to the columns of the schema file, that both orders
    have the same effect, which rows they ask for when, and what holds after a history of them.
  \<^item> \<open>Ycsb\<close>: the requests of a query (\<open>ycsb_query.cpp\<close>), the table (\<open>ycsb_wl.cpp\<close>) and the transaction
    (\<open>ycsb_txn.cpp\<close>).

  \<^bold>\<open>What is shown\<close>.  For QURO: the statement order keeps every dependence when blocks read earlier blocks, the query
  order is a greedy topological order, the closure of the dependences and one representative for each group of
  blocks, the iteration computes the least solution of its equations where it ends and is sound on paths, which definitions
  the renaming renames and the text it leaves.  For DBx1000: the rows refine a store that
  changes at commits only, for the locking schemes and for optimistic validation; mutual exclusion, absence of
  deadlocks, stability of what has been read, uniqueness of timestamps, refinement of the lists; that both
  indexes are maps from keys to chains of items, that an insertion into the B+ tree keeps it balanced, sorted
  and linked, and when it crashes; and that no assertion of the locking, partition and multi-version code can fail in the
  calls the program makes.  For the integer programs: their solutions are exactly the orders that keep the
  dependences, QURO's own order is one of them.  For TPC-C, where QURO's result runs on DBx1000: the reordered
  transactions have the effect of the original ones or none, whatever the concurrency control answers, they
  ask for the contended row later, orders are numbered without a gap, and the stock stays in its
  range.  For YCSB: the requests have different keys, sorted when they should be, a transaction is atomic, the parallel load
  leaves no key out, and transactions with sorted requests cannot deadlock.  Theorems that are not positive state defects; the manifest lists them.

  \<^bold>\<open>Conventions\<close>.  A failing assertion, a null pointer and an access out of bounds are \<open>None\<close>.  A call that holds
  a latch is one step.  Memory is not freed.  Loops that may not end are \<open>while_option\<close> or have fuel, and the
  theorems that they end are stated as such.  Code that is not in the repository is a parameter: the arithmetic of
  \<open>double\<close>, the contents of fresh memory and the answers of the concurrency control for TPC-C, the
  meaning of a row of an integer program for the solvers, what \<open>rand\<close> and \<open>zipf\<close> return.  A transaction of up to fifteen lines stays below the 64
  rows that \<open>MAX_ROW_PER_TXN\<close> allows.  The B+ tree has one partition and no latches, as \<open>config.h\<close> sets them;
  64 levels are the most that keys of 64 bits can fill, below the 100 that \<open>ex_list\<close> has room for.

  \<^bold>\<open>Not modelled\<close>.  The walk over the clang syntax tree and the copied live-variable analysis of QURO; the
  filling of the tables with random values, statistics, allocator and start of DBx1000; the
  solvers themselves and their driver \<open>lp.cpp\<close>; the TPC-E kit with its stored procedures under
  \<open>src/quro_experiments\<close>, which is vendored code that talks to a database.
\<close>

end
